(* ===== verification/Prelude.thy ===== *)
theory Prelude
  imports Main "HOL-Library.Word" "HOL-Library.Char_ord" "HOL-Library.List_Lexorder"
begin

text \<open>
  What every component shares: the types that stand for Go's basic types, the outcome of a
  method that mutates its receiver, the operations of Go's package \<open>slices\<close> the sources
  call (with the storage effect of \<open>slices.Delete\<close>), and the list lemmas the component
  proofs use. Nothing here models a line of the repository; it models the part of the
  language and of its standard library that the modelled lines rest on.
\<close>

named_theorems slice_defs \<open>the definitions of the slice operations\<close>

subsection \<open>Types\<close>

text \<open>A Go \<open>string\<close> is a sequence of bytes, compared byte by byte: here a HOL
  \<open>string\<close>, with the order of List_Lexorder over Char_ord. A \<open>uuid.UUID\<close> is an
  array of 16 bytes; \<open>bytes.Compare\<close> on it is the unsigned order of the 128-bit word.\<close>

type_synonym uuid = "128 word"

text \<open>
  A method with a pointer receiver and an error result leaves a state behind on both paths,
  and the source's comments make promises about the state left by a failing call. So the
  outcome of a failing call holds the error and the state.
\<close>

datatype ('e, 's) outcome = Done 's | Failed 'e 's

fun state_of :: "('e, 's) outcome \<Rightarrow> 's" where
  "state_of (Done s) = s"
| "state_of (Failed e s) = s"

fun error_of :: "('e, 's) outcome \<Rightarrow> 'e option" where
  "error_of (Done s) = None"
| "error_of (Failed e s) = Some e"

abbreviation is_done :: "('e, 's) outcome \<Rightarrow> bool" where
  "is_done r \<equiv> error_of r = None"

subsection \<open>Slices\<close>

text \<open>\<open>slices.Insert(s, i, v...)\<close>, for an index in range.\<close>

definition slice_insert :: "'a list \<Rightarrow> nat \<Rightarrow> 'a list \<Rightarrow> 'a list" where
  [slice_defs]: "slice_insert xs i ys = take i xs @ ys @ drop i xs"

text \<open>\<open>slices.Delete(s, i, j)\<close> returns the shorter slice \dots\<close>

definition slice_delete :: "'a list \<Rightarrow> nat \<Rightarrow> nat \<Rightarrow> 'a list" where
  [slice_defs]: "slice_delete xs i j = take i xs @ drop j xs"

text \<open>
  \dots and works in the storage of its argument: it moves the tail down and clears the
  elements that fall off the end. A caller that keeps using the old slice header (same
  length, same storage) sees this.
\<close>

definition slice_delete_storage :: "'a \<Rightarrow> 'a list \<Rightarrow> nat \<Rightarrow> nat \<Rightarrow> 'a list" where
  [slice_defs]: "slice_delete_storage zero xs i j =
     take i xs @ drop j xs @ replicate (j - i) zero"

fun find_index :: "('a \<Rightarrow> bool) \<Rightarrow> 'a list \<Rightarrow> nat option" where
  "find_index P [] = None"
| "find_index P (x # xs) = (if P x then Some 0 else map_option Suc (find_index P xs))"

lemma find_index_None: "find_index P xs = None \<longleftrightarrow> (\<forall>x\<in>set xs. \<not> P x)"
  by (induction xs) auto

lemma find_index_Some:
  "find_index P xs = Some i \<longleftrightarrow> i < length xs \<and> P (xs ! i) \<and> (\<forall>j<i. \<not> P (xs ! j))"
proof (induction xs arbitrary: i)
  case (Cons x xs)
  then show ?case
    by (cases i) (auto simp: less_Suc_eq_0_disj)
qed simp

lemma find_index_split:
  assumes "\<forall>x\<in>set xs. \<not> P x" and "P y"
  shows "find_index P (xs @ y # ys) = Some (length xs)"
  using assms by (induction xs) auto

lemma find_indexE:
  assumes "find_index P zs = Some i"
  obtains xs y ys where "zs = xs @ y # ys" "length xs = i" "P y" "\<forall>x\<in>set xs. \<not> P x"
proof -
  from assms have i: "i < length zs" "P (zs ! i)" "\<forall>j<i. \<not> P (zs ! j)"
    by (auto simp: find_index_Some)
  have "zs = take i zs @ zs ! i # drop (Suc i) zs"
    using i(1) by (rule id_take_nth_drop)
  moreover have "\<forall>x\<in>set (take i zs). \<not> P x"
    using i by (auto simp: in_set_conv_nth)
  ultimately show thesis
    using that[of "take i zs" "zs ! i" "drop (Suc i) zs"] i by auto
qed

lemma slice_insert_split [simp]:
  "length xs = i \<Longrightarrow> slice_insert (xs @ ys) i zs = xs @ zs @ ys"
  by (simp add: slice_insert_def)

lemma slice_insert_0 [simp]: "slice_insert xs 0 ys = ys @ xs"
  by (simp add: slice_insert_def)

lemma slice_delete_split [simp]:
  "length xs = i \<Longrightarrow> j = i + length ys \<Longrightarrow> slice_delete (xs @ ys @ zs) i j = xs @ zs"
  by (simp add: slice_delete_def)

lemma length_slice_insert [simp]: "length (slice_insert xs i ys) = length xs + length ys"
  by (simp add: slice_insert_def)

lemma set_slice_insert [simp]: "set (slice_insert xs i ys) = set xs \<union> set ys"
proof -
  have "set xs = set (take i xs) \<union> set (drop i xs)"
    by (metis append_take_drop_id set_append)
  then show ?thesis
    by (auto simp: slice_insert_def)
qed

lemma slice_delete_insert:
  "i \<le> length xs \<Longrightarrow> slice_delete (slice_insert xs i ys) i (i + length ys) = xs"
  by (simp add: slice_insert_def slice_delete_def)

lemma slice_insert_delete:
  "i \<le> j \<Longrightarrow> j \<le> length xs \<Longrightarrow>
   slice_insert (slice_delete xs i j) i (drop i (take j xs)) = xs"
  by (simp add: slice_insert_def slice_delete_def min_def drop_take)
     (metis append_take_drop_id drop_drop le_add_diff_inverse2)

subsection \<open>Sums and options\<close>

text \<open>Sequencing of calls that return \<open>(value, error)\<close>: the first error is returned.\<close>

fun and_then :: "'e + 'a \<Rightarrow> ('a \<Rightarrow> 'e + 'b) \<Rightarrow> 'e + 'b" where
  "and_then (Inl e) f = Inl e"
| "and_then (Inr a) f = f a"

lemma and_then_Inr [simp]: "and_then m f = Inr b \<longleftrightarrow> (\<exists>a. m = Inr a \<and> f a = Inr b)"
  by (cases m) auto

lemma and_then_Inl: "and_then m f = Inl e \<longleftrightarrow> m = Inl e \<or> (\<exists>a. m = Inr a \<and> f a = Inl e)"
  by (cases m) auto

text \<open>A Go integer of type \<open>int\<close> that indexes or measures: the model keeps the signed
  values the code compares with 0, and a \<open>nat\<close> where the code has checked them.\<close>

abbreviation in_bounds :: "int \<Rightarrow> nat \<Rightarrow> bool" where
  "in_bounds i n \<equiv> 0 \<le> i \<and> i \<le> int n"


lemma find_skip: "\<forall>x\<in>set xs. \<not> P x \<Longrightarrow> P y \<Longrightarrow> List.find P (xs @ y # ys) = Some y"
  by (induction xs) auto

lemma find_SomeE:
  assumes "List.find P xs = Some y"
  obtains us vs where "xs = us @ y # vs" "P y" "\<forall>x\<in>set us. \<not> P x"
proof -
  from assms obtain i where i: "i < length xs" "P (xs ! i)" "y = xs ! i" "\<forall>j<i. \<not> P (xs ! j)"
    by (auto simp: find_Some_iff)
  have "xs = take i xs @ y # drop (Suc i) xs" using i id_take_nth_drop by simp
  moreover have "\<forall>x\<in>set (take i xs). \<not> P x" using i by (auto simp: in_set_conv_nth)
  ultimately show ?thesis using that i by blast
qed

end
