(* ===== verification/Utf8.thy ===== *)
theory Utf8
  imports Prelude
begin

text \<open>
  The part of Go's \<open>unicode/utf8\<close> the sources use: \<open>RuneStart\<close>, \<open>DecodeRuneInString\<close>
  (with its table of accepted second bytes, so that every invalid sequence decodes to
  U+FFFD of size 1, as in Go), \<open>RuneCountInString\<close> and the conversion \<open>[]rune(s)\<close>.
  The lemmas say when decoding distributes over concatenation: always, if the second string
  does not start inside a rune.
\<close>

abbreviation byte_of :: "char \<Rightarrow> nat" where
  "byte_of c \<equiv> of_char c"

definition rune_start :: "char \<Rightarrow> bool" where
  "rune_start c \<longleftrightarrow> byte_of c div 64 \<noteq> 2"

abbreviation rune_error :: nat where "rune_error \<equiv> 65533"

definition rune_width :: "nat \<Rightarrow> nat" where
  "rune_width p0 = (if p0 < 224 then 2 else if p0 < 240 then 3 else 4)"

definition second_lo :: "nat \<Rightarrow> nat" where
  "second_lo p0 = (if p0 = 224 then 160 else if p0 = 240 then 144 else 128)"

definition second_hi :: "nat \<Rightarrow> nat" where
  "second_hi p0 = (if p0 = 237 then 159 else if p0 = 244 then 143 else 191)"

abbreviation continuation :: "nat \<Rightarrow> bool" where
  "continuation b \<equiv> 128 \<le> b \<and> b \<le> 191"

definition decode_rune :: "string \<Rightarrow> nat \<times> nat" where
  "decode_rune s = (case s of [] \<Rightarrow> (rune_error, 0) | c # _ \<Rightarrow>
     (let p0 = byte_of c in
      if p0 < 128 then (p0, 1)
      else if p0 < 194 \<or> 245 \<le> p0 then (rune_error, 1)
      else if length s < rune_width p0 then (rune_error, 1)
      else if byte_of (s ! 1) < second_lo p0 \<or> second_hi p0 < byte_of (s ! 1)
        then (rune_error, 1)
      else if rune_width p0 = 2
        then (p0 mod 32 * 64 + byte_of (s ! 1) mod 64, 2)
      else if \<not> continuation (byte_of (s ! 2)) then (rune_error, 1)
      else if rune_width p0 = 3
        then (p0 mod 16 * 4096 + byte_of (s ! 1) mod 64 * 64 + byte_of (s ! 2) mod 64, 3)
      else if \<not> continuation (byte_of (s ! 3)) then (rune_error, 1)
      else (p0 mod 8 * 262144 + byte_of (s ! 1) mod 64 * 4096
              + byte_of (s ! 2) mod 64 * 64 + byte_of (s ! 3) mod 64, 4)))"

definition rune_size :: "string \<Rightarrow> nat" where
  "rune_size s = snd (decode_rune s)"

lemma rune_size_Nil [simp]: "rune_size [] = 0"
  by (simp add: rune_size_def decode_rune_def)

lemma rune_size_bounds: "s \<noteq> [] \<Longrightarrow> 1 \<le> rune_size s \<and> rune_size s \<le> length s"
  by (auto simp: rune_size_def decode_rune_def Let_def rune_width_def neq_Nil_conv)

lemma rune_size_le [simp]: "rune_size s \<le> length s"
  using rune_size_bounds[of s] by (cases s) auto

lemma rune_size_le4: "rune_size s \<le> 4"
  by (auto simp: rune_size_def decode_rune_def Let_def split: list.split)

function runes :: "string \<Rightarrow> nat list" where
  "runes [] = []"
| "runes (c # cs) = fst (decode_rune (c # cs)) # runes (drop (rune_size (c # cs)) (c # cs))"
  by pat_completeness auto
termination
proof (relation "measure length")
  fix c cs
  show "(drop (rune_size (c # cs)) (c # cs), c # cs) \<in> measure length"
    using rune_size_bounds[of "c # cs"] by simp
qed simp

lemmas runes_Cons_simp = runes.simps(2)
declare runes.simps(2) [simp del]

definition rune_count :: "string \<Rightarrow> nat" where
  "rune_count s = length (runes s)"

lemma runes_unfold:
  "s \<noteq> [] \<Longrightarrow> runes s = fst (decode_rune s) # runes (drop (rune_size s) s)"
  by (cases s) (simp_all add: runes.simps(2))

lemma runes_Nil_iff [simp]: "runes s = [] \<longleftrightarrow> s = []"
  by (cases s) (simp_all add: runes.simps(2))

lemma rune_count_Nil [simp]: "rune_count [] = 0"
  by (simp add: rune_count_def)

lemma rune_count_0_iff [simp]: "rune_count s = 0 \<longleftrightarrow> s = []"
  by (simp add: rune_count_def)

lemma rune_count_unfold:
  "s \<noteq> [] \<Longrightarrow> rune_count s = Suc (rune_count (drop (rune_size s) s))"
  by (simp add: rune_count_def runes_unfold)

subsection \<open>Boundaries\<close>

definition starts_rune :: "string \<Rightarrow> bool" where
  "starts_rune s \<longleftrightarrow> s = [] \<or> rune_start (hd s)"

lemma starts_rune_Nil [simp]: "starts_rune []"
  by (simp add: starts_rune_def)

lemma not_rune_start: "rune_start c \<Longrightarrow> \<not> continuation (byte_of c)"
  by (auto simp: rune_start_def)

lemma second_range: "second_lo p \<le> b \<Longrightarrow> b \<le> second_hi p \<Longrightarrow> continuation b"
  by (auto simp: second_lo_def second_hi_def split: if_splits)

lemma decode_rune_append:
  assumes "s \<noteq> []" and "starts_rune t"
  shows "decode_rune (s @ t) = decode_rune s"
proof (cases "t = []")
  case False
  then have nt: "\<not> continuation (byte_of ((s @ t) ! length s))"
    using assms(2) by (auto simp: starts_rune_def nth_append hd_conv_nth dest: not_rune_start)
  obtain c cs where s: "s = c # cs" using assms(1) by (cases s) auto
  consider "length s = 1" | "length s = 2" | "length s = 3" | "4 \<le> length s"
    using s by (cases "length cs") (auto, arith)
  then show ?thesis
  proof cases
    case 1
    then have "\<not> (second_lo (byte_of c) \<le> byte_of ((s @ t) ! 1)
                   \<and> byte_of ((s @ t) ! 1) \<le> second_hi (byte_of c))"
      using nt second_range by metis
    then show ?thesis
      using 1 s by (auto simp: decode_rune_def Let_def rune_width_def)
  next
    case 2
    then show ?thesis
      using nt s by (auto simp: decode_rune_def Let_def rune_width_def nth_append)
  next
    case 3
    then show ?thesis
      using nt s by (auto simp: decode_rune_def Let_def rune_width_def nth_append)
  next
    case 4
    then obtain c1 c2 c3 c4 r where "s = c1 # c2 # c3 # c4 # r"
      by (auto simp: numeral_eq_Suc Suc_le_length_iff)
    then show ?thesis
      by (simp add: decode_rune_def Let_def rune_width_def)
  qed
qed simp

lemma rune_size_append:
  "s \<noteq> [] \<Longrightarrow> starts_rune t \<Longrightarrow> rune_size (s @ t) = rune_size s"
  by (simp add: rune_size_def decode_rune_append)

lemma drop_rune_append [simp]: "drop (rune_size s) (s @ t) = drop (rune_size s) s @ t"
  by simp

lemma runes_append: "starts_rune t \<Longrightarrow> runes (s @ t) = runes s @ runes t"
proof (induction s rule: runes.induct)
  case (2 c cs)
  let ?s = "c # cs"
  have ne: "?s \<noteq> []" by simp
  have "runes (?s @ t) = fst (decode_rune (?s @ t)) # runes (drop (rune_size (?s @ t)) (?s @ t))"
    by (rule runes_unfold) simp
  also have "\<dots> = fst (decode_rune ?s) # runes (drop (rune_size ?s) ?s @ t)"
    by (simp only: decode_rune_append[OF ne 2(2)] rune_size_append[OF ne 2(2)] drop_rune_append)
  also have "\<dots> = runes ?s @ runes t"
    using 2 by (simp add: runes_unfold[of ?s])
  finally show ?case .
qed simp

lemma rune_count_append:
  "starts_rune t \<Longrightarrow> rune_count (s @ t) = rune_count s + rune_count t"
  by (simp add: rune_count_def runes_append)

lemma starts_rune_append: "s \<noteq> [] \<Longrightarrow> starts_rune (s @ t) = starts_rune s"
  by (simp add: starts_rune_def)

subsection \<open>Valid strings and the byte offset of a rune\<close>

text \<open>A string is valid UTF-8 if no step of decoding it reports an error, that is if
  every step consumes an ASCII byte or a whole sequence of two to four bytes.\<close>

function valid_utf8 :: "string \<Rightarrow> bool" where
  "valid_utf8 [] = True"
| "valid_utf8 (c # cs) =
     ((byte_of c < 128 \<or> 2 \<le> rune_size (c # cs))
      \<and> valid_utf8 (drop (rune_size (c # cs)) (c # cs)))"
  by pat_completeness auto
termination
proof (relation "measure length")
  fix c cs
  show "(drop (rune_size (c # cs)) (c # cs), c # cs) \<in> measure length"
    using rune_size_bounds[of "c # cs"] by simp
qed simp

lemmas valid_utf8_Cons = valid_utf8.simps(2)
declare valid_utf8.simps(2) [simp del]

lemma valid_utf8_starts: "valid_utf8 s \<Longrightarrow> starts_rune s"
  by (cases s)
     (auto simp: valid_utf8.simps(2) starts_rune_def rune_start_def rune_size_def decode_rune_def
        Let_def split: if_splits)

lemma valid_utf8_append: "valid_utf8 s \<Longrightarrow> valid_utf8 t \<Longrightarrow> valid_utf8 (s @ t)"
proof (induction s rule: valid_utf8.induct)
  case (2 c cs)
  have k: "rune_size (c # cs @ t) = rune_size (c # cs)"
    using rune_size_append[of "c # cs" t] 2(3) valid_utf8_starts by simp
  have d: "drop (rune_size (c # cs)) (c # cs @ t) = drop (rune_size (c # cs)) (c # cs) @ t"
    using drop_rune_append[of "c # cs" t] by simp
  show ?case
    using 2 by (simp add: valid_utf8.simps(2)[of c "cs @ t"] valid_utf8.simps(2)[of c cs] k d)
qed simp

text \<open>The number of bytes the first \<open>n\<close> runes take: the loop of rope's byteOffsetForRune.\<close>

fun rune_bytes :: "nat \<Rightarrow> string \<Rightarrow> nat" where
  "rune_bytes 0 s = 0"
| "rune_bytes (Suc n) s = rune_size s + rune_bytes n (drop (rune_size s) s)"

lemma rune_bytes_Nil [simp]: "rune_bytes n [] = 0"
  by (induction n) auto

lemma rune_bytes_le: "rune_bytes n s \<le> length s"
proof (induction n arbitrary: s)
  case (Suc n)
  have "rune_bytes n (drop (rune_size s) s) \<le> length s - rune_size s"
    using Suc[of "drop (rune_size s) s"] by simp
  then show ?case
    unfolding rune_bytes.simps using rune_size_le[of s] by linarith
qed simp

lemma rune_bytes_all: "rune_bytes (rune_count s) s = length s"
proof (induction s rule: runes.induct)
  case (2 c cs)
  have "rune_bytes (rune_count (drop (rune_size (c # cs)) (c # cs)))
          (drop (rune_size (c # cs)) (c # cs)) = length (drop (rune_size (c # cs)) (c # cs))"
    by (rule 2)
  then show ?case
    using rune_size_le[of "c # cs"] by (simp add: rune_count_unfold)
qed simp

lemma valid_drop_runes: "valid_utf8 s \<Longrightarrow> valid_utf8 (drop (rune_bytes n s) s)"
proof (induction n arbitrary: s)
  case (Suc n)
  show ?case
  proof (cases s)
    case (Cons c cs)
    then have "valid_utf8 (drop (rune_size s) s)"
      using Suc.prems by (simp add: valid_utf8.simps(2))
    from Suc.IH[OF this] show ?thesis
      by (simp add: add.commute)
  qed simp
qed simp

lemma rune_bytes_append:
  "starts_rune t \<Longrightarrow> rune_bytes n (s @ t) =
     (if n \<le> rune_count s then rune_bytes n s else length s + rune_bytes (n - rune_count s) t)"
proof (induction n arbitrary: s)
  case (Suc n)
  show ?case
  proof (cases "s = []")
    case False
    then have rs: "rune_size (s @ t) = rune_size s"
      using Suc.prems by (rule rune_size_append)
    have len: "rune_size s + length (drop (rune_size s) s) = length s"
      by simp
    let ?r = "drop (rune_size s) s"
    have "rune_bytes (Suc n) (s @ t) = rune_size s + rune_bytes n (?r @ t)"
      by (simp only: rune_bytes.simps rs drop_rune_append)
    also have "\<dots> = rune_size s + (if n \<le> rune_count ?r then rune_bytes n ?r
                   else length ?r + rune_bytes (n - rune_count ?r) t)"
      by (simp only: Suc.IH[OF Suc.prems])
    finally show ?thesis
      using False len by (simp add: rune_count_unfold del: length_drop)
  qed simp
qed simp

lemma rune_bytes_starts: "valid_utf8 s \<Longrightarrow> starts_rune (drop (rune_bytes n s) s)"
  by (simp add: valid_drop_runes valid_utf8_starts)

lemma rune_bytes_split:
  assumes "n \<le> rune_count s"
  shows "\<exists>a b. s = a @ b \<and> length a = rune_bytes n s \<and> runes b = drop n (runes s)"
  using assms
proof (induction n arbitrary: s)
  case (Suc n)
  then have ne: "s \<noteq> []" by auto
  then have "n \<le> rune_count (drop (rune_size s) s)"
    using Suc.prems by (simp add: rune_count_unfold)
  from Suc.IH[OF this] obtain a b where
    ab: "drop (rune_size s) s = a @ b" "length a = rune_bytes n (drop (rune_size s) s)"
      "runes b = drop n (runes (drop (rune_size s) s))" by blast
  have "s = (take (rune_size s) s @ a) @ b"
    using ab(1) by (metis append.assoc append_take_drop_id)
  moreover have "length (take (rune_size s) s @ a) = rune_bytes (Suc n) s"
    using ab(2) by simp
  moreover have "runes b = drop (Suc n) (runes s)"
    using ab(3) ne by (simp add: runes_unfold)
  ultimately show ?case by blast
qed (auto intro!: exI[of _ "[]"])

lemma runes_drop_bytes:
  assumes "n \<le> rune_count s"
  shows "runes (drop (rune_bytes n s) s) = drop n (runes s)"
  using rune_bytes_split[OF assms] by auto

lemma runes_take_bytes:
  assumes "valid_utf8 s" and "n \<le> rune_count s"
  shows "runes (take (rune_bytes n s) s) = take n (runes s)"
proof -
  have "runes s = runes (take (rune_bytes n s) s) @ runes (drop (rune_bytes n s) s)"
    by (metis append_take_drop_id assms(1) rune_bytes_starts runes_append)
  also have "\<dots> = runes (take (rune_bytes n s) s) @ drop n (runes s)"
    by (simp add: runes_drop_bytes assms)
  finally have eq: "runes s = \<dots>" .
  then have "length (runes (take (rune_bytes n s) s)) = n"
    using assms(2) by (metis add_diff_cancel_right' diff_diff_cancel length_append length_drop
        rune_count_def)
  then show ?thesis
    using eq by (metis append_eq_conv_conj)
qed

lemma valid_take_runes:
  assumes "valid_utf8 s"
  shows "valid_utf8 (take (rune_bytes n s) s)"
  using assms
proof (induction n arbitrary: s)
  case (Suc n)
  show ?case
  proof (cases s)
    case (Cons c cs)
    let ?k = "rune_size s" and ?r = "drop (rune_size s) s"
    have v: "valid_utf8 ?r" and h: "byte_of c < 128 \<or> 2 \<le> ?k"
      using Suc.prems Cons by (simp_all add: valid_utf8.simps(2))
    have ne: "take ?k s \<noteq> []" and k: "?k \<le> length s"
      using Cons rune_size_bounds[of s] by auto
    have k1: "rune_size (take ?k s) = ?k"
      using rune_size_append[OF ne valid_utf8_starts[OF v]] by simp
    obtain d ds where d: "take ?k s = d # ds" using ne by (cases "take ?k s") auto
    then have "d = c" using Cons by (cases ?k) auto
    then have "valid_utf8 (take ?k s)"
      using h k1 d k by (metis drop_all length_take min.absorb2 order_refl valid_utf8.simps)
    moreover have "take (rune_bytes (Suc n) s) s = take ?k s @ take (rune_bytes n ?r) ?r"
      by (simp add: take_add)
    ultimately show ?thesis
      using Suc.IH[OF v] by (simp add: valid_utf8_append)
  qed simp
qed simp

text \<open>Inside a valid string a boundary is the end of a whole number of runes.\<close>

lemma rune_body:
  assumes "valid_utf8 s" and "0 < j" and "j < rune_size s"
  shows "\<not> rune_start (s ! j)"
proof -
  have c: "\<not> rune_start x" if "continuation (byte_of x)" for x
    using that by (auto simp: rune_start_def)
  obtain a as where s: "s = a # as" using assms(3) by (cases s) auto
  have "rune_size s = 2 \<and> j = 1 \<and> continuation (byte_of (s ! 1))
     \<or> rune_size s = 3 \<and> (j = 1 \<or> j = 2) \<and> continuation (byte_of (s ! 1)) \<and> continuation (byte_of (s ! 2))
     \<or> rune_size s = 4 \<and> (j = 1 \<or> j = 2 \<or> j = 3) \<and> continuation (byte_of (s ! 1))
        \<and> continuation (byte_of (s ! 2)) \<and> continuation (byte_of (s ! 3))"
    using assms(2,3) s second_range[of "byte_of a" "byte_of (s ! 1)"]
    by (auto simp: rune_size_def decode_rune_def Let_def rune_width_def split: if_splits)
  then show ?thesis using c by auto
qed

lemma boundary_is_rune_end:
  assumes "valid_utf8 s" and "i \<le> length s" and "starts_rune (drop i s)"
  shows "\<exists>n \<le> rune_count s. i = rune_bytes n s"
  using assms
proof (induction s arbitrary: i rule: runes.induct)
  case (2 c cs)
  let ?s = "c # cs" and ?k = "rune_size (c # cs)"
  show ?case
  proof (cases "i = 0")
    case False
    have "?k \<le> i"
    proof (rule ccontr)
      assume "\<not> ?k \<le> i"
      then have "\<not> rune_start (?s ! i)" "i < length ?s"
        using rune_body[OF 2(2), of i] False rune_size_le[of ?s] by linarith+
      then show False using 2(4) by (simp add: starts_rune_def hd_drop_conv_nth)
    qed
    moreover have "valid_utf8 (drop ?k ?s)" using 2(2) by (simp add: valid_utf8.simps(2))
    ultimately obtain n where n: "n \<le> rune_count (drop ?k ?s)" "i - ?k = rune_bytes n (drop ?k ?s)"
    proof -
      have "i - ?k \<le> length (drop ?k ?s)" unfolding length_drop using 2(3) by (rule diff_le_mono)
      moreover have "starts_rune (drop (i - ?k) (drop ?k ?s))"
        unfolding drop_drop using 2(4) \<open>?k \<le> i\<close> by simp
      ultimately show ?thesis
        using 2(1)[OF \<open>valid_utf8 (drop ?k ?s)\<close>] that by blast
    qed
    have "rune_count ?s = Suc (rune_count (drop ?k ?s))" by (rule rune_count_unfold) simp
    then show ?thesis
      using n \<open>?k \<le> i\<close> by (intro exI[of _ "Suc n"]) (simp del: drop_Cons)
  qed (auto intro: exI[of _ 0])
qed (auto intro: exI[of _ 0])

lemma valid_split:
  assumes "valid_utf8 s" and "i \<le> length s" and "starts_rune (drop i s)"
  shows "valid_utf8 (take i s)" and "valid_utf8 (drop i s)"
  using boundary_is_rune_end[OF assms] valid_take_runes[OF assms(1)] valid_drop_runes[OF assms(1)]
  by auto

text \<open>A rune count determines where a string is cut.\<close>

lemma rune_cut2:
  assumes "A @ B = A' @ B'" and "rune_count A = rune_count A'" and "starts_rune B" and "starts_rune B'"
  shows "A = A' \<and> B = B'"
proof -
  have "rune_bytes (rune_count A) (A @ B) = length A" "rune_bytes (rune_count A') (A' @ B') = length A'"
    using rune_bytes_append[OF assms(3), of "rune_count A" A]
      rune_bytes_append[OF assms(4), of "rune_count A'" A'] rune_bytes_all by simp_all
  then have "length A = length A'" using assms(1,2) by simp
  then show ?thesis using assms(1) by simp
qed

lemma rune_cut3:
  assumes "A @ S @ B = A' @ S' @ B'" and "rune_count A = rune_count A'" and "rune_count S = rune_count S'"
    and "valid_utf8 S" "valid_utf8 B" "valid_utf8 S'" "valid_utf8 B'"
  shows "A = A' \<and> S = S' \<and> B = B'"
proof -
  have "A = A' \<and> S @ B = S' @ B'"
    using assms valid_utf8_append valid_utf8_starts by (intro rune_cut2) auto
  then show ?thesis using rune_cut2[of S B S' B'] assms valid_utf8_starts by auto
qed

end
