(* ===== verification/Blocks.thy ===== *)
theory Blocks
  imports Utf8
begin

text \<open>
  Module documentcore, files ids.go and block.go: the block variants, their attributes, the
  validating constructors, and the wire form of a block kind. The wire form is modelled at
  the level of the struct \<open>blockKindJSON\<close> that \<open>encoding/json\<close> reads and writes: an
  omitted field decodes to its zero value, so a struct is what crosses the wire. The textual
  form of a UUID belongs to the package google/uuid, which is not part of the repository: its
  \<open>String\<close> and \<open>Parse\<close> are the parameters \<open>ustr\<close> and \<open>uparse\<close>.
\<close>

subsection \<open>Variants\<close>

datatype BlockTag = Paragraph | Heading | Quote | CodeBlock | Divider | ListTag | ListItem
  | Toggle | Image | Callout | Aside

fun BlockTag_String :: "BlockTag \<Rightarrow> string" where
  "BlockTag_String Paragraph = ''paragraph''"
| "BlockTag_String Heading = ''heading''"
| "BlockTag_String Quote = ''quote''"
| "BlockTag_String CodeBlock = ''code_block''"
| "BlockTag_String Divider = ''divider''"
| "BlockTag_String ListTag = ''list''"
| "BlockTag_String ListItem = ''list_item''"
| "BlockTag_String Toggle = ''toggle''"
| "BlockTag_String Image = ''image''"
| "BlockTag_String Callout = ''callout''"
| "BlockTag_String Aside = ''aside''"

fun IsContainer :: "BlockTag \<Rightarrow> bool" where
  "IsContainer t = (case t of Quote \<Rightarrow> True | Toggle \<Rightarrow> True | ListTag \<Rightarrow> True | ListItem \<Rightarrow> True
     | Callout \<Rightarrow> True | Aside \<Rightarrow> True | _ \<Rightarrow> False)"

datatype ListKind = Bulleted | Numbered | Todo

fun ListKind_String :: "ListKind \<Rightarrow> string" where
  "ListKind_String Bulleted = ''bulleted''"
| "ListKind_String Numbered = ''numbered''"
| "ListKind_String Todo = ''todo''"

datatype CalloutTone = Warn | Note | Info | Tip | Danger | Success

fun CalloutTone_String :: "CalloutTone \<Rightarrow> string" where
  "CalloutTone_String Warn = ''warn''"
| "CalloutTone_String Note = ''note''"
| "CalloutTone_String Info = ''info''"
| "CalloutTone_String Tip = ''tip''"
| "CalloutTone_String Danger = ''danger''"
| "CalloutTone_String Success = ''success''"

datatype kind_error =
    InvalidListKindError string
  | InvalidCalloutToneError string
  | InvalidHeadingLevelError "8 word"
  | InvalidImageFileID string
  | UnknownBlockTag string

definition parseListKind :: "string \<Rightarrow> kind_error + ListKind" where
  "parseListKind s =
     (if s = ''bulleted'' then Inr Bulleted
      else if s = ''numbered'' then Inr Numbered
      else if s = ''todo'' then Inr Todo
      else Inl (InvalidListKindError s))"

definition parseCalloutTone :: "string \<Rightarrow> kind_error + CalloutTone" where
  "parseCalloutTone s =
     (if s = '''' \<or> s = ''warn'' then Inr Warn
      else if s = ''note'' then Inr Note
      else if s = ''info'' then Inr Info
      else if s = ''tip'' then Inr Tip
      else if s = ''danger'' then Inr Danger
      else if s = ''success'' then Inr Success
      else Inl (InvalidCalloutToneError s))"

subsection \<open>Block kinds\<close>

record BlockKind =
  Tag :: BlockTag
  Level :: "8 word"
  Language :: string
  ListKindOf :: ListKind
  Checked :: bool
  FileID :: uuid
  Tone :: CalloutTone
  Icon :: string
  Emoji :: string

text \<open>Go's zero value: what a composite literal leaves in the fields it does not name.\<close>

definition zero_kind :: BlockKind where
  "zero_kind = \<lparr>Tag = Paragraph, Level = 0, Language = '''', ListKindOf = Bulleted,
     Checked = False, FileID = 0, Tone = Warn, Icon = '''', Emoji = ''''\<rparr>"

definition NewParagraph :: BlockKind where
  "NewParagraph = zero_kind\<lparr>Tag := Paragraph\<rparr>"

definition NewQuote :: BlockKind where
  "NewQuote = zero_kind\<lparr>Tag := Quote\<rparr>"

definition NewDivider :: BlockKind where
  "NewDivider = zero_kind\<lparr>Tag := Divider\<rparr>"

definition NewToggle :: BlockKind where
  "NewToggle = zero_kind\<lparr>Tag := Toggle\<rparr>"

definition NewCodeBlock :: "string \<Rightarrow> BlockKind" where
  "NewCodeBlock language = zero_kind\<lparr>Tag := CodeBlock, Language := language\<rparr>"

definition NewHeading :: "8 word \<Rightarrow> kind_error + BlockKind" where
  "NewHeading level =
     (if level < 1 \<or> level > 3 then Inl (InvalidHeadingLevelError level)
      else Inr (zero_kind\<lparr>Tag := Heading, Level := level\<rparr>))"

definition NewList :: "ListKind \<Rightarrow> BlockKind" where
  "NewList kind = zero_kind\<lparr>Tag := ListTag, ListKindOf := kind\<rparr>"

definition NewListItem :: "bool \<Rightarrow> BlockKind" where
  "NewListItem checked = zero_kind\<lparr>Tag := ListItem, Checked := checked\<rparr>"

definition NewImage :: "uuid \<Rightarrow> BlockKind" where
  "NewImage fileID = zero_kind\<lparr>Tag := Image, FileID := fileID\<rparr>"

definition NewCallout :: "CalloutTone \<Rightarrow> string \<Rightarrow> BlockKind" where
  "NewCallout tone icon = zero_kind\<lparr>Tag := Callout, Tone := tone, Icon := icon\<rparr>"

definition NewAside :: "string \<Rightarrow> BlockKind" where
  "NewAside emoji = zero_kind\<lparr>Tag := Aside, Emoji := emoji\<rparr>"

lemmas New_defs = NewParagraph_def NewQuote_def NewDivider_def NewToggle_def NewCodeBlock_def
  NewList_def NewListItem_def NewImage_def NewCallout_def NewAside_def zero_kind_def

subsection \<open>The wire form\<close>

record blockKindJSON =
  j_tag :: string
  j_level :: "8 word"
  j_language :: string
  j_list_kind :: string
  j_checked :: bool
  j_file_id :: string
  j_tone :: string
  j_icon :: string
  j_emoji :: string

definition BlockKind_MarshalJSON :: "(uuid \<Rightarrow> string) \<Rightarrow> BlockKind \<Rightarrow> blockKindJSON" where
  "BlockKind_MarshalJSON ustr k =
     \<lparr>j_tag = BlockTag_String (Tag k), j_level = Level k, j_language = Language k,
      j_list_kind = (if Tag k = ListTag then ListKind_String (ListKindOf k) else ''''),
      j_checked = Checked k,
      j_file_id = (if Tag k = Image then ustr (FileID k) else ''''),
      j_tone = (if Tag k = Callout then CalloutTone_String (Tone k) else ''''),
      j_icon = Icon k, j_emoji = Emoji k\<rparr>"

definition BlockKind_UnmarshalJSON ::
  "(string \<Rightarrow> uuid option) \<Rightarrow> blockKindJSON \<Rightarrow> kind_error + BlockKind" where
  "BlockKind_UnmarshalJSON uparse raw =
     (let t = j_tag raw in
      if t = ''paragraph'' then Inr NewParagraph
      else if t = ''quote'' then Inr NewQuote
      else if t = ''divider'' then Inr NewDivider
      else if t = ''toggle'' then Inr NewToggle
      else if t = ''code_block'' then Inr (NewCodeBlock (j_language raw))
      else if t = ''heading'' then NewHeading (j_level raw)
      else if t = ''list'' then
        and_then (parseListKind (j_list_kind raw)) (\<lambda>lk. Inr (NewList lk))
      else if t = ''list_item'' then Inr (NewListItem (j_checked raw))
      else if t = ''image'' then
        (case uparse (j_file_id raw) of
           None \<Rightarrow> Inl (InvalidImageFileID (j_file_id raw))
         | Some fid \<Rightarrow> Inr (NewImage fid))
      else if t = ''callout'' then
        and_then (parseCalloutTone (j_tone raw)) (\<lambda>tone. Inr (NewCallout tone (j_icon raw)))
      else if t = ''aside'' then Inr (NewAside (j_emoji raw))
      else Inl (UnknownBlockTag t))"

subsection \<open>Canonical kinds\<close>

text \<open>The kinds the constructors build: a field that the tag does not use has its zero
  value, and a heading's level is in range. The comment on BlockKind asks for exactly this.\<close>

definition canonical_kind :: "BlockKind \<Rightarrow> bool" where
  "canonical_kind k \<longleftrightarrow> (case Tag k of
      Paragraph \<Rightarrow> k = NewParagraph
    | Heading \<Rightarrow> 1 \<le> Level k \<and> Level k \<le> 3 \<and> k = zero_kind\<lparr>Tag := Heading, Level := Level k\<rparr>
    | Quote \<Rightarrow> k = NewQuote
    | CodeBlock \<Rightarrow> k = NewCodeBlock (Language k)
    | Divider \<Rightarrow> k = NewDivider
    | ListTag \<Rightarrow> k = NewList (ListKindOf k)
    | ListItem \<Rightarrow> k = NewListItem (Checked k)
    | Toggle \<Rightarrow> k = NewToggle
    | Image \<Rightarrow> k = NewImage (FileID k)
    | Callout \<Rightarrow> k = NewCallout (Tone k) (Icon k)
    | Aside \<Rightarrow> k = NewAside (Emoji k))"

lemma parse_ListKind_String [simp]: "parseListKind (ListKind_String lk) = Inr lk"
  by (cases lk) (simp_all add: parseListKind_def)

lemma parse_CalloutTone_String [simp]: "parseCalloutTone (CalloutTone_String tone) = Inr tone"
  by (cases tone) (simp_all add: parseCalloutTone_def)

lemma NewHeading_canonical: "NewHeading l = Inr k \<Longrightarrow> canonical_kind k"
  by (auto simp: NewHeading_def canonical_kind_def zero_kind_def not_less word_le_nat_alt
      unat_eq_0 [symmetric] Suc_le_eq simp del: unat_eq_0 split: if_splits)

lemma New_canonical [simp]:
  "canonical_kind NewParagraph" "canonical_kind NewQuote" "canonical_kind NewDivider"
  "canonical_kind NewToggle" "canonical_kind (NewCodeBlock s)" "canonical_kind (NewList lk)"
  "canonical_kind (NewListItem c)" "canonical_kind (NewImage f)"
  "canonical_kind (NewCallout t i)" "canonical_kind (NewAside e)"
  by (simp_all add: canonical_kind_def New_defs)

lemma UnmarshalJSON_canonical:
  "BlockKind_UnmarshalJSON uparse raw = Inr k \<Longrightarrow> canonical_kind k"
  by (auto simp: BlockKind_UnmarshalJSON_def Let_def NewHeading_canonical split: if_splits option.splits)

lemma Unmarshal_Marshal:
  assumes "\<And>u. uparse (ustr u) = Some u" and "canonical_kind k"
  shows "BlockKind_UnmarshalJSON uparse (BlockKind_MarshalJSON ustr k) = Inr k"
proof (cases "Tag k")
  case Heading
  with assms(2) have "1 \<le> Level k" "Level k \<le> 3" "k = zero_kind\<lparr>Tag := Heading, Level := Level k\<rparr>"
    by (simp_all add: canonical_kind_def)
  then show ?thesis
    using Heading
    by (auto simp: BlockKind_UnmarshalJSON_def BlockKind_MarshalJSON_def Let_def NewHeading_def not_less)
qed (use assms in \<open>simp_all add: canonical_kind_def BlockKind_UnmarshalJSON_def BlockKind_MarshalJSON_def Let_def\<close>)

text \<open>The wire form of a block kind. Decoding what the encoder wrote gives the kind
  back, for every kind the constructors build, and the decoder builds no other kind (so a
  heading level outside 1..3 never enters the model through the wire).\<close>

theorem block_kind_roundtrip:
  assumes "\<And>u. uparse (ustr u) = Some u"
  shows "(canonical_kind k \<longrightarrow>
            BlockKind_UnmarshalJSON uparse (BlockKind_MarshalJSON ustr k) = Inr k)
       \<and> (BlockKind_UnmarshalJSON uparse raw = Inr k' \<longrightarrow> canonical_kind k')"
  using Unmarshal_Marshal[OF assms] UnmarshalJSON_canonical by blast

text \<open>A concrete pair of printer and parser for UUIDs, for the witness: 128 binary digits.\<close>

definition bin_ustr :: "uuid \<Rightarrow> string" where
  "bin_ustr u = map (\<lambda>i. if bit u i then CHR ''1'' else CHR ''0'') [0..<128]"

definition bin_uparse :: "string \<Rightarrow> uuid option" where
  "bin_uparse s = Some (horner_sum of_bool 2 (map (\<lambda>c. c = CHR ''1'') s))"

lemma bin_uparse_ustr: "bin_uparse (bin_ustr u) = Some u"
  by (simp add: bin_uparse_def bin_ustr_def comp_def if_distrib [of "\<lambda>c. c = CHR ''1''"]
      horner_sum_bit_eq_take_bit take_bit_word_eq_self cong: if_cong)

theorem block_kind_roundtrip_witness:
  "BlockKind_UnmarshalJSON bin_uparse (BlockKind_MarshalJSON bin_ustr (NewCallout Tip ''x''))
     = Inr (NewCallout Tip ''x'')"
  using block_kind_roundtrip[OF bin_uparse_ustr, of "NewCallout Tip ''x''"] by (simp only: New_canonical simp_thms)

subsection \<open>Blocks\<close>

text \<open>The block itself holds inline content and is declared in Pages, after Inline.\<close>

end
