(* ===== verification/Inline.thy ===== *)
theory Inline
  imports Blocks "HOL-Library.Product_Lexorder"
begin

text \<open>
  Module documentcore, file inline.go: a block's inline content, its text and the marks over
  it. Offsets are signed, as in the code. The abstract view of a mark list is its coverage:
  which offsets carry which kind. Normalisation keeps the coverage and reaches the one
  canonical list that has it, so the operations on marks are union and difference of ranges.
\<close>

subsection \<open>Marks and content\<close>

datatype MarkTag = Bold | Italic | Strike | Code | Link | PageLink | Highlight

fun tag_rank :: "MarkTag \<Rightarrow> nat" where
  "tag_rank Bold = 0"
| "tag_rank Italic = 1"
| "tag_rank Strike = 2"
| "tag_rank Code = 3"
| "tag_rank Link = 4"
| "tag_rank PageLink = 5"
| "tag_rank Highlight = 6"

record MarkKind =
  mTag :: MarkTag
  mURL :: string
  mPage :: uuid

definition zero_mark_kind :: MarkKind where
  "zero_mark_kind = \<lparr>mTag = Bold, mURL = '''', mPage = 0\<rparr>"

definition NewBold :: MarkKind where
  "NewBold = zero_mark_kind\<lparr>mTag := Bold\<rparr>"

definition NewItalic :: MarkKind where
  "NewItalic = zero_mark_kind\<lparr>mTag := Italic\<rparr>"

definition NewStrike :: MarkKind where
  "NewStrike = zero_mark_kind\<lparr>mTag := Strike\<rparr>"

definition NewCode :: MarkKind where
  "NewCode = zero_mark_kind\<lparr>mTag := Code\<rparr>"

definition NewLink :: "string \<Rightarrow> MarkKind" where
  "NewLink url = zero_mark_kind\<lparr>mTag := Link, mURL := url\<rparr>"

definition NewPageLink :: "uuid \<Rightarrow> MarkKind" where
  "NewPageLink p = zero_mark_kind\<lparr>mTag := PageLink, mPage := p\<rparr>"

definition NewHighlight :: MarkKind where
  "NewHighlight = zero_mark_kind\<lparr>mTag := Highlight\<rparr>"

lemmas NewMark_defs = NewBold_def NewItalic_def NewStrike_def NewCode_def NewLink_def
  NewPageLink_def NewHighlight_def zero_mark_kind_def

fun MarkTag_String :: "MarkTag \<Rightarrow> string" where
  "MarkTag_String Bold = ''bold''"
| "MarkTag_String Italic = ''italic''"
| "MarkTag_String Strike = ''strike''"
| "MarkTag_String Code = ''code''"
| "MarkTag_String Link = ''link''"
| "MarkTag_String Highlight = ''highlight''"
| "MarkTag_String PageLink = ''pagelink''"

record markKindJSON =
  mj_tag :: string
  mj_url :: string
  mj_page :: string

datatype mark_kind_error = InvalidPageLink string | UnknownMarkTag string

definition MarkKind_MarshalJSON :: "(uuid \<Rightarrow> string) \<Rightarrow> MarkKind \<Rightarrow> markKindJSON" where
  "MarkKind_MarshalJSON ustr k =
     \<lparr>mj_tag = MarkTag_String (mTag k), mj_url = mURL k,
      mj_page = (if mTag k = PageLink then ustr (mPage k) else '''')\<rparr>"

definition MarkKind_UnmarshalJSON ::
  "(string \<Rightarrow> uuid option) \<Rightarrow> markKindJSON \<Rightarrow> mark_kind_error + MarkKind" where
  "MarkKind_UnmarshalJSON uparse raw =
     (let t = mj_tag raw in
      if t = ''bold'' then Inr NewBold
      else if t = ''italic'' then Inr NewItalic
      else if t = ''strike'' then Inr NewStrike
      else if t = ''code'' then Inr NewCode
      else if t = ''link'' then Inr (NewLink (mj_url raw))
      else if t = ''highlight'' then Inr (zero_mark_kind\<lparr>mTag := Highlight\<rparr>)
      else if t = ''pagelink'' then
        (case uparse (mj_page raw) of
           None \<Rightarrow> Inl (InvalidPageLink (mj_page raw))
         | Some p \<Rightarrow> Inr (NewPageLink p))
      else Inl (UnknownMarkTag t))"

record Mark =
  Kind :: MarkKind
  Start :: int
  End :: int

record Content =
  Text :: string
  Marks :: "Mark list"

definition PlainContent :: "string \<Rightarrow> Content" where
  "PlainContent text = \<lparr>Text = text, Marks = []\<rparr>"

text \<open>The loop of \<open>Equal\<close> compares the two mark slices element by element.\<close>

fun marks_equal :: "Mark list \<Rightarrow> Mark list \<Rightarrow> bool" where
  "marks_equal (m # ms) (n # ns) = (m = n \<and> marks_equal ms ns)"
| "marks_equal _ _ = True"

definition Content_Equal :: "Content \<Rightarrow> Content \<Rightarrow> bool" where
  "Content_Equal c d =
     (if Text c \<noteq> Text d then False
      else if length (Marks c) \<noteq> length (Marks d) then False
      else marks_equal (Marks c) (Marks d))"

lemma Content_Equal_iff [simp]: "Content_Equal c d \<longleftrightarrow> c = d"
proof -
  have "length ms = length ns \<Longrightarrow> marks_equal ms ns \<longleftrightarrow> ms = ns" for ms ns
    by (induction ms ns rule: list_induct2) auto
  then show ?thesis
    by (cases c; cases d) (auto simp: Content_Equal_def)
qed

subsection \<open>Range checks\<close>

text \<open>The last constructor is not one of the source's errors: it is the run-time panic of
  indexing the text with a negative offset, which no check of \<open>validateRange\<close> excludes.\<close>

datatype range_error =
    OutOfBoundsError int int
  | InvertedRangeError int int
  | NotCharBoundaryError int
  | IndexPanic int

definition validateRange :: "Content \<Rightarrow> int \<Rightarrow> int \<Rightarrow> range_error + bool" where
  "validateRange c start end =
     (let n = int (length (Text c)) in
      if start > n then Inl (OutOfBoundsError start n)
      else if end > n then Inl (OutOfBoundsError end n)
      else if start = end then Inr True
      else if start > end then Inl (InvertedRangeError start end)
      else if start < 0 then Inl (IndexPanic start)
      else if \<not> rune_start (Text c ! nat start) then Inl (NotCharBoundaryError start)
      else if end < n \<and> \<not> rune_start (Text c ! nat end) then Inl (NotCharBoundaryError end)
      else Inr False)"

lemma validateRange_False:
  "validateRange c s e = Inr False \<Longrightarrow> 0 \<le> s \<and> s < e \<and> e \<le> int (length (Text c))"
  by (auto simp: validateRange_def Let_def split: if_splits)

lemma validateRange_cong: "Text c = Text d \<Longrightarrow> validateRange c = validateRange d"
  by (simp add: validateRange_def fun_eq_iff Let_def cong: if_cong)

subsection \<open>Normalisation\<close>

fun merge_runs :: "Mark \<Rightarrow> Mark list \<Rightarrow> Mark list" where
  "merge_runs run [] = [run]"
| "merge_runs run (m # ms) =
     (if Start m \<le> End run
      then merge_runs (if End m > End run then run\<lparr>End := End m\<rparr> else run) ms
      else run # merge_runs m ms)"

definition merge_kind :: "Mark list \<Rightarrow> Mark list" where
  "merge_kind ms = (case sort_key Start ms of [] \<Rightarrow> [] | run # rest \<Rightarrow> merge_runs run rest)"

definition mark_key :: "Mark \<Rightarrow> int \<times> nat \<times> string \<times> uuid" where
  "mark_key m = (Start m, tag_rank (mTag (Kind m)), mURL (Kind m), mPage (Kind m))"

text \<open>The code groups by kind in a Go map, whose iteration order is unspecified; here the
  kinds are visited in order of first appearance. The final sort makes the choice invisible.\<close>

definition normalise :: "Mark list \<Rightarrow> Mark list" where
  "normalise ms =
     (if ms = [] then ms
      else sort_key mark_key
        (concat (map (\<lambda>k. merge_kind (filter (\<lambda>m. Kind m = k) ms)) (remdups (map Kind ms)))))"

definition AddMark :: "Content \<Rightarrow> MarkKind \<Rightarrow> int \<Rightarrow> int \<Rightarrow> (range_error, Content) outcome" where
  "AddMark c kind start end =
     (case validateRange c start end of
        Inl e \<Rightarrow> Failed e c
      | Inr True \<Rightarrow> Done c
      | Inr False \<Rightarrow>
          Done (c\<lparr>Marks := normalise (Marks c @ [\<lparr>Kind = kind, Start = start, End = end\<rparr>])\<rparr>))"

fun subtract_mark :: "MarkKind \<Rightarrow> int \<Rightarrow> int \<Rightarrow> Mark \<Rightarrow> Mark list" where
  "subtract_mark kind start end m =
     (if Kind m \<noteq> kind then [m]
      else if End m \<le> start \<or> Start m \<ge> end then [m]
      else if Start m \<ge> start \<and> End m \<le> end then []
      else if Start m < start \<and> End m > end then
        [\<lparr>Kind = kind, Start = Start m, End = start\<rparr>, \<lparr>Kind = kind, Start = end, End = End m\<rparr>]
      else if Start m < start then [\<lparr>Kind = kind, Start = Start m, End = start\<rparr>]
      else [\<lparr>Kind = kind, Start = end, End = End m\<rparr>])"

definition RemoveMark :: "Content \<Rightarrow> MarkKind \<Rightarrow> int \<Rightarrow> int \<Rightarrow> (range_error, Content) outcome" where
  "RemoveMark c kind start end =
     (case validateRange c start end of
        Inl e \<Rightarrow> Failed e c
      | Inr True \<Rightarrow> Done c
      | Inr False \<Rightarrow>
          Done (c\<lparr>Marks := normalise (concat (map (subtract_mark kind start end) (Marks c)))\<rparr>))"

definition MarksAt :: "Content \<Rightarrow> int \<Rightarrow> MarkKind list" where
  "MarksAt c offset =
     map Kind (filter (\<lambda>m. Start m \<le> offset \<and> offset < End m) (Marks c))"

subsection \<open>Coverage and the canonical form\<close>

definition covers :: "Mark list \<Rightarrow> MarkKind \<Rightarrow> int \<Rightarrow> bool" where
  "covers ms k x \<longleftrightarrow> (\<exists>m\<in>set ms. Kind m = k \<and> Start m \<le> x \<and> x < End m)"

definition proper_mark :: "int \<Rightarrow> Mark \<Rightarrow> bool" where
  "proper_mark n m \<longleftrightarrow> 0 \<le> Start m \<and> Start m < End m \<and> End m \<le> n"

definition separated :: "Mark \<Rightarrow> Mark \<Rightarrow> bool" where
  "separated a b \<longleftrightarrow> Kind a = Kind b \<longrightarrow> End a < Start b \<or> End b < Start a"

text \<open>Invariants 1, 2 and 4 of the comment on Content, over a text of \<open>n\<close> bytes.\<close>

definition wf_marks :: "int \<Rightarrow> Mark list \<Rightarrow> bool" where
  "wf_marks n ms \<longleftrightarrow> sorted (map mark_key ms) \<and> distinct ms \<and> (\<forall>m\<in>set ms. proper_mark n m)
     \<and> (\<forall>a\<in>set ms. \<forall>b\<in>set ms. a \<noteq> b \<longrightarrow> separated a b)"

definition wf_content :: "Content \<Rightarrow> bool" where
  "wf_content c \<longleftrightarrow> wf_marks (int (length (Text c))) (Marks c)"

lemma covers_append [simp]: "covers (xs @ ys) k x \<longleftrightarrow> covers xs k x \<or> covers ys k x"
  by (auto simp: covers_def)

lemma covers_Nil [simp]: "\<not> covers [] k x"
  by (simp add: covers_def)

lemma covers_Cons [simp]:
  "covers (m # ms) k x \<longleftrightarrow> Kind m = k \<and> Start m \<le> x \<and> x < End m \<or> covers ms k x"
  by (auto simp: covers_def)

lemma covers_set: "set xs = set ys \<Longrightarrow> covers xs = covers ys"
  by (auto simp: covers_def fun_eq_iff)

lemma tag_rank_inj [simp]: "tag_rank a = tag_rank b \<longleftrightarrow> a = b"
  by (cases a; cases b) simp_all

lemma mark_key_eq: "mark_key a = mark_key b \<longleftrightarrow> Kind a = Kind b \<and> Start a = Start b"
  by (cases "Kind a"; cases "Kind b") (auto simp: mark_key_def)

lemma merge_runs_spec:
  assumes "sorted (map Start (r # ms))" and "\<forall>m\<in>set (r # ms). proper_mark n m \<and> Kind m = k"
  shows "(\<forall>x. covers (merge_runs r ms) k x \<longleftrightarrow> covers (r # ms) k x)
       \<and> (\<forall>m\<in>set (merge_runs r ms). proper_mark n m \<and> Kind m = k \<and> Start r \<le> Start m)
       \<and> sorted_wrt (\<lambda>a b. End a < Start b) (merge_runs r ms)"
  using assms
proof (induction r ms rule: merge_runs.induct)
  case (2 run m ms)
  show ?case
  proof (cases "Start m \<le> End run")
    case True
    let ?run = "if End m > End run then run\<lparr>End := End m\<rparr> else run"
    have "sorted (map Start (?run # ms))" "\<forall>m\<in>set (?run # ms). proper_mark n m \<and> Kind m = k"
      using "2.prems" by (auto simp: proper_mark_def)
    note IH = "2.IH"(1)[OF True this]
    have "covers (?run # ms) k x \<longleftrightarrow> covers (run # m # ms) k x" for x
      using True "2.prems" by (auto simp: proper_mark_def)
    moreover have "Start ?run = Start run" by simp
    ultimately show ?thesis
      using True IH by (simp only: merge_runs.simps if_True) blast
  next
    case False
    have "sorted (map Start (m # ms))" "\<forall>x\<in>set (m # ms). proper_mark n x \<and> Kind x = k"
      using "2.prems" by auto
    note IH = "2.IH"(2)[OF False this]
    have "Start run \<le> Start m" using "2.prems" by simp
    then show ?thesis
      using False IH "2.prems"(2) by (simp only: merge_runs.simps if_False) fastforce
  qed
qed (simp add: proper_mark_def)

lemma merge_kind_spec:
  assumes "\<forall>m\<in>set ms. proper_mark n m \<and> Kind m = k"
  shows "covers (merge_kind ms) k = covers ms k"
    and "\<forall>m\<in>set (merge_kind ms). proper_mark n m \<and> Kind m = k"
    and "sorted_wrt (\<lambda>a b. End a < Start b) (merge_kind ms)"
proof -
  have *: "covers (merge_kind ms) k = covers ms k
     \<and> (\<forall>m\<in>set (merge_kind ms). proper_mark n m \<and> Kind m = k)
     \<and> sorted_wrt (\<lambda>a b. End a < Start b) (merge_kind ms)"
  proof (cases "sort_key Start ms")
    case Nil
    then have "ms = []" by (metis length_0_conv length_sort)
    then show ?thesis by (simp add: merge_kind_def)
  next
    case (Cons r rest)
    have set_eq: "set (r # rest) = set ms"
      by (metis Cons set_sort)
    have "sorted (map Start (r # rest))"
      by (metis Cons sorted_sort_key)
    moreover have "\<forall>m\<in>set (r # rest). proper_mark n m \<and> Kind m = k"
      using assms set_eq by simp
    ultimately have "(\<forall>x. covers (merge_runs r rest) k x \<longleftrightarrow> covers (r # rest) k x)
       \<and> (\<forall>m\<in>set (merge_runs r rest). proper_mark n m \<and> Kind m = k \<and> Start r \<le> Start m)
       \<and> sorted_wrt (\<lambda>a b. End a < Start b) (merge_runs r rest)"
      by (rule merge_runs_spec)
    then show ?thesis
      using Cons covers_set[OF set_eq] by (auto simp: merge_kind_def fun_eq_iff)
  qed
  then show "covers (merge_kind ms) k = covers ms k"
    and "\<forall>m\<in>set (merge_kind ms). proper_mark n m \<and> Kind m = k"
    and "sorted_wrt (\<lambda>a b. End a < Start b) (merge_kind ms)" by blast+
qed

lemma sorted_wrt_ends:
  assumes "sorted_wrt (\<lambda>a b. End a < Start b) ms"
  shows "a \<in> set ms \<Longrightarrow> b \<in> set ms \<Longrightarrow> a \<noteq> b \<Longrightarrow> End a < Start b \<or> End b < Start a"
  using assms by (induction ms) auto

lemma sorted_wrt_ends_distinct:
  assumes "sorted_wrt (\<lambda>a b. End a < Start b) ms" and "\<forall>m\<in>set ms. proper_mark n m"
  shows "distinct ms"
  using assms
proof (induction ms)
  case (Cons a ms)
  then have "a \<notin> set ms"
    by (auto simp: proper_mark_def dest!: bspec[where x = a])
  with Cons show ?case by simp
qed simp

lemma distinct_concat_kinds:
  assumes "distinct ks" and "\<And>k. distinct (f k)" and "\<And>k m. m \<in> set (f k) \<Longrightarrow> Kind m = k"
  shows "distinct (concat (map f ks))"
  using assms(1) by (induction ks) (use assms(2,3) in \<open>auto, fastforce\<close>)

lemma normalise_spec:
  assumes "\<forall>m\<in>set ms. proper_mark n m"
  shows normalise_covers: "covers (normalise ms) = covers ms"
    and normalise_wf: "wf_marks n (normalise ms)"
proof -
  let ?g = "\<lambda>k. merge_kind (filter (\<lambda>m. Kind m = k) ms)"
  let ?all = "concat (map ?g (remdups (map Kind ms)))"
  have pm: "\<forall>m\<in>set (filter (\<lambda>m. Kind m = k) ms). proper_mark n m \<and> Kind m = k" for k
    using assms by simp
  note spec = merge_kind_spec[OF pm]
  have kindof: "m \<in> set (?g k) \<Longrightarrow> Kind m = k" for m k
    using spec(2) by blast
  have mem: "m \<in> set ?all \<longleftrightarrow> m \<in> set (?g (Kind m)) \<and> Kind m \<in> Kind ` set ms" for m
    unfolding set_concat set_map set_remdups by (auto dest: kindof) (metis kindof)+
  have g_empty: "?g k = []" if "k \<notin> Kind ` set ms" for k
  proof -
    from that have "filter (\<lambda>m. Kind m = k) ms = []" by (auto simp: filter_empty_conv)
    then show ?thesis by (simp add: merge_kind_def)
  qed
  have cov: "covers ?all k x \<longleftrightarrow> covers ms k x" for k x
  proof -
    have "covers ?all k x \<longleftrightarrow> covers (?g k) k x"
      by (cases "k \<in> Kind ` set ms")
         (auto simp: covers_def Bex_def mem g_empty simp del: set_concat cong: conj_cong,
          metis imageI)
    also have "\<dots> \<longleftrightarrow> covers (filter (\<lambda>m. Kind m = k) ms) k x"
      by (simp add: spec(1))
    finally show ?thesis by (auto simp: covers_def)
  qed
  have sets: "set (normalise ms) = set ?all"
    by (simp add: normalise_def)
  show "covers (normalise ms) = covers ms"
    using covers_set[OF sets] cov by (simp add: fun_eq_iff)
  have d: "distinct ?all"
  proof (rule distinct_concat_kinds)
    have "\<forall>m\<in>set (?g k). proper_mark n m" for k
      using spec(2) by blast
    with spec(3) show "distinct (?g k)" for k
      by (rule sorted_wrt_ends_distinct)
    show "m \<in> set (?g k) \<Longrightarrow> Kind m = k" for m k
      by (rule kindof)
  qed (rule distinct_remdups)
  have sep: "a \<in> set ?all \<Longrightarrow> b \<in> set ?all \<Longrightarrow> a \<noteq> b \<Longrightarrow> separated a b" for a b
    unfolding mem separated_def using sorted_wrt_ends[OF spec(3)] by metis
  show "wf_marks n (normalise ms)"
    unfolding wf_marks_def
  proof (intro conjI ballI impI)
    show "sorted (map mark_key (normalise ms))" and "distinct (normalise ms)"
      using d by (simp_all add: normalise_def)
  next
    fix m assume "m \<in> set (normalise ms)"
    then show "proper_mark n m"
      unfolding sets mem using spec(2) by blast
  next
    fix a b assume "a \<in> set (normalise ms)" "b \<in> set (normalise ms)" "a \<noteq> b"
    then show "separated a b"
      unfolding sets by (rule sep)
  qed
qed

subsection \<open>The canonical list is unique\<close>

lemma wf_marks_mem:
  assumes "wf_marks n ms"
  shows "m \<in> set ms \<longleftrightarrow> Start m < End m \<and> (\<forall>x. Start m \<le> x \<and> x < End m \<longrightarrow> covers ms (Kind m) x)
     \<and> \<not> covers ms (Kind m) (Start m - 1) \<and> \<not> covers ms (Kind m) (End m)"
    (is "_ \<longleftrightarrow> ?maximal m")
proof -
  have max: "?maximal m" if "m \<in> set ms" for m
  proof -
    have sep: "End m < Start b \<or> End b < Start m" if "b \<in> set ms" "Kind b = Kind m" "b \<noteq> m" for b
      using assms that \<open>m \<in> set ms\<close> by (auto simp: wf_marks_def separated_def)
    have pos: "Start b < End b" if "b \<in> set ms" for b
      using assms that by (auto simp: wf_marks_def proper_mark_def)
    have "\<not> covers ms (Kind m) (Start m - 1)" "\<not> covers ms (Kind m) (End m)"
      using sep pos that by (fastforce simp: covers_def)+
    then show ?thesis
      using that pos by (auto simp: covers_def)
  qed
  moreover have "m \<in> set ms" if mx: "?maximal m"
  proof -
    obtain b where b: "b \<in> set ms" "Kind b = Kind m" "Start b \<le> Start m" "Start m < End b"
      using mx by (auto simp: covers_def)
    have "Start b = Start m"
    proof (rule ccontr)
      assume "Start b \<noteq> Start m"
      then have "Start b \<le> Start m - 1 \<and> Start m - 1 < End b" using b by linarith
      then have "covers ms (Kind m) (Start m - 1)" using b by (auto simp: covers_def)
      then show False using mx by simp
    qed
    moreover have "End b = End m"
    proof (rule linorder_cases[of "End b" "End m"])
      assume "End b < End m"
      then have "covers ms (Kind b) (End b)" using mx b by simp
      then show ?thesis using max[OF b(1)] by simp
    next
      assume "End m < End b"
      then have "covers ms (Kind m) (End m)"
        using b mx by (auto simp: covers_def intro!: bexI[of _ b])
      then show ?thesis using mx by simp
    qed
    ultimately have "b = m" using b by (cases b; cases m) auto
    then show ?thesis using b by simp
  qed
  ultimately show ?thesis by blast
qed

lemma wf_marks_unique:
  assumes "wf_marks n xs" and "wf_marks n ys" and "covers xs = covers ys"
  shows "xs = ys"
proof -
  have sets: "set xs = set ys"
    using assms by (auto simp: wf_marks_mem)
  have inj: "inj_on mark_key (set xs)"
    using assms(1) unfolding inj_on_def mark_key_eq wf_marks_def separated_def proper_mark_def
    by (metis order.strict_trans less_irrefl)
  have d: "distinct (map mark_key xs)" "distinct (map mark_key ys)"
    using assms inj sets by (auto simp: wf_marks_def distinct_map)
  have "map mark_key xs = map mark_key ys"
    using assms d sets by (intro sorted_distinct_set_unique) (auto simp: wf_marks_def)
  then show ?thesis
    by (rule map_inj_on) (simp add: inj sets [symmetric])
qed

lemma normalise_wf_id: "wf_marks n ms \<Longrightarrow> normalise ms = ms"
proof -
  assume wf: "wf_marks n ms"
  then have "\<forall>m\<in>set ms. proper_mark n m" by (simp add: wf_marks_def)
  then show ?thesis
    using wf by (intro wf_marks_unique[of n]) (simp_all add: normalise_wf normalise_covers)
qed

subsection \<open>The operations on marks\<close>

lemma wf_content_proper:
  "wf_content c \<Longrightarrow> \<forall>m\<in>set (Marks c). proper_mark (int (length (Text c))) m"
  by (simp add: wf_content_def wf_marks_def)

lemma subtract_mark_covers:
  "s < e \<Longrightarrow> covers (subtract_mark k s e m) k' x \<longleftrightarrow>
     covers [m] k' x \<and> \<not> (k' = k \<and> s \<le> x \<and> x < e)"
  by auto

lemma subtract_marks_covers:
  "s < e \<Longrightarrow> covers (concat (map (subtract_mark k s e) ms)) k' x \<longleftrightarrow>
     covers ms k' x \<and> \<not> (k' = k \<and> s \<le> x \<and> x < e)"
  by (induction ms) (auto simp: subtract_mark_covers simp del: subtract_mark.simps)

lemma subtract_mark_proper:
  "proper_mark n m \<Longrightarrow> 0 \<le> s \<Longrightarrow> s < e \<Longrightarrow> e \<le> n \<Longrightarrow> m' \<in> set (subtract_mark k s e m) \<Longrightarrow> proper_mark n m'"
  by (auto simp: proper_mark_def split: if_splits)

lemma AddMark_spec:
  assumes "wf_content c" and "validateRange c s e = Inr False"
  obtains c' where "AddMark c k s e = Done c'" "Text c' = Text c" "wf_content c'"
    "\<And>k' x. covers (Marks c') k' x \<longleftrightarrow> covers (Marks c) k' x \<or> k' = k \<and> s \<le> x \<and> x < e"
proof -
  let ?ms = "Marks c @ [\<lparr>Kind = k, Start = s, End = e\<rparr>]"
  have "\<forall>m\<in>set ?ms. proper_mark (int (length (Text c))) m"
    using wf_content_proper[OF assms(1)] validateRange_False[OF assms(2)]
    by (auto simp: proper_mark_def)
  then have "wf_content (c\<lparr>Marks := normalise ?ms\<rparr>)" "covers (normalise ?ms) = covers ?ms"
    by (simp_all add: wf_content_def normalise_wf normalise_covers)
  then show thesis
    using assms(2) by (intro that[of "c\<lparr>Marks := normalise ?ms\<rparr>"]) (auto simp: AddMark_def)
qed

lemma RemoveMark_spec:
  assumes "wf_content c" and "validateRange c s e = Inr False"
  obtains c' where "RemoveMark c k s e = Done c'" "Text c' = Text c" "wf_content c'"
    "\<And>k' x. covers (Marks c') k' x \<longleftrightarrow> covers (Marks c) k' x \<and> \<not> (k' = k \<and> s \<le> x \<and> x < e)"
proof -
  let ?ms = "concat (map (subtract_mark k s e) (Marks c))"
  note r = validateRange_False[OF assms(2)]
  have "\<forall>m\<in>set ?ms. proper_mark (int (length (Text c))) m"
    using wf_content_proper[OF assms(1)] r subtract_mark_proper
    by (fastforce simp del: subtract_mark.simps)
  then have "wf_content (c\<lparr>Marks := normalise ?ms\<rparr>)" "covers (normalise ?ms) = covers ?ms"
    by (simp_all add: wf_content_def normalise_wf normalise_covers)
  then show thesis
    using assms(2) r
    by (intro that[of "c\<lparr>Marks := normalise ?ms\<rparr>"])
       (auto simp: RemoveMark_def subtract_marks_covers simp del: subtract_mark.simps)
qed

lemma wf_content_eqI:
  "wf_content c \<Longrightarrow> wf_content d \<Longrightarrow> Text c = Text d \<Longrightarrow>
   (\<And>k x. covers (Marks c) k x \<longleftrightarrow> covers (Marks d) k x) \<Longrightarrow> c = d"
  by (cases c; cases d) (auto simp: wf_content_def fun_eq_iff intro: wf_marks_unique)

lemma AddMark_cases:
  "AddMark c k s e = (case validateRange c s e of Inl err \<Rightarrow> Failed err c
     | Inr z \<Rightarrow> if z then Done c else AddMark c k s e)"
  by (auto simp: AddMark_def split: sum.split bool.split)

text \<open>C17: AddMark and RemoveMark are union and difference of ranges. On content that meets
  its invariants, with a range that passes the checks, AddMark makes exactly the offsets of
  the range carry the kind, RemoveMark makes exactly those offsets lose it, no other kind
  and no text changes, and the canonical form (sorted, coalesced, no empty mark) holds
  again.\<close>

theorem mark_edits_are_set_edits:
  assumes "wf_content c" and "validateRange c s e = Inr False"
  shows "\<exists>added removed. AddMark c k s e = Done added \<and> RemoveMark c k s e = Done removed
     \<and> wf_content added \<and> wf_content removed \<and> Text added = Text c \<and> Text removed = Text c
     \<and> (\<forall>k' x. covers (Marks added) k' x \<longleftrightarrow> covers (Marks c) k' x \<or> k' = k \<and> s \<le> x \<and> x < e)
     \<and> (\<forall>k' x. covers (Marks removed) k' x \<longleftrightarrow>
            covers (Marks c) k' x \<and> \<not> (k' = k \<and> s \<le> x \<and> x < e))"
  using AddMark_spec[OF assms] RemoveMark_spec[OF assms] by metis

definition sample_content :: Content where
  "sample_content = \<lparr>Text = ''abcdef'', Marks = [\<lparr>Kind = NewBold, Start = 1, End = 3\<rparr>]\<rparr>"

lemma sample_content_wf: "wf_content sample_content"
  by (simp add: sample_content_def wf_content_def wf_marks_def proper_mark_def)

theorem mark_edits_are_set_edits_witness:
  "\<exists>added. AddMark sample_content NewBold 3 5 = Done added \<and> wf_content added
     \<and> covers (Marks added) NewBold 4 \<and> covers (Marks added) NewBold 1"
proof -
  have v: "validateRange sample_content 3 5 = Inr False"
    by (simp add: sample_content_def validateRange_def rune_start_def)
  have "covers (Marks sample_content) NewBold 1"
    by (simp add: sample_content_def)
  then show ?thesis
    using mark_edits_are_set_edits[OF sample_content_wf v, of NewBold] by auto
qed

text \<open>The order in which marks are added never matters. Two AddMark calls on well-formed
  content give the same content in either order, whatever their kinds and ranges, as long as
  both ranges pass the checks.\<close>

theorem AddMark_commute:
  assumes "wf_content c" and "validateRange c s1 e1 = Inr False" and "validateRange c s2 e2 = Inr False"
  shows "\<exists>c1 c2 c12. AddMark c k1 s1 e1 = Done c1 \<and> AddMark c1 k2 s2 e2 = Done c12
     \<and> AddMark c k2 s2 e2 = Done c2 \<and> AddMark c2 k1 s1 e1 = Done c12"
proof -
  obtain c1 where c1: "AddMark c k1 s1 e1 = Done c1" "Text c1 = Text c" "wf_content c1"
    "\<And>k x. covers (Marks c1) k x \<longleftrightarrow> covers (Marks c) k x \<or> k = k1 \<and> s1 \<le> x \<and> x < e1"
    using AddMark_spec[OF assms(1,2)] by metis
  obtain c2 where c2: "AddMark c k2 s2 e2 = Done c2" "Text c2 = Text c" "wf_content c2"
    "\<And>k x. covers (Marks c2) k x \<longleftrightarrow> covers (Marks c) k x \<or> k = k2 \<and> s2 \<le> x \<and> x < e2"
    using AddMark_spec[OF assms(1,3)] by metis
  have v: "validateRange c1 s2 e2 = Inr False" "validateRange c2 s1 e1 = Inr False"
    using assms c1(2) c2(2) validateRange_cong by metis+
  obtain d1 where d1: "AddMark c1 k2 s2 e2 = Done d1" "Text d1 = Text c1" "wf_content d1"
    "\<And>k x. covers (Marks d1) k x \<longleftrightarrow> covers (Marks c1) k x \<or> k = k2 \<and> s2 \<le> x \<and> x < e2"
    using AddMark_spec[OF c1(3) v(1)] by metis
  obtain d2 where d2: "AddMark c2 k1 s1 e1 = Done d2" "Text d2 = Text c2" "wf_content d2"
    "\<And>k x. covers (Marks d2) k x \<longleftrightarrow> covers (Marks c2) k x \<or> k = k1 \<and> s1 \<le> x \<and> x < e1"
    using AddMark_spec[OF c2(3) v(2)] by metis
  have "d1 = d2"
    by (rule wf_content_eqI) (use c1 c2 d1 d2 in auto)
  then show ?thesis
    using c1(1) c2(1) d1(1) d2(1) by blast
qed

theorem AddMark_commute_witness:
  "\<exists>c1 c2 c12. AddMark sample_content NewBold 3 5 = Done c1 \<and> AddMark c1 NewItalic 0 4 = Done c12
     \<and> AddMark sample_content NewItalic 0 4 = Done c2 \<and> AddMark c2 NewBold 3 5 = Done c12"
  by (rule AddMark_commute[OF sample_content_wf])
     (simp_all add: sample_content_def validateRange_def rune_start_def)

text \<open>The range checks, in the order the contract fixes: bounds of the start, bounds of
  the end, the empty range (accepted as a no-op wherever it lies below the length), the
  inverted range, then the boundaries. A range that starts below zero passes every check and
  ends in an index panic instead of an error value. No failing call changes the content.\<close>

theorem AddMark_checks:
  "(s > int (length (Text c)) \<longrightarrow>
      AddMark c k s e = Failed (OutOfBoundsError s (int (length (Text c)))) c)
   \<and> (s \<le> int (length (Text c)) \<and> e > int (length (Text c)) \<longrightarrow>
      AddMark c k s e = Failed (OutOfBoundsError e (int (length (Text c)))) c)
   \<and> (s \<le> int (length (Text c)) \<and> e = s \<longrightarrow> AddMark c k s e = Done c)
   \<and> (e < s \<and> s \<le> int (length (Text c)) \<longrightarrow> AddMark c k s e = Failed (InvertedRangeError s e) c)
   \<and> (s < 0 \<and> s < e \<and> e \<le> int (length (Text c)) \<longrightarrow> AddMark c k s e = Failed (IndexPanic s) c)
   \<and> (\<forall>err c'. AddMark c k s e = Failed err c' \<longrightarrow> c' = c)"
  by (auto simp: AddMark_def validateRange_def Let_def split: sum.splits bool.splits)

theorem AddMark_checks_witness:
  "AddMark (PlainContent ''ab'') NewBold (-1) 1 = Failed (IndexPanic (-1)) (PlainContent ''ab'')"
proof -
  have "(-1::int) < 0 \<and> (-1::int) < 1 \<and> (1::int) \<le> int (length (Text (PlainContent ''ab'')))"
    by (simp add: PlainContent_def)
  then show ?thesis
    using AddMark_checks[of "PlainContent ''ab''" "-1" NewBold 1] by blast
qed

lemma MarksAt_covers: "k \<in> set (MarksAt c x) \<longleftrightarrow> covers (Marks c) k x"
  by (auto simp: MarksAt_def covers_def)

end
