(* ===== verification/Pages.thy ===== *)
theory Pages
  imports Inline "HOL-Library.Monad_Syntax"
begin

text \<open>
  Module documentcore, files operation.go, page.go and the Block type of block.go: the page
  (a flat list of blocks in depth-first order, each with a parent pointer), the six
  operations on it, their inverses, and \<open>Page.Apply\<close>.

  Two things of the code are kept that a cleaner model would drop. The walk up the parent
  chain (\<open>isDescendant\<close>) has no bound, so on a page whose parent pointers form a cycle it
  never returns: it is a partial function, and \<open>None\<close> is a call that does not return. And
  MoveBlock deletes the moved blocks from the page's own storage before it knows that the
  target position exists, so a failing call does not leave the page as it was.
\<close>

subsection \<open>Blocks, pages, operations\<close>

record Block =
  ID :: uuid
  Parent :: "uuid option"
  BKind :: BlockKind
  BContent :: Content

definition zero_block :: Block where
  "zero_block = \<lparr>ID = 0, Parent = None, BKind = zero_kind, BContent = \<lparr>Text = '''', Marks = []\<rparr>\<rparr>"

record Page =
  PID :: uuid
  Title :: string
  Blocks :: "Block list"

definition NewPage :: "uuid \<Rightarrow> string \<Rightarrow> Page" where
  "NewPage pid title = \<lparr>PID = pid, Title = title, Blocks = []\<rparr>"

datatype Op =
    InsertBlock uuid "uuid option" "uuid option" BlockKind Content
  | DeleteBlock Block "uuid option"
  | SetBlockKind uuid BlockKind BlockKind
  | SetBlockContent uuid Content Content
  | SetTitle uuid string string
  | MoveBlock uuid "uuid option" "uuid option" "uuid option" "uuid option"

fun Invert :: "Op \<Rightarrow> Op" where
  "Invert (InsertBlock bid parent after kind content) =
     DeleteBlock \<lparr>ID = bid, Parent = parent, BKind = kind, BContent = content\<rparr> after"
| "Invert (DeleteBlock tombstone after) =
     InsertBlock (ID tombstone) (Parent tombstone) after (BKind tombstone) (BContent tombstone)"
| "Invert (SetBlockKind bid from to) = SetBlockKind bid to from"
| "Invert (SetBlockContent block prev content) = SetBlockContent block content prev"
| "Invert (SetTitle page from to) = SetTitle page to from"
| "Invert (MoveBlock bid fromParent from toParent to) = MoveBlock bid toParent to fromParent from"

fun Op_TypeName :: "Op \<Rightarrow> string" where
  "Op_TypeName (InsertBlock _ _ _ _ _) = ''InsertBlock''"
| "Op_TypeName (DeleteBlock _ _) = ''DeleteBlock''"
| "Op_TypeName (SetBlockKind _ _ _) = ''SetBlockKind''"
| "Op_TypeName (SetBlockContent _ _ _) = ''SetBlockContent''"
| "Op_TypeName (SetTitle _ _ _) = ''SetTitle''"
| "Op_TypeName (MoveBlock _ _ _ _ _) = ''MoveBlock''"

datatype apply_error =
    BlockNotFoundError uuid
  | DuplicateBlockIDError uuid
  | PositionMismatchError uuid "uuid option" "uuid option"
  | ParentMismatchError uuid "uuid option" "uuid option"
  | PreconditionError uuid string
  | NotAContainerError uuid
  | ContainerNotEmptyError uuid
  | InvalidListChildError uuid BlockTag
  | CycleError uuid uuid

subsection \<open>Lookups\<close>

definition indexOf :: "Block list \<Rightarrow> uuid \<Rightarrow> nat option" where
  "indexOf blocks bid = find_index (\<lambda>b. ID b = bid) blocks"

definition blockIndex :: "Block list \<Rightarrow> (uuid \<rightharpoonup> nat)" where
  "blockIndex blocks = fold (\<lambda>(i, b) m. m(ID b \<mapsto> i)) (enumerate 0 blocks) Map.empty"

fun blockIDPtrEqual :: "uuid option \<Rightarrow> uuid option \<Rightarrow> bool" where
  "blockIDPtrEqual (Some a) (Some b) = (a = b)"
| "blockIDPtrEqual a b = (a = None \<and> b = None)"

lemma blockIDPtrEqual_iff [simp]: "blockIDPtrEqual a b \<longleftrightarrow> a = b"
  by (cases a; cases b) auto

fun scan_back :: "Block list \<Rightarrow> uuid option \<Rightarrow> nat \<Rightarrow> uuid option" where
  "scan_back blocks parent 0 = None"
| "scan_back blocks parent (Suc j) =
     (if blockIDPtrEqual (Parent (blocks ! j)) parent then Some (ID (blocks ! j))
      else scan_back blocks parent j)"

definition predecessorOf :: "Block list \<Rightarrow> nat \<Rightarrow> uuid option" where
  "predecessorOf blocks i = scan_back blocks (Parent (blocks ! i)) i"

partial_function (option) isDescendant ::
  "Block list \<Rightarrow> (uuid \<rightharpoonup> nat) \<Rightarrow> uuid \<Rightarrow> uuid \<Rightarrow> bool option" where
  "isDescendant blocks byID bid ancestorID =
     (case byID bid of None \<Rightarrow> Some False
      | Some i \<Rightarrow> (case Parent (blocks ! i) of None \<Rightarrow> Some False
          | Some p \<Rightarrow> if p = ancestorID then Some True
                      else isDescendant blocks byID p ancestorID))"

declare isDescendant.simps [code]

function subtree_scan :: "Block list \<Rightarrow> (uuid \<rightharpoonup> nat) \<Rightarrow> uuid \<Rightarrow> nat \<Rightarrow> nat option" where
  "subtree_scan blocks byID bid j =
     (if j < length blocks
      then (case isDescendant blocks byID (ID (blocks ! j)) bid of
              None \<Rightarrow> None
            | Some True \<Rightarrow> subtree_scan blocks byID bid (Suc j)
            | Some False \<Rightarrow> Some j)
      else Some j)"
  by pat_completeness auto
termination
  by (relation "measure (\<lambda>(blocks, byID, bid, j). length blocks - j)") auto

declare subtree_scan.simps [simp del]

definition subtreeEnd :: "Block list \<Rightarrow> (uuid \<rightharpoonup> nat) \<Rightarrow> nat \<Rightarrow> nat option" where
  "subtreeEnd blocks byID i = subtree_scan blocks byID (ID (blocks ! i)) (i + 1)"

definition validateParent ::
  "Block list \<Rightarrow> (uuid \<rightharpoonup> nat) \<Rightarrow> uuid option \<Rightarrow> BlockTag \<Rightarrow> apply_error option" where
  "validateParent blocks byID parent childTag =
     (case parent of None \<Rightarrow> None
      | Some p \<Rightarrow>
         (case byID p of None \<Rightarrow> Some (BlockNotFoundError p)
          | Some parentIdx \<Rightarrow>
             (let parentTag = Tag (BKind (blocks ! parentIdx)) in
              if \<not> IsContainer parentTag then Some (NotAContainerError p)
              else if parentTag = ListItem \<and> childTag \<noteq> ListTag \<and> childTag \<noteq> Paragraph
                then Some (InvalidListChildError p childTag)
              else None)))"

definition insertIndexAfterInParent ::
  "Block list \<Rightarrow> (uuid \<rightharpoonup> nat) \<Rightarrow> uuid option \<Rightarrow> uuid option \<Rightarrow> (apply_error + nat) option" where
  "insertIndexAfterInParent blocks byID parent after =
     (case after of
        None \<Rightarrow> (case parent of None \<Rightarrow> Some (Inr 0)
          | Some p \<Rightarrow> (case byID p of None \<Rightarrow> Some (Inl (BlockNotFoundError p))
              | Some parentIdx \<Rightarrow> Some (Inr (parentIdx + 1))))
      | Some a \<Rightarrow> (case byID a of None \<Rightarrow> Some (Inl (BlockNotFoundError a))
          | Some afterIdx \<Rightarrow>
              if \<not> blockIDPtrEqual (Parent (blocks ! afterIdx)) parent
              then Some (Inl (ParentMismatchError a parent (Parent (blocks ! afterIdx))))
              else map_option Inr (subtreeEnd blocks byID afterIdx)))"

subsection \<open>Apply\<close>

definition apply_insert ::
  "Page \<Rightarrow> uuid \<Rightarrow> uuid option \<Rightarrow> uuid option \<Rightarrow> BlockKind \<Rightarrow> Content
     \<Rightarrow> (apply_error, Page) outcome option" where
  "apply_insert p bid parent after kind content =
     (if indexOf (Blocks p) bid \<noteq> None then Some (Failed (DuplicateBlockIDError bid) p)
      else (let byID = blockIndex (Blocks p) in
        (case validateParent (Blocks p) byID parent (Tag kind) of
           Some e \<Rightarrow> Some (Failed e p)
         | None \<Rightarrow> do {
             r \<leftarrow> insertIndexAfterInParent (Blocks p) byID parent after;
             (case r of Inl e \<Rightarrow> Some (Failed e p)
              | Inr idx \<Rightarrow> Some (Done (p\<lparr>Blocks := slice_insert (Blocks p) idx
                  [\<lparr>ID = bid, Parent = parent, BKind = kind, BContent = content\<rparr>]\<rparr>)))
           })))"

definition apply_delete ::
  "Page \<Rightarrow> Block \<Rightarrow> uuid option \<Rightarrow> (apply_error, Page) outcome option" where
  "apply_delete p tombstone after =
     (case indexOf (Blocks p) (ID tombstone) of
        None \<Rightarrow> Some (Failed (BlockNotFoundError (ID tombstone)) p)
      | Some i \<Rightarrow>
         if \<not> blockIDPtrEqual (Parent (Blocks p ! i)) (Parent tombstone)
         then Some (Failed (ParentMismatchError (ID tombstone) (Parent tombstone)
                              (Parent (Blocks p ! i))) p)
         else (let got = predecessorOf (Blocks p) i in
           if \<not> blockIDPtrEqual got after
           then Some (Failed (PositionMismatchError (ID tombstone) after got) p)
           else do {
             e \<leftarrow> subtreeEnd (Blocks p) (blockIndex (Blocks p)) i;
             if e \<noteq> i + 1 then Some (Failed (ContainerNotEmptyError (ID tombstone)) p)
             else Some (Done (p\<lparr>Blocks := slice_delete (Blocks p) i (i + 1)\<rparr>))
           }))"

text \<open>The check of SetBlockKind that a converted container is empty, and the one that a
  child of a list item stays a list or a paragraph.\<close>

definition kind_change_blocked ::
  "Block list \<Rightarrow> nat \<Rightarrow> uuid \<Rightarrow> BlockKind \<Rightarrow> BlockKind \<Rightarrow> apply_error option option" where
  "kind_change_blocked blocks i bid from to = do {
     nonempty \<leftarrow> (if IsContainer (Tag from) \<and> \<not> IsContainer (Tag to)
                  then map_option (\<lambda>e. e \<noteq> i + 1) (subtreeEnd blocks (blockIndex blocks) i)
                  else Some False);
     if nonempty then Some (Some (ContainerNotEmptyError bid))
     else Some (case Parent (blocks ! i) of None \<Rightarrow> None
       | Some parent \<Rightarrow> (case indexOf blocks parent of None \<Rightarrow> None
           | Some parentIdx \<Rightarrow>
               if Tag (BKind (blocks ! parentIdx)) = ListItem
                  \<and> Tag to \<noteq> ListTag \<and> Tag to \<noteq> Paragraph
               then Some (InvalidListChildError parent (Tag to)) else None))
   }"

definition apply_set_kind ::
  "Page \<Rightarrow> uuid \<Rightarrow> BlockKind \<Rightarrow> BlockKind \<Rightarrow> (apply_error, Page) outcome option" where
  "apply_set_kind p bid from to =
     (case indexOf (Blocks p) bid of
        None \<Rightarrow> Some (Failed (BlockNotFoundError bid) p)
      | Some i \<Rightarrow>
         if BKind (Blocks p ! i) \<noteq> from then Some (Failed (PreconditionError bid ''kind'') p)
         else do {
           blocked \<leftarrow> kind_change_blocked (Blocks p) i bid from to;
           (case blocked of Some e \<Rightarrow> Some (Failed e p)
            | None \<Rightarrow> Some (Done (p\<lparr>Blocks := (Blocks p)[i := (Blocks p ! i)\<lparr>BKind := to\<rparr>]\<rparr>)))
         })"

definition apply_set_content ::
  "Page \<Rightarrow> uuid \<Rightarrow> Content \<Rightarrow> Content \<Rightarrow> (apply_error, Page) outcome option" where
  "apply_set_content p block prev content =
     (case indexOf (Blocks p) block of
        None \<Rightarrow> Some (Failed (BlockNotFoundError block) p)
      | Some i \<Rightarrow>
         if \<not> Content_Equal (BContent (Blocks p ! i)) prev
         then Some (Failed (PreconditionError block ''content'') p)
         else Some (Done (p\<lparr>Blocks := (Blocks p)[i := (Blocks p ! i)\<lparr>BContent := content\<rparr>]\<rparr>)))"

definition apply_set_title ::
  "Page \<Rightarrow> string \<Rightarrow> string \<Rightarrow> (apply_error, Page) outcome option" where
  "apply_set_title p from to =
     (if Title p \<noteq> from then Some (Failed (PreconditionError (PID p) ''title'') p)
      else Some (Done (p\<lparr>Title := to\<rparr>)))"

definition move_creates_cycle ::
  "Block list \<Rightarrow> (uuid \<rightharpoonup> nat) \<Rightarrow> uuid \<Rightarrow> uuid option \<Rightarrow> bool option" where
  "move_creates_cycle blocks byID bid toParent =
     (case toParent of None \<Rightarrow> Some False
      | Some tp \<Rightarrow> if tp = bid then Some True else isDescendant blocks byID tp bid)"

definition apply_move ::
  "Page \<Rightarrow> uuid \<Rightarrow> uuid option \<Rightarrow> uuid option \<Rightarrow> uuid option \<Rightarrow> uuid option
     \<Rightarrow> (apply_error, Page) outcome option" where
  "apply_move p bid fromParent from toParent to =
     (case indexOf (Blocks p) bid of
        None \<Rightarrow> Some (Failed (BlockNotFoundError bid) p)
      | Some i \<Rightarrow>
         if \<not> blockIDPtrEqual (Parent (Blocks p ! i)) fromParent
         then Some (Failed (ParentMismatchError bid fromParent (Parent (Blocks p ! i))) p)
         else (let got = predecessorOf (Blocks p) i; byID = blockIndex (Blocks p) in
           if \<not> blockIDPtrEqual got from
           then Some (Failed (PositionMismatchError bid from got) p)
           else do {
             cyclic \<leftarrow> move_creates_cycle (Blocks p) byID bid toParent;
             if cyclic then Some (Failed (CycleError bid (the toParent)) p)
             else (case validateParent (Blocks p) byID toParent (Tag (BKind (Blocks p ! i))) of
                Some e \<Rightarrow> Some (Failed e p)
              | None \<Rightarrow> do {
                  e \<leftarrow> subtreeEnd (Blocks p) byID i;
                  let subtree = drop i (take e (Blocks p));
                  let withoutSubtree = slice_delete (Blocks p) i e;
                  r \<leftarrow> insertIndexAfterInParent withoutSubtree (blockIndex withoutSubtree) toParent to;
                  (case r of
                     Inl err \<Rightarrow> Some (Failed err
                       (p\<lparr>Blocks := slice_delete_storage zero_block (Blocks p) i e\<rparr>))
                   | Inr idx \<Rightarrow> Some (Done (p\<lparr>Blocks := slice_insert withoutSubtree idx
                       ((hd subtree)\<lparr>Parent := toParent\<rparr> # tl subtree)\<rparr>)))
                })
           }))"

fun Apply :: "Page \<Rightarrow> Op \<Rightarrow> (apply_error, Page) outcome option" where
  "Apply p (InsertBlock bid parent after kind content) =
     apply_insert p bid parent after kind content"
| "Apply p (DeleteBlock tombstone after) = apply_delete p tombstone after"
| "Apply p (SetBlockKind bid from to) = apply_set_kind p bid from to"
| "Apply p (SetBlockContent block prev content) = apply_set_content p block prev content"
| "Apply p (SetTitle page from to) = apply_set_title p from to"
| "Apply p (MoveBlock bid fromParent from toParent to) =
     apply_move p bid fromParent from toParent to"

lemmas apply_defs = apply_insert_def apply_delete_def apply_set_kind_def apply_set_content_def
  apply_set_title_def apply_move_def

subsection \<open>First facts\<close>

lemma Invert_Invert [simp]: "Invert (Invert op) = op"
  by (cases op) auto

lemma scan_back_find:
  "j \<le> length blocks \<Longrightarrow>
   scan_back blocks p j = map_option ID (List.find (\<lambda>b. Parent b = p) (rev (take j blocks)))"
  by (induction j) (auto simp: take_Suc_conv_app_nth)

definition sibling_before :: "Block list \<Rightarrow> uuid option \<Rightarrow> uuid option" where
  "sibling_before us p = map_option ID (List.find (\<lambda>b. Parent b = p) (rev us))"

lemma predecessorOf_split:
  "predecessorOf (xs @ b # ys) (length xs) = sibling_before xs (Parent b)"
  by (simp add: predecessorOf_def scan_back_find sibling_before_def)

lemma blockIndex_aux:
  "fold (\<lambda>(i, b) m. m(ID b \<mapsto> i)) (enumerate n blocks) m bid =
     (case find_index (\<lambda>b. ID b = bid) (rev blocks) of
        None \<Rightarrow> m bid | Some k \<Rightarrow> Some (n + length blocks - 1 - k))"
proof (induction blocks arbitrary: n rule: rev_induct)
  case (snoc b bs)
  then show ?case
    by (simp add: enumerate_append_eq split: option.split)
qed simp

lemma blockIndex_None: "blockIndex bs x = None \<longleftrightarrow> x \<notin> ID ` set bs"
proof -
  have "find_index (\<lambda>b. ID b = x) (rev bs) = None \<longleftrightarrow> x \<notin> ID ` set bs"
    by (auto simp: find_index_None)
  then show ?thesis
    by (cases "find_index (\<lambda>b. ID b = x) (rev bs)") (auto simp: blockIndex_def blockIndex_aux)
qed

lemma blockIndex_split:
  assumes "distinct (map ID (xs @ b # ys))"
  shows "blockIndex (xs @ b # ys) (ID b) = Some (length xs)"
proof -
  have "find_index (\<lambda>c. ID c = ID b) (rev ys @ b # rev xs) = Some (length (rev ys))"
    using assms by (intro find_index_split) (auto simp: image_iff)
  then show ?thesis
    by (simp add: blockIndex_def blockIndex_aux)
qed

lemma indexOf_None: "indexOf bs x = None \<longleftrightarrow> x \<notin> ID ` set bs"
  by (auto simp: indexOf_def find_index_None)

lemma indexOf_split:
  "distinct (map ID (xs @ b # ys)) \<Longrightarrow> indexOf (xs @ b # ys) (ID b) = Some (length xs)"
  unfolding indexOf_def by (intro find_index_split) (auto simp: image_iff)

lemma indexOfE:
  assumes "indexOf bs x = Some i"
  obtains xs b ys where "bs = xs @ b # ys" "length xs = i" "ID b = x"
  using assms unfolding indexOf_def by (elim find_indexE) blast

lemma indexOf_blockIndex:
  assumes "distinct (map ID bs)"
  shows "indexOf bs x = blockIndex bs x"
proof (cases "indexOf bs x")
  case None
  then show ?thesis by (metis blockIndex_None indexOf_None)
next
  case (Some i)
  then obtain xs b ys where "bs = xs @ b # ys" "length xs = i" "ID b = x"
    by (rule indexOfE)
  then show ?thesis
    using Some assms blockIndex_split by metis
qed

lemma blockIndexE:
  assumes "distinct (map ID bs)" and "blockIndex bs x = Some i"
  obtains xs b ys where "bs = xs @ b # ys" "length xs = i" "ID b = x"
  using assms indexOf_blockIndex indexOfE by metis

end
