(* ===== verification/PageTree.thy ===== *)
theory PageTree
  imports Pages
begin

text \<open>
  Depth-first order. The order invariant is checked by one scan that keeps the stack of
  ancestors of the last block: a top-level block resets the stack, a child must find its
  parent on it and drops everything above. The lemmas relate the code's lookups
  (\<open>isDescendant\<close>, \<open>subtreeEnd\<close>, \<open>insertIndexAfterInParent\<close>) to splits of the block list:
  a \<open>tree_node\<close> is a block with its subtree, a \<open>slot\<close> is a place where a child of a given parent
  can go.
\<close>

subsection \<open>The ancestor stack\<close>

definition push :: "uuid list \<Rightarrow> Block \<Rightarrow> uuid list option" where
  "push stk b = (case Parent b of None \<Rightarrow> Some [ID b]
     | Some p \<Rightarrow> if p \<in> set stk then Some (ID b # dropWhile (\<lambda>x. x \<noteq> p) stk) else None)"

fun path :: "uuid list \<Rightarrow> Block list \<Rightarrow> uuid list option" where
  "path stk [] = Some stk"
| "path stk (b # bs) = (case push stk b of None \<Rightarrow> None | Some s \<Rightarrow> path s bs)"

definition depth_first :: "Block list \<Rightarrow> bool" where
  "depth_first bs \<longleftrightarrow> path [] bs \<noteq> None"

lemma path_append:
  "path stk (xs @ ys) = (case path stk xs of None \<Rightarrow> None | Some s \<Rightarrow> path s ys)"
  by (induction xs arbitrary: stk) (auto split: option.split)

lemma push_set: "push stk b = Some s \<Longrightarrow> set s \<subseteq> insert (ID b) (set stk)"
  by (auto simp: push_def split: option.splits if_splits dest: set_dropWhileD)

lemma push_hd: "push stk b = Some s \<Longrightarrow> s = ID b # tl s"
  by (auto simp: push_def split: option.splits if_splits)

lemma path_set: "path stk xs = Some s \<Longrightarrow> set s \<subseteq> set stk \<union> ID ` set xs"
proof (induction xs arbitrary: stk)
  case (Cons b xs)
  then obtain t where t: "push stk b = Some t" "path t xs = Some s"
    by (auto split: option.splits)
  show ?case using Cons.IH[OF t(2)] push_set[OF t(1)] by auto
qed simp

lemma path_distinct:
  assumes "path stk xs = Some s" and "distinct stk" and "distinct (map ID xs)"
    and "set stk \<inter> ID ` set xs = {}"
  shows "distinct s"
  using assms
proof (induction xs arbitrary: stk)
  case (Cons b xs)
  then obtain t where t: "push stk b = Some t" "path t xs = Some s"
    by (auto split: option.splits)
  have "distinct t"
    using t(1) Cons.prems(2,4)
    by (auto simp: push_def split: option.splits if_splits dest: set_dropWhileD)
  moreover have "set t \<inter> ID ` set xs = {}"
  proof -
    have "ID b \<notin> ID ` set xs" using Cons.prems(3) by simp
    moreover have "set stk \<inter> ID ` set xs = {}" using Cons.prems(4) by auto
    ultimately have "insert (ID b) (set stk) \<inter> ID ` set xs = {}"
      using \<open>ID b \<notin> ID ` set xs\<close> by (simp only: Int_insert_left) simp
    then show ?thesis using push_set[OF t(1)] by (meson Int_mono disjoint_iff subsetD)
  qed
  ultimately show ?case
    using Cons.IH[OF t(2)] Cons.prems(3) by simp
qed simp

lemma path_parents:
  assumes "path stk xs = Some s" and "b \<in> set xs" and "Parent b = Some p"
  shows "p \<in> set stk \<union> ID ` set xs"
  using assms
proof (induction xs arbitrary: stk)
  case (Cons c xs)
  then obtain t where t: "push stk c = Some t" "path t xs = Some s"
    by (auto split: option.splits)
  show ?case
  proof (cases "b = c")
    case True
    then show ?thesis using t(1) Cons.prems(3) by (auto simp: push_def split: if_splits)
  next
    case False
    then show ?thesis
      using Cons.IH[OF t(2)] Cons.prems push_set[OF t(1)] by auto
  qed
qed simp

lemma depth_first_parents:
  "depth_first bs \<Longrightarrow> b \<in> set bs \<Longrightarrow> Parent b = Some p \<Longrightarrow> p \<in> ID ` set bs"
  using path_parents[of "[]" bs] by (auto simp: depth_first_def)

text \<open>Parents come strictly before their children.\<close>

lemma depth_first_parent_before:
  assumes "depth_first (xs @ b # ys)" and "Parent b = Some p"
  shows "p \<in> ID ` set xs"
proof -
  obtain s where s: "path [] xs = Some s" "push s b \<noteq> None"
    using assms(1) by (auto simp: depth_first_def path_append split: option.splits)
  then have "p \<in> set s" using assms(2) by (auto simp: push_def split: if_splits)
  then show ?thesis using path_set[OF s(1)] by auto
qed

subsection \<open>The parent chain\<close>

text \<open>A stack lists a block and its ancestors, each the parent of the one before.\<close>

fun chain :: "Block list \<Rightarrow> uuid list \<Rightarrow> bool" where
  "chain bs [] = True"
| "chain bs (x # r) =
     ((\<exists>b\<in>set bs. ID b = x \<and> Parent b = (case r of [] \<Rightarrow> None | y # _ \<Rightarrow> Some y)) \<and> chain bs r)"

lemma chain_mono: "chain bs s \<Longrightarrow> set bs \<subseteq> set cs \<Longrightarrow> chain cs s"
  by (induction s) auto

lemma chain_dropWhile: "chain bs s \<Longrightarrow> chain bs (dropWhile P s)"
  by (induction s) auto

lemma push_chain:
  assumes "chain bs stk" and "b \<in> set bs" and "push stk b = Some s"
  shows "chain bs s"
proof (cases "Parent b")
  case None
  then show ?thesis using assms by (auto simp: push_def)
next
  case (Some p)
  then have p: "p \<in> set stk" "s = ID b # dropWhile (\<lambda>x. x \<noteq> p) stk"
    using assms by (auto simp: push_def split: if_splits)
  then obtain r where r: "dropWhile (\<lambda>x. x \<noteq> p) stk = p # r"
    by (metis (mono_tags, lifting) dropWhile_eq_Nil_conv hd_dropWhile list.exhaust_sel)
  have "chain bs (p # r)"
    using chain_dropWhile[OF assms(1), of "\<lambda>x. x \<noteq> p"] r by simp
  moreover have "\<exists>c\<in>set bs. ID c = ID b \<and> Parent c = Some p"
    using assms(2) Some by blast
  ultimately show ?thesis
    by (simp add: p(2) r)
qed

lemma path_chain:
  "path stk xs = Some s \<Longrightarrow> chain bs stk \<Longrightarrow> set xs \<subseteq> set bs \<Longrightarrow> chain bs s"
proof (induction xs arbitrary: stk)
  case (Cons b xs)
  then obtain t where t: "push stk b = Some t" "path t xs = Some s"
    by (auto split: option.splits)
  show ?case using Cons.IH[OF t(2)] push_chain[OF Cons.prems(2) _ t(1)] Cons.prems(3) by auto
qed simp

lemma isDescendant_chain:
  assumes "distinct (map ID bs)" and "chain bs (x # s)"
  shows "isDescendant bs (blockIndex bs) x a = Some (a \<in> set s)"
  using assms(2)
proof (induction s arbitrary: x)
  case Nil
  then obtain b where b: "b \<in> set bs" "ID b = x" "Parent b = None" by auto
  then obtain xs ys where "bs = xs @ b # ys" by (meson split_list)
  then show ?case
    using b assms(1) blockIndex_split[of xs b ys] by (simp add: isDescendant.simps)
next
  case (Cons y s)
  then obtain b where b: "b \<in> set bs" "ID b = x" "Parent b = Some y" by auto
  then obtain xs ys where bs: "bs = xs @ b # ys" by (meson split_list)
  have "blockIndex bs x = Some (length xs)"
    using b assms(1) blockIndex_split[of xs b ys] bs by simp
  moreover have "bs ! length xs = b" using bs by simp
  ultimately show ?case
    using Cons.IH[of y] Cons.prems b by (subst isDescendant.simps) auto
qed

lemma isDescendant_path:
  assumes "distinct (map ID bs)" and "bs = us @ y # vs" and "path [] us = Some s" and "push s y = Some t"
  shows "isDescendant bs (blockIndex bs) (ID y) a = Some (a \<in> set (tl t))"
proof -
  have "chain bs s"
    using path_chain[OF assms(3), of bs] assms(2) by auto
  then have "chain bs t"
    using push_chain assms by (metis in_set_conv_decomp)
  then show ?thesis
    using isDescendant_chain[OF assms(1)] push_hd[OF assms(4)] by metis
qed

lemma isDescendant_returns:
  assumes "distinct (map ID bs)" and "depth_first bs"
  shows "\<exists>r. isDescendant bs (blockIndex bs) x a = Some r"
proof (cases "x \<in> ID ` set bs")
  case False
  then have "blockIndex bs x = None" by (simp add: blockIndex_None)
  then have "isDescendant bs (blockIndex bs) x a = Some False"
    by (simp add: isDescendant.simps[of bs])
  then show ?thesis by blast
next
  case True
  then obtain us y vs where y: "bs = us @ y # vs" "ID y = x"
    by (metis imageE split_list)
  then obtain s t where "path [] us = Some s" "push s y = Some t"
    using assms(2) by (auto simp: depth_first_def path_append split: option.splits)
  then show ?thesis
    using isDescendant_path[OF assms(1) y(1)] y(2) by blast
qed

subsection \<open>Nodes and slots\<close>

definition base :: "uuid option \<Rightarrow> uuid list \<Rightarrow> bool" where
  "base par S \<longleftrightarrow> (case par of None \<Rightarrow> S = [] | Some p \<Rightarrow> S \<noteq> [] \<and> hd S = p)"

definition rest_ok :: "uuid list \<Rightarrow> Block list \<Rightarrow> bool" where
  "rest_ok S vs \<longleftrightarrow> (case vs of [] \<Rightarrow> True
     | v # _ \<Rightarrow> (case Parent v of None \<Rightarrow> True | Some p \<Rightarrow> p \<in> set S))"

definition slot :: "Block list \<Rightarrow> Block list \<Rightarrow> uuid option \<Rightarrow> bool" where
  "slot us vs par \<longleftrightarrow> (\<exists>A S. path [] us = Some (A @ S) \<and> base par S \<and> rest_ok S vs)"

definition subtree :: "uuid \<Rightarrow> Block list \<Rightarrow> bool" where
  "subtree a ds \<longleftrightarrow> path [a] ds \<noteq> None \<and> (\<forall>d\<in>set ds. Parent d \<noteq> None)"

lemma push_Some_base:
  assumes "push s b = Some t"
  obtains A S where "s = A @ S" "base (Parent b) S" "t = ID b # S"
proof (cases "Parent b")
  case None
  then show ?thesis using assms that[of s "[]"] by (auto simp: push_def base_def)
next
  case (Some p)
  then have p: "p \<in> set s" "t = ID b # dropWhile (\<lambda>x. x \<noteq> p) s"
    using assms by (auto simp: push_def split: if_splits)
  have "dropWhile (\<lambda>x. x \<noteq> p) s \<noteq> []" using p(1) by auto
  then have "base (Some p) (dropWhile (\<lambda>x. x \<noteq> p) s)"
    using hd_dropWhile[of "\<lambda>x. x \<noteq> p" s] by (auto simp: base_def)
  then show ?thesis
    using that[of "takeWhile (\<lambda>x. x \<noteq> p) s" "dropWhile (\<lambda>x. x \<noteq> p) s"] p Some by simp
qed

lemma push_base:
  assumes "distinct (A @ S)" and "base (Parent b) S"
  shows "push (A @ S) b = Some (ID b # S)"
proof (cases "Parent b")
  case (Some p)
  then obtain S' where "S = p # S'" using assms(2) by (cases S) (auto simp: base_def)
  then show ?thesis
    using Some assms(1) by (auto simp: push_def dropWhile_append3)
qed (use assms in \<open>simp add: push_def base_def\<close>)

lemma dropWhile_base: "p \<in> set P \<Longrightarrow> dropWhile (\<lambda>x. x \<noteq> p) (P @ S) = dropWhile (\<lambda>x. x \<noteq> p) P @ S"
  by (induction P) auto

lemma path_above:
  assumes "path P ds = Some Q" and "\<forall>d\<in>set ds. Parent d \<noteq> None"
  shows "path (P @ S) ds = Some (Q @ S)"
  using assms
proof (induction ds arbitrary: P)
  case (Cons d ds)
  then obtain p where p: "Parent d = Some p" by auto
  then have "p \<in> set P" "path (ID d # dropWhile (\<lambda>x. x \<noteq> p) P) ds = Some Q"
    using Cons.prems(1) by (auto simp: push_def split: if_splits)
  then show ?case
    using Cons.IH[of "ID d # dropWhile (\<lambda>x. x \<noteq> p) P"] Cons.prems(2) p
    by (simp add: push_def dropWhile_base)
qed simp

lemma path_cut:
  assumes "path (P @ S) ys \<noteq> None" and "P \<noteq> []"
  shows "\<exists>ds rest Q. ys = ds @ rest \<and> path P ds = Some Q \<and> Q \<noteq> []
    \<and> (\<forall>d\<in>set ds. Parent d \<noteq> None) \<and> rest_ok S rest"
  using assms
proof (induction ys arbitrary: P)
  case Nil
  then show ?case by (auto simp: rest_ok_def)
next
  case (Cons y ys)
  show ?case
  proof (cases "\<exists>p. Parent y = Some p \<and> p \<in> set P")
    case True
    then obtain p where p: "Parent y = Some p" "p \<in> set P" by blast
    let ?P = "ID y # dropWhile (\<lambda>x. x \<noteq> p) P"
    have "path (?P @ S) ys \<noteq> None"
      using Cons.prems(1) p by (simp add: push_def dropWhile_base)
    from Cons.IH[OF this] obtain ds rest Q where
      "ys = ds @ rest" "path ?P ds = Some Q" "Q \<noteq> []" "\<forall>d\<in>set ds. Parent d \<noteq> None" "rest_ok S rest"
      by auto
    then show ?thesis
      using p by (intro exI[of _ "y # ds"] exI[of _ rest] exI[of _ Q]) (simp add: push_def)
  next
    case False
    then have "rest_ok S (y # ys)"
      using Cons.prems(1) by (auto simp: rest_ok_def push_def split: option.splits if_splits)
    then show ?thesis
      using Cons.prems(2) by (intro exI[of _ "[]"] exI[of _ "y # ys"] exI[of _ P]) auto
  qed
qed

lemma rest_swap:
  assumes "rest_ok S vs" and "distinct (A @ S)" and "distinct (B @ S)"
  shows "path (A @ S) vs \<noteq> None \<longleftrightarrow> path (B @ S) vs \<noteq> None"
proof (cases vs)
  case (Cons v vs')
  have "push (A @ S) v = push (B @ S) v"
  proof (cases "Parent v")
    case (Some p)
    then have "p \<in> set S" using assms(1) Cons by (simp add: rest_ok_def)
    then have "p \<notin> set A" "p \<notin> set B" using assms(2,3) by auto
    then have "dropWhile (\<lambda>x. x \<noteq> p) (A @ S) = dropWhile (\<lambda>x. x \<noteq> p) S"
      "dropWhile (\<lambda>x. x \<noteq> p) (B @ S) = dropWhile (\<lambda>x. x \<noteq> p) S"
      by (intro dropWhile_append2; blast)+
    then show ?thesis
      using Some \<open>p \<in> set S\<close> by (simp add: push_def)
  qed (simp add: push_def)
  then show ?thesis using Cons by simp
qed simp


lemma rest_ok_mono: "rest_ok S vs \<Longrightarrow> set S \<subseteq> set T \<Longrightarrow> rest_ok T vs"
  by (auto simp: rest_ok_def split: list.splits option.splits)

text \<open>A tree_node: the block b after xs, its subtree ds and what follows.\<close>

definition tree_node :: "Block list \<Rightarrow> Block \<Rightarrow> Block list \<Rightarrow> Block list \<Rightarrow> bool" where
  "tree_node xs b ds rest \<longleftrightarrow> (\<exists>A S. path [] xs = Some (A @ S) \<and> base (Parent b) S
     \<and> subtree (ID b) ds \<and> rest_ok S rest)"

lemma stack_distinct:
  assumes "path [] xs = Some s" and "distinct (map ID (xs @ ys))"
  shows "distinct s" and "set s \<inter> ID ` set ys = {}"
proof -
  show "distinct s" using path_distinct[OF assms(1)] assms(2) by simp
  have "ID ` set xs \<inter> ID ` set ys = {}" using assms(2) by auto
  then show "set s \<inter> ID ` set ys = {}" using path_set[OF assms(1)] by auto
qed

lemma node_exists:
  assumes "depth_first (xs @ b # ys)"
  obtains ds rest where "ys = ds @ rest" "tree_node xs b ds rest"
proof -
  obtain s t where s: "path [] xs = Some s" "push s b = Some t" "path t ys \<noteq> None"
    using assms by (auto simp: depth_first_def path_append split: option.splits)
  obtain A S where A: "s = A @ S" "base (Parent b) S" "t = ID b # S"
    using push_Some_base[OF s(2)] by metis
  obtain ds rest Q where "ys = ds @ rest" "path [ID b] ds = Some Q"
    "\<forall>d\<in>set ds. Parent d \<noteq> None" "rest_ok S rest"
    using path_cut[of "[ID b]" S ys] s(3) A(3) by auto
  then show ?thesis
    using that[of ds rest] s(1) A by (auto simp: tree_node_def subtree_def)
qed

lemma node_slot: "tree_node xs b ds rest \<Longrightarrow> slot xs rest (Parent b)"
  by (auto simp: tree_node_def slot_def)

lemma node_remove:
  assumes "tree_node xs b ds rest" and "depth_first (xs @ b # ds @ rest)"
    and "distinct (map ID (xs @ b # ds @ rest))"
  shows "depth_first (xs @ rest)"
proof -
  obtain A S where A: "path [] xs = Some (A @ S)" "base (Parent b) S" "subtree (ID b) ds" "rest_ok S rest"
    using assms(1) by (auto simp: tree_node_def)
  note dist = stack_distinct[OF A(1) assms(3)]
  obtain Q where Q: "path [ID b] ds = Some Q" "\<forall>d\<in>set ds. Parent d \<noteq> None"
    using A(3) by (auto simp: subtree_def)
  have "push (A @ S) b = Some ([ID b] @ S)" using push_base[OF dist(1) A(2)] by simp
  then have p: "path [] (xs @ b # ds) = Some (Q @ S)"
    using A(1) path_above[OF Q] by (simp add: path_append)
  have "distinct (Q @ S)"
    using stack_distinct(1)[OF p, of rest] assms(3) by simp
  moreover have "path (Q @ S) rest \<noteq> None"
    using assms(2) p by (auto simp: depth_first_def path_append split: option.splits)
  ultimately have "path (A @ S) rest \<noteq> None"
    using rest_swap[OF A(4) dist(1)] by blast
  then show ?thesis using A(1) by (simp add: depth_first_def path_append)
qed

lemma slot_node:
  assumes "slot us vs (Parent b)" and "subtree (ID b) ds"
    and "distinct (map ID (us @ b # ds @ vs))" and "depth_first (us @ vs)"
  shows "tree_node us b ds vs" and "depth_first (us @ b # ds @ vs)"
proof -
  obtain A S where A: "path [] us = Some (A @ S)" "base (Parent b) S" "rest_ok S vs"
    using assms(1) by (auto simp: slot_def)
  then show "tree_node us b ds vs" using assms(2) by (auto simp: tree_node_def)
  note dist = stack_distinct[OF A(1) assms(3)]
  obtain Q where Q: "path [ID b] ds = Some Q" "\<forall>d\<in>set ds. Parent d \<noteq> None"
    using assms(2) by (auto simp: subtree_def)
  have "push (A @ S) b = Some ([ID b] @ S)" using push_base[OF dist(1) A(2)] by simp
  then have p: "path [] (us @ b # ds) = Some (Q @ S)"
    using A(1) path_above[OF Q] by (simp add: path_append)
  have "distinct (Q @ S)"
    using stack_distinct(1)[OF p, of vs] assms(3) by simp
  moreover have "path (A @ S) vs \<noteq> None"
    using assms(4) A(1) by (simp add: depth_first_def path_append)
  ultimately have "path (Q @ S) vs \<noteq> None"
    using rest_swap[OF A(3) dist(1)] by blast
  then have "path [] ((us @ b # ds) @ vs) \<noteq> None"
    using p path_append[of "[]" "us @ b # ds" vs] by simp
  then show "depth_first (us @ b # ds @ vs)"
    by (simp add: depth_first_def)
qed

lemma subtree_reparent: "subtree (ID b) ds \<longleftrightarrow> subtree (ID (b\<lparr>Parent := q\<rparr>)) ds"
  by simp

lemma subtree_Nil [simp]: "subtree a []"
  by (simp add: subtree_def)

end
