(* ===== verification/PageSlots.thy ===== *)
theory PageSlots
  imports PageTree
begin

text \<open>
  What the page's lookups find in a depth-first block list: a tree_node's subtree ends where
  \<open>subtreeEnd\<close> says, its blocks are exactly the block's descendants, and
  \<open>insertIndexAfterInParent\<close> finds the slot after a given sibling, and only that slot.
\<close>

subsection \<open>Descendants of a tree_node\<close>

lemma path_last:
  assumes "path P ds = Some Q" and "P \<noteq> []" and "\<forall>d\<in>set ds. Parent d \<noteq> None"
  shows "Q \<noteq> [] \<and> last Q = last P"
  using assms
proof (induction ds arbitrary: P)
  case (Cons d ds)
  then obtain p where p: "Parent d = Some p" by auto
  then have q: "p \<in> set P" "path (ID d # dropWhile (\<lambda>x. x \<noteq> p) P) ds = Some Q"
    using Cons.prems(1) by (auto simp: push_def split: if_splits)
  have "last (dropWhile (\<lambda>x. x \<noteq> p) P) = last P"
    using q(1) by (intro dropWhile_last[of p]) auto
  moreover have "dropWhile (\<lambda>x. x \<noteq> p) P \<noteq> []" using q(1) by auto
  ultimately show ?case using Cons.IH[OF q(2)] Cons.prems(3) q(1) by auto
qed simp

lemma path_not_in:
  "path s xs = Some t \<Longrightarrow> a \<notin> set s \<Longrightarrow> a \<notin> ID ` set xs \<Longrightarrow> a \<notin> set t"
  using path_set[of s xs t] by blast

lemma subtree_member_parent:
  assumes "subtree a ds" and "d \<in> set ds"
  obtains p where "Parent d = Some p" "p \<in> insert a (ID ` set ds)"
proof -
  obtain Q where Q: "path [a] ds = Some Q" using assms(1) by (auto simp: subtree_def)
  obtain p where "Parent d = Some p" using assms by (auto simp: subtree_def)
  then show ?thesis using that path_parents[OF Q assms(2)] by simp
qed

text \<open>The stack around a tree_node, in one place.\<close>

lemma node_stack:
  assumes "tree_node xs b ds rest" and "distinct (map ID (xs @ b # ds @ rest))"
  obtains A S Q where "path [] xs = Some (A @ S)" "base (Parent b) S" "rest_ok S rest"
    "push (A @ S) b = Some (ID b # S)" "path [ID b] ds = Some Q"
    "path [] (xs @ b # ds) = Some (Q @ S)" "distinct (Q @ S)" "set S \<subseteq> ID ` set xs"
proof -
  obtain A S where A: "path [] xs = Some (A @ S)" "base (Parent b) S" "subtree (ID b) ds" "rest_ok S rest"
    using assms(1) by (auto simp: tree_node_def)
  note dist = stack_distinct[OF A(1) assms(2)]
  obtain Q where Q: "path [ID b] ds = Some Q" "\<forall>d\<in>set ds. Parent d \<noteq> None"
    using A(3) by (auto simp: subtree_def)
  have b: "push (A @ S) b = Some ([ID b] @ S)" using push_base[OF dist(1) A(2)] by simp
  then have p: "path [] (xs @ b # ds) = Some (Q @ S)"
    using A(1) path_above[OF Q] by (simp add: path_append)
  have "distinct (Q @ S)"
    using stack_distinct(1)[OF p, of rest] assms(2) by simp
  moreover have "set S \<subseteq> ID ` set xs" using path_set[OF A(1)] by auto
  ultimately show ?thesis using that A Q(1) b p by simp
qed

lemma inside_descendant:
  assumes "tree_node xs b ds rest" and "distinct (map ID (xs @ b # ds @ rest))" and "d \<in> set ds"
  shows "isDescendant (xs @ b # ds @ rest) (blockIndex (xs @ b # ds @ rest)) (ID d) (ID b) = Some True"
proof -
  let ?bs = "xs @ b # ds @ rest"
  obtain d1 d2 where ds: "ds = d1 @ d # d2" using assms(3) by (meson split_list)
  obtain A S where A: "path [] xs = Some (A @ S)" "base (Parent b) S" "subtree (ID b) ds"
    using assms(1) by (auto simp: tree_node_def)
  note dist = stack_distinct[OF A(1) assms(2)]
  obtain Q where Q: "path [ID b] ds = Some Q" "\<forall>d\<in>set ds. Parent d \<noteq> None"
    using A(3) by (auto simp: subtree_def)
  obtain Q1 Q2 where Q1: "path [ID b] d1 = Some Q1" "push Q1 d = Some Q2"
    using Q(1) by (auto simp: ds path_append split: option.splits)
  obtain p where p: "Parent d = Some p" using Q(2) ds by auto
  have Q2: "p \<in> set Q1" "Q2 = ID d # dropWhile (\<lambda>x. x \<noteq> p) Q1"
    using Q1(2) p by (auto simp: push_def split: if_splits)
  have "last Q1 = ID b" "Q1 \<noteq> []" using path_last[OF Q1(1)] Q(2) ds by auto
  then have l: "last (dropWhile (\<lambda>x. x \<noteq> p) Q1) = ID b"
    using dropWhile_last[OF Q2(1), of "\<lambda>x. x \<noteq> p"] by simp
  have "dropWhile (\<lambda>x. x \<noteq> p) Q1 \<noteq> []" using Q2(1) by auto
  then have mem: "ID b \<in> set (dropWhile (\<lambda>x. x \<noteq> p) Q1)" using l last_in_set by metis
  have "push (A @ S) b = Some ([ID b] @ S)" using push_base[OF dist(1) A(2)] by simp
  then have s: "path [] (xs @ b # d1) = Some (Q1 @ S)"
    using A(1) path_above[OF Q1(1)] Q(2) ds by (simp add: path_append)
  have t: "push (Q1 @ S) d = Some (ID d # dropWhile (\<lambda>x. x \<noteq> p) Q1 @ S)"
    using p Q2(1) by (simp add: push_def dropWhile_base)
  have "?bs = (xs @ b # d1) @ d # (d2 @ rest)" using ds by simp
  from isDescendant_path[OF assms(2) this s t] mem show ?thesis by simp
qed

lemma outside_not_descendant:
  assumes "tree_node xs b ds rest" and "distinct (map ID (xs @ b # ds @ rest))"
    and "depth_first (xs @ b # ds @ rest)" and "x \<notin> ID ` set (b # ds)"
  shows "isDescendant (xs @ b # ds @ rest) (blockIndex (xs @ b # ds @ rest)) x (ID b) = Some False"
proof -
  let ?bs = "xs @ b # ds @ rest"
  consider (none) "x \<notin> ID ` set ?bs" | (before) "x \<in> ID ` set xs" | (after) "x \<in> ID ` set rest"
    using assms(4) by auto
  then show ?thesis
  proof cases
    case none
    then have "blockIndex ?bs x = None" by (simp only: blockIndex_None not_False_eq_True)
    then show ?thesis by (simp add: isDescendant.simps)
  next
    case before
    then obtain u y v where y: "xs = u @ y # v" "ID y = x" by (metis imageE split_list)
    then obtain s t where st: "path [] u = Some s" "push s y = Some t"
      using assms(3) by (auto simp: depth_first_def path_append split: option.splits)
    have "?bs = u @ y # (v @ b # ds @ rest)" using y by simp
    note r = isDescendant_path[OF assms(2) this st, of "ID b"]
    have "set (tl t) \<subseteq> ID ` set xs"
      using push_set[OF st(2)] path_set[OF st(1)] y list.set_sel(2)[of t] by (cases t) auto
    moreover have "ID b \<notin> ID ` set xs" using assms(2) by auto
    ultimately have "ID b \<notin> set (tl t)" by blast
    then show ?thesis using r y(2) by simp
  next
    case after
    then obtain u y v where y: "rest = u @ y # v" "ID y = x" by (metis imageE split_list)
    obtain A S Q where st: "path [] (xs @ b # ds) = Some (Q @ S)" "rest_ok S rest"
      "distinct (Q @ S)" "set S \<subseteq> ID ` set xs"
      using node_stack[OF assms(1,2)] by metis
    obtain s t where s: "path (Q @ S) u = Some s" "push s y = Some t"
    proof -
      have "path (Q @ S) (u @ y # v) \<noteq> None"
        using assms(3) path_append[of "[]" "xs @ b # ds" rest] st(1) y
        by (simp add: depth_first_def)
      then show ?thesis using that by (auto simp: path_append split: option.splits)
    qed
    have bS: "ID b \<notin> set S" using st(4) assms(2) by auto
    have first: "ID b \<notin> set (tl r)" if "push (Q @ S) w = Some r" "rest = w # z" for w z r
    proof (cases "Parent w")
      case (Some p)
      then have "p \<in> set S" using st(2) that(2) by (simp add: rest_ok_def)
      then have "\<forall>x\<in>set Q. x \<noteq> p" using st(3) by auto
      then have "r = ID w # dropWhile (\<lambda>x. x \<noteq> p) S"
        using that(1) Some by (auto simp: push_def split: if_splits)
      then show ?thesis using bS set_dropWhileD by fastforce
    qed (use that in \<open>auto simp: push_def\<close>)
    have "ID b \<notin> set (tl t)"
    proof (cases u)
      case Nil
      then show ?thesis using first s y by auto
    next
      case (Cons w u')
      then obtain r where r: "push (Q @ S) w = Some r" "path r u' = Some s"
        using s(1) by (auto split: option.splits)
      have ids: "ID b \<noteq> ID w" "ID b \<noteq> ID y" "ID b \<notin> ID ` set u'"
        using assms(2) y Cons by auto
      have "ID b \<notin> set r"
        using first[OF r(1)] push_hd[OF r(1)] y Cons ids(1)
        by (metis append_Cons set_ConsD)
      then have "ID b \<notin> set s" using path_not_in[OF r(2)] ids by blast
      then have "ID b \<notin> set t" using push_set[OF s(2)] ids by blast
      then show ?thesis using push_hd[OF s(2)] by (metis list.set_intros(2))
    qed
    moreover have bs: "?bs = (xs @ b # ds @ u) @ y # v" using y by simp
    moreover have "path [] (xs @ b # ds @ u) = Some s"
      using path_append[of "[]" "xs @ b # ds" u] st(1) s(1) by simp
    ultimately show ?thesis
      using isDescendant_path[OF assms(2) bs _ s(2), of "ID b"] y(2) by simp
  qed
qed

subsection \<open>subtreeEnd\<close>

lemma subtree_scan_run:
  assumes "i \<le> e" and "e \<le> length bs"
    and "\<forall>k. i \<le> k \<and> k < e \<longrightarrow> isDescendant bs idx (ID (bs ! k)) x = Some True"
    and "e < length bs \<longrightarrow> isDescendant bs idx (ID (bs ! e)) x = Some False"
  shows "subtree_scan bs idx x i = Some e"
  using assms
proof (induction "e - i" arbitrary: i)
  case 0
  then show ?case by (subst subtree_scan.simps) auto
next
  case (Suc n)
  then have "subtree_scan bs idx x (Suc i) = Some e" by (intro Suc.hyps(1)) auto
  moreover have "isDescendant bs idx (ID (bs ! i)) x = Some True" "i < length bs"
    using Suc.prems Suc.hyps(2) by auto
  ultimately show ?case by (subst subtree_scan.simps) simp
qed

lemma subtreeEnd_node:
  assumes "tree_node xs b ds rest" and "distinct (map ID (xs @ b # ds @ rest))"
    and "depth_first (xs @ b # ds @ rest)"
  shows "subtreeEnd (xs @ b # ds @ rest) (blockIndex (xs @ b # ds @ rest)) (length xs)
    = Some (length xs + 1 + length ds)"
proof -
  let ?bs = "xs @ b # ds @ rest" and ?e = "length xs + 1 + length ds"
  have "isDescendant ?bs (blockIndex ?bs) (ID (?bs ! k)) (ID b) = Some True"
    if "length xs + 1 \<le> k \<and> k < ?e" for k
  proof -
    have "?bs ! k = ds ! (k - (length xs + 1))" "k - (length xs + 1) < length ds"
      using that by (auto simp: nth_append nth_Cons')
    then show ?thesis using inside_descendant[OF assms(1,2)] by simp
  qed
  moreover have "isDescendant ?bs (blockIndex ?bs) (ID (?bs ! ?e)) (ID b) = Some False"
    if "?e < length ?bs"
  proof -
    have "?bs ! ?e = rest ! 0" "rest \<noteq> []" using that by (auto simp: nth_append)
    then obtain w z where "rest = w # z" "?bs ! ?e = w" by (cases rest) auto
    then show ?thesis
      using outside_not_descendant[OF assms, of "ID w"] assms(2) by auto
  qed
  ultimately show ?thesis
    unfolding subtreeEnd_def
    by (simp del: isDescendant.simps) (intro subtree_scan_run; simp)
qed

subsection \<open>The insertion index\<close>

lemma sibling_before_None:
  "sibling_before us par = None \<longleftrightarrow> (\<forall>b\<in>set us. Parent b \<noteq> par)"
  by (auto simp: sibling_before_def find_None_iff)

lemma sibling_before_Some:
  assumes "\<forall>b\<in>set u2. Parent b \<noteq> Parent c"
  shows "sibling_before (u1 @ c # u2) (Parent c) = Some (ID c)"
  using find_skip[of "rev u2" "\<lambda>b. Parent b = Parent c" c "rev u1"] assms
  by (simp add: sibling_before_def)

lemma sibling_before_split:
  assumes "sibling_before us par = Some a"
  obtains u1 c u2 where "us = u1 @ c # u2" "ID c = a" "Parent c = par"
    "\<forall>b\<in>set u2. Parent b \<noteq> par"
proof -
  from assms obtain c where c: "List.find (\<lambda>b. Parent b = par) (rev us) = Some c" "ID c = a"
    by (auto simp: sibling_before_def)
  from c(1) obtain us' vs' where "rev us = us' @ c # vs'" "Parent c = par"
    "\<forall>b\<in>set us'. Parent b \<noteq> par"
    by (rule find_SomeE)
  then show ?thesis
    using that[of "rev vs'" c "rev us'"] c(2) by (simp add: rev_swap)
qed

lemma depth_first_head: "depth_first (b # bs) \<Longrightarrow> Parent b = None"
  by (auto simp: depth_first_def push_def split: option.splits)

lemma no_own_sibling_before_parent:
  assumes "depth_first (xs @ pb # ys)" and "distinct (map ID (xs @ pb # ys))"
  shows "sibling_before (xs @ [pb]) (Some (ID pb)) = None"
proof -
  have "Parent b \<noteq> Some (ID pb)" if b: "b \<in> set (xs @ [pb])" for b
  proof
    assume p: "Parent b = Some (ID pb)"
    obtain u v where uv: "xs @ [pb] = u @ b # v" using b by (meson split_list)
    then have u: "xs @ pb # ys = u @ b # (v @ ys)" by (metis append.assoc append_Cons append_Nil)
    then have "ID pb \<in> ID ` set u"
      using depth_first_parent_before[of u b "v @ ys" "ID pb"] assms(1) p by (simp only: u)
    moreover have "set u \<subseteq> set xs"
    proof -
      from uv have "u = take (length u) xs"
        by (metis append_eq_conv_conj append_take_drop_id butlast.simps(2) butlast_append butlast_snoc
            length_append_singleton list.distinct(1) nat_le_linear take_all take_append)
      then show ?thesis by (metis set_take_subset)
    qed
    ultimately show False using assms(2) by auto
  qed
  then show ?thesis by (simp add: sibling_before_None)
qed

lemma slot_after_parent:
  assumes "depth_first (xs @ pb # ys)"
  shows "slot (xs @ [pb]) ys (Some (ID pb))"
proof -
  obtain s t where s: "path [] xs = Some s" "push s pb = Some t" "path t ys \<noteq> None"
    using assms by (auto simp: depth_first_def path_append split: option.splits)
  have "path [] (xs @ [pb]) = Some ([] @ t)" using s by (simp add: path_append)
  moreover have "base (Some (ID pb)) t"
    using push_hd[OF s(2)] by (cases t) (auto simp: base_def)
  moreover have "rest_ok t ys"
    using s(3) by (cases ys) (auto simp: rest_ok_def push_def split: option.splits if_splits)
  ultimately show ?thesis unfolding slot_def by blast
qed

lemma slot_after_sibling:
  assumes "tree_node xs c ds rest" and "distinct (map ID (xs @ c # ds @ rest))"
  shows "slot (xs @ c # ds) rest (Parent c)"
    and "sibling_before (xs @ c # ds) (Parent c) = Some (ID c)"
proof -
  obtain A S Q where st: "base (Parent c) S" "rest_ok S rest" "path [ID c] ds = Some Q"
    "path [] (xs @ c # ds) = Some (Q @ S)" "set S \<subseteq> ID ` set xs"
    using node_stack[OF assms] by metis
  then show "slot (xs @ c # ds) rest (Parent c)" by (auto simp: slot_def)
  have sub: "subtree (ID c) ds" using assms(1) by (auto simp: tree_node_def)
  have "Parent d \<noteq> Parent c" if d: "d \<in> set ds" for d
  proof
    assume eq: "Parent d = Parent c"
    obtain p where p: "Parent d = Some p" "p \<in> insert (ID c) (ID ` set ds)"
      using subtree_member_parent[OF sub d] .
    then have "S \<noteq> []" "hd S = p" using st(1) eq by (simp_all add: base_def)
    then have "p \<in> set S" using hd_in_set by blast
    then have "p \<in> ID ` set xs" using st(5) by blast
    moreover have "ID ` set xs \<inter> insert (ID c) (ID ` set ds) = {}" using assms(2) by auto
    ultimately show False using p(2) by blast
  qed
  then show "sibling_before (xs @ c # ds) (Parent c) = Some (ID c)"
    by (intro sibling_before_Some) blast
qed

lemma insertIndex_finds_slot:
  assumes df: "depth_first bs" and dist: "distinct (map ID bs)"
  obtains (error) e where "insertIndexAfterInParent bs (blockIndex bs) par aft = Some (Inl e)"
  | (slot) us vs where "bs = us @ vs"
      "insertIndexAfterInParent bs (blockIndex bs) par aft = Some (Inr (length us))"
      "slot us vs par" "sibling_before us par = aft"
proof (cases aft)
  case None
  show ?thesis
  proof (cases par)
    case None
    have "rest_ok [] bs" using df depth_first_head by (cases bs) (auto simp: rest_ok_def)
    then have "slot [] bs None" by (simp add: slot_def base_def)
    then show ?thesis
      using slot[of "[]" bs] None \<open>aft = None\<close>
      by (simp add: insertIndexAfterInParent_def sibling_before_None)
  next
    case (Some p)
    show ?thesis
    proof (cases "blockIndex bs p")
      case None
      then show ?thesis
        using error Some \<open>aft = None\<close> by (simp add: insertIndexAfterInParent_def)
    next
      case (Some i)
      then obtain xs pb ys where b: "bs = xs @ pb # ys" "length xs = i" "ID pb = p"
        by (rule blockIndexE[OF dist])
      show ?thesis
        using slot[of "xs @ [pb]" ys] slot_after_parent[of xs pb ys]
          no_own_sibling_before_parent[of xs pb ys] df dist b Some \<open>par = Some p\<close> \<open>aft = None\<close>
        by (simp add: insertIndexAfterInParent_def)
    qed
  qed
next
  case (Some a)
  show ?thesis
  proof (cases "blockIndex bs a")
    case None
    then show ?thesis using error Some by (simp add: insertIndexAfterInParent_def)
  next
    case ix: (Some i)
    then obtain xs c ys where b: "bs = xs @ c # ys" "length xs = i" "ID c = a"
      by (rule blockIndexE[OF dist])
    obtain ds rest where n: "ys = ds @ rest" "tree_node xs c ds rest"
      using node_exists df b(1) by metis
    have bs: "bs = (xs @ c # ds) @ rest" using b n by simp
    have e: "subtreeEnd bs (blockIndex bs) i = Some (length xs + 1 + length ds)"
      using subtreeEnd_node[OF n(2)] df dist b n(1) by simp
    have nth: "bs ! i = c" using b by (metis nth_append_length)
    show ?thesis
    proof (cases "Parent c = par")
      case True
      then show ?thesis
        using slot[OF bs] slot_after_sibling[OF n(2)] dist bs e ix nth b(3) Some
        by (simp add: insertIndexAfterInParent_def)
    next
      case False
      then show ?thesis
        using error ix nth b(3) Some
        by (simp add: insertIndexAfterInParent_def)
    qed
  qed
qed

text \<open>Conversely a slot is found from the sibling before it: nothing popped from the ancestor
  stack returns to it.\<close>

lemma popped_parent:
  assumes "path [] (u1 @ w # u2) = Some s" and "distinct (map ID (u1 @ w # u2))"
    and "p \<in> set s" and "p \<notin> ID ` set (w # u2)"
  shows "\<exists>q. Parent w = Some q \<and>
    (\<exists>t A S. path [] u1 = Some t \<and> t = A @ S \<and> S \<noteq> [] \<and> hd S = q \<and> p \<in> set S)"
proof -
  obtain t r where t: "path [] u1 = Some t" "push t w = Some r" "path r u2 = Some s"
    using assms(1) by (auto simp: path_append split: option.splits)
  obtain A S where A: "t = A @ S" "base (Parent w) S" "r = ID w # S"
    using push_Some_base[OF t(2)] by metis
  have "p \<in> set r" using path_not_in[OF t(3), of p] assms(3,4) by auto
  then have "p \<in> set S" using A(3) assms(4) by auto
  then obtain q where "Parent w = Some q" "S \<noteq> []" "hd S = q"
    using A(2) by (cases "Parent w") (auto simp: base_def)
  then show ?thesis using t(1) A(1) \<open>p \<in> set S\<close> by blast
qed

lemma slot_base:
  assumes "slot us vs (Some p)" and "distinct (map ID us)"
  obtains A S where "path [] us = Some (A @ p # S)" "rest_ok (p # S) vs" "p \<in> ID ` set us"
    "distinct (A @ p # S)"
proof -
  obtain A S' where A: "path [] us = Some (A @ S')" "base (Some p) S'" "rest_ok S' vs"
    using assms(1) by (auto simp: slot_def)
  then obtain S where S: "S' = p # S" by (cases S') (auto simp: base_def)
  have "distinct (A @ S')" using path_distinct[OF A(1)] assms(2) by simp
  moreover have "p \<in> ID ` set us" using path_set[OF A(1)] S by auto
  ultimately show ?thesis using that A S by blast
qed

lemma split_unique:
  "A @ p # S = B @ p # T \<Longrightarrow> distinct (A @ p # S) \<Longrightarrow> S = T"
proof (induction A arbitrary: B)
  case Nil
  then show ?case by (cases B) auto
next
  case (Cons a A)
  then show ?case by (cases B) auto
qed

lemma slot_none_before:
  assumes "slot us vs (Some p)" and "distinct (map ID us)"
    and "sibling_before us (Some p) = None"
  obtains xs pb where "us = xs @ [pb]" "ID pb = p"
proof -
  obtain A S where A: "path [] us = Some (A @ p # S)" "p \<in> ID ` set us"
    using slot_base[OF assms(1,2)] by metis
  then obtain xs pb ys where u: "us = xs @ pb # ys" "ID pb = p" by (metis imageE split_list)
  have "ys = []"
  proof (cases ys)
    case (Cons w ys')
    have us: "us = (xs @ [pb]) @ w # ys'" using u Cons by simp
    have "p \<notin> ID ` set (w # ys')" using assms(2) u Cons by auto
    then obtain q t B T where q: "Parent w = Some q" "path [] (xs @ [pb]) = Some t"
      "t = B @ T" "T \<noteq> []" "hd T = q" "p \<in> set T"
      using popped_parent[of "xs @ [pb]" w ys' "A @ p # S" p] A(1) assms(2) us by auto
    obtain t' where t': "path [] xs = Some t'" "push t' pb = Some t"
      using q(2) by (auto simp: path_append split: option.splits)
    have "t = p # tl t" using push_hd[OF t'(2)] u(2) by simp
    moreover have "distinct t" using path_distinct[OF q(2)] assms(2) u by auto
    ultimately have "T = t" using q(3,6) by (cases B) auto
    then have "q = p" using q(5) \<open>t = p # tl t\<close> by (metis list.sel(1))
    then have "Parent w = Some p" using q(1) by simp
    moreover have "w \<in> set us" using us by simp
    ultimately show ?thesis using assms(3) sibling_before_None by blast
  qed
  then show ?thesis using that u by simp
qed

lemma slot_some_before:
  assumes "slot (u1 @ c # u2) vs (Parent c)" and "distinct (map ID (u1 @ c # u2 @ vs))"
    and "depth_first (u1 @ c # u2 @ vs)" and "\<forall>b\<in>set u2. Parent b \<noteq> Parent c"
  shows "tree_node u1 c u2 vs"
proof -
  obtain ds rest where n: "u2 @ vs = ds @ rest" "tree_node u1 c ds rest"
    using node_exists[OF assms(3)] by metis
  have dist: "distinct (map ID (u1 @ c # ds @ rest))" using assms(2) n(1) by simp
  obtain A S Q where st: "path [] u1 = Some (A @ S)" "base (Parent c) S" "rest_ok S rest"
    "path [ID c] ds = Some Q" "path [] (u1 @ c # ds) = Some (Q @ S)" "distinct (Q @ S)"
    "set S \<subseteq> ID ` set u1"
    using node_stack[OF n(2) dist] by metis
  have sub: "subtree (ID c) ds" using n(2) by (auto simp: tree_node_def)
  consider (eq) "u2 = ds" "vs = rest" | (more) w z where "u2 = ds @ w # z" "rest = w # z @ vs"
    | (less) w z where "ds = u2 @ w # z" "vs = w # z @ rest"
    using n(1) by (auto simp: append_eq_append_conv2 neq_Nil_conv Cons_eq_append_conv)
      (metis append_Nil2 neq_Nil_conv append_Cons)+
  then show ?thesis
  proof cases
    case eq
    then show ?thesis using n(2) by simp
  next
    case (more w z)
    have "\<exists>p. Parent c = Some p"
      using st(2,3) more assms(4) by (cases "Parent w"; cases "Parent c") (auto simp: rest_ok_def base_def)
    then obtain p where p: "Parent c = Some p" by blast
    then obtain S' where S: "S = p # S'" using st(2) by (cases S) (auto simp: base_def)
    obtain B T where B: "path [] (u1 @ c # u2) = Some (B @ p # T)"
    proof -
      have "slot (u1 @ c # u2) vs (Some p)" "distinct (map ID (u1 @ c # u2))"
        using assms(1,2) p by auto
      then show ?thesis using slot_base that by metis
    qed
    have "p \<in> ID ` set u1" using st(7) S by auto
    moreover have "ID ` set u1 \<inter> ID ` set (w # z) = {}" using assms(2) more by auto
    ultimately have "p \<notin> ID ` set (w # z)" by blast
    moreover have us: "(u1 @ c # ds) @ w # z = u1 @ c # u2" using more by simp
    moreover have "distinct (map ID ((u1 @ c # ds) @ w # z))"
    proof -
      have "distinct (map ID ((u1 @ c # u2) @ vs))" using assms(2) by simp
      then have "distinct (map ID (u1 @ c # u2))"
        unfolding map_append[of ID "u1 @ c # u2" vs] distinct_append by blast
      then show ?thesis unfolding us .
    qed
    moreover have "path [] ((u1 @ c # ds) @ w # z) = Some (B @ p # T)" unfolding us by (rule B)
    ultimately obtain q t D R where q: "Parent w = Some q" "path [] (u1 @ c # ds) = Some t"
      "t = D @ R" "R \<noteq> []" "hd R = q" "p \<in> set R"
      using popped_parent[of "u1 @ c # ds" w z "B @ p # T" p] by auto
    have "t = Q @ p # S'" using q(2) st(5) S by simp
    moreover have "q \<in> set S" using st(3) more q(1) by (simp add: rest_ok_def)
    moreover have "q \<noteq> p" using assms(4) more q(1) p by auto
    ultimately have "q \<in> set S'" using S by simp
    then have "p \<notin> set R"
    proof -
      obtain R' where R': "R = q # R'" using q(4,5) by (cases R) auto
      obtain V W where V: "S' = V @ q # W" using \<open>q \<in> set S'\<close> by (meson split_list)
      have "D @ q # R' = (Q @ p # V) @ q # W" using q(3) \<open>t = Q @ p # S'\<close> R' V by simp
      moreover have "distinct (D @ q # R')" using st(6) S q(3) \<open>t = Q @ p # S'\<close> R' by metis
      ultimately have "R' = W" by (rule split_unique)
      then show ?thesis using R' V st(6) S \<open>q \<noteq> p\<close> by auto
    qed
    then show ?thesis using q(6) by blast
  next
    case (less w z)
    obtain q where q: "Parent w = Some q" "q \<in> insert (ID c) (ID ` set ds)"
      using subtree_member_parent[OF sub, of w] less by auto
    obtain B T where B: "path [] (u1 @ c # u2) = Some (B @ T)" "base (Parent c) T" "rest_ok T vs"
      using assms(1) by (auto simp: slot_def)
    have qT: "q \<in> set T" using B(3) less q(1) by (simp add: rest_ok_def)
    then obtain p where p: "Parent c = Some p" using B(2) by (cases "Parent c") (auto simp: base_def)
    obtain T' where T: "T = p # T'" using B(2) p by (cases T) (auto simp: base_def)
    obtain S' where S: "S = p # S'" using st(2) p by (cases S) (auto simp: base_def)
    obtain Q1 where Q1: "path [ID c] u2 = Some Q1"
      using st(4) less by (auto simp: path_append split: option.splits)
    have par: "\<forall>d\<in>set u2. Parent d \<noteq> None" using sub less by (auto simp: subtree_def)
    have "distinct (A @ S)" by (rule stack_distinct(1)[OF st(1) dist])
    then have "push (A @ S) c = Some ([ID c] @ S)" using push_base[OF _ st(2)] by simp
    then have "path [] (u1 @ c # u2) = Some (Q1 @ S)"
      using st(1) path_above[OF Q1 par] by (simp add: path_append)
    then have "Q1 @ p # S' = B @ p # T'" using B(1) S T by simp
    moreover have "distinct (Q1 @ p # S')"
    proof -
      have "distinct (map ID ((u1 @ c # u2) @ vs))" using assms(2) by simp
      then have "distinct (Q1 @ S)"
        using stack_distinct(1)[OF \<open>path [] (u1 @ c # u2) = Some (Q1 @ S)\<close>] by blast
      then show ?thesis using S by simp
    qed
    ultimately have "S' = T'" by (rule split_unique)
    then have "q \<in> ID ` set u1" using qT T S st(7) by auto
    moreover have "ID ` set u1 \<inter> insert (ID c) (ID ` set ds) = {}" using dist by auto
    ultimately show ?thesis using q(2) by blast
  qed
qed

lemma insertIndex_at_slot:
  assumes df: "depth_first (us @ vs)" and dist: "distinct (map ID (us @ vs))"
    and sl: "slot us vs par"
  shows "insertIndexAfterInParent (us @ vs) (blockIndex (us @ vs)) par (sibling_before us par)
    = Some (Inr (length us))"
proof (cases "sibling_before us par")
  case None
  show ?thesis
  proof (cases par)
    case None
    have "us = []"
      using \<open>sibling_before us par = None\<close> df depth_first_head None
      by (cases us) (auto simp: sibling_before_None)
    then show ?thesis
      using None \<open>sibling_before us par = None\<close> by (simp add: insertIndexAfterInParent_def)
  next
    case (Some p)
    obtain xs pb where u: "us = xs @ [pb]" "ID pb = p"
      using slot_none_before[of us vs p] sl dist \<open>sibling_before us par = None\<close> Some by auto
    have "blockIndex (xs @ pb # vs) (ID pb) = Some (length xs)"
      using blockIndex_split[of xs pb vs] dist u by simp
    then show ?thesis
      using u Some \<open>sibling_before us par = None\<close> by (simp add: insertIndexAfterInParent_def)
  qed
next
  case (Some a)
  then obtain u1 c u2 where u: "us = u1 @ c # u2" "ID c = a" "Parent c = par"
    "\<forall>b\<in>set u2. Parent b \<noteq> par"
    by (rule sibling_before_split)
  have bs: "us @ vs = u1 @ c # u2 @ vs" using u by simp
  have n: "tree_node u1 c u2 vs"
    using slot_some_before[of u1 c u2 vs] sl dist df u by simp
  have "subtreeEnd (us @ vs) (blockIndex (us @ vs)) (length u1) = Some (length us)"
    using subtreeEnd_node[OF n] df dist unfolding bs u(1) by simp
  moreover have "blockIndex (us @ vs) a = Some (length u1)"
    using blockIndex_split[of u1 c "u2 @ vs"] dist u(2) unfolding bs by simp
  moreover have "(us @ vs) ! length u1 = c" unfolding bs by simp
  ultimately show ?thesis using Some u(3) by (simp add: insertIndexAfterInParent_def)
qed

end
