(* ===== verification/PageLaws.thy ===== *)
theory PageLaws
  imports PageSlots "HOL-Library.Multiset"
begin

text \<open>
  The laws of \<open>Page.Apply\<close>: it returns on every well-formed page, keeps the page well
  formed, and is undone by the inverse operation. The three structural operations are first
  characterised by splits of the block list (\<open>insert_iff\<close>, \<open>delete_iff\<close>, \<open>move_iff\<close>); the
  laws then follow from exchanging a tree_node and a slot.
\<close>

subsection \<open>Well-formed pages\<close>

definition children_ok :: "(BlockTag \<Rightarrow> BlockTag \<Rightarrow> bool) \<Rightarrow> Block list \<Rightarrow> bool" where
  "children_ok R bs \<longleftrightarrow> (\<forall>b\<in>set bs. \<forall>c\<in>set bs.
     Parent b = Some (ID c) \<longrightarrow> R (Tag (BKind c)) (Tag (BKind b)))"

definition container_rule :: "BlockTag \<Rightarrow> BlockTag \<Rightarrow> bool" where
  "container_rule parent child = IsContainer parent"

definition list_rule :: "BlockTag \<Rightarrow> BlockTag \<Rightarrow> bool" where
  "list_rule parent child = (parent = ListItem \<longrightarrow> child = ListTag \<or> child = Paragraph)"

definition wf_blocks :: "Block list \<Rightarrow> bool" where
  "wf_blocks bs \<longleftrightarrow> distinct (map ID bs) \<and> depth_first bs \<and> children_ok container_rule bs"

definition wf_page :: "Page \<Rightarrow> bool" where
  "wf_page p \<longleftrightarrow> wf_blocks (Blocks p)"

definition list_children_ok :: "Page \<Rightarrow> bool" where
  "list_children_ok p \<longleftrightarrow> children_ok list_rule (Blocks p)"

lemma wf_NewPage: "wf_page (NewPage pid title)"
  by (simp add: wf_page_def wf_blocks_def NewPage_def depth_first_def children_ok_def)

lemma wf_blocksD:
  assumes "wf_blocks bs"
  shows "distinct (map ID bs)" "depth_first bs" "children_ok container_rule bs"
  using assms by (simp_all add: wf_blocks_def)

lemma children_okD:
  "children_ok R bs \<Longrightarrow> b \<in> set bs \<Longrightarrow> c \<in> set bs \<Longrightarrow> Parent b = Some (ID c)
    \<Longrightarrow> R (Tag (BKind c)) (Tag (BKind b))"
  by (simp add: children_ok_def)

lemma children_ok_mono: "children_ok R bs \<Longrightarrow> set cs \<subseteq> set bs \<Longrightarrow> children_ok R cs"
  unfolding children_ok_def by blast

text \<open>One block is replaced (its parent changed) or added.\<close>

lemma children_ok_insert:
  assumes "children_ok R bs" and "set cs \<subseteq> insert n (set bs)"
    and "\<forall>c\<in>set bs. Parent n = Some (ID c) \<longrightarrow> R (Tag (BKind c)) (Tag (BKind n))"
    and "\<forall>b\<in>set bs. Parent b = Some (ID n) \<longrightarrow> R (Tag (BKind n)) (Tag (BKind b))"
    and "Parent n \<noteq> Some (ID n)"
  shows "children_ok R cs"
  unfolding children_ok_def
proof (intro ballI impI)
  fix b c assume bc: "b \<in> set cs" "c \<in> set cs" "Parent b = Some (ID c)"
  then have "b = n \<or> b \<in> set bs" "c = n \<or> c \<in> set bs" using assms(2) by auto
  then show "R (Tag (BKind c)) (Tag (BKind b))"
    using assms(3-5) children_okD[OF assms(1)] bc(3) by blast
qed

lemma validateParent_None:
  assumes "distinct (map ID bs)"
  shows "validateParent bs (blockIndex bs) par tag = None \<longleftrightarrow>
    (\<forall>p. par = Some p \<longrightarrow> (\<exists>c\<in>set bs. ID c = p \<and> container_rule (Tag (BKind c)) tag
       \<and> list_rule (Tag (BKind c)) tag))"
proof (cases par)
  case (Some p)
  show ?thesis
  proof (cases "blockIndex bs p")
    case None
    then have "p \<notin> ID ` set bs" by (simp add: blockIndex_None)
    then show ?thesis using None Some by (auto simp: validateParent_def)
  next
    case ix: (Some i)
    then obtain xs c ys where c: "bs = xs @ c # ys" "length xs = i" "ID c = p"
      by (rule blockIndexE[OF assms])
    have "d = c" if "d \<in> set bs" "ID d = p" for d
      using that c assms by (auto simp: image_iff)
    moreover have "c \<in> set bs" "bs ! i = c" using c by auto
    ultimately have "(\<exists>d\<in>set bs. ID d = p \<and> container_rule (Tag (BKind d)) tag
       \<and> list_rule (Tag (BKind d)) tag) \<longleftrightarrow>
       container_rule (Tag (BKind c)) tag \<and> list_rule (Tag (BKind c)) tag"
      using c(3) by blast
    then show ?thesis
      using Some ix \<open>bs ! i = c\<close>
      by (auto simp: validateParent_def Let_def container_rule_def list_rule_def
          simp del: IsContainer.simps)
  qed
qed (simp add: validateParent_def)

lemma parent_rules:
  assumes "wf_blocks bs" and "children_ok list_rule bs" and "b \<in> set bs"
  shows "validateParent bs (blockIndex bs) (Parent b) (Tag (BKind b)) = None"
proof -
  have "\<exists>c\<in>set bs. ID c = p \<and> container_rule (Tag (BKind c)) (Tag (BKind b))
      \<and> list_rule (Tag (BKind c)) (Tag (BKind b))" if p: "Parent b = Some p" for p
  proof -
    obtain c where c: "c \<in> set bs" "ID c = p"
      using depth_first_parents[OF wf_blocksD(2)[OF assms(1)] assms(3) p] by auto
    then show ?thesis
      using children_okD[OF wf_blocksD(3)[OF assms(1)] assms(3) c(1)]
        children_okD[OF assms(2,3) c(1)] p by auto
  qed
  then show ?thesis using validateParent_None[OF wf_blocksD(1)[OF assms(1)]] by blast
qed

text \<open>Changing attributes other than ID and parent keeps the order.\<close>

lemma path_cong:
  "map (\<lambda>b. (ID b, Parent b)) xs = map (\<lambda>b. (ID b, Parent b)) ys \<Longrightarrow> path s xs = path s ys"
proof (induction xs arbitrary: ys s)
  case (Cons x xs)
  then obtain y ys' where "ys = y # ys'" by auto
  then show ?case using Cons by (auto simp: push_def split: option.split)
qed simp

lemma update_block_order:
  assumes "ID b' = ID b" and "Parent b' = Parent b"
  shows "map ID (us @ b' # vs) = map ID (us @ b # vs)"
    and "depth_first (us @ b' # vs) = depth_first (us @ b # vs)"
  using assms path_cong[of "us @ b' # vs" "us @ b # vs" "[]"] by (simp_all add: depth_first_def)

lemma node_children:
  assumes "tree_node xs b ds rest" and "distinct (map ID (xs @ b # ds @ rest))"
    and "depth_first (xs @ b # ds @ rest)" and "w \<in> set (xs @ b # ds @ rest)"
    and "Parent w = Some (ID b)"
  shows "w \<in> set ds"
proof (rule ccontr)
  assume "w \<notin> set ds"
  let ?bs = "xs @ b # ds @ rest"
  obtain u v where w: "?bs = u @ w # v" using assms(4) by (meson split_list)
  have "ID b \<in> ID ` set u"
    using depth_first_parent_before[of u w v "ID b"] assms(3,5) w by (simp only: w)
  moreover have "ID w \<notin> ID ` set u" using assms(2) unfolding w by auto
  ultimately have "ID w \<noteq> ID b" by auto
  moreover have "ID w \<notin> ID ` set ds"
  proof
    assume "ID w \<in> ID ` set ds"
    then obtain d where "d \<in> set ds" "ID d = ID w" by auto
    then have "d = w"
      using assms(2,4) by (metis Un_iff distinct_map inj_on_def list.set_intros(2) set_append)
    then show False using \<open>d \<in> set ds\<close> \<open>w \<notin> set ds\<close> by simp
  qed
  ultimately have "ID w \<notin> ID ` set (b # ds)" by auto
  then have f: "isDescendant ?bs (blockIndex ?bs) (ID w) (ID b) = Some False"
    by (rule outside_not_descendant[OF assms(1-3)])
  have "blockIndex ?bs (ID w) = Some (length u)"
    using blockIndex_split[of u w v] assms(2) unfolding w by simp
  moreover have "?bs ! length u = w" unfolding w by simp
  ultimately have "isDescendant ?bs (blockIndex ?bs) (ID w) (ID b) = Some True"
    using assms(5) by (simp add: isDescendant.simps)
  then show False using f by simp
qed

subsection \<open>The structural operations, by splits\<close>

lemma insert_iff:
  assumes df: "depth_first (Blocks p)" and dist: "distinct (map ID (Blocks p))"
  shows "apply_insert p bid par aft kind content = Some (Done p') \<longleftrightarrow>
    bid \<notin> ID ` set (Blocks p) \<and>
    validateParent (Blocks p) (blockIndex (Blocks p)) par (Tag kind) = None \<and>
    (\<exists>us vs. Blocks p = us @ vs \<and> slot us vs par \<and> sibling_before us par = aft \<and>
       p' = p\<lparr>Blocks := us @ \<lparr>ID = bid, Parent = par, BKind = kind, BContent = content\<rparr> # vs\<rparr>)"
    (is "?L \<longleftrightarrow> ?A \<and> ?B \<and> ?C")
proof -
  let ?bs = "Blocks p" and ?n = "\<lparr>ID = bid, Parent = par, BKind = kind, BContent = content\<rparr>"
  have unf: "?L \<longleftrightarrow> ?A \<and> ?B \<and> (\<exists>i. insertIndexAfterInParent ?bs (blockIndex ?bs) par aft = Some (Inr i)
      \<and> p' = p\<lparr>Blocks := slice_insert ?bs i [?n]\<rparr>)"
  proof (cases "insertIndexAfterInParent ?bs (blockIndex ?bs) par aft")
    case None
    then show ?thesis
      by (auto simp: apply_insert_def Let_def indexOf_None simp del: not_None_eq
          split: option.split)
  next
    case (Some r)
    then show ?thesis
      by (cases r) (auto simp: apply_insert_def Let_def indexOf_None simp del: not_None_eq
          split: option.split)
  qed
  have "(\<exists>i. insertIndexAfterInParent ?bs (blockIndex ?bs) par aft = Some (Inr i)
      \<and> p' = p\<lparr>Blocks := slice_insert ?bs i [?n]\<rparr>) \<longleftrightarrow> ?C" (is "?I \<longleftrightarrow> ?C")
  proof
    assume ?I
    then obtain i where i: "insertIndexAfterInParent ?bs (blockIndex ?bs) par aft = Some (Inr i)"
      "p' = p\<lparr>Blocks := slice_insert ?bs i [?n]\<rparr>" by blast
    from df dist show ?C
    proof (cases rule: insertIndex_finds_slot[of ?bs par aft])
      case (error e)
      then show ?thesis using i(1) by simp
    next
      case (slot us vs)
      then have "slice_insert ?bs i [?n] = us @ ?n # vs" using i(1) by simp
      then show ?thesis using slot i(2) by auto
    qed
  next
    assume ?C
    then obtain us vs where u: "?bs = us @ vs" "slot us vs par" "sibling_before us par = aft"
      "p' = p\<lparr>Blocks := us @ ?n # vs\<rparr>" by blast
    then show ?I
      using insertIndex_at_slot[of us vs par] df dist by (intro exI[of _ "length us"]) simp
  qed
  then show ?thesis using unf by blast
qed

lemma delete_iff:
  assumes df: "depth_first (Blocks p)" and dist: "distinct (map ID (Blocks p))"
  shows "apply_delete p t aft = Some (Done p') \<longleftrightarrow>
    (\<exists>us b vs. Blocks p = us @ b # vs \<and> ID b = ID t \<and> Parent b = Parent t \<and>
       sibling_before us (Parent t) = aft \<and> tree_node us b [] vs \<and> p' = p\<lparr>Blocks := us @ vs\<rparr>)"
    (is "?L \<longleftrightarrow> ?R")
proof
  assume L: ?L
  then obtain i where i: "indexOf (Blocks p) (ID t) = Some i"
    by (auto simp: apply_delete_def split: option.splits)
  then obtain us b ys where b: "Blocks p = us @ b # ys" "length us = i" "ID b = ID t"
    by (rule indexOfE)
  obtain ds rest where n: "ys = ds @ rest" "tree_node us b ds rest"
    using node_exists df b(1) by metis
  have nth: "(us @ b # ys) ! i = b" and pre: "predecessorOf (us @ b # ys) i = sibling_before us (Parent b)"
    and e: "subtreeEnd (us @ b # ys) (blockIndex (us @ b # ys)) i = Some (length us + 1 + length ds)"
    using b(2) predecessorOf_split subtreeEnd_node[OF n(2)] df dist b(1) n(1) by auto
  have "slice_delete (us @ b # ys) i (Suc i) = us @ ys"
    using slice_delete_split[of us i "Suc i" "[b]" ys] b(2) by simp
  with L have "Parent b = Parent t \<and> sibling_before us (Parent b) = aft \<and> ds = []
      \<and> p' = p\<lparr>Blocks := us @ ys\<rparr>"
    using i nth pre e b(1,2)
    by (auto simp: apply_delete_def Let_def split: if_splits)
  then show ?R using b n by (intro exI[of _ us] exI[of _ b] exI[of _ ys]) auto
next
  assume ?R
  then obtain us b vs where b: "Blocks p = us @ b # vs" "ID b = ID t" "Parent b = Parent t"
    "sibling_before us (Parent t) = aft" "tree_node us b [] vs" "p' = p\<lparr>Blocks := us @ vs\<rparr>" by blast
  have "indexOf (us @ b # vs) (ID t) = Some (length us)"
    using indexOf_split[of us b vs] dist b by simp
  moreover have "subtreeEnd (us @ b # vs) (blockIndex (us @ b # vs)) (length us) = Some (length us + 1)"
    using subtreeEnd_node[OF b(5)] df dist b(1) by simp
  moreover have "slice_delete (us @ b # vs) (length us) (Suc (length us)) = us @ vs"
    using slice_delete_split[of us "length us" "Suc (length us)" "[b]" vs] by simp
  ultimately show ?L
    using b predecessorOf_split[of us b vs] by (simp add: apply_delete_def Let_def)
qed

lemma not_in_own_subtree:
  assumes "tree_node xs b ds rest" and "distinct (map ID (xs @ b # ds @ rest))"
    and "depth_first (xs @ b # ds @ rest)"
  shows "move_creates_cycle (xs @ b # ds @ rest) (blockIndex (xs @ b # ds @ rest)) (ID b) tp
    = Some (\<exists>q. tp = Some q \<and> q \<in> ID ` set (b # ds))"
proof (cases tp)
  case (Some q)
  consider "q = ID b" | "q \<noteq> ID b" "q \<in> ID ` set ds" | "q \<notin> ID ` set (b # ds)" by auto
  then show ?thesis
  proof cases
    case 2
    then obtain d where "d \<in> set ds" "ID d = q" by auto
    then show ?thesis
      using inside_descendant[OF assms(1,2)] Some 2 by (auto simp: move_creates_cycle_def)
  next
    case 3
    then show ?thesis
      using outside_not_descendant[OF assms 3] Some by (auto simp: move_creates_cycle_def)
  qed (simp add: Some move_creates_cycle_def)
qed (simp add: move_creates_cycle_def)

text \<open>Once its guards have passed, a move is an insertion of the cut subtree.\<close>

lemma apply_move_split:
  assumes df: "depth_first (Blocks p)" and dist: "distinct (map ID (Blocks p))"
    and b: "Blocks p = xs @ b # ds @ rest" "tree_node xs b ds rest"
  shows "apply_move p (ID b) fp from tp to =
    (if Parent b \<noteq> fp then Some (Failed (ParentMismatchError (ID b) fp (Parent b)) p)
     else if sibling_before xs (Parent b) \<noteq> from
     then Some (Failed (PositionMismatchError (ID b) from (sibling_before xs (Parent b))) p)
     else if \<exists>q. tp = Some q \<and> q \<in> ID ` set (b # ds) then Some (Failed (CycleError (ID b) (the tp)) p)
     else case validateParent (Blocks p) (blockIndex (Blocks p)) tp (Tag (BKind b)) of
        Some e \<Rightarrow> Some (Failed e p)
      | None \<Rightarrow> do {
          r \<leftarrow> insertIndexAfterInParent (xs @ rest) (blockIndex (xs @ rest)) tp to;
          (case r of
             Inl err \<Rightarrow> Some (Failed err (p\<lparr>Blocks := slice_delete_storage zero_block (Blocks p)
                 (length xs) (length xs + 1 + length ds)\<rparr>))
           | Inr idx \<Rightarrow> Some (Done (p\<lparr>Blocks := slice_insert (xs @ rest) idx
               (b\<lparr>Parent := tp\<rparr> # ds)\<rparr>)))
        })"
proof -
  let ?bs = "xs @ b # ds @ rest"
  have i: "indexOf ?bs (ID b) = Some (length xs)" and nth: "?bs ! length xs = b"
    and pre: "predecessorOf ?bs (length xs) = sibling_before xs (Parent b)"
    using indexOf_split[of xs b "ds @ rest"] dist b(1) predecessorOf_split by simp_all
  note e = subtreeEnd_node[OF b(2) dist[unfolded b(1)] df[unfolded b(1)]]
  note cyc = not_in_own_subtree[OF b(2) dist[unfolded b(1)] df[unfolded b(1)]]
  have del: "slice_delete ?bs (length xs) (length xs + 1 + length ds) = xs @ rest"
    using slice_delete_split[of xs "length xs" _ "b # ds" rest] by simp
  have sub: "drop (length xs) (take (length xs + 1 + length ds) ?bs) = b # ds" by simp
  show ?thesis
    unfolding apply_move_def b(1) i option.case nth pre e cyc del sub Let_def bind.bind_lunit
      list.sel blockIDPtrEqual_iff
    by (simp only: not_not bind.bind_lunit del sub list.sel if_distribR split: if_split)
qed

lemma move_iff:
  assumes df: "depth_first (Blocks p)" and dist: "distinct (map ID (Blocks p))"
  shows "apply_move p bid fp from tp to = Some (Done p') \<longleftrightarrow>
    (\<exists>xs b ds rest us vs. Blocks p = xs @ b # ds @ rest \<and> tree_node xs b ds rest \<and> ID b = bid \<and>
       Parent b = fp \<and> sibling_before xs fp = from \<and>
       (\<forall>q. tp = Some q \<longrightarrow> q \<notin> ID ` set (b # ds)) \<and>
       validateParent (Blocks p) (blockIndex (Blocks p)) tp (Tag (BKind b)) = None \<and>
       xs @ rest = us @ vs \<and> slot us vs tp \<and> sibling_before us tp = to \<and>
       p' = p\<lparr>Blocks := us @ b\<lparr>Parent := tp\<rparr> # ds @ vs\<rparr>)"
    (is "?L \<longleftrightarrow> ?R")
proof
  assume L: ?L
  then obtain i where i: "indexOf (Blocks p) bid = Some i"
    by (auto simp: apply_move_def split: option.splits)
  then obtain xs b ys where b: "Blocks p = xs @ b # ys" "length xs = i" "ID b = bid"
    by (rule indexOfE)
  obtain ds rest where n: "ys = ds @ rest" "tree_node xs b ds rest"
    using node_exists df b(1) by metis
  have bs: "Blocks p = xs @ b # ds @ rest" using b n by simp
  have cut: "depth_first (xs @ rest)" "distinct (map ID (xs @ rest))"
    using node_remove[OF n(2)] df dist bs by auto
  note L' = L[unfolded b(3)[symmetric] apply_move_split[OF df dist bs n(2)]]
  have g: "Parent b = fp" "sibling_before xs fp = from" "\<forall>q. tp = Some q \<longrightarrow> q \<notin> ID ` set (b # ds)"
    "validateParent (Blocks p) (blockIndex (Blocks p)) tp (Tag (BKind b)) = None"
    using L' by (auto split: if_splits option.splits)
  obtain idx where idx: "insertIndexAfterInParent (xs @ rest) (blockIndex (xs @ rest)) tp to = Some (Inr idx)"
    "p' = p\<lparr>Blocks := slice_insert (xs @ rest) idx (b\<lparr>Parent := tp\<rparr> # ds)\<rparr>"
  proof (cases "insertIndexAfterInParent (xs @ rest) (blockIndex (xs @ rest)) tp to")
    case None
    then show ?thesis using L' g by (simp split: if_splits)
  next
    case (Some r)
    then show ?thesis using L' g that by (cases r) (simp_all split: if_splits)
  qed
  from cut show ?R
  proof (cases rule: insertIndex_finds_slot[of "xs @ rest" tp to])
    case (error e)
    then show ?thesis using idx(1) by simp
  next
    case (slot us vs)
    then have "slice_insert (xs @ rest) idx (b\<lparr>Parent := tp\<rparr> # ds) = us @ b\<lparr>Parent := tp\<rparr> # ds @ vs"
      using idx(1) by simp
    then show ?thesis using bs n(2) b(3) g slot idx(2) by metis
  qed
next
  assume ?R
  then obtain xs b ds rest us vs where bs: "Blocks p = xs @ b # ds @ rest" and n: "tree_node xs b ds rest"
    and g: "ID b = bid" "Parent b = fp" "sibling_before xs fp = from"
       "\<forall>q. tp = Some q \<longrightarrow> q \<notin> ID ` set (b # ds)"
       "validateParent (Blocks p) (blockIndex (Blocks p)) tp (Tag (BKind b)) = None"
    and u: "xs @ rest = us @ vs" "slot us vs tp" "sibling_before us tp = to"
    and p': "p' = p\<lparr>Blocks := us @ b\<lparr>Parent := tp\<rparr> # ds @ vs\<rparr>"
    by blast
  have cut: "depth_first (us @ vs)" "distinct (map ID (us @ vs))"
    unfolding u(1)[symmetric] using node_remove[OF n] df dist bs by auto
  have "\<not> (\<exists>q. tp = Some q \<and> q \<in> ID ` set (b # ds))" using g(4) by blast
  then show ?L
    unfolding g(1)[symmetric] apply_move_split[OF df dist bs n]
    using g(2,3,5) insertIndex_at_slot[OF cut u(2)] u(1,3) p'
    by (simp only: if_False option.case bind.bind_lunit sum.case not_True_eq_False refl
        slice_insert_split append_Cons append_Nil append_assoc)
qed

subsection \<open>The structure is preserved\<close>

lemma plug_wf:
  assumes sl: "slot us vs (Parent b)" and sub: "subtree (ID b) ds"
    and dist: "distinct (map ID (us @ b # ds @ vs))" and df: "depth_first (us @ vs)"
    and rules: "children_ok R (ds @ us @ vs)"
      "\<forall>c\<in>set (us @ vs). Parent b = Some (ID c) \<longrightarrow> R (Tag (BKind c)) (Tag (BKind b))"
      "\<forall>d\<in>set ds. Parent d = Some (ID b) \<longrightarrow> R (Tag (BKind b)) (Tag (BKind d))"
  shows "tree_node us b ds vs" and "depth_first (us @ b # ds @ vs)" and "children_ok R (us @ b # ds @ vs)"
proof -
  show n: "tree_node us b ds vs" and d: "depth_first (us @ b # ds @ vs)"
    using slot_node[OF sl sub dist df] by simp_all
  show "children_ok R (us @ b # ds @ vs)"
  proof (rule children_ok_insert[OF rules(1)])
    show "set (us @ b # ds @ vs) \<subseteq> insert b (set (ds @ us @ vs))" by auto
    have before: "p \<in> ID ` set us" if "Parent b = Some p" for p
      using depth_first_parent_before[OF d that] .
    then show "Parent b \<noteq> Some (ID b)" using dist by auto
    show "\<forall>c\<in>set (ds @ us @ vs). Parent b = Some (ID c) \<longrightarrow> R (Tag (BKind c)) (Tag (BKind b))"
    proof (intro ballI impI)
      fix c assume c: "c \<in> set (ds @ us @ vs)" "Parent b = Some (ID c)"
      then have "ID c \<in> ID ` set us" using before by blast
      then have "c \<notin> set ds" using dist by auto
      then show "R (Tag (BKind c)) (Tag (BKind b))" using rules(2) c by auto
    qed
    show "\<forall>w\<in>set (ds @ us @ vs). Parent w = Some (ID b) \<longrightarrow> R (Tag (BKind b)) (Tag (BKind w))"
    proof (intro ballI impI)
      fix w assume w: "w \<in> set (ds @ us @ vs)" "Parent w = Some (ID b)"
      then have "w \<in> set ds" using node_children[OF n dist d] by auto
      then show "R (Tag (BKind b)) (Tag (BKind w))" using rules(3) w by blast
    qed
  qed
qed

lemma insert_keeps:
  assumes wf: "wf_blocks (Blocks p)" and s: "apply_insert p bid par aft kind content = Some (Done p')"
  shows "wf_blocks (Blocks p')" and "children_ok list_rule (Blocks p) \<Longrightarrow> children_ok list_rule (Blocks p')"
proof -
  let ?n = "\<lparr>ID = bid, Parent = par, BKind = kind, BContent = content\<rparr>"
  note wf' = wf_blocksD[OF wf]
  obtain us vs where u: "bid \<notin> ID ` set (Blocks p)" "Blocks p = us @ vs" "slot us vs par"
    "validateParent (Blocks p) (blockIndex (Blocks p)) par (Tag kind) = None"
    "p' = p\<lparr>Blocks := us @ ?n # vs\<rparr>"
    using s insert_iff[OF wf'(2,1)] by metis
  have dist: "distinct (map ID (us @ ?n # [] @ vs))" using wf'(1) u(1,2) by auto
  have R: "R (Tag (BKind c)) (Tag kind)" if h: "c \<in> set (us @ vs)" "par = Some (ID c)"
      "R = container_rule \<or> R = list_rule" for c R
  proof -
    obtain d where "d \<in> set (Blocks p)" "ID d = ID c" "container_rule (Tag (BKind d)) (Tag kind)"
      "list_rule (Tag (BKind d)) (Tag kind)"
      using u(4) validateParent_None[OF wf'(1)] h(2) by blast
    moreover have "d = c"
      using wf'(1) u(2) h(1) calculation(1,2) by (metis distinct_map inj_onD)
    ultimately show ?thesis using h(3) by blast
  qed
  note plug = plug_wf[of us vs ?n "[]", simplified, OF u(3) dist[simplified] wf'(2)[unfolded u(2)]]
  have "depth_first (us @ ?n # vs)" "children_ok container_rule (us @ ?n # vs)"
    using plug[of container_rule] wf'(3) u(2) R by auto
  then show "wf_blocks (Blocks p')" using dist u(5) by (simp add: wf_blocks_def)
  show "children_ok list_rule (Blocks p')" if "children_ok list_rule (Blocks p)"
    using plug[of list_rule] that u(2,5) R by auto
qed

lemma delete_keeps:
  assumes wf: "wf_blocks (Blocks p)" and s: "apply_delete p t aft = Some (Done p')"
  shows "wf_blocks (Blocks p')" and "children_ok list_rule (Blocks p) \<Longrightarrow> children_ok list_rule (Blocks p')"
proof -
  note wf' = wf_blocksD[OF wf]
  obtain us b vs where b: "Blocks p = us @ b # vs" "tree_node us b [] vs" "p' = p\<lparr>Blocks := us @ vs\<rparr>"
    using s delete_iff[OF wf'(2,1)] by metis
  have "depth_first (us @ vs)"
    using node_remove[OF b(2)] wf' b(1) by simp
  moreover have "distinct (map ID (us @ vs))" using wf'(1) b(1) by simp
  moreover have mono: "children_ok R (us @ vs)" if "children_ok R (Blocks p)" for R
    using children_ok_mono[OF that, of "us @ vs"] b(1) by auto
  ultimately show "wf_blocks (Blocks p')" using wf'(3) b(3) by (simp add: wf_blocks_def)
  show "children_ok list_rule (Blocks p')" if "children_ok list_rule (Blocks p)"
    using mono[OF that] b(3) by simp
qed

lemma move_keeps:
  assumes wf: "wf_blocks (Blocks p)" and s: "apply_move p bid fp from tp to = Some (Done p')"
  shows "wf_blocks (Blocks p')" and "children_ok list_rule (Blocks p) \<Longrightarrow> children_ok list_rule (Blocks p')"
proof -
  note wf' = wf_blocksD[OF wf]
  obtain xs b ds rest us vs where bs: "Blocks p = xs @ b # ds @ rest" and n: "tree_node xs b ds rest"
    and g: "\<forall>q. tp = Some q \<longrightarrow> q \<notin> ID ` set (b # ds)"
      "validateParent (Blocks p) (blockIndex (Blocks p)) tp (Tag (BKind b)) = None"
    and u: "xs @ rest = us @ vs" "slot us vs tp"
    and p': "p' = p\<lparr>Blocks := us @ b\<lparr>Parent := tp\<rparr> # ds @ vs\<rparr>"
    using s move_iff[OF wf'(2,1)] by metis
  let ?b = "b\<lparr>Parent := tp\<rparr>"
  have cut: "depth_first (us @ vs)"
    unfolding u(1)[symmetric] using node_remove[OF n] wf' bs by auto
  have sets: "set (us @ vs) = set xs \<union> set rest"
    unfolding u(1)[symmetric] by simp
  have dist: "distinct (map ID (us @ ?b # ds @ vs))"
  proof -
    have "mset (map ID (us @ ?b # ds @ vs)) = mset (map ID (us @ vs)) + mset (map ID (b # ds))"
      by simp
    also have "\<dots> = mset (map ID (xs @ rest)) + mset (map ID (b # ds))" by (simp only: u(1))
    also have "\<dots> = mset (map ID (Blocks p))" using bs by simp
    finally show ?thesis using wf'(1) mset_eq_imp_distinct_iff by blast
  qed
  have sub: "subtree (ID ?b) ds" using n by (auto simp: tree_node_def)
  have sl: "slot us vs (Parent ?b)" using u(2) by simp
  have keep: "depth_first (us @ ?b # ds @ vs) \<and> children_ok R (us @ ?b # ds @ vs)"
    if R: "children_ok R (Blocks p)" "R = container_rule \<or> R = list_rule" for R
  proof -
    have "children_ok R (ds @ us @ vs)"
      using children_ok_mono[OF R(1), of "ds @ us @ vs"] bs sets by auto
    moreover have "\<forall>c\<in>set (us @ vs). Parent ?b = Some (ID c) \<longrightarrow> R (Tag (BKind c)) (Tag (BKind ?b))"
    proof (intro ballI impI)
      fix c assume c: "c \<in> set (us @ vs)" "Parent ?b = Some (ID c)"
      then obtain d where d: "d \<in> set (Blocks p)" "ID d = ID c"
        "container_rule (Tag (BKind d)) (Tag (BKind b))" "list_rule (Tag (BKind d)) (Tag (BKind b))"
        using g(2) validateParent_None[OF wf'(1)] by auto
      have "c \<in> set (Blocks p)" using c(1) sets bs by auto
      then have "d = c" using wf'(1) d(1,2) by (metis distinct_map inj_onD)
      then show "R (Tag (BKind c)) (Tag (BKind ?b))" using R(2) d by auto
    qed
    moreover have "\<forall>d\<in>set ds. Parent d = Some (ID ?b) \<longrightarrow> R (Tag (BKind ?b)) (Tag (BKind d))"
      using children_okD[OF R(1)] bs by simp
    ultimately show ?thesis using plug_wf[OF sl sub dist cut] by blast
  qed
  show "wf_blocks (Blocks p')" using keep[OF wf'(3)] dist p' by (simp add: wf_blocks_def)
  show "children_ok list_rule (Blocks p')" if "children_ok list_rule (Blocks p)"
    using keep[OF that] p' by simp
qed

subsection \<open>Kind, content and title\<close>

lemma kind_change_blocked_node:
  assumes n: "tree_node xs b ds rest" and wf: "wf_blocks (xs @ b # ds @ rest)"
  shows "kind_change_blocked (xs @ b # ds @ rest) (length xs) bid from to = Some (
    if IsContainer (Tag from) \<and> \<not> IsContainer (Tag to) \<and> ds \<noteq> [] then Some (ContainerNotEmptyError bid)
    else case Parent b of None \<Rightarrow> None | Some q \<Rightarrow>
      if \<exists>c\<in>set (xs @ b # ds @ rest). ID c = q \<and> \<not> list_rule (Tag (BKind c)) (Tag to)
      then Some (InvalidListChildError q (Tag to)) else None)"
proof -
  let ?bs = "xs @ b # ds @ rest"
  note wf' = wf_blocksD[OF wf]
  have e: "subtreeEnd ?bs (blockIndex ?bs) (length xs) = Some (length xs + 1 + length ds)"
    using subtreeEnd_node[OF n wf'(1,2)] .
  have nth: "?bs ! length xs = b" by simp
  have par: "(case indexOf ?bs q of None \<Rightarrow> None | Some i \<Rightarrow>
      if Tag (BKind (?bs ! i)) = ListItem \<and> Tag to \<noteq> ListTag \<and> Tag to \<noteq> Paragraph
      then Some (InvalidListChildError q (Tag to)) else None) =
    (if \<exists>c\<in>set ?bs. ID c = q \<and> \<not> list_rule (Tag (BKind c)) (Tag to)
      then Some (InvalidListChildError q (Tag to)) else None)" for q
  proof (cases "indexOf ?bs q")
    case None
    then have "q \<notin> ID ` set ?bs" using indexOf_None by metis
    then show ?thesis unfolding None by auto
  next
    case (Some i)
    then obtain us c vs where c: "?bs = us @ c # vs" "length us = i" "ID c = q"
      by (rule indexOfE)
    have "?bs ! i = c" using c(1,2) by (metis nth_append_length)
    moreover have "c \<in> set ?bs" unfolding c(1) by simp
    moreover have "d = c" if "d \<in> set ?bs" "ID d = q" for d
      using wf'(1) that \<open>c \<in> set ?bs\<close> c(3) by (metis distinct_map inj_onD)
    ultimately have "(\<exists>d\<in>set ?bs. ID d = q \<and> \<not> list_rule (Tag (BKind d)) (Tag to)) \<longleftrightarrow>
        Tag (BKind c) = ListItem \<and> Tag to \<noteq> ListTag \<and> Tag to \<noteq> Paragraph"
      using c(3) unfolding list_rule_def by blast
    then show ?thesis using Some \<open>?bs ! i = c\<close> by (simp del: IsContainer.simps)
  qed
  show ?thesis
    unfolding kind_change_blocked_def nth e par
    by (simp del: IsContainer.simps split: option.split)
qed

lemma set_kind_iff:
  assumes wf: "wf_blocks (Blocks p)"
  shows "apply_set_kind p bid from to = Some (Done p') \<longleftrightarrow>
    (\<exists>xs b ds rest. Blocks p = xs @ b # ds @ rest \<and> tree_node xs b ds rest \<and> ID b = bid \<and>
       BKind b = from \<and> (IsContainer (Tag from) \<and> \<not> IsContainer (Tag to) \<longrightarrow> ds = []) \<and>
       (\<forall>c\<in>set (Blocks p). Parent b = Some (ID c) \<longrightarrow> list_rule (Tag (BKind c)) (Tag to)) \<and>
       p' = p\<lparr>Blocks := xs @ b\<lparr>BKind := to\<rparr> # ds @ rest\<rparr>)"
    (is "?L \<longleftrightarrow> (\<exists>xs b ds rest. ?R xs b ds rest)")
proof -
  have at: "apply_set_kind p (ID b) from to = Some (Done p') \<longleftrightarrow> ?R xs b ds rest"
    if bs: "Blocks p = xs @ b # ds @ rest" and n: "tree_node xs b ds rest" and "ID b = bid" for xs b ds rest
  proof -
    note wf' = wf[unfolded bs]
    have i: "indexOf (Blocks p) (ID b) = Some (length xs)" and nth: "Blocks p ! length xs = b"
      using indexOf_split[of xs b "ds @ rest"] wf_blocksD(1)[OF wf'] bs by auto
    have up: "(Blocks p)[length xs := b\<lparr>BKind := to\<rparr>] = xs @ b\<lparr>BKind := to\<rparr> # ds @ rest"
      using bs by simp
    have par: "(\<exists>c\<in>set (Blocks p). ID c = q \<and> \<not> list_rule (Tag (BKind c)) (Tag to)) \<longleftrightarrow>
        \<not> (\<forall>c\<in>set (Blocks p). q = ID c \<longrightarrow> list_rule (Tag (BKind c)) (Tag to))" for q by blast
    show ?thesis
      unfolding apply_set_kind_def i option.case nth up
        kind_change_blocked_node[OF n wf', folded bs] bind.bind_lunit par
      using bs n \<open>ID b = bid\<close> by (cases "Parent b") (auto simp del: IsContainer.simps)
  qed
  show ?thesis
  proof
    assume L: ?L
    then obtain i where "indexOf (Blocks p) bid = Some i"
      by (auto simp: apply_set_kind_def split: option.splits)
    then obtain xs b ys where b: "Blocks p = xs @ b # ys" "ID b = bid" by (metis indexOfE)
    obtain ds rest where n: "ys = ds @ rest" "tree_node xs b ds rest"
      using node_exists wf_blocksD(2)[OF wf] b(1) by metis
    then have "?R xs b ds rest" using at[of xs b ds rest] L b by metis
    then show "\<exists>xs b ds rest. ?R xs b ds rest" by blast
  next
    assume "\<exists>xs b ds rest. ?R xs b ds rest"
    then show ?L using at by metis
  qed
qed

lemma set_kind_keeps:
  assumes wf: "wf_blocks (Blocks p)" and s: "apply_set_kind p bid from to = Some (Done p')"
  shows "wf_blocks (Blocks p')"
    and "children_ok list_rule (Blocks p) \<Longrightarrow> Tag to \<noteq> ListItem \<or> Tag from = ListItem
      \<Longrightarrow> children_ok list_rule (Blocks p')"
proof -
  obtain xs b ds rest where b: "Blocks p = xs @ b # ds @ rest" "tree_node xs b ds rest" "BKind b = from"
    "IsContainer (Tag from) \<and> \<not> IsContainer (Tag to) \<longrightarrow> ds = []"
    "\<forall>c\<in>set (Blocks p). Parent b = Some (ID c) \<longrightarrow> list_rule (Tag (BKind c)) (Tag to)"
    "p' = p\<lparr>Blocks := xs @ b\<lparr>BKind := to\<rparr> # ds @ rest\<rparr>"
    using s unfolding set_kind_iff[OF wf] by blast
  let ?b = "b\<lparr>BKind := to\<rparr>"
  note wf' = wf_blocksD[OF wf, unfolded b(1)]
  note ord = update_block_order[of ?b b xs "ds @ rest"]
  have own: "Parent b \<noteq> Some (ID b)"
    using depth_first_parent_before[OF wf'(2)] wf'(1) by auto
  have kids: "w \<in> set ds" if "w \<in> set (xs @ ds @ rest)" "Parent w = Some (ID b)" for w
    using node_children[OF b(2) wf'(1,2)] that by auto
  have keep: "children_ok R (xs @ ?b # ds @ rest)"
    if R: "children_ok R (xs @ b # ds @ rest)"
      "\<forall>c\<in>set (Blocks p). Parent b = Some (ID c) \<longrightarrow> R (Tag (BKind c)) (Tag to)"
      "\<forall>d\<in>set ds. Parent d = Some (ID b) \<longrightarrow> R (Tag to) (Tag (BKind d))" for R
  proof (rule children_ok_insert[of R "xs @ ds @ rest" _ ?b])
    show "children_ok R (xs @ ds @ rest)" by (rule children_ok_mono[OF R(1)]) auto
    show "\<forall>w\<in>set (xs @ ds @ rest). Parent w = Some (ID ?b) \<longrightarrow> R (Tag (BKind ?b)) (Tag (BKind w))"
    proof (intro ballI impI)
      fix w assume "w \<in> set (xs @ ds @ rest)" "Parent w = Some (ID ?b)"
      then have "w \<in> set ds" "Parent w = Some (ID b)" using kids[of w] by auto
      then show "R (Tag (BKind ?b)) (Tag (BKind w))" using R(3) by simp
    qed
  qed (use R(2) b(1) own in auto)
  have "children_ok container_rule (xs @ ?b # ds @ rest)"
  proof (rule keep[OF wf'(3)])
    show "\<forall>c\<in>set (Blocks p). Parent b = Some (ID c) \<longrightarrow> container_rule (Tag (BKind c)) (Tag to)"
      using children_okD[OF wf_blocksD(3)[OF wf], of b] b(1) by (simp add: container_rule_def)
    show "\<forall>d\<in>set ds. Parent d = Some (ID b) \<longrightarrow> container_rule (Tag to) (Tag (BKind d))"
    proof (intro ballI impI)
      fix d assume d: "d \<in> set ds" "Parent d = Some (ID b)"
      then have "IsContainer (Tag from)"
        using children_okD[OF wf'(3), of d b] b(3) by (simp add: container_rule_def)
      then show "container_rule (Tag to) (Tag (BKind d))"
        using b(4) d(1) unfolding container_rule_def by (metis empty_iff empty_set)
    qed
  qed
  moreover have "distinct (map ID (xs @ ?b # ds @ rest))" "depth_first (xs @ ?b # ds @ rest)"
    using wf'(1,2) ord by simp_all
  ultimately show "wf_blocks (Blocks p')" using b(6) by (simp add: wf_blocks_def)
  assume l: "children_ok list_rule (Blocks p)" and t: "Tag to \<noteq> ListItem \<or> Tag from = ListItem"
  have "children_ok list_rule (xs @ ?b # ds @ rest)"
  proof (rule keep)
    show "children_ok list_rule (xs @ b # ds @ rest)" using l b(1) by simp
    show "\<forall>d\<in>set ds. Parent d = Some (ID b) \<longrightarrow> list_rule (Tag to) (Tag (BKind d))"
      using children_okD[OF l, of _ b] b(1,3) t by (auto simp: list_rule_def)
  qed (use b(5) in blast)
  then show "children_ok list_rule (Blocks p')" using b(6) by simp
qed

lemma set_content_iff:
  assumes dist: "distinct (map ID (Blocks p))"
  shows "apply_set_content p bid prev content = Some (Done p') \<longleftrightarrow>
    (\<exists>xs b ys. Blocks p = xs @ b # ys \<and> ID b = bid \<and> BContent b = prev \<and>
       p' = p\<lparr>Blocks := xs @ b\<lparr>BContent := content\<rparr> # ys\<rparr>)"
proof
  assume L: "apply_set_content p bid prev content = Some (Done p')"
  then obtain i where i: "indexOf (Blocks p) bid = Some i"
    by (auto simp: apply_set_content_def split: option.splits)
  then obtain xs b ys where b: "Blocks p = xs @ b # ys" "length xs = i" "ID b = bid"
    by (rule indexOfE)
  then have "Blocks p ! i = b" "(Blocks p)[i := b\<lparr>BContent := content\<rparr>] = xs @ b\<lparr>BContent := content\<rparr> # ys"
    by auto
  then have "BContent b = prev \<and> p' = p\<lparr>Blocks := xs @ b\<lparr>BContent := content\<rparr> # ys\<rparr>"
    using L i by (simp add: apply_set_content_def split: if_splits)
  then show "\<exists>xs b ys. Blocks p = xs @ b # ys \<and> ID b = bid \<and> BContent b = prev \<and>
       p' = p\<lparr>Blocks := xs @ b\<lparr>BContent := content\<rparr> # ys\<rparr>"
    using b by blast
next
  assume "\<exists>xs b ys. Blocks p = xs @ b # ys \<and> ID b = bid \<and> BContent b = prev \<and>
       p' = p\<lparr>Blocks := xs @ b\<lparr>BContent := content\<rparr> # ys\<rparr>"
  then show "apply_set_content p bid prev content = Some (Done p')"
    using indexOf_split dist by (auto simp: apply_set_content_def)
qed

lemma set_content_keeps:
  assumes wf: "wf_blocks (Blocks p)" and s: "apply_set_content p bid prev content = Some (Done p')"
  shows "wf_blocks (Blocks p')" and "children_ok R (Blocks p) \<Longrightarrow> children_ok R (Blocks p')"
proof -
  note wf' = wf_blocksD[OF wf]
  obtain xs b ys where b: "Blocks p = xs @ b # ys" "p' = p\<lparr>Blocks := xs @ b\<lparr>BContent := content\<rparr> # ys\<rparr>"
    using s set_content_iff[OF wf'(1)] by auto
  note ord = update_block_order[of "b\<lparr>BContent := content\<rparr>" b xs ys]
  have keep: "children_ok R (Blocks p')" if "children_ok R (Blocks p)" for R
    using that b by (auto simp: children_ok_def)
  then show "wf_blocks (Blocks p')" using wf' ord b by (simp add: wf_blocks_def)
  show "children_ok R (Blocks p) \<Longrightarrow> children_ok R (Blocks p')" by (rule keep)
qed

lemma set_title_iff:
  "apply_set_title p from to = Some (Done p') \<longleftrightarrow> Title p = from \<and> p' = p\<lparr>Title := to\<rparr>"
  by (auto simp: apply_set_title_def)

subsection \<open>Laws of Apply\<close>

definition makes_list_item :: "Op \<Rightarrow> bool" where
  "makes_list_item op = (case op of SetBlockKind bid from to \<Rightarrow> Tag to = ListItem \<and> Tag from \<noteq> ListItem
     | _ \<Rightarrow> False)"

lemmas keeps_wf = insert_keeps(1) delete_keeps(1) move_keeps(1) set_kind_keeps(1) set_content_keeps(1)
lemmas keeps_list = insert_keeps(2) delete_keeps(2) move_keeps(2) set_kind_keeps(2) set_content_keeps(2)

lemma Apply_keeps_wf:
  assumes "wf_page p" and "Apply p op = Some (Done p')"
  shows "wf_page p'"
  using assms by (cases op) (auto simp: wf_page_def set_title_iff dest: keeps_wf)

lemma Apply_keeps_list:
  assumes "wf_page p" and "list_children_ok p" and "Apply p op = Some (Done p')" and "\<not> makes_list_item op"
  shows "list_children_ok p'"
proof (cases op)
  case (SetBlockKind bid f t)
  then show ?thesis
    using set_kind_keeps(2) assms by (auto simp: wf_page_def list_children_ok_def makes_list_item_def)
qed (use assms in \<open>auto simp: wf_page_def list_children_ok_def set_title_iff dest: keeps_list\<close>)

lemma subtreeEnd_returns:
  assumes "wf_blocks bs" and "i < length bs"
  shows "\<exists>e. subtreeEnd bs (blockIndex bs) i = Some e"
proof -
  note wf' = wf_blocksD[OF assms(1)]
  have bs: "bs = take i bs @ bs ! i # drop (Suc i) bs" using assms(2) by (rule id_take_nth_drop)
  then obtain ds rest where n: "drop (Suc i) bs = ds @ rest" "tree_node (take i bs) (bs ! i) ds rest"
    using node_exists wf'(2) by metis
  then have "bs = take i bs @ bs ! i # ds @ rest" using bs by simp
  then show ?thesis
    using subtreeEnd_node[OF n(2)] wf' assms(2) by (metis length_take min.absorb2 nat_less_le)
qed

lemma insertIndex_returns:
  assumes "depth_first bs" and "distinct (map ID bs)"
  shows "\<exists>r. insertIndexAfterInParent bs (blockIndex bs) par aft = Some r"
  using insertIndex_finds_slot[OF assms, of par aft] by metis

lemma apply_insert_returns:
  assumes "depth_first (Blocks p)" and "distinct (map ID (Blocks p))"
  shows "apply_insert p bid par aft kind content \<noteq> None"
proof -
  obtain r where "insertIndexAfterInParent (Blocks p) (blockIndex (Blocks p)) par aft = Some r"
    using insertIndex_returns[OF assms] by blast
  then show ?thesis
    by (auto simp: apply_insert_def Let_def split: option.split sum.split)
qed

lemma apply_delete_returns:
  assumes "wf_blocks (Blocks p)"
  shows "apply_delete p t aft \<noteq> None"
proof (cases "indexOf (Blocks p) (ID t)")
  case (Some i)
  then have "i < length (Blocks p)" by (auto elim: indexOfE)
  then obtain e where "subtreeEnd (Blocks p) (blockIndex (Blocks p)) i = Some e"
    using subtreeEnd_returns[OF assms] by blast
  then show ?thesis using Some by (auto simp: apply_delete_def Let_def)
qed (simp add: apply_delete_def)

lemma apply_set_kind_returns:
  assumes "wf_blocks (Blocks p)"
  shows "apply_set_kind p bid f t \<noteq> None"
proof (cases "indexOf (Blocks p) bid")
  case (Some i)
  then obtain xs b ys where b: "Blocks p = xs @ b # ys" "length xs = i" by (rule indexOfE)
  then obtain ds rest where n: "ys = ds @ rest" "tree_node xs b ds rest"
    using node_exists wf_blocksD(2)[OF assms] by metis
  then have "kind_change_blocked (Blocks p) i bid f t \<noteq> None"
    using kind_change_blocked_node[OF n(2), of bid f t] assms b by simp
  then show ?thesis using Some by (auto simp: apply_set_kind_def split: option.split)
qed (simp add: apply_set_kind_def)

lemma move_cases:
  assumes wf: "wf_blocks (Blocks p)" and i: "indexOf (Blocks p) bid = Some i"
  obtains xs b ds rest where "Blocks p = xs @ b # ds @ rest" "tree_node xs b ds rest" "ID b = bid"
    "length xs = i" "depth_first (xs @ rest)" "distinct (map ID (xs @ rest))"
proof -
  note wf' = wf_blocksD[OF wf]
  obtain xs b ys where b: "Blocks p = xs @ b # ys" "length xs = i" "ID b = bid"
    using i by (rule indexOfE)
  obtain ds rest where n: "ys = ds @ rest" "tree_node xs b ds rest"
    using node_exists wf'(2) b(1) by metis
  have bs: "Blocks p = xs @ b # ds @ rest" using b(1) n(1) by simp
  have "distinct (map ID (xs @ rest))" using wf'(1) bs by auto
  moreover have "depth_first (xs @ rest)" using node_remove[OF n(2)] wf' bs by simp
  ultimately show ?thesis using that[OF bs n(2) b(3,2)] by simp
qed

lemma apply_move_returns:
  assumes wf: "wf_blocks (Blocks p)"
  shows "apply_move p bid fp f tp t \<noteq> None"
proof (cases "indexOf (Blocks p) bid")
  case (Some i)
  then obtain xs b ds rest where b: "Blocks p = xs @ b # ds @ rest" "tree_node xs b ds rest" "ID b = bid"
    "depth_first (xs @ rest)" "distinct (map ID (xs @ rest))"
    using move_cases[OF wf] by metis
  obtain r where "insertIndexAfterInParent (xs @ rest) (blockIndex (xs @ rest)) tp t = Some r"
    using insertIndex_returns[OF b(4,5)] by blast
  then show ?thesis
    using apply_move_split[OF wf_blocksD(2,1)[OF wf] b(1,2), of fp f tp t] b(3)
    by (simp split: option.split sum.split)
qed (simp add: apply_move_def)

lemma Apply_returns:
  assumes "wf_page p"
  shows "Apply p op \<noteq> None"
proof -
  have wf: "wf_blocks (Blocks p)" using assms by (simp add: wf_page_def)
  note r = apply_insert_returns[OF wf_blocksD(2,1)[OF wf]] apply_delete_returns[OF wf]
    apply_set_kind_returns[OF wf] apply_move_returns[OF wf]
  show ?thesis
    using r by (cases op) (simp_all add: apply_set_content_def apply_set_title_def split: option.split)
qed

subsection \<open>Failure\<close>

lemma failure_keeps_page:
  "apply_insert p bid par aft kind content = Some (Failed e p') \<Longrightarrow> p' = p"
  "apply_delete p tomb aft = Some (Failed e p') \<Longrightarrow> p' = p"
  "apply_set_kind p bid k1 k2 = Some (Failed e p') \<Longrightarrow> p' = p"
  "apply_set_content p bid c1 c2 = Some (Failed e p') \<Longrightarrow> p' = p"
  "apply_set_title p t1 t2 = Some (Failed e p') \<Longrightarrow> p' = p"
proof -
  assume s: "apply_insert p bid par aft kind content = Some (Failed e p')"
  show "p' = p"
  proof (cases "insertIndexAfterInParent (Blocks p) (blockIndex (Blocks p)) par aft")
    case None
    then show ?thesis using s by (auto simp: apply_insert_def Let_def split: if_splits option.splits)
  next
    case (Some r)
    then show ?thesis
      using s by (cases r) (auto simp: apply_insert_def Let_def split: if_splits option.splits)
  qed
next
  assume s: "apply_set_kind p bid k1 k2 = Some (Failed e p')"
  show "p' = p"
  proof (cases "indexOf (Blocks p) bid")
    case None
    then show ?thesis using s by (simp add: apply_set_kind_def)
  next
    case (Some i)
    then show ?thesis
      using s by (cases "kind_change_blocked (Blocks p) i bid k1 k2")
        (auto simp: apply_set_kind_def split: if_splits option.splits)
  qed
qed (auto simp: apply_delete_def apply_set_content_def
      apply_set_title_def Let_def bind_eq_Some_conv split: option.splits if_splits)

lemma failed_move_storage:
  assumes wf: "wf_blocks (Blocks p)"
    and s: "apply_move p bid fp f tp t = Some (Failed e p')" and "p' \<noteq> p"
  shows "\<exists>xs b ds rest. Blocks p = xs @ b # ds @ rest \<and> tree_node xs b ds rest \<and> ID b = bid \<and>
    p' = p\<lparr>Blocks := xs @ rest @ replicate (length ds + 1) zero_block\<rparr>"
proof (cases "indexOf (Blocks p) bid")
  case None
  then show ?thesis using s \<open>p' \<noteq> p\<close> by (simp add: apply_move_def)
next
  case (Some i)
  then obtain xs b ds rest where b: "Blocks p = xs @ b # ds @ rest" "tree_node xs b ds rest" "ID b = bid"
    and cut: "depth_first (xs @ rest)" "distinct (map ID (xs @ rest))"
    using move_cases[OF wf] by metis
  note mv = apply_move_split[OF wf_blocksD(2,1)[OF wf] b(1,2), of fp f tp t]
  have st: "slice_delete_storage zero_block (Blocks p) (length xs) (length xs + 1 + length ds)
      = xs @ rest @ replicate (length ds + 1) zero_block"
    using b(1) by (simp add: slice_delete_storage_def)
  obtain r where r: "insertIndexAfterInParent (xs @ rest) (blockIndex (xs @ rest)) tp t = Some r"
    using insertIndex_returns[OF cut] by blast
  have "p' = p\<lparr>Blocks := xs @ rest @ replicate (length ds + 1) zero_block\<rparr>"
    using s \<open>p' \<noteq> p\<close> unfolding b(3)[symmetric] mv r st bind.bind_lunit
    by (auto split: if_splits option.splits sum.splits)
  then show ?thesis using b by blast
qed

subsection \<open>Inverses\<close>

definition exact_tombstone :: "Page \<Rightarrow> Op \<Rightarrow> bool" where
  "exact_tombstone p op = (case op of DeleteBlock t aft \<Rightarrow> t \<in> set (Blocks p) | _ \<Rightarrow> True)"

lemma invert_insert:
  assumes wf: "wf_blocks (Blocks p)" and s: "apply_insert p bid par aft kind content = Some (Done p')"
  shows "apply_delete p' \<lparr>ID = bid, Parent = par, BKind = kind, BContent = content\<rparr> aft = Some (Done p)"
proof -
  let ?n = "\<lparr>ID = bid, Parent = par, BKind = kind, BContent = content\<rparr>"
  note wf' = wf_blocksD[OF wf]
  note wf2 = wf_blocksD[OF insert_keeps(1)[OF wf s]]
  obtain us vs where u: "Blocks p = us @ vs" "slot us vs par" "sibling_before us par = aft"
    "p' = p\<lparr>Blocks := us @ ?n # vs\<rparr>"
    using s insert_iff[OF wf'(2,1)] by metis
  have "tree_node us ?n [] vs"
    using slot_node(1)[of us vs ?n "[]"] wf' wf2 u by simp
  then show ?thesis
    unfolding delete_iff[OF wf2(2,1)] using u
    by (intro exI[of _ us] exI[of _ ?n] exI[of _ vs]) simp
qed

lemma invert_delete:
  assumes wf: "wf_blocks (Blocks p)" and l: "children_ok list_rule (Blocks p)"
    and s: "apply_delete p t aft = Some (Done p')" and t: "t \<in> set (Blocks p)"
  shows "apply_insert p' (ID t) (Parent t) aft (BKind t) (BContent t) = Some (Done p)"
proof -
  note wf' = wf_blocksD[OF wf]
  note wf2 = wf_blocksD[OF delete_keeps(1)[OF wf s]]
  obtain us b vs where b: "Blocks p = us @ b # vs" "ID b = ID t" "Parent b = Parent t"
      "sibling_before us (Parent t) = aft" "tree_node us b [] vs" "p' = p\<lparr>Blocks := us @ vs\<rparr>"
    using s delete_iff[OF wf'(2,1)] by metis
  have "b = t" using wf'(1) b(1,2) t by (metis distinct_map in_set_conv_decomp inj_onD)
  have "\<exists>c\<in>set (us @ vs). ID c = q \<and> container_rule (Tag (BKind c)) (Tag (BKind t))
      \<and> list_rule (Tag (BKind c)) (Tag (BKind t))" if q: "Parent t = Some q" for q
  proof -
    have "q \<in> ID ` set us"
      using depth_first_parent_before[of us t vs q] wf'(2) b(1) \<open>b = t\<close> q by simp
    then obtain c where c: "c \<in> set us" "ID c = q" by auto
    then have "c \<in> set (Blocks p)" using b(1) by simp
    then show ?thesis
      using children_okD[OF wf'(3) t] children_okD[OF l t] c q by auto
  qed
  then have "validateParent (Blocks p') (blockIndex (Blocks p')) (Parent t) (Tag (BKind t)) = None"
    using validateParent_None[OF wf2(1)] b(6) by simp
  moreover have "ID t \<notin> ID ` set (us @ vs)" using wf'(1) b(1) \<open>b = t\<close> by auto
  moreover have "slot us vs (Parent t)" using node_slot[OF b(5)] \<open>b = t\<close> by simp
  ultimately show ?thesis
    unfolding insert_iff[OF wf2(2,1)] using b \<open>b = t\<close>
    by (intro conjI exI[of _ us] exI[of _ vs]) simp_all
qed

lemma invert_move:
  assumes wf: "wf_blocks (Blocks p)" and l: "children_ok list_rule (Blocks p)"
    and s: "apply_move p bid fp f tp t = Some (Done p')"
  shows "apply_move p' bid tp t fp f = Some (Done p)"
proof -
  note wf' = wf_blocksD[OF wf]
  note wf2 = wf_blocksD[OF move_keeps(1)[OF wf s]]
  obtain xs b ds rest us vs where bs: "Blocks p = xs @ b # ds @ rest" and n: "tree_node xs b ds rest"
    and g: "ID b = bid" "Parent b = fp" "sibling_before xs fp = f"
    and u: "xs @ rest = us @ vs" "slot us vs tp" "sibling_before us tp = t"
    and p': "p' = p\<lparr>Blocks := us @ b\<lparr>Parent := tp\<rparr> # ds @ vs\<rparr>"
    using s move_iff[OF wf'(2,1)] by metis
  let ?b = "b\<lparr>Parent := tp\<rparr>"
  have cut: "depth_first (us @ vs)"
    unfolding u(1)[symmetric] using node_remove[OF n] wf' bs by auto
  have sub: "subtree (ID ?b) ds" using n by (auto simp: tree_node_def)
  have n': "tree_node us ?b ds vs"
    using slot_node(1)[of us vs ?b ds] u(2) sub cut wf2(1) p' by simp
  have parent: "q \<in> ID ` set xs" if "fp = Some q" for q
    using depth_first_parent_before[of xs b "ds @ rest" q] wf'(2) bs g(2) that by simp
  have "ID ` set xs \<inter> ID ` set (?b # ds) = {}" using wf'(1) bs by auto
  then have cyc: "\<forall>q. fp = Some q \<longrightarrow> q \<notin> ID ` set (?b # ds)" using parent by blast
  have "\<exists>c\<in>set (Blocks p'). ID c = q \<and> container_rule (Tag (BKind c)) (Tag (BKind ?b))
      \<and> list_rule (Tag (BKind c)) (Tag (BKind ?b))" if q: "fp = Some q" for q
  proof -
    obtain c where c: "c \<in> set xs" "ID c = q" using parent[OF q] by auto
    have "c \<in> set (us @ vs)" unfolding u(1)[symmetric] using c(1) by simp
    then have "c \<in> set (Blocks p')" using p' by auto
    then show ?thesis
      using children_okD[OF wf'(3), of b c] children_okD[OF l, of b c] c q g(2) bs by auto
  qed
  then have v: "validateParent (Blocks p') (blockIndex (Blocks p')) fp (Tag (BKind ?b)) = None"
    using validateParent_None[OF wf2(1)] by blast
  have eq: "p = p'\<lparr>Blocks := xs @ ?b\<lparr>Parent := fp\<rparr> # ds @ rest\<rparr>"
    using p' bs g(2) by simp
  have "Blocks p' = us @ ?b # ds @ vs" "slot xs rest fp"
    using p' node_slot[OF n] g(2) by simp_all
  then show ?thesis
    unfolding move_iff[OF wf2(2,1)]
    using n' g(1,3) u(1,3) cyc v
    by (intro exI[of _ us] exI[of _ ?b] exI[of _ ds] exI[of _ vs] exI[of _ xs] exI[of _ rest]
        conjI eq) simp_all
qed

lemma invert_set_kind:
  assumes wf: "wf_blocks (Blocks p)" and l: "children_ok list_rule (Blocks p)"
    and s: "apply_set_kind p bid f t = Some (Done p')"
  shows "apply_set_kind p' bid t f = Some (Done p)"
proof -
  note wf' = wf_blocksD[OF wf]
  note wf2 = set_kind_keeps(1)[OF wf s]
  obtain xs b ds rest where b: "Blocks p = xs @ b # ds @ rest" "tree_node xs b ds rest" "ID b = bid"
    "BKind b = f" "p' = p\<lparr>Blocks := xs @ b\<lparr>BKind := t\<rparr> # ds @ rest\<rparr>"
    using s unfolding set_kind_iff[OF wf] by blast
  let ?b = "b\<lparr>BKind := t\<rparr>"
  have n: "tree_node xs ?b ds rest" using b(2) by (simp add: tree_node_def)
  have leaf: "ds = []" if "\<not> IsContainer (Tag f)"
  proof (rule ccontr)
    assume "ds \<noteq> []"
    then obtain d ds' where d: "ds = d # ds'" by (cases ds) auto
    obtain q where q: "Parent d = Some q" "q = ID b"
    proof -
      have "path [ID b] ds \<noteq> None" "Parent d \<noteq> None" using b(2) d by (auto simp: tree_node_def subtree_def)
      then show ?thesis using that d by (auto simp: push_def split: if_splits)
    qed
    then have "container_rule (Tag (BKind b)) (Tag (BKind d))"
      using children_okD[OF wf'(3), of d b] b(1) d by simp
    then show False using \<open>\<not> IsContainer (Tag f)\<close> b(4) by (simp add: container_rule_def)
  qed
  have own: "Parent b \<noteq> Some (ID b)"
    using depth_first_parent_before[of xs b "ds @ rest"] wf'(1,2) b(1) by auto
  have "list_rule (Tag (BKind c)) (Tag f)" if "c \<in> set (Blocks p')" "Parent b = Some (ID c)" for c
  proof -
    have "c \<in> set (Blocks p)" using that b(1,5) own by auto
    then show ?thesis using children_okD[OF l, of b c] b(1,4) that(2) by simp
  qed
  moreover have eq: "p = p'\<lparr>Blocks := xs @ ?b\<lparr>BKind := f\<rparr> # ds @ rest\<rparr>"
    using b by simp
  moreover have "Blocks p' = xs @ ?b # ds @ rest" using b(5) by simp
  ultimately show ?thesis
    unfolding set_kind_iff[OF wf2] using b(3) n leaf
    by (intro exI[of _ xs] exI[of _ ?b] exI[of _ ds] exI[of _ rest] conjI) auto
qed

lemma invert_set_content:
  assumes wf: "wf_blocks (Blocks p)" and s: "apply_set_content p bid f t = Some (Done p')"
  shows "apply_set_content p' bid t f = Some (Done p)"
proof -
  note wf2 = wf_blocksD(1)[OF set_content_keeps(1)[OF wf s]]
  obtain xs b ys where b: "Blocks p = xs @ b # ys" "ID b = bid" "BContent b = f"
    "p' = p\<lparr>Blocks := xs @ b\<lparr>BContent := t\<rparr> # ys\<rparr>"
    using s set_content_iff[OF wf_blocksD(1)[OF wf]] by auto
  then show ?thesis
    unfolding set_content_iff[OF wf2]
    by (intro exI[of _ xs] exI[of _ "b\<lparr>BContent := t\<rparr>"] exI[of _ ys]) simp
qed

lemma Apply_inverts:
  assumes wf: "wf_blocks (Blocks p)" and l: "children_ok list_rule (Blocks p)"
    and "exact_tombstone p op" and "Apply p op = Some (Done p')"
  shows "Apply p' (Invert op) = Some (Done p)"
proof (cases op)
  case (DeleteBlock t aft)
  then show ?thesis
    using assms(3,4) invert_delete[OF wf l] by (simp add: exact_tombstone_def)
qed (use assms(4) invert_insert[OF wf] invert_set_kind[OF wf l] invert_set_content[OF wf]
    invert_move[OF wf l] in \<open>auto simp: set_title_iff\<close>)

subsection \<open>A sample page\<close>

definition sample_block :: "uuid \<Rightarrow> uuid option \<Rightarrow> BlockTag \<Rightarrow> Block" where
  "sample_block i par t = \<lparr>ID = i, Parent = par, BKind = zero_kind\<lparr>Tag := t\<rparr>,
     BContent = PlainContent ''x''\<rparr>"

definition sample_page :: Page where
  "sample_page = \<lparr>PID = 9, Title = ''notes'', Blocks =
     [sample_block 1 None Quote, sample_block 2 (Some 1) Paragraph, sample_block 3 None Heading]\<rparr>"

definition moved_page :: Page where
  "moved_page = sample_page\<lparr>Blocks :=
     [sample_block 1 None Quote, sample_block 2 (Some 1) Paragraph, sample_block 3 (Some 1) Heading]\<rparr>"

definition sample_move :: Op where
  "sample_move = MoveBlock 3 None (Some 1) (Some 1) (Some 2)"

lemma sample_page_wf: "wf_page sample_page"
  by code_simp

lemma sample_page_list: "list_children_ok sample_page"
  by code_simp

lemma sample_move_done: "Apply sample_page sample_move = Some (Done moved_page)"
  by code_simp

subsection \<open>Properties\<close>



text \<open>C0: invertibility. When an operation succeeds on a well-formed page that obeys the
  list-child rule, its inverse succeeds on the result and gives back the page, every field
  of every block included. For DeleteBlock the tombstone must be the deleted block, which
  \<open>Apply\<close> does not check.\<close>

theorem Apply_Invert:
  assumes "wf_page p" and "list_children_ok p" and "exact_tombstone p op"
    and "Apply p op = Some (Done p')"
  shows "Apply p' (Invert op) = Some (Done p)"
  using assms unfolding wf_page_def list_children_ok_def by (rule Apply_inverts)

theorem Apply_Invert_witness:
  "Apply moved_page (MoveBlock 3 (Some 1) (Some 2) None (Some 1)) = Some (Done sample_page)"
proof -
  have "exact_tombstone sample_page sample_move" by code_simp
  from Apply_Invert[OF sample_page_wf sample_page_list this sample_move_done]
  show ?thesis by (simp add: sample_move_def)
qed

text \<open>C20: a failing operation that is not MoveBlock leaves the page as it was, and a failing
  MoveBlock either does too or has destroyed the moved subtree: the page then holds the
  remaining blocks followed by one zero block for each block that was moved.\<close>

theorem Apply_failure_state:
  assumes "wf_page p" and "Apply p op = Some (Failed e p')"
  shows "p' = p \<or> (\<exists>bid fp f tp t xs b ds rest. op = MoveBlock bid fp f tp t \<and>
    Blocks p = xs @ b # ds @ rest \<and> ID b = bid \<and>
    p' = p\<lparr>Blocks := xs @ rest @ replicate (length ds + 1) zero_block\<rparr>)"
proof (cases op)
  case (MoveBlock bid fp f tp t)
  then show ?thesis
    using assms failed_move_storage[of p bid fp f tp t e p'] by (auto simp: wf_page_def)
qed (use assms(2) in \<open>auto dest: failure_keeps_page\<close>)

definition lost_page :: Page where
  "lost_page = sample_page\<lparr>Blocks :=
     [sample_block 1 None Quote, sample_block 2 (Some 1) Paragraph, zero_block]\<rparr>"

theorem Apply_failure_state_witness:
  "\<exists>e. Apply sample_page (MoveBlock 3 None (Some 1) None (Some 7)) = Some (Failed e lost_page)
    \<and> lost_page \<noteq> sample_page
    \<and> (\<exists>xs b ds rest. Blocks sample_page = xs @ b # ds @ rest \<and> ID b = 3 \<and>
       lost_page = sample_page\<lparr>Blocks := xs @ rest @ replicate (length ds + 1) zero_block\<rparr>)"
proof -
  have s: "Apply sample_page (MoveBlock 3 None (Some 1) None (Some 7))
      = Some (Failed (BlockNotFoundError 7) lost_page)"
    by code_simp
  moreover have "lost_page \<noteq> sample_page" by code_simp
  ultimately show ?thesis
    using Apply_failure_state[OF sample_page_wf s] by auto
qed

text \<open>The rule that a list item holds only lists and paragraphs is kept by every
  successful operation but one: SetBlockKind checks the rule towards the block's parent and
  not towards its children, so only turning a block into a list item can break it.\<close>

theorem Apply_list_children:
  assumes "wf_page p" and "list_children_ok p" and "Apply p op = Some (Done p')"
    and "\<not> list_children_ok p'"
  shows "\<exists>bid from to. op = SetBlockKind bid from to \<and> Tag to = ListItem \<and> Tag from \<noteq> ListItem"
proof -
  have "makes_list_item op" using assms Apply_keeps_list[of p op p'] by blast
  then show ?thesis by (cases op) (auto simp: makes_list_item_def)
qed

definition quoted_heading :: Page where
  "quoted_heading = \<lparr>PID = 9, Title = ''notes'', Blocks =
     [sample_block 1 None Quote, sample_block 2 (Some 1) Heading]\<rparr>"

definition item_heading :: Page where
  "item_heading = \<lparr>PID = 9, Title = ''notes'', Blocks =
     [sample_block 1 None ListItem, sample_block 2 (Some 1) Heading]\<rparr>"

theorem Apply_list_children_witness:
  "let op = SetBlockKind 1 (zero_kind\<lparr>Tag := Quote\<rparr>) (zero_kind\<lparr>Tag := ListItem\<rparr>) in
   Apply quoted_heading op = Some (Done item_heading) \<and> \<not> list_children_ok item_heading \<and>
   (\<exists>bid from to. op = SetBlockKind bid from to \<and> Tag to = ListItem \<and> Tag from \<noteq> ListItem)"
proof -
  let ?op = "SetBlockKind 1 (zero_kind\<lparr>Tag := Quote\<rparr>) (zero_kind\<lparr>Tag := ListItem\<rparr>)"
  have s: "wf_page quoted_heading" "list_children_ok quoted_heading"
    "Apply quoted_heading ?op = Some (Done item_heading)" "\<not> list_children_ok item_heading"
    by code_simp+
  show ?thesis unfolding Let_def using s Apply_list_children[OF s] by blast
qed

end
