(* ===== verification/Invertible.thy ===== *)
theory Invertible
  imports Prelude
begin

text \<open>
  The contract an undo stack needs of the operations it keeps: an operation that succeeded in
  a state where it was allowed is undone by its inverse. \<open>past\<close> and \<open>future\<close> say that a
  stack of recorded operations leads back from a state, and that a stack of undone ones leads
  forward again; the lemmas move a state one step along either.
\<close>

fun past :: "('s \<Rightarrow> 'o \<Rightarrow> ('e, 's) outcome option) \<Rightarrow> ('s \<Rightarrow> 'o \<Rightarrow> bool) \<Rightarrow> 's \<Rightarrow> 'o list \<Rightarrow> bool" where
  "past app allowed s [] = True"
| "past app allowed s (op # ops) =
     (\<exists>q. allowed q op \<and> app q op = Some (Done s) \<and> past app allowed q ops)"

fun future :: "('s \<Rightarrow> 'o \<Rightarrow> ('e, 's) outcome option) \<Rightarrow> ('o \<Rightarrow> 'o) \<Rightarrow> ('s \<Rightarrow> 'o \<Rightarrow> bool)
    \<Rightarrow> 's \<Rightarrow> 'o list \<Rightarrow> bool" where
  "future app opp allowed s [] = True"
| "future app opp allowed s (r # rs) =
     (\<exists>q. allowed s (opp r) \<and> app s (opp r) = Some (Done q) \<and> future app opp allowed q rs)"

lemma past_butlast: "past app allowed s (ops @ [op]) \<Longrightarrow> past app allowed s ops"
  by (induction ops arbitrary: s) auto

text \<open>Operations applied one after the other; \<open>None\<close> if one fails or does not return.\<close>

fun run :: "('s \<Rightarrow> 'o \<Rightarrow> ('e, 's) outcome option) \<Rightarrow> 's \<Rightarrow> 'o list \<Rightarrow> 's option" where
  "run app s [] = Some s"
| "run app s (op # ops) = (case app s op of Some (Done t) \<Rightarrow> run app t ops | _ \<Rightarrow> None)"

fun allowed_run :: "('s \<Rightarrow> 'o \<Rightarrow> ('e, 's) outcome option) \<Rightarrow> ('s \<Rightarrow> 'o \<Rightarrow> bool) \<Rightarrow> 's \<Rightarrow> 'o list \<Rightarrow> bool" where
  "allowed_run app allowed s [] = True"
| "allowed_run app allowed s (op # ops) = (allowed s op \<and>
     (case app s op of Some (Done t) \<Rightarrow> allowed_run app allowed t ops | _ \<Rightarrow> True))"

lemma run_append: "run app s (xs @ ys) = (case run app s xs of None \<Rightarrow> None | Some t \<Rightarrow> run app t ys)"
  by (induction xs arbitrary: s) (auto split: option.split outcome.split)

lemma run_Cons_iff:
  "run app s (op # ops) = Some t \<longleftrightarrow> (\<exists>u. app s op = Some (Done u) \<and> run app u ops = Some t)"
  by (auto split: option.splits outcome.splits)

locale invertible =
  fixes app :: "'s \<Rightarrow> 'o \<Rightarrow> ('e, 's) outcome option"
    and opp :: "'o \<Rightarrow> 'o"
    and allowed :: "'s \<Rightarrow> 'o \<Rightarrow> bool"
  assumes undoes: "allowed s op \<Longrightarrow> app s op = Some (Done t) \<Longrightarrow> app t (opp op) = Some (Done s)"
    and opp_opp: "opp (opp op) = op"
begin

lemma undo_step:
  assumes "past app allowed s (op # ops)"
  obtains q where "app s (opp op) = Some (Done q)" "past app allowed q ops"
    "allowed q op" "app q op = Some (Done s)"
    "\<And>fs. future app opp allowed s fs \<Longrightarrow> future app opp allowed q (opp op # fs)"
proof -
  obtain q where q: "allowed q op" "app q op = Some (Done s)" "past app allowed q ops"
    using assms by auto
  then show ?thesis
    using that[of q] undoes[OF q(1,2)] by (auto simp: opp_opp)
qed

lemma redo_step:
  assumes "future app opp allowed s (r # rs)"
  obtains q where "app s (opp r) = Some (Done q)" "future app opp allowed q rs"
    "app q r = Some (Done s)"
    "\<And>ps. past app allowed s ps \<Longrightarrow> past app allowed q (opp r # ps)"
proof -
  obtain q where q: "allowed s (opp r)" "app s (opp r) = Some (Done q)" "future app opp allowed q rs"
    using assms by auto
  then show ?thesis
    using that[of q] undoes[OF q(1,2)] by (auto simp: opp_opp)
qed

lemma past_extend:
  "past app allowed s ps \<Longrightarrow> allowed s op \<Longrightarrow> app s op = Some (Done t) \<Longrightarrow> past app allowed t (op # ps)"
  by auto

text \<open>A whole sequence is undone by the inverses in reverse order.\<close>

lemma run_inverse:
  "run app s ops = Some t \<Longrightarrow> allowed_run app allowed s ops
    \<Longrightarrow> run app t (rev (map opp ops)) = Some s"
proof (induction ops arbitrary: s)
  case (Cons op ops)
  then obtain u where u: "app s op = Some (Done u)" "run app u ops = Some t"
    by (auto split: option.splits outcome.splits)
  then show ?case
    using Cons.IH[OF u(2)] Cons.prems(2) undoes[of s op u] by (simp add: run_append)
qed simp

end

end
