(* ===== verification/Histories.thy ===== *)
theory Histories
  imports PageLaws Invertible
begin

text \<open>
  Module documentcore, file history.go: one actor's undo and redo stacks over page
  operations. The stacks are lists with the most recent entry last, as the slices are. A
  call that fails returns the history unchanged; \<open>Page.Apply\<close> decides what happens to the
  page.
\<close>

record History =
  undoStack :: "Op list"
  redoStack :: "Op list"
  maxDepth :: int

definition NewHistory :: "int \<Rightarrow> History" where
  "NewHistory n = \<lparr>undoStack = [], redoStack = [], maxDepth = n\<rparr>"

definition UndoDepth :: "History \<Rightarrow> nat" where "UndoDepth h = length (undoStack h)"
definition RedoDepth :: "History \<Rightarrow> nat" where "RedoDepth h = length (redoStack h)"

definition Record :: "History \<Rightarrow> Op \<Rightarrow> History" where
  "Record h op =
     (if maxDepth h \<le> 0 then h
      else (let undo = undoStack h @ [op] in
        h\<lparr>undoStack := (if int (length undo) > maxDepth h
             then take (nat (maxDepth h)) (tl undo @ [last undo]) else undo),
          redoStack := []\<rparr>))"

definition Undo :: "History \<Rightarrow> Page \<Rightarrow> (apply_error, History \<times> Page) outcome option" where
  "Undo h page =
     (if undoStack h = [] then Some (Done (h, page))
      else (let redoOp = Invert (last (undoStack h)) in
        (case Apply page redoOp of
           None \<Rightarrow> None
         | Some (Failed e page') \<Rightarrow> Some (Failed e (h, page'))
         | Some (Done page') \<Rightarrow> Some (Done (h\<lparr>undoStack := butlast (undoStack h),
             redoStack := redoStack h @ [redoOp]\<rparr>, page')))))"

definition Redo :: "History \<Rightarrow> Page \<Rightarrow> (apply_error, History \<times> Page) outcome option" where
  "Redo h page =
     (if redoStack h = [] then Some (Done (h, page))
      else (let undoOp = Invert (last (redoStack h)) in
        (case Apply page undoOp of
           None \<Rightarrow> None
         | Some (Failed e page') \<Rightarrow> Some (Failed e (h, page'))
         | Some (Done page') \<Rightarrow> Some (Done (h\<lparr>redoStack := butlast (redoStack h),
             undoStack := undoStack h @ [undoOp]\<rparr>, page')))))"

subsection \<open>Histories that match the page\<close>

definition allowed_op :: "Page \<Rightarrow> Op \<Rightarrow> bool" where
  "allowed_op p op \<longleftrightarrow> wf_page p \<and> list_children_ok p \<and> exact_tombstone p op"

interpretation page_ops: invertible Apply Invert allowed_op
proof unfold_locales
  show "Apply t (Invert op) = Some (Done s)"
    if "allowed_op s op" "Apply s op = Some (Done t)" for s op t
  proof -
    have "wf_blocks (Blocks s)" "children_ok list_rule (Blocks s)" "exact_tombstone s op"
      using that(1) by (simp_all add: allowed_op_def wf_page_def list_children_ok_def)
    then show ?thesis using that(2) by (rule Apply_inverts)
  qed
qed simp

definition matches :: "History \<Rightarrow> Page \<Rightarrow> bool" where
  "matches h p \<longleftrightarrow> past Apply allowed_op p (rev (undoStack h)) \<and>
     future Apply Invert allowed_op p (rev (redoStack h))"

definition bounded :: "History \<Rightarrow> bool" where
  "bounded h \<longleftrightarrow> int (UndoDepth h + RedoDepth h) \<le> max 0 (maxDepth h)"

text \<open>An edit is what the owner of a history does: apply, and record on success.\<close>

definition edit :: "History \<Rightarrow> Page \<Rightarrow> Op \<Rightarrow> (apply_error, History \<times> Page) outcome option" where
  "edit h p op = (case Apply p op of None \<Rightarrow> None
     | Some (Failed e p') \<Rightarrow> Some (Failed e (h, p'))
     | Some (Done p') \<Rightarrow> Some (Done (Record h op, p')))"

lemma Record_stack:
  assumes "0 < maxDepth h" and "int (length (undoStack h)) \<le> maxDepth h"
  shows "undoStack (Record h op) = (if int (length (undoStack h)) = maxDepth h
    then tl (undoStack h @ [op]) else undoStack h @ [op])"
  using assms by (auto simp: Record_def Let_def)

lemma matches_new: "matches (NewHistory n) p" "bounded (NewHistory n)"
  by (simp_all add: matches_def NewHistory_def bounded_def UndoDepth_def RedoDepth_def)

lemma Record_bounded: "bounded h \<Longrightarrow> bounded (Record h op)"
  by (auto simp: bounded_def UndoDepth_def RedoDepth_def Record_def Let_def)

lemma Record_matches:
  assumes "matches h p" and "bounded h" and "0 < maxDepth h"
    and "allowed_op p op" and "Apply p op = Some (Done p')"
  shows "matches (Record h op) p'"
proof -
  have "past Apply allowed_op p' (op # rev (undoStack h))"
    using page_ops.past_extend assms unfolding matches_def by blast
  then have all: "past Apply allowed_op p' (rev (undoStack h @ [op]))" by simp
  then have "past Apply allowed_op p' (rev (tl (undoStack h @ [op])))"
    using past_butlast[of _ _ p' "rev (tl (undoStack h @ [op]))" "hd (undoStack h @ [op])"]
    by (metis list.collapse rev.simps(2) snoc_eq_iff_butlast)
  moreover have "int (length (undoStack h)) \<le> maxDepth h"
    using assms(2,3) by (simp add: bounded_def UndoDepth_def RedoDepth_def)
  moreover have "redoStack (Record h op) = []"
    using assms(3) by (simp add: Record_def Let_def)
  ultimately show ?thesis
    using all Record_stack[OF assms(3)] by (simp add: matches_def)
qed

lemma Undo_matches:
  assumes "matches h p" and "undoStack h \<noteq> []"
  obtains h' p' where "Undo h p = Some (Done (h', p'))" "matches h' p'"
    "undoStack h' = butlast (undoStack h)" "Redo h' p' = Some (Done (h, p))"
    "allowed_op p' (last (undoStack h))" "Apply p' (last (undoStack h)) = Some (Done p)"
proof -
  obtain us op where u: "undoStack h = us @ [op]" using assms(2) by (metis rev_exhaust)
  then have "past Apply allowed_op p (op # rev us)"
    using assms(1) by (simp add: matches_def)
  then obtain q where q: "Apply p (Invert op) = Some (Done q)" "past Apply allowed_op q (rev us)"
    "allowed_op q op" "Apply q op = Some (Done p)"
    "\<And>fs. future Apply Invert allowed_op p fs \<Longrightarrow> future Apply Invert allowed_op q (Invert op # fs)"
    by (rule page_ops.undo_step) blast
  let ?h = "h\<lparr>undoStack := us, redoStack := redoStack h @ [Invert op]\<rparr>"
  have "Undo h p = Some (Done (?h, q))" using q(1) u by (simp add: Undo_def)
  moreover have "matches ?h q"
    using q(2) q(5)[of "rev (redoStack h)"] assms(1) by (simp only: matches_def History.simps rev_append)
      (simp del: future.simps past.simps)
  moreover have "Redo ?h q = Some (Done (h, p))" using q(4) u by (simp add: Redo_def)
  ultimately show ?thesis using that[of ?h q] q(3,4) u by simp
qed

lemma Redo_matches:
  assumes "matches h p" and "redoStack h \<noteq> []"
  obtains h' p' where "Redo h p = Some (Done (h', p'))" "matches h' p'"
    "Undo h' p' = Some (Done (h, p))"
proof -
  obtain rs r where r: "redoStack h = rs @ [r]" using assms(2) by (metis rev_exhaust)
  then have "future Apply Invert allowed_op p (r # rev rs)"
    using assms(1) by (simp add: matches_def)
  then obtain q where q: "Apply p (Invert r) = Some (Done q)" "future Apply Invert allowed_op q (rev rs)"
    "Apply q r = Some (Done p)"
    "\<And>ps. past Apply allowed_op p ps \<Longrightarrow> past Apply allowed_op q (Invert r # ps)"
    by (rule page_ops.redo_step) blast
  let ?h = "h\<lparr>redoStack := rs, undoStack := undoStack h @ [Invert r]\<rparr>"
  have "Redo h p = Some (Done (?h, q))" using q(1) r by (simp add: Redo_def)
  moreover have "matches ?h q"
    using q(2) q(4)[of "rev (undoStack h)"] assms(1) by (simp only: matches_def History.simps rev_append)
      (simp del: future.simps past.simps)
  moreover have "Undo ?h q = Some (Done (h, p))" using q(3) r by (simp add: Undo_def)
  ultimately show ?thesis using that[of ?h q] by blast
qed

subsection \<open>Sessions of edits and undos\<close>

fun edits :: "History \<Rightarrow> Page \<Rightarrow> Op list \<Rightarrow> (History \<times> Page) option" where
  "edits h p [] = Some (h, p)"
| "edits h p (op # ops) = (case edit h p op of Some (Done (h', p')) \<Rightarrow> edits h' p' ops | _ \<Rightarrow> None)"

fun undos :: "nat \<Rightarrow> History \<Rightarrow> Page \<Rightarrow> (History \<times> Page) option" where
  "undos 0 h p = Some (h, p)"
| "undos (Suc n) h p = (case Undo h p of Some (Done (h', p')) \<Rightarrow> undos n h' p' | _ \<Rightarrow> None)"

lemma edits_stack:
  assumes "edits h p ops = Some (h', p')"
    and "int (length (undoStack h) + length ops) \<le> maxDepth h"
  shows "undoStack h' = undoStack h @ ops \<and> run Apply p ops = Some p'"
  using assms
proof (induction ops arbitrary: h p)
  case (Cons op ops)
  then obtain q where q: "Apply p op = Some (Done q)" "edits (Record h op) q ops = Some (h', p')"
    by (auto simp: edit_def split: option.splits outcome.splits)
  have "undoStack (Record h op) = undoStack h @ [op]" "maxDepth (Record h op) = maxDepth h"
    using Cons.prems(2) by (auto simp: Record_def Let_def)
  then show ?case using Cons.IH[OF q(2)] Cons.prems(2) q(1) by simp
qed simp

lemma allowed_run_append:
  "run app s xs = Some t \<Longrightarrow> allowed_run app al s (xs @ ys) \<longleftrightarrow> allowed_run app al s xs \<and> allowed_run app al t ys"
  by (induction xs arbitrary: s) (auto split: option.splits outcome.splits)

lemma undos_run:
  assumes "run Apply p ops = Some p'" and "allowed_run Apply allowed_op p ops"
    and "undoStack h = us @ ops"
  shows "\<exists>h'. undos (length ops) h p' = Some (h', p) \<and> undoStack h' = us"
  using assms
proof (induction ops arbitrary: h p' rule: rev_induct)
  case (snoc op ops)
  obtain q where q: "run Apply p ops = Some q" "Apply q op = Some (Done p')"
    using snoc.prems(1) by (auto simp: run_append split: option.splits outcome.splits)
  have al: "allowed_run Apply allowed_op p ops" "allowed_op q op"
    using snoc.prems(2) allowed_run_append[OF q(1)] by simp_all
  let ?h = "h\<lparr>undoStack := us @ ops, redoStack := redoStack h @ [Invert op]\<rparr>"
  have "Undo h p' = Some (Done (?h, q))"
    using page_ops.undoes[OF al(2) q(2)] snoc.prems(3) by (simp add: Undo_def butlast_append)
  then show ?case using snoc.IH[OF q(1) al(1), of ?h] by simp
qed simp

subsection \<open>Properties\<close>

text \<open>Undo never fails on a history that matches its page. It steps back to the page
  before the last recorded operation, the history still matches, and Redo at that point
  restores both the page and the two stacks exactly.\<close>

theorem Undo_then_Redo:
  assumes "matches h p" and "undoStack h \<noteq> []"
  shows "\<exists>h' p'. Undo h p = Some (Done (h', p')) \<and> matches h' p' \<and>
    Apply p' (last (undoStack h)) = Some (Done p) \<and> Redo h' p' = Some (Done (h, p))"
  using Undo_matches[OF assms] by metis

definition sample_history :: History where
  "sample_history = \<lparr>undoStack = [sample_move], redoStack = [], maxDepth = 5\<rparr>"

lemma sample_move_allowed: "allowed_op sample_page sample_move"
proof -
  have "exact_tombstone sample_page sample_move" by code_simp
  then show ?thesis by (simp add: allowed_op_def sample_page_wf sample_page_list)
qed

lemma sample_history_matches: "matches sample_history moved_page"
  using sample_move_allowed sample_move_done
  by (auto simp: matches_def sample_history_def)

theorem Undo_then_Redo_witness:
  "\<exists>h' p'. Undo sample_history moved_page = Some (Done (h', p')) \<and> matches h' p' \<and>
    Redo h' p' = Some (Done (sample_history, moved_page))"
proof -
  have "undoStack sample_history \<noteq> []" by (simp add: sample_history_def)
  from Undo_then_Redo[OF sample_history_matches this] show ?thesis by blast
qed

text \<open>C0: editing keeps the history in step with the page, up to the depth limit: recording
  a successful operation keeps the stacks matching the new page, also when the oldest entry
  is evicted, drops the redo branch, and never holds more than \<open>maxDepth\<close> entries.\<close>

theorem Record_in_step:
  assumes "matches h p" and "bounded h" and "0 < maxDepth h"
    and "allowed_op p op" and "Apply p op = Some (Done p')"
  shows "matches (Record h op) p' \<and> bounded (Record h op) \<and> redoStack (Record h op) = [] \<and>
    last (undoStack (Record h op)) = op"
proof -
  have "last (undoStack (Record h op)) = op"
  proof (cases "undoStack h")
    case Nil
    then show ?thesis
      using Record_stack[OF assms(3), of op] assms(3) by simp
  next
    case (Cons a as)
    moreover have "int (length (undoStack h)) \<le> maxDepth h"
      using assms(2,3) by (simp add: bounded_def UndoDepth_def RedoDepth_def)
    ultimately show ?thesis using Record_stack[OF assms(3), of op] by simp
  qed
  then show ?thesis
    using Record_matches[OF assms] Record_bounded[OF assms(2)] assms(3)
    by (simp add: Record_def Let_def)
qed

theorem Record_in_step_witness:
  "matches (Record (NewHistory 1) sample_move) moved_page \<and> bounded (Record (NewHistory 1) sample_move)"
proof -
  have "0 < maxDepth (NewHistory 1)" by (simp add: NewHistory_def)
  from Record_in_step[OF matches_new this sample_move_allowed sample_move_done]
  show ?thesis by simp
qed

text \<open>C0: a session of at most \<open>maxDepth\<close> successful edits on a fresh history is undone by as
  many undos: they all succeed, give back the first page, and leave nothing to undo.\<close>

theorem edits_then_undos:
  assumes "edits (NewHistory n) p ops = Some (h, q)" and "int (length ops) \<le> n"
    and "allowed_run Apply allowed_op p ops"
  shows "\<exists>h'. undos (length ops) h q = Some (h', p) \<and> undoStack h' = []"
proof -
  have "undoStack h = [] @ ops \<and> run Apply p ops = Some q"
    using edits_stack[OF assms(1)] assms(2) by (simp add: NewHistory_def)
  then show ?thesis using undos_run[OF _ assms(3), of q h "[]"] by simp
qed

theorem edits_then_undos_witness:
  "\<exists>h'. undos 1 \<lparr>undoStack = [sample_move], redoStack = [], maxDepth = 3\<rparr> moved_page
     = Some (h', sample_page) \<and> undoStack h' = []"
proof -
  have "edits (NewHistory 3) sample_page [sample_move]
      = Some (\<lparr>undoStack = [sample_move], redoStack = [], maxDepth = 3\<rparr>, moved_page)"
    by (simp add: edit_def sample_move_done NewHistory_def Record_def Let_def)
  moreover have "allowed_run Apply allowed_op sample_page [sample_move]"
    by (simp add: sample_move_allowed sample_move_done)
  ultimately show ?thesis using edits_then_undos[of 3 sample_page "[sample_move]"] by simp
qed

text \<open>An Undo or Redo that fails leaves both stacks exactly as they were.\<close>

theorem failed_undo_keeps_stacks:
  assumes "Undo h p = Some (Failed e s) \<or> Redo h p = Some (Failed e s)"
  shows "fst s = h"
  using assms by (auto simp: Undo_def Redo_def Let_def split: option.splits outcome.splits if_splits)

theorem failed_undo_keeps_stacks_witness:
  "Undo sample_history (NewPage 9 ''notes'')
     = Some (Failed (BlockNotFoundError 3) (sample_history, NewPage 9 ''notes'')) \<and>
   fst (sample_history, NewPage 9 ''notes'') = sample_history"
proof -
  have "Undo sample_history (NewPage 9 ''notes'')
     = Some (Failed (BlockNotFoundError 3) (sample_history, NewPage 9 ''notes''))"
    by code_simp
  then show ?thesis using failed_undo_keeps_stacks by blast
qed

end
