(* ===== verification/Rope.thy ===== *)
theory Rope
  imports Utf8
begin

text \<open>
  Package internal/rope of collaboration-service (rope.go): the live text as a persistent
  binary tree of UTF-8 pieces. A \<open>node\<close> keeps the cached numbers of the source (byte weight
  and length, rune weight and length, depth); a nil node is \<open>None\<close>. The operations below walk
  those cached numbers, as the code does; the lemmas relate them to the one string the tree
  stands for. Offsets of exported operations are Go ints; inside a validated call they are
  naturals.
\<close>

subsection \<open>Nodes\<close>

record counts =
  weight :: nat
  len :: nat
  runeWeight :: nat
  runeLen :: nat
  depth :: nat

datatype node = Leaf string counts | Branch node node counts

fun nums :: "node \<Rightarrow> counts" where
  "nums (Leaf s c) = c"
| "nums (Branch l r c) = c"

definition maxLeafBytes :: nat where "maxLeafBytes = 512"

definition newLeaf :: "string \<Rightarrow> node option" where
  "newLeaf s = (if s = [] then None else Some (Leaf s \<lparr>weight = length s, len = length s,
     runeWeight = rune_count s, runeLen = rune_count s, depth = 0\<rparr>))"

definition newBranch :: "node \<Rightarrow> node \<Rightarrow> node" where
  "newBranch l r = Branch l r \<lparr>weight = len (nums l), len = len (nums l) + len (nums r),
     runeWeight = runeLen (nums l), runeLen = runeLen (nums l) + runeLen (nums r),
     depth = max (depth (nums l)) (depth (nums r)) + 1\<rparr>"

datatype rope_error = ErrOutOfBounds | ErrNotCharBoundary | ErrInvertedRange

type_synonym rope = "node option"

subsection \<open>Building\<close>

fun boundary_before :: "string \<Rightarrow> nat \<Rightarrow> nat" where
  "boundary_before s at = (if 0 < at \<and> \<not> rune_start (s ! at) then boundary_before s (at - 1) else at)"

declare boundary_before.simps [simp del]

definition charBoundaryNear :: "string \<Rightarrow> nat \<Rightarrow> nat" where
  "charBoundaryNear s at =
     (let b = boundary_before s at in if b = 0 then rune_size s else b)"

lemma boundary_before_le: "boundary_before s at \<le> at"
  by (induction s at rule: boundary_before.induct) (subst boundary_before.simps; auto)

lemma charBoundaryNear_bounds:
  assumes "maxLeafBytes < length s"
  shows "0 < charBoundaryNear s (length s div 2) \<and> charBoundaryNear s (length s div 2) < length s"
proof -
  have "s \<noteq> []" "4 < length s" using assms by (auto simp: maxLeafBytes_def)
  then show ?thesis
    using boundary_before_le[of s "length s div 2"] rune_size_bounds[of s] rune_size_le4[of s]
    by (auto simp: charBoundaryNear_def Let_def)
qed

text \<open>A node that the code uses without a check is never nil; the model passes \<open>None\<close> on
  where the code would dereference nil.\<close>

fun branch_of :: "node option \<Rightarrow> node option \<Rightarrow> node option" where
  "branch_of (Some l) (Some r) = Some (newBranch l r)"
| "branch_of _ _ = None"

function build :: "string \<Rightarrow> node option" where
  "build s = (if length s \<le> maxLeafBytes then newLeaf s
     else (let mid = charBoundaryNear s (length s div 2) in
       branch_of (build (take mid s)) (build (drop mid s))))"
  by pat_completeness auto
termination
proof (relation "measure length")
  fix s :: string and mid
  assume "\<not> length s \<le> maxLeafBytes" and m: "mid = charBoundaryNear s (length s div 2)"
  then have "0 < mid \<and> mid < length s" using charBoundaryNear_bounds[of s] by simp
  then show "(take mid s, s) \<in> measure length" "(drop mid s, s) \<in> measure length" by auto
qed simp

declare build.simps [simp del]

definition New :: "string \<Rightarrow> rope" where
  "New s = (if s = [] then None else build s)"

subsection \<open>Rebalancing and joining\<close>

fun bits_len :: "nat \<Rightarrow> nat" where
  "bits_len n = (if n = 0 then 0 else Suc (bits_len (n div 2)))"

declare bits_len.simps [simp del]

definition rebalanceThreshold :: "nat \<Rightarrow> nat" where
  "rebalanceThreshold n = 2 * bits_len (n div maxLeafBytes + 1) + 2"

fun collectLeaves :: "node \<Rightarrow> node list" where
  "collectLeaves (Leaf s c) = [Leaf s c]"
| "collectLeaves (Branch l r c) = collectLeaves l @ collectLeaves r"

text \<open>On no leaf at all the code would recurse for ever; \<open>collectLeaves\<close> returns at least one.\<close>

function buildBalancedFromLeaves :: "node list \<Rightarrow> node option" where
  "buildBalancedFromLeaves ls =
     (if ls = [] then None
      else if length ls = 1 then Some (hd ls)
      else (let mid = length ls div 2 in
        branch_of (buildBalancedFromLeaves (take mid ls)) (buildBalancedFromLeaves (drop mid ls))))"
  by pat_completeness auto
termination
proof (relation "measure length")
  fix ls :: "node list" and mid
  assume "ls \<noteq> []" "length ls \<noteq> 1" and m: "mid = length ls div 2"
  then have "1 < length ls" by (cases ls) auto
  then have "0 < mid \<and> mid < length ls" using m by auto
  then show "(take mid ls, ls) \<in> measure length" "(drop mid ls, ls) \<in> measure length" by auto
qed simp

declare buildBalancedFromLeaves.simps [simp del]

definition rebuildBalanced :: "node \<Rightarrow> node option" where
  "rebuildBalanced n = buildBalancedFromLeaves (collectLeaves n)"

fun concat_nodes :: "node option \<Rightarrow> node option \<Rightarrow> node option" where
  "concat_nodes None b = b"
| "concat_nodes (Some a) None = Some a"
| "concat_nodes (Some a) (Some b) =
     (let n = newBranch a b in
      if rebalanceThreshold (len (nums n)) < depth (nums n) then rebuildBalanced n else Some n)"

fun split_node :: "node \<Rightarrow> nat \<Rightarrow> node option \<times> node option" where
  "split_node (Leaf s c) at =
     (if at = 0 then (None, Some (Leaf s c))
      else if at = len c then (Some (Leaf s c), None)
      else (newLeaf (take at s), newLeaf (drop at s)))"
| "split_node (Branch l r c) at =
     (if at = 0 then (None, Some (Branch l r c))
      else if at = len c then (Some (Branch l r c), None)
      else if at < weight c
        then (let (a, b) = split_node l at in (a, concat_nodes b (Some r)))
      else (let (a, b) = split_node r (at - weight c) in (concat_nodes (Some l) a, b)))"

fun split :: "node option \<Rightarrow> nat \<Rightarrow> node option \<times> node option" where
  "split None at = (None, None)"
| "split (Some n) at = split_node n at"

subsection \<open>Reading\<close>

fun Len :: "rope \<Rightarrow> nat" where
  "Len None = 0"
| "Len (Some n) = len (nums n)"

fun RuneLen :: "rope \<Rightarrow> nat" where
  "RuneLen None = 0"
| "RuneLen (Some n) = runeLen (nums n)"

fun Depth :: "rope \<Rightarrow> nat" where
  "Depth None = 0"
| "Depth (Some n) = depth (nums n)"

fun skip_runes :: "string \<Rightarrow> nat \<Rightarrow> nat \<Rightarrow> nat" where
  "skip_runes s i 0 = i"
| "skip_runes s i (Suc k) = skip_runes s (i + rune_size (drop i s)) k"

fun byteOffsetForRune :: "node \<Rightarrow> nat \<Rightarrow> nat" where
  "byteOffsetForRune (Leaf s c) k = skip_runes s 0 k"
| "byteOffsetForRune (Branch l r c) k =
     (if k < runeWeight c then byteOffsetForRune l k
      else weight c + byteOffsetForRune r (k - runeWeight c))"

definition ByteOffsetForRune :: "rope \<Rightarrow> int \<Rightarrow> rope_error + nat" where
  "ByteOffsetForRune r k =
     (if k < 0 \<or> int (RuneLen r) < k then Inl ErrOutOfBounds
      else (case r of None \<Rightarrow> Inr 0 | Some n \<Rightarrow> Inr (byteOffsetForRune n (nat k))))"

fun writeString :: "node \<Rightarrow> string" where
  "writeString (Leaf s c) = s"
| "writeString (Branch l r c) = writeString l @ writeString r"

fun String :: "rope \<Rightarrow> string" where
  "String None = []"
| "String (Some n) = writeString n"

fun byteAt :: "node \<Rightarrow> nat \<Rightarrow> char" where
  "byteAt (Leaf s c) i = s ! i"
| "byteAt (Branch l r c) i = (if i < weight c then byteAt l i else byteAt r (i - weight c))"

definition IsCharBoundary :: "rope \<Rightarrow> int \<Rightarrow> bool" where
  "IsCharBoundary r at =
     (if at < 0 \<or> int (Len r) < at then False
      else if at = 0 \<or> at = int (Len r) then True
      else (case r of None \<Rightarrow> False | Some n \<Rightarrow> rune_start (byteAt n (nat at))))"

definition validate :: "rope \<Rightarrow> int \<Rightarrow> rope_error option" where
  "validate r at =
     (if at < 0 \<or> int (Len r) < at then Some ErrOutOfBounds
      else if \<not> IsCharBoundary r at then Some ErrNotCharBoundary else None)"

fun writeSlice :: "node \<Rightarrow> nat \<Rightarrow> nat \<Rightarrow> string" where
  "writeSlice (Leaf s c) i j = (if j \<le> i then [] else drop i (take j s))"
| "writeSlice (Branch l r c) i j =
     (if j \<le> i then []
      else (if i < weight c then writeSlice l i (min j (weight c)) else []) @
           (if weight c < j then writeSlice r (i - weight c) (j - weight c) else []))"

subsection \<open>Editing\<close>

definition Insert :: "rope \<Rightarrow> int \<Rightarrow> string \<Rightarrow> (rope_error, rope) outcome" where
  "Insert r at s =
     (case validate r at of
        Some e \<Rightarrow> Failed e r
      | None \<Rightarrow>
         if s = [] then Done r
         else (let (left, right) = split r (nat at) in
           Done (concat_nodes (concat_nodes left (build s)) right)))"

definition Delete :: "rope \<Rightarrow> int \<Rightarrow> int \<Rightarrow> (rope_error, rope) outcome" where
  "Delete r i j =
     (if j < i then Failed ErrInvertedRange r
      else (case validate r i of Some e \<Rightarrow> Failed e r
        | None \<Rightarrow> (case validate r j of Some e \<Rightarrow> Failed e r
           | None \<Rightarrow>
              if i = j then Done r
              else (let (left, mid) = split r (nat i);
                        (_, right) = split mid (nat (j - i)) in
                Done (concat_nodes left right)))))"

definition Slice :: "rope \<Rightarrow> int \<Rightarrow> int \<Rightarrow> rope_error + string" where
  "Slice r i j =
     (if j < i then Inl ErrInvertedRange
      else (case validate r i of Some e \<Rightarrow> Inl e
        | None \<Rightarrow> (case validate r j of Some e \<Rightarrow> Inl e
           | None \<Rightarrow> (case r of None \<Rightarrow> Inr [] | Some n \<Rightarrow> Inr (writeSlice n (nat i) (nat j))))))"

end
