(* ===== verification/ByteText.thy ===== *)
theory ByteText
  imports Utf8
begin

text \<open>
  The interface between the live text and the structure that stores it: a store of UTF-8
  bytes that is edited at byte offsets and can translate a rune offset into a byte offset.
  The laws are what \<open>internal/doctext\<close> relies on; the lemmas derive editing at rune offsets,
  which is what it offers.
\<close>

locale byte_text =
  fixes content :: "'r \<Rightarrow> string"
    and ok :: "'r \<Rightarrow> bool"
    and insert_at :: "'r \<Rightarrow> int \<Rightarrow> string \<Rightarrow> ('e, 'r) outcome"
    and delete_at :: "'r \<Rightarrow> int \<Rightarrow> int \<Rightarrow> ('e, 'r) outcome"
    and slice_at :: "'r \<Rightarrow> int \<Rightarrow> int \<Rightarrow> 'e + string"
    and offset_of :: "'r \<Rightarrow> int \<Rightarrow> 'e + nat"
  assumes content_valid: "ok r \<Longrightarrow> valid_utf8 (content r)"
    and insert_law: "ok r \<Longrightarrow> valid_utf8 s \<Longrightarrow> i \<le> length (content r) \<Longrightarrow> starts_rune (drop i (content r))
      \<Longrightarrow> \<exists>r'. insert_at r (int i) s = Done r' \<and> ok r' \<and>
            content r' = take i (content r) @ s @ drop i (content r)"
    and delete_law: "ok r \<Longrightarrow> i \<le> j \<Longrightarrow> j \<le> length (content r) \<Longrightarrow> starts_rune (drop i (content r))
      \<Longrightarrow> starts_rune (drop j (content r)) \<Longrightarrow> \<exists>r'. delete_at r (int i) (int j) = Done r' \<and> ok r' \<and>
            content r' = take i (content r) @ drop j (content r)"
    and slice_law: "ok r \<Longrightarrow> i \<le> j \<Longrightarrow> j \<le> length (content r) \<Longrightarrow> starts_rune (drop i (content r))
      \<Longrightarrow> starts_rune (drop j (content r))
      \<Longrightarrow> slice_at r (int i) (int j) = Inr (drop i (take j (content r)))"
    and offset_law: "ok r \<Longrightarrow> k \<le> rune_count (content r)
      \<Longrightarrow> offset_of r (int k) = Inr (rune_bytes k (content r))"
begin

lemma split_facts:
  assumes "ok r" and "content r = A @ B" and "valid_utf8 B"
  shows "offset_of r (int (rune_count A)) = Inr (length A)"
    and "starts_rune (drop (length A) (content r))"
proof -
  have st: "starts_rune B" using assms(3) by (rule valid_utf8_starts)
  then show "starts_rune (drop (length A) (content r))" using assms(2) by simp
  have "rune_count A \<le> rune_count (content r)" using assms(2) st by (simp add: rune_count_append)
  then show "offset_of r (int (rune_count A)) = Inr (length A)"
    using offset_law[OF assms(1)] rune_bytes_append[OF st, of "rune_count A" A] rune_bytes_all assms(2)
    by simp
qed

text \<open>Every rune offset cuts the content into two valid strings.\<close>

lemma rune_split:
  assumes "ok r" and "k \<le> rune_count (content r)"
  obtains A B where "content r = A @ B" "rune_count A = k" "valid_utf8 A" "valid_utf8 B"
proof -
  let ?b = "rune_bytes k (content r)"
  have v: "valid_utf8 (content r)" using content_valid assms(1) .
  have "rune_count (take ?b (content r)) = k"
    using runes_take_bytes[OF v assms(2)] assms(2) by (simp add: rune_count_def)
  then show ?thesis
    using that[of "take ?b (content r)" "drop ?b (content r)"] valid_take_runes[OF v] valid_drop_runes[OF v]
    by simp
qed

lemma insert_split:
  assumes "ok r" and "content r = A @ B" and "valid_utf8 B" and "valid_utf8 s"
  obtains r' where "insert_at r (int (length A)) s = Done r'" "ok r'" "content r' = A @ s @ B"
  using insert_law[OF assms(1,4), of "length A"] split_facts(2)[OF assms(1-3)] assms(2) by auto

lemma delete_split:
  assumes "ok r" and "content r = A @ M @ B" and "valid_utf8 M" and "valid_utf8 B"
  obtains r' where "delete_at r (int (length A)) (int (length A + length M)) = Done r'" "ok r'"
    "content r' = A @ B"
proof -
  have "starts_rune (drop (length A) (content r))" "starts_rune (drop (length A + length M) (content r))"
    using assms(2) valid_utf8_append[OF assms(3,4)] assms(4) by (auto simp: valid_utf8_starts)
  then show ?thesis
    using delete_law[OF assms(1), of "length A" "length A + length M"] assms(2) that by auto
qed

lemma slice_split:
  assumes "ok r" and "content r = A @ M @ B" and "valid_utf8 M" and "valid_utf8 B"
  shows "slice_at r (int (length A)) (int (length A + length M)) = Inr M"
proof -
  have "starts_rune (drop (length A) (content r))" "starts_rune (drop (length A + length M) (content r))"
    using assms(2) valid_utf8_append[OF assms(3,4)] assms(4) by (auto simp: valid_utf8_starts)
  then show ?thesis
    using slice_law[OF assms(1), of "length A" "length A + length M"] assms(2) by simp
qed

end

end
