(* ===== verification/RopeLaws.thy ===== *)
theory RopeLaws
  imports Rope ByteText
begin

text \<open>
  What the rope promises: the cached numbers agree with the text, every operation acts on the
  text as the operation on one flat string would, and the tree is rebuilt when it gets deeper
  than the number of its leaves justifies. \<open>rope_store\<close> interprets the byte-text interface on
  the rope.
\<close>

subsection \<open>The invariant\<close>

fun ok_node :: "node \<Rightarrow> bool" where
  "ok_node (Leaf s c) = (s \<noteq> [] \<and> valid_utf8 s \<and> newLeaf s = Some (Leaf s c))"
| "ok_node (Branch l r c) = (ok_node l \<and> ok_node r \<and> newBranch l r = Branch l r c)"

fun ok_rope :: "rope \<Rightarrow> bool" where
  "ok_rope None = True"
| "ok_rope (Some n) = ok_node n"

lemma ok_node_valid: "ok_node n \<Longrightarrow> valid_utf8 (writeString n) \<and> writeString n \<noteq> []"
  by (induction n) (auto simp: valid_utf8_append)

lemma ok_node_nums:
  "ok_node n \<Longrightarrow> len (nums n) = length (writeString n) \<and> runeLen (nums n) = rune_count (writeString n)"
proof (induction n)
  case (Branch l r c)
  then have "starts_rune (writeString r)" by (auto simp: ok_node_valid valid_utf8_starts)
  then show ?case using Branch by (auto simp: newBranch_def rune_count_append)
qed (auto simp: newLeaf_def)

lemma ok_branch:
  assumes "ok_node (Branch l r c)"
  shows "weight c = length (writeString l)" "runeWeight c = rune_count (writeString l)"
    "len c = length (writeString l) + length (writeString r)"
  using assms ok_node_nums[of l] ok_node_nums[of r] by (auto simp: newBranch_def)

lemma ok_newBranch: "ok_node l \<Longrightarrow> ok_node r \<Longrightarrow> ok_node (newBranch l r)"
  by (simp add: newBranch_def)

lemma writeString_newBranch [simp]: "writeString (newBranch l r) = writeString l @ writeString r"
  by (simp add: newBranch_def)

lemma newLeaf_ok:
  "valid_utf8 s \<Longrightarrow> ok_rope (newLeaf s) \<and> String (newLeaf s) = s"
  by (simp add: newLeaf_def)

lemma ok_rope_facts:
  assumes "ok_rope r"
  shows "valid_utf8 (String r)" "Len r = length (String r)" "RuneLen r = rune_count (String r)"
  using assms ok_node_valid ok_node_nums by (cases r; auto)+

subsection \<open>Building and joining\<close>

lemma boundary_before_starts:
  "at < length s \<Longrightarrow> 0 < boundary_before s at \<Longrightarrow> starts_rune (drop (boundary_before s at) s)"
proof (induction s at rule: boundary_before.induct)
  case (1 s at)
  show ?case
  proof (cases "0 < at \<and> \<not> rune_start (s ! at)")
    case True
    then have "boundary_before s at = boundary_before s (at - 1)"
      by (subst boundary_before.simps) simp
    then show ?thesis using 1(1)[OF True] 1(2,3) by simp
  next
    case False
    then have "boundary_before s at = at" by (subst boundary_before.simps) auto
    then show ?thesis using False 1(2,3) by (simp add: starts_rune_def hd_drop_conv_nth)
  qed
qed

lemma charBoundaryNear_starts:
  assumes "valid_utf8 s" and "at < length s"
  shows "starts_rune (drop (charBoundaryNear s at) s)"
proof (cases "boundary_before s at = 0")
  case True
  then show ?thesis
    using rune_bytes_starts[OF assms(1), of 1] by (simp add: charBoundaryNear_def)
next
  case False
  then show ?thesis
    using boundary_before_starts[OF assms(2)] by (simp add: charBoundaryNear_def Let_def)
qed

lemma branch_of_ok:
  assumes "ok_rope a" "ok_rope b" "a \<noteq> None" "b \<noteq> None"
  shows "branch_of a b \<noteq> None \<and> ok_rope (branch_of a b) \<and> String (branch_of a b) = String a @ String b"
  using assms by (cases a; cases b) (auto simp: ok_newBranch)

lemma build_ok:
  "valid_utf8 s \<Longrightarrow> ok_rope (build s) \<and> String (build s) = s \<and> (build s = None \<longleftrightarrow> s = [])"
proof (induction s rule: build.induct)
  case (1 s)
  show ?case
  proof (cases "length s \<le> maxLeafBytes")
    case True
    then have "build s = newLeaf s" by (subst build.simps) simp
    then show ?thesis using newLeaf_ok[OF 1(3)] by (simp add: newLeaf_def)
  next
    case False
    let ?m = "charBoundaryNear s (length s div 2)"
    have m: "0 < ?m" "?m < length s" using charBoundaryNear_bounds False by simp_all
    have ne: "s \<noteq> []" using m by auto
    have v: "valid_utf8 (take ?m s)" "valid_utf8 (drop ?m s)"
      using valid_split[OF 1(3), of ?m] charBoundaryNear_starts[OF 1(3), of "length s div 2"] m ne
      by auto
    have a: "ok_rope (build (take ?m s)) \<and> String (build (take ?m s)) = take ?m s \<and> build (take ?m s) \<noteq> None"
      using 1(1)[OF False refl v(1)] m ne by simp
    have b: "ok_rope (build (drop ?m s)) \<and> String (build (drop ?m s)) = drop ?m s \<and> build (drop ?m s) \<noteq> None"
      using 1(2)[OF False refl v(2)] m by simp
    have "build s = branch_of (build (take ?m s)) (build (drop ?m s))"
      using False by (subst build.simps) (simp add: Let_def)
    then show ?thesis
      using branch_of_ok[of "build (take ?m s)" "build (drop ?m s)"] a b ne by simp
  qed
qed

lemma collectLeaves_ok:
  "ok_node n \<Longrightarrow> collectLeaves n \<noteq> [] \<and> (\<forall>l\<in>set (collectLeaves n). ok_node l \<and> depth (nums l) = 0)
    \<and> List.concat (map writeString (collectLeaves n)) = writeString n"
proof (induction n)
  case (Leaf s c)
  then have "depth c = 0" by (auto simp: newLeaf_def)
  then show ?case using Leaf by simp
next
  case (Branch l r c)
  have "ok_node l" "ok_node r" using Branch.prems by simp_all
  then show ?case using Branch.IH by auto
qed

lemma buildBalanced_ok:
  "ls \<noteq> [] \<Longrightarrow> \<forall>l\<in>set ls. ok_node l \<Longrightarrow>
   buildBalancedFromLeaves ls \<noteq> None \<and> ok_rope (buildBalancedFromLeaves ls) \<and>
   String (buildBalancedFromLeaves ls) = List.concat (map writeString ls)"
proof (induction ls rule: buildBalancedFromLeaves.induct)
  case (1 ls)
  show ?case
  proof (cases "length ls = 1")
    case True
    then obtain l where l: "ls = [l]" by (cases ls) auto
    have "buildBalancedFromLeaves ls = Some l"
      using l by (subst buildBalancedFromLeaves.simps) simp
    then show ?thesis using 1(4) l by simp
  next
    case False
    let ?m = "length ls div 2"
    have len: "1 < length ls" using False 1(3) by (cases ls) auto
    have ne: "take ?m ls \<noteq> []" "drop ?m ls \<noteq> []" using len by auto
    have sub: "\<forall>l\<in>set (take ?m ls). ok_node l" "\<forall>l\<in>set (drop ?m ls). ok_node l"
      using 1(4) by (auto dest: in_set_takeD in_set_dropD)
    note a = 1(1)[OF 1(3) False refl ne(1) sub(1)] and b = 1(2)[OF 1(3) False refl ne(2) sub(2)]
    have "buildBalancedFromLeaves ls =
        branch_of (buildBalancedFromLeaves (take ?m ls)) (buildBalancedFromLeaves (drop ?m ls))"
      using 1(3) False by (subst buildBalancedFromLeaves.simps) (simp add: Let_def)
    moreover have "List.concat (map writeString ls) =
        List.concat (map writeString (take ?m ls)) @ List.concat (map writeString (drop ?m ls))"
      by (metis append_take_drop_id concat_append map_append)
    ultimately show ?thesis using branch_of_ok a b by simp
  qed
qed

lemma rebuildBalanced_ok:
  "ok_node n \<Longrightarrow> rebuildBalanced n \<noteq> None \<and> ok_rope (rebuildBalanced n) \<and>
    String (rebuildBalanced n) = writeString n"
  using buildBalanced_ok[of "collectLeaves n"] collectLeaves_ok[of n]
  by (simp add: rebuildBalanced_def)

lemma concat_nodes_ok:
  assumes "ok_rope a" and "ok_rope b"
  shows "ok_rope (concat_nodes a b) \<and> String (concat_nodes a b) = String a @ String b"
proof (cases "a = None \<or> b = None")
  case False
  then obtain x y where xy: "a = Some x" "b = Some y" by auto
  then have "ok_node (newBranch x y)" using assms ok_newBranch by simp
  then show ?thesis using rebuildBalanced_ok[of "newBranch x y"] xy by (simp add: Let_def)
qed (use assms in \<open>cases a; auto\<close>)

lemma split_node_ok:
  assumes "ok_node n" and "at \<le> length (writeString n)" and "starts_rune (drop at (writeString n))"
    and "split_node n at = (a, b)"
  shows "ok_rope a \<and> ok_rope b \<and> String a = take at (writeString n) \<and> String b = drop at (writeString n)"
  using assms
proof (induction n arbitrary: at a b)
  case (Leaf s c)
  then have "valid_utf8 (take at s)" "valid_utf8 (drop at s)" "len c = length s"
    using valid_split[of s at] by (auto simp: newLeaf_def)
  then show ?case
    using Leaf newLeaf_ok by (auto split: if_splits)
next
  case (Branch l r c)
  note c = ok_branch[OF Branch.prems(1)]
  have ok: "ok_node l" "ok_node r" using Branch.prems(1) by simp_all
  consider (zero) "at = 0" | (all) "at = len c" "at \<noteq> 0" | (left) "at < weight c" "at \<noteq> 0" "at \<noteq> len c"
    | (right) "\<not> at < weight c" "at \<noteq> 0" "at \<noteq> len c" by blast
  then show ?case
  proof cases
    case zero
    then show ?thesis using Branch.prems by auto
  next
    case all
    then show ?thesis using Branch.prems c by auto
  next
    case left
    obtain x y where xy: "split_node l at = (x, y)" by fastforce
    have dr: "drop at (writeString l) \<noteq> []" using left(1) c(1) by simp
    have "starts_rune (drop at (writeString l))"
      using Branch.prems(3) left(1) c(1) starts_rune_append[OF dr] by simp
    then have ih: "ok_rope x \<and> ok_rope y \<and> String x = take at (writeString l) \<and> String y = drop at (writeString l)"
      using Branch.IH(1)[OF ok(1) _ _ xy] left(1) c(1) by simp
    have "a = x" "b = concat_nodes y (Some r)" using Branch.prems(4) left xy by auto
    then show ?thesis using ih concat_nodes_ok[of y "Some r"] ok left(1) c(1) by simp
  next
    case right
    let ?k = "at - weight c"
    obtain x y where xy: "split_node r ?k = (x, y)" by fastforce
    have "starts_rune (drop ?k (writeString r))" "?k \<le> length (writeString r)"
      using Branch.prems(2,3) right(1) c(1) by auto
    then have ih: "ok_rope x \<and> ok_rope y \<and> String x = take ?k (writeString r) \<and> String y = drop ?k (writeString r)"
      using Branch.IH(2)[OF ok(2) _ _ xy] by simp
    have "a = concat_nodes (Some l) x" "b = y" using Branch.prems(4) right xy by auto
    then show ?thesis using ih concat_nodes_ok[of "Some l" x] ok right(1) c(1) by simp
  qed
qed

lemma split_ok:
  assumes "ok_rope r" and "at \<le> length (String r)" and "starts_rune (drop at (String r))"
    and "split r at = (a, b)"
  shows "ok_rope a \<and> ok_rope b \<and> String a = take at (String r) \<and> String b = drop at (String r)"
  using assms split_node_ok by (cases r) auto

subsection \<open>Reading\<close>

lemma byteAt_ok: "ok_node n \<Longrightarrow> i < length (writeString n) \<Longrightarrow> byteAt n i = writeString n ! i"
proof (induction n arbitrary: i)
  case (Branch l r c)
  note c = ok_branch[OF Branch.prems(1)]
  show ?case
    using Branch.prems Branch.IH c by (cases "i < weight c") (auto simp: nth_append)
qed simp

lemma skip_runes_bytes: "i \<le> length s \<Longrightarrow> skip_runes s i k = i + rune_bytes k (drop i s)"
proof (induction k arbitrary: i)
  case (Suc k)
  have le: "i + rune_size (drop i s) \<le> length s"
    using rune_size_le[of "drop i s"] Suc.prems by (simp only: length_drop)
  have "drop (rune_size (drop i s)) (drop i s) = drop (i + rune_size (drop i s)) s"
    by (simp add: add.commute)
  then show ?case using Suc.IH[OF le] by simp
qed simp

lemma byteOffsetForRune_ok:
  "ok_node n \<Longrightarrow> k \<le> rune_count (writeString n) \<Longrightarrow> byteOffsetForRune n k = rune_bytes k (writeString n)"
proof (induction n arbitrary: k)
  case (Leaf s c)
  then show ?case using skip_runes_bytes[of 0 s k] by simp
next
  case (Branch l r c)
  note c = ok_branch[OF Branch.prems(1)]
  have ok: "ok_node l" "ok_node r" using Branch.prems(1) by simp_all
  have st: "starts_rune (writeString r)" using ok_node_valid[OF ok(2)] valid_utf8_starts by blast
  note ap = rune_bytes_append[OF st, of k "writeString l"] rune_count_append[OF st, of "writeString l"]
  show ?case
  proof (cases "k < runeWeight c")
    case True
    then show ?thesis using Branch.IH(1)[OF ok(1)] c ap by simp
  next
    case False
    then have "byteOffsetForRune r (k - rune_count (writeString l))
        = rune_bytes (k - rune_count (writeString l)) (writeString r)"
      using Branch.IH(2)[OF ok(2)] Branch.prems(2) c ap(2) by simp
    then show ?thesis
      using False c ap rune_bytes_all[of "writeString l"]
      by (cases "k = rune_count (writeString l)") auto
  qed
qed

lemma writeSlice_ok:
  "ok_node n \<Longrightarrow> j \<le> length (writeString n) \<Longrightarrow> writeSlice n i j = drop i (take j (writeString n))"
proof (induction n arbitrary: i j)
  case (Branch l r c)
  note c = ok_branch[OF Branch.prems(1)]
  have ok: "ok_node l" "ok_node r" using Branch.prems(1) by simp_all
  show ?case
  proof (cases "i < j")
    case True
    have "writeSlice l i (min j (weight c)) = drop i (take (min j (weight c)) (writeString l))"
      using Branch.IH(1)[OF ok(1)] c by simp
    moreover have "writeSlice r (i - weight c) (j - weight c)
        = drop (i - weight c) (take (j - weight c) (writeString r))"
      using Branch.IH(2)[OF ok(2)] Branch.prems(2) c by simp
    ultimately show ?thesis using True unfolding c(1)
      by (cases "j \<le> length (writeString l)") (simp_all add: min_def c(1))
  qed simp
qed simp

lemma IsCharBoundary_ok:
  assumes "ok_rope r"
  shows "IsCharBoundary r at \<longleftrightarrow> 0 \<le> at \<and> at \<le> int (length (String r)) \<and> starts_rune (drop (nat at) (String r))"
proof -
  note f = ok_rope_facts[OF assms]
  consider (out) "at < 0 \<or> int (length (String r)) < at" | (end0) "at = 0" | (end1) "at = int (length (String r))"
    | (mid) "0 < at" "at < int (length (String r))" by linarith
  then show ?thesis
  proof cases
    case mid
    then obtain n where n: "r = Some n" by (cases r) auto
    have i: "nat at < length (String r)" using mid by linarith
    then have "byteAt n (nat at) = String r ! nat at"
      using byteAt_ok[of n "nat at"] assms n by simp
    moreover have "starts_rune (drop (nat at) (String r)) \<longleftrightarrow> rune_start (String r ! nat at)"
      using i by (auto simp: starts_rune_def hd_drop_conv_nth)
    ultimately show ?thesis using mid f(2) n by (simp add: IsCharBoundary_def)
  qed (use f valid_utf8_starts in \<open>auto simp: IsCharBoundary_def\<close>)
qed

lemma validate_ok:
  assumes "ok_rope r"
  shows "validate r at =
    (if at < 0 \<or> int (length (String r)) < at then Some ErrOutOfBounds
     else if starts_rune (drop (nat at) (String r)) then None else Some ErrNotCharBoundary)"
  using IsCharBoundary_ok[OF assms] ok_rope_facts(2)[OF assms] by (auto simp: validate_def)

subsection \<open>Editing\<close>

definition insert_spec :: "string \<Rightarrow> int \<Rightarrow> string \<Rightarrow> rope_error + string" where
  "insert_spec t at s =
     (if at < 0 \<or> int (length t) < at then Inl ErrOutOfBounds
      else if \<not> starts_rune (drop (nat at) t) then Inl ErrNotCharBoundary
      else Inr (take (nat at) t @ s @ drop (nat at) t))"

definition range_spec :: "string \<Rightarrow> int \<Rightarrow> int \<Rightarrow> rope_error option" where
  "range_spec t i j =
     (if j < i then Some ErrInvertedRange
      else if i < 0 \<or> int (length t) < i then Some ErrOutOfBounds
      else if \<not> starts_rune (drop (nat i) t) then Some ErrNotCharBoundary
      else if int (length t) < j then Some ErrOutOfBounds
      else if \<not> starts_rune (drop (nat j) t) then Some ErrNotCharBoundary else None)"

fun text_result :: "(rope_error, rope) outcome \<Rightarrow> rope_error + string" where
  "text_result (Done r) = Inr (String r)"
| "text_result (Failed e r) = Inl e"

lemma Insert_refines:
  assumes "ok_rope r" and "valid_utf8 s"
  shows "text_result (Insert r at s) = insert_spec (String r) at s \<and> ok_rope (state_of (Insert r at s))
    \<and> (error_of (Insert r at s) \<noteq> None \<longrightarrow> state_of (Insert r at s) = r)"
proof (cases "validate r at")
  case (Some e)
  then show ?thesis
    using assms(1) validate_ok[OF assms(1), of at] by (auto simp: Insert_def insert_spec_def split: if_splits)
next
  case None
  then have at: "0 \<le> at" "at \<le> int (length (String r))" "starts_rune (drop (nat at) (String r))"
    using validate_ok[OF assms(1), of at] by (auto split: if_splits)
  obtain a b where ab: "split r (nat at) = (a, b)" by fastforce
  then have sp: "ok_rope a \<and> ok_rope b \<and> String a = take (nat at) (String r) \<and> String b = drop (nat at) (String r)"
    using split_ok[OF assms(1) _ at(3) ab] at(2) by simp
  have "ok_rope (concat_nodes (concat_nodes a (build s)) b) \<and>
      String (concat_nodes (concat_nodes a (build s)) b) = String a @ s @ String b"
    using concat_nodes_ok sp build_ok[OF assms(2)] by simp
  then show ?thesis
    using None at ab sp assms(1) by (auto simp: Insert_def insert_spec_def)
qed

lemma Delete_refines:
  assumes "ok_rope r"
  shows "text_result (Delete r i j) = (case range_spec (String r) i j of Some e \<Rightarrow> Inl e
      | None \<Rightarrow> Inr (take (nat i) (String r) @ drop (nat j) (String r)))
    \<and> ok_rope (state_of (Delete r i j))
    \<and> (error_of (Delete r i j) \<noteq> None \<longrightarrow> state_of (Delete r i j) = r)"
proof (cases "range_spec (String r) i j")
  case (Some e)
  then have "Delete r i j = Failed e r"
    using validate_ok[OF assms] by (auto simp: Delete_def range_spec_def split: if_splits)
  then show ?thesis using Some assms by simp
next
  case None
  then have b: "0 \<le> i" "i \<le> j" "j \<le> int (length (String r))" "starts_rune (drop (nat i) (String r))"
      "starts_rune (drop (nat j) (String r))"
    by (auto simp: range_spec_def split: if_splits)
  then have v: "validate r i = None" "validate r j = None" using validate_ok[OF assms] by auto
  obtain a m where am: "split r (nat i) = (a, m)" by fastforce
  obtain x c where xc: "split m (nat (j - i)) = (x, c)" by fastforce
  have s1: "ok_rope a \<and> ok_rope m \<and> String a = take (nat i) (String r) \<and> String m = drop (nat i) (String r)"
    using split_ok[OF assms _ b(4) am] b by simp
  have "drop (nat (j - i)) (drop (nat i) (String r)) = drop (nat j) (String r)"
    using b by (simp add: nat_diff_distrib)
  then have s2: "ok_rope c \<and> String c = drop (nat j) (String r)"
    using split_ok[of m "nat (j - i)" x c] s1 b xc by (auto simp: nat_diff_distrib)
  have "i \<noteq> j \<Longrightarrow> Delete r i j = Done (concat_nodes a c)"
    using v b am xc by (simp add: Delete_def)
  moreover have "i = j \<Longrightarrow> Delete r i j = Done r" using v by (simp add: Delete_def)
  ultimately show ?thesis
    using concat_nodes_ok[of a c] s1 s2 None assms by (cases "i = j") auto
qed

lemma Slice_refines:
  assumes "ok_rope r"
  shows "Slice r i j = (case range_spec (String r) i j of Some e \<Rightarrow> Inl e
      | None \<Rightarrow> Inr (drop (nat i) (take (nat j) (String r))))"
proof (cases "range_spec (String r) i j")
  case (Some e)
  then show ?thesis
    using validate_ok[OF assms] by (auto simp: Slice_def range_spec_def split: if_splits)
next
  case None
  then have v: "validate r i = None" "validate r j = None" "\<not> j < i"
    using validate_ok[OF assms] by (auto simp: range_spec_def split: if_splits)
  have "nat j \<le> length (String r)" using None by (auto simp: range_spec_def split: if_splits)
  then show ?thesis
    using v None writeSlice_ok[of "the r" "nat j" "nat i"] assms by (cases r) (auto simp: Slice_def)
qed

lemma ByteOffsetForRune_refines:
  assumes "ok_rope r"
  shows "ByteOffsetForRune r k = (if k < 0 \<or> int (rune_count (String r)) < k then Inl ErrOutOfBounds
     else Inr (rune_bytes (nat k) (String r)))"
  using assms ok_rope_facts(3)[OF assms] byteOffsetForRune_ok[of "the r" "nat k"]
  by (cases r) (auto simp: ByteOffsetForRune_def)

interpretation rope_store: byte_text String ok_rope Insert Delete Slice ByteOffsetForRune
proof unfold_locales
  fix r s i
  assume a: "ok_rope r" "valid_utf8 s" "i \<le> length (String r)" "starts_rune (drop i (String r))"
  then have "text_result (Insert r (int i) s) = Inr (take i (String r) @ s @ drop i (String r))"
    using Insert_refines[OF a(1,2), of "int i"] by (simp add: insert_spec_def)
  then show "\<exists>r'. Insert r (int i) s = Done r' \<and> ok_rope r' \<and>
      String r' = take i (String r) @ s @ drop i (String r)"
    using Insert_refines[OF a(1,2), of "int i"] by (cases "Insert r (int i) s") auto
next
  fix r i j
  assume a: "ok_rope r" "i \<le> j" "j \<le> length (String r)" "starts_rune (drop i (String r))"
    "starts_rune (drop j (String r))"
  then have rs: "range_spec (String r) (int i) (int j) = None" by (simp add: range_spec_def)
  then show "Slice r (int i) (int j) = Inr (drop i (take j (String r)))"
    using Slice_refines[OF a(1), of "int i" "int j"] by simp
  have "text_result (Delete r (int i) (int j)) = Inr (take i (String r) @ drop j (String r))"
    using Delete_refines[OF a(1), of "int i" "int j"] rs by simp
  then show "\<exists>r'. Delete r (int i) (int j) = Done r' \<and> ok_rope r' \<and>
      String r' = take i (String r) @ drop j (String r)"
    using Delete_refines[OF a(1), of "int i" "int j"] by (cases "Delete r (int i) (int j)") auto
qed (use ok_rope_facts ByteOffsetForRune_refines in auto)

subsection \<open>Depth\<close>

fun leaf_count :: "node \<Rightarrow> nat" where
  "leaf_count (Leaf s c) = 1"
| "leaf_count (Branch l r c) = leaf_count l + leaf_count r"

lemma leaf_count_collect: "leaf_count n = length (collectLeaves n)"
  by (induction n) auto

lemma leaf_count_pos: "0 < leaf_count n"
  by (induction n) auto

lemma leaf_count_depth: "ok_node n \<Longrightarrow> leaf_count n \<le> 2 ^ depth (nums n)"
proof (induction n)
  case (Branch l r c)
  have ok: "ok_node l" "ok_node r" using Branch.prems by simp_all
  have "depth c = max (depth (nums l)) (depth (nums r)) + 1"
    using Branch.prems by (auto simp: newBranch_def)
  moreover have "(2::nat) ^ depth (nums l) \<le> 2 ^ max (depth (nums l)) (depth (nums r))"
    "(2::nat) ^ depth (nums r) \<le> 2 ^ max (depth (nums l)) (depth (nums r))"
    by (simp_all add: power_increasing)
  ultimately have "leaf_count l + leaf_count r \<le> 2 * 2 ^ max (depth (nums l)) (depth (nums r))"
    using Branch.IH(1)[OF ok(1)] Branch.IH(2)[OF ok(2)] by linarith
  then show ?case using \<open>depth c = _\<close> by simp
qed simp

lemma bits_len_0 [simp]: "bits_len 0 = 0"
  by (subst bits_len.simps) simp

lemma bits_len_pos: "0 < n \<Longrightarrow> bits_len n = Suc (bits_len (n div 2))"
  by (subst bits_len.simps) simp

lemma bits_len_mono: "m \<le> n \<Longrightarrow> bits_len m \<le> bits_len n"
proof (induction n arbitrary: m rule: less_induct)
  case (less n)
  show ?case
  proof (cases "m = 0")
    case False
    then show ?thesis
      using less.IH[of "n div 2" "m div 2"] less.prems by (simp add: bits_len_pos div_le_mono)
  qed simp
qed

lemma buildBalanced_depth:
  "ls \<noteq> [] \<Longrightarrow> \<forall>l\<in>set ls. ok_node l \<and> depth (nums l) = 0 \<Longrightarrow>
   Depth (buildBalancedFromLeaves ls) \<le> bits_len (length ls - 1)"
proof (induction ls rule: buildBalancedFromLeaves.induct)
  case (1 ls)
  show ?case
  proof (cases "length ls = 1")
    case True
    then obtain l where l: "ls = [l]" by (cases ls) auto
    then have "buildBalancedFromLeaves ls = Some l"
      by (subst buildBalancedFromLeaves.simps) simp
    then show ?thesis using 1(4) l by simp
  next
    case False
    let ?m = "length ls div 2"
    have len: "1 < length ls" using False 1(3) by (cases ls) auto
    have ne: "take ?m ls \<noteq> []" "drop ?m ls \<noteq> []" using len by auto
    have sub: "\<forall>l\<in>set (take ?m ls). ok_node l \<and> depth (nums l) = 0"
        "\<forall>l\<in>set (drop ?m ls). ok_node l \<and> depth (nums l) = 0"
      using 1(4) by (auto dest: in_set_takeD in_set_dropD)
    obtain a b where ab: "buildBalancedFromLeaves (take ?m ls) = Some a"
        "buildBalancedFromLeaves (drop ?m ls) = Some b"
      using buildBalanced_ok[OF ne(1)] buildBalanced_ok[OF ne(2)] sub by blast
    have "buildBalancedFromLeaves ls = Some (newBranch a b)"
      using 1(3) False ab by (subst buildBalancedFromLeaves.simps) (simp add: Let_def)
    moreover have "depth (nums a) \<le> bits_len ((length ls - 1) div 2)"
    proof -
      have "?m - 1 \<le> (length ls - 1) div 2" by presburger
      then show ?thesis
        using 1(1)[OF 1(3) False refl ne(1) sub(1)] ab(1) len
          bits_len_mono[of "?m - 1" "(length ls - 1) div 2"] by simp
    qed
    moreover have "depth (nums b) \<le> bits_len ((length ls - 1) div 2)"
    proof -
      have "length ls - ?m - 1 = (length ls - 1) div 2" by presburger
      then show ?thesis using 1(2)[OF 1(3) False refl ne(2) sub(2)] ab(2) by simp
    qed
    ultimately show ?thesis
      using bits_len_pos[of "length ls - 1"] len by (simp add: newBranch_def)
  qed
qed

lemma concat_depth:
  assumes "ok_node a" and "ok_node b"
  shows "Depth (concat_nodes (Some a) (Some b)) \<le>
    max (rebalanceThreshold (len (nums a) + len (nums b))) (bits_len (leaf_count a + leaf_count b - 1))"
proof -
  let ?n = "newBranch a b"
  have ok: "ok_node ?n" using assms by (simp add: newBranch_def)
  have "Depth (rebuildBalanced ?n) \<le> bits_len (leaf_count ?n - 1)"
    using buildBalanced_depth[of "collectLeaves ?n"] collectLeaves_ok[OF ok]
    by (simp add: rebuildBalanced_def leaf_count_collect)
  then show ?thesis by (auto simp: Let_def newBranch_def)
qed

lemma crowded_rebuilds:
  assumes "ok_node a" and "ok_node b"
    and "2 ^ rebalanceThreshold (len (nums a) + len (nums b)) < leaf_count a + leaf_count b"
  shows "concat_nodes (Some a) (Some b) = rebuildBalanced (newBranch a b)"
proof -
  have ok: "ok_node (newBranch a b)" using assms by (simp add: newBranch_def)
  have "leaf_count a + leaf_count b \<le> 2 ^ depth (nums (newBranch a b))"
    using leaf_count_depth[OF ok] by (simp add: newBranch_def)
  then have "(2::nat) ^ rebalanceThreshold (len (nums a) + len (nums b)) < 2 ^ depth (nums (newBranch a b))"
    using assms(3) by linarith
  then have "rebalanceThreshold (len (nums a) + len (nums b)) < depth (nums (newBranch a b))"
    using power_less_imp_less_exp by (metis one_less_numeral_iff semiring_norm(76))
  then show ?thesis by (simp add: Let_def newBranch_def)
qed

subsection \<open>Properties\<close>

text \<open>C5: the rope behaves as one flat string. On a rope that meets its invariant, Insert,
  Delete and Slice give the result, or the error, that the same edit of the string gives:
  offsets out of range, offsets inside a rune and inverted ranges are refused in that order,
  a refused edit returns the rope it got, and every edit keeps the invariant.\<close>

theorem rope_refines_string:
  assumes "ok_rope r" and "valid_utf8 s"
  shows "text_result (Insert r i s) = insert_spec (String r) i s \<and>
    text_result (Delete r i j) = (case range_spec (String r) i j of Some e \<Rightarrow> Inl e
      | None \<Rightarrow> Inr (take (nat i) (String r) @ drop (nat j) (String r))) \<and>
    Slice r i j = (case range_spec (String r) i j of Some e \<Rightarrow> Inl e
      | None \<Rightarrow> Inr (drop (nat i) (take (nat j) (String r)))) \<and>
    ok_rope (state_of (Insert r i s)) \<and> ok_rope (state_of (Delete r i j)) \<and>
    (error_of (Insert r i s) \<noteq> None \<longrightarrow> state_of (Insert r i s) = r) \<and>
    (error_of (Delete r i j) \<noteq> None \<longrightarrow> state_of (Delete r i j) = r)"
  using Insert_refines[OF assms, of i] Delete_refines[OF assms(1), of i j] Slice_refines[OF assms(1), of i j]
  by blast

definition sample_rope :: rope where
  "sample_rope = concat_nodes (newLeaf ''ab'') (newLeaf ''cde'')"

lemma sample_rope_ok: "ok_rope sample_rope"
  by code_simp

theorem rope_refines_string_witness:
  "text_result (Insert sample_rope 1 ''xy'') = Inr ''axybcde'' \<and>
   text_result (Delete sample_rope 1 4) = Inr ''ae'' \<and> Slice sample_rope 1 4 = Inr ''bcd''"
proof -
  have "insert_spec (String sample_rope) 1 ''xy'' = Inr ''axybcde''"
    "range_spec (String sample_rope) 1 4 = None" "valid_utf8 ''xy''" "String sample_rope = ''abcde''"
    by code_simp+
  then show ?thesis using rope_refines_string[OF sample_rope_ok, of "''xy''" 1 4] by simp
qed

text \<open>C0: the conversion of a rune offset. \<open>ByteOffsetForRune\<close>, which walks the cached rune
  weights, returns the byte length of the first \<open>k\<close> runes of the text for every \<open>k\<close> up to the
  rune count, always a char boundary, and refuses every other offset.\<close>

theorem rope_rune_offsets:
  assumes "ok_rope r"
  shows "ByteOffsetForRune r k =
      (if 0 \<le> k \<and> k \<le> int (rune_count (String r)) then Inr (rune_bytes (nat k) (String r))
       else Inl ErrOutOfBounds) \<and>
    (\<forall>b. ByteOffsetForRune r k = Inr b \<longrightarrow> IsCharBoundary r (int b) \<and>
       runes (take b (String r)) = take (nat k) (runes (String r)))"
proof -
  note v = ok_rope_facts(1)[OF assms]
  have "IsCharBoundary r (int (rune_bytes m (String r)))" for m
    using IsCharBoundary_ok[OF assms] rune_bytes_le rune_bytes_starts[OF v] by simp
  then show ?thesis
    using ByteOffsetForRune_refines[OF assms, of k] runes_take_bytes[OF v, of "nat k"] by auto
qed

theorem rope_rune_offsets_witness:
  "ByteOffsetForRune (newLeaf [CHR ''a'', CHR 0xC3, CHR 0xA9, CHR ''b'']) 2 = Inr 3"
proof -
  let ?s = "[CHR ''a'', CHR 0xC3, CHR 0xA9, CHR ''b'']"
  have "ok_rope (newLeaf ?s)" "rune_count (String (newLeaf ?s)) = 3"
    "rune_bytes 2 (String (newLeaf ?s)) = 3"
    by code_simp+
  then show ?thesis using rope_rune_offsets[of "newLeaf ?s" 2] by simp
qed

text \<open>Depth. Joining two trees gives a tree no deeper than the threshold for its length or
  the depth of a perfectly balanced tree over its leaves, whichever is larger. The threshold
  counts leaves by length, while edits leave small leaves that nothing merges: once there are
  more than two to the threshold of them, every further join rebuilds the whole tree.\<close>

theorem rope_join_depth:
  assumes "ok_node a" and "ok_node b"
  shows "Depth (concat_nodes (Some a) (Some b)) \<le>
      max (rebalanceThreshold (len (nums a) + len (nums b))) (bits_len (leaf_count a + leaf_count b - 1))
    \<and> (2 ^ rebalanceThreshold (len (nums a) + len (nums b)) < leaf_count a + leaf_count b \<longrightarrow>
        concat_nodes (Some a) (Some b) = rebuildBalanced (newBranch a b))"
  using concat_depth[OF assms] crowded_rebuilds[OF assms] by blast

definition typed :: "nat \<Rightarrow> rope" where
  "typed k = fold (\<lambda>i r. state_of (Insert r (int i) ''x'')) [0..<k] None"

theorem rope_join_depth_witness:
  "\<exists>a b. typed 16 = Some a \<and> newLeaf ''x'' = Some b \<and> leaf_count a = 16 \<and>
     concat_nodes (Some a) (Some b) = rebuildBalanced (newBranch a b)"
proof -
  have "typed 16 \<noteq> None" "ok_node (the (typed 16))" "leaf_count (the (typed 16)) = 16"
    "len (nums (the (typed 16))) = 16" "rebalanceThreshold 17 = 4"
    by code_simp+
  moreover have "ok_node (the (newLeaf ''x''))" "leaf_count (the (newLeaf ''x'')) = 1"
    "len (nums (the (newLeaf ''x''))) = 1" "newLeaf ''x'' \<noteq> None"
    by code_simp+
  ultimately show ?thesis
    using rope_join_depth[of "the (typed 16)" "the (newLeaf ''x'')"]
    by (intro exI[of _ "the (typed 16)"] exI[of _ "the (newLeaf ''x'')"]) simp
qed

end
