(* ===== verification/Anchors.thy ===== *)
theory Anchors
  imports Prelude
begin

text \<open>
  Package internal/anchor of collaboration-service, file anchor.go: item identities, the
  generator that hands them out, anchors and what resolving one can give. \<open>identity_log\<close> is
  the interface of the log of identities (log.go): a list of entries in document order, each
  an identity and whether it has been deleted. Its lemmas say where an anchor moves when
  items are inserted or deleted around it.
\<close>

record ItemID =
  Actor :: string
  Counter :: "64 word"

record IDGenerator =
  gen_actor :: string
  gen_counter :: "64 word"

definition NewIDGenerator :: "string \<Rightarrow> IDGenerator" where
  "NewIDGenerator actor = \<lparr>gen_actor = actor, gen_counter = 0\<rparr>"

definition Next :: "IDGenerator \<Rightarrow> ItemID \<times> IDGenerator" where
  "Next g = (let c = gen_counter g + 1 in
     (\<lparr>Actor = gen_actor g, Counter = c\<rparr>, g\<lparr>gen_counter := c\<rparr>))"

datatype Bias = Before | After

record Anchor =
  Item :: ItemID
  ABias :: Bias

record AnchorRange =
  RStart :: Anchor
  REnd :: Anchor

datatype ResolvedKind = At | Detached | Unknown

record Resolved =
  RKind :: ResolvedKind
  Offset :: int

subsection \<open>Bias on the wire\<close>

definition Bias_MarshalJSON :: "Bias \<Rightarrow> string" where
  "Bias_MarshalJSON b = (case b of Before \<Rightarrow> ''before'' | After \<Rightarrow> ''after'')"

definition Bias_UnmarshalJSON :: "string \<Rightarrow> string + Bias" where
  "Bias_UnmarshalJSON s = (if s = ''before'' then Inr Before else if s = ''after'' then Inr After
     else Inl s)"

lemma Bias_roundtrip [simp]: "Bias_UnmarshalJSON (Bias_MarshalJSON b) = Inr b"
  by (cases b) (simp_all add: Bias_UnmarshalJSON_def Bias_MarshalJSON_def)

subsection \<open>Generated identities\<close>

fun take_ids :: "nat \<Rightarrow> IDGenerator \<Rightarrow> ItemID list \<times> IDGenerator" where
  "take_ids 0 g = ([], g)"
| "take_ids (Suc n) g = (let (i, g1) = Next g; (is, g2) = take_ids n g1 in (i # is, g2))"

lemma take_ids_spec:
  "take_ids n g = (map (\<lambda>k. \<lparr>Actor = gen_actor g, Counter = gen_counter g + of_nat (Suc k)\<rparr>) [0..<n],
     g\<lparr>gen_counter := gen_counter g + of_nat n\<rparr>)"
proof (induction n arbitrary: g)
  case (Suc n)
  have step: "take_ids (Suc n) g = (fst (Next g) # fst (take_ids n (snd (Next g))),
      snd (take_ids n (snd (Next g))))"
    by (simp add: Let_def split: prod.split)
  have "(of_nat (Suc k) :: 64 word) = 1 + of_nat k" for k by simp
  then have c: "gen_counter g + 1 + of_nat k = gen_counter g + (of_nat (Suc k) :: 64 word)" for k
    by (simp only: add.assoc)
  show ?case
    unfolding step Suc map_upt_Suc by (simp add: Next_def Let_def c del: of_nat_Suc) simp
qed simp

lemma length_take_ids [simp]: "length (fst (take_ids n g)) = n"
  by (simp add: take_ids_spec)

lemma take_ids_distinct:
  assumes "unat (gen_counter g) + n < 2 ^ 64"
  shows "distinct (fst (take_ids n g))"
proof -
  have "inj_on (\<lambda>k. \<lparr>Actor = gen_actor g, Counter = gen_counter g + of_nat (Suc k)\<rparr>) {0..<n}"
  proof (rule inj_onI)
    fix x y assume xy: "x \<in> {0..<n}" "y \<in> {0..<n}"
      "\<lparr>Actor = gen_actor g, Counter = gen_counter g + of_nat (Suc x)\<rparr>
        = \<lparr>Actor = gen_actor g, Counter = gen_counter g + of_nat (Suc y)\<rparr>"
    then have "(of_nat (Suc x) :: 64 word) = of_nat (Suc y)" by simp
    then have "unat (of_nat (Suc x) :: 64 word) = unat (of_nat (Suc y) :: 64 word)" by (rule arg_cong)
    moreover have "unat (of_nat (Suc k) :: 64 word) = Suc k" if "k < n" for k
      using that assms by (simp add: unat_of_nat del: of_nat_Suc)
    ultimately show "x = y" using xy(1,2) by simp
  qed
  then show ?thesis by (simp add: take_ids_spec distinct_map)
qed

lemma take_ids_counter:
  assumes "unat (gen_counter g) + n < 2 ^ 64" and "i \<in> set (fst (take_ids n g))"
  shows "Actor i = gen_actor g" and "unat (gen_counter g) < unat (Counter i)"
    and "unat (Counter i) \<le> unat (gen_counter g) + n"
proof -
  obtain k where k: "k < n" "i = \<lparr>Actor = gen_actor g, Counter = gen_counter g + of_nat (Suc k)\<rparr>"
    using assms(2) by (auto simp: take_ids_spec)
  have "unat (of_nat (Suc k) :: 64 word) = Suc k"
    using k(1) assms(1) by (simp add: unat_of_nat del: of_nat_Suc)
  then have "unat (gen_counter g + of_nat (Suc k)) = unat (gen_counter g) + Suc k"
    using k(1) assms(1) by (subst unat_add_lem[THEN iffD1]) auto
  then show "Actor i = gen_actor g" "unat (gen_counter g) < unat (Counter i)"
    "unat (Counter i) \<le> unat (gen_counter g) + n"
    using k by auto
qed

subsection \<open>Entries\<close>

type_synonym entries = "(ItemID \<times> bool) list"

definition lives :: "entries \<Rightarrow> ItemID list" where
  "lives es = map fst (filter (\<lambda>e. \<not> snd e) es)"

lemma lives_simps [simp]:
  "lives [] = []" "lives ((i, True) # es) = lives es" "lives ((i, False) # es) = i # lives es"
  "lives (es @ fs) = lives es @ lives fs"
  by (simp_all add: lives_def)

lemma lives_fresh [simp]: "lives (map (\<lambda>i. (i, False)) is) = is"
  by (induction "is") auto

text \<open>Deleting the live entries from \<open>s\<close> up to \<open>e\<close>, counted among the live ones.\<close>

fun kill :: "nat \<Rightarrow> nat \<Rightarrow> entries \<Rightarrow> entries" where
  "kill s e [] = []"
| "kill s e ((i, True) # es) = (i, True) # kill s e es"
| "kill s e ((i, False) # es) = (i, s = 0 \<and> 0 < e) # kill (s - 1) (e - 1) es"

lemma kill_ids [simp]: "map fst (kill s e es) = map fst es"
  by (induction s e es rule: kill.induct) auto

lemma kill_lives: "s \<le> e \<Longrightarrow> lives (kill s e es) = take s (lives es) @ drop e (lives es)"
proof (induction s e es rule: kill.induct)
  case (3 s e i es)
  then show ?case by (cases s; cases e) auto
qed auto

lemma kill_append: "kill s e (P @ Q) = kill s e P @ kill (s - length (lives P)) (e - length (lives P)) Q"
  by (induction s e P rule: kill.induct) auto

definition resolve_entries :: "entries \<Rightarrow> Anchor \<Rightarrow> Resolved" where
  "resolve_entries es a = (case find_index (\<lambda>e. fst e = Item a) es of
     None \<Rightarrow> \<lparr>RKind = Unknown, Offset = 0\<rparr>
   | Some i \<Rightarrow> (let front = int (length (lives (take i es))) in
       if snd (es ! i) then \<lparr>RKind = Detached, Offset = front\<rparr>
       else \<lparr>RKind = At, Offset = front + (if ABias a = After then 1 else 0)\<rparr>))"

lemma resolve_split:
  assumes "distinct (map fst es)" and "es = P @ (Item a, t) # Q"
  shows "resolve_entries es a = (if t then \<lparr>RKind = Detached, Offset = int (length (lives P))\<rparr>
    else \<lparr>RKind = At, Offset = int (length (lives P)) + (if ABias a = After then 1 else 0)\<rparr>)"
proof -
  have "find_index (\<lambda>e. fst e = Item a) es = Some (length P)"
    unfolding assms(2) using assms by (intro find_index_split) (auto simp: image_iff)
  then show ?thesis using assms(2) by (simp add: resolve_entries_def)
qed

lemma resolve_Unknown: "RKind (resolve_entries es a) = Unknown \<longleftrightarrow> Item a \<notin> fst ` set es"
proof (cases "find_index (\<lambda>e. fst e = Item a) es")
  case None
  then have "Item a \<notin> fst ` set es" by (auto simp: find_index_None)
  then show ?thesis using None by (simp add: resolve_entries_def)
next
  case (Some i)
  then have "i < length es" "fst (es ! i) = Item a" by (auto simp: find_index_Some)
  then have "Item a \<in> fst ` set es" by (metis image_eqI nth_mem)
  then show ?thesis using Some by (simp add: resolve_entries_def Let_def)
qed

lemma resolve_known:
  assumes "RKind (resolve_entries es a) \<noteq> Unknown" and "distinct (map fst es)"
  obtains P t Q where "es = P @ (Item a, t) # Q"
proof -
  have "Item a \<in> fst ` set es" using assms(1) resolve_Unknown by blast
  then obtain t where "(Item a, t) \<in> set es" by auto
  then show ?thesis using that by (meson split_list)
qed

lemma resolve_bounds:
  assumes "distinct (map fst es)"
  shows "0 \<le> Offset (resolve_entries es a) \<and> Offset (resolve_entries es a) \<le> int (length (lives es))"
proof (cases "RKind (resolve_entries es a) = Unknown")
  case True
  then show ?thesis
    by (auto simp: resolve_entries_def Let_def split: option.splits if_splits)
next
  case False
  then obtain P t Q where e: "es = P @ (Item a, t) # Q" using resolve_known assms by metis
  then show ?thesis using resolve_split[OF assms e] e by (cases t) auto
qed

text \<open>Where a live offset lands when the range from \<open>s\<close> to \<open>e\<close> is deleted.\<close>

definition shifted :: "nat \<Rightarrow> nat \<Rightarrow> int \<Rightarrow> int" where
  "shifted s e off = (if off \<le> int s then off else if off \<le> int e then int s else off - int (e - s))"

lemma resolve_kill:
  assumes d: "distinct (map fst es)" and se: "s \<le> e"
    and k: "RKind (resolve_entries es a) \<noteq> Unknown"
  shows "RKind (resolve_entries (kill s e es) a) \<noteq> Unknown"
    and "Offset (resolve_entries (kill s e es) a) = shifted s e (Offset (resolve_entries es a))"
proof -
  obtain P t Q where e: "es = P @ (Item a, t) # Q" using resolve_known[OF k d] .
  let ?n = "length (lives P)"
  obtain t' Q' where k': "kill s e es = kill s e P @ (Item a, t') # Q'"
    "t' = (t \<or> (s \<le> ?n \<and> ?n < e))"
    unfolding e kill_append by (cases t) auto
  have d': "distinct (map fst (kill s e es))" using d by simp
  have "length (lives (kill s e P)) = (if ?n \<le> s then ?n else if ?n \<le> e then s else ?n - (e - s))"
    using se by (auto simp: kill_lives)
  then have n: "int (length (lives (kill s e P))) = shifted s e (int ?n)"
    using se by (auto simp: shifted_def)
  show "RKind (resolve_entries (kill s e es) a) \<noteq> Unknown"
    using resolve_split[OF d' k'(1)] by simp
  show "Offset (resolve_entries (kill s e es) a) = shifted s e (Offset (resolve_entries es a))"
    using resolve_split[OF d' k'(1)] resolve_split[OF d e] k'(2) n se
    by (auto simp: shifted_def)
qed

lemma resolve_insert:
  assumes d: "distinct (map fst (P @ map (\<lambda>i. (i, False)) is @ Q))"
    and es: "es = P @ map (\<lambda>i. (i, False)) is @ Q" and "is \<noteq> []"
  shows "resolve_entries es \<lparr>Item = hd is, ABias = Before\<rparr> = \<lparr>RKind = At, Offset = int (length (lives P))\<rparr>"
    and "resolve_entries es \<lparr>Item = last is, ABias = After\<rparr>
      = \<lparr>RKind = At, Offset = int (length (lives P)) + int (length is)\<rparr>"
proof -
  have d': "distinct (map fst es)" using d es by simp
  obtain x xs where x: "is = x # xs" using assms(3) by (cases "is") auto
  have "es = P @ (Item \<lparr>Item = x, ABias = Before\<rparr>, False) # (map (\<lambda>i. (i, False)) xs @ Q)"
    using es x by simp
  from resolve_split[OF d' this]
  show "resolve_entries es \<lparr>Item = hd is, ABias = Before\<rparr> = \<lparr>RKind = At, Offset = int (length (lives P))\<rparr>"
    using x by simp
  obtain y ys where y: "is = ys @ [y]" using assms(3) by (metis rev_exhaust)
  have "es = (P @ map (\<lambda>i. (i, False)) ys) @ (Item \<lparr>Item = y, ABias = After\<rparr>, False) # Q"
    using es y by simp
  from resolve_split[OF d' this]
  show "resolve_entries es \<lparr>Item = last is, ABias = After\<rparr>
      = \<lparr>RKind = At, Offset = int (length (lives P)) + int (length is)\<rparr>"
    using y by simp
qed

lemma lives_split:
  "k < length (lives es) \<Longrightarrow> \<exists>P Q. es = P @ (lives es ! k, False) # Q \<and> length (lives P) = k"
proof (induction es arbitrary: k)
  case (Cons e es)
  obtain i t where e: "e = (i, t)" by (cases e)
  show ?case
  proof (cases "\<not> t \<and> k = 0")
    case True
    then show ?thesis using e by (intro exI[of _ "[]"] exI[of _ es]) simp
  next
    case False
    then obtain P Q where "es = P @ (lives (e # es) ! k, False) # Q"
      "length (lives P) = (if t then k else k - 1)"
      using Cons.IH[of "if t then k else k - 1"] Cons.prems e by (cases t; cases k) auto
    then show ?thesis using False e by (intro exI[of _ "e # P"] exI[of _ Q]) (cases t; auto)
  qed
qed simp

lemma resolve_live:
  assumes "distinct (map fst es)" and "k < length (lives es)"
  shows "resolve_entries es \<lparr>Item = lives es ! k, ABias = b\<rparr>
    = \<lparr>RKind = At, Offset = int k + (if b = After then 1 else 0)\<rparr>"
proof -
  obtain P Q where "es = P @ (lives es ! k, False) # Q" "length (lives P) = k"
    using lives_split[OF assms(2)] by blast
  then show ?thesis
    using resolve_split[OF assms(1), of P "\<lparr>Item = lives es ! k, ABias = b\<rparr>" False Q] by simp
qed

subsection \<open>The interface of the log\<close>

locale identity_log =
  fixes entries :: "'l \<Rightarrow> entries"
    and ok :: "'l \<Rightarrow> bool"
    and insert_at :: "'l \<Rightarrow> int \<Rightarrow> ItemID list \<Rightarrow> 'e + 'l"
    and tombstone :: "'l \<Rightarrow> int \<Rightarrow> int \<Rightarrow> 'e + 'l"
    and resolve :: "'l \<Rightarrow> Anchor \<Rightarrow> Resolved"
  assumes distinct_entries: "ok l \<Longrightarrow> distinct (map fst (entries l))"
    and insert_law: "ok l \<Longrightarrow> distinct is \<Longrightarrow> set is \<inter> fst ` set (entries l) = {}
      \<Longrightarrow> pos \<le> length (lives (entries l)) \<Longrightarrow>
      \<exists>l' P Q. insert_at l (int pos) is = Inr l' \<and> ok l' \<and> entries l = P @ Q \<and>
        length (lives P) = pos \<and> entries l' = P @ map (\<lambda>i. (i, False)) is @ Q"
    and tombstone_law: "ok l \<Longrightarrow> s \<le> e \<Longrightarrow> e \<le> length (lives (entries l)) \<Longrightarrow>
      \<exists>l'. tombstone l (int s) (int e) = Inr l' \<and> ok l' \<and> entries l' = kill s e (entries l)"
    and resolve_law: "ok l \<Longrightarrow> resolve l a = resolve_entries (entries l) a"
begin

lemma insert_resolves:
  assumes "ok l" and "distinct is" and "set is \<inter> fst ` set (entries l) = {}"
    and "pos \<le> length (lives (entries l))" and "is \<noteq> []"
  obtains l' where "insert_at l (int pos) is = Inr l'" "ok l'"
    "lives (entries l') = take pos (lives (entries l)) @ is @ drop pos (lives (entries l))"
    "fst ` set (entries l') = fst ` set (entries l) \<union> set is"
    "resolve l' \<lparr>Item = hd is, ABias = Before\<rparr> = \<lparr>RKind = At, Offset = int pos\<rparr>"
    "resolve l' \<lparr>Item = last is, ABias = After\<rparr> = \<lparr>RKind = At, Offset = int pos + int (length is)\<rparr>"
proof -
  obtain l' P Q where l': "insert_at l (int pos) is = Inr l'" "ok l'" "entries l = P @ Q"
    "length (lives P) = pos" "entries l' = P @ map (\<lambda>i. (i, False)) is @ Q"
    using insert_law[OF assms(1-4)] by blast
  have d: "distinct (map fst (P @ map (\<lambda>i. (i, False)) is @ Q))"
    using distinct_entries[OF l'(2)] l'(5) by simp
  note r = resolve_insert[OF d l'(5) assms(5)]
  have "fst ` set (entries l') = fst ` set (entries l) \<union> set is"
    unfolding l'(3,5) by (simp add: image_Un image_image Un_commute Un_left_commute)
  then show ?thesis
    using that[OF l'(1,2)] l'(3-5) r resolve_law[OF l'(2)] by simp
qed

lemma tombstone_resolves:
  assumes "ok l" and "s \<le> e" and "e \<le> length (lives (entries l))"
  obtains l' where "tombstone l (int s) (int e) = Inr l'" "ok l'"
    "lives (entries l') = take s (lives (entries l)) @ drop e (lives (entries l))"
    "fst ` set (entries l') = fst ` set (entries l)"
    "\<And>a. RKind (resolve l a) \<noteq> Unknown \<Longrightarrow> RKind (resolve l' a) \<noteq> Unknown \<and>
       Offset (resolve l' a) = shifted s e (Offset (resolve l a))"
proof -
  obtain l' where l': "tombstone l (int s) (int e) = Inr l'" "ok l'" "entries l' = kill s e (entries l)"
    using tombstone_law[OF assms] by blast
  have "fst ` set (entries l') = fst ` set (entries l)"
    unfolding l'(3) by (metis kill_ids list.set_map)
  moreover have "RKind (resolve l' a) \<noteq> Unknown \<and> Offset (resolve l' a) = shifted s e (Offset (resolve l a))"
    if "RKind (resolve l a) \<noteq> Unknown" for a
    using resolve_kill[OF distinct_entries[OF assms(1)] assms(2), of a] that
      resolve_law[OF assms(1)] resolve_law[OF l'(2)] l'(3) by simp
  ultimately show ?thesis
    using that[OF l'(1,2)] kill_lives[OF assms(2)] l'(3) by simp
qed

lemma resolve_nth:
  "ok l \<Longrightarrow> k < length (lives (entries l)) \<Longrightarrow>
   resolve l \<lparr>Item = lives (entries l) ! k, ABias = b\<rparr>
     = \<lparr>RKind = At, Offset = int k + (if b = After then 1 else 0)\<rparr>"
  using resolve_live[OF distinct_entries] resolve_law by simp

lemma resolve_unknown: "ok l \<Longrightarrow> RKind (resolve l a) = Unknown \<longleftrightarrow> Item a \<notin> fst ` set (entries l)"
  using resolve_Unknown resolve_law by simp

lemma resolve_in_range:
  "ok l \<Longrightarrow> 0 \<le> Offset (resolve l a) \<and> Offset (resolve l a) \<le> int (length (lives (entries l)))"
  using resolve_bounds[OF distinct_entries] resolve_law by simp

end

end
