(* ===== verification/AnchorLog.thy ===== *)
theory AnchorLog
  imports Anchors
begin

text \<open>
  Package internal/anchor, file log.go: every character ever inserted, live or tombstoned, in
  document order, with an index from identity to position. The loops are the source's scans;
  the lemmas relate them to the entries of the \<open>identity_log\<close> interface, which the log
  interprets at the end.
\<close>

record item =
  item_id :: ItemID
  tombstoned :: bool

record Log =
  items :: "item list"
  index :: "ItemID \<rightharpoonup> nat"

datatype log_error = LogOutOfBounds

definition NewLog :: Log where
  "NewLog = \<lparr>items = [], index = Map.empty\<rparr>"

definition Log_Len :: "Log \<Rightarrow> nat" where "Log_Len l = length (items l)"

fun count_live :: "item list \<Rightarrow> nat" where
  "count_live [] = 0"
| "count_live (it # its) = (if \<not> tombstoned it then Suc (count_live its) else count_live its)"

definition LiveLen :: "Log \<Rightarrow> nat" where "LiveLen l = count_live (items l)"

fun scan_offset :: "item list \<Rightarrow> nat \<Rightarrow> nat \<Rightarrow> nat option" where
  "scan_offset [] live pos = (if live = pos then Some 0 else None)"
| "scan_offset (it # its) live pos =
     (if live = pos then Some 0
      else map_option Suc (scan_offset its (if tombstoned it then live else Suc live) pos))"

definition sliceIndexForLiveOffset :: "Log \<Rightarrow> int \<Rightarrow> log_error + nat" where
  "sliceIndexForLiveOffset l pos =
     (if pos < 0 then Inl LogOutOfBounds
      else (case scan_offset (items l) 0 (nat pos) of Some i \<Rightarrow> Inr i | None \<Rightarrow> Inl LogOutOfBounds))"

definition reindexFrom :: "Log \<Rightarrow> nat \<Rightarrow> Log" where
  "reindexFrom l start = l\<lparr>index := fold (\<lambda>i m. m(item_id (items l ! i) \<mapsto> i))
     [start..<length (items l)] (index l)\<rparr>"

definition Log_InsertAt :: "Log \<Rightarrow> int \<Rightarrow> ItemID list \<Rightarrow> log_error + Log" where
  "Log_InsertAt l pos ids = and_then (sliceIndexForLiveOffset l pos) (\<lambda>i.
     Inr (reindexFrom (l\<lparr>items := slice_insert (items l) i
       (map (\<lambda>id. \<lparr>item_id = id, tombstoned = False\<rparr>) ids)\<rparr>) i))"

fun tombstone_loop :: "nat \<Rightarrow> item list \<Rightarrow> item list" where
  "tombstone_loop remaining [] = []"
| "tombstone_loop remaining (it # its) =
     (if remaining = 0 then it # its
      else if \<not> tombstoned it then it\<lparr>tombstoned := True\<rparr> # tombstone_loop (remaining - 1) its
      else it # tombstone_loop remaining its)"

definition Tombstone :: "Log \<Rightarrow> int \<Rightarrow> int \<Rightarrow> log_error + Log" where
  "Tombstone l start stop =
     (if stop < start then Inl LogOutOfBounds
      else if int (LiveLen l) < stop then Inl LogOutOfBounds
      else and_then (sliceIndexForLiveOffset l start) (\<lambda>i.
        Inr (l\<lparr>items := take i (items l) @ tombstone_loop (nat (stop - start)) (drop i (items l))\<rparr>)))"

definition liveCountBefore :: "Log \<Rightarrow> nat \<Rightarrow> nat" where
  "liveCountBefore l idx = count_live (take idx (items l))"

definition Log_Resolve :: "Log \<Rightarrow> Anchor \<Rightarrow> Resolved" where
  "Log_Resolve l a = (case index l (Item a) of
     None \<Rightarrow> \<lparr>RKind = Unknown, Offset = 0\<rparr>
   | Some idx \<Rightarrow> (let front = int (liveCountBefore l idx) in
       if \<not> tombstoned (items l ! idx)
       then \<lparr>RKind = At, Offset = (if ABias a = After then front + 1 else front)\<rparr>
       else \<lparr>RKind = Detached, Offset = front\<rparr>))"

fun item_scan :: "item list \<Rightarrow> nat \<Rightarrow> nat \<Rightarrow> ItemID option" where
  "item_scan [] live pos = None"
| "item_scan (it # its) live pos =
     (if tombstoned it then item_scan its live pos
      else if live = pos then Some (item_id it) else item_scan its (Suc live) pos)"

definition ItemAt :: "Log \<Rightarrow> int \<Rightarrow> log_error + ItemID" where
  "ItemAt l pos = (if pos < 0 then Inl LogOutOfBounds
     else (case item_scan (items l) 0 (nat pos) of Some i \<Rightarrow> Inr i | None \<Rightarrow> Inl LogOutOfBounds))"

subsection \<open>Entries of the log\<close>

abbreviation entry :: "item \<Rightarrow> ItemID \<times> bool" where
  "entry it \<equiv> (item_id it, tombstoned it)"

definition log_entries :: "Log \<Rightarrow> entries" where
  "log_entries l = map entry (items l)"

definition ok_log :: "Log \<Rightarrow> bool" where
  "ok_log l \<longleftrightarrow> distinct (map item_id (items l)) \<and>
     (\<forall>i. index l i = find_index (\<lambda>it. item_id it = i) (items l))"

lemma NewLog_ok: "ok_log NewLog" "log_entries NewLog = []"
  by (simp_all add: NewLog_def ok_log_def log_entries_def)

lemma lives_Cons: "lives ((i, t) # es) = (if t then lives es else i # lives es)"
  by (cases t) auto

lemma count_live_lives: "count_live its = length (lives (map entry its))"
  by (induction its) (auto simp: lives_Cons)

lemma LiveLen_lives: "LiveLen l = length (lives (log_entries l))"
  by (simp add: LiveLen_def log_entries_def count_live_lives)

lemma scan_offset_None:
  "live \<le> pos \<Longrightarrow> scan_offset its live pos = None \<longleftrightarrow> live + count_live its < pos"
  by (induction its live pos rule: scan_offset.induct) auto

lemma scan_offset_Some:
  "live \<le> pos \<Longrightarrow> scan_offset its live pos = Some i
    \<Longrightarrow> i \<le> length its \<and> live + count_live (take i its) = pos"
proof (induction its live pos arbitrary: i rule: scan_offset.induct)
  case (2 it its live pos)
  show ?case
  proof (cases "live = pos")
    case False
    then obtain j where j: "i = Suc j"
      "scan_offset its (if tombstoned it then live else Suc live) pos = Some j"
      using 2(3) by auto
    moreover have "(if tombstoned it then live else Suc live) \<le> pos" using False 2(2) by auto
    ultimately show ?thesis using 2(1)[OF False _ j(2)] by auto
  qed (use 2 in auto)
qed (auto split: if_splits)

lemma sliceIndex_spec:
  "(\<exists>i. sliceIndexForLiveOffset l pos = Inr i) \<longleftrightarrow> 0 \<le> pos \<and> pos \<le> int (LiveLen l)"
  "sliceIndexForLiveOffset l pos = Inr i \<Longrightarrow>
     i \<le> length (items l) \<and> int (count_live (take i (items l))) = pos"
proof -
  note s = scan_offset_None[of 0 "nat pos" "items l"] and t = scan_offset_Some[of 0 "nat pos" "items l"]
  show "(\<exists>i. sliceIndexForLiveOffset l pos = Inr i) \<longleftrightarrow> 0 \<le> pos \<and> pos \<le> int (LiveLen l)"
    using s by (auto simp: sliceIndexForLiveOffset_def LiveLen_def split: option.split)
  show "i \<le> length (items l) \<and> int (count_live (take i (items l))) = pos"
    if "sliceIndexForLiveOffset l pos = Inr i"
    using that t[of i] by (auto simp: sliceIndexForLiveOffset_def split: if_splits option.splits)
qed

lemma tombstone_loop_kill: "map entry (tombstone_loop n its) = kill 0 n (map entry its)"
proof (induction n its rule: tombstone_loop.induct)
  case (2 n it its)
  have k0: "kill 0 0 es = es" for es by (induction "0::nat" "0::nat" es rule: kill.induct) auto
  show ?case
    using 2 k0 by (cases "tombstoned it") auto
qed simp

lemma tombstone_loop_ids [simp]: "map item_id (tombstone_loop n its) = map item_id its"
  by (induction n its rule: tombstone_loop.induct) auto

lemma kill_skip: "length (lives P) \<le> s \<Longrightarrow> kill s e P = P"
proof (induction s e P rule: kill.induct)
  case (3 s e i es)
  then show ?case by (cases s) auto
qed auto

lemma find_index_map: "find_index P (map f xs) = find_index (P \<circ> f) xs"
  by (induction xs) auto

lemma find_index_cong_ids:
  assumes "map item_id xs = map item_id ys"
  shows "find_index (\<lambda>it. item_id it = i) xs = find_index (\<lambda>it. item_id it = i) ys"
  using arg_cong[OF assms, of "find_index (\<lambda>x. x = i)"] by (simp add: find_index_map comp_def)

lemma reindex_fold:
  "n \<le> length its \<Longrightarrow> distinct (map item_id its) \<Longrightarrow>
   fold (\<lambda>i m. m(item_id (its ! i) \<mapsto> i)) [n..<length its] m x =
     (case find_index (\<lambda>it. item_id it = x) (drop n its) of Some k \<Rightarrow> Some (n + k) | None \<Rightarrow> m x)"
proof (induction "length its - n" arbitrary: n m)
  case (Suc d)
  then have n: "n < length its" by simp
  have u: "[n..<length its] = n # [Suc n..<length its]" using n by (rule upt_conv_Cons)
  have dr: "drop n its = its ! n # drop (Suc n) its" using n by (simp add: Cons_nth_drop_Suc)
  have ih: "fold (\<lambda>i m. m(item_id (its ! i) \<mapsto> i)) [Suc n..<length its] m' x =
     (case find_index (\<lambda>it. item_id it = x) (drop (Suc n) its) of Some k \<Rightarrow> Some (Suc n + k) | None \<Rightarrow> m' x)"
    for m' using Suc.hyps(1)[of "Suc n"] Suc.hyps(2) Suc.prems n by simp
  have "find_index (\<lambda>it. item_id it = x) (drop (Suc n) its) = None" if "item_id (its ! n) = x"
  proof -
    have "distinct (map item_id (drop n its))" using Suc.prems(2) by (simp add: distinct_drop flip: drop_map)
    then show ?thesis using that dr by (auto simp: find_index_None image_iff)
  qed
  then show ?case unfolding u dr by (auto simp: ih split: option.split)
qed simp

lemma find_index_append:
  "find_index P (xs @ ys) = (case find_index P xs of Some k \<Rightarrow> Some k
     | None \<Rightarrow> map_option (\<lambda>k. length xs + k) (find_index P ys))"
  by (cases "find_index P ys"; induction xs) (auto split: option.split)

lemma insert_ok:
  assumes ok: "ok_log l" and d: "distinct ids" and fresh: "set ids \<inter> item_id ` set (items l) = {}"
    and i: "i \<le> length (items l)"
  shows "ok_log (reindexFrom (l\<lparr>items := slice_insert (items l) i
      (map (\<lambda>id. \<lparr>item_id = id, tombstoned = False\<rparr>) ids)\<rparr>) i)"
proof -
  let ?new = "map (\<lambda>id. \<lparr>item_id = id, tombstoned = False\<rparr>) ids"
  let ?its = "slice_insert (items l) i ?new"
  have its: "?its = take i (items l) @ ?new @ drop i (items l)" by (simp add: slice_insert_def)
  have ids: "map item_id ?its = take i (map item_id (items l)) @ ids @ drop i (map item_id (items l))"
    unfolding its by (simp add: take_map drop_map comp_def)
  have dist: "distinct (map item_id ?its)"
  proof -
    let ?T = "take i (map item_id (items l))" and ?D = "drop i (map item_id (items l))"
    have "distinct (map item_id (items l))" using ok by (simp add: ok_log_def)
    then have "distinct ?T" "distinct ?D" "set ?T \<inter> set ?D = {}"
      by (simp_all add: set_take_disj_set_drop_if_distinct)
    moreover have "set ?T \<subseteq> item_id ` set (items l)" "set ?D \<subseteq> item_id ` set (items l)"
      using set_take_subset[of i "map item_id (items l)"] set_drop_subset[of i "map item_id (items l)"]
      unfolding list.set_map by blast+
    ultimately show ?thesis unfolding ids distinct_append set_append using d fresh by blast
  qed
  have "fold (\<lambda>k m. m(item_id (?its ! k) \<mapsto> k)) [i..<length ?its] (index l) x
      = find_index (\<lambda>it. item_id it = x) ?its" for x
  proof -
    have il: "i \<le> length ?its" "drop i ?its = ?new @ drop i (items l)" using i its by simp_all
    have li: "length (take i (items l)) = i" "length (take i ?its) = i" using i by (simp_all add: its)
    have ti: "take i ?its = take i (items l)" using i its by simp
    have split: "find_index (\<lambda>it. item_id it = x) (items l) =
      (case find_index (\<lambda>it. item_id it = x) (take i (items l)) of Some k \<Rightarrow> Some k
       | None \<Rightarrow> map_option (\<lambda>k. i + k) (find_index (\<lambda>it. item_id it = x) (drop i (items l))))"
      using find_index_append[of "\<lambda>it. item_id it = x" "take i (items l)" "drop i (items l)"]
      unfolding append_take_drop_id li .
    have whole: "find_index (\<lambda>it. item_id it = x) ?its =
      (case find_index (\<lambda>it. item_id it = x) (take i (items l)) of Some k \<Rightarrow> Some k
       | None \<Rightarrow> map_option (\<lambda>k. i + k) (find_index (\<lambda>it. item_id it = x) (drop i ?its)))"
      using find_index_append[of "\<lambda>it. item_id it = x" "take i ?its" "drop i ?its"]
      unfolding append_take_drop_id li unfolding ti .
    have disj: "find_index (\<lambda>it. item_id it = x) (drop i ?its) = None"
      if "find_index (\<lambda>it. item_id it = x) (take i (items l)) = Some k" for k
    proof -
      have "x \<in> set (map item_id (take i ?its))"
        using that i its by (auto simp: find_index_Some) (metis image_eqI length_take min.absorb2 nth_mem nth_take)
      moreover have "distinct (map item_id (take i ?its) @ map item_id (drop i ?its))"
        using dist by (metis append_take_drop_id map_append)
      ultimately show ?thesis by (auto simp: find_index_None)
    qed
    have none: "find_index (\<lambda>it. item_id it = x) (drop i (items l)) = None"
      if "find_index (\<lambda>it. item_id it = x) (drop i ?its) = None"
      using that il(2) by (auto simp: find_index_None)
    show ?thesis
      unfolding reindex_fold[OF il(1) dist]
      using ok split whole disj none
      by (auto simp: ok_log_def split: option.splits)
  qed
  then show ?thesis using dist by (simp add: reindexFrom_def ok_log_def)
qed

lemma Resolve_entries:
  assumes "ok_log l"
  shows "Log_Resolve l a = resolve_entries (log_entries l) a"
proof -
  have f: "find_index (\<lambda>e. fst e = Item a) (log_entries l) = index l (Item a)"
    using assms by (simp add: log_entries_def find_index_map comp_def ok_log_def)
  show ?thesis
  proof (cases "index l (Item a)")
    case None
    then show ?thesis using f by (simp add: Log_Resolve_def resolve_entries_def)
  next
    case (Some i)
    then have "i < length (items l)"
      using assms by (auto simp: ok_log_def find_index_Some)
    then show ?thesis
      using Some f by (simp add: Log_Resolve_def resolve_entries_def Let_def liveCountBefore_def
          count_live_lives log_entries_def take_map)
  qed
qed

interpretation anchor_log: identity_log log_entries ok_log Log_InsertAt Tombstone Log_Resolve
proof unfold_locales
  show "distinct (map fst (log_entries l))" if "ok_log l" for l
    using that by (simp add: log_entries_def ok_log_def comp_def)
next
  fix l ids pos
  assume a: "ok_log l" "distinct ids" "set ids \<inter> fst ` set (log_entries l) = {}"
    "pos \<le> length (lives (log_entries l))"
  then obtain i where i: "sliceIndexForLiveOffset l (int pos) = Inr i"
    using sliceIndex_spec(1)[of l "int pos"] by (auto simp: LiveLen_lives)
  let ?new = "map (\<lambda>id. \<lparr>item_id = id, tombstoned = False\<rparr>) ids"
  let ?l = "reindexFrom (l\<lparr>items := slice_insert (items l) i ?new\<rparr>) i"
  have s: "i \<le> length (items l)" "count_live (take i (items l)) = pos"
    using sliceIndex_spec(2)[OF i] by auto
  have "set ids \<inter> item_id ` set (items l) = {}"
    using a(3) by (simp add: log_entries_def image_image)
  then have "ok_log ?l" using insert_ok[OF a(1,2) _ s(1)] by simp
  moreover have "Log_InsertAt l (int pos) ids = Inr ?l" using i by (simp add: Log_InsertAt_def)
  moreover have "log_entries ?l = map entry (take i (items l)) @ map (\<lambda>i. (i, False)) ids
      @ map entry (drop i (items l))"
    by (simp add: log_entries_def reindexFrom_def slice_insert_def comp_def)
  moreover have "log_entries l = map entry (take i (items l)) @ map entry (drop i (items l))"
    by (simp add: log_entries_def flip: map_append)
  moreover have "length (lives (map entry (take i (items l)))) = pos"
    using s(2) by (simp add: count_live_lives)
  ultimately show "\<exists>l' P Q. Log_InsertAt l (int pos) ids = Inr l' \<and> ok_log l' \<and> log_entries l = P @ Q \<and>
      length (lives P) = pos \<and> log_entries l' = P @ map (\<lambda>i. (i, False)) ids @ Q"
    by blast
next
  fix l and s e :: nat
  assume a: "ok_log l" "s \<le> e" "e \<le> length (lives (log_entries l))"
  then obtain i where i: "sliceIndexForLiveOffset l (int s) = Inr i"
    using sliceIndex_spec(1)[of l "int s"] by (auto simp: LiveLen_lives)
  have c: "i \<le> length (items l)" "length (lives (map entry (take i (items l)))) = s"
    using sliceIndex_spec(2)[OF i] by (auto simp: count_live_lives)
  let ?l = "l\<lparr>items := take i (items l) @ tombstone_loop (e - s) (drop i (items l))\<rparr>"
  have ids: "map item_id (items ?l) = map item_id (items l)"
    by simp (metis append_take_drop_id map_append)
  have "Tombstone l (int s) (int e) = Inr ?l"
    using a i by (simp add: Tombstone_def LiveLen_lives nat_diff_distrib)
  moreover have "ok_log ?l"
    using a(1) ids find_index_cong_ids[OF ids] by (simp add: ok_log_def)
  moreover have "log_entries ?l = kill s e (log_entries l)"
  proof -
    have "log_entries l = map entry (take i (items l)) @ map entry (drop i (items l))"
      by (simp add: log_entries_def flip: map_append)
    then show ?thesis
      using c(2) kill_skip[of "map entry (take i (items l))" s e] a(2)
      by (simp add: log_entries_def[of ?l] kill_append tombstone_loop_kill)
  qed
  ultimately show "\<exists>l'. Tombstone l (int s) (int e) = Inr l' \<and> ok_log l' \<and>
      log_entries l' = kill s e (log_entries l)" by blast
qed (rule Resolve_entries)

end
