(* ===== verification/DocText.thy ===== *)
theory DocText
  imports RopeLaws AnchorLog
begin

text \<open>
  Package internal/doctext of collaboration-service: the live text of a session, a rope for
  the content beside a log of identities, edited at rune offsets. The proofs use the rope and
  the log only through their interfaces (\<open>rope_store\<close>, \<open>anchor_log\<close>). A call returns its
  result and the text it leaves, in the failing cases too: the generator has moved on if the
  log refuses the new identities.
\<close>

record DocText =
  text_rope :: rope
  text_log :: Log
  text_gen :: IDGenerator

datatype text_error = TextOutOfBounds | TextInvertedRange | RopeError rope_error | LogError log_error

definition New_text :: "string \<Rightarrow> DocText" where
  "New_text actor = \<lparr>text_rope = None, text_log = NewLog, text_gen = NewIDGenerator actor\<rparr>"

definition Text_String :: "DocText \<Rightarrow> string" where
  "Text_String t = String (text_rope t)"

definition Text_RuneLen :: "DocText \<Rightarrow> nat" where
  "Text_RuneLen t = LiveLen (text_log t)"

definition byteOffsetForRuneOffset :: "DocText \<Rightarrow> int \<Rightarrow> text_error + nat" where
  "byteOffsetForRuneOffset t k = (case ByteOffsetForRune (text_rope t) k of
     Inl e \<Rightarrow> Inl TextOutOfBounds | Inr i \<Rightarrow> Inr i)"

definition Text_InsertAt :: "DocText \<Rightarrow> int \<Rightarrow> string \<Rightarrow> (text_error + ItemID list) \<times> DocText" where
  "Text_InsertAt t pos s =
     (if runes s = [] then (Inr [], t)
      else if pos < 0 \<or> int (Text_RuneLen t) < pos then (Inl TextOutOfBounds, t)
      else (case byteOffsetForRuneOffset t pos of
          Inl e \<Rightarrow> (Inl e, t)
        | Inr byteOffset \<Rightarrow> (case Insert (text_rope t) (int byteOffset) s of
              Failed e r \<Rightarrow> (Inl (RopeError e), t)
            | Done newRope \<Rightarrow>
                (let (ids, gen) = take_ids (length (runes s)) (text_gen t) in
                 (case Log_InsertAt (text_log t) pos ids of
                    Inl e \<Rightarrow> (Inl (LogError e), t\<lparr>text_gen := gen\<rparr>)
                  | Inr newLog \<Rightarrow> (Inr ids, t\<lparr>text_rope := newRope, text_log := newLog,
                      text_gen := gen\<rparr>))))))"

definition DeleteRange :: "DocText \<Rightarrow> int \<Rightarrow> int \<Rightarrow> text_error option \<times> DocText" where
  "DeleteRange t start stop =
     (if stop < start then (Some TextInvertedRange, t)
      else if start < 0 \<or> int (Text_RuneLen t) < stop then (Some TextOutOfBounds, t)
      else if start = stop then (None, t)
      else (case byteOffsetForRuneOffset t start of
          Inl e \<Rightarrow> (Some e, t)
        | Inr startByte \<Rightarrow> (case byteOffsetForRuneOffset t stop of
              Inl e \<Rightarrow> (Some e, t)
            | Inr endByte \<Rightarrow> (case Delete (text_rope t) (int startByte) (int endByte) of
                  Failed e r \<Rightarrow> (Some (RopeError e), t)
                | Done newRope \<Rightarrow> (case Tombstone (text_log t) start stop of
                      Inl e \<Rightarrow> (Some (LogError e), t)
                    | Inr newLog \<Rightarrow> (None, t\<lparr>text_rope := newRope, text_log := newLog\<rparr>))))))"

definition Text_Resolve :: "DocText \<Rightarrow> Anchor \<Rightarrow> Resolved" where
  "Text_Resolve t a = Log_Resolve (text_log t) a"

definition Boundaries :: "DocText \<Rightarrow> AnchorRange option" where
  "Boundaries t =
     (let n = Text_RuneLen t in
      if n = 0 then None
      else (case ItemAt (text_log t) 0 of Inl e \<Rightarrow> None
        | Inr firstID \<Rightarrow> (case ItemAt (text_log t) (int n - 1) of Inl e \<Rightarrow> None
           | Inr lastID \<Rightarrow> Some \<lparr>RStart = \<lparr>Item = firstID, ABias = Before\<rparr>,
               REnd = \<lparr>Item = lastID, ABias = After\<rparr>\<rparr>)))"

definition Text_Slice :: "DocText \<Rightarrow> int \<Rightarrow> int \<Rightarrow> text_error + string" where
  "Text_Slice t start stop =
     (if stop < start then Inl TextInvertedRange
      else if start < 0 \<or> int (Text_RuneLen t) < stop then Inl TextOutOfBounds
      else and_then (byteOffsetForRuneOffset t start) (\<lambda>startByte.
             and_then (byteOffsetForRuneOffset t stop) (\<lambda>endByte.
               (case Slice (text_rope t) (int startByte) (int endByte) of
                  Inl e \<Rightarrow> Inl (RopeError e) | Inr s \<Rightarrow> Inr s))))"

subsection \<open>The invariant\<close>

abbreviation text_entries :: "DocText \<Rightarrow> entries" where
  "text_entries t \<equiv> log_entries (text_log t)"

definition ok_text :: "DocText \<Rightarrow> bool" where
  "ok_text t \<longleftrightarrow> ok_rope (text_rope t) \<and> ok_log (text_log t) \<and>
     length (lives (text_entries t)) = rune_count (Text_String t) \<and>
     (\<forall>i\<in>fst ` set (text_entries t). Actor i = gen_actor (text_gen t) \<and>
        unat (Counter i) \<le> unat (gen_counter (text_gen t)))"

text \<open>The identity counter is a 64-bit word; identities stay distinct while it does not wrap.\<close>

definition room :: "DocText \<Rightarrow> nat \<Rightarrow> bool" where
  "room t n \<longleftrightarrow> unat (gen_counter (text_gen t)) + n < 2 ^ 64"

lemma ok_New: "ok_text (New_text actor)"
  by (simp add: ok_text_def New_text_def NewLog_ok Text_String_def)

lemma ok_textD:
  assumes "ok_text t"
  shows "ok_rope (text_rope t)" "ok_log (text_log t)"
    "length (lives (text_entries t)) = rune_count (Text_String t)"
    "Text_RuneLen t = rune_count (Text_String t)" "valid_utf8 (Text_String t)"
  using assms ok_rope_facts(1)
  by (auto simp: ok_text_def Text_RuneLen_def LiveLen_lives Text_String_def)

text \<open>The live text as a list of characters with their identities.\<close>

definition cells :: "DocText \<Rightarrow> (nat \<times> ItemID) list" where
  "cells t = zip (runes (Text_String t)) (lives (text_entries t))"

lemma text_insert:
  assumes ok: "ok_text t" and v: "valid_utf8 s" "s \<noteq> []" and pos: "pos \<le> Text_RuneLen t"
    and rm: "room t (rune_count s)"
  obtains ids t' A B where "Text_InsertAt t (int pos) s = (Inr ids, t')" "ok_text t'"
    "Text_String t = A @ B" "rune_count A = pos" "Text_String t' = A @ s @ B" "valid_utf8 A" "valid_utf8 B"
    "length ids = rune_count s" "ids \<noteq> []"
    "lives (text_entries t') = take pos (lives (text_entries t)) @ ids @ drop pos (lives (text_entries t))"
    "fst ` set (text_entries t) \<subseteq> fst ` set (text_entries t')"
    "Text_Resolve t' \<lparr>Item = hd ids, ABias = Before\<rparr> = \<lparr>RKind = At, Offset = int pos\<rparr>"
    "Text_Resolve t' \<lparr>Item = last ids, ABias = After\<rparr>
       = \<lparr>RKind = At, Offset = int pos + int (rune_count s)\<rparr>"
    "gen_counter (text_gen t') = gen_counter (text_gen t) + of_nat (rune_count s)"
proof -
  note o = ok_textD[OF ok]
  obtain A B where AB: "String (text_rope t) = A @ B" "rune_count A = pos" "valid_utf8 A" "valid_utf8 B"
    using rope_store.rune_split[OF o(1), of pos] pos o(4) by (auto simp: Text_String_def)
  have off: "byteOffsetForRuneOffset t (int pos) = Inr (length A)"
    using rope_store.split_facts(1)[OF o(1) AB(1,4)] AB(2) by (simp add: byteOffsetForRuneOffset_def)
  obtain r' where r': "Insert (text_rope t) (int (length A)) s = Done r'" "ok_rope r'" "String r' = A @ s @ B"
    using rope_store.insert_split[OF o(1) AB(1,4) v(1)] .
  obtain ids g where g: "take_ids (rune_count s) (text_gen t) = (ids, g)" by fastforce
  have ids: "ids = fst (take_ids (rune_count s) (text_gen t))"
    "g = (text_gen t)\<lparr>gen_counter := gen_counter (text_gen t) + of_nat (rune_count s)\<rparr>"
    using g by (simp_all add: take_ids_spec)
  have bound: "unat (gen_counter (text_gen t)) + rune_count s < 2 ^ 64" using rm by (simp add: room_def)
  have cnt: "Actor i = gen_actor (text_gen t) \<and> unat (gen_counter (text_gen t)) < unat (Counter i) \<and>
      unat (Counter i) \<le> unat (gen_counter (text_gen t)) + rune_count s" if "i \<in> set ids" for i
    using take_ids_counter[OF bound] that ids(1) by blast
  have old: "Actor i = gen_actor (text_gen t) \<and> unat (Counter i) \<le> unat (gen_counter (text_gen t))"
    if "i \<in> fst ` set (text_entries t)" for i
    using ok that unfolding ok_text_def by blast
  have len: "length ids = rune_count s" using ids(1) by simp
  have "rune_count s \<noteq> 0" using v(2) by simp
  then have ne: "ids \<noteq> []" using len by (metis length_0_conv)
  have fresh: "set ids \<inter> fst ` set (text_entries t) = {}"
  proof (rule ccontr)
    assume "set ids \<inter> fst ` set (text_entries t) \<noteq> {}"
    then obtain i where "i \<in> set ids" "i \<in> fst ` set (text_entries t)" by blast
    then show False using cnt[of i] old[of i] by simp
  qed
  have dist: "distinct ids" using take_ids_distinct[OF bound] ids(1) by simp
  have pos': "pos \<le> length (lives (text_entries t))" using pos o(3,4) by simp
  obtain l' where l': "Log_InsertAt (text_log t) (int pos) ids = Inr l'" "ok_log l'"
    "lives (log_entries l') = take pos (lives (text_entries t)) @ ids @ drop pos (lives (text_entries t))"
    "fst ` set (log_entries l') = fst ` set (text_entries t) \<union> set ids"
    "Log_Resolve l' \<lparr>Item = hd ids, ABias = Before\<rparr> = \<lparr>RKind = At, Offset = int pos\<rparr>"
    "Log_Resolve l' \<lparr>Item = last ids, ABias = After\<rparr> = \<lparr>RKind = At, Offset = int pos + int (length ids)\<rparr>"
    using anchor_log.insert_resolves[OF o(2) dist fresh pos' ne] .
  let ?t = "t\<lparr>text_rope := r', text_log := l', text_gen := g\<rparr>"
  have "Text_InsertAt t (int pos) s = (Inr ids, ?t)"
    using v(2) pos off r'(1) g l'(1) by (simp add: Text_InsertAt_def rune_count_def)
  moreover have "ok_text ?t"
  proof -
    have g': "unat (gen_counter g) = unat (gen_counter (text_gen t)) + rune_count s"
      using bound ids(2) by (simp add: unat_word_ariths unat_of_nat)
    have st: "starts_rune B" "starts_rune (s @ B)"
      using AB(4) v(1) by (simp_all add: valid_utf8_starts valid_utf8_append)
    have "rune_count (A @ s @ B) = pos + rune_count s + rune_count B"
      using st AB(2) by (simp add: rune_count_append)
    moreover have "rune_count (Text_String t) = pos + rune_count B"
      using st AB(1,2) by (simp add: rune_count_append Text_String_def)
    ultimately have "length (lives (log_entries l')) = rune_count (A @ s @ B)"
      using l'(3) len o(3) by simp
    moreover have "Actor i = gen_actor g \<and> unat (Counter i) \<le> unat (gen_counter g)"
      if i: "i \<in> fst ` set (log_entries l')" for i
    proof (cases "i \<in> set ids")
      case True
      then show ?thesis using cnt[of i] g' ids(2) by simp
    next
      case False
      then have "i \<in> fst ` set (text_entries t)" using i l'(4) by simp
      then show ?thesis using old[of i] g' ids(2) by simp
    qed
    moreover have sel: "text_rope ?t = r'" "text_log ?t = l'" "text_gen ?t = g" by simp_all
    ultimately show ?thesis
      unfolding ok_text_def Text_String_def sel r'(3) using r'(2) l'(2) by blast
  qed
  moreover have "Text_Resolve ?t \<lparr>Item = hd ids, ABias = Before\<rparr> = \<lparr>RKind = At, Offset = int pos\<rparr>"
    "Text_Resolve ?t \<lparr>Item = last ids, ABias = After\<rparr>
       = \<lparr>RKind = At, Offset = int pos + int (rune_count s)\<rparr>"
    using l'(5,6) len by (simp_all add: Text_Resolve_def)
  moreover have "Text_String t = A @ B" "Text_String ?t = A @ s @ B"
    using AB(1) r'(3) by (simp_all add: Text_String_def)
  moreover have "gen_counter (text_gen ?t) = gen_counter (text_gen t) + of_nat (rune_count s)"
    "lives (text_entries ?t) = take pos (lives (text_entries t)) @ ids @ drop pos (lives (text_entries t))"
    "fst ` set (text_entries t) \<subseteq> fst ` set (text_entries ?t)"
    using ids(2) l'(3,4) by auto
  ultimately show ?thesis
    using that AB(2-4) len ne by metis
qed

lemma text_delete:
  assumes ok: "ok_text t" and jk: "j < k" "k \<le> Text_RuneLen t"
  obtains t' A M B where "DeleteRange t (int j) (int k) = (None, t')" "ok_text t'"
    "Text_String t = A @ M @ B" "rune_count A = j" "rune_count M = k - j" "Text_String t' = A @ B"
    "valid_utf8 A" "valid_utf8 M" "valid_utf8 B" "Text_Slice t (int j) (int k) = Inr M"
    "lives (text_entries t') = take j (lives (text_entries t)) @ drop k (lives (text_entries t))"
    "\<And>a. RKind (Text_Resolve t a) \<noteq> Unknown \<Longrightarrow> RKind (Text_Resolve t' a) \<noteq> Unknown \<and>
       Offset (Text_Resolve t' a) = shifted j k (Offset (Text_Resolve t a))"
    "text_gen t' = text_gen t"
proof -
  note o = ok_textD[OF ok]
  let ?C = "String (text_rope t)"
  obtain X B where X: "?C = X @ B" "rune_count X = k" "valid_utf8 X" "valid_utf8 B"
    using rope_store.rune_split[OF o(1), of k] jk o(4) by (auto simp: Text_String_def)
  let ?A = "take (rune_bytes j X) X" and ?M = "drop (rune_bytes j X) X"
  have v: "valid_utf8 ?A" "valid_utf8 ?M"
    using valid_take_runes[OF X(3)] valid_drop_runes[OF X(3)] by simp_all
  have A: "rune_count ?A = j"
    using runes_take_bytes[OF X(3), of j] jk(1) X(2) by (simp add: rune_count_def)
  have M: "rune_count ?M = k - j"
    using runes_drop_bytes[of j X] jk(1) X(2) by (simp add: rune_count_def)
  have C: "?C = ?A @ ?M @ B" using X(1) by (metis append.assoc append_take_drop_id)
  have off: "byteOffsetForRuneOffset t (int j) = Inr (length ?A)"
    using rope_store.split_facts(1)[OF o(1) C valid_utf8_append[OF v(2) X(4)]] A
    by (simp add: byteOffsetForRuneOffset_def)
  have off2: "byteOffsetForRuneOffset t (int k) = Inr (length ?A + length ?M)"
    using rope_store.split_facts(1)[OF o(1) X(1,4)] X(2) rune_bytes_le[of j X]
    by (simp add: byteOffsetForRuneOffset_def)
  obtain r' where r': "Delete (text_rope t) (int (length ?A)) (int (length ?A + length ?M)) = Done r'"
    "ok_rope r'" "String r' = ?A @ B"
    using rope_store.delete_split[OF o(1) C v(2) X(4)] .
  have sl: "Slice (text_rope t) (int (length ?A)) (int (length ?A + length ?M)) = Inr ?M"
    using rope_store.slice_split[OF o(1) C v(2) X(4)] .
  have k': "j \<le> k" "k \<le> length (lives (text_entries t))" using jk o(3,4) by simp_all
  obtain l' where l': "Tombstone (text_log t) (int j) (int k) = Inr l'" "ok_log l'"
    "lives (log_entries l') = take j (lives (text_entries t)) @ drop k (lives (text_entries t))"
    "fst ` set (log_entries l') = fst ` set (text_entries t)"
    "\<And>a. RKind (Log_Resolve (text_log t) a) \<noteq> Unknown \<Longrightarrow> RKind (Log_Resolve l' a) \<noteq> Unknown \<and>
       Offset (Log_Resolve l' a) = shifted j k (Offset (Log_Resolve (text_log t) a))"
    using anchor_log.tombstone_resolves[OF o(2) k'] by metis
  let ?t = "t\<lparr>text_rope := r', text_log := l'\<rparr>"
  have "DeleteRange t (int j) (int k) = (None, ?t)"
    using jk off off2 r'(1) l'(1) by (simp add: DeleteRange_def del: length_take length_drop)
  moreover have "Text_Slice t (int j) (int k) = Inr ?M"
    using jk off off2 sl by (simp add: Text_Slice_def del: length_take length_drop)
  moreover have "ok_text ?t"
  proof -
    have "rune_count (?A @ B) = j + rune_count B"
      using rune_count_append[OF valid_utf8_starts[OF X(4)], of ?A] A by simp
    moreover have "rune_count ?C = k + rune_count B"
      using rune_count_append[OF valid_utf8_starts[OF X(4)], of X] X(1,2) by simp
    ultimately have "length (lives (log_entries l')) = rune_count (?A @ B)"
      using l'(3) o(3) k' by (simp add: Text_String_def)
    then show ?thesis
      using ok r'(2,3) l'(2,4) by (simp add: ok_text_def Text_String_def)
  qed
  ultimately show ?thesis
    using that[of ?t ?A ?M B] C A M r'(3) v X(4) l'(3,5) by (simp add: Text_String_def Text_Resolve_def)
qed

lemma cells_insert:
  assumes "Text_String t = A @ B" and "Text_String t' = A @ s @ B" and "valid_utf8 s" and "valid_utf8 B"
    and "length (lives (text_entries t)) = rune_count (Text_String t)" and "length ids = rune_count s"
    and "lives (text_entries t') = take (rune_count A) (lives (text_entries t)) @ ids
       @ drop (rune_count A) (lives (text_entries t))"
  shows "cells t' = take (rune_count A) (cells t) @ zip (runes s) ids @ drop (rune_count A) (cells t)"
proof -
  have st: "starts_rune B" "starts_rune (s @ B)"
    using assms(3,4) by (simp_all add: valid_utf8_starts valid_utf8_append)
  have r: "runes (Text_String t) = runes A @ runes B" "runes (Text_String t') = runes A @ runes s @ runes B"
    using assms(1,2) st by (simp_all add: runes_append)
  have n: "length (runes A) = rune_count A" "length (lives (text_entries t)) = rune_count A + length (runes B)"
    using assms(5) r(1) by (simp_all add: rune_count_def)
  then show ?thesis
    unfolding cells_def r assms(7)
    using assms(6) by (simp add: zip_append take_zip drop_zip rune_count_def)
qed

lemma cells_delete:
  assumes "Text_String t = A @ M @ B" and "Text_String t' = A @ B" and "valid_utf8 M" and "valid_utf8 B"
    and "rune_count A = j" and "rune_count M = k - j" and "j \<le> k"
    and "length (lives (text_entries t)) = rune_count (Text_String t)"
    and "lives (text_entries t') = take j (lives (text_entries t)) @ drop k (lives (text_entries t))"
  shows "cells t' = take j (cells t) @ drop k (cells t)"
proof -
  have st: "starts_rune B" "starts_rune (M @ B)"
    using assms(3,4) by (simp_all add: valid_utf8_starts valid_utf8_append)
  have r: "runes (Text_String t) = runes A @ runes M @ runes B" "runes (Text_String t') = runes A @ runes B"
    using assms(1,2) st by (simp_all add: runes_append)
  have n: "length (runes A) = j" "length (runes M) = k - j"
    "length (lives (text_entries t)) = k + length (runes B)"
    using assms(5-8) r(1) by (simp_all add: rune_count_def)
  then show ?thesis
    unfolding cells_def r assms(9)
    using assms(7) by (simp add: zip_append take_zip drop_zip)
qed

subsection \<open>Properties\<close>

text \<open>The live text is a list of characters, each with an identity of its own. InsertAt
  splices the runes of the string in at the rune offset and pairs each with a fresh identity,
  DeleteRange cuts the range out, both keep the rope and the log in step, and an anchor on a
  live character resolves to the place of that character.\<close>

theorem text_edits_cells:
  assumes "ok_text t" and "valid_utf8 s" and "s \<noteq> []" and "pos \<le> Text_RuneLen t"
    and "room t (rune_count s)" and "j < k" and "k \<le> Text_RuneLen t"
  shows "(\<exists>ids t'. Text_InsertAt t (int pos) s = (Inr ids, t') \<and> ok_text t' \<and>
      length ids = rune_count s \<and>
      cells t' = take pos (cells t) @ zip (runes s) ids @ drop pos (cells t)) \<and>
    (\<exists>t'. DeleteRange t (int j) (int k) = (None, t') \<and> ok_text t' \<and>
      cells t' = take j (cells t) @ drop k (cells t)) \<and>
    (\<forall>i b. i < length (cells t) \<longrightarrow> Text_Resolve t \<lparr>Item = snd (cells t ! i), ABias = b\<rparr>
       = \<lparr>RKind = At, Offset = int i + (if b = After then 1 else 0)\<rparr>)"
proof (intro conjI)
  note o = ok_textD[OF assms(1)]
  obtain ids t' A B where i: "Text_InsertAt t (int pos) s = (Inr ids, t')" "ok_text t'"
    "Text_String t = A @ B" "rune_count A = pos" "Text_String t' = A @ s @ B" "valid_utf8 B"
    "length ids = rune_count s"
    "lives (text_entries t') = take pos (lives (text_entries t)) @ ids @ drop pos (lives (text_entries t))"
    using text_insert[OF assms(1-5)] by metis
  then show "\<exists>ids t'. Text_InsertAt t (int pos) s = (Inr ids, t') \<and> ok_text t' \<and>
      length ids = rune_count s \<and>
      cells t' = take pos (cells t) @ zip (runes s) ids @ drop pos (cells t)"
    using cells_insert[of t A B t' s ids] assms(2) o(3) by metis
  obtain t' A M B where d: "DeleteRange t (int j) (int k) = (None, t')" "ok_text t'"
    "Text_String t = A @ M @ B" "rune_count A = j" "rune_count M = k - j" "Text_String t' = A @ B"
    "valid_utf8 M" "valid_utf8 B"
    "lives (text_entries t') = take j (lives (text_entries t)) @ drop k (lives (text_entries t))"
    using text_delete[OF assms(1,6,7)] by metis
  then show "\<exists>t'. DeleteRange t (int j) (int k) = (None, t') \<and> ok_text t' \<and>
      cells t' = take j (cells t) @ drop k (cells t)"
    using cells_delete[OF d(3,6,7,8,4,5) _ o(3) d(9)] assms(6) by auto
  show "\<forall>i b. i < length (cells t) \<longrightarrow> Text_Resolve t \<lparr>Item = snd (cells t ! i), ABias = b\<rparr>
       = \<lparr>RKind = At, Offset = int i + (if b = After then 1 else 0)\<rparr>"
    using anchor_log.resolve_nth[OF o(2)] o(3)
    by (simp add: cells_def Text_Resolve_def rune_count_def)
qed

definition sample_text :: DocText where
  "sample_text = snd (Text_InsertAt (New_text ''doc'') 0 ''hello'')"

lemma sample_text_ok: "ok_text sample_text" "Text_RuneLen sample_text = 5" "room sample_text 1000"
proof -
  have c: "rune_count ''hello'' = 5" and v: "valid_utf8 ''hello''" by code_simp+
  have r: "room (New_text ''doc'') (rune_count ''hello'')"
    unfolding c by (simp add: room_def New_text_def NewIDGenerator_def)
  obtain ids t' A B where t': "Text_InsertAt (New_text ''doc'') (int 0) ''hello'' = (Inr ids, t')"
    "ok_text t'" "Text_String (New_text ''doc'') = A @ B" "Text_String t' = A @ ''hello'' @ B"
    "gen_counter (text_gen t') = gen_counter (text_gen (New_text ''doc'')) + of_nat (rune_count ''hello'')"
  proof -
    have "''hello'' \<noteq> []" "0 \<le> Text_RuneLen (New_text ''doc'')" by simp_all
    from text_insert[OF ok_New v this r] show ?thesis using that by metis
  qed
  then have "t' = sample_text" by (simp add: sample_text_def)
  then show ok: "ok_text sample_text" using t'(2) by simp
  have "Text_String sample_text = ''hello''"
    using t'(3,4) \<open>t' = sample_text\<close> by (simp add: New_text_def Text_String_def)
  then show "Text_RuneLen sample_text = 5" using ok_textD(4)[OF ok] c by simp
  have "gen_counter (text_gen sample_text) = 5"
    using t'(5) c \<open>t' = sample_text\<close> by (simp add: New_text_def NewIDGenerator_def)
  then show "room sample_text 1000" by (simp add: room_def)
qed

theorem text_edits_cells_witness:
  "(\<exists>ids t'. Text_InsertAt sample_text 2 ''xy'' = (Inr ids, t') \<and> length ids = 2 \<and>
      cells t' = take 2 (cells sample_text) @ zip (runes ''xy'') ids @ drop 2 (cells sample_text)) \<and>
   (\<exists>t'. DeleteRange sample_text 1 4 = (None, t') \<and>
      cells t' = take 1 (cells sample_text) @ drop 4 (cells sample_text))"
proof -
  have "valid_utf8 ''xy''" "rune_count ''xy'' = 2" by code_simp+
  moreover have "room sample_text 2" using sample_text_ok(3) by (simp add: room_def)
  ultimately show ?thesis
    using text_edits_cells[OF sample_text_ok(1), of "''xy''" 2 1 4] sample_text_ok(2) by auto
qed

end
