(* ===== verification/TextOps.thy ===== *)
theory TextOps
  imports DocText
begin

text \<open>
  Package internal/ops of collaboration-service (ops.go, ops_json.go): the character-granular
  operations on the live text. \<open>Apply\<close> returns the inverse with the changed text, because the
  inverse of an insertion names identities that the insertion itself creates.
\<close>

datatype text_op =
    InsertText "Anchor option" string
  | DeleteText AnchorRange string
  | NoOp

datatype op_error = UnknownAnchor | TextFailed text_error

definition TypeName :: "text_op \<Rightarrow> string" where
  "TypeName op = (case op of InsertText _ _ \<Rightarrow> ''InsertText'' | DeleteText _ _ \<Rightarrow> ''DeleteText''
     | NoOp \<Rightarrow> ''NoOp'')"

definition resolveInsertPosition :: "DocText \<Rightarrow> Anchor option \<Rightarrow> op_error + int" where
  "resolveInsertPosition text at = (case at of
     None \<Rightarrow> Inr 0
   | Some a \<Rightarrow> (let resolved = Text_Resolve text a in
       if RKind resolved = Unknown then Inl UnknownAnchor else Inr (Offset resolved)))"

definition resolveRange :: "DocText \<Rightarrow> AnchorRange \<Rightarrow> op_error + int \<times> int" where
  "resolveRange text r =
     (let startResolved = Text_Resolve text (RStart r) in
      if RKind startResolved = Unknown then Inl UnknownAnchor
      else (let endResolved = Text_Resolve text (REnd r) in
        if RKind endResolved = Unknown then Inl UnknownAnchor
        else (let start = Offset startResolved; stop = Offset endResolved in
          Inr (if stop < start then (stop, start) else (start, stop)))))"

definition validateReinsertPosition :: "Resolved \<Rightarrow> op_error option" where
  "validateReinsertPosition r = (if RKind r = Unknown then Some UnknownAnchor else None)"

definition applyInsertText :: "DocText \<Rightarrow> Anchor option \<Rightarrow> string \<Rightarrow> (op_error + text_op) \<times> DocText" where
  "applyInsertText text at s =
     (case resolveInsertPosition text at of
        Inl e \<Rightarrow> (Inl e, text)
      | Inr pos \<Rightarrow>
         (case Text_InsertAt text pos s of
            (Inl e, text') \<Rightarrow> (Inl (TextFailed e), text')
          | (Inr ids, text') \<Rightarrow>
             if ids = [] then (Inr NoOp, text')
             else (Inr (DeleteText \<lparr>RStart = \<lparr>Item = hd ids, ABias = Before\<rparr>,
                     REnd = \<lparr>Item = last ids, ABias = After\<rparr>\<rparr> s), text')))"

definition applyDeleteText :: "DocText \<Rightarrow> AnchorRange \<Rightarrow> (op_error + text_op) \<times> DocText" where
  "applyDeleteText text r =
     (case resolveRange text r of
        Inl e \<Rightarrow> (Inl e, text)
      | Inr (start, stop) \<Rightarrow>
         if start = stop then (Inr NoOp, text)
         else (case Text_Slice text start stop of
             Inl e \<Rightarrow> (Inl (TextFailed e), text)
           | Inr deleted \<Rightarrow>
              (case DeleteRange text start stop of
                 (Some e, text') \<Rightarrow> (Inl (TextFailed e), text')
               | (None, text') \<Rightarrow>
                  (case validateReinsertPosition (Text_Resolve text' (RStart r)) of
                     Some e \<Rightarrow> (Inl e, text')
                   | None \<Rightarrow> (Inr (InsertText (Some (RStart r)) deleted), text')))))"

fun ops_Apply :: "DocText \<Rightarrow> text_op \<Rightarrow> (op_error + text_op) \<times> DocText" where
  "ops_Apply text (InsertText at s) = applyInsertText text at s"
| "ops_Apply text (DeleteText r s) = applyDeleteText text r"
| "ops_Apply text NoOp = (Inr NoOp, text)"

subsection \<open>Behaviour\<close>

fun op_text :: "text_op \<Rightarrow> string" where
  "op_text (InsertText at s) = s"
| "op_text _ = []"

fun anchors_of :: "text_op \<Rightarrow> Anchor set" where
  "anchors_of (InsertText (Some a) s) = {a}"
| "anchors_of (DeleteText r s) = {RStart r, REnd r}"
| "anchors_of _ = {}"

definition known :: "DocText \<Rightarrow> Anchor \<Rightarrow> bool" where
  "known t a \<longleftrightarrow> Item a \<in> fst ` set (text_entries t)"

lemma resolve_known_iff:
  assumes "ok_text t"
  shows "RKind (Text_Resolve t a) \<noteq> Unknown \<longleftrightarrow> known t a"
  using anchor_log.resolve_unknown[OF ok_textD(2)[OF assms]] by (simp add: Text_Resolve_def known_def)

lemma resolve_offset:
  assumes "ok_text t"
  obtains n where "Offset (Text_Resolve t a) = int n" "n \<le> Text_RuneLen t"
proof -
  have "0 \<le> Offset (Text_Resolve t a) \<and> Offset (Text_Resolve t a) \<le> int (Text_RuneLen t)"
    using anchor_log.resolve_in_range[OF ok_textD(2)[OF assms], of a] ok_textD(3,4)[OF assms]
    by (simp add: Text_Resolve_def)
  then have "Offset (Text_Resolve t a) = int (nat (Offset (Text_Resolve t a)))"
    "nat (Offset (Text_Resolve t a)) \<le> Text_RuneLen t" by linarith+
  then show ?thesis by (rule that)
qed

lemma InsertText_pos:
  assumes "ok_text t" and "\<forall>a\<in>anchors_of (InsertText at s). known t a"
  obtains n where "resolveInsertPosition t at = Inr (int n)" "n \<le> Text_RuneLen t"
proof (cases at)
  case None
  then show ?thesis using that[of 0] by (simp add: resolveInsertPosition_def)
next
  case (Some a)
  obtain n where "Offset (Text_Resolve t a) = int n" "n \<le> Text_RuneLen t"
    using resolve_offset[OF assms(1)] .
  then show ?thesis
    using that[of n] Some assms(2) resolve_known_iff[OF assms(1), of a]
    by (simp add: resolveInsertPosition_def Let_def)
qed

lemma DeleteText_range:
  assumes "ok_text t" and "\<forall>a\<in>anchors_of (DeleteText r s). known t a"
  obtains j k where "resolveRange t r = Inr (int j, int k)" "j \<le> k" "k \<le> Text_RuneLen t"
    "Offset (Text_Resolve t (RStart r)) = int j \<or> Offset (Text_Resolve t (RStart r)) = int k"
proof -
  obtain m where m: "Offset (Text_Resolve t (RStart r)) = int m" "m \<le> Text_RuneLen t"
    using resolve_offset[OF assms(1)] .
  obtain n where n: "Offset (Text_Resolve t (REnd r)) = int n" "n \<le> Text_RuneLen t"
    using resolve_offset[OF assms(1)] .
  have "resolveRange t r = Inr (if n < m then (int n, int m) else (int m, int n))"
    using assms(2) resolve_known_iff[OF assms(1)] m n by (simp add: resolveRange_def Let_def)
  then show ?thesis using that[of n m] that[of m n] m n by (cases "n < m") auto
qed

text \<open>An insertion at a known place, and its inverse.\<close>

lemma insert_then_delete:
  assumes ok: "ok_text t" and v: "valid_utf8 s" "s \<noteq> []" and n: "n \<le> Text_RuneLen t"
    and rm: "room t (rune_count s)"
    and pos: "resolveInsertPosition t at = Inr (int n)"
  obtains inv t' A B where "applyInsertText t at s = (Inr inv, t')" "ok_text t'"
    "Text_String t = A @ B" "rune_count A = n" "Text_String t' = A @ s @ B" "valid_utf8 B"
    "gen_counter (text_gen t') = gen_counter (text_gen t) + of_nat (rune_count s)"
    "\<exists>r t''. inv = DeleteText r s \<and> applyDeleteText t' r = (Inr (InsertText (Some (RStart r)) s), t'')
       \<and> ok_text t'' \<and> Text_String t'' = Text_String t"
proof -
  obtain ids t' A B where i: "Text_InsertAt t (int n) s = (Inr ids, t')" "ok_text t'"
    "Text_String t = A @ B" "rune_count A = n" "Text_String t' = A @ s @ B" "valid_utf8 A" "valid_utf8 B"
    "ids \<noteq> []"
    "Text_Resolve t' \<lparr>Item = hd ids, ABias = Before\<rparr> = \<lparr>RKind = At, Offset = int n\<rparr>"
    "Text_Resolve t' \<lparr>Item = last ids, ABias = After\<rparr>
       = \<lparr>RKind = At, Offset = int n + int (rune_count s)\<rparr>"
    "gen_counter (text_gen t') = gen_counter (text_gen t) + of_nat (rune_count s)"
    using text_insert[OF ok v n rm] by metis
  let ?r = "\<lparr>RStart = \<lparr>Item = hd ids, ABias = Before\<rparr>, REnd = \<lparr>Item = last ids, ABias = After\<rparr>\<rparr>"
  have ap: "applyInsertText t at s = (Inr (DeleteText ?r s), t')"
    using pos i(1,8) by (simp add: applyInsertText_def)
  let ?k = "n + rune_count s"
  have pos0: "0 < rune_count s" using v(2) by (metis rune_count_0_iff gr0I)
  have st: "starts_rune B" "starts_rune (s @ B)"
    using i(7) v(1) by (simp_all add: valid_utf8_starts valid_utf8_append)
  have rc: "rune_count (Text_String t') = n + rune_count s + rune_count B"
    using st i(4,5) by (simp add: rune_count_append)
  then have k: "n < ?k" "?k \<le> Text_RuneLen t'" using pos0 ok_textD(4)[OF i(2)] by simp_all
  have rr: "resolveRange t' ?r = Inr (int n, int ?k)"
    using i(9,10) by (simp add: resolveRange_def Let_def)
  obtain t'' A' M B' where d: "DeleteRange t' (int n) (int ?k) = (None, t'')" "ok_text t''"
    "Text_String t' = A' @ M @ B'" "rune_count A' = n" "rune_count M = ?k - n" "Text_String t'' = A' @ B'"
    "valid_utf8 A'" "valid_utf8 M" "valid_utf8 B'" "Text_Slice t' (int n) (int ?k) = Inr M"
    "\<And>a. RKind (Text_Resolve t' a) \<noteq> Unknown \<Longrightarrow> RKind (Text_Resolve t'' a) \<noteq> Unknown"
    using text_delete[OF i(2) k] by metis
  have same: "A' = A" "M = s" "B' = B"
    using rune_cut3[of A s B A' M B'] i(4,5,7) d(3,4,5,8,9) v(1) by simp_all
  have "RKind (Text_Resolve t'' (RStart ?r)) \<noteq> Unknown" using d(11) i(9) by simp
  then have del: "applyDeleteText t' ?r = (Inr (InsertText (Some (RStart ?r)) s), t'')"
    using rr k(1) d(1,10) same v(2) by (simp add: applyDeleteText_def validateReinsertPosition_def)
  have "Text_String t'' = Text_String t" using d(6) same i(3) by simp
  then show ?thesis
    using del d(2) by (intro that[OF ap i(2-5,7,11)] exI[of _ ?r] exI[of _ t''] conjI refl)
qed

lemma delete_then_insert:
  assumes ok: "ok_text t" and jk: "j < k" "k \<le> Text_RuneLen t"
    and rr: "resolveRange t r = Inr (int j, int k)"
    and ends: "Offset (Text_Resolve t (RStart r)) = int j \<or> Offset (Text_Resolve t (RStart r)) = int k"
    and kn: "known t (RStart r)" and rm: "room t (Text_RuneLen t)"
  obtains M t' A B where "applyDeleteText t r = (Inr (InsertText (Some (RStart r)) M), t')" "ok_text t'"
    "Text_String t = A @ M @ B" "rune_count A = j" "rune_count M = k - j" "Text_String t' = A @ B"
    "\<exists>inv t''. applyInsertText t' (Some (RStart r)) M = (Inr inv, t'') \<and> ok_text t'' \<and>
       Text_String t'' = Text_String t"
proof -
  obtain t' A M B where d: "DeleteRange t (int j) (int k) = (None, t')" "ok_text t'"
    "Text_String t = A @ M @ B" "rune_count A = j" "rune_count M = k - j" "Text_String t' = A @ B"
    "valid_utf8 A" "valid_utf8 M" "valid_utf8 B" "Text_Slice t (int j) (int k) = Inr M"
    "\<And>a. RKind (Text_Resolve t a) \<noteq> Unknown \<Longrightarrow> RKind (Text_Resolve t' a) \<noteq> Unknown \<and>
       Offset (Text_Resolve t' a) = shifted j k (Offset (Text_Resolve t a))"
    "text_gen t' = text_gen t"
    using text_delete[OF ok jk] by metis
  have res: "RKind (Text_Resolve t' (RStart r)) \<noteq> Unknown" "Offset (Text_Resolve t' (RStart r)) = int j"
    using d(11)[of "RStart r"] kn resolve_known_iff[OF ok] ends jk(1) by (auto simp: shifted_def)
  have ap: "applyDeleteText t r = (Inr (InsertText (Some (RStart r)) M), t')"
    using rr jk d(1,10) res by (simp add: applyDeleteText_def validateReinsertPosition_def)
  have pos: "resolveInsertPosition t' (Some (RStart r)) = Inr (int j)"
    using res by (simp add: resolveInsertPosition_def Let_def)
  have M: "M \<noteq> []" using d(5) jk(1) by auto
  have "rune_count (Text_String t') = j + rune_count B"
    using d(4,6,9) by (simp add: rune_count_append valid_utf8_starts)
  then have j: "j \<le> Text_RuneLen t'" using ok_textD(4)[OF d(2)] by simp
  have rm': "room t' (rune_count M)"
    using rm d(5,12) jk(2) by (simp add: room_def)
  obtain inv t'' A' B' where i: "applyInsertText t' (Some (RStart r)) M = (Inr inv, t'')" "ok_text t''"
    "Text_String t' = A' @ B'" "rune_count A' = j" "Text_String t'' = A' @ M @ B'"
    "valid_utf8 B'"
    using insert_then_delete[OF d(2,8) M j rm' pos] by metis
  then have "A' = A" "B' = B"
    using rune_cut2[of A B A' B'] d(4,6,9) valid_utf8_starts by auto
  then show ?thesis using that[OF ap d(2-6)] i d(3) by metis
qed

lemma ops_Apply_inverts:
  assumes "ok_text t" and "valid_utf8 (op_text op)" and "\<forall>a\<in>anchors_of op. known t a"
    and "room t (rune_count (op_text op) + Text_RuneLen t)"
  shows "\<exists>undo t'. ops_Apply t op = (Inr undo, t') \<and> ok_text t' \<and>
    (\<exists>redo t''. ops_Apply t' undo = (Inr redo, t'') \<and> ok_text t'' \<and> Text_String t'' = Text_String t)"
proof (cases op)
  case (InsertText at s)
  obtain n where n: "resolveInsertPosition t at = Inr (int n)" "n \<le> Text_RuneLen t"
    using InsertText_pos[OF assms(1)] assms(3) InsertText by metis
  show ?thesis
  proof (cases "s = []")
    case True
    then have "applyInsertText t at s = (Inr NoOp, t)"
      using n by (simp add: applyInsertText_def Text_InsertAt_def)
    then show ?thesis using InsertText assms(1) by simp
  next
    case False
    have rm: "room t (rune_count s)" using assms(4) InsertText by (simp add: room_def)
    have "valid_utf8 s" using assms(2) InsertText by simp
    from insert_then_delete[OF assms(1) this False n(2) rm n(1)] obtain undo t' where
      "applyInsertText t at s = (Inr undo, t')" "ok_text t'"
      "\<exists>r t''. undo = DeleteText r s \<and> applyDeleteText t' r = (Inr (InsertText (Some (RStart r)) s), t'')
       \<and> ok_text t'' \<and> Text_String t'' = Text_String t" by metis
    then show ?thesis using InsertText by auto
  qed
next
  case (DeleteText r s)
  obtain j k where jk: "resolveRange t r = Inr (int j, int k)" "j \<le> k" "k \<le> Text_RuneLen t"
    "Offset (Text_Resolve t (RStart r)) = int j \<or> Offset (Text_Resolve t (RStart r)) = int k"
    using DeleteText_range[OF assms(1), of r s] assms(3) DeleteText by metis
  show ?thesis
  proof (cases "j = k")
    case True
    then have "applyDeleteText t r = (Inr NoOp, t)" using jk by (simp add: applyDeleteText_def)
    then show ?thesis using DeleteText assms(1) by simp
  next
    case False
    have rm: "room t (Text_RuneLen t)" using assms(4) by (simp add: room_def)
    have "j < k" "known t (RStart r)" using False jk(2) assms(3) DeleteText by simp_all
    from delete_then_insert[OF assms(1) this(1) jk(3,1,4) this(2) rm] obtain M t' where
      "applyDeleteText t r = (Inr (InsertText (Some (RStart r)) M), t')" "ok_text t'"
      "\<exists>inv t''. applyInsertText t' (Some (RStart r)) M = (Inr inv, t'') \<and> ok_text t'' \<and>
       Text_String t'' = Text_String t" by metis
    then show ?thesis using DeleteText by auto
  qed
qed (use assms(1) in simp)

lemma ops_Apply_unknown:
  assumes "ok_text t" and "a \<in> anchors_of op" and "\<not> known t a"
  shows "ops_Apply t op = (Inl UnknownAnchor, t)"
proof (cases op)
  case (InsertText at s)
  then have "at = Some a" using assms(2) by (cases at) auto
  then show ?thesis
    using InsertText assms(3) resolve_known_iff[OF assms(1), of a]
    by (simp add: applyInsertText_def resolveInsertPosition_def Let_def)
next
  case (DeleteText r s)
  then have "resolveRange t r = Inl UnknownAnchor"
    using assms(2,3) resolve_known_iff[OF assms(1), of a] by (auto simp: resolveRange_def Let_def)
  then show ?thesis using DeleteText by (simp add: applyDeleteText_def)
qed (use assms(2) in simp)

subsection \<open>Properties\<close>

text \<open>C4: character operations are invertible. On a live text in step with its log, an
  operation whose anchors the log knows succeeds, and applying the inverse it returns
  succeeds too and gives the text back byte for byte. This covers ranges given in either
  order and ranges whose ends have been deleted meanwhile.\<close>

theorem text_ops_invertible:
  assumes "ok_text t" and "valid_utf8 (op_text op)" and "\<forall>a\<in>anchors_of op. known t a"
    and "room t (rune_count (op_text op) + Text_RuneLen t)"
  shows "\<exists>undo t'. ops_Apply t op = (Inr undo, t') \<and> ok_text t' \<and>
    (\<exists>redo t''. ops_Apply t' undo = (Inr redo, t'') \<and> ok_text t'' \<and> Text_String t'' = Text_String t)"
  using assms by (rule ops_Apply_inverts)

theorem text_ops_invertible_witness:
  "\<exists>undo t'. ops_Apply sample_text (InsertText None ''ab'') = (Inr undo, t') \<and>
    (\<exists>redo t''. ops_Apply t' undo = (Inr redo, t'') \<and> Text_String t'' = Text_String sample_text)"
proof -
  have c: "rune_count ''ab'' = 2" "valid_utf8 ''ab''" by code_simp+
  then have "room sample_text (rune_count (op_text (InsertText None ''ab'')) + Text_RuneLen sample_text)"
    using sample_text_ok(2,3) by (simp add: room_def)
  then show ?thesis
    using text_ops_invertible[OF sample_text_ok(1), of "InsertText None ''ab''"] c(2) by auto
qed

text \<open>An operation that names an identity the text never saw fails with the unknown-anchor
  error and leaves the text as it was.\<close>

theorem unknown_anchor_refused:
  assumes "ok_text t" and "a \<in> anchors_of op" and "\<not> known t a"
  shows "ops_Apply t op = (Inl UnknownAnchor, t)"
  using assms by (rule ops_Apply_unknown)

theorem unknown_anchor_refused_witness:
  "ops_Apply (New_text ''doc'') (InsertText (Some \<lparr>Item = \<lparr>Actor = ''x'', Counter = 1\<rparr>, ABias = After\<rparr>) ''y'')
     = (Inl UnknownAnchor, New_text ''doc'')"
proof -
  let ?a = "\<lparr>Item = \<lparr>Actor = ''x'', Counter = 1\<rparr>, ABias = After\<rparr>"
  have "\<not> known (New_text ''doc'') ?a" by (simp add: known_def New_text_def NewLog_ok(2))
  then show ?thesis
    using unknown_anchor_refused[OF ok_New, of ?a "InsertText (Some ?a) ''y''"] by simp
qed

end
