(* ===== verification/LiveDoc.thy ===== *)
theory LiveDoc
  imports PageLaws TextOps
begin

text \<open>
  Packages internal/pageop and internal/session of collaboration-service, the document part:
  a page operation is either structural or a character operation inside one block; a live
  document is the page beside one live text per block. The definitions are
  \<open>applyBlockOp\<close>, \<open>syncBlockContent\<close> and \<open>applyReplayedOp\<close> of session.go; the map
  \<open>blocks\<close> is a partial function from block identities to texts.
\<close>

datatype page_op = BlockOp Op | TextOp uuid text_op

definition page_TypeName :: "page_op \<Rightarrow> string" where
  "page_TypeName op = (case op of BlockOp o1 \<Rightarrow> ''block:'' @ Op_TypeName o1
     | TextOp b o2 \<Rightarrow> ''text:'' @ TypeName o2)"

record LiveDoc =
  dPage :: Page
  dBlocks :: "uuid \<rightharpoonup> DocText"

datatype session_error =
    SeedFailed text_error
  | PageFailed apply_error
  | UnknownBlock
  | OpsFailed op_error
  | Denied
  | OutOfRange
  | InvalidActorKind
  | IDFailed
  | WALFailed
  | RepoFailed
  | FileFailed
  | DecodeFailed

subsection \<open>Structural operations\<close>

definition seed_text :: "string \<Rightarrow> string \<Rightarrow> text_error + DocText" where
  "seed_text serverActor s =
     (let text = New_text serverActor in
      if s = [] then Inr text
      else (case Text_InsertAt text 0 s of (Inl e, t) \<Rightarrow> Inl e | (Inr ids, t) \<Rightarrow> Inr t))"

definition seed_for :: "string \<Rightarrow> Op \<Rightarrow> text_error + DocText option" where
  "seed_for serverActor op = (case op of
     InsertBlock bid parent aft kind content \<Rightarrow> map_sum id Some (seed_text serverActor (Text content))
   | SetBlockContent bid prev content \<Rightarrow> map_sum id Some (seed_text serverActor (Text content))
   | _ \<Rightarrow> Inr None)"

definition store_seed :: "(uuid \<rightharpoonup> DocText) \<Rightarrow> Op \<Rightarrow> DocText option \<Rightarrow> (uuid \<rightharpoonup> DocText)" where
  "store_seed blocks op seeded = (case op of
     InsertBlock bid parent aft kind content \<Rightarrow> blocks(bid := seeded)
   | DeleteBlock tombstone aft \<Rightarrow> blocks(ID tombstone := None)
   | SetBlockContent bid prev content \<Rightarrow> blocks(bid := seeded)
   | _ \<Rightarrow> blocks)"

definition applyBlockOp :: "string \<Rightarrow> LiveDoc \<Rightarrow> Op \<Rightarrow> (session_error, LiveDoc) outcome option" where
  "applyBlockOp serverActor d op = (case seed_for serverActor op of
     Inl e \<Rightarrow> Some (Failed (SeedFailed e) d)
   | Inr seeded \<Rightarrow> (case Apply (dPage d) op of
        None \<Rightarrow> None
      | Some (Failed e p) \<Rightarrow> Some (Failed (PageFailed e) (d\<lparr>dPage := p\<rparr>))
      | Some (Done p) \<Rightarrow> Some (Done (d\<lparr>dPage := p, dBlocks := store_seed (dBlocks d) op seeded\<rparr>))))"

subsection \<open>Character operations\<close>

definition syncBlockContent :: "Page \<Rightarrow> uuid \<Rightarrow> DocText \<Rightarrow> Page" where
  "syncBlockContent page bid text = (case find_index (\<lambda>b. ID b = bid) (Blocks page) of
     None \<Rightarrow> page
   | Some i \<Rightarrow> page\<lparr>Blocks := (Blocks page)[i := (Blocks page ! i)
       \<lparr>BContent := (BContent (Blocks page ! i))\<lparr>Text := Text_String text\<rparr>\<rparr>]\<rparr>)"

definition applyTextOp ::
  "LiveDoc \<Rightarrow> uuid \<Rightarrow> text_op \<Rightarrow> (session_error + text_op) \<times> LiveDoc" where
  "applyTextOp d bid op = (case dBlocks d bid of
     None \<Rightarrow> (Inl UnknownBlock, d)
   | Some text \<Rightarrow> (case ops_Apply text op of
        (Inl e, text') \<Rightarrow> (Inl (OpsFailed e), d\<lparr>dBlocks := (dBlocks d)(bid \<mapsto> text')\<rparr>)
      | (Inr undo, text') \<Rightarrow> (Inr undo, d\<lparr>dPage := syncBlockContent (dPage d) bid text',
           dBlocks := (dBlocks d)(bid \<mapsto> text')\<rparr>)))"

fun applyReplayedOp :: "string \<Rightarrow> LiveDoc \<Rightarrow> page_op \<Rightarrow> ((session_error + page_op) \<times> LiveDoc) option" where
  "applyReplayedOp serverActor d (BlockOp op) = (case applyBlockOp serverActor d op of
     None \<Rightarrow> None
   | Some (Failed e d') \<Rightarrow> Some (Inl e, d')
   | Some (Done d') \<Rightarrow> Some (Inr (BlockOp (Invert op)), d'))"
| "applyReplayedOp serverActor d (TextOp bid op) =
     (let (r, d') = applyTextOp d bid op in Some (map_sum id (TextOp bid) r, d'))"

subsection \<open>The invariant\<close>

definition live_block :: "(uuid \<rightharpoonup> DocText) \<Rightarrow> Block \<Rightarrow> bool" where
  "live_block blocks b \<longleftrightarrow> (\<exists>t. blocks (ID b) = Some t \<and> ok_text t \<and> Text_String t = Text (BContent b))"

definition ok_doc :: "LiveDoc \<Rightarrow> bool" where
  "ok_doc d \<longleftrightarrow> wf_page (dPage d) \<and> dom (dBlocks d) = ID ` set (Blocks (dPage d)) \<and>
     (\<forall>b\<in>set (Blocks (dPage d)). live_block (dBlocks d) b)"

text \<open>Texts that come from the wire are valid UTF-8; the counter bound keeps identities
  distinct and is far above any text that fits in memory.\<close>

definition fits :: "string \<Rightarrow> bool" where
  "fits s \<longleftrightarrow> valid_utf8 s \<and> rune_count s < 2 ^ 64"

fun op_fits :: "LiveDoc \<Rightarrow> page_op \<Rightarrow> bool" where
  "op_fits d (BlockOp (InsertBlock bid parent aft kind content)) = fits (Text content)"
| "op_fits d (BlockOp (SetBlockContent bid prev content)) = fits (Text content)"
| "op_fits d (BlockOp op) = True"
| "op_fits d (TextOp bid op) = (valid_utf8 (op_text op) \<and>
     (\<forall>t. dBlocks d bid = Some t \<longrightarrow> room t (rune_count (op_text op) + Text_RuneLen t)))"

lemma seed_text_ok:
  assumes "fits s"
  obtains t where "seed_text actor s = Inr t" "ok_text t" "Text_String t = s"
proof (cases "s = []")
  case True
  then show ?thesis
    using that[of "New_text actor"] ok_New by (simp add: seed_text_def New_text_def Text_String_def)
next
  case False
  have v: "valid_utf8 s" and rm: "room (New_text actor) (rune_count s)"
    using assms by (simp_all add: fits_def room_def New_text_def NewIDGenerator_def)
  obtain ids t' A B where t: "Text_InsertAt (New_text actor) (int 0) s = (Inr ids, t')" "ok_text t'"
    "Text_String (New_text actor) = A @ B" "Text_String t' = A @ s @ B"
    using text_insert[OF ok_New v False _ rm, of 0] by (metis le0)
  then have "Text_String t' = s" by (simp add: New_text_def Text_String_def)
  then show ?thesis using that[of t'] t(1,2) False by (simp add: seed_text_def)
qed

subsection \<open>Synchronisation\<close>

lemma syncBlockContent_split:
  assumes "distinct (map ID (xs @ b # ys))"
  shows "syncBlockContent (p\<lparr>Blocks := xs @ b # ys\<rparr>) (ID b) t
    = p\<lparr>Blocks := xs @ b\<lparr>BContent := (BContent b)\<lparr>Text := Text_String t\<rparr>\<rparr> # ys\<rparr>"
  using indexOf_split[OF assms] by (simp add: syncBlockContent_def indexOf_def)

lemma ok_doc_block:
  assumes "ok_doc d" and "dBlocks d bid = Some t"
  obtains xs b ys where "Blocks (dPage d) = xs @ b # ys" "ID b = bid" "ok_text t"
    "Text_String t = Text (BContent b)"
proof -
  have "bid \<in> ID ` set (Blocks (dPage d))" using assms by (auto simp: ok_doc_def)
  then obtain b where b: "b \<in> set (Blocks (dPage d))" "ID b = bid" by auto
  then obtain xs ys where "Blocks (dPage d) = xs @ b # ys" by (meson split_list)
  moreover have "live_block (dBlocks d) b" using assms(1) b by (simp add: ok_doc_def)
  ultimately show ?thesis using that b(2) assms(2) by (auto simp: live_block_def)
qed

lemma ok_doc_sync:
  assumes ok: "ok_doc d" and bs: "Blocks (dPage d) = xs @ b # ys" and t: "ok_text t"
    and d': "d' = d\<lparr>dPage := syncBlockContent (dPage d) (ID b) t, dBlocks := (dBlocks d)(ID b \<mapsto> t)\<rparr>"
  shows "ok_doc d'"
    and "dPage d' = (dPage d)\<lparr>Blocks := xs @ b\<lparr>BContent := (BContent b)\<lparr>Text := Text_String t\<rparr>\<rparr> # ys\<rparr>"
    and "children_ok R (Blocks (dPage d)) \<Longrightarrow> children_ok R (Blocks (dPage d'))"
proof -
  let ?b = "b\<lparr>BContent := (BContent b)\<lparr>Text := Text_String t\<rparr>\<rparr>"
  have wf: "wf_blocks (xs @ b # ys)" using ok bs by (simp add: ok_doc_def wf_page_def)
  note wf' = wf_blocksD[OF wf]
  have "dPage d = (dPage d)\<lparr>Blocks := xs @ b # ys\<rparr>" using bs by simp
  then show p: "dPage d' = (dPage d)\<lparr>Blocks := xs @ ?b # ys\<rparr>"
    using syncBlockContent_split[OF wf'(1), of "dPage d" t] d' by simp
  have keep: "children_ok R (xs @ b # ys) \<Longrightarrow> children_ok R (xs @ ?b # ys)" for R
    by (auto simp: children_ok_def)
  then show "children_ok R (Blocks (dPage d)) \<Longrightarrow> children_ok R (Blocks (dPage d'))"
    using p bs by simp
  have "wf_blocks (xs @ ?b # ys)"
    using wf' keep update_block_order[of ?b b xs ys] by (simp add: wf_blocks_def)
  moreover have "\<forall>c\<in>set (xs @ ?b # ys). live_block (dBlocks d') c"
  proof
    fix c assume c: "c \<in> set (xs @ ?b # ys)"
    show "live_block (dBlocks d') c"
    proof (cases "c = ?b")
      case True
      then show ?thesis using t d' by (simp add: live_block_def)
    next
      case False
      then have "c \<in> set (xs @ ys)" using c by auto
      then have "ID c \<in> ID ` set (xs @ ys)" by blast
      moreover have "ID b \<notin> ID ` set (xs @ ys)" using wf'(1) by auto
      ultimately have "ID c \<noteq> ID b" by metis
      moreover have "c \<in> set (Blocks (dPage d))" using \<open>c \<in> set (xs @ ys)\<close> bs by auto
      ultimately have "ID c \<noteq> ID b" "c \<in> set (Blocks (dPage d))" .
      then show ?thesis using ok d' by (auto simp: ok_doc_def live_block_def)
    qed
  qed
  moreover have "dom (dBlocks d') = ID ` set (xs @ ?b # ys)"
    using ok bs d' by (auto simp: ok_doc_def)
  ultimately show "ok_doc d'" using p by (simp add: ok_doc_def wf_page_def)
qed

subsection \<open>Structural operations keep the document in step\<close>

text \<open>What a successful operation does to the blocks of the page: which block it adds, which it
  removes, and that every other block keeps its identity and its text.\<close>

lemma Apply_Done_blocks:
  assumes "wf_page p" and "Apply p op = Some (Done p')"
  shows "(\<lambda>b. (ID b, Text (BContent b))) ` set (Blocks p') =
    (case op of
       InsertBlock bid parent aft kind content \<Rightarrow>
         insert (bid, Text content) ((\<lambda>b. (ID b, Text (BContent b))) ` set (Blocks p))
     | DeleteBlock tombstone aft \<Rightarrow>
         {x \<in> (\<lambda>b. (ID b, Text (BContent b))) ` set (Blocks p). fst x \<noteq> ID tombstone}
     | SetBlockContent bid prev content \<Rightarrow> insert (bid, Text content)
         {x \<in> (\<lambda>b. (ID b, Text (BContent b))) ` set (Blocks p). fst x \<noteq> bid}
     | _ \<Rightarrow> (\<lambda>b. (ID b, Text (BContent b))) ` set (Blocks p))"
    (is "?f ` _ = _")
proof -
  have wf: "wf_blocks (Blocks p)" using assms(1) by (simp add: wf_page_def)
  note wf' = wf_blocksD[OF wf]
  have others: "{x \<in> ?f ` set (us @ b # vs). fst x \<noteq> ID b} = ?f ` set (us @ vs)"
    if "distinct (map ID (us @ b # vs))" for us b vs
  proof -
    have "ID c \<noteq> ID b" if "c \<in> set (us @ vs)" for c
      using \<open>distinct (map ID (us @ b # vs))\<close> that by (auto simp: image_iff)
    then show ?thesis by auto
  qed
  show ?thesis
  proof (cases op)
    case (InsertBlock bid parent aft kind content)
    then have "apply_insert p bid parent aft kind content = Some (Done p')" using assms(2) by simp
    then obtain us vs where "Blocks p = us @ vs"
      "p' = p\<lparr>Blocks := us @ \<lparr>ID = bid, Parent = parent, BKind = kind, BContent = content\<rparr> # vs\<rparr>"
      unfolding insert_iff[OF wf'(2,1)] by blast
    then show ?thesis using InsertBlock by auto
  next
    case (DeleteBlock t aft)
    then have "apply_delete p t aft = Some (Done p')" using assms(2) by simp
    then obtain us b vs where "Blocks p = us @ b # vs" "ID b = ID t" "p' = p\<lparr>Blocks := us @ vs\<rparr>"
      unfolding delete_iff[OF wf'(2,1)] by blast
    then show ?thesis using DeleteBlock others[of us b vs] wf'(1) by simp
  next
    case (SetBlockKind bid k1 k2)
    then have "apply_set_kind p bid k1 k2 = Some (Done p')" using assms(2) by simp
    then obtain xs b ds rest where "Blocks p = xs @ b # ds @ rest"
      "p' = p\<lparr>Blocks := xs @ b\<lparr>BKind := k2\<rparr> # ds @ rest\<rparr>"
      unfolding set_kind_iff[OF wf] by blast
    then show ?thesis using SetBlockKind by simp
  next
    case (SetBlockContent bid c1 c2)
    then have "apply_set_content p bid c1 c2 = Some (Done p')" using assms(2) by simp
    then obtain xs b ys where "Blocks p = xs @ b # ys" "ID b = bid"
      "p' = p\<lparr>Blocks := xs @ b\<lparr>BContent := c2\<rparr> # ys\<rparr>"
      unfolding set_content_iff[OF wf'(1)] by blast
    then show ?thesis using SetBlockContent others[of xs b ys] wf'(1) by auto
  next
    case (SetTitle i t1 t2)
    then show ?thesis using assms(2) by (auto simp: set_title_iff)
  next
    case (MoveBlock bid fp f tp t)
    then have "apply_move p bid fp f tp t = Some (Done p')" using assms(2) by simp
    then obtain xs b ds rest us vs where m: "Blocks p = xs @ b # ds @ rest" "xs @ rest = us @ vs"
      "p' = p\<lparr>Blocks := us @ b\<lparr>Parent := tp\<rparr> # ds @ vs\<rparr>"
      unfolding move_iff[OF wf'(2,1)] by blast
    have "set xs \<union> set rest = set us \<union> set vs"
      using arg_cong[OF m(2), of set] by simp
    then have "?f ` set xs \<union> ?f ` set rest = ?f ` set us \<union> ?f ` set vs"
      by (metis image_Un)
    then have "?f ` set us \<union> insert (?f b) (?f ` set ds) \<union> ?f ` set vs
        = ?f ` set xs \<union> insert (?f b) (?f ` set ds) \<union> ?f ` set rest"
      by blast
    then show ?thesis using MoveBlock m(1,3) by (simp add: image_Un Un_assoc)
  qed
qed

lemma live_by_image:
  "(\<forall>b\<in>set bs. live_block blocks b) \<longleftrightarrow>
   (\<forall>x\<in>(\<lambda>b. (ID b, Text (BContent b))) ` set bs.
      \<exists>t. blocks (fst x) = Some t \<and> ok_text t \<and> Text_String t = snd x)"
  by (simp add: live_block_def)

lemma applyBlockOp_ok:
  assumes ok: "ok_doc d" and fit: "op_fits d (BlockOp op)"
    and s: "applyBlockOp actor d op = Some (Done d')"
  shows "ok_doc d'" and "Apply (dPage d) op = Some (Done (dPage d'))"
proof -
  obtain seeded p where seed: "seed_for actor op = Inr seeded" and p: "Apply (dPage d) op = Some (Done p)"
    and d': "d' = d\<lparr>dPage := p, dBlocks := store_seed (dBlocks d) op seeded\<rparr>"
    using s by (auto simp: applyBlockOp_def split: sum.splits option.splits outcome.splits)
  then show "Apply (dPage d) op = Some (Done (dPage d'))" by simp
  have wf: "wf_page (dPage d)" using ok by (simp add: ok_doc_def)
  let ?f = "\<lambda>b. (ID b, Text (BContent b))"
  note im = Apply_Done_blocks[OF wf p]
  have live: "\<forall>x\<in>?f ` set (Blocks (dPage d)). \<exists>t. dBlocks d (fst x) = Some t \<and> ok_text t \<and> Text_String t = snd x"
    using ok live_by_image by (simp add: ok_doc_def)
  have dom: "dom (dBlocks d) = fst ` (?f ` set (Blocks (dPage d)))"
    using ok by (simp add: ok_doc_def image_image)
  have fresh: "\<exists>t. seeded = Some t \<and> ok_text t \<and> Text_String t = Text content"
    if h: "fits (Text content)" "seed_for actor op = map_sum id Some (seed_text actor (Text content))" for content
  proof -
    obtain t where "seed_text actor (Text content) = Inr t" "ok_text t" "Text_String t = Text content"
      using seed_text_ok[OF h(1)] .
    then show ?thesis using h(2) seed by simp
  qed
  obtain S where S: "S = ?f ` set (Blocks (dPage d))" by simp
  note im = im[folded S] and live = live[folded S] and dom = dom[folded S]
  have "(\<forall>x\<in>?f ` set (Blocks p). \<exists>t. store_seed (dBlocks d) op seeded (fst x) = Some t \<and> ok_text t \<and>
        Text_String t = snd x) \<and>
      dom (store_seed (dBlocks d) op seeded) = fst ` (?f ` set (Blocks p))"
  proof (cases op)
    case (InsertBlock bid parent aft kind content)
    then obtain t where t: "seeded = Some t" "ok_text t" "Text_String t = Text content"
      using fresh[of content] fit by (auto simp: seed_for_def)
    have "bid \<notin> fst ` S"
    proof -
      have "bid \<notin> ID ` set (Blocks (dPage d))"
        using p InsertBlock insert_iff wf_blocksD wf by (auto simp: wf_page_def)
      then show ?thesis by (simp add: S image_image)
    qed
    then show ?thesis
      using InsertBlock im live dom t by (auto simp: store_seed_def)
  next
    case (DeleteBlock t aft)
    then show ?thesis using im live dom by (auto simp: store_seed_def)
  next
    case (SetBlockContent bid prev content)
    then obtain t where t: "seeded = Some t" "ok_text t" "Text_String t = Text content"
      using fresh[of content] fit by (auto simp: seed_for_def)
    then show ?thesis using SetBlockContent im live dom by (auto simp: store_seed_def)
  qed (use im live dom in \<open>simp_all add: store_seed_def\<close>)
  then have "(\<forall>b\<in>set (Blocks p). live_block (store_seed (dBlocks d) op seeded) b)"
    "dom (store_seed (dBlocks d) op seeded) = ID ` set (Blocks p)"
    using live_by_image by (simp_all add: image_image)
  then show "ok_doc d'" using Apply_keeps_wf[OF wf p] d' by (simp add: ok_doc_def)
qed

subsection \<open>One step and its inverse\<close>

definition new_doc :: "uuid \<Rightarrow> LiveDoc" where
  "new_doc pageID = \<lparr>dPage = NewPage pageID [], dBlocks = Map.empty\<rparr>"

lemma ok_new_doc: "ok_doc (new_doc i)" "list_children_ok (dPage (new_doc i))"
  using wf_NewPage by (simp_all add: ok_doc_def new_doc_def NewPage_def list_children_ok_def children_ok_def)

definition doc_fits :: "LiveDoc \<Rightarrow> bool" where
  "doc_fits d \<longleftrightarrow> (\<forall>b\<in>set (Blocks (dPage d)). fits (Text (BContent b)))"

definition op_exact :: "LiveDoc \<Rightarrow> page_op \<Rightarrow> bool" where
  "op_exact d op = (case op of BlockOp o1 \<Rightarrow> exact_tombstone (dPage d) o1 | TextOp b o2 \<Rightarrow> True)"

lemma seed_for_fits:
  assumes "op_fits d (BlockOp op)"
  shows "\<exists>s. seed_for actor op = Inr s"
proof (cases op)
  case (InsertBlock bid parent aft kind content)
  then obtain t where "seed_text actor (Text content) = Inr t"
    using seed_text_ok[of "Text content"] assms by auto
  then show ?thesis using InsertBlock by (simp add: seed_for_def)
next
  case (SetBlockContent bid prev content)
  then obtain t where "seed_text actor (Text content) = Inr t"
    using seed_text_ok[of "Text content"] assms by auto
  then show ?thesis using SetBlockContent by (simp add: seed_for_def)
qed (simp_all add: seed_for_def)

lemma applyBlockOp_Done:
  assumes "op_fits d (BlockOp op)" and "Apply (dPage d) op = Some (Done p)"
  shows "\<exists>d'. applyBlockOp actor d op = Some (Done d') \<and> dPage d' = p"
  using seed_for_fits[OF assms(1), of actor] assms(2) by (auto simp: applyBlockOp_def)

lemma applyBlockOp_Failed:
  assumes "op_fits d (BlockOp op)" and "wf_page (dPage d)"
    and "applyBlockOp actor d op = Some (Failed e d')" and "d' \<noteq> d"
  shows "\<exists>bid fp f tp t. op = MoveBlock bid fp f tp t"
proof -
  obtain s where "seed_for actor op = Inr s" using seed_for_fits[OF assms(1)] by blast
  then obtain e' p where p: "Apply (dPage d) op = Some (Failed e' p)" "d' = d\<lparr>dPage := p\<rparr>"
    using assms(3) by (auto simp: applyBlockOp_def split: option.splits outcome.splits)
  have "p = dPage d" if "\<nexists>bid fp f tp t. op = MoveBlock bid fp f tp t"
    using p(1) that by (cases op) (auto dest: failure_keeps_page)
  moreover have "p \<noteq> dPage d" using p(2) assms(4) by auto
  ultimately show ?thesis by blast
qed

lemma invert_fits:
  assumes "doc_fits d" and "op_exact d (BlockOp op)" and "wf_page (dPage d)"
    and "Apply (dPage d) op = Some (Done p)"
  shows "op_fits d' (BlockOp (Invert op))"
proof (cases op)
  case (DeleteBlock t aft)
  then show ?thesis using assms(1,2) by (simp add: doc_fits_def op_exact_def exact_tombstone_def)
next
  case (SetBlockContent bid prev content)
  have wf: "distinct (map ID (Blocks (dPage d)))"
    using assms(3) by (simp add: wf_page_def wf_blocks_def)
  have "apply_set_content (dPage d) bid prev content = Some (Done p)"
    using assms(4) SetBlockContent by simp
  then obtain xs b ys where "Blocks (dPage d) = xs @ b # ys" "BContent b = prev"
    unfolding set_content_iff[OF wf] by blast
  then show ?thesis using assms(1) SetBlockContent by (auto simp: doc_fits_def)
qed simp_all

lemma applyTextOp_ok:
  assumes ok: "ok_doc d" and fit: "op_fits d (TextOp bid op)" and s: "applyTextOp d bid op = (Inr undo, d')"
  obtains undo' d'' xs b ys t' where "applyTextOp d' bid undo = (Inr undo', d'')" "ok_doc d'" "ok_doc d''"
    "dPage d'' = dPage d" "Blocks (dPage d) = xs @ b # ys" "ID b = bid" "ok_text t'"
    "dPage d' = (dPage d)\<lparr>Blocks := xs @ b\<lparr>BContent := (BContent b)\<lparr>Text := Text_String t'\<rparr>\<rparr> # ys\<rparr>"
proof -
  obtain t where t: "dBlocks d bid = Some t"
    using s by (cases "dBlocks d bid") (auto simp: applyTextOp_def)
  obtain xs b ys where b: "Blocks (dPage d) = xs @ b # ys" "ID b = bid" "ok_text t"
    "Text_String t = Text (BContent b)"
    using ok_doc_block[OF ok t] .
  have fit': "valid_utf8 (op_text op)" "room t (rune_count (op_text op) + Text_RuneLen t)"
    using fit t by simp_all
  have kn: "\<forall>a\<in>anchors_of op. known t a"
  proof (rule ccontr)
    assume "\<not> (\<forall>a\<in>anchors_of op. known t a)"
    then have "ops_Apply t op = (Inl UnknownAnchor, t)" using ops_Apply_unknown[OF b(3)] by blast
    then show False using s t by (simp add: applyTextOp_def)
  qed
  obtain u t' redo t'' where o: "ops_Apply t op = (Inr u, t')" "ok_text t'"
    "ops_Apply t' u = (Inr redo, t'')" "ok_text t''" "Text_String t'' = Text_String t"
    using ops_Apply_inverts[OF b(3) fit'(1) kn fit'(2)] by blast
  have d': "undo = u" "d' = d\<lparr>dPage := syncBlockContent (dPage d) (ID b) t', dBlocks := (dBlocks d)(ID b \<mapsto> t')\<rparr>"
    using s t o(1) b(2) by (simp_all add: applyTextOp_def)
  note sync = ok_doc_sync[OF ok b(1) o(2) d'(2)]
  let ?b = "b\<lparr>BContent := (BContent b)\<lparr>Text := Text_String t'\<rparr>\<rparr>"
  have bs': "Blocks (dPage d') = xs @ ?b # ys" using sync(2) by simp
  have t': "dBlocks d' bid = Some t'" using d'(2) b(2) by simp
  let ?d = "d'\<lparr>dPage := syncBlockContent (dPage d') (ID ?b) t'', dBlocks := (dBlocks d')(ID ?b \<mapsto> t'')\<rparr>"
  have ap: "applyTextOp d' bid undo = (Inr redo, ?d)"
    using t' o(3) d'(1) b(2) by (simp add: applyTextOp_def)
  note sync2 = ok_doc_sync[OF sync(1) bs' o(4) refl]
  have "dPage ?d = dPage d"
    unfolding sync2(2) using sync(2) b(1,4) o(5) by simp
  then show ?thesis using that[OF ap sync(1) sync2(1) _ b(1,2) o(2) sync(2)] by blast
qed

lemma applyReplayedOp_inverts:
  assumes ok: "ok_doc d" and l: "list_children_ok (dPage d)" and fit: "op_fits d op"
    and df: "doc_fits d" and ex: "op_exact d op"
    and s: "applyReplayedOp actor d op = Some (Inr undo, d')"
  shows "ok_doc d' \<and> (\<exists>redo d''. applyReplayedOp actor d' undo = Some (Inr redo, d'') \<and>
    ok_doc d'' \<and> dPage d'' = dPage d)"
proof (cases op)
  case (BlockOp o1)
  have s1: "applyBlockOp actor d o1 = Some (Done d')" "undo = BlockOp (Invert o1)"
    using s BlockOp by (auto split: option.splits outcome.splits)
  have fit1: "op_fits d (BlockOp o1)" using fit BlockOp by simp
  note a = applyBlockOp_ok[OF ok fit1 s1(1)]
  have wf: "wf_page (dPage d)" using ok by (simp add: ok_doc_def)
  have ex1: "op_exact d (BlockOp o1)" "exact_tombstone (dPage d) o1"
    using ex BlockOp by (simp_all add: op_exact_def)
  have inv: "Apply (dPage d') (Invert o1) = Some (Done (dPage d))"
    using Apply_inverts[of "dPage d" o1 "dPage d'"] wf l ex1(2) a(2)
    by (simp add: wf_page_def list_children_ok_def)
  note fit2 = invert_fits[OF df ex1(1) wf a(2), of d']
  obtain d'' where d'': "applyBlockOp actor d' (Invert o1) = Some (Done d'')" "dPage d'' = dPage d"
    using applyBlockOp_Done[OF fit2 inv] by blast
  then show ?thesis using a(1) applyBlockOp_ok(1)[OF a(1) fit2 d''(1)] s1(2) by simp
next
  case (TextOp bid o2)
  then obtain u where u: "applyTextOp d bid o2 = (Inr u, d')" "undo = TextOp bid u"
    using s by (cases "applyTextOp d bid o2"; cases "fst (applyTextOp d bid o2)") auto
  have "op_fits d (TextOp bid o2)" using fit TextOp by simp
  from applyTextOp_ok[OF ok this u(1)] obtain u' d'' where
    "applyTextOp d' bid u = (Inr u', d'')" "ok_doc d'" "ok_doc d''" "dPage d'' = dPage d" by metis
  then show ?thesis using u(2) by simp
qed

subsection \<open>Trace\<close>

text \<open>The trace view replays the log step by step and checks the inverse of every step against
  two fresh replays, which it compares by what a reader of the document can see.\<close>

record replayBlock =
  rbID :: uuid
  rbParent :: "uuid option"
  rbKind :: BlockKind
  rbText :: string
  rbMarks :: "Mark list"

record replayState =
  rTitle :: string
  rBlocks :: "replayBlock list"

definition snapshotReplayState :: "LiveDoc \<Rightarrow> replayState" where
  "snapshotReplayState d = \<lparr>rTitle = Title (dPage d),
     rBlocks = map (\<lambda>b. \<lparr>rbID = ID b, rbParent = Parent b, rbKind = BKind b,
       rbText = (case dBlocks d (ID b) of None \<Rightarrow> [] | Some t \<Rightarrow> Text_String t),
       rbMarks = Marks (BContent b)\<rparr>) (Blocks (dPage d))\<rparr>"

record BlockSnapshot =
  bsID :: uuid
  bsParent :: "uuid option"
  bsKind :: BlockKind
  bsText :: string
  bsMarks :: "Mark list"
  bsBoundaries :: "AnchorRange option"

record Snapshot =
  snPageID :: uuid
  snTitle :: string
  snBlocks :: "BlockSnapshot list"

definition buildSnapshot :: "Page \<Rightarrow> (uuid \<rightharpoonup> DocText) \<Rightarrow> Snapshot" where
  "buildSnapshot page blocks = \<lparr>snPageID = PID page, snTitle = Title page,
     snBlocks = map (\<lambda>b. (case blocks (ID b) of
        None \<Rightarrow> \<lparr>bsID = ID b, bsParent = Parent b, bsKind = BKind b, bsText = [],
          bsMarks = Marks (BContent b), bsBoundaries = None\<rparr>
      | Some text \<Rightarrow> \<lparr>bsID = ID b, bsParent = Parent b, bsKind = BKind b, bsText = Text_String text,
          bsMarks = Marks (BContent b), bsBoundaries = Boundaries text\<rparr>)) (Blocks page)\<rparr>"

record TraceStep =
  tsOp :: page_op
  tsInverse :: page_op
  LawHolds :: bool
  After_step :: Snapshot

fun replay :: "string \<Rightarrow> LiveDoc \<Rightarrow> page_op list \<Rightarrow> (session_error + LiveDoc) option" where
  "replay actor d [] = Some (Inr d)"
| "replay actor d (op # ops) = (case applyReplayedOp actor d op of
     None \<Rightarrow> None
   | Some (Inl e, d') \<Rightarrow> Some (Inl e)
   | Some (Inr u, d') \<Rightarrow> replay actor d' ops)"

definition replayOps :: "string \<Rightarrow> page_op list \<Rightarrow> (session_error + LiveDoc) option" where
  "replayOps actor ops = replay actor (new_doc 0) ops"

definition checkInvertibilityLaw ::
  "page_op list \<Rightarrow> page_op list \<Rightarrow> page_op \<Rightarrow> string \<Rightarrow> bool option" where
  "checkInvertibilityLaw prefix upToAndIncluding undo actor = (case replayOps actor prefix of
     None \<Rightarrow> None
   | Some (Inl e) \<Rightarrow> Some False
   | Some (Inr before) \<Rightarrow> (case replayOps actor upToAndIncluding of
        None \<Rightarrow> None
      | Some (Inl e) \<Rightarrow> Some False
      | Some (Inr aft) \<Rightarrow> (case applyReplayedOp actor aft undo of
           None \<Rightarrow> None
         | Some (Inl e, d) \<Rightarrow> Some False
         | Some (Inr u, d) \<Rightarrow> Some (snapshotReplayState before = snapshotReplayState d))))"

fun trace_loop :: "string \<Rightarrow> LiveDoc \<Rightarrow> page_op list \<Rightarrow> page_op list
    \<Rightarrow> (session_error + TraceStep list) option" where
  "trace_loop actor d prefix [] = Some (Inr [])"
| "trace_loop actor d prefix (op # ops) = (case applyReplayedOp actor d op of
     None \<Rightarrow> None
   | Some (Inl e, d') \<Rightarrow> Some (Inl e)
   | Some (Inr undo, d') \<Rightarrow> (case checkInvertibilityLaw prefix (prefix @ [op]) undo actor of
        None \<Rightarrow> None
      | Some law \<Rightarrow> map_option (map_sum id (\<lambda>steps. \<lparr>tsOp = op, tsInverse = undo, LawHolds = law,
            After_step = buildSnapshot (dPage d') (dBlocks d')\<rparr> # steps))
          (trace_loop actor d' (prefix @ [op]) ops)))"

definition Trace :: "string \<Rightarrow> uuid \<Rightarrow> page_op list \<Rightarrow> (session_error + TraceStep list) option" where
  "Trace actor pageID confirmed = trace_loop actor (new_doc pageID) [] confirmed"

text \<open>The identity of the page plays no part in an operation that succeeds.\<close>

fun map_page :: "(Page \<Rightarrow> Page) \<Rightarrow> (apply_error, Page) outcome \<Rightarrow> (apply_error, Page) outcome" where
  "map_page f (Done p) = Done (f p)"
| "map_page f (Failed e p) = Failed e (f p)"

lemma map_bind: "map_option f (Option.bind m g) = Option.bind m (\<lambda>x. map_option f (g x))"
  by (cases m) auto

text \<open>All operations but SetTitle read and write the blocks only.\<close>

lemma Apply_Blocks:
  assumes "\<nexists>i t1 t2. op = SetTitle i t1 t2"
  shows "Apply (p'\<lparr>Blocks := Blocks p\<rparr>) op = map_option (map_page (\<lambda>q. p'\<lparr>Blocks := Blocks q\<rparr>)) (Apply p op)"
proof (cases op)
  case (InsertBlock bid parent aft kind content)
  then show ?thesis
    by (auto simp: apply_insert_def Let_def map_bind split: option.split sum.split intro!: Option.bind_cong)
next
  case (DeleteBlock t aft)
  then show ?thesis
    by (auto simp: apply_delete_def Let_def map_bind split: option.split intro!: Option.bind_cong)
next
  case (SetBlockKind bid k1 k2)
  then show ?thesis
    by (auto simp: apply_set_kind_def Let_def map_bind split: option.split intro!: Option.bind_cong)
next
  case (SetBlockContent bid c1 c2)
  then show ?thesis by (auto simp: apply_set_content_def split: option.split)
next
  case (MoveBlock bid fp f tp t)
  show ?thesis unfolding MoveBlock Apply.simps apply_move_def
    by (auto simp: Let_def map_bind split: option.split sum.split intro!: Option.bind_cong)
qed (use assms in blast)

lemma Apply_PID:
  assumes "Apply p op = Some (Done q)"
  shows "Apply (p\<lparr>PID := i\<rparr>) op = Some (Done (q\<lparr>PID := i\<rparr>))"
proof (cases "\<exists>x t1 t2. op = SetTitle x t1 t2")
  case True
  then show ?thesis using assms by (auto simp: apply_set_title_def split: if_splits)
next
  case False
  have "q = p\<lparr>Blocks := Blocks q\<rparr>" using Apply_Blocks[OF False, where p = p and p' = p] assms by simp
  moreover have "Apply (p\<lparr>PID := i\<rparr>) op = Some (Done ((p\<lparr>PID := i\<rparr>)\<lparr>Blocks := Blocks q\<rparr>))"
    using Apply_Blocks[OF False, where p = p and p' = "p\<lparr>PID := i\<rparr>"] assms by simp
  ultimately show ?thesis by (metis Page.select_convs(1) Page.surjective Page.update_convs(1) Page.update_convs(3))
qed

definition repid :: "uuid \<Rightarrow> LiveDoc \<Rightarrow> LiveDoc" where
  "repid i d = d\<lparr>dPage := (dPage d)\<lparr>PID := i\<rparr>\<rparr>"

lemma repid_simps [simp]:
  "dBlocks (repid i d) = dBlocks d" "dPage (repid i d) = (dPage d)\<lparr>PID := i\<rparr>"
  "repid i (repid j d) = repid i d"
  by (simp_all add: repid_def)

lemma replayed_PID:
  assumes "applyReplayedOp actor d op = Some (Inr u, d')"
  shows "applyReplayedOp actor (repid i d) op = Some (Inr u, repid i d')"
proof (cases op)
  case (BlockOp o1)
  then obtain seeded p where s: "seed_for actor o1 = Inr seeded" "Apply (dPage d) o1 = Some (Done p)"
    "d' = d\<lparr>dPage := p, dBlocks := store_seed (dBlocks d) o1 seeded\<rparr>" "u = BlockOp (Invert o1)"
    using assms by (auto simp: applyBlockOp_def split: sum.splits option.splits outcome.splits)
  show ?thesis
    using BlockOp s(1,3,4) Apply_PID[OF s(2), of i] by (simp add: applyBlockOp_def repid_def)
next
  case (TextOp bid o2)
  have sync: "syncBlockContent (p\<lparr>PID := i\<rparr>) bid t = (syncBlockContent p bid t)\<lparr>PID := i\<rparr>" for p t
    by (simp add: syncBlockContent_def split: option.split)
  show ?thesis
    using assms TextOp
    by (auto simp: applyTextOp_def sync repid_def split: option.splits prod.splits sum.splits)
qed

lemma replay_PID:
  "replay actor d ops = Some (Inr d') \<Longrightarrow> replay actor (repid i d) ops = Some (Inr (repid i d'))"
proof (induction ops arbitrary: d)
  case (Cons op ops)
  then obtain u d1 where u: "applyReplayedOp actor d op = Some (Inr u, d1)" "replay actor d1 ops = Some (Inr d')"
    by (auto split: option.splits prod.splits sum.splits)
  then show ?case using Cons.IH[OF u(2)] replayed_PID[OF u(1)] by simp
qed simp

lemma replay_snoc:
  "replay actor d ops = Some (Inr d1) \<Longrightarrow> applyReplayedOp actor d1 op = Some (Inr u, d2) \<Longrightarrow>
   replay actor d (ops @ [op]) = Some (Inr d2)"
  by (induction ops arbitrary: d) (auto split: option.splits prod.splits sum.splits)

text \<open>A log is clean if every operation on it succeeded and named what it deleted.\<close>

fun clean_log :: "string \<Rightarrow> LiveDoc \<Rightarrow> page_op list \<Rightarrow> bool" where
  "clean_log actor d [] = True"
| "clean_log actor d (op # ops) = (op_fits d op \<and> doc_fits d \<and> op_exact d op \<and>
     list_children_ok (dPage d) \<and>
     (case applyReplayedOp actor d op of Some (Inr u, d') \<Rightarrow> clean_log actor d' ops | _ \<Rightarrow> False))"

lemma observed_by_page:
  assumes "ok_doc d" and "ok_doc d'" and "dPage d' = dPage d"
  shows "snapshotReplayState d = snapshotReplayState d'"
proof -
  have "(case dBlocks e (ID b) of None \<Rightarrow> [] | Some t \<Rightarrow> Text_String t) = Text (BContent b)"
    if "ok_doc e" "b \<in> set (Blocks (dPage e))" for e b
    using that by (auto simp: ok_doc_def live_block_def)
  then show ?thesis using assms by (simp add: snapshotReplayState_def)
qed

lemma observed_PID [simp]: "snapshotReplayState (repid i d) = snapshotReplayState d"
  by (simp add: snapshotReplayState_def)

lemma new_doc_repid: "new_doc 0 = repid 0 (new_doc i)"
  by (simp add: new_doc_def repid_def NewPage_def)

lemma check_law_holds:
  assumes r: "replay actor (new_doc i) prefix = Some (Inr d)" and ok: "ok_doc d"
    and cl: "clean_log actor d [op]" and s: "applyReplayedOp actor d op = Some (Inr u, d')"
  shows "checkInvertibilityLaw prefix (prefix @ [op]) u actor = Some True"
proof -
  obtain redo d'' where d'': "applyReplayedOp actor d' u = Some (Inr redo, d'')" "ok_doc d''"
    "dPage d'' = dPage d"
    using applyReplayedOp_inverts[OF ok _ _ _ _ s] cl by auto
  have "replayOps actor prefix = Some (Inr (repid 0 d))"
    unfolding replayOps_def new_doc_repid[of i] using replay_PID[OF r] .
  moreover have "replayOps actor (prefix @ [op]) = Some (Inr (repid 0 d'))"
    unfolding replayOps_def new_doc_repid[of i] using replay_PID[OF replay_snoc[OF r s]] .
  moreover have "applyReplayedOp actor (repid 0 d') u = Some (Inr redo, repid 0 d'')"
    using replayed_PID[OF d''(1)] .
  ultimately show ?thesis
    using observed_by_page[OF ok d''(2,3)] by (simp add: checkInvertibilityLaw_def)
qed

lemma trace_loop_holds:
  "replay actor (new_doc i) prefix = Some (Inr d) \<Longrightarrow> ok_doc d \<Longrightarrow> clean_log actor d ops \<Longrightarrow>
   \<exists>steps. trace_loop actor d prefix ops = Some (Inr steps) \<and> map tsOp steps = ops \<and>
     (\<forall>s\<in>set steps. LawHolds s)"
proof (induction ops arbitrary: d prefix)
  case (Cons op ops)
  then obtain u d' where s: "applyReplayedOp actor d op = Some (Inr u, d')" "clean_log actor d' ops"
    by (auto split: option.splits prod.splits sum.splits)
  have one: "clean_log actor d [op]" using Cons.prems(3) s(1) by simp
  have ok': "ok_doc d'" using applyReplayedOp_inverts[OF Cons.prems(2) _ _ _ _ s(1)] one by simp
  obtain steps where "trace_loop actor d' (prefix @ [op]) ops = Some (Inr steps)" "map tsOp steps = ops"
    "\<forall>s\<in>set steps. LawHolds s"
    using Cons.IH[OF replay_snoc[OF Cons.prems(1) s(1)] ok' s(2)] by blast
  then show ?case
    using s(1) check_law_holds[OF Cons.prems(1,2) one s(1)] by simp
qed simp

subsection \<open>Properties\<close>

lemma replayed_total:
  assumes ok: "ok_doc d" and fit: "op_fits d op"
  shows "\<exists>r d'. applyReplayedOp actor d op = Some (r, d') \<and> (\<forall>u. r = Inr u \<longrightarrow> ok_doc d') \<and>
    (\<forall>e. r = Inl e \<longrightarrow> d' = d \<or> (\<exists>bid fp f tp t. op = BlockOp (MoveBlock bid fp f tp t)))"
proof (cases op)
  case (BlockOp o1)
  have wf: "wf_page (dPage d)" using ok by (simp add: ok_doc_def)
  have fit1: "op_fits d (BlockOp o1)" using fit BlockOp by simp
  obtain seeded where sd: "seed_for actor o1 = Inr seeded" using seed_for_fits[OF fit1] by blast
  obtain r where r: "Apply (dPage d) o1 = Some r" using Apply_returns[OF wf] by blast
  then obtain o2 where o2: "applyBlockOp actor d o1 = Some o2"
    using sd by (cases r) (simp_all add: applyBlockOp_def)
  show ?thesis
  proof (cases o2)
    case (Done d')
    then show ?thesis using BlockOp o2 applyBlockOp_ok(1)[OF ok fit1] by simp
  next
    case (Failed e d')
    then show ?thesis using BlockOp o2 applyBlockOp_Failed[OF fit1 wf, of actor e d'] by auto
  qed
next
  case (TextOp bid o2)
  obtain r d' where s: "applyTextOp d bid o2 = (r, d')" by fastforce
  have "r = Inl e \<Longrightarrow> d' = d" for e
  proof -
    assume e: "r = Inl e"
    show "d' = d"
    proof (cases "dBlocks d bid")
      case None
      then show ?thesis using s by (simp add: applyTextOp_def)
    next
      case (Some t)
      obtain xs b ys where b: "Blocks (dPage d) = xs @ b # ys" "ID b = bid" "ok_text t"
        using ok_doc_block[OF ok Some] by metis
      have fit': "valid_utf8 (op_text o2)" "room t (rune_count (op_text o2) + Text_RuneLen t)"
        using fit TextOp Some by simp_all
      show ?thesis
      proof (cases "\<forall>a\<in>anchors_of o2. known t a")
        case True
        then obtain u t' where "ops_Apply t o2 = (Inr u, t')"
          using ops_Apply_inverts[OF b(3) fit'(1) _ fit'(2)] by blast
        then show ?thesis using s e Some by (simp add: applyTextOp_def)
      next
        case False
        then have "ops_Apply t o2 = (Inl UnknownAnchor, t)" using ops_Apply_unknown[OF b(3)] by blast
        then have "d' = d\<lparr>dBlocks := (dBlocks d)(bid \<mapsto> t)\<rparr>" using s Some by (simp add: applyTextOp_def)
        then show ?thesis using Some by (simp add: fun_upd_idem)
      qed
    qed
  qed
  moreover have "r = Inr u \<Longrightarrow> ok_doc d'" for u
    using applyTextOp_ok[OF ok, of bid o2 u d'] fit TextOp s by metis
  ultimately show ?thesis using TextOp s by (cases r) auto
qed

text \<open>C7: page and live texts stay in step. On a document in which every block has a live text
  that equals its stored content, applying any operation of either tier returns; if it
  succeeds the same holds again (so every block of the page has a rope, no rope is left
  over, and a later content precondition sees the live text), and if it fails the document
  is unchanged, save for the failing MoveBlock.\<close>

theorem live_doc_in_step:
  assumes "ok_doc d" and "op_fits d op"
  shows "\<exists>r d'. applyReplayedOp actor d op = Some (r, d') \<and> (\<forall>u. r = Inr u \<longrightarrow> ok_doc d') \<and>
    (\<forall>e. r = Inl e \<longrightarrow> d' = d \<or> (\<exists>bid fp f tp t. op = BlockOp (MoveBlock bid fp f tp t)))"
  using assms by (rule replayed_total)

definition sample_insert :: page_op where
  "sample_insert = BlockOp (InsertBlock 1 None None NewParagraph (PlainContent ''hi''))"

lemma hi_fits: "fits ''hi''"
proof -
  have "valid_utf8 ''hi''" "rune_count ''hi'' = 2" by code_simp+
  then show ?thesis by (simp add: fits_def)
qed

theorem live_doc_in_step_witness:
  "\<exists>r d'. applyReplayedOp ''srv'' (new_doc 7) sample_insert = Some (r, d') \<and>
     (\<forall>u. r = Inr u \<longrightarrow> ok_doc d')"
proof -
  have "op_fits (new_doc 7) sample_insert"
    using hi_fits by (simp add: sample_insert_def PlainContent_def)
  then show ?thesis using live_doc_in_step[OF ok_new_doc(1)] by blast
qed

text \<open>The trace view's verdict. For every log of operations that each succeeded and each
  named exactly what it deleted, Trace returns one step per operation and reports that the
  invertibility law holds at every step.\<close>

theorem trace_law_holds:
  assumes "clean_log actor (new_doc pageID) ops"
  shows "\<exists>steps. Trace actor pageID ops = Some (Inr steps) \<and> map tsOp steps = ops \<and>
    (\<forall>s\<in>set steps. LawHolds s)"
  using trace_loop_holds[OF _ ok_new_doc(1) assms, of pageID "[]"] by (simp add: Trace_def)

lemma sample_log_clean: "clean_log ''srv'' (new_doc 7) [sample_insert]"
proof -
  obtain r d' where r: "applyReplayedOp ''srv'' (new_doc 7) sample_insert = Some (r, d')"
    using replayed_total[OF ok_new_doc(1), of 7 sample_insert "''srv''"] hi_fits
    by (auto simp: sample_insert_def PlainContent_def)
  have "Apply (dPage (new_doc 7)) (InsertBlock 1 None None NewParagraph (PlainContent ''hi''))
      = Some (Done ((dPage (new_doc 7))\<lparr>Blocks := [\<lparr>ID = 1, Parent = None, BKind = NewParagraph,
          BContent = PlainContent ''hi''\<rparr>]\<rparr>))"
    by code_simp
  then have "\<exists>u. r = Inr u"
    using r applyBlockOp_Done[of "new_doc 7" "InsertBlock 1 None None NewParagraph (PlainContent ''hi'')" _ "''srv''"]
      hi_fits by (auto simp: sample_insert_def PlainContent_def)
  then show ?thesis
    using r hi_fits ok_new_doc(2)
    by (auto simp: sample_insert_def PlainContent_def op_exact_def exact_tombstone_def doc_fits_def
        new_doc_def NewPage_def)
qed

theorem trace_law_holds_witness:
  "\<exists>steps. Trace ''srv'' 7 [sample_insert] = Some (Inr steps) \<and> map tsOp steps = [sample_insert] \<and>
    (\<forall>s\<in>set steps. LawHolds s)"
  using trace_law_holds[OF sample_log_clean] .

text \<open>Replacing a block's content starts its identities again from one. The live text that
  SetBlockContent puts in place knows the identity of every number up to its length, so an
  anchor kept from the old text (a comment, an undo entry) is not reported as unknown: it
  resolves to some character of the new text.\<close>

theorem reseed_reuses_identities:
  assumes "fits s" and "1 \<le> k" and "k \<le> rune_count s"
  shows "\<exists>t. seed_text actor s = Inr t \<and>
    RKind (Text_Resolve t \<lparr>Item = \<lparr>Actor = actor, Counter = of_nat k\<rparr>, ABias = b\<rparr>) = At"
proof -
  let ?i = "\<lparr>Actor = actor, Counter = of_nat k\<rparr> :: ItemID"
  have ne: "s \<noteq> []" using assms(2,3) by auto
  have v: "valid_utf8 s" and rm: "room (New_text actor) (rune_count s)"
    using assms(1) by (simp_all add: fits_def room_def New_text_def NewIDGenerator_def)
  obtain ids t' where t: "Text_InsertAt (New_text actor) (int 0) s = (Inr ids, t')" "ok_text t'"
    "lives (text_entries t') = take 0 (lives (text_entries (New_text actor))) @ ids
       @ drop 0 (lives (text_entries (New_text actor)))"
    using text_insert[OF ok_New v ne _ rm, of 0] by (metis le0)
  have sd: "seed_text actor s = Inr t'" using t(1) ne by (simp add: seed_text_def)
  have "ids = fst (take_ids (rune_count s) (NewIDGenerator actor))"
    using t(1) by (auto simp: Text_InsertAt_def rune_count_def New_text_def NewIDGenerator_def
        split: if_splits sum.splits outcome.splits prod.splits)
  then have "lives (text_entries t') ! (k - 1) = ?i" "k - 1 < length (lives (text_entries t'))"
    using t(3) assms(2,3)
    by (auto simp: take_ids_spec NewIDGenerator_def New_text_def NewLog_ok(2) simp del: of_nat_Suc)
  then have "Text_Resolve t' \<lparr>Item = ?i, ABias = b\<rparr>
      = \<lparr>RKind = At, Offset = int (k - 1) + (if b = After then 1 else 0)\<rparr>"
    using anchor_log.resolve_nth[OF ok_textD(2)[OF t(2)]] by (metis Text_Resolve_def)
  then show ?thesis using sd by auto
qed

theorem reseed_reuses_identities_witness:
  "\<exists>t. seed_text ''srv'' ''hi'' = Inr t \<and>
    RKind (Text_Resolve t \<lparr>Item = \<lparr>Actor = ''srv'', Counter = 2\<rparr>, ABias = Before\<rparr>) = At"
proof -
  have "rune_count ''hi'' = 2" by code_simp
  then show ?thesis using reseed_reuses_identities[OF hi_fits, of 2 "''srv''" Before] by simp
qed

text \<open>Type a string, delete it, undo the deletion, undo the typing. The last step is the inverse
  that the typing returned; the deletion's undo brought the text back under new identities,
  so that inverse finds only deleted characters: it is a silent no-op and the text stays.\<close>

definition type_delete_undo_undo :: "string \<Rightarrow> string \<Rightarrow> (op_error + text_op) \<times> string" where
  "type_delete_undo_undo actor s =
     (case ops_Apply (New_text actor) (InsertText None s) of
        (Inl e, t) \<Rightarrow> (Inl e, Text_String t)
      | (Inr undo1, t1) \<Rightarrow> (case ops_Apply t1 undo1 of
          (Inl e, t) \<Rightarrow> (Inl e, Text_String t)
        | (Inr undo2, t2) \<Rightarrow> (case ops_Apply t2 undo2 of
            (Inl e, t) \<Rightarrow> (Inl e, Text_String t)
          | (Inr redo2, t3) \<Rightarrow> (case ops_Apply t3 undo1 of (r, t4) \<Rightarrow> (r, Text_String t4)))))"

lemma undo_after_reinsert_lost: "type_delete_undo_undo ''a'' ''hi'' = (Inr NoOp, ''hi'')"
  by code_simp

end
