(* ===== verification/Session.thy ===== *)
theory Session
  imports LiveDoc
begin

text \<open>
  Packages internal/oplog and internal/session of collaboration-service: one page's live
  editing session. The state is the live document of LiveDoc, the per-actor vector clock, the
  write-ahead log, the queue to the flush loop, the undo and redo stacks of every actor and
  the connected subscribers with what was delivered to each. Every method of the Go type
  holds one mutex for its whole body, so a session is a sequence of the operations below.

  A commit calls code outside this package: \<open>uuid.NewV7\<close>, the clock, the file
  behind the log, the queue of the flush loop. The results it gets are the record
  \<open>commit_env\<close>; \<open>canApply\<close> is the injected authorization function.
\<close>

subsection \<open>Logged operations\<close>

type_synonym VectorClock = "uuid \<rightharpoonup> 64 word"

definition Version :: "16 word" where "Version = 1"

definition ActorKind_Valid :: "string \<Rightarrow> bool" where
  "ActorKind_Valid k \<longleftrightarrow> k = ''user'' \<or> k = ''agent'' \<or> k = ''plugin'' \<or> k = ''system''"

record LoggedOp =
  lID :: uuid
  lVersion :: "16 word"
  lPageID :: uuid
  lActorID :: uuid
  lActorKind :: string
  lUndoGroup :: "uuid option"
  lClock :: VectorClock
  lOp :: page_op
  lCreatedAt :: int

record commit_env =
  newID :: "uuid option"
  nowUTC :: int
  walOK :: bool
  enqueueOK :: bool

definition oplog_New :: "commit_env \<Rightarrow> uuid \<Rightarrow> uuid \<Rightarrow> string \<Rightarrow> uuid option \<Rightarrow> VectorClock \<Rightarrow> page_op
    \<Rightarrow> session_error + LoggedOp" where
  "oplog_New env pageID actorID actorKind undoGroup clock op =
     (if \<not> ActorKind_Valid actorKind then Inl InvalidActorKind
      else (case newID env of
        None \<Rightarrow> Inl IDFailed
      | Some i \<Rightarrow> Inr \<lparr>lID = i, lVersion = Version, lPageID = pageID, lActorID = actorID,
          lActorKind = actorKind, lUndoGroup = undoGroup, lClock = clock, lOp = op,
          lCreatedAt = nowUTC env\<rparr>))"

subsection \<open>State\<close>

record CommitResult =
  crOp :: LoggedOp
  crBoundaries :: "AnchorRange option"

record PresenceEvent =
  peActorID :: uuid
  peJoined :: bool

record CursorEvent =
  ceActorID :: uuid
  ceBlockID :: "uuid option"
  ceStart :: int
  ceEnd :: int

text \<open>The calls a subscriber receives.\<close>

datatype delivery = Deliver CommitResult | DeliverPresence PresenceEvent | DeliverCursor CursorEvent

record undoGroup =
  groupID :: "uuid option"
  inverses :: "page_op list"

definition maxUndoDepth :: nat where "maxUndoDepth = 100"

text \<open>Go's nil slice of a missing map entry is the empty list. A subscriber is an identifier
  with the calls made on it so far.\<close>

record Session =
  sPageID :: uuid
  serverActor :: string
  sDoc :: LiveDoc
  clock :: VectorClock
  wal :: "LoggedOp list"
  flushq :: "LoggedOp list"
  undo :: "uuid \<Rightarrow> undoGroup list"
  redo :: "uuid \<Rightarrow> undoGroup list"
  subs :: "64 word \<rightharpoonup> delivery list"
  subActors :: "64 word \<rightharpoonup> uuid"
  presence :: "uuid \<rightharpoonup> int"
  cursors :: "uuid \<rightharpoonup> CursorEvent"
  nextSubID :: "64 word"
  sBlockIndex :: "uuid \<rightharpoonup> nat"

definition rebuildBlockIndex :: "Page \<Rightarrow> uuid \<rightharpoonup> nat" where
  "rebuildBlockIndex page = blockIndex (Blocks page)"

definition broadcast :: "delivery \<Rightarrow> 64 word \<Rightarrow> Session \<Rightarrow> Session" where
  "broadcast e exceptSubID s = s\<lparr>subs := (\<lambda>i. if i = exceptSubID then subs s i
     else map_option (\<lambda>box. box @ [e]) (subs s i))\<rparr>"

subsection \<open>Applying and committing\<close>

definition appendUndoGroup :: "(uuid \<Rightarrow> undoGroup list) \<Rightarrow> uuid \<Rightarrow> uuid option \<Rightarrow> page_op
    \<Rightarrow> (uuid \<Rightarrow> undoGroup list)" where
  "appendUndoGroup stacks actorID gid inverseOp =
     (let groups = stacks actorID;
          groups = (if groups \<noteq> [] \<and> gid \<noteq> None \<and> groupID (last groups) = gid
            then butlast groups @ [(last groups)\<lparr>inverses := inverses (last groups) @ [inverseOp]\<rparr>]
            else groups @ [\<lparr>groupID = gid, inverses = [inverseOp]\<rparr>]);
          groups = (if length groups > maxUndoDepth then take maxUndoDepth (tl groups @ [last groups])
            else groups)
      in stacks(actorID := groups))"

text \<open>\<open>syncBlockContentFast\<close> indexes the page with the position the block index holds: out of
  range is a panic, the outer \<open>None\<close>.\<close>

definition syncBlockContentFast :: "(uuid \<rightharpoonup> nat) \<Rightarrow> Page \<Rightarrow> uuid \<Rightarrow> DocText \<Rightarrow> Page option" where
  "syncBlockContentFast idx page bid text = (case idx bid of
     None \<Rightarrow> Some page
   | Some i \<Rightarrow> (if i < length (Blocks page)
       then Some (page\<lparr>Blocks := (Blocks page)[i := (Blocks page ! i)
         \<lparr>BContent := (BContent (Blocks page ! i))\<lparr>Text := Text_String text\<rparr>\<rparr>]\<rparr>)
       else None))"

fun applyPageOpLocked ::
  "Session \<Rightarrow> page_op \<Rightarrow> ((session_error + AnchorRange option \<times> page_op) \<times> Session) option" where
  "applyPageOpLocked s (BlockOp op) = (case applyBlockOp (serverActor s) (sDoc s) op of
     None \<Rightarrow> None
   | Some (Failed e d) \<Rightarrow> Some (Inl e, s\<lparr>sDoc := d\<rparr>)
   | Some (Done d) \<Rightarrow> Some (Inr (None, BlockOp (Invert op)),
       s\<lparr>sDoc := d, sBlockIndex := rebuildBlockIndex (dPage d)\<rparr>))"
| "applyPageOpLocked s (TextOp bid op) = (case dBlocks (sDoc s) bid of
     None \<Rightarrow> Some (Inl UnknownBlock, s)
   | Some text \<Rightarrow> (case ops_Apply text op of
        (Inl e, text') \<Rightarrow> Some (Inl (OpsFailed e), s\<lparr>sDoc := (sDoc s)\<lparr>dBlocks := (dBlocks (sDoc s))(bid \<mapsto> text')\<rparr>\<rparr>)
      | (Inr inverseOp, text') \<Rightarrow> (case syncBlockContentFast (sBlockIndex s) (dPage (sDoc s)) bid text' of
           None \<Rightarrow> None
         | Some page \<Rightarrow> Some (Inr (Boundaries text', TextOp bid inverseOp),
             s\<lparr>sDoc := \<lparr>dPage = page, dBlocks = (dBlocks (sDoc s))(bid \<mapsto> text')\<rparr>\<rparr>))))"

text \<open>\<open>s.clock[actor]++\<close>: a missing entry counts as zero, and the counter wraps.\<close>

definition tick :: "VectorClock \<Rightarrow> uuid \<Rightarrow> VectorClock" where
  "tick c actorID = c(actorID \<mapsto> (case c actorID of None \<Rightarrow> 0 | Some n \<Rightarrow> n) + 1)"

definition commitOpLocked :: "commit_env \<Rightarrow> Session \<Rightarrow> uuid \<Rightarrow> string \<Rightarrow> page_op \<Rightarrow> uuid option \<Rightarrow> 64 word
    \<Rightarrow> ((session_error + CommitResult \<times> page_op) \<times> Session) option" where
  "commitOpLocked env s actorID actorKind op undoGroupID senderSubID =
     (case applyPageOpLocked s op of
        None \<Rightarrow> None
      | Some (Inl e, s1) \<Rightarrow> Some (Inl e, s1)
      | Some (Inr (boundaries, inverseOp), s1) \<Rightarrow>
          (let s2 = s1\<lparr>clock := tick (clock s1) actorID\<rparr> in
           (case oplog_New env (sPageID s) actorID actorKind undoGroupID (clock s2) op of
              Inl e \<Rightarrow> Some (Inl e, s2)
            | Inr l \<Rightarrow>
                (if \<not> walOK env then Some (Inl WALFailed, s2)
                 else (let r = \<lparr>crOp = l, crBoundaries = boundaries\<rparr>;
                           s3 = broadcast (Deliver r) senderSubID (s2\<lparr>wal := wal s2 @ [l]\<rparr>);
                           s4 = (if enqueueOK env then s3\<lparr>flushq := flushq s3 @ [l]\<rparr> else s3)
                       in Some (Inr (r, inverseOp), s4))))))"

type_synonym can_apply = "uuid \<Rightarrow> page_op \<Rightarrow> uuid \<Rightarrow> string \<Rightarrow> bool"

definition ApplyClientOp :: "can_apply \<Rightarrow> commit_env \<Rightarrow> Session \<Rightarrow> uuid \<Rightarrow> string \<Rightarrow> page_op \<Rightarrow> uuid option
    \<Rightarrow> 64 word \<Rightarrow> ((session_error + CommitResult) \<times> Session) option" where
  "ApplyClientOp canApply env s actorID actorKind op undoGroupID senderSubID =
     (if \<not> canApply (sPageID s) op actorID actorKind then Some (Inl Denied, s)
      else (case commitOpLocked env s actorID actorKind op undoGroupID senderSubID of
        None \<Rightarrow> None
      | Some (Inl e, s') \<Rightarrow> Some (Inl e, s')
      | Some (Inr (result, inverseOp), s') \<Rightarrow>
          Some (Inr result, s'\<lparr>undo := appendUndoGroup (undo s') actorID undoGroupID inverseOp,
            redo := (redo s')(actorID := [])\<rparr>)))"

subsection \<open>Undo and redo\<close>

text \<open>The common part of the loops of Undo, Redo and RestoreTo: commit the operations of the
  list one by one. It returns the results, the operations the commits produced, the ones not
  applied (the failing one first), the error if there was one, and the state. The commits of
  one call take the successive results of \<open>envs\<close>.\<close>

fun commit_loop :: "can_apply \<Rightarrow> (nat \<Rightarrow> commit_env) \<Rightarrow> uuid \<Rightarrow> string \<Rightarrow> uuid \<Rightarrow> 64 word \<Rightarrow> nat \<Rightarrow>
    page_op list \<Rightarrow> Session \<Rightarrow>
    (CommitResult list \<times> page_op list \<times> page_op list \<times> session_error option \<times> Session) option" where
  "commit_loop can envs actorID actorKind gid sender k [] s = Some ([], [], [], None, s)"
| "commit_loop can envs actorID actorKind gid sender k (op # ops) s =
     (if \<not> can (sPageID s) op actorID actorKind then Some ([], [], op # ops, Some Denied, s)
      else (case commitOpLocked (envs k) s actorID actorKind op (Some gid) sender of
        None \<Rightarrow> None
      | Some (Inl e, s') \<Rightarrow> Some ([], [], op # ops, Some e, s')
      | Some (Inr (r, p), s') \<Rightarrow>
          map_option (\<lambda>(rs, ps, rest, e, s''). (r # rs, p # ps, rest, e, s''))
            (commit_loop can envs actorID actorKind gid sender (Suc k) ops s')))"

definition append_all :: "(uuid \<Rightarrow> undoGroup list) \<Rightarrow> uuid \<Rightarrow> uuid option \<Rightarrow> page_op list
    \<Rightarrow> (uuid \<Rightarrow> undoGroup list)" where
  "append_all stacks actorID gid ps = fold (\<lambda>p st. appendUndoGroup st actorID gid p) ps stacks"

text \<open>The outcome of Undo, Redo and RestoreTo: the results (also of the part that was committed
  before an error) and the error.\<close>

type_synonym group_outcome = "(CommitResult list \<times> session_error option) \<times> Session"

definition Session_Undo :: "can_apply \<Rightarrow> uuid option \<Rightarrow> (nat \<Rightarrow> commit_env) \<Rightarrow> Session \<Rightarrow> uuid \<Rightarrow> string \<Rightarrow> 64 word
    \<Rightarrow> group_outcome option" where
  "Session_Undo can gid envs s actorID actorKind sender =
     (if undo s actorID = [] then Some (([], None), s)
      else (let group = last (undo s actorID); remaining = butlast (undo s actorID) in
        (case gid of
           None \<Rightarrow> Some (([], Some IDFailed), s)
         | Some g \<Rightarrow>
             (case commit_loop can envs actorID actorKind g sender 0 (rev (inverses group)) s of
                None \<Rightarrow> None
              | Some (results, produced, rest, Some e, s') \<Rightarrow>
                  Some ((results, Some e), s'\<lparr>undo := (undo s')(actorID :=
                    remaining @ [\<lparr>groupID = groupID group, inverses = rev rest\<rparr>])\<rparr>)
              | Some (results, produced, rest, None, s') \<Rightarrow>
                  Some ((results, None), s'\<lparr>undo := (undo s')(actorID := remaining),
                    redo := append_all (redo s') actorID (Some g) (rev produced)\<rparr>)))))"

definition Session_Redo :: "can_apply \<Rightarrow> uuid option \<Rightarrow> (nat \<Rightarrow> commit_env) \<Rightarrow> Session \<Rightarrow> uuid \<Rightarrow> string \<Rightarrow> 64 word
    \<Rightarrow> group_outcome option" where
  "Session_Redo can gid envs s actorID actorKind sender =
     (if redo s actorID = [] then Some (([], None), s)
      else (let group = last (redo s actorID); remaining = butlast (redo s actorID) in
        (case gid of
           None \<Rightarrow> Some (([], Some IDFailed), s)
         | Some g \<Rightarrow>
             (case commit_loop can envs actorID actorKind g sender 0 (inverses group) s of
                None \<Rightarrow> None
              | Some (results, produced, rest, e, s') \<Rightarrow>
                  Some ((results, e), s'\<lparr>undo := append_all (undo s') actorID (Some g) produced,
                    redo := (redo s')(actorID := (case e of
                        None \<Rightarrow> remaining
                      | Some e' \<Rightarrow> remaining @ [\<lparr>groupID = groupID group, inverses = rest\<rparr>]))\<rparr>)))))"

text \<open>RestoreTo replays the confirmed log, which is what the database returns, to find the
  inverses.\<close>

definition RestoreTo :: "can_apply \<Rightarrow> uuid option \<Rightarrow> (nat \<Rightarrow> commit_env) \<Rightarrow> LoggedOp list option \<Rightarrow> Session \<Rightarrow> uuid \<Rightarrow> string
    \<Rightarrow> int \<Rightarrow> 64 word \<Rightarrow> group_outcome option" where
  "RestoreTo can gid envs rows s actorID actorKind toStep sender =
     (case rows of None \<Rightarrow> Some (([], Some RepoFailed), s) | Some confirmed \<Rightarrow>
     (case Trace (serverActor s) (sPageID s) (map lOp confirmed) of
        None \<Rightarrow> None
      | Some (Inl e) \<Rightarrow> Some (([], Some e), s)
      | Some (Inr steps) \<Rightarrow>
          (if toStep < 0 \<or> toStep \<ge> int (length steps) then Some (([], Some OutOfRange), s)
           else if toStep = int (length steps) - 1 then Some (([], None), s)
           else (case gid of
              None \<Rightarrow> Some (([], Some IDFailed), s)
            | Some g \<Rightarrow>
                (case commit_loop can envs actorID actorKind g sender 0
                   (rev (map tsInverse (drop (nat toStep + 1) steps))) s of
                   None \<Rightarrow> None
                 | Some (results, produced, rest, Some e, s') \<Rightarrow> Some ((results, Some e), s')
                 | Some (results, produced, rest, None, s') \<Rightarrow>
                     Some ((results, None), s'\<lparr>undo := append_all (undo s') actorID (Some g) produced\<rparr>))))))"

subsection \<open>Presence and cursors\<close>

record Subscription =
  subID :: "64 word"
  Present :: "uuid set"
  Cursors :: "CursorEvent set"
  subSnapshot :: Snapshot
  subActor :: uuid

definition count_of :: "(uuid \<rightharpoonup> int) \<Rightarrow> uuid \<Rightarrow> int" where
  "count_of p a = (case p a of None \<Rightarrow> 0 | Some n \<Rightarrow> n)"

definition Subscribe :: "Session \<Rightarrow> uuid \<Rightarrow> Subscription \<times> Session" where
  "Subscribe s actorID =
     (let i = nextSubID s;
          s1 = s\<lparr>nextSubID := i + 1, subs := (subs s)(i \<mapsto> []), subActors := (subActors s)(i \<mapsto> actorID)\<rparr>;
          firstConnection = (count_of (presence s) actorID = 0);
          s2 = s1\<lparr>presence := (presence s)(actorID \<mapsto> count_of (presence s) actorID + 1)\<rparr>;
          s3 = (if firstConnection
            then broadcast (DeliverPresence \<lparr>peActorID = actorID, peJoined = True\<rparr>) i s2 else s2)
      in (\<lparr>subID = i, Present = dom (presence s), Cursors = ran (cursors s),
           subSnapshot = buildSnapshot (dPage (sDoc s3)) (dBlocks (sDoc s3)), subActor = actorID\<rparr>, s3))"

definition Subscription_Close :: "Subscription \<Rightarrow> Session \<Rightarrow> Session" where
  "Subscription_Close sub s =
     (let a = subActor sub; n = count_of (presence s) a - 1;
          s1 = s\<lparr>subs := (subs s)(subID sub := None), subActors := (subActors s)(subID sub := None),
            presence := (presence s)(a \<mapsto> n)\<rparr>
      in if n \<le> 0
         then broadcast (DeliverCursor \<lparr>ceActorID = a, ceBlockID = None, ceStart = 0, ceEnd = 0\<rparr>) (subID sub)
           (broadcast (DeliverPresence \<lparr>peActorID = a, peJoined = False\<rparr>) (subID sub)
             (s1\<lparr>presence := (presence s1)(a := None), cursors := (cursors s1)(a := None)\<rparr>))
         else s1)"

definition SetCursor :: "Session \<Rightarrow> uuid \<Rightarrow> CursorEvent \<Rightarrow> 64 word \<Rightarrow> Session" where
  "SetCursor s actorID e sender =
     (let e = e\<lparr>ceActorID := actorID\<rparr> in
      broadcast (DeliverCursor e) sender (s\<lparr>cursors :=
        (if ceBlockID e = None then (cursors s)(actorID := None) else (cursors s)(actorID \<mapsto> e))\<rparr>))"

definition ResolveRange :: "Session \<Rightarrow> uuid \<Rightarrow> AnchorRange \<Rightarrow> int \<times> int \<times> bool" where
  "ResolveRange s bid r = (case dBlocks (sDoc s) bid of
     None \<Rightarrow> (0, 0, False)
   | Some text \<Rightarrow>
       (let f = Text_Resolve text (RStart r); t = Text_Resolve text (REnd r) in
        if RKind f = Unknown \<or> RKind t = Unknown then (0, 0, False)
        else if Offset f > Offset t then (Offset t, Offset t, True)
        else (Offset f, Offset t, True)))"

subsection \<open>Opening\<close>

text \<open>Opening replays the confirmed rows, then the records of the local log that are not among
  them. It returns the session and the operations to write to the database again.\<close>

record open_env =
  confirmedRows :: "LoggedOp list option"
  walRecords :: "LoggedOp option list"
  recoverOK :: bool
  appendBatchOK :: bool
  walResetOK :: bool

fun replay_confirmed :: "string \<Rightarrow> LoggedOp list \<Rightarrow> LiveDoc \<times> (uuid \<Rightarrow> undoGroup list) \<times> VectorClock
    \<Rightarrow> (session_error + LiveDoc \<times> (uuid \<Rightarrow> undoGroup list) \<times> VectorClock) option" where
  "replay_confirmed actor [] st = Some (Inr st)"
| "replay_confirmed actor (l # ls) (d, stacks, c) = (case applyReplayedOp actor d (lOp l) of
     None \<Rightarrow> None
   | Some (Inl e, d') \<Rightarrow> Some (Inl e)
   | Some (Inr inverseOp, d') \<Rightarrow> replay_confirmed actor ls
       (d', appendUndoGroup stacks (lActorID l) (lUndoGroup l) inverseOp, tick c (lActorID l)))"

text \<open>The records of the local log: an undecodable one ends the recovery with an error, one
  whose operation is already confirmed is passed over.\<close>

fun to_reflush :: "uuid set \<Rightarrow> LoggedOp option list \<Rightarrow> LoggedOp list \<times> bool" where
  "to_reflush confirmedIDs [] = ([], True)"
| "to_reflush confirmedIDs (None # rs) = ([], False)"
| "to_reflush confirmedIDs (Some l # rs) = (let (ls, ok) = to_reflush confirmedIDs rs in
     (if lID l \<in> confirmedIDs then ls else l # ls, ok))"

definition open_session :: "open_env \<Rightarrow> string \<Rightarrow> uuid \<Rightarrow> (session_error + Session \<times> LoggedOp list) option" where
  "open_session env actor pageID = (case confirmedRows env of
     None \<Rightarrow> Some (Inl RepoFailed)
   | Some confirmed \<Rightarrow>
       (case replay_confirmed actor confirmed (new_doc pageID, \<lambda>_. [], Map.empty) of
          None \<Rightarrow> None
        | Some (Inl e) \<Rightarrow> Some (Inl e)
        | Some (Inr st) \<Rightarrow>
            (let (toReflush, ok) = to_reflush (set (map lID confirmed)) (walRecords env) in
             (case replay_confirmed actor toReflush st of
                None \<Rightarrow> None
              | Some (Inl e) \<Rightarrow> Some (Inl e)
              | Some (Inr (d, stacks, c)) \<Rightarrow>
                  if \<not> ok then Some (Inl DecodeFailed)
                  else if \<not> recoverOK env then Some (Inl FileFailed)
                  else if toReflush \<noteq> [] \<and> \<not> appendBatchOK env then Some (Inl RepoFailed)
                  else if \<not> walResetOK env then Some (Inl FileFailed)
                  else Some (Inr
                    (\<lparr>sPageID = pageID, serverActor = actor, sDoc = d, clock = c, wal = [], flushq = [],
                      undo = stacks, redo = (\<lambda>_. []), subs = Map.empty, subActors = Map.empty,
                      presence = Map.empty, cursors = Map.empty, nextSubID = 0,
                      sBlockIndex = rebuildBlockIndex (dPage d)\<rparr>, toReflush))))))"

end
