(* ===== verification/SessionLaws.thy ===== *)
theory SessionLaws
  imports Session
begin

text \<open>
  What holds of a session in every reachable state: the fast text synchronisation does what
  the replay does, the log replays to the live document, the undo stacks are bounded, and the
  presence counts are the numbers of open connections.
\<close>

subsection \<open>The live step is the replayed step\<close>

definition index_ok :: "Session \<Rightarrow> bool" where
  "index_ok s \<longleftrightarrow> wf_page (dPage (sDoc s)) \<and> sBlockIndex s = rebuildBlockIndex (dPage (sDoc s))"

lemma fast_sync:
  assumes "wf_page page"
  shows "syncBlockContentFast (rebuildBlockIndex page) page bid t = Some (syncBlockContent page bid t)"
proof -
  have d: "distinct (map ID (Blocks page))" using assms by (simp add: wf_page_def wf_blocks_def)
  have ix: "rebuildBlockIndex page bid = find_index (\<lambda>b. ID b = bid) (Blocks page)"
    using indexOf_blockIndex[OF d, of bid] by (simp add: rebuildBlockIndex_def indexOf_def)
  show ?thesis
  proof (cases "find_index (\<lambda>b. ID b = bid) (Blocks page)")
    case (Some i)
    then have "i < length (Blocks page)" by (simp add: find_index_Some)
    then show ?thesis using Some ix by (simp add: syncBlockContentFast_def syncBlockContent_def)
  qed (simp add: syncBlockContentFast_def syncBlockContent_def ix)
qed

lemma map_update_same: "f y = f (xs ! i) \<Longrightarrow> map f (xs[i := y]) = map f xs"
  by (cases "i < length xs") (auto intro!: nth_equalityI simp: nth_list_update)

lemma sync_keeps_frame:
  "map ID (Blocks (syncBlockContent p bid t)) = map ID (Blocks p)"
  by (simp add: syncBlockContent_def map_update_same split: option.split)

lemma sync_keeps_index: "rebuildBlockIndex (syncBlockContent p bid t) = rebuildBlockIndex p"
proof -
  have e: "enumerate n (map ID bs) = map (\<lambda>x. (fst x, ID (snd x))) (enumerate n bs)" for n bs
    by (induction bs arbitrary: n) simp_all
  then have "blockIndex bs = fold (\<lambda>x m. m(snd x \<mapsto> fst x)) (enumerate 0 (map ID bs)) Map.empty" for bs
    by (simp add: blockIndex_def e fold_map comp_def case_prod_unfold)
  then show ?thesis by (simp add: rebuildBlockIndex_def sync_keeps_frame)
qed

lemma sync_keeps_wf:
  assumes "wf_page p"
  shows "wf_page (syncBlockContent p bid t)"
proof (cases "find_index (\<lambda>b. ID b = bid) (Blocks p)")
  case None
  then show ?thesis using assms by (simp add: syncBlockContent_def)
next
  case (Some i)
  obtain xs b ys where b: "Blocks p = xs @ b # ys" "length xs = i" "ID b = bid"
    using find_indexE[OF Some] by metis
  let ?b = "b\<lparr>BContent := (BContent b)\<lparr>Text := Text_String t\<rparr>\<rparr>"
  have wf: "wf_blocks (xs @ b # ys)" using assms b(1) by (simp add: wf_page_def)
  then have "wf_blocks (xs @ ?b # ys)"
    using update_block_order[of ?b b xs ys] wf_blocksD[OF wf]
    by (auto simp: wf_blocks_def children_ok_def)
  moreover have "syncBlockContent p bid t = p\<lparr>Blocks := xs @ ?b # ys\<rparr>"
    using Some b by (auto simp: syncBlockContent_def nth_append)
  ultimately show ?thesis by (simp add: wf_page_def)
qed

lemma live_is_replay:
  assumes "index_ok s"
  shows "map_option (\<lambda>(r, s'). (map_sum id snd r, sDoc s')) (applyPageOpLocked s op)
    = applyReplayedOp (serverActor s) (sDoc s) op"
proof -
  have "syncBlockContentFast (sBlockIndex s) (dPage (sDoc s)) bid t
      = Some (syncBlockContent (dPage (sDoc s)) bid t)" for bid t
    using assms fast_sync by (simp add: index_ok_def)
  then show ?thesis
    by (cases op) (auto simp: applyTextOp_def split: option.split outcome.split sum.split prod.split)
qed

subsection \<open>What a commit does\<close>

text \<open>A failing commit leaves the document as it was for these errors: the authorization refused
  it, the block is unknown, its initial text was refused, an anchor is unknown, or the page
  refused an operation other than a move.\<close>

fun intact :: "session_error \<Rightarrow> page_op \<Rightarrow> bool" where
  "intact Denied op = True"
| "intact UnknownBlock op = True"
| "intact (SeedFailed e) op = True"
| "intact (OpsFailed UnknownAnchor) op = True"
| "intact (PageFailed e) (BlockOp (MoveBlock bid fp f tp t)) = False"
| "intact (PageFailed e) op = True"
| "intact e op = False"

lemma unknown_anchor_keeps:
  assumes "ops_Apply t op = (Inl UnknownAnchor, t')"
  shows "t' = t"
proof (cases op)
  case (DeleteText r x)
  have keep: "RKind (Text_Resolve t' a) = Unknown \<longleftrightarrow> RKind (Text_Resolve t a) = Unknown"
    if "DeleteRange t i j = (None, t')" for i j a t'
    using that
    by (auto simp: DeleteRange_def Tombstone_def Text_Resolve_def Log_Resolve_def Let_def
        split: if_splits sum.splits outcome.splits option.splits)
  have "RKind (Text_Resolve t (RStart r)) \<noteq> Unknown" if "resolveRange t r = Inr x" for x
    using that by (auto simp: resolveRange_def Let_def split: if_splits)
  then show ?thesis
    using assms DeleteText keep
    by (auto simp: applyDeleteText_def validateReinsertPosition_def
        split: sum.splits if_splits option.splits prod.splits)
qed (use assms in \<open>auto simp: applyInsertText_def split: sum.splits prod.splits if_splits\<close>)

lemma intact_keeps_doc:
  assumes "applyPageOpLocked s op = Some (Inl e, s')" and "intact e op"
  shows "s' = s"
proof (cases op)
  case (BlockOp o1)
  then obtain d where b: "applyBlockOp (serverActor s) (sDoc s) o1 = Some (Failed e d)" "s' = s\<lparr>sDoc := d\<rparr>"
    using assms(1) by (auto split: option.splits outcome.splits)
  have "d = sDoc s"
  proof (cases "seed_for (serverActor s) o1")
    case (Inl x)
    then show ?thesis using b(1) by (simp add: applyBlockOp_def)
  next
    case (Inr x)
    then obtain e' p where p: "Apply (dPage (sDoc s)) o1 = Some (Failed e' p)" "e = PageFailed e'"
      "d = (sDoc s)\<lparr>dPage := p\<rparr>"
      using b(1) by (auto simp: applyBlockOp_def split: option.splits outcome.splits)
    have "p = dPage (sDoc s)"
      using p(1,2) assms(2) BlockOp by (cases o1) (auto dest: failure_keeps_page)
    then show ?thesis using p(3) by simp
  qed
  then show ?thesis using b(2) by simp
next
  case (TextOp bid o2)
  show ?thesis
  proof (cases "dBlocks (sDoc s) bid")
    case None
    then show ?thesis using assms(1) TextOp by simp
  next
    case (Some t)
    then obtain e' t' where e: "ops_Apply t o2 = (Inl e', t')" "e = OpsFailed e'"
      "s' = s\<lparr>sDoc := (sDoc s)\<lparr>dBlocks := (dBlocks (sDoc s))(bid \<mapsto> t')\<rparr>\<rparr>"
      using assms(1) TextOp by (auto split: prod.splits sum.splits option.splits)
    have "e' = UnknownAnchor" using e(2) assms(2) by (cases e') simp_all
    then have "t' = t" using e(1) unknown_anchor_keeps by blast
    then show ?thesis using e(3) Some by (simp add: fun_upd_idem)
  qed
qed

lemma apply_frame_simps:
  assumes "applyPageOpLocked s op = Some (r, s1)"
  shows "clock s1 = clock s" "wal s1 = wal s" "flushq s1 = flushq s" "undo s1 = undo s" "redo s1 = redo s"
    "subs s1 = subs s" "subActors s1 = subActors s" "presence s1 = presence s" "cursors s1 = cursors s"
    "nextSubID s1 = nextSubID s" "sPageID s1 = sPageID s" "serverActor s1 = serverActor s"
  using assms by (cases op; auto split: option.splits outcome.splits sum.splits prod.splits)+

lemma apply_index:
  assumes "index_ok s" and "applyPageOpLocked s op = Some (Inr x, s1)"
  shows "index_ok s1"
proof (cases op)
  case (BlockOp o1)
  then obtain d where d: "applyBlockOp (serverActor s) (sDoc s) o1 = Some (Done d)"
    "s1 = s\<lparr>sDoc := d, sBlockIndex := rebuildBlockIndex (dPage d)\<rparr>"
    using assms(2) by (auto split: option.splits outcome.splits)
  then have "Apply (dPage (sDoc s)) o1 = Some (Done (dPage d))"
    by (auto simp: applyBlockOp_def split: sum.splits option.splits outcome.splits)
  then show ?thesis using assms(1) d(2) Apply_keeps_wf by (auto simp: index_ok_def)
next
  case (TextOp bid o2)
  have f: "syncBlockContentFast (sBlockIndex s) (dPage (sDoc s)) bid t
      = Some (syncBlockContent (dPage (sDoc s)) bid t)" for t
    using assms(1) fast_sync by (simp add: index_ok_def)
  then obtain t where "s1 = s\<lparr>sDoc := \<lparr>dPage = syncBlockContent (dPage (sDoc s)) bid t,
      dBlocks = (dBlocks (sDoc s))(bid \<mapsto> t)\<rparr>\<rparr>"
    using assms(2) TextOp by (auto split: option.splits prod.splits sum.splits)
  then show ?thesis using assms(1) sync_keeps_wf sync_keeps_index by (simp add: index_ok_def)
qed

text \<open>The parts of the state that only the methods themselves change.\<close>

definition frame :: "Session \<Rightarrow> (uuid \<Rightarrow> undoGroup list) \<times> (uuid \<Rightarrow> undoGroup list) \<times> (64 word \<rightharpoonup> uuid) \<times>
    (uuid \<rightharpoonup> int) \<times> (uuid \<rightharpoonup> CursorEvent) \<times> 64 word \<times> 64 word set" where
  "frame s = (undo s, redo s, subActors s, presence s, cursors s, nextSubID s, dom (subs s))"

lemma dom_broadcast [simp]: "dom (subs (broadcast e i s)) = dom (subs s)"
  by (auto simp: broadcast_def split: if_splits)

lemma broadcast_simps [simp]:
  "sPageID (broadcast e i s) = sPageID s" "serverActor (broadcast e i s) = serverActor s"
  "sDoc (broadcast e i s) = sDoc s" "clock (broadcast e i s) = clock s" "wal (broadcast e i s) = wal s"
  "flushq (broadcast e i s) = flushq s" "undo (broadcast e i s) = undo s" "redo (broadcast e i s) = redo s"
  "subActors (broadcast e i s) = subActors s" "presence (broadcast e i s) = presence s"
  "cursors (broadcast e i s) = cursors s" "nextSubID (broadcast e i s) = nextSubID s"
  "sBlockIndex (broadcast e i s) = sBlockIndex s"
  "subs (broadcast e i s) j = (if j = i then subs s j else map_option (\<lambda>box. box @ [e]) (subs s j))"
  by (simp_all add: broadcast_def)

lemma commit_ok:
  assumes "commitOpLocked env s a kd op g sender = Some (Inr (r, p), s')"
  obtains s1 where "applyPageOpLocked s op = Some (Inr (crBoundaries r, p), s1)"
    "oplog_New env (sPageID s) a kd g (tick (clock s) a) op = Inr (crOp r)"
    "s' = (broadcast (Deliver r) sender (s1\<lparr>clock := tick (clock s) a, wal := wal s @ [crOp r]\<rparr>))
       \<lparr>flushq := flushq s @ (if enqueueOK env then [crOp r] else [])\<rparr>"
proof -
  obtain b p' s1 where a: "applyPageOpLocked s op = Some (Inr (b, p'), s1)"
    using assms by (auto simp: commitOpLocked_def split: option.splits sum.splits prod.splits)
  note f = apply_frame_simps(1,2,3)[OF a]
  obtain l where l: "oplog_New env (sPageID s) a kd g (tick (clock s) a) op = Inr l"
    using assms a f by (auto simp: commitOpLocked_def Let_def split: sum.splits)
  have w: "walOK env" using assms a l f by (auto simp: commitOpLocked_def Let_def split: if_splits)
  have "p' = p" "r = \<lparr>crOp = l, crBoundaries = b\<rparr>"
    "s' = (let s3 = broadcast (Deliver r) sender (s1\<lparr>clock := tick (clock s) a, wal := wal s @ [l]\<rparr>) in
       if enqueueOK env then s3\<lparr>flushq := flushq s @ [l]\<rparr> else s3)"
    using assms a l w f by (auto simp: commitOpLocked_def Let_def)
  moreover have "x\<lparr>flushq := flushq s\<rparr> = x" if "flushq x = flushq s" for x :: Session
    using that by simp
  ultimately show ?thesis using that[of s1] a l f by (auto simp: Let_def)
qed

lemma oplog_New_fields:
  "oplog_New env pid a kd g c op = Inr l \<Longrightarrow> lOp l = op \<and> lActorID l = a \<and> lUndoGroup l = g \<and>
    lClock l = c \<and> lPageID l = pid \<and> Some (lID l) = newID env \<and> lVersion l = 1 \<and> ActorKind_Valid (lActorKind l)"
  by (auto simp: oplog_New_def Version_def split: if_splits option.splits)

lemma commit_error:
  assumes "commitOpLocked env s a kd op g sender = Some (Inl e, s')"
  shows "applyPageOpLocked s op = Some (Inl e, s') \<or>
    e \<in> {InvalidActorKind, IDFailed, WALFailed} \<and>
      (\<exists>x s1. applyPageOpLocked s op = Some (Inr x, s1) \<and> s' = s1\<lparr>clock := tick (clock s) a\<rparr>)"
proof -
  obtain x s1 where x: "applyPageOpLocked s op = Some (x, s1)"
    using assms by (auto simp: commitOpLocked_def split: option.splits)
  note f = apply_frame_simps(1)[OF x]
  show ?thesis
  proof (cases x)
    case (Inl e')
    then show ?thesis using assms x by (simp add: commitOpLocked_def)
  next
    case (Inr y)
    then obtain b p where y: "x = Inr (b, p)" by (cases y) simp
    let ?new = "oplog_New env (sPageID s) a kd g (tick (clock s) a) op"
    have "e \<in> {InvalidActorKind, IDFailed, WALFailed} \<and> s' = s1\<lparr>clock := tick (clock s) a\<rparr>"
    proof (cases ?new)
      case (Inl e')
      then have "e' = InvalidActorKind \<or> e' = IDFailed"
        by (auto simp: oplog_New_def split: if_splits option.splits)
      then show ?thesis using assms x y f Inl by (auto simp: commitOpLocked_def Let_def)
    next
      case (Inr l)
      then show ?thesis using assms x y f by (simp add: commitOpLocked_def Let_def split: if_splits)
    qed
    then show ?thesis using x y by blast
  qed
qed

subsection \<open>Steps of a session\<close>

text \<open>One call of a method. The label is the failure, if there was one: the error and the
  operation that failed. Undo, Redo and RestoreTo may commit some operations and then fail; a
  call that does nothing (an empty stack, no fresh identifier) is not a step. A connection is
  given a new identifier and is closed once, as the socket handler does it.\<close>

definition failure :: "session_error option \<Rightarrow> page_op list \<Rightarrow> (session_error \<times> page_op) option" where
  "failure e rest = map_option (\<lambda>e. (e, hd rest)) e"

inductive session_step :: "can_apply \<Rightarrow> Session \<Rightarrow> (session_error \<times> page_op) option \<Rightarrow> Session \<Rightarrow> bool"
  for can :: can_apply where
  client: "ApplyClientOp can env s a kd op g sender = Some (Inr r, s') \<Longrightarrow> session_step can s None s'"
| client_error: "ApplyClientOp can env s a kd op g sender = Some (Inl e, s') \<Longrightarrow>
    session_step can s (Some (e, op)) s'"
| undo: "undo s a \<noteq> [] \<Longrightarrow>
    commit_loop can envs a kd g sender 0 (rev (inverses (last (undo s a)))) s = Some (rs, ps, rest, e, s1) \<Longrightarrow>
    Session_Undo can (Some g) envs s a kd sender = Some (r, s') \<Longrightarrow> session_step can s (failure e rest) s'"
| redo: "redo s a \<noteq> [] \<Longrightarrow>
    commit_loop can envs a kd g sender 0 (inverses (last (redo s a))) s = Some (rs, ps, rest, e, s1) \<Longrightarrow>
    Session_Redo can (Some g) envs s a kd sender = Some (r, s') \<Longrightarrow> session_step can s (failure e rest) s'"
| restore: "Trace (serverActor s) (sPageID s) (map lOp confirmed) = Some (Inr steps) \<Longrightarrow>
    0 \<le> n \<Longrightarrow> n < int (length steps) - 1 \<Longrightarrow>
    commit_loop can envs a kd g sender 0 (rev (map tsInverse (drop (nat n + 1) steps))) s
      = Some (rs, ps, rest, e, s1) \<Longrightarrow>
    RestoreTo can (Some g) envs (Some confirmed) s a kd n sender = Some (r, s') \<Longrightarrow>
    session_step can s (failure e rest) s'"
| join: "subs s (nextSubID s) = None \<Longrightarrow> Subscribe s a = (sub, s') \<Longrightarrow> session_step can s None s'"
| leave: "subActors s (subID sub) = Some (subActor sub) \<Longrightarrow>
    session_step can s None (Subscription_Close sub s)"
| cursor: "session_step can s None (SetCursor s a ev sender)"

definition healthy :: "(session_error \<times> page_op) option \<Rightarrow> bool" where
  "healthy fl = (case fl of None \<Rightarrow> True | Some (e, op) \<Rightarrow> intact e op)"

text \<open>What a property has to satisfy to hold after the loop of Undo, Redo and RestoreTo.\<close>

lemma commit_loop_keeps:
  assumes "\<And>env op r p s s'. P s \<Longrightarrow> commitOpLocked env s a kd op (Some g) sender = Some (Inr (r, p), s') \<Longrightarrow> P s'"
    and "\<And>env op e s s'. P s \<Longrightarrow> commitOpLocked env s a kd op (Some g) sender = Some (Inl e, s') \<Longrightarrow>
      Q e op \<Longrightarrow> P s'"
    and "commit_loop can envs a kd g sender k ops s = Some (rs, ps, rest, e, s')" and "P s"
    and "\<And>x. e = Some x \<Longrightarrow> Q x (hd rest)"
  shows "P s'"
  using assms(3-5)
proof (induction ops arbitrary: k s rs ps)
  case (Cons op ops)
  show ?case
  proof (cases "can (sPageID s) op a kd")
    case True
    then obtain x s1 where x: "commitOpLocked (envs k) s a kd op (Some g) sender = Some (x, s1)"
      using Cons.prems(1) by (auto split: option.splits)
    show ?thesis
    proof (cases x)
      case (Inl e')
      then show ?thesis using Cons.prems True x assms(2) by auto
    next
      case (Inr y)
      then obtain r p where y: "x = Inr (r, p)" by (cases y) simp
      then obtain rs' ps' where "commit_loop can envs a kd g sender (Suc k) ops s1 = Some (rs', ps', rest, e, s')"
        using Cons.prems(1) True x by auto
      then show ?thesis using Cons.IH[OF _ assms(1)[OF Cons.prems(2)]] x y Cons.prems(3) by blast
    qed
  qed (use Cons.prems in simp)
qed simp

subsection \<open>The log replays to the document\<close>

lemma replay_confirmed_append:
  "replay_confirmed actor (xs @ ys) st = (case replay_confirmed actor xs st of
     Some (Inr st') \<Rightarrow> replay_confirmed actor ys st' | r \<Rightarrow> r)"
  by (induction actor xs st rule: replay_confirmed.induct) (auto split: option.splits sum.splits prod.splits)

definition log_in_step :: "Session \<Rightarrow> bool" where
  "log_in_step s \<longleftrightarrow> index_ok s \<and> (\<exists>st. replay_confirmed (serverActor s) (wal s)
     (new_doc (sPageID s), \<lambda>_. [], Map.empty) = Some (Inr (sDoc s, st, clock s)))"

lemma commit_in_step:
  assumes "log_in_step s" and "commitOpLocked env s a kd op g sender = Some (Inr (r, p), s')"
  shows "log_in_step s'"
proof -
  obtain s1 where s1: "applyPageOpLocked s op = Some (Inr (crBoundaries r, p), s1)"
    "oplog_New env (sPageID s) a kd g (tick (clock s) a) op = Inr (crOp r)"
    "s' = (broadcast (Deliver r) sender (s1\<lparr>clock := tick (clock s) a, wal := wal s @ [crOp r]\<rparr>))
       \<lparr>flushq := flushq s @ (if enqueueOK env then [crOp r] else [])\<rparr>"
    by (rule commit_ok[OF assms(2)])
  note f = apply_frame_simps[OF s1(1)]
  have "applyReplayedOp (serverActor s) (sDoc s) op = Some (Inr p, sDoc s1)"
    using live_is_replay[of s op] assms(1) s1(1) by (simp add: log_in_step_def)
  moreover have "lOp (crOp r) = op" "lActorID (crOp r) = a"
    using oplog_New_fields[OF s1(2)] by simp_all
  moreover obtain st where "replay_confirmed (serverActor s) (wal s)
     (new_doc (sPageID s), \<lambda>_. [], Map.empty) = Some (Inr (sDoc s, st, clock s))"
    using assms(1) by (auto simp: log_in_step_def)
  ultimately have "\<exists>st. replay_confirmed (serverActor s) (wal s @ [crOp r])
     (new_doc (sPageID s), \<lambda>_. [], Map.empty) = Some (Inr (sDoc s1, st, tick (clock s) a))"
    by (simp add: replay_confirmed_append)
  moreover have "index_ok s1" using apply_index[OF _ s1(1)] assms(1) by (simp add: log_in_step_def)
  ultimately show ?thesis using f s1(3) by (simp add: log_in_step_def index_ok_def)
qed

lemma commit_error_in_step:
  assumes "log_in_step s" and "commitOpLocked env s a kd op g sender = Some (Inl e, s')" and "intact e op"
  shows "log_in_step s'"
proof -
  have "applyPageOpLocked s op = Some (Inl e, s')"
    using commit_error[OF assms(2)] assms(3) by (cases op) auto
  then show ?thesis using intact_keeps_doc assms(1,3) by blast
qed

lemma loop_in_step:
  assumes "commit_loop can envs a kd g sender k ops s = Some (rs, ps, rest, e, s')" and "log_in_step s"
    and "healthy (failure e rest)"
  shows "log_in_step s'"
proof (rule commit_loop_keeps[where P = log_in_step and Q = intact, OF _ _ assms(1,2)])
  show "\<And>x. e = Some x \<Longrightarrow> intact x (hd rest)"
    using assms(3) by (simp add: healthy_def failure_def)
qed (fact commit_in_step commit_error_in_step)+

lemma in_step_fields:
  "sDoc s' = sDoc s \<Longrightarrow> clock s' = clock s \<Longrightarrow> wal s' = wal s \<Longrightarrow> serverActor s' = serverActor s \<Longrightarrow>
   sPageID s' = sPageID s \<Longrightarrow> sBlockIndex s' = sBlockIndex s \<Longrightarrow> log_in_step s' = log_in_step s"
  by (simp add: log_in_step_def index_ok_def)

lemma step_in_step:
  assumes "session_step can s fl s'" and "log_in_step s" and "healthy fl"
  shows "log_in_step s'"
  using assms
proof (cases rule: session_step.cases)
  case (client env a kd op g sender r)
  then obtain s1 p where "commitOpLocked env s a kd op g sender = Some (Inr (r, p), s1)"
    "s' = s1\<lparr>undo := appendUndoGroup (undo s1) a g p, redo := (redo s1)(a := [])\<rparr>"
    by (auto simp: ApplyClientOp_def split: if_splits option.splits sum.splits prod.splits)
  then show ?thesis using commit_in_step[OF assms(2)] in_step_fields[of s' s1] by auto
next
  case (client_error env a kd op g sender e)
  then have "commitOpLocked env s a kd op g sender = Some (Inl e, s') \<or> s' = s"
    by (auto simp: ApplyClientOp_def split: if_splits option.splits sum.splits prod.splits)
  then show ?thesis
    using commit_error_in_step[OF assms(2)] assms(2,3) client_error(1) by (auto simp: healthy_def)
next
  case (undo a envs kd g sender rs ps rest e s1 r)
  then have "sDoc s' = sDoc s1" "clock s' = clock s1" "wal s' = wal s1" "serverActor s' = serverActor s1"
    "sPageID s' = sPageID s1" "sBlockIndex s' = sBlockIndex s1"
    by (cases e; auto simp: Session_Undo_def Let_def)+
  then show ?thesis using loop_in_step[OF undo(3)] assms(2,3) undo(1) in_step_fields by metis
next
  case (redo a envs kd g sender rs ps rest e s1 r)
  then have "sDoc s' = sDoc s1" "clock s' = clock s1" "wal s' = wal s1" "serverActor s' = serverActor s1"
    "sPageID s' = sPageID s1" "sBlockIndex s' = sBlockIndex s1"
    by (cases e; auto simp: Session_Redo_def Let_def)+
  then show ?thesis using loop_in_step[OF redo(3)] assms(2,3) redo(1) in_step_fields by metis
next
  case (restore confirmed steps n envs a kd g sender rs ps rest e s1 r)
  then have "sDoc s' = sDoc s1" "clock s' = clock s1" "wal s' = wal s1" "serverActor s' = serverActor s1"
    "sPageID s' = sPageID s1" "sBlockIndex s' = sBlockIndex s1"
    by (cases e; auto simp: RestoreTo_def Let_def)+
  then show ?thesis using loop_in_step[OF restore(5)] assms(2,3) restore(1) in_step_fields by metis
next
  case (join a sub)
  then show ?thesis using assms(2) in_step_fields[of s' s] by (auto simp: Subscribe_def Let_def)
next
  case (leave sub)
  then show ?thesis using assms(2) in_step_fields[of s' s] by (simp add: Subscription_Close_def Let_def)
next
  case (cursor a ev sender)
  then show ?thesis using assms(2) in_step_fields[of s' s] by (simp add: SetCursor_def Let_def)
qed

subsection \<open>Stacks and presence\<close>

lemma commit_frame:
  assumes "commitOpLocked env s a kd op g sender = Some (x, s')"
  shows "frame s' = frame s \<and> sPageID s' = sPageID s \<and> serverActor s' = serverActor s"
proof (cases x)
  case (Inl e)
  then have "commitOpLocked env s a kd op g sender = Some (Inl e, s')" using assms by simp
  from commit_error[OF this] consider "applyPageOpLocked s op = Some (Inl e, s')"
    | y s1 where "applyPageOpLocked s op = Some (Inr y, s1)" "s' = s1\<lparr>clock := tick (clock s) a\<rparr>"
    by blast
  then show ?thesis
  proof cases
    case 1
    then show ?thesis using apply_frame_simps[OF 1] by (simp add: frame_def)
  next
    case 2
    then show ?thesis using apply_frame_simps[OF 2(1)] by (simp add: frame_def)
  qed
next
  case (Inr y)
  then obtain r p where "commitOpLocked env s a kd op g sender = Some (Inr (r, p), s')"
    using assms by (cases y) simp
  then show ?thesis
  proof (rule commit_ok)
    fix s1
    assume a: "applyPageOpLocked s op = Some (Inr (crBoundaries r, p), s1)"
      and s': "s' = (broadcast (Deliver r) sender (s1\<lparr>clock := tick (clock s) a, wal := wal s @ [crOp r]\<rparr>))
        \<lparr>flushq := flushq s @ (if enqueueOK env then [crOp r] else [])\<rparr>"
    have "dom (subs s') = dom (subs s1)"
      using s' dom_broadcast[of "Deliver r" sender "s1\<lparr>clock := tick (clock s) a, wal := wal s @ [crOp r]\<rparr>"]
      by simp
    then show ?thesis using apply_frame_simps[OF a] s' by (simp add: frame_def)
  qed
qed

lemma loop_frame:
  assumes "commit_loop can envs a kd g sender k ops s = Some (rs, ps, rest, e, s')"
  shows "frame s' = frame s \<and> sPageID s' = sPageID s \<and> serverActor s' = serverActor s"
proof -
  let ?P = "\<lambda>t. frame t = frame s \<and> sPageID t = sPageID s \<and> serverActor t = serverActor s"
  show ?thesis
    by (rule commit_loop_keeps[where P = ?P and Q = "\<lambda>_ _. True", OF _ _ assms]) (use commit_frame in metis)+
qed

lemma loop_rest:
  "commit_loop can envs a kd g sender k ops s = Some (rs, ps, rest, e, s') \<Longrightarrow> rest = [] \<longleftrightarrow> e = None"
  by (induction ops arbitrary: k s rs ps) (auto split: if_splits option.splits sum.splits prod.splits)

definition stack_ok :: "undoGroup list \<Rightarrow> bool" where
  "stack_ok gs \<longleftrightarrow> length gs \<le> maxUndoDepth \<and> (\<forall>g\<in>set gs. inverses g \<noteq> [])"

definition stacks_ok :: "Session \<Rightarrow> bool" where
  "stacks_ok s \<longleftrightarrow> (\<forall>a. stack_ok (undo s a) \<and> stack_ok (redo s a))"

lemma evict_ok:
  assumes "\<forall>g\<in>set gs. inverses g \<noteq> []"
  shows "stack_ok (if length gs > maxUndoDepth then take maxUndoDepth (tl gs @ [last gs]) else gs)"
proof (cases gs)
  case (Cons g gs')
  then have "set (tl gs @ [last gs]) \<subseteq> set gs" by auto
  then have "\<forall>x\<in>set (tl gs @ [last gs]). inverses x \<noteq> []" using assms by blast
  then have "\<forall>x\<in>set (take maxUndoDepth (tl gs @ [last gs])). inverses x \<noteq> []" using in_set_takeD by metis
  then show ?thesis using assms unfolding stack_ok_def by simp
qed (simp add: stack_ok_def maxUndoDepth_def)

lemma append_group_ok:
  assumes "\<forall>b. stack_ok (st b)"
  shows "\<forall>b. stack_ok (appendUndoGroup st a g p b)"
proof -
  let ?gs = "if st a \<noteq> [] \<and> g \<noteq> None \<and> groupID (last (st a)) = g
    then butlast (st a) @ [(last (st a))\<lparr>inverses := inverses (last (st a)) @ [p]\<rparr>]
    else st a @ [\<lparr>groupID = g, inverses = [p]\<rparr>]"
  have "\<forall>g\<in>set ?gs. inverses g \<noteq> []"
    using assms by (auto simp: stack_ok_def dest: in_set_butlastD)
  note top = evict_ok[OF this]
  have e: "appendUndoGroup st a g p = st(a := (if length ?gs > maxUndoDepth
      then take maxUndoDepth (tl ?gs @ [last ?gs]) else ?gs))"
    by (simp only: appendUndoGroup_def Let_def)
  show ?thesis
  proof
    fix b
    show "stack_ok (appendUndoGroup st a g p b)"
    proof (cases "b = a")
      case True
      then show ?thesis using top by (simp only: e fun_upd_same)
    next
      case False
      then show ?thesis using assms by (simp add: e)
    qed
  qed
qed

lemma append_all_ok: "\<forall>b. stack_ok (st b) \<Longrightarrow> \<forall>b. stack_ok (append_all st a g ps b)"
  by (induction ps arbitrary: st) (auto simp: append_all_def append_group_ok)

lemma stack_replace_ok:
  "stack_ok gs \<Longrightarrow> gs \<noteq> [] \<Longrightarrow> rest \<noteq> [] \<Longrightarrow> stack_ok (butlast gs @ [\<lparr>groupID = g, inverses = rest\<rparr>])"
  "stack_ok gs \<Longrightarrow> stack_ok (butlast gs)"
  by (auto simp: stack_ok_def dest: in_set_butlastD)

definition presence_ok :: "Session \<Rightarrow> bool" where
  "presence_ok s \<longleftrightarrow> dom (subs s) = dom (subActors s) \<and> finite (dom (subActors s)) \<and>
     (\<forall>a. count_of (presence s) a = int (card {i. subActors s i = Some a}) \<and> presence s a \<noteq> Some 0)"

lemma frame_fields:
  assumes "frame s' = frame s"
  shows "undo s' = undo s" "redo s' = redo s" "subActors s' = subActors s" "presence s' = presence s"
    "cursors s' = cursors s" "nextSubID s' = nextSubID s" "dom (subs s') = dom (subs s)"
  using assms by (simp_all add: frame_def)

lemma step_stacks:
  assumes "session_step can s fl s'" and "stacks_ok s"
  shows "stacks_ok s'"
  using assms
proof (cases rule: session_step.cases)
  case (client env a kd op g sender r)
  then obtain s1 p where c: "commitOpLocked env s a kd op g sender = Some (Inr (r, p), s1)"
    "s' = s1\<lparr>undo := appendUndoGroup (undo s1) a g p, redo := (redo s1)(a := [])\<rparr>"
    by (auto simp: ApplyClientOp_def split: if_splits option.splits sum.splits prod.splits)
  have "undo s1 = undo s" "redo s1 = redo s" using commit_frame[OF c(1)] frame_fields by metis+
  then show ?thesis
    using c(2) assms(2) append_group_ok[of "undo s" a g p] by (auto simp: stacks_ok_def stack_ok_def)
next
  case (client_error env a kd op g sender e)
  then have "commitOpLocked env s a kd op g sender = Some (Inl e, s') \<or> s' = s"
    by (auto simp: ApplyClientOp_def split: if_splits option.splits sum.splits prod.splits)
  then have "undo s' = undo s" "redo s' = redo s" using commit_frame frame_fields by metis+
  then show ?thesis using assms(2) by (simp add: stacks_ok_def)
next
  case (undo a envs kd g sender rs ps rest e s1 r)
  have f: "undo s1 = undo s" "redo s1 = redo s"
    using loop_frame[OF undo(3)] frame_fields by metis+
  have ok: "stack_ok (undo s a)" "\<forall>b. stack_ok (redo s b)" "\<forall>b. stack_ok (undo s b)"
    using assms(2) by (simp_all add: stacks_ok_def)
  show ?thesis
  proof (cases e)
    case None
    then show ?thesis
      using undo(2-4) f ok append_all_ok[of "redo s" a "Some g" "rev ps"] stack_replace_ok(2)[OF ok(1)]
      by (auto simp: Session_Undo_def Let_def stacks_ok_def)
  next
    case (Some x)
    have "rev rest \<noteq> []" using loop_rest[OF undo(3)] Some by simp
    then show ?thesis
      using undo(2-4) f ok Some stack_replace_ok(1)[OF ok(1)]
      by (auto simp: Session_Undo_def Let_def stacks_ok_def)
  qed
next
  case (redo a envs kd g sender rs ps rest e s1 r)
  have f: "undo s1 = undo s" "redo s1 = redo s"
    using loop_frame[OF redo(3)] frame_fields by metis+
  have ok: "stack_ok (redo s a)" "\<forall>b. stack_ok (redo s b)" "\<forall>b. stack_ok (undo s b)"
    using assms(2) by (simp_all add: stacks_ok_def)
  have "e \<noteq> None \<Longrightarrow> rest \<noteq> []" using loop_rest[OF redo(3)] by simp
  then show ?thesis
    using redo(2-4) f ok append_all_ok[of "undo s" a "Some g" ps]
      stack_replace_ok[OF ok(1)]
    by (cases e) (auto simp: Session_Redo_def Let_def stacks_ok_def)
next
  case (restore confirmed steps n envs a kd g sender rs ps rest e s1 r)
  have f: "undo s1 = undo s" "redo s1 = redo s"
    using loop_frame[OF restore(5)] frame_fields by metis+
  have "undo s' = undo s1 \<or> undo s' = append_all (undo s1) a (Some g) ps" "redo s' = redo s1"
    using restore by (cases e; auto simp: RestoreTo_def Let_def)+
  then show ?thesis
    using f assms(2) append_all_ok[of "undo s" a "Some g" ps] by (auto simp: stacks_ok_def)
next
  case (join a sub)
  then have "undo s' = undo s" "redo s' = redo s" by (auto simp: Subscribe_def Let_def)
  then show ?thesis using assms(2) by (simp add: stacks_ok_def)
next
  case (leave sub)
  then show ?thesis using assms(2) by (simp add: Subscription_Close_def Let_def stacks_ok_def)
next
  case (cursor a ev sender)
  then show ?thesis using assms(2) by (simp add: SetCursor_def Let_def stacks_ok_def)
qed

lemma step_connections:
  assumes "session_step can s fl s'"
  shows "subActors s' = subActors s \<and> presence s' = presence s \<and> dom (subs s') = dom (subs s) \<and>
      nextSubID s' = nextSubID s
    \<or> (\<exists>a sub. subs s (nextSubID s) = None \<and> Subscribe s a = (sub, s'))
    \<or> (\<exists>sub. subActors s (subID sub) = Some (subActor sub) \<and> s' = Subscription_Close sub s)"
    (is "?same \<or> ?join \<or> ?leave")
  using assms
proof (cases rule: session_step.cases)
  case (client env a kd op g sender r)
  then obtain s1 p where c: "commitOpLocked env s a kd op g sender = Some (Inr (r, p), s1)"
    "s' = s1\<lparr>undo := appendUndoGroup (undo s1) a g p, redo := (redo s1)(a := [])\<rparr>"
    by (auto simp: ApplyClientOp_def split: if_splits option.splits sum.splits prod.splits)
  then show ?thesis using frame_fields[of s1 s] commit_frame[OF c(1)] by simp
next
  case (client_error env a kd op g sender e)
  then have "commitOpLocked env s a kd op g sender = Some (Inl e, s') \<or> s' = s"
    by (auto simp: ApplyClientOp_def split: if_splits option.splits sum.splits prod.splits)
  then show ?thesis using commit_frame frame_fields by metis
next
  case (undo a envs kd g sender rs ps rest e s1 r)
  then have "subActors s' = subActors s1" "presence s' = presence s1" "subs s' = subs s1"
    "nextSubID s' = nextSubID s1"
    by (cases e; auto simp: Session_Undo_def Let_def)+
  then show ?thesis using loop_frame[OF undo(3)] frame_fields by metis
next
  case (redo a envs kd g sender rs ps rest e s1 r)
  then have "subActors s' = subActors s1" "presence s' = presence s1" "subs s' = subs s1"
    "nextSubID s' = nextSubID s1"
    by (cases e; auto simp: Session_Redo_def Let_def)+
  then show ?thesis using loop_frame[OF redo(3)] frame_fields by metis
next
  case (restore confirmed steps n envs a kd g sender rs ps rest e s1 r)
  then have "subActors s' = subActors s1" "presence s' = presence s1" "subs s' = subs s1"
    "nextSubID s' = nextSubID s1"
    by (cases e; auto simp: RestoreTo_def Let_def)+
  then show ?thesis using loop_frame[OF restore(5)] frame_fields by metis
next
  case (cursor a ev sender)
  then show ?thesis by (simp add: SetCursor_def Let_def)
qed blast+

lemma Subscribe_fields:
  assumes "Subscribe s a = (sub, s')"
  shows "subActors s' = (subActors s)(nextSubID s \<mapsto> a)"
    "presence s' = (presence s)(a \<mapsto> count_of (presence s) a + 1)"
    "dom (subs s') = insert (nextSubID s) (dom (subs s))"
proof -
  show "subActors s' = (subActors s)(nextSubID s \<mapsto> a)"
    "presence s' = (presence s)(a \<mapsto> count_of (presence s) a + 1)"
    using assms by (auto simp: Subscribe_def Let_def)
  show "dom (subs s') = insert (nextSubID s) (dom (subs s))"
    using assms by (auto simp: Subscribe_def Let_def split: if_splits)
qed

lemma join_presence:
  assumes "presence_ok s" and "subs s (nextSubID s) = None" and "Subscribe s a = (sub, s')"
  shows "presence_ok s'"
proof -
  let ?i = "nextSubID s"
  have fresh: "subActors s ?i = None" using assms(1,2) by (auto simp: presence_ok_def)
  note f = Subscribe_fields[OF assms(3)]
  have fin: "finite {i. subActors s i = Some b}" for b
    by (rule finite_subset[of _ "dom (subActors s)"]) (use assms(1) in \<open>auto simp: presence_ok_def\<close>)
  have "{i. subActors s' i = Some b} = (if b = a then insert ?i {i. subActors s i = Some b}
      else {i. subActors s i = Some b})" for b
    using f(1) fresh by auto
  then have c: "card {i. subActors s' i = Some b} = card {i. subActors s i = Some b} + (if b = a then 1 else 0)" for b
    using fin fresh by simp
  have "count_of (presence s') b = int (card {i. subActors s' i = Some b}) \<and> presence s' b \<noteq> Some 0" for b
  proof -
    have "count_of (presence s) b = int (card {i. subActors s i = Some b})" "presence s b \<noteq> Some 0"
      using assms(1) by (simp_all add: presence_ok_def)
    then show ?thesis using c[of b] f(2) by (auto simp: count_of_def)
  qed
  then show ?thesis
    using assms(1) f(1,3) by (simp add: presence_ok_def)
qed

lemma Close_fields:
  assumes "s' = Subscription_Close sub s"
  shows "subActors s' = (subActors s)(subID sub := None)"
    "dom (subs s') = dom (subs s) - {subID sub}"
    "presence s' = (if count_of (presence s) (subActor sub) \<le> 1 then (presence s)(subActor sub := None)
       else (presence s)(subActor sub \<mapsto> count_of (presence s) (subActor sub) - 1))"
proof -
  show "subActors s' = (subActors s)(subID sub := None)"
    "presence s' = (if count_of (presence s) (subActor sub) \<le> 1 then (presence s)(subActor sub := None)
       else (presence s)(subActor sub \<mapsto> count_of (presence s) (subActor sub) - 1))"
    using assms by (auto simp: Subscription_Close_def Let_def)
  show "dom (subs s') = dom (subs s) - {subID sub}"
    using assms by (simp add: Subscription_Close_def Let_def)
qed

lemma leave_presence:
  assumes "presence_ok s" and "subActors s (subID sub) = Some (subActor sub)"
  shows "presence_ok (Subscription_Close sub s)" (is "presence_ok ?s")
proof -
  let ?i = "subID sub" and ?a = "subActor sub"
  note f = Close_fields[OF refl, of sub s]
  have fin: "finite {i. subActors s i = Some b}" for b
    by (rule finite_subset[of _ "dom (subActors s)"]) (use assms(1) in \<open>auto simp: presence_ok_def\<close>)
  have "{i. subActors ?s i = Some b} = {i. subActors s i = Some b} - (if b = ?a then {?i} else {})" for b
    using f(1) assms(2) by auto
  then have c: "card {i. subActors ?s i = Some b} = card {i. subActors s i = Some b} - (if b = ?a then 1 else 0)" for b
    using fin assms(2) by simp
  have pos: "0 < card {i. subActors s i = Some ?a}" using fin[of ?a] assms(2) by (auto simp: card_gt_0_iff)
  have "count_of (presence ?s) b = int (card {i. subActors ?s i = Some b}) \<and> presence ?s b \<noteq> Some 0" for b
  proof -
    have b: "count_of (presence s) b = int (card {i. subActors s i = Some b})" "presence s b \<noteq> Some 0"
      using assms(1) by (simp_all add: presence_ok_def)
    show ?thesis
    proof (cases "b = ?a")
      case True
      then show ?thesis using b c[of b] f(3) pos by (auto simp: count_of_def of_nat_diff)
    next
      case False
      then show ?thesis using b c[of b] f(3) by (auto simp: count_of_def)
    qed
  qed
  then show ?thesis using assms(1) f(1,2) by (simp add: presence_ok_def)
qed

lemma step_presence:
  assumes "session_step can s fl s'" and "presence_ok s"
  shows "presence_ok s'"
proof -
  have "presence_ok s'" if "subActors s' = subActors s \<and> presence s' = presence s \<and> dom (subs s') = dom (subs s)"
    using that assms(2) by (simp add: presence_ok_def)
  then show ?thesis
    using step_connections[OF assms(1)] join_presence[OF assms(2)] leave_presence[OF assms(2)] by blast
qed

subsection \<open>Runs\<close>

definition fresh_session :: "string \<Rightarrow> uuid \<Rightarrow> Session" where
  "fresh_session actor pageID = \<lparr>sPageID = pageID, serverActor = actor, sDoc = new_doc pageID,
     clock = Map.empty, wal = [], flushq = [], undo = (\<lambda>_. []), redo = (\<lambda>_. []), subs = Map.empty,
     subActors = Map.empty, presence = Map.empty, cursors = Map.empty, nextSubID = 0,
     sBlockIndex = rebuildBlockIndex (dPage (new_doc pageID))\<rparr>"

inductive session_run :: "can_apply \<Rightarrow> Session \<Rightarrow> bool \<Rightarrow> Session \<Rightarrow> bool" for can s0 where
  start: "session_run can s0 True s0"
| step: "session_run can s0 b s \<Longrightarrow> session_step can s fl s' \<Longrightarrow> session_run can s0 (b \<and> healthy fl) s'"

lemma fresh_ok: "log_in_step (fresh_session actor i)" "stacks_ok (fresh_session actor i)"
  "presence_ok (fresh_session actor i)"
  using wf_NewPage
  by (auto simp: log_in_step_def index_ok_def fresh_session_def stacks_ok_def stack_ok_def presence_ok_def
      new_doc_def count_of_def NewPage_def)

lemma run_invariants:
  assumes "session_run can (fresh_session actor i) b s"
  shows "stacks_ok s \<and> presence_ok s \<and> (b \<longrightarrow> log_in_step s)"
  using assms
  by (induction rule: session_run.induct) (auto simp: fresh_ok dest: step_stacks step_presence step_in_step)

end
