(* ===== verification/SessionProps.thy ===== *)
theory SessionProps
  imports SessionLaws
begin

text \<open>The properties of the live session.\<close>

subsection \<open>Commits that succeed\<close>

definition env_ok :: "commit_env \<Rightarrow> bool" where
  "env_ok env \<longleftrightarrow> newID env \<noteq> None \<and> walOK env"

lemma commit_succeeds:
  assumes a: "applyPageOpLocked s op = Some (Inr (b, p), s1)" and "env_ok env" and "ActorKind_Valid kd"
  obtains r s' where "commitOpLocked env s a kd op g sender = Some (Inr (r, p), s')" "sDoc s' = sDoc s1"
    "wal s' = wal s @ [crOp r]"
proof -
  obtain l where l: "oplog_New env (sPageID s) a kd g (tick (clock s) a) op = Inr l"
    using assms(2,3) by (auto simp: oplog_New_def env_ok_def)
  have "\<exists>r s'. commitOpLocked env s a kd op g sender = Some (Inr (r, p), s') \<and> sDoc s' = sDoc s1 \<and>
      wal s' = wal s @ [crOp r]"
    using a l assms(2) apply_frame_simps[OF a] by (simp add: commitOpLocked_def Let_def env_ok_def)
  then show ?thesis using that by blast
qed

lemma replay_is_live:
  assumes "index_ok s" and "applyReplayedOp (serverActor s) (sDoc s) op = Some (Inr p, d)"
  obtains b s1 where "applyPageOpLocked s op = Some (Inr (b, p), s1)" "sDoc s1 = d"
proof -
  obtain r s1 where r: "applyPageOpLocked s op = Some (r, s1)" "map_sum id snd r = Inr p" "sDoc s1 = d"
    using live_is_replay[OF assms(1), of op] assms(2)
    by (cases "applyPageOpLocked s op") auto
  then show ?thesis using that by (cases r) auto
qed

definition fresh_group :: "undoGroup list \<Rightarrow> uuid option \<Rightarrow> bool" where
  "fresh_group gs gid \<longleftrightarrow> gid = None \<or> gs = [] \<or> groupID (last gs) \<noteq> gid"

lemma append_fresh:
  assumes "fresh_group (st a) gid" and "length (st a) \<le> maxUndoDepth"
  shows "appendUndoGroup st a gid p = st(a := (if length (st a) = maxUndoDepth then tl (st a) else st a)
    @ [\<lparr>groupID = gid, inverses = [p]\<rparr>])"
proof -
  have "\<not> (st a \<noteq> [] \<and> gid \<noteq> None \<and> groupID (last (st a)) = gid)"
    using assms(1) by (auto simp: fresh_group_def)
  moreover have "st a \<noteq> [] \<or> length (st a) \<noteq> maxUndoDepth" by (auto simp: maxUndoDepth_def)
  ultimately show ?thesis
    using assms(2) unfolding appendUndoGroup_def Let_def by (cases "st a") (auto simp: maxUndoDepth_def)
qed

lemma op_then_undo:
  assumes ix: "index_ok s" and ok: "ok_doc (sDoc s)" and l: "list_children_ok (dPage (sDoc s))"
    and fit: "op_fits (sDoc s) op" "doc_fits (sDoc s)" and ex: "op_exact (sDoc s) op"
    and st: "length (undo s a) \<le> maxUndoDepth" and fr: "fresh_group (undo s a) gid"
    and s1: "ApplyClientOp can env s a kd op gid sender = Some (Inr r, s1)"
    and can: "\<And>o1. can (sPageID s) o1 a kd" and envs: "env_ok (envs 0)"
  shows "\<exists>r2 s2. Session_Undo can (Some g) envs s1 a kd sender = Some (([r2], None), s2) \<and>
    dPage (sDoc s2) = dPage (sDoc s) \<and> wal s2 = wal s @ [crOp r, crOp r2] \<and>
    undo s2 a = (if length (undo s a) = maxUndoDepth then tl (undo s a) else undo s a) \<and>
    length (redo s2 a) = 1 \<and> lActorID (crOp r) = a \<and> lUndoGroup (crOp r) = gid \<and>
    lActorID (crOp r2) = a \<and> lUndoGroup (crOp r2) = Some g \<and> (log_in_step s \<longrightarrow> log_in_step s2)"
proof -
  obtain t p where c: "commitOpLocked env s a kd op gid sender = Some (Inr (r, p), t)"
    "s1 = t\<lparr>undo := appendUndoGroup (undo t) a gid p, redo := (redo t)(a := [])\<rparr>"
    using s1 by (auto simp: ApplyClientOp_def split: if_splits option.splits sum.splits prod.splits)
  obtain q where q: "applyPageOpLocked s op = Some (Inr (crBoundaries r, p), q)"
    "oplog_New env (sPageID s) a kd gid (tick (clock s) a) op = Inr (crOp r)"
    "t = (broadcast (Deliver r) sender (q\<lparr>clock := tick (clock s) a, wal := wal s @ [crOp r]\<rparr>))
       \<lparr>flushq := flushq s @ (if enqueueOK env then [crOp r] else [])\<rparr>"
    by (rule commit_ok[OF c(1)])
  have kd: "ActorKind_Valid kd" using q(2) by (auto simp: oplog_New_def split: if_splits)
  have rep: "applyReplayedOp (serverActor s) (sDoc s) op = Some (Inr p, sDoc q)"
    using live_is_replay[OF ix, of op] q(1) by simp
  obtain p2 d2 where d2: "applyReplayedOp (serverActor s) (sDoc q) p = Some (Inr p2, d2)" "dPage d2 = dPage (sDoc s)"
    using applyReplayedOp_inverts[OF ok l fit ex rep] by blast
  note fq = apply_frame_simps[OF q(1)]
  have s1f: "sDoc s1 = sDoc q" "serverActor s1 = serverActor s" "sPageID s1 = sPageID s" "wal s1 = wal s @ [crOp r]"
    "redo s1 a = []"
    "undo s1 a = (if length (undo s a) = maxUndoDepth then tl (undo s a) else undo s a)
        @ [\<lparr>groupID = gid, inverses = [p]\<rparr>]"
    using c(2) q(3) fq append_fresh[of "undo s" a gid p, OF fr st] by simp_all
  have "index_ok s1" using apply_index[OF ix q(1)] c(2) q(3) by (simp add: index_ok_def)
  then obtain b u where u: "applyPageOpLocked s1 p = Some (Inr (b, p2), u)" "sDoc u = d2"
    using replay_is_live[of s1 p p2 d2] d2(1) s1f(1,2) by metis
  obtain r2 s' where s': "commitOpLocked (envs 0) s1 a kd p (Some g) sender = Some (Inr (r2, p2), s')"
    "sDoc s' = sDoc u" "wal s' = wal s1 @ [crOp r2]"
    by (rule commit_succeeds[OF u(1) envs kd])
  have fr': "frame s' = frame s1" using commit_frame[OF s'(1)] by simp
  have "commit_loop can envs a kd g sender 0 (rev [p]) s1 = Some ([r2], [p2], [], None, s')"
    using can s1f(3) s'(1) by simp
  then have "Session_Undo can (Some g) envs s1 a kd sender = Some (([r2], None),
      s'\<lparr>undo := (undo s')(a := butlast (undo s1 a)), redo := append_all (redo s') a (Some g) [p2]\<rparr>)"
    using s1f(6) by (simp add: Session_Undo_def)
  moreover have "length (append_all (redo s') a (Some g) [p2] a) = 1"
    using s1f(5) frame_fields(2)[OF fr'] by (simp add: append_all_def appendUndoGroup_def maxUndoDepth_def)
  moreover have "lActorID (crOp r) = a" "lUndoGroup (crOp r) = gid" using oplog_New_fields[OF q(2)] by simp_all
  moreover obtain v where "oplog_New (envs 0) (sPageID s1) a kd (Some g) (tick (clock s1) a) p = Inr (crOp r2)"
    by (rule commit_ok[OF s'(1)])
  then have "lActorID (crOp r2) = a" "lUndoGroup (crOp r2) = Some g" using oplog_New_fields by blast+
  moreover have "log_in_step (s'\<lparr>undo := f1, redo := f2\<rparr>)" if "log_in_step s" for f1 f2
  proof -
    have "log_in_step s1" using commit_in_step[OF that c(1)] c(2) in_step_fields[of s1 t] by simp
    then show ?thesis using commit_in_step[OF _ s'(1)] in_step_fields[of "s'\<lparr>undo := f1, redo := f2\<rparr>" s'] by simp
  qed
  ultimately show ?thesis using d2(2) u(2) s'(2,3) s1f(4,6) by simp
qed

subsection \<open>Recovery\<close>

lemma to_reflush_split:
  "to_reflush A (map Some ls) = (filter (\<lambda>l. lID l \<notin> A) ls, True)"
  by (induction ls) auto

lemma step_identity:
  assumes "session_step can s fl s'"
  shows "serverActor s' = serverActor s \<and> sPageID s' = sPageID s"
  using assms
proof (cases rule: session_step.cases)
  case (client env a kd op g sender r)
  then obtain s1 p where c: "commitOpLocked env s a kd op g sender = Some (Inr (r, p), s1)"
    "s' = s1\<lparr>undo := appendUndoGroup (undo s1) a g p, redo := (redo s1)(a := [])\<rparr>"
    by (auto simp: ApplyClientOp_def split: if_splits option.splits sum.splits prod.splits)
  then show ?thesis using commit_frame[OF c(1)] by simp
next
  case (client_error env a kd op g sender e)
  then have "commitOpLocked env s a kd op g sender = Some (Inl e, s') \<or> s' = s"
    by (auto simp: ApplyClientOp_def split: if_splits option.splits sum.splits prod.splits)
  then show ?thesis using commit_frame by metis
next
  case (undo a envs kd g sender rs ps rest e s1 r)
  then have "serverActor s' = serverActor s1" "sPageID s' = sPageID s1"
    by (cases e; auto simp: Session_Undo_def Let_def)+
  then show ?thesis using loop_frame[OF undo(3)] by simp
next
  case (redo a envs kd g sender rs ps rest e s1 r)
  then have "serverActor s' = serverActor s1" "sPageID s' = sPageID s1"
    by (cases e; auto simp: Session_Redo_def Let_def)+
  then show ?thesis using loop_frame[OF redo(3)] by simp
next
  case (restore confirmed steps n envs a kd g sender rs ps rest e s1 r)
  then have "serverActor s' = serverActor s1" "sPageID s' = sPageID s1"
    by (cases e; auto simp: RestoreTo_def Let_def)+
  then show ?thesis using loop_frame[OF restore(5)] by simp
next
  case (join a sub)
  then show ?thesis by (auto simp: Subscribe_def Let_def)
qed (simp_all add: Subscription_Close_def SetCursor_def Let_def)

lemma run_identity:
  "session_run can s0 b s \<Longrightarrow> serverActor s = serverActor s0 \<and> sPageID s = sPageID s0"
  by (induction rule: session_run.induct) (auto dest: step_identity)

lemma recovers:
  assumes run: "session_run can (fresh_session actor i) True s" and ids: "distinct (map lID (wal s))"
    and k: "j \<le> k" "k \<le> length (wal s)"
    and env: "confirmedRows env = Some (take k (wal s))" "walRecords env = map Some (drop j (wal s))"
      "recoverOK env" "appendBatchOK env" "walResetOK env"
  shows "\<exists>s'. open_session env actor i = Some (Inr (s', drop k (wal s))) \<and>
    sDoc s' = sDoc s \<and> clock s' = clock s \<and> index_ok s'"
proof -
  have inv: "log_in_step s" using run_invariants[OF run] by simp
  have id: "serverActor s = actor" "sPageID s = i"
    using run_identity[OF run] by (simp_all add: fresh_session_def)
  obtain st where st: "replay_confirmed actor (wal s) (new_doc i, \<lambda>_. [], Map.empty) = Some (Inr (sDoc s, st, clock s))"
    using inv id by (auto simp: log_in_step_def)
  have "filter (\<lambda>l. lID l \<notin> set (map lID (take k (wal s)))) (drop j (wal s)) = drop k (wal s)"
  proof -
    have d: "drop j (wal s) = drop j (take k (wal s)) @ drop k (wal s)"
      using drop_append[of j "take k (wal s)" "drop k (wal s)"] k by simp
    have "filter (\<lambda>l. lID l \<notin> set (map lID (take k (wal s)))) (drop j (take k (wal s))) = []"
      by (auto simp: filter_empty_conv dest: in_set_dropD)
    moreover have "set (map lID (take k (wal s))) \<inter> set (map lID (drop k (wal s))) = {}"
      using ids by (metis append_take_drop_id distinct_append map_append)
    then have "filter (\<lambda>l. lID l \<notin> set (map lID (take k (wal s)))) (drop k (wal s)) = drop k (wal s)"
      by (auto simp: filter_id_conv disjoint_iff)
    ultimately show ?thesis unfolding d by simp
  qed
  then have tail: "to_reflush (set (map lID (take k (wal s)))) (map Some (drop j (wal s))) = (drop k (wal s), True)"
    by (simp only: to_reflush_split)
  let ?init = "(new_doc i, \<lambda>_. [], Map.empty) :: LiveDoc \<times> (uuid \<Rightarrow> undoGroup list) \<times> VectorClock"
  have "replay_confirmed actor (take k (wal s) @ drop k (wal s)) ?init = Some (Inr (sDoc s, st, clock s))"
    using st by simp
  then obtain st1 where st1: "replay_confirmed actor (take k (wal s)) ?init = Some (Inr st1)"
    "replay_confirmed actor (drop k (wal s)) st1 = Some (Inr (sDoc s, st, clock s))"
    unfolding replay_confirmed_append by (auto split: option.splits sum.splits simp del: append_take_drop_id)
  show ?thesis
    using st1 env tail inv by (simp add: open_session_def log_in_step_def index_ok_def)
qed

subsection \<open>Properties\<close>

text \<open>The live step and the replayed step agree. On a session whose block index matches its
  page, applying an operation to the live state gives the same document and the same inverse
  as replaying it from the log, for both tiers, on success and on failure: the fast
  synchronisation through the index writes the same block as the scan does, and it never
  indexes out of range.\<close>

theorem live_step_is_replay:
  assumes "index_ok s"
  shows "map_option (\<lambda>(r, s'). (map_sum id snd r, sDoc s')) (applyPageOpLocked s op)
    = applyReplayedOp (serverActor s) (sDoc s) op"
  using assms by (rule live_is_replay)

theorem live_step_is_replay_witness:
  "map_option (\<lambda>(r, s'). (map_sum id snd r, sDoc s')) (applyPageOpLocked (fresh_session ''srv'' 7) sample_insert)
    = applyReplayedOp ''srv'' (new_doc 7) sample_insert"
  using live_step_is_replay[of "fresh_session ''srv'' 7" sample_insert] fresh_ok(1)[of "''srv''" 7]
  by (simp add: log_in_step_def fresh_session_def)

text \<open>C3: crash recovery. Take any run of a session from an empty page, over client operations,
  undos, redos, restores, connections and cursors, in which every failure is one that leaves
  the document unchanged. However many of its logged operations the database has confirmed,
  and however much of the confirmed part the local log still holds, reopening the page from
  the two gives back the live document and the vector clock exactly, and writes to the
  database exactly the operations it was missing.\<close>

theorem crash_recovery:
  assumes "session_run can (fresh_session actor i) True s" and "distinct (map lID (wal s))"
    and "j \<le> k" and "k \<le> length (wal s)"
    and "confirmedRows env = Some (take k (wal s))" and "walRecords env = map Some (drop j (wal s))"
    and "recoverOK env" and "appendBatchOK env" and "walResetOK env"
  shows "\<exists>s'. open_session env actor i = Some (Inr (s', drop k (wal s))) \<and>
    sDoc s' = sDoc s \<and> clock s' = clock s \<and> index_ok s'"
  using recovers[OF assms] .

definition allow_all :: can_apply where "allow_all = (\<lambda>_ _ _ _. True)"

definition env_of :: "uuid \<Rightarrow> commit_env" where
  "env_of i = \<lparr>newID = Some i, nowUTC = 0, walOK = True, enqueueOK = True\<rparr>"

lemma fresh_fields [simp]:
  "sDoc (fresh_session actor i) = new_doc i" "undo (fresh_session actor i) = (\<lambda>_. [])"
  "wal (fresh_session actor i) = []" "serverActor (fresh_session actor i) = actor"
  "sPageID (fresh_session actor i) = i"
  by (simp_all add: fresh_session_def)

lemma env_of_ok: "env_ok (env_of i)" "ActorKind_Valid ''user''"
  by (simp_all add: env_of_def env_ok_def ActorKind_Valid_def)

lemma sample_session:
  obtains r s where "ApplyClientOp allow_all (env_of 50) (fresh_session ''srv'' 7) 3 ''user'' sample_insert None 0
    = Some (Inr r, s)" "wal s = [crOp r]" "session_run allow_all (fresh_session ''srv'' 7) True s"
proof -
  let ?s = "fresh_session ''srv'' 7"
  have ix: "index_ok ?s" using fresh_ok(1) by (simp add: log_in_step_def)
  obtain u d where "applyReplayedOp ''srv'' (new_doc 7) sample_insert = Some (Inr u, d)"
    using sample_log_clean by (auto split: option.splits prod.splits sum.splits)
  then have "applyReplayedOp (serverActor ?s) (sDoc ?s) sample_insert = Some (Inr u, d)" by simp
  from replay_is_live[OF ix this]
  obtain b s1 where "applyPageOpLocked ?s sample_insert = Some (Inr (b, u), s1)" .
  then obtain r t where t: "commitOpLocked (env_of 50) ?s 3 ''user'' sample_insert None 0 = Some (Inr (r, u), t)"
    "wal t = wal ?s @ [crOp r]"
    by (rule commit_succeeds[OF _ env_of_ok])
  then obtain s where "ApplyClientOp allow_all (env_of 50) ?s 3 ''user'' sample_insert None 0 = Some (Inr r, s)"
    "wal s = [crOp r]"
    by (simp add: ApplyClientOp_def allow_all_def)
  moreover from session_run.step[OF session_run.start session_step.client[OF this(1)]]
  have "session_run allow_all ?s True s" by (simp add: healthy_def)
  ultimately show ?thesis using that by blast
qed

theorem crash_recovery_witness:
  "\<exists>(s :: Session) l env s'. wal s = [l] \<and> open_session env ''srv'' 7 = Some (Inr (s', [l])) \<and>
    sDoc s' = sDoc s \<and> clock s' = clock s"
proof -
  obtain r s where "ApplyClientOp allow_all (env_of 50) (fresh_session ''srv'' 7) 3 ''user'' sample_insert None 0
      = Some (Inr r, s)"
    and s: "wal s = [crOp r]" "session_run allow_all (fresh_session ''srv'' 7) True s"
    by (rule sample_session)
  let ?env = "\<lparr>confirmedRows = Some [], walRecords = [Some (crOp r)], recoverOK = True,
    appendBatchOK = True, walResetOK = True\<rparr>"
  have "\<exists>s'. open_session ?env ''srv'' 7 = Some (Inr (s', [crOp r])) \<and> sDoc s' = sDoc s \<and> clock s' = clock s"
    using crash_recovery[OF s(2), of 0 0 ?env] s(1) by auto
  then show ?thesis using s(1) by blast
qed

text \<open>C10: undo of a client operation. On a live document that is well formed and keeps the list-child rule, with valid
  texts, take an operation of either tier that was committed (a DeleteBlock with the block it deletes as tombstone), by an actor
  whose undo stack is within its bound and who did not merge it into an older gesture. Then
  Undo by the same actor (allowed every operation, with a fresh identifier and a log that takes the record)
  commits exactly one operation and gives back the page exactly; the gesture moves from the
  undo stack to the redo stack, and both operations are in the log.\<close>

theorem op_then_undo_restores:
  assumes "index_ok s" and "ok_doc (sDoc s)" and "list_children_ok (dPage (sDoc s))"
    and "op_fits (sDoc s) op" and "doc_fits (sDoc s)" and "op_exact (sDoc s) op"
    and "length (undo s a) \<le> maxUndoDepth" and "fresh_group (undo s a) gid"
    and "ApplyClientOp can env s a kd op gid sender = Some (Inr r, s1)"
    and "\<And>o1. can (sPageID s) o1 a kd" and "env_ok (envs 0)"
  shows "\<exists>r2 s2. Session_Undo can (Some g) envs s1 a kd sender = Some (([r2], None), s2) \<and>
    dPage (sDoc s2) = dPage (sDoc s) \<and> wal s2 = wal s @ [crOp r, crOp r2] \<and>
    undo s2 a = (if length (undo s a) = maxUndoDepth then tl (undo s a) else undo s a) \<and>
    length (redo s2 a) = 1"
  using op_then_undo[where can = can and a = a and kd = kd and s = s and envs = envs and g = g, OF assms] by blast

theorem op_then_undo_restores_witness:
  "\<exists>(s1 :: Session) r2 s2. Session_Undo allow_all (Some 60) (\<lambda>_. env_of 51) s1 3 ''user'' 0 = Some (([r2], None), s2) \<and>
    dPage (sDoc s2) = NewPage 7 [] \<and> length (wal s2) = 2"
proof -
  let ?s = "fresh_session ''srv'' 7"
  obtain r s1 where s1: "ApplyClientOp allow_all (env_of 50) ?s 3 ''user'' sample_insert None 0 = Some (Inr r, s1)"
    by (rule sample_session) metis
  have c: "op_fits (new_doc 7) sample_insert" "doc_fits (new_doc 7)" "op_exact (new_doc 7) sample_insert"
    using sample_log_clean by (simp_all split: option.splits)
  have ix: "index_ok ?s" using fresh_ok(1) by (simp add: log_in_step_def)
  have e: "env_ok ((\<lambda>_. env_of 51) (0 :: nat))" by (rule env_of_ok)
  have "\<exists>r2 s2. Session_Undo allow_all (Some 60) (\<lambda>_. env_of 51) s1 3 ''user'' 0 = Some (([r2], None), s2) \<and>
      dPage (sDoc s2) = dPage (sDoc ?s) \<and> wal s2 = wal ?s @ [crOp r, crOp r2]"
    using op_then_undo_restores[OF ix _ _ _ _ _ _ _ s1 _ e] ok_new_doc c
    by (simp add: allow_all_def fresh_group_def) blast
  then show ?thesis by (intro exI[of _ s1]) (auto simp: new_doc_def)
qed

text \<open>C0: undo and redo stacks. In every reachable state, whatever failed on the way, no actor has
  more than \<open>maxUndoDepth\<close> entries on either stack, and no entry is empty, so an undo of a
  non-empty stack always has an operation to apply.\<close>

theorem undo_stacks_bounded:
  assumes "session_run can (fresh_session actor i) b s"
  shows "length (undo s a) \<le> 100 \<and> length (redo s a) \<le> 100 \<and>
    (\<forall>g\<in>set (undo s a) \<union> set (redo s a). inverses g \<noteq> [])"
  using run_invariants[OF assms] by (auto simp: stacks_ok_def stack_ok_def maxUndoDepth_def)

theorem undo_stacks_bounded_witness:
  "\<exists>s. session_run allow_all (fresh_session ''srv'' 7) True s \<and> wal s \<noteq> [] \<and> length (undo s 3) \<le> 100"
proof -
  obtain r s where "ApplyClientOp allow_all (env_of 50) (fresh_session ''srv'' 7) 3 ''user'' sample_insert None 0
      = Some (Inr r, s)"
    and s: "wal s = [crOp r]" "session_run allow_all (fresh_session ''srv'' 7) True s"
    by (rule sample_session)
  then show ?thesis using undo_stacks_bounded[OF s(2), of 3] by (intro exI[of _ s]) simp
qed

text \<open>Presence. In every reachable state the presence count of an actor is the number of
  connections that actor has open, and an actor with none is absent from the map; so the
  list a joining client receives names exactly the actors with a connection.\<close>

theorem presence_counts_connections:
  assumes "session_run can (fresh_session actor i) b s"
  shows "count_of (presence s) a = int (card {k. subActors s k = Some a}) \<and>
    (presence s a = None \<longleftrightarrow> a \<notin> ran (subActors s)) \<and>
    Present (fst (Subscribe s c)) = ran (subActors s)"
proof -
  have ok: "presence_ok s" using run_invariants[OF assms] by simp
  have c: "count_of (presence s) a = int (card {k. subActors s k = Some a})" "presence s a \<noteq> Some 0" for a
    using ok by (simp_all add: presence_ok_def)
  have fin: "finite {k. subActors s k = Some a}" for a
    by (rule finite_subset[of _ "dom (subActors s)"]) (use ok in \<open>auto simp: presence_ok_def\<close>)
  have n: "presence s a = None \<longleftrightarrow> a \<notin> ran (subActors s)" for a
    using c[of a] fin[of a] by (cases "presence s a") (auto simp: count_of_def ran_def)
  then have "dom (presence s) = ran (subActors s)" by (auto simp: dom_def)
  then show ?thesis using c n by (simp add: Subscribe_def Let_def)
qed

theorem presence_counts_connections_witness:
  "\<exists>s. session_run allow_all (fresh_session ''srv'' 7) True s \<and> subActors s 0 = Some 5 \<and>
    count_of (presence s) 5 = int (card {k. subActors s k = Some 5})"
proof -
  let ?s = "snd (Subscribe (fresh_session ''srv'' 7) 5)"
  have j: "session_step allow_all (fresh_session ''srv'' 7) None ?s"
    by (rule session_step.join[of _ 5 "fst (Subscribe (fresh_session ''srv'' 7) 5)"])
      (simp_all add: fresh_session_def)
  have "session_run allow_all (fresh_session ''srv'' 7) True ?s"
    using session_run.step[OF session_run.start j] by (simp add: healthy_def)
  moreover have "subActors ?s 0 = Some 5" by (simp add: Subscribe_def Let_def fresh_session_def)
  ultimately show ?thesis using presence_counts_connections by blast
qed

text \<open>Delivery. A committed client operation is delivered exactly once to every other
  connection, after what was delivered before, and not to the connection that sent it; an
  operation that is refused is delivered to nobody and is not in the log.\<close>

theorem commit_delivered_once:
  assumes "ApplyClientOp can env s a kd op gid sender = Some (x, s')"
  shows "case x of
     Inr r \<Rightarrow> (\<forall>i box. subs s i = Some box \<longrightarrow>
        subs s' i = Some (if i = sender then box else box @ [Deliver r])) \<and>
        dom (subs s') = dom (subs s) \<and> wal s' = wal s @ [crOp r] \<and> lOp (crOp r) = op
   | Inl e \<Rightarrow> subs s' = subs s \<and> wal s' = wal s"
proof (cases x)
  case (Inr r)
  then obtain s1 p where c: "commitOpLocked env s a kd op gid sender = Some (Inr (r, p), s1)"
    "subs s' = subs s1" "wal s' = wal s1"
    using assms by (auto simp: ApplyClientOp_def split: if_splits option.splits sum.splits prod.splits)
  obtain q where q: "applyPageOpLocked s op = Some (Inr (crBoundaries r, p), q)"
    "oplog_New env (sPageID s) a kd gid (tick (clock s) a) op = Inr (crOp r)"
    "s1 = (broadcast (Deliver r) sender (q\<lparr>clock := tick (clock s) a, wal := wal s @ [crOp r]\<rparr>))
       \<lparr>flushq := flushq s @ (if enqueueOK env then [crOp r] else [])\<rparr>"
    by (rule commit_ok[OF c(1)])
  have "dom (subs s1) = dom (subs s)" using commit_frame[OF c(1)] frame_fields by metis
  then show ?thesis
    using Inr c(2,3) q(3) apply_frame_simps[OF q(1)] oplog_New_fields[OF q(2)] by simp
next
  case (Inl e)
  then consider "commitOpLocked env s a kd op gid sender = Some (Inl e, s')" | "s' = s"
    using assms by (auto simp: ApplyClientOp_def split: if_splits option.splits sum.splits prod.splits)
  then show ?thesis
  proof cases
    case 1
    then consider "applyPageOpLocked s op = Some (Inl e, s')"
      | y q where "applyPageOpLocked s op = Some (Inr y, q)" "s' = q\<lparr>clock := tick (clock s) a\<rparr>"
      using commit_error by blast
    then show ?thesis using Inl apply_frame_simps by cases simp_all
  qed (use Inl in simp)
qed

theorem commit_delivered_once_witness:
  "\<exists>r s'. ApplyClientOp allow_all (env_of 50) (fresh_session ''srv'' 7) 3 ''user'' sample_insert None 0
      = Some (Inr r, s') \<and> lOp (crOp r) = sample_insert"
proof -
  obtain r s where s: "ApplyClientOp allow_all (env_of 50) (fresh_session ''srv'' 7) 3 ''user'' sample_insert None 0
      = Some (Inr r, s)"
    by (rule sample_session) metis
  then show ?thesis using commit_delivered_once[OF s] by simp
qed

text \<open>A commit is not atomic. If the operation applies but the logged record cannot be built
  or written (an unknown actor kind, no identifier, a failing log), the caller gets an error
  and nobody is told, yet the live document keeps the change: it has the document and the
  clock of the committed case, without a log record, a delivery or an undo entry.\<close>

theorem failed_commit_keeps_change:
  assumes "applyPageOpLocked s op = Some (Inr (b, p), s1)" and "can (sPageID s) op a kd"
    and "\<not> (ActorKind_Valid kd \<and> newID env \<noteq> None \<and> walOK env)"
  shows "\<exists>e. ApplyClientOp can env s a kd op gid sender = Some (Inl e, s1\<lparr>clock := tick (clock s) a\<rparr>) \<and>
    wal s1 = wal s \<and> undo s1 = undo s \<and> subs s1 = subs s"
proof -
  note f = apply_frame_simps[OF assms(1)]
  have "\<exists>e. commitOpLocked env s a kd op gid sender = Some (Inl e, s1\<lparr>clock := tick (clock s) a\<rparr>)"
    using assms f by (auto simp: commitOpLocked_def oplog_New_def Let_def split: option.split)
  then show ?thesis using assms(2) f by (auto simp: ApplyClientOp_def)
qed

theorem failed_commit_keeps_change_witness:
  "\<exists>e s1. ApplyClientOp allow_all ((env_of 50)\<lparr>walOK := False\<rparr>) (fresh_session ''srv'' 7) 3 ''user''
      sample_insert None 0 = Some (Inl e, s1) \<and> wal s1 = [] \<and>
    applyReplayedOp ''srv'' (new_doc 7) sample_insert \<noteq> None"
proof -
  let ?s = "fresh_session ''srv'' 7"
  have ix: "index_ok ?s" using fresh_ok(1) by (simp add: log_in_step_def)
  obtain u d where u: "applyReplayedOp (serverActor ?s) (sDoc ?s) sample_insert = Some (Inr u, d)"
    using sample_log_clean by (auto split: option.splits prod.splits sum.splits)
  from replay_is_live[OF ix u]
  obtain b s1 where s1: "applyPageOpLocked ?s sample_insert = Some (Inr (b, u), s1)" .
  then show ?thesis
    using failed_commit_keeps_change[OF s1, of allow_all 3 "''user''" "(env_of 50)\<lparr>walOK := False\<rparr>" None 0] u
    by (auto simp: allow_all_def)
qed

subsection \<open>Restoring\<close>

lemma commit_is_replay:
  assumes "index_ok s" and "applyReplayedOp (serverActor s) (sDoc s) op = Some (Inr p, d)"
    and "env_ok env" and "ActorKind_Valid kd"
  obtains r s' where "commitOpLocked env s a kd op g sender = Some (Inr (r, p), s')" "sDoc s' = d"
    "wal s' = wal s @ [crOp r]" "lOp (crOp r) = op" "index_ok s'" "serverActor s' = serverActor s" "sPageID s' = sPageID s"
proof -
  from replay_is_live[OF assms(1,2)]
  obtain b s1 where s1: "applyPageOpLocked s op = Some (Inr (b, p), s1)" "sDoc s1 = d" .
  obtain r s' where s': "commitOpLocked env s a kd op g sender = Some (Inr (r, p), s')" "sDoc s' = sDoc s1"
    "wal s' = wal s @ [crOp r]"
    by (rule commit_succeeds[OF s1(1) assms(3,4)])
  obtain q where q: "applyPageOpLocked s op = Some (Inr (crBoundaries r, p), q)"
    "oplog_New env (sPageID s) a kd g (tick (clock s) a) op = Inr (crOp r)"
    "s' = (broadcast (Deliver r) sender (q\<lparr>clock := tick (clock s) a, wal := wal s @ [crOp r]\<rparr>))
       \<lparr>flushq := flushq s @ (if enqueueOK env then [crOp r] else [])\<rparr>"
    by (rule commit_ok[OF s'(1)])
  have "index_ok s'" using apply_index[OF assms(1) q(1)] q(3) by (simp add: index_ok_def)
  then show ?thesis
    using that[OF s'(1)] s' s1(2) oplog_New_fields[OF q(2)] commit_frame[OF s'(1)] by simp
qed

lemma loop_is_replay:
  assumes "index_ok s" and "replay (serverActor s) (sDoc s) ops = Some (Inr d)"
    and "\<And>o1. can (sPageID s) o1 a kd" and "\<And>n. env_ok (envs n)" and "ActorKind_Valid kd"
  shows "\<exists>rs ps s'. commit_loop can envs a kd g sender k ops s = Some (rs, ps, [], None, s') \<and>
    length rs = length ops \<and> length ps = length ops \<and> sDoc s' = d"
  using assms(1,2,3)
proof (induction ops arbitrary: s k)
  case (Cons op ops)
  obtain p d1 where p: "applyReplayedOp (serverActor s) (sDoc s) op = Some (Inr p, d1)"
    "replay (serverActor s) d1 ops = Some (Inr d)"
    using Cons.prems(2) by (auto split: option.splits prod.splits sum.splits)
  obtain r s1 where s1: "commitOpLocked (envs k) s a kd op (Some g) sender = Some (Inr (r, p), s1)" "sDoc s1 = d1"
    "index_ok s1" "serverActor s1 = serverActor s" "sPageID s1 = sPageID s"
    using commit_is_replay[OF Cons.prems(1) p(1) assms(4,5)] by metis
  obtain rs ps s' where "commit_loop can envs a kd g sender (Suc k) ops s1 = Some (rs, ps, [], None, s')"
    "length rs = length ops" "length ps = length ops" "sDoc s' = d"
    using Cons.IH[of s1 "Suc k"] s1 p(2) Cons.prems(3) by auto
  then show ?case using s1(1) Cons.prems(3) by simp
qed simp

lemma restore_applies_inverses:
  assumes "index_ok s" and "Trace (serverActor s) (sPageID s) (map lOp confirmed) = Some (Inr steps)"
    and "0 \<le> n" and "n < int (length steps) - 1"
    and "replay (serverActor s) (sDoc s) (rev (map tsInverse (drop (nat n + 1) steps))) = Some (Inr d)"
    and "\<And>o1. can (sPageID s) o1 a kd" and "\<And>k. env_ok (envs k)" and "ActorKind_Valid kd"
  shows "\<exists>rs s'. RestoreTo can (Some g) envs (Some confirmed) s a kd n sender = Some ((rs, None), s') \<and>
    length rs = length steps - (nat n + 1) \<and> sDoc s' = d"
proof -
  obtain rs ps s' where "commit_loop can envs a kd g sender 0 (rev (map tsInverse (drop (nat n + 1) steps))) s
      = Some (rs, ps, [], None, s')" "length rs = length steps - (nat n + 1)" "sDoc s' = d"
    using loop_is_replay[where s = s and g = g and sender = sender and k = 0 and can = can and a = a and kd = kd
      and envs = envs, OF assms(1,5,6-8)] by auto
  then show ?thesis using assms(2-4) by (simp add: RestoreTo_def)
qed

text \<open>A page with one empty paragraph, in which one actor types two characters and deletes them.\<close>

definition typed_range :: AnchorRange where
  "typed_range = \<lparr>RStart = \<lparr>Item = \<lparr>Actor = ''srv'', Counter = 1\<rparr>, ABias = Before\<rparr>,
     REnd = \<lparr>Item = \<lparr>Actor = ''srv'', Counter = 2\<rparr>, ABias = After\<rparr>\<rparr>"

definition retype_ops :: "page_op list" where
  "retype_ops = [BlockOp (InsertBlock 1 None None NewParagraph (PlainContent [])),
     TextOp 1 (InsertText None ''hi''), TextOp 1 (DeleteText typed_range ''hi'')]"

definition retype_inverses :: "page_op list" where
  "retype_inverses = [TextOp 1 (InsertText (Some (RStart typed_range)) ''hi''),
     TextOp 1 (DeleteText typed_range ''hi'')]"

fun client_ops :: "Session \<Rightarrow> uuid \<Rightarrow> page_op list \<Rightarrow> Session option" where
  "client_ops s i [] = Some s"
| "client_ops s i (op # ops) = (case ApplyClientOp allow_all (env_of i) s 3 ''user'' op None 0 of
     Some (Inr r, s') \<Rightarrow> client_ops s' (i + 1) ops | _ \<Rightarrow> None)"

lemma client_ops_replay:
  "index_ok s \<Longrightarrow> replay (serverActor s) (sDoc s) ops = Some (Inr d) \<Longrightarrow>
   \<exists>s'. client_ops s i ops = Some s' \<and> sDoc s' = d \<and> map lOp (wal s') = map lOp (wal s) @ ops \<and>
     index_ok s' \<and> serverActor s' = serverActor s \<and> sPageID s' = sPageID s"
proof (induction ops arbitrary: s i)
  case (Cons op ops)
  obtain p d1 where p: "applyReplayedOp (serverActor s) (sDoc s) op = Some (Inr p, d1)"
    "replay (serverActor s) d1 ops = Some (Inr d)"
    using Cons.prems(2) by (auto split: option.splits prod.splits sum.splits)
  obtain r t where t: "commitOpLocked (env_of i) s 3 ''user'' op None 0 = Some (Inr (r, p), t)" "sDoc t = d1"
    "wal t = wal s @ [crOp r]" "lOp (crOp r) = op" "index_ok t" "serverActor t = serverActor s" "sPageID t = sPageID s"
    by (rule commit_is_replay[OF Cons.prems(1) p(1) env_of_ok])
  let ?t = "t\<lparr>undo := appendUndoGroup (undo t) 3 None p, redo := (redo t)(3 := [])\<rparr>"
  have ap: "ApplyClientOp allow_all (env_of i) s 3 ''user'' op None 0 = Some (Inr r, ?t)"
    using t(1) by (simp add: ApplyClientOp_def allow_all_def)
  have "\<exists>s'. client_ops ?t (i + 1) ops = Some s' \<and> sDoc s' = d \<and> map lOp (wal s') = map lOp (wal ?t) @ ops \<and>
     index_ok s' \<and> serverActor s' = serverActor ?t \<and> sPageID s' = sPageID ?t"
    by (rule Cons.IH) (use t p(2) in \<open>simp_all add: index_ok_def\<close>)
  then show ?case using ap t(3,4,6,7) by auto
qed auto

lemma retype_trace:
  "(case Trace ''srv'' 7 retype_ops of Some (Inr steps) \<Rightarrow> Some (length steps, rev (map tsInverse (drop 1 steps)),
      map bsText (snBlocks (After_step (hd steps)))) | _ \<Rightarrow> None) = Some (3, retype_inverses, [[]])"
  by code_simp

definition text_of :: "LiveDoc \<Rightarrow> uuid \<Rightarrow> string option" where
  "text_of d bid = map_option Text_String (dBlocks d bid)"

definition replayed_text :: "page_op list \<Rightarrow> string option" where
  "replayed_text ops = (case replay ''srv'' (new_doc 7) ops of Some (Inr d) \<Rightarrow> text_of d 1 | _ \<Rightarrow> None)"

lemma retype_replays: "replayed_text retype_ops = Some []"
  "replayed_text (retype_ops @ retype_inverses) = Some ''hi''"
  by code_simp+

lemma replay_append:
  "replay actor d (xs @ ys) = (case replay actor d xs of Some (Inr d') \<Rightarrow> replay actor d' ys | r \<Rightarrow> r)"
  by (induction actor d xs rule: replay.induct) (auto split: option.splits sum.splits prod.splits)

text \<open>Restoring across a deletion does not restore. On a page with one empty paragraph an
  actor types two characters and deletes them; all three operations are in the confirmed log.
  Restoring to the state after the first one commits two operations without an error, but the
  text of the paragraph is then the two characters, where the trace shows it empty at that
  step: the first inverse brings the text back under new identities, and the second one, which
  names the old ones, removes nothing.\<close>

theorem restore_misses_retyped_text:
  "\<exists>(s :: Session) steps rs s'. client_ops (fresh_session ''srv'' 7) 50 retype_ops = Some s \<and>
    Trace ''srv'' 7 (map lOp (wal s)) = Some (Inr steps) \<and>
    map bsText (snBlocks (After_step (steps ! 0))) = [[]] \<and>
    RestoreTo allow_all (Some 90) (\<lambda>k. env_of (60 + of_nat k)) (Some (wal s)) s 3 ''user'' 0 0 = Some ((rs, None), s') \<and>
    length rs = 2 \<and> text_of (sDoc s') 1 = Some ''hi''"
proof -
  have ix: "index_ok (fresh_session ''srv'' 7)" using fresh_ok(1) by (simp add: log_in_step_def)
  obtain d1 d2 where d1: "replay ''srv'' (new_doc 7) retype_ops = Some (Inr d1)"
    and d2: "replay ''srv'' d1 retype_inverses = Some (Inr d2)" "text_of d2 1 = Some ''hi''"
    using retype_replays by (auto simp: replayed_text_def replay_append split: option.splits sum.splits)
  obtain s where s: "client_ops (fresh_session ''srv'' 7) 50 retype_ops = Some s" "sDoc s = d1"
    "map lOp (wal s) = retype_ops" "index_ok s" "serverActor s = ''srv''" "sPageID s = 7"
    using client_ops_replay[OF ix, of retype_ops d1 50] d1 by auto
  obtain steps where st: "Trace ''srv'' 7 retype_ops = Some (Inr steps)" "length steps = 3"
    "rev (map tsInverse (drop 1 steps)) = retype_inverses" "map bsText (snBlocks (After_step (hd steps))) = [[]]"
    using retype_trace by (auto split: option.splits sum.splits)
  have "\<exists>rs s'. RestoreTo allow_all (Some 90) (\<lambda>k. env_of (60 + of_nat k)) (Some (wal s)) s 3 ''user'' 0 0
      = Some ((rs, None), s') \<and> length rs = length steps - (nat 0 + 1) \<and> sDoc s' = d2"
  proof (rule restore_applies_inverses[OF s(4)])
    show "replay (serverActor s) (sDoc s) (rev (map tsInverse (drop (nat 0 + 1) steps))) = Some (Inr d2)"
      using s(2,5) st(3) d2(1) by simp
  qed (use s st(1,2) env_of_ok in \<open>simp_all add: allow_all_def\<close>)
  then show ?thesis
    using s(1,3) st(1,2,4) d2(2) by (intro exI[of _ s] exI[of _ steps]) (cases steps; auto)
qed

text \<open>Undo after reopening differs from undo before. Take a page whose log holds one
  operation and its undo, both committed. In the live session the actor's undo stack is empty;
  reopened from the same log it has two entries, because every logged operation is pushed as a
  new gesture, the undo's own operations included.\<close>

theorem reopened_undo_differs:
  assumes "op_fits (new_doc i) op" and "op_exact (new_doc i) op"
    and "ApplyClientOp can env (fresh_session actor i) a kd op gid sender = Some (Inr r, s1)"
    and "\<And>o1. can i o1 a kd" and "env_ok (envs 0)" and "gid \<noteq> Some g"
  shows "\<exists>r2 s2 s3. Session_Undo can (Some g) envs s1 a kd sender = Some (([r2], None), s2) \<and> undo s2 a = [] \<and>
    open_session \<lparr>confirmedRows = Some (wal s2), walRecords = [], recoverOK = True, appendBatchOK = True,
      walResetOK = True\<rparr> actor i = Some (Inr (s3, [])) \<and> sDoc s3 = sDoc s2 \<and> length (undo s3 a) = 2"
proof -
  let ?s = "fresh_session actor i"
  have ix: "index_ok ?s" "log_in_step ?s" using fresh_ok(1) by (simp_all add: log_in_step_def)
  have df: "doc_fits (new_doc i)" by (simp add: doc_fits_def new_doc_def NewPage_def)
  have "\<exists>r2 s2. Session_Undo can (Some g) envs s1 a kd sender = Some (([r2], None), s2) \<and>
    dPage (sDoc s2) = dPage (sDoc ?s) \<and> wal s2 = wal ?s @ [crOp r, crOp r2] \<and>
    undo s2 a = (if length (undo ?s a) = maxUndoDepth then tl (undo ?s a) else undo ?s a) \<and>
    length (redo s2 a) = 1 \<and> lActorID (crOp r) = a \<and> lUndoGroup (crOp r) = gid \<and>
    lActorID (crOp r2) = a \<and> lUndoGroup (crOp r2) = Some g \<and> (log_in_step ?s \<longrightarrow> log_in_step s2)"
    by (rule op_then_undo[OF ix(1), of op a gid can env kd sender r s1 envs g])
      (use assms ok_new_doc df in \<open>simp_all add: fresh_group_def\<close>)
  then obtain r2 s2 where s2: "Session_Undo can (Some g) envs s1 a kd sender = Some (([r2], None), s2)"
    "wal s2 = [crOp r, crOp r2]" "undo s2 a = []" "lActorID (crOp r) = a" "lUndoGroup (crOp r) = gid"
    "lActorID (crOp r2) = a" "lUndoGroup (crOp r2) = Some g" "log_in_step s2"
    using ix(2) by (auto simp: maxUndoDepth_def)
  have id: "serverActor s2 = actor" "sPageID s2 = i"
  proof -
    have st: "session_step can ?s None s1" by (rule session_step.client[OF assms(3)])
    have "s2 = s1 \<or> (\<exists>fl. session_step can s1 fl s2)"
    proof (cases "undo s1 a = []")
      case True
      then show ?thesis using s2(1) by (simp add: Session_Undo_def)
    next
      case False
      then obtain rs ps rest e t where "commit_loop can envs a kd g sender 0 (rev (inverses (last (undo s1 a)))) s1
          = Some (rs, ps, rest, e, t)"
        using s2(1) by (auto simp: Session_Undo_def Let_def split: option.splits prod.splits)
      then show ?thesis using session_step.undo[OF False _ s2(1)] by blast
    qed
    then show "serverActor s2 = actor" "sPageID s2 = i"
      using step_identity[OF st] step_identity by (metis fresh_fields(4,5))+
  qed
  obtain st where st: "replay_confirmed actor [crOp r, crOp r2] (new_doc i, \<lambda>_. [], Map.empty)
      = Some (Inr (sDoc s2, st, clock s2))"
    using s2(2,8) id by (auto simp: log_in_step_def)
  then obtain p1 p2 where "st = appendUndoGroup (appendUndoGroup (\<lambda>_. []) a gid p1) a (Some g) p2"
    using s2(4-7) by (auto split: option.splits sum.splits prod.splits)
  then have "length (st a) = 2"
    using assms(6) by (simp add: append_fresh fresh_group_def maxUndoDepth_def)
  then show ?thesis
    using s2(1-3) st by (simp add: open_session_def Let_def)
qed

theorem reopened_undo_differs_witness:
  "\<exists>(s1 :: Session) r2 s2 s3. Session_Undo allow_all (Some 60) (\<lambda>_. env_of 51) s1 3 ''user'' 0 = Some (([r2], None), s2) \<and>
    undo s2 3 = [] \<and> open_session \<lparr>confirmedRows = Some (wal s2), walRecords = [], recoverOK = True,
      appendBatchOK = True, walResetOK = True\<rparr> ''srv'' 7 = Some (Inr (s3, [])) \<and> length (undo s3 3) = 2"
proof -
  obtain r s1 where s1: "ApplyClientOp allow_all (env_of 50) (fresh_session ''srv'' 7) 3 ''user'' sample_insert None 0
      = Some (Inr r, s1)"
    by (rule sample_session) metis
  have c: "op_fits (new_doc 7) sample_insert" "op_exact (new_doc 7) sample_insert"
    using sample_log_clean by (simp_all split: option.splits)
  have e: "env_ok ((\<lambda>_. env_of 51) (0 :: nat))" by (rule env_of_ok)
  have "\<exists>r2 s2 s3. Session_Undo allow_all (Some 60) (\<lambda>_. env_of 51) s1 3 ''user'' 0 = Some (([r2], None), s2) \<and>
    undo s2 3 = [] \<and> open_session \<lparr>confirmedRows = Some (wal s2), walRecords = [], recoverOK = True,
      appendBatchOK = True, walResetOK = True\<rparr> ''srv'' 7 = Some (Inr (s3, [])) \<and> sDoc s3 = sDoc s2 \<and>
      length (undo s3 3) = 2"
    by (rule reopened_undo_differs[OF c s1 _ e]) (simp_all add: allow_all_def)
  then show ?thesis by blast
qed

text \<open>Resolving a stored range. On a document in step the answer is "gone" exactly if the
  block is gone or one of the ends is unknown to its text; otherwise it is a range inside the
  current text, never inverted.\<close>

theorem ResolveRange_in_text:
  assumes "ok_doc (sDoc s)" and "ResolveRange s bid r = (x, y, found)"
  shows "(found \<longleftrightarrow> (\<exists>t. dBlocks (sDoc s) bid = Some t \<and> known t (RStart r) \<and> known t (REnd r))) \<and>
    0 \<le> x \<and> x \<le> y \<and> (\<forall>t. dBlocks (sDoc s) bid = Some t \<longrightarrow> y \<le> int (Text_RuneLen t))"
proof (cases "dBlocks (sDoc s) bid")
  case None
  then show ?thesis using assms(2) by (simp add: ResolveRange_def)
next
  case (Some t)
  have t: "ok_text t" using ok_doc_block[OF assms(1) Some] by metis
  have bnd: "0 \<le> Offset (Text_Resolve t a) \<and> Offset (Text_Resolve t a) \<le> int (Text_RuneLen t)" for a
    using anchor_log.resolve_in_range[OF ok_textD(2)[OF t]] ok_textD(3,4)[OF t] by (simp add: Text_Resolve_def)
  show ?thesis
    using assms(2) Some bnd[of "RStart r"] bnd[of "REnd r"]
      resolve_known_iff[OF t, of "RStart r"] resolve_known_iff[OF t, of "REnd r"]
    by (auto simp: ResolveRange_def Let_def split: if_splits)
qed

lemma sample_range:
  "(case applyReplayedOp ''srv'' (new_doc 7) sample_insert of
      Some (Inr u, d) \<Rightarrow> Some (ResolveRange ((fresh_session ''srv'' 7)\<lparr>sDoc := d\<rparr>) 1 typed_range) | _ \<Rightarrow> None)
    = Some (0, 2, True)"
  by code_simp

theorem ResolveRange_in_text_witness:
  "\<exists>s t. ResolveRange s 1 typed_range = (0, 2, True) \<and> dBlocks (sDoc s) 1 = Some t \<and> known t (RStart typed_range)"
proof -
  obtain u d where d: "applyReplayedOp ''srv'' (new_doc 7) sample_insert = Some (Inr u, d)"
    "ResolveRange ((fresh_session ''srv'' 7)\<lparr>sDoc := d\<rparr>) 1 typed_range = (0, 2, True)"
    using sample_range by (auto split: option.splits prod.splits sum.splits)
  have "op_fits (new_doc 7) sample_insert"
    using sample_log_clean by (simp split: option.splits)
  then have "ok_doc (sDoc ((fresh_session ''srv'' 7)\<lparr>sDoc := d\<rparr>))"
    using replayed_total[OF ok_new_doc(1), of 7 sample_insert "''srv''"] d(1) by simp
  from ResolveRange_in_text[OF this d(2)] show ?thesis using d(2) by blast
qed

end
