(* ===== verification/Wal.thy ===== *)
theory Wal
  imports Prelude
begin

text \<open>
  Package internal/wal of collaboration-service: the framing of records in the local log, the
  append and the recovering parser. A file is the list of its bytes. What the operating system
  does to one write is the argument \<open>io\<close> of \<open>Append\<close>: how many bytes of the frame
  reached the file and whether the sync succeeded.
\<close>

unbundle bit_operations_syntax

type_synonym bytes = "8 word list"

subsection \<open>Checksum and byte order of the standard library\<close>

text \<open>\<open>crc32.ChecksumIEEE\<close>, bit by bit: the reflected polynomial 0xedb88320.\<close>

definition crc_bit :: "32 word \<Rightarrow> 32 word" where
  "crc_bit c = (if bit c 0 then drop_bit 1 c XOR 0xedb88320 else drop_bit 1 c)"

definition crc_byte :: "32 word \<Rightarrow> 8 word \<Rightarrow> 32 word" where
  "crc_byte c b = (crc_bit ^^ 8) (c XOR ucast b)"

definition ChecksumIEEE :: "bytes \<Rightarrow> 32 word" where
  "ChecksumIEEE bs = NOT (fold (\<lambda>b c. crc_byte c b) bs (NOT 0))"

definition PutUint32 :: "32 word \<Rightarrow> bytes" where
  "PutUint32 w = [ucast (drop_bit 24 w), ucast (drop_bit 16 w), ucast (drop_bit 8 w), ucast w]"

fun Uint32 :: "bytes \<Rightarrow> 32 word" where
  "Uint32 (a # b # c # d # bs) =
     push_bit 24 (ucast a) OR push_bit 16 (ucast b) OR push_bit 8 (ucast c) OR ucast d"
| "Uint32 bs = 0"

lemma length_PutUint32 [simp]: "length (PutUint32 w) = 4"
  by (simp add: PutUint32_def)

lemma Uint32_Put: "Uint32 (PutUint32 w @ bs) = w"
proof (rule bit_word_eqI)
  fix n assume "n < LENGTH(32)"
  then have n: "n < 32" by simp
  then consider "n < 8" | "8 \<le> n" "n < 16" | "16 \<le> n" "n < 24" | "24 \<le> n" "n < 32" by linarith
  then show "bit (Uint32 (PutUint32 w @ bs)) n = bit w n"
    by cases (auto simp: PutUint32_def bit_or_iff bit_push_bit_iff bit_ucast_iff bit_drop_bit_eq)
qed

subsection \<open>Writing\<close>

definition maxRecordLen :: nat where "maxRecordLen = 64 * 2 ^ 20"

datatype wal_error = ErrRecordTooLarge | ErrChecksum | WriteFailed | SyncFailed

definition frame_of :: "bytes \<Rightarrow> bytes" where
  "frame_of r = PutUint32 (of_nat (length r)) @ r @ PutUint32 (ChecksumIEEE r)"

record write_io =
  written :: nat
  syncOK :: bool

definition Append :: "write_io \<Rightarrow> bytes \<Rightarrow> bytes \<Rightarrow> wal_error option \<times> bytes" where
  "Append io file r =
     (if length r > maxRecordLen then (Some ErrRecordTooLarge, file)
      else (let frame = frame_of r; file' = file @ take (written io) frame in
        if written io < length frame then (Some WriteFailed, file')
        else if \<not> syncOK io then (Some SyncFailed, file')
        else (None, file')))"

subsection \<open>Recovery\<close>

text \<open>The callback runs on a state \<open>'s\<close>; its error ends the recovery. The result is the
  error, the offset after the last valid record, and the state.\<close>

function recover_loop :: "('s \<Rightarrow> bytes \<Rightarrow> 'e + 's) \<Rightarrow> 's \<Rightarrow> nat \<Rightarrow> bytes \<Rightarrow> (wal_error + 'e) option \<times> nat \<times> 's" where
  "recover_loop fn s offset rest =
     (if length rest < 4 then (None, offset, s)
      else (let n = unat (Uint32 rest); rest1 = drop 4 rest in
        if n > maxRecordLen then (None, offset, s)
        else if length rest1 < n then (None, offset, s)
        else (let body = take n rest1; rest2 = drop n rest1 in
          if length rest2 < 4 then (None, offset, s)
          else if ChecksumIEEE body \<noteq> Uint32 rest2 then (Some (Inl ErrChecksum), offset, s)
          else (case fn s body of
              Inl e \<Rightarrow> (Some (Inr e), offset, s)
            | Inr s' \<Rightarrow> recover_loop fn s' (offset + (4 + n + 4)) (drop 4 rest2)))))"
  by pat_completeness auto
termination by (relation "measure (\<lambda>(fn, s, offset, rest). length rest)") auto

declare recover_loop.simps [simp del]

definition Recover :: "bytes option \<Rightarrow> ('s \<Rightarrow> bytes \<Rightarrow> 'e + 's) \<Rightarrow> 's \<Rightarrow> (wal_error + 'e) option \<times> nat \<times> 's" where
  "Recover file fn s = (case file of None \<Rightarrow> (None, 0, s) | Some bs \<Rightarrow> recover_loop fn s 0 bs)"

subsection \<open>Frames\<close>

lemma length_frame [simp]: "length (frame_of r) = length r + 8"
  by (simp add: frame_of_def)

lemma unat_len: "length r \<le> maxRecordLen \<Longrightarrow> unat (of_nat (length r) :: 32 word) = length r"
  by (simp add: maxRecordLen_def unat_of_nat take_bit_nat_eq_self_iff)

lemma recover_frame:
  assumes "length r \<le> maxRecordLen"
  shows "recover_loop fn s off (frame_of r @ rest) =
    (case fn s r of Inl e \<Rightarrow> (Some (Inr e), off, s)
     | Inr s' \<Rightarrow> recover_loop fn s' (off + length (frame_of r)) rest)"
proof -
  have u: "Uint32 (frame_of r @ rest) = of_nat (length r)"
    by (simp add: frame_of_def Uint32_Put)
  have d: "drop 4 (frame_of r @ rest) = r @ PutUint32 (ChecksumIEEE r) @ rest"
    by (simp add: frame_of_def)
  have off: "off + (4 + length r + 4) = off + length (frame_of r)" by simp
  show ?thesis
    using assms unfolding recover_loop.simps[of fn s off "frame_of r @ rest"] Let_def u d unat_len[OF assms] off
    by (simp add: Uint32_Put split: sum.split)
qed

lemma recover_torn:
  assumes "length r \<le> maxRecordLen" and "k < length (frame_of r)"
  shows "recover_loop fn s off (take k (frame_of r)) = (None, off, s)"
proof (cases "k < 4")
  case True
  then show ?thesis using assms(2) by (subst recover_loop.simps) simp
next
  case False
  have t: "take k (frame_of r) = PutUint32 (of_nat (length r)) @ take (k - 4) (r @ PutUint32 (ChecksumIEEE r))"
    using False by (simp add: frame_of_def)
  have u: "Uint32 (take k (frame_of r)) = of_nat (length r)" unfolding t by (rule Uint32_Put)
  have d: "drop 4 (take k (frame_of r)) = take (k - 4) (r @ PutUint32 (ChecksumIEEE r))" unfolding t by simp
  have l: "length (drop (length r) (take (k - 4) (r @ PutUint32 (ChecksumIEEE r)))) < 4"
    using assms(2) by simp
  show ?thesis
    unfolding recover_loop.simps[of fn s off "take k (frame_of r)"] Let_def u d unat_len[OF assms(1)]
    by (simp only: l if_True if_cancel)
qed

lemma recover_frames:
  assumes "\<forall>r\<in>set rs. length r \<le> maxRecordLen"
  shows "recover_loop (\<lambda>acc r. Inr (acc @ [r]) :: 'e + bytes list) acc off (concat (map frame_of rs) @ rest) =
    recover_loop (\<lambda>acc r. Inr (acc @ [r])) (acc @ rs) (off + length (concat (map frame_of rs))) rest"
  using assms
  by (induction rs arbitrary: acc off) (simp_all add: recover_frame add.assoc del: length_frame)

subsection \<open>Properties\<close>

text \<open>Appends one after the other, as long as each returns without an error: the acknowledged
  records, and the file.\<close>

fun append_each :: "write_io list \<Rightarrow> bytes \<Rightarrow> bytes list \<Rightarrow> bytes option" where
  "append_each ios file [] = Some file"
| "append_each [] file (r # rs) = None"
| "append_each (io # ios) file (r # rs) = (case Append io file r of
     (None, file') \<Rightarrow> append_each ios file' rs | (Some e, file') \<Rightarrow> None)"

lemma append_each_frames:
  "append_each ios fl rs = Some fl' \<Longrightarrow>
   fl' = fl @ concat (map frame_of rs) \<and> (\<forall>r\<in>set rs. length r \<le> maxRecordLen)"
proof (induction rs arbitrary: ios fl)
  case (Cons r rs)
  then obtain io ios' where io: "ios = io # ios'" by (cases ios) auto
  then have a: "Append io fl r = (None, fl @ frame_of r)" "length r \<le> maxRecordLen"
    using Cons.prems by (auto simp: Append_def Let_def split: if_splits)
  then have "append_each ios' (fl @ frame_of r) rs = Some fl'" using Cons.prems io by simp
  then show ?case using Cons.IH a(2) by fastforce
qed simp

lemma recover_written:
  assumes "append_each ios [] rs = Some file" and "length r \<le> maxRecordLen" and "k < length (frame_of r)"
  shows "Recover (Some (file @ take k (frame_of r))) (\<lambda>acc r. Inr (acc @ [r]) :: 'e + bytes list) []
    = (None, length file, rs)"
proof -
  have f: "file = concat (map frame_of rs)" "\<forall>r\<in>set rs. length r \<le> maxRecordLen"
    using append_each_frames[OF assms(1)] by simp_all
  show ?thesis
    unfolding Recover_def option.case f(1) recover_frames[OF f(2)] recover_torn[OF assms(2,3)] by simp
qed

text \<open>C14: recovery after a crash. Records that were each acknowledged are all read back, in order
  and unchanged, when the process died at any byte of the following write, the checksum's and
  the length's included: recovery reports no error, and the offset it returns is where the
  torn record starts.\<close>

theorem recover_acknowledged:
  assumes "append_each ios [] rs = Some file" and "length r \<le> maxRecordLen"
    and "k < length (frame_of r)"
  shows "Recover (Some (file @ take k (frame_of r))) (\<lambda>acc r. Inr (acc @ [r]) :: 'e + bytes list) []
    = (None, length file, rs)"
  using recover_written[OF assms] .

theorem recover_acknowledged_witness:
  "Recover (Some (frame_of [1, 2] @ take 5 (frame_of [3]))) (\<lambda>acc r. Inr (acc @ [r]) :: nat + bytes list) []
    = (None, 10, [[1, 2]])"
proof -
  have "append_each [\<lparr>written = 10, syncOK = True\<rparr>] [] [[1, 2]] = Some (frame_of [1, 2])"
    by (simp add: Append_def maxRecordLen_def)
  moreover have "length ([3] :: bytes) \<le> maxRecordLen" by (simp add: maxRecordLen_def)
  moreover have "5 < length (frame_of [3])" by simp
  ultimately show ?thesis
    using recover_acknowledged[of "[\<lparr>written = 10, syncOK = True\<rparr>]" "[[1, 2]]" "frame_of [1, 2]" "[3]" 5] by simp
qed

lemma shifted_length:
  assumes "i < 24"
  shows "bit (Uint32 (ucast (drop_bit 16 w) # ucast (drop_bit 8 w) # ucast (w :: 32 word) # x # bs)) (i + 8) = bit w i"
proof -
  consider "i < 8" | "8 \<le> i" "i < 16" | "16 \<le> i" "i < 24" using assms by linarith
  then show ?thesis
    by cases (auto simp: bit_or_iff bit_push_bit_iff bit_ucast_iff bit_drop_bit_eq dest: bit_imp_le_length)
qed

lemma small_length:
  assumes "n < 2 ^ k" and "k \<le> 32"
  shows "drop_bit k (of_nat n :: 32 word) = 0"
proof -
  have "n < 2 ^ 32" using assms by (meson less_le_trans one_le_numeral power_increasing)
  then have "unat (drop_bit k (of_nat n :: 32 word)) = 0"
    using assms(1) unfolding unat_drop_bit_eq
    by (simp add: drop_bit_eq_div[where 'a = nat] unat_of_nat take_bit_nat_eq_self_iff)
  then show ?thesis by (simp add: unat_eq_zero)
qed

text \<open>A failed append spoils the ones after it. After any acknowledged records, let a write of
  a record below 256 bytes stop after three bytes (a full disk): Append reports the error, but
  the bytes stay in the file and the next record is appended behind them. If that append is
  acknowledged, its record is not recovered all the same: the parser is now reading in the
  middle of a frame and reports corruption.\<close>

theorem append_after_partial_write:
  assumes "append_each ios [] rs = Some file" and "length r1 < 256" and "0 < length r2" and "length r2 < 2 ^ 24"
  shows "fst (Append \<lparr>written = 3, syncOK = b\<rparr> file r1) = Some WriteFailed \<and>
    (\<exists>f2. Append \<lparr>written = length (frame_of r2), syncOK = True\<rparr>
        (snd (Append \<lparr>written = 3, syncOK = b\<rparr> file r1)) r2 = (None, f2) \<and>
      Recover (Some f2) (\<lambda>acc r. Inr (acc @ [r]) :: 'e + bytes list) [] = (Some (Inl ErrChecksum), length file, rs))"
proof -
  have f: "file = concat (map frame_of rs)" "\<forall>r\<in>set rs. length r \<le> maxRecordLen"
    using append_each_frames[OF assms(1)] by simp_all
  have ok: "length r1 \<le> maxRecordLen" "length r2 \<le> maxRecordLen"
    using assms(2,4) by (simp_all add: maxRecordLen_def)
  let ?w = "of_nat (length r2) :: 32 word"
  have z: "take 3 (frame_of r1) = [0, 0, 0]"
    using small_length[of "length r1" 24] small_length[of "length r1" 16] small_length[of "length r1" 8] assms(2)
    by (simp add: frame_of_def PutUint32_def)
  obtain x xs where x: "r2 @ PutUint32 (ChecksumIEEE r2) = x # xs" using assms(3) by (cases r2) auto
  have fr: "frame_of r2 = 0 # ucast (drop_bit 16 ?w) # ucast (drop_bit 8 ?w) # ucast ?w # x # xs"
    using small_length[of "length r2" 24] assms(4) x by (simp add: frame_of_def PutUint32_def)
  have "Uint32 (ucast (drop_bit 16 ?w) # ucast (drop_bit 8 ?w) # ucast ?w # x # xs) \<noteq> 0" (is "?u \<noteq> 0")
  proof
    assume "?u = 0"
    then have no: "\<not> bit ?w i" if "i < 24" for i using shifted_length[OF that, of ?w x xs] by simp
    have "drop_bit 24 ?w = 0" by (rule small_length) (use assms(4) in simp_all)
    then have "\<not> bit ?w i" if "24 \<le> i" for i
      using that fun_cong[OF bit_drop_bit_eq[of 24 ?w], of "i - 24"] by simp
    then have "\<not> bit ?w i" for i using no[of i] by (cases "i < 24") simp_all
    then have "?w = 0" by (intro bit_eqI) simp
    then show False using unat_len[OF ok(2)] assms(3) by simp
  qed
  have "recover_loop (\<lambda>acc r. Inr (acc @ [r]) :: 'e + bytes list) rs off ([0, 0, 0] @ frame_of r2)
      = (Some (Inl ErrChecksum), off, rs)" for off
  proof -
    let ?ys = "ucast (drop_bit 16 ?w) # ucast (drop_bit 8 ?w) # ucast ?w # x # xs"
    have e: "[0, 0, 0] @ frame_of r2 = 0 # 0 # 0 # 0 # ?ys" using fr by simp
    have u: "unat (Uint32 (0 # 0 # 0 # 0 # ?ys)) = 0" by simp
    have d: "drop 4 (0 # 0 # 0 # 0 # ?ys) = ?ys" "length ?ys \<ge> 4" "length (0 # 0 # 0 # 0 # ?ys) \<ge> 4" by simp_all
    show ?thesis
      using \<open>?u \<noteq> 0\<close> d(2,3) unfolding e recover_loop.simps[of _ rs off "0 # 0 # 0 # 0 # ?ys"] Let_def u d(1)
      by (simp add: ChecksumIEEE_def del: Uint32.simps(1))
  qed
  then have "Recover (Some (file @ [0, 0, 0] @ frame_of r2)) (\<lambda>acc r. Inr (acc @ [r]) :: 'e + bytes list) []
      = (Some (Inl ErrChecksum), length file, rs)"
    unfolding Recover_def option.case f(1) recover_frames[OF f(2)] by (simp del: append_Cons)
  then show ?thesis using ok z by (simp add: Append_def)
qed

theorem append_after_partial_write_witness:
  "Append \<lparr>written = 9, syncOK = True\<rparr> (snd (Append \<lparr>written = 3, syncOK = True\<rparr> [] [1])) [2]
      = (None, [0, 0, 0] @ frame_of [2]) \<and>
   Recover (Some ([0, 0, 0] @ frame_of [2])) (\<lambda>acc r. Inr (acc @ [r]) :: nat + bytes list) []
      = (Some (Inl ErrChecksum), 0, [])"
proof -
  have "take 3 (frame_of [1]) = [0, 0, 0]" by (simp add: frame_of_def PutUint32_def)
  then have a: "Append \<lparr>written = 9, syncOK = True\<rparr> (snd (Append \<lparr>written = 3, syncOK = True\<rparr> [] [1])) [2]
      = (None, [0, 0, 0] @ frame_of [2])"
    by (simp add: Append_def maxRecordLen_def)
  show ?thesis
    using append_after_partial_write[of "[]" "[]" "[]" "[1]" "[2]" True, where ?'e = nat] a by simp
qed

end
