(* ===== verification/Flush.thy ===== *)
theory Flush
  imports Prelude
begin

text \<open>
  Package internal/flush of collaboration-service: the loop that drains accepted operations into
  the database in batches. Producers, the loop's goroutine and the caller of Stop run
  concurrently, so the loop is a step relation: one rule for each thing one of them can do
  between two channel operations. \<open>Enqueue\<close> is two steps, as in the source: the check of
  the stop flag, and the select that sends. The channel holds at least one element.
\<close>

subsection \<open>Retrying one batch\<close>

text \<open>\<open>repo n\<close> is the result of the n-th attempt to append the batch. The result is the
  success, and the waits between attempts in milliseconds.\<close>

function flush_attempts :: "(nat \<Rightarrow> bool) \<Rightarrow> nat \<Rightarrow> nat \<Rightarrow> nat \<Rightarrow> bool \<times> nat list" where
  "flush_attempts repo maxAttempts attempt backoff =
     (if attempt > maxAttempts then (False, [])
      else if repo attempt then (True, [])
      else if attempt < maxAttempts
        then (let (ok, waits) = flush_attempts repo maxAttempts (attempt + 1) (2 * backoff) in (ok, backoff # waits))
        else flush_attempts repo maxAttempts (attempt + 1) backoff)"
  by pat_completeness auto
termination by (relation "measure (\<lambda>(repo, m, a, b). Suc m - a)") auto

declare flush_attempts.simps [simp del]

definition flushWithRetry :: "(nat \<Rightarrow> bool) \<Rightarrow> nat \<Rightarrow> bool \<times> nat list" where
  "flushWithRetry repo maxAttempts = flush_attempts repo maxAttempts 1 10"

lemma flush_attempts_spec:
  "fst (flush_attempts repo m a b) \<longleftrightarrow> (\<exists>k. a \<le> k \<and> k \<le> m \<and> repo k)"
proof (induction repo m a b rule: flush_attempts.induct)
  case (1 repo m a b)
  have "(\<exists>k\<ge>a. k \<le> m \<and> repo k) \<longleftrightarrow> a \<le> m \<and> (repo a \<or> (\<exists>k\<ge>a + 1. k \<le> m \<and> repo k))"
    by (metis Suc_eq_plus1 le_trans not_less_eq_eq le_antisym le_refl nat_le_linear)
  then show ?case
    using 1 by (subst flush_attempts.simps) (auto simp: case_prod_beta Let_def)
qed

lemma flush_attempts_waits:
  "length (snd (flush_attempts repo m a b)) \<le> m - a \<and>
   (\<forall>i<length (snd (flush_attempts repo m a b)). snd (flush_attempts repo m a b) ! i = b * 2 ^ i)"
proof (induction repo m a b rule: flush_attempts.induct)
  case (1 repo m a b)
  show ?case
  proof (cases "a < m \<and> \<not> repo a")
    case True
    then have "snd (flush_attempts repo m a b) = b # snd (flush_attempts repo m (a + 1) (2 * b))"
      by (subst flush_attempts.simps) (simp add: case_prod_beta Let_def)
    moreover have "length (snd (flush_attempts repo m (a + 1) (2 * b))) \<le> m - (a + 1) \<and>
      (\<forall>i<length (snd (flush_attempts repo m (a + 1) (2 * b))).
        snd (flush_attempts repo m (a + 1) (2 * b)) ! i = 2 * b * 2 ^ i)"
      using 1(1) True by simp
    ultimately show ?thesis
      using True by (auto simp: nth_Cons less_Suc_eq_0_disj split: nat.split)
  next
    case False
    have e: "flush_attempts repo m (Suc m) b = (False, [])" by (subst flush_attempts.simps) simp
    have "snd (flush_attempts repo m a b) = []"
      using False e by (subst flush_attempts.simps) (auto simp: not_less le_Suc_eq dest!: le_antisym)
    then show ?thesis by simp
  qed
qed

subsection \<open>The loop\<close>

record config =
  queueSize :: nat
  batchSize :: nat
  maxAttempts :: nat

definition default_config :: config where
  "default_config = \<lparr>queueSize = 256, batchSize = 20, maxAttempts = 5\<rparr>"

text \<open>\<open>waiting\<close> holds the producers that passed the first select of Enqueue; \<open>outcomes\<close>
  the batches that left the loop, with whether the database took them; \<open>accepted\<close> the
  operations for which Enqueue returned no error, in that order.\<close>

record 'op Loop =
  pending :: "'op list"
  batch :: "'op list"
  waiting :: "'op list"
  stopped :: bool
  cancelled :: bool
  exited :: bool
  outcomes :: "(bool \<times> 'op list) list"
  accepted :: "'op list"

definition New_loop :: "'op Loop" where
  "New_loop = \<lparr>pending = [], batch = [], waiting = [], stopped = False, cancelled = False, exited = False,
     outcomes = [], accepted = []\<rparr>"

definition flushBatch :: "config \<Rightarrow> (nat \<Rightarrow> bool) \<Rightarrow> 'op Loop \<Rightarrow> 'op Loop" where
  "flushBatch c repo l = (if batch l = [] then l
     else l\<lparr>outcomes := outcomes l @ [(fst (flushWithRetry repo (maxAttempts c)), batch l)], batch := []\<rparr>)"

inductive flush_step :: "config \<Rightarrow> 'op Loop \<Rightarrow> 'op Loop \<Rightarrow> bool" for c where
  check: "\<not> stopped l \<Longrightarrow> flush_step c l (l\<lparr>waiting := waiting l @ [op]\<rparr>)"
| send: "waiting l = us @ op # vs \<Longrightarrow> length (pending l) < queueSize c \<Longrightarrow>
    flush_step c l (l\<lparr>waiting := us @ vs, pending := pending l @ [op], accepted := accepted l @ [op]\<rparr>)"
| reject: "waiting l = us @ op # vs \<Longrightarrow> stopped l \<or> ctxDone \<Longrightarrow> flush_step c l (l\<lparr>waiting := us @ vs\<rparr>)"
| receive: "\<not> exited l \<Longrightarrow> pending l = op # ps \<Longrightarrow> length (batch l) + 1 < batchSize c \<Longrightarrow>
    flush_step c l (l\<lparr>pending := ps, batch := batch l @ [op]\<rparr>)"
| receive_full: "\<not> exited l \<Longrightarrow> pending l = op # ps \<Longrightarrow> length (batch l) + 1 \<ge> batchSize c \<Longrightarrow>
    flush_step c l (flushBatch c repo (l\<lparr>pending := ps, batch := batch l @ [op]\<rparr>))"
| tick: "\<not> exited l \<Longrightarrow> flush_step c l (flushBatch c repo l)"
| cancel: "flush_step c l (l\<lparr>cancelled := True\<rparr>)"
| stop: "flush_step c l (l\<lparr>stopped := True, cancelled := True\<rparr>)"
| exit: "\<not> exited l \<Longrightarrow> cancelled l \<Longrightarrow>
    flush_step c l ((flushBatch c repo (l\<lparr>batch := batch l @ pending l, pending := []\<rparr>))\<lparr>exited := True\<rparr>)"

inductive flush_reach :: "config \<Rightarrow> 'op Loop \<Rightarrow> bool" for c where
  init: "flush_reach c New_loop"
| step: "flush_reach c l \<Longrightarrow> flush_step c l l' \<Longrightarrow> flush_reach c l'"

definition handled :: "'op Loop \<Rightarrow> 'op list" where
  "handled l = concat (map snd (outcomes l))"

definition loop_ok :: "config \<Rightarrow> 'op Loop \<Rightarrow> bool" where
  "loop_ok c l \<longleftrightarrow> accepted l = handled l @ batch l @ pending l \<and> length (pending l) \<le> queueSize c \<and>
     (batch l = [] \<or> length (batch l) < batchSize c) \<and> (exited l \<longrightarrow> batch l = []) \<and> (\<forall>(ok, b)\<in>set (outcomes l). b \<noteq> [])"

lemma flushBatch_fields [simp]:
  "batch (flushBatch c repo l) = []" "pending (flushBatch c repo l) = pending l"
  "accepted (flushBatch c repo l) = accepted l" "exited (flushBatch c repo l) = exited l"
  "waiting (flushBatch c repo l) = waiting l" "stopped (flushBatch c repo l) = stopped l"
  "cancelled (flushBatch c repo l) = cancelled l" "handled (flushBatch c repo l) = handled l @ batch l"
  by (simp_all add: flushBatch_def handled_def)

lemma flushBatch_outcomes:
  "\<forall>(ok, b)\<in>set (outcomes l). b \<noteq> [] \<Longrightarrow> \<forall>(ok, b)\<in>set (outcomes (flushBatch c repo l)). b \<noteq> []"
  by (auto simp: flushBatch_def)

lemma handled_cong: "outcomes l = outcomes l' \<Longrightarrow> handled l = handled l'"
  by (simp add: handled_def)

lemma step_ok: "flush_step c l l' \<Longrightarrow> loop_ok c l \<Longrightarrow> loop_ok c l'"
proof (induction rule: flush_step.induct)
  case (receive_full l op ps repo)
  let ?l = "l\<lparr>pending := ps, batch := batch l @ [op]\<rparr>"
  have "handled ?l = handled l" by (rule handled_cong) simp
  then show ?case
    using receive_full flushBatch_outcomes[of ?l c repo] by (simp add: loop_ok_def)
next
  case (tick l repo)
  then show ?case using flushBatch_outcomes[of l c repo] by (simp add: loop_ok_def)
next
  case (exit l repo)
  let ?l = "l\<lparr>batch := batch l @ pending l, pending := []\<rparr>"
  have "handled ?l = handled l" "handled ((flushBatch c repo ?l)\<lparr>exited := True\<rparr>) = handled (flushBatch c repo ?l)"
    by (rule handled_cong, simp)+
  then show ?case
    using exit flushBatch_outcomes[of ?l c repo] by (simp add: loop_ok_def)
qed (auto simp: loop_ok_def handled_def)

lemma reach_ok: "flush_reach c l \<Longrightarrow> loop_ok c l"
proof (induction rule: flush_reach.induct)
  case init
  then show ?case by (simp add: loop_ok_def New_loop_def handled_def)
qed (rule step_ok)

lemma exited_keeps:
  assumes "flush_step c l l'" and "exited l"
  shows "outcomes l' = outcomes l \<and> exited l'"
  using assms by (cases rule: flush_step.cases) auto

lemma exited_stays:
  "(flush_step c)\<^sup>*\<^sup>* l l' \<Longrightarrow> exited l \<Longrightarrow> outcomes l' = outcomes l \<and> exited l'"
  by (induction rule: rtranclp_induct) (auto dest: exited_keeps)

lemma accepted_grows: "flush_step c l l' \<Longrightarrow> \<exists>xs. accepted l' = accepted l @ xs"
  by (induction rule: flush_step.induct) auto

lemma accepted_stays:
  "(flush_step c)\<^sup>*\<^sup>* l l' \<Longrightarrow> \<exists>xs. accepted l' = accepted l @ xs"
proof (induction rule: rtranclp_induct)
  case (step y z)
  then show ?case using accepted_grows[of c y z] by auto
qed simp

lemma reach_enqueue:
  assumes "flush_reach c l" and "\<not> stopped l" and "waiting l = []" and "length (pending l) < queueSize c"
  shows "flush_reach c (l\<lparr>pending := pending l @ [op], accepted := accepted l @ [op]\<rparr>)"
proof -
  let ?m = "l\<lparr>waiting := [op]\<rparr>"
  have "flush_step c l ?m" using flush_step.check[of l c op] assms(2,3) by simp
  then have "flush_reach c ?m" using assms(1) flush_reach.step by blast
  moreover have "flush_step c ?m (?m\<lparr>waiting := [] @ [], pending := pending ?m @ [op], accepted := accepted ?m @ [op]\<rparr>)"
    by (rule flush_step.send) (use assms(4) in simp_all)
  ultimately have "flush_reach c (?m\<lparr>waiting := [] @ [], pending := pending ?m @ [op], accepted := accepted ?m @ [op]\<rparr>)"
    by (rule flush_reach.step)
  moreover have "?m\<lparr>waiting := [] @ [], pending := pending ?m @ [op], accepted := accepted ?m @ [op]\<rparr>
      = l\<lparr>pending := pending l @ [op], accepted := accepted l @ [op]\<rparr>"
    using assms(3) by simp
  ultimately show ?thesis by simp
qed

subsection \<open>Properties\<close>

text \<open>Nothing is lost, repeated or reordered on the way to the database. In every reachable
  state the accepted operations are, in order, those in the batches that left the loop, then
  the current batch, then the channel; the channel and the batch stay within their bounds.\<close>

theorem flush_keeps_order:
  assumes "flush_reach c l"
  shows "accepted l = handled l @ batch l @ pending l \<and> length (pending l) \<le> queueSize c \<and>
    (batch l = [] \<or> length (batch l) < batchSize c) \<and> (\<forall>(ok, b)\<in>set (outcomes l). b \<noteq> [])"
  using reach_ok[OF assms] by (simp add: loop_ok_def)

lemma sample_loop: "flush_reach default_config (New_loop\<lparr>pending := [7], accepted := [7 :: nat]\<rparr>)"
  using reach_enqueue[OF flush_reach.init, of default_config 7] by (simp add: New_loop_def default_config_def)

theorem flush_keeps_order_witness:
  "\<exists>l. flush_reach default_config l \<and> accepted l = [7 :: nat] \<and> handled l @ batch l @ pending l = [7]"
  using flush_keeps_order[OF sample_loop] sample_loop by (intro exI[of _ "New_loop\<lparr>pending := [7], accepted := [7]\<rparr>"]) simp

text \<open>Stopping drains. From every reachable state whose goroutine is running, Stop followed by
  the goroutine's exit leads to a state in which every operation accepted so far has left the
  loop; if the database takes one of the attempts, the last batch is stored.\<close>

theorem stop_drains:
  assumes "flush_reach c l" and "\<not> exited l" and "1 \<le> k" and "k \<le> maxAttempts c" and "repo k"
  shows "\<exists>l1 l2. flush_step c l l1 \<and> stopped l1 \<and> flush_step c l1 l2 \<and> exited l2 \<and>
    accepted l2 = accepted l \<and> handled l2 = accepted l2 \<and> pending l2 = [] \<and>
    (batch l @ pending l \<noteq> [] \<longrightarrow> last (outcomes l2) = (True, batch l @ pending l))"
proof -
  let ?l1 = "l\<lparr>stopped := True, cancelled := True\<rparr>"
  let ?m = "?l1\<lparr>batch := batch ?l1 @ pending ?l1, pending := []\<rparr>"
  let ?l2 = "(flushBatch c repo ?m)\<lparr>exited := True\<rparr>"
  have s: "flush_step c l ?l1" "flush_step c ?l1 ?l2"
    using flush_step.stop flush_step.exit[of ?l1 c repo] assms(2) by simp_all
  have ok: "fst (flushWithRetry repo (maxAttempts c))"
    using assms(3-5) flush_attempts_spec by (auto simp: flushWithRetry_def)
  have h: "handled ?l2 = handled l @ batch l @ pending l"
  proof -
    have "handled ?l2 = handled (flushBatch c repo ?m)" "handled ?m = handled l" by (rule handled_cong, simp)+
    then show ?thesis by simp
  qed
  have "batch l @ pending l \<noteq> [] \<longrightarrow> last (outcomes ?l2) = (True, batch l @ pending l)"
    using ok by (simp add: flushBatch_def)
  then show ?thesis
    using s h flush_keeps_order reach_ok[OF assms(1)]
    by (intro exI[of _ ?l1] exI[of _ ?l2]) (simp add: loop_ok_def)
qed

theorem stop_drains_witness:
  "\<exists>l1 l2. flush_step default_config (New_loop\<lparr>pending := [7], accepted := [7 :: nat]\<rparr>) l1 \<and>
    flush_step default_config l1 l2 \<and> exited l2 \<and> handled l2 = [7] \<and> outcomes l2 = [(True, [7])]"
proof -
  let ?l = "New_loop\<lparr>pending := [7], accepted := [7 :: nat]\<rparr>"
  have "\<not> exited ?l" "3 \<le> maxAttempts default_config" by (simp_all add: New_loop_def default_config_def)
  then obtain l1 l2 where l: "flush_step default_config ?l l1" "flush_step default_config l1 l2" "exited l2"
    "handled l2 = accepted l2" "accepted l2 = [7]" "last (outcomes l2) = (True, [7])"
    using stop_drains[OF sample_loop, of 3 "\<lambda>k. k = 3"] by (auto simp: New_loop_def)
  have "outcomes l2 = [(True, [7])]"
  proof -
    obtain xs where "outcomes l2 = xs @ [(True, [7])]"
      using l(4-6) by (cases "outcomes l2" rule: rev_cases) (auto simp: handled_def)
    moreover from this have "concat (map snd xs) = []" using l(4,5) by (simp add: handled_def)
    moreover have "\<forall>(ok, b)\<in>set xs. b \<noteq> []"
      using reach_ok[OF flush_reach.step[OF flush_reach.step[OF sample_loop l(1)] l(2)]] calculation(1)
      by (simp add: loop_ok_def)
    ultimately show ?thesis by (cases xs) auto
  qed
  then show ?thesis using l by auto
qed

text \<open>An operation can be accepted too late. Enqueue checks the stop flag and then selects; if
  the loop is stopped and drained in between, the select may still choose the channel, which
  has room. There is a reachable state in which Enqueue has returned without an error, the
  goroutine is gone, and in every state reachable from there the operation has not left the
  loop.\<close>

theorem late_enqueue_is_stuck:
  assumes "1 \<le> queueSize c"
  shows "\<exists>l. flush_reach c l \<and> exited l \<and> accepted l = [op] \<and>
    (\<forall>l'. (flush_step c)\<^sup>*\<^sup>* l l' \<longrightarrow> op \<in> set (accepted l') \<and> handled l' = [])"
proof -
  let ?w = "New_loop\<lparr>waiting := [op]\<rparr>"
  let ?s = "?w\<lparr>stopped := True, cancelled := True\<rparr>"
  let ?e = "?s\<lparr>exited := True\<rparr>"
  let ?l = "?e\<lparr>waiting := [], pending := [op], accepted := [op]\<rparr>"
  have "flush_step c New_loop ?w" using flush_step.check[of New_loop c op] by (simp add: New_loop_def)
  moreover have "flush_step c ?w ?s" by (rule flush_step.stop)
  moreover have "flush_step c ?s ?e" using flush_step.exit[of ?s c "\<lambda>_. True"] by (simp add: New_loop_def flushBatch_def)
  moreover have "flush_step c ?e ?l"
    using flush_step.send[of ?e "[]" op "[]" c] assms by (simp add: New_loop_def)
  ultimately have r: "flush_reach c ?l" by (meson flush_reach.intros)
  have "op \<in> set (accepted l') \<and> handled l' = []" if "(flush_step c)\<^sup>*\<^sup>* ?l l'" for l'
    using exited_stays[OF that] accepted_stays[OF that] by (auto simp: New_loop_def handled_def)
  then show ?thesis using r by (intro exI[of _ ?l]) (simp add: New_loop_def)
qed

theorem late_enqueue_is_stuck_witness:
  "\<exists>l. flush_reach default_config l \<and> exited l \<and> accepted l = [7 :: nat]"
  using late_enqueue_is_stuck[of default_config "7 :: nat"] by (auto simp: default_config_def)

text \<open>Giving up on a batch leaves a gap. If the database refuses every attempt of one batch and
  takes the next one, an operation is stored whose predecessor is not: the stored operations
  are no longer a prefix of the accepted ones, which is what replaying them assumes.\<close>

theorem abandoned_batch_leaves_gap:
  assumes "1 \<le> queueSize c" and "2 \<le> batchSize c" and "1 \<le> maxAttempts c"
  shows "\<exists>l. flush_reach c l \<and> accepted l = [op1, op2] \<and> outcomes l = [(False, [op1]), (True, [op2])]"
proof -
  have ok: "\<not> fst (flushWithRetry (\<lambda>_. False) (maxAttempts c))" "fst (flushWithRetry (\<lambda>_. True) (maxAttempts c))"
    using assms(3) by (auto simp: flushWithRetry_def flush_attempts_spec)
  have one: "flush_reach c (l\<lparr>accepted := accepted l @ [x], outcomes := outcomes l @ [(fst (flushWithRetry repo (maxAttempts c)), [x])]\<rparr>)"
    if l: "flush_reach c l" "\<not> stopped l" "\<not> exited l" "waiting l = []" "pending l = []" "batch l = []" for l x repo
  proof -
    let ?a = "l\<lparr>pending := pending l @ [x], accepted := accepted l @ [x]\<rparr>"
    let ?b = "?a\<lparr>pending := [], batch := batch ?a @ [x]\<rparr>"
    have "flush_reach c ?a" using reach_enqueue[OF l(1,2,4)] l(5) assms(1) by simp
    moreover have "flush_step c ?a ?b" using flush_step.receive[of ?a x "[]" c] l(3,5,6) assms(2) by simp
    moreover have "flush_step c ?b (flushBatch c repo ?b)" using flush_step.tick[of ?b c repo] l(3) by simp
    ultimately have "flush_reach c (flushBatch c repo ?b)" by (meson flush_reach.intros)
    moreover have "flushBatch c repo ?b
        = l\<lparr>accepted := accepted l @ [x], outcomes := outcomes l @ [(fst (flushWithRetry repo (maxAttempts c)), [x])]\<rparr>"
      using l(5,6) by (simp add: flushBatch_def)
    ultimately show ?thesis by simp
  qed
  have "flush_reach c (New_loop\<lparr>accepted := [op1], outcomes := [(False, [op1])]\<rparr>)"
    using one[OF flush_reach.init, of "\<lambda>_. False" op1] ok(1) by (simp add: New_loop_def)
  from one[OF this, of "\<lambda>_. True" op2]
  have "flush_reach c (New_loop\<lparr>accepted := [op1, op2], outcomes := [(False, [op1]), (True, [op2])]\<rparr>)"
    using ok(2) by (simp add: New_loop_def)
  then show ?thesis
    by (intro exI[of _ "New_loop\<lparr>accepted := [op1, op2], outcomes := [(False, [op1]), (True, [op2])]\<rparr>"]) simp
qed

theorem abandoned_batch_leaves_gap_witness:
  "\<exists>l. flush_reach default_config l \<and> accepted l = [1, 2 :: nat] \<and> outcomes l = [(False, [1]), (True, [2])]"
  using abandoned_batch_leaves_gap[of default_config "1 :: nat" 2] by (auto simp: default_config_def)

text \<open>C0: retrying is bounded. A batch is tried at most \<open>maxAttempts\<close> times and reported as
  stored exactly if one of these attempts succeeds; there are fewer waits than attempts, and
  the i-th lasts ten milliseconds times two to the i.\<close>

theorem retry_bounded:
  "(fst (flushWithRetry repo n) \<longleftrightarrow> (\<exists>k. 1 \<le> k \<and> k \<le> n \<and> repo k)) \<and>
   length (snd (flushWithRetry repo n)) \<le> n - 1 \<and>
   list_all2 (\<lambda>w i. w = 10 * 2 ^ i) (snd (flushWithRetry repo n)) [0..<length (snd (flushWithRetry repo n))]"
  using flush_attempts_spec[of repo n 1 10] flush_attempts_waits[of repo n 1 10]
  by (simp add: flushWithRetry_def list_all2_conv_all_nth)

end
