(* ===== verification/OpStore.thy ===== *)
theory OpStore
  imports Session
begin

text \<open>
  Packages internal/opstore and internal/outbox of collaboration-service with the shared module
  outboxpoll: the tables collab.ops and collab.outbox, the flush loop's writes into them and
  the poller that carries the outbox to the bus. Each call is one transaction. What the
  database does to a call is an argument: it is served, or it stops answering after some
  statements and the transaction is rolled back, or it commits and the answer is lost.

  A rolled back transaction gives no sequence numbers back; \<open>NOW()\<close> is the start of the
  transaction; rows with equal sort keys come in an order the query does not fix, so a
  permutation of the candidate rows is an argument of the claim.
\<close>

datatype db_call = Served | Refused nat | ReplyLost

fun answered :: "db_call \<Rightarrow> 'a option \<Rightarrow> 'a option" where
  "answered Served r = r"
| "answered (Refused k) r = None"
| "answered ReplyLost r = None"

subsection \<open>Tables\<close>

record op_row =
  op_ID :: uuid
  op_Page :: uuid
  op_Actor :: uuid
  op_ActorKind :: string
  op_UndoGroup :: "uuid option"
  op_Version :: int
  op_Kind :: string
  op_Payload :: page_op
  op_Clock :: VectorClock
  op_CreatedAt :: nat
  op_Seq :: nat

record outbox_row =
  ev_ID :: uuid
  ev_Aggregate :: uuid
  ev_Type :: string
  ev_Payload :: page_op
  ev_PublishedAt :: "nat option"
  ev_CreatedAt :: nat

record collab_db =
  op_rows :: "op_row list"
  events :: "outbox_row list"
  next_seq :: nat

definition empty_collab :: collab_db where
  "empty_collab = \<lparr>op_rows = [], events = [], next_seq = 1\<rparr>"

text \<open>What is left of a transaction that does not commit.\<close>

definition rollback :: "collab_db \<Rightarrow> collab_db \<Rightarrow> collab_db" where
  "rollback db db' = db\<lparr>next_seq := next_seq db'\<rparr>"

subsection \<open>Queries\<close>

definition op_row_of :: "nat \<Rightarrow> nat \<Rightarrow> LoggedOp \<Rightarrow> op_row" where
  "op_row_of now n l = \<lparr>op_ID = lID l, op_Page = lPageID l, op_Actor = lActorID l, op_ActorKind = lActorKind l,
     op_UndoGroup = lUndoGroup l, op_Version = sint (lVersion l), op_Kind = page_TypeName (lOp l),
     op_Payload = lOp l, op_Clock = lClock l, op_CreatedAt = now, op_Seq = n\<rparr>"

text \<open>The statement fails on the CHECK of the actor kind (\<open>None\<close>); on a known identity it does
  nothing, which the caller sees as \<open>pgx.ErrNoRows\<close> (\<open>Some False\<close>).\<close>

definition InsertOp :: "nat \<Rightarrow> LoggedOp \<Rightarrow> collab_db \<Rightarrow> bool option \<times> collab_db" where
  "InsertOp now l db =
     (let db1 = db\<lparr>next_seq := next_seq db + 1\<rparr> in
      if \<not> ActorKind_Valid (lActorKind l) then (None, db1)
      else if lID l \<in> set (map op_ID (op_rows db)) then (Some False, db1)
      else (Some True, db1\<lparr>op_rows := op_rows db @ [op_row_of now (next_seq db) l]\<rparr>))"

definition OutboxEventOpAppended :: string where
  "OutboxEventOpAppended = ''collab.ops_flushed''"

definition InsertOutboxEvent :: "nat \<Rightarrow> uuid \<Rightarrow> LoggedOp \<Rightarrow> collab_db \<Rightarrow> collab_db option" where
  "InsertOutboxEvent now i l db =
     (if i \<in> set (map ev_ID (events db)) then None
      else Some (db\<lparr>events := events db @ [\<lparr>ev_ID = i, ev_Aggregate = lPageID l, ev_Type = OutboxEventOpAppended,
        ev_Payload = lOp l, ev_PublishedAt = None, ev_CreatedAt = now\<rparr>]\<rparr>))"

definition ListOpsForPage :: "uuid \<Rightarrow> collab_db \<Rightarrow> op_row list" where
  "ListOpsForPage pid db = sort_key op_Seq (filter (\<lambda>r. op_Page r = pid) (op_rows db))"

definition ClaimUnpublishedOutboxEvents ::
  "(outbox_row list \<Rightarrow> outbox_row list) \<Rightarrow> uuid list \<Rightarrow> nat \<Rightarrow> collab_db \<Rightarrow> outbox_row list" where
  "ClaimUnpublishedOutboxEvents tie locked limit db =
     take limit (filter (\<lambda>e. ev_ID e \<notin> set locked)
       (sort_key ev_CreatedAt (tie (filter (\<lambda>e. ev_PublishedAt e = None) (events db)))))"

definition MarkOutboxEventsPublished :: "nat \<Rightarrow> uuid list \<Rightarrow> collab_db \<Rightarrow> collab_db" where
  "MarkOutboxEventsPublished now ids db =
     db\<lparr>events := map (\<lambda>e. if ev_ID e \<in> set ids then e\<lparr>ev_PublishedAt := Some now\<rparr> else e) (events db)\<rparr>"

subsection \<open>Appending operations\<close>

definition Append_op :: "nat \<Rightarrow> db_call \<Rightarrow> uuid option \<Rightarrow> LoggedOp \<Rightarrow> collab_db \<Rightarrow> bool option \<times> collab_db" where
  "Append_op now c outboxID l db =
     (case c of Refused k \<Rightarrow> (None, db\<lparr>next_seq := next_seq db + min k 1\<rparr>)
      | _ \<Rightarrow> (case InsertOp now l db of
          (None, db1) \<Rightarrow> (None, rollback db db1)
        | (Some False, db1) \<Rightarrow> (Some False, rollback db db1)
        | (Some True, db1) \<Rightarrow> (case outboxID of None \<Rightarrow> (None, rollback db db1)
            | Some i \<Rightarrow> (case InsertOutboxEvent now i l db1 of None \<Rightarrow> (None, rollback db db1)
                | Some db2 \<Rightarrow> (answered c (Some True), db2)))))"

text \<open>The batch of op rows: the indices of the rows that are new.\<close>

fun InsertOpBatch :: "nat \<Rightarrow> nat \<Rightarrow> LoggedOp list \<Rightarrow> collab_db \<Rightarrow> nat list option \<times> collab_db" where
  "InsertOpBatch now i [] db = (Some [], db)"
| "InsertOpBatch now i (l # ls) db = (case InsertOp now l db of
     (None, db1) \<Rightarrow> (None, db1)
   | (Some new, db1) \<Rightarrow> (case InsertOpBatch now (Suc i) ls db1 of
        (None, db2) \<Rightarrow> (None, db2)
      | (Some js, db2) \<Rightarrow> (Some (if new then i # js else js), db2)))"

fun InsertOutboxEventBatch :: "nat \<Rightarrow> (uuid \<times> LoggedOp) list \<Rightarrow> collab_db \<Rightarrow> collab_db option" where
  "InsertOutboxEventBatch now [] db = Some db"
| "InsertOutboxEventBatch now ((i, l) # ps) db = (case InsertOutboxEvent now i l db of
     None \<Rightarrow> None | Some db1 \<Rightarrow> InsertOutboxEventBatch now ps db1)"

text \<open>The identities of the events are drawn one by one before the second batch is sent; an
  identity that cannot be drawn ends the call.\<close>

fun outbox_params :: "(nat \<Rightarrow> uuid option) \<Rightarrow> nat \<Rightarrow> LoggedOp list \<Rightarrow> (uuid \<times> LoggedOp) list option" where
  "outbox_params drawID j [] = Some []"
| "outbox_params drawID j (l # ls) = (case drawID j of None \<Rightarrow> None
     | Some i \<Rightarrow> map_option ((#) (i, l)) (outbox_params drawID (Suc j) ls))"

definition AppendBatch ::
  "nat \<Rightarrow> db_call \<Rightarrow> (nat \<Rightarrow> uuid option) \<Rightarrow> LoggedOp list \<Rightarrow> collab_db \<Rightarrow> nat option \<times> collab_db" where
  "AppendBatch now c drawID ls db =
     (if ls = [] then (Some 0, db)
      else case c of Refused k \<Rightarrow> (None, db\<lparr>next_seq := next_seq db + min k (length ls)\<rparr>)
      | _ \<Rightarrow> (case InsertOpBatch now 0 ls db of
          (None, db1) \<Rightarrow> (None, rollback db db1)
        | (Some newlyInserted, db1) \<Rightarrow>
            (case outbox_params drawID 0 (map ((!) ls) newlyInserted) of None \<Rightarrow> (None, rollback db db1)
             | Some params \<Rightarrow> (case InsertOutboxEventBatch now params db1 of None \<Rightarrow> (None, rollback db db1)
                 | Some db2 \<Rightarrow> (answered c (Some (length newlyInserted)), db2)))))"

definition loggedOpFromRow :: "op_row \<Rightarrow> LoggedOp" where
  "loggedOpFromRow r = \<lparr>lID = op_ID r, lVersion = word_of_int (op_Version r), lPageID = op_Page r,
     lActorID = op_Actor r, lActorKind = op_ActorKind r, lUndoGroup = op_UndoGroup r, lClock = op_Clock r,
     lOp = op_Payload r, lCreatedAt = int (op_CreatedAt r)\<rparr>"

definition ListForPage :: "uuid \<Rightarrow> collab_db \<Rightarrow> LoggedOp list" where
  "ListForPage pid db = map loggedOpFromRow (ListOpsForPage pid db)"

subsection \<open>The poller\<close>

record wireEvent =
  we_ID :: uuid
  we_Aggregate :: uuid
  we_Payload :: page_op

definition buildEnvelope :: "outbox_row \<Rightarrow> wireEvent" where
  "buildEnvelope r = \<lparr>we_ID = ev_ID r, we_Aggregate = ev_Aggregate r, we_Payload = ev_Payload r\<rparr>"

definition defaultBatchSize :: nat where "defaultBatchSize = 20"

text \<open>The result: whether the poll returned without error, the messages given to the bus, and
  the database. \<open>publish\<close> tells which calls of \<open>Publish\<close> succeed.\<close>

definition pollOnce ::
  "(outbox_row list \<Rightarrow> outbox_row list) \<Rightarrow> uuid list \<Rightarrow> nat \<Rightarrow> nat \<Rightarrow> db_call \<Rightarrow> (nat \<Rightarrow> bool) \<Rightarrow> collab_db
     \<Rightarrow> bool \<times> wireEvent list \<times> collab_db" where
  "pollOnce tie locked limit now c publish db =
     (if c = Refused 0 then (False, [], db)
      else let rows = ClaimUnpublishedOutboxEvents tie locked limit db in
        if rows = [] then (True, [], db)
        else case find (\<lambda>j. \<not> publish j) [0..<length rows] of
            Some j \<Rightarrow> (False, map buildEnvelope (take j rows), db)
          | None \<Rightarrow> (case c of Refused k \<Rightarrow> (False, map buildEnvelope rows, db)
              | _ \<Rightarrow> (c = Served, map buildEnvelope rows,
                    MarkOutboxEventsPublished now (map ev_ID rows) db)))"

subsection \<open>Runs\<close>

datatype collab_action =
    Flush nat db_call "nat \<Rightarrow> uuid option" "LoggedOp list"
  | Poll "outbox_row list \<Rightarrow> outbox_row list" "uuid list" nat nat db_call "nat \<Rightarrow> bool"

fun collab_act :: "collab_action \<Rightarrow> collab_db \<times> wireEvent list \<Rightarrow> collab_db \<times> wireEvent list" where
  "collab_act (Flush now c drawID ls) (db, bus) = (snd (AppendBatch now c drawID ls db), bus)"
| "collab_act (Poll tie locked limit now c publish) (db, bus) =
     (let (ok, sent, db') = pollOnce tie locked limit now c publish db in (db', bus @ sent))"

subsection \<open>The log a store holds\<close>

text \<open>The time of an operation is not kept: the row has the time of its transaction.\<close>

definition undated :: "LoggedOp \<Rightarrow> LoggedOp" where
  "undated l = l\<lparr>lCreatedAt := 0\<rparr>"

definition stored_log :: "collab_db \<Rightarrow> LoggedOp list" where
  "stored_log db = map (undated \<circ> loggedOpFromRow) (op_rows db)"

text \<open>The log with one operation handed to it: nothing if its identity is there already.\<close>

definition log_op :: "LoggedOp \<Rightarrow> LoggedOp list \<Rightarrow> LoggedOp list" where
  "log_op l log = (if lID l \<in> lID ` set log then log else log @ [undated l])"

definition row_content :: "op_row \<Rightarrow> uuid \<times> page_op \<times> nat" where
  "row_content r = (op_Page r, op_Payload r, op_CreatedAt r)"

definition event_content :: "outbox_row \<Rightarrow> uuid \<times> page_op \<times> nat" where
  "event_content e = (ev_Aggregate e, ev_Payload e, ev_CreatedAt e)"

definition store_ok :: "collab_db \<Rightarrow> bool" where
  "store_ok db \<longleftrightarrow> distinct (map op_ID (op_rows db)) \<and> sorted_wrt (<) (map op_Seq (op_rows db)) \<and>
     (\<forall>r\<in>set (op_rows db). op_Seq r < next_seq db) \<and> distinct (map ev_ID (events db)) \<and>
     map event_content (events db) = map row_content (op_rows db)"

lemma undated_row [simp]: "undated (loggedOpFromRow (op_row_of now n l)) = undated l"
  by (simp add: undated_def loggedOpFromRow_def op_row_of_def)

lemma lID_undated [simp]: "lID (undated l) = lID l"
  by (simp add: undated_def)

lemma stored_ids: "lID ` set (stored_log db) = set (map op_ID (op_rows db))"
  by (force simp: stored_log_def undated_def loggedOpFromRow_def)

lemma InsertOp_events [simp]: "events (snd (InsertOp now l db)) = events db"
  by (simp add: InsertOp_def Let_def)

lemma InsertOp_log:
  "InsertOp now l db = (Some b, db') \<Longrightarrow> stored_log db' = log_op l (stored_log db)"
  using stored_ids[of db]
  by (auto simp: InsertOp_def Let_def log_op_def stored_log_def split: if_splits)

lemma InsertOp_rows:
  "InsertOp now l db = (Some b, db') \<Longrightarrow>
   op_rows db' = op_rows db @ (if b then [op_row_of now (next_seq db) l] else []) \<and> events db' = events db \<and>
   next_seq db' = next_seq db + 1 \<and> (b \<longleftrightarrow> lID l \<notin> set (map op_ID (op_rows db)))"
  by (auto simp: InsertOp_def Let_def split: if_splits)

definition rows_ok :: "collab_db \<Rightarrow> bool" where
  "rows_ok db \<longleftrightarrow> distinct (map op_ID (op_rows db)) \<and> sorted_wrt (<) (map op_Seq (op_rows db)) \<and>
     (\<forall>r\<in>set (op_rows db). op_Seq r < next_seq db)"

lemma InsertOp_rows_ok: "InsertOp now l db = (Some b, db') \<Longrightarrow> rows_ok db \<Longrightarrow> rows_ok db'"
  by (auto simp: InsertOp_def Let_def rows_ok_def sorted_wrt_append op_row_of_def less_Suc_eq split: if_splits)

lemma InsertOpBatch_Cons:
  assumes "InsertOpBatch now i (l # ls) db = (Some js, db')"
  obtains b db1 ks where "InsertOp now l db = (Some b, db1)" "InsertOpBatch now (Suc i) ls db1 = (Some ks, db')"
    "js = (if b then i # ks else ks)"
  using assms by (auto split: prod.splits option.splits)

lemma InsertOpBatch_log:
  "InsertOpBatch now i ls db = (Some js, db') \<Longrightarrow> stored_log db' = fold log_op ls (stored_log db)"
  by (induction ls arbitrary: i db js) (auto elim!: InsertOpBatch_Cons simp: InsertOp_log simp del: InsertOpBatch.simps(2))

lemma InsertOpBatch_keeps:
  "InsertOpBatch now i ls db = (Some js, db') \<Longrightarrow> rows_ok db \<Longrightarrow> rows_ok db' \<and> events db' = events db"
proof (induction ls arbitrary: i db js)
  case (Cons l ls)
  obtain b db1 ks where a: "InsertOp now l db = (Some b, db1)" "InsertOpBatch now (Suc i) ls db1 = (Some ks, db')"
    using Cons.prems(1) by (rule InsertOpBatch_Cons)
  then show ?case using Cons.IH[OF a(2) InsertOp_rows_ok[OF a(1) Cons.prems(2)]] InsertOp_rows[OF a(1)] by simp
qed simp

lemma InsertOpBatch_contents:
  "InsertOpBatch now i ls db = (Some js, db') \<Longrightarrow> list_all (\<lambda>j. i \<le> j) js \<and>
   map row_content (op_rows db') = map row_content (op_rows db) @
       map (\<lambda>j. (lPageID (ls ! (j - i)), lOp (ls ! (j - i)), now)) js"
proof (induction ls arbitrary: i db js)
  case (Cons l ls)
  obtain b db1 ks where a: "InsertOp now l db = (Some b, db1)" "InsertOpBatch now (Suc i) ls db1 = (Some ks, db')"
    "js = (if b then i # ks else ks)"
    using Cons.prems(1) by (rule InsertOpBatch_Cons)
  note IH = Cons.IH[OF a(2)]
  have sh: "(l # ls) ! (j - i) = ls ! (j - Suc i)" if "j \<in> set ks" for j
  proof -
    have "Suc i \<le> j" using that IH by (auto simp: list_all_iff)
    then have "j - i = Suc (j - Suc i)" by simp
    then show ?thesis by simp
  qed
  have "list_all (\<lambda>j. i \<le> j) js" using IH a(3) by (auto simp: list_all_iff)
  then show ?case
    using IH InsertOp_rows[OF a(1)] a(3) sh by (simp add: row_content_def op_row_of_def cong: map_cong)
qed simp

lemma outbox_params_snd: "outbox_params drawID j ls = Some ps \<Longrightarrow> map snd ps = ls"
  by (induction ls arbitrary: j ps) (auto split: option.splits)

lemma InsertOutboxEventBatch_ok:
  "InsertOutboxEventBatch now ps db = Some db' \<Longrightarrow>
   op_rows db' = op_rows db \<and> next_seq db' = next_seq db \<and>
   map event_content (events db') = map event_content (events db) @ map (\<lambda>(i, l). (lPageID l, lOp l, now)) ps \<and>
   (distinct (map ev_ID (events db)) \<longrightarrow> distinct (map ev_ID (events db')))"
proof (induction ps arbitrary: db)
  case (Cons p ps)
  obtain i l where p: "p = (i, l)" by (cases p)
  obtain db1 where d: "InsertOutboxEvent now i l db = Some db1" "InsertOutboxEventBatch now ps db1 = Some db'"
    using Cons.prems p by (auto split: option.splits)
  show ?case using Cons.IH[OF d(2)] d(1) p
    by (auto simp: InsertOutboxEvent_def event_content_def split: if_splits)
qed simp

lemma rollback_simps [simp]:
  "op_rows (rollback db db') = op_rows db" "events (rollback db db') = events db"
  "next_seq (rollback db db') = next_seq db'" "stored_log (rollback db db') = stored_log db"
  by (simp_all add: rollback_def stored_log_def)

lemma InsertOp_seq: "next_seq (snd (InsertOp now l db)) = next_seq db + 1"
  by (simp add: InsertOp_def Let_def)

lemma InsertOpBatch_seq: "next_seq db \<le> next_seq (snd (InsertOpBatch now i ls db))"
proof (induction ls arbitrary: i db)
  case (Cons l ls)
  obtain r db1 where r: "InsertOp now l db = (r, db1)" by (cases "InsertOp now l db")
  have "next_seq db1 = next_seq db + 1" using InsertOp_seq[of now l db] r by simp
  then show ?case using Cons.IH[of db1 "Suc i"] r by (auto split: option.splits prod.splits)
qed simp

text \<open>Whether a call puts its batch into the tables, and what it leaves.\<close>

lemma AppendBatch_cases:
  obtains (unchanged) "op_rows (snd (AppendBatch now c drawID ls db)) = op_rows db"
      "events (snd (AppendBatch now c drawID ls db)) = events db"
      "next_seq db \<le> next_seq (snd (AppendBatch now c drawID ls db))"
      "fst (AppendBatch now c drawID ls db) = None \<or> ls = []"
  | (landed) js db1 ps db2 where "InsertOpBatch now 0 ls db = (Some js, db1)"
      "outbox_params drawID 0 (map ((!) ls) js) = Some ps" "InsertOutboxEventBatch now ps db1 = Some db2"
      "AppendBatch now c drawID ls db = (answered c (Some (length js)), db2)"
proof (cases "ls = [] \<or> (\<exists>k. c = Refused k)")
  case True
  then show thesis using unchanged by (auto simp: AppendBatch_def)
next
  case False
  then have A: "AppendBatch now c drawID ls db = (case InsertOpBatch now 0 ls db of
          (None, db1) \<Rightarrow> (None, rollback db db1)
        | (Some newlyInserted, db1) \<Rightarrow>
            (case outbox_params drawID 0 (map ((!) ls) newlyInserted) of None \<Rightarrow> (None, rollback db db1)
             | Some params \<Rightarrow> (case InsertOutboxEventBatch now params db1 of None \<Rightarrow> (None, rollback db db1)
                 | Some db2 \<Rightarrow> (answered c (Some (length newlyInserted)), db2))))"
    by (cases c) (auto simp: AppendBatch_def)
  obtain r db1 where r: "InsertOpBatch now 0 ls db = (r, db1)" by (cases "InsertOpBatch now 0 ls db")
  have seq: "next_seq db \<le> next_seq db1" using InsertOpBatch_seq[of db now 0 ls] r by simp
  show thesis
  proof (cases r)
    case None
    then show thesis using unchanged A r seq by simp
  next
    case (Some js)
    show thesis
    proof (cases "outbox_params drawID 0 (map ((!) ls) js)")
      case None
      then show thesis using unchanged A r seq Some by simp
    next
      case ps: (Some ps)
      show thesis
      proof (cases "InsertOutboxEventBatch now ps db1")
        case None
        then show thesis using unchanged A r seq Some ps by simp
      next
        case (Some db2)
        then show thesis using landed[OF _ ps Some] A r \<open>r = Some js\<close> ps by simp
      qed
    qed
  qed
qed

lemma store_ok_split:
  "store_ok db \<longleftrightarrow> rows_ok db \<and> distinct (map ev_ID (events db)) \<and>
     map event_content (events db) = map row_content (op_rows db)"
  by (auto simp: store_ok_def rows_ok_def)

lemma AppendBatch_keeps: "store_ok db \<Longrightarrow> store_ok (snd (AppendBatch now c drawID ls db))"
proof (cases rule: AppendBatch_cases[of now c drawID ls db])
  case unchanged
  assume "store_ok db"
  with unchanged(1-3) show ?thesis
    unfolding store_ok_def by (auto intro: less_le_trans)
next
  case (landed js db1 ps db2)
  assume ok: "store_ok db"
  have k: "rows_ok db1" "events db1 = events db"
    using InsertOpBatch_keeps[OF landed(1)] ok by (auto simp: store_ok_split)
  have e: "map (\<lambda>(i, l). (lPageID l, lOp l, now)) ps = map (\<lambda>l. (lPageID l, lOp l, now)) (map snd ps)"
    by (simp add: case_prod_beta comp_def)
  show ?thesis
    using ok k InsertOutboxEventBatch_ok[OF landed(3)] InsertOpBatch_contents[OF landed(1)] e
    by (simp add: landed(4) store_ok_split rows_ok_def outbox_params_snd[OF landed(2)] comp_def)
qed

subsection \<open>One batch, any number of attempts\<close>

lemma log_op_again: "lID l \<in> lID ` set log \<Longrightarrow> log_op l log = log"
  by (simp add: log_op_def)

lemma log_ops_ids: "lID ` set (fold log_op ls log) = lID ` set ls \<union> lID ` set log"
  by (induction ls arbitrary: log) (auto simp: log_op_def)

lemma log_ops_known: "lID ` set ls \<subseteq> lID ` set log \<Longrightarrow> fold log_op ls log = log"
  by (induction ls) (simp_all add: log_op_again)

lemma log_ops_again [simp]: "fold log_op ls (fold log_op ls log) = fold log_op ls log"
  by (rule log_ops_known) (simp add: log_ops_ids)

lemma log_ops_fresh:
  "distinct (map lID (log @ ls)) \<Longrightarrow> fold log_op ls log = log @ map undated ls"
proof (induction ls arbitrary: log)
  case (Cons l ls)
  have "log_op l log = log @ [undated l]" using Cons.prems by (auto simp: log_op_def)
  moreover have "distinct (map lID ((log @ [undated l]) @ ls))" using Cons.prems by simp
  ultimately show ?case using Cons.IH[of "log @ [undated l]"] by simp
qed simp

lemma stored_log_cong: "op_rows db' = op_rows db \<Longrightarrow> stored_log db' = stored_log db"
  by (simp add: stored_log_def)

lemma AppendBatch_log:
  "stored_log (snd (AppendBatch now c drawID ls db)) \<in> {stored_log db, fold log_op ls (stored_log db)}"
  "fst (AppendBatch now c drawID ls db) \<noteq> None \<Longrightarrow>
     stored_log (snd (AppendBatch now c drawID ls db)) = fold log_op ls (stored_log db)"
proof -
  have "(stored_log (snd (AppendBatch now c drawID ls db)) = fold log_op ls (stored_log db)) \<or>
    (stored_log (snd (AppendBatch now c drawID ls db)) = stored_log db \<and> fst (AppendBatch now c drawID ls db) = None)"
  proof (cases rule: AppendBatch_cases[of now c drawID ls db])
    case unchanged
    then show ?thesis using stored_log_cong[OF unchanged(1)] by (auto simp: AppendBatch_def)
  next
    case (landed js db1 ps db2)
    have "stored_log db2 = stored_log db1"
      using InsertOutboxEventBatch_ok[OF landed(3)] by (intro stored_log_cong) simp
    then show ?thesis using InsertOpBatch_log[OF landed(1)] landed(4) by simp
  qed
  then show "stored_log (snd (AppendBatch now c drawID ls db)) \<in> {stored_log db, fold log_op ls (stored_log db)}"
    "fst (AppendBatch now c drawID ls db) \<noteq> None \<Longrightarrow>
      stored_log (snd (AppendBatch now c drawID ls db)) = fold log_op ls (stored_log db)" by auto
qed

text \<open>The attempts of the flush loop at one batch, up to the first that is answered.\<close>

fun attempts :: "LoggedOp list \<Rightarrow> (nat \<times> db_call \<times> (nat \<Rightarrow> uuid option)) list \<Rightarrow> collab_db \<Rightarrow> bool \<times> collab_db" where
  "attempts ls [] db = (False, db)"
| "attempts ls ((now, c, drawID) # as) db = (case AppendBatch now c drawID ls db of
     (Some n, db') \<Rightarrow> (True, db')
   | (None, db') \<Rightarrow> attempts ls as db')"

lemma attempts_store:
  assumes "store_ok db" and "stored_log db \<in> {log, fold log_op ls log}"
  shows "store_ok (snd (attempts ls as db)) \<and>
    stored_log (snd (attempts ls as db)) \<in>
      (if fst (attempts ls as db) then {fold log_op ls log} else {log, fold log_op ls log})"
  using assms
proof (induction ls as db rule: attempts.induct)
  case (2 ls now c drawID as db)
  obtain r db' where r: "AppendBatch now c drawID ls db = (r, db')" by (cases "AppendBatch now c drawID ls db")
  have ok: "store_ok db'" using AppendBatch_keeps[OF 2(2), of now c drawID ls] r by simp
  have log: "stored_log db' \<in> {log, fold log_op ls log}"
    using AppendBatch_log(1)[of now c drawID ls db] r 2(3) by auto
  show ?case
  proof (cases r)
    case None
    then show ?thesis using 2(1)[OF r[symmetric] None ok log] r by simp
  next
    case (Some n)
    then have "stored_log db' = fold log_op ls log"
      using AppendBatch_log(2)[of now c drawID ls db] r 2(3) by auto
    then show ?thesis using r Some ok by simp
  qed
qed simp

text \<open>The batches of the flush loop one after the other, each with its attempts.\<close>

fun store_batches :: "(LoggedOp list \<times> (nat \<times> db_call \<times> (nat \<Rightarrow> uuid option)) list) list \<Rightarrow> collab_db \<Rightarrow> bool list \<times> collab_db" where
  "store_batches [] db = ([], db)"
| "store_batches ((ls, as) # bs) db =
     (let (ok, db1) = attempts ls as db; (oks, db2) = store_batches bs db1 in (ok # oks, db2))"

lemma store_batches_log:
  assumes "store_ok db"
  shows "store_ok (snd (store_batches bs db)) \<and>
    (list_all id (fst (store_batches bs db)) \<longrightarrow>
       stored_log (snd (store_batches bs db)) = fold log_op (concat (map fst bs)) (stored_log db))"
  using assms
proof (induction bs db rule: store_batches.induct)
  case (2 ls as bs db)
  obtain ok db1 where a: "attempts ls as db = (ok, db1)" by (cases "attempts ls as db")
  obtain oks db2 where b: "store_batches bs db1 = (oks, db2)" by (cases "store_batches bs db1")
  have s: "store_ok db1 \<and> stored_log db1 \<in> (if ok then {fold log_op ls (stored_log db)} else {stored_log db, fold log_op ls (stored_log db)})"
    using attempts_store[OF 2(2), of "stored_log db" ls as] a by simp
  show ?case using 2(1)[OF a[symmetric]] s a b by (cases ok) (simp_all add: Let_def)
qed simp

subsection \<open>The poller\<close>

definition unpublished :: "collab_db \<Rightarrow> outbox_row list" where
  "unpublished db = filter (\<lambda>e. ev_PublishedAt e = None) (events db)"

definition permutes :: "(outbox_row list \<Rightarrow> outbox_row list) \<Rightarrow> bool" where
  "permutes tie \<longleftrightarrow> (\<forall>xs. mset (tie xs) = mset xs)"

lemma permutes_set: "permutes tie \<Longrightarrow> set (tie xs) = set xs"
  unfolding permutes_def using mset_eq_setD by blast

lemma claim_set:
  "permutes tie \<Longrightarrow> set (ClaimUnpublishedOutboxEvents tie locked limit db) \<subseteq> set (unpublished db)"
  using permutes_set[of tie]
  by (force simp: ClaimUnpublishedOutboxEvents_def unpublished_def dest!: in_set_takeD)

lemma Mark_simps [simp]:
  "op_rows (MarkOutboxEventsPublished now ids db) = op_rows db"
  "next_seq (MarkOutboxEventsPublished now ids db) = next_seq db"
  by (simp_all add: MarkOutboxEventsPublished_def)

lemma Mark_events:
  "map ev_ID (events (MarkOutboxEventsPublished now ids db)) = map ev_ID (events db)"
  "map event_content (events (MarkOutboxEventsPublished now ids db)) = map event_content (events db)"
  "map buildEnvelope (events (MarkOutboxEventsPublished now ids db)) = map buildEnvelope (events db)"
  "unpublished (MarkOutboxEventsPublished now ids db) = filter (\<lambda>e. ev_ID e \<notin> set ids) (unpublished db)"
proof -
  have f: "filter (\<lambda>e. ev_PublishedAt e = None) (map (\<lambda>e. if ev_ID e \<in> set ids then e\<lparr>ev_PublishedAt := Some now\<rparr> else e) xs) =
    filter (\<lambda>e. ev_ID e \<notin> set ids) (filter (\<lambda>e. ev_PublishedAt e = None) xs)" for xs
    by (induction xs) auto
  show "map ev_ID (events (MarkOutboxEventsPublished now ids db)) = map ev_ID (events db)"
    "map event_content (events (MarkOutboxEventsPublished now ids db)) = map event_content (events db)"
    "map buildEnvelope (events (MarkOutboxEventsPublished now ids db)) = map buildEnvelope (events db)"
    "unpublished (MarkOutboxEventsPublished now ids db) = filter (\<lambda>e. ev_ID e \<notin> set ids) (unpublished db)"
    using f by (simp_all add: MarkOutboxEventsPublished_def unpublished_def event_content_def buildEnvelope_def)
qed

text \<open>What one poll does: some of the claimed rows on the bus, and the database as it was or,
  when all of them are on the bus, with these rows marked.\<close>

lemma pollOnce_cases:
  obtains (kept) n ok where "pollOnce tie locked limit now c publish db =
      (ok, map buildEnvelope (take n (ClaimUnpublishedOutboxEvents tie locked limit db)), db)"
  | (marked) "pollOnce tie locked limit now c publish db =
      (c = Served, map buildEnvelope (ClaimUnpublishedOutboxEvents tie locked limit db),
       MarkOutboxEventsPublished now (map ev_ID (ClaimUnpublishedOutboxEvents tie locked limit db)) db)"
proof -
  let ?rows = "ClaimUnpublishedOutboxEvents tie locked limit db"
  show thesis
  proof (cases "c = Refused 0 \<or> ?rows = []")
    case True
    then have "pollOnce tie locked limit now c publish db = (c \<noteq> Refused 0, [], db)"
      by (auto simp: pollOnce_def Let_def)
    then show thesis using kept[of "c \<noteq> Refused 0" 0] by simp
  next
    case False
    then have p: "pollOnce tie locked limit now c publish db =
       (case find (\<lambda>j. \<not> publish j) [0..<length ?rows] of
            Some j \<Rightarrow> (False, map buildEnvelope (take j ?rows), db)
          | None \<Rightarrow> (case c of Refused k \<Rightarrow> (False, map buildEnvelope ?rows, db)
              | _ \<Rightarrow> (c = Served, map buildEnvelope ?rows, MarkOutboxEventsPublished now (map ev_ID ?rows) db)))"
      by (simp add: pollOnce_def Let_def)
    show thesis
    proof (cases "find (\<lambda>j. \<not> publish j) [0..<length ?rows]")
      case (Some j)
      then show thesis using kept[of False j] p by simp
    next
      case None
      then show thesis using kept[of False "length ?rows"] marked p by (cases c) simp_all
    qed
  qed
qed

definition bus_ok :: "collab_db \<Rightarrow> wireEvent list \<Rightarrow> bool" where
  "bus_ok db bus \<longleftrightarrow> set bus \<subseteq> buildEnvelope ` set (events db) \<and>
     buildEnvelope ` (set (events db) - set (unpublished db)) \<subseteq> set bus"

lemma append_events:
  "\<exists>es. events (snd (AppendBatch now c drawID ls db)) = events db @ es \<and> list_all (\<lambda>e. ev_PublishedAt e = None) es"
proof (cases rule: AppendBatch_cases[of now c drawID ls db])
  case unchanged
  then show ?thesis by simp
next
  case (landed js db1 ps db2)
  have "\<exists>es. events db2 = events db1 @ es \<and> list_all (\<lambda>e. ev_PublishedAt e = None) es"
    using landed(3)
  proof (induction ps arbitrary: db1)
    case (Cons p ps)
    obtain i l where p: "p = (i, l)" by (cases p)
    obtain d where d: "InsertOutboxEvent now i l db1 = Some d" "InsertOutboxEventBatch now ps d = Some db2"
      using Cons.prems p by (auto split: option.splits)
    obtain es where es: "events db2 = events d @ es" "list_all (\<lambda>e. ev_PublishedAt e = None) es"
      using Cons.IH[OF d(2)] by blast
    obtain e where "events d = events db1 @ [e]" "ev_PublishedAt e = None"
      using d(1) by (auto simp: InsertOutboxEvent_def split: if_splits)
    then show ?case using es by (intro exI[of _ "e # es"]) simp
  qed simp
  moreover have "events db1 = events db"
    using landed(1)
  proof -
    have "InsertOpBatch now i ls db = (Some js, db1) \<Longrightarrow> events db1 = events db" for i ls db js
    proof (induction ls arbitrary: i db js)
      case (Cons l ls)
      obtain b d ks where "InsertOp now l db = (Some b, d)" "InsertOpBatch now (Suc i) ls d = (Some ks, db1)"
        using Cons.prems by (rule InsertOpBatch_Cons)
      then show ?case using Cons.IH InsertOp_rows by metis
    qed simp
    then show ?thesis using landed(1) by blast
  qed
  ultimately show ?thesis by (simp add: landed(4))
qed

lemma flush_bus: "bus_ok db bus \<Longrightarrow> bus_ok (snd (AppendBatch now c drawID ls db)) bus"
  using append_events[of now c drawID ls db]
  by (auto simp: bus_ok_def unpublished_def list_all_iff image_subset_iff Ball_def)

lemma poll_keeps:
  assumes "store_ok db" and "bus_ok db bus" and "permutes tie"
    and p: "pollOnce tie locked limit now c publish db = (ok, sent, db')"
  shows "store_ok db' \<and> bus_ok db' (bus @ sent) \<and> stored_log db' = stored_log db"
proof -
  let ?rows = "ClaimUnpublishedOutboxEvents tie locked limit db"
  have rows: "set ?rows \<subseteq> set (events db)" "set ?rows \<subseteq> set (unpublished db)"
    using claim_set[OF assms(3), of locked limit db] by (auto simp: unpublished_def)
  show ?thesis
  proof (cases rule: pollOnce_cases[of tie locked limit now c publish db])
    case (kept n ok)
    then show ?thesis using assms(1,2) p rows(1) set_take_subset[of n ?rows] by (auto simp: bus_ok_def)
  next
    case marked
    let ?db = "MarkOutboxEventsPublished now (map ev_ID ?rows) db"
    have db': "db' = ?db" "sent = map buildEnvelope ?rows" using marked p by auto
    have env: "buildEnvelope ` set (events ?db) = buildEnvelope ` set (events db)"
      using arg_cong[OF Mark_events(3)[of now "map ev_ID ?rows" db], of set] by (simp only: set_map)
    have inj: "e = e'" if "e \<in> set (events db)" "e' \<in> set (events db)" "ev_ID e = ev_ID e'" for e e'
      using assms(1) that by (auto simp: store_ok_def distinct_map inj_on_def)
    have "buildEnvelope e \<in> set (bus @ sent)" if e: "e \<in> set (events ?db)" "e \<notin> set (unpublished ?db)" for e
    proof -
      obtain e0 where e0: "e0 \<in> set (events db)" "e = (if ev_ID e0 \<in> set (map ev_ID ?rows) then e0\<lparr>ev_PublishedAt := Some now\<rparr> else e0)"
        using e(1) by (auto simp: MarkOutboxEventsPublished_def)
      then have same: "buildEnvelope e = buildEnvelope e0" by (simp add: buildEnvelope_def)
      show ?thesis
      proof (cases "ev_ID e0 \<in> set (map ev_ID ?rows)")
        case True
        then have "e0 \<in> set ?rows" using inj e0(1) rows(1) by auto
        then show ?thesis using same db'(2) by simp
      next
        case False
        then have "e = e0" using e0(2) by simp
        then have "e0 \<notin> set (unpublished db)" using e(2) False by (simp add: Mark_events(4))
        then show ?thesis using assms(2) e0(1) same by (auto simp: bus_ok_def)
      qed
    qed
    moreover have "set (bus @ sent) \<subseteq> buildEnvelope ` set (events ?db)"
      using assms(2) rows(1) db'(2) by (auto simp: bus_ok_def env)
    moreover have "store_ok ?db" using assms(1) by (simp add: store_ok_def Mark_events)
    ultimately show ?thesis using db'(1) stored_log_cong[of ?db db] unfolding bus_ok_def by auto
  qed
qed

definition fair_action :: "collab_action \<Rightarrow> bool" where
  "fair_action a = (case a of Flush now c drawID ls \<Rightarrow> True | Poll tie locked limit now c publish \<Rightarrow> permutes tie)"

lemma action_keeps:
  assumes "fair_action a" and "store_ok db" and "bus_ok db bus" and "collab_act a (db, bus) = (db', bus')"
  shows "store_ok db' \<and> bus_ok db' bus'"
proof (cases a)
  case (Flush now c drawID ls)
  then show ?thesis
    using assms AppendBatch_keeps[OF assms(2), of now c drawID ls] flush_bus[OF assms(3), of now c drawID ls] by auto
next
  case (Poll tie locked limit now c publish)
  obtain ok sent d where p: "pollOnce tie locked limit now c publish db = (ok, sent, d)"
    by (cases "pollOnce tie locked limit now c publish db")
  have "permutes tie" using assms(1) Poll by (simp add: fair_action_def)
  then show ?thesis using poll_keeps[OF assms(2,3) _ p] assms(4) p Poll by simp
qed

lemma run_keeps:
  assumes "list_all fair_action as" and "store_ok db" and "bus_ok db bus"
    and "fold collab_act as (db, bus) = (db', bus')"
  shows "store_ok db' \<and> bus_ok db' bus'"
  using assms
proof (induction as arbitrary: db bus)
  case (Cons a as)
  obtain d b where d: "collab_act a (db, bus) = (d, b)" by (cases "collab_act a (db, bus)")
  have "store_ok d \<and> bus_ok d b" using action_keeps[of a db bus d b] Cons.prems(1-3) d by simp
  then show ?case using Cons.IH[of d b] Cons.prems(1,4) d by simp
qed simp

lemma empty_ok: "store_ok empty_collab" "bus_ok empty_collab []" "stored_log empty_collab = []"
  by (simp_all add: store_ok_def bus_ok_def empty_collab_def stored_log_def)

subsection \<open>Draining the outbox\<close>

text \<open>A poll nothing goes wrong in.\<close>

abbreviation good_poll :: "(outbox_row list \<Rightarrow> outbox_row list) \<Rightarrow> nat \<Rightarrow> nat \<Rightarrow> collab_action" where
  "good_poll tie limit now \<equiv> Poll tie [] limit now Served (\<lambda>j. True)"

lemma good_poll_act:
  "collab_act (good_poll tie limit now) (db, bus) =
     (MarkOutboxEventsPublished now (map ev_ID (ClaimUnpublishedOutboxEvents tie [] limit db)) db,
      bus @ map buildEnvelope (ClaimUnpublishedOutboxEvents tie [] limit db))"
proof (cases "ClaimUnpublishedOutboxEvents tie [] limit db = []")
  case True
  have "MarkOutboxEventsPublished now [] db = db" by (simp add: MarkOutboxEventsPublished_def)
  then show ?thesis using True by (simp add: pollOnce_def)
next
  case False
  have "find (\<lambda>j. \<not> True) xs = None" for xs :: "nat list" by (induction xs) auto
  then show ?thesis using False by (simp add: pollOnce_def Let_def)
qed

lemma claim_perm:
  assumes "permutes tie"
  obtains us where "mset us = mset (unpublished db)" "ClaimUnpublishedOutboxEvents tie [] limit db = take limit us"
  using that[of "sort_key ev_CreatedAt (tie (unpublished db))"] assms
  by (simp add: ClaimUnpublishedOutboxEvents_def unpublished_def permutes_def)

lemma good_poll_drains:
  assumes "store_ok db" and "permutes tie" and "collab_act (good_poll tie limit now) (db, bus) = (db', bus')"
  shows "length (unpublished db') = length (unpublished db) - limit"
proof -
  obtain us where us: "mset us = mset (unpublished db)" "ClaimUnpublishedOutboxEvents tie [] limit db = take limit us"
    using claim_perm[OF assms(2)] by blast
  have "distinct (map ev_ID (unpublished db))"
    using assms(1) unfolding store_ok_def unpublished_def by (intro distinct_map_filter) simp
  then have d: "distinct (map ev_ID us)"
    using us(1) by (metis mset_map mset_eq_imp_distinct_iff)
  let ?keep = "\<lambda>e. ev_ID e \<notin> ev_ID ` set (take limit us)"
  have db': "db' = MarkOutboxEventsPublished now (map ev_ID (take limit us)) db"
    using assms(3) unfolding good_poll_act us(2) by simp
  have "length (unpublished db') = size (filter_mset ?keep (mset (unpublished db)))"
    by (simp add: db' Mark_events(4) flip: mset_filter)
  also have "\<dots> = length (filter ?keep us)" by (simp add: us(1)[symmetric] flip: mset_filter)
  also have "filter ?keep us = filter ?keep (take limit us) @ filter ?keep (drop limit us)"
    by (metis append_take_drop_id filter_append)
  also have "\<dots> = drop limit us"
  proof -
    have "distinct (map ev_ID (take limit us) @ map ev_ID (drop limit us))"
      using d by (metis append_take_drop_id map_append)
    then show ?thesis by (auto simp: filter_empty_conv intro!: filter_True)
  qed
  finally show ?thesis using mset_eq_length[OF us(1)] by simp
qed

lemma good_polls_drain:
  assumes "store_ok db" and "bus_ok db bus" and "list_all permutes ties"
    and "fold collab_act (map (\<lambda>tie. good_poll tie limit now) ties) (db, bus) = (db', bus')"
  shows "length (unpublished db') = length (unpublished db) - length ties * limit \<and> stored_log db' = stored_log db \<and>
    store_ok db' \<and> bus_ok db' bus'"
  using assms
proof (induction ties arbitrary: db bus)
  case (Cons tie ties)
  obtain d b where d: "collab_act (good_poll tie limit now) (db, bus) = (d, b)"
    by (cases "collab_act (good_poll tie limit now) (db, bus)")
  obtain sent where p: "pollOnce tie [] limit now Served (\<lambda>j. True) db = (fst (pollOnce tie [] limit now Served (\<lambda>j. True) db), sent, d)"
    "b = bus @ sent"
    using d by (auto split: prod.splits)
  have k: "store_ok d \<and> bus_ok d b \<and> stored_log d = stored_log db"
    using poll_keeps[OF Cons.prems(1,2) _ p(1)] Cons.prems(3) p(2) by simp
  have "length (unpublished d) = length (unpublished db) - limit"
    using good_poll_drains[OF Cons.prems(1) _ d] Cons.prems(3) by simp
  then show ?case using Cons.IH[of d b] Cons.prems(3,4) k d by (simp add: algebra_simps)
qed simp

subsection \<open>Events of different times\<close>

lemma sort_key_sorted_id: "sorted_wrt (<) (map f xs) \<Longrightarrow> sort_key f xs = (xs :: 'a list)" for f :: "'a \<Rightarrow> nat"
  by (rule sort_key_id_if_sorted) (simp add: strict_sorted_iff)

lemma sort_perm_unique:
  fixes f :: "'a \<Rightarrow> nat"
  assumes "sorted_wrt (<) (map f xs)" and "mset ys = mset xs"
  shows "sort_key f ys = xs"
proof (rule sort_key_inj_key_eq[OF assms(2)])
  show "inj_on f (set ys)" using assms by (simp add: strict_sorted_iff distinct_map mset_eq_setD[OF assms(2)])
  show "sorted (map f xs)" using assms(1) by (simp add: strict_sorted_iff)
qed

text \<open>Such events are claimed in the order of the table.\<close>

lemma good_poll_in_order:
  assumes "permutes tie" and "sorted_wrt (<) (map ev_CreatedAt (unpublished db))" and "distinct (map ev_ID (unpublished db))"
    and "collab_act (good_poll tie limit now) (db, bus) = (db', bus')"
  shows "bus' = bus @ map buildEnvelope (take limit (unpublished db)) \<and> unpublished db' = drop limit (unpublished db) \<and>
    op_rows db' = op_rows db"
proof -
  have c: "ClaimUnpublishedOutboxEvents tie [] limit db = take limit (unpublished db)"
    using sort_perm_unique[OF assms(2), of "tie (unpublished db)"] assms(1)
    by (simp add: ClaimUnpublishedOutboxEvents_def unpublished_def permutes_def)
  have "filter (\<lambda>e. ev_ID e \<notin> ev_ID ` set (take limit us)) us = drop limit us" if "distinct (map ev_ID us)" for us
  proof -
    have "distinct (map ev_ID (take limit us) @ map ev_ID (drop limit us))"
      using that by (metis append_take_drop_id map_append)
    moreover have "filter (\<lambda>e. ev_ID e \<notin> ev_ID ` set (take limit us)) us =
        filter (\<lambda>e. ev_ID e \<notin> ev_ID ` set (take limit us)) (take limit us) @
        filter (\<lambda>e. ev_ID e \<notin> ev_ID ` set (take limit us)) (drop limit us)"
      by (metis append_take_drop_id filter_append)
    ultimately show ?thesis by (auto simp: filter_empty_conv intro!: filter_True)
  qed
  then show ?thesis using assms(3,4) unfolding good_poll_act c by (auto simp: Mark_events(4))
qed

lemma good_polls_in_order:
  assumes "list_all permutes ties" and "sorted_wrt (<) (map ev_CreatedAt (unpublished db))"
    and "distinct (map ev_ID (unpublished db))"
    and "fold collab_act (map (\<lambda>tie. good_poll tie limit now) ties) (db, bus) = (db', bus')"
  shows "bus' = bus @ map buildEnvelope (take (length ties * limit) (unpublished db)) \<and> op_rows db' = op_rows db"
  using assms
proof (induction ties arbitrary: db bus)
  case (Cons tie ties)
  obtain d b where d: "collab_act (good_poll tie limit now) (db, bus) = (d, b)"
    by (cases "collab_act (good_poll tie limit now) (db, bus)")
  have s: "b = bus @ map buildEnvelope (take limit (unpublished db))" "unpublished d = drop limit (unpublished db)"
    "op_rows d = op_rows db"
    using good_poll_in_order[OF _ Cons.prems(2,3) d] Cons.prems(1) by auto
  have "bus' = b @ map buildEnvelope (take (length ties * limit) (unpublished d)) \<and> op_rows db' = op_rows d"
  proof (rule Cons.IH)
    show "sorted_wrt (<) (map ev_CreatedAt (unpublished d))"
      using Cons.prems(2) unfolding s(2) by (metis append_take_drop_id map_append sorted_wrt_append)
    show "distinct (map ev_ID (unpublished d))"
      using Cons.prems(3) unfolding s(2) by (simp add: distinct_drop flip: drop_map)
  qed (use Cons.prems(1,4) d in simp_all)
  moreover have "take limit us @ take (length ties * limit) (drop limit us) = take (limit + length ties * limit) us" for us :: "outbox_row list"
    by (simp add: take_add)
  ultimately show ?case using s by (simp flip: map_append)
qed simp

subsection \<open>Reading a page's log\<close>

lemma ListForPage_log:
  assumes "store_ok db"
  shows "map undated (ListForPage pid db) = filter (\<lambda>l. lPageID l = pid) (stored_log db)"
proof -
  have "sorted_wrt (<) (map op_Seq (filter (\<lambda>r. op_Page r = pid) (op_rows db)))"
    using assms by (simp add: store_ok_def sorted_wrt_map sorted_wrt_filter)
  then have "ListOpsForPage pid db = filter (\<lambda>r. op_Page r = pid) (op_rows db)"
    unfolding ListOpsForPage_def by (rule sort_key_sorted_id)
  then show ?thesis
    by (simp add: ListForPage_def stored_log_def filter_map comp_def undated_def loggedOpFromRow_def)
qed

text \<open>A single append is a batch of one.\<close>

lemma Append_is_batch:
  "AppendBatch now c drawID [l] db =
     (case Append_op now c (drawID 0) l db of
        (None, db') \<Rightarrow> (None, db')
      | (Some True, db') \<Rightarrow> (Some 1, db')
      | (Some False, db') \<Rightarrow> (answered c (Some 0), db'))"
proof (cases c)
  case (Refused k)
  then show ?thesis by (simp add: AppendBatch_def Append_op_def)
next
  case Served
  then show ?thesis
    by (cases "drawID 0") (auto simp: AppendBatch_def Append_op_def InsertOp_def Let_def rollback_def
        split: option.splits bool.splits prod.splits)
next
  case ReplyLost
  then show ?thesis
    by (cases "drawID 0") (auto simp: AppendBatch_def Append_op_def InsertOp_def Let_def rollback_def
        split: option.splits bool.splits prod.splits)
qed

lemma stored_batches:
  assumes "store_ok db"
  shows "\<exists>ks. list_all2 (\<le>) (fst (store_batches bs db)) ks \<and>
    stored_log (snd (store_batches bs db)) = fold log_op (concat (map snd (filter fst (zip ks (map fst bs))))) (stored_log db)"
  using assms
proof (induction bs db rule: store_batches.induct)
  case (2 ls as bs db)
  obtain ok db1 where a: "attempts ls as db = (ok, db1)" by (cases "attempts ls as db")
  obtain oks db2 where b: "store_batches bs db1 = (oks, db2)" by (cases "store_batches bs db1")
  have s: "store_ok db1" and l: "stored_log db1 \<in> (if ok then {fold log_op ls (stored_log db)} else {stored_log db, fold log_op ls (stored_log db)})"
    using attempts_store[OF 2(2), of "stored_log db" ls as] a by simp_all
  obtain ks where ks: "list_all2 (\<le>) oks ks" "stored_log db2 = fold log_op (concat (map snd (filter fst (zip ks (map fst bs))))) (stored_log db1)"
    using 2(1)[OF a[symmetric] refl s] unfolding b fst_conv snd_conv by blast
  obtain k where k: "ok \<le> k" "stored_log db1 = (if k then fold log_op ls (stored_log db) else stored_log db)"
    using l that[of True] that[of False] by (cases ok) auto
  show ?case using ks k a b by (intro exI[of _ "k # ks"]) (cases k, auto simp: Let_def simp del: le_bool_def)
qed simp

subsection \<open>Properties\<close>

text \<open>C16: the flush loop hands its batches to the store one after the other and tries each of them
  until a try is answered, with the database refusing, losing its answer after a commit, or
  failing on the way. Whatever happens, an operation is in the store once, in the order of the
  batches: the stored log is that of the batches that got through, among them every batch that
  was answered. Beside every stored operation stands one outbox event, and replay reads a
  page's operations in the stored order.\<close>

theorem flushed_once:
  "(\<exists>ks. list_all2 (\<le>) (fst (store_batches bs empty_collab)) ks \<and>
     stored_log (snd (store_batches bs empty_collab)) = fold log_op (concat (map snd (filter fst (zip ks (map fst bs))))) []) \<and>
   distinct (map op_ID (op_rows (snd (store_batches bs empty_collab)))) \<and>
   map event_content (events (snd (store_batches bs empty_collab))) = map row_content (op_rows (snd (store_batches bs empty_collab))) \<and>
   map undated (ListForPage pid (snd (store_batches bs empty_collab))) =
     filter (\<lambda>l. lPageID l = pid) (stored_log (snd (store_batches bs empty_collab)))"
proof (intro conjI)
  have ok: "store_ok (snd (store_batches bs empty_collab))" using store_batches_log[OF empty_ok(1)] by blast
  show "\<exists>ks. list_all2 (\<le>) (fst (store_batches bs empty_collab)) ks \<and>
     stored_log (snd (store_batches bs empty_collab)) = fold log_op (concat (map snd (filter fst (zip ks (map fst bs))))) []"
    using stored_batches[OF empty_ok(1)] by (simp add: empty_ok(3))
  show "distinct (map op_ID (op_rows (snd (store_batches bs empty_collab))))"
    "map event_content (events (snd (store_batches bs empty_collab))) = map row_content (op_rows (snd (store_batches bs empty_collab)))"
    using ok by (simp_all add: store_ok_def)
  show "map undated (ListForPage pid (snd (store_batches bs empty_collab))) =
     filter (\<lambda>l. lPageID l = pid) (stored_log (snd (store_batches bs empty_collab)))"
    by (rule ListForPage_log[OF ok])
qed

text \<open>C22: after any run of flushes and polls - by any number of pollers, with failing publishes and
  lost answers - once as many polls go through as it takes for the waiting events, no event
  waits, and the bus has carried the stored operations, each at least once, and nothing else.\<close>

theorem outbox_drains:
  assumes "list_all fair_action as" and "fold collab_act as (empty_collab, []) = (db, bus)"
    and "list_all permutes ties" and "length (unpublished db) \<le> length ties * limit"
    and "fold collab_act (map (\<lambda>tie. good_poll tie limit now) ties) (db, bus) = (db', bus')"
  shows "unpublished db' = [] \<and>
    (\<lambda>m. (we_Aggregate m, we_Payload m)) ` set bus' = (\<lambda>l. (lPageID l, lOp l)) ` set (stored_log db)"
proof -
  have k: "store_ok db" "bus_ok db bus" using run_keeps[OF assms(1) empty_ok(1,2) assms(2)] by auto
  have d: "length (unpublished db') = 0" "stored_log db' = stored_log db" "store_ok db'" "bus_ok db' bus'"
    using good_polls_drain[OF k assms(3,5)] assms(4) by auto
  then have bus: "set bus' = buildEnvelope ` set (events db')" by (auto simp: bus_ok_def)
  have "(\<lambda>m. (we_Aggregate m, we_Payload m)) ` set bus' = (\<lambda>(p, o1, t). (p, o1)) ` set (map event_content (events db'))"
    by (auto simp: bus buildEnvelope_def event_content_def image_image)
  also have "\<dots> = (\<lambda>(p, o1, t). (p, o1)) ` set (map row_content (op_rows db'))"
    using d(3) by (simp only: store_ok_def)
  also have "\<dots> = (\<lambda>l. (lPageID l, lOp l)) ` set (stored_log db')"
    by (simp add: stored_log_def row_content_def image_image undated_def loggedOpFromRow_def)
  finally show ?thesis using d(1,2) by simp
qed

definition sample_op :: "uuid \<Rightarrow> page_op \<Rightarrow> LoggedOp" where
  "sample_op i op = \<lparr>lID = i, lVersion = 1, lPageID = 7, lActorID = 3, lActorKind = ''user'', lUndoGroup = None,
     lClock = Map.empty, lOp = op, lCreatedAt = 0\<rparr>"

definition sample_batch :: "LoggedOp list" where
  "sample_batch = [sample_op 1 (TextOp 4 NoOp), sample_op 2 (TextOp 5 NoOp)]"

text \<open>The answer to the first flush is lost, the flush is retried; the first poll loses its answer too.\<close>

definition sample_run :: "collab_action list" where
  "sample_run = [Flush 1 ReplyLost (\<lambda>j. Some (of_nat j + 10)) sample_batch,
     Flush 2 Served (\<lambda>j. Some (of_nat j + 20)) sample_batch,
     Poll rev [] 1 3 Served (\<lambda>j. False)]"

lemma permutes_rev: "permutes rev" and permutes_id: "permutes (\<lambda>x. x)"
  by (simp_all add: permutes_def)

theorem outbox_drains_witness:
  "unpublished (fst (fold collab_act (map (\<lambda>tie. good_poll tie 1 5) [rev, rev]) (fold collab_act sample_run (empty_collab, [])))) = []"
proof -
  obtain db bus where r: "fold collab_act sample_run (empty_collab, []) = (db, bus)" by fastforce
  obtain db' bus' where r': "fold collab_act (map (\<lambda>tie. good_poll tie 1 5) [rev, rev]) (db, bus) = (db', bus')" by fastforce
  have "length (unpublished (fst (fold collab_act sample_run (empty_collab, [])))) \<le> 2" by code_simp
  then have n: "length (unpublished db) \<le> length [rev, rev :: outbox_row list \<Rightarrow> outbox_row list] * 1" by (simp add: r)
  have "list_all fair_action sample_run" by (simp add: sample_run_def fair_action_def permutes_rev)
  from outbox_drains[OF this r _ n r'] have "unpublished db' = []" by (simp add: permutes_rev)
  then show ?thesis unfolding r r' fst_conv .
qed

end
