(* ===== verification/PagePaths.thy ===== *)
theory PagePaths
  imports Prelude "HOL-Library.Sublist"
begin

unbundle bit_operations_syntax

text \<open>
  The materialised ancestry of pages: labels and paths as internal/pages/repo.go of
  document-service builds them, and the ltree operations of PostgreSQL its queries use, over
  the dot-separated text.
\<close>

subsection \<open>Labels\<close>

definition hexDigit :: "nat \<Rightarrow> char" where
  "hexDigit d = ''0123456789abcdef'' ! d"

definition hexDigits :: "uuid \<Rightarrow> string" where
  "hexDigits u = map (\<lambda>i. hexDigit (unat (drop_bit (4 * (31 - i)) u AND 15))) [0..<32]"

text \<open>\<open>uuid.UUID.String\<close>: the digits in groups of 8, 4, 4, 4 and 12.\<close>

definition uuid_String :: "uuid \<Rightarrow> string" where
  "uuid_String u =
     (let h = hexDigits u
      in take 8 h @ ''-'' @ take 4 (drop 8 h) @ ''-'' @ take 4 (drop 12 h) @ ''-'' @ take 4 (drop 16 h) @ ''-'' @ drop 20 h)"

definition pathLabel :: "uuid \<Rightarrow> string" where
  "pathLabel i = ''p'' @ filter (\<lambda>c. c \<noteq> CHR ''-'') (uuid_String i)"

definition childPath :: "string \<Rightarrow> uuid \<Rightarrow> string" where
  "childPath parentPath i =
     (if parentPath = [] then pathLabel i else parentPath @ ''.'' @ pathLabel i)"

lemma hexDigit_set: "d < 16 \<Longrightarrow> hexDigit d \<in> set ''0123456789abcdef''"
  unfolding hexDigit_def by (rule nth_mem) simp

lemma hexDigit_inj: "c < 16 \<Longrightarrow> d < 16 \<Longrightarrow> hexDigit c = hexDigit d \<Longrightarrow> c = d"
proof -
  have "distinct ''0123456789abcdef''" by code_simp
  then show "c < 16 \<Longrightarrow> d < 16 \<Longrightarrow> hexDigit c = hexDigit d \<Longrightarrow> c = d"
    unfolding hexDigit_def by (subst (asm) nth_eq_iff_index_eq) simp_all
qed

lemma nibble_bound: "unat (x AND 15 :: uuid) < 16"
proof -
  have "x AND 15 \<le> (15 :: uuid)" by (rule word_and_le1)
  then have "unat (x AND 15) \<le> unat (15 :: uuid)" by (simp only: word_le_nat_alt)
  then show ?thesis by simp
qed

lemma hexDigits_set: "set (hexDigits u) \<subseteq> set ''0123456789abcdef''"
  using hexDigit_set[OF nibble_bound] by (auto simp only: hexDigits_def set_map image_subset_iff)

lemma pathLabel_eq: "pathLabel u = CHR ''p'' # hexDigits u"
proof -
  have h: "\<forall>c\<in>set (hexDigits u). c \<noteq> CHR ''-''" using hexDigits_set[of u] by auto
  have f: "filter (\<lambda>c. c \<noteq> CHR ''-'') xs = xs" if "set xs \<subseteq> set (hexDigits u)" for xs
    using h that by (intro filter_True) blast
  have "take 8 xs @ take 4 (drop 8 xs) @ take 4 (drop 12 xs) @ take 4 (drop 16 xs) @ drop 20 xs = xs" for xs :: string
  proof -
    have "take 4 (drop 16 xs) @ drop 20 xs = drop 16 xs" using append_take_drop_id[of 4 "drop 16 xs"] by simp
    moreover have "take 4 (drop 12 xs) @ drop 16 xs = drop 12 xs" using append_take_drop_id[of 4 "drop 12 xs"] by simp
    moreover have "take 4 (drop 8 xs) @ drop 12 xs = drop 8 xs" using append_take_drop_id[of 4 "drop 8 xs"] by simp
    ultimately show ?thesis by (metis append_take_drop_id)
  qed
  then show ?thesis
    unfolding pathLabel_def uuid_String_def Let_def
    by (simp add: f set_drop_subset set_take_subset subset_trans[OF set_take_subset set_drop_subset])
qed

lemma hexDigits_inj: "hexDigits u = hexDigits v \<Longrightarrow> u = v"
proof -
  assume eq: "hexDigits u = hexDigits v"
  have nib: "drop_bit (4 * j) u AND 15 = drop_bit (4 * j) v AND 15" if "j < 32" for j
  proof -
    have "hexDigits u ! (31 - j) = hexDigits v ! (31 - j)" using eq by simp
    then have "hexDigit (unat (drop_bit (4 * j) u AND 15)) = hexDigit (unat (drop_bit (4 * j) v AND 15))"
      using that nth_upt[of 0 "31 - j" 32] by (simp add: hexDigits_def)
    from hexDigit_inj[OF nibble_bound nibble_bound this] show ?thesis by (rule word_unat_eq_iff[THEN iffD2])
  qed
  show "u = v"
  proof (rule bit_word_eqI)
    fix n assume n: "n < LENGTH(128)"
    have mask: "bit (15 :: uuid) k \<longleftrightarrow> k < 4" for k
    proof -
      have m: "(15 :: uuid) = mask 4" by (simp add: mask_eq_exp_minus_1)
      show ?thesis unfolding m bit_mask_iff by auto
    qed
    have "bit x n \<longleftrightarrow> bit (drop_bit (4 * (n div 4)) x AND 15) (n mod 4)" for x :: uuid
    proof -
      have "bit (15 :: uuid) (n mod 4)" unfolding mask by simp
      then show ?thesis by (simp only: bit_and_iff bit_drop_bit_eq o_def) simp
    qed
    moreover have "n div 4 < 32" using n by simp
    ultimately show "bit u n \<longleftrightarrow> bit v n" using nib by simp
  qed
qed

lemma pathLabel_inj: "pathLabel u = pathLabel v \<longleftrightarrow> u = v"
  using hexDigits_inj by (auto simp: pathLabel_eq)

lemma map_pathLabel_eq: "map pathLabel a = map pathLabel b \<longleftrightarrow> a = b"
proof -
  have "inj pathLabel" by (rule injI) (simp add: pathLabel_inj)
  then show ?thesis by (rule inj_map_eq_map)
qed

lemma pathLabel_no_dot: "CHR ''.'' \<notin> set (pathLabel u)" and pathLabel_nonempty: "pathLabel u \<noteq> []"
  using hexDigits_set[of u] by (auto simp: pathLabel_eq)

subsection \<open>Paths as label lists\<close>

text \<open>The labels of an ltree; the empty text is the empty path.\<close>

fun split_dot :: "string \<Rightarrow> string list" where
  "split_dot [] = [[]]"
| "split_dot (c # cs) =
     (if c = CHR ''.'' then [] # split_dot cs
      else (case split_dot cs of [] \<Rightarrow> [[c]] | l # ls \<Rightarrow> (c # l) # ls))"

definition labels :: "string \<Rightarrow> string list" where
  "labels path = (if path = [] then [] else split_dot path)"

fun join_dot :: "string list \<Rightarrow> string" where
  "join_dot [] = []"
| "join_dot [l] = l"
| "join_dot (l # ls) = l @ ''.'' @ join_dot ls"

lemma split_dot_nonempty [simp]: "split_dot s \<noteq> []"
  by (cases s) (auto split: list.splits)

lemma split_dot_append: "split_dot (a @ CHR ''.'' # b) = split_dot a @ split_dot b"
proof (induction a)
  case (Cons c a)
  then show ?case by (cases "split_dot a") auto
qed simp

lemma split_dot_label: "CHR ''.'' \<notin> set l \<Longrightarrow> split_dot l = [l]"
  by (induction l) auto

lemma join_split: "join_dot (split_dot s) = s"
proof (induction s)
  case (Cons c s)
  obtain l ls where "split_dot s = l # ls" by (cases "split_dot s") auto
  then show ?case using Cons by (cases ls) auto
qed simp

lemma join_labels [simp]: "join_dot (labels path) = path"
  by (simp add: labels_def join_split)

lemma labels_inj: "labels a = labels b \<Longrightarrow> a = b"
  by (metis join_labels)

lemma labels_eq_Nil [simp]: "labels p = [] \<longleftrightarrow> p = []"
  by (simp add: labels_def)

lemma labels_pathLabel [simp]: "labels (pathLabel i) = [pathLabel i]"
  by (simp add: labels_def split_dot_label pathLabel_no_dot pathLabel_nonempty)

lemma labels_childPath [simp]: "labels (childPath p i) = labels p @ [pathLabel i]"
  by (auto simp: childPath_def labels_def split_dot_append split_dot_label pathLabel_no_dot pathLabel_nonempty)

lemma join_dot_append: "a \<noteq> [] \<Longrightarrow> b \<noteq> [] \<Longrightarrow> join_dot (a @ b) = join_dot a @ ''.'' @ join_dot b"
proof (induction a)
  case (Cons l a)
  then show ?case by (cases a; cases b) auto
qed simp

text \<open>The text test of Reparent, equal or \<open>strings.HasPrefix(p, q + ".")\<close>, is the ltree order.\<close>

lemma prefix_text_labels:
  assumes "q \<noteq> []"
  shows "p = q \<or> prefix (q @ ''.'') p \<longleftrightarrow> prefix (labels q) (labels p)"
proof
  assume "p = q \<or> prefix (q @ ''.'') p"
  then show "prefix (labels q) (labels p)"
    using assms by (auto simp: prefix_def labels_def split_dot_append)
next
  assume "prefix (labels q) (labels p)"
  then obtain r where r: "labels p = labels q @ r" by (auto simp: prefix_def)
  have p: "p = join_dot (labels q @ r)" using r by (metis join_labels)
  show "p = q \<or> prefix (q @ ''.'') p"
  proof (cases "r = []")
    case False
    then have "p = q @ ''.'' @ join_dot r" using p join_dot_append[of "labels q" r] assms by simp
    then show ?thesis by simp
  qed (use p in simp)
qed

subsection \<open>The ltree operations of the queries\<close>

definition ltree_descendant :: "string \<Rightarrow> string \<Rightarrow> bool" where
  "ltree_descendant p q = prefix (labels q) (labels p)"

definition nlevel :: "string \<Rightarrow> nat" where
  "nlevel p = length (labels p)"

definition subpath :: "string \<Rightarrow> nat \<Rightarrow> string" where
  "subpath p n = join_dot (drop n (labels p))"

definition ltree_append :: "string \<Rightarrow> string \<Rightarrow> string" where
  "ltree_append p q = join_dot (labels p @ labels q)"

text \<open>Paths whose labels are page labels.\<close>

definition page_path :: "uuid list \<Rightarrow> string" where
  "page_path ids = join_dot (map pathLabel ids)"

lemma split_join:
  "ls \<noteq> [] \<Longrightarrow> \<forall>l\<in>set ls. CHR ''.'' \<notin> set l \<Longrightarrow> split_dot (join_dot ls) = ls"
proof (induction ls rule: join_dot.induct)
  case (3 l m ls)
  then show ?case by (simp add: split_dot_append split_dot_label)
qed (simp_all add: split_dot_label)

lemma labels_page_path [simp]: "labels (page_path ids) = map pathLabel ids"
proof (cases "ids = []")
  case False
  then have "split_dot (page_path ids) = map pathLabel ids"
    unfolding page_path_def by (intro split_join) (auto simp: pathLabel_no_dot)
  moreover have "page_path ids \<noteq> []" using False
    by (cases ids; cases "tl ids") (auto simp: page_path_def pathLabel_nonempty)
  ultimately show ?thesis by (simp add: labels_def)
qed (simp add: page_path_def labels_def)

lemma page_path_inj [simp]: "page_path a = page_path b \<longleftrightarrow> a = b"
proof
  assume "page_path a = page_path b"
  then have "map pathLabel a = map pathLabel b" by (metis labels_page_path)
  then show "a = b" by (simp only: map_pathLabel_eq)
qed simp

lemma page_path_Nil [simp]: "page_path ids = [] \<longleftrightarrow> ids = []"
  by (metis labels_eq_Nil labels_page_path map_is_Nil_conv)

lemma childPath_page_path [simp]: "childPath (page_path ids) i = page_path (ids @ [i])"
  by (rule labels_inj) simp

lemma map_pathLabel_prefix: "prefix (map pathLabel a) (map pathLabel b) \<longleftrightarrow> prefix a b"
proof
  assume "prefix (map pathLabel a) (map pathLabel b)"
  then have "take (length a) (map pathLabel b) = map pathLabel a" by (auto simp: prefix_def)
  then have "take (length a) b = a" by (simp only: take_map map_pathLabel_eq)
  then show "prefix a b" by (metis take_is_prefix)
qed (rule map_mono_prefix)

lemma descendant_page_path [simp]: "ltree_descendant (page_path p) (page_path q) \<longleftrightarrow> prefix q p"
  by (simp add: ltree_descendant_def map_pathLabel_prefix)

lemma rewrite_page_path [simp]:
  "ltree_append (page_path n) (subpath (page_path (w @ r)) (nlevel (page_path w))) = page_path (n @ r)"
proof -
  have "subpath (page_path (w @ r)) (nlevel (page_path w)) = page_path r"
    by (simp add: subpath_def nlevel_def page_path_def[of r])
  then show ?thesis by (simp add: ltree_append_def page_path_def[of "n @ r"])
qed

end
