(* ===== verification/BlockProj.thy ===== *)
theory BlockProj
  imports OpStore PagePaths
begin

text \<open>
  Package internal/blockproj of document-service with the queries of internal/blockrepo it uses:
  the projector that applies the operations on the bus to its own copy of a page and rewrites
  the page's rows of docs.blocks and docs.page_links after each of them.

  The columns kind and content hold the values whose JSON they store. \<open>lower\<close> is the
  database's case folding; the tables of the service this package does not write (docs.pages)
  are the identities, titles and deletion marks it reads. The surrogate keys of link rows are
  left out.
\<close>

subsection \<open>Tables\<close>

record block_row =
  b_ID :: uuid
  b_Page :: uuid
  b_Parent :: "uuid option"
  b_Path :: string
  b_Position :: "32 word"
  b_Kind :: BlockKind
  b_Content :: Content

record link_row =
  k_FromPage :: uuid
  k_FromBlock :: uuid
  k_TargetTitle :: string
  k_TargetPage :: "uuid option"

record blocks_db =
  docs_pages :: "(uuid \<times> string \<times> bool) list"
  block_rows :: "block_row list"
  link_rows :: "link_row list"

definition ListBlocksForPage :: "uuid \<Rightarrow> blocks_db \<Rightarrow> block_row list" where
  "ListBlocksForPage pid db = sort_key (\<lambda>r. sint (b_Position r)) (filter (\<lambda>r. b_Page r = pid) (block_rows db))"

text \<open>Deleting rows takes the rows that refer to them along: blocks through parent_id, links
  through from_block.\<close>

fun cascade :: "nat \<Rightarrow> block_row list \<Rightarrow> block_row list" where
  "cascade 0 rows = rows"
| "cascade (Suc n) rows =
     cascade n (filter (\<lambda>r. case b_Parent r of None \<Rightarrow> True | Some p \<Rightarrow> p \<in> set (map b_ID rows)) rows)"

definition ReplaceBlocksForPage :: "uuid \<Rightarrow> blocks_db \<Rightarrow> blocks_db" where
  "ReplaceBlocksForPage pid db =
     (let rows = cascade (length (block_rows db)) (filter (\<lambda>r. b_Page r \<noteq> pid) (block_rows db)) in
      db\<lparr>block_rows := rows, link_rows := filter (\<lambda>k. k_FromBlock k \<in> set (map b_ID rows)) (link_rows db)\<rparr>)"

text \<open>An insertion fails on a taken key, on a page or a parent that does not exist, and on a text
  that is no ltree.\<close>

definition ltree_text :: "string \<Rightarrow> bool" where
  "ltree_text s \<longleftrightarrow> [] \<notin> set (labels s)"

definition InsertBlock_row :: "block_row \<Rightarrow> blocks_db \<Rightarrow> blocks_db option" where
  "InsertBlock_row r db =
     (if b_ID r \<in> set (map b_ID (block_rows db)) \<or> b_Page r \<notin> set (map fst (docs_pages db)) \<or>
         (case b_Parent r of None \<Rightarrow> False | Some p \<Rightarrow> p \<noteq> b_ID r \<and> p \<notin> set (map b_ID (block_rows db))) \<or>
         \<not> ltree_text (b_Path r)
      then None else Some (db\<lparr>block_rows := block_rows db @ [r]\<rparr>))"

definition ReplacePageLinksForPage :: "uuid \<Rightarrow> blocks_db \<Rightarrow> blocks_db" where
  "ReplacePageLinksForPage pid db = db\<lparr>link_rows := filter (\<lambda>k. k_FromPage k \<noteq> pid) (link_rows db)\<rparr>"

text \<open>The page a title names: the live page with that title, up to case, of the least identity.\<close>

definition page_titled :: "(string \<Rightarrow> string) \<Rightarrow> blocks_db \<Rightarrow> string \<Rightarrow> uuid option" where
  "page_titled lower db title =
     (case sort (map fst (filter (\<lambda>(i, t, deleted). lower t = lower title \<and> \<not> deleted) (docs_pages db))) of
        [] \<Rightarrow> None | i # _ \<Rightarrow> Some i)"

definition InsertPageLink :: "(string \<Rightarrow> string) \<Rightarrow> uuid \<Rightarrow> uuid \<times> string \<Rightarrow> blocks_db \<Rightarrow> blocks_db option" where
  "InsertPageLink lower pid p db = (case p of (bid, title) \<Rightarrow>
     if (bid, title) \<in> set (map (\<lambda>k. (k_FromBlock k, k_TargetTitle k)) (link_rows db)) \<or>
        pid \<notin> set (map fst (docs_pages db)) \<or> bid \<notin> set (map b_ID (block_rows db))
     then None
     else Some (db\<lparr>link_rows := link_rows db @ [\<lparr>k_FromPage = pid, k_FromBlock = bid, k_TargetTitle = title,
            k_TargetPage = page_titled lower db title\<rparr>]\<rparr>))"

fun insert_all :: "('r \<Rightarrow> blocks_db \<Rightarrow> blocks_db option) \<Rightarrow> 'r list \<Rightarrow> blocks_db \<Rightarrow> blocks_db option" where
  "insert_all ins [] db = Some db"
| "insert_all ins (r # rs) db = (case ins r db of None \<Rightarrow> None | Some db1 \<Rightarrow> insert_all ins rs db1)"

subsection \<open>Links in a text\<close>

text \<open>The pattern \<open>\[\[([^\[\]]+)\]\]\<close>, found from the left without overlaps.\<close>

definition bracket :: "char \<Rightarrow> bool" where
  "bracket c \<longleftrightarrow> c = CHR ''['' \<or> c = CHR '']''"

definition link_at :: "string \<Rightarrow> (string \<times> string) option" where
  "link_at s =
     (if take 2 s \<noteq> ''[['' then None
      else let title = takeWhile (\<lambda>c. \<not> bracket c) (drop 2 s); rest = dropWhile (\<lambda>c. \<not> bracket c) (drop 2 s) in
        if title \<noteq> [] \<and> take 2 rest = '']]'' then Some (title, drop 2 rest) else None)"

lemma link_at_shorter: "link_at s = Some (t, r) \<Longrightarrow> length r < length s"
proof -
  assume a: "link_at s = Some (t, r)"
  then have r: "r = drop 2 (dropWhile (\<lambda>c. \<not> bracket c) (drop 2 s))" and "take 2 s = ''[[''"
    by (auto simp: link_at_def Let_def split: if_splits)
  then have "s \<noteq> []" by auto
  have "length r \<le> length (drop 2 s)"
    unfolding r using length_dropWhile_le[of "\<lambda>c. \<not> bracket c" "drop 2 s"] by simp
  also have "\<dots> < length s" using \<open>s \<noteq> []\<close> by simp
  finally show ?thesis .
qed

function extractLinkTitles :: "string \<Rightarrow> string list" where
  "extractLinkTitles s =
     (if s = [] then []
      else case link_at s of Some (t, rest) \<Rightarrow> t # extractLinkTitles rest
         | None \<Rightarrow> extractLinkTitles (tl s))"
  by pat_completeness auto
termination
  by (relation "measure length") (auto dest: link_at_shorter)

declare extractLinkTitles.simps [simp del]

subsection \<open>The rows of a page\<close>

definition blockPathLabel :: "uuid \<Rightarrow> string" where
  "blockPathLabel i = ''b'' @ filter (\<lambda>c. c \<noteq> CHR ''-'') (uuid_String i)"

fun block_params :: "uuid \<Rightarrow> (uuid \<rightharpoonup> string) \<Rightarrow> nat \<Rightarrow> Block list \<Rightarrow> block_row list" where
  "block_params pid paths i [] = []"
| "block_params pid paths i (b # bs) =
     (let path = (case Parent b of None \<Rightarrow> blockPathLabel (ID b)
         | Some p \<Rightarrow> (case paths p of None \<Rightarrow> [] | Some s \<Rightarrow> s) @ ''.'' @ blockPathLabel (ID b))
      in \<lparr>b_ID = ID b, b_Page = pid, b_Parent = Parent b, b_Path = path, b_Position = of_nat i,
          b_Kind = BKind b, b_Content = BContent b\<rparr> # block_params pid (paths(ID b \<mapsto> path)) (Suc i) bs)"

definition link_key :: "uuid \<Rightarrow> string \<Rightarrow> string" where
  "link_key bid title = uuid_String bid @ CHR 0x00 # title"

fun title_params :: "uuid \<Rightarrow> string list \<Rightarrow> string list \<Rightarrow> (uuid \<times> string) list \<times> string list" where
  "title_params bid [] seen = ([], seen)"
| "title_params bid (t # ts) seen =
     (if link_key bid t \<in> set seen then title_params bid ts seen
      else let (ps, seen') = title_params bid ts (link_key bid t # seen) in ((bid, t) # ps, seen'))"

fun link_params :: "Block list \<Rightarrow> string list \<Rightarrow> (uuid \<times> string) list" where
  "link_params [] seen = []"
| "link_params (b # bs) seen =
     (let (ps, seen') = title_params (ID b) (extractLinkTitles (Text (BContent b))) seen in ps @ link_params bs seen')"

definition persist :: "(string \<Rightarrow> string) \<Rightarrow> db_call \<Rightarrow> uuid \<Rightarrow> Page \<Rightarrow> blocks_db \<Rightarrow> bool \<times> blocks_db" where
  "persist lower c pid page db =
     (case c of Refused k \<Rightarrow> (False, db)
      | _ \<Rightarrow> (case insert_all InsertBlock_row (block_params pid Map.empty 0 (Blocks page)) (ReplaceBlocksForPage pid db) of
          None \<Rightarrow> (False, db)
        | Some db1 \<Rightarrow> (case insert_all (InsertPageLink lower pid) (link_params (Blocks page) []) (ReplacePageLinksForPage pid db1) of
            None \<Rightarrow> (False, db)
          | Some db2 \<Rightarrow> (c = Served, db2))))"

subsection \<open>Events\<close>

text \<open>An event's payload, as far as the handler decodes it.\<close>

datatype payload =
    BadEnvelope
  | BlockScope "Op option"
  | BadText
  | TextScope "uuid option" string string
  | OtherScope string

text \<open>What \<open>pageop.Marshal\<close> writes, read with this package's decoder.\<close>

definition payload_of :: "page_op \<Rightarrow> payload" where
  "payload_of op = (case op of BlockOp o1 \<Rightarrow> BlockScope (Some o1)
     | TextOp bid o2 \<Rightarrow> TextScope (Some bid) (TypeName o2) (op_text o2))"

datatype proj_error =
    LoadFailed
  | DecodeEnvelope
  | DecodeBlockOp
  | BlockOpFailed apply_error
  | DecodeTextOp
  | InvalidBlockID
  | UnknownScope string
  | PersistFailed

definition block_of_row :: "block_row \<Rightarrow> Block" where
  "block_of_row r = \<lparr>ID = b_ID r, Parent = b_Parent r, BKind = b_Kind r, BContent = b_Content r\<rparr>"

definition loadPage :: "uuid \<Rightarrow> blocks_db \<Rightarrow> Page" where
  "loadPage pid db = (NewPage pid [])\<lparr>Blocks := map block_of_row (ListBlocksForPage pid db)\<rparr>"

definition project_block_op :: "Page \<Rightarrow> Op option \<Rightarrow> (proj_error, Page) outcome option" where
  "project_block_op page r = (case r of None \<Rightarrow> Some (Failed DecodeBlockOp page)
     | Some (SetTitle i t1 t2) \<Rightarrow> Some (Done page)
     | Some op \<Rightarrow> (case Apply page op of None \<Rightarrow> None
         | Some (Failed e p) \<Rightarrow> Some (Failed (BlockOpFailed e) p)
         | Some (Done p) \<Rightarrow> Some (Done p)))"

definition project_text_op :: "Page \<Rightarrow> uuid \<Rightarrow> string \<Rightarrow> string \<Rightarrow> Page" where
  "project_text_op page bid opType text =
     (if opType \<noteq> ''InsertText'' then page
      else case find_index (\<lambda>b. ID b = bid) (Blocks page) of None \<Rightarrow> page
        | Some i \<Rightarrow> page\<lparr>Blocks := (Blocks page)[i := (Blocks page ! i)
            \<lparr>BContent := (BContent (Blocks page ! i))\<lparr>Text := text\<rparr>\<rparr>]\<rparr>)"

definition project :: "Page \<Rightarrow> payload \<Rightarrow> (proj_error, Page) outcome option" where
  "project page pl = (case pl of
     BadEnvelope \<Rightarrow> Some (Failed DecodeEnvelope page)
   | BlockScope r \<Rightarrow> project_block_op page r
   | BadText \<Rightarrow> Some (Failed DecodeTextOp page)
   | TextScope None opType text \<Rightarrow> Some (Failed InvalidBlockID page)
   | TextScope (Some bid) opType text \<Rightarrow> Some (Done (project_text_op page bid opType text))
   | OtherScope s \<Rightarrow> Some (Failed (UnknownScope s) page))"

record Projector =
  pr_pages :: "uuid \<rightharpoonup> Page"
  pr_db :: blocks_db

text \<open>The page in the map is the one the operation works on, so what a failing operation has
  done to it stays.\<close>

definition HandleEvent ::
  "(string \<Rightarrow> string) \<Rightarrow> bool \<Rightarrow> db_call \<Rightarrow> uuid \<Rightarrow> payload \<Rightarrow> Projector \<Rightarrow> (proj_error, Projector) outcome option" where
  "HandleEvent lower loads c pid pl pr =
     (if pr_pages pr pid = None \<and> \<not> loads then Some (Failed LoadFailed pr)
      else let page = (case pr_pages pr pid of Some p \<Rightarrow> p | None \<Rightarrow> loadPage pid (pr_db pr)) in
        (case project page pl of None \<Rightarrow> None
         | Some (Failed e p) \<Rightarrow> Some (Failed e (pr\<lparr>pr_pages := (pr_pages pr)(pid \<mapsto> p)\<rparr>))
         | Some (Done p) \<Rightarrow>
            (case persist lower c pid p (pr_db pr) of (ok, db) \<Rightarrow>
               let pr' = pr\<lparr>pr_pages := (pr_pages pr)(pid \<mapsto> p), pr_db := db\<rparr> in
               Some (if ok then Done pr' else Failed PersistFailed pr'))))"

text \<open>A restarted projector knows only the tables.\<close>

definition New_projector :: "blocks_db \<Rightarrow> Projector" where
  "New_projector db = \<lparr>pr_pages = Map.empty, pr_db = db\<rparr>"

end
