(* ===== verification/BlockProjLaws.thy ===== *)
theory BlockProjLaws
  imports BlockProj
begin

text \<open>
  The projector against the live document: what a successful rewrite leaves in the tables, that a
  page's rows read back as the page, that the links are the ones in the texts, and that the
  projection follows every stream of structural operations and whole-block replacements -
  and what a stream outside that discipline or out of order does to it.
\<close>

subsection \<open>Links\<close>

lemma takeWhile_split:
  assumes "list_all (\<lambda>c. \<not> P c) t" and "P c"
  shows "takeWhile (\<lambda>c. \<not> P c) (t @ c # v) = t" and "dropWhile (\<lambda>c. \<not> P c) (t @ c # v) = c # v"
  using assms by (induction t) auto

lemma link_at_iff:
  "link_at s = Some (t, r) \<longleftrightarrow> t \<noteq> [] \<and> list_all (\<lambda>c. \<not> bracket c) t \<and> s = ''[['' @ t @ '']]'' @ r"
proof
  assume a: "link_at s = Some (t, r)"
  let ?d = "drop 2 s"
  have p: "take 2 s = ''[[''" "t = takeWhile (\<lambda>c. \<not> bracket c) ?d" "t \<noteq> []"
    "take 2 (dropWhile (\<lambda>c. \<not> bracket c) ?d) = '']]''" "r = drop 2 (dropWhile (\<lambda>c. \<not> bracket c) ?d)"
    using a by (auto simp: link_at_def Let_def split: if_splits)
  have "s = take 2 s @ ?d" by simp
  also have "?d = t @ take 2 (dropWhile (\<lambda>c. \<not> bracket c) ?d) @ r"
    unfolding p(2,5) append_take_drop_id by simp
  finally have "s = ''[['' @ t @ '']]'' @ r" using p(1,4) by simp
  moreover have "list_all (\<lambda>c. \<not> bracket c) t" unfolding p(2) list_all_iff by (auto dest: set_takeWhileD)
  ultimately show "t \<noteq> [] \<and> list_all (\<lambda>c. \<not> bracket c) t \<and> s = ''[['' @ t @ '']]'' @ r" using p(3) by blast
next
  assume a: "t \<noteq> [] \<and> list_all (\<lambda>c. \<not> bracket c) t \<and> s = ''[['' @ t @ '']]'' @ r"
  have b: "bracket CHR '']''" by (simp add: bracket_def)
  show "link_at s = Some (t, r)"
    using a takeWhile_split[of bracket t "CHR '']''" "CHR '']'' # r", OF _ b] by (simp add: link_at_def Let_def)
qed

lemma titles_step:
  "extractLinkTitles [] = []"
  "link_at s = Some (t, r) \<Longrightarrow> extractLinkTitles s = t # extractLinkTitles r"
  "link_at (c # s) = None \<Longrightarrow> extractLinkTitles (c # s) = extractLinkTitles s"
  by (subst extractLinkTitles.simps; auto simp: link_at_def)+

text \<open>A second occurrence cannot start inside a first: after its two opening brackets comes no
  bracket up to the closing ones.\<close>

lemma occurrence_in_match:
  assumes "''[['' @ t @ '']]'' @ r = u @ ''[['' @ t' @ '']]'' @ v" and "list_all (\<lambda>c. \<not> bracket c) t" and "t \<noteq> []"
    and "list_all (\<lambda>c. \<not> bracket c) t'" and "t' \<noteq> []"
  shows "(u = [] \<and> t' = t \<and> v = r) \<or> (\<exists>w. u = ''[['' @ t @ '']]'' @ w \<and> r = w @ ''[['' @ t' @ '']]'' @ v)"
proof (cases u)
  case Nil
  then have "link_at (''[['' @ t @ '']]'' @ r) = Some (t, r)" "link_at (''[['' @ t @ '']]'' @ r) = Some (t', v)"
    unfolding link_at_iff using assms by simp_all
  then show ?thesis using Nil by simp
next
  case (Cons a u1)
  then have e1: "CHR ''['' # t @ '']]'' @ r = u1 @ ''[['' @ t' @ '']]'' @ v" using assms(1) by auto
  show ?thesis
  proof (cases u1)
    case Nil
    then have "t @ '']]'' @ r = CHR ''['' # t' @ '']]'' @ v" using e1 by simp
    then show ?thesis using assms(2,3) by (cases t) (auto simp: bracket_def)
  next
    case (Cons b u2)
    then have e2: "t @ '']]'' @ r = u2 @ ''[['' @ t' @ '']]'' @ v" using e1 by simp
    have pre: "u = CHR ''['' # CHR ''['' # u2" using \<open>u = a # u1\<close> Cons e1 assms(1) by simp
    obtain w where w: "t = u2 @ w \<and> w @ '']]'' @ r = ''[['' @ t' @ '']]'' @ v \<or> t @ w = u2 \<and> '']]'' @ r = w @ ''[['' @ t' @ '']]'' @ v"
      using e2 by (auto simp: append_eq_append_conv2)
    show ?thesis
    proof (cases "t = u2 @ w \<and> w @ '']]'' @ r = ''[['' @ t' @ '']]'' @ v")
      case True
      then show ?thesis using assms(2) by (cases w) (auto simp: bracket_def)
    next
      case False
      then have f: "t @ w = u2" "'']]'' @ r = w @ ''[['' @ t' @ '']]'' @ v" using w by auto
      obtain w2 where "w = '']]'' @ w2" "r = w2 @ ''[['' @ t' @ '']]'' @ v"
      proof (cases w)
        case (Cons c1 w1)
        then show ?thesis using f(2) that by (cases w1) auto
      qed (use f(2) in simp)
      then show ?thesis using f(1) pre by auto
    qed
  qed
qed

definition linked :: "string \<Rightarrow> string \<Rightarrow> bool" where
  "linked s t \<longleftrightarrow> t \<noteq> [] \<and> list_all (\<lambda>c. \<not> bracket c) t \<and> (\<exists>u v. s = u @ ''[['' @ t @ '']]'' @ v)"

lemma extract_iff: "t \<in> set (extractLinkTitles s) \<longleftrightarrow> linked s t"
proof (induction s rule: length_induct)
  case (1 s)
  show ?case
  proof (cases s)
    case Nil
    then show ?thesis by (simp add: titles_step linked_def)
  next
    case (Cons c s1)
    show ?thesis
    proof (cases "link_at s")
      case None
      have "linked s t \<longleftrightarrow> linked s1 t"
      proof
        assume l: "linked s t"
        then obtain u v where uv: "s = u @ ''[['' @ t @ '']]'' @ v" by (auto simp: linked_def)
        have "u \<noteq> []"
        proof
          assume "u = []"
          then have "link_at s = Some (t, v)" using l uv by (simp add: link_at_iff linked_def)
          then show False using None by simp
        qed
        then have "s1 = tl u @ ''[['' @ t @ '']]'' @ v" using uv Cons by (cases u) auto
        then show "linked s1 t" using l unfolding linked_def by blast
      next
        assume l: "linked s1 t"
        then obtain u v where "s1 = u @ ''[['' @ t @ '']]'' @ v" by (auto simp: linked_def)
        then have "s = (c # u) @ ''[['' @ t @ '']]'' @ v" using Cons by simp
        then show "linked s t" using l unfolding linked_def by blast
      qed
      then show ?thesis using 1 None Cons titles_step(3)[of c s1] by simp
    next
      case (Some p)
      obtain t0 r where p: "p = (t0, r)" by (cases p)
      have t0: "t0 \<noteq> []" "list_all (\<lambda>c. \<not> bracket c) t0" "s = ''[['' @ t0 @ '']]'' @ r"
        using Some p by (simp_all add: link_at_iff)
      have "linked s t \<longleftrightarrow> t = t0 \<or> linked r t"
      proof
        assume l: "linked s t"
        then obtain u v where uv: "s = u @ ''[['' @ t @ '']]'' @ v" by (auto simp: linked_def)
        have "t = t0 \<or> (\<exists>w. r = w @ ''[['' @ t @ '']]'' @ v)"
          using occurrence_in_match[of t0 r u t v] uv t0 l by (auto simp: linked_def)
        then show "t = t0 \<or> linked r t" using l unfolding linked_def by blast
      next
        assume "t = t0 \<or> linked r t"
        then show "linked s t"
        proof
          assume "t = t0"
          then have "s = [] @ ''[['' @ t @ '']]'' @ r" using t0(3) by simp
          then show ?thesis using t0(1,2) \<open>t = t0\<close> unfolding linked_def by blast
        next
          assume l: "linked r t"
          then obtain u v where "r = u @ ''[['' @ t @ '']]'' @ v" by (auto simp: linked_def)
          then have "s = (''[['' @ t0 @ '']]'' @ u) @ ''[['' @ t @ '']]'' @ v" using t0(3) by simp
          then show ?thesis using l unfolding linked_def by blast
        qed
      qed
      moreover have "length r < length s" using link_at_shorter Some p by blast
      ultimately show ?thesis using 1 Some p titles_step(2)[of s t0 r] by simp
    qed
  qed
qed

subsection \<open>The rows of a page\<close>

lemma blockPathLabel_eq: "blockPathLabel u = CHR ''b'' # hexDigits u"
  using pathLabel_eq[of u] by (simp add: blockPathLabel_def pathLabel_def)

lemma blockPathLabel_no_dot: "CHR ''.'' \<notin> set (blockPathLabel u)" and blockPathLabel_nonempty: "blockPathLabel u \<noteq> []"
  using pathLabel_no_dot[of u] by (auto simp: blockPathLabel_eq pathLabel_eq)

lemma uuid_String_inj: "uuid_String u = uuid_String v \<Longrightarrow> u = v"
  using pathLabel_inj[of u v] by (simp add: pathLabel_def)

lemma length_uuid_String: "length (uuid_String u) = 36"
  by (simp add: uuid_String_def hexDigits_def Let_def)

lemma link_key_inj: "link_key i t = link_key j u \<longleftrightarrow> i = j \<and> t = u"
  using uuid_String_inj[of i j] by (auto simp: link_key_def length_uuid_String)

lemma block_params_fields:
  "map b_ID (block_params pid paths i bs) = map ID bs"
  "map block_of_row (block_params pid paths i bs) = bs"
  "list_all (\<lambda>r. b_Page r = pid) (block_params pid paths i bs)"
  "map b_Position (block_params pid paths i bs) = map of_nat [i..<i + length bs]"
  "map b_Parent (block_params pid paths i bs) = map Parent bs"
  by (induction bs arbitrary: paths i) (simp_all add: Let_def block_of_row_def upt_conv_Cons del: upt_Suc)

lemma ltree_text_label: "ltree_text (blockPathLabel u)"
  using split_dot_label[OF blockPathLabel_no_dot[of u]] blockPathLabel_nonempty[of u]
  by (simp add: ltree_text_def labels_def)

lemma ltree_text_child: "ltree_text s \<Longrightarrow> s \<noteq> [] \<Longrightarrow> ltree_text (s @ ''.'' @ blockPathLabel u)"
  using split_dot_append[of s "blockPathLabel u"] split_dot_label[OF blockPathLabel_no_dot[of u]] blockPathLabel_nonempty[of u]
  by (simp add: ltree_text_def labels_def)

text \<open>The paths of the blocks before a given one: each is valid.\<close>

lemma block_params_ltree:
  assumes "depth_first (xs @ bs)" and "dom paths = ID ` set xs" and "\<forall>s\<in>ran paths. s \<noteq> [] \<and> ltree_text s"
  shows "list_all (\<lambda>r. ltree_text (b_Path r)) (block_params pid paths i bs)"
  using assms
proof (induction bs arbitrary: xs paths i)
  case (Cons b bs)
  define pth where "pth = (case Parent b of None \<Rightarrow> blockPathLabel (ID b)
         | Some p \<Rightarrow> (case paths p of None \<Rightarrow> [] | Some s \<Rightarrow> s) @ ''.'' @ blockPathLabel (ID b))"
  have ok: "pth \<noteq> [] \<and> ltree_text pth"
  proof (cases "Parent b")
    case None
    then show ?thesis by (simp add: pth_def ltree_text_label blockPathLabel_nonempty)
  next
    case (Some p)
    then have "p \<in> dom paths" using depth_first_parent_before[OF Cons.prems(1) Some] Cons.prems(2) by simp
    then obtain s where s: "paths p = Some s" by blast
    from ranI[of paths, OF s] have "s \<noteq> [] \<and> ltree_text s" using Cons.prems(3) by blast
    then show ?thesis using Some s ltree_text_child by (simp add: pth_def)
  qed
  have "list_all (\<lambda>r. ltree_text (b_Path r)) (block_params pid (paths(ID b \<mapsto> pth)) (Suc i) bs)"
  proof (rule Cons.IH[of "xs @ [b]"])
    show "depth_first ((xs @ [b]) @ bs)" using Cons.prems(1) by simp
    show "dom (paths(ID b \<mapsto> pth)) = ID ` set (xs @ [b])" using Cons.prems(2) by auto
    show "\<forall>s\<in>ran (paths(ID b \<mapsto> pth)). s \<noteq> [] \<and> ltree_text s"
      using Cons.prems(3) ok by (auto simp: ran_def)
  qed
  then show ?case using ok by (simp add: Let_def pth_def)
qed simp

definition insertable :: "block_row \<Rightarrow> uuid set \<Rightarrow> uuid set \<Rightarrow> bool" where
  "insertable r pids bids \<longleftrightarrow> b_ID r \<notin> bids \<and> b_Page r \<in> pids \<and>
     (\<forall>p. b_Parent r = Some p \<longrightarrow> p = b_ID r \<or> p \<in> bids) \<and> ltree_text (b_Path r)"

lemma InsertBlock_row_ok:
  "insertable r (set (map fst (docs_pages db))) (set (map b_ID (block_rows db))) \<Longrightarrow>
   InsertBlock_row r db = Some (db\<lparr>block_rows := block_rows db @ [r]\<rparr>)"
  by (auto simp: InsertBlock_row_def insertable_def split: option.splits)

lemma insert_blocks_ok:
  assumes "\<And>us r vs. rows = us @ r # vs \<Longrightarrow>
    insertable r (set (map fst (docs_pages db))) (set (map b_ID (block_rows db @ us)))"
  shows "insert_all InsertBlock_row rows db = Some (db\<lparr>block_rows := block_rows db @ rows\<rparr>)"
  using assms
proof (induction rows arbitrary: db)
  case (Cons r rows)
  let ?db = "db\<lparr>block_rows := block_rows db @ [r]\<rparr>"
  have r: "InsertBlock_row r db = Some ?db" using Cons.prems[of "[]" r rows] by (intro InsertBlock_row_ok) simp
  have "insert_all InsertBlock_row rows ?db = Some (?db\<lparr>block_rows := block_rows ?db @ rows\<rparr>)"
  proof (rule Cons.IH)
    fix us r' vs assume "rows = us @ r' # vs"
    then show "insertable r' (set (map fst (docs_pages ?db))) (set (map b_ID (block_rows ?db @ us)))"
      using Cons.prems[of "r # us" r' vs] by simp
  qed
  then show ?case using r by simp
qed simp

lemma block_params_insertable:
  assumes wf: "distinct (map ID bs)" "depth_first bs" and p: "pid \<in> pids" and new: "ID ` set bs \<inter> bids = {}"
    and s: "block_params pid Map.empty 0 bs = us @ r # vs"
  shows "insertable r pids (bids \<union> b_ID ` set us)"
proof -
  have lt: "list_all (\<lambda>r. ltree_text (b_Path r)) (block_params pid Map.empty 0 bs)"
    using block_params_ltree[of "[]" bs Map.empty] wf(2) by simp
  obtain xs b ys where b: "bs = xs @ b # ys" "map b_ID us = map ID xs" "b_ID r = ID b" "b_Parent r = Parent b"
  proof -
    have m: "map block_of_row us @ block_of_row r # map block_of_row vs = bs"
      using block_params_fields(2)[of pid Map.empty 0 bs] s by simp
    have i: "ID \<circ> block_of_row = b_ID" by (auto simp: block_of_row_def)
    show thesis
      by (rule that[of "map block_of_row us" "block_of_row r" "map block_of_row vs"])
         (use m i in \<open>simp_all add: block_of_row_def comp_def\<close>)
  qed
  have ids: "b_ID ` set us = ID ` set xs" using arg_cong[OF b(2), of set] by simp
  have "b_ID r \<notin> bids \<union> b_ID ` set us" using wf(1) new b(1,3) ids by auto
  moreover have "b_Page r = pid" using block_params_fields(3)[of pid Map.empty 0 bs] s by simp
  moreover have "p \<in> b_ID ` set us" if "b_Parent r = Some p" for p
    using depth_first_parent_before[of xs b ys p] wf(2) b that ids by simp
  ultimately show ?thesis using lt s p by (auto simp: insertable_def)
qed

subsection \<open>The link rows\<close>

lemma title_params_set:
  "title_params bid ts seen = (ps, seen') \<Longrightarrow>
   set seen' = set seen \<union> link_key bid ` set ts \<and> distinct ps \<and>
   set ps = {(bid, t) |t. t \<in> set ts \<and> link_key bid t \<notin> set seen}"
proof (induction ts arbitrary: seen ps)
  case (Cons t ts)
  show ?case
  proof (cases "link_key bid t \<in> set seen")
    case True
    then show ?thesis using Cons.IH[of seen ps] Cons.prems by (auto simp: link_key_inj)
  next
    case False
    obtain qs where q: "title_params bid ts (link_key bid t # seen) = (qs, seen')" "ps = (bid, t) # qs"
      using Cons.prems False by (auto split: prod.splits)
    show ?thesis using Cons.IH[OF q(1)] q(2) False by (auto simp: link_key_inj)
  qed
qed simp

lemma link_params_set:
  assumes "distinct (map ID bs)" and "\<And>b t. b \<in> set bs \<Longrightarrow> link_key (ID b) t \<notin> set seen"
  shows "distinct (link_params bs seen) \<and>
    set (link_params bs seen) = {(ID b, t) |b t. b \<in> set bs \<and> linked (Text (BContent b)) t}"
  using assms
proof (induction bs arbitrary: seen)
  case (Cons b bs)
  obtain ps seen' where p: "title_params (ID b) (extractLinkTitles (Text (BContent b))) seen = (ps, seen')"
    by (cases "title_params (ID b) (extractLinkTitles (Text (BContent b))) seen")
  note t = title_params_set[OF p]
  have ps: "set ps = {(ID b, t) |t. linked (Text (BContent b)) t}"
    using t Cons.prems(2)[of b] by (auto simp: extract_iff)
  have "link_key (ID c) u \<notin> set seen'" if "c \<in> set bs" for c u
  proof -
    have "ID c \<noteq> ID b" using Cons.prems(1) imageI[OF that, of ID] by auto
    then show ?thesis using t Cons.prems(2)[of c u] that by (auto simp: link_key_inj)
  qed
  note IH = Cons.IH[OF _ this]
  have "set ps \<inter> set (link_params bs seen') = {}"
    using IH ps Cons.prems(1) by force
  moreover have "distinct ps" using t by simp
  ultimately show ?case using IH ps Cons.prems(1) p by auto
qed simp

definition link_row_of :: "(string \<Rightarrow> string) \<Rightarrow> blocks_db \<Rightarrow> uuid \<Rightarrow> uuid \<times> string \<Rightarrow> link_row" where
  "link_row_of lower db pid p = \<lparr>k_FromPage = pid, k_FromBlock = fst p, k_TargetTitle = snd p,
     k_TargetPage = page_titled lower db (snd p)\<rparr>"

lemma page_titled_cong [simp]: "page_titled lower (db\<lparr>link_rows := ls\<rparr>) = page_titled lower db"
  "page_titled lower (db\<lparr>block_rows := rs\<rparr>) = page_titled lower db"
  by (rule ext, simp add: page_titled_def)+

lemma insert_links_ok:
  assumes "distinct ps" and "pid \<in> set (map fst (docs_pages db))" and "fst ` set ps \<subseteq> set (map b_ID (block_rows db))"
    and "set ps \<inter> (\<lambda>k. (k_FromBlock k, k_TargetTitle k)) ` set (link_rows db) = {}"
  shows "insert_all (InsertPageLink lower pid) ps db =
    Some (db\<lparr>link_rows := link_rows db @ map (link_row_of lower db pid) ps\<rparr>)"
  using assms
proof (induction ps arbitrary: db)
  case (Cons p ps)
  obtain bid t where p: "p = (bid, t)" by (cases p)
  let ?db = "db\<lparr>link_rows := link_rows db @ [link_row_of lower db pid p]\<rparr>"
  have 1: "InsertPageLink lower pid p db = Some ?db"
    using Cons.prems p by (auto simp: InsertPageLink_def link_row_of_def)
  have "insert_all (InsertPageLink lower pid) ps ?db = Some (?db\<lparr>link_rows := link_rows ?db @ map (link_row_of lower ?db pid) ps\<rparr>)"
    by (rule Cons.IH) (use Cons.prems p in \<open>auto simp: link_row_of_def\<close>)
  moreover have "link_row_of lower ?db pid = link_row_of lower db pid" by (rule ext) (simp add: link_row_of_def)
  ultimately show ?case using 1 by simp
qed simp

subsection \<open>A rewrite\<close>

text \<open>What the foreign keys and the writer keep of the tables.\<close>

definition block_tables_ok :: "blocks_db \<Rightarrow> bool" where
  "block_tables_ok db \<longleftrightarrow> distinct (map b_ID (block_rows db)) \<and>
     (\<forall>r\<in>set (block_rows db). \<forall>p. b_Parent r = Some p \<longrightarrow> (\<exists>r'\<in>set (block_rows db). b_ID r' = p \<and> b_Page r' = b_Page r)) \<and>
     (\<forall>k\<in>set (link_rows db). \<exists>r\<in>set (block_rows db). b_ID r = k_FromBlock k \<and> b_Page r = k_FromPage k)"

lemma cascade_closed:
  "\<forall>r\<in>set rows. \<forall>p. b_Parent r = Some p \<longrightarrow> p \<in> b_ID ` set rows \<Longrightarrow> cascade n rows = rows"
proof (induction n)
  case (Suc n)
  have "filter (\<lambda>r. case b_Parent r of None \<Rightarrow> True | Some p \<Rightarrow> p \<in> set (map b_ID rows)) rows = rows"
    using Suc.prems by (intro filter_True) (auto split: option.split)
  then show ?case using Suc by simp
qed simp

lemma tables_parent: "block_tables_ok db \<Longrightarrow> r \<in> set (block_rows db) \<Longrightarrow> b_Parent r = Some p \<Longrightarrow>
  \<exists>r'\<in>set (block_rows db). b_ID r' = p \<and> b_Page r' = b_Page r"
  unfolding block_tables_ok_def by blast

lemma tables_link: "block_tables_ok db \<Longrightarrow> k \<in> set (link_rows db) \<Longrightarrow>
  \<exists>r\<in>set (block_rows db). b_ID r = k_FromBlock k \<and> b_Page r = k_FromPage k"
  unfolding block_tables_ok_def by blast

lemma tables_same: "block_tables_ok db \<Longrightarrow> r \<in> set (block_rows db) \<Longrightarrow> r' \<in> set (block_rows db) \<Longrightarrow> b_ID r = b_ID r' \<Longrightarrow> r = r'"
  unfolding block_tables_ok_def by (meson distinct_map inj_onD)

lemma Replace_ok:
  assumes "block_tables_ok db"
  shows "ReplaceBlocksForPage pid db = db\<lparr>block_rows := filter (\<lambda>r. b_Page r \<noteq> pid) (block_rows db),
    link_rows := filter (\<lambda>k. k_FromPage k \<noteq> pid) (link_rows db)\<rparr>"
proof -
  let ?rows = "filter (\<lambda>r. b_Page r \<noteq> pid) (block_rows db)"
  have "\<forall>r\<in>set ?rows. \<forall>p. b_Parent r = Some p \<longrightarrow> p \<in> b_ID ` set ?rows"
    using tables_parent[OF assms] by fastforce
  then have c: "cascade n ?rows = ?rows" for n by (rule cascade_closed)
  have "k_FromBlock k \<in> set (map b_ID ?rows) \<longleftrightarrow> k_FromPage k \<noteq> pid" if k: "k \<in> set (link_rows db)" for k
  proof -
    obtain r where r: "r \<in> set (block_rows db)" "b_ID r = k_FromBlock k" "b_Page r = k_FromPage k"
      using tables_link[OF assms k] by blast
    have "b_ID r \<in> b_ID ` set ?rows \<longleftrightarrow> r \<in> set ?rows"
    proof
      assume "b_ID r \<in> b_ID ` set ?rows"
      then obtain r' where r': "r' \<in> set ?rows" "b_ID r = b_ID r'" by blast
      then have "r = r'" using tables_same[OF assms r(1)] by simp
      then show "r \<in> set ?rows" using r'(1) by simp
    qed (rule imageI)
    then show ?thesis using r by simp
  qed
  then have "filter (\<lambda>k. k_FromBlock k \<in> set (map b_ID ?rows)) (link_rows db) = filter (\<lambda>k. k_FromPage k \<noteq> pid) (link_rows db)"
    by (intro filter_cong) auto
  then show ?thesis by (simp add: ReplaceBlocksForPage_def c Let_def)
qed

text \<open>The tables with the rows of one page replaced by those of a list of blocks.\<close>

definition rewritten :: "(string \<Rightarrow> string) \<Rightarrow> uuid \<Rightarrow> Block list \<Rightarrow> blocks_db \<Rightarrow> blocks_db" where
  "rewritten lower pid bs db =
     db\<lparr>block_rows := filter (\<lambda>r. b_Page r \<noteq> pid) (block_rows db) @ block_params pid Map.empty 0 bs,
        link_rows := filter (\<lambda>k. k_FromPage k \<noteq> pid) (link_rows db) @ map (link_row_of lower db pid) (link_params bs [])\<rparr>"

definition can_hold :: "uuid \<Rightarrow> Block list \<Rightarrow> blocks_db \<Rightarrow> bool" where
  "can_hold pid bs db \<longleftrightarrow> pid \<in> set (map fst (docs_pages db)) \<and>
     list_all (\<lambda>r. b_Page r \<noteq> pid \<longrightarrow> b_ID r \<notin> ID ` set bs) (block_rows db)"

lemma persist_ok:
  assumes t: "block_tables_ok db" and wf: "wf_page page" and h: "can_hold pid (Blocks page) db"
  shows "persist lower c pid page db = (c = Served, case c of Refused k \<Rightarrow> db | _ \<Rightarrow> rewritten lower pid (Blocks page) db)"
proof -
  let ?bs = "Blocks page" and ?others = "filter (\<lambda>r. b_Page r \<noteq> pid) (block_rows db)"
  let ?rows = "block_params pid Map.empty 0 ?bs"
  let ?db1 = "ReplaceBlocksForPage pid db"
  let ?links = "filter (\<lambda>k. k_FromPage k \<noteq> pid) (link_rows db)"
  note db1 = Replace_ok[OF t, of pid]
  have wf': "distinct (map ID ?bs)" "depth_first ?bs" using wf by (simp_all add: wf_page_def wf_blocks_def)
  have new: "ID ` set ?bs \<inter> b_ID ` set ?others = {}"
    using h by (auto simp: can_hold_def list_all_iff) (metis imageI)
  have "insert_all InsertBlock_row ?rows ?db1 = Some (?db1\<lparr>block_rows := block_rows ?db1 @ ?rows\<rparr>)"
  proof (rule insert_blocks_ok)
    fix us r vs assume s: "?rows = us @ r # vs"
    have "pid \<in> set (map fst (docs_pages db))" using h by (simp add: can_hold_def)
    from block_params_insertable[OF wf' this new s]
    show "insertable r (set (map fst (docs_pages ?db1))) (set (map b_ID (block_rows ?db1 @ us)))"
      by (simp add: db1 image_Un)
  qed
  then have b: "insert_all InsertBlock_row ?rows ?db1 =
      Some (db\<lparr>block_rows := ?others @ ?rows, link_rows := ?links\<rparr>)" by (simp add: db1)
  let ?db2 = "db\<lparr>block_rows := ?others @ ?rows, link_rows := ?links\<rparr>"
  have r2: "ReplacePageLinksForPage pid ?db2 = ?db2" by (simp add: ReplacePageLinksForPage_def)
  have lp: "distinct (link_params ?bs [])" "set (link_params ?bs []) = {(ID b, t) |b t. b \<in> set ?bs \<and> linked (Text (BContent b)) t}"
    using link_params_set[OF wf'(1), of "[]"] by simp_all
  have "insert_all (InsertPageLink lower pid) (link_params ?bs []) ?db2 =
    Some (?db2\<lparr>link_rows := link_rows ?db2 @ map (link_row_of lower ?db2 pid) (link_params ?bs [])\<rparr>)"
  proof (rule insert_links_ok[OF lp(1)])
    show "pid \<in> set (map fst (docs_pages ?db2))" using h by (simp add: can_hold_def)
    have "fst ` set (link_params ?bs []) \<subseteq> ID ` set ?bs" using lp(2) by auto
    also have "\<dots> = set (map b_ID ?rows)" by (simp add: block_params_fields(1) del: set_map flip: set_map)
    finally show "fst ` set (link_params ?bs []) \<subseteq> set (map b_ID (block_rows ?db2))" by auto
    show "set (link_params ?bs []) \<inter> (\<lambda>k. (k_FromBlock k, k_TargetTitle k)) ` set (link_rows ?db2) = {}"
    proof (rule ccontr)
      assume "set (link_params ?bs []) \<inter> (\<lambda>k. (k_FromBlock k, k_TargetTitle k)) ` set (link_rows ?db2) \<noteq> {}"
      then obtain k where k: "k \<in> set (link_rows db)" "k_FromPage k \<noteq> pid" "k_FromBlock k \<in> ID ` set ?bs"
        using lp(2) by auto
      obtain r where "r \<in> set (block_rows db)" "b_ID r = k_FromBlock k" "b_Page r = k_FromPage k"
        using tables_link[OF t k(1)] by blast
      then show False using k new by force
    qed
  qed
  moreover have "link_row_of lower ?db2 pid = link_row_of lower db pid" by (rule ext) (simp add: link_row_of_def)
  ultimately show ?thesis by (cases c) (simp_all add: persist_def b r2 rewritten_def)
qed

subsection \<open>Reading back\<close>

lemma sint_position: "n < 2 ^ 31 \<Longrightarrow> sint (of_nat n :: 32 word) = int n"
proof -
  assume n: "n < 2 ^ 31"
  have "sint (of_nat n :: 32 word) = signed_take_bit 31 (int n)" by transfer simp
  also have "\<dots> = int n" by (rule signed_take_bit_int_eq_self) (use n in simp_all)
  finally show ?thesis .
qed

lemma rewritten_list:
  assumes "length bs \<le> 2 ^ 31"
  shows "ListBlocksForPage pid (rewritten lower pid bs db) = block_params pid Map.empty 0 bs"
    and "q \<noteq> pid \<Longrightarrow> ListBlocksForPage q (rewritten lower pid bs db) = ListBlocksForPage q db"
proof -
  let ?rows = "block_params pid Map.empty 0 bs"
  have pg: "b_Page r = pid" if "r \<in> set ?rows" for r
    using block_params_fields(3)[of pid Map.empty 0 bs] that by (simp add: list_all_iff)
  then have f: "filter (\<lambda>r. b_Page r = pid) ?rows = ?rows" by (intro filter_True) blast
  have g: "filter (\<lambda>r. b_Page r = q) ?rows = []" if "q \<noteq> pid" for q
    using pg that by (auto simp: filter_empty_conv)
  have "map (\<lambda>r. sint (b_Position r)) ?rows = map sint (map b_Position ?rows)" by simp
  also have "\<dots> = map int [0..<length bs]"
    unfolding block_params_fields(4) using assms by (simp add: sint_position)
  finally have "sorted (map (\<lambda>r. sint (b_Position r)) ?rows)" by (simp add: sorted_map)
  then show "ListBlocksForPage pid (rewritten lower pid bs db) = ?rows"
    by (simp add: ListBlocksForPage_def rewritten_def f filter_filter sort_key_id_if_sorted)
  show "ListBlocksForPage q (rewritten lower pid bs db) = ListBlocksForPage q db" if "q \<noteq> pid"
  proof -
    have "filter (\<lambda>r. b_Page r \<noteq> pid \<and> b_Page r = q) (block_rows db) = filter (\<lambda>r. b_Page r = q) (block_rows db)"
      using that by (intro filter_cong) auto
    then show ?thesis using g[OF that] by (simp add: ListBlocksForPage_def rewritten_def filter_filter)
  qed
qed

lemma rewritten_load: "length bs \<le> 2 ^ 31 \<Longrightarrow> Blocks (loadPage pid (rewritten lower pid bs db)) = bs"
  by (simp add: loadPage_def rewritten_list block_params_fields)

lemma rewritten_ok:
  assumes t: "block_tables_ok db" and wf: "distinct (map ID bs)" "depth_first bs" and h: "can_hold pid bs db"
  shows "block_tables_ok (rewritten lower pid bs db)"
proof -
  let ?rows = "block_params pid Map.empty 0 bs" and ?others = "filter (\<lambda>r. b_Page r \<noteq> pid) (block_rows db)"
  let ?new = "rewritten lower pid bs db"
  have ids: "b_ID ` set ?rows = ID ` set bs"
    using arg_cong[OF block_params_fields(1)[of pid Map.empty 0 bs], of set] by simp
  have pg: "b_Page r = pid" if "r \<in> set ?rows" for r
    using block_params_fields(3)[of pid Map.empty 0 bs] that by (simp add: list_all_iff)
  have rows: "block_rows ?new = ?others @ ?rows" by (simp add: rewritten_def)
  have "distinct (map b_ID (block_rows ?new))"
  proof -
    have "distinct (map b_ID ?others)" using t by (simp add: block_tables_ok_def distinct_map_filter)
    moreover have "b_ID ` set ?others \<inter> ID ` set bs = {}"
      using h by (auto simp: can_hold_def list_all_iff)
    ultimately show ?thesis unfolding rows by (simp add: block_params_fields(1) wf(1))
  qed
  moreover have "\<exists>r'\<in>set (block_rows ?new). b_ID r' = p \<and> b_Page r' = b_Page r"
    if r: "r \<in> set (block_rows ?new)" "b_Parent r = Some p" for r p
  proof (cases "r \<in> set ?rows")
    case True
    then have "block_of_row r \<in> set bs" using block_params_fields(2)[of pid Map.empty 0 bs] by (metis imageI set_map)
    then have "p \<in> b_ID ` set ?rows"
      using depth_first_parents[OF wf(2)] r(2) ids by (simp add: block_of_row_def)
    then show ?thesis using pg True unfolding rows by auto
  next
    case False
    then have "r \<in> set (block_rows db)" "b_Page r \<noteq> pid" using r(1) rows by auto
    then obtain r' where "r' \<in> set (block_rows db)" "b_ID r' = p" "b_Page r' = b_Page r"
      using tables_parent[OF t _ r(2)] by blast
    then show ?thesis using \<open>b_Page r \<noteq> pid\<close> unfolding rows by auto
  qed
  moreover have "\<exists>r\<in>set (block_rows ?new). b_ID r = k_FromBlock k \<and> b_Page r = k_FromPage k"
    if k: "k \<in> set (link_rows ?new)" for k
  proof (cases "k \<in> set (link_rows db) \<and> k_FromPage k \<noteq> pid")
    case True
    then obtain r where "r \<in> set (block_rows db)" "b_ID r = k_FromBlock k" "b_Page r = k_FromPage k"
      using tables_link[OF t] by blast
    then show ?thesis using True unfolding rows by auto
  next
    case False
    then obtain p where "p \<in> set (link_params bs [])" "k = link_row_of lower db pid p"
      using k by (auto simp: rewritten_def)
    then have "k_FromPage k = pid" "k_FromBlock k \<in> b_ID ` set ?rows"
      using link_params_set[OF wf(1), of "[]"] unfolding ids by (auto simp: link_row_of_def)
    then show ?thesis using pg unfolding rows by auto
  qed
  ultimately show ?thesis unfolding block_tables_ok_def by blast
qed

subsection \<open>One event\<close>

definition current :: "uuid \<Rightarrow> Projector \<Rightarrow> Page" where
  "current pid pr = (case pr_pages pr pid of Some p \<Rightarrow> p | None \<Rightarrow> loadPage pid (pr_db pr))"

definition after_call :: "db_call \<Rightarrow> (string \<Rightarrow> string) \<Rightarrow> uuid \<Rightarrow> Block list \<Rightarrow> blocks_db \<Rightarrow> blocks_db" where
  "after_call c lower pid bs db = (case c of Refused k \<Rightarrow> db | _ \<Rightarrow> rewritten lower pid bs db)"

lemma HandleEvent_Done:
  assumes "project (current pid pr) pl = Some (Done p)" and "block_tables_ok (pr_db pr)" and "wf_page p"
    and "can_hold pid (Blocks p) (pr_db pr)"
  shows "\<exists>r. HandleEvent lower True c pid pl pr = Some r \<and> (c = Served \<longrightarrow> is_done r) \<and>
    state_of r = pr\<lparr>pr_pages := (pr_pages pr)(pid \<mapsto> p), pr_db := after_call c lower pid (Blocks p) (pr_db pr)\<rparr>"
  using assms persist_ok[OF assms(2-4), of lower c]
  by (simp add: HandleEvent_def current_def after_call_def Let_def)

lemma HandleEvent_Failed:
  assumes "project (current pid pr) pl = Some (Failed e p)"
  shows "HandleEvent lower True c pid pl pr = Some (Failed e (pr\<lparr>pr_pages := (pr_pages pr)(pid \<mapsto> p)\<rparr>))"
  using assms by (simp add: HandleEvent_def current_def Let_def)

lemma project_block:
  assumes "Apply q op = Some (Done q')" and "Blocks p = Blocks q"
  shows "\<exists>p'. project p (payload_of (BlockOp op)) = Some (Done p') \<and> Blocks p' = Blocks q'"
proof (cases "\<exists>i t1 t2. op = SetTitle i t1 t2")
  case True
  then show ?thesis using assms
    by (auto simp: payload_of_def project_def project_block_op_def apply_set_title_def split: if_splits)
next
  case False
  have "p\<lparr>Blocks := Blocks q\<rparr> = p" using assms(2) by (simp flip: assms(2))
  then have "Apply p op = Some (Done (p\<lparr>Blocks := Blocks q'\<rparr>))"
    using Apply_Blocks[OF False, where p = q and p' = p] assms(1) by simp
  then show ?thesis using False by (cases op) (simp_all add: payload_of_def project_def project_block_op_def)
qed

lemma project_text:
  "project p (payload_of (TextOp bid (DeleteText r s))) = Some (Done p)"
  "distinct (map ID (xs @ b # ys)) \<Longrightarrow> Blocks p = xs @ b # ys \<Longrightarrow> ID b = bid \<Longrightarrow>
     project p (payload_of (TextOp bid (InsertText at s))) =
       Some (Done (p\<lparr>Blocks := xs @ b\<lparr>BContent := (BContent b)\<lparr>Text := s\<rparr>\<rparr> # ys\<rparr>))"
proof -
  show "project p (payload_of (TextOp bid (DeleteText r s))) = Some (Done p)"
    by (simp add: payload_of_def project_def project_text_op_def TypeName_def)
  assume a: "distinct (map ID (xs @ b # ys))" "Blocks p = xs @ b # ys" "ID b = bid"
  have "find_index (\<lambda>b. ID b = bid) (xs @ b # ys) = Some (length xs)"
  proof (rule find_index_split)
    show "\<forall>x\<in>set xs. ID x \<noteq> bid" using a(1,3) by auto (metis imageI)
  qed (use a in simp)
  then show "project p (payload_of (TextOp bid (InsertText at s))) =
       Some (Done (p\<lparr>Blocks := xs @ b\<lparr>BContent := (BContent b)\<lparr>Text := s\<rparr>\<rparr> # ys\<rparr>))"
    using a(2) by (simp add: payload_of_def project_def project_text_op_def TypeName_def)
qed

subsection \<open>What the clients send\<close>

text \<open>The web client changes a block's text by deleting the text it last saw there (if it knows the
  range) and inserting the new one at the start.\<close>

datatype client_edit = Structural Op | Retype uuid "AnchorRange option" string

fun clear_ops :: "uuid \<Rightarrow> AnchorRange option \<Rightarrow> page_op list" where
  "clear_ops bid None = []"
| "clear_ops bid (Some r) = [TextOp bid (DeleteText r [])]"

fun edit_ops :: "client_edit \<Rightarrow> page_op list" where
  "edit_ops (Structural op) = [BlockOp op]"
| "edit_ops (Retype bid r s) = clear_ops bid r @ [TextOp bid (InsertText None s)]"

definition live_text :: "LiveDoc \<Rightarrow> uuid \<Rightarrow> string" where
  "live_text d bid = (case dBlocks d bid of None \<Rightarrow> [] | Some t \<Rightarrow> Text_String t)"

text \<open>An operation that succeeds on the live document, with what it leaves.\<close>

definition live_step :: "string \<Rightarrow> LiveDoc \<Rightarrow> page_op \<Rightarrow> LiveDoc option" where
  "live_step actor d op = (case applyReplayedOp actor d op of Some (Inr u, d') \<Rightarrow> Some d' | _ \<Rightarrow> None)"

fun live_steps :: "string \<Rightarrow> LiveDoc \<Rightarrow> page_op list \<Rightarrow> LiveDoc option" where
  "live_steps actor d [] = Some d"
| "live_steps actor d (op # ops) = (case live_step actor d op of None \<Rightarrow> None | Some d1 \<Rightarrow> live_steps actor d1 ops)"

text \<open>A stream of edits that all succeed, in which every text insertion comes to an empty text,
  and whose blocks are not taken by another page.\<close>

fun edits_ok :: "string \<Rightarrow> uuid \<Rightarrow> blocks_db \<Rightarrow> LiveDoc \<Rightarrow> client_edit list \<Rightarrow> bool" where
  "edits_ok actor pid db d [] = can_hold pid (Blocks (dPage d)) db"
| "edits_ok actor pid db d (Structural op # es) = (can_hold pid (Blocks (dPage d)) db \<and> op_fits d (BlockOp op) \<and>
     (case live_step actor d (BlockOp op) of None \<Rightarrow> False | Some d1 \<Rightarrow> edits_ok actor pid db d1 es))"
| "edits_ok actor pid db d (Retype bid r s # es) = (can_hold pid (Blocks (dPage d)) db \<and> s \<noteq> [] \<and>
     list_all (op_fits d) (clear_ops bid r) \<and>
     (case live_steps actor d (clear_ops bid r) of None \<Rightarrow> False
      | Some d1 \<Rightarrow> live_text d1 bid = [] \<and> op_fits d1 (TextOp bid (InsertText None s)) \<and>
          (case live_step actor d1 (TextOp bid (InsertText None s)) of None \<Rightarrow> False
           | Some d2 \<Rightarrow> edits_ok actor pid db d2 es)))"

lemma live_text_step:
  assumes ok: "ok_doc d" and fit: "op_fits d (TextOp bid op)" and s: "live_step actor d (TextOp bid op) = Some d'"
  obtains xs b ys where "Blocks (dPage d) = xs @ b # ys" "ID b = bid" "ok_doc d'"
    "Blocks (dPage d') = xs @ b\<lparr>BContent := (BContent b)\<lparr>Text := live_text d' bid\<rparr>\<rparr> # ys"
proof -
  obtain undo where u: "applyTextOp d bid op = (Inr undo, d')"
    using s by (auto simp: live_step_def Let_def split: prod.splits sum.splits) (metis Inr_not_Inl map_sum.simps sumE)
  obtain undo' d'' xs b ys t' where a: "ok_doc d'" "Blocks (dPage d) = xs @ b # ys" "ID b = bid"
    "dPage d' = (dPage d)\<lparr>Blocks := xs @ b\<lparr>BContent := (BContent b)\<lparr>Text := Text_String t'\<rparr>\<rparr> # ys\<rparr>"
    using applyTextOp_ok[OF ok fit u] by metis
  let ?b = "b\<lparr>BContent := (BContent b)\<lparr>Text := Text_String t'\<rparr>\<rparr>"
  have "live_block (dBlocks d') ?b" using a(1,4) by (auto simp: ok_doc_def)
  then have "live_text d' bid = Text_String t'" using a(3) by (auto simp: live_block_def live_text_def)
  then show ?thesis using that[OF a(2,3,1)] a(4) by simp
qed

lemma insert_into_empty:
  assumes ok: "ok_doc d" and fit: "op_fits d (TextOp bid (InsertText None s))" and e: "live_text d bid = []"
    and s: "s \<noteq> []" and st: "live_step actor d (TextOp bid (InsertText None s)) = Some d'"
  shows "live_text d' bid = s"
proof -
  obtain t where t: "dBlocks d bid = Some t"
    using st by (cases "dBlocks d bid") (auto simp: live_step_def applyTextOp_def)
  have okt: "ok_text t" using ok_doc_block[OF ok t] by metis
  have v: "valid_utf8 s" "room t (rune_count s)" using fit t by (auto simp: room_def)
  have et: "Text_String t = []" using e t by (simp add: live_text_def)
  obtain ids t' A B where i: "Text_InsertAt t (int 0) s = (Inr ids, t')" "Text_String t = A @ B" "Text_String t' = A @ s @ B"
    "ids \<noteq> []"
    using text_insert[OF okt v(1) s le0 v(2)] by metis
  have "ops_Apply t (InsertText None s) = (Inr (DeleteText \<lparr>RStart = \<lparr>Item = hd ids, ABias = Before\<rparr>,
                     REnd = \<lparr>Item = last ids, ABias = After\<rparr>\<rparr> s), t')"
    using i(1,4) by (simp add: applyInsertText_def resolveInsertPosition_def)
  then have "dBlocks d' bid = Some t'"
    using st t by (auto simp: live_step_def applyTextOp_def)
  then show ?thesis using i(2,3) et by (simp add: live_text_def)
qed

subsection \<open>A stream of events\<close>

text \<open>The events of one page as they come, each with the fate of its transaction.\<close>

fun deliver :: "(string \<Rightarrow> string) \<Rightarrow> uuid \<Rightarrow> (db_call \<times> page_op) list \<Rightarrow> Projector \<Rightarrow> Projector option" where
  "deliver lower pid [] pr = Some pr"
| "deliver lower pid ((c, op) # evs) pr = (case HandleEvent lower True c pid (payload_of op) pr of
     None \<Rightarrow> None | Some r \<Rightarrow> deliver lower pid evs (state_of r))"

text \<open>The projector holds the page \<open>bs\<close>; its tables are sound, and apart from the page's own rows
  they are those of \<open>db\<close>.\<close>

definition holds :: "uuid \<Rightarrow> blocks_db \<Rightarrow> Block list \<Rightarrow> Projector \<Rightarrow> bool" where
  "holds pid db bs pr \<longleftrightarrow> Blocks (current pid pr) = bs \<and> block_tables_ok (pr_db pr) \<and>
     docs_pages (pr_db pr) = docs_pages db \<and>
     filter (\<lambda>r. b_Page r \<noteq> pid) (block_rows (pr_db pr)) = filter (\<lambda>r. b_Page r \<noteq> pid) (block_rows db) \<and>
     filter (\<lambda>k. k_FromPage k \<noteq> pid) (link_rows (pr_db pr)) = filter (\<lambda>k. k_FromPage k \<noteq> pid) (link_rows db)"

lemma can_hold_cong:
  assumes "docs_pages db' = docs_pages db"
    and "filter (\<lambda>r. b_Page r \<noteq> pid) (block_rows db') = filter (\<lambda>r. b_Page r \<noteq> pid) (block_rows db)"
  shows "can_hold pid bs db' = can_hold pid bs db"
proof -
  have e: "list_all (\<lambda>r. b_Page r \<noteq> pid \<longrightarrow> b_ID r \<notin> ID ` set bs) rows \<longleftrightarrow>
    list_all (\<lambda>r. b_ID r \<notin> ID ` set bs) (filter (\<lambda>r. b_Page r \<noteq> pid) rows)" for rows
    by (auto simp: list_all_iff)
  show ?thesis unfolding can_hold_def e using assms by simp
qed

lemma rewritten_others:
  "docs_pages (rewritten lower pid bs db) = docs_pages db"
  "filter (\<lambda>r. b_Page r \<noteq> pid) (block_rows (rewritten lower pid bs db)) = filter (\<lambda>r. b_Page r \<noteq> pid) (block_rows db)"
  "filter (\<lambda>k. k_FromPage k \<noteq> pid) (link_rows (rewritten lower pid bs db)) = filter (\<lambda>k. k_FromPage k \<noteq> pid) (link_rows db)"
proof -
  have "filter (\<lambda>r. b_Page r \<noteq> pid) (block_params pid Map.empty 0 bs) = []"
    using block_params_fields(3)[of pid Map.empty 0 bs] by (auto simp: filter_empty_conv list_all_iff)
  then show "docs_pages (rewritten lower pid bs db) = docs_pages db"
    "filter (\<lambda>r. b_Page r \<noteq> pid) (block_rows (rewritten lower pid bs db)) = filter (\<lambda>r. b_Page r \<noteq> pid) (block_rows db)"
    "filter (\<lambda>k. k_FromPage k \<noteq> pid) (link_rows (rewritten lower pid bs db)) = filter (\<lambda>k. k_FromPage k \<noteq> pid) (link_rows db)"
    by (simp_all add: rewritten_def filter_empty_conv link_row_of_def)
qed

lemma event_holds:
  assumes h: "holds pid db bs pr" and p: "project (current pid pr) (payload_of op) = Some (Done p)"
    and wf: "wf_page p" and c: "can_hold pid (Blocks p) db"
  shows "\<exists>r. HandleEvent lower True c1 pid (payload_of op) pr = Some r \<and> holds pid db (Blocks p) (state_of r) \<and>
    (c1 = Served \<longrightarrow> is_done r \<and> (\<exists>db0. pr_db (state_of r) = rewritten lower pid (Blocks p) db0))"
proof -
  have t: "block_tables_ok (pr_db pr)" and eqs: "docs_pages (pr_db pr) = docs_pages db"
    "filter (\<lambda>r. b_Page r \<noteq> pid) (block_rows (pr_db pr)) = filter (\<lambda>r. b_Page r \<noteq> pid) (block_rows db)"
    "filter (\<lambda>k. k_FromPage k \<noteq> pid) (link_rows (pr_db pr)) = filter (\<lambda>k. k_FromPage k \<noteq> pid) (link_rows db)"
    using h by (auto simp: holds_def)
  have c': "can_hold pid (Blocks p) (pr_db pr)" using c can_hold_cong[OF eqs(1,2)] by simp
  obtain r where r: "HandleEvent lower True c1 pid (payload_of op) pr = Some r" "c1 = Served \<longrightarrow> is_done r"
    "state_of r = pr\<lparr>pr_pages := (pr_pages pr)(pid \<mapsto> p), pr_db := after_call c1 lower pid (Blocks p) (pr_db pr)\<rparr>"
    using HandleEvent_Done[OF p t wf c'] by metis
  have "block_tables_ok (rewritten lower pid (Blocks p) (pr_db pr))"
    using rewritten_ok[OF t _ _ c'] wf by (simp add: wf_page_def wf_blocks_def)
  then have "holds pid db (Blocks p) (state_of r)"
    using eqs t r(3) by (cases c1) (simp_all add: holds_def current_def after_call_def rewritten_others)
  then show ?thesis using r by (auto simp: after_call_def)
qed

definition stored :: "(string \<Rightarrow> string) \<Rightarrow> uuid \<Rightarrow> Block list \<Rightarrow> Projector \<Rightarrow> bool" where
  "stored lower pid bs pr \<longleftrightarrow> (\<exists>db0. pr_db pr = rewritten lower pid bs db0)"

lemma edits_ok_hold: "edits_ok actor pid db d es \<Longrightarrow> can_hold pid (Blocks (dPage d)) db"
  by (cases "(actor, pid, db, d, es)" rule: edits_ok.cases) auto

lemma deliver_append: "deliver lower pid (xs @ ys) pr = Option.bind (deliver lower pid xs pr) (deliver lower pid ys)"
  by (induction lower pid xs pr rule: deliver.induct) (auto split: option.split)

lemma live_steps_append: "live_steps actor d (xs @ ys) = Option.bind (live_steps actor d xs) (\<lambda>d1. live_steps actor d1 ys)"
  by (induction actor d xs rule: live_steps.induct) (auto split: option.split)

lemma structural_event:
  assumes ok: "ok_doc d" and h: "holds pid db (Blocks (dPage d)) pr" and fit: "op_fits d (BlockOp op)"
    and s: "live_step actor d (BlockOp op) = Some d'" and c: "can_hold pid (Blocks (dPage d')) db"
  shows "\<exists>r. HandleEvent lower True c1 pid (payload_of (BlockOp op)) pr = Some r \<and> ok_doc d' \<and>
    holds pid db (Blocks (dPage d')) (state_of r) \<and> (c1 = Served \<longrightarrow> stored lower pid (Blocks (dPage d')) (state_of r))"
proof -
  have b: "applyBlockOp actor d op = Some (Done d')"
    using s by (auto simp: live_step_def split: option.splits outcome.splits)
  note a = applyBlockOp_ok[OF ok fit b]
  obtain p where p: "project (current pid pr) (payload_of (BlockOp op)) = Some (Done p)" "Blocks p = Blocks (dPage d')"
    using project_block[OF a(2), of "current pid pr"] h by (auto simp: holds_def)
  have "wf_page p" using a(1) p(2) by (simp add: ok_doc_def wf_page_def)
  from event_holds[OF h p(1) this, where lower = lower and ?c1.0 = c1]
  show ?thesis using c p(2) a(1) unfolding stored_def by auto
qed

lemma clear_event:
  assumes h: "holds pid db bs pr" and wf: "wf_blocks bs" and c: "can_hold pid bs db"
  shows "\<exists>r. HandleEvent lower True c1 pid (payload_of (TextOp bid (DeleteText rg t))) pr = Some r \<and>
    holds pid db bs (state_of r)"
proof -
  have b: "Blocks (current pid pr) = bs" using h by (simp add: holds_def)
  then have "wf_page (current pid pr)" using wf by (simp add: wf_page_def)
  from event_holds[OF h project_text(1)[of "current pid pr" bid rg t] this, where lower = lower and ?c1.0 = c1]
  show ?thesis using c b by auto
qed

lemma fill_event:
  assumes h: "holds pid db (xs @ b # ys) pr" and wf: "wf_blocks (xs @ b\<lparr>BContent := (BContent b)\<lparr>Text := s\<rparr>\<rparr> # ys)"
    and c: "can_hold pid (xs @ b\<lparr>BContent := (BContent b)\<lparr>Text := s\<rparr>\<rparr> # ys) db" and i: "ID b = bid"
  shows "\<exists>r. HandleEvent lower True c1 pid (payload_of (TextOp bid (InsertText at s))) pr = Some r \<and>
    holds pid db (xs @ b\<lparr>BContent := (BContent b)\<lparr>Text := s\<rparr>\<rparr> # ys) (state_of r) \<and>
    (c1 = Served \<longrightarrow> stored lower pid (xs @ b\<lparr>BContent := (BContent b)\<lparr>Text := s\<rparr>\<rparr> # ys) (state_of r))"
proof -
  let ?bs = "xs @ b\<lparr>BContent := (BContent b)\<lparr>Text := s\<rparr>\<rparr> # ys"
  have b: "Blocks (current pid pr) = xs @ b # ys" using h by (simp add: holds_def)
  have d: "distinct (map ID (xs @ b # ys))" using wf_blocksD(1)[OF wf] by simp
  have "wf_page ((current pid pr)\<lparr>Blocks := ?bs\<rparr>)" using wf by (simp add: wf_page_def)
  from event_holds[OF h project_text(2)[OF d b i, of at s] this, where lower = lower and ?c1.0 = c1]
  show ?thesis using c unfolding stored_def by auto
qed

lemma split_at_key:
  assumes "distinct (map f (us @ a # vs))" and "us @ a # vs = xs @ b # ys" and "f a = f b"
  shows "us = xs \<and> a = b \<and> vs = ys"
  using assms
proof (induction us arbitrary: xs)
  case Nil
  then show ?case by (cases xs) auto
next
  case (Cons u us)
  then obtain zs where z: "xs = u # zs" "us @ a # vs = zs @ b # ys" by (cases xs) auto
  have "distinct (map f (us @ a # vs))" using Cons.prems(1) by simp
  from Cons.IH[OF this z(2) Cons.prems(3)] show ?case using z(1) by simp
qed

lemma edit_event:
  assumes ok: "ok_doc d" and h: "holds pid db (Blocks (dPage d)) pr" and e: "edits_ok actor pid db d (e # es)"
    and evs: "map snd evs = edit_ops e"
  shows "\<exists>pr' d'. deliver lower pid evs pr = Some pr' \<and> live_steps actor d (edit_ops e) = Some d' \<and> ok_doc d' \<and>
    edits_ok actor pid db d' es \<and> holds pid db (Blocks (dPage d')) pr' \<and>
    (fst (last evs) = Served \<longrightarrow> stored lower pid (Blocks (dPage d')) pr')"
proof (cases e)
  case (Structural op)
  then obtain c1 where ev: "evs = [(c1, BlockOp op)]" using evs by auto
  obtain d1 where d1: "live_step actor d (BlockOp op) = Some d1" "edits_ok actor pid db d1 es" "op_fits d (BlockOp op)"
    using e Structural by (auto split: option.splits)
  from structural_event[OF ok h d1(3,1) edits_ok_hold[OF d1(2)], of lower c1]
  obtain r where r: "HandleEvent lower True c1 pid (payload_of (BlockOp op)) pr = Some r" "ok_doc d1"
    "holds pid db (Blocks (dPage d1)) (state_of r)" "c1 = Served \<longrightarrow> stored lower pid (Blocks (dPage d1)) (state_of r)"
    by blast
  show ?thesis using r ev d1 Structural by simp
next
  case (Retype bid rg s)
  have hd: "can_hold pid (Blocks (dPage d)) db" using edits_ok_hold[OF e] .
  obtain d1 d2 where d1: "live_steps actor d (clear_ops bid rg) = Some d1" "live_text d1 bid = []"
      "op_fits d1 (TextOp bid (InsertText None s))"
    and d2: "live_step actor d1 (TextOp bid (InsertText None s)) = Some d2" "edits_ok actor pid db d2 es" "s \<noteq> []"
      "list_all (op_fits d) (clear_ops bid rg)"
    using e Retype by (auto split: option.splits)
  have wf: "wf_blocks (Blocks (dPage d))" using ok by (simp add: ok_doc_def wf_page_def)
  text \<open>After the deletion, if there is one, the live document differs from the projection in the
    text of this block only.\<close>
  obtain evs1 c2 pr1 xs b ys t where f: "evs = evs1 @ [(c2, TextOp bid (InsertText None s))]"
      "deliver lower pid evs1 pr = Some pr1" "holds pid db (xs @ b # ys) pr1" "Blocks (dPage d) = xs @ b # ys" "ID b = bid"
      "ok_doc d1" "Blocks (dPage d1) = xs @ b\<lparr>BContent := (BContent b)\<lparr>Text := t\<rparr>\<rparr> # ys"
  proof (cases rg)
    case None
    then obtain c2 where ev: "evs = [(c2, TextOp bid (InsertText None s))]" using evs Retype by auto
    have "d1 = d" using d1(1) None by simp
    obtain xs b ys where "Blocks (dPage d) = xs @ b # ys" "ID b = bid"
      using live_text_step[OF ok _ d2(1)[unfolded \<open>d1 = d\<close>]] d1(3) \<open>d1 = d\<close> by metis
    then show thesis using that[of "[]" c2 pr xs b ys "Text (BContent b)"] ev h ok \<open>d1 = d\<close> by simp
  next
    case (Some r)
    then obtain c1 c2 where ev: "evs = [(c1, TextOp bid (DeleteText r [])), (c2, TextOp bid (InsertText None s))]"
      using evs Retype by auto
    have st: "live_step actor d (TextOp bid (DeleteText r [])) = Some d1" and ft: "op_fits d (TextOp bid (DeleteText r []))"
      using d1(1) d2(4) Some by (auto split: option.splits)
    obtain xs b ys where x: "Blocks (dPage d) = xs @ b # ys" "ID b = bid" "ok_doc d1"
      "Blocks (dPage d1) = xs @ b\<lparr>BContent := (BContent b)\<lparr>Text := live_text d1 bid\<rparr>\<rparr> # ys"
      using live_text_step[OF ok ft st] by metis
    obtain r1 where "HandleEvent lower True c1 pid (payload_of (TextOp bid (DeleteText r []))) pr = Some r1"
      "holds pid db (Blocks (dPage d)) (state_of r1)"
      using clear_event[OF h wf hd] by blast
    then show thesis using that[of "[(c1, TextOp bid (DeleteText r []))]" c2 "state_of r1" xs b ys] ev x by simp
  qed
  obtain us b' vs where g: "Blocks (dPage d1) = us @ b' # vs" "ID b' = bid" "ok_doc d2"
    "Blocks (dPage d2) = us @ b'\<lparr>BContent := (BContent b')\<lparr>Text := live_text d2 bid\<rparr>\<rparr> # vs"
    using live_text_step[OF f(6) d1(3) d2(1)] by metis
  have lt: "live_text d2 bid = s" using insert_into_empty[OF f(6) d1(3,2) d2(3,1)] .
  have dist: "distinct (map ID (us @ b' # vs))"
    using f(6) g(1) by (simp add: ok_doc_def wf_page_def wf_blocks_def)
  have "us = xs \<and> b' = b\<lparr>BContent := (BContent b)\<lparr>Text := t\<rparr>\<rparr> \<and> vs = ys"
  proof -
    have eq: "us @ b' # vs = xs @ b\<lparr>BContent := (BContent b)\<lparr>Text := t\<rparr>\<rparr> # ys" using f(7) g(1) by simp
    show ?thesis by (rule split_at_key[OF dist eq]) (use g(2) f(5) in simp)
  qed
  then have bs2: "Blocks (dPage d2) = xs @ b\<lparr>BContent := (BContent b)\<lparr>Text := s\<rparr>\<rparr> # ys" using g(4) lt by simp
  have wf2: "wf_blocks (Blocks (dPage d2))" using g(3) by (simp add: ok_doc_def wf_page_def)
  obtain r2 where r2: "HandleEvent lower True c2 pid (payload_of (TextOp bid (InsertText None s))) pr1 = Some r2"
    "holds pid db (Blocks (dPage d2)) (state_of r2)" "c2 = Served \<longrightarrow> stored lower pid (Blocks (dPage d2)) (state_of r2)"
    using fill_event[OF f(3) wf2[unfolded bs2] edits_ok_hold[OF d2(2), unfolded bs2] f(5), of lower c2 None] bs2 by auto
  have "live_steps actor d (edit_ops e) = Some d2" using d1(1) d2(1) Retype by (simp add: live_steps_append)
  then show ?thesis using r2 f(1,2) d2(2) g(3) by (simp add: deliver_append)
qed

lemma edits_events:
  assumes "ok_doc d" and "holds pid db (Blocks (dPage d)) pr" and "edits_ok actor pid db d es"
    and "map snd evs = concat (map edit_ops es)"
  shows "\<exists>pr' d'. deliver lower pid evs pr = Some pr' \<and> live_steps actor d (map snd evs) = Some d' \<and> ok_doc d' \<and>
    holds pid db (Blocks (dPage d')) pr' \<and>
    (evs \<noteq> [] \<and> fst (last evs) = Served \<longrightarrow> stored lower pid (Blocks (dPage d')) pr')"
  using assms
proof (induction es arbitrary: d pr evs)
  case (Cons e es)
  obtain ev1 ev2 where ev: "evs = ev1 @ ev2" "map snd ev1 = edit_ops e" "map snd ev2 = concat (map edit_ops es)"
    using Cons.prems(4) by (auto simp: map_eq_append_conv)
  obtain pr1 d1 where a: "deliver lower pid ev1 pr = Some pr1" "live_steps actor d (edit_ops e) = Some d1" "ok_doc d1"
    "edits_ok actor pid db d1 es" "holds pid db (Blocks (dPage d1)) pr1"
    "fst (last ev1) = Served \<longrightarrow> stored lower pid (Blocks (dPage d1)) pr1"
    using edit_event[OF Cons.prems(1-3) ev(2)] by blast
  obtain pr2 d2 where b: "deliver lower pid ev2 pr1 = Some pr2" "live_steps actor d1 (map snd ev2) = Some d2" "ok_doc d2"
    "holds pid db (Blocks (dPage d2)) pr2"
    "ev2 \<noteq> [] \<and> fst (last ev2) = Served \<longrightarrow> stored lower pid (Blocks (dPage d2)) pr2"
    using Cons.IH[OF a(3,5,4) ev(3)] by blast
  have "evs \<noteq> [] \<and> fst (last evs) = Served \<longrightarrow> stored lower pid (Blocks (dPage d2)) pr2"
  proof (cases "ev2 = []")
    case True
    then show ?thesis using a(6) b(1,2) ev(1) by simp
  qed (use b(5) ev(1) in simp)
  then show ?case using a b ev by (simp add: deliver_append live_steps_append)
qed simp

subsection \<open>Properties\<close>

text \<open>C13: the projection follows the live page. Take a page whose blocks the projector holds (in its
  map, or read from its tables) and a stream of edits that each succeed on the live document -
  structural operations of any kind, and texts replaced as the clients do it. Deliver their
  operations in order, whatever the database does to each rewrite: the projector returns every
  time and in the end holds the blocks of the live page, with every other page's rows and links
  untouched. If the last rewrite is served, the tables hold the page: a restarted projector
  reads back the same blocks, and the page's links are exactly the bracketed titles of its
  texts.\<close>

theorem projection_follows:
  assumes "ok_doc d" and "edits_ok actor pid (pr_db pr) d es" and "block_tables_ok (pr_db pr)"
    and "Blocks (current pid pr) = Blocks (dPage d)" and "map snd evs = concat (map edit_ops es)"
  shows "\<exists>pr' d'. deliver lower pid evs pr = Some pr' \<and> live_steps actor d (map snd evs) = Some d' \<and>
    Blocks (current pid pr') = Blocks (dPage d') \<and>
    filter (\<lambda>r. b_Page r \<noteq> pid) (block_rows (pr_db pr')) = filter (\<lambda>r. b_Page r \<noteq> pid) (block_rows (pr_db pr)) \<and>
    filter (\<lambda>k. k_FromPage k \<noteq> pid) (link_rows (pr_db pr')) = filter (\<lambda>k. k_FromPage k \<noteq> pid) (link_rows (pr_db pr)) \<and>
    (evs \<noteq> [] \<and> fst (last evs) = Served \<and> length (Blocks (dPage d')) \<le> 2 ^ 31 \<longrightarrow>
       Blocks (current pid (New_projector (pr_db pr'))) = Blocks (dPage d') \<and>
       {(k_FromBlock k, k_TargetTitle k) |k. k \<in> set (link_rows (pr_db pr')) \<and> k_FromPage k = pid} =
         {(ID b, t) |b t. b \<in> set (Blocks (dPage d')) \<and> linked (Text (BContent b)) t})"
proof -
  have "holds pid (pr_db pr) (Blocks (dPage d)) pr" using assms(3,4) by (simp add: holds_def)
  from edits_events[OF assms(1) this assms(2,5), of lower]
  obtain pr' d' where r: "deliver lower pid evs pr = Some pr'" "live_steps actor d (map snd evs) = Some d'" "ok_doc d'"
    "holds pid (pr_db pr) (Blocks (dPage d')) pr'"
    "evs \<noteq> [] \<and> fst (last evs) = Served \<longrightarrow> stored lower pid (Blocks (dPage d')) pr'" by blast
  have "Blocks (current pid (New_projector (pr_db pr'))) = Blocks (dPage d') \<and>
       {(k_FromBlock k, k_TargetTitle k) |k. k \<in> set (link_rows (pr_db pr')) \<and> k_FromPage k = pid} =
         {(ID b, t) |b t. b \<in> set (Blocks (dPage d')) \<and> linked (Text (BContent b)) t}"
    if s: "stored lower pid (Blocks (dPage d')) pr'" and n: "length (Blocks (dPage d')) \<le> 2 ^ 31"
  proof
    obtain db0 where db0: "pr_db pr' = rewritten lower pid (Blocks (dPage d')) db0" using s by (auto simp: stored_def)
    show "Blocks (current pid (New_projector (pr_db pr'))) = Blocks (dPage d')"
      by (simp add: current_def New_projector_def db0 rewritten_load[OF n])
    have "distinct (map ID (Blocks (dPage d')))" using r(3) by (simp add: ok_doc_def wf_page_def wf_blocks_def)
    from link_params_set[OF this, of "[]"]
    have lp: "set (link_params (Blocks (dPage d')) []) = {(ID b, t) |b t. b \<in> set (Blocks (dPage d')) \<and> linked (Text (BContent b)) t}"
      by simp
    have "{(k_FromBlock k, k_TargetTitle k) |k. k \<in> set (link_rows (pr_db pr')) \<and> k_FromPage k = pid} = set (link_params (Blocks (dPage d')) [])"
    proof -
      have "{k \<in> set (link_rows (pr_db pr')). k_FromPage k = pid} = link_row_of lower db0 pid ` set (link_params (Blocks (dPage d')) [])"
        unfolding db0 rewritten_def by (auto simp: link_row_of_def)
      then have "(\<lambda>k. (k_FromBlock k, k_TargetTitle k)) ` {k \<in> set (link_rows (pr_db pr')). k_FromPage k = pid} =
        set (link_params (Blocks (dPage d')) [])" by (simp add: image_image link_row_of_def)
      then show ?thesis by (simp add: image_def conj_ac)
    qed
    then show "{(k_FromBlock k, k_TargetTitle k) |k. k \<in> set (link_rows (pr_db pr')) \<and> k_FromPage k = pid} =
         {(ID b, t) |b t. b \<in> set (Blocks (dPage d')) \<and> linked (Text (BContent b)) t}" using lp by simp
  qed
  then show ?thesis using r by (auto simp: holds_def)
qed

definition empty_docs :: blocks_db where
  "empty_docs = \<lparr>docs_pages = [(7, ''Notes'', False), (8, ''Home'', False)], block_rows = [], link_rows = []\<rparr>"

definition sample_edits :: "client_edit list" where
  "sample_edits = [Structural (InsertBlock 1 None None NewParagraph (PlainContent [])), Retype 1 None ''[[Home]]'']"

text \<open>The first rewrite is refused; the second repairs the tables.\<close>

definition sample_events :: "(db_call \<times> page_op) list" where
  "sample_events = [(Refused 2, BlockOp (InsertBlock 1 None None NewParagraph (PlainContent []))),
     (Served, TextOp 1 (InsertText None ''[[Home]]''))]"

definition first_block :: Block where
  "first_block = \<lparr>ID = 1, Parent = None, BKind = NewParagraph, BContent = PlainContent []\<rparr>"

lemma first_step:
  "live_step ''srv'' (new_doc 7) (BlockOp (InsertBlock 1 None None NewParagraph (PlainContent []))) =
     Some \<lparr>dPage = \<lparr>PID = 7, Title = [], Blocks = [first_block]\<rparr>, dBlocks = [1 \<mapsto> New_text ''srv'']\<rparr>"
  by (simp add: live_step_def applyBlockOp_def seed_for_def seed_text_def PlainContent_def apply_insert_def
      new_doc_def NewPage_def indexOf_def validateParent_def insertIndexAfterInParent_def Let_def store_seed_def first_block_def)

lemma sample_edits_ok: "edits_ok ''srv'' 7 empty_docs (new_doc 7) sample_edits"
proof -
  let ?d = "\<lparr>dPage = \<lparr>PID = 7, Title = [], Blocks = [first_block]\<rparr>, dBlocks = [1 \<mapsto> New_text ''srv'']\<rparr>"
  have f': "op_fits (new_doc 7) (BlockOp (InsertBlock 1 None None NewParagraph (PlainContent [])))"
    by (simp add: PlainContent_def fits_def)
  have "rune_count ''[[Home]]'' = 8" "valid_utf8 ''[[Home]]''" by code_simp+
  moreover have "Text_RuneLen (New_text ''srv'') = 0" by code_simp
  ultimately have r: "op_fits ?d (TextOp 1 (InsertText None ''[[Home]]''))"
    by (simp add: room_def New_text_def NewIDGenerator_def)
  have l: "case live_step ''srv'' ?d (TextOp 1 (InsertText None ''[[Home]]'')) of None \<Rightarrow> False
      | Some d2 \<Rightarrow> can_hold 7 (Blocks (dPage d2)) empty_docs" by code_simp
  have c: "can_hold 7 bs empty_docs" for bs by (simp add: can_hold_def empty_docs_def)
  have "live_text ?d 1 = []" by code_simp
  then show ?thesis
    using f' r l by (simp add: sample_edits_def first_step c del: op_fits.simps split: option.splits)
qed

theorem projection_follows_witness:
  "\<exists>pr'. deliver (\<lambda>t. t) 7 sample_events (New_projector empty_docs) = Some pr' \<and>
     (1, ''Home'') \<in> {(k_FromBlock k, k_TargetTitle k) |k. k \<in> set (link_rows (pr_db pr')) \<and> k_FromPage k = 7}"
proof -
  have db: "pr_db (New_projector empty_docs) = empty_docs" by (simp add: New_projector_def)
  have t: "block_tables_ok empty_docs" by (simp add: block_tables_ok_def empty_docs_def)
  have cur: "Blocks (current 7 (New_projector empty_docs)) = Blocks (dPage (new_doc 7))"
    by (simp add: current_def New_projector_def loadPage_def ListBlocksForPage_def empty_docs_def new_doc_def NewPage_def)
  have evs: "map snd sample_events = concat (map edit_ops sample_edits)"
    by (simp add: sample_events_def sample_edits_def)
  from projection_follows[where pr = "New_projector empty_docs" and lower = "\<lambda>t. t", unfolded db,
      OF ok_new_doc(1) sample_edits_ok t cur evs]
  obtain pr' where pr': "deliver (\<lambda>t. t) 7 sample_events (New_projector empty_docs) = Some pr'" by blast
  have "(1, ''Home'') \<in> (\<lambda>k. (k_FromBlock k, k_TargetTitle k)) `
      set (filter (\<lambda>k. k_FromPage k = 7) (link_rows (pr_db (the (deliver (\<lambda>t. t) 7 sample_events (New_projector empty_docs))))))"
    by code_simp
  then show ?thesis using pr' by (auto intro!: exI[of _ pr'])
qed

text \<open>C0: clearing a block is lost. When the new text is empty the client sends the deletion alone, and
  the projector ignores deletions: here a block is created, filled and cleared, and while the
  live text is empty the tables still hold the old one. It does not recover by the next edit
  either: a content replacement that names the live content is refused by the projector's own
  copy, which keeps the cleared text for good.\<close>

definition cleared_ops :: "page_op list" where
  "cleared_ops = [BlockOp (InsertBlock 1 None None NewParagraph (PlainContent [])), TextOp 1 (InsertText None ''hi''),
     TextOp 1 (DeleteText \<lparr>RStart = \<lparr>Item = \<lparr>Actor = ''srv'', Counter = 1\<rparr>, ABias = Before\<rparr>,
         REnd = \<lparr>Item = \<lparr>Actor = ''srv'', Counter = 2\<rparr>, ABias = After\<rparr>\<rparr> [])]"

definition replaced_ops :: "page_op list" where
  "replaced_ops = cleared_ops @ [BlockOp (SetBlockContent 1 (PlainContent []) (PlainContent ''yo''))]"

definition live_texts :: "page_op list \<Rightarrow> string list option" where
  "live_texts ops = map_option (\<lambda>d. map (\<lambda>b. Text (BContent b)) (Blocks (dPage d))) (live_steps ''srv'' (new_doc 7) ops)"

definition projected_texts :: "page_op list \<Rightarrow> string list option" where
  "projected_texts ops = map_option (\<lambda>pr. map (\<lambda>r. Text (b_Content r)) (ListBlocksForPage 7 (pr_db pr)))
     (deliver (\<lambda>t. t) 7 (map (Pair Served) ops) (New_projector empty_docs))"

theorem cleared_text_stays:
  "live_texts cleared_ops = Some [[]] \<and> projected_texts cleared_ops = Some [''hi''] \<and>
   live_texts replaced_ops = Some [''yo''] \<and> projected_texts replaced_ops = Some [''hi'']"
proof (intro conjI)
  show "live_texts cleared_ops = Some [[]]" by code_simp
  show "projected_texts cleared_ops = Some [''hi'']" by code_simp
  show "live_texts replaced_ops = Some [''yo'']" by code_simp
  show "projected_texts replaced_ops = Some [''hi'']" by code_simp
qed

text \<open>C0: a flush batch in the wrong order loses a block. The outbox rows of one flush share their time,
  and the poller claims rows by time only. Here the last flush inserts a block and moves another
  one after it; the database hands its two rows out in the other order. The stored log replays
  to three blocks; the projector sees the move first, whose target is not there, keeps the page
  the failing move has already cut, and with the next event writes it down: one block is gone
  and an empty one with the zero identity is in its place.\<close>

definition shuffled_ops :: "page_op list" where
  "shuffled_ops = [BlockOp (InsertBlock 1 None None NewParagraph (PlainContent ''a'')),
     BlockOp (InsertBlock 9 None (Some 1) NewParagraph (PlainContent ''b'')),
     BlockOp (InsertBlock 2 None (Some 9) NewParagraph (PlainContent ''c'')),
     BlockOp (MoveBlock 1 None None None (Some 2))]"

definition shuffled_run :: "collab_action list" where
  "shuffled_run = [Flush 1 Served (\<lambda>j. Some (of_nat j + 10)) [sample_op 1 (shuffled_ops ! 0)],
     Flush 2 Served (\<lambda>j. Some (of_nat j + 20)) [sample_op 2 (shuffled_ops ! 1)],
     Flush 3 Served (\<lambda>j. Some (of_nat j + 30)) [sample_op 3 (shuffled_ops ! 2), sample_op 4 (shuffled_ops ! 3)],
     good_poll rev defaultBatchSize 4]"

definition live_ids :: "page_op list \<Rightarrow> uuid list option" where
  "live_ids ops = map_option (\<lambda>d. map ID (Blocks (dPage d))) (live_steps ''srv'' (new_doc 7) ops)"

definition projected_ids :: "wireEvent list \<Rightarrow> uuid list option" where
  "projected_ids bus = map_option (\<lambda>pr. map b_ID (ListBlocksForPage 7 (pr_db pr)))
     (deliver (\<lambda>t. t) 7 (map (\<lambda>m. (Served, we_Payload m)) bus) (New_projector empty_docs))"

theorem shuffled_batch_loses_block:
  "list_all fair_action shuffled_run \<and>
   map lOp (ListForPage 7 (fst (fold collab_act shuffled_run (empty_collab, [])))) = shuffled_ops \<and>
   live_ids shuffled_ops = Some [9, 2, 1] \<and>
   projected_ids (snd (fold collab_act shuffled_run (empty_collab, []))) = Some [9, 2, 0]"
proof (intro conjI)
  show "list_all fair_action shuffled_run" by (simp add: shuffled_run_def fair_action_def permutes_rev)
  show "map lOp (ListForPage 7 (fst (fold collab_act shuffled_run (empty_collab, [])))) = shuffled_ops" by code_simp
  show "live_ids shuffled_ops = Some [9, 2, 1]" by code_simp
  show "projected_ids (snd (fold collab_act shuffled_run (empty_collab, []))) = Some [9, 2, 0]" by code_simp
qed

text \<open>C30: from the flush loop to the tables. The log of one page consists of structural operations and of replacements of a whole
  block by a nonempty text, each valid where it is applied. If its outbox rows have different
  times (one operation to a flush), the polls go through and are enough, and the projector
  starts from the empty page, then what it has written down in the end is what replaying the
  stored log gives.\<close>

theorem flushed_log_projected:
  assumes "store_ok db" and "sorted_wrt (<) (map ev_CreatedAt (events db))" and "unpublished db = events db"
    and "list_all permutes ties" and "length (events db) \<le> length ties * limit"
    and "fold collab_act (map (\<lambda>tie. good_poll tie limit now) ties) (db, []) = (db', bus)"
    and "map lOp (stored_log db) = concat (map edit_ops es)" and "edits_ok actor pid docs (new_doc pid) es"
    and "block_tables_ok docs" and "ListBlocksForPage pid docs = []"
  shows "\<exists>pr d. deliver lower pid (map (\<lambda>m. (Served, we_Payload m)) bus) (New_projector docs) = Some pr \<and>
    live_steps actor (new_doc pid) (map lOp (stored_log db)) = Some d \<and>
    Blocks (current pid pr) = Blocks (dPage d) \<and>
    (stored_log db \<noteq> [] \<and> length (Blocks (dPage d)) \<le> 2 ^ 31 \<longrightarrow>
       Blocks (current pid (New_projector (pr_db pr))) = Blocks (dPage d))"
proof -
  let ?evs = "map (\<lambda>m. (Served, we_Payload m)) bus"
  have "distinct (map ev_ID (unpublished db))" using assms(1,3) by (simp add: store_ok_def)
  from good_polls_in_order[OF assms(4) _ this assms(6)]
  have bus: "bus = map buildEnvelope (events db)" using assms(2,3,5) by simp
  have "map we_Payload bus = map (\<lambda>(p, o1, t). o1) (map event_content (events db))"
    by (simp add: bus buildEnvelope_def event_content_def comp_def)
  also have "\<dots> = map (\<lambda>(p, o1, t). o1) (map row_content (op_rows db))" using assms(1) by (simp only: store_ok_def)
  also have "\<dots> = map lOp (stored_log db)"
    by (simp add: stored_log_def row_content_def comp_def undated_def loggedOpFromRow_def)
  finally have pl: "map snd ?evs = map lOp (stored_log db)" by (simp add: comp_def)
  have db: "pr_db (New_projector docs) = docs" by (simp add: New_projector_def)
  have cur: "Blocks (current pid (New_projector docs)) = Blocks (dPage (new_doc pid))"
    using assms(10) by (simp add: current_def New_projector_def loadPage_def new_doc_def NewPage_def)
  have ne: "?evs \<noteq> [] \<longleftrightarrow> stored_log db \<noteq> []" using pl by (metis list.map_disc_iff)
  have last: "?evs \<noteq> [] \<Longrightarrow> fst (last ?evs) = Served" by (simp add: last_map)
  from projection_follows[where pr = "New_projector docs" and lower = lower, unfolded db,
      OF ok_new_doc(1) assms(8,9) cur, of ?evs]
  show ?thesis using pl assms(7) ne last by auto
qed

definition sample_flushes :: "collab_action list" where
  "sample_flushes = [Flush 1 Served (\<lambda>j. Some 10) [sample_op 1 (BlockOp (InsertBlock 1 None None NewParagraph (PlainContent [])))],
     Flush 2 Served (\<lambda>j. Some 20) [sample_op 2 (TextOp 1 (InsertText None ''[[Home]]''))]]"

theorem flushed_log_projected_witness:
  "\<exists>pr. deliver (\<lambda>t. t) 7 (map (\<lambda>m. (Served, we_Payload m))
      (snd (fold collab_act [good_poll rev 20 5] (fst (fold collab_act sample_flushes (empty_collab, [])), [])))) (New_projector empty_docs) = Some pr"
proof -
  let ?db = "fst (fold collab_act sample_flushes (empty_collab, []))"
  have ok: "store_ok ?db"
    using run_keeps[of sample_flushes, OF _ empty_ok(1,2)]
    by (metis (no_types, lifting) collab_action.simps(5) fair_action_def list.pred_inject(1,2) prod.collapse sample_flushes_def)
  have s: "sorted_wrt (<) (map ev_CreatedAt (events ?db))" by code_simp
  have u: "unpublished ?db = events ?db" by code_simp
  have n: "length (events ?db) \<le> length [rev :: outbox_row list \<Rightarrow> outbox_row list] * 20" by code_simp
  have l: "map lOp (stored_log ?db) = concat (map edit_ops sample_edits)" by code_simp
  have t: "block_tables_ok empty_docs" by (simp add: block_tables_ok_def empty_docs_def)
  have e: "ListBlocksForPage 7 empty_docs = []" by (simp add: ListBlocksForPage_def empty_docs_def)
  have ties: "list_all permutes [rev]" by (simp add: permutes_rev)
  obtain db' bus where b: "fold collab_act (map (\<lambda>tie. good_poll tie 20 5) [rev]) (?db, []) = (db', bus)"
    by (cases "fold collab_act (map (\<lambda>tie. good_poll tie 20 5) [rev]) (?db, [])")
  from flushed_log_projected[OF ok s u ties n b l sample_edits_ok t e, of "\<lambda>t. t"]
  show ?thesis using b by auto
qed

end
