(* ===== verification/Graphs.thy ===== *)
theory Graphs
  imports Prelude
begin

text \<open>
  Module graphalgo, the link graph of pages: adjacency (graph.go), breadth-first search,
  shortest paths, forward reachability and diameter (paths.go), connected components and
  orphans (components.go). A map from node to a slice is a function, a missing entry being the
  empty slice; a map whose membership is tested is a partial function.
\<close>

type_synonym NodeID = string

record Edge =
  eFrom :: NodeID
  eTo :: NodeID

record Graph =
  Nodes :: "NodeID list"
  Edges :: "Edge list"

record adjacency =
  directed :: "NodeID \<Rightarrow> NodeID list"
  undirected :: "NodeID \<Rightarrow> NodeID list"

definition add_edge :: "Edge \<Rightarrow> adjacency \<Rightarrow> adjacency" where
  "add_edge e adj =
     (let und = (undirected adj)(eFrom e := undirected adj (eFrom e) @ [eTo e])
      in \<lparr>directed = (directed adj)(eFrom e := directed adj (eFrom e) @ [eTo e]),
          undirected = und(eTo e := und (eTo e) @ [eFrom e])\<rparr>)"

definition buildAdjacency :: "Graph \<Rightarrow> adjacency" where
  "buildAdjacency g = fold add_edge (Edges g) \<lparr>directed = (\<lambda>_. []), undirected = (\<lambda>_. [])\<rparr>"

lemma fold_add_edge:
  "directed (fold add_edge es adj) n = directed adj n @ map eTo (filter (\<lambda>e. eFrom e = n) es)"
  "set (undirected (fold add_edge es adj) n) = set (undirected adj n) \<union>
     {m. \<exists>e\<in>set es. eFrom e = n \<and> eTo e = m \<or> eTo e = n \<and> eFrom e = m}"
  by (induction es arbitrary: adj) (auto simp: add_edge_def Let_def)

lemma directed_eq: "directed (buildAdjacency g) n = map eTo (filter (\<lambda>e. eFrom e = n) (Edges g))"
  by (simp add: buildAdjacency_def fold_add_edge)

lemma undirected_set:
  "set (undirected (buildAdjacency g) n) =
    {m. \<exists>e\<in>set (Edges g). eFrom e = n \<and> eTo e = m \<or> eTo e = n \<and> eFrom e = m}"
  by (simp add: buildAdjacency_def fold_add_edge)

text \<open>The out-neighbours a search walks along: both directions, or the direction of the link.\<close>

definition neighbours :: "Graph \<Rightarrow> bool \<Rightarrow> NodeID \<Rightarrow> NodeID list" where
  "neighbours g und n = (if und then undirected (buildAdjacency g) n else directed (buildAdjacency g) n)"

definition endpoints :: "Graph \<Rightarrow> NodeID set" where
  "endpoints g = eFrom ` set (Edges g) \<union> eTo ` set (Edges g)"

lemma neighbours_endpoints: "set (neighbours g und n) \<subseteq> endpoints g"
  by (auto simp: neighbours_def directed_eq undirected_set endpoints_def)

lemma finite_endpoints [simp]: "finite (endpoints g)"
  by (simp add: endpoints_def)

subsection \<open>The queue loop\<close>

text \<open>The inner loop over the neighbours of \<open>cur\<close>: an unseen one gets its label and its
  predecessor and joins the queue.\<close>

fun push_unseen :: "(nat \<Rightarrow> nat) \<Rightarrow> NodeID \<Rightarrow> NodeID list \<Rightarrow> (NodeID \<rightharpoonup> nat) \<Rightarrow> (NodeID \<rightharpoonup> NodeID) \<Rightarrow> NodeID list
    \<Rightarrow> (NodeID \<rightharpoonup> nat) \<times> (NodeID \<rightharpoonup> NodeID) \<times> NodeID list" where
  "push_unseen lab cur [] dist prev queue = (dist, prev, queue)"
| "push_unseen lab cur (nb # nbs) dist prev queue =
     (if dist nb = None
      then push_unseen lab cur nbs (dist(nb \<mapsto> lab (case dist cur of Some d \<Rightarrow> d | None \<Rightarrow> 0)))
        (prev(nb \<mapsto> cur)) (queue @ [nb])
      else push_unseen lab cur nbs dist prev queue)"

lemma push_unseen_spec:
  assumes "push_unseen lab cur nbs dist prev queue = (dist', prev', queue')" and "dist cur \<noteq> None"
  shows "\<exists>new. queue' = queue @ new \<and> set new = {n \<in> set nbs. dist n = None} \<and> distinct new \<and>
    dist' = (\<lambda>n. if n \<in> set new then Some (lab (the (dist cur))) else dist n) \<and>
    prev' = (\<lambda>n. if n \<in> set new then Some cur else prev n)"
  using assms
proof (induction nbs arbitrary: dist prev queue)
  case (Cons nb nbs)
  show ?case
  proof (cases "dist nb = None")
    case True
    let ?d = "dist(nb \<mapsto> lab (the (dist cur)))"
    have ne: "nb \<noteq> cur" using True Cons.prems(2) by auto
    have st: "push_unseen lab cur nbs ?d (prev(nb \<mapsto> cur)) (queue @ [nb]) = (dist', prev', queue')"
      using Cons.prems True by (auto split: option.splits)
    have "?d cur \<noteq> None" using Cons.prems(2) by simp
    from Cons.IH[OF st this] obtain new where n: "queue' = (queue @ [nb]) @ new"
      "set new = {n \<in> set nbs. ?d n = None}" "distinct new"
      "dist' = (\<lambda>n. if n \<in> set new then Some (lab (the (?d cur))) else ?d n)"
      "prev' = (\<lambda>n. if n \<in> set new then Some cur else (prev(nb \<mapsto> cur)) n)" by blast
    have "nb \<notin> set new" using n(2) by simp
    then show ?thesis
      using n ne True by (intro exI[of _ "nb # new"]) (auto simp: fun_eq_iff)
  next
    case False
    then obtain y where y: "dist nb = Some y" by auto
    then have "push_unseen lab cur nbs dist prev queue = (dist', prev', queue')" using Cons.prems(1) by simp
    from Cons.IH[OF this Cons.prems(2)] have "\<exists>new. queue' = queue @ new \<and> set new = {n \<in> set nbs. dist n = None} \<and> distinct new \<and>
      dist' = (\<lambda>n. if n \<in> set new then Some (lab (the (dist cur))) else dist n) \<and>
      prev' = (\<lambda>n. if n \<in> set new then Some cur else prev n)" .
    moreover have "{n \<in> set (nb # nbs). dist n = None} = {n \<in> set nbs. dist n = None}" using y by auto
    ultimately show ?thesis by simp
  qed
qed auto

text \<open>Each round removes one element from the queue and adds only nodes that become seen.\<close>

lemma push_unseen_shrinks:
  assumes "push_unseen lab cur nbs dist prev queue = (dist', prev', queue')" and "set nbs \<subseteq> endpoints g"
  shows "2 * card (endpoints g - dom dist') + length queue' \<le> 2 * card (endpoints g - dom dist) + length queue"
  using assms
proof (induction nbs arbitrary: dist prev queue)
  case (Cons nb nbs)
  show ?case
  proof (cases "dist nb = None")
    case True
    obtain d where d: "d = dist(nb \<mapsto> lab (case dist cur of Some d \<Rightarrow> d | None \<Rightarrow> 0))" by simp
    have "endpoints g - dom d = (endpoints g - dom dist) - {nb}" "nb \<in> endpoints g - dom dist"
      using Cons.prems(2) True d by auto
    then have "card (endpoints g - dom dist) = Suc (card (endpoints g - dom d))"
      by (metis card.remove finite_Diff finite_endpoints)
    moreover have "2 * card (endpoints g - dom dist') + length queue'
        \<le> 2 * card (endpoints g - dom d) + length (queue @ [nb])"
    proof -
      have "push_unseen lab cur nbs d (prev(nb \<mapsto> cur)) (queue @ [nb]) = (dist', prev', queue')"
        using Cons.prems(1) True d by simp
      then show ?thesis by (rule Cons.IH) (use Cons.prems(2) in simp)
    qed
    ultimately show ?thesis by simp
  next
    case False
    then show ?thesis using Cons by auto
  qed
qed simp

function search_loop :: "Graph \<Rightarrow> bool \<Rightarrow> (nat \<Rightarrow> nat) \<Rightarrow> (NodeID \<rightharpoonup> nat) \<Rightarrow> (NodeID \<rightharpoonup> NodeID) \<Rightarrow> NodeID list
    \<Rightarrow> (NodeID \<rightharpoonup> nat) \<times> (NodeID \<rightharpoonup> NodeID)" where
  "search_loop g und lab dist prev [] = (dist, prev)"
| "search_loop g und lab dist prev (cur # queue) =
     (case push_unseen lab cur (neighbours g und cur) dist prev queue of
        (dist', prev', queue') \<Rightarrow> search_loop g und lab dist' prev' queue')"
  by pat_completeness auto
termination
proof (relation "measure (\<lambda>(g, und, lab, dist, prev, queue). 2 * card (endpoints g - dom dist) + length queue)", goal_cases)
  case (2 g und lab dist prev cur queue dist' r prev' queue')
  then have "push_unseen lab cur (neighbours g und cur) dist prev queue = (dist', prev', queue')" by simp
  from push_unseen_shrinks[OF this neighbours_endpoints] show ?case by simp
qed simp

subsection \<open>The functions of paths.go and components.go\<close>

definition BFS :: "Graph \<Rightarrow> NodeID \<Rightarrow> (NodeID \<rightharpoonup> nat) \<times> (NodeID \<rightharpoonup> NodeID)" where
  "BFS g source = search_loop g True Suc [source \<mapsto> 0] Map.empty [source]"

definition ForwardReachable :: "Graph \<Rightarrow> NodeID \<Rightarrow> (NodeID \<rightharpoonup> nat)" where
  "ForwardReachable g source = fst (search_loop g False Suc [source \<mapsto> 0] Map.empty [source])"

text \<open>The loop of ShortestPath follows predecessors; \<open>None\<close> if it does not return.\<close>

partial_function (option) back_path :: "(NodeID \<rightharpoonup> NodeID) \<Rightarrow> NodeID \<Rightarrow> NodeID list \<Rightarrow> NodeID list option" where
  "back_path prev source path =
     (if last path = source then Some path
      else (case prev (last path) of
        None \<Rightarrow> Some path
      | Some p \<Rightarrow> back_path prev source (path @ [p])))"

definition ShortestPath :: "(NodeID \<rightharpoonup> nat) \<Rightarrow> (NodeID \<rightharpoonup> NodeID) \<Rightarrow> NodeID \<Rightarrow> NodeID
    \<Rightarrow> (NodeID list \<times> bool) option" where
  "ShortestPath dist prev source target =
     (if dist target = None then Some ([], False)
      else map_option (\<lambda>path. (rev path, True)) (back_path prev source [target]))"

text \<open>A \<open>range\<close> over a map visits its keys in some order; the result here does not depend on the
  order. The keys of \<open>dist\<close> are the source and endpoints of links.\<close>

definition range_keys :: "Graph \<Rightarrow> NodeID \<Rightarrow> NodeID list" where
  "range_keys g source = source # map eFrom (Edges g) @ map eTo (Edges g)"

definition Diameter :: "Graph \<Rightarrow> nat" where
  "Diameter g = fold (\<lambda>n mx. let dist = fst (BFS g n) in
     fold (\<lambda>k mx. case dist k of Some d \<Rightarrow> if d > mx then d else mx | None \<Rightarrow> mx) (range_keys g n) mx) (Nodes g) 0"

definition floodFill :: "Graph \<Rightarrow> NodeID \<Rightarrow> nat \<Rightarrow> (NodeID \<rightharpoonup> nat) \<Rightarrow> (NodeID \<rightharpoonup> nat)" where
  "floodFill g start i cmp = fst (search_loop g True (\<lambda>_. i) (cmp(start \<mapsto> i)) Map.empty [start])"

fun components_loop :: "Graph \<Rightarrow> NodeID list \<Rightarrow> (NodeID \<rightharpoonup> nat) \<Rightarrow> nat \<Rightarrow> (NodeID \<rightharpoonup> nat)" where
  "components_loop g [] cmp next = cmp"
| "components_loop g (n # ns) cmp next =
     (if cmp n \<noteq> None then components_loop g ns cmp next
      else components_loop g ns (floodFill g n next cmp) (next + 1))"

definition Components :: "Graph \<Rightarrow> (NodeID \<rightharpoonup> nat)" where
  "Components g = components_loop g (Nodes g) Map.empty 0"

text \<open>The first argument lists the keys of the map, in the order a \<open>range\<close> visits them.\<close>

definition Orphans :: "NodeID list \<Rightarrow> (NodeID \<rightharpoonup> nat) \<Rightarrow> NodeID list \<Rightarrow> nat list" where
  "Orphans keys cmp roots =
     (let rootComponents = (\<lambda>i. \<exists>r\<in>set roots. cmp r = Some i)
      in sort (remdups (filter (\<lambda>i. \<not> rootComponents i) (map (\<lambda>n. the (cmp n)) keys))))"

subsection \<open>What the search loop computes\<close>

definition links :: "Graph \<Rightarrow> bool \<Rightarrow> (NodeID \<times> NodeID) set" where
  "links g und = {(a, b). b \<in> set (neighbours g und a)}"

lemma links_sym: "sym (links g True)"
  by (auto simp: links_def sym_def neighbours_def undirected_set)

lemma links_directed: "(a, b) \<in> links g False \<longleftrightarrow> (\<exists>e\<in>set (Edges g). eFrom e = a \<and> eTo e = b)"
  by (auto simp: links_def neighbours_def directed_eq)

text \<open>Whatever the labels are, the domain grows to the closure of the queue.\<close>

lemma search_loop_dom:
  assumes "search_loop g und lab dist prev queue = (dist', prev')"
    and "set queue \<subseteq> dom dist" and "\<forall>n\<in>dom dist - set queue. links g und `` {n} \<subseteq> dom dist"
  shows "dist \<subseteq>\<^sub>m dist' \<and> links g und `` dom dist' \<subseteq> dom dist' \<and>
    (\<forall>n\<in>dom dist' - dom dist. (\<exists>q\<in>set queue. (q, n) \<in> (links g und)\<^sup>*) \<and> (\<exists>d. dist' n = Some (lab d)))"
  using assms
proof (induction g und lab dist prev queue rule: search_loop.induct)
  case (2 g und lab dist prev cur queue)
  obtain d1 p1 q1 where st: "push_unseen lab cur (neighbours g und cur) dist prev queue = (d1, p1, q1)"
    by (metis prod_cases3)
  have run: "search_loop g und lab d1 p1 q1 = (dist', prev')" using 2(2) st by simp
  have "dist cur \<noteq> None" using 2(3) by auto
  from push_unseen_spec[OF st this] obtain new where n: "q1 = queue @ new"
    "set new = {n \<in> set (neighbours g und cur). dist n = None}"
    "d1 = (\<lambda>n. if n \<in> set new then Some (lab (the (dist cur))) else dist n)" by blast
  have dom: "dom d1 = dom dist \<union> set new" using n(3) by (auto split: if_splits)
  have sub: "dist \<subseteq>\<^sub>m d1" using n(2,3) by (auto simp: map_le_def)
  have nb: "links g und `` {cur} \<subseteq> dom d1" unfolding dom using n(2) by (auto simp: links_def)
  have q: "set q1 \<subseteq> dom d1" using 2(3) n(1) dom by auto
  have "\<forall>n\<in>dom d1 - set q1. links g und `` {n} \<subseteq> dom d1"
  proof
    fix n assume "n \<in> dom d1 - set q1"
    then have "n = cur \<or> n \<in> dom dist - set (cur # queue)" using dom \<open>q1 = queue @ new\<close> by auto
    then show "links g und `` {n} \<subseteq> dom d1" using nb 2(4) dom by blast
  qed
  with 2(1)[OF st[symmetric] refl run q] have ih: "d1 \<subseteq>\<^sub>m dist'" "links g und `` dom dist' \<subseteq> dom dist'"
    "\<forall>n\<in>dom dist' - dom d1. (\<exists>q\<in>set q1. (q, n) \<in> (links g und)\<^sup>*) \<and> (\<exists>d. dist' n = Some (lab d))" by blast+
  have step: "(cur, m) \<in> links g und" if "m \<in> set new" for m using that n(2) by (simp add: links_def)
  show ?case
  proof (intro conjI ballI)
    show "dist \<subseteq>\<^sub>m dist'" using sub ih(1) by (rule map_le_trans)
    fix m assume m: "m \<in> dom dist' - dom dist"
    show "\<exists>q\<in>set (cur # queue). (q, m) \<in> (links g und)\<^sup>*"
    proof (cases "m \<in> dom d1")
      case True
      then show ?thesis using m dom step by auto
    next
      case False
      then obtain q where "q \<in> set q1" "(q, m) \<in> (links g und)\<^sup>*" using m ih(3) by blast
      then show ?thesis using n(1) step by (auto intro: converse_rtrancl_into_rtrancl)
    qed
    show "\<exists>d. dist' m = Some (lab d)"
    proof (cases "m \<in> dom d1")
      case True
      then have "dist' m = d1 m" using ih(1) by (auto simp: map_le_def)
      then show ?thesis using m True dom n(3) by auto
    qed (use m ih(3) in blast)
  qed (use ih(2) in blast)
qed auto

lemma closed_rtrancl: "R `` A \<subseteq> A \<Longrightarrow> a \<in> A \<Longrightarrow> (a, b) \<in> R\<^sup>* \<Longrightarrow> b \<in> A"
  by (erule rtrancl_induct) auto

text \<open>Two small link graphs: a diamond with a lonely page, and one with a loop.\<close>

definition diamond :: Graph where
  "diamond = \<lparr>Nodes = [''a'', ''b'', ''c'', ''d'', ''e''],
     Edges = [\<lparr>eFrom = ''a'', eTo = ''b''\<rparr>, \<lparr>eFrom = ''a'', eTo = ''c''\<rparr>,
              \<lparr>eFrom = ''b'', eTo = ''d''\<rparr>, \<lparr>eFrom = ''c'', eTo = ''d''\<rparr>]\<rparr>"

lemma diamond_nodes [simp]: "Nodes diamond = [''a'', ''b'', ''c'', ''d'', ''e'']"
  by (simp add: diamond_def)

definition looped :: Graph where
  "looped = \<lparr>Nodes = [''a'', ''b'', ''c'', ''d''],
     Edges = [\<lparr>eFrom = ''a'', eTo = ''b''\<rparr>, \<lparr>eFrom = ''b'', eTo = ''c''\<rparr>,
              \<lparr>eFrom = ''c'', eTo = ''b''\<rparr>, \<lparr>eFrom = ''c'', eTo = ''d''\<rparr>]\<rparr>"

end
