(* ===== verification/Paths.thy ===== *)
theory Paths
  imports Graphs
begin

text \<open>
  What the breadth-first searches of paths.go return: exact distances, predecessor chains of
  exactly that length, and a terminating path reconstruction; and what components.go returns:
  the classes of undirected connectivity.
\<close>

subsection \<open>Distances\<close>

definition label :: "(NodeID \<rightharpoonup> nat) \<Rightarrow> NodeID \<Rightarrow> nat" where
  "label dist n = the (dist n)"

text \<open>The state of a breadth-first search: labels are realised by walks, predecessors are one
  step closer, the queue is sorted and spans at most two levels, and every node already taken
  from the queue has seen neighbours at most one level further.\<close>

definition bfs_inv :: "(NodeID \<times> NodeID) set \<Rightarrow> NodeID \<Rightarrow> (NodeID \<rightharpoonup> nat) \<Rightarrow> (NodeID \<rightharpoonup> NodeID) \<Rightarrow> NodeID list \<Rightarrow> bool" where
  "bfs_inv R s dist prev queue \<longleftrightarrow>
     dist s = Some 0 \<and> set queue \<subseteq> dom dist \<and>
     (\<forall>n\<in>dom dist. (s, n) \<in> R ^^ label dist n) \<and>
     (\<forall>n\<in>dom dist - {s}. \<exists>p. prev n = Some p \<and> p \<in> dom dist \<and> (p, n) \<in> R \<and> label dist n = Suc (label dist p)) \<and>
     sorted (map (label dist) queue) \<and>
     (queue \<noteq> [] \<longrightarrow> (\<forall>n\<in>dom dist. label dist n \<le> Suc (label dist (hd queue)))) \<and>
     (\<forall>n\<in>dom dist - set queue. \<forall>m. (n, m) \<in> R \<longrightarrow> m \<in> dom dist \<and> label dist m \<le> Suc (label dist n))"

lemma bfs_invD:
  assumes "bfs_inv R s dist prev queue"
  shows "dist s = Some 0" and "set queue \<subseteq> dom dist"
    and "n \<in> dom dist \<Longrightarrow> (s, n) \<in> R ^^ label dist n"
    and "n \<in> dom dist \<Longrightarrow> n \<noteq> s \<Longrightarrow>
      \<exists>p. prev n = Some p \<and> p \<in> dom dist \<and> (p, n) \<in> R \<and> label dist n = Suc (label dist p)"
    and "sorted (map (label dist) queue)"
    and "queue \<noteq> [] \<Longrightarrow> n \<in> dom dist \<Longrightarrow> label dist n \<le> Suc (label dist (hd queue))"
    and "n \<in> dom dist \<Longrightarrow> n \<notin> set queue \<Longrightarrow> (n, m) \<in> R \<Longrightarrow> m \<in> dom dist \<and> label dist m \<le> Suc (label dist n)"
  using assms unfolding bfs_inv_def by (blast+)

lemma sorted_append_const:
  "sorted xs \<Longrightarrow> \<forall>x\<in>set xs. x \<le> c \<Longrightarrow> \<forall>y\<in>set ys. y = c \<Longrightarrow> sorted (xs @ ys)" for c :: nat
  by (induction ys rule: rev_induct) (auto simp: sorted_append)

lemma bfs_inv_step:
  assumes inv: "bfs_inv (links g und) s dist prev (cur # queue)"
    and st: "push_unseen Suc cur (neighbours g und cur) dist prev queue = (dist', prev', queue')"
  shows "bfs_inv (links g und) s dist' prev' queue'"
proof -
  let ?R = "links g und"
  have cur: "cur \<in> dom dist" using bfs_invD(2)[OF inv] by simp
  then have "dist cur \<noteq> None" by auto
  from push_unseen_spec[OF st this] obtain new where n: "queue' = queue @ new"
    "set new = {n \<in> set (neighbours g und cur). dist n = None}"
    "dist' = (\<lambda>n. if n \<in> set new then Some (Suc (label dist cur)) else dist n)"
    "prev' = (\<lambda>n. if n \<in> set new then Some cur else prev n)" unfolding label_def by blast
  have dom: "dom dist' = dom dist \<union> set new" using n(3) by (auto split: if_splits)
  have old: "label dist' m = label dist m" "prev' m = prev m" if "m \<in> dom dist" for m
    using that n by (auto simp: label_def)
  have fresh: "label dist' m = Suc (label dist cur)" "prev' m = Some cur" "(cur, m) \<in> ?R" "m \<notin> dom dist"
    if "m \<in> set new" for m
    using that n by (auto simp: label_def links_def)
  have s0: "dist s = Some 0" "s \<in> dom dist" using bfs_invD(1)[OF inv] by auto
  have q: "set queue \<subseteq> dom dist" using bfs_invD(2)[OF inv] by simp
  have top: "label dist m \<le> Suc (label dist cur)" if "m \<in> dom dist" for m
    using bfs_invD(6)[OF inv _ that] by simp
  have low: "label dist cur \<le> label dist m" if "m \<in> set queue" for m
    using bfs_invD(5)[OF inv] that by simp
  show ?thesis
    unfolding bfs_inv_def
  proof (intro conjI ballI impI allI)
    show "dist' s = Some 0" using n(3) s0 fresh(4) by auto
    show "set queue' \<subseteq> dom dist'" using q n(1) dom by auto
  next
    fix m assume m: "m \<in> dom dist'"
    show "(s, m) \<in> ?R ^^ label dist' m"
    proof (cases "m \<in> set new")
      case True
      show ?thesis using bfs_invD(3)[OF inv cur] fresh[OF True] by auto
    next
      case False
      then have "m \<in> dom dist" using m dom by simp
      then show ?thesis using bfs_invD(3)[OF inv] old by simp
    qed
  next
    fix m assume m: "m \<in> dom dist' - {s}"
    show "\<exists>p. prev' m = Some p \<and> p \<in> dom dist' \<and> (p, m) \<in> ?R \<and> label dist' m = Suc (label dist' p)"
    proof (cases "m \<in> set new")
      case True
      show ?thesis using fresh[OF True] cur old[OF cur] dom by auto
    next
      case False
      then have "m \<in> dom dist - {s}" using m dom by auto
      then obtain p where p: "prev m = Some p" "p \<in> dom dist" "(p, m) \<in> ?R" "label dist m = Suc (label dist p)"
        using bfs_invD(4)[OF inv, of m] by auto
      then show ?thesis using old \<open>m \<in> dom dist - {s}\<close> dom by auto
    qed
  next
    have eq: "map (label dist') queue = map (label dist) queue" using q old by auto
    show "sorted (map (label dist') queue')"
      unfolding n(1) map_append eq
    proof (rule sorted_append_const)
      show "sorted (map (label dist) queue)" using bfs_invD(5)[OF inv] by simp
      show "\<forall>x\<in>set (map (label dist) queue). x \<le> Suc (label dist cur)" unfolding set_map using top q by blast
    qed (use fresh(1) in auto)
  next
    fix m assume ne: "queue' \<noteq> []" and m: "m \<in> dom dist'"
    have "label dist' m \<le> Suc (label dist cur)" using m top[of m] old(1)[of m] fresh(1)[of m] unfolding dom by fastforce
    moreover have "label dist cur \<le> label dist' (hd queue')"
    proof (cases queue)
      case Nil
      then show ?thesis using ne n(1) fresh(1) by (cases new) auto
    next
      case (Cons a qs)
      then show ?thesis using low[of a] old[of a] q n(1) by auto
    qed
    ultimately show "label dist' m \<le> Suc (label dist' (hd queue'))" by simp
  next
    fix k m assume k: "k \<in> dom dist' - set queue'" and e: "(k, m) \<in> ?R"
    have kd: "k \<in> dom dist" using k dom n(1) by auto
    have "m \<in> dom dist' \<and> label dist' m \<le> Suc (label dist k)"
    proof (cases "k = cur")
      case True
      then have "m \<in> dom dist'" using e dom n(2) by (auto simp: links_def)
      then show ?thesis
        using True top[of m] old(1)[of m] fresh(1)[of m] unfolding dom by fastforce
    next
      case False
      then have "k \<notin> set (cur # queue)" using k n(1) by auto
      then have "m \<in> dom dist \<and> label dist m \<le> Suc (label dist k)" using bfs_invD(7)[OF inv kd _ e] by simp
      then show ?thesis using dom old by auto
    qed
    then show "m \<in> dom dist'" "label dist' m \<le> Suc (label dist' k)" using old[OF kd] by auto
  qed
qed

lemma search_loop_bfs:
  "search_loop g und lab dist prev queue = (dist', prev') \<Longrightarrow> lab = Suc \<Longrightarrow>
    bfs_inv (links g und) s dist prev queue \<Longrightarrow> bfs_inv (links g und) s dist' prev' []"
proof (induction g und lab dist prev queue rule: search_loop.induct)
  case (2 g und lab dist prev cur queue)
  obtain d1 p1 q1 where st: "push_unseen lab cur (neighbours g und cur) dist prev queue = (d1, p1, q1)"
    by (metis prod_cases3)
  have "search_loop g und lab d1 p1 q1 = (dist', prev')" using 2(2) st by simp
  from 2(1)[OF st[symmetric] refl this 2(3)] show ?case
    using bfs_inv_step 2(3,4) st by simp
qed simp

lemma bfs_inv_start: "bfs_inv R s [s \<mapsto> 0] Map.empty [s]"
  by (auto simp: bfs_inv_def label_def split: if_splits)

text \<open>A completed search has the exact distances.\<close>

definition distance_is :: "(NodeID \<times> NodeID) set \<Rightarrow> NodeID \<Rightarrow> NodeID \<Rightarrow> nat \<Rightarrow> bool" where
  "distance_is R s n d \<longleftrightarrow> (s, n) \<in> R ^^ d \<and> (\<forall>k<d. (s, n) \<notin> R ^^ k)"

lemma bfs_inv_closed:
  "bfs_inv R s dist prev [] \<Longrightarrow> (s, n) \<in> R ^^ k \<Longrightarrow> n \<in> dom dist \<and> label dist n \<le> k"
proof (induction k arbitrary: n)
  case 0
  then show ?case using bfs_invD(1)[OF 0(1)] by (auto simp: label_def)
next
  case (Suc k)
  then obtain m where m: "(s, m) \<in> R ^^ k" "(m, n) \<in> R" by auto
  have "m \<in> dom dist \<and> label dist m \<le> k" using Suc.IH Suc.prems(1) m(1) .
  moreover have "n \<in> dom dist \<and> label dist n \<le> Suc (label dist m)"
    using bfs_invD(7)[OF Suc.prems(1) _ _ m(2)] calculation by simp
  ultimately show ?case by linarith
qed

lemma bfs_inv_exact:
  assumes "bfs_inv R s dist prev []"
  shows "dist n = Some d \<longleftrightarrow> distance_is R s n d"
proof
  assume d: "dist n = Some d"
  then have "(s, n) \<in> R ^^ d" using bfs_invD(3)[OF assms, of n] by (auto simp: label_def)
  moreover have "d \<le> k" if "(s, n) \<in> R ^^ k" for k
    using bfs_inv_closed[OF assms that] d by (simp add: label_def)
  ultimately show "distance_is R s n d" by (auto simp: distance_is_def not_le[symmetric])
next
  assume d: "distance_is R s n d"
  then have "n \<in> dom dist" "label dist n \<le> d" using bfs_inv_closed[OF assms] by (auto simp: distance_is_def)
  moreover have "\<not> label dist n < d" using bfs_invD(3)[OF assms calculation(1)] d by (auto simp: distance_is_def)
  ultimately show "dist n = Some d" by (auto simp: label_def domIff)
qed

text \<open>C0: breadth-first search from \<open>source\<close> returns exactly the link distances: a page is in
  \<open>dist\<close> with value \<open>d\<close> just when some chain of \<open>d\<close> links, followed in either direction, joins it
  to the source and no shorter one does. Unreachable pages are absent.\<close>

theorem BFS_exact:
  "fst (BFS g source) n = Some d \<longleftrightarrow> distance_is (links g True) source n d"
proof -
  obtain dist prev where r: "BFS g source = (dist, prev)" by (meson surj_pair)
  have "bfs_inv (links g True) source dist prev []"
    using search_loop_bfs[OF r[unfolded BFS_def] refl bfs_inv_start] .
  from bfs_inv_exact[OF this] show ?thesis by (simp add: r)
qed

lemma ForwardReachable_exact:
  "ForwardReachable g source n = Some d \<longleftrightarrow> distance_is (links g False) source n d"
proof -
  obtain dist prev where r: "search_loop g False Suc [source \<mapsto> 0] Map.empty [source] = (dist, prev)"
    by (meson surj_pair)
  from bfs_inv_exact[OF search_loop_bfs[OF r refl bfs_inv_start]] show ?thesis
    unfolding ForwardReachable_def r by simp
qed

lemma relpow_distance: "(s, n) \<in> R ^^ k \<Longrightarrow> \<exists>d\<le>k. distance_is R s n d"
  using exists_least_iff[of "\<lambda>k. (s, n) \<in> R ^^ k"] by (metis distance_is_def not_le)

lemma distance_exists: "(s, n) \<in> R\<^sup>* \<longleftrightarrow> (\<exists>d. distance_is R s n d)"
  unfolding rtrancl_power using relpow_distance by (auto simp: distance_is_def) blast

lemma distance_known: "(\<exists>d. ForwardReachable g s n = Some d) \<longleftrightarrow> (s, n) \<in> (links g False)\<^sup>*"
  by (simp add: ForwardReachable_exact distance_exists)

lemma BFS_dom: "dom (fst (BFS g source)) = (links g True)\<^sup>* `` {source}"
  unfolding dom_def BFS_exact[symmetric] by (auto simp: distance_exists BFS_exact)

lemma distance_relpow: "distance_is R s n d \<Longrightarrow> (s, n) \<in> R\<^sup>*"
  by (auto simp: distance_exists)

lemma reach_endpoints: "(s, n) \<in> (links g und)\<^sup>* \<Longrightarrow> n = s \<or> n \<in> endpoints g"
  using neighbours_endpoints by (erule_tac rtranclE) (auto simp: links_def)

subsection \<open>Shortest paths\<close>

lemma back_path_walk:
  assumes inv: "bfs_inv R s dist prev []"
  shows "n \<in> dom dist \<Longrightarrow> label dist n = d \<Longrightarrow> path \<noteq> [] \<Longrightarrow> last path = n \<Longrightarrow>
    \<exists>rest. back_path prev s path = Some (path @ rest) \<and> length rest = d \<and>
      last (path @ rest) = s \<and> (\<forall>i < d. ((n # rest) ! Suc i, (n # rest) ! i) \<in> R)"
proof (induction d arbitrary: n path)
  case 0
  have "n = s" using bfs_invD(4)[OF inv 0(1)] 0(2) by auto
  then show ?case using 0 by (auto simp: back_path.simps)
next
  case (Suc d)
  have "n \<noteq> s" using bfs_invD(1)[OF inv] Suc.prems(2) by (auto simp: label_def)
  then obtain p where p: "prev n = Some p" "p \<in> dom dist" "(p, n) \<in> R" "label dist n = Suc (label dist p)"
    using bfs_invD(4)[OF inv Suc.prems(1)] by auto
  have unf: "back_path prev s path = back_path prev s (path @ [p])"
    by (subst back_path.simps) (simp add: Suc.prems(4) \<open>n \<noteq> s\<close> p(1))
  have "label dist p = d" using p(4) Suc.prems(2) by simp
  from Suc.IH[OF p(2) this, of "path @ [p]"] obtain rest where
    r: "back_path prev s (path @ [p]) = Some ((path @ [p]) @ rest)" "length rest = d"
      "last ((path @ [p]) @ rest) = s" "\<forall>i < d. ((p # rest) ! Suc i, (p # rest) ! i) \<in> R" by auto
  have "((n # p # rest) ! Suc i, (n # p # rest) ! i) \<in> R" if "i < Suc d" for i
    using that p(3) r(4) by (cases i) auto
  then show ?case using r unf by (intro exI[of _ "p # rest"]) auto
qed

definition shortest_route :: "(NodeID \<times> NodeID) set \<Rightarrow> NodeID \<Rightarrow> NodeID \<Rightarrow> NodeID list \<Rightarrow> bool" where
  "shortest_route R s t path \<longleftrightarrow> path \<noteq> [] \<and> hd path = s \<and> last path = t \<and>
     (\<forall>i < length path - 1. (path ! i, path ! Suc i) \<in> R) \<and> distance_is R s t (length path - 1)"

lemma walk_reversed:
  assumes "\<forall>i < d. ((n # rest) ! Suc i, (n # rest) ! i) \<in> R" and "length rest = d" and "i < d"
  shows "(rev (n # rest) ! i, rev (n # rest) ! Suc i) \<in> R"
proof -
  have "rev (n # rest) ! i = (n # rest) ! Suc (d - Suc i)" "rev (n # rest) ! Suc i = (n # rest) ! (d - Suc i)"
    using assms(2,3) by (simp_all add: rev_nth Suc_diff_Suc del: rev.simps nth_Cons_Suc)
  moreover have "d - Suc i < d" using assms(3) by simp
  ultimately show ?thesis using assms(1) by simp
qed

text \<open>The path reconstruction after a breadth-first search always returns; it reports a path
  just for the pages joined to the source, and then the path starts at the source, ends at the
  target, follows links, and no chain of links is shorter.\<close>

theorem ShortestPath_shortest:
  "\<exists>path ok. ShortestPath (fst (BFS g s)) (snd (BFS g s)) s t = Some (path, ok) \<and>
     (ok \<longleftrightarrow> (s, t) \<in> (links g True)\<^sup>*) \<and>
     (if ok then shortest_route (links g True) s t path else path = [])"
proof -
  obtain dist prev where r: "BFS g s = (dist, prev)" by (meson surj_pair)
  have inv: "bfs_inv (links g True) s dist prev []"
    using search_loop_bfs[OF r[unfolded BFS_def] refl bfs_inv_start] .
  note ex = bfs_inv_exact[OF inv]
  show ?thesis
  proof (cases "dist t")
    case None
    then have "(s, t) \<notin> (links g True)\<^sup>*" by (simp add: distance_exists ex[symmetric])
    then show ?thesis by (intro exI[of _ "[]"] exI[of _ False]) (simp add: r ShortestPath_def None)
  next
    case (Some d)
    then have far: "distance_is (links g True) s t d" using ex by simp
    from back_path_walk[OF inv, of t d "[t]"] Some obtain rest where
      b: "back_path prev s [t] = Some (t # rest)" "length rest = d" "last (t # rest) = s"
        "\<forall>i < d. ((t # rest) ! Suc i, (t # rest) ! i) \<in> links g True"
      by (auto simp: label_def)
    have "shortest_route (links g True) s t (rev (t # rest))"
      using walk_reversed[OF b(4,2)] b(2,3) far
      by (auto simp: shortest_route_def hd_rev last_rev simp del: rev.simps)
    then show ?thesis using Some far distance_exists by (auto simp: r ShortestPath_def b(1))
  qed
qed

subsection \<open>Connected components\<close>

lemma floodFill_spec:
  assumes "links g True `` dom cmp \<subseteq> dom cmp" and "cmp start = None"
  shows "floodFill g start i cmp = (\<lambda>n. if (start, n) \<in> (links g True)\<^sup>* then Some i else cmp n)"
proof -
  let ?R = "links g True"
  obtain d p where r: "search_loop g True (\<lambda>_. i) (cmp(start \<mapsto> i)) Map.empty [start] = (d, p)"
    by (meson surj_pair)
  have "\<forall>n\<in>dom (cmp(start \<mapsto> i)) - set [start]. ?R `` {n} \<subseteq> dom (cmp(start \<mapsto> i))" using assms by auto
  from search_loop_dom[OF r _ this] have l: "cmp(start \<mapsto> i) \<subseteq>\<^sub>m d" "?R `` dom d \<subseteq> dom d"
    "\<forall>n\<in>dom d - dom (cmp(start \<mapsto> i)). (start, n) \<in> ?R\<^sup>* \<and> d n = Some i" by simp_all
  have far: "n \<notin> dom cmp" if "(start, n) \<in> ?R\<^sup>*" for n
  proof
    assume "n \<in> dom cmp"
    moreover have "(n, start) \<in> ?R\<^sup>*" using that links_sym by (metis sym_rtrancl symE)
    ultimately have "start \<in> dom cmp" using closed_rtrancl[OF assms(1)] by blast
    then show False using assms(2) by auto
  qed
  have "d n = (if (start, n) \<in> ?R\<^sup>* then Some i else cmp n)" for n
  proof (cases "(start, n) \<in> ?R\<^sup>*")
    case True
    have "start \<in> dom d" using map_le_implies_dom_le[OF l(1)] by auto
    then have "n \<in> dom d" using closed_rtrancl[OF l(2) _ True] by blast
    show ?thesis
    proof (cases "n = start")
      case True
      then show ?thesis using l(1) by (auto simp: map_le_def)
    next
      case False
      then have "n \<notin> dom (cmp(start \<mapsto> i))" using far[OF True] by simp
      then show ?thesis using l(3) \<open>n \<in> dom d\<close> True by auto
    qed
  next
    case False
    then have "n \<noteq> start" by auto
    show ?thesis
    proof (cases "n \<in> dom cmp")
      case True
      then show ?thesis using l(1) False \<open>n \<noteq> start\<close> unfolding map_le_def by (metis domI domIff fun_upd_apply)
    next
      case no: False
      then have "n \<notin> dom d" using l(3) False \<open>n \<noteq> start\<close> by (metis DiffI domIff fun_upd_apply)
      then show ?thesis using no False by (simp add: domIff)
    qed
  qed
  then have "d = (\<lambda>n. if (start, n) \<in> ?R\<^sup>* then Some i else cmp n)" by (rule ext)
  then show ?thesis unfolding floodFill_def r by simp
qed

text \<open>The state between two flood fills: complete components, one number each.\<close>

definition components_inv :: "(NodeID \<times> NodeID) set \<Rightarrow> (NodeID \<rightharpoonup> nat) \<Rightarrow> nat \<Rightarrow> bool" where
  "components_inv R cmp k \<longleftrightarrow> R `` dom cmp \<subseteq> dom cmp \<and> ran cmp = {..<k} \<and>
     (\<forall>n m. n \<in> dom cmp \<longrightarrow> m \<in> dom cmp \<longrightarrow> (cmp n = cmp m \<longleftrightarrow> (n, m) \<in> R\<^sup>*))"

lemma components_loop_inv:
  assumes "components_inv R cmp k" and "R = links g True"
  shows "\<exists>k'. components_inv R (components_loop g ns cmp k) k' \<and>
    dom (components_loop g ns cmp k) = dom cmp \<union> R\<^sup>* `` set ns"
  using assms
proof (induction ns arbitrary: cmp k)
  case (Cons n ns)
  have closed: "R `` dom cmp \<subseteq> dom cmp" using Cons.prems(1) by (simp add: components_inv_def)
  show ?case
  proof (cases "cmp n = None")
    case False
    then have "R\<^sup>* `` {n} \<subseteq> dom cmp" using closed_rtrancl[OF closed] by blast
    moreover from Cons.IH[OF Cons.prems] obtain k' where
      "components_inv R (components_loop g ns cmp k) k'"
      "dom (components_loop g ns cmp k) = dom cmp \<union> R\<^sup>* `` set ns" by blast
    ultimately show ?thesis using False by (intro exI[of _ k']) auto
  next
    case True
    define cmp' where "cmp' = floodFill g n k cmp"
    have spec: "cmp' = (\<lambda>m. if (n, m) \<in> R\<^sup>* then Some k else cmp m)"
      using floodFill_spec closed True Cons.prems(2) unfolding cmp'_def by simp
    have dom: "dom cmp' = dom cmp \<union> R\<^sup>* `` {n}" by (auto simp: spec split: if_splits)
    have sym: "(b, a) \<in> R\<^sup>*" if "(a, b) \<in> R\<^sup>*" for a b
      using that links_sym Cons.prems(2) by (metis sym_rtrancl symE)
    have apart: "(n, m) \<notin> R\<^sup>*" if "m \<in> dom cmp" for m
      using closed_rtrancl[OF closed that] sym True by (metis domIff)
    have ran: "ran cmp = {..<k}" using Cons.prems(1) by (simp add: components_inv_def)
    have "components_inv R cmp' (Suc k)"
      unfolding components_inv_def
    proof (intro conjI allI impI)
      show "R `` dom cmp' \<subseteq> dom cmp'" unfolding dom using closed by (auto intro: rtrancl_into_rtrancl)
      have "ran cmp' = insert k (ran cmp)"
      proof (rule set_eqI, rule iffI)
        fix j assume "j \<in> ran cmp'"
        then obtain m where "cmp' m = Some j" by (auto simp: ran_def)
        then show "j \<in> insert k (ran cmp)" by (cases "(n, m) \<in> R\<^sup>*") (simp_all add: spec ranI)
      next
        fix j assume j: "j \<in> insert k (ran cmp)"
        show "j \<in> ran cmp'"
        proof (cases "j = k")
          case True
          have "cmp' n = Some k" by (simp add: spec)
          then show ?thesis unfolding True by (rule ranI)
        next
          case False
          then obtain m where m: "cmp m = Some j" using j by (auto simp: ran_def)
          have "(n, m) \<notin> R\<^sup>*" using apart domI[of cmp m j, OF m] .
          then have "cmp' m = Some j" using m by (simp add: spec)
          then show ?thesis by (rule ranI)
        qed
      qed
      then show "ran cmp' = {..<Suc k}" unfolding ran lessThan_Suc .
    next
      fix a b assume a: "a \<in> dom cmp'" and b: "b \<in> dom cmp'"
      have old: "cmp x \<noteq> Some k" for x using ran by (metis lessThan_iff less_irrefl ranI)
      consider "(n, a) \<in> R\<^sup>*" "(n, b) \<in> R\<^sup>*" | "(n, a) \<in> R\<^sup>*" "(n, b) \<notin> R\<^sup>*"
        | "(n, a) \<notin> R\<^sup>*" "(n, b) \<in> R\<^sup>*" | "(n, a) \<notin> R\<^sup>*" "(n, b) \<notin> R\<^sup>*" by blast
      then show "cmp' a = cmp' b \<longleftrightarrow> (a, b) \<in> R\<^sup>*"
      proof cases
        case 1
        have "(a, b) \<in> R\<^sup>*" using sym[OF 1(1)] 1(2) by (rule rtrancl_trans)
        then show ?thesis using 1 by (simp add: spec)
      next
        case 2
        then have "(a, b) \<notin> R\<^sup>*" using rtrancl_trans[OF 2(1)] by blast
        moreover have "cmp' a = Some k" "cmp' b \<noteq> Some k" using 2 old by (simp_all add: spec)
        ultimately show ?thesis by metis
      next
        case 3
        then have "(a, b) \<notin> R\<^sup>*" using rtrancl_trans[OF 3(2) sym] by blast
        moreover have "cmp' b = Some k" "cmp' a \<noteq> Some k" using 3 old by (simp_all add: spec)
        ultimately show ?thesis by metis
      next
        case 4
        then have d: "a \<in> dom cmp" "b \<in> dom cmp" using a b unfolding dom by simp_all
        have "cmp' a = cmp a" "cmp' b = cmp b" using 4 by (simp_all add: spec)
        moreover have "cmp a = cmp b \<longleftrightarrow> (a, b) \<in> R\<^sup>*"
          using Cons.prems(1) d unfolding components_inv_def by blast
        ultimately show ?thesis by simp
      qed
    qed
    from Cons.IH[OF this Cons.prems(2)] obtain k' where
      "components_inv R (components_loop g ns cmp' (Suc k)) k'"
      "dom (components_loop g ns cmp' (Suc k)) = dom cmp' \<union> R\<^sup>* `` set ns" by blast
    then show ?thesis using True dom by (intro exI[of _ k']) (auto simp: cmp'_def)
  qed
qed auto

lemma Components_inv:
  "\<exists>k. components_inv (links g True) (Components g) k" "dom (Components g) = (links g True)\<^sup>* `` set (Nodes g)"
proof -
  have "components_inv (links g True) Map.empty 0" by (simp add: components_inv_def)
  from components_loop_inv[OF this refl, of "Nodes g"]
  show "\<exists>k. components_inv (links g True) (Components g) k"
    "dom (Components g) = (links g True)\<^sup>* `` set (Nodes g)"
    by (auto simp: Components_def)
qed

text \<open>Two pages get the same component number exactly when a chain of links joins them, in
  whatever direction the links point.\<close>

theorem Components_connected:
  assumes "n \<in> set (Nodes g)" and "m \<in> set (Nodes g)"
  shows "Components g n = Components g m \<longleftrightarrow> (n, m) \<in> (links g True)\<^sup>*"
proof -
  obtain k where "components_inv (links g True) (Components g) k" using Components_inv(1) by blast
  moreover have "n \<in> dom (Components g)" "m \<in> dom (Components g)" using Components_inv(2) assms by auto
  ultimately show ?thesis by (simp add: components_inv_def)
qed

lemma diamond_components:
  "Components diamond ''a'' = Some 0" "Components diamond ''c'' = Some 0"
  "Components diamond ''d'' = Some 0" "Components diamond ''e'' = Some 1"
  by code_simp+

theorem Components_connected_witness:
  "(''d'', ''c'') \<in> (links diamond True)\<^sup>* \<and> (''d'', ''e'') \<notin> (links diamond True)\<^sup>*"
  using Components_connected[of "''d''" diamond "''c''"] Components_connected[of "''d''" diamond "''e''"]
  by (simp add: diamond_components)

text \<open>The orphan components are listed in increasing order, once each, and they are the
  components no root is joined to by any chain of links.\<close>

theorem Orphans_unreachable:
  assumes "set keys = dom (Components g)" and "set roots \<subseteq> set (Nodes g)"
  shows "sorted (Orphans keys (Components g) roots) \<and> distinct (Orphans keys (Components g) roots)"
    and "n \<in> set keys \<Longrightarrow>
      the (Components g n) \<in> set (Orphans keys (Components g) roots) \<longleftrightarrow> (\<forall>r\<in>set roots. (r, n) \<notin> (links g True)\<^sup>*)"
proof -
  show "sorted (Orphans keys (Components g) roots) \<and> distinct (Orphans keys (Components g) roots)"
    by (simp add: Orphans_def Let_def)
  obtain k where inv: "components_inv (links g True) (Components g) k" using Components_inv(1) by blast
  assume n: "n \<in> set keys"
  have "Components g r = Some (the (Components g n)) \<longleftrightarrow> (r, n) \<in> (links g True)\<^sup>*" if "r \<in> set roots" for r
  proof -
    have "r \<in> dom (Components g)" "n \<in> dom (Components g)" using that assms n Components_inv(2) by auto
    then show ?thesis using inv by (auto simp: components_inv_def domIff)
  qed
  then show "the (Components g n) \<in> set (Orphans keys (Components g) roots) \<longleftrightarrow> (\<forall>r\<in>set roots. (r, n) \<notin> (links g True)\<^sup>*)"
    using n by (auto simp: Orphans_def Let_def)
qed

theorem Orphans_unreachable_witness:
  "Orphans (Nodes diamond) (Components diamond) [''a''] = [1] \<and> (''a'', ''e'') \<notin> (links diamond True)\<^sup>*"
proof -
  have o: "Orphans (Nodes diamond) (Components diamond) [''a''] = [1]" by code_simp
  have "set (Nodes diamond) = dom (Components diamond)"
  proof -
    have "endpoints diamond \<subseteq> set (Nodes diamond)" by (auto simp: endpoints_def diamond_def)
    then show ?thesis using reach_endpoints[of _ _ diamond True] by (auto simp: Components_inv(2) simp del: dom_def)
  qed
  then show ?thesis
    using Orphans_unreachable(2)[of "Nodes diamond" diamond "[''a'']" "''e''"] o
    by (simp add: diamond_components domI)
qed

subsection \<open>Diameter\<close>

lemma fold_max_some:
  fixes f :: "'a \<Rightarrow> nat option"
  shows "fold (\<lambda>k mx. case f k of Some d \<Rightarrow> if d > mx then d else mx | None \<Rightarrow> mx) ks mx =
    Max (insert mx {d. \<exists>k\<in>set ks. f k = Some d})"
proof (induction ks arbitrary: mx)
  case (Cons k ks)
  have fin: "finite {d. \<exists>k\<in>set ks. f k = Some d}"
    by (rule finite_subset[of _ "(\<lambda>k. the (f k)) ` set ks"]) force+
  show ?case
  proof (cases "f k")
    case None
    then have "{d. \<exists>j\<in>set (k # ks). f j = Some d} = {d. \<exists>j\<in>set ks. f j = Some d}" by auto
    then show ?thesis using Cons None by simp
  next
    case (Some v)
    then have "{d. \<exists>j\<in>set (k # ks). f j = Some d} = insert v {d. \<exists>j\<in>set ks. f j = Some d}" by auto
    moreover have "Max (insert (max mx v) A) = Max (insert mx (insert v A))" if "finite A" for A
      using that by (cases "A = {}") (auto simp: max.assoc)
    moreover have "(if v > mx then v else mx) = max mx v" by simp
    ultimately show ?thesis using Cons Some fin by simp
  qed
qed simp

lemma Max_insert_Max:
  fixes c :: nat
  assumes "finite A" and "finite B"
  shows "Max (insert (Max (insert c A)) B) = Max (insert c A \<union> B)"
proof (cases "B = {}")
  case False
  then have "Max (insert (Max (insert c A)) B) = max (Max (insert c A)) (Max B)" using assms by simp
  also have "\<dots> = Max (insert c A \<union> B)" using assms False by (intro Max_Un[symmetric]) auto
  finally show ?thesis .
qed (use assms in simp)

lemma Diameter_max:
  "Diameter g = Max (insert 0 {d. \<exists>n\<in>set (Nodes g). \<exists>m. distance_is (links g True) n m d})"
proof -
  let ?R = "links g True"
  have keys: "{d. \<exists>k\<in>set (range_keys g n). fst (BFS g n) k = Some d} = {d. \<exists>m. distance_is ?R n m d}" for n
    using reach_endpoints[OF distance_relpow]
    by (auto simp: BFS_exact range_keys_def endpoints_def) blast+
  have fin: "finite {d. \<exists>m. distance_is ?R n m d}" for n
    unfolding keys[symmetric]
    by (rule finite_subset[of _ "(\<lambda>k. the (fst (BFS g n) k)) ` set (range_keys g n)"]) force+
  have "fold (\<lambda>n mx. Max (insert mx {d. \<exists>m. distance_is ?R n m d})) ns c =
      Max (insert c {d. \<exists>n\<in>set ns. \<exists>m. distance_is ?R n m d})" for ns c
  proof (induction ns arbitrary: c)
    case (Cons n ns)
    let ?A = "{d. \<exists>m. distance_is ?R n m d}" and ?B = "{d. \<exists>n\<in>set ns. \<exists>m. distance_is ?R n m d}"
    have "?B = (\<Union>n\<in>set ns. {d. \<exists>m. distance_is ?R n m d})" by auto
    then have "finite ?B" using fin by simp
    with fin[of n] have "Max (insert (Max (insert c ?A)) ?B) = Max (insert c ?A \<union> ?B)" by (rule Max_insert_Max)
    moreover have "{d. \<exists>x\<in>set (n # ns). \<exists>m. distance_is ?R x m d} = ?A \<union> ?B" by auto
    ultimately show ?case using Cons by simp
  qed simp
  then show ?thesis by (simp add: Diameter_def Let_def fold_max_some keys)
qed

end
