(* ===== verification/Toposort.thy ===== *)
theory Toposort
  imports Graphs
begin

text \<open>
  Module graphalgo, toposort.go: Kahn's algorithm, the pages it could not place, and the levels
  of the order. Node ids compare as Go strings do, lexicographically by byte.
\<close>

subsection \<open>The code\<close>

definition zero_degrees :: "Graph \<Rightarrow> (NodeID \<rightharpoonup> int)" where
  "zero_degrees g = fold (\<lambda>n indegree. indegree(n \<mapsto> 0)) (Nodes g) Map.empty"

definition count_edge :: "Edge \<Rightarrow> (NodeID \<rightharpoonup> int) \<Rightarrow> (NodeID \<rightharpoonup> int)" where
  "count_edge e indegree =
     (case indegree (eTo e) of Some d \<Rightarrow> indegree(eTo e \<mapsto> d + 1) | None \<Rightarrow> indegree)"

definition indegrees :: "Graph \<Rightarrow> (NodeID \<rightharpoonup> int)" where
  "indegrees g = fold count_edge (Edges g) (zero_degrees g)"

text \<open>The keys of the map are the nodes; the order a \<open>range\<close> visits them in is undone by the sort.\<close>

definition first_ready :: "Graph \<Rightarrow> NodeID list" where
  "first_ready g = sort (filter (\<lambda>n. indegrees g n = Some 0) (remdups (Nodes g)))"

definition degree :: "(NodeID \<rightharpoonup> int) \<Rightarrow> NodeID \<Rightarrow> int" where
  "degree indegree m = (case indegree m of Some d \<Rightarrow> d | None \<Rightarrow> 0)"

fun release_all :: "NodeID list \<Rightarrow> (NodeID \<rightharpoonup> int) \<Rightarrow> NodeID list \<Rightarrow> (NodeID \<rightharpoonup> int) \<times> NodeID list" where
  "release_all [] indegree ready = (indegree, ready)"
| "release_all (m # out) indegree ready =
     (let d = degree indegree m - 1
      in release_all out (indegree(m \<mapsto> d)) (if d = 0 then ready @ [m] else ready))"

text \<open>Every page that joins the queue uses up a positive count, and counts never rise.\<close>

definition pending :: "Graph \<Rightarrow> (NodeID \<rightharpoonup> int) \<Rightarrow> nat" where
  "pending g indegree = (\<Sum>m\<in>endpoints g. nat (degree indegree m))"

lemma degree_upd [simp]: "degree (indegree(m \<mapsto> d)) n = (if n = m then d else degree indegree n)"
  by (simp add: degree_def)

lemma release_all_pending:
  "release_all out indegree ready = (indegree', ready') \<Longrightarrow> set out \<subseteq> endpoints g \<Longrightarrow>
    pending g indegree' + length ready' \<le> pending g indegree + length ready"
proof (induction out arbitrary: indegree ready)
  case (Cons m out)
  let ?d = "degree indegree m - 1"
  have "pending g (indegree(m \<mapsto> ?d)) + (if ?d = 0 then 1 else 0) \<le> pending g indegree"
  proof -
    have m: "m \<in> endpoints g" using Cons.prems(2) by simp
    have "(\<Sum>n\<in>endpoints g - {m}. nat (degree (indegree(m \<mapsto> ?d)) n)) = (\<Sum>n\<in>endpoints g - {m}. nat (degree indegree n))"
      by (rule sum.cong) auto
    then show ?thesis by (simp add: pending_def sum.remove[OF finite_endpoints m] nat_mono)
  qed
  moreover have "pending g indegree' + length ready' \<le>
      pending g (indegree(m \<mapsto> ?d)) + length (if ?d = 0 then ready @ [m] else ready)"
  proof (rule Cons.IH)
    show "release_all out (indegree(m \<mapsto> ?d)) (if ?d = 0 then ready @ [m] else ready) = (indegree', ready')"
      using Cons.prems(1) unfolding release_all.simps Let_def .
    show "set out \<subseteq> endpoints g" using Cons.prems(2) by simp
  qed
  ultimately show ?case by (simp split: if_splits)
qed simp

function kahn_loop :: "Graph \<Rightarrow> (NodeID \<rightharpoonup> int) \<Rightarrow> NodeID list \<Rightarrow> NodeID list \<Rightarrow> NodeID list" where
  "kahn_loop g indegree [] order = order"
| "kahn_loop g indegree (n # ready) order =
     (case release_all (sort (neighbours g False n)) indegree ready of
        (indegree', ready') \<Rightarrow> kahn_loop g indegree' (sort ready') (order @ [n]))"
  by pat_completeness auto
termination
proof (relation "measure (\<lambda>(g, indegree, ready, order). pending g indegree + length ready)", goal_cases)
  case (2 g indegree n ready order indegree' ready')
  then have "release_all (sort (neighbours g False n)) indegree ready = (indegree', ready')" by simp
  from release_all_pending[OF this, of g] neighbours_endpoints[of g False n] show ?case by simp
qed simp

definition TopologicalSort :: "Graph \<Rightarrow> NodeID list \<times> bool" where
  "TopologicalSort g =
     (let order = kahn_loop g (indegrees g) (first_ready g) []
      in (order, length order = length (Nodes g)))"

definition Unplaced :: "Graph \<Rightarrow> NodeID list \<Rightarrow> NodeID list" where
  "Unplaced g order = sort (filter (\<lambda>n. n \<notin> set order) (Nodes g))"

definition add_prereq :: "NodeID list \<Rightarrow> Edge \<Rightarrow> (NodeID \<Rightarrow> NodeID list) \<Rightarrow> (NodeID \<Rightarrow> NodeID list)" where
  "add_prereq order e prereqs =
     (if eFrom e \<in> set order \<and> eTo e \<in> set order
      then prereqs(eTo e := prereqs (eTo e) @ [eFrom e]) else prereqs)"

definition prereqs_of :: "Graph \<Rightarrow> NodeID list \<Rightarrow> NodeID \<Rightarrow> NodeID list" where
  "prereqs_of g order = fold (add_prereq order) (Edges g) (\<lambda>_. [])"

text \<open>The level of a node read before it is written is the zero of the map's type.\<close>

definition level_of :: "(NodeID \<Rightarrow> nat) \<Rightarrow> NodeID list \<Rightarrow> nat" where
  "level_of level ps = fold (\<lambda>p l. if level p + 1 > l then level p + 1 else l) ps 0"

fun levels_loop :: "(NodeID \<Rightarrow> NodeID list) \<Rightarrow> NodeID list \<Rightarrow> (NodeID \<Rightarrow> nat) \<Rightarrow> nat \<Rightarrow> (NodeID \<Rightarrow> nat) \<times> nat" where
  "levels_loop prereqs [] level deepest = (level, deepest)"
| "levels_loop prereqs (n # ns) level deepest =
     (let l = level_of level (prereqs n)
      in levels_loop prereqs ns (level(n := l)) (if l > deepest then l else deepest))"

definition Layers :: "Graph \<Rightarrow> NodeID list \<Rightarrow> NodeID list list" where
  "Layers g order =
     (case levels_loop (prereqs_of g order) order (\<lambda>_. 0) 0 of (level, deepest) \<Rightarrow>
        fold (\<lambda>n out. out[level n := out ! level n @ [n]]) order (replicate (deepest + 1) []))"

subsection \<open>Counting\<close>

lemma zero_degrees_eq: "zero_degrees g n = (if n \<in> set (Nodes g) then Some 0 else None)"
proof -
  have "fold (\<lambda>n indegree. indegree(n \<mapsto> 0)) ns m n = (if n \<in> set ns then Some 0 else m n)" for ns :: "NodeID list" and m :: "NodeID \<rightharpoonup> int"
    by (induction ns arbitrary: m) auto
  then show ?thesis by (simp add: zero_degrees_def)
qed

lemma fold_count_edge:
  "n \<in> dom m \<Longrightarrow> fold count_edge es m n = Some (the (m n) + int (length (filter (\<lambda>e. eTo e = n) es)))"
proof (induction es arbitrary: m)
  case (Cons e es)
  then have "n \<in> dom (count_edge e m)" by (auto simp: count_edge_def split: option.splits)
  from Cons.IH[OF this] show ?case using Cons.prems by (auto simp: count_edge_def split: option.splits)
qed auto

lemma indegrees_eq:
  "n \<in> set (Nodes g) \<Longrightarrow> indegrees g n = Some (int (length (filter (\<lambda>e. eTo e = n) (Edges g))))"
  by (simp add: indegrees_def fold_count_edge zero_degrees_eq domIff)

lemma release_all_spec:
  assumes "release_all out indegree ready = (indegree', ready')"
    and "\<forall>m\<in>set out. m \<in> dom indegree \<and> int (count_list out m) \<le> degree indegree m"
  shows "(\<forall>m. indegree' m = (case indegree m of None \<Rightarrow> None | Some d \<Rightarrow> Some (d - int (count_list out m)))) \<and>
    (\<exists>new. ready' = ready @ new \<and> distinct new \<and>
      set new = {m \<in> set out. degree indegree m = int (count_list out m)})"
  using assms
proof (induction out arbitrary: indegree ready)
  case (Cons m out)
  let ?d = "degree indegree m - 1" and ?i = "indegree(m \<mapsto> degree indegree m - 1)"
  let ?r = "if ?d = 0 then ready @ [m] else ready"
  obtain d where d: "indegree m = Some d" using Cons.prems(2) by auto
  then have dd: "degree indegree m = d" by (simp add: degree_def)
  have run: "release_all out ?i ?r = (indegree', ready')"
    using Cons.prems(1) unfolding release_all.simps Let_def .
  have ok: "\<forall>k\<in>set out. k \<in> dom ?i \<and> int (count_list out k) \<le> degree ?i k"
    using Cons.prems(2) by (auto split: if_splits)
  obtain new where n: "\<forall>k. indegree' k = (case ?i k of None \<Rightarrow> None | Some d \<Rightarrow> Some (d - int (count_list out k)))"
    "ready' = ?r @ new" "distinct new" "set new = {k \<in> set out. degree ?i k = int (count_list out k)}"
    using Cons.IH[OF run ok] by blast
  have c: "count_list out m = 0" if "?d = 0"
    using Cons.prems(2) that by simp
  show ?case
  proof (intro conjI allI)
    fix k show "indegree' k = (case indegree k of None \<Rightarrow> None | Some d \<Rightarrow> Some (d - int (count_list (m # out) k)))"
      using n(1) d dd by (auto split: option.splits)
    let ?new = "if ?d = 0 then m # new else new"
    have "m \<notin> set new" if "?d = 0" using c[OF that] n(4) by (auto simp: count_list_0_iff)
    then have "ready' = ready @ ?new \<and> distinct ?new" using n(2,3) by auto
    moreover have "set ?new = {k \<in> set (m # out). degree indegree k = int (count_list (m # out) k)}"
    proof (rule set_eqI)
      fix k
      show "k \<in> set ?new \<longleftrightarrow> k \<in> {k \<in> set (m # out). degree indegree k = int (count_list (m # out) k)}"
      proof (cases "k = m")
        case True
        have z: "m \<notin> set out \<longleftrightarrow> count_list out m = 0" by (simp add: count_list_0_iff)
        show ?thesis
        proof (cases "?d = 0")
          case True
          then show ?thesis using \<open>k = m\<close> c by simp
        next
          case False
          have "m \<in> set new \<longleftrightarrow> m \<in> set out \<and> ?d = int (count_list out m)" unfolding n(4) by simp
          then show ?thesis using False z \<open>k = m\<close> by auto
        qed
      qed (use n(4) in auto)
    qed
    ultimately show "\<exists>new. ready' = ready @ new \<and> distinct new \<and>
      set new = {k \<in> set (m # out). degree indegree k = int (count_list (m # out) k)}" by blast
  qed
qed (auto split: option.splits)

subsection \<open>The state of the main loop\<close>

definition well_formed :: "Graph \<Rightarrow> bool" where
  "well_formed g \<longleftrightarrow> distinct (Nodes g) \<and> endpoints g \<subseteq> set (Nodes g)"

text \<open>The links into \<open>n\<close> from pages not yet placed.\<close>

definition waiting :: "Graph \<Rightarrow> NodeID set \<Rightarrow> NodeID \<Rightarrow> nat" where
  "waiting g placed n = length (filter (\<lambda>e. eTo e = n \<and> eFrom e \<notin> placed) (Edges g))"

lemma waiting_0: "waiting g placed n = 0 \<longleftrightarrow> (\<forall>p. (p, n) \<in> links g False \<longrightarrow> p \<in> placed)"
  by (auto simp: waiting_def filter_empty_conv links_directed)

lemma waiting_insert:
  assumes "n \<notin> placed"
  shows "waiting g placed m = waiting g (insert n placed) m + count_list (neighbours g False n) m"
proof -
  have "length (filter (\<lambda>e. eTo e = m \<and> eFrom e \<notin> placed) es) =
      length (filter (\<lambda>e. eTo e = m \<and> eFrom e \<notin> insert n placed) es) +
      count_list (map eTo (filter (\<lambda>e. eFrom e = n) es)) m" for es
    using assms by (induction es) auto
  then show ?thesis by (simp add: waiting_def neighbours_def directed_eq)
qed

definition forward :: "(NodeID \<times> NodeID) set \<Rightarrow> NodeID list \<Rightarrow> bool" where
  "forward R order \<longleftrightarrow> (\<forall>i < length order. \<forall>p. (p, order ! i) \<in> R \<longrightarrow> p \<in> set (take i order))"

lemma forward_append:
  "forward R order \<Longrightarrow> \<forall>p. (p, n) \<in> R \<longrightarrow> p \<in> set order \<Longrightarrow> forward R (order @ [n])"
  by (auto simp: forward_def nth_append less_Suc_eq)

lemma forward_closed: "forward R order \<Longrightarrow> (p, n) \<in> R \<Longrightarrow> n \<in> set order \<Longrightarrow> p \<in> set order"
  by (metis forward_def in_set_conv_nth in_set_takeD)

definition kahn_inv :: "Graph \<Rightarrow> (NodeID \<rightharpoonup> int) \<Rightarrow> NodeID list \<Rightarrow> NodeID list \<Rightarrow> bool" where
  "kahn_inv g indegree ready order \<longleftrightarrow>
     distinct (order @ ready) \<and> set order \<subseteq> set (Nodes g) \<and> forward (links g False) order \<and>
     (\<forall>n\<in>set (Nodes g). indegree n = Some (int (waiting g (set order) n))) \<and>
     set ready = {n \<in> set (Nodes g) - set order. waiting g (set order) n = 0}"

lemma count_list_insort [simp]: "count_list (insort y xs) x = count_list (y # xs) x"
  by (induction xs) auto

lemma count_list_sort [simp]: "count_list (sort xs) x = count_list xs x"
  by (induction xs) (simp_all add: sort_key_def)

lemma kahn_step:
  assumes wf: "well_formed g" and inv: "kahn_inv g indegree (n # ready) order"
    and st: "release_all (sort (neighbours g False n)) indegree ready = (indegree', ready')"
  shows "kahn_inv g indegree' (sort ready') (order @ [n])"
proof -
  let ?N = "set (Nodes g)" and ?O = "set order" and ?out = "neighbours g False n"
  have n: "n \<in> ?N" "n \<notin> ?O" "waiting g ?O n = 0" using inv by (auto simp: kahn_inv_def)
  have deg: "degree indegree m = int (waiting g ?O m)" "m \<in> dom indegree" if "m \<in> ?N" for m
  proof -
    have "indegree m = Some (int (waiting g ?O m))" using inv that by (simp add: kahn_inv_def)
    then show "degree indegree m = int (waiting g ?O m)" "m \<in> dom indegree" by (auto simp: degree_def)
  qed
  have nodes: "set ?out \<subseteq> ?N" using neighbours_endpoints[of g False n] wf unfolding well_formed_def by blast
  note drop = waiting_insert[OF n(2), of g]
  have "\<forall>m\<in>set (sort ?out). m \<in> dom indegree \<and> int (count_list (sort ?out) m) \<le> degree indegree m"
    using deg nodes drop by (auto simp: subset_iff)
  from release_all_spec[OF st this, unfolded count_list_sort set_sort] obtain new where
    i: "\<And>m. indegree' m = (case indegree m of None \<Rightarrow> None | Some d \<Rightarrow> Some (d - int (count_list ?out m)))"
    and r: "ready' = ready @ new" "distinct new" "set new = {m \<in> set ?out. degree indegree m = int (count_list ?out m)}"
    by blast
  have new: "set new = {m \<in> ?N. waiting g ?O m \<noteq> 0 \<and> waiting g (insert n ?O) m = 0}"
  proof (rule set_eqI)
    fix m
    have "m \<in> set ?out \<longleftrightarrow> count_list ?out m \<noteq> 0" by (simp add: count_list_0_iff)
    then show "m \<in> set new \<longleftrightarrow> m \<in> {m \<in> ?N. waiting g ?O m \<noteq> 0 \<and> waiting g (insert n ?O) m = 0}"
      using deg(1)[of m] drop[of m] nodes unfolding r(3) by auto
  qed
  have into: "waiting g ?O m = 0" if "m \<in> ?O" for m
    using forward_closed inv that unfolding waiting_0 kahn_inv_def by blast
  have old: "set (n # ready) = {m \<in> ?N - ?O. waiting g ?O m = 0}" "distinct (order @ n # ready)"
    using inv unfolding kahn_inv_def by blast+
  show ?thesis
    unfolding kahn_inv_def
  proof (intro conjI ballI)
    have "x \<notin> ?O \<and> x \<notin> set (n # ready)" if "x \<in> set new" for x
    proof -
      have w: "waiting g ?O x \<noteq> 0" using that unfolding new by blast
      then have "x \<notin> ?O" using into[of x] by metis
      moreover have "x \<notin> set (n # ready)" unfolding old(1) using w by simp
      ultimately show ?thesis ..
    qed
    then have b: "?O \<inter> set new = {}" "set ready \<inter> set new = {}" "n \<notin> set new" by auto
    show "distinct ((order @ [n]) @ sort ready')"
      using old(2) r(2) b unfolding r(1) by (simp only: distinct_append distinct_sort set_sort set_append) auto
    show "set (order @ [n]) \<subseteq> ?N" using inv n(1) by (simp add: kahn_inv_def)
    show "forward (links g False) (order @ [n])"
      using inv n(3) by (intro forward_append) (simp_all add: kahn_inv_def waiting_0)
    show "set (sort ready') = {m \<in> ?N - set (order @ [n]). waiting g (set (order @ [n])) m = 0}"
    proof (rule set_eqI)
      fix m
      have "m \<in> set ready \<longleftrightarrow> m \<noteq> n \<and> m \<in> set (n # ready)" using old(2) by auto
      then have "m \<in> set ready \<longleftrightarrow> m \<noteq> n \<and> m \<in> ?N - ?O \<and> waiting g ?O m = 0" unfolding old(1) by blast
      moreover have "m \<in> set new \<longleftrightarrow> m \<in> ?N \<and> waiting g ?O m \<noteq> 0 \<and> waiting g (insert n ?O) m = 0"
        unfolding new by blast
      ultimately show "m \<in> set (sort ready') \<longleftrightarrow> m \<in> {m \<in> ?N - set (order @ [n]). waiting g (set (order @ [n])) m = 0}"
        using r(1) drop[of m] into[of m] n(3) by auto
    qed
  next
    fix m assume m: "m \<in> ?N"
    then have "indegree m = Some (int (waiting g ?O m))" using inv by (simp add: kahn_inv_def)
    then show "indegree' m = Some (int (waiting g (set (order @ [n])) m))"
      using drop[of m] by (simp add: i)
  qed
qed

lemma kahn_loop_inv:
  "well_formed g \<Longrightarrow> kahn_inv g indegree ready order \<Longrightarrow>
    \<exists>indegree'. kahn_inv g indegree' [] (kahn_loop g indegree ready order)"
proof (induction g indegree ready order rule: kahn_loop.induct)
  case (2 g indegree n ready order)
  obtain i r where st: "release_all (sort (neighbours g False n)) indegree ready = (i, r)"
    by (meson surj_pair)
  from 2(1)[OF st[symmetric] 2(2) kahn_step[OF 2(2,3) st]] show ?case by (simp add: st)
qed auto

lemma kahn_inv_start: "well_formed g \<Longrightarrow> kahn_inv g (indegrees g) (first_ready g) []"
  by (auto simp: kahn_inv_def first_ready_def indegrees_eq forward_def waiting_def)

text \<open>What is known of the order that comes out.\<close>

lemma order_facts:
  assumes "well_formed g" and "TopologicalSort g = (order, ok)"
  shows "distinct order" and "set order \<subseteq> set (Nodes g)" and "forward (links g False) order"
    and "n \<in> set (Nodes g) - set order \<Longrightarrow> \<exists>p\<in>set (Nodes g) - set order. (p, n) \<in> links g False"
    and "ok \<longleftrightarrow> set order = set (Nodes g)"
proof -
  obtain i where inv: "kahn_inv g i [] order"
    using kahn_loop_inv[OF assms(1) kahn_inv_start[OF assms(1)]] assms(2)
    by (auto simp: TopologicalSort_def Let_def)
  then show d: "distinct order" and sub: "set order \<subseteq> set (Nodes g)" and "forward (links g False) order"
    by (simp_all add: kahn_inv_def)
  have "ok \<longleftrightarrow> card (set order) = card (set (Nodes g))"
    using assms d by (auto simp: TopologicalSort_def Let_def well_formed_def distinct_card)
  then show "ok \<longleftrightarrow> set order = set (Nodes g)" using sub by (metis List.finite_set card_subset_eq)
  assume n: "n \<in> set (Nodes g) - set order"
  then have "waiting g (set order) n \<noteq> 0" using inv by (auto simp: kahn_inv_def)
  then obtain p where p: "(p, n) \<in> links g False" "p \<notin> set order" by (auto simp: waiting_0)
  then have "p \<in> endpoints g" by (auto simp: links_directed endpoints_def)
  then show "\<exists>p\<in>set (Nodes g) - set order. (p, n) \<in> links g False"
    using p assms(1) by (auto simp: well_formed_def)
qed

subsection \<open>Cycles\<close>

lemma forward_trancl:
  assumes "(p, n) \<in> R\<^sup>+" and "forward R order"
  shows "i < length order \<Longrightarrow> order ! i = n \<Longrightarrow> p \<in> set (take i order)"
  using assms(1)
proof (induction arbitrary: i rule: trancl_induct)
  case (base m)
  then show ?case using assms(2) by (auto simp: forward_def)
next
  case (step m k)
  then have "m \<in> set (take i order)" using assms(2) by (auto simp: forward_def)
  then obtain j where j: "j < i" "j < length order" "order ! j = m" by (auto simp: in_set_conv_nth)
  then have "p \<in> set (take j order)" using step.IH by blast
  then show ?case using set_take_subset_set_take[of j i order] j(1) by (auto dest: less_imp_le)
qed

lemma forward_acyclic:
  assumes "forward R order" and "distinct order" and "n \<in> set order"
  shows "(n, n) \<notin> R\<^sup>+"
proof
  assume "(n, n) \<in> R\<^sup>+"
  obtain i where i: "i < length order" "order ! i = n" using assms(3) by (auto simp: in_set_conv_nth)
  then have "n \<in> set (take i order)" using forward_trancl[OF \<open>(n, n) \<in> R\<^sup>+\<close> assms(1)] by blast
  then obtain j where "j < i" "order ! j = n" by (auto simp: in_set_conv_nth)
  then show False using i assms(2) by (auto simp: nth_eq_iff_index_eq)
qed

lemma predecessors_cycle:
  assumes "finite U" and "n \<in> U" and "\<forall>m\<in>U. \<exists>p\<in>U. (p, m) \<in> R"
  shows "\<exists>c. (c, c) \<in> R\<^sup>+ \<and> (c, n) \<in> R\<^sup>*"
proof -
  define A where "A = {a \<in> U. (a, n) \<in> R\<^sup>*}"
  have "\<forall>m\<in>A. \<exists>p\<in>A. (p, m) \<in> R \<inter> A \<times> A"
    using assms(3) unfolding A_def by (blast intro: converse_rtrancl_into_rtrancl)
  moreover have "n \<in> A" using assms(2) by (simp add: A_def)
  ultimately have "\<not> wf (R \<inter> A \<times> A)" unfolding wf_eq_minimal by (metis (no_types, lifting))
  moreover have "finite (R \<inter> A \<times> A)" using assms(1) by (simp add: A_def)
  ultimately obtain c where c: "(c, c) \<in> (R \<inter> A \<times> A)\<^sup>+" using finite_acyclic_wf by (auto simp: acyclic_def)
  then have "c \<in> A" by (induction rule: tranclE) auto
  moreover have "(c, c) \<in> R\<^sup>+" using c by (rule trancl_mono) simp
  ultimately show ?thesis by (auto simp: A_def)
qed

definition tangled :: "Graph \<Rightarrow> NodeID set" where
  "tangled g = {n \<in> set (Nodes g). \<exists>c. (c, c) \<in> (links g False)\<^sup>+ \<and> (c, n) \<in> (links g False)\<^sup>*}"

lemma placed_or_tangled:
  assumes "well_formed g" and "TopologicalSort g = (order, ok)"
  shows "set (Nodes g) - set order = tangled g"
proof (rule set_eqI, rule iffI)
  fix n assume n: "n \<in> set (Nodes g) - set order"
  have "finite (set (Nodes g) - set order)" by simp
  from predecessors_cycle[OF this n] order_facts(4)[OF assms] n show "n \<in> tangled g"
    by (auto simp: tangled_def)
next
  fix n assume n: "n \<in> tangled g"
  then obtain c where c: "(c, c) \<in> (links g False)\<^sup>+" "(c, n) \<in> (links g False)\<^sup>*"
    by (auto simp: tangled_def)
  note fw = order_facts(3)[OF assms]
  have "c \<in> set order" if "n \<in> set order"
    using c(2) that by (induction rule: rtrancl_induct) (auto dest: forward_closed[OF fw])
  then show "n \<in> set (Nodes g) - set order"
    using forward_acyclic[OF fw order_facts(1)[OF assms]] c(1) n by (auto simp: tangled_def)
qed

text \<open>The order places each page once and after every page that links to it, and the flag says
  whether every page was placed, which is so exactly when the links have no cycle.\<close>

theorem TopologicalSort_acyclic:
  assumes "well_formed g" and "TopologicalSort g = (order, ok)"
  shows "distinct order \<and> set order \<subseteq> set (Nodes g) \<and> forward (links g False) order \<and>
    (ok \<longleftrightarrow> acyclic (links g False))"
proof -
  have "ok \<longleftrightarrow> tangled g = {}"
    using order_facts(2,5)[OF assms] placed_or_tangled[OF assms] by auto
  also have "\<dots> \<longleftrightarrow> acyclic (links g False)"
  proof -
    have "c \<in> set (Nodes g)" if "(c, c) \<in> (links g False)\<^sup>+" for c
      using that assms(1) by (induction rule: tranclE) (auto simp: links_directed well_formed_def endpoints_def)
    then show ?thesis by (auto simp: tangled_def acyclic_def)
  qed
  finally show ?thesis using order_facts(1-3)[OF assms] by blast
qed

lemma diamond_order: "TopologicalSort diamond = ([''a'', ''b'', ''c'', ''d'', ''e''], True)"
  and looped_order: "TopologicalSort looped = ([''a''], False)"
  by code_simp+

lemma examples_well_formed: "well_formed diamond" "well_formed looped"
  by (simp_all add: well_formed_def endpoints_def diamond_def looped_def)

theorem TopologicalSort_acyclic_witness: "\<not> acyclic (links looped False)"
  using TopologicalSort_acyclic[OF examples_well_formed(2) looped_order] by simp

text \<open>The pages left unplaced are those on a cycle of links or downstream of one, sorted.\<close>

theorem Unplaced_tangled:
  assumes "well_formed g" and "TopologicalSort g = (order, ok)"
  shows "sorted (Unplaced g order) \<and> set (Unplaced g order) = tangled g"
  using placed_or_tangled[OF assms] by (auto simp: Unplaced_def)

theorem Unplaced_tangled_witness: "tangled looped = {''b'', ''c'', ''d''}"
proof -
  have "Unplaced looped [''a''] = [''b'', ''c'', ''d'']" by code_simp
  then show ?thesis using Unplaced_tangled[OF examples_well_formed(2) looped_order] by auto
qed

subsection \<open>Levels\<close>

lemma prereqs_set:
  "set (prereqs_of g order n) = {p. (p, n) \<in> links g False \<and> p \<in> set order \<and> n \<in> set order}"
proof -
  have "set (fold (add_prereq order) es m n) = set (m n) \<union>
      {p. \<exists>e\<in>set es. eFrom e = p \<and> eTo e = n \<and> p \<in> set order \<and> n \<in> set order}" for es m
    by (induction es arbitrary: m) (auto simp: add_prereq_def)
  then show ?thesis by (auto simp: prereqs_of_def links_directed)
qed

text \<open>The number of links of the longest chain that ends at \<open>n\<close>.\<close>

definition longest_chain :: "(NodeID \<times> NodeID) set \<Rightarrow> NodeID \<Rightarrow> nat \<Rightarrow> bool" where
  "longest_chain R n k \<longleftrightarrow> (\<exists>p. (p, n) \<in> R ^^ k) \<and> (\<forall>j p. (p, n) \<in> R ^^ j \<longrightarrow> j \<le> k)"

lemma longest_chain_unique: "longest_chain R n k \<Longrightarrow> longest_chain R n j \<Longrightarrow> j = k"
  by (meson le_antisym longest_chain_def)

lemma level_fold_mono: "l \<le> fold (\<lambda>p l. if level p + 1 > l then level p + 1 else l) ps l" for l :: nat
proof (induction ps arbitrary: l)
  case (Cons p ps)
  have "l \<le> (if level p + 1 > l then level p + 1 else l)" by simp
  also note Cons.IH
  finally show ?case by simp
qed simp

lemma level_of_upper: "p \<in> set ps \<Longrightarrow> Suc (level p) \<le> level_of level ps"
proof -
  have "p \<in> set ps \<Longrightarrow> Suc (level p) \<le> fold (\<lambda>p l. if level p + 1 > l then level p + 1 else l) ps l" for l
  proof (induction ps arbitrary: l)
    case (Cons q ps)
    have "Suc (level q) \<le> (if level q + 1 > l then level q + 1 else l)" by simp
    also note level_fold_mono[of _ level ps]
    finally show ?case using Cons by auto
  qed simp
  then show "p \<in> set ps \<Longrightarrow> Suc (level p) \<le> level_of level ps" by (simp add: level_of_def)
qed

lemma level_of_attained: "level_of level ps = 0 \<or> (\<exists>p\<in>set ps. level_of level ps = Suc (level p))"
proof -
  have "fold (\<lambda>p l. if level p + 1 > l then level p + 1 else l) ps l = l \<or>
      (\<exists>p\<in>set ps. fold (\<lambda>p l. if level p + 1 > l then level p + 1 else l) ps l = Suc (level p))" for l
  proof (induction ps arbitrary: l)
    case (Cons q ps)
    show ?case using Cons.IH[of "if level q + 1 > l then level q + 1 else l"] by auto
  qed simp
  then show ?thesis by (simp add: level_of_def)
qed

lemma longest_chain_step:
  assumes "\<And>p. p \<in> set ps \<longleftrightarrow> (p, n) \<in> R" and "\<And>p. p \<in> set ps \<Longrightarrow> longest_chain R p (level p)"
  shows "longest_chain R n (level_of level ps)"
  unfolding longest_chain_def
proof (intro conjI allI impI)
  show "\<exists>p. (p, n) \<in> R ^^ level_of level ps"
    using level_of_attained[of level ps]
  proof
    assume "\<exists>p\<in>set ps. level_of level ps = Suc (level p)"
    then obtain p where p: "p \<in> set ps" "level_of level ps = Suc (level p)" by blast
    then obtain q where "(q, p) \<in> R ^^ level p" using assms(2) by (auto simp: longest_chain_def)
    then show ?thesis using p assms(1) by auto
  qed auto
  fix j q assume "(q, n) \<in> R ^^ j"
  then show "j \<le> level_of level ps"
  proof (cases j)
    case (Suc i)
    then obtain p where p: "(q, p) \<in> R ^^ i" "(p, n) \<in> R" using \<open>(q, n) \<in> R ^^ j\<close> by auto
    then have "p \<in> set ps" using assms(1) by blast
    moreover have "i \<le> level p" using assms(2)[OF calculation] p(1) by (auto simp: longest_chain_def)
    ultimately show ?thesis using level_of_upper[of p ps level] Suc by simp
  qed simp
qed

lemma levels_loop_spec:
  assumes "levels_loop (prereqs_of g order) ns level deepest = (level', deepest')"
    and "order = xs @ ns" and "distinct order" and "forward (links g False) order"
    and "\<forall>n\<in>set xs. longest_chain (links g False) n (level n) \<and> level n \<le> deepest"
  shows "\<forall>n\<in>set order. longest_chain (links g False) n (level' n) \<and> level' n \<le> deepest'"
  using assms
proof (induction ns arbitrary: xs level deepest)
  case (Cons n ns)
  let ?R = "links g False"
  let ?l = "level_of level (prereqs_of g order n)"
  have pre: "p \<in> set xs" if "(p, n) \<in> ?R" for p
    using Cons.prems(2,4) that by (auto simp: forward_def dest!: spec[of _ "length xs"])
  then have ps: "p \<in> set (prereqs_of g order n) \<longleftrightarrow> (p, n) \<in> ?R" for p
    using Cons.prems(2) by (auto simp: prereqs_set)
  have "longest_chain ?R n ?l"
    by (rule longest_chain_step) (use ps pre Cons.prems(5) in auto)
  moreover have "n \<notin> set xs" using Cons.prems(2,3) by simp
  ultimately have "\<forall>m\<in>set (xs @ [n]). longest_chain ?R m ((level(n := ?l)) m) \<and>
      (level(n := ?l)) m \<le> (if ?l > deepest then ?l else deepest)"
    using Cons.prems(5) by fastforce
  moreover have "levels_loop (prereqs_of g order) ns (level(n := ?l)) (if ?l > deepest then ?l else deepest) = (level', deepest')"
    using Cons.prems(1) by (simp add: Let_def)
  moreover have "order = (xs @ [n]) @ ns" using Cons.prems(2) by simp
  ultimately show ?case using Cons.IH Cons.prems(3,4) by blast
qed simp

lemma fold_buckets:
  "\<forall>n\<in>set ns. level n < length out \<Longrightarrow> i < length out \<Longrightarrow>
    fold (\<lambda>n out. out[level n := out ! level n @ [n]]) ns out ! i = out ! i @ filter (\<lambda>n. level n = i) ns"
  "length (fold (\<lambda>n out. out[level n := out ! level n @ [n]]) ns out) = length out"
  by (induction ns arbitrary: out) (auto simp: nth_list_update)

lemma Layers_levels:
  assumes "well_formed g" and "TopologicalSort g = (order, ok)"
  shows "\<exists>level m. Layers g order = map (\<lambda>i. filter (\<lambda>n. level n = i) order) [0..<m] \<and>
    (\<forall>n\<in>set order. longest_chain (links g False) n (level n) \<and> level n < m)"
proof -
  obtain level deepest where r: "levels_loop (prereqs_of g order) order (\<lambda>_. 0) 0 = (level, deepest)"
    by (meson surj_pair)
  from levels_loop_spec[OF r, of "[]"] order_facts(1,3)[OF assms]
  have l: "\<forall>n\<in>set order. longest_chain (links g False) n (level n) \<and> level n \<le> deepest" by simp
  then have small: "\<forall>n\<in>set order. level n < length (replicate (deepest + 1) ([] :: NodeID list))"
    by (auto simp: less_Suc_eq_le)
  have len: "length (Layers g order) = deepest + 1" by (simp add: Layers_def r fold_buckets(2))
  have "Layers g order ! j = filter (\<lambda>n. level n = j) order" if "j < deepest + 1" for j
    using fold_buckets(1)[OF small, of j] that by (simp add: Layers_def r del: replicate_Suc)
  then have "Layers g order = map (\<lambda>i. filter (\<lambda>n. level n = i) order) [0..<deepest + 1]"
    using len by (intro nth_equalityI) (simp_all del: upt_Suc)
  then show ?thesis using l by (intro exI[of _ level] exI[of _ "deepest + 1"]) (auto simp: less_Suc_eq_le simp del: upt_Suc)
qed

text \<open>C0: level \<open>i\<close> holds exactly the placed pages whose longest chain of prerequisites has \<open>i\<close>
  links, in the order the sort gave them, and every placed page is on some level.\<close>

theorem Layers_longest_chain:
  assumes "well_formed g" and "TopologicalSort g = (order, ok)" and "i < length (Layers g order)"
  shows "\<exists>P. Layers g order ! i = filter P order \<and> (\<forall>n\<in>set order. P n \<longleftrightarrow> longest_chain (links g False) n i)"
    and "n \<in> set order \<Longrightarrow> \<exists>j < length (Layers g order). n \<in> set (Layers g order ! j)"
proof -
  obtain level m where l: "Layers g order = map (\<lambda>i. filter (\<lambda>n. level n = i) order) [0..<m]"
    "\<forall>n\<in>set order. longest_chain (links g False) n (level n) \<and> level n < m" using Layers_levels[OF assms(1,2)] by blast
  show "\<exists>P. Layers g order ! i = filter P order \<and> (\<forall>n\<in>set order. P n \<longleftrightarrow> longest_chain (links g False) n i)"
    using l assms(3) longest_chain_unique by (intro exI[of _ "\<lambda>n. level n = i"]) auto
  assume "n \<in> set order"
  then show "\<exists>j < length (Layers g order). n \<in> set (Layers g order ! j)"
    using l by (intro exI[of _ "level n"]) auto
qed

theorem Layers_longest_chain_witness: "longest_chain (links diamond False) ''d'' 2"
proof -
  have l: "Layers diamond [''a'', ''b'', ''c'', ''d'', ''e''] = [[''a'', ''e''], [''b'', ''c''], [''d'']]"
    by code_simp
  have "\<exists>P. Layers diamond [''a'', ''b'', ''c'', ''d'', ''e''] ! 2 = filter P [''a'', ''b'', ''c'', ''d'', ''e''] \<and>
      (\<forall>n\<in>set [''a'', ''b'', ''c'', ''d'', ''e'']. P n \<longleftrightarrow> longest_chain (links diamond False) n 2)"
    by (rule Layers_longest_chain(1)[OF examples_well_formed(1) diamond_order]) (simp add: l)
  then obtain P where f0: "Layers diamond [''a'', ''b'', ''c'', ''d'', ''e''] ! 2 = filter P [''a'', ''b'', ''c'', ''d'', ''e'']"
    and c0: "\<forall>n\<in>set [''a'', ''b'', ''c'', ''d'', ''e'']. P n \<longleftrightarrow> longest_chain (links diamond False) n 2"
    by (elim exE conjE)
  from f0 have f: "filter P [''a'', ''b'', ''c'', ''d'', ''e''] = [''d'']" unfolding l
    by (simp only: nth_Cons_numeral numeral_2_eq_2 nth_Cons_Suc nth_Cons_0)
  from c0 have c: "P ''d'' \<longleftrightarrow> longest_chain (links diamond False) ''d'' 2" by (rule bspec) simp
  have "''d'' \<in> set (filter P [''a'', ''b'', ''c'', ''d'', ''e''])" unfolding f by simp
  then show ?thesis using c by (simp only: set_filter mem_Collect_eq)
qed

end
