(* ===== verification/SortKey.thy ===== *)
theory SortKey
  imports Prelude
begin

text \<open>
  Fractional-index sort keys, document-service internal/sortkey/sortkey.go: a key strictly
  between two given ones, by byte-wise string order.
\<close>

subsection \<open>The code\<close>

definition alphabet :: string where
  "alphabet = ''0123456789abcdefghijklmnopqrstuvwxyz''"

definition base :: int where
  "base = int (length alphabet)"

text \<open>\<open>strings.IndexByte\<close>: the first position of the byte, or -1.\<close>

fun IndexByte :: "string \<Rightarrow> char \<Rightarrow> int" where
  "IndexByte [] c = -1"
| "IndexByte (x # xs) c =
     (if x = c then 0 else (let i = IndexByte xs c in if i = -1 then -1 else i + 1))"

definition digitValue :: "char \<Rightarrow> int" where
  "digitValue c = IndexByte alphabet c"

text \<open>Indexing out of range panics.\<close>

definition digitChar :: "int \<Rightarrow> char option" where
  "digitChar v = (if 0 \<le> v \<and> v < base then Some (alphabet ! nat v) else None)"

datatype key_result = Key string | ErrNoRoom | ErrUnordered | Panic

definition append_digit :: "string \<Rightarrow> int \<Rightarrow> (string \<Rightarrow> key_result) \<Rightarrow> key_result" where
  "append_digit result v k = (case digitChar v of None \<Rightarrow> Panic | Some c \<Rightarrow> k (result @ [c]))"

lemma append_digit_cong [fundef_cong]:
  "result = result' \<Longrightarrow> v = v' \<Longrightarrow> (\<And>c. digitChar v' = Some c \<Longrightarrow> k (result' @ [c]) = k' (result' @ [c])) \<Longrightarrow>
    append_digit result v k = append_digit result' v' k'"
  by (simp add: append_digit_def split: option.splits)

text \<open>
  The loop at position \<open>i\<close>: \<open>prev\<close> and \<open>next\<close> are what is left of the two keys from there, and
  \<open>bounded\<close> is the test \<open>len(next) > 0\<close> of the whole key.
\<close>

function between_loop :: "bool \<Rightarrow> bool \<Rightarrow> string \<Rightarrow> string \<Rightarrow> string \<Rightarrow> key_result" where
  "between_loop bounded nextOpen prev next result =
     (let prevHasDigit = prev \<noteq> [];
          pDigit = (if prevHasDigit then digitValue (hd prev) else 0);
          nextHasDigit = (\<not> nextOpen \<and> next \<noteq> [])
      in if \<not> nextHasDigit \<and> \<not> nextOpen \<and> bounded then ErrNoRoom
         else let nDigit = (if nextHasDigit then digitValue (hd next) else base)
         in if nDigit - pDigit > 1 then append_digit result (pDigit + (nDigit - pDigit) div 2) Key
            else if nDigit - pDigit = 1 then
              append_digit result pDigit (\<lambda>result.
                if \<not> prevHasDigit then append_digit result (base div 2) Key
                else between_loop bounded True (tl prev) (tl next) result)
            else if \<not> prevHasDigit \<and> \<not> nextHasDigit then append_digit result (base div 2) Key
            else append_digit result pDigit (\<lambda>result. between_loop bounded nextOpen (tl prev) (tl next) result))"
  by pat_completeness auto
termination
  by (relation "measure (\<lambda>(bounded, nextOpen, prev, next, result). length prev + length next)")
    (auto simp: Let_def neq_Nil_conv split: if_splits)

declare between_loop.simps [simp del]

definition between :: "string \<Rightarrow> string \<Rightarrow> key_result" where
  "between prev next = between_loop (next \<noteq> []) False prev next []"

definition Between :: "string \<Rightarrow> string \<Rightarrow> key_result" where
  "Between prev next =
     (if prev \<noteq> [] \<and> next \<noteq> [] \<and> next \<le> prev then ErrUnordered else between prev next)"

subsection \<open>Digits\<close>

definition valid_key :: "string \<Rightarrow> bool" where
  "valid_key s \<longleftrightarrow> set s \<subseteq> set alphabet"

lemma base_eq [simp]: "base = 36"
  by code_simp

lemma alphabet_sorted: "sorted_wrt (<) alphabet"
  by code_simp

lemma alphabet_length: "length alphabet = 36"
  by code_simp

lemma IndexByte_nth:
  "c \<in> set xs \<Longrightarrow> \<exists>i < length xs. IndexByte xs c = int i \<and> xs ! i = c"
proof (induction xs)
  case (Cons x xs)
  show ?case
  proof (cases "x = c")
    case False
    then obtain i where "i < length xs" "IndexByte xs c = int i" "xs ! i = c" using Cons by auto
    then show ?thesis using False by (intro exI[of _ "Suc i"]) simp
  qed (auto intro: exI[of _ 0])
qed simp

lemma digit_index:
  assumes "c \<in> set alphabet"
  obtains i where "i < 36" "digitValue c = int i" "alphabet ! i = c"
  using IndexByte_nth[OF assms] by (auto simp: digitValue_def alphabet_length)

lemma digitValue_bounds: "c \<in> set alphabet \<Longrightarrow> 0 \<le> digitValue c \<and> digitValue c < 36"
  by (erule digit_index) simp

lemma digitChar_digitValue: "c \<in> set alphabet \<Longrightarrow> digitChar (digitValue c) = Some c"
  by (erule digit_index) (simp add: digitChar_def)

lemma digitValue_less:
  assumes "c \<in> set alphabet" and "d \<in> set alphabet"
  shows "c < d \<longleftrightarrow> digitValue c < digitValue d"
proof -
  obtain i j where "i < 36" "digitValue c = int i" "alphabet ! i = c"
    "j < 36" "digitValue d = int j" "alphabet ! j = d"
    using assms by (elim digit_index)
  moreover have "alphabet ! i < alphabet ! j" if "i < j" "j < 36" for i j
    using sorted_wrt_nth_less[OF alphabet_sorted] that by (simp add: alphabet_length)
  ultimately show ?thesis by (metis of_nat_less_iff less_asym nat_neq_iff order.irrefl)
qed

lemma digitValue_eq: "c \<in> set alphabet \<Longrightarrow> d \<in> set alphabet \<Longrightarrow> digitValue c = digitValue d \<longleftrightarrow> c = d"
  by (metis digitChar_digitValue option.inject)

lemma digitChar_range:
  assumes "0 \<le> v" and "v < 36"
  shows "\<exists>c. digitChar v = Some c \<and> c \<in> set alphabet \<and> digitValue c = v"
proof -
  let ?c = "alphabet ! nat v"
  have c: "?c \<in> set alphabet" using assms by (simp add: alphabet_length)
  obtain i where i: "i < 36" "digitValue ?c = int i" "alphabet ! i = ?c" using c by (rule digit_index)
  have "distinct alphabet" by code_simp
  then have "i = nat v" using i assms by (simp add: nth_eq_iff_index_eq alphabet_length)
  then show ?thesis using assms i c by (auto simp: digitChar_def)
qed

subsection \<open>What the loop returns\<close>

lemma Cons_less_iff [simp]: "(x # xs :: string) < y # ys \<longleftrightarrow> x < y \<or> x = y \<and> xs < ys"
  by (simp add: list_less_def lexord_cons_cons)

definition good_digits :: "string \<Rightarrow> bool" where
  "good_digits s \<longleftrightarrow> valid_key s \<and> s \<noteq> [] \<and> last s \<noteq> CHR ''0''"

lemma good_digits_Cons [simp]: "good_digits (c # s) \<longleftrightarrow>
    c \<in> set alphabet \<and> (if s = [] then c \<noteq> CHR ''0'' else good_digits s)"
  by (auto simp: good_digits_def valid_key_def)

lemma good_digits_nonempty: "good_digits s \<Longrightarrow> s \<noteq> []"
  by (simp add: good_digits_def)

lemma zero_digit: "CHR ''0'' \<in> set alphabet" "digitValue (CHR ''0'') = 0" "digitChar 0 = Some (CHR ''0'')"
  and half_digit: "CHR ''i'' \<in> set alphabet" "digitChar 18 = Some (CHR ''i'')"
  by code_simp+

lemma nonzero_digit: "digitValue c \<noteq> 0 \<Longrightarrow> c \<noteq> CHR ''0''"
  using zero_digit(2) by auto

lemma mid_between:
  "(b :: int) - a > 1 \<Longrightarrow> 0 \<le> a \<Longrightarrow> b \<le> 36 \<Longrightarrow>
    a < a + (b - a) div 2 \<and> a + (b - a) div 2 < b \<and> 0 < a + (b - a) div 2 \<and> a + (b - a) div 2 < 36"
  by presburger

lemma loop_open:
  "valid_key p \<Longrightarrow> nextOpen \<or> \<not> bounded \<and> n = [] \<Longrightarrow>
    \<exists>s. between_loop bounded nextOpen p n r = Key (r @ s) \<and> p < s \<and> good_digits s"
proof (induction p arbitrary: nextOpen n r)
  case Nil
  then have "between_loop bounded nextOpen [] n r = Key (r @ ''i'')"
    by (subst between_loop.simps) (auto simp: Let_def append_digit_def half_digit(2))
  then show ?case using half_digit(1) by (intro exI[of _ "''i''"]) auto
next
  case (Cons c p)
  have c: "c \<in> set alphabet" "valid_key p" using Cons.prems(1) by (auto simp: valid_key_def)
  let ?d = "digitValue c"
  have d: "0 \<le> ?d" "?d < 36" using digitValue_bounds[OF c(1)] by auto
  show ?case
  proof (cases "?d = 35")
    case True
    have "\<exists>s. between_loop bounded True p (tl n) (r @ [c]) = Key ((r @ [c]) @ s) \<and> p < s \<and> good_digits s"
      by (rule Cons.IH[OF c(2)]) simp
    then obtain s where s: "between_loop bounded True p (tl n) (r @ [c]) = Key ((r @ [c]) @ s)" "p < s" "good_digits s"
      by blast
    have "digitChar 35 = Some c" using digitChar_digitValue[OF c(1)] True by simp
    then have "between_loop bounded nextOpen (c # p) n r = between_loop bounded True p (tl n) (r @ [c])"
      using Cons.prems(2) True by (subst between_loop.simps) (auto simp: Let_def append_digit_def)
    then show ?thesis using s c(1) good_digits_nonempty[OF s(3)] by (intro exI[of _ "c # s"]) auto
  next
    case False
    let ?m = "?d + (36 - ?d) div 2"
    have m: "?d < ?m" "?m < 36" "0 < ?m" 
      using mid_between[of ?d 36] d False by simp_all
    obtain x where x: "digitChar ?m = Some x" "x \<in> set alphabet" "digitValue x = ?m"
      using digitChar_range[of ?m] m by auto
    have "between_loop bounded nextOpen (c # p) n r = Key (r @ [x])"
      using Cons.prems(2) False d x(1) by (subst between_loop.simps) (auto simp: Let_def append_digit_def)
    moreover have "c < x" using digitValue_less[OF c(1) x(2)] x(3) m(1) by simp
    ultimately show ?thesis using x m(3) nonzero_digit[of x] by (intro exI[of _ "[x]"]) auto
  qed
qed

lemma loop_bounded:
  "valid_key p \<Longrightarrow> valid_key n \<Longrightarrow> p < n \<or> p = [] \<and> n = [] \<Longrightarrow>
    (\<exists>s. between_loop True False p n r = Key (r @ s) \<and> p < s \<and> s < n \<and> good_digits s) \<or>
    between_loop True False p n r = ErrNoRoom \<and> (\<exists>k. n = p @ replicate k (CHR ''0''))"
proof (induction n arbitrary: p r)
  case Nil
  then have "p = []" by (auto simp: list_less_def)
  then have "between_loop True False p [] r = ErrNoRoom" by (subst between_loop.simps) simp
  then show ?case using \<open>p = []\<close> by (intro disjI2 conjI exI[of _ 0]) auto
next
  case (Cons d n)
  have d: "d \<in> set alphabet" "valid_key n" using Cons.prems(2) by (auto simp: valid_key_def)
  let ?n = "digitValue d" and ?p = "if p = [] then 0 else digitValue (hd p)"
  let ?c = "if p = [] then CHR ''0'' else hd p"
  have c: "?c \<in> set alphabet" "digitValue ?c = ?p" "valid_key (tl p)" "digitChar ?p = Some ?c"
    using Cons.prems(1) zero_digit digitChar_digitValue by (cases p; auto simp: valid_key_def)+
  have b: "0 \<le> ?n" "?n < 36" "0 \<le> ?p" using digitValue_bounds d(1) c(1,2) by metis+
  have ord: "?c < d \<or> ?c = d \<and> (tl p < n \<or> tl p = [] \<and> n = [])"
  proof (cases p)
    case Nil
    have "?p \<le> ?n" using b Nil by simp
    then have "?c < d \<or> ?c = d" using digitValue_less[OF c(1) d(1)] digitValue_eq[OF c(1) d(1)] c(2) by auto
    then show ?thesis using Nil by (cases n) auto
  next
    case (Cons x q)
    then show ?thesis using Cons.prems(3) by auto
  qed
  have below: "p < ?c # s" if "tl p < s \<or> tl p = [] \<and> p = []" for s
    using that by (cases p) auto
  show ?case
  proof (cases "?n - ?p > 1")
    case True
    let ?m = "?p + (?n - ?p) div 2"
    have m: "?p < ?m" "?m < ?n" "0 < ?m" "?m < 36" 
      using mid_between[of ?p ?n] b True by simp_all
    obtain x where x: "digitChar ?m = Some x" "x \<in> set alphabet" "digitValue x = ?m"
      using digitChar_range[of ?m] m by auto
    have "between_loop True False p (d # n) r = Key (r @ [x])"
      using True x(1) by (subst between_loop.simps) (cases p; simp add: Let_def append_digit_def)
    moreover have "?c < x" using digitValue_less[OF c(1) x(2)] c(2) x(3) m(1) by simp
    then have "p < [x]" by (cases p) auto
    moreover have "x < d" using digitValue_less[OF x(2) d(1)] x(3) m(2) by simp
    ultimately show ?thesis using x m(3) nonzero_digit[of x] by (intro disjI1 exI[of _ "[x]"]) auto
  next
    case le1: False
    show ?thesis
    proof (cases "?n - ?p = 1")
      case True
      have cd: "?c < d" using digitValue_less[OF c(1) d(1)] c(2) True by simp
      show ?thesis
      proof (cases p)
        case Nil
        have "between_loop True False p (d # n) r = Key (r @ ''0i'')"
          using True Nil zero_digit(3) half_digit(2) by (subst between_loop.simps) (auto simp: Let_def append_digit_def)
        then show ?thesis using Nil cd zero_digit(1) half_digit(1) by (intro disjI1 exI[of _ "''0i''"]) auto
      next
        case (Cons x q)
        have "between_loop True False p (d # n) r = between_loop True True q n (r @ [x])"
          using True Cons c(4) by (subst between_loop.simps) (simp add: Let_def append_digit_def)
        moreover obtain s where s: "between_loop True True q n (r @ [x]) = Key ((r @ [x]) @ s)" "q < s" "good_digits s"
          using loop_open[of q True True n "r @ [x]"] c(3) Cons by auto
        ultimately show ?thesis
          using Cons c(1) cd good_digits_nonempty[OF s(3)] by (intro disjI1 exI[of _ "x # s"]) auto
      qed
    next
      case False
      then have eq: "?c = d" "tl p < n \<or> tl p = [] \<and> n = []"
        using ord le1 digitValue_less[OF c(1) d(1)] c(2) by auto
      have run: "between_loop True False p (d # n) r = between_loop True False (tl p) n (r @ [d])"
        using False le1 c(4) eq(1) by (subst between_loop.simps) (auto simp: Let_def append_digit_def)
      from Cons.IH[OF c(3) d(2) eq(2)] consider
        s where "between_loop True False (tl p) n (r @ [d]) = Key ((r @ [d]) @ s)" "tl p < s" "s < n" "good_digits s"
        | k where "between_loop True False (tl p) n (r @ [d]) = ErrNoRoom" "n = tl p @ replicate k (CHR ''0'')" by blast
      then show ?thesis
      proof cases
        case 1
        then show ?thesis using run below[of s] eq(1) d(1) good_digits_nonempty[OF 1(4)]
          by (intro disjI1 exI[of _ "d # s"]) auto
      next
        case 2
        have "\<exists>k. d # n = p @ replicate k (CHR ''0'')"
          using 2(2) eq(1) by (cases p) (auto intro: exI[of _ "Suc k"])
        then show ?thesis using run 2(1) by simp
      qed
    qed
  qed
qed

lemma Between_total:
  assumes "valid_key prev" and "valid_key next" and "prev = [] \<or> next = [] \<or> prev < next"
  shows "case Between prev next of
      Key r \<Rightarrow> prev < r \<and> (next = [] \<or> r < next) \<and> good_digits r
    | ErrNoRoom \<Rightarrow> next \<noteq> [] \<and> (\<exists>k. next = prev @ replicate k (CHR ''0''))
    | _ \<Rightarrow> False"
proof (cases "next = []")
  case True
  then obtain s where "between_loop False False prev [] [] = Key ([] @ s)" "prev < s" "good_digits s"
    using loop_open[OF assms(1), of False False "[]" "[]"] by auto
  then show ?thesis using True by (simp add: Between_def between_def)
next
  case False
  then have "prev < next" using assms(3) by (cases "next") auto
  then have eq: "Between prev next = between_loop True False prev next []"
    using False by (auto simp: Between_def between_def)
  show ?thesis
    using loop_bounded[OF assms(1,2), of "[]"] \<open>prev < next\<close> False unfolding eq by auto
qed

text \<open>C29: for any two keys over the alphabet, or an empty bound, the loop returns, without panicking:
  either a key strictly between them that does not end in the smallest digit, or the no-room error,
  and that only when the upper key is the lower one followed by smallest digits.\<close>

theorem Between_in_order:
  assumes "valid_key prev" and "valid_key next" and "prev = [] \<or> next = [] \<or> prev < next"
  shows "case Between prev next of
      Key r \<Rightarrow> prev < r \<and> (next = [] \<or> r < next) \<and> good_digits r
    | ErrNoRoom \<Rightarrow> next \<noteq> [] \<and> (\<exists>k. next = prev @ replicate k (CHR ''0''))
    | _ \<Rightarrow> False"
  using assms by (rule Between_total)

theorem Between_in_order_witness:
  "Between ''a'' ''b'' = Key ''ai'' \<and> ''a'' < ''ai'' \<and> ''ai'' < ''b'' \<and> Between ''a'' ''a0'' = ErrNoRoom"
proof -
  have "valid_key ''a''" "valid_key ''b''" "Between ''a'' ''b'' = Key ''ai''" "Between ''a'' ''a0'' = ErrNoRoom"
    "''a'' < ''b''" by code_simp+
  with Between_in_order[of "''a''" "''b''"] show ?thesis by simp
qed

subsection \<open>Keys made by insertion\<close>

text \<open>The keys of siblings when every page is placed by \<open>Between\<close>: after the i-th sibling and
  before the next one.\<close>

definition insert_key :: "string list \<Rightarrow> nat \<Rightarrow> string list option" where
  "insert_key keys i =
     (let prev = (if i = 0 \<or> length keys < i then [] else keys ! (i - 1));
          next = (if i < length keys then keys ! i else [])
      in case Between prev next of Key r \<Rightarrow> Some (take i keys @ r # drop i keys) | _ \<Rightarrow> None)"

fun insert_keys :: "nat list \<Rightarrow> string list \<Rightarrow> string list option" where
  "insert_keys [] keys = Some keys"
| "insert_keys (i # is) keys = (case insert_key keys i of None \<Rightarrow> None | Some keys \<Rightarrow> insert_keys is keys)"

lemma good_digits_room: "good_digits n \<Longrightarrow> n = p @ replicate k (CHR ''0'') \<Longrightarrow> n = p"
  by (cases k) (auto simp: good_digits_def simp flip: replicate_append_same)

lemma insert_key_ok:
  assumes "sorted_wrt (<) keys" and "\<forall>k\<in>set keys. good_digits k" and "i \<le> length keys"
  shows "\<exists>keys'. insert_key keys i = Some keys' \<and> sorted_wrt (<) keys' \<and> (\<forall>k\<in>set keys'. good_digits k) \<and>
    length keys' = Suc (length keys)"
proof -
  let ?prev = "if i = 0 \<or> length keys < i then [] else keys ! (i - 1)"
  let ?next = "if i < length keys then keys ! i else []"
  have good: "good_digits (keys ! j)" if "j < length keys" for j using assms(2) that by simp
  have "valid_key ?prev" using good[of "i - 1"] assms(3) by (auto simp: good_digits_def valid_key_def)
  moreover have "valid_key ?next" using good[of i] by (auto simp: good_digits_def valid_key_def)
  moreover have pn: "?prev = [] \<or> ?next = [] \<or> ?prev < ?next"
    using sorted_wrt_nth_less[OF assms(1), of "i - 1" i] by auto
  ultimately have b: "case Between ?prev ?next of
      Key r \<Rightarrow> ?prev < r \<and> (?next = [] \<or> r < ?next) \<and> good_digits r
    | ErrNoRoom \<Rightarrow> ?next \<noteq> [] \<and> (\<exists>k. ?next = ?prev @ replicate k (CHR ''0''))
    | _ \<Rightarrow> False" by (rule Between_total)
  have "\<not> (?next \<noteq> [] \<and> (\<exists>k. ?next = ?prev @ replicate k (CHR ''0'')))"
  proof
    assume a: "?next \<noteq> [] \<and> (\<exists>k. ?next = ?prev @ replicate k (CHR ''0''))"
    then have "good_digits ?next" using good[of i] by (auto split: if_splits)
    then have "?next = ?prev" using a good_digits_room by blast
    then show False using a pn by auto
  qed
  with b obtain r where r: "Between ?prev ?next = Key r" "?prev < r" "?next = [] \<or> r < ?next" "good_digits r"
    by (auto split: key_result.splits)
  let ?keys = "take i keys @ r # drop i keys"
  have "insert_key keys i = Some ?keys" by (simp add: insert_key_def Let_def r(1))
  moreover have "sorted_wrt (<) ?keys"
  proof -
    have left: "x < r" if "x \<in> set (take i keys)" for x
    proof -
      obtain j where j: "j < i" "j < length keys" "x = keys ! j" using \<open>x \<in> _\<close> by (auto simp: in_set_conv_nth)
      then have "x \<le> keys ! (i - 1)"
        using sorted_wrt_nth_less[OF assms(1), of j "i - 1"] assms(3)
        by (cases "j < i - 1") (auto simp: less_imp_le not_less dest: le_antisym)
      then show ?thesis using r(2) j assms(3) by (auto split: if_splits)
    qed
    have right: "r < x" if "x \<in> set (drop i keys)" for x
    proof -
      obtain j where j: "i + j < length keys" "x = keys ! (i + j)"
        using \<open>x \<in> _\<close> unfolding in_set_conv_nth by (metis add.commute length_drop less_diff_conv nth_drop assms(3))
      then have "keys ! i \<le> x" using sorted_wrt_nth_less[OF assms(1), of i "i + j"] by (cases j) auto
      moreover have "keys ! i \<noteq> []" using good[of i] j by (auto simp: good_digits_def)
      ultimately show ?thesis using r(3) j by auto
    qed
    have "sorted_wrt (<) (take i keys @ drop i keys)" using assms(1) by simp
    then show ?thesis using left right less_trans
      unfolding sorted_wrt_append sorted_wrt.simps by (auto intro: less_trans)
  qed
  moreover have "\<forall>k\<in>set ?keys. good_digits k"
    using assms(2) r(4) by (auto dest: in_set_takeD in_set_dropD)
  ultimately show ?thesis using assms(3) by auto
qed

text \<open>Keys made by the function never run out: starting from no siblings, placing pages one
  after another at any positions always finds a key, and the keys stay strictly increasing in the
  order of the positions asked for.\<close>

theorem insert_keys_never_full:
  assumes "\<forall>j < length is. is ! j \<le> j"
  shows "\<exists>keys. insert_keys is [] = Some keys \<and> sorted_wrt (<) keys \<and> length keys = length is"
proof -
  have "\<exists>keys'. insert_keys is keys = Some keys' \<and> sorted_wrt (<) keys' \<and> length keys' = length keys + length is"
    if "sorted_wrt (<) keys" "\<forall>k\<in>set keys. good_digits k" "\<forall>j < length is. is ! j \<le> length keys + j" for keys "is"
    using that
  proof (induction "is" arbitrary: keys)
    case (Cons i "is")
    have "i \<le> length keys" using Cons.prems(3) by auto
    from insert_key_ok[OF Cons.prems(1,2) this] obtain keys' where
      k: "insert_key keys i = Some keys'" "sorted_wrt (<) keys'" "\<forall>k\<in>set keys'. good_digits k"
        "length keys' = Suc (length keys)" by blast
    have "\<forall>j < length is. is ! j \<le> length keys' + j" using Cons.prems(3) k(4) by auto
    from Cons.IH[OF k(2,3) this] show ?case using k(1,4) by auto
  qed simp
  from this[of "[]" "is"] show ?thesis using assms by simp
qed

theorem insert_keys_never_full_witness: "insert_keys [0, 0, 2, 1] [] = Some [''9'', ''d'', ''i'', ''r''] \<and> sorted_wrt (<) [''9'', ''d'', ''i'', ''r'']"
proof -
  have e: "insert_keys [0, 0, 2, 1] [] = Some [''9'', ''d'', ''i'', ''r'']" by code_simp
  have "\<forall>j < length [0, 0, 2, 1 :: nat]. [0, 0, 2, 1] ! j \<le> j" by code_simp
  from insert_keys_never_full[OF this] show ?thesis using e by simp
qed

end
