(* ===== verification/PageTable.thy ===== *)
theory PageTable
  imports PagePaths SortKey
begin

text \<open>
  The rows of docs.pages and the queries of document-service's internal/pagerepo over them. A
  table is the list of its rows; \<open>NOW()\<close>, the time of the transaction, is an argument. Text
  compares by byte, the collation the keys of sortkey are made for.
\<close>

subsection \<open>Rows\<close>

datatype LifecycleState = Active | Deleting | Deleted

record Page =
  pg_ID :: uuid
  CreatedBy :: uuid
  Title :: string
  ParentID :: "uuid option"
  Path :: string
  pg_SortKey :: string
  Lifecycle :: LifecycleState
  DeletedAt :: "nat option"
  CreatedAt :: nat
  UpdatedAt :: nat
  SpaceID :: uuid

type_synonym page_table = "Page list"

definition live :: "Page \<Rightarrow> bool" where
  "live r \<longleftrightarrow> DeletedAt r = None"

subsection \<open>Queries\<close>

text \<open>A query for one row gives \<open>None\<close> for \<open>pgx.ErrNoRows\<close>.\<close>

definition GetPage :: "page_table \<Rightarrow> uuid \<Rightarrow> Page option" where
  "GetPage t i = find (\<lambda>r. pg_ID r = i \<and> live r) t"

text \<open>The live children of a parent, or the live root pages, without the excluded page.\<close>

definition siblings :: "page_table \<Rightarrow> uuid option \<Rightarrow> uuid option \<Rightarrow> Page list" where
  "siblings t parent_id exclude_id =
     filter (\<lambda>r. live r \<and> ParentID r = parent_id \<and> (case exclude_id of None \<Rightarrow> True | Some x \<Rightarrow> pg_ID r \<noteq> x)) t"

definition NextSiblingSortKey :: "page_table \<Rightarrow> uuid option \<Rightarrow> string \<Rightarrow> uuid option \<Rightarrow> string option" where
  "NextSiblingSortKey t parent_id after_sort_key exclude_id =
     (case sort (map pg_SortKey (filter (\<lambda>r. after_sort_key < pg_SortKey r) (siblings t parent_id exclude_id))) of
        [] \<Rightarrow> None | k # _ \<Rightarrow> Some k)"

definition LastSiblingSortKey :: "page_table \<Rightarrow> uuid option \<Rightarrow> uuid option \<Rightarrow> string option" where
  "LastSiblingSortKey t parent_id exclude_id =
     (case rev (sort (map pg_SortKey (siblings t parent_id exclude_id))) of
        [] \<Rightarrow> None | k # _ \<Rightarrow> Some k)"

text \<open>\<open>None\<close> when the primary key is taken.\<close>

definition CreatePage :: "page_table \<Rightarrow> Page \<Rightarrow> page_table option" where
  "CreatePage t row = (if pg_ID row \<in> set (map pg_ID t) then None else Some (t @ [row]))"

definition ListPages :: "page_table \<Rightarrow> uuid list \<Rightarrow> uuid option \<Rightarrow> string option \<Rightarrow> nat \<Rightarrow> Page list" where
  "ListPages t space_ids parent_id after lim =
     take lim (sort_key pg_SortKey
       (filter (\<lambda>r. live r \<and> SpaceID r \<in> set space_ids \<and> ParentID r = parent_id \<and>
          (case after of None \<Rightarrow> True | Some k \<Rightarrow> k < pg_SortKey r)) t))"

text \<open>An update of the rows a condition selects, with their number.\<close>

definition update_rows :: "(Page \<Rightarrow> bool) \<Rightarrow> (Page \<Rightarrow> Page) \<Rightarrow> page_table \<Rightarrow> page_table" where
  "update_rows c f t = map (\<lambda>r. if c r then f r else r) t"

definition RenamePage :: "page_table \<Rightarrow> nat \<Rightarrow> uuid \<Rightarrow> string \<Rightarrow> page_table" where
  "RenamePage t now i title =
     update_rows (\<lambda>r. pg_ID r = i \<and> live r) (\<lambda>r. r\<lparr>Title := title, UpdatedAt := now\<rparr>) t"

definition ReparentPageRow :: "page_table \<Rightarrow> nat \<Rightarrow> uuid \<Rightarrow> uuid option \<Rightarrow> string \<Rightarrow> string \<Rightarrow> page_table" where
  "ReparentPageRow t now i parent_id path key =
     update_rows (\<lambda>r. pg_ID r = i \<and> live r)
       (\<lambda>r. r\<lparr>ParentID := parent_id, Path := path, pg_SortKey := key, UpdatedAt := now\<rparr>) t"

definition RewriteDescendantPaths :: "page_table \<Rightarrow> nat \<Rightarrow> string \<Rightarrow> string \<Rightarrow> uuid \<Rightarrow> page_table" where
  "RewriteDescendantPaths t now new_prefix old_prefix page_id =
     update_rows (\<lambda>r. ltree_descendant (Path r) old_prefix \<and> pg_ID r \<noteq> page_id)
       (\<lambda>r. r\<lparr>Path := ltree_append new_prefix (subpath (Path r) (nlevel old_prefix)), UpdatedAt := now\<rparr>) t"

definition soft_delete :: "nat \<Rightarrow> Page \<Rightarrow> Page" where
  "soft_delete now r = r\<lparr>Lifecycle := Deleting, DeletedAt := Some now, UpdatedAt := now\<rparr>"

definition SoftDeletePage :: "page_table \<Rightarrow> nat \<Rightarrow> uuid \<Rightarrow> page_table" where
  "SoftDeletePage t now i = update_rows (\<lambda>r. pg_ID r = i \<and> live r) (soft_delete now) t"

definition SoftDeleteDescendants :: "page_table \<Rightarrow> nat \<Rightarrow> string \<Rightarrow> uuid \<Rightarrow> page_table" where
  "SoftDeleteDescendants t now parent_path page_id =
     update_rows (\<lambda>r. ltree_descendant (Path r) parent_path \<and> pg_ID r \<noteq> page_id \<and> live r) (soft_delete now) t"

text \<open>The join with the target row: no target, no rows. \<open>p.deleted_at = target.deleted_at\<close> is not
  true of nulls.\<close>

definition restorable :: "Page \<Rightarrow> Page \<Rightarrow> bool" where
  "restorable target r \<longleftrightarrow> pg_ID r = pg_ID target \<or>
     ltree_descendant (Path r) (Path target) \<and> DeletedAt r \<noteq> None \<and> DeletedAt r = DeletedAt target"

definition RestorePageAndSubtree :: "page_table \<Rightarrow> nat \<Rightarrow> uuid \<Rightarrow> nat \<times> page_table" where
  "RestorePageAndSubtree t now i =
     (case find (\<lambda>r. pg_ID r = i \<and> Lifecycle r = Deleted) t of
        None \<Rightarrow> (0, t)
      | Some target \<Rightarrow>
          (length (filter (restorable target) t),
           update_rows (restorable target) (\<lambda>r. r\<lparr>Lifecycle := Active, DeletedAt := None, UpdatedAt := now\<rparr>) t))"

subsection \<open>What the queries find\<close>

lemma find_SomeD: "find P xs = Some x \<Longrightarrow> x \<in> set xs \<and> P x"
  by (induction xs) (auto split: if_splits)

lemma find_ex: "find P xs = None \<longleftrightarrow> (\<forall>x\<in>set xs. \<not> P x)"
  by (induction xs) auto

lemma GetPage_SomeD: "GetPage t i = Some r \<Longrightarrow> r \<in> set t \<and> pg_ID r = i \<and> live r"
  by (auto simp: GetPage_def dest: find_SomeD)

lemma GetPage_distinct:
  "distinct (map pg_ID t) \<Longrightarrow> GetPage t i = Some r \<longleftrightarrow> r \<in> set t \<and> pg_ID r = i \<and> live r"
  by (induction t) (auto simp: GetPage_def)

lemma update_rows_ids: "(\<And>r. pg_ID (f r) = pg_ID r) \<Longrightarrow> map pg_ID (update_rows c f t) = map pg_ID t"
  by (auto simp: update_rows_def)

lemma set_update_rows: "set (update_rows c f t) = (\<lambda>r. if c r then f r else r) ` set t"
  by (simp add: update_rows_def)

lemma siblings_set:
  "r \<in> set (siblings t p x) \<longleftrightarrow> r \<in> set t \<and> live r \<and> ParentID r = p \<and> x \<noteq> Some (pg_ID r)"
  by (auto simp: siblings_def split: option.splits)

lemma NextSibling_Some:
  "NextSiblingSortKey t p k x = Some n \<Longrightarrow> k < n \<and> (\<exists>r\<in>set (siblings t p x). pg_SortKey r = n) \<and>
    (\<forall>r\<in>set (siblings t p x). k < pg_SortKey r \<longrightarrow> n \<le> pg_SortKey r)"
proof -
  let ?ks = "sort (map pg_SortKey (filter (\<lambda>r. k < pg_SortKey r) (siblings t p x)))"
  assume "NextSiblingSortKey t p k x = Some n"
  then obtain ks where ks: "?ks = n # ks" by (auto simp: NextSiblingSortKey_def split: list.splits)
  have "sorted ?ks" by simp
  then have least: "\<forall>m\<in>set ?ks. n \<le> m" using ks by auto
  have "n \<in> set ?ks" using ks by simp
  then show ?thesis using least by auto
qed

lemma NextSibling_None:
  "NextSiblingSortKey t p k x = None \<Longrightarrow> \<forall>r\<in>set (siblings t p x). pg_SortKey r \<le> k"
proof -
  let ?ks = "map pg_SortKey (filter (\<lambda>r. k < pg_SortKey r) (siblings t p x))"
  assume "NextSiblingSortKey t p k x = None"
  then have "sort ?ks = []" by (auto simp: NextSiblingSortKey_def split: list.splits)
  then have "set ?ks = {}" by (metis set_empty set_sort)
  then show ?thesis by (auto simp: not_less[symmetric])
qed

lemma LastSibling_Some:
  "LastSiblingSortKey t p x = Some n \<Longrightarrow> (\<exists>r\<in>set (siblings t p x). pg_SortKey r = n) \<and>
    (\<forall>r\<in>set (siblings t p x). pg_SortKey r \<le> n)"
proof -
  let ?ks = "sort (map pg_SortKey (siblings t p x))"
  assume "LastSiblingSortKey t p x = Some n"
  then obtain ks where "rev ?ks = n # ks" by (auto simp: LastSiblingSortKey_def split: list.splits)
  then have ks: "?ks = rev ks @ [n]" by (simp add: rev_eq_append_conv)
  have "sorted ?ks" by simp
  then have "\<forall>m\<in>set ?ks. m \<le> n" unfolding ks by (auto simp: sorted_append)
  moreover have "n \<in> set ?ks" unfolding ks by simp
  ultimately show ?thesis by auto
qed

lemma LastSibling_None: "LastSiblingSortKey t p x = None \<Longrightarrow> siblings t p x = []"
proof -
  assume "LastSiblingSortKey t p x = None"
  then have "rev (sort (map pg_SortKey (siblings t p x))) = []"
    by (auto simp: LastSiblingSortKey_def split: list.splits)
  then have "set (map pg_SortKey (siblings t p x)) = {}" by (metis rev_is_Nil_conv set_empty set_sort)
  then show ?thesis by simp
qed

end
