(* ===== verification/PageRepo.thy ===== *)
theory PageRepo
  imports PageTable
begin

text \<open>
  The operations of PostgresRepo in document-service's internal/pages (repo.go, trash_repo.go)
  over the table of pages, each one transaction: an error leaves the table as it was.
\<close>

subsection \<open>The code\<close>

datatype repo_error = ErrNotFound | ErrCycle | ErrAnchorMismatch | ErrSortKey | ErrDuplicateID | ErrPanic

record NewPage =
  np_CreatedBy :: uuid
  np_Title :: string
  np_ParentID :: "uuid option"
  np_After :: "uuid option"
  np_SpaceID :: uuid

record ParentChange =
  Change :: bool
  pc_ParentID :: "uuid option"

definition DefaultSpaceID :: uuid where
  "DefaultSpaceID = 0x0000000000007000800000000000d0c5"

text \<open>\<open>uuid.Nil\<close> is zero.\<close>

definition spaceFor :: "NewPage \<Rightarrow> uuid" where
  "spaceFor np = (if np_SpaceID np \<noteq> 0 then np_SpaceID np else DefaultSpaceID)"

definition key_or_error :: "key_result \<Rightarrow> repo_error + string" where
  "key_or_error k = (case k of Key s \<Rightarrow> Inr s | Panic \<Rightarrow> Inl ErrPanic | _ \<Rightarrow> Inl ErrSortKey)"

definition nextSortKey :: "page_table \<Rightarrow> uuid option \<Rightarrow> uuid option \<Rightarrow> uuid option \<Rightarrow> repo_error + string" where
  "nextSortKey t parentID after excludeID =
     (case after of
        None \<Rightarrow>
          let lastKey = (case LastSiblingSortKey t parentID excludeID of None \<Rightarrow> [] | Some k \<Rightarrow> k)
          in key_or_error (Between lastKey [])
      | Some a \<Rightarrow>
          (case GetPage t a of
             None \<Rightarrow> Inl ErrNotFound
           | Some anchor \<Rightarrow>
               if ParentID anchor \<noteq> parentID then Inl ErrAnchorMismatch
               else let nextKey = (case NextSiblingSortKey t parentID (pg_SortKey anchor) excludeID of
                                     None \<Rightarrow> [] | Some k \<Rightarrow> k)
                 in key_or_error (Between (pg_SortKey anchor) nextKey)))"

text \<open>\<open>i\<close> is the identifier \<open>uuid.NewV7\<close> made.\<close>

definition Create :: "page_table \<Rightarrow> nat \<Rightarrow> uuid \<Rightarrow> NewPage \<Rightarrow> repo_error + (Page \<times> page_table)" where
  "Create t now i np =
     (case (case np_ParentID np of
              None \<Rightarrow> Inr ([], np)
            | Some p \<Rightarrow>
                (case GetPage t p of
                   None \<Rightarrow> Inl ErrNotFound
                 | Some parent \<Rightarrow> Inr (Path parent, np\<lparr>np_SpaceID := SpaceID parent\<rparr>))) of
        Inl e \<Rightarrow> Inl e
      | Inr (parentPath, np) \<Rightarrow>
          (case nextSortKey t (np_ParentID np) (np_After np) None of
             Inl e \<Rightarrow> Inl e
           | Inr sortKey \<Rightarrow>
               let row = \<lparr>pg_ID = i, CreatedBy = np_CreatedBy np, Title = np_Title np,
                          ParentID = np_ParentID np, Path = childPath parentPath i, pg_SortKey = sortKey,
                          Lifecycle = Active, DeletedAt = None, CreatedAt = now, UpdatedAt = now,
                          SpaceID = spaceFor np\<rparr>
               in (case CreatePage t row of
                     None \<Rightarrow> Inl ErrDuplicateID
                   | Some t' \<Rightarrow> Inr (row, t'))))"

text \<open>Reparent reads everything it needs first; what it will write is its plan.\<close>

record reparent_plan =
  target_parent :: "uuid option"
  new_path :: string
  old_path :: string
  new_key :: string

definition reparent_reads :: "page_table \<Rightarrow> uuid \<Rightarrow> ParentChange \<Rightarrow> uuid option \<Rightarrow> repo_error + reparent_plan" where
  "reparent_reads t i parent after =
     (case GetPage t i of
        None \<Rightarrow> Inl ErrNotFound
      | Some current \<Rightarrow>
          let targetParentID = (if Change parent then pc_ParentID parent else ParentID current)
          in (case (case targetParentID of
                      None \<Rightarrow> Inr []
                    | Some p \<Rightarrow>
                        (case GetPage t p of
                           None \<Rightarrow> Inl ErrNotFound
                         | Some targetParent \<Rightarrow>
                             if Path targetParent = Path current \<or> prefix (Path current @ ''.'') (Path targetParent)
                             then Inl ErrCycle
                             else Inr (Path targetParent))) of
                Inl e \<Rightarrow> Inl e
              | Inr targetParentPath \<Rightarrow>
                  (case nextSortKey t targetParentID after (Some i) of
                     Inl e \<Rightarrow> Inl e
                   | Inr sortKey \<Rightarrow>
                       Inr \<lparr>target_parent = targetParentID, new_path = childPath targetParentPath i,
                            old_path = Path current, new_key = sortKey\<rparr>)))"

definition reparent_writes :: "page_table \<Rightarrow> nat \<Rightarrow> uuid \<Rightarrow> reparent_plan \<Rightarrow> repo_error + page_table" where
  "reparent_writes t now i plan =
     (if GetPage t i = None then Inl ErrNotFound
      else let t' = ReparentPageRow t now i (target_parent plan) (new_path plan) (new_key plan)
        in Inr (if new_path plan \<noteq> old_path plan
                then RewriteDescendantPaths t' now (new_path plan) (old_path plan) i else t'))"

definition Reparent :: "page_table \<Rightarrow> nat \<Rightarrow> uuid \<Rightarrow> ParentChange \<Rightarrow> uuid option \<Rightarrow> repo_error + page_table" where
  "Reparent t now i parent after =
     (case reparent_reads t i parent after of
        Inl e \<Rightarrow> Inl e
      | Inr plan \<Rightarrow> reparent_writes t now i plan)"

text \<open>Deleting a page that is not there is no error.\<close>

definition Delete :: "page_table \<Rightarrow> nat \<Rightarrow> uuid \<Rightarrow> page_table" where
  "Delete t now i =
     (case GetPage t i of
        None \<Rightarrow> t
      | Some page \<Rightarrow> SoftDeletePage (SoftDeleteDescendants t now (Path page) i) now i)"

definition Rename :: "page_table \<Rightarrow> nat \<Rightarrow> uuid \<Rightarrow> string \<Rightarrow> repo_error + page_table" where
  "Rename t now i title =
     (if GetPage t i = None then Inl ErrNotFound else Inr (RenamePage t now i title))"

subsection \<open>The tree of pages\<close>

text \<open>Identifiers are unique, and the path of every row, deleted ones too, is its parent's path
  and its own label.\<close>

definition tree_ok :: "page_table \<Rightarrow> bool" where
  "tree_ok t \<longleftrightarrow> distinct (map pg_ID t) \<and>
     (\<forall>r\<in>set t. case ParentID r of
        None \<Rightarrow> Path r = page_path [pg_ID r]
      | Some p \<Rightarrow> (\<exists>q\<in>set t. pg_ID q = p \<and> Path r = childPath (Path q) (pg_ID r)))"

text \<open>The parent links of the rows.\<close>

definition parents :: "page_table \<Rightarrow> (uuid \<times> uuid) set" where
  "parents t = {(p, c). \<exists>r\<in>set t. pg_ID r = c \<and> ParentID r = Some p}"

text \<open>The ancestry a path spells out.\<close>

definition spells :: "page_table \<Rightarrow> Page \<Rightarrow> uuid list \<Rightarrow> bool" where
  "spells t r ids \<longleftrightarrow> Path r = page_path ids \<and> ids \<noteq> [] \<and> last ids = pg_ID r \<and>
     set ids \<subseteq> set (map pg_ID t) \<and> ParentID r = (if butlast ids = [] then None else Some (last (butlast ids)))"

lemma labels_length_child: "length (labels (childPath p i)) = Suc (length (labels p))"
  by simp

lemma tree_spells:
  assumes "tree_ok t" and "r \<in> set t"
  shows "\<exists>ids. spells t r ids"
  using assms(2)
proof (induction "length (labels (Path r))" arbitrary: r rule: less_induct)
  case less
  have r: "case ParentID r of None \<Rightarrow> Path r = page_path [pg_ID r]
      | Some p \<Rightarrow> (\<exists>q\<in>set t. pg_ID q = p \<and> Path r = childPath (Path q) (pg_ID r))"
    using assms(1) less.prems by (simp add: tree_ok_def)
  show ?case
  proof (cases "ParentID r")
    case None
    then show ?thesis using r less.prems by (intro exI[of _ "[pg_ID r]"]) (simp add: spells_def)
  next
    case (Some p)
    then obtain q where q: "q \<in> set t" "pg_ID q = p" "Path r = childPath (Path q) (pg_ID r)" using r by auto
    then obtain ids where "spells t q ids" using less.hyps[of q] by auto
    then show ?thesis using q Some less.prems
      by (intro exI[of _ "ids @ [pg_ID r]"]) (auto simp: spells_def)
  qed
qed

lemma spells_unique: "spells t r a \<Longrightarrow> spells t r b \<Longrightarrow> a = b"
  by (auto simp: spells_def)

lemma same_page: "tree_ok t \<Longrightarrow> q \<in> set t \<Longrightarrow> r \<in> set t \<Longrightarrow> pg_ID q = pg_ID r \<Longrightarrow> q = r"
  by (auto simp: tree_ok_def distinct_map inj_on_def)

lemma spells_parent:
  assumes "tree_ok t" and "r \<in> set t" and "spells t r ids" and "ParentID r = Some p"
  obtains q where "q \<in> set t" "pg_ID q = p" "spells t q (butlast ids)"
proof -
  from assms(1,2,4) obtain q where q: "q \<in> set t" "pg_ID q = p" "Path r = childPath (Path q) (pg_ID r)"
    by (auto simp: tree_ok_def split: option.splits)
  obtain js where j: "spells t q js" using tree_spells[OF assms(1) q(1)] by blast
  then have "Path r = page_path (js @ [pg_ID r])" using q(3) by (simp add: spells_def)
  then have "butlast ids = js" using assms(3) by (auto simp: spells_def)
  then show ?thesis using that q j by simp
qed

text \<open>Being above a page by parent links is being a prefix of its path.\<close>

lemma prefix_ancestor:
  assumes "tree_ok t" and "r \<in> set t" and "spells t r ids"
    and "q \<in> set t" and "spells t q js"
  shows "(pg_ID q, pg_ID r) \<in> (parents t)\<^sup>* \<longleftrightarrow> prefix js ids"
proof
  assume "prefix js ids"
  then show "(pg_ID q, pg_ID r) \<in> (parents t)\<^sup>*"
    using assms(2,3)
  proof (induction "length ids" arbitrary: ids r rule: less_induct)
    case less
    show ?case
    proof (cases "js = ids")
      case True
      then have "pg_ID q = pg_ID r" using assms(5) less.prems(3) by (simp add: spells_def)
      then show ?thesis by simp
    next
      case False
      then have pre: "prefix js (butlast ids)"
        using less.prems(1) by (auto simp: prefix_def butlast_append)
      have "js \<noteq> []" using assms(5) by (simp add: spells_def)
      then have "butlast ids \<noteq> []" using pre by auto
      then have "ParentID r = Some (last (butlast ids))" using less.prems(3) by (simp add: spells_def)
      then obtain p where p: "p \<in> set t" "ParentID r = Some (pg_ID p)" "spells t p (butlast ids)"
        using spells_parent[OF assms(1) less.prems(2,3)] by metis
      have "ids \<noteq> []" using less.prems(3) by (simp add: spells_def)
      then have "(pg_ID q, pg_ID p) \<in> (parents t)\<^sup>*" using less.hyps[OF _ pre p(1,3)] by simp
      moreover have "(pg_ID p, pg_ID r) \<in> parents t" using less.prems(2) p(2) by (auto simp: parents_def)
      ultimately show ?thesis by simp
    qed
  qed
next
  assume "(pg_ID q, pg_ID r) \<in> (parents t)\<^sup>*"
  then show "prefix js ids"
    using assms(2,3)
  proof (induction "pg_ID r" arbitrary: r ids rule: rtrancl_induct)
    case base
    then have "q = r" using same_page[OF assms(1,4)] by simp
    then show ?case using spells_unique[OF assms(5)] base by simp
  next
    case (step m)
    then obtain r' where r': "r' \<in> set t" "pg_ID r' = pg_ID r" "ParentID r' = Some m" by (auto simp: parents_def)
    then have par: "ParentID r = Some m" using same_page[OF assms(1)] step.prems(1) by metis
    then obtain p where p: "p \<in> set t" "pg_ID p = m" "spells t p (butlast ids)"
      using spells_parent[OF assms(1) step.prems(1,2)] by metis
    then have "prefix js (butlast ids)" using step.hyps(3)[of p] by simp
    moreover have "prefix (butlast ids) ids" by (cases ids rule: rev_cases) auto
    ultimately show ?case by (rule prefix_order.trans)
  qed
qed

lemma descendant_spells:
  assumes "tree_ok t" and "r \<in> set t" and "q \<in> set t"
  shows "ltree_descendant (Path r) (Path q) \<longleftrightarrow> (pg_ID q, pg_ID r) \<in> (parents t)\<^sup>*"
proof -
  obtain ids js where s: "spells t r ids" "spells t q js" using tree_spells assms by meson
  then have "Path r = page_path ids" "Path q = page_path js" by (simp_all add: spells_def)
  then show ?thesis using prefix_ancestor[OF assms(1,2) s(1) assms(3) s(2)] by simp
qed

end
