(* ===== verification/PageRepoLaws.thy ===== *)
theory PageRepoLaws
  imports PageRepo
begin

text \<open>
  What the operations of PageRepo keep and do: the tree of paths, the cascade of a delete, the
  cycle check of Reparent, the position a new page gets, and where the code departs from what it
  promises.
\<close>

subsection \<open>The tree invariant\<close>

lemma tree_ok_update:
  assumes "\<And>r. pg_ID (f r) = pg_ID r \<and> ParentID (f r) = ParentID r \<and> Path (f r) = Path r" and "tree_ok t"
  shows "tree_ok (update_rows c f t)"
proof -
  have ids: "map pg_ID (update_rows c f t) = map pg_ID t" using assms(1) by (intro update_rows_ids) simp
  show ?thesis
    unfolding tree_ok_def ids
  proof (intro conjI ballI)
    fix r' assume "r' \<in> set (update_rows c f t)"
    then obtain r where r: "r \<in> set t" "pg_ID r' = pg_ID r" "ParentID r' = ParentID r" "Path r' = Path r"
      using assms(1) by (auto simp: set_update_rows)
    have "q \<in> set t \<Longrightarrow> \<exists>q'\<in>set (update_rows c f t). pg_ID q' = pg_ID q \<and> Path q' = Path q" for q
      using assms(1) by (intro bexI[of _ "if c q then f q else q"]) (auto simp: set_update_rows)
    then show "case ParentID r' of None \<Rightarrow> Path r' = page_path [pg_ID r']
        | Some p \<Rightarrow> \<exists>q\<in>set (update_rows c f t). pg_ID q = p \<and> Path r' = childPath (Path q) (pg_ID r')"
      using assms(2) r by (fastforce simp: tree_ok_def split: option.splits)
  qed (use assms(2) in \<open>simp add: tree_ok_def\<close>)
qed

lemma soft_delete_fields [simp]:
  "pg_ID (soft_delete now r) = pg_ID r" "ParentID (soft_delete now r) = ParentID r"
  "Path (soft_delete now r) = Path r" "SpaceID (soft_delete now r) = SpaceID r"
  "pg_SortKey (soft_delete now r) = pg_SortKey r" "live (soft_delete now r) \<longleftrightarrow> False"
  by (simp_all add: soft_delete_def live_def)

lemma tree_ok_Delete: "tree_ok t \<Longrightarrow> tree_ok (Delete t now i)"
  by (auto simp: Delete_def SoftDeletePage_def SoftDeleteDescendants_def split: option.splits intro!: tree_ok_update)

lemma tree_ok_Rename: "tree_ok t \<Longrightarrow> Rename t now i title = Inr t' \<Longrightarrow> tree_ok t'"
  by (auto simp: Rename_def RenamePage_def split: if_splits intro!: tree_ok_update)

lemma tree_ok_Restore: "tree_ok t \<Longrightarrow> tree_ok (snd (RestorePageAndSubtree t now i))"
  by (auto simp: RestorePageAndSubtree_def split: option.splits intro!: tree_ok_update)

lemma Create_cases:
  assumes "Create t now i np = Inr (row, t')"
  obtains key where "nextSortKey t (np_ParentID np) (np_After np) None = Inr key"
    and "t' = t @ [row]" and "i \<notin> set (map pg_ID t)"
    and "pg_ID row = i" and "ParentID row = np_ParentID np" and "pg_SortKey row = key"
    and "live row" and "Lifecycle row = Active"
    and "np_ParentID np = None \<Longrightarrow> Path row = page_path [i]"
    and "\<And>p. np_ParentID np = Some p \<Longrightarrow> \<exists>q. GetPage t p = Some q \<and> Path row = childPath (Path q) i \<and>
      SpaceID row = (if SpaceID q \<noteq> 0 then SpaceID q else DefaultSpaceID)"
proof -
  have root: "childPath [] i = page_path [i]" by (simp add: childPath_def page_path_def)
  show ?thesis
  proof (cases "np_ParentID np")
    case None
    then show ?thesis using assms root that
      by (auto simp: Create_def CreatePage_def Let_def live_def split: sum.splits option.splits if_splits)
  next
    case (Some p)
    then obtain q where "GetPage t p = Some q" using assms by (auto simp: Create_def split: option.splits)
    then show ?thesis using assms that Some
      by (auto simp: Create_def CreatePage_def Let_def live_def spaceFor_def split: sum.splits option.splits if_splits)
  qed
qed

lemma tree_ok_Create:
  assumes "tree_ok t" and "Create t now i np = Inr (row, t')"
  shows "tree_ok t'"
  using assms(2)
proof (rule Create_cases)
  fix key
  assume t': "t' = t @ [row]" "i \<notin> set (map pg_ID t)" "pg_ID row = i" "ParentID row = np_ParentID np"
    and root: "np_ParentID np = None \<Longrightarrow> Path row = page_path [i]"
    and child: "\<And>p. np_ParentID np = Some p \<Longrightarrow> \<exists>q. GetPage t p = Some q \<and> Path row = childPath (Path q) i \<and>
      SpaceID row = (if SpaceID q \<noteq> 0 then SpaceID q else DefaultSpaceID)"
  have old: "case ParentID r of None \<Rightarrow> Path r = page_path [pg_ID r]
      | Some p \<Rightarrow> \<exists>q\<in>set t'. pg_ID q = p \<and> Path r = childPath (Path q) (pg_ID r)" if "r \<in> set t" for r
    using assms(1) that t'(1) by (auto simp: tree_ok_def split: option.splits)
  have new: "case ParentID row of None \<Rightarrow> Path row = page_path [pg_ID row]
      | Some p \<Rightarrow> \<exists>q\<in>set t'. pg_ID q = p \<and> Path row = childPath (Path q) (pg_ID row)"
  proof (cases "np_ParentID np")
    case (Some p)
    then obtain q where "GetPage t p = Some q" "Path row = childPath (Path q) i" using child by blast
    then show ?thesis using Some t' by (auto dest!: GetPage_SomeD)
  qed (use root t' in simp)
  show ?thesis using assms(1) t'(1,2,3) old new by (auto simp: tree_ok_def)
qed

subsection \<open>Moving a page\<close>

lemma prefix_snoc_other: "prefix cs (ids @ [x]) \<longleftrightarrow> prefix cs ids \<or> cs = ids @ [x]"
  by auto

text \<open>The rows after the writes of Reparent: one row gets a new parent, and every path below the
  old one, its own included, continues from the new one.\<close>

definition moved :: "uuid list \<Rightarrow> uuid list \<Rightarrow> uuid list \<Rightarrow> uuid list" where
  "moved cs ns ids = (if prefix cs ids then ns @ drop (length cs) ids else ids)"

lemma reparent_writes_rows:
  assumes "tree_ok t" and "cur \<in> set t" and "live cur" and "pg_ID cur = i" and "spells t cur cs"
    and "new_path plan = page_path ns" and "old_path plan = Path cur"
    and "reparent_writes t now i plan = Inr t'"
  shows "\<exists>g. t' = map g t \<and> (\<forall>r\<in>set t. pg_ID (g r) = pg_ID r \<and> DeletedAt (g r) = DeletedAt r \<and> SpaceID (g r) = SpaceID r \<and>
      Lifecycle (g r) = Lifecycle r \<and>
      pg_SortKey (g r) = (if pg_ID r = i then new_key plan else pg_SortKey r) \<and>
      ParentID (g r) = (if pg_ID r = i then target_parent plan else ParentID r) \<and>
      (\<forall>ids. spells t r ids \<longrightarrow> Path (g r) = page_path (moved cs ns ids)))"
proof -
  define f :: "Page \<Rightarrow> Page" where "f r = (if pg_ID r = i \<and> live r
    then r\<lparr>ParentID := target_parent plan, Path := new_path plan, pg_SortKey := new_key plan, UpdatedAt := now\<rparr> else r)" for r
  define h :: "Page \<Rightarrow> Page" where "h r = (if ltree_descendant (Path r) (old_path plan) \<and> pg_ID r \<noteq> i
    then r\<lparr>Path := ltree_append (new_path plan) (subpath (Path r) (nlevel (old_path plan))), UpdatedAt := now\<rparr> else r)" for r
  define g :: "Page \<Rightarrow> Page" where "g r = (if new_path plan \<noteq> old_path plan then h (f r) else f r)" for r
  have "t' = map g t"
    using assms(8) by (auto simp: reparent_writes_def ReparentPageRow_def RewriteDescendantPaths_def update_rows_def
      Let_def f_def h_def g_def split: if_splits)
  moreover have "\<forall>r\<in>set t. pg_ID (g r) = pg_ID r \<and> DeletedAt (g r) = DeletedAt r \<and> SpaceID (g r) = SpaceID r \<and>
      Lifecycle (g r) = Lifecycle r \<and>
      pg_SortKey (g r) = (if pg_ID r = i then new_key plan else pg_SortKey r) \<and>
      ParentID (g r) = (if pg_ID r = i then target_parent plan else ParentID r) \<and>
      (\<forall>ids. spells t r ids \<longrightarrow> Path (g r) = page_path (moved cs ns ids))"
  proof (rule ballI)
    fix r assume r: "r \<in> set t"
    have old: "old_path plan = page_path cs" using assms(5,7) by (simp add: spells_def)
    show "pg_ID (g r) = pg_ID r \<and> DeletedAt (g r) = DeletedAt r \<and> SpaceID (g r) = SpaceID r \<and>
      Lifecycle (g r) = Lifecycle r \<and>
      pg_SortKey (g r) = (if pg_ID r = i then new_key plan else pg_SortKey r) \<and>
      ParentID (g r) = (if pg_ID r = i then target_parent plan else ParentID r) \<and>
      (\<forall>ids. spells t r ids \<longrightarrow> Path (g r) = page_path (moved cs ns ids))"
    proof (cases "pg_ID r = i")
      case True
      then have "r = cur" using same_page[OF assms(1) r assms(2)] assms(4) by simp
      then have "g r = r\<lparr>ParentID := target_parent plan, Path := new_path plan, pg_SortKey := new_key plan, UpdatedAt := now\<rparr>"
        using True assms(3) by (simp add: g_def f_def h_def)
      then show ?thesis
        using True assms(6) spells_unique[OF assms(5)] \<open>r = cur\<close> by (auto simp: moved_def)
    next
      case False
      then have g: "g r = (if new_path plan \<noteq> old_path plan then h r else r)" by (simp add: g_def f_def)
      have "Path (g r) = page_path (moved cs ns ids)" if "spells t r ids" for ids
      proof -
        have p: "Path r = page_path ids" using that by (simp add: spells_def)
        show ?thesis
        proof (cases "prefix cs ids")
          case True
          then obtain rest where "ids = cs @ rest" by (auto simp: prefix_def)
          then show ?thesis using p False assms(6) old unfolding g h_def by (auto simp: moved_def)
        next
          case no: False
          then show ?thesis using p old unfolding g h_def by (auto simp: moved_def)
        qed
      qed
      then show ?thesis using False g by (auto simp: h_def)
    qed
  qed
  ultimately show ?thesis by blast
qed

lemma reparent_writes_map:
  assumes "reparent_writes t now i plan = Inr t'"
  shows "\<exists>g. t' = map g t \<and> (\<forall>r. pg_ID (g r) = pg_ID r \<and> SpaceID (g r) = SpaceID r \<and> DeletedAt (g r) = DeletedAt r \<and>
    Lifecycle (g r) = Lifecycle r \<and>
    ParentID (g r) = (if pg_ID r = i \<and> live r then target_parent plan else ParentID r))"
proof -
  define f :: "Page \<Rightarrow> Page" where "f r = (if pg_ID r = i \<and> live r
    then r\<lparr>ParentID := target_parent plan, Path := new_path plan, pg_SortKey := new_key plan, UpdatedAt := now\<rparr> else r)" for r
  define h :: "Page \<Rightarrow> Page" where "h r = (if ltree_descendant (Path r) (old_path plan) \<and> pg_ID r \<noteq> i
    then r\<lparr>Path := ltree_append (new_path plan) (subpath (Path r) (nlevel (old_path plan))), UpdatedAt := now\<rparr> else r)" for r
  define g :: "Page \<Rightarrow> Page" where "g r = (if new_path plan \<noteq> old_path plan then h (f r) else f r)" for r
  have "t' = map g t"
    using assms by (auto simp: reparent_writes_def ReparentPageRow_def RewriteDescendantPaths_def update_rows_def
      Let_def f_def h_def g_def split: if_splits)
  moreover have "pg_ID (g r) = pg_ID r \<and> SpaceID (g r) = SpaceID r \<and> DeletedAt (g r) = DeletedAt r \<and>
    Lifecycle (g r) = Lifecycle r \<and>
    ParentID (g r) = (if pg_ID r = i \<and> live r then target_parent plan else ParentID r)" for r
    by (simp add: g_def h_def f_def)
  ultimately show ?thesis by blast
qed

lemma reparent_reads_cases:
  assumes "reparent_reads t i pc after = Inr plan"
  obtains cur where "GetPage t i = Some cur"
    and "target_parent plan = (if Change pc then pc_ParentID pc else ParentID cur)"
    and "old_path plan = Path cur"
    and "nextSortKey t (target_parent plan) after (Some i) = Inr (new_key plan)"
    and "case target_parent plan of None \<Rightarrow> new_path plan = page_path [i]
      | Some p \<Rightarrow> \<exists>q. GetPage t p = Some q \<and> new_path plan = childPath (Path q) i \<and>
          Path q \<noteq> Path cur \<and> \<not> prefix (Path cur @ ''.'') (Path q)"
proof -
  have root: "childPath [] i = page_path [i]" by (simp add: childPath_def page_path_def)
  obtain cur where cur: "GetPage t i = Some cur"
    using assms by (auto simp: reparent_reads_def split: option.splits)
  show ?thesis
  proof (cases "if Change pc then pc_ParentID pc else ParentID cur")
    case None
    then show ?thesis using assms cur root that[of cur]
      by (auto simp: reparent_reads_def Let_def split: sum.splits)
  next
    case (Some p)
    then obtain q where "GetPage t p = Some q" "Path q \<noteq> Path cur" "\<not> prefix (Path cur @ ''.'') (Path q)"
      using assms cur by (auto simp: reparent_reads_def Let_def split: option.splits sum.splits if_splits)
    then show ?thesis using assms cur Some that[of cur]
      by (auto simp: reparent_reads_def Let_def split: sum.splits)
  qed
qed

lemma moved_child:
  assumes "ids \<noteq> []" and "\<not> (cs = ids)" and "moved cs ns (butlast ids) = ms"
  shows "moved cs ns ids = ms @ [last ids]"
proof -
  have ids: "ids = butlast ids @ [last ids]" using assms(1) by simp
  then have "prefix cs ids \<longleftrightarrow> prefix cs (butlast ids)" using assms(2) prefix_snoc_other[of cs "butlast ids" "last ids"] by metis
  moreover have "drop (length cs) ids = drop (length cs) (butlast ids) @ [last ids]" if "prefix cs (butlast ids)"
  proof -
    have "length cs \<le> length (butlast ids)" using that by (rule prefix_length_le)
    then show ?thesis by (subst ids) simp
  qed
  ultimately show ?thesis using assms(3) ids by (auto simp: moved_def)
qed

lemma tree_ok_Reparent:
  assumes ok: "tree_ok t" and run: "Reparent t now i pc after = Inr t'"
  shows "tree_ok t'"
proof -
  obtain plan where plan: "reparent_reads t i pc after = Inr plan" "reparent_writes t now i plan = Inr t'"
    using run by (auto simp: Reparent_def split: sum.splits)
  from plan(1) obtain cur where cur: "GetPage t i = Some cur" "old_path plan = Path cur"
    and target: "case target_parent plan of None \<Rightarrow> new_path plan = page_path [i]
      | Some p \<Rightarrow> \<exists>q. GetPage t p = Some q \<and> new_path plan = childPath (Path q) i \<and>
          Path q \<noteq> Path cur \<and> \<not> prefix (Path cur @ ''.'') (Path q)" by (rule reparent_reads_cases) blast
  have c: "cur \<in> set t" "pg_ID cur = i" "live cur" using GetPage_SomeD[OF cur(1)] by auto
  obtain cs where cs: "spells t cur cs" using tree_spells[OF ok c(1)] by blast
  obtain ns where ns: "new_path plan = page_path ns"
    and nsp: "case target_parent plan of None \<Rightarrow> ns = [i]
      | Some p \<Rightarrow> \<exists>q qs. q \<in> set t \<and> pg_ID q = p \<and> spells t q qs \<and> \<not> prefix cs qs \<and> ns = qs @ [i]"
  proof (cases "target_parent plan")
    case None
    then show ?thesis using that[of "[i]"] target by simp
  next
    case (Some p)
    then obtain q where q: "GetPage t p = Some q" "new_path plan = childPath (Path q) i"
      "Path q \<noteq> Path cur" "\<not> prefix (Path cur @ ''.'') (Path q)" using target by auto
    have qt: "q \<in> set t" "pg_ID q = p" using GetPage_SomeD[OF q(1)] by auto
    obtain qs where qs: "spells t q qs" using tree_spells[OF ok qt(1)] by blast
    have "Path cur \<noteq> []" using cs by (auto simp: spells_def)
    then have "\<not> prefix (labels (Path cur)) (labels (Path q))"
      using q(3,4) prefix_text_labels[of "Path cur" "Path q"] by blast
    then have "\<not> prefix cs qs" using cs qs by (simp add: spells_def map_pathLabel_prefix)
    then show ?thesis using that[of "qs @ [i]"] Some q(2) qs qt by (auto simp: spells_def)
  qed
  from reparent_writes_rows[OF ok c(1,3,2) cs ns cur(2) plan(2)] obtain g where
    g: "t' = map g t" "\<And>r. r \<in> set t \<Longrightarrow> pg_ID (g r) = pg_ID r"
      "\<And>r. r \<in> set t \<Longrightarrow> ParentID (g r) = (if pg_ID r = i then target_parent plan else ParentID r)"
      "\<And>r ids. r \<in> set t \<Longrightarrow> spells t r ids \<Longrightarrow> Path (g r) = page_path (moved cs ns ids)" by blast
  have ids: "map pg_ID t' = map pg_ID t" using g(1,2) by simp
  have chain: "case ParentID (g r) of None \<Rightarrow> Path (g r) = page_path [pg_ID r]
      | Some p \<Rightarrow> \<exists>q\<in>set t'. pg_ID q = p \<and> Path (g r) = childPath (Path q) (pg_ID r)" if r: "r \<in> set t" for r
  proof (cases "pg_ID r = i")
    case True
    then have "r = cur" using same_page[OF ok r c(1)] c(2) by simp
    then have pr: "Path (g r) = page_path ns" using g(4)[OF r] cs by (simp add: moved_def)
    show ?thesis
    proof (cases "target_parent plan")
      case None
      then show ?thesis using g(3)[OF r] True pr nsp by simp
    next
      case (Some p)
      then obtain q qs where q: "q \<in> set t" "pg_ID q = p" "spells t q qs" "\<not> prefix cs qs" "ns = qs @ [i]"
        using nsp by auto
      have "Path (g q) = page_path qs" using g(4)[OF q(1,3)] q(4) by (simp add: moved_def)
      moreover have "ParentID (g r) = Some p" "g q \<in> set t'" using g(1) g(3)[OF r] True Some q(1) by simp_all
      ultimately show ?thesis
        using g(2)[OF q(1)] g(2)[OF r] True pr q(2,5) by (simp, intro bexI[of _ "g q"]) simp_all
    qed
  next
    case False
    obtain ids where ids: "spells t r ids" using tree_spells[OF ok r] by blast
    have last: "ids \<noteq> []" "last ids = pg_ID r" using ids by (auto simp: spells_def)
    have "cs \<noteq> ids" using cs c(2) False last by (auto simp: spells_def)
    show ?thesis
    proof (cases "ParentID r")
      case None
      then have "butlast ids = []" using ids by (auto simp: spells_def split: if_splits)
      then have "ids = [pg_ID r]" using last by (metis append_butlast_last_id append_Nil)
      moreover have "\<not> prefix cs ids" using \<open>cs \<noteq> ids\<close> calculation cs by (cases cs) (auto simp: spells_def)
      ultimately show ?thesis using None False g(3)[OF r] g(4)[OF r ids] by (simp add: moved_def)
    next
      case (Some p)
      then obtain q where q: "q \<in> set t" "pg_ID q = p" "spells t q (butlast ids)"
        by (rule spells_parent[OF ok r ids])
      have "Path (g r) = page_path (moved cs ns (butlast ids) @ [pg_ID r])"
        using g(4)[OF r ids] moved_child[OF last(1) \<open>cs \<noteq> ids\<close> refl] last(2) by simp
      moreover have "ParentID (g r) = Some p" "g q \<in> set t'" using g(1) g(3)[OF r] False Some q(1) by simp_all
      ultimately show ?thesis
        using g(2)[OF q(1)] g(2)[OF r] g(4)[OF q(1,3)] q(2) by (simp, intro bexI[of _ "g q"]) simp_all
    qed
  qed
  show ?thesis
    unfolding tree_ok_def ids
  proof (intro conjI ballI)
    show "distinct (map pg_ID t)" using ok by (simp add: tree_ok_def)
    fix r' assume "r' \<in> set t'"
    then obtain r where "r \<in> set t" "r' = g r" using g(1) by auto
    then show "case ParentID r' of None \<Rightarrow> Path r' = page_path [pg_ID r']
        | Some p \<Rightarrow> \<exists>q\<in>set t'. pg_ID q = p \<and> Path r' = childPath (Path q) (pg_ID r')"
      using chain[of r] g(2)[of r] by (simp split: option.splits)
  qed
qed

text \<open>A step of the service on the table.\<close>

inductive repo_step :: "page_table \<Rightarrow> page_table \<Rightarrow> bool" where
  created: "Create t now i np = Inr (row, t') \<Longrightarrow> repo_step t t'"
| reparented: "Reparent t now i pc after = Inr t' \<Longrightarrow> repo_step t t'"
| renamed: "Rename t now i title = Inr t' \<Longrightarrow> repo_step t t'"
| deleted: "repo_step t (Delete t now i)"
| restored: "repo_step t (snd (RestorePageAndSubtree t now i))"

inductive reachable_table :: "page_table \<Rightarrow> bool" where
  empty: "reachable_table []"
| step: "reachable_table t \<Longrightarrow> repo_step t t' \<Longrightarrow> reachable_table t'"

lemma page_tree:
  assumes "reachable_table t"
  shows "tree_ok t"
  using assms
proof induction
  case (step t t')
  from step.hyps(2) step.IH show ?case
    by cases (auto intro: tree_ok_Create tree_ok_Reparent tree_ok_Rename tree_ok_Delete tree_ok_Restore)
qed (simp add: tree_ok_def)


subsection \<open>The cycle check\<close>

text \<open>Moving a page under another is refused as a cycle exactly when the other is the page
  itself or lies below it by parent links.\<close>

theorem Reparent_cycle_iff:
  assumes "tree_ok t" and "GetPage t i = Some cur" and "GetPage t p = Some q"
  shows "Reparent t now i \<lparr>Change = True, pc_ParentID = Some p\<rparr> after = Inl ErrCycle \<longleftrightarrow> (i, p) \<in> (parents t)\<^sup>*"
proof -
  have c: "cur \<in> set t" "pg_ID cur = i" "q \<in> set t" "pg_ID q = p" using assms GetPage_SomeD by metis+
  obtain cs where "spells t cur cs" using tree_spells[OF assms(1) c(1)] by blast
  then have "Path cur \<noteq> []" by (auto simp: spells_def)
  then have "(Path q = Path cur \<or> prefix (Path cur @ ''.'') (Path q)) \<longleftrightarrow> (i, p) \<in> (parents t)\<^sup>*"
    using descendant_spells[OF assms(1) c(3,1)] c(2,4) prefix_text_labels[OF \<open>Path cur \<noteq> []\<close>, of "Path q"]
    unfolding ltree_descendant_def by simp
  moreover have "nextSortKey t (Some p) after (Some i) \<noteq> Inl ErrCycle"
    by (auto simp: nextSortKey_def key_or_error_def Let_def split: option.splits key_result.splits)
  ultimately show ?thesis
    using assms(2,3) by (auto simp: Reparent_def reparent_reads_def reparent_writes_def Let_def split: sum.splits)
qed

subsection \<open>Deleting\<close>

text \<open>C21: a delete marks the page and the live pages below it, and no other row changes.\<close>

theorem Delete_exact:
  assumes "tree_ok t" and "GetPage t i = Some page"
  shows "Delete t now i = update_rows (\<lambda>r. live r \<and> (i, pg_ID r) \<in> (parents t)\<^sup>*) (soft_delete now) t"
proof -
  have p: "page \<in> set t" "pg_ID page = i" using GetPage_SomeD[OF assms(2)] by auto
  have "ltree_descendant (Path r) (Path page) \<longleftrightarrow> (i, pg_ID r) \<in> (parents t)\<^sup>*" if "r \<in> set t" for r
    using descendant_spells[OF assms(1) that p(1)] p(2) by simp
  then show ?thesis
    using assms(2) by (auto simp: Delete_def SoftDeletePage_def SoftDeleteDescendants_def update_rows_def)
qed

lemma Delete_idempotent:
  assumes "tree_ok t"
  shows "Delete (Delete t now i) later i = Delete t now i"
proof (cases "GetPage t i")
  case (Some page)
  have "GetPage (Delete t now i) i = None"
  proof -
    have "\<not> (pg_ID r = i \<and> live r)" if r: "r \<in> set (SoftDeletePage X now i)" for r X
    proof -
      obtain x where x: "r = (if pg_ID x = i \<and> live x then soft_delete now x else x)"
        using r unfolding SoftDeletePage_def set_update_rows image_iff by blast
      show ?thesis unfolding x by simp
    qed
    then show ?thesis using Some by (simp add: GetPage_def Delete_def find_ex)
  qed
  then show ?thesis by (simp add: Delete_def)
qed (simp add: Delete_def)

end
