(* ===== verification/PageRepoProps.thy ===== *)
theory PageRepoProps
  imports PageRepoLaws
begin

text \<open>
  Where pages land among their siblings, what happens to the space of a moved page, two moves
  that overlap, and what deleting and restoring undo.
\<close>

subsection \<open>Positions\<close>

definition keys_ok :: "page_table \<Rightarrow> bool" where
  "keys_ok t \<longleftrightarrow> (\<forall>r\<in>set t. good_digits (pg_SortKey r))"

definition anchor_ok :: "page_table \<Rightarrow> uuid option \<Rightarrow> uuid option \<Rightarrow> bool" where
  "anchor_ok t parent after \<longleftrightarrow>
     (case after of None \<Rightarrow> True | Some a \<Rightarrow> (case GetPage t a of None \<Rightarrow> False | Some anchor \<Rightarrow> ParentID anchor = parent))"

text \<open>The key is above the anchor's and below those of all siblings after it; without an anchor it
  is above all.\<close>

definition lands_after :: "page_table \<Rightarrow> uuid option \<Rightarrow> uuid option \<Rightarrow> uuid option \<Rightarrow> string \<Rightarrow> bool" where
  "lands_after t parent after x key \<longleftrightarrow>
     (case after of
        None \<Rightarrow> \<forall>s\<in>set (siblings t parent x). pg_SortKey s < key
      | Some a \<Rightarrow> (case GetPage t a of None \<Rightarrow> False | Some anchor \<Rightarrow>
          pg_SortKey anchor < key \<and>
          (\<forall>s\<in>set (siblings t parent x). pg_SortKey s \<le> pg_SortKey anchor \<or> key < pg_SortKey s)))"

lemma Between_good:
  assumes "prev = [] \<or> good_digits prev" and "next = [] \<or> good_digits next" and "next = [] \<or> prev < next"
  shows "\<exists>r. Between prev next = Key r \<and> prev < r \<and> (next = [] \<or> r < next) \<and> good_digits r"
proof -
  have "valid_key prev" "valid_key next" using assms by (auto simp: good_digits_def valid_key_def)
  then have b: "case Between prev next of
      Key r \<Rightarrow> prev < r \<and> (next = [] \<or> r < next) \<and> good_digits r
    | ErrNoRoom \<Rightarrow> next \<noteq> [] \<and> (\<exists>k. next = prev @ replicate k (CHR ''0''))
    | _ \<Rightarrow> False"
    using assms(3) by (intro Between_total) auto
  have "\<not> (next \<noteq> [] \<and> (\<exists>k. next = prev @ replicate k (CHR ''0'')))"
  proof
    assume a: "next \<noteq> [] \<and> (\<exists>k. next = prev @ replicate k (CHR ''0''))"
    then have "next = prev" using assms(2) good_digits_room by blast
    then show False using a assms(3) by simp
  qed
  then show ?thesis using b by (auto split: key_result.splits)
qed

lemma nextSortKey_lands:
  assumes "keys_ok t" and "anchor_ok t parent after"
  shows "\<exists>key. nextSortKey t parent after x = Inr key \<and> good_digits key \<and> lands_after t parent after x key"
proof (cases after)
  case None
  define lastKey where "lastKey = (case LastSiblingSortKey t parent x of None \<Rightarrow> [] | Some k \<Rightarrow> k)"
  have last: "lastKey = [] \<or> good_digits lastKey" "\<forall>s\<in>set (siblings t parent x). pg_SortKey s \<le> lastKey"
    using LastSibling_Some[of t parent x] LastSibling_None[of t parent x] assms(1)
    by (auto simp: lastKey_def keys_ok_def siblings_set split: option.splits)
  obtain r where "Between lastKey [] = Key r" "lastKey < r" "good_digits r"
    using Between_good[of lastKey "[]"] last(1) by auto
  then show ?thesis using None last(2)
    by (auto simp: nextSortKey_def lands_after_def key_or_error_def lastKey_def[symmetric] Let_def)
next
  case (Some a)
  then obtain anchor where anchor: "GetPage t a = Some anchor" "ParentID anchor = parent"
    using assms(2) by (auto simp: anchor_ok_def split: option.splits)
  then have good: "good_digits (pg_SortKey anchor)" using assms(1) GetPage_SomeD by (fastforce simp: keys_ok_def)
  define nextKey where "nextKey = (case NextSiblingSortKey t parent (pg_SortKey anchor) x of None \<Rightarrow> [] | Some k \<Rightarrow> k)"
  have nx: "nextKey = [] \<and> (\<forall>s\<in>set (siblings t parent x). pg_SortKey s \<le> pg_SortKey anchor) \<or>
      good_digits nextKey \<and> pg_SortKey anchor < nextKey \<and>
      (\<forall>s\<in>set (siblings t parent x). pg_SortKey anchor < pg_SortKey s \<longrightarrow> nextKey \<le> pg_SortKey s)"
    using NextSibling_Some[of t parent "pg_SortKey anchor" x] NextSibling_None[of t parent "pg_SortKey anchor" x] assms(1)
    by (auto simp: nextKey_def keys_ok_def siblings_set split: option.splits)
  then obtain r where r: "Between (pg_SortKey anchor) nextKey = Key r" "pg_SortKey anchor < r"
    "nextKey = [] \<or> r < nextKey" "good_digits r"
    using Between_good[of "pg_SortKey anchor" nextKey] good by auto
  have "pg_SortKey s \<le> pg_SortKey anchor \<or> r < pg_SortKey s" if "s \<in> set (siblings t parent x)" for s
    using nx that r(3) good_digits_nonempty[of nextKey] by (metis not_less order.strict_trans2)
  then show ?thesis using Some anchor r
    by (auto simp: nextSortKey_def lands_after_def key_or_error_def nextKey_def[symmetric] Let_def)
qed

lemma keys_ok_update:
  "(\<And>r. pg_SortKey (f r) = pg_SortKey r) \<Longrightarrow> keys_ok t \<Longrightarrow> keys_ok (update_rows c f t)"
  by (auto simp: keys_ok_def set_update_rows)

lemma nextSortKey_good:
  assumes "keys_ok t" and "nextSortKey t parent after x = Inr key"
  shows "good_digits key"
proof -
  have "anchor_ok t parent after"
    using assms(2) by (auto simp: nextSortKey_def anchor_ok_def split: option.splits if_splits)
  from nextSortKey_lands[OF assms(1) this, of x] show ?thesis using assms(2) by auto
qed

lemma keys_ok_Reparent:
  assumes "tree_ok t" and "keys_ok t" and "Reparent t now i pc after = Inr t'"
  shows "keys_ok t'"
proof -
  obtain plan where plan: "reparent_reads t i pc after = Inr plan" "reparent_writes t now i plan = Inr t'"
    using assms(3) by (auto simp: Reparent_def split: sum.splits)
  from plan(1) obtain cur where "nextSortKey t (target_parent plan) after (Some i) = Inr (new_key plan)"
    by (rule reparent_reads_cases)
  then have "good_digits (new_key plan)" using nextSortKey_good assms(2) by blast
  then have "keys_ok (ReparentPageRow t now i (target_parent plan) (new_path plan) (new_key plan))"
    using assms(2) by (auto simp: ReparentPageRow_def keys_ok_def set_update_rows)
  then show ?thesis using plan(2)
    by (auto simp: reparent_writes_def RewriteDescendantPaths_def Let_def split: if_splits intro!: keys_ok_update)
qed

lemma reachable_keys_ok: "reachable_table t \<Longrightarrow> keys_ok t"
proof (induction rule: reachable_table.induct)
  case (step t t')
  note ok = page_tree[OF step.hyps(1)]
  from step.hyps(2) show ?case
  proof cases
    case (created now i np row)
    then show ?thesis using step.IH nextSortKey_good[OF step.IH]
      by (elim Create_cases) (auto simp: keys_ok_def)
  next
    case (reparented now i pc after)
    then show ?thesis using keys_ok_Reparent[OF ok step.IH] by blast
  next
    case (renamed now i title)
    then show ?thesis using step.IH
      by (auto simp: Rename_def RenamePage_def split: if_splits intro!: keys_ok_update)
  next
    case (deleted now i)
    then show ?thesis using step.IH
      by (auto simp: Delete_def SoftDeletePage_def SoftDeleteDescendants_def split: option.splits intro!: keys_ok_update)
  next
    case (restored now i)
    then show ?thesis using step.IH
      by (auto simp: RestorePageAndSubtree_def split: option.splits intro!: keys_ok_update)
  qed
qed (simp add: keys_ok_def)

text \<open>Creating a page never runs out of sort keys: when the parent and the sibling to follow are
  there, the page is created and its key is above that sibling's and below those of all siblings
  after it, or above all siblings when none is named.\<close>

theorem Create_lands_after:
  assumes "reachable_table t" and "i \<notin> set (map pg_ID t)"
    and "np_ParentID np = None \<or> GetPage t (the (np_ParentID np)) \<noteq> None"
    and "anchor_ok t (np_ParentID np) (np_After np)"
  shows "\<exists>row. Create t now i np = Inr (row, t @ [row]) \<and> ParentID row = np_ParentID np \<and>
    lands_after t (np_ParentID np) (np_After np) None (pg_SortKey row)"
proof -
  obtain key where key: "nextSortKey t (np_ParentID np) (np_After np) None = Inr key"
    "lands_after t (np_ParentID np) (np_After np) None key"
    using nextSortKey_lands[OF reachable_keys_ok[OF assms(1)] assms(4)] by blast
  show ?thesis
  proof (cases "np_ParentID np")
    case None
    then show ?thesis using key assms(2) by (simp add: Create_def CreatePage_def Let_def)
  next
    case (Some p)
    then obtain q where "GetPage t p = Some q" using assms(3) by auto
    then show ?thesis using Some key assms(2) by (simp add: Create_def CreatePage_def Let_def)
  qed
qed

text \<open>Three pages made one after another: two roots in different spaces, and a child of the first.\<close>

definition pageA :: Page where
  "pageA = \<lparr>pg_ID = 1, CreatedBy = 9, Title = ''A'', ParentID = None, Path = pathLabel 1, pg_SortKey = ''i'',
     Lifecycle = Active, DeletedAt = None, CreatedAt = 1, UpdatedAt = 1, SpaceID = 7\<rparr>"

definition pageB :: Page where
  "pageB = \<lparr>pg_ID = 2, CreatedBy = 9, Title = ''B'', ParentID = None, Path = pathLabel 2, pg_SortKey = ''r'',
     Lifecycle = Active, DeletedAt = None, CreatedAt = 2, UpdatedAt = 2, SpaceID = 8\<rparr>"

definition pageC :: Page where
  "pageC = \<lparr>pg_ID = 3, CreatedBy = 9, Title = ''C'', ParentID = Some 1, Path = pathLabel 1 @ ''.'' @ pathLabel 3,
     pg_SortKey = ''i'', Lifecycle = Active, DeletedAt = None, CreatedAt = 3, UpdatedAt = 3, SpaceID = 7\<rparr>"

definition np_of :: "string \<Rightarrow> uuid option \<Rightarrow> uuid option \<Rightarrow> uuid \<Rightarrow> NewPage" where
  "np_of title parent after space =
     \<lparr>np_CreatedBy = 9, np_Title = title, np_ParentID = parent, np_After = after, np_SpaceID = space\<rparr>"

abbreviation threePages :: page_table where
  "threePages \<equiv> [pageA, pageB, pageC]"

lemma threePages_made:
  "Create [] 1 1 (np_of ''A'' None None 7) = Inr (pageA, [pageA])"
  "Create [pageA] 2 2 (np_of ''B'' None None 8) = Inr (pageB, [pageA, pageB])"
  "Create [pageA, pageB] 3 3 (np_of ''C'' (Some 1) None 8) = Inr (pageC, threePages)"
  by code_simp+

lemma threePages_reachable: "reachable_table threePages"
  by (rule reachable_table.step[OF reachable_table.step[OF reachable_table.step[OF reachable_table.empty
          repo_step.created[OF threePages_made(1)]] repo_step.created[OF threePages_made(2)]]
        repo_step.created[OF threePages_made(3)]])

lemma threePages_get:
  "GetPage threePages 1 = Some pageA" "GetPage threePages 2 = Some pageB" "GetPage threePages 3 = Some pageC"
  by code_simp+


theorem Reparent_cycle_iff_witness:
  "Reparent threePages 5 1 \<lparr>Change = True, pc_ParentID = Some 3\<rparr> None = Inl ErrCycle \<and> (1, 3) \<in> (parents threePages)\<^sup>*"
proof -
  have "(1, 3) \<in> parents threePages" by (auto simp: parents_def pageA_def pageB_def pageC_def)
  then show ?thesis
    using Reparent_cycle_iff[OF page_tree[OF threePages_reachable] threePages_get(1,3)] by blast
qed

theorem Delete_exact_witness:
  "map live (Delete threePages 8 1) = [False, True, False] \<and>
   Delete threePages 8 1 = update_rows (\<lambda>r. live r \<and> (1, pg_ID r) \<in> (parents threePages)\<^sup>*) (soft_delete 8) threePages"
proof -
  have "map live (Delete threePages 8 1) = [False, True, False]" by code_simp
  then show ?thesis using Delete_exact[OF page_tree[OF threePages_reachable] threePages_get(1)] by blast
qed

theorem Create_lands_after_witness:
  "\<exists>row. Create threePages 4 4 (np_of ''D'' None (Some 1) 7) = Inr (row, threePages @ [row]) \<and>
    ''i'' < pg_SortKey row \<and> pg_SortKey row < ''r''"
proof -
  have a: "anchor_ok threePages None (Some 1)" by code_simp
  have new: "4 \<notin> set (map pg_ID threePages)" by code_simp
  obtain row where r: "Create threePages 4 4 (np_of ''D'' None (Some 1) 7) = Inr (row, threePages @ [row])"
    "lands_after threePages None (Some 1) None (pg_SortKey row)"
    using Create_lands_after[OF threePages_reachable new, of "np_of ''D'' None (Some 1) 7"] a
    by (auto simp: np_of_def)
  have "siblings threePages None None = [pageA, pageB]" by code_simp
  then show ?thesis using r threePages_get(1)
    by (auto simp: lands_after_def pageA_def pageB_def)
qed

subsection \<open>Spaces\<close>

lemma isr_ex: "(case x of Inl _ \<Rightarrow> False | Inr _ \<Rightarrow> True) \<Longrightarrow> \<exists>y. x = Inr y"
  by (cases x) auto

text \<open>What Create promises: a child lies in its parent's space.\<close>

definition space_ok :: "page_table \<Rightarrow> bool" where
  "space_ok t \<longleftrightarrow> (\<forall>r\<in>set t. SpaceID r \<noteq> 0 \<and> (\<forall>q\<in>set t. ParentID r = Some (pg_ID q) \<longrightarrow> SpaceID r = SpaceID q))"

lemma space_ok_Create:
  assumes "tree_ok t" and "space_ok t" and "Create t now i np = Inr (row, t')"
  shows "space_ok t'"
  using assms(3)
proof (rule Create_cases)
  fix key
  assume t': "t' = t @ [row]" "i \<notin> set (map pg_ID t)" "pg_ID row = i" "ParentID row = np_ParentID np"
    and child: "\<And>p. np_ParentID np = Some p \<Longrightarrow> \<exists>q. GetPage t p = Some q \<and> Path row = childPath (Path q) i \<and>
      SpaceID row = (if SpaceID q \<noteq> 0 then SpaceID q else DefaultSpaceID)"
  have nz: "SpaceID row \<noteq> 0"
    using assms(3) by (auto simp: Create_def CreatePage_def Let_def spaceFor_def DefaultSpaceID_def
        split: sum.splits option.splits if_splits)
  have old: "ParentID r \<noteq> Some i" if "r \<in> set t" for r
    using assms(1) that t'(2) by (force simp: tree_ok_def split: option.splits)
  have new: "SpaceID row = SpaceID q" if q: "q \<in> set t'" "ParentID row = Some (pg_ID q)" for q
  proof -
    obtain p where p: "GetPage t (pg_ID q) = Some p" "SpaceID row = (if SpaceID p \<noteq> 0 then SpaceID p else DefaultSpaceID)"
      using child q(2) t'(4) by metis
    have "p \<in> set t" "pg_ID p = pg_ID q" using GetPage_SomeD[OF p(1)] by auto
    moreover have "q \<in> set t"
      using q(1) t'(1,2,3) calculation image_eqI[of "pg_ID row" pg_ID p "set t"] by auto
    ultimately have "p = q" using same_page[OF assms(1)] by blast
    then show ?thesis using p(2) assms(2) \<open>q \<in> set t\<close> by (simp add: space_ok_def)
  qed
  show "space_ok t'"
    unfolding space_ok_def
  proof (intro ballI conjI impI)
    fix r assume r: "r \<in> set t'"
    then have r': "r \<in> set t \<or> r = row" unfolding t'(1) by auto
    then show "SpaceID r \<noteq> 0" using nz assms(2) by (auto simp: space_ok_def)
    fix q assume q: "q \<in> set t'" "ParentID r = Some (pg_ID q)"
    show "SpaceID r = SpaceID q"
    proof (cases "r \<in> set t")
      case True
      then have "q \<noteq> row" using old[OF True] q(2) t'(3) by auto
      then have "q \<in> set t" using q(1) unfolding t'(1) by simp
      then show ?thesis using True q(2) assms(2) by (auto simp: space_ok_def)
    qed (use new q r' in blast)
  qed
qed

text \<open>Moving a page does not take it into the space of its new parent: the move succeeds and
  leaves a page, with all that is below it, in one space under a parent of another.\<close>

theorem Reparent_keeps_space:
  assumes "tree_ok t" and "GetPage t i = Some cur" and "GetPage t p = Some q" and "SpaceID q \<noteq> SpaceID cur"
    and "Reparent t now i \<lparr>Change = True, pc_ParentID = Some p\<rparr> after = Inr t'"
  shows "\<not> space_ok t' \<and> (\<exists>r\<in>set t'. pg_ID r = i \<and> ParentID r = Some p \<and> SpaceID r = SpaceID cur)"
proof -
  obtain plan where plan: "reparent_reads t i \<lparr>Change = True, pc_ParentID = Some p\<rparr> after = Inr plan"
    "reparent_writes t now i plan = Inr t'"
    using assms(5) by (auto simp: Reparent_def split: sum.splits)
  have tp: "target_parent plan = Some p" using plan(1) by (rule reparent_reads_cases) simp
  have c: "cur \<in> set t" "pg_ID cur = i" "live cur" "q \<in> set t" "pg_ID q = p"
    using assms(2,3) GetPage_SomeD by metis+
  obtain g where g: "t' = map g t" "\<And>r. pg_ID (g r) = pg_ID r \<and> SpaceID (g r) = SpaceID r \<and> DeletedAt (g r) = DeletedAt r \<and>
    Lifecycle (g r) = Lifecycle r \<and>
    ParentID (g r) = (if pg_ID r = i \<and> live r then target_parent plan else ParentID r)"
    using reparent_writes_map[OF plan(2)] by blast
  obtain r where r: "r \<in> set t'" "pg_ID r = i" "SpaceID r = SpaceID cur" "ParentID r = Some p"
    using g(2)[of cur] c tp by (intro that[of "g cur"]) (simp_all add: g(1))
  obtain q' where "q' \<in> set t'" "pg_ID q' = p" "SpaceID q' = SpaceID q"
    using g(2)[of q] c by (intro that[of "g q"]) (simp_all add: g(1))
  then show ?thesis using r assms(4) by (fastforce simp: space_ok_def)
qed

theorem Reparent_keeps_space_witness:
  "\<exists>t'. Reparent threePages 5 3 \<lparr>Change = True, pc_ParentID = Some 2\<rparr> None = Inr t' \<and> \<not> space_ok t'"
proof -
  have "\<exists>t'. Reparent threePages 5 3 \<lparr>Change = True, pc_ParentID = Some 2\<rparr> None = Inr t'"
    by (rule isr_ex) code_simp
  then obtain t' where t': "Reparent threePages 5 3 \<lparr>Change = True, pc_ParentID = Some 2\<rparr> None = Inr t'" by blast
  have "SpaceID pageB \<noteq> SpaceID pageC" by code_simp
  from Reparent_keeps_space[OF page_tree[OF threePages_reachable] threePages_get(3,2) this t'] t'
  show ?thesis by blast
qed

subsection \<open>Two moves at the same time\<close>

lemma reparent_writes_parents:
  assumes "reparent_writes t now i plan = Inr t'" and "GetPage t i = Some cur"
  shows "target_parent plan = Some p \<Longrightarrow> (p, i) \<in> parents t'"
    and "(a, b) \<in> parents t \<Longrightarrow> b \<noteq> i \<Longrightarrow> (a, b) \<in> parents t'"
proof -
  have c: "cur \<in> set t" "pg_ID cur = i" "live cur" using GetPage_SomeD[OF assms(2)] by auto
  obtain g where g: "t' = map g t" "\<And>r. pg_ID (g r) = pg_ID r \<and> SpaceID (g r) = SpaceID r \<and> DeletedAt (g r) = DeletedAt r \<and>
    Lifecycle (g r) = Lifecycle r \<and>
    ParentID (g r) = (if pg_ID r = i \<and> live r then target_parent plan else ParentID r)"
    using reparent_writes_map[OF assms(1)] by blast
  show "target_parent plan = Some p \<Longrightarrow> (p, i) \<in> parents t'"
    using g(2)[of cur] c by (auto simp: parents_def g(1) intro!: bexI[of _ cur])
  assume "(a, b) \<in> parents t" and b: "b \<noteq> i"
  then obtain r where "r \<in> set t" "pg_ID r = b" "ParentID r = Some a" by (auto simp: parents_def)
  then show "(a, b) \<in> parents t'"
    using g(2)[of r] b by (auto simp: parents_def g(1) intro!: bexI[of _ r])
qed

text \<open>The cycle check does not survive overlap. Reading happens before writing and nothing locks
  the rows read: when two transactions move two pages under each other, both checks pass on the
  table before, and after both writes the two pages are each other's ancestors.\<close>

theorem overlapping_moves_cycle:
  assumes "tree_ok t" and "a \<noteq> b"
    and "reparent_reads t a \<lparr>Change = True, pc_ParentID = Some b\<rparr> None = Inr plan_a"
    and "reparent_reads t b \<lparr>Change = True, pc_ParentID = Some a\<rparr> None = Inr plan_b"
    and "reparent_writes t now a plan_a = Inr t1" and "reparent_writes t1 later b plan_b = Inr t2"
  shows "(a, a) \<in> (parents t2)\<^sup>+ \<and> \<not> tree_ok t2"
proof -
  have tp: "target_parent plan_a = Some b" "target_parent plan_b = Some a"
    using assms(3,4) by (auto elim: reparent_reads_cases)
  obtain ra where ra: "GetPage t a = Some ra" using assms(3) by (rule reparent_reads_cases)
  obtain rb where rb: "GetPage t1 b = Some rb" using assms(6) by (auto simp: reparent_writes_def split: if_splits)
  have "(b, a) \<in> parents t1" using reparent_writes_parents(1)[OF assms(5) ra tp(1)] .
  then have ba: "(b, a) \<in> parents t2" using reparent_writes_parents(2)[OF assms(6) rb] assms(2) by blast
  have ab: "(a, b) \<in> parents t2" using reparent_writes_parents(1)[OF assms(6) rb tp(2)] .
  have "\<not> tree_ok t2"
  proof
    assume ok: "tree_ok t2"
    obtain r q where r: "r \<in> set t2" "pg_ID r = a" "q \<in> set t2" "pg_ID q = b"
      using ab ba by (auto simp: parents_def)
    obtain as bs where s: "spells t2 r as" "spells t2 q bs" using tree_spells[OF ok] r by meson
    have "prefix as bs" "prefix bs as"
      using prefix_ancestor[OF ok r(3) s(2) r(1) s(1)] prefix_ancestor[OF ok r(1) s(1) r(3) s(2)] ab ba r by auto
    then have "as = bs" by (rule prefix_order.antisym)
    then show False using s r assms(2) by (simp add: spells_def)
  qed
  then show ?thesis using ab ba by (meson r_into_trancl trancl_trans)
qed

theorem overlapping_moves_cycle_witness:
  "\<exists>plan_a plan_b t1 t2. reparent_reads threePages 1 \<lparr>Change = True, pc_ParentID = Some 2\<rparr> None = Inr plan_a \<and>
    reparent_reads threePages 2 \<lparr>Change = True, pc_ParentID = Some 1\<rparr> None = Inr plan_b \<and>
    reparent_writes threePages 5 1 plan_a = Inr t1 \<and> reparent_writes t1 6 2 plan_b = Inr t2 \<and>
    (1, 1) \<in> (parents t2)\<^sup>+"
proof -
  define plan_a where "plan_a = \<lparr>target_parent = Some 2, new_path = page_path [2, 1], old_path = page_path [1], new_key = ''i''\<rparr>"
  define plan_b where "plan_b = \<lparr>target_parent = Some 1, new_path = page_path [1, 2], old_path = page_path [2], new_key = ''r''\<rparr>"
  have a: "reparent_reads threePages 1 \<lparr>Change = True, pc_ParentID = Some 2\<rparr> None = Inr plan_a"
    and b: "reparent_reads threePages 2 \<lparr>Change = True, pc_ParentID = Some 1\<rparr> None = Inr plan_b"
    unfolding plan_a_def plan_b_def by code_simp+
  have "\<exists>t1. reparent_writes threePages 5 1 plan_a = Inr t1"
    unfolding plan_a_def by (rule isr_ex) code_simp
  then obtain t1 where t1: "reparent_writes threePages 5 1 plan_a = Inr t1" by blast
  have "case reparent_writes threePages 5 1 plan_a of Inl _ \<Rightarrow> False
      | Inr t \<Rightarrow> (case reparent_writes t 6 2 plan_b of Inl _ \<Rightarrow> False | Inr _ \<Rightarrow> True)"
    unfolding plan_a_def plan_b_def by code_simp
  then have "\<exists>t2. reparent_writes t1 6 2 plan_b = Inr t2" using t1 by (intro isr_ex) simp
  then obtain t2 where t2: "reparent_writes t1 6 2 plan_b = Inr t2" by blast
  have "(1 :: uuid) \<noteq> 2" by simp
  from overlapping_moves_cycle[OF page_tree[OF threePages_reachable] this a b t1 t2] show ?thesis
    using a b t1 t2 by blast
qed

subsection \<open>The trash\<close>

text \<open>The state of a page that can be restored is written by the last step of the delete saga
  alone, and no operation of the service starts one.\<close>

lemma never_Deleted: "reachable_table t \<Longrightarrow> \<forall>r\<in>set t. Lifecycle r \<noteq> Deleted"
proof (induction rule: reachable_table.induct)
  case (step t t')
  from step.hyps(2) show ?case
  proof cases
    case (created now i np row)
    then show ?thesis using step.IH by (elim Create_cases) auto
  next
    case (reparented now i pc after)
    then obtain plan where "reparent_writes t now i plan = Inr t'" by (auto simp: Reparent_def split: sum.splits)
    from reparent_writes_map[OF this] show ?thesis using step.IH by auto
  next
    case (renamed now i title)
    then show ?thesis using step.IH by (auto simp: Rename_def RenamePage_def set_update_rows split: if_splits)
  next
    case (deleted now i)
    then show ?thesis using step.IH
      by (auto simp: Delete_def SoftDeletePage_def SoftDeleteDescendants_def set_update_rows soft_delete_def
          split: option.splits)
  next
    case (restored now i)
    then show ?thesis using step.IH
      by (auto simp: RestorePageAndSubtree_def set_update_rows split: option.splits)
  qed
qed simp

text \<open>No page deleted by the service can be restored: in every table the operations lead to,
  a restore of any page changes nothing and reports no rows.\<close>

theorem trash_not_restorable:
  assumes "reachable_table t"
  shows "RestorePageAndSubtree t now i = (0, t)"
proof -
  have "find (\<lambda>r. pg_ID r = i \<and> Lifecycle r = Deleted) t = None"
    using never_Deleted[OF assms] by (auto simp: find_ex)
  then show ?thesis by (simp add: RestorePageAndSubtree_def)
qed

theorem trash_not_restorable_witness:
  "\<not> live (hd (Delete threePages 8 1)) \<and> RestorePageAndSubtree (Delete threePages 8 1) 9 1 = (0, Delete threePages 8 1)"
proof -
  have "reachable_table (Delete threePages 8 1)"
    by (rule reachable_table.step[OF threePages_reachable repo_step.deleted])
  from trash_not_restorable[OF this] have "RestorePageAndSubtree (Delete threePages 8 1) 9 1 = (0, Delete threePages 8 1)" .
  moreover have "\<not> live (hd (Delete threePages 8 1))" by code_simp
  ultimately show ?thesis by simp
qed

end
