(* ===== verification/PageSaga.thy ===== *)
theory PageSaga
  imports PageRepoProps
begin

text \<open>
  The page-delete saga of document-service: internal/pagesaga (steps.go, runner.go, sweeper.go),
  the queries on docs.page_deletions, and Restore of trash_repo.go. What the rows of
  page_deletions record is all a resumed saga knows. Statements of one connection wait for the row
  locks another open transaction holds.
\<close>

subsection \<open>State\<close>

datatype saga_error = PageNotFound | ReleaseFailed | SagaRowMissing | UnknownStep string

record PageDeletion =
  pd_PageID :: uuid
  RequestedBy :: uuid
  StepsDone :: "string list"
  Attempts :: nat
  CompletedAt :: "nat option"
  LastError :: "saga_error option"
  StartedAt :: nat

record docs_db =
  pages :: page_table
  page_deletions :: "PageDeletion list"
  page_links :: "(uuid \<times> uuid option) list"

definition StepTreeDetached :: string where "StepTreeDetached = ''tree_detached''"
definition StepLinksRewritten :: string where "StepLinksRewritten = ''links_rewritten''"
definition StepSearchIndex :: string where "StepSearchIndex = ''search_index''"
definition StepSessionsReleased :: string where "StepSessionsReleased = ''sessions_released''"
definition StepEmbeddingsPurged :: string where "StepEmbeddingsPurged = ''embeddings_purged''"
definition StepBlobsReleased :: string where "StepBlobsReleased = ''blobs_released''"

lemmas step_names = StepTreeDetached_def StepLinksRewritten_def StepSearchIndex_def
  StepSessionsReleased_def StepEmbeddingsPurged_def StepBlobsReleased_def

definition Steps :: "string list" where
  "Steps = [StepTreeDetached, StepLinksRewritten, StepSearchIndex, StepSessionsReleased,
     StepEmbeddingsPurged, StepBlobsReleased]"

definition Remaining :: "string list \<Rightarrow> string list" where
  "Remaining done = filter (\<lambda>s. s \<notin> set done) Steps"

definition NotApplicable :: "string \<Rightarrow> bool" where
  "NotApplicable step \<longleftrightarrow> step = StepEmbeddingsPurged \<or> step = StepBlobsReleased"

text \<open>Two minutes, in the seconds of \<open>now\<close>.\<close>

definition AckTimeout :: nat where
  "AckTimeout = 120"

subsection \<open>Queries\<close>

definition update_saga :: "uuid \<Rightarrow> (PageDeletion \<Rightarrow> PageDeletion) \<Rightarrow> docs_db \<Rightarrow> docs_db" where
  "update_saga pid f db = db\<lparr>page_deletions := map (\<lambda>d. if pd_PageID d = pid then f d else d) (page_deletions db)\<rparr>"

definition StartPageDeletion :: "docs_db \<Rightarrow> nat \<Rightarrow> uuid \<Rightarrow> uuid \<Rightarrow> docs_db" where
  "StartPageDeletion db now pid by =
     (if pid \<in> set (map pd_PageID (page_deletions db)) then db
      else db\<lparr>page_deletions := page_deletions db @
        [\<lparr>pd_PageID = pid, RequestedBy = by, StepsDone = [], Attempts = 1, CompletedAt = None,
          LastError = None, StartedAt = now\<rparr>]\<rparr>)"

definition ClaimPageDeletions :: "docs_db \<Rightarrow> nat \<Rightarrow> PageDeletion list" where
  "ClaimPageDeletions db lim = take lim (sort_key StartedAt (filter (\<lambda>d. CompletedAt d = None) (page_deletions db)))"

definition RecordPageDeletionStep :: "uuid \<Rightarrow> string \<Rightarrow> docs_db \<Rightarrow> docs_db" where
  "RecordPageDeletionStep pid step =
     update_saga pid (\<lambda>d. d\<lparr>StepsDone := (if step \<in> set (StepsDone d) then StepsDone d else StepsDone d @ [step]),
       LastError := None\<rparr>)"

definition RecordPageDeletionFailure :: "uuid \<Rightarrow> saga_error \<Rightarrow> docs_db \<Rightarrow> docs_db" where
  "RecordPageDeletionFailure pid err =
     update_saga pid (\<lambda>d. d\<lparr>LastError := Some err, Attempts := Attempts d + 1\<rparr>)"

text \<open>Both tables move together, and only when the row of the saga is still open.\<close>

definition CompletePageDeletion :: "nat \<Rightarrow> uuid \<Rightarrow> docs_db \<Rightarrow> docs_db" where
  "CompletePageDeletion now pid db =
     (if \<exists>d\<in>set (page_deletions db). pd_PageID d = pid \<and> CompletedAt d = None
      then (update_saga pid (\<lambda>d. if CompletedAt d = None then d\<lparr>CompletedAt := Some now, LastError := None\<rparr> else d) db)
             \<lparr>pages := update_rows (\<lambda>r. pg_ID r = pid) (\<lambda>r. r\<lparr>Lifecycle := Deleted, UpdatedAt := now\<rparr>) (pages db)\<rparr>
      else db)"

definition ClearPageDeletion :: "uuid \<Rightarrow> docs_db \<Rightarrow> docs_db" where
  "ClearPageDeletion pid db = db\<lparr>page_deletions := filter (\<lambda>d. pd_PageID d \<noteq> pid) (page_deletions db)\<rparr>"

definition DeleteSubtreeLinks :: "string \<Rightarrow> docs_db \<Rightarrow> docs_db" where
  "DeleteSubtreeLinks parent_path db =
     db\<lparr>page_links := filter (\<lambda>(src, _). \<not> (\<exists>r\<in>set (pages db). pg_ID r = src \<and> ltree_descendant (Path r) parent_path))
       (page_links db)\<rparr>"

definition Restore :: "docs_db \<Rightarrow> nat \<Rightarrow> uuid \<Rightarrow> nat \<times> docs_db" where
  "Restore db now pid =
     (case RestorePageAndSubtree (pages db) now pid of
        (n, t) \<Rightarrow> if n = 0 then (0, db) else (n, ClearPageDeletion pid (db\<lparr>pages := t\<rparr>)))"

subsection \<open>Steps\<close>

datatype step_result = StepDone | AwaitingAck | StepFailed saga_error

text \<open>\<open>released\<close> answers whether the ack of collaboration-service has arrived, or fails.\<close>

definition run_step :: "nat \<Rightarrow> (uuid \<Rightarrow> bool option) \<Rightarrow> docs_db \<Rightarrow> uuid \<Rightarrow> string \<Rightarrow> step_result \<times> docs_db" where
  "run_step now released db pid step =
     (if step = StepTreeDetached then (StepDone, db)
      else if step = StepLinksRewritten then
        (case GetPage (pages db) pid of
           None \<Rightarrow> (StepFailed PageNotFound, db)
         | Some row \<Rightarrow> (StepDone, DeleteSubtreeLinks (Path row) db))
      else if step = StepSearchIndex then (StepDone, db)
      else if step = StepSessionsReleased then
        (case released pid of
           None \<Rightarrow> (StepFailed ReleaseFailed, db)
         | Some True \<Rightarrow> (StepDone, db)
         | Some False \<Rightarrow>
             (case find (\<lambda>d. pd_PageID d = pid) (page_deletions db) of
                None \<Rightarrow> (StepFailed SagaRowMissing, db)
              | Some d \<Rightarrow> if now - StartedAt d > AckTimeout then (StepDone, db) else (AwaitingAck, db)))
      else if NotApplicable step then (StepDone, db)
      else (StepFailed (UnknownStep step), db))"

text \<open>A statement that updates a row somebody else has locked waits; \<open>locked\<close> are the rows of
  page_deletions locked by other open transactions.\<close>

datatype 'a wait_outcome = Done 'a | Waits

definition on_saga :: "uuid set \<Rightarrow> uuid \<Rightarrow> docs_db \<Rightarrow> docs_db wait_outcome" where
  "on_saga locked pid db = (if pid \<in> locked then Waits else Done db)"

fun advance_loop :: "uuid set \<Rightarrow> nat \<Rightarrow> (uuid \<Rightarrow> bool option) \<Rightarrow> uuid \<Rightarrow> string list \<Rightarrow> nat \<Rightarrow> docs_db
    \<Rightarrow> (nat \<times> saga_error option \<times> docs_db) wait_outcome" where
  "advance_loop locked now released pid [] done db =
     (case on_saga locked pid (CompletePageDeletion now pid db) of
        Waits \<Rightarrow> Waits | Done db \<Rightarrow> Done (done, None, db))"
| "advance_loop locked now released pid (step # steps) done db =
     (case run_step now released db pid step of
        (AwaitingAck, db) \<Rightarrow> Done (done, None, db)
      | (StepFailed err, db) \<Rightarrow>
          (case on_saga locked pid (RecordPageDeletionFailure pid err db) of
             Waits \<Rightarrow> Waits | Done db \<Rightarrow> Done (done, Some err, db))
      | (StepDone, db) \<Rightarrow>
          (case on_saga locked pid (RecordPageDeletionStep pid step db) of
             Waits \<Rightarrow> Waits | Done db \<Rightarrow> advance_loop locked now released pid steps (done + 1) db))"

definition Advance :: "uuid set \<Rightarrow> nat \<Rightarrow> (uuid \<Rightarrow> bool option) \<Rightarrow> PageDeletion \<Rightarrow> docs_db
    \<Rightarrow> (nat \<times> saga_error option \<times> docs_db) wait_outcome" where
  "Advance locked now released s db = advance_loop locked now released (pd_PageID s) (Remaining (StepsDone s)) 0 db"

fun pass_loop :: "uuid set \<Rightarrow> nat \<Rightarrow> (uuid \<Rightarrow> bool option) \<Rightarrow> PageDeletion list \<Rightarrow> docs_db \<Rightarrow> docs_db wait_outcome" where
  "pass_loop locked now released [] db = Done db"
| "pass_loop locked now released (s # ss) db =
     (case Advance locked now released s db of
        Waits \<Rightarrow> Waits | Done (_, _, db) \<Rightarrow> pass_loop locked now released ss db)"

definition BatchSize :: nat where
  "BatchSize = 16"

text \<open>The pass holds its claim, \<open>FOR UPDATE\<close>, in a transaction of its own while the runner works
  over other connections of the pool: the claimed rows are locked for the runner.\<close>

definition pass :: "nat \<Rightarrow> (uuid \<Rightarrow> bool option) \<Rightarrow> docs_db \<Rightarrow> docs_db wait_outcome" where
  "pass now released db =
     (let rows = ClaimPageDeletions db BatchSize
      in if rows = [] then Done db
         else pass_loop (set (map pd_PageID rows)) now released rows db)"

subsection \<open>What the saga does\<close>

text \<open>A sweep that claims a saga whose first step is not recorded never returns: recording the
  step waits for the row lock the sweep itself holds.\<close>

theorem sweep_waits_for_itself:
  assumes "ClaimPageDeletions db BatchSize = s # ss" and "StepTreeDetached \<notin> set (StepsDone s)"
  shows "pass now released db = Waits"
proof -
  have "Remaining (StepsDone s) = StepTreeDetached # filter (\<lambda>x. x \<notin> set (StepsDone s)) (tl Steps)"
    using assms(2) by (simp add: Remaining_def Steps_def)
  then have "Advance (set (map pd_PageID (s # ss))) now released s db = Waits"
    by (simp add: Advance_def run_step_def on_saga_def)
  then show ?thesis by (simp add: pass_def assms(1))
qed

definition demo_db :: docs_db where
  "demo_db = StartPageDeletion \<lparr>pages = Delete threePages 8 1, page_deletions = [], page_links = []\<rparr> 8 1 9"

theorem sweep_waits_for_itself_witness: "pass 9 (\<lambda>_. Some True) demo_db = Waits"
proof -
  have "ClaimPageDeletions demo_db BatchSize = hd (page_deletions demo_db) # []"
    "StepTreeDetached \<notin> set (StepsDone (hd (page_deletions demo_db)))" by code_simp+
  then show ?thesis by (rule sweep_waits_for_itself)
qed

text \<open>The same page while it is in the trash, with the lock out of the way.\<close>

definition in_trash :: "docs_db \<Rightarrow> uuid \<Rightarrow> bool" where
  "in_trash db pid \<longleftrightarrow> GetPage (pages db) pid = None"

definition saga_open :: "docs_db \<Rightarrow> uuid \<Rightarrow> bool" where
  "saga_open db pid \<longleftrightarrow> (\<forall>d\<in>set (page_deletions db). pd_PageID d = pid \<longrightarrow>
     CompletedAt d = None \<and> StepLinksRewritten \<notin> set (StepsDone d))"

lemma update_saga_pages [simp]: "pages (update_saga pid f db) = pages db"
  by (simp add: update_saga_def)

lemma Advance_in_trash:
  assumes "in_trash db (pd_PageID s)" and "StepLinksRewritten \<notin> set (StepsDone s)"
    and "saga_open db (pd_PageID s)"
  shows "\<exists>n db'. Advance {} now released s db = Done (n, Some PageNotFound, db') \<and> pages db' = pages db \<and>
    saga_open db' (pd_PageID s)"
proof -
  let ?pid = "pd_PageID s"
  have split: "Remaining (StepsDone s) =
      (if StepTreeDetached \<in> set (StepsDone s) then [] else [StepTreeDetached]) @
      StepLinksRewritten # filter (\<lambda>x. x \<notin> set (StepsDone s)) (drop 2 Steps)"
    using assms(2) by (simp add: Remaining_def Steps_def)
  have names: "StepTreeDetached \<noteq> StepLinksRewritten" "StepLinksRewritten \<noteq> StepTreeDetached" by (simp_all add: step_names)
  have open1: "saga_open (RecordPageDeletionStep ?pid StepTreeDetached db) ?pid"
    using assms(3) names by (auto simp: saga_open_def RecordPageDeletionStep_def update_saga_def split: if_splits)
  have open2: "saga_open (RecordPageDeletionFailure ?pid e d) ?pid" if "saga_open d ?pid" for d e
    using that by (auto simp: saga_open_def RecordPageDeletionFailure_def update_saga_def)
  have links: "run_step now released d ?pid StepLinksRewritten = (StepFailed PageNotFound, d)" if "pages d = pages db" for d
    using assms(1) that names by (simp add: run_step_def in_trash_def)
  show ?thesis
  proof (cases "StepTreeDetached \<in> set (StepsDone s)")
    case True
    then show ?thesis using links[of db] open2[OF assms(3)]
      by (auto simp: Advance_def split on_saga_def RecordPageDeletionFailure_def)
  next
    case False
    let ?d = "RecordPageDeletionStep ?pid StepTreeDetached db"
    have "pages ?d = pages db" by (simp add: RecordPageDeletionStep_def)
    from links[OF this] show ?thesis using False open2[OF open1]
      by (auto simp: Advance_def split run_step_def[of _ _ db _ StepTreeDetached] on_saga_def
          RecordPageDeletionFailure_def RecordPageDeletionStep_def)
  qed
qed

inductive saga_step :: "uuid \<Rightarrow> docs_db \<Rightarrow> docs_db \<Rightarrow> bool" for pid where
  advance: "s \<in> set (page_deletions db) \<Longrightarrow> pd_PageID s = pid \<Longrightarrow>
    Advance {} now released s db = Done (n, err, db') \<Longrightarrow> saga_step pid db db'"

text \<open>Even without the lock no deletion ever completes: the second step looks the page up among
  the pages that are not deleted, so as long as the page is in the trash every attempt fails there,
  and the page never becomes restorable.\<close>

theorem saga_never_completes:
  assumes "(saga_step pid)\<^sup>*\<^sup>* db db'" and "in_trash db pid" and "saga_open db pid"
  shows "saga_open db' pid \<and> pages db' = pages db"
  using assms(1)
proof (induction rule: rtranclp_induct)
  case (step d1 d2)
  from step.hyps(2) show ?case
  proof cases
    case (advance s now released n err)
    have "in_trash d1 pid" using step.IH assms(2) by (simp add: in_trash_def)
    moreover have "StepLinksRewritten \<notin> set (StepsDone s)" using step.IH advance(1,2) by (simp add: saga_open_def)
    ultimately obtain m d where "Advance {} now released s d1 = Done (m, Some PageNotFound, d)"
      "pages d = pages d1" "saga_open d pid"
      using Advance_in_trash[of d1 s now released] step.IH advance(2) by auto
    then show ?thesis using advance(3) step.IH by simp
  qed
qed (use assms(3) in simp)

theorem saga_never_completes_witness:
  "\<exists>db'. saga_step 1 demo_db db' \<and> map Attempts (page_deletions db') = [2] \<and> saga_open db' 1"
proof -
  have s: "hd (page_deletions demo_db) \<in> set (page_deletions demo_db)" "pd_PageID (hd (page_deletions demo_db)) = 1"
    by code_simp+
  have o: "in_trash demo_db 1" "saga_open demo_db 1" unfolding in_trash_def saga_open_def by code_simp+
  have "case Advance {} 9 (\<lambda>_. Some True) (hd (page_deletions demo_db)) demo_db of
      Waits \<Rightarrow> False | Done (_, _, d) \<Rightarrow> map Attempts (page_deletions d) = [2]" by code_simp
  then obtain n e db' where a: "Advance {} 9 (\<lambda>_. Some True) (hd (page_deletions demo_db)) demo_db = Done (n, e, db')"
    "map Attempts (page_deletions db') = [2]" by (auto split: wait_outcome.splits)
  have st: "saga_step 1 demo_db db'" by (rule saga_step.advance[OF s a(1)])
  have "saga_open db' 1"
    using saga_never_completes[OF r_into_rtranclp[of "saga_step 1", OF st] o] by (rule conjunct1)
  with st a(2) show ?thesis by (intro exI[of _ db'] conjI)
qed

subsection \<open>Restoring\<close>

lemma restore_row:
  assumes "tree_ok t" and "GetPage t i = Some page" and "r \<in> set t"
  shows "ltree_descendant (Path r) (Path page) \<longleftrightarrow> (i, pg_ID r) \<in> (parents t)\<^sup>*"
  using descendant_spells[OF assms(1,3)] GetPage_SomeD[OF assms(2)] by auto

text \<open>If the saga did complete, a restore would undo the delete exactly: the page and the pages
  the delete took with it are live again, and pages that were in the trash before stay there.\<close>

theorem restore_undoes_delete:
  assumes "tree_ok t" and "GetPage t i = Some page"
    and "\<forall>r\<in>set t. live r \<longrightarrow> Lifecycle r = Active" and "\<forall>r\<in>set t. DeletedAt r \<noteq> Some now"
    and "pages db = Delete t now i"
    and "\<exists>d\<in>set (page_deletions db). pd_PageID d = i \<and> CompletedAt d = None"
  shows "map (\<lambda>r. r\<lparr>UpdatedAt := 0\<rparr>) (pages (snd (Restore (CompletePageDeletion later i db) later i))) =
    map (\<lambda>r. r\<lparr>UpdatedAt := 0\<rparr>) t"
proof -
  have p: "page \<in> set t" "pg_ID page = i" "live page" using GetPage_SomeD[OF assms(2)] by auto
  define hit where "hit r \<longleftrightarrow> live r \<and> (i, pg_ID r) \<in> (parents t)\<^sup>*" for r
  define f :: "Page \<Rightarrow> Page" where "f r = (if hit r then soft_delete now r else r)" for r
  define g :: "Page \<Rightarrow> Page" where "g r = (if pg_ID r = i then r\<lparr>Lifecycle := Deleted, UpdatedAt := later\<rparr> else r)" for r
  let ?t = "map (\<lambda>r. g (f r)) t"
  have t2: "pages (CompletePageDeletion later i db) = ?t"
    using assms(5,6) by (simp add: CompletePageDeletion_def Delete_exact[OF assms(1,2)] update_rows_def hit_def f_def g_def)
  have fields: "pg_ID (g (f r)) = pg_ID r" "Path (g (f r)) = Path r"
    "DeletedAt (g (f r)) = (if hit r then Some now else DeletedAt r)"
    "Lifecycle (g (f r)) = (if pg_ID r = i then Deleted else if hit r then Deleting else Lifecycle r)" for r
    by (simp_all add: f_def g_def soft_delete_def)
  have hit: "hit page" using p by (simp add: hit_def)
  let ?target = "g (f page)"
  obtain target where target: "find (\<lambda>r. pg_ID r = i \<and> Lifecycle r = Deleted) ?t = Some target"
    using p fields by (cases "find (\<lambda>r. pg_ID r = i \<and> Lifecycle r = Deleted) ?t") (auto simp: find_ex)
  from find_SomeD[OF target] have m: "target \<in> set ?t" "pg_ID target = i" by auto
  from m(1) obtain r where r: "r \<in> set t" "target = g (f r)" unfolding set_map by blast
  then have "pg_ID r = i" using fields(1)[of r] m(2) by simp
  then have "r = page" using same_page[OF assms(1) r(1) p(1)] p(2) by simp
  then have tg: "target = ?target" using r by simp
  have rest: "restorable ?target (g (f r)) \<longleftrightarrow> hit r" if "r \<in> set t" for r
  proof -
    have "restorable ?target (g (f r)) \<longleftrightarrow> pg_ID r = i \<or> (i, pg_ID r) \<in> (parents t)\<^sup>* \<and> hit r"
      using restore_row[OF assms(1,2) that] assms(4) that hit p(2) unfolding restorable_def fields by auto
    also have "\<dots> \<longleftrightarrow> hit r" using same_page[OF assms(1) that p(1)] hit p(2) by (auto simp: hit_def)
    finally show ?thesis .
  qed
  have n: "length (filter (restorable ?target) ?t) \<noteq> 0"
    using rest[OF p(1)] hit p(1) by (auto simp: filter_empty_conv)
  have undone: "(if restorable ?target (g (f r)) then (g (f r))\<lparr>Lifecycle := Active, DeletedAt := None, UpdatedAt := later\<rparr>
      else g (f r))\<lparr>UpdatedAt := 0\<rparr> = r\<lparr>UpdatedAt := 0\<rparr>" if "r \<in> set t" for r
  proof (cases "hit r")
    case True
    then have "DeletedAt r = None" "Lifecycle r = Active" using assms(3) that by (auto simp: hit_def live_def)
    then show ?thesis using True rest[OF that] by (simp add: f_def g_def soft_delete_def)
  next
    case False
    then have "pg_ID r \<noteq> i" using same_page[OF assms(1) that p(1)] hit p(2) by auto
    then show ?thesis using False rest[OF that] by (simp add: f_def g_def)
  qed
  have "pages (snd (Restore (CompletePageDeletion later i db) later i)) =
      map (\<lambda>r. if restorable ?target (g (f r)) then (g (f r))\<lparr>Lifecycle := Active, DeletedAt := None, UpdatedAt := later\<rparr>
        else g (f r)) t"
    using n by (simp add: Restore_def t2 RestorePageAndSubtree_def target tg update_rows_def ClearPageDeletion_def o_def)
  then show ?thesis using undone by (simp add: o_def)
qed

theorem restore_undoes_delete_witness:
  "map (\<lambda>r. r\<lparr>UpdatedAt := 0\<rparr>) (pages (snd (Restore (CompletePageDeletion 9 1 demo_db) 9 1))) =
    map (\<lambda>r. r\<lparr>UpdatedAt := 0\<rparr>) threePages"
proof -
  have "\<forall>r\<in>set threePages. live r \<longrightarrow> Lifecycle r = Active" "\<forall>r\<in>set threePages. DeletedAt r \<noteq> Some 8"
    "\<exists>d\<in>set (page_deletions demo_db). pd_PageID d = 1 \<and> CompletedAt d = None" by code_simp+
  moreover have "pages demo_db = Delete threePages 8 1" by (simp add: demo_db_def StartPageDeletion_def)
  ultimately show ?thesis
    using restore_undoes_delete[OF page_tree[OF threePages_reachable] threePages_get(1)] by blast
qed

end
