(* ===== verification/Spaces.thy ===== *)
theory Spaces
  imports Prelude
begin

text \<open>
  The permission boundary of auth-service: internal/spaces (spaces.go, invitations.go, store.go)
  over the tables of its database, with the events written beside each change
  (internal/outbox). Each operation of \<open>Service\<close> is one transaction: an error leaves the database
  as it was. \<open>now\<close> is the time an operation reads.
\<close>

subsection \<open>Roles\<close>

type_synonym Role = string

definition Viewer :: Role where "Viewer = ''viewer''"
definition Editor :: Role where "Editor = ''editor''"
definition Admin :: Role where "Admin = ''admin''"

definition rank :: "Role \<Rightarrow> nat" where
  "rank r = (if r = Viewer then 1 else if r = Editor then 2 else if r = Admin then 3 else 0)"

definition Valid :: "Role \<Rightarrow> bool" where
  "Valid r \<longleftrightarrow> rank r > 0"

definition AtLeast :: "Role \<Rightarrow> Role \<Rightarrow> bool" where
  "AtLeast r least \<longleftrightarrow> rank r \<ge> rank least"

subsection \<open>Tables\<close>

record Member =
  mb_User :: uuid
  mb_Space :: uuid
  mb_Role :: Role
  mb_GrantedBy :: uuid

record Invitation =
  inv_ID :: uuid
  inv_Space :: uuid
  inv_User :: uuid
  inv_Role :: Role
  inv_InvitedBy :: uuid
  inv_RespondedAt :: "nat option"
  inv_Accepted :: bool

record SpaceRow =
  sp_ID :: uuid
  sp_IsDefault :: bool
  sp_CreatedBy :: uuid

datatype RoleEvent =
    RoleGranted (ev_user: uuid) (ev_space: uuid) (ev_role: Role) (ev_at: nat)
  | RoleRevoked (ev_user: uuid) (ev_space: uuid) (ev_at: nat)
  | MemberInvited (ev_invitation: uuid) (ev_user: uuid) (ev_space: uuid) (ev_role: Role) (ev_invited_by: uuid) (ev_at: nat)

record auth_db =
  users :: "uuid list"
  spaces :: "SpaceRow list"
  memberships :: "Member list"
  invitations :: "Invitation list"
  outbox :: "RoleEvent list"

datatype space_error = ErrNotAMember | ErrInsufficientRole | ErrLastAdmin | ErrInvalidRole
  | ErrAlreadyMember | ErrAlreadyAnswered | ErrAlreadyInvited | ErrConstraint

text \<open>"" when there is no row.\<close>

definition RoleInSpace :: "auth_db \<Rightarrow> uuid \<Rightarrow> uuid \<Rightarrow> Role" where
  "RoleInSpace db u s =
     (case find (\<lambda>m. mb_User m = u \<and> mb_Space m = s) (memberships db) of None \<Rightarrow> [] | Some m \<Rightarrow> mb_Role m)"

definition CountAdmins :: "auth_db \<Rightarrow> uuid \<Rightarrow> nat" where
  "CountAdmins db s = length (filter (\<lambda>m. mb_Space m = s \<and> mb_Role m = Admin) (memberships db))"

text \<open>The foreign keys of auth.memberships, and the check on the role.\<close>

definition member_constraints :: "auth_db \<Rightarrow> uuid \<Rightarrow> uuid \<Rightarrow> Role \<Rightarrow> uuid \<Rightarrow> bool" where
  "member_constraints db u s r by \<longleftrightarrow>
     u \<in> set (users db) \<and> by \<in> set (users db) \<and> s \<in> set (map sp_ID (spaces db)) \<and> Valid r"

definition UpsertMembership :: "auth_db \<Rightarrow> uuid \<Rightarrow> uuid \<Rightarrow> Role \<Rightarrow> uuid \<Rightarrow> space_error + auth_db" where
  "UpsertMembership db u s r by =
     (if \<not> member_constraints db u s r by then Inl ErrConstraint
      else Inr (db\<lparr>memberships :=
        (if \<exists>m\<in>set (memberships db). mb_User m = u \<and> mb_Space m = s
         then map (\<lambda>m. if mb_User m = u \<and> mb_Space m = s then m\<lparr>mb_Role := r, mb_GrantedBy := by\<rparr> else m) (memberships db)
         else memberships db @ [\<lparr>mb_User = u, mb_Space = s, mb_Role = r, mb_GrantedBy = by\<rparr>])\<rparr>))"

definition DeleteMembership :: "auth_db \<Rightarrow> uuid \<Rightarrow> uuid \<Rightarrow> auth_db" where
  "DeleteMembership db u s =
     db\<lparr>memberships := filter (\<lambda>m. \<not> (mb_User m = u \<and> mb_Space m = s)) (memberships db)\<rparr>"

text \<open>One pending invitation for a person and a space.\<close>

definition CreateInvitation :: "auth_db \<Rightarrow> uuid \<Rightarrow> uuid \<Rightarrow> uuid \<Rightarrow> uuid \<Rightarrow> Role \<Rightarrow> space_error + (Invitation \<times> auth_db)" where
  "CreateInvitation db i s u by r =
     (if \<exists>v\<in>set (invitations db). inv_ID v = i \<or> inv_User v = u \<and> inv_Space v = s \<and> inv_RespondedAt v = None
      then Inl ErrAlreadyInvited
      else if \<not> member_constraints db u s r by then Inl ErrConstraint
      else let v = \<lparr>inv_ID = i, inv_Space = s, inv_User = u, inv_Role = r, inv_InvitedBy = by,
                    inv_RespondedAt = None, inv_Accepted = False\<rparr>
        in Inr (v, db\<lparr>invitations := invitations db @ [v]\<rparr>))"

text \<open>The conditional update; \<open>None\<close> when no open invitation of this user has the id.\<close>

definition Answer :: "auth_db \<Rightarrow> nat \<Rightarrow> uuid \<Rightarrow> uuid \<Rightarrow> bool \<Rightarrow> (Invitation \<times> auth_db) option" where
  "Answer db now i u accept =
     (let open_to_user = (\<lambda>v. inv_ID v = i \<and> inv_User v = u \<and> inv_RespondedAt v = None);
          answered = (\<lambda>v. v\<lparr>inv_RespondedAt := Some now, inv_Accepted := accept\<rparr>)
      in case find open_to_user (invitations db) of
           None \<Rightarrow> None
         | Some v \<Rightarrow> Some (answered v,
             db\<lparr>invitations := map (\<lambda>w. if open_to_user w then answered w else w) (invitations db)\<rparr>))"

subsection \<open>The rules\<close>

definition Authorize :: "auth_db \<Rightarrow> uuid \<Rightarrow> uuid \<Rightarrow> Role \<Rightarrow> space_error option" where
  "Authorize db caller s least =
     (let role = RoleInSpace db caller s
      in if \<not> Valid role then Some ErrNotAMember
         else if \<not> AtLeast role least then Some ErrInsufficientRole
         else None)"

definition requireAnotherAdmin :: "auth_db \<Rightarrow> uuid \<Rightarrow> space_error option" where
  "requireAnotherAdmin db s = (if CountAdmins db s \<le> 1 then Some ErrLastAdmin else None)"

definition Grant :: "auth_db \<Rightarrow> uuid \<Rightarrow> uuid \<Rightarrow> uuid \<Rightarrow> Role \<Rightarrow> space_error + auth_db" where
  "Grant db caller s target role =
     (if \<not> Valid role then Inl ErrInvalidRole
      else case Authorize db caller s Admin of
        Some e \<Rightarrow> Inl e
      | None \<Rightarrow>
          (case (if RoleInSpace db target s = Admin \<and> role \<noteq> Admin then requireAnotherAdmin db s else None) of
             Some e \<Rightarrow> Inl e
           | None \<Rightarrow> UpsertMembership db target s role caller))"

text \<open>What Revoke decides from what it reads: an error, nothing to do, or the row to delete.\<close>

definition revoke_reads :: "auth_db \<Rightarrow> uuid \<Rightarrow> uuid \<Rightarrow> uuid \<Rightarrow> space_error + bool" where
  "revoke_reads db caller s target =
     (case Authorize db caller s Admin of
        Some e \<Rightarrow> Inl e
      | None \<Rightarrow>
          let current = RoleInSpace db target s
          in if \<not> Valid current then Inr False
             else (case (if current = Admin then requireAnotherAdmin db s else None) of
                     Some e \<Rightarrow> Inl e
                   | None \<Rightarrow> Inr True))"

definition Revoke :: "auth_db \<Rightarrow> uuid \<Rightarrow> uuid \<Rightarrow> uuid \<Rightarrow> space_error + auth_db" where
  "Revoke db caller s target =
     (case revoke_reads db caller s target of
        Inl e \<Rightarrow> Inl e
      | Inr del \<Rightarrow> Inr (if del then DeleteMembership db target s else db))"

definition Invite :: "auth_db \<Rightarrow> uuid \<Rightarrow> uuid \<Rightarrow> uuid \<Rightarrow> uuid \<Rightarrow> Role \<Rightarrow> space_error + (Invitation \<times> auth_db)" where
  "Invite db i caller s target role =
     (if \<not> Valid role then Inl ErrInvalidRole
      else case Authorize db caller s Admin of
        Some e \<Rightarrow> Inl e
      | None \<Rightarrow> if Valid (RoleInSpace db target s) then Inl ErrAlreadyMember
          else CreateInvitation db i s target caller role)"

definition Respond :: "auth_db \<Rightarrow> nat \<Rightarrow> uuid \<Rightarrow> uuid \<Rightarrow> bool \<Rightarrow> space_error + (Invitation \<times> auth_db)" where
  "Respond db now caller i accept =
     (case Answer db now i caller accept of
        None \<Rightarrow> Inl ErrAlreadyAnswered
      | Some (v, db') \<Rightarrow>
          if \<not> accept then Inr (v, db')
          else (case UpsertMembership db' (inv_User v) (inv_Space v) (inv_Role v) (inv_InvitedBy v) of
                  Inl e \<Rightarrow> Inl e
                | Inr db'' \<Rightarrow> Inr (v, db'')))"

subsection \<open>The transactions of Service\<close>

definition WriteRoleEvent :: "RoleEvent \<Rightarrow> auth_db \<Rightarrow> auth_db" where
  "WriteRoleEvent e db = db\<lparr>outbox := outbox db @ [e]\<rparr>"

definition Service_Grant :: "auth_db \<Rightarrow> nat \<Rightarrow> uuid \<Rightarrow> uuid \<Rightarrow> uuid \<Rightarrow> Role \<Rightarrow> space_error + auth_db" where
  "Service_Grant db now caller s target role =
     (case Grant db caller s target role of
        Inl e \<Rightarrow> Inl e | Inr db' \<Rightarrow> Inr (WriteRoleEvent (RoleGranted target s role now) db'))"

definition Service_Revoke :: "auth_db \<Rightarrow> nat \<Rightarrow> uuid \<Rightarrow> uuid \<Rightarrow> uuid \<Rightarrow> space_error + auth_db" where
  "Service_Revoke db now caller s target =
     (case Revoke db caller s target of
        Inl e \<Rightarrow> Inl e | Inr db' \<Rightarrow> Inr (WriteRoleEvent (RoleRevoked target s now) db'))"

text \<open>\<open>i\<close> is the new id.\<close>

definition CreateSpace :: "auth_db \<Rightarrow> nat \<Rightarrow> uuid \<Rightarrow> uuid \<Rightarrow> space_error + auth_db" where
  "CreateSpace db now i creator =
     (if i \<in> set (map sp_ID (spaces db)) \<or> creator \<notin> set (users db) then Inl ErrConstraint
      else case UpsertMembership (db\<lparr>spaces := spaces db @ [\<lparr>sp_ID = i, sp_IsDefault = False, sp_CreatedBy = creator\<rparr>]\<rparr>)
                  creator i Admin creator of
             Inl e \<Rightarrow> Inl e
           | Inr db' \<Rightarrow> Inr (WriteRoleEvent (RoleGranted creator i Admin now) db'))"

definition Service_Respond :: "auth_db \<Rightarrow> nat \<Rightarrow> uuid \<Rightarrow> uuid \<Rightarrow> bool \<Rightarrow> space_error + auth_db" where
  "Service_Respond db now caller i accept =
     (case Respond db now caller i accept of
        Inl e \<Rightarrow> Inl e
      | Inr (v, db') \<Rightarrow>
          Inr (if accept then WriteRoleEvent (RoleGranted (inv_User v) (inv_Space v) (inv_Role v) now) db' else db'))"

definition Service_Invite :: "auth_db \<Rightarrow> nat \<Rightarrow> uuid \<Rightarrow> uuid \<Rightarrow> uuid \<Rightarrow> uuid \<Rightarrow> Role \<Rightarrow> space_error + auth_db" where
  "Service_Invite db now i caller s target role =
     (case Invite db i caller s target role of
        Inl e \<Rightarrow> Inl e
      | Inr (v, db') \<Rightarrow>
          Inr (WriteRoleEvent (MemberInvited (inv_ID v) (inv_User v) (inv_Space v) (inv_Role v) (inv_InvitedBy v) now) db'))"

text \<open>Registration, authservice/service.go: the first user makes the default space.\<close>

definition DefaultSpaceRow :: "uuid \<Rightarrow> SpaceRow" where
  "DefaultSpaceRow u = \<lparr>sp_ID = 0x0000000000007000800000000000d0c5, sp_IsDefault = True, sp_CreatedBy = u\<rparr>"

definition joinDefaultSpace :: "auth_db \<Rightarrow> nat \<Rightarrow> uuid \<Rightarrow> space_error + auth_db" where
  "joinDefaultSpace db now u =
     (case (case find sp_IsDefault (spaces db) of
              Some sp \<Rightarrow> Inr (sp, db)
            | None \<Rightarrow>
                if sp_ID (DefaultSpaceRow u) \<in> set (map sp_ID (spaces db)) then Inl ErrConstraint
                else Inr (DefaultSpaceRow u, db\<lparr>spaces := spaces db @ [DefaultSpaceRow u]\<rparr>)) of
        Inl e \<Rightarrow> Inl e
      | Inr (sp, db') \<Rightarrow>
          let role = (if sp_CreatedBy sp = u then Admin else Viewer)
          in (case UpsertMembership db' u (sp_ID sp) role (sp_CreatedBy sp) of
                Inl e \<Rightarrow> Inl e
              | Inr db'' \<Rightarrow> Inr (WriteRoleEvent (RoleGranted u (sp_ID sp) role now) db'')))"

text \<open>The user row and the membership are one transaction.\<close>

definition Register_user :: "auth_db \<Rightarrow> nat \<Rightarrow> uuid \<Rightarrow> space_error + auth_db" where
  "Register_user db now u =
     (if u \<in> set (users db) then Inl ErrConstraint
      else joinDefaultSpace (db\<lparr>users := users db @ [u]\<rparr>) now u)"

subsection \<open>Looking rows up by key\<close>

lemma find_update_same:
  "(\<And>m. k m \<Longrightarrow> k (f m)) \<Longrightarrow> find k (map (\<lambda>m. if k m then f m else m) xs) = map_option f (find k xs)"
  by (induction xs) auto

lemma find_update_other:
  "(\<And>m. k m \<Longrightarrow> \<not> l m \<and> \<not> l (f m)) \<Longrightarrow> find l (map (\<lambda>m. if k m then f m else m) xs) = find l xs"
  by (induction xs) auto

lemma find_append: "find k (xs @ ys) = (case find k xs of None \<Rightarrow> find k ys | Some m \<Rightarrow> Some m)"
  by (induction xs) auto

lemma find_filter_same: "find k (filter (\<lambda>m. \<not> k m) xs) = None"
  by (induction xs) auto

lemma find_filter_other: "(\<And>m. k m \<Longrightarrow> \<not> l m) \<Longrightarrow> find l (filter (\<lambda>m. \<not> k m) xs) = find l xs"
  by (induction xs) auto

lemma find_hit: "find k xs = Some m \<Longrightarrow> m \<in> set xs \<and> k m"
  by (induction xs) (auto split: if_splits)

lemma find_none: "find k xs = None \<longleftrightarrow> (\<forall>m\<in>set xs. \<not> k m)"
  by (induction xs) auto

definition key_of :: "uuid \<Rightarrow> uuid \<Rightarrow> Member \<Rightarrow> bool" where
  "key_of u s m \<longleftrightarrow> mb_User m = u \<and> mb_Space m = s"

lemma role_find: "RoleInSpace db u s = (case find (key_of u s) (memberships db) of None \<Rightarrow> [] | Some m \<Rightarrow> mb_Role m)"
  by (simp add: RoleInSpace_def key_of_def[abs_def])

lemma key_of_other: "\<not> (v = u \<and> q = s) \<Longrightarrow> key_of u s m \<Longrightarrow> \<not> key_of v q m"
  by (auto simp: key_of_def)

lemma upsert_rows:
  assumes "UpsertMembership db u s r by = Inr db'"
  shows "memberships db' = (if \<exists>m\<in>set (memberships db). key_of u s m
      then map (\<lambda>m. if key_of u s m then m\<lparr>mb_Role := r, mb_GrantedBy := by\<rparr> else m) (memberships db)
      else memberships db @ [\<lparr>mb_User = u, mb_Space = s, mb_Role = r, mb_GrantedBy = by\<rparr>])"
  using assms unfolding UpsertMembership_def key_of_def by (auto split: if_splits)

lemma role_upsert:
  assumes "UpsertMembership db u s r by = Inr db'"
  shows "RoleInSpace db' v q = (if v = u \<and> q = s then r else RoleInSpace db v q)"
proof -
  let ?f = "\<lambda>m. m\<lparr>mb_Role := r, mb_GrantedBy := by\<rparr>"
  let ?new = "\<lparr>mb_User = u, mb_Space = s, mb_Role = r, mb_GrantedBy = by\<rparr>"
  have new: "key_of v q ?new \<longleftrightarrow> v = u \<and> q = s" by (auto simp: key_of_def)
  have keep: "key_of v q (?f m) \<longleftrightarrow> key_of v q m" for v q m by (simp add: key_of_def)
  show ?thesis
  proof (cases "\<exists>m\<in>set (memberships db). key_of u s m")
    case True
    then obtain m where m: "find (key_of u s) (memberships db) = Some m"
      by (cases "find (key_of u s) (memberships db)") (auto simp: find_none)
    have rows: "memberships db' = map (\<lambda>m. if key_of u s m then ?f m else m) (memberships db)"
      using upsert_rows[OF assms] True by simp
    show ?thesis
    proof (cases "v = u \<and> q = s")
      case True
      then show ?thesis unfolding role_find rows using find_update_same[of "key_of u s" ?f] keep m by simp
    next
      case False
      then have "find (key_of v q) (memberships db') = find (key_of v q) (memberships db)"
        unfolding rows by (intro find_update_other) (simp add: keep key_of_other)
      then show ?thesis using False by (auto simp: role_find)
    qed
  next
    case no: False
    then have rows: "memberships db' = memberships db @ [?new]" using upsert_rows[OF assms] by simp
    have "find (key_of u s) (memberships db) = None" using no by (simp add: find_none)
    then show ?thesis unfolding role_find rows find_append using new by (auto split: option.splits)
  qed
qed

lemma role_delete: "RoleInSpace (DeleteMembership db u s) v q = (if v = u \<and> q = s then [] else RoleInSpace db v q)"
proof -
  have rows: "memberships (DeleteMembership db u s) = filter (\<lambda>m. \<not> key_of u s m) (memberships db)"
    by (simp add: DeleteMembership_def key_of_def)
  show ?thesis
  proof (cases "v = u \<and> q = s")
    case True
    have "find (key_of u s) (filter (\<lambda>m. \<not> key_of u s m) (memberships db)) = None" by (rule find_filter_same)
    then show ?thesis using True by (simp only: role_find rows) simp
  next
    case False
    then have "find (key_of v q) (filter (\<lambda>m. \<not> key_of u s m) (memberships db)) = find (key_of v q) (memberships db)"
      by (intro find_filter_other) (rule key_of_other)
    then show ?thesis using False by (auto simp: role_find rows)
  qed
qed

subsection \<open>A space keeps an admin\<close>

definition has_admin :: "auth_db \<Rightarrow> uuid \<Rightarrow> bool" where
  "has_admin db s \<longleftrightarrow> (\<exists>u. RoleInSpace db u s = Admin)"

definition tables_ok :: "auth_db \<Rightarrow> bool" where
  "tables_ok db \<longleftrightarrow> distinct (map (\<lambda>m. (mb_User m, mb_Space m)) (memberships db)) \<and>
     (\<forall>m\<in>set (memberships db). mb_User m \<in> set (users db) \<and> mb_Space m \<in> set (map sp_ID (spaces db)) \<and> Valid (mb_Role m)) \<and>
     distinct (map sp_ID (spaces db))"

lemma Admin_nonempty [simp]: "Admin \<noteq> []" "[] \<noteq> Admin" and Valid_Nil [simp]: "\<not> Valid []" and Valid_Admin [simp]: "Valid Admin"
  by (simp_all add: Admin_def Valid_def rank_def Viewer_def Editor_def)

lemma row_role:
  assumes "distinct (map (\<lambda>m. (mb_User m, mb_Space m)) (memberships db))" and "m \<in> set (memberships db)"
  shows "RoleInSpace db (mb_User m) (mb_Space m) = mb_Role m"
proof -
  have "find (key_of (mb_User m) (mb_Space m)) ms = Some m"
    if "distinct (map (\<lambda>m. (mb_User m, mb_Space m)) ms)" "m \<in> set ms" for ms
    using that
  proof (induction ms)
    case (Cons a ms)
    show ?case
    proof (cases "a = m")
      case False
      then have m: "m \<in> set ms" using Cons.prems(2) by simp
      then have "(mb_User m, mb_Space m) \<in> set (map (\<lambda>m. (mb_User m, mb_Space m)) ms)" by force
      then have "\<not> key_of (mb_User m) (mb_Space m) a" using Cons.prems(1) by (auto simp: key_of_def)
      then show ?thesis using Cons m by simp
    qed (simp add: key_of_def)
  qed simp
  then show ?thesis using assms by (simp add: role_find)
qed

lemma role_row: "RoleInSpace db u s \<noteq> [] \<Longrightarrow> \<exists>m\<in>set (memberships db). mb_User m = u \<and> mb_Space m = s \<and> mb_Role m = RoleInSpace db u s"
proof -
  assume "RoleInSpace db u s \<noteq> []"
  then obtain m where m: "find (key_of u s) (memberships db) = Some m" "RoleInSpace db u s = mb_Role m"
    by (auto simp: role_find split: option.splits)
  then have "m \<in> set (memberships db)" "key_of u s m" by (auto simp: find_Some_iff)
  then show ?thesis using m(2) by (auto simp: key_of_def)
qed

lemma another_admin:
  assumes "tables_ok db" and "CountAdmins db s > 1"
  shows "\<exists>v. v \<noteq> u \<and> RoleInSpace db v s = Admin"
proof (rule ccontr)
  assume no: "\<nexists>v. v \<noteq> u \<and> RoleInSpace db v s = Admin"
  let ?A = "filter (\<lambda>m. mb_Space m = s \<and> mb_Role m = Admin) (memberships db)"
  have d: "distinct (map (\<lambda>m. (mb_User m, mb_Space m)) (memberships db))" using assms(1) by (simp add: tables_ok_def)
  have "mb_User m = u" if "m \<in> set ?A" for m using no row_role[OF d, of m] that by auto
  then have "set (map (\<lambda>m. (mb_User m, mb_Space m)) ?A) \<subseteq> {(u, s)}" by auto
  then have "card (set (map (\<lambda>m. (mb_User m, mb_Space m)) ?A)) \<le> card {(u, s)}" by (intro card_mono) auto
  moreover have "distinct (map (\<lambda>m. (mb_User m, mb_Space m)) ?A)" using d by (rule distinct_map_filter)
  then have "card (set (map (\<lambda>m. (mb_User m, mb_Space m)) ?A)) = length ?A" by (simp only: distinct_card length_map)
  ultimately have "length ?A \<le> 1" by simp
  then show False using assms(2) by (simp add: CountAdmins_def)
qed

lemma tables_ok_upsert:
  assumes "tables_ok db" and "UpsertMembership db u s r by = Inr db'"
  shows "tables_ok db' \<and> users db' = users db \<and> spaces db' = spaces db"
proof (cases "\<exists>m\<in>set (memberships db). mb_User m = u \<and> mb_Space m = s")
  case True
  let ?f = "\<lambda>m. if mb_User m = u \<and> mb_Space m = s then m\<lparr>mb_Role := r, mb_GrantedBy := by\<rparr> else m"
  have db': "db' = db\<lparr>memberships := map ?f (memberships db)\<rparr>" and r: "Valid r"
    using assms(2) True by (auto simp: UpsertMembership_def member_constraints_def split: if_splits)
  have m: "memberships db' = map ?f (memberships db)" "users db' = users db" "spaces db' = spaces db"
    by (simp_all add: db')
  have keys: "map (\<lambda>m. (mb_User m, mb_Space m)) (map ?f (memberships db)) = map (\<lambda>m. (mb_User m, mb_Space m)) (memberships db)"
    by auto
  have "\<forall>m\<in>set (map ?f (memberships db)). mb_User m \<in> set (users db) \<and> mb_Space m \<in> set (map sp_ID (spaces db)) \<and> Valid (mb_Role m)"
    using assms(1) r by (auto simp: tables_ok_def)
  then show ?thesis using assms(1) unfolding tables_ok_def m keys by blast
next
  case False
  then show ?thesis using assms
    by (auto simp: UpsertMembership_def member_constraints_def tables_ok_def split: if_splits) blast
qed

lemma tables_ok_delete: "tables_ok db \<Longrightarrow> tables_ok (DeleteMembership db u s)"
  by (auto simp: tables_ok_def DeleteMembership_def intro: distinct_map_filter)

text \<open>The operations, one transaction after another. Answering an invitation is left to itself
  below: here the one who accepts is not an admin of the space.\<close>

inductive space_step :: "auth_db \<Rightarrow> auth_db \<Rightarrow> bool" where
  registered: "Register_user db now u = Inr db' \<Longrightarrow> space_step db db'"
| space_created: "CreateSpace db now i creator = Inr db' \<Longrightarrow> space_step db db'"
| granted: "Service_Grant db now caller s target role = Inr db' \<Longrightarrow> space_step db db'"
| revoked: "Service_Revoke db now caller s target = Inr db' \<Longrightarrow> space_step db db'"
| invited: "Service_Invite db now i caller s target role = Inr db' \<Longrightarrow> space_step db db'"
| declined: "Service_Respond db now caller i False = Inr db' \<Longrightarrow> space_step db db'"
| accepted: "Service_Respond db now caller i True = Inr db' \<Longrightarrow>
    \<forall>v\<in>set (invitations db). inv_ID v = i \<longrightarrow> RoleInSpace db caller (inv_Space v) \<noteq> Admin \<Longrightarrow> space_step db db'"

definition empty_db :: auth_db where
  "empty_db = \<lparr>users = [], spaces = [], memberships = [], invitations = [], outbox = []\<rparr>"

definition admins_ok :: "auth_db \<Rightarrow> bool" where
  "admins_ok db \<longleftrightarrow> tables_ok db \<and> (\<forall>sp\<in>set (spaces db). has_admin db (sp_ID sp))"

lemma WriteRoleEvent_fields [simp]:
  "users (WriteRoleEvent e db) = users db" "spaces (WriteRoleEvent e db) = spaces db"
  "memberships (WriteRoleEvent e db) = memberships db" "invitations (WriteRoleEvent e db) = invitations db"
  "outbox (WriteRoleEvent e db) = outbox db @ [e]"
  by (simp_all add: WriteRoleEvent_def)

lemma RoleInSpace_members: "memberships db' = memberships db \<Longrightarrow> RoleInSpace db' u s = RoleInSpace db u s"
  by (simp add: RoleInSpace_def)

lemma admins_ok_members:
  "memberships db' = memberships db \<Longrightarrow> users db' = users db \<Longrightarrow> spaces db' = spaces db \<Longrightarrow> admins_ok db' \<longleftrightarrow> admins_ok db"
  by (simp add: admins_ok_def tables_ok_def has_admin_def RoleInSpace_def)

lemma admins_ok_upsert:
  assumes "admins_ok db" and "UpsertMembership db u s r by = Inr db'"
    and "r = Admin \<or> (\<exists>v. v \<noteq> u \<and> RoleInSpace db v s = Admin) \<or> RoleInSpace db u s \<noteq> Admin"
  shows "admins_ok db'"
proof -
  have t: "tables_ok db'" "spaces db' = spaces db"
    using tables_ok_upsert[OF _ assms(2)] assms(1) by (auto simp: admins_ok_def)
  have "has_admin db' q" if "has_admin db q" for q
  proof (cases "q = s")
    case True
    from that obtain v where v: "RoleInSpace db v q = Admin" by (auto simp: has_admin_def)
    have "r = Admin \<or> (\<exists>v. v \<noteq> u \<and> RoleInSpace db v s = Admin)" using assms(3) v True by metis
    then show ?thesis using True role_upsert[OF assms(2)] by (auto simp: has_admin_def)
  next
    case False
    then show ?thesis using that role_upsert[OF assms(2)] by (auto simp: has_admin_def)
  qed
  then show ?thesis using assms(1) t by (auto simp: admins_ok_def)
qed

lemma Authorize_None: "Authorize db caller s Admin = None \<longleftrightarrow> RoleInSpace db caller s = Admin"
  by (auto simp: Authorize_def Let_def AtLeast_def Valid_def rank_def Admin_def Viewer_def Editor_def)

lemma admins_ok_Grant:
  assumes "admins_ok db" and "Grant db caller s target role = Inr db'"
  shows "admins_ok db'"
proof -
  have up: "UpsertMembership db target s role caller = Inr db'"
    and g: "RoleInSpace db target s = Admin \<and> role \<noteq> Admin \<longrightarrow> CountAdmins db s > 1"
    using assms(2) by (auto simp: Grant_def requireAnotherAdmin_def split: if_splits option.splits)
  have "tables_ok db" using assms(1) by (simp add: admins_ok_def)
  then show ?thesis using admins_ok_upsert[OF assms(1) up] g another_admin[of db s target] by blast
qed

lemma admins_ok_Revoke:
  assumes "admins_ok db" and "Revoke db caller s target = Inr db'"
  shows "admins_ok db'"
proof (cases "db' = db")
  case False
  then have db': "db' = DeleteMembership db target s"
    and g: "RoleInSpace db target s = Admin \<longrightarrow> CountAdmins db s > 1"
    using assms(2) by (auto simp: Revoke_def revoke_reads_def requireAnotherAdmin_def Let_def split: if_splits option.splits sum.splits)
  have t: "tables_ok db" using assms(1) by (simp add: admins_ok_def)
  have "has_admin db' q" if "has_admin db q" for q
  proof -
    from that obtain v where v: "RoleInSpace db v q = Admin" by (auto simp: has_admin_def)
    show ?thesis
    proof (cases "v = target \<and> q = s")
      case True
      then obtain w where "w \<noteq> target" "RoleInSpace db w s = Admin"
        using another_admin[OF t, of s target] g v by auto
      then show ?thesis using True by (auto simp: has_admin_def db' role_delete)
    next
      case False
      then have "RoleInSpace db' v q = Admin" using v by (auto simp: db' role_delete)
      then show ?thesis by (auto simp: has_admin_def)
    qed
  qed
  then show ?thesis using assms(1) tables_ok_delete[OF t]
    by (auto simp: admins_ok_def db' DeleteMembership_def)
qed (use assms in simp)

lemma admins_ok_CreateSpace:
  assumes "admins_ok db" and "CreateSpace db now i creator = Inr db'"
  shows "admins_ok db'"
proof -
  let ?db = "db\<lparr>spaces := spaces db @ [\<lparr>sp_ID = i, sp_IsDefault = False, sp_CreatedBy = creator\<rparr>]\<rparr>"
  obtain d where d: "UpsertMembership ?db creator i Admin creator = Inr d" "i \<notin> set (map sp_ID (spaces db))"
    "db' = WriteRoleEvent (RoleGranted creator i Admin now) d"
    using assms(2) by (auto simp: CreateSpace_def split: if_splits sum.splits)
  have "tables_ok ?db" using assms(1) d(2) by (auto simp: admins_ok_def tables_ok_def)
  then have t: "tables_ok d" "spaces d = spaces ?db" using tables_ok_upsert[OF _ d(1)] by blast+
  have role: "RoleInSpace d v q = (if v = creator \<and> q = i then Admin else RoleInSpace db v q)" for v q
    using role_upsert[OF d(1)] by (simp add: RoleInSpace_def)
  have "has_admin d q" if "has_admin db q \<or> q = i" for q
    using that role by (auto simp: has_admin_def)
  then have "admins_ok d" using assms(1) t by (auto simp: admins_ok_def)
  then show ?thesis using admins_ok_members[of db' d] d(3) by simp
qed

lemma not_user_no_role: "tables_ok db \<Longrightarrow> u \<notin> set (users db) \<Longrightarrow> RoleInSpace db u s = []"
  using role_row[of db u s] by (auto simp: tables_ok_def)

lemma admins_ok_Register:
  assumes "admins_ok db" and "Register_user db now u = Inr db'"
  shows "admins_ok db'"
proof -
  let ?d = "db\<lparr>users := users db @ [u]\<rparr>"
  have u: "u \<notin> set (users db)" and run: "joinDefaultSpace ?d now u = Inr db'"
    using assms(2) by (auto simp: Register_user_def split: if_splits)
  have t: "tables_ok ?d" using assms(1) by (auto simp: admins_ok_def tables_ok_def)
  have none: "RoleInSpace ?d u s = []" for s
    using not_user_no_role[of db u s] assms(1) u by (simp add: admins_ok_def RoleInSpace_def)
  show ?thesis
  proof (cases "find sp_IsDefault (spaces db)")
    case (Some sp)
    then obtain d r where d: "UpsertMembership ?d u (sp_ID sp) r (sp_CreatedBy sp) = Inr d"
      "memberships db' = memberships d" "users db' = users d" "spaces db' = spaces d"
      using run by (auto simp: joinDefaultSpace_def Let_def split: sum.splits)
    have "admins_ok ?d" using assms(1) t by (auto simp: admins_ok_def has_admin_def RoleInSpace_def)
    then have "admins_ok d" using admins_ok_upsert[OF _ d(1)] none by simp
    then show ?thesis using admins_ok_members[OF d(2-4)] by simp
  next
    case None
    let ?e = "?d\<lparr>spaces := spaces db @ [DefaultSpaceRow u]\<rparr>"
    obtain d where d: "UpsertMembership ?e u (sp_ID (DefaultSpaceRow u)) Admin u = Inr d"
      "sp_ID (DefaultSpaceRow u) \<notin> set (map sp_ID (spaces db))"
      "memberships db' = memberships d" "users db' = users d" "spaces db' = spaces d"
      using run None by (auto simp: joinDefaultSpace_def Let_def DefaultSpaceRow_def split: sum.splits if_splits)
    have "tables_ok ?e" using t d(2) by (auto simp: tables_ok_def)
    then have td: "tables_ok d" "spaces d = spaces ?e" using tables_ok_upsert[OF _ d(1)] by blast+
    have role: "RoleInSpace d v q = (if v = u \<and> q = sp_ID (DefaultSpaceRow u) then Admin else RoleInSpace db v q)" for v q
      using role_upsert[OF d(1)] by (simp add: RoleInSpace_def)
    have "has_admin d q" if "has_admin db q \<or> q = sp_ID (DefaultSpaceRow u)" for q
      using that role none by (fastforce simp: has_admin_def)
    then have "admins_ok d" using assms(1) td by (auto simp: admins_ok_def)
    then show ?thesis using admins_ok_members[OF d(3-5)] by simp
  qed
qed

lemma Answer_fields:
  assumes "Answer db now i u accept = Some (v, db')"
  shows "memberships db' = memberships db \<and> users db' = users db \<and> spaces db' = spaces db \<and> outbox db' = outbox db \<and>
    inv_User v = u \<and> (\<exists>w\<in>set (invitations db). inv_ID w = i \<and> inv_User w = u \<and> inv_RespondedAt w = None \<and>
      inv_Space w = inv_Space v \<and> inv_Role w = inv_Role v \<and> inv_InvitedBy w = inv_InvitedBy v)"
  using assms by (auto simp: Answer_def Let_def find_Some_iff split: option.splits)

lemma space_step_admins:
  assumes "space_step db db'" and "admins_ok db"
  shows "admins_ok db'"
  using assms(1)
proof cases
  case (granted now caller s target role)
  then obtain d where "Grant db caller s target role = Inr d" "memberships db' = memberships d"
    "users db' = users d" "spaces db' = spaces d" by (auto simp: Service_Grant_def split: sum.splits)
  then show ?thesis using admins_ok_Grant[OF assms(2)] admins_ok_members[of db' d] by blast
next
  case (revoked now caller s target)
  then obtain d where "Revoke db caller s target = Inr d" "memberships db' = memberships d"
    "users db' = users d" "spaces db' = spaces d" by (auto simp: Service_Revoke_def split: sum.splits)
  then show ?thesis using admins_ok_Revoke[OF assms(2)] admins_ok_members[of db' d] by blast
next
  case (invited now i caller s target role)
  then have "memberships db' = memberships db" "users db' = users db" "spaces db' = spaces db"
    by (auto simp: Service_Invite_def Invite_def CreateInvitation_def Let_def split: sum.splits if_splits option.splits)
  then show ?thesis using admins_ok_members assms(2) by blast
next
  case (declined now caller i)
  then obtain v d where "Answer db now i caller False = Some (v, d)" "db' = d"
    by (auto simp: Service_Respond_def Respond_def split: option.splits)
  then show ?thesis using Answer_fields[of db now i caller False v d] admins_ok_members[of d db] assms(2) by simp
next
  case (accepted now caller i)
  then obtain v d e where a: "Answer db now i caller True = Some (v, d)"
    "UpsertMembership d (inv_User v) (inv_Space v) (inv_Role v) (inv_InvitedBy v) = Inr e"
    "memberships db' = memberships e" "users db' = users e" "spaces db' = spaces e"
    by (auto simp: Service_Respond_def Respond_def split: option.splits sum.splits)
  note f = Answer_fields[OF a(1)]
  have "admins_ok d" using f admins_ok_members[of d db] assms(2) by simp
  moreover have "RoleInSpace d (inv_User v) (inv_Space v) \<noteq> Admin"
    using f accepted(2) RoleInSpace_members[of d db] by auto
  ultimately have "admins_ok e" using admins_ok_upsert[OF _ a(2)] by blast
  then show ?thesis using admins_ok_members[OF a(3-5)] by simp
qed (use assms(2) admins_ok_Register admins_ok_CreateSpace in blast)+

lemma reachable_admins: "space_step\<^sup>*\<^sup>* empty_db db \<Longrightarrow> admins_ok db"
  by (induction rule: rtranclp_induct)
    (simp_all add: space_step_admins, simp add: empty_db_def admins_ok_def tables_ok_def)

text \<open>C15: registering, creating spaces, granting, revoking, inviting and answering, one transaction
  after another, every space keeps at least one admin, as long as no admin of a space accepts an
  invitation to it. Overlapping revokes are another exception.\<close>

theorem space_keeps_admin:
  assumes "space_step\<^sup>*\<^sup>* empty_db db" and "sp \<in> set (spaces db)"
  shows "\<exists>u. RoleInSpace db u (sp_ID sp) = Admin"
  using reachable_admins[OF assms(1)] assms(2) by (auto simp: admins_ok_def has_admin_def)

lemma admins_counted:
  assumes "tables_ok db" and "finite U" and "\<forall>u\<in>U. RoleInSpace db u s = Admin"
  shows "card U \<le> CountAdmins db s"
proof -
  let ?A = "filter (\<lambda>m. mb_Space m = s \<and> mb_Role m = Admin) (memberships db)"
  have "U \<subseteq> mb_User ` set ?A"
  proof
    fix u assume "u \<in> U"
    then have "RoleInSpace db u s = Admin" using assms(3) by blast
    then show "u \<in> mb_User ` set ?A" using role_row[of db u s] by auto
  qed
  then have "card U \<le> card (mb_User ` set ?A)" by (intro card_mono) auto
  also have "\<dots> \<le> card (set ?A)" by (rule card_image_le) simp
  also have "\<dots> \<le> length ?A" by (rule card_length)
  finally show ?thesis by (simp add: CountAdmins_def)
qed

text \<open>Accepting an invitation skips the last-admin rule. When the only admin of a space accepts
  an invitation to it that was sent before they became admin and offers a lower role, the space has
  no admin left.\<close>

theorem accepting_loses_last_admin:
  assumes "space_step\<^sup>*\<^sup>* empty_db db" and "RoleInSpace db u s = Admin" and "CountAdmins db s = 1"
    and "find (\<lambda>v. inv_ID v = i \<and> inv_User v = u \<and> inv_RespondedAt v = None) (invitations db) = Some v"
    and "inv_Space v = s" and "inv_Role v \<noteq> Admin"
    and "Service_Respond db now u i True = Inr db'"
  shows "\<forall>w. RoleInSpace db' w s \<noteq> Admin"
proof -
  have t: "tables_ok db" using reachable_admins[OF assms(1)] by (simp add: admins_ok_def)
  obtain v' d e where a: "Answer db now i u True = Some (v', d)"
    "UpsertMembership d (inv_User v') (inv_Space v') (inv_Role v') (inv_InvitedBy v') = Inr e"
    "memberships db' = memberships e"
    using assms(7) by (auto simp: Service_Respond_def Respond_def split: option.splits sum.splits)
  have v': "inv_User v' = u" "inv_Space v' = s" "inv_Role v' = inv_Role v"
    using a(1) assms(4,5) find_hit[OF assms(4)] by (auto simp: Answer_def Let_def)
  have m: "memberships d = memberships db" using Answer_fields[OF a(1)] by blast
  have "RoleInSpace db w s \<noteq> Admin" if "w \<noteq> u" for w
    using admins_counted[OF t, of "{u, w}" s] assms(2,3) that by auto
  then show ?thesis
    using role_upsert[OF a(2)] v' assms(6) RoleInSpace_members[OF a(3)] RoleInSpace_members[OF m] by auto
qed

text \<open>The last-admin check does not survive overlap: when the two admins of a space revoke each
  other in transactions that both read before either writes, both checks pass and nobody is left.\<close>

theorem overlapping_revokes_lose_admins:
  assumes "tables_ok db" and "a \<noteq> b" and "CountAdmins db s = 2"
    and "revoke_reads db a s b = Inr True" and "revoke_reads db b s a = Inr True"
  shows "\<forall>w. RoleInSpace (DeleteMembership (DeleteMembership db b s) a s) w s \<noteq> Admin"
proof -
  have ab: "RoleInSpace db a s = Admin" "RoleInSpace db b s = Admin"
    using assms(4,5) by (auto simp: revoke_reads_def Authorize_None split: option.splits)
  have "RoleInSpace db w s \<noteq> Admin" if "w \<noteq> a" "w \<noteq> b" for w
    using admins_counted[OF assms(1), of "{a, b, w}" s] assms(2,3) ab that by auto
  then show ?thesis by (auto simp: role_delete)
qed

text \<open>Only an admin of a space changes who is in it, and only the row named: a grant or a revoke
  that succeeds was asked by an admin of that space and leaves every other membership as it was.\<close>

theorem changes_by_admins_only:
  assumes "Service_Grant db now caller s target role = Inr db' \<or> Service_Revoke db now caller s target = Inr db'"
  shows "RoleInSpace db caller s = Admin \<and>
    (\<forall>u q. (u, q) \<noteq> (target, s) \<longrightarrow> RoleInSpace db' u q = RoleInSpace db u q)"
  using assms
proof
  assume "Service_Grant db now caller s target role = Inr db'"
  then obtain d where d: "Grant db caller s target role = Inr d" "memberships db' = memberships d"
    by (auto simp: Service_Grant_def split: sum.splits)
  then have "UpsertMembership db target s role caller = Inr d" "Authorize db caller s Admin = None"
    by (auto simp: Grant_def split: if_splits option.splits)
  then show ?thesis using role_upsert RoleInSpace_members[OF d(2)] by (auto simp: Authorize_None)
next
  assume "Service_Revoke db now caller s target = Inr db'"
  then obtain del where d: "revoke_reads db caller s target = Inr del"
    "memberships db' = memberships (if del then DeleteMembership db target s else db)"
    by (auto simp: Service_Revoke_def Revoke_def split: sum.splits)
  then have "Authorize db caller s Admin = None" by (auto simp: revoke_reads_def split: option.splits)
  then show ?thesis using RoleInSpace_members[OF d(2)] role_delete by (auto simp: Authorize_None)
qed

subsection \<open>A run\<close>

fun run_all :: "(auth_db \<Rightarrow> space_error + auth_db) list \<Rightarrow> auth_db \<Rightarrow> space_error + auth_db" where
  "run_all [] db = Inr db"
| "run_all (f # fs) db = (case f db of Inl e \<Rightarrow> Inl e | Inr db' \<Rightarrow> run_all fs db')"

lemma run_all_steps:
  "run_all fs db = Inr db' \<Longrightarrow> (\<forall>f\<in>set fs. \<forall>d d'. f d = Inr d' \<longrightarrow> space_step d d') \<Longrightarrow> space_step\<^sup>*\<^sup>* db db'"
proof (induction fs arbitrary: db)
  case (Cons f fs)
  then obtain d where d: "f db = Inr d" "run_all fs d = Inr db'" by (auto split: sum.splits)
  then have "space_step db d" "space_step\<^sup>*\<^sup>* d db'" using Cons by auto
  then show ?case by (rule converse_rtranclp_into_rtranclp)
qed simp

text \<open>User 1 makes the space, invites user 2 as viewer, makes user 2 admin instead, and is then
  removed by user 2, whose invitation is still open.\<close>

definition two_admins_run :: "(auth_db \<Rightarrow> space_error + auth_db) list" where
  "two_admins_run = [\<lambda>d. Register_user d 1 1, \<lambda>d. Register_user d 2 2, \<lambda>d. CreateSpace d 3 5 1,
     \<lambda>d. Service_Invite d 4 10 1 5 2 Viewer, \<lambda>d. Service_Grant d 5 1 5 2 Admin]"

definition sole_admin_run :: "(auth_db \<Rightarrow> space_error + auth_db) list" where
  "sole_admin_run = two_admins_run @ [\<lambda>d. Service_Revoke d 6 2 5 1]"

lemma run_is_steps: "\<forall>f\<in>set sole_admin_run. \<forall>d d'. f d = Inr d' \<longrightarrow> space_step d d'"
  by (auto simp: sole_admin_run_def two_admins_run_def
      intro: space_step.registered space_step.space_created space_step.granted space_step.revoked space_step.invited)

definition db_of :: "space_error + auth_db \<Rightarrow> auth_db" where
  "db_of x = (case x of Inr d \<Rightarrow> d | Inl _ \<Rightarrow> empty_db)"

definition two_admins :: auth_db where
  "two_admins = db_of (run_all two_admins_run empty_db)"

definition sole_admin :: auth_db where
  "sole_admin = db_of (run_all sole_admin_run empty_db)"

lemma reached: "space_step\<^sup>*\<^sup>* empty_db sole_admin" "space_step\<^sup>*\<^sup>* empty_db two_admins"
proof -
  have ok: "case run_all sole_admin_run empty_db of Inl _ \<Rightarrow> False | Inr _ \<Rightarrow> True"
    "case run_all two_admins_run empty_db of Inl _ \<Rightarrow> False | Inr _ \<Rightarrow> True" by code_simp+
  then have "run_all sole_admin_run empty_db = Inr sole_admin" "run_all two_admins_run empty_db = Inr two_admins"
    by (auto simp: sole_admin_def two_admins_def db_of_def split: sum.splits)
  moreover have "set two_admins_run \<subseteq> set sole_admin_run" by (auto simp: sole_admin_run_def)
  ultimately show "space_step\<^sup>*\<^sup>* empty_db sole_admin" "space_step\<^sup>*\<^sup>* empty_db two_admins"
    using run_all_steps run_is_steps by blast+
qed

theorem space_keeps_admin_witness: "\<exists>u. RoleInSpace sole_admin u 5 = Admin"
proof -
  have "map sp_ID (spaces sole_admin) = [0x0000000000007000800000000000d0c5, 5]" by code_simp
  then have "5 \<in> set (map sp_ID (spaces sole_admin))" by simp
  then obtain sp where "sp \<in> set (spaces sole_admin)" "sp_ID sp = 5" unfolding set_map by (metis imageE)
  then show ?thesis using space_keeps_admin[OF reached(1), of sp] by metis
qed

theorem accepting_loses_last_admin_witness:
  "\<exists>db'. Service_Respond sole_admin 7 2 10 True = Inr db' \<and> (\<forall>w. RoleInSpace db' w 5 \<noteq> Admin)"
proof -
  have r: "RoleInSpace sole_admin 2 5 = Admin" "CountAdmins sole_admin 5 = 1" by code_simp+
  have i: "case find (\<lambda>v. inv_ID v = 10 \<and> inv_User v = 2 \<and> inv_RespondedAt v = None) (invitations sole_admin) of
      None \<Rightarrow> False | Some v \<Rightarrow> inv_Space v = 5 \<and> inv_Role v \<noteq> Admin" by code_simp
  then obtain v where v: "find (\<lambda>v. inv_ID v = 10 \<and> inv_User v = 2 \<and> inv_RespondedAt v = None) (invitations sole_admin) = Some v"
    "inv_Space v = 5" "inv_Role v \<noteq> Admin" by (auto split: option.splits)
  have "case Service_Respond sole_admin 7 2 10 True of Inl _ \<Rightarrow> False | Inr _ \<Rightarrow> True" by code_simp
  then obtain db' where db': "Service_Respond sole_admin 7 2 10 True = Inr db'" by (auto split: sum.splits)
  from accepting_loses_last_admin[OF reached(1) r v db'] db' show ?thesis by blast
qed

theorem overlapping_revokes_lose_admins_witness:
  "\<forall>w. RoleInSpace (DeleteMembership (DeleteMembership two_admins 2 5) 1 5) w 5 \<noteq> Admin"
proof (rule overlapping_revokes_lose_admins)
  show "tables_ok two_admins" using reachable_admins[OF reached(2)] by (simp add: admins_ok_def)
  show "CountAdmins two_admins 5 = 2" "revoke_reads two_admins 1 5 2 = Inr True" "revoke_reads two_admins 2 5 1 = Inr True"
    by code_simp+
qed simp

theorem changes_by_admins_only_witness:
  "\<exists>db'. Service_Revoke two_admins 6 2 5 1 = Inr db' \<and> RoleInSpace two_admins 2 5 = Admin"
proof -
  have "case Service_Revoke two_admins 6 2 5 1 of Inl _ \<Rightarrow> False | Inr _ \<Rightarrow> True" by code_simp
  then obtain db' where db': "Service_Revoke two_admins 6 2 5 1 = Inr db'" by (auto split: sum.splits)
  then show ?thesis using changes_by_admins_only[OF disjI2[OF db']] by blast
qed

end
