(* ===== verification/SpaceProj.thy ===== *)
theory SpaceProj
  imports Spaces
begin

text \<open>
  docs.space_members, document-service's projection of the memberships of auth-service:
  internal/spaceproj and the queries of internal/spacerepo. It applies the events the operations of
  Spaces write, and is replaced as a whole by a reconcile.
\<close>

subsection \<open>The code\<close>

record SpaceMember =
  sm_User :: uuid
  sm_Space :: uuid
  sm_Role :: string
  sm_GrantedAt :: nat

type_synonym member_table = "SpaceMember list"

definition sm_key :: "uuid \<Rightarrow> uuid \<Rightarrow> SpaceMember \<Rightarrow> bool" where
  "sm_key u s m \<longleftrightarrow> sm_User m = u \<and> sm_Space m = s"

definition UpsertSpaceMember :: "member_table \<Rightarrow> uuid \<Rightarrow> uuid \<Rightarrow> string \<Rightarrow> nat \<Rightarrow> member_table" where
  "UpsertSpaceMember t u s role at =
     (if \<exists>m\<in>set t. sm_key u s m
      then map (\<lambda>m. if sm_key u s m \<and> sm_GrantedAt m < at then m\<lparr>sm_Role := role, sm_GrantedAt := at\<rparr> else m) t
      else t @ [\<lparr>sm_User = u, sm_Space = s, sm_Role = role, sm_GrantedAt = at\<rparr>])"

definition DeleteSpaceMemberIfOlder :: "member_table \<Rightarrow> uuid \<Rightarrow> uuid \<Rightarrow> nat \<Rightarrow> member_table" where
  "DeleteSpaceMemberIfOlder t u s at = filter (\<lambda>m. \<not> (sm_key u s m \<and> sm_GrantedAt m < at)) t"

definition SpacesFor :: "member_table \<Rightarrow> uuid \<Rightarrow> uuid list" where
  "SpacesFor t u = map sm_Space (filter (\<lambda>m. sm_User m = u) t)"

text \<open>"" for nobody.\<close>

definition RoleFor :: "member_table \<Rightarrow> uuid \<Rightarrow> uuid \<Rightarrow> string" where
  "RoleFor t u s = (case find (sm_key u s) t of None \<Rightarrow> [] | Some m \<Rightarrow> sm_Role m)"

text \<open>The handlers of the two subjects; nothing here is subscribed to auth.member_invited.\<close>

definition apply_event :: "RoleEvent \<Rightarrow> member_table \<Rightarrow> member_table" where
  "apply_event e t =
     (case e of
        RoleGranted u s role at \<Rightarrow> UpsertSpaceMember t u s role at
      | RoleRevoked u s at \<Rightarrow> DeleteSpaceMemberIfOlder t u s at
      | MemberInvited _ _ _ _ _ _ \<Rightarrow> t)"

text \<open>\<open>None\<close> for an empty source, which is refused.\<close>

definition Reconcile :: "SpaceMember list \<Rightarrow> member_table option" where
  "Reconcile rows =
     (if rows = [] then None
      else Some (fold (\<lambda>m t. UpsertSpaceMember t (sm_User m) (sm_Space m) (sm_Role m) (sm_GrantedAt m)) rows []))"

subsection \<open>Events in order\<close>

lemma find_update_cond:
  "(\<And>m. k m \<Longrightarrow> k (f m)) \<Longrightarrow>
    find k (map (\<lambda>m. if k m \<and> c m then f m else m) xs) = map_option (\<lambda>m. if c m then f m else m) (find k xs)"
  by (induction xs) auto

lemma find_update_cond_other:
  "(\<And>m. k m \<Longrightarrow> \<not> l m \<and> \<not> l (f m)) \<Longrightarrow> find l (map (\<lambda>m. if k m \<and> c m then f m else m) xs) = find l xs"
  by (induction xs) auto

lemma find_filter_cond_other: "(\<And>m. k m \<Longrightarrow> \<not> l m) \<Longrightarrow> find l (filter (\<lambda>m. \<not> (k m \<and> c m)) xs) = find l xs"
  by (induction xs) auto

lemma sm_key_other: "\<not> (v = u \<and> q = s) \<Longrightarrow> sm_key u s m \<Longrightarrow> \<not> sm_key v q m"
  by (auto simp: sm_key_def)

definition older :: "member_table \<Rightarrow> nat \<Rightarrow> bool" where
  "older t at \<longleftrightarrow> (\<forall>m\<in>set t. sm_GrantedAt m < at)"

lemma RoleFor_upsert:
  assumes "older t at"
  shows "RoleFor (UpsertSpaceMember t u s role at) v q = (if v = u \<and> q = s then role else RoleFor t v q)"
proof -
  let ?f = "\<lambda>m. m\<lparr>sm_Role := role, sm_GrantedAt := at\<rparr>" and ?c = "\<lambda>m. sm_GrantedAt m < at"
  have keep: "sm_key v q (?f m) \<longleftrightarrow> sm_key v q m" for v q m by (simp add: sm_key_def)
  show ?thesis
  proof (cases "\<exists>m\<in>set t. sm_key u s m")
    case True
    then obtain m where m: "find (sm_key u s) t = Some m" by (cases "find (sm_key u s) t") (auto simp: find_none)
    then have "?c m" using assms find_hit[OF m] by (simp add: older_def)
    have up: "UpsertSpaceMember t u s role at = map (\<lambda>m. if sm_key u s m \<and> ?c m then ?f m else m) t"
      using True by (simp add: UpsertSpaceMember_def)
    show ?thesis
    proof (cases "v = u \<and> q = s")
      case True
      then show ?thesis using m \<open>?c m\<close> find_update_cond[of "sm_key u s" ?f ?c t] keep
        by (simp add: RoleFor_def up)
    next
      case False
      then have "find (sm_key v q) (map (\<lambda>m. if sm_key u s m \<and> ?c m then ?f m else m) t) = find (sm_key v q) t"
        by (intro find_update_cond_other) (simp add: keep sm_key_other)
      then show ?thesis using False by (auto simp: RoleFor_def up)
    qed
  next
    case no: False
    then have up: "UpsertSpaceMember t u s role at = t @ [\<lparr>sm_User = u, sm_Space = s, sm_Role = role, sm_GrantedAt = at\<rparr>]"
      by (simp add: UpsertSpaceMember_def)
    have "find (sm_key u s) t = None" using no by (simp add: find_none)
    then show ?thesis by (auto simp: RoleFor_def up find_append sm_key_def split: option.splits)
  qed
qed

lemma RoleFor_delete:
  assumes "older t at"
  shows "RoleFor (DeleteSpaceMemberIfOlder t u s at) v q = (if v = u \<and> q = s then [] else RoleFor t v q)"
proof (cases "v = u \<and> q = s")
  case True
  have "DeleteSpaceMemberIfOlder t u s at = filter (\<lambda>m. \<not> sm_key u s m) t"
    using assms by (auto simp: DeleteSpaceMemberIfOlder_def older_def intro!: filter_cong)
  then show ?thesis using True by (simp only: RoleFor_def find_filter_same) simp
next
  case False
  then have "find (sm_key v q) (filter (\<lambda>m. \<not> (sm_key u s m \<and> sm_GrantedAt m < at)) t) = find (sm_key v q) t"
    by (intro find_filter_cond_other) (rule sm_key_other)
  then show ?thesis using False by (auto simp: RoleFor_def DeleteSpaceMemberIfOlder_def)
qed

lemma older_apply: "older t at \<Longrightarrow> ev_at e = at \<Longrightarrow> at < later \<Longrightarrow> older (apply_event e t) later"
  by (cases e) (auto simp: apply_event_def UpsertSpaceMember_def DeleteSpaceMemberIfOlder_def older_def
      split: if_splits intro: less_trans)

text \<open>The membership an event announces.\<close>

fun announced :: "RoleEvent \<Rightarrow> (uuid \<Rightarrow> uuid \<Rightarrow> string) \<Rightarrow> uuid \<Rightarrow> uuid \<Rightarrow> string" where
  "announced (RoleGranted u s role at) roles v q = (if v = u \<and> q = s then role else roles v q)"
| "announced (RoleRevoked u s at) roles v q = (if v = u \<and> q = s then [] else roles v q)"
| "announced (MemberInvited i u s role by at) roles v q = roles v q"

lemma RoleFor_apply: "older t (ev_at e) \<Longrightarrow> RoleFor (apply_event e t) = announced e (RoleFor t)"
  by (cases e) (auto simp: fun_eq_iff apply_event_def RoleFor_upsert RoleFor_delete)

lemma RoleFor_events:
  "sorted_wrt (<) (map ev_at es) \<Longrightarrow> (\<forall>e\<in>set es. older t (ev_at e)) \<Longrightarrow>
    RoleFor (fold apply_event es t) = fold announced es (RoleFor t)"
proof (induction es arbitrary: t)
  case (Cons e es)
  have "\<forall>x\<in>set es. older (apply_event e t) (ev_at x)"
    using Cons.prems by (auto intro: older_apply[of t "ev_at e"])
  then show ?case using Cons by (simp add: RoleFor_apply)
qed simp

subsection \<open>The projection follows the memberships\<close>

lemma Register_upsert:
  assumes "Register_user db now u = Inr db'"
  obtains d e q r y where "memberships d = memberships db" and "outbox d = outbox db"
    and "UpsertMembership d u q r y = Inr e" and "db' = WriteRoleEvent (RoleGranted u q r now) e"
proof -
  let ?d = "db\<lparr>users := users db @ [u]\<rparr>"
  have run: "joinDefaultSpace ?d now u = Inr db'" using assms by (simp add: Register_user_def split: if_splits)
  show ?thesis
  proof (cases "find sp_IsDefault (spaces db)")
    case (Some sp)
    then obtain e q r y where "UpsertMembership ?d u q r y = Inr e" "db' = WriteRoleEvent (RoleGranted u q r now) e"
      using run by (auto simp: joinDefaultSpace_def Let_def split: sum.splits)
    then show ?thesis by (intro that[of ?d]) simp_all
  next
    case None
    let ?n = "?d\<lparr>spaces := spaces db @ [DefaultSpaceRow u]\<rparr>"
    obtain e q r y where "UpsertMembership ?n u q r y = Inr e" "db' = WriteRoleEvent (RoleGranted u q r now) e"
      using run None by (auto simp: joinDefaultSpace_def Let_def split: sum.splits if_splits)
    then show ?thesis by (intro that[of ?n]) simp_all
  qed
qed

lemma upsert_outbox: "UpsertMembership d u q r y = Inr e \<Longrightarrow> outbox e = outbox d"
  by (simp add: UpsertMembership_def split: if_splits) (auto split: if_splits)

lemma same_members:
  assumes "memberships db' = memberships db" and "outbox db' = outbox db"
  shows "\<exists>es. outbox db' = outbox db @ es \<and> RoleInSpace db' = fold announced es (RoleInSpace db)"
  using assms by (intro exI[of _ "[]"]) (simp add: fun_eq_iff RoleInSpace_def)

lemma upsert_announces:
  assumes "UpsertMembership d u q r y = Inr e" and "memberships d = memberships db" and "outbox d = outbox db"
    and "memberships db' = memberships e" and "outbox db' = outbox e @ [RoleGranted u q r now]"
  shows "\<exists>es. outbox db' = outbox db @ es \<and> RoleInSpace db' = fold announced es (RoleInSpace db)"
proof -
  have "RoleInSpace db' = announced (RoleGranted u q r now) (RoleInSpace db)"
    using role_upsert[OF assms(1)] RoleInSpace_members[OF assms(2)] RoleInSpace_members[OF assms(4)]
    by (simp add: fun_eq_iff)
  then show ?thesis using assms(3,5) upsert_outbox[OF assms(1)]
    by (intro exI[of _ "[RoleGranted u q r now]"]) simp
qed

lemma space_step_events:
  assumes "space_step db db'" and "tables_ok db"
  shows "\<exists>es. outbox db' = outbox db @ es \<and> RoleInSpace db' = fold announced es (RoleInSpace db)"
  using assms(1)
proof cases
  case (registered now u)
  from Register_upsert[OF this] obtain d e x r y where r: "memberships d = memberships db" "outbox d = outbox db"
    "UpsertMembership d u x r y = Inr e" "db' = WriteRoleEvent (RoleGranted u x r now) e" .
  then show ?thesis using upsert_announces[OF r(3,1,2)] by simp
next
  case (space_created now i creator)
  let ?d = "db\<lparr>spaces := spaces db @ [\<lparr>sp_ID = i, sp_IsDefault = False, sp_CreatedBy = creator\<rparr>]\<rparr>"
  from space_created obtain e where "UpsertMembership ?d creator i Admin creator = Inr e"
    "db' = WriteRoleEvent (RoleGranted creator i Admin now) e"
    by (auto simp: CreateSpace_def split: if_splits sum.splits)
  then show ?thesis using upsert_announces[of ?d creator i Admin creator e db db' now] by simp
next
  case (granted now caller s target role)
  then obtain e where "UpsertMembership db target s role caller = Inr e"
    "db' = WriteRoleEvent (RoleGranted target s role now) e"
    by (auto simp: Service_Grant_def Grant_def split: if_splits option.splits sum.splits)
  then show ?thesis using upsert_announces[of db target s role caller e db db' now] by simp
next
  case (revoked now caller s target)
  then obtain del where d: "revoke_reads db caller s target = Inr del"
    "memberships db' = memberships (if del then DeleteMembership db target s else db)"
    "outbox db' = outbox db @ [RoleRevoked target s now]"
    by (auto simp: Service_Revoke_def Revoke_def DeleteMembership_def split: sum.splits if_splits)
  have none: "RoleInSpace db target s = []" if "\<not> del"
  proof (rule ccontr)
    assume "RoleInSpace db target s \<noteq> []"
    then have "Valid (RoleInSpace db target s)" using role_row[of db target s] assms(2) by (auto simp: tables_ok_def)
    then show False using d(1) that by (auto simp: revoke_reads_def Let_def split: option.splits if_splits)
  qed
  have "RoleInSpace db' v q = announced (RoleRevoked target s now) (RoleInSpace db) v q" for v q
    using none RoleInSpace_members[OF d(2)] by (cases del) (auto simp: role_delete)
  then show ?thesis using d(3) by (intro exI[of _ "[RoleRevoked target s now]"]) (simp add: fun_eq_iff)
next
  case (invited now i caller s target role)
  then obtain v d where d: "Invite db i caller s target role = Inr (v, d)"
    "db' = WriteRoleEvent (MemberInvited (inv_ID v) (inv_User v) (inv_Space v) (inv_Role v) (inv_InvitedBy v) now) d"
    by (auto simp: Service_Invite_def split: sum.splits)
  let ?e = "MemberInvited (inv_ID v) (inv_User v) (inv_Space v) (inv_Role v) (inv_InvitedBy v) now"
  have same: "memberships d = memberships db" "outbox d = outbox db"
    using d(1) by (auto simp: Invite_def CreateInvitation_def Let_def split: sum.splits if_splits option.splits)
  then have "RoleInSpace db' = announced ?e (RoleInSpace db)" by (simp add: d(2) fun_eq_iff RoleInSpace_def)
  then show ?thesis using same by (intro exI[of _ "[?e]"]) (simp add: d(2))
next
  case (declined now caller i)
  then obtain v d where "Answer db now i caller False = Some (v, d)" "db' = d"
    by (auto simp: Service_Respond_def Respond_def split: option.splits)
  then have "memberships db' = memberships db" "outbox db' = outbox db"
    using Answer_fields[of db now i caller False v d] by simp_all
  then show ?thesis by (rule same_members)
next
  case (accepted now caller i)
  then obtain v d e where a: "Answer db now i caller True = Some (v, d)"
    "UpsertMembership d (inv_User v) (inv_Space v) (inv_Role v) (inv_InvitedBy v) = Inr e"
    "memberships db' = memberships e"
    "outbox db' = outbox e @ [RoleGranted (inv_User v) (inv_Space v) (inv_Role v) now]"
    by (auto simp: Service_Respond_def Respond_def split: option.splits sum.splits)
  have "outbox d = outbox db" "memberships d = memberships db" using Answer_fields[OF a(1)] by auto
  then show ?thesis using upsert_announces[OF a(2) _ _ a(3,4)] by simp
qed

lemma outbox_announces:
  "space_step\<^sup>*\<^sup>* empty_db db \<Longrightarrow> RoleInSpace db = fold announced (outbox db) (\<lambda>_ _. [])"
proof (induction rule: rtranclp_induct)
  case base
  then show ?case by (simp add: empty_db_def RoleInSpace_def fun_eq_iff)
next
  case (step d1 d2)
  have "tables_ok d1" using reachable_admins[OF step.hyps(1)] by (simp add: admins_ok_def)
  from space_step_events[OF step.hyps(2) this] show ?case using step.IH by auto
qed

text \<open>C24: when the events of auth-service arrive in the order they were written, with increasing
  times, document-service's projection answers every role question as auth-service's own table
  does.\<close>

theorem projection_follows_memberships:
  assumes "space_step\<^sup>*\<^sup>* empty_db db" and "sorted_wrt (<) (map ev_at (outbox db))"
  shows "RoleFor (fold apply_event (outbox db) []) = RoleInSpace db"
proof -
  have "RoleFor [] = (\<lambda>_ _. [])" by (simp add: RoleFor_def fun_eq_iff)
  then show ?thesis
    using RoleFor_events[OF assms(2), of "[]"] outbox_announces[OF assms(1)] by (simp add: older_def)
qed

theorem projection_follows_memberships_witness:
  "RoleFor (fold apply_event (outbox sole_admin) []) 2 5 = Admin \<and> RoleFor (fold apply_event (outbox sole_admin) []) 1 5 = []"
proof -
  have "sorted_wrt (<) (map ev_at (outbox sole_admin))" "RoleInSpace sole_admin 2 5 = Admin" "RoleInSpace sole_admin 1 5 = []"
    by code_simp+
  then show ?thesis using projection_follows_memberships[OF reached(1)] by simp
qed

text \<open>The projection does not converge when events change places: a grant that arrives after the
  later revoke puts the removed person back, although each event carries its own time.\<close>

theorem late_grant_undoes_revoke:
  assumes "at < later" and "older t at"
  shows "RoleFor (fold apply_event [RoleRevoked u s later, RoleGranted u s role at] t) u s = role \<and>
    RoleFor (fold apply_event [RoleGranted u s role at, RoleRevoked u s later] t) u s = []"
proof
  have "older t later" using assms by (auto simp: older_def intro: less_trans)
  have "older (DeleteSpaceMemberIfOlder t u s later) at"
    using assms(2) by (auto simp: older_def DeleteSpaceMemberIfOlder_def)
  then show "RoleFor (fold apply_event [RoleRevoked u s later, RoleGranted u s role at] t) u s = role"
    by (simp add: apply_event_def RoleFor_upsert)
  have "older (apply_event (RoleGranted u s role at) t) later" using older_apply[OF assms(2)] assms(1) by simp
  then show "RoleFor (fold apply_event [RoleGranted u s role at, RoleRevoked u s later] t) u s = []"
    by (simp add: apply_event_def RoleFor_delete)
qed

theorem late_grant_undoes_revoke_witness:
  "RoleFor (fold apply_event [RoleRevoked 2 5 9, RoleGranted 2 5 Editor 4] []) 2 5 = Editor"
proof -
  have "(4 :: nat) < 9" "older [] 4" by (simp_all add: older_def)
  then show ?thesis using late_grant_undoes_revoke[of 4 9 "[]" 2 5 Editor] by blast
qed

text \<open>A reconcile from a source with one row for each person and space has exactly its rows.\<close>

definition row_key :: "SpaceMember \<Rightarrow> uuid \<times> uuid" where
  "row_key m = (sm_User m, sm_Space m)"

lemma upserts_append:
  "distinct (map row_key (t @ ms)) \<Longrightarrow>
    fold (\<lambda>m t. UpsertSpaceMember t (sm_User m) (sm_Space m) (sm_Role m) (sm_GrantedAt m)) ms t = t @ ms"
proof (induction ms arbitrary: t)
  case (Cons m ms)
  then have "row_key m \<notin> row_key ` set t" by simp
  then have "\<forall>x\<in>set t. row_key x \<noteq> row_key m" by (auto simp: image_iff)
  then have "\<not> (\<exists>x\<in>set t. sm_key (sm_User m) (sm_Space m) x)" unfolding sm_key_def row_key_def by blast
  then have "UpsertSpaceMember t (sm_User m) (sm_Space m) (sm_Role m) (sm_GrantedAt m) = t @ [m]"
    by (simp add: UpsertSpaceMember_def)
  moreover have "distinct (map row_key ((t @ [m]) @ ms))" using Cons.prems by simp
  note Cons.IH[OF this]
  ultimately show ?case by simp
qed simp

lemma Reconcile_exact: "distinct (map row_key rows) \<Longrightarrow> rows \<noteq> [] \<Longrightarrow> Reconcile rows = Some rows"
  using upserts_append[of "[]" rows] by (simp add: Reconcile_def)

end
