(* ===== verification/PageServer.thy ===== *)
theory PageServer
  imports PageRepoProps SpaceProj Utf8
begin

text \<open>
  The PageService of document-service (internal/pages/api.go): what a request has to pass before the
  repository sees it, and the status every error becomes. A request is the fields the handler reads;
  \<open>parse\<close> is \<open>uuid.Parse\<close>, \<open>ids\<close> the values of the metadata key "actor-id", \<open>mem\<close> the table of
  space members the \<open>SpaceReader\<close> answers from. A handler gives a status or its reply, and the
  handlers that write give the new table too. Topics, tags and counts, which a reply also
  carries, are not part of the model.
\<close>

subsection \<open>Errors and statuses\<close>

datatype server_error = RepoError repo_error | ErrForbidden | ErrMissingActorID | ErrInvalidActorID | ErrInvalidTitle
  | InvalidPageIDError string

datatype status = NotFound | PermissionDenied | FailedPrecondition | Unauthenticated | InvalidArgument | Internal

definition toStatus :: "server_error \<Rightarrow> status" where
  "toStatus err =
     (case err of
        RepoError e \<Rightarrow>
          (case e of
             ErrNotFound \<Rightarrow> NotFound
           | ErrAnchorMismatch \<Rightarrow> FailedPrecondition
           | ErrCycle \<Rightarrow> FailedPrecondition
           | _ \<Rightarrow> Internal)
      | ErrForbidden \<Rightarrow> PermissionDenied
      | ErrMissingActorID \<Rightarrow> Unauthenticated
      | ErrInvalidActorID \<Rightarrow> Unauthenticated
      | ErrInvalidTitle \<Rightarrow> InvalidArgument
      | InvalidPageIDError _ \<Rightarrow> InvalidArgument)"

subsection \<open>Reading a request\<close>

type_synonym uuid_parser = "string \<Rightarrow> uuid option"

text \<open>No metadata at all is the empty list.\<close>

definition actorID :: "uuid_parser \<Rightarrow> string list \<Rightarrow> server_error + uuid" where
  "actorID parse ids =
     (case ids of
        [] \<Rightarrow> Inl ErrMissingActorID
      | v # _ \<Rightarrow>
          if v = [] then Inl ErrMissingActorID
          else (case parse v of None \<Rightarrow> Inl ErrInvalidActorID | Some i \<Rightarrow> Inr i))"

definition maxTitleBytes :: nat where
  "maxTitleBytes = 500"

text \<open>\<open>unicode.IsControl\<close>; \<open>utf8.ValidString\<close> is \<open>valid_utf8\<close>.\<close>

definition IsControl :: "nat \<Rightarrow> bool" where
  "IsControl r \<longleftrightarrow> r < 32 \<or> 127 \<le> r \<and> r < 160"

definition validateTitle :: "string \<Rightarrow> server_error option" where
  "validateTitle title =
     (if title = [] then Some ErrInvalidTitle
      else if length title > maxTitleBytes then Some ErrInvalidTitle
      else if \<not> valid_utf8 title then Some ErrInvalidTitle
      else if list_ex IsControl (runes title) then Some ErrInvalidTitle
      else None)"

definition parsePageID :: "uuid_parser \<Rightarrow> string \<Rightarrow> server_error + uuid" where
  "parsePageID parse s = (case parse s of None \<Rightarrow> Inl (InvalidPageIDError s) | Some i \<Rightarrow> Inr i)"

definition parseOptionalPageID :: "uuid_parser \<Rightarrow> string option \<Rightarrow> server_error + uuid option" where
  "parseOptionalPageID parse s =
     (case s of
        None \<Rightarrow> Inr None
      | Some v \<Rightarrow> (case parsePageID parse v of Inl e \<Rightarrow> Inl e | Inr i \<Rightarrow> Inr (Some i)))"

subsection \<open>Who may read and who may write\<close>

definition visible :: "member_table \<Rightarrow> page_table \<Rightarrow> uuid \<Rightarrow> uuid \<Rightarrow> server_error option" where
  "visible mem t actor i =
     (case GetPage t i of
        None \<Rightarrow> Some (RepoError ErrNotFound)
      | Some page \<Rightarrow>
          if list_ex (\<lambda>sp. sp = SpaceID page) (SpacesFor mem actor) then None else Some (RepoError ErrNotFound))"

definition mayWrite :: "member_table \<Rightarrow> uuid \<Rightarrow> uuid \<Rightarrow> server_error option" where
  "mayWrite mem actor space =
     (let role = RoleFor mem actor space
      in if role = Editor \<or> role = Admin then None
         else if role = [] then Some (RepoError ErrNotFound)
         else Some ErrForbidden)"

text \<open>What RenamePage, DeletePage and ReparentPage ask of the page before they write.\<close>

definition mayChange :: "member_table \<Rightarrow> page_table \<Rightarrow> uuid \<Rightarrow> uuid \<Rightarrow> server_error option" where
  "mayChange mem t actor i =
     (case visible mem t actor i of
        Some e \<Rightarrow> Some e
      | None \<Rightarrow>
          (case GetPage t i of
             None \<Rightarrow> Some (RepoError ErrNotFound)
           | Some page \<Rightarrow> mayWrite mem actor (SpaceID page)))"

subsection \<open>The handlers\<close>

record CreatePageRequest =
  cr_Title :: string
  cr_ParentId :: "string option"
  cr_After :: "string option"
  cr_SpaceId :: "string option"

text \<open>The space a page is to land in: the parent's, or the one named, or the default.\<close>

definition create_target :: "uuid_parser \<Rightarrow> page_table \<Rightarrow> uuid option \<Rightarrow> string option \<Rightarrow> status + uuid" where
  "create_target parse t parentID spaceId =
     (case (case spaceId of
              None \<Rightarrow> Inr DefaultSpaceID
            | Some s \<Rightarrow>
                if s = [] then Inr DefaultSpaceID
                else (case parse s of None \<Rightarrow> Inl InvalidArgument | Some i \<Rightarrow> Inr i)) of
        Inl e \<Rightarrow> Inl e
      | Inr target \<Rightarrow>
          (case parentID of
             None \<Rightarrow> Inr target
           | Some p \<Rightarrow>
               (case GetPage t p of
                  None \<Rightarrow> Inl (toStatus (RepoError ErrNotFound))
                | Some parent \<Rightarrow> Inr (SpaceID parent))))"

text \<open>\<open>i\<close> is the identifier the repository makes.\<close>

definition Server_CreatePage :: "uuid_parser \<Rightarrow> string list \<Rightarrow> member_table \<Rightarrow> page_table \<Rightarrow> nat \<Rightarrow> uuid \<Rightarrow> CreatePageRequest
    \<Rightarrow> status + (Page \<times> page_table)" where
  "Server_CreatePage parse ids mem t now i req =
     (case validateTitle (cr_Title req) of
        Some e \<Rightarrow> Inl (toStatus e)
      | None \<Rightarrow>
     (case actorID parse ids of
        Inl e \<Rightarrow> Inl (toStatus e)
      | Inr createdBy \<Rightarrow>
     (case parseOptionalPageID parse (cr_ParentId req) of
        Inl e \<Rightarrow> Inl (toStatus e)
      | Inr parentID \<Rightarrow>
     (case parseOptionalPageID parse (cr_After req) of
        Inl e \<Rightarrow> Inl (toStatus e)
      | Inr after \<Rightarrow>
     (case create_target parse t parentID (cr_SpaceId req) of
        Inl e \<Rightarrow> Inl e
      | Inr target \<Rightarrow>
     (case mayWrite mem createdBy target of
        Some e \<Rightarrow> Inl (toStatus e)
      | None \<Rightarrow>
     (case Create t now i \<lparr>np_CreatedBy = createdBy, np_Title = cr_Title req, np_ParentID = parentID,
             np_After = after, np_SpaceID = target\<rparr> of
        Inl e \<Rightarrow> Inl (toStatus (RepoError e))
      | Inr result \<Rightarrow> Inr result)))))))"

definition Server_GetPage :: "uuid_parser \<Rightarrow> string list \<Rightarrow> member_table \<Rightarrow> page_table \<Rightarrow> string \<Rightarrow> status + Page" where
  "Server_GetPage parse ids mem t idText =
     (case actorID parse ids of
        Inl e \<Rightarrow> Inl (toStatus e)
      | Inr actor \<Rightarrow>
     (case parsePageID parse idText of
        Inl e \<Rightarrow> Inl (toStatus e)
      | Inr i \<Rightarrow>
     (case visible mem t actor i of
        Some e \<Rightarrow> Inl (toStatus e)
      | None \<Rightarrow>
     (case GetPage t i of
        None \<Rightarrow> Inl (toStatus (RepoError ErrNotFound))
      | Some page \<Rightarrow> Inr page))))"

definition defaultListLimit :: int where
  "defaultListLimit = 50"

definition maxListLimit :: int where
  "maxListLimit = 200"

text \<open>The pages and the cursor of the reply.\<close>

definition Server_ListPages :: "uuid_parser \<Rightarrow> string list \<Rightarrow> member_table \<Rightarrow> page_table \<Rightarrow> string option \<Rightarrow> string
    \<Rightarrow> int option \<Rightarrow> status + (Page list \<times> string option)" where
  "Server_ListPages parse ids mem t parentText after limit =
     (case actorID parse ids of
        Inl e \<Rightarrow> Inl (toStatus e)
      | Inr actor \<Rightarrow>
     (case parseOptionalPageID parse parentText of
        Inl e \<Rightarrow> Inl (toStatus e)
      | Inr parentID \<Rightarrow>
     (let lim = (case limit of None \<Rightarrow> defaultListLimit | Some l \<Rightarrow> l)
      in if lim \<le> 0 \<or> lim > maxListLimit then Inl InvalidArgument
         else let ps = ListPages t (SpacesFor mem actor) parentID (if after = [] then None else Some after) (nat lim)
           in Inr (ps, if int (length ps) = lim then Some (pg_SortKey (last ps)) else None))))"

definition Server_RenamePage :: "uuid_parser \<Rightarrow> string list \<Rightarrow> member_table \<Rightarrow> page_table \<Rightarrow> nat \<Rightarrow> string \<Rightarrow> string
    \<Rightarrow> status + page_table" where
  "Server_RenamePage parse ids mem t now idText title =
     (case actorID parse ids of
        Inl e \<Rightarrow> Inl (toStatus e)
      | Inr actor \<Rightarrow>
     (case validateTitle title of
        Some e \<Rightarrow> Inl (toStatus e)
      | None \<Rightarrow>
     (case parsePageID parse idText of
        Inl e \<Rightarrow> Inl (toStatus e)
      | Inr i \<Rightarrow>
     (case mayChange mem t actor i of
        Some e \<Rightarrow> Inl (toStatus e)
      | None \<Rightarrow>
     (case Rename t now i title of
        Inl e \<Rightarrow> Inl (toStatus (RepoError e))
      | Inr t' \<Rightarrow> Inr t')))))"

definition Server_DeletePage :: "uuid_parser \<Rightarrow> string list \<Rightarrow> member_table \<Rightarrow> page_table \<Rightarrow> nat \<Rightarrow> string
    \<Rightarrow> status + page_table" where
  "Server_DeletePage parse ids mem t now idText =
     (case actorID parse ids of
        Inl e \<Rightarrow> Inl (toStatus e)
      | Inr actor \<Rightarrow>
     (case parsePageID parse idText of
        Inl e \<Rightarrow> Inl (toStatus e)
      | Inr i \<Rightarrow>
     (case mayChange mem t actor i of
        Some e \<Rightarrow> Inl (toStatus e)
      | None \<Rightarrow> Inr (Delete t now i))))"

text \<open>An empty parent promotes to root, an absent one leaves the parent alone.\<close>

definition parent_change :: "uuid_parser \<Rightarrow> string option \<Rightarrow> server_error + ParentChange" where
  "parent_change parse parentText =
     (case parentText of
        None \<Rightarrow> Inr \<lparr>Change = False, pc_ParentID = None\<rparr>
      | Some s \<Rightarrow>
          if s = [] then Inr \<lparr>Change = True, pc_ParentID = None\<rparr>
          else (case parsePageID parse s of
                  Inl e \<Rightarrow> Inl e | Inr p \<Rightarrow> Inr \<lparr>Change = True, pc_ParentID = Some p\<rparr>))"

definition Server_ReparentPage :: "uuid_parser \<Rightarrow> string list \<Rightarrow> member_table \<Rightarrow> page_table \<Rightarrow> nat \<Rightarrow> string \<Rightarrow> string option
    \<Rightarrow> string option \<Rightarrow> status + page_table" where
  "Server_ReparentPage parse ids mem t now idText parentText afterText =
     (case actorID parse ids of
        Inl e \<Rightarrow> Inl (toStatus e)
      | Inr actor \<Rightarrow>
     (case parsePageID parse idText of
        Inl e \<Rightarrow> Inl (toStatus e)
      | Inr i \<Rightarrow>
     (case mayChange mem t actor i of
        Some e \<Rightarrow> Inl (toStatus e)
      | None \<Rightarrow>
     (case parent_change parse parentText of
        Inl e \<Rightarrow> Inl (toStatus e)
      | Inr parent \<Rightarrow>
     (case parseOptionalPageID parse afterText of
        Inl e \<Rightarrow> Inl (toStatus e)
      | Inr after \<Rightarrow>
     (case Reparent t now i parent after of
        Inl e \<Rightarrow> Inl (toStatus (RepoError e))
      | Inr t' \<Rightarrow> Inr t'))))))"

end
