(* ===== verification/PageServerLaws.thy ===== *)
theory PageServerLaws
  imports PageServer
begin

text \<open>
  What the service promises of access: what an actor can read depends on nothing outside the
  actor's spaces, following the cursors of ListPages enumerates exactly those pages, a write
  changes only pages of spaces where the actor may write; and where moving a page
  breaks these promises.
\<close>

subsection \<open>Reading\<close>

text \<open>The rows in the spaces of an actor.\<close>

definition own :: "member_table \<Rightarrow> uuid \<Rightarrow> page_table \<Rightarrow> page_table" where
  "own mem actor t = filter (\<lambda>r. SpaceID r \<in> set (SpacesFor mem actor)) t"

lemma GetPage_unique:
  assumes "distinct (map pg_ID t)" and "r \<in> set t" and "live r"
  shows "GetPage t (pg_ID r) = Some r"
  using assms unfolding GetPage_def
  by (induction t) (auto simp: image_iff)

lemma GetPage_own:
  assumes "distinct (map pg_ID t)"
  shows "GetPage (own mem actor t) i =
    (case GetPage t i of None \<Rightarrow> None | Some r \<Rightarrow> if SpaceID r \<in> set (SpacesFor mem actor) then Some r else None)"
  using assms unfolding GetPage_def own_def
  by (induction t) (auto simp: find_ex image_iff split: option.splits dest!: find_SomeD)

text \<open>C11: what GetPage and ListPages answer an actor depends on nothing outside the actor's spaces:
  a page in another space answers exactly as a page that does not exist, and no list, cursor or
  status tells whether there is one.\<close>

theorem reads_see_own_spaces:
  assumes "tree_ok t" and "actorID parse ids = Inr actor"
  shows "Server_GetPage parse ids mem t idText = Server_GetPage parse ids mem (own mem actor t) idText \<and>
    Server_ListPages parse ids mem t parentText after limit =
      Server_ListPages parse ids mem (own mem actor t) parentText after limit"
proof
  have d: "distinct (map pg_ID t)" using assms(1) by (simp add: tree_ok_def)
  show "Server_GetPage parse ids mem t idText = Server_GetPage parse ids mem (own mem actor t) idText"
    by (simp add: Server_GetPage_def assms(2) visible_def GetPage_own[OF d] list_ex_iff toStatus_def
        split: sum.split option.split)
  have "ListPages (own mem actor t) (SpacesFor mem actor) p k n = ListPages t (SpacesFor mem actor) p k n" for p k n
    by (simp add: ListPages_def own_def conj_commute conj_left_commute cong: conj_cong)
  then show "Server_ListPages parse ids mem t parentText after limit =
      Server_ListPages parse ids mem (own mem actor t) parentText after limit"
    by (simp add: Server_ListPages_def assms(2) Let_def split: sum.split)
qed

text \<open>A page outside the actor's spaces cannot be changed either.\<close>

lemma hidden_not_changed:
  assumes "actorID parse ids = Inr actor" and "parsePageID parse idText = Inr i"
    and "\<And>r. GetPage t i = Some r \<Longrightarrow> SpaceID r \<notin> set (SpacesFor mem actor)"
  shows "Server_DeletePage parse ids mem t now idText = Inl NotFound"
    and "Server_ReparentPage parse ids mem t now idText parentText afterText = Inl NotFound"
    and "validateTitle title = None \<Longrightarrow> Server_RenamePage parse ids mem t now idText title = Inl NotFound"
proof -
  have "mayChange mem t actor i = Some (RepoError ErrNotFound)"
    using assms(3) by (auto simp: mayChange_def visible_def list_ex_iff split: option.split)
  then show "Server_DeletePage parse ids mem t now idText = Inl NotFound"
    and "Server_ReparentPage parse ids mem t now idText parentText afterText = Inl NotFound"
    and "validateTitle title = None \<Longrightarrow> Server_RenamePage parse ids mem t now idText title = Inl NotFound"
    by (simp_all add: Server_DeletePage_def Server_ReparentPage_def Server_RenamePage_def assms(1,2) toStatus_def)
qed

subsection \<open>Listing page by page\<close>

text \<open>Live pages under one parent have different keys.\<close>

definition keys_distinct :: "page_table \<Rightarrow> bool" where
  "keys_distinct t \<longleftrightarrow>
     (\<forall>q\<in>set t. \<forall>r\<in>set t. live q \<and> live r \<and> ParentID q = ParentID r \<and> pg_SortKey q = pg_SortKey r \<longrightarrow> pg_ID q = pg_ID r)"

lemma keys_distinctD:
  "keys_distinct t \<Longrightarrow> q \<in> set t \<Longrightarrow> r \<in> set t \<Longrightarrow> live q \<Longrightarrow> live r \<Longrightarrow> ParentID q = ParentID r \<Longrightarrow>
    pg_SortKey q = pg_SortKey r \<Longrightarrow> pg_ID q = pg_ID r"
  unfolding keys_distinct_def by blast

lemma keys_distinctI:
  "(\<And>q r. q \<in> set t \<Longrightarrow> r \<in> set t \<Longrightarrow> live q \<Longrightarrow> live r \<Longrightarrow> ParentID q = ParentID r \<Longrightarrow>
    pg_SortKey q = pg_SortKey r \<Longrightarrow> pg_ID q = pg_ID r) \<Longrightarrow> keys_distinct t"
  unfolding keys_distinct_def by blast

lemma keys_distinct_update:
  assumes "\<And>r. pg_ID (f r) = pg_ID r \<and> pg_SortKey (f r) = pg_SortKey r \<and> ParentID (f r) = ParentID r \<and> (live (f r) \<longrightarrow> live r)"
    and "keys_distinct t"
  shows "keys_distinct (update_rows c f t)"
proof -
  let ?g = "\<lambda>r. if c r then f r else r"
  have g: "pg_ID (?g r) = pg_ID r" "pg_SortKey (?g r) = pg_SortKey r" "ParentID (?g r) = ParentID r" "live (?g r) \<Longrightarrow> live r" for r
    using assms(1)[of r] by (auto split: if_splits)
  show ?thesis
  proof (rule keys_distinctI)
    fix q r assume "q \<in> set (update_rows c f t)" "r \<in> set (update_rows c f t)"
      and same: "live q" "live r" "ParentID q = ParentID r" "pg_SortKey q = pg_SortKey r"
    then obtain x y where x: "x \<in> set t" "q = ?g x" and y: "y \<in> set t" "r = ?g y"
      unfolding set_update_rows by blast
    have "pg_ID x = pg_ID y"
      using keys_distinctD[OF assms(2) x(1) y(1)] same unfolding x(2) y(2) g(2,3) by (blast dest: g(4))
    then show "pg_ID q = pg_ID r" unfolding x(2) y(2) g(1) .
  qed
qed

lemma nextSortKey_fresh:
  assumes "reachable_table t" and "nextSortKey t parent after x = Inr key"
    and "s \<in> set (siblings t parent x)"
  shows "pg_SortKey s \<noteq> key"
proof -
  have "anchor_ok t parent after"
    using assms(2) by (auto simp: nextSortKey_def anchor_ok_def split: option.splits if_splits)
  from nextSortKey_lands[OF reachable_keys_ok[OF assms(1)] this, of x] have "lands_after t parent after x key"
    using assms(2) by auto
  then show ?thesis using assms(3) by (fastforce simp: lands_after_def split: option.splits)
qed

lemma keys_distinct_Create:
  assumes "reachable_table t" and "keys_distinct t" and "Create t now i np = Inr (row, t')"
  shows "keys_distinct t'"
  using assms(3)
proof (rule Create_cases)
  fix key
  assume k: "nextSortKey t (np_ParentID np) (np_After np) None = Inr key" "t' = t @ [row]"
    "ParentID row = np_ParentID np" "pg_SortKey row = key" "live row"
  have fresh: "pg_SortKey r \<noteq> pg_SortKey row" if "r \<in> set t" "live r" "ParentID r = ParentID row" for r
    using nextSortKey_fresh[OF assms(1) k(1), of r] that k(3,4) by (simp add: siblings_set)
  show ?thesis
  proof (rule keys_distinctI)
    fix q r assume q: "q \<in> set t'" and r: "r \<in> set t'"
      and same: "live q" "live r" "ParentID q = ParentID r" "pg_SortKey q = pg_SortKey r"
    consider "q \<in> set t" "r \<in> set t" | "q = row" "r \<in> set t" | "q \<in> set t" "r = row" | "q = row" "r = row"
      using q r unfolding k(2) by auto
    then show "pg_ID q = pg_ID r"
    proof cases
      case 1
      then show ?thesis using keys_distinctD[OF assms(2) 1 same] by blast
    next
      case 2
      then show ?thesis using fresh[OF 2(2)] same by metis
    next
      case 3
      then show ?thesis using fresh[OF 3(1)] same by metis
    qed simp
  qed
qed

lemma keys_distinct_Reparent:
  assumes "reachable_table t" and "keys_distinct t" and "Reparent t now i pc after = Inr t'"
  shows "keys_distinct t'"
proof -
  obtain plan where plan: "reparent_reads t i pc after = Inr plan" "reparent_writes t now i plan = Inr t'"
    using assms(3) by (auto simp: Reparent_def split: sum.splits)
  from plan(1) obtain cur where cur: "GetPage t i = Some cur"
    and key: "nextSortKey t (target_parent plan) after (Some i) = Inr (new_key plan)"
    by (rule reparent_reads_cases)
  let ?t = "ReparentPageRow t now i (target_parent plan) (new_path plan) (new_key plan)"
  define f :: "Page \<Rightarrow> Page" where "f r = (if pg_ID r = i \<and> live r
    then r\<lparr>ParentID := target_parent plan, Path := new_path plan, pg_SortKey := new_key plan, UpdatedAt := now\<rparr> else r)" for r
  have f: "?t = map f t" by (simp add: ReparentPageRow_def update_rows_def f_def)
  have fresh: "pg_SortKey r \<noteq> new_key plan" if "r \<in> set t" "live r" "ParentID r = target_parent plan" "pg_ID r \<noteq> i" for r
    using nextSortKey_fresh[OF assms(1) key, of r] that by (simp add: siblings_set)
  have "keys_distinct ?t"
  proof (rule keys_distinctI)
    fix q r assume "q \<in> set ?t" "r \<in> set ?t"
      and same: "live q" "live r" "ParentID q = ParentID r" "pg_SortKey q = pg_SortKey r"
    then obtain x y where x: "x \<in> set t" "q = f x" and y: "y \<in> set t" "r = f y" unfolding f by auto
    have l: "live x" "live y" using same(1,2) x(2) y(2) by (auto simp: f_def live_def split: if_splits)
    have i: "ParentID (f z) = target_parent plan" "pg_SortKey (f z) = new_key plan" if "pg_ID z = i" "live z" for z
      using that by (simp_all add: f_def)
    have other: "f z = z" if "pg_ID z \<noteq> i" for z using that by (simp add: f_def)
    consider "pg_ID x = i" "pg_ID y = i" | "pg_ID x = i" "pg_ID y \<noteq> i" | "pg_ID x \<noteq> i" "pg_ID y = i"
      | "pg_ID x \<noteq> i" "pg_ID y \<noteq> i" by blast
    then have "pg_ID x = pg_ID y"
    proof cases
      case 2
      then show ?thesis using fresh[OF y(1) l(2)] same(3,4) i[OF 2(1) l(1)] other[OF 2(2)] x(2) y(2) by metis
    next
      case 3
      then show ?thesis using fresh[OF x(1) l(1)] same(3,4) i[OF 3(2) l(2)] other[OF 3(1)] x(2) y(2) by metis
    next
      case 4
      then show ?thesis using keys_distinctD[OF assms(2) x(1) y(1) l] same(3,4) other x(2) y(2) by metis
    qed simp
    then show "pg_ID q = pg_ID r" using x(2) y(2) by (simp add: f_def)
  qed
  then show ?thesis using plan(2)
    by (auto simp: reparent_writes_def RewriteDescendantPaths_def Let_def live_def split: if_splits
        intro!: keys_distinct_update)
qed

lemma reachable_keys_distinct: "reachable_table t \<Longrightarrow> keys_distinct t"
proof (induction rule: reachable_table.induct)
  case (step t t')
  note t = step.hyps(1) and kd = step.IH
  from step.hyps(2) show ?case
  proof cases
    case (created now i np row)
    then show ?thesis using keys_distinct_Create[OF t kd] by blast
  next
    case (reparented now i pc after)
    then show ?thesis using keys_distinct_Reparent[OF t kd] by blast
  next
    case (renamed now i title)
    then show ?thesis using kd
      by (auto simp: Rename_def RenamePage_def live_def split: if_splits intro!: keys_distinct_update)
  next
    case (deleted now i)
    then show ?thesis using kd
      by (auto simp: Delete_def SoftDeletePage_def SoftDeleteDescendants_def split: option.splits intro!: keys_distinct_update)
  next
    case (restored now i)
    have "find (\<lambda>r. pg_ID r = i \<and> Lifecycle r = Deleted) t = None"
      using never_Deleted[OF t] by (auto simp: find_ex)
    then show ?thesis using restored kd by (simp add: RestorePageAndSubtree_def)
  qed
qed (simp add: keys_distinct_def)

text \<open>The client's loop: ask again from the cursor until there is none.\<close>

partial_function (option) follow_cursors :: "(string \<Rightarrow> status + (Page list \<times> string option)) \<Rightarrow> string \<Rightarrow> Page list option" where
  "follow_cursors ask after =
     (case ask after of
        Inl _ \<Rightarrow> None
      | Inr (ps, cursor) \<Rightarrow>
          (case cursor of
             None \<Rightarrow> Some ps
           | Some k \<Rightarrow> Option.bind (follow_cursors ask k) (\<lambda>rest. Some (ps @ rest))))"

lemma strictly_sorted_drop:
  assumes "sorted_wrt (\<lambda>q r. f q < (f r :: string)) xs" and "n \<le> length xs" and "0 < n"
  shows "filter (\<lambda>r. f (last (take n xs)) < f r) xs = drop n xs"
proof -
  let ?k = "f (last (take n xs))"
  have ne: "take n xs \<noteq> []" using assms(2,3) by auto
  then have l: "take n xs = butlast (take n xs) @ [last (take n xs)]" by simp
  have "sorted_wrt (\<lambda>q r. f q < f r) (take n xs @ drop n xs)" using assms(1) by simp
  then have s: "sorted_wrt (\<lambda>q r. f q < f r) (take n xs)" "\<forall>q\<in>set (take n xs). \<forall>r\<in>set (drop n xs). f q < f r"
    unfolding sorted_wrt_append by blast+
  have lo: "\<not> ?k < f q" if "q \<in> set (take n xs)" for q
  proof (cases "q = last (take n xs)")
    case False
    then have "q \<in> set (butlast (take n xs))" using that l by (metis in_set_conv_decomp_last set_ConsD append_Nil2 Un_iff set_append list.set(1) empty_iff list.set(2) insert_iff)
    then have "f q < ?k" using s(1) by (subst (asm) l) (simp add: sorted_wrt_append)
    then show ?thesis by auto
  qed simp
  have hi: "?k < f r" if "r \<in> set (drop n xs)" for r
    using s(2) that last_in_set[OF ne] by blast
  have "filter (\<lambda>r. ?k < f r) (take n xs) = []" using lo by (simp add: filter_empty_conv)
  moreover have "filter (\<lambda>r. ?k < f r) (drop n xs) = drop n xs" using hi by (simp add: filter_id_conv)
  ultimately have "filter (\<lambda>r. ?k < f r) (take n xs @ drop n xs) = drop n xs" by (simp only: filter_append append_Nil)
  then show ?thesis by simp
qed

text \<open>The visible children of a parent, in order.\<close>

definition listing :: "member_table \<Rightarrow> uuid \<Rightarrow> page_table \<Rightarrow> uuid option \<Rightarrow> Page list" where
  "listing mem actor t parent =
     sort_key pg_SortKey (filter (\<lambda>r. live r \<and> SpaceID r \<in> set (SpacesFor mem actor) \<and> ParentID r = parent) t)"

lemma listing_strict:
  assumes "reachable_table t"
  shows "sorted_wrt (\<lambda>q r. pg_SortKey q < pg_SortKey r) (listing mem actor t parent)"
proof -
  let ?l = "listing mem actor t parent"
  have d: "distinct (map pg_ID t)" using page_tree[OF assms] by (simp add: tree_ok_def)
  have set: "set ?l \<subseteq> {r \<in> set t. live r \<and> ParentID r = parent}" by (auto simp: listing_def)
  have inj: "inj_on pg_ID (set t)" using d by (simp add: distinct_map)
  have "inj_on pg_SortKey (set ?l)"
  proof (rule inj_onI)
    fix q r assume "q \<in> set ?l" "r \<in> set ?l" and k: "pg_SortKey q = pg_SortKey r"
    then have qr: "q \<in> set t" "r \<in> set t" "live q" "live r" "ParentID q = ParentID r" using set by auto
    from keys_distinctD[OF reachable_keys_distinct[OF assms] qr k] show "q = r" using inj qr(1,2) unfolding inj_on_def by blast
  qed
  moreover have "distinct ?l" using d by (simp add: listing_def distinct_map)
  ultimately have "distinct (map pg_SortKey ?l)" by (simp add: distinct_map)
  moreover have "sorted (map pg_SortKey ?l)" by (simp add: listing_def)
  ultimately show ?thesis using strict_sorted_iff[of "map pg_SortKey ?l"] by (simp add: sorted_wrt_map)
qed

lemma ListPages_listing:
  "ListPages t (SpacesFor mem actor) parent after n =
     take n (case after of None \<Rightarrow> listing mem actor t parent
             | Some k \<Rightarrow> filter (\<lambda>r. k < pg_SortKey r) (listing mem actor t parent))"
  by (simp add: ListPages_def listing_def filter_sort conj_commute conj_left_commute split: option.split)

definition ask_pages :: "uuid_parser \<Rightarrow> string list \<Rightarrow> member_table \<Rightarrow> page_table \<Rightarrow> string option \<Rightarrow> int option \<Rightarrow> string
    \<Rightarrow> status + (Page list \<times> string option)" where
  "ask_pages parse ids mem t parentText limit after = Server_ListPages parse ids mem t parentText after limit"

lemma ask_pages_from:
  assumes "actorID parse ids = Inr actor" and "parseOptionalPageID parse parentText = Inr parent" and "0 < n" and "n \<le> 200"
    and "after = [] \<and> rest = listing mem actor t parent \<or>
      after \<noteq> [] \<and> rest = filter (\<lambda>r. after < pg_SortKey r) (listing mem actor t parent)"
  shows "ask_pages parse ids mem t parentText (Some (int n)) after =
    Inr (take n rest, if length (take n rest) = n then Some (pg_SortKey (last (take n rest))) else None)"
  using assms by (auto simp: ask_pages_def Server_ListPages_def maxListLimit_def Let_def ListPages_listing)

text \<open>C18: following the cursors of ListPages, with any allowed limit, ends, and gives exactly the live
  children of the parent that lie in the actor's spaces, each once and in order.\<close>

theorem ListPages_complete:
  assumes "reachable_table t" and "actorID parse ids = Inr actor" and "parseOptionalPageID parse parentText = Inr parent"
    and "0 < n" and "n \<le> 200"
  shows "follow_cursors (ask_pages parse ids mem t parentText (Some (int n))) [] = Some (listing mem actor t parent)"
proof -
  let ?l = "listing mem actor t parent" and ?ask = "ask_pages parse ids mem t parentText (Some (int n))"
  have strict: "sorted_wrt (\<lambda>q r. pg_SortKey q < pg_SortKey r) ?l" by (rule listing_strict[OF assms(1)])
  have keys: "pg_SortKey r \<noteq> []" if "r \<in> set ?l" for r
    using reachable_keys_ok[OF assms(1)] that good_digits_nonempty by (auto simp: keys_ok_def listing_def)
  have "follow_cursors ?ask after = Some rest"
    if "after = [] \<and> rest = ?l \<or> after \<noteq> [] \<and> rest = filter (\<lambda>r. after < pg_SortKey r) ?l" for after rest
    using that
  proof (induction "length rest" arbitrary: after rest rule: less_induct)
    case less
    have ask: "?ask after = Inr (take n rest, if length (take n rest) = n then Some (pg_SortKey (last (take n rest))) else None)"
      by (rule ask_pages_from[OF assms(2-5) less.prems])
    show ?case
    proof (cases "length (take n rest) = n")
      case False
      then have "length rest < n" by simp
      then have "?ask after = Inr (rest, None)" using ask by simp
      then show ?thesis by (subst follow_cursors.simps) simp
    next
      case True
      let ?k = "pg_SortKey (last (take n rest))"
      have n: "n \<le> length rest" "take n rest \<noteq> []" using True assms(4) by auto
      have sub: "set rest \<subseteq> set ?l" using less.prems by auto
      have k: "?k \<noteq> []" using keys sub last_in_set[OF n(2)] set_take_subset[of n rest] by blast
      have sr: "sorted_wrt (\<lambda>q r. pg_SortKey q < pg_SortKey r) rest"
        using less.prems strict by (auto intro: sorted_wrt_filter)
      have "filter (\<lambda>r. ?k < pg_SortKey r) rest = drop n rest" by (rule strictly_sorted_drop[OF sr n(1) assms(4)])
      moreover have "filter (\<lambda>r. ?k < pg_SortKey r) rest = filter (\<lambda>r. ?k < pg_SortKey r) ?l"
      proof (cases "after = []")
        case False
        then have r: "rest = filter (\<lambda>r. after < pg_SortKey r) ?l" using less.prems by simp
        have "last (take n rest) \<in> set rest" using last_in_set[OF n(2)] set_take_subset[of n rest] by blast
        then have "after < ?k" unfolding r by simp
        then show ?thesis unfolding r by (auto intro!: filter_cong)
      qed (use less.prems in simp)
      ultimately have rest: "drop n rest = filter (\<lambda>r. ?k < pg_SortKey r) ?l" by simp
      have "follow_cursors ?ask ?k = Some (drop n rest)"
      proof (rule less.hyps)
        show "length (drop n rest) < length rest" using n(1) assms(4) by simp
      qed (use k rest in blast)
      then show ?thesis using ask True by (subst follow_cursors.simps) simp
    qed
  qed
  then show ?thesis by blast
qed

subsection \<open>Writing\<close>

inductive server_write :: "uuid_parser \<Rightarrow> string list \<Rightarrow> member_table \<Rightarrow> page_table \<Rightarrow> page_table \<Rightarrow> bool"
  for parse ids mem where
  wrote_create: "Server_CreatePage parse ids mem t now i req = Inr (row, t') \<Longrightarrow> server_write parse ids mem t t'"
| wrote_rename: "Server_RenamePage parse ids mem t now idText title = Inr t' \<Longrightarrow> server_write parse ids mem t t'"
| wrote_delete: "Server_DeletePage parse ids mem t now idText = Inr t' \<Longrightarrow> server_write parse ids mem t t'"
| wrote_reparent: "Server_ReparentPage parse ids mem t now idText parentText afterText = Inr t' \<Longrightarrow>
    server_write parse ids mem t t'"

lemma mayWrite_rank: "mayWrite mem actor s = None \<longleftrightarrow> AtLeast (RoleFor mem actor s) Editor"
  by (auto simp: mayWrite_def AtLeast_def rank_def Viewer_def Editor_def Admin_def Let_def)

lemma RoleFor_space: "RoleFor mem actor s \<noteq> [] \<Longrightarrow> s \<in> set (SpacesFor mem actor)"
  by (auto simp: RoleFor_def SpacesFor_def sm_key_def split: option.splits dest!: find_SomeD)

lemma mayChange_None:
  "mayChange mem t actor i = None \<longleftrightarrow>
    (case GetPage t i of None \<Rightarrow> False | Some page \<Rightarrow> AtLeast (RoleFor mem actor (SpaceID page)) Editor)"
proof -
  have "AtLeast (RoleFor mem actor s) Editor \<Longrightarrow> s \<in> set (SpacesFor mem actor)" for s
    by (intro RoleFor_space) (auto simp: AtLeast_def rank_def Viewer_def Editor_def Admin_def)
  then show ?thesis
    by (auto simp: mayChange_def visible_def list_ex_iff mayWrite_rank split: option.splits)
qed

lemma space_chain:
  assumes "tree_ok t" and "space_ok t" and "(pg_ID q, j) \<in> (parents t)\<^sup>*" and "q \<in> set t"
  shows "\<And>r. r \<in> set t \<Longrightarrow> pg_ID r = j \<Longrightarrow> SpaceID r = SpaceID q"
  using assms(3)
proof (induction rule: rtrancl_induct)
  case base
  then show ?case using same_page[OF assms(1) _ assms(4)] by metis
next
  case (step j k)
  obtain r' where r': "r' \<in> set t" "pg_ID r' = k" "ParentID r' = Some j" using step.hyps(2) by (auto simp: parents_def)
  have r: "r = r'" using same_page[OF assms(1) step.prems(1) r'(1)] step.prems(2) r'(2) by simp
  obtain p where p: "p \<in> set t" "pg_ID p = j" using assms(1) r'(1,3) by (force simp: tree_ok_def split: option.splits)
  then show ?case using step.IH[OF p] assms(2) r' r by (auto simp: space_ok_def)
qed

lemma reparent_writes_changed:
  assumes "reparent_writes t now i plan = Inr t'" and "r' \<in> set t'" and "r' \<notin> set t"
  shows "\<exists>r\<in>set t. pg_ID r' = pg_ID r \<and> SpaceID r' = SpaceID r \<and>
    (pg_ID r = i \<or> ltree_descendant (Path r) (old_path plan))"
proof -
  define f :: "Page \<Rightarrow> Page" where "f r = (if pg_ID r = i \<and> live r
    then r\<lparr>ParentID := target_parent plan, Path := new_path plan, pg_SortKey := new_key plan, UpdatedAt := now\<rparr> else r)" for r
  define h :: "Page \<Rightarrow> Page" where "h r = (if ltree_descendant (Path r) (old_path plan) \<and> pg_ID r \<noteq> i
    then r\<lparr>Path := ltree_append (new_path plan) (subpath (Path r) (nlevel (old_path plan))), UpdatedAt := now\<rparr> else r)" for r
  define g :: "Page \<Rightarrow> Page" where "g r = (if new_path plan \<noteq> old_path plan then h (f r) else f r)" for r
  have "t' = map g t"
    using assms(1) by (auto simp: reparent_writes_def ReparentPageRow_def RewriteDescendantPaths_def update_rows_def
      Let_def f_def h_def g_def split: if_splits)
  then obtain r where r: "r \<in> set t" "r' = g r" using assms(2) by auto
  have "g r = r" if "pg_ID r \<noteq> i" "\<not> ltree_descendant (Path r) (old_path plan)"
    using that by (simp add: g_def f_def h_def)
  then have "pg_ID r = i \<or> ltree_descendant (Path r) (old_path plan)" using r assms(3) by metis
  moreover have "pg_ID (g r) = pg_ID r \<and> SpaceID (g r) = SpaceID r" by (simp add: g_def h_def f_def)
  ultimately show ?thesis using r by blast
qed

lemma Create_space:
  assumes "Create t now i np = Inr (row, t')" and "np_ParentID np = None"
  shows "SpaceID row = (if np_SpaceID np \<noteq> 0 then np_SpaceID np else DefaultSpaceID)"
  using assms by (auto simp: Create_def CreatePage_def Let_def spaceFor_def split: sum.splits option.splits if_splits)

text \<open>C8: while every page lies in its parent's space, whatever row a successful request of an actor
  creates or changes, by creating, renaming, deleting or moving, lies in a space where the actor is
  at least editor; no space zero is ever granted.\<close>

theorem writes_need_rank:
  assumes "server_write parse ids mem t t'" and "actorID parse ids = Inr actor" and "tree_ok t" and "space_ok t"
    and "RoleFor mem actor 0 = []" and "r \<in> set t'" and "r \<notin> set t"
  shows "AtLeast (RoleFor mem actor (SpaceID r)) Editor"
proof -
  have below: "AtLeast (RoleFor mem actor (SpaceID r)) Editor"
    if "GetPage t i = Some page" "mayChange mem t actor i = None" "x \<in> set t" "(i, pg_ID x) \<in> (parents t)\<^sup>*"
      "SpaceID r = SpaceID x" for i page x
  proof -
    have p: "page \<in> set t" "pg_ID page = i" using GetPage_SomeD[OF that(1)] by auto
    have "SpaceID x = SpaceID page" using space_chain[OF assms(3,4), of page "pg_ID x"] that(3,4) p by blast
    then show ?thesis using that(1,2,5) by (simp add: mayChange_None)
  qed
  show ?thesis
    using assms(1)
  proof cases
    case (wrote_create now i req row)
    then obtain parent after target where w: "create_target parse t parent (cr_SpaceId req) = Inr target"
      "mayWrite mem actor target = None"
      "Create t now i \<lparr>np_CreatedBy = actor, np_Title = cr_Title req, np_ParentID = parent, np_After = after,
        np_SpaceID = target\<rparr> = Inr (row, t')" (is "Create t now i ?np = _")
      using assms(2) by (auto simp: Server_CreatePage_def split: option.splits sum.splits)
    have "target \<noteq> 0" using w(2) assms(5) by (auto simp: mayWrite_def Let_def Editor_def Admin_def)
    have row: "r = row" using w(3)
    proof (rule Create_cases)
      assume "t' = t @ [row]"
      then show "r = row" using assms(6,7) by simp
    qed
    have "SpaceID row = target"
    proof (cases parent)
      case None
      then show ?thesis using Create_space[OF w(3)] \<open>target \<noteq> 0\<close> by simp
    next
      case (Some p)
      then obtain q where q: "GetPage t p = Some q" "SpaceID row = (if SpaceID q \<noteq> 0 then SpaceID q else DefaultSpaceID)"
        using w(3) by (auto elim!: Create_cases)
      then show ?thesis using w(1) Some \<open>target \<noteq> 0\<close> by (auto simp: create_target_def split: sum.splits)
    qed
    then show ?thesis using w(2) row by (simp add: mayWrite_rank)
  next
    case (wrote_rename now idText title)
    then obtain i where i: "mayChange mem t actor i = None" "Rename t now i title = Inr t'"
      using assms(2) by (auto simp: Server_RenamePage_def split: option.splits sum.splits)
    obtain page where page: "GetPage t i = Some page" using i(1) by (auto simp: mayChange_None split: option.splits)
    obtain x where "x \<in> set t" "pg_ID x = i" "SpaceID r = SpaceID x"
      using i(2) assms(6,7) by (auto simp: Rename_def RenamePage_def set_update_rows split: if_splits)
    then show ?thesis using below[OF page i(1), of x] by simp
  next
    case (wrote_delete now idText)
    then obtain i where i: "mayChange mem t actor i = None" "t' = Delete t now i"
      using assms(2) by (auto simp: Server_DeletePage_def split: option.splits sum.splits)
    obtain page where page: "GetPage t i = Some page" using i(1) by (auto simp: mayChange_None split: option.splits)
    have "r \<in> set (update_rows (\<lambda>r. live r \<and> (i, pg_ID r) \<in> (parents t)\<^sup>*) (soft_delete now) t)"
      using assms(6) i(2) Delete_exact[OF assms(3) page] by simp
    then obtain x where "x \<in> set t" "(i, pg_ID x) \<in> (parents t)\<^sup>*" "SpaceID r = SpaceID x"
      using assms(7) by (auto simp: set_update_rows split: if_splits)
    then show ?thesis using below[OF page i(1)] by blast
  next
    case (wrote_reparent now idText parentText afterText)
    then obtain i pc after where i: "mayChange mem t actor i = None" "Reparent t now i pc after = Inr t'"
      using assms(2) by (auto simp: Server_ReparentPage_def split: option.splits sum.splits)
    then obtain plan where plan: "reparent_reads t i pc after = Inr plan" "reparent_writes t now i plan = Inr t'"
      by (auto simp: Reparent_def split: sum.splits)
    obtain page where page: "GetPage t i = Some page" using i(1) by (auto simp: mayChange_None split: option.splits)
    then have p: "page \<in> set t" "pg_ID page = i" using GetPage_SomeD by metis+
    have old: "old_path plan = Path page" using plan(1) page by (elim reparent_reads_cases) simp
    obtain x where x: "x \<in> set t" "SpaceID r = SpaceID x" "pg_ID x = i \<or> ltree_descendant (Path x) (Path page)"
      using reparent_writes_changed[OF plan(2) assms(6,7)] old by auto
    then have "(i, pg_ID x) \<in> (parents t)\<^sup>*" using descendant_spells[OF assms(3) x(1) p(1)] p(2) by auto
    then show ?thesis using below[OF page i(1) x(1)] x(2) by blast
  qed
qed

subsection \<open>What is not checked\<close>

text \<open>The page a move names as its new parent is not checked. Somebody who may write a page can
  put it under a page of a space they are not in; an editor of that space, who has no role in the
  page's own, then deletes it by deleting the page above.\<close>

theorem moved_page_deleted_by_stranger:
  assumes "tree_ok t" and "GetPage t i = Some cur" and "GetPage t p = Some q" and "i \<noteq> p"
    and "parse movedText = Some i" and "parse parentText = Some p" and "parentText \<noteq> []"
    and "Server_ReparentPage parse mover mem t now movedText (Some parentText) None = Inr t'"
    and "actorID parse ids = Inr actor"
    and "AtLeast (RoleFor mem actor (SpaceID q)) Editor" and "RoleFor mem actor (SpaceID cur) = []"
  shows "\<exists>t''. Server_DeletePage parse ids mem t' later parentText = Inr t'' \<and>
    (\<exists>r\<in>set t''. pg_ID r = i \<and> \<not> live r \<and> RoleFor mem actor (SpaceID r) = [])"
proof -
  have "Reparent t now i \<lparr>Change = True, pc_ParentID = Some p\<rparr> None = Inr t'"
    using assms(5-8) by (auto simp: Server_ReparentPage_def parent_change_def parsePageID_def parseOptionalPageID_def
        split: option.splits sum.splits)
  then obtain plan where plan: "reparent_reads t i \<lparr>Change = True, pc_ParentID = Some p\<rparr> None = Inr plan"
      "reparent_writes t now i plan = Inr t'" and ok': "tree_ok t'"
    using tree_ok_Reparent[OF assms(1)] by (auto simp: Reparent_def split: sum.splits)
  have tp: "target_parent plan = Some p" using plan(1) by (rule reparent_reads_cases) simp
  have c: "cur \<in> set t" "pg_ID cur = i" "q \<in> set t" "pg_ID q = p" "live q" using assms(2,3) GetPage_SomeD by metis+
  obtain g where g: "t' = map g t" "\<And>r. pg_ID (g r) = pg_ID r \<and> SpaceID (g r) = SpaceID r \<and> DeletedAt (g r) = DeletedAt r \<and>
    Lifecycle (g r) = Lifecycle r \<and>
    ParentID (g r) = (if pg_ID r = i \<and> live r then target_parent plan else ParentID r)"
    using reparent_writes_map[OF plan(2)] by blast
  have q': "GetPage t' p = Some (g q)"
    using GetPage_unique[of t' "g q"] ok' g c by (auto simp: tree_ok_def live_def)
  then have "mayChange mem t' actor p = None" using assms(10) g(2)[of q] by (simp add: mayChange_None)
  then have run: "Server_DeletePage parse ids mem t' later parentText = Inr (Delete t' later p)"
    using assms(6,9) by (simp add: Server_DeletePage_def parsePageID_def)
  have "(p, i) \<in> parents t'" using reparent_writes_parents(1)[OF plan(2) assms(2) tp] .
  then have below: "(p, pg_ID (g cur)) \<in> (parents t')\<^sup>*" using g(2)[of cur] c(2) by simp
  have alive: "live (g cur)" using g(2)[of cur] GetPage_SomeD[OF assms(2)] by (simp add: live_def)
  have "g cur \<in> set t'" using g(1) c(1) by simp
  then have gone: "soft_delete later (g cur) \<in> set (Delete t' later p)"
    unfolding Delete_exact[OF ok' q'] set_update_rows using below alive by (intro image_eqI[of _ _ "g cur"]) simp_all
  show ?thesis
    using run by (intro exI conjI, assumption, intro bexI[OF _ gone]) (simp add: g(2) c(2) assms(11))
qed

text \<open>The anchor a new page is to follow is not checked either: naming a child page of a space
  one is not in gives FAILED_PRECONDITION, naming one that does not exist gives NOT_FOUND, so the
  status tells whether a hidden page exists.\<close>

theorem anchor_tells_hidden:
  assumes "tree_ok t" and "actorID parse ids = Inr actor" and "validateTitle (cr_Title req) = None"
    and "cr_ParentId req = None" and "cr_SpaceId req = None" and "cr_After req = Some text" and "parse text = Some h"
    and "GetPage t h = Some q" and "SpaceID q \<notin> set (SpacesFor mem actor)" and "ParentID q \<noteq> None"
    and "AtLeast (RoleFor mem actor DefaultSpaceID) Editor"
  shows "Server_CreatePage parse ids mem t now i req = Inl FailedPrecondition \<and>
    Server_CreatePage parse ids mem (own mem actor t) now i req = Inl NotFound"
proof -
  have d: "distinct (map pg_ID t)" using assms(1) by (simp add: tree_ok_def)
  have none: "GetPage (own mem actor t) h = None" using GetPage_own[OF d, of mem actor h] assms(8,9) by simp
  let ?np = "\<lparr>np_CreatedBy = actor, np_Title = cr_Title req, np_ParentID = None, np_After = Some h, np_SpaceID = DefaultSpaceID\<rparr>"
  have "mayWrite mem actor DefaultSpaceID = None" using assms(11) by (simp add: mayWrite_rank)
  then have to_repo: "Server_CreatePage parse ids mem s now i req =
      (case Create s now i ?np of Inl e \<Rightarrow> Inl (toStatus (RepoError e)) | Inr result \<Rightarrow> Inr result)" for s
    using assms(2-7) by (simp add: Server_CreatePage_def parseOptionalPageID_def parsePageID_def create_target_def)
  have "Create t now i ?np = Inl ErrAnchorMismatch" "Create (own mem actor t) now i ?np = Inl ErrNotFound"
    using assms(8,10) none by (simp_all add: Create_def nextSortKey_def)
  then show ?thesis by (simp add: to_repo toStatus_def)
qed

subsection \<open>Instances\<close>

text \<open>A parser of one-digit identifiers; 4 is an editor of space 7 and of the default space, 5 of
  space 8 only.\<close>

definition digit_parser :: uuid_parser where
  "digit_parser s = (case s of [c] \<Rightarrow> if 48 \<le> byte_of c \<and> byte_of c < 58 then Some (word_of_nat (byte_of c - 48)) else None | _ \<Rightarrow> None)"

definition two_editors :: member_table where
  "two_editors = [\<lparr>sm_User = 4, sm_Space = 7, sm_Role = Editor, sm_GrantedAt = 1\<rparr>,
     \<lparr>sm_User = 4, sm_Space = DefaultSpaceID, sm_Role = Editor, sm_GrantedAt = 1\<rparr>,
     \<lparr>sm_User = 5, sm_Space = 8, sm_Role = Editor, sm_GrantedAt = 2\<rparr>]"

lemma three_ok: "tree_ok threePages" "space_ok threePages"
proof -
  show "tree_ok threePages" by (rule page_tree[OF threePages_reachable])
  show "space_ok threePages" by code_simp
qed

lemma title_x: "validateTitle ''x'' = None"
  by (simp add: validateTitle_def maxTitleBytes_def valid_utf8_Cons runes_Cons_simp decode_rune_def rune_size_def IsControl_def)

theorem reads_see_own_spaces_witness:
  "Server_GetPage digit_parser [''4''] two_editors threePages ''2'' = Server_GetPage digit_parser [''4''] two_editors [pageA, pageC] ''2''"
proof -
  have "actorID digit_parser [''4''] = Inr 4" "own two_editors 4 threePages = [pageA, pageC]" by code_simp+
  then show ?thesis using reads_see_own_spaces[OF three_ok(1), of digit_parser "[''4'']" 4 two_editors] by metis
qed

theorem ListPages_complete_witness:
  "follow_cursors (ask_pages digit_parser [''4''] two_editors threePages None (Some (int 1))) [] = Some [pageA]"
proof -
  have "actorID digit_parser [''4''] = Inr 4" "parseOptionalPageID digit_parser None = Inr None"
    "listing two_editors 4 threePages None = [pageA]" by code_simp+
  then show ?thesis using ListPages_complete[OF threePages_reachable, of digit_parser "[''4'']" 4 None None 1 two_editors] by simp
qed

lemma is_Inr_split: "(case x of Inl _ \<Rightarrow> False | Inr y \<Rightarrow> P y) \<Longrightarrow> \<exists>y. x = Inr y \<and> P y"
  by (cases x) auto

theorem writes_need_rank_witness: "AtLeast (RoleFor two_editors 4 (SpaceID pageC)) Editor"
proof -
  have "actorID digit_parser [''4''] = Inr 4" "parsePageID digit_parser ''3'' = Inr 3"
    "mayChange two_editors threePages 4 3 = None"
    "Rename threePages 6 3 ''x'' = Inr [pageA, pageB, pageC\<lparr>Title := ''x'', UpdatedAt := 6\<rparr>]" by code_simp+
  then have t': "Server_RenamePage digit_parser [''4''] two_editors threePages 6 ''3'' ''x'' =
      Inr [pageA, pageB, pageC\<lparr>Title := ''x'', UpdatedAt := 6\<rparr>]"
    by (simp add: Server_RenamePage_def title_x)
  have in_t': "pageC\<lparr>Title := ''x'', UpdatedAt := 6\<rparr> \<in> set [pageA, pageB, pageC\<lparr>Title := ''x'', UpdatedAt := 6\<rparr>]" by simp
  have "actorID digit_parser [''4''] = Inr 4" "RoleFor two_editors 4 0 = []"
    "pageC\<lparr>Title := ''x'', UpdatedAt := 6\<rparr> \<notin> set threePages" by code_simp+
  from writes_need_rank[OF wrote_rename[OF t'] this(1) three_ok this(2) in_t' this(3)] show ?thesis by simp
qed

theorem moved_page_deleted_by_stranger_witness:
  "\<exists>t' t''. Server_ReparentPage digit_parser [''4''] two_editors threePages 5 ''3'' (Some ''2'') None = Inr t' \<and>
    Server_DeletePage digit_parser [''5''] two_editors t' 6 ''2'' = Inr t'' \<and>
    (\<exists>r\<in>set t''. pg_ID r = 3 \<and> \<not> live r \<and> RoleFor two_editors 5 (SpaceID r) = [])"
proof -
  have "case Server_ReparentPage digit_parser [''4''] two_editors threePages 5 ''3'' (Some ''2'') None of
      Inl _ \<Rightarrow> False | Inr t' \<Rightarrow> True" by code_simp
  then obtain t' where t': "Server_ReparentPage digit_parser [''4''] two_editors threePages 5 ''3'' (Some ''2'') None = Inr t'"
    using is_Inr_split by blast
  have "(3 :: uuid) \<noteq> 2" "digit_parser ''3'' = Some 3" "digit_parser ''2'' = Some 2" "''2'' \<noteq> []"
    "actorID digit_parser [''5''] = Inr 5" "AtLeast (RoleFor two_editors 5 (SpaceID pageB)) Editor"
    "RoleFor two_editors 5 (SpaceID pageC) = []" by code_simp+
  note facts = this
  show ?thesis
    using moved_page_deleted_by_stranger[OF three_ok(1) threePages_get(3,2) facts(1-4) t' facts(5-7)] t' by blast
qed

theorem anchor_tells_hidden_witness:
  "Server_CreatePage digit_parser [''5''] (\<lparr>sm_User = 5, sm_Space = DefaultSpaceID, sm_Role = Editor, sm_GrantedAt = 1\<rparr> # two_editors)
      threePages 6 9 \<lparr>cr_Title = ''x'', cr_ParentId = None, cr_After = Some ''3'', cr_SpaceId = None\<rparr> = Inl FailedPrecondition"
proof -
  let ?m = "\<lparr>sm_User = 5, sm_Space = DefaultSpaceID, sm_Role = Editor, sm_GrantedAt = 1\<rparr> # two_editors"
  let ?req = "\<lparr>cr_Title = ''x'', cr_ParentId = None, cr_After = Some ''3'', cr_SpaceId = None\<rparr>"
  have "actorID digit_parser [''5''] = Inr 5" "digit_parser ''3'' = Some 3"
    "SpaceID pageC \<notin> set (SpacesFor ?m 5)" "ParentID pageC \<noteq> None" "AtLeast (RoleFor ?m 5 DefaultSpaceID) Editor"
    by code_simp+
  note f = this
  have "validateTitle (cr_Title ?req) = None" using title_x by simp
  from anchor_tells_hidden[OF three_ok(1) f(1) this _ _ _ f(2) threePages_get(3) f(3-5), of 6 9] show ?thesis by simp
qed

end
