(* ===== verification/BkTree.thy ===== *)
theory BkTree
  imports Utf8
begin

text \<open>
  The fuzzy title search of document-service: internal/bktree/bktree.go. The distance of two titles
  is computed row by row and is a metric on their runes, which is what makes it safe to skip subtrees.
\<close>

subsection \<open>The distance\<close>

definition min3 :: "nat \<Rightarrow> nat \<Rightarrow> nat \<Rightarrow> nat" where
  "min3 a b c = (let a = (if b < a then b else a) in if c < a then c else a)"

text \<open>The inner loop from column \<open>j\<close> on: \<open>left\<close> is \<open>curr[j-1]\<close>, the row above is given from \<open>prev[j-1]\<close> on.\<close>

fun row_from :: "nat \<Rightarrow> nat list \<Rightarrow> nat \<Rightarrow> nat list \<Rightarrow> nat list" where
  "row_from r (b # bs) left (diag # up # prev) =
     (let v = min3 (left + 1) (up + 1) (diag + (if r = b then 0 else 1)) in v # row_from r bs v (up # prev))"
| "row_from r bs left prev = []"

text \<open>The outer loop from row \<open>i\<close> on.\<close>

fun rows_from :: "nat \<Rightarrow> nat list \<Rightarrow> nat list \<Rightarrow> nat list \<Rightarrow> nat list" where
  "rows_from i [] rb prev = prev"
| "rows_from i (r # ra) rb prev = rows_from (i + 1) ra rb (i # row_from r rb i prev)"

definition Levenshtein :: "string \<Rightarrow> string \<Rightarrow> nat" where
  "Levenshtein a b =
     (let ra = runes a; rb = runes b;
          (ra, rb) = (if length ra < length rb then (rb, ra) else (ra, rb))
      in rows_from 1 ra rb [0..<length rb + 1] ! length rb)"

subsection \<open>The tree\<close>

text \<open>The children of a node with their distance to its word; a Go map is ranged over in any order,
  here in the order of the list.\<close>

datatype bk_node = Node string "(nat \<times> bk_node) list"

type_synonym bk_tree = "bk_node option"

fun insert_node :: "string \<Rightarrow> bk_node \<Rightarrow> bk_node" where
  "insert_node word (Node w children) =
     (let d = Levenshtein w word
      in if d = 0 then Node w children
         else if map_of children d = None then Node w ((d, Node word []) # children)
         else Node w (map (\<lambda>(k, child). (k, if k = d then insert_node word child else child)) children))"

definition Tree_Insert :: "string \<Rightarrow> bk_tree \<Rightarrow> bk_tree" where
  "Tree_Insert word t = (case t of None \<Rightarrow> Some (Node word []) | Some n \<Rightarrow> Some (insert_node word n))"

fun walk :: "string \<Rightarrow> int \<Rightarrow> bk_node \<Rightarrow> (string \<times> nat) list" where
  "walk query maxDistance (Node w children) =
     (let d = Levenshtein w query
      in (if int d \<le> maxDistance then [(w, d)] else []) @
         concat (map (\<lambda>(bucket, child).
           if int bucket \<ge> int d - maxDistance \<and> int bucket \<le> int d + maxDistance
           then walk query maxDistance child else []) children))"

definition Query :: "bk_tree \<Rightarrow> string \<Rightarrow> int \<Rightarrow> (string \<times> nat) list" where
  "Query t query maxDistance = (case t of None \<Rightarrow> [] | Some n \<Rightarrow> walk query maxDistance n)"

subsection \<open>Edits\<close>

text \<open>The alignments of two sequences with their number of edits.\<close>

inductive align :: "'a list \<Rightarrow> 'a list \<Rightarrow> nat \<Rightarrow> bool" where
  align_Nil: "align [] [] 0"
| align_keep: "align xs ys n \<Longrightarrow> align (x # xs) (x # ys) n"
| align_subst: "align xs ys n \<Longrightarrow> align (x # xs) (y # ys) (Suc n)"
| align_delete: "align xs ys n \<Longrightarrow> align (x # xs) ys (Suc n)"
| align_insert: "align xs ys n \<Longrightarrow> align xs (y # ys) (Suc n)"

fun edits :: "'a list \<Rightarrow> 'a list \<Rightarrow> nat" where
  "edits [] ys = length ys"
| "edits xs [] = length xs"
| "edits (x # xs) (y # ys) =
     min3 (edits (x # xs) ys + 1) (edits xs (y # ys) + 1) (edits xs ys + (if x = y then 0 else 1))"

lemma min3_le: "min3 a b c \<le> a" "min3 a b c \<le> b" "min3 a b c \<le> c"
  by (auto simp: min3_def)

lemma min3_one: "min3 a b c = a \<or> min3 a b c = b \<or> min3 a b c = c"
  by (auto simp: min3_def)

lemma edits_Nil2 [simp]: "edits xs [] = length xs"
  by (cases xs) auto

lemma align_Nil1: "align [] ys (length ys)"
  by (induction ys) (auto intro: align.intros)

lemma align_Nil2: "align xs [] (length xs)"
  by (induction xs) (auto intro: align.intros)

lemma edits_align: "align xs ys (edits xs ys)"
proof (induction xs ys rule: edits.induct)
  case (3 x xs y ys)
  show ?case
    using min3_one[of "edits (x # xs) ys + 1" "edits xs (y # ys) + 1" "edits xs ys + (if x = y then 0 else 1)"] 3
    by (auto intro: align.intros split: if_splits)
qed (auto simp: align_Nil1 align_Nil2[of "x # xs" for x xs, simplified])

lemma edits_step:
  "edits (x # xs) ys \<le> Suc (edits xs ys)" "edits xs (y # ys) \<le> Suc (edits xs ys)"
  "edits (x # xs) (y # ys) \<le> edits xs ys + (if x = y then 0 else 1)"
proof -
  show "edits (x # xs) ys \<le> Suc (edits xs ys)" by (cases ys) (simp_all add: min3_le(2)[THEN le_trans])
  show "edits xs (y # ys) \<le> Suc (edits xs ys)" by (cases xs) (simp_all add: min3_le(1)[THEN le_trans])
  show "edits (x # xs) (y # ys) \<le> edits xs ys + (if x = y then 0 else 1)"
    unfolding edits.simps by (rule min3_le(3))
qed

lemma edits_least: "align xs ys n \<Longrightarrow> edits xs ys \<le> n"
proof (induction rule: align.induct)
  case (align_keep xs ys n x)
  then show ?case using edits_step(3)[of x xs x ys] by simp
next
  case (align_subst xs ys n x y)
  then show ?case using edits_step(3)[of x xs y ys] by (simp split: if_splits)
next
  case (align_delete xs ys n x)
  then show ?case using edits_step(1)[of x xs ys] by simp
next
  case (align_insert xs ys n y)
  then show ?case using edits_step(2)[of xs y ys] by simp
qed simp

lemma align_refl: "align xs xs 0"
  by (induction xs) (auto intro: align.intros)

lemma align_sym: "align xs ys n \<Longrightarrow> align ys xs n"
  by (induction rule: align.induct) (auto intro: align.intros)

lemma align_append: "align xs ys m \<Longrightarrow> align us vs n \<Longrightarrow> align (xs @ us) (ys @ vs) (m + n)"
  by (induction rule: align.induct) (auto intro: align.intros)

lemma align_rev: "align xs ys n \<Longrightarrow> align (rev xs) (rev ys) n"
proof (induction rule: align.induct)
  case (align_keep xs ys n x)
  from align_append[OF align_keep.IH align_refl[of "[x]"]] show ?case by simp
next
  case (align_subst xs ys n x y)
  from align_append[OF align_subst.IH align.align_subst[OF align_Nil, of x y]] show ?case by simp
next
  case (align_delete xs ys n x)
  from align_append[OF align_delete.IH align.align_delete[OF align_Nil, of x]] show ?case by simp
next
  case (align_insert xs ys n y)
  from align_append[OF align_insert.IH align.align_insert[OF align_Nil, of y]] show ?case by simp
qed (simp add: align_Nil)

text \<open>What becomes of the first element.\<close>

definition first_fate :: "'a \<Rightarrow> 'a list \<Rightarrow> 'a list \<Rightarrow> nat \<Rightarrow> bool" where
  "first_fate y ys zs n \<longleftrightarrow> (\<exists>us vs k. align ys vs k \<and>
    (zs = us @ vs \<and> length us + Suc k \<le> n \<or> (\<exists>z. zs = us @ z # vs \<and> length us + k + (if y = z then 0 else 1) \<le> n)))"

lemma align_first: "align (y # ys) zs n \<Longrightarrow> first_fate y ys zs n"
proof (induction "y # ys" zs n rule: align.induct)
  case (align_keep zs n)
  show ?case unfolding first_fate_def
    by (rule exI[of _ "[]"], rule exI[of _ zs], rule exI[of _ n]) (simp add: align_keep.hyps(1))
next
  case (align_subst zs n z)
  show ?case unfolding first_fate_def
    by (rule exI[of _ "[]"], rule exI[of _ zs], rule exI[of _ n]) (simp add: align_subst.hyps(1))
next
  case (align_delete zs n)
  show ?case unfolding first_fate_def
    by (rule exI[of _ "[]"], rule exI[of _ zs], rule exI[of _ n]) (simp add: align_delete.hyps(1))
next
  case (align_insert zs n z)
  have "first_fate y ys zs n" using align_insert.hyps(2) by simp
  then obtain us vs k where k: "align ys vs k" "zs = us @ vs \<and> length us + Suc k \<le> n \<or>
      (\<exists>w. zs = us @ w # vs \<and> length us + k + (if y = w then 0 else 1) \<le> n)" unfolding first_fate_def by blast
  from k(2) have "z # zs = (z # us) @ vs \<and> length (z # us) + Suc k \<le> Suc n \<or>
      (\<exists>w. z # zs = (z # us) @ w # vs \<and> length (z # us) + k + (if y = w then 0 else 1) \<le> Suc n)" by auto
  with k(1) show ?case unfolding first_fate_def by blast
qed

lemma align_insert_many: "align xs vs k \<Longrightarrow> align xs (us @ vs) (length us + k)"
  by (induction us) (auto intro: align.intros)

lemma align_trans: "align xs ys m \<Longrightarrow> align ys zs n \<Longrightarrow> \<exists>k\<le>m + n. align xs zs k"
proof (induction arbitrary: zs n rule: align.induct)
  case align_Nil
  then show ?case by auto
next
  case (align_delete xs ys m x)
  then obtain k where "k \<le> m + n" "align xs zs k" by blast
  then show ?case by (intro exI[of _ "Suc k"]) (simp add: align.align_delete)
next
  case (align_insert xs ys m y)
  from align_first[OF align_insert.prems] obtain us vs j where j: "align ys vs j"
    "zs = us @ vs \<and> length us + Suc j \<le> n \<or> (\<exists>z. zs = us @ z # vs \<and> length us + j + (if y = z then 0 else 1) \<le> n)"
    unfolding first_fate_def by blast
  obtain k where k: "k \<le> m + j" "align xs vs k" using align_insert.IH[OF j(1)] by blast
  from j(2) show ?case
  proof (elim disjE exE conjE)
    assume "zs = us @ vs" "length us + Suc j \<le> n"
    then show ?thesis using k align_insert_many[OF k(2), of us] by (intro exI[of _ "length us + k"]) simp
  next
    fix z assume z: "zs = us @ z # vs" "length us + j + (if y = z then 0 else 1) \<le> n"
    then show ?thesis using k align_insert_many[OF k(2), of "us @ [z]"]
      by (intro exI[of _ "length us + Suc k"]) (auto split: if_splits)
  qed
next
  case (align_keep xs ys m x)
  from align_first[OF align_keep.prems] obtain us vs j where j: "align ys vs j"
    "zs = us @ vs \<and> length us + Suc j \<le> n \<or> (\<exists>z. zs = us @ z # vs \<and> length us + j + (if x = z then 0 else 1) \<le> n)"
    unfolding first_fate_def by blast
  obtain k where k: "k \<le> m + j" "align xs vs k" using align_keep.IH[OF j(1)] by blast
  from j(2) show ?case
  proof (elim disjE exE conjE)
    assume "zs = us @ vs" "length us + Suc j \<le> n"
    then show ?thesis using k align_insert_many[OF align.align_delete[OF k(2), of x], of us]
      by (intro exI[of _ "length us + Suc k"]) simp
  next
    fix z assume z: "zs = us @ z # vs" "length us + j + (if x = z then 0 else 1) \<le> n"
    have "align (x # xs) (z # vs) (k + (if x = z then 0 else 1))" using k(2) by (auto intro: align.intros)
    from align_insert_many[OF this, of us] show ?thesis using z k
      by (intro exI[of _ "length us + (k + (if x = z then 0 else 1))"]) (auto split: if_splits)
  qed
next
  case (align_subst xs ys m x y)
  from align_first[OF align_subst.prems] obtain us vs j where j: "align ys vs j"
    "zs = us @ vs \<and> length us + Suc j \<le> n \<or> (\<exists>z. zs = us @ z # vs \<and> length us + j + (if y = z then 0 else 1) \<le> n)"
    unfolding first_fate_def by blast
  obtain k where k: "k \<le> m + j" "align xs vs k" using align_subst.IH[OF j(1)] by blast
  from j(2) show ?case
  proof (elim disjE exE conjE)
    assume "zs = us @ vs" "length us + Suc j \<le> n"
    then show ?thesis using k align_insert_many[OF align.align_delete[OF k(2), of x], of us]
      by (intro exI[of _ "length us + Suc k"]) simp
  next
    fix z assume z: "zs = us @ z # vs" "length us + j + (if y = z then 0 else 1) \<le> n"
    from align_insert_many[OF align.align_subst[OF k(2), of x z], of us] show ?thesis using z k
      by (intro exI[of _ "length us + Suc k"]) (auto split: if_splits)
  qed
qed

lemma edits_triangle: "edits xs zs \<le> edits xs ys + edits ys zs"
  using align_trans[OF edits_align edits_align, of xs ys zs] edits_least le_trans by blast

lemma edits_sym: "edits xs ys = edits ys xs"
  using edits_least[OF align_sym[OF edits_align[of xs ys]]] edits_least[OF align_sym[OF edits_align[of ys xs]]] by simp

lemma edits_rev: "edits (rev xs) (rev ys) = edits xs ys"
  using edits_least[OF align_rev[OF edits_align], of "rev xs" "rev ys"] edits_least[OF align_rev[OF edits_align], of xs ys]
  by simp

lemma align_zero: "align xs ys n \<Longrightarrow> n = 0 \<Longrightarrow> xs = ys"
  by (induction rule: align.induct) auto

lemma edits_zero: "edits xs ys = 0 \<longleftrightarrow> xs = ys"
proof
  show "edits xs ys = 0 \<Longrightarrow> xs = ys" using edits_align[of xs ys] align_zero by metis
  show "xs = ys \<Longrightarrow> edits xs ys = 0" using edits_least[OF align_refl, of xs] by simp
qed

subsection \<open>The rows\<close>

text \<open>The row of \<open>us\<close> holds its distance to every prefix of the other side, from \<open>as\<close> on.\<close>

fun dist_row :: "nat list \<Rightarrow> nat list \<Rightarrow> nat list \<Rightarrow> nat list" where
  "dist_row us as [] = [edits us as]"
| "dist_row us as (b # bs) = edits us as # dist_row us (as @ [b]) bs"

lemma dist_row_head: "dist_row us as bs = edits us as # tl (dist_row us as bs)"
  by (cases bs) simp_all

lemma dist_row_last: "dist_row us as bs ! length bs = edits us (as @ bs)"
  by (induction bs arbitrary: as) simp_all

lemma dist_row_first: "dist_row [] as bs = [length as..<length as + length bs + 1]"
proof (induction bs arbitrary: as)
  case (Cons b bs)
  have "[length as..<length as + length (b # bs) + 1] = length as # [Suc (length as)..<length as + length (b # bs) + 1]"
    by (simp add: upt_conv_Cons del: upt_Suc)
  then show ?case using Cons by (simp del: upt_Suc)
qed simp

lemma edits_snoc:
  "edits (xs @ [x]) (ys @ [y]) = min3 (edits (xs @ [x]) ys + 1) (edits xs (ys @ [y]) + 1) (edits xs ys + (if x = y then 0 else 1))"
proof -
  have "edits (x # rev xs) (y # rev ys) = min3 (edits (x # rev xs) (rev ys) + 1) (edits (rev xs) (y # rev ys) + 1)
      (edits (rev xs) (rev ys) + (if x = y then 0 else 1))" by (rule edits.simps(3))
  then show ?thesis
    using edits_rev[of "xs @ [x]" "ys @ [y]"] edits_rev[of "xs @ [x]" ys] edits_rev[of xs "ys @ [y]"] edits_rev[of xs ys]
    by (simp only: rev_append rev.simps append.simps)
qed

lemma row_from_dist: "row_from r bs (edits (us @ [r]) as) (dist_row us as bs) = tl (dist_row (us @ [r]) as bs)"
proof (induction bs arbitrary: as)
  case (Cons b bs)
  let ?v = "edits (us @ [r]) (as @ [b])"
  have "dist_row us as (b # bs) = edits us as # edits us (as @ [b]) # tl (dist_row us (as @ [b]) bs)"
    using dist_row_head[of us "as @ [b]" bs] by simp
  then have "row_from r (b # bs) (edits (us @ [r]) as) (dist_row us as (b # bs)) =
      ?v # row_from r bs ?v (edits us (as @ [b]) # tl (dist_row us (as @ [b]) bs))"
    using edits_snoc[of us r as b] by (simp only: row_from.simps Let_def)
  also have "edits us (as @ [b]) # tl (dist_row us (as @ [b]) bs) = dist_row us (as @ [b]) bs"
    by (rule dist_row_head[symmetric])
  finally show ?case using Cons.IH[of "as @ [b]"] dist_row_head[of "us @ [r]" "as @ [b]" bs] by simp
qed simp

lemma rows_from_dist: "rows_from (Suc (length us)) ra rb (dist_row us [] rb) = dist_row (us @ ra) [] rb"
proof (induction ra arbitrary: us)
  case (Cons r ra)
  have "Suc (length us) # row_from r rb (Suc (length us)) (dist_row us [] rb) = dist_row (us @ [r]) [] rb"
    using row_from_dist[of r rb us "[]"] dist_row_head[of "us @ [r]" "[]" rb] by simp
  then show ?case using Cons.IH[of "us @ [r]"] by simp
qed simp

lemma Levenshtein_edits: "Levenshtein a b = edits (runes a) (runes b)"
proof -
  have "rows_from 1 ra rb [0..<length rb + 1] ! length rb = edits ra rb" for ra rb :: "nat list"
    using rows_from_dist[of "[]" ra rb] dist_row_first[of "[]" rb] dist_row_last[of ra "[]" rb] by simp
  then show ?thesis using edits_sym[of "runes a" "runes b"] by (simp add: Levenshtein_def Let_def)
qed

subsection \<open>Searching a metric\<close>

text \<open>What pruning by distance needs of a distance; two words may be at distance zero.\<close>

locale distance =
  fixes dist :: "'a \<Rightarrow> 'a \<Rightarrow> nat"
  assumes dist_self: "dist x x = 0"
    and dist_sym: "dist x y = dist y x"
    and dist_triangle: "dist x z \<le> dist x y + dist y z"
begin

lemma bucket_bounds:
  assumes "int (dist u q) \<le> m"
  shows "int (dist w u) \<ge> int (dist w q) - m" and "int (dist w u) \<le> int (dist w q) + m"
  using assms dist_triangle[of w q u] dist_triangle[of w u q] dist_sym[of u q] by linarith+

lemma dist_zero_same: "dist x y = 0 \<Longrightarrow> dist x q = dist y q"
  using dist_triangle[of x q y] dist_triangle[of y q x] dist_sym[of x y] by simp

end

interpretation title: distance Levenshtein
proof
  show "Levenshtein x x = 0" for x by (simp add: Levenshtein_edits edits_zero)
  show "Levenshtein x y = Levenshtein y x" for x y by (simp add: Levenshtein_edits edits_sym)
  show "Levenshtein x z \<le> Levenshtein x y + Levenshtein y z" for x y z
    by (simp add: Levenshtein_edits edits_triangle)
qed

fun words :: "bk_node \<Rightarrow> string list" where
  "words (Node w children) = w # concat (map (\<lambda>(k, child). words child) children)"

definition tree_words :: "bk_tree \<Rightarrow> string list" where
  "tree_words t = (case t of None \<Rightarrow> [] | Some n \<Rightarrow> words n)"

text \<open>Every word below a bucket is at that distance of the word above it; the buckets differ.\<close>

fun bk_ok :: "bk_node \<Rightarrow> bool" where
  "bk_ok (Node w children) \<longleftrightarrow> distinct (map fst children) \<and>
     (\<forall>(k, child)\<in>set children. 0 < k \<and> (\<forall>u\<in>set (words child). Levenshtein w u = k) \<and> bk_ok child)"

lemma words_Node [simp]: "set (words (Node w children)) = insert w (\<Union>x\<in>set children. set (words (snd x)))"
  by auto

declare words.simps [simp del]

text \<open>The three ways an insertion goes.\<close>

lemma insert_node_cases:
  assumes "\<And>w children. n = Node w children \<Longrightarrow> Levenshtein w word = 0 \<Longrightarrow> P (Node w children)"
    and "\<And>w children. n = Node w children \<Longrightarrow> Levenshtein w word \<noteq> 0 \<Longrightarrow> Levenshtein w word \<notin> fst ` set children \<Longrightarrow>
      P (Node w ((Levenshtein w word, Node word []) # children))"
    and "\<And>w children f. n = Node w children \<Longrightarrow> Levenshtein w word \<noteq> 0 \<Longrightarrow> Levenshtein w word \<in> fst ` set children \<Longrightarrow>
      f = (\<lambda>(k, child). (k, if k = Levenshtein w word then insert_node word child else child)) \<Longrightarrow> P (Node w (map f children))"
  shows "P (insert_node word n)"
proof (cases n)
  case (Node w children)
  have none: "map_of children d = None \<longleftrightarrow> d \<notin> fst ` set children" for d by (rule map_of_eq_None_iff)
  show ?thesis using assms[OF Node] unfolding Node by (auto simp: Let_def none)
qed

lemma words_insert: "set (words n) \<subseteq> set (words (insert_node word n))"
  "set (words (insert_node word n)) \<subseteq> insert word (set (words n))"
  "\<exists>u\<in>set (words (insert_node word n)). Levenshtein u word = 0"
proof (induction n)
  case (Node w children)
  let ?d = "Levenshtein w word" and ?n = "Node w children"
  {
    case 1
    show ?case
    proof (rule insert_node_cases[of ?n])
      fix w' children' f
      assume n: "?n = Node w' children'" and f: "f = (\<lambda>(k, child). (k, if k = Levenshtein w' word then insert_node word child else child))"
      have "set (words (snd x)) \<subseteq> set (words (snd (f x)))" if "x \<in> set children" for x
        using Node(1)[of x "snd x"] that f by (cases x) (simp add: snds.simps)
      then show "set (words ?n) \<subseteq> set (words (Node w' (map f children')))" using n by auto
    qed auto
  next
    case 2
    show ?case
    proof (rule insert_node_cases[of ?n])
      fix w' children' f
      assume n: "?n = Node w' children'" and f: "f = (\<lambda>(k, child). (k, if k = Levenshtein w' word then insert_node word child else child))"
      have "set (words (snd (f x))) \<subseteq> insert word (set (words (snd x)))" if "x \<in> set children" for x
        using Node(2)[of x "snd x"] that f by (cases x) (auto simp: snds.simps)
      then show "set (words (Node w' (map f children'))) \<subseteq> insert word (set (words ?n))" using n by fastforce
    qed auto
  next
    case 3
    show ?case
    proof (rule insert_node_cases[of ?n])
      fix w' children' f
      assume n: "?n = Node w' children'" and d: "Levenshtein w' word \<in> fst ` set children'"
        and f: "f = (\<lambda>(k, child). (k, if k = Levenshtein w' word then insert_node word child else child))"
      from d obtain c where c: "(Levenshtein w' word, c) \<in> set children'" by force
      then obtain u where "u \<in> set (words (insert_node word c))" "Levenshtein u word = 0"
        using Node(3)[of "(Levenshtein w' word, c)" c] n by (auto simp: snds.simps)
      then show "\<exists>u\<in>set (words (Node w' (map f children'))). Levenshtein u word = 0"
        using c f by (intro bexI[of _ u]) force+
    qed (auto simp: title.dist_self)
  }
qed

lemma bk_okD:
  "bk_ok (Node w children) \<Longrightarrow> (k, c) \<in> set children \<Longrightarrow> 0 < k \<and> (\<forall>u\<in>set (words c). Levenshtein w u = k) \<and> bk_ok c"
  by auto

lemma bk_okI:
  "distinct (map fst children) \<Longrightarrow>
    (\<And>k c. (k, c) \<in> set children \<Longrightarrow> 0 < k \<and> (\<forall>u\<in>set (words c). Levenshtein w u = k) \<and> bk_ok c) \<Longrightarrow>
    bk_ok (Node w children)"
  by auto

lemma bk_ok_keys: "bk_ok (Node w children) \<Longrightarrow> distinct (map fst children)"
  by simp

lemma bk_ok_insert: "bk_ok n \<Longrightarrow> bk_ok (insert_node word n)"
proof (induction n)
  case (Node w children)
  show ?case
  proof (rule insert_node_cases[of "Node w children"])
    fix w' children' assume n: "Node w children = Node w' children'" "Levenshtein w' word \<noteq> 0"
      "Levenshtein w' word \<notin> fst ` set children'"
    then show "bk_ok (Node w' ((Levenshtein w' word, Node word []) # children'))" using Node.prems by simp
  next
    fix w' children' f assume n: "Node w children = Node w' children'" and d: "Levenshtein w' word \<noteq> 0"
      and f: "f = (\<lambda>(k, child). (k, if k = Levenshtein w' word then insert_node word child else child))"
    have "fst (f x) = fst x" for x using f by (cases x) simp
    then have keys: "map fst (map f children') = map fst children'" by simp
    have sub: "0 < k \<and> (\<forall>u\<in>set (words c). Levenshtein w' u = k) \<and> bk_ok c" if kc: "(k, c) \<in> set (map f children')" for k c
    proof -
      obtain c0 where c0: "(k, c0) \<in> set children'" "c = (if k = Levenshtein w' word then insert_node word c0 else c0)"
        using kc f by auto
      have ok: "0 < k" "\<forall>u\<in>set (words c0). Levenshtein w' u = k" "bk_ok c0" using Node.prems n c0(1) by auto
      have "bk_ok (insert_node word c0)" using Node.IH[of "(k, c0)" c0] c0(1) n ok(3) by (auto simp: snds.simps)
      then show ?thesis using ok c0(2) words_insert(2)[of word c0] by auto
    qed
    have "distinct (map fst (map f children'))" unfolding keys using bk_ok_keys[OF Node.prems] n by simp
    then show "bk_ok (Node w' (map f children'))" using sub by (rule bk_okI)
  qed (use Node.prems in simp)
qed

lemma walk_words:
  "bk_ok n \<Longrightarrow> set (walk q m n) = {(u, Levenshtein u q) |u. u \<in> set (words n) \<and> int (Levenshtein u q) \<le> m}"
proof (induction n)
  case (Node w children)
  let ?hits = "\<lambda>c. {(u, Levenshtein u q) |u. u \<in> set (words c) \<and> int (Levenshtein u q) \<le> m}"
  let ?open = "\<lambda>k. int k \<ge> int (Levenshtein w q) - m \<and> int k \<le> int (Levenshtein w q) + m"
  have "set (if ?open k then walk q m c else []) = ?hits c" if kc: "(k, c) \<in> set children" for k c
  proof (cases "?open k")
    case True
    then show ?thesis using Node.IH[of "(k, c)" c] kc Node.prems by (auto simp: snds.simps)
  next
    case False
    have "\<not> int (Levenshtein u q) \<le> m" if "u \<in> set (words c)" for u
    proof
      assume "int (Levenshtein u q) \<le> m"
      moreover have "Levenshtein w u = k" using Node.prems kc that by auto
      ultimately show False using title.bucket_bounds[of u q m w] False by simp
    qed
    then show ?thesis using False by auto
  qed
  then have "(\<Union>x\<in>set children. set (if ?open (fst x) then walk q m (snd x) else [])) = (\<Union>x\<in>set children. ?hits (snd x))"
    by (intro SUP_cong) auto
  then show ?case by (auto simp: Let_def case_prod_beta)
qed

lemma distinct_words: "bk_ok n \<Longrightarrow> distinct (words n)"
proof (induction n)
  case (Node w children)
  have "distinct (concat (map (\<lambda>(k, c). words c) cs))" if "set cs \<subseteq> set children" "distinct (map fst cs)" for cs
    using that
  proof (induction cs)
    case (Cons x cs)
    obtain k c where x: "x = (k, c)" by (cases x)
    have "distinct (words c)" using Node.IH[of "(k, c)" c] Node.prems Cons.prems(1) x by (auto simp: snds.simps)
    moreover have "u \<notin> set (words c')" if u: "u \<in> set (words c)" "(k', c') \<in> set cs" for u k' c'
    proof
      assume "u \<in> set (words c')"
      moreover have "(k, c) \<in> set children" "(k', c') \<in> set children" using Cons.prems(1) x u(2) by auto
      ultimately have "Levenshtein w u = k" "Levenshtein w u = k'" using bk_okD[OF Node.prems] u(1) by blast+
      then have "k = k'" by simp
      then show False using Cons.prems(2) x u(2) by force
    qed
    ultimately show ?case using Cons x by fastforce
  qed simp
  from this[of children] Node.prems have "distinct (concat (map (\<lambda>(k, c). words c) children))" by simp
  moreover have "w \<notin> set (words c)" if "(k, c) \<in> set children" for k c
    using Node.prems that title.dist_self[of w] by fastforce
  ultimately show ?case by (auto simp: words.simps)
qed

definition bk_tree_ok :: "bk_tree \<Rightarrow> bool" where
  "bk_tree_ok t \<longleftrightarrow> (case t of None \<Rightarrow> True | Some n \<Rightarrow> bk_ok n)"

lemma Tree_Insert_facts:
  assumes "bk_tree_ok t"
  shows "bk_tree_ok (Tree_Insert word t)" and "set (tree_words t) \<subseteq> set (tree_words (Tree_Insert word t))"
    and "set (tree_words (Tree_Insert word t)) \<subseteq> insert word (set (tree_words t))"
    and "\<exists>u\<in>set (tree_words (Tree_Insert word t)). Levenshtein u word = 0"
  using assms words_insert bk_ok_insert[of _ word]
  by (cases t; auto simp: Tree_Insert_def bk_tree_ok_def tree_words_def title.dist_self; blast)+

lemma built_facts:
  "bk_tree_ok (fold Tree_Insert ws None) \<and> set (tree_words (fold Tree_Insert ws None)) \<subseteq> set ws \<and>
    (\<forall>w\<in>set ws. \<exists>u\<in>set (tree_words (fold Tree_Insert ws None)). Levenshtein u w = 0)"
proof (induction ws rule: rev_induct)
  case Nil
  then show ?case by (simp add: bk_tree_ok_def tree_words_def)
next
  case (snoc w ws)
  let ?t = "fold Tree_Insert ws None"
  have "bk_tree_ok ?t" using snoc by simp
  note f = Tree_Insert_facts[OF this, of w]
  show ?case using f snoc by (simp, blast)
qed

text \<open>For titles inserted in any order, a query answers with exactly the stored titles within the
  distance asked for, each once and with its distance to the query, although it skips subtrees; and
  every title inserted is stored, or one with the same characters is.\<close>

theorem Query_exact:
  "set (Query (fold Tree_Insert ws None) q m) =
     {(u, Levenshtein u q) |u. u \<in> set (tree_words (fold Tree_Insert ws None)) \<and> int (Levenshtein u q) \<le> m} \<and>
   set (tree_words (fold Tree_Insert ws None)) \<subseteq> set ws \<and> distinct (tree_words (fold Tree_Insert ws None)) \<and>
   runes ` set (tree_words (fold Tree_Insert ws None)) = runes ` set ws"
proof -
  let ?t = "fold Tree_Insert ws None"
  have "set (Query ?t q m) = {(u, Levenshtein u q) |u. u \<in> set (tree_words ?t) \<and> int (Levenshtein u q) \<le> m} \<and>
    set (tree_words ?t) \<subseteq> set ws \<and> distinct (tree_words ?t) \<and> (\<forall>w\<in>set ws. \<exists>u\<in>set (tree_words ?t). runes u = runes w)"
    using built_facts[of ws] walk_words distinct_words
    by (cases ?t) (auto simp: bk_tree_ok_def Query_def tree_words_def Levenshtein_edits edits_zero)
  moreover from this have "runes ` set (tree_words ?t) = runes ` set ws" by (auto simp: image_iff) metis
  ultimately show ?thesis by blast
qed

text \<open>The distance is the least number of edits, over all ways to align the characters of the
  two titles with keeping, replacing, deleting and inserting.\<close>

theorem Levenshtein_least:
  "Levenshtein a b \<in> {n. align (runes a) (runes b) n} \<and> {n. align (runes a) (runes b) n} \<subseteq> {Levenshtein a b ..}"
  using edits_align[of "runes a" "runes b"] edits_least[of "runes a" "runes b"] by (auto simp: Levenshtein_edits)

end
