(* ===== verification/TextDiff.thy ===== *)
theory TextDiff
  imports Prelude "HOL-Library.Sublist"
begin

text \<open>
  The diff of services/textdiff (textdiff.go): the table of longest common subsequences, the walk back
  through it, and what the edit script it yields promises.
\<close>

subsection \<open>The code\<close>

text \<open>The inner loop from column \<open>j\<close> on, for row \<open>i\<close>: \<open>left\<close> is \<open>table[i][j-1]\<close>, and the row above is
  given from \<open>table[i-1][j-1]\<close> on.\<close>

fun lcs_cells :: "string \<Rightarrow> string list \<Rightarrow> nat \<Rightarrow> nat list \<Rightarrow> nat list" where
  "lcs_cells x (y # b) left (diag # up # upper) =
     (let v = (if x = y then diag + 1 else if up \<ge> left then up else left) in v # lcs_cells x b v (up # upper))"
| "lcs_cells x b left upper = []"

fun lcs_rows :: "string list \<Rightarrow> string list \<Rightarrow> nat list \<Rightarrow> nat list list" where
  "lcs_rows [] b upper = []"
| "lcs_rows (x # a) b upper = (let row = 0 # lcs_cells x b 0 upper in row # lcs_rows a b row)"

definition LCSTable :: "string list \<Rightarrow> string list \<Rightarrow> nat list list" where
  "LCSTable a b = (let first = replicate (length b + 1) 0 in first # lcs_rows a b first)"

datatype diff_kind = Equal | Delete | Insert

record DiffOp =
  op_Kind :: diff_kind
  op_Token :: string

text \<open>\<open>None\<close> for an index outside the table, which panics.\<close>

definition cell :: "nat list list \<Rightarrow> nat \<Rightarrow> nat \<Rightarrow> nat option" where
  "cell table i j = (if i < length table \<and> j < length (table ! i) then Some (table ! i ! j) else None)"

text \<open>Whether the walk goes up; the cells are read only when both indices are positive.\<close>

definition goes_up :: "nat list list \<Rightarrow> nat \<Rightarrow> nat \<Rightarrow> bool option" where
  "goes_up table i j =
     (if i = 0 then Some False
      else if j = 0 then Some True
      else (case (cell table (i - 1) j, cell table i (j - 1)) of
              (Some up, Some left) \<Rightarrow> Some (up > left)
            | _ \<Rightarrow> None))"

function trace_back :: "nat list list \<Rightarrow> string list \<Rightarrow> string list \<Rightarrow> nat \<Rightarrow> nat \<Rightarrow> DiffOp list \<Rightarrow> (nat \<times> nat) list
    \<Rightarrow> (DiffOp list \<times> (nat \<times> nat) list) option" where
  "trace_back table a b i j reversed path =
     (if i = 0 \<and> j = 0 then Some (rev reversed, path @ [(0, 0)])
      else if i > 0 \<and> j > 0 \<and> a ! (i - 1) = b ! (j - 1)
        then trace_back table a b (i - 1) (j - 1) (reversed @ [\<lparr>op_Kind = Equal, op_Token = a ! (i - 1)\<rparr>]) (path @ [(i, j)])
      else (case goes_up table i j of
              None \<Rightarrow> None
            | Some True \<Rightarrow>
                if i = 0 then None
                else trace_back table a b (i - 1) j (reversed @ [\<lparr>op_Kind = Delete, op_Token = a ! (i - 1)\<rparr>]) (path @ [(i, j)])
            | Some False \<Rightarrow>
                if j = 0 then None
                else trace_back table a b i (j - 1) (reversed @ [\<lparr>op_Kind = Insert, op_Token = b ! (j - 1)\<rparr>]) (path @ [(i, j)])))"
  by pat_completeness auto
termination by (relation "measure (\<lambda>(table, a, b, i, j, reversed, path). i + j)") auto

declare trace_back.simps [simp del]

definition TracebackWithPath :: "nat list list \<Rightarrow> string list \<Rightarrow> string list \<Rightarrow> (DiffOp list \<times> (nat \<times> nat) list) option" where
  "TracebackWithPath table a b = trace_back table a b (length a) (length b) [] []"

definition Traceback :: "nat list list \<Rightarrow> string list \<Rightarrow> string list \<Rightarrow> DiffOp list option" where
  "Traceback table a b = map_option fst (TracebackWithPath table a b)"

definition Diff :: "string list \<Rightarrow> string list \<Rightarrow> DiffOp list option" where
  "Diff a b = Traceback (LCSTable a b) a b"

subsection \<open>The table\<close>

text \<open>The length of the longest common subsequence of two prefixes.\<close>

fun lcs :: "string list \<Rightarrow> string list \<Rightarrow> nat \<Rightarrow> nat \<Rightarrow> nat" where
  "lcs a b 0 j = 0"
| "lcs a b (Suc i) 0 = 0"
| "lcs a b (Suc i) (Suc j) = (if a ! i = b ! j then lcs a b i j + 1 else max (lcs a b i (Suc j)) (lcs a b (Suc i) j))"

lemma lcs_col0 [simp]: "lcs a b i 0 = 0"
  by (cases i) auto

lemma cells_lcs:
  assumes "i < length a"
  shows "k \<le> length b \<Longrightarrow>
    lcs_cells (a ! i) (drop k b) (lcs a b (Suc i) k) (map (lcs a b i) [k..<Suc (length b)]) = map (lcs a b (Suc i)) [Suc k..<Suc (length b)]"
proof (induction "length b - k" arbitrary: k)
  case 0
  then show ?case by simp
next
  case (Suc n)
  then have k: "k < length b" by simp
  then have d: "drop k b = b ! k # drop (Suc k) b" by (simp add: Cons_nth_drop_Suc)
  have upper: "map (lcs a b i) [k..<Suc (length b)] = lcs a b i k # lcs a b i (Suc k) # map (lcs a b i) [Suc (Suc k)..<Suc (length b)]"
    "map (lcs a b i) [Suc k..<Suc (length b)] = lcs a b i (Suc k) # map (lcs a b i) [Suc (Suc k)..<Suc (length b)]"
    "map (lcs a b (Suc i)) [Suc k..<Suc (length b)] = lcs a b (Suc i) (Suc k) # map (lcs a b (Suc i)) [Suc (Suc k)..<Suc (length b)]"
    using k by (simp_all add: upt_conv_Cons del: upt_Suc)
  have v: "(if a ! i = b ! k then lcs a b i k + 1
      else if lcs a b i (Suc k) \<ge> lcs a b (Suc i) k then lcs a b i (Suc k) else lcs a b (Suc i) k) = lcs a b (Suc i) (Suc k)"
    by simp
  have "n = length b - Suc k" using Suc.hyps(2) by simp
  from Suc.hyps(1)[OF this] k have "lcs_cells (a ! i) (drop (Suc k) b) (lcs a b (Suc i) (Suc k)) (map (lcs a b i) [Suc k..<Suc (length b)]) =
      map (lcs a b (Suc i)) [Suc (Suc k)..<Suc (length b)]" by simp
  then show ?case unfolding d upper(1,3) lcs_cells.simps Let_def v by (simp only: upper(2))
qed

lemma rows_lcs:
  assumes "k \<le> length a"
  shows "lcs_rows (drop k a) b (map (lcs a b k) [0..<Suc (length b)]) = map (\<lambda>i. map (lcs a b i) [0..<Suc (length b)]) [Suc k..<Suc (length a)]"
  using assms
proof (induction "length a - k" arbitrary: k)
  case (Suc n)
  then have k: "k < length a" by simp
  then have d: "drop k a = a ! k # drop (Suc k) a" by (simp add: Cons_nth_drop_Suc)
  have row: "0 # lcs_cells (a ! k) b 0 (map (lcs a b k) [0..<Suc (length b)]) = map (lcs a b (Suc k)) [0..<Suc (length b)]"
    using cells_lcs[OF k, of 0 b] by (simp add: upt_conv_Cons del: upt_Suc)
  have "n = length a - Suc k" using Suc.hyps(2) by simp
  from Suc.hyps(1)[OF this] k show ?case
    unfolding d lcs_rows.simps Let_def row by (simp add: upt_conv_Cons del: upt_Suc)
qed simp

lemma LCSTable_lcs: "LCSTable a b = map (\<lambda>i. map (lcs a b i) [0..<Suc (length b)]) [0..<Suc (length a)]"
proof -
  have "replicate (length b + 1) 0 = map (lcs a b 0) [0..<Suc (length b)]" by (rule nth_equalityI) (auto simp del: upt_Suc replicate_Suc)
  then show ?thesis using rows_lcs[of 0 a b] by (simp add: LCSTable_def Let_def upt_conv_Cons del: upt_Suc)
qed

lemma cell_lcs: "i \<le> length a \<Longrightarrow> j \<le> length b \<Longrightarrow> cell (LCSTable a b) i j = Some (lcs a b i j)"
  by (simp add: cell_def LCSTable_lcs del: upt_Suc)

lemma lcs_step:
  "lcs a b i j \<le> lcs a b (Suc i) j \<and> lcs a b i j \<le> lcs a b i (Suc j) \<and>
   lcs a b (Suc i) j \<le> Suc (lcs a b i j) \<and> lcs a b i (Suc j) \<le> Suc (lcs a b i j)"
proof (induction "i + j" arbitrary: i j rule: less_induct)
  case less
  show ?case
  proof (cases i)
    case 0
    then show ?thesis by (induction j) (use less in \<open>auto simp: max_def\<close>)
  next
    case (Suc i')
    show ?thesis
    proof (cases j)
      case 0
      then show ?thesis using less[of i' 0] Suc by (simp add: max_def)
    next
      case (Suc j')
      with \<open>i = Suc i'\<close> have ih: "lcs a b i' j \<le> lcs a b i j" "lcs a b i' (Suc j) \<le> Suc (lcs a b i' j)"
          "lcs a b i' j \<le> lcs a b i' (Suc j)"
          "lcs a b i j' \<le> lcs a b i j" "lcs a b (Suc i) j' \<le> Suc (lcs a b i j')" "lcs a b i j' \<le> lcs a b (Suc i) j'"
        "lcs a b i j \<le> Suc (lcs a b i j')" "lcs a b i j \<le> Suc (lcs a b i' j)"
        using less[of i' j] less[of i j'] by auto
      have "lcs a b (Suc i) j = (if a ! i = b ! j' then lcs a b i j' + 1 else max (lcs a b i j) (lcs a b (Suc i) j'))"
        "lcs a b i (Suc j) = (if a ! i' = b ! j then lcs a b i' j + 1 else max (lcs a b i' (Suc j)) (lcs a b i j))"
        using \<open>i = Suc i'\<close> Suc by simp_all
      with ih show ?thesis by (auto simp: max_def)
    qed
  qed
qed

lemma subseq_snoc: "subseq xs (ys @ [y]) \<Longrightarrow> subseq xs ys \<or> (\<exists>zs. xs = zs @ [y] \<and> subseq zs ys)"
proof -
  assume "subseq xs (ys @ [y])"
  then obtain us vs where u: "xs = us @ vs" "subseq us ys" "subseq vs [y]" by (auto simp: subseq_append_iff)
  from u(3) have "vs = [] \<or> vs = [y]" by (cases vs) (auto split: if_splits)
  with u show ?thesis by auto
qed

lemma lcs_greatest:
  assumes "subseq xs (take i a)" "subseq xs (take j b)" "i \<le> length a" "j \<le> length b"
  shows "length xs \<le> lcs a b i j"
  using assms
proof (induction a b i j arbitrary: xs rule: lcs.induct[case_names up left both])
  case (both a b i j)
  have t: "take (Suc i) a = take i a @ [a ! i]" "take (Suc j) b = take j b @ [b ! j]"
    using both.prems by (simp_all add: take_Suc_conv_app_nth)
  note u = subseq_snoc[OF both.prems(1)[unfolded t]] and v = subseq_snoc[OF both.prems(2)[unfolded t]]
  show ?case
  proof (cases "a ! i = b ! j")
    case True
    have "\<exists>zs. length xs \<le> Suc (length zs) \<and> subseq zs (take i a) \<and> subseq zs (take j b)"
    proof (cases xs rule: rev_cases)
      case (snoc ys y)
      have "subseq ys xs" by (simp add: snoc list_emb_prefix)
      with u v snoc show ?thesis by (intro exI[of _ ys]) (auto intro: subseq_order.order_trans)
    qed (use u v in auto)
    then obtain zs where "length xs \<le> Suc (length zs)" "subseq zs (take i a)" "subseq zs (take j b)" by blast
    with both.IH(1)[OF True, of zs] both.prems True show ?thesis by simp
  next
    case False
    have "subseq xs (take i a) \<or> subseq xs (take j b)" using u v False by auto
    then have "length xs \<le> lcs a b i (Suc j) \<or> length xs \<le> lcs a b (Suc i) j"
      using both.IH(2)[OF False, of xs] both.IH(3)[OF False, of xs] both.prems by auto
    with False show ?thesis by auto
  qed
qed simp_all

subsection \<open>The edit script\<close>

text \<open>What a script says of the two texts, and how many tokens it keeps.\<close>

definition old_tokens :: "DiffOp list \<Rightarrow> string list" where
  "old_tokens ops = map op_Token (filter (\<lambda>p. op_Kind p \<noteq> Insert) ops)"

definition new_tokens :: "DiffOp list \<Rightarrow> string list" where
  "new_tokens ops = map op_Token (filter (\<lambda>p. op_Kind p \<noteq> Delete) ops)"

definition kept :: "DiffOp list \<Rightarrow> nat" where
  "kept ops = length (filter (\<lambda>p. op_Kind p = Equal) ops)"

text \<open>No deletion right after an insertion.\<close>

fun deletes_first :: "DiffOp list \<Rightarrow> bool" where
  "deletes_first (p # q # ops) = (\<not> (op_Kind p = Insert \<and> op_Kind q = Delete) \<and> deletes_first (q # ops))"
| "deletes_first ops = True"

lemma deletes_first_snoc:
  "deletes_first (ops @ [q]) = (deletes_first ops \<and> (ops = [] \<or> \<not> (op_Kind (last ops) = Insert \<and> op_Kind q = Delete)))"
  by (induction ops rule: deletes_first.induct) auto

lemma goes_up_lcs:
  assumes "i \<le> length a" "j \<le> length b" "i \<noteq> 0 \<or> j \<noteq> 0"
  shows "goes_up (LCSTable a b) i j = Some (i \<noteq> 0 \<and> (j = 0 \<or> lcs a b (i - 1) j > lcs a b i (j - 1)))"
  using assms by (simp add: goes_up_def cell_lcs)

text \<open>The walk from a cell yields the script between the two prefixes.\<close>

definition script :: "string list \<Rightarrow> string list \<Rightarrow> nat \<Rightarrow> nat \<Rightarrow> DiffOp list \<Rightarrow> bool" where
  "script a b i j ops \<longleftrightarrow> old_tokens ops = take i a \<and> new_tokens ops = take j b \<and> kept ops = lcs a b i j \<and> deletes_first ops \<and>
     (ops \<noteq> [] \<and> op_Kind (last ops) = Insert \<longrightarrow> 0 < j \<and> lcs a b i j = lcs a b i (j - 1))"

lemma script_equal:
  assumes "script a b i j ops" "i < length a" "j < length b" "a ! i = b ! j"
  shows "script a b (Suc i) (Suc j) (ops @ [\<lparr>op_Kind = Equal, op_Token = a ! i\<rparr>])"
  using assms by (auto simp: script_def old_tokens_def new_tokens_def kept_def deletes_first_snoc take_Suc_conv_app_nth)

lemma script_delete:
  assumes "script a b i j ops" "i < length a" "j \<le> length b" "j = 0 \<or> a ! i \<noteq> b ! (j - 1) \<and> lcs a b i j > lcs a b (Suc i) (j - 1)"
  shows "script a b (Suc i) j (ops @ [\<lparr>op_Kind = Delete, op_Token = a ! i\<rparr>])"
proof -
  have k: "lcs a b (Suc i) j = lcs a b i j" using assms(4) by (cases j) auto
  have "ops = [] \<or> op_Kind (last ops) \<noteq> Insert"
  proof (rule ccontr)
    assume "\<not> ?thesis"
    then have "0 < j" "lcs a b i j = lcs a b i (j - 1)" using assms(1) by (auto simp: script_def)
    with assms(4) lcs_step[of a b i "j - 1"] show False by auto
  qed
  with assms k show ?thesis
    by (auto simp: script_def old_tokens_def new_tokens_def kept_def deletes_first_snoc take_Suc_conv_app_nth)
qed

lemma script_insert:
  assumes "script a b i j ops" "i \<le> length a" "j < length b" "i = 0 \<or> a ! (i - 1) \<noteq> b ! j \<and> lcs a b (i - 1) (Suc j) \<le> lcs a b i j"
  shows "script a b i (Suc j) (ops @ [\<lparr>op_Kind = Insert, op_Token = b ! j\<rparr>])"
proof -
  have "lcs a b i (Suc j) = lcs a b i j" using assms(4) by (cases i) (auto simp: max_def)
  with assms show ?thesis
    by (auto simp: script_def old_tokens_def new_tokens_def kept_def deletes_first_snoc take_Suc_conv_app_nth)
qed

lemma trace_back_script:
  assumes "i \<le> length a" "j \<le> length b"
  shows "\<exists>ops ps. trace_back (LCSTable a b) a b i j rs path = Some (ops @ rev rs, path @ ps) \<and> script a b i j ops"
  using assms
proof (induction "i + j" arbitrary: i j rs path rule: less_induct)
  case less
  note step = trace_back.simps[of "LCSTable a b" a b i j rs path]
  consider (zero) "i = 0" "j = 0" | (equal) "i > 0" "j > 0" "a ! (i - 1) = b ! (j - 1)"
    | (up) "i > 0" "j = 0 \<or> a ! (i - 1) \<noteq> b ! (j - 1) \<and> lcs a b (i - 1) j > lcs a b i (j - 1)"
    | (left) "j > 0" "i = 0 \<or> a ! (i - 1) \<noteq> b ! (j - 1) \<and> lcs a b (i - 1) j \<le> lcs a b i (j - 1)"
    by (meson gr0I not_less)
  then show ?case
  proof cases
    case zero
    then have "script a b i j []" by (simp add: script_def old_tokens_def new_tokens_def kept_def)
    with zero show ?thesis unfolding step by (intro exI[of _ "[]"] exI[of _ "[(0, 0)]"]) simp
  next
    case equal
    let ?op = "\<lparr>op_Kind = Equal, op_Token = a ! (i - 1)\<rparr>"
    have "\<exists>ops ps. trace_back (LCSTable a b) a b (i - 1) (j - 1) (rs @ [?op]) (path @ [(i, j)]) = Some (ops @ rev (rs @ [?op]), (path @ [(i, j)]) @ ps) \<and> script a b (i - 1) (j - 1) ops"
      by (rule less.hyps) (use equal less.prems in auto)
    then obtain ops ps where t: "trace_back (LCSTable a b) a b (i - 1) (j - 1) (rs @ [?op]) (path @ [(i, j)]) = Some (ops @ rev (rs @ [?op]), (path @ [(i, j)]) @ ps)"
      and "script a b (i - 1) (j - 1) ops" by blast
    with script_equal[of a b "i - 1" "j - 1" ops] equal less.prems have "script a b i j (ops @ [?op])" by simp
    with equal t show ?thesis unfolding step by (intro exI[of _ "ops @ [?op]"] exI[of _ "(i, j) # ps"]) simp
  next
    case up
    let ?op = "\<lparr>op_Kind = Delete, op_Token = a ! (i - 1)\<rparr>"
    have "\<exists>ops ps. trace_back (LCSTable a b) a b (i - 1) j (rs @ [?op]) (path @ [(i, j)]) = Some (ops @ rev (rs @ [?op]), (path @ [(i, j)]) @ ps) \<and> script a b (i - 1) j ops"
      by (rule less.hyps) (use up less.prems in auto)
    then obtain ops ps where t: "trace_back (LCSTable a b) a b (i - 1) j (rs @ [?op]) (path @ [(i, j)]) = Some (ops @ rev (rs @ [?op]), (path @ [(i, j)]) @ ps)"
      and "script a b (i - 1) j ops" by blast
    with script_delete[of a b "i - 1" j ops] up less.prems have "script a b i j (ops @ [?op])" by simp
    moreover have "goes_up (LCSTable a b) i j = Some True" using up less.prems by (subst goes_up_lcs) auto
    ultimately show ?thesis using up t unfolding step by (intro exI[of _ "ops @ [?op]"] exI[of _ "(i, j) # ps"]) auto
  next
    case left
    let ?op = "\<lparr>op_Kind = Insert, op_Token = b ! (j - 1)\<rparr>"
    have "\<exists>ops ps. trace_back (LCSTable a b) a b i (j - 1) (rs @ [?op]) (path @ [(i, j)]) = Some (ops @ rev (rs @ [?op]), (path @ [(i, j)]) @ ps) \<and> script a b i (j - 1) ops"
      by (rule less.hyps) (use left less.prems in auto)
    then obtain ops ps where t: "trace_back (LCSTable a b) a b i (j - 1) (rs @ [?op]) (path @ [(i, j)]) = Some (ops @ rev (rs @ [?op]), (path @ [(i, j)]) @ ps)"
      and "script a b i (j - 1) ops" by blast
    with script_insert[of a b i "j - 1" ops] left less.prems have "script a b i j (ops @ [?op])" by simp
    moreover have "goes_up (LCSTable a b) i j = Some False" using left less.prems by (subst goes_up_lcs) auto
    ultimately show ?thesis using left t unfolding step by (intro exI[of _ "ops @ [?op]"] exI[of _ "(i, j) # ps"]) auto
  qed
qed

text \<open>The diff never indexes out of range. Its script read without insertions is the old text and
  without deletions the new one, it keeps as many tokens as any common subsequence of the two has, and no
  deletion directly follows an insertion.\<close>

theorem Diff_correct:
  "\<exists>ops. Diff a b = Some ops \<and> old_tokens ops = a \<and> new_tokens ops = b \<and> deletes_first ops \<and>
     {xs. subseq xs a \<and> subseq xs b} \<subseteq> {xs. length xs \<le> kept ops}"
proof -
  obtain ops ps where "TracebackWithPath (LCSTable a b) a b = Some (ops, ps)" "script a b (length a) (length b) ops"
    using trace_back_script[of "length a" a "length b" b "[]" "[]"] by (auto simp: TracebackWithPath_def)
  then show ?thesis using lcs_greatest[of _ "length a" a "length b" b]
    by (intro exI[of _ ops]) (auto simp: Diff_def Traceback_def script_def)
qed

end
