(* ===== verification/Ot.thy ===== *)
theory Ot
  imports Prelude
begin

text \<open>
  The operations of services/netsim (ot.go) on one text: applying them with clamped offsets, their
  inverses, and the inclusion transform; that two replicas which exchange concurrent operations end with
  the same text, and where they do not. A text is its bytes; offsets are Go's ints, without overflow.
\<close>

subsection \<open>The code\<close>

datatype op_kind = Insert | Delete | OtherKind string

record Op =
  op_ID :: string
  op_Actor :: string
  op_Kind :: op_kind
  op_Pos :: int
  op_Text :: string
  op_Len :: int
  op_Base :: int
  op_Deps :: "string list"

definition width :: "Op \<Rightarrow> int" where
  "width p = (if op_Kind p = Insert then int (length (op_Text p)) else op_Len p)"

definition clamp :: "int \<Rightarrow> int \<Rightarrow> int \<Rightarrow> int" where
  "clamp v lo hi = (if v < lo then lo else if v > hi then hi else v)"

definition Apply :: "Op \<Rightarrow> string \<Rightarrow> string" where
  "Apply p s = (case op_Kind p of
      Insert \<Rightarrow> (let i = nat (clamp (op_Pos p) 0 (int (length s))) in take i s @ op_Text p @ drop i s)
    | Delete \<Rightarrow>
        (let i = clamp (op_Pos p) 0 (int (length s)); e = clamp (i + op_Len p) i (int (length s))
         in take (nat i) s @ drop (nat e) s)
    | OtherKind k \<Rightarrow> s)"

definition Invert :: "Op \<Rightarrow> string \<Rightarrow> Op" where
  "Invert p orig = (case op_Kind p of
      Insert \<Rightarrow> \<lparr>op_ID = op_ID p @ [CHR 0x27], op_Actor = op_Actor p, op_Kind = Delete, op_Pos = op_Pos p, op_Text = [],
                 op_Len = int (length (op_Text p)), op_Base = 0, op_Deps = []\<rparr>
    | Delete \<Rightarrow>
        (let i = clamp (op_Pos p) 0 (int (length orig)); e = clamp (i + op_Len p) i (int (length orig))
         in \<lparr>op_ID = op_ID p @ [CHR 0x27], op_Actor = op_Actor p, op_Kind = Insert, op_Pos = op_Pos p,
             op_Text = drop (nat i) (take (nat e) orig), op_Len = 0, op_Base = 0, op_Deps = []\<rparr>)
    | OtherKind k \<Rightarrow> p)"

definition Transform :: "Op \<Rightarrow> Op \<Rightarrow> Op" where
  "Transform a b =
     (if op_Kind a = Insert \<and> op_Kind b = Insert then
        if op_Pos a < op_Pos b \<or> op_Pos a = op_Pos b \<and> op_Actor a < op_Actor b then a
        else a\<lparr>op_Pos := op_Pos a + int (length (op_Text b))\<rparr>
      else if op_Kind a = Insert \<and> op_Kind b = Delete then
        if op_Pos a \<le> op_Pos b then a
        else if op_Pos a \<ge> op_Pos b + op_Len b then a\<lparr>op_Pos := op_Pos a - op_Len b\<rparr>
        else a\<lparr>op_Pos := op_Pos b, op_Text := []\<rparr>
      else if op_Kind a = Delete \<and> op_Kind b = Insert then
        if op_Pos b \<le> op_Pos a then a\<lparr>op_Pos := op_Pos a + int (length (op_Text b))\<rparr>
        else if op_Pos b < op_Pos a + op_Len a then a\<lparr>op_Len := op_Len a + int (length (op_Text b))\<rparr>
        else a
      else
        (let aEnd = op_Pos a + op_Len a; bEnd = op_Pos b + op_Len b in
         if bEnd \<le> op_Pos a then a\<lparr>op_Pos := op_Pos a - op_Len b\<rparr>
         else if op_Pos b \<ge> aEnd then a
         else
           (let overlap = min aEnd bEnd - max (op_Pos a) (op_Pos b);
                a1 = a\<lparr>op_Len := op_Len a - overlap\<rparr>;
                a2 = (if op_Pos b < op_Pos a1 then a1\<lparr>op_Pos := op_Pos b\<rparr> else a1)
            in if op_Len a2 < 0 then a2\<lparr>op_Len := 0\<rparr> else a2)))"

subsection \<open>What an operation in range does\<close>

definition in_range :: "Op \<Rightarrow> string \<Rightarrow> bool" where
  "in_range p s \<longleftrightarrow> 0 \<le> op_Pos p \<and>
     (case op_Kind p of
        Insert \<Rightarrow> op_Pos p \<le> int (length s)
      | Delete \<Rightarrow> 0 \<le> op_Len p \<and> op_Pos p + op_Len p \<le> int (length s)
      | OtherKind k \<Rightarrow> False)"

text \<open>The two edits of a list at an offset, and how two of them at different places commute.\<close>

definition ins :: "nat \<Rightarrow> 'a list \<Rightarrow> 'a list \<Rightarrow> 'a list" where
  "ins i t s = take i s @ t @ drop i s"

definition del :: "nat \<Rightarrow> nat \<Rightarrow> 'a list \<Rightarrow> 'a list" where
  "del i n s = take i s @ drop (i + n) s"

lemma length_ins [simp]: "i \<le> length s \<Longrightarrow> length (ins i t s) = length s + length t"
  by (simp add: ins_def)

lemma length_del [simp]: "i + n \<le> length s \<Longrightarrow> length (del i n s) = length s - n"
  by (simp add: del_def)

lemma ins_nil [simp]: "ins i [] s = s"
  by (simp add: ins_def)

lemma del_zero [simp]: "del i 0 s = s"
  by (simp add: del_def)

lemma ins_split: "length A = i \<Longrightarrow> ins i t (A @ B) = A @ t @ B"
  by (auto simp: ins_def)

lemma del_split: "length A = i \<Longrightarrow> length B = n \<Longrightarrow> del i n (A @ B @ C) = A @ C"
  by (auto simp: del_def)

lemma split2: "i \<le> length s \<Longrightarrow> \<exists>A B. s = A @ B \<and> length A = i"
  by (intro exI[of _ "take i s"] exI[of _ "drop i s"]) simp

lemma split3: "i + n \<le> length s \<Longrightarrow> \<exists>A B C. s = A @ B @ C \<and> length A = i \<and> length B = n"
  by (rule exI[of _ "take i s"], rule exI[of _ "take n (drop i s)"], rule exI[of _ "drop (i + n) s"])
    (simp add: append_take_drop_id drop_drop add.commute flip: append_assoc take_add)

lemma del_ins: "i \<le> length s \<Longrightarrow> del i (length t) (ins i t s) = s"
  using split2[of i s] by (auto simp: ins_split del_split)

lemma ins_del: "i + n \<le> length s \<Longrightarrow> ins i (take n (drop i s)) (del i n s) = s"
  using split3[of i n s] by (auto simp: ins_split del_split)

lemma split4: "i \<le> j \<Longrightarrow> j \<le> k \<Longrightarrow> k \<le> length s \<Longrightarrow> \<exists>A B C D. s = A @ B @ C @ D \<and> length A = i \<and> length B = j - i \<and> length C = k - j"
proof -
  assume a: "i \<le> j" "j \<le> k" "k \<le> length s"
  then obtain A B X where "s = A @ B @ X" "length A = i" "length B = j - i" using split3[of i "j - i" s] by auto
  moreover have "k - j \<le> length X" using calculation a by auto
  then obtain C D where "X = C @ D" "length C = k - j" using split2 by blast
  ultimately show ?thesis by blast
qed

lemma split5: "i \<le> j \<Longrightarrow> j \<le> k \<Longrightarrow> k \<le> l \<Longrightarrow> l \<le> length s \<Longrightarrow>
    \<exists>A B C D E. s = A @ B @ C @ D @ E \<and> length A = i \<and> length B = j - i \<and> length C = k - j \<and> length D = l - k"
proof -
  assume a: "i \<le> j" "j \<le> k" "k \<le> l" "l \<le> length s"
  then obtain A B C X where "s = A @ B @ C @ X" "length A = i" "length B = j - i" "length C = k - j"
    using split4[of i j k s] by auto
  moreover have "l - k \<le> length X" using calculation a by auto
  then obtain D E where "X = D @ E" "length D = l - k" using split2 by blast
  ultimately show ?thesis by blast
qed

lemma ins_ins: "i \<le> j \<Longrightarrow> j \<le> length s \<Longrightarrow> ins i t (ins j u s) = ins (j + length t) u (ins i t s)"
  using split3[of i "j - i" s] by (auto simp: ins_def)

lemma ins_del_before: "i \<le> j \<Longrightarrow> j + n \<le> length s \<Longrightarrow> del (j + length t) n (ins i t s) = ins i t (del j n s)"
  using split4[of i j "j + n" s] by (auto simp: ins_def del_def)

lemma ins_del_after: "j + n \<le> i \<Longrightarrow> i \<le> length s \<Longrightarrow> ins (i - n) t (del j n s) = del j n (ins i t s)"
  using split4[of j "j + n" i s] by (auto simp: ins_def del_def)

lemma ins_del_inside: "j \<le> i \<Longrightarrow> i \<le> j + n \<Longrightarrow> j + n \<le> length s \<Longrightarrow> del j (n + length t) (ins i t s) = del j n s"
  using split4[of j i "j + n" s] by (auto simp: ins_def del_def)

lemma del_del_apart: "i + m \<le> j \<Longrightarrow> j + n \<le> length s \<Longrightarrow> del i m (del j n s) = del (j - m) n (del i m s)"
  using split5[of i "i + m" j "j + n" s] by (auto simp: del_def)

lemma del_del_contained: "i \<le> j \<Longrightarrow> j + n \<le> i + m \<Longrightarrow> i + m \<le> length s \<Longrightarrow> del i (m - n) (del j n s) = del i m s"
  using split5[of i j "j + n" "i + m" s] by (auto simp: del_def)

lemma del_del_overlap: "i \<le> j \<Longrightarrow> j \<le> i + m \<Longrightarrow> i + m \<le> j + n \<Longrightarrow> j + n \<le> length s \<Longrightarrow>
    del i (j - i) (del j n s) = del i (j + n - (i + m)) (del i m s)"
  using split5[of i j "i + m" "j + n" s] by (auto simp: del_def)

subsection \<open>Operations in range\<close>

text \<open>An operation in range as an edit at a natural offset.\<close>

definition is_ins :: "Op \<Rightarrow> nat \<Rightarrow> string \<Rightarrow> bool" where
  "is_ins p i t \<longleftrightarrow> op_Kind p = Insert \<and> op_Pos p = int i \<and> op_Text p = t"

definition is_del :: "Op \<Rightarrow> nat \<Rightarrow> nat \<Rightarrow> bool" where
  "is_del p i n \<longleftrightarrow> op_Kind p = Delete \<and> op_Pos p = int i \<and> op_Len p = int n"

lemma in_range_cases:
  assumes "in_range p s"
  obtains (ins) i t where "is_ins p i t" "i \<le> length s"
    | (del) i n where "is_del p i n" "i + n \<le> length s"
proof (cases "op_Kind p")
  case Insert
  with assms have "is_ins p (nat (op_Pos p)) (op_Text p)" "nat (op_Pos p) \<le> length s"
    by (auto simp: in_range_def is_ins_def)
  then show ?thesis by (rule ins)
next
  case Delete
  with assms have "is_del p (nat (op_Pos p)) (nat (op_Len p))" "nat (op_Pos p) + nat (op_Len p) \<le> length s"
    by (auto simp: in_range_def is_del_def)
  then show ?thesis by (rule del)
qed (use assms in \<open>simp add: in_range_def\<close>)

lemma in_range_ins: "is_ins p i t \<Longrightarrow> in_range p s = (i \<le> length s)"
  by (simp add: is_ins_def in_range_def)

lemma in_range_del: "is_del p i n \<Longrightarrow> in_range p s = (i + n \<le> length s)"
  by (auto simp add: is_del_def in_range_def)

lemma Apply_ins: "is_ins p i t \<Longrightarrow> i \<le> length s \<Longrightarrow> Apply p s = ins i t s"
  by (simp add: is_ins_def Apply_def clamp_def ins_def Let_def)

lemma Apply_del: "is_del p i n \<Longrightarrow> i + n \<le> length s \<Longrightarrow> Apply p s = del i n s"
  by (auto simp: is_del_def Apply_def clamp_def del_def Let_def nat_add_distrib)

lemma Transform_ins_ins: "is_ins a i t \<Longrightarrow> is_ins b j u \<Longrightarrow>
    is_ins (Transform a b) (if i < j \<or> i = j \<and> op_Actor a < op_Actor b then i else i + length u) t"
  by (auto simp: is_ins_def Transform_def)

lemma Transform_ins_del: "is_ins a i t \<Longrightarrow> is_del b j n \<Longrightarrow>
    is_ins (Transform a b) (if i \<le> j then i else if i \<ge> j + n then i - n else j) (if i \<le> j \<or> i \<ge> j + n then t else [])"
  by (auto simp: is_ins_def is_del_def Transform_def)

lemma Transform_del_ins: "is_del a i n \<Longrightarrow> is_ins b j u \<Longrightarrow>
    is_del (Transform a b) (if j \<le> i then i + length u else i) (if j \<le> i \<or> j \<ge> i + n then n else n + length u)"
  by (auto simp: is_ins_def is_del_def Transform_def)

lemma Transform_del_del: "is_del a i m \<Longrightarrow> is_del b j n \<Longrightarrow>
    is_del (Transform a b)
      (if j + n \<le> i then i - n else if j \<ge> i + m then i else min i j)
      (if j + n \<le> i \<or> j \<ge> i + m then m else m - (min (i + m) (j + n) - max i j))"
  by (auto simp: is_del_def Transform_def Let_def min_def max_def)

lemma Invert_undoes_in_range:
  assumes "in_range p s"
  shows "Apply (Invert p s) (Apply p s) = s"
  using assms
proof (cases rule: in_range_cases)
  case (ins i t)
  then have "is_del (Invert p s) i (length t)" by (simp add: is_ins_def is_del_def Invert_def)
  with ins show ?thesis by (simp add: Apply_ins Apply_del del_ins)
next
  case (del i n)
  then have "is_ins (Invert p s) i (take n (drop i s))"
    by (auto simp: is_ins_def is_del_def Invert_def clamp_def Let_def drop_take nat_add_distrib)
  with del show ?thesis by (simp add: Apply_ins Apply_del ins_del)
qed

text \<open>Undoing an operation that is within the text it was applied to gives the text back.\<close>

theorem Invert_undoes:
  "in_range p s \<Longrightarrow> Apply (Invert p s) (Apply p s) = s"
  by (rule Invert_undoes_in_range)

text \<open>The concurrent insertions that the actor's name does not order.\<close>

definition tied :: "Op \<Rightarrow> Op \<Rightarrow> bool" where
  "tied a b \<longleftrightarrow> op_Kind a = Insert \<and> op_Kind b = Insert \<and> op_Pos a = op_Pos b \<and> op_Actor a = op_Actor b"

lemma Transform_in_range:
  assumes "in_range a s" "in_range b s"
  shows "in_range (Transform a b) (Apply b s)"
  using assms(1)
proof (cases rule: in_range_cases)
  case a: (ins i t)
  from assms(2) show ?thesis
  proof (cases rule: in_range_cases)
    case (ins j u)
    then show ?thesis using a by (simp add: in_range_ins[OF Transform_ins_ins[OF a(1) ins(1)]] Apply_ins)
  next
    case (del j n)
    then show ?thesis using a by (auto simp: in_range_ins[OF Transform_ins_del[OF a(1) del(1)]] Apply_del)
  qed
next
  case a: (del i m)
  from assms(2) show ?thesis
  proof (cases rule: in_range_cases)
    case (ins j u)
    then show ?thesis using a by (simp add: in_range_del[OF Transform_del_ins[OF a(1) ins(1)]] Apply_ins)
  next
    case (del j n)
    then show ?thesis using a by (auto simp: in_range_del[OF Transform_del_del[OF a(1) del(1)]] Apply_del min_def max_def)
  qed
qed

text \<open>Each pair of kinds meets.\<close>

lemma meet_ins_ins:
  assumes "is_ins a i t" "is_ins b j u" "i \<le> length s" "j \<le> length s" "\<not> tied a b"
  shows "Apply (Transform b a) (Apply a s) = Apply (Transform a b) (Apply b s)"
proof -
  have "i < j \<or> j < i \<or> i = j \<and> op_Actor a < op_Actor b \<or> i = j \<and> op_Actor b < op_Actor a"
    using assms by (auto simp: tied_def is_ins_def)
  then show ?thesis
    using assms by (elim disjE conjE) (simp_all add: Apply_ins[OF Transform_ins_ins] Apply_ins ins_ins less_not_sym)
qed

lemma meet_ins_del:
  assumes "is_ins a i t" "is_del b j n" "i \<le> length s" "j + n \<le> length s"
  shows "Apply (Transform b a) (Apply a s) = Apply (Transform a b) (Apply b s)"
proof -
  consider "i \<le> j" | "j < i" "j + n \<le> i" | "j < i" "i < j + n" by linarith
  then show ?thesis
    using assms
    by cases (simp_all add: Apply_ins[OF Transform_ins_del] Apply_del[OF Transform_del_ins] Apply_ins Apply_del
        ins_del_before ins_del_after ins_del_inside)
qed

lemma meet_del_del:
  assumes "is_del a i m" "is_del b j n" "i + m \<le> length s" "j + n \<le> length s" "i \<le> j"
  shows "Apply (Transform b a) (Apply a s) = Apply (Transform a b) (Apply b s)"
proof -
  note r = Apply_del[OF Transform_del_del] Apply_del
  consider "i + m \<le> j" | "j < i + m" "j + n \<le> i + m" | "j < i + m" "i + m < j + n" by linarith
  then show ?thesis
  proof cases
    case 1
    then have e: "(if j + n \<le> i then i - n else if j \<ge> i + m then i else min i j) = i" by auto
    have "is_del (Transform a b) i m" using Transform_del_del[OF assms(1,2)] 1 unfolding e by (simp split: if_splits)
    moreover have "is_del (Transform b a) (j - m) n" using Transform_del_del[OF assms(2,1)] 1 by simp
    ultimately show ?thesis using 1 assms by (simp add: Apply_del del_del_apart)
  next
    case 2
    show ?thesis
    proof (cases "j + n \<le> i")
      case True
      with assms(5) have "j = i" "n = 0" by simp_all
      with assms 2 show ?thesis by (auto simp: r)
    qed (use 2 assms in \<open>auto simp: r del_del_contained\<close>)
  next
    case 3
    with assms show ?thesis using del_del_overlap[of i j m n s] by (auto simp: r add.commute)
  qed
qed


lemma converges:
  assumes "in_range a s" "in_range b s" "\<not> tied a b"
  shows "Apply (Transform b a) (Apply a s) = Apply (Transform a b) (Apply b s)"
  using assms(1)
proof (cases rule: in_range_cases)
  case a: (ins i t)
  from assms(2) show ?thesis
  proof (cases rule: in_range_cases)
    case (ins j u)
    with a assms(3) show ?thesis by (intro meet_ins_ins)
  next
    case (del j n)
    with a show ?thesis by (intro meet_ins_del)
  qed
next
  case a: (del i m)
  from assms(2) show ?thesis
  proof (cases rule: in_range_cases)
    case (ins j u)
    with a show ?thesis using meet_ins_del[of b j u a i m s] by simp
  next
    case (del j n)
    with a show ?thesis using meet_del_del[of a i m b j n s] meet_del_del[of b j n a i m s] by (cases "i \<le> j") auto
  qed
qed

text \<open>C19: two operations written against the same text and within it lead to the same text in either
  order, each transformed over the other, and stay within the text they are applied to. The exception is
  two insertions at one place by one actor, which each replica puts in the order it saw them.\<close>

theorem Transform_converges:
  assumes "in_range a s" "in_range b s" "\<not> tied a b"
  shows "Apply (Transform b a) (Apply a s) = Apply (Transform a b) (Apply b s) \<and>
    in_range (Transform a b) (Apply b s) \<and> in_range (Transform b a) (Apply a s)"
  using converges[OF assms] Transform_in_range[OF assms(1,2)] Transform_in_range[OF assms(2,1)] by simp

definition an_op :: "string \<Rightarrow> string \<Rightarrow> op_kind \<Rightarrow> int \<Rightarrow> string \<Rightarrow> int \<Rightarrow> Op" where
  "an_op i actor k p t n = \<lparr>op_ID = i, op_Actor = actor, op_Kind = k, op_Pos = p, op_Text = t, op_Len = n, op_Base = 0, op_Deps = []\<rparr>"

theorem Transform_converges_witness:
  "Apply (Transform (an_op ''2'' ''y'' Delete 2 [] 3) (an_op ''1'' ''x'' Delete 0 [] 3)) (Apply (an_op ''1'' ''x'' Delete 0 [] 3) ''abcdef'') = ''f''"
proof -
  have "in_range (an_op ''1'' ''x'' Delete 0 [] 3) ''abcdef''" "in_range (an_op ''2'' ''y'' Delete 2 [] 3) ''abcdef''"
    "\<not> tied (an_op ''1'' ''x'' Delete 0 [] 3) (an_op ''2'' ''y'' Delete 2 [] 3)"
    by code_simp+
  from Transform_converges[OF this] show ?thesis by code_simp
qed

theorem Invert_undoes_witness:
  "Apply (Invert (an_op ''1'' ''x'' Delete 1 [] 2) ''abcd'') (Apply (an_op ''1'' ''x'' Delete 1 [] 2) ''abcd'') = ''abcd''"
proof -
  have "in_range (an_op ''1'' ''x'' Delete 1 [] 2) ''abcd''" by code_simp
  from Invert_undoes[OF this] show ?thesis .
qed

end
