(* ===== verification/NetSim.thy ===== *)
theory NetSim
  imports Ot Decimal
begin

text \<open>
  The simulation of services/netsim (sim.go): the generator, the clients with their rollback, one tick of
  the wire, the run with its report. Left out: the \<open>attempt\<close> of a packet in flight, which is written and never
  read, and the panels drawn from the log and the texts (merkle.go, dag.go, lsm.go).
\<close>

subsection \<open>The wire\<close>

record Wire =
  w_RTTMs :: int
  w_LossPct :: int
  w_JitterMs :: int
  w_Seed :: "64 word"

record Edit =
  e_At :: int
  e_Actor :: string
  e_Kind :: op_kind
  e_Pos :: int
  e_Text :: string
  e_Len :: int

record Scenario =
  s_Wire :: Wire
  s_Transform :: bool
  s_Initial :: string
  s_Edits :: "Edit list"

record Delivery =
  d_OpID :: string
  d_Actor :: string
  d_SentAt :: int
  d_ArrivesAt :: int
  d_Attempt :: int
  d_Lost :: bool

definition rng_next :: "64 word \<Rightarrow> 64 word \<times> 64 word" where
  "rng_next state =
     (let state = state + 0x9E3779B97F4A7C15; z = state;
          z = (xor z (drop_bit 30 z)) * 0xBF58476D1CE4E5B9;
          z = (xor z (drop_bit 27 z)) * 0x94D049BB133111EB
      in (xor z (drop_bit 31 z), state))"

definition intn :: "64 word \<Rightarrow> int \<Rightarrow> int \<times> 64 word" where
  "intn r n = (if n \<le> 0 then (0, r) else (let (z, r') = rng_next r in (uint (z mod word_of_int n), r')))"

subsection \<open>Clients\<close>

record client =
  c_text :: string
  c_pending :: "Op list"
  c_seen :: nat
  c_predicted :: nat
  c_confirmed :: nat
  c_rolled :: nat

text \<open>The two loops of the rollback: the pending operations undone from the last to the first, each inverse
  made from the text as it then is, and laid again on top.\<close>

definition undo_pending :: "Op list \<Rightarrow> string \<Rightarrow> string" where
  "undo_pending ps t = foldr (\<lambda>p t. Apply (Invert p t) t) ps t"

fun redo_pending :: "bool \<Rightarrow> Op \<Rightarrow> Op list \<Rightarrow> string \<Rightarrow> Op list \<times> string" where
  "redo_pending transform q [] t = ([], t)"
| "redo_pending transform q (p # ps) t =
     (let p = (if transform then Transform p q else p); (ps, t) = redo_pending transform q ps (Apply p t) in (p # ps, t))"

definition rebuild :: "client \<Rightarrow> Op \<Rightarrow> Op \<Rightarrow> bool \<Rightarrow> client" where
  "rebuild c mine confirmed transform =
     (let t = undo_pending (c_pending c) (c_text c);
          t = Apply (Invert mine t) t;
          t = Apply confirmed t;
          (ps, t) = redo_pending transform confirmed (c_pending c) t
      in c\<lparr>c_text := t, c_pending := ps\<rparr>)"

definition applyConfirmed :: "client \<Rightarrow> Op \<Rightarrow> bool \<Rightarrow> client" where
  "applyConfirmed c q transform = (case c_pending c of
      mine # rest \<Rightarrow>
        if op_ID mine = op_ID q then
          (let c = c\<lparr>c_pending := rest, c_seen := c_seen c + 1, c_confirmed := c_confirmed c + 1\<rparr>
           in if op_Pos mine \<noteq> op_Pos q \<or> width mine \<noteq> width q
              then rebuild (c\<lparr>c_rolled := c_rolled c + 1\<rparr>) mine q transform else c)
        else
          (let t = undo_pending (c_pending c) (c_text c);
               (ps, t) = redo_pending transform q (c_pending c) (Apply q t)
           in c\<lparr>c_rolled := c_rolled c + 1, c_text := t, c_pending := ps, c_seen := c_seen c + 1\<rparr>)
    | [] \<Rightarrow> c\<lparr>c_text := Apply q (c_text c), c_seen := c_seen c + 1\<rparr>)"

subsection \<open>One tick\<close>

text \<open>The variables of \<open>Run\<close>. The clients are in the order they first type; the loops over Go's map of
  them do the same for every one, so the order does not matter.\<close>

type_synonym in_flight = "Op \<times> int"

record sim =
  m_rng :: "64 word"
  m_edits :: "Edit list"
  m_clients :: "(string \<times> client) list"
  m_serverText :: string
  m_log :: "Op list"
  m_deliveries :: "Delivery list"
  m_toServer :: "in_flight list"
  m_toClients :: "in_flight list"
  m_lost :: nat
  m_seq :: nat

definition depsOf :: "Op list \<Rightarrow> nat \<Rightarrow> string list" where
  "depsOf log seen = (if seen = 0 \<or> seen > length log then [] else [op_ID (log ! (seen - 1))])"

text \<open>The retransmissions of \<open>send\<close>: how often the packet was lost and when it last left.\<close>

function send_lost :: "Wire \<Rightarrow> Op \<Rightarrow> int \<Rightarrow> int \<Rightarrow> nat \<Rightarrow> sim \<Rightarrow> sim \<times> int \<times> nat" where
  "send_lost w p delay at attempt m =
     (let (x, r) = intn (m_rng m) 100; m = m\<lparr>m_rng := r\<rparr> in
      if x < w_LossPct w then
        (let m = m\<lparr>m_lost := m_lost m + 1, m_deliveries := m_deliveries m @ [\<lparr>d_OpID = op_ID p, d_Actor = op_Actor p,
               d_SentAt = at, d_ArrivesAt = at + delay, d_Attempt = int attempt, d_Lost = True\<rparr>]\<rparr>
         in if attempt + 1 > 12 then (m, at + w_RTTMs w, attempt + 1)
            else send_lost w p delay (at + w_RTTMs w) (attempt + 1) m)
      else (m, at, attempt))"
  by pat_completeness auto
termination by (relation "measure (\<lambda>(w, p, delay, at, attempt, m). 13 - attempt)") auto

declare send_lost.simps [simp del]

definition half :: "Wire \<Rightarrow> int" where
  "half w = max (w_RTTMs w div 2) 1"

text \<open>\<open>send\<close>.\<close>

definition send :: "Wire \<Rightarrow> Op \<Rightarrow> int \<Rightarrow> sim \<Rightarrow> sim" where
  "send w p at m =
     (let (x, r) = intn (m_rng m) (w_JitterMs w + 1); delay = half w + x;
          (m, at, attempt) = send_lost w p delay at 1 (m\<lparr>m_rng := r\<rparr>)
      in m\<lparr>m_deliveries := m_deliveries m @ [\<lparr>d_OpID = op_ID p, d_Actor = op_Actor p,
             d_SentAt = at, d_ArrivesAt = at + delay, d_Attempt = int attempt, d_Lost = False\<rparr>],
           m_toServer := m_toServer m @ [(p, at + delay)]\<rparr>)"

text \<open>\<open>actorOf\<close>: the clients with this one, made if it is missing.\<close>

definition actorOf :: "string \<Rightarrow> string \<Rightarrow> (string \<times> client) list \<Rightarrow> (string \<times> client) list" where
  "actorOf initial name cs =
     (if name \<in> fst ` set cs then cs
      else cs @ [(name, \<lparr>c_text = initial, c_pending = [], c_seen = 0, c_predicted = 0, c_confirmed = 0, c_rolled = 0\<rparr>)])"

definition predict :: "Op \<Rightarrow> client \<Rightarrow> client" where
  "predict p c = c\<lparr>c_text := Apply p (c_text c), c_pending := c_pending c @ [p], c_predicted := c_predicted c + 1\<rparr>"

definition type_edit :: "Scenario \<Rightarrow> int \<Rightarrow> Edit \<Rightarrow> sim \<Rightarrow> sim" where
  "type_edit s tick e m =
     (let cs = actorOf (s_Initial s) (e_Actor e) (m_clients m);
          seen = (case map_of cs (e_Actor e) of Some c \<Rightarrow> c_seen c | None \<Rightarrow> 0);
          p = \<lparr>op_ID = CHR ''o'' # digits (m_seq m + 1), op_Actor = e_Actor e, op_Kind = e_Kind e, op_Pos = e_Pos e,
               op_Text = e_Text e, op_Len = e_Len e, op_Base = int seen, op_Deps = depsOf (m_log m) seen\<rparr>
      in send (s_Wire s) p tick
           (m\<lparr>m_seq := m_seq m + 1, m_clients := map (\<lambda>(n, c). (n, if n = e_Actor e then predict p c else c)) cs\<rparr>))"

fun author :: "Scenario \<Rightarrow> int \<Rightarrow> Edit list \<Rightarrow> sim \<Rightarrow> sim" where
  "author s tick [] m = m\<lparr>m_edits := []\<rparr>"
| "author s tick (e # es) m = (if e_At e \<le> tick then author s tick es (type_edit s tick e m) else m\<lparr>m_edits := e # es\<rparr>)"

fun broadcast :: "Wire \<Rightarrow> Op \<Rightarrow> int \<Rightarrow> nat \<Rightarrow> sim \<Rightarrow> sim" where
  "broadcast w p tick 0 m = m"
| "broadcast w p tick (Suc n) m =
     (let (x, r) = intn (m_rng m) (w_JitterMs w + 1)
      in broadcast w p tick n (m\<lparr>m_rng := r, m_toClients := m_toClients m @ [(p, tick + (half w + x))]\<rparr>))"

text \<open>\<open>None\<close>: \<open>log[op.Base:]\<close> is out of range.\<close>

definition accept :: "Scenario \<Rightarrow> int \<Rightarrow> Op \<Rightarrow> sim \<Rightarrow> sim option" where
  "accept s tick p m =
     (if s_Transform s \<and> (op_Base p < 0 \<or> op_Base p > int (length (m_log m))) then None
      else
        (let p = (if s_Transform s then foldl Transform p (drop (nat (op_Base p)) (m_log m)) else p);
             p = p\<lparr>op_Base := int (length (m_log m))\<rparr>
         in Some (broadcast (s_Wire s) p tick (length (m_clients m))
              (m\<lparr>m_serverText := Apply p (m_serverText m), m_log := m_log m @ [p]\<rparr>))))"

fun server :: "Scenario \<Rightarrow> int \<Rightarrow> in_flight list \<Rightarrow> sim \<Rightarrow> sim option" where
  "server s tick [] m = Some m"
| "server s tick ((p, arrives) # fs) m =
     (if arrives > tick then server s tick fs (m\<lparr>m_toServer := m_toServer m @ [(p, arrives)]\<rparr>)
      else (case accept s tick p m of None \<Rightarrow> None | Some m \<Rightarrow> server s tick fs m))"

definition confirm :: "Scenario \<Rightarrow> Op \<Rightarrow> (string \<times> client) list \<Rightarrow> (string \<times> client) list" where
  "confirm s p cs = map (\<lambda>(n, c). (n, if int (c_seen c) \<noteq> op_Base p then c else applyConfirmed c p (s_Transform s))) cs"

fun receive :: "Scenario \<Rightarrow> int \<Rightarrow> in_flight list \<Rightarrow> sim \<Rightarrow> sim" where
  "receive s tick [] m = m"
| "receive s tick ((p, arrives) # fs) m =
     (if arrives > tick then receive s tick fs (m\<lparr>m_toClients := m_toClients m @ [(p, arrives)]\<rparr>)
      else receive s tick fs (m\<lparr>m_clients := confirm s p (m_clients m)\<rparr>))"

definition one_tick :: "Scenario \<Rightarrow> int \<Rightarrow> sim \<Rightarrow> sim option" where
  "one_tick s tick m =
     (let m = author s tick (m_edits m) m in
      case server s tick (m_toServer m) (m\<lparr>m_toServer := []\<rparr>) of
        None \<Rightarrow> None
      | Some m \<Rightarrow> Some (receive s tick (m_toClients m) (m\<lparr>m_toClients := []\<rparr>)))"

subsection \<open>The run\<close>

function ticks :: "Scenario \<Rightarrow> int \<Rightarrow> int \<Rightarrow> sim \<Rightarrow> (sim \<times> int) option" where
  "ticks s tick horizon m =
     (if tick > horizon then Some (m, tick)
      else (case one_tick s tick m of
              None \<Rightarrow> None
            | Some m \<Rightarrow> if m_edits m = [] \<and> m_toServer m = [] \<and> m_toClients m = [] then Some (m, tick)
                        else ticks s (tick + 1) horizon m))"
  by pat_completeness auto
termination by (relation "measure (\<lambda>(s, tick, horizon, m). nat (horizon + 1 - tick))") auto

declare ticks.simps [simp del]

text \<open>One pass of the drain, and the state \<open>Run\<close> starts from.\<close>

definition drain :: "Scenario \<Rightarrow> sim \<Rightarrow> sim" where
  "drain s m = m\<lparr>m_clients := fold (\<lambda>(p, arrives) cs. confirm s p cs) (m_toClients m) (m_clients m)\<rparr>"

definition start :: "Scenario \<Rightarrow> sim" where
  "start s =
     (let edits = sort_key e_At (s_Edits s);
          cs = fold (\<lambda>e cs. actorOf (s_Initial s) (e_Actor e) cs) edits [];
          cs = (if cs = [] then actorOf (s_Initial s) ''you'' cs else cs)
      in \<lparr>m_rng = w_Seed (s_Wire s) * 2862933555777941757 + 3037000493, m_edits = edits, m_clients = cs,
          m_serverText = s_Initial s, m_log = [], m_deliveries = [], m_toServer = [], m_toClients = [], m_lost = 0, m_seq = 0\<rparr>)"

definition horizon :: "Scenario \<Rightarrow> int" where
  "horizon s =
     (let edits = sort_key e_At (s_Edits s); lastEdit = (if edits = [] then 0 else e_At (last edits))
      in lastEdit + w_RTTMs (s_Wire s) * 8 + w_JitterMs (s_Wire s) * 8 + 200)"

record Replica =
  r_Actor :: string
  r_Text :: string
  r_Predicted :: nat
  r_Confirmed :: nat
  r_RolledBack :: nat
  r_Pending :: nat

text \<open>What an author meant and what the log got: the two operations, or the two documents.\<close>

datatype evidence = Landed Op | Document string

record Violation =
  v_OpID :: string
  v_Actor :: string
  v_Meant :: evidence
  v_Got :: evidence

record Report =
  rep_Replicas :: "Replica list"
  rep_ServerText :: string
  rep_Converged :: bool
  rep_Log :: "Op list"
  rep_Deliveries :: "Delivery list"
  rep_Lost :: nat
  rep_Retransmits :: nat
  rep_Ticks :: int
  rep_ReplayMatches :: bool
  rep_ReplayText :: string
  rep_IntentViolations :: "Violation list"
  rep_IntentText :: string

text \<open>The run up to its replay check.\<close>

definition run_report :: "Scenario \<Rightarrow> Report option" where
  "run_report s = (case ticks s 0 (horizon s) (start s) of
      None \<Rightarrow> None
    | Some (m, tick) \<Rightarrow>
        (let m = (drain s ^^ 4) m; cs = sort_key fst (m_clients m); replay = fold Apply (m_log m) (s_Initial s)
         in Some \<lparr>rep_Replicas = map (\<lambda>(n, c). \<lparr>r_Actor = n, r_Text = c_text c, r_Predicted = c_predicted c,
                     r_Confirmed = c_confirmed c, r_RolledBack = c_rolled c, r_Pending = length (c_pending c)\<rparr>) cs,
                rep_ServerText = m_serverText m, rep_Converged = (\<forall>(n, c)\<in>set cs. c_text c = m_serverText m),
                rep_Log = m_log m, rep_Deliveries = m_deliveries m, rep_Lost = m_lost m, rep_Retransmits = m_lost m,
                rep_Ticks = tick, rep_ReplayMatches = (replay = m_serverText m), rep_ReplayText = replay,
                rep_IntentViolations = [], rep_IntentText = []\<rparr>))"

definition checkIntent :: "Scenario \<Rightarrow> Report \<Rightarrow> (Violation list \<times> string) option" where
  "checkIntent s got =
     (if s_Transform s then Some ([], rep_ServerText got)
      else (case run_report (s\<lparr>s_Transform := True\<rparr>) of
              None \<Rightarrow> None
            | Some want \<Rightarrow>
                if rep_ServerText want = rep_ServerText got then Some ([], rep_ServerText want)
                else
                  (let out = [\<lparr>v_OpID = op_ID p, v_Actor = op_Actor p, v_Meant = Landed w, v_Got = Landed p\<rparr>.
                              (p, w) \<leftarrow> zip (rep_Log got) (rep_Log want), op_Pos p \<noteq> op_Pos w \<or> width p \<noteq> width w];
                       out = (if out = [] then [\<lparr>v_OpID = ''-'', v_Actor = ''-'', v_Meant = Document (rep_ServerText want),
                                v_Got = Document (rep_ServerText got)\<rparr>] else out)
                   in Some (out, rep_ServerText want))))"

definition Run :: "Scenario \<Rightarrow> Report option" where
  "Run s = (case run_report s of
      None \<Rightarrow> None
    | Some r \<Rightarrow> (case checkIntent s r of
          None \<Rightarrow> None
        | Some (violations, text) \<Rightarrow> Some (r\<lparr>rep_IntentViolations := violations, rep_IntentText := text\<rparr>)))"

subsection \<open>What every run keeps\<close>

text \<open>Every operation on its way, in flight or confirmed, was written against a part of the log; the server's
  text is the log's replay; every prediction is confirmed or pending; every loss is drawn.\<close>

definition ops_ok :: "sim \<Rightarrow> bool" where
  "ops_ok m \<longleftrightarrow> (\<forall>(p, t)\<in>set (m_toServer m). 0 \<le> op_Base p \<and> op_Base p \<le> int (length (m_log m))) \<and>
     (\<forall>(p, t)\<in>set (m_toClients m). op_Base p < int (length (m_log m)))"

definition client_ok :: "nat \<Rightarrow> client \<Rightarrow> bool" where
  "client_ok n c \<longleftrightarrow> c_seen c \<le> n \<and> c_predicted c = c_confirmed c + length (c_pending c)"

definition clients_ok :: "nat \<Rightarrow> (string \<times> client) list \<Rightarrow> bool" where
  "clients_ok n cs \<longleftrightarrow> (\<forall>x\<in>set cs. client_ok n (snd x))"

definition sim_ok :: "Scenario \<Rightarrow> sim \<Rightarrow> bool" where
  "sim_ok s m \<longleftrightarrow> ops_ok m \<and> clients_ok (length (m_log m)) (m_clients m) \<and>
     m_serverText m = fold Apply (m_log m) (s_Initial s) \<and>
     m_lost m = length (filter d_Lost (m_deliveries m))"

lemma length_redo [simp]: "length (fst (redo_pending tr q ps t)) = length ps"
  by (induction tr q ps t rule: redo_pending.induct) (auto simp: Let_def split: prod.splits)

lemma redo_length: "redo_pending tr q ps t = (ps', t') \<Longrightarrow> length ps' = length ps"
  using length_redo[of tr q ps t] by simp

lemma applyConfirmed_ok: "client_ok n c \<Longrightarrow> c_seen c < n \<Longrightarrow> client_ok n (applyConfirmed c p tr)"
  by (auto simp: client_ok_def applyConfirmed_def rebuild_def Let_def split: list.splits prod.splits dest!: redo_length)

lemma confirm_ok:
  assumes "clients_ok k cs" "op_Base p < int k"
  shows "clients_ok k (confirm s p cs)"
  using assms by (fastforce simp: confirm_def clients_ok_def intro: applyConfirmed_ok)

lemma sim_ok_rng [simp]: "sim_ok s (m\<lparr>m_rng := r\<rparr>) = sim_ok s m"
  by (simp add: sim_ok_def ops_ok_def)

lemma send_lost_keeps:
  assumes "send_lost w p delay at attempt m = (m', at', k)"
  shows "sim_ok s m' = sim_ok s m \<and> m_log m' = m_log m"
  using assms
proof (induction w p delay at attempt m rule: send_lost.induct)
  case (1 w p delay at attempt m)
  have ok: "sim_ok s (m\<lparr>m_rng := r, m_lost := Suc (m_lost m), m_deliveries := m_deliveries m @ [d]\<rparr>) = sim_ok s m" if "d_Lost d" for r d
    using that by (simp add: sim_ok_def ops_ok_def)
  obtain x r where r: "intn (m_rng m) 100 = (x, r)" by fastforce
  show ?case
    using "1.prems" "1.IH"[OF refl r[symmetric] refl _ refl]
    by (subst (asm) send_lost.simps) (auto simp: r Let_def ok split: if_splits)
qed

lemma send_ok:
  assumes "sim_ok s m" "0 \<le> op_Base p" "op_Base p \<le> int (length (m_log m))"
  shows "sim_ok s (send w p at m)"
proof -
  obtain x r where r: "intn (m_rng m) (w_JitterMs w + 1) = (x, r)" by fastforce
  obtain m' at' k where l: "send_lost w p (half w + x) at 1 (m\<lparr>m_rng := r\<rparr>) = (m', at', k)" by (metis prod_cases3)
  from send_lost_keeps[OF this, of s] assms have "sim_ok s m'" "m_log m' = m_log m" by auto
  with assms r l show ?thesis by (auto simp: send_def Let_def sim_ok_def ops_ok_def)
qed

lemma actorOf_ok: "clients_ok k cs \<Longrightarrow> clients_ok k (actorOf t a cs)"
  by (auto simp: actorOf_def clients_ok_def client_ok_def)

lemma clients_ok_Nil [simp]: "clients_ok k []"
  by (simp add: clients_ok_def)

lemma clients_ok_Suc: "clients_ok k cs \<Longrightarrow> clients_ok (Suc k) cs"
  by (auto simp: clients_ok_def client_ok_def)

lemma predict_ok: "client_ok k c \<Longrightarrow> client_ok k (predict p c)"
  by (simp add: client_ok_def predict_def)

lemma predict_map: "clients_ok k cs \<Longrightarrow> clients_ok k (map (\<lambda>(n, c). (n, if n = a then predict p c else c)) cs)"
  by (fastforce simp: clients_ok_def predict_ok)

lemma type_edit_ok:
  assumes "sim_ok s m"
  shows "sim_ok s (type_edit s tick e m)"
proof -
  let ?cs = "actorOf (s_Initial s) (e_Actor e) (m_clients m)"
  let ?seen = "case map_of ?cs (e_Actor e) of Some c \<Rightarrow> c_seen c | None \<Rightarrow> 0"
  have cs: "clients_ok (length (m_log m)) ?cs"
    using assms by (simp add: sim_ok_def actorOf_ok)
  have "?seen \<le> length (m_log m)"
    using cs by (fastforce simp: clients_ok_def client_ok_def split: option.splits dest!: map_of_SomeD)
  moreover have "sim_ok s (m\<lparr>m_seq := q, m_clients := map (\<lambda>(n, c). (n, if n = e_Actor e then predict p c else c)) ?cs\<rparr>)" for q p
    using assms cs by (simp add: sim_ok_def ops_ok_def predict_map)
  ultimately show ?thesis by (auto simp: type_edit_def Let_def intro!: send_ok)
qed

lemma author_ok: "sim_ok s m \<Longrightarrow> sim_ok s (author s tick es m)"
proof (induction s tick es m rule: author.induct)
  case (1 s tick m)
  then show ?case by (simp add: sim_ok_def ops_ok_def)
next
  case (2 s tick e es m)
  then show ?case using type_edit_ok[of s m tick e] by (auto simp: sim_ok_def ops_ok_def)
qed

lemma broadcast_ok: "sim_ok s m \<Longrightarrow> op_Base p < int (length (m_log m)) \<Longrightarrow> sim_ok s (broadcast w p tick n m)"
proof (induction w p tick n m rule: broadcast.induct)
  case (2 w p tick n m)
  obtain x r where r: "intn (m_rng m) (w_JitterMs w + 1) = (x, r)" by fastforce
  have "sim_ok s (m\<lparr>m_rng := r, m_toClients := m_toClients m @ [(p, tick + (half w + x))]\<rparr>)"
    using "2.prems" by (auto simp: sim_ok_def ops_ok_def)
  with "2.IH"[OF r[symmetric] refl] "2.prems" show ?case by (simp add: r)
qed simp

text \<open>The server finds the part of the log the author had not seen, so it does not panic.\<close>

lemma accept_ok:
  assumes "sim_ok s m" "0 \<le> op_Base p" "op_Base p \<le> int (length (m_log m))"
  shows "\<exists>m'. accept s tick p m = Some m' \<and> sim_ok s m' \<and> length (m_log m) \<le> length (m_log m')"
proof -
  have log: "m_log (broadcast w p tick n m) = m_log m" for w p n m
    by (induction w p tick n m rule: broadcast.induct) (auto simp: Let_def split: prod.splits)
  have "sim_ok s (m\<lparr>m_serverText := Apply q (m_serverText m), m_log := m_log m @ [q]\<rparr>)" for q
    using assms(1) clients_ok_Suc by (fastforce simp: sim_ok_def ops_ok_def)
  with assms show ?thesis by (auto simp: accept_def Let_def log intro!: broadcast_ok)
qed

lemma server_ok:
  assumes "sim_ok s m" "\<forall>(p, t)\<in>set fs. 0 \<le> op_Base p \<and> op_Base p \<le> int (length (m_log m))"
  shows "\<exists>m'. server s tick fs m = Some m' \<and> sim_ok s m'"
  using assms
proof (induction s tick fs m rule: server.induct)
  case (2 s tick p arrives fs m)
  show ?case
  proof (cases "arrives > tick")
    case True
    have "sim_ok s (m\<lparr>m_toServer := m_toServer m @ [(p, arrives)]\<rparr>)"
      using "2.prems" by (auto simp: sim_ok_def ops_ok_def)
    with "2.IH"(1)[OF True] "2.prems" True show ?thesis by simp
  next
    case False
    obtain m' where m': "accept s tick p m = Some m'" "sim_ok s m'" "length (m_log m) \<le> length (m_log m')"
      using accept_ok[of s m p tick] "2.prems" by auto
    have "\<forall>(p, t)\<in>set fs. 0 \<le> op_Base p \<and> op_Base p \<le> int (length (m_log m'))"
      using "2.prems"(2) m'(3) by fastforce
    with "2.IH"(2)[OF False m'(1,2)] m'(1) False show ?thesis by simp
  qed
qed simp

lemma receive_ok:
  assumes "sim_ok s m" "\<forall>(p, t)\<in>set fs. op_Base p < int (length (m_log m))"
  shows "sim_ok s (receive s tick fs m)"
  using assms
proof (induction s tick fs m rule: receive.induct)
  case (2 s tick p arrives fs m)
  have "sim_ok s (m\<lparr>m_toClients := m_toClients m @ [(p, arrives)]\<rparr>)"
    using "2.prems" by (auto simp: sim_ok_def ops_ok_def)
  moreover have "sim_ok s (m\<lparr>m_clients := confirm s p (m_clients m)\<rparr>)"
    using "2.prems" confirm_ok[of "length (m_log m)" "m_clients m" p s] by (simp add: sim_ok_def ops_ok_def)
  ultimately show ?case using "2.IH" "2.prems" by simp
qed simp

lemma one_tick_ok:
  assumes "sim_ok s m"
  shows "\<exists>m'. one_tick s tick m = Some m' \<and> sim_ok s m'"
proof -
  let ?m = "author s tick (m_edits m) m"
  have m: "sim_ok s ?m" using author_ok assms .
  then have "sim_ok s (?m\<lparr>m_toServer := []\<rparr>)" "\<forall>(p, t)\<in>set (m_toServer ?m). 0 \<le> op_Base p \<and> op_Base p \<le> int (length (m_log ?m))"
    by (auto simp: sim_ok_def ops_ok_def)
  then obtain m1 where m1: "server s tick (m_toServer ?m) (?m\<lparr>m_toServer := []\<rparr>) = Some m1" "sim_ok s m1"
    using server_ok[of s "?m\<lparr>m_toServer := []\<rparr>" "m_toServer ?m" tick] by auto
  from m1(2) have "sim_ok s (m1\<lparr>m_toClients := []\<rparr>)" "\<forall>(p, t)\<in>set (m_toClients m1). op_Base p < int (length (m_log m1))"
    by (auto simp: sim_ok_def ops_ok_def)
  with receive_ok[of s "m1\<lparr>m_toClients := []\<rparr>" "m_toClients m1" tick] m1(1) show ?thesis
    by (simp add: one_tick_def Let_def)
qed

lemma ticks_ok: "sim_ok s m \<Longrightarrow> \<exists>m' t. ticks s tick h m = Some (m', t) \<and> sim_ok s m'"
proof (induction s tick h m rule: ticks.induct)
  case (1 s tick h m)
  obtain m1 where m1: "one_tick s tick m = Some m1" "sim_ok s m1" using one_tick_ok "1.prems" by blast
  show ?case
  proof (cases "tick > h")
    case True
    then show ?thesis using "1.prems" by (simp add: ticks.simps[of s tick h m])
  next
    case False
    then show ?thesis using "1.IH"[OF False m1(1) _ m1(2)] m1
      by (subst (1) ticks.simps, cases "m_edits m1 = [] \<and> m_toServer m1 = [] \<and> m_toClients m1 = []") auto
  qed
qed

lemma drain_ok: "sim_ok s m \<Longrightarrow> sim_ok s (drain s m)"
proof -
  assume ok: "sim_ok s m"
  have "\<forall>(p, t)\<in>set fs. op_Base p < int k \<Longrightarrow> clients_ok k cs
    \<Longrightarrow> clients_ok k (fold (\<lambda>(p, arrives) cs. confirm s p cs) fs cs)" for fs cs k
  proof (induction fs arbitrary: cs)
    case (Cons f fs)
    then show ?case using confirm_ok[of k cs "fst f" s] by (simp add: case_prod_unfold)
  qed simp
  from this[of "m_toClients m" "length (m_log m)" "m_clients m"] ok show ?thesis by (simp add: drain_def sim_ok_def ops_ok_def)
qed

lemma start_ok: "sim_ok s (start s)"
proof -
  have "clients_ok 0 cs \<Longrightarrow> clients_ok 0 (fold (\<lambda>e cs. actorOf t (e_Actor e) cs) es cs)" for t es cs
    by (induction es arbitrary: cs) (simp_all add: actorOf_ok)
  from this[of "[]" "s_Initial s" "sort_key e_At (s_Edits s)"]
  have "clients_ok 0 (fold (\<lambda>e cs. actorOf (s_Initial s) (e_Actor e) cs) (sort_key e_At (s_Edits s)) [])"
    by (simp add: clients_ok_def)
  then show ?thesis by (simp add: start_def Let_def sim_ok_def ops_ok_def actorOf_ok)
qed

text \<open>A run never indexes outside the log, so it always gives a report. The server's text is the replay of
  its log over the initial text, every operation a replica predicted is confirmed or still pending, and the
  report counts as many retransmissions as it draws lost packets.\<close>

theorem Run_replays:
  "\<exists>r. Run s = Some r \<and> rep_ReplayMatches r \<and> rep_ServerText r = fold Apply (rep_Log r) (s_Initial s) \<and>
     list_all (\<lambda>x. r_Predicted x = r_Confirmed x + r_Pending x) (rep_Replicas r) \<and>
     rep_Retransmits r = length (filter d_Lost (rep_Deliveries r))"
proof -
  have core: "\<exists>r. run_report s = Some r \<and> rep_ReplayMatches r \<and> rep_ServerText r = fold Apply (rep_Log r) (s_Initial s) \<and>
     list_all (\<lambda>x. r_Predicted x = r_Confirmed x + r_Pending x) (rep_Replicas r) \<and>
     rep_Retransmits r = length (filter d_Lost (rep_Deliveries r))" for s
  proof -
    obtain m t where m: "ticks s 0 (horizon s) (start s) = Some (m, t)" "sim_ok s m"
      using ticks_ok start_ok by blast
    have "sim_ok s ((drain s ^^ k) m)" for k by (induction k) (simp_all add: m(2) drain_ok)
    then have "sim_ok s ((drain s ^^ 4) m)" .
    then show ?thesis using m(1)
      by (auto simp: run_report_def Let_def sim_ok_def clients_ok_def client_ok_def list_all_iff)
  qed
  obtain r where r: "run_report s = Some r" "rep_ReplayMatches r" "rep_ServerText r = fold Apply (rep_Log r) (s_Initial s)"
     "list_all (\<lambda>x. r_Predicted x = r_Confirmed x + r_Pending x) (rep_Replicas r)"
     "rep_Retransmits r = length (filter d_Lost (rep_Deliveries r))" using core by blast
  have "\<exists>v. checkIntent s r = Some v" using core[of "s\<lparr>s_Transform := True\<rparr>"] by (auto simp: checkIntent_def Let_def)
  then obtain vs t where "checkIntent s r = Some (vs, t)" by fastforce
  with r show ?thesis by (simp add: Run_def)
qed

subsection \<open>Rollback\<close>

text \<open>Pending insertions, each in range where it was typed.\<close>

fun typed :: "Op list \<Rightarrow> string \<Rightarrow> bool" where
  "typed [] s = True"
| "typed (p # ps) s = (op_Kind p = Insert \<and> in_range p s \<and> typed ps (Apply p s))"

lemma Invert_insert: "op_Kind p = Insert \<Longrightarrow> Invert p t = Invert p s"
  by (simp add: Invert_def)

lemma undo_typed: "typed ps s \<Longrightarrow> undo_pending ps (fold Apply ps s) = s"
proof (induction ps arbitrary: s)
  case (Cons p ps)
  then have "undo_pending ps (fold Apply ps (Apply p s)) = Apply p s" by simp
  moreover have "Apply (Invert p (Apply p s)) (Apply p s) = s"
    using Cons.prems Invert_undoes_in_range[of p s] Invert_insert[of p "Apply p s" s] by simp
  ultimately show ?case by (simp add: undo_pending_def)
qed (simp add: undo_pending_def)

text \<open>A client whose only pending operation is an insertion, when somebody else's concurrent operation is
  confirmed, ends with the text the server has once it accepts that insertion, and with the insertion moved to
  where the server puts it.\<close>

theorem confirmation_converges:
  assumes "c_pending c = [p]" "op_Kind p = Insert" "c_text c = Apply p s" "in_range p s" "in_range q s"
    "\<not> tied p q" "op_ID p \<noteq> op_ID q"
  shows "c_text (applyConfirmed c q True) = Apply (Transform p q) (Apply q s) \<and>
    c_text (applyConfirmed c q True) = Apply (Transform q p) (c_text c) \<and>
    c_pending (applyConfirmed c q True) = [Transform p q]"
proof -
  have "undo_pending [p] (c_text c) = s" using undo_typed[of "[p]" s] assms by simp
  moreover have "Apply (Transform q p) (Apply p s) = Apply (Transform p q) (Apply q s)"
    using converges[of p s q] assms by simp
  ultimately show ?thesis using assms by (simp add: applyConfirmed_def Let_def)
qed

definition ed :: "string \<Rightarrow> op_kind \<Rightarrow> int \<Rightarrow> string \<Rightarrow> int \<Rightarrow> Edit" where
  "ed a k p t n = \<lparr>e_At = 0, e_Actor = a, e_Kind = k, e_Pos = p, e_Text = t, e_Len = n\<rparr>"

definition sc :: "int \<Rightarrow> 64 word \<Rightarrow> string \<Rightarrow> Edit list \<Rightarrow> Scenario" where
  "sc jitter seed t es = \<lparr>s_Wire = \<lparr>w_RTTMs = 2, w_LossPct = 0, w_JitterMs = jitter, w_Seed = seed\<rparr>,
     s_Transform = True, s_Initial = t, s_Edits = es\<rparr>"

text \<open>A client whose deletion is pending can end with a text that is not the server's, with transform
  on and a wire that neither loses nor delays: the rollback inverts the deletion from the text without the
  deleted bytes, and puts back fewer of them.\<close>

theorem rollback_loses_deletion:
  "(case Run (sc 0 7 ''abcdef'' [ed ''ada'' Insert 6 ''X'' 0, ed ''you'' Delete 2 [] 4]) of
      None \<Rightarrow> False
    | Some r \<Rightarrow> rep_ServerText r = ''abX'' \<and> map r_Text (rep_Replicas r) = [''abX'', ''ab''] \<and>
        map r_Pending (rep_Replicas r) = [0, 0] \<and> rep_Lost r = 0 \<and> \<not> rep_Converged r)"
  by code_simp

text \<open>An author who types two letters before the first is confirmed gets them torn apart, also with nobody
  else editing: the server transforms the second over the first, which its author had already seen.\<close>

theorem own_letters_torn_apart:
  "(case Run (sc 0 7 ''zz'' [ed ''you'' Insert 0 ''a'' 0, ed ''you'' Insert 1 ''b'' 0]) of
      None \<Rightarrow> False
    | Some r \<Rightarrow> rep_ServerText r = ''azbz'' \<and>
        fold Apply [an_op ''o1'' ''you'' Insert 0 ''a'' 0, an_op ''o2'' ''you'' Insert 1 ''b'' 0] ''zz'' = ''abzz'')"
  by code_simp

text \<open>A confirmation that overtakes an earlier one is dropped, not held: the replica's second operation
  stays pending for ever and its text differs from the server's, with transform on and nothing lost.\<close>

theorem early_confirmation_dropped:
  "(case Run (sc 5 0 ''ab'' [ed ''ada'' Insert 0 ''X'' 0, ed ''ada'' Insert 0 ''Y'' 0]) of
      None \<Rightarrow> False
    | Some r \<Rightarrow> map r_Pending (rep_Replicas r) = [1] \<and> rep_Lost r = 0 \<and> \<not> rep_Converged r)"
  by code_simp

theorem confirmation_converges_witness:
  "c_text (applyConfirmed (predict (an_op ''2'' ''you'' Insert 1 ''Z'' 0)
     \<lparr>c_text = ''abc'', c_pending = [], c_seen = 0, c_predicted = 0, c_confirmed = 0, c_rolled = 0\<rparr>)
     (an_op ''1'' ''ada'' Delete 0 [] 1) True) = ''Zbc''"
proof -
  let ?c = "predict (an_op ''2'' ''you'' Insert 1 ''Z'' 0) \<lparr>c_text = ''abc'', c_pending = [], c_seen = 0,
    c_predicted = 0, c_confirmed = 0, c_rolled = 0\<rparr>"
  have "c_pending ?c = [an_op ''2'' ''you'' Insert 1 ''Z'' 0]" "op_Kind (an_op ''2'' ''you'' Insert 1 ''Z'' 0) = Insert"
    "c_text ?c = Apply (an_op ''2'' ''you'' Insert 1 ''Z'' 0) ''abc''" "in_range (an_op ''2'' ''you'' Insert 1 ''Z'' 0) ''abc''"
    "in_range (an_op ''1'' ''ada'' Delete 0 [] 1) ''abc''"
    "\<not> tied (an_op ''2'' ''you'' Insert 1 ''Z'' 0) (an_op ''1'' ''ada'' Delete 0 [] 1)"
    "op_ID (an_op ''2'' ''you'' Insert 1 ''Z'' 0) \<noteq> op_ID (an_op ''1'' ''ada'' Delete 0 [] 1)"
    by code_simp+
  from confirmation_converges[OF this] show ?thesis by code_simp
qed

end
