(* ===== verification/RefreshTokens.thy ===== *)
theory RefreshTokens
  imports Prelude
begin

text \<open>
  The refresh tokens of auth-service: the table with its queries (authrepo), internal/sessions (repo.go,
  rotation.go, refresh_token.go), and the use cases of internal/authservice that work on it: signing in, refreshing,
  and revoking one login or all of a user's. The hash of a token, the random token and identifier and the
  signature of the access token are arguments. An operation reads the clock once.
\<close>

subsection \<open>The table\<close>

type_synonym hash = "256 word"

record StoredToken =
  rt_ID :: uuid
  rt_UserID :: uuid
  rt_TokenHash :: hash
  rt_ParentID :: "uuid option"
  rt_ExpiresAt :: int
  rt_RevokedAt :: "int option"
  rt_CreatedAt :: int

type_synonym tokens = "StoredToken list"

definition FindByHash :: "tokens \<Rightarrow> hash \<Rightarrow> StoredToken option" where
  "FindByHash t h = find (\<lambda>r. rt_TokenHash r = h) t"

text \<open>\<open>sessions.Insert\<close>: \<open>None\<close> when a constraint of the table refuses the row (primary key, unique
  hash, foreign key of the parent).\<close>

definition InsertToken :: "int \<Rightarrow> uuid \<Rightarrow> uuid \<Rightarrow> hash \<Rightarrow> uuid option \<Rightarrow> int \<Rightarrow> tokens \<Rightarrow> tokens option" where
  "InsertToken now i u h parent expires t =
     (if i \<in> rt_ID ` set t \<or> h \<in> rt_TokenHash ` set t \<or> (case parent of None \<Rightarrow> False | Some p \<Rightarrow> p \<notin> rt_ID ` set t) then None
      else Some (t @ [\<lparr>rt_ID = i, rt_UserID = u, rt_TokenHash = h, rt_ParentID = parent, rt_ExpiresAt = expires,
        rt_RevokedAt = None, rt_CreatedAt = now\<rparr>]))"

text \<open>\<open>UPDATE \<dots> SET revoked_at = NOW() WHERE \<dots> AND revoked_at IS NULL\<close>.\<close>

definition revoke_where :: "int \<Rightarrow> (StoredToken \<Rightarrow> bool) \<Rightarrow> tokens \<Rightarrow> tokens" where
  "revoke_where now P t = map (\<lambda>r. if P r \<and> rt_RevokedAt r = None then r\<lparr>rt_RevokedAt := Some now\<rparr> else r) t"

definition affected :: "(StoredToken \<Rightarrow> bool) \<Rightarrow> tokens \<Rightarrow> nat" where
  "affected P t = length (filter (\<lambda>r. P r \<and> rt_RevokedAt r = None) t)"

definition Revoke_row :: "int \<Rightarrow> uuid \<Rightarrow> tokens \<Rightarrow> tokens" where
  "Revoke_row now i t = revoke_where now (\<lambda>r. rt_ID r = i) t"

text \<open>The recursive query that walks up to the root. \<open>None\<close>: no row, or more steps than rows.\<close>

fun ancestor :: "nat \<Rightarrow> tokens \<Rightarrow> uuid \<Rightarrow> uuid option" where
  "ancestor 0 t x = None"
| "ancestor (Suc n) t x = (case find (\<lambda>r. rt_ID r = x) t of
      None \<Rightarrow> None
    | Some r \<Rightarrow> (case rt_ParentID r of None \<Rightarrow> Some x | Some p \<Rightarrow> ancestor n t p))"

definition FindRefreshTokenRootID :: "tokens \<Rightarrow> uuid \<Rightarrow> uuid option" where
  "FindRefreshTokenRootID t x = ancestor (length t) t x"

text \<open>The recursive query that collects everything below some rows, level by level.\<close>

fun descendants :: "nat \<Rightarrow> tokens \<Rightarrow> uuid list \<Rightarrow> uuid list" where
  "descendants 0 t xs = []"
| "descendants (Suc n) t xs = xs @ descendants n t (map rt_ID (filter (\<lambda>r. rt_ParentID r \<in> Some ` set xs) t))"

definition RevokeRefreshTokenChain :: "int \<Rightarrow> uuid \<Rightarrow> tokens \<Rightarrow> tokens \<times> nat" where
  "RevokeRefreshTokenChain now root t =
     (let P = (\<lambda>r. rt_ID r \<in> set (descendants (length t) t [x. x \<leftarrow> map rt_ID t, x = root]))
      in (revoke_where now P t, affected P t))"

text \<open>\<open>sessions.RevokeChain\<close> and \<open>sessions.RevokeAllForUser\<close>.\<close>

definition RevokeChain :: "int \<Rightarrow> uuid \<Rightarrow> tokens \<Rightarrow> (tokens \<times> nat) option" where
  "RevokeChain now i t = (case FindRefreshTokenRootID t i of None \<Rightarrow> None | Some root \<Rightarrow> Some (RevokeRefreshTokenChain now root t))"

definition RevokeAllForUser :: "int \<Rightarrow> uuid \<Rightarrow> tokens \<Rightarrow> tokens" where
  "RevokeAllForUser now u t = revoke_where now (\<lambda>r. rt_UserID r = u) t"

definition CountActiveSessions :: "int \<Rightarrow> tokens \<Rightarrow> nat" where
  "CountActiveSessions now t = length (filter (\<lambda>r. rt_RevokedAt r = None \<and> rt_ExpiresAt r > now) t)"

subsection \<open>Rotation\<close>

text \<open>Seconds.\<close>

definition RefreshTokenLifetime :: int where
  "RefreshTokenLifetime = 30 * 24 * 3600"

datatype rotate_error = ErrRefreshTokenInvalid | ErrRefreshTokenExpired | ReuseDetected uuid nat | DatabaseError

text \<open>What the transaction has read of the token presented, and what it then does; \<open>Rotate\<close> does both at
  once. The tables are those of the open transaction.\<close>

definition rotate_row :: "(string \<Rightarrow> hash) \<Rightarrow> int \<Rightarrow> string \<Rightarrow> uuid \<Rightarrow> StoredToken option \<Rightarrow> tokens
    \<Rightarrow> (rotate_error + string \<times> uuid) \<times> tokens" where
  "rotate_row sha now fresh newID found t = (case found of
      None \<Rightarrow> (Inl ErrRefreshTokenInvalid, t)
    | Some row \<Rightarrow>
        if rt_RevokedAt row \<noteq> None then
          (case RevokeChain now (rt_ID row) t of
             None \<Rightarrow> (Inl DatabaseError, t)
           | Some (t', n) \<Rightarrow> (Inl (ReuseDetected (rt_UserID row) n), t'))
        else if now > rt_ExpiresAt row then (Inl ErrRefreshTokenExpired, t)
        else
          (let t1 = Revoke_row now (rt_ID row) t in
           case InsertToken now newID (rt_UserID row) (sha fresh) (Some (rt_ID row)) (now + RefreshTokenLifetime) t1 of
             None \<Rightarrow> (Inl DatabaseError, t1)
           | Some t2 \<Rightarrow> (Inr (fresh, rt_UserID row), t2)))"

definition Rotate :: "(string \<Rightarrow> hash) \<Rightarrow> int \<Rightarrow> string \<Rightarrow> uuid \<Rightarrow> string \<Rightarrow> tokens \<Rightarrow> (rotate_error + string \<times> uuid) \<times> tokens" where
  "Rotate sha now fresh newID presented t = rotate_row sha now fresh newID (FindByHash t (sha presented)) t"

datatype auth_error = ErrSessionExpired | ErrInternal

record TokenPair =
  AccessToken :: string
  RefreshToken :: string
  ExpiresIn :: int

text \<open>15 minutes.\<close>

definition AccessTokenLifetime :: int where
  "AccessTokenLifetime = 15 * 60"

text \<open>The end of \<open>Service.Refresh\<close>, from the result of the rotation on: which outcomes commit. The access token is \<open>None\<close> when signing fails.\<close>

definition finish_refresh :: "(uuid \<Rightarrow> string option) \<Rightarrow> tokens \<Rightarrow> (rotate_error + string \<times> uuid) \<times> tokens
    \<Rightarrow> (auth_error + TokenPair) \<times> tokens" where
  "finish_refresh sign t r = (case r of
      (Inl (ReuseDetected u n), t') \<Rightarrow> (Inl ErrSessionExpired, t')
    | (Inl ErrRefreshTokenExpired, t') \<Rightarrow> (Inl ErrSessionExpired, t)
    | (Inl ErrRefreshTokenInvalid, t') \<Rightarrow> (Inl ErrSessionExpired, t)
    | (Inl DatabaseError, t') \<Rightarrow> (Inl ErrInternal, t)
    | (Inr (newPlain, u), t') \<Rightarrow> (case sign u of
          None \<Rightarrow> (Inl ErrInternal, t)
        | Some access \<Rightarrow> (Inr \<lparr>AccessToken = access, RefreshToken = newPlain, ExpiresIn = AccessTokenLifetime\<rparr>, t')))"

definition Refresh :: "(string \<Rightarrow> hash) \<Rightarrow> (uuid \<Rightarrow> string option) \<Rightarrow> int \<Rightarrow> string \<Rightarrow> uuid \<Rightarrow> string \<Rightarrow> tokens
    \<Rightarrow> (auth_error + TokenPair) \<times> tokens" where
  "Refresh sha sign now fresh newID presented t = finish_refresh sign t (Rotate sha now fresh newID presented t)"

text \<open>\<open>issueTokenPair\<close>, which registering and signing in end with.\<close>

definition issueTokenPair :: "(string \<Rightarrow> hash) \<Rightarrow> (uuid \<Rightarrow> string option) \<Rightarrow> int \<Rightarrow> string \<Rightarrow> uuid \<Rightarrow> uuid \<Rightarrow> tokens
    \<Rightarrow> (auth_error + TokenPair) \<times> tokens" where
  "issueTokenPair sha sign now fresh newID u t = (case sign u of
      None \<Rightarrow> (Inl ErrInternal, t)
    | Some access \<Rightarrow> (case InsertToken now newID u (sha fresh) None (now + RefreshTokenLifetime) t of
          None \<Rightarrow> (Inl ErrInternal, t)
        | Some t' \<Rightarrow> (Inr \<lparr>AccessToken = access, RefreshToken = fresh, ExpiresIn = AccessTokenLifetime\<rparr>, t')))"

text \<open>\<open>Service.Revoke\<close> on the tokens and the blocklist, which keeps when an entry runs out. \<open>verify\<close> gives an
  access token's identifier and expiry, or \<open>None\<close>.\<close>

definition RevokeLogin_tokens :: "(string \<Rightarrow> hash) \<Rightarrow> int \<Rightarrow> string \<Rightarrow> tokens \<Rightarrow> auth_error option \<times> tokens" where
  "RevokeLogin_tokens sha now presented t = (case FindByHash t (sha presented) of
      None \<Rightarrow> (None, t)
    | Some row \<Rightarrow> (case RevokeChain now (rt_ID row) t of None \<Rightarrow> (Some ErrInternal, t) | Some (t', n) \<Rightarrow> (None, t')))"

type_synonym blocklist = "uuid \<rightharpoonup> int"

definition Block_jti :: "int \<Rightarrow> uuid \<Rightarrow> int \<Rightarrow> blocklist \<Rightarrow> blocklist" where
  "Block_jti now jti ttl b = b(jti \<mapsto> now + ttl)"

definition IsBlocked :: "int \<Rightarrow> uuid \<Rightarrow> blocklist \<Rightarrow> bool" where
  "IsBlocked now jti b = (case b jti of None \<Rightarrow> False | Some e \<Rightarrow> now < e)"

definition Service_RevokeLogin :: "(string \<Rightarrow> hash) \<Rightarrow> (string \<Rightarrow> (uuid \<times> int) option) \<Rightarrow> int \<Rightarrow> string \<Rightarrow> string option
    \<Rightarrow> tokens \<times> blocklist \<Rightarrow> auth_error option \<times> tokens \<times> blocklist" where
  "Service_RevokeLogin sha verify now presented access s =
     (case RevokeLogin_tokens sha now presented (fst s) of
        (Some e, t) \<Rightarrow> (Some e, t, snd s)
      | (None, t) \<Rightarrow>
          (None, t, (case access of
             None \<Rightarrow> snd s
           | Some a \<Rightarrow> (case verify a of
                 None \<Rightarrow> snd s
               | Some (jti, e) \<Rightarrow> if e - now > 0 then Block_jti now jti (e - now) (snd s) else snd s))))"

subsection \<open>Families\<close>

text \<open>Who was rotated into whom.\<close>

definition rotated :: "tokens \<Rightarrow> (uuid \<times> uuid) set" where
  "rotated t = {(p, rt_ID r) |p r. r \<in> set t \<and> rt_ParentID r = Some p}"

text \<open>What the table keeps: rows have their own identifiers and hashes and come after their parents, who have the same user.\<close>

fun table_ok :: "tokens \<Rightarrow> bool" where
  "table_ok [] = True"
| "table_ok (r # rs) = (rt_ID r \<notin> rt_ID ` set rs \<and> rt_TokenHash r \<notin> rt_TokenHash ` set rs \<and> table_ok rs \<and>
     (case rt_ParentID r of None \<Rightarrow> True | Some p \<Rightarrow> (\<exists>q\<in>set rs. rt_ID q = p \<and> rt_UserID q = rt_UserID r)))"

text \<open>The newest row is the head here, the last in the table.\<close>

abbreviation tokens_ok :: "tokens \<Rightarrow> bool" where
  "tokens_ok t \<equiv> table_ok (rev t)"

lemma table_ok_ids: "table_ok rs \<Longrightarrow> distinct (map rt_ID rs) \<and> distinct (map rt_TokenHash rs)"
  by (induction rs) auto

lemma table_ok_parent: "table_ok rs \<Longrightarrow> r \<in> set rs \<Longrightarrow> rt_ParentID r = Some p \<Longrightarrow> \<exists>q\<in>set rs. rt_ID q = p \<and> rt_UserID q = rt_UserID r"
  by (induction rs) auto

lemma id_unique: "tokens_ok t \<Longrightarrow> r \<in> set t \<Longrightarrow> q \<in> set t \<Longrightarrow> rt_ID r = rt_ID q \<Longrightarrow> r = q"
  using table_ok_ids[of "rev t"] by (auto simp: distinct_map inj_on_def)

lemma hash_unique: "tokens_ok t \<Longrightarrow> r \<in> set t \<Longrightarrow> q \<in> set t \<Longrightarrow> rt_TokenHash r = rt_TokenHash q \<Longrightarrow> r = q"
  using table_ok_ids[of "rev t"] by (auto simp: distinct_map inj_on_def)

lemma find_id: "tokens_ok t \<Longrightarrow> r \<in> set t \<Longrightarrow> find (\<lambda>q. rt_ID q = rt_ID r) t = Some r"
proof -
  assume t: "tokens_ok t" "r \<in> set t"
  obtain q where q: "find (\<lambda>q. rt_ID q = rt_ID r) t = Some q"
    using t(2) by (cases "find (\<lambda>q. rt_ID q = rt_ID r) t") (auto simp: find_None_iff)
  then have "q \<in> set t" "rt_ID q = rt_ID r" by (auto simp: find_Some_iff)
  with t q id_unique[of t q r] show ?thesis by simp
qed

text \<open>A walk down visits newer and newer rows, so it is shorter than the table.\<close>

lemma rotated_Cons: "rotated (r # rs) = (case rt_ParentID r of None \<Rightarrow> {} | Some p \<Rightarrow> {(p, rt_ID r)}) \<union> rotated rs"
  by (auto simp: rotated_def split: option.splits)

lemma rotated_rev [simp]: "rotated (rev t) = rotated t"
  by (simp add: rotated_def)

lemma rotated_dom: "table_ok rs \<Longrightarrow> (p, c) \<in> rotated rs \<Longrightarrow> p \<in> rt_ID ` set rs \<and> c \<in> rt_ID ` set rs"
  using table_ok_parent by (fastforce simp: rotated_def)

lemma walk_short: "table_ok rs \<Longrightarrow> (x, y) \<in> rotated rs ^^ k \<Longrightarrow> y \<in> rt_ID ` set rs \<Longrightarrow> k < length rs"
proof (induction rs arbitrary: k y)
  case (Cons r rs)
  have inner: "(x, z) \<in> rotated rs ^^ j" if "(x, z) \<in> rotated (r # rs) ^^ j" "z \<in> rt_ID ` set rs" for j z
    using that
  proof (induction j arbitrary: z)
    case (Suc j)
    then obtain w where w: "(x, w) \<in> rotated (r # rs) ^^ j" "(w, z) \<in> rotated (r # rs)" by auto
    have "z \<noteq> rt_ID r" using Suc.prems(2) Cons.prems(1) by (metis table_ok.simps(2))
    with w(2) have "(w, z) \<in> rotated rs" by (auto simp: rotated_Cons split: option.splits)
    moreover from this have "w \<in> rt_ID ` set rs" using rotated_dom[of rs w z] Cons.prems(1) by simp
    ultimately show ?case using Suc.IH[OF w(1)] by auto
  qed simp
  show ?case
  proof (cases "y \<in> rt_ID ` set rs")
    case True
    then show ?thesis using Cons.IH[OF _ inner[OF Cons.prems(2) True] True] Cons.prems(1) by simp
  next
    case False
    with Cons.prems(3) have y: "y = rt_ID r" by auto
    show ?thesis
    proof (cases k)
      case (Suc j)
      with Cons.prems(2) obtain w where w: "(x, w) \<in> rotated (r # rs) ^^ j" "(w, y) \<in> rotated (r # rs)" by auto
      have "(w, y) \<notin> rotated rs" using False rotated_dom[of rs w y] Cons.prems(1) by auto
      with w(2) have "w \<in> rt_ID ` set rs" using Cons.prems(1) by (auto simp: rotated_Cons split: option.splits)
      then have "j < length rs" using Cons.IH[OF _ inner[OF w(1)]] Cons.prems(1) by simp
      with Suc show ?thesis by simp
    qed simp
  qed
qed simp

text \<open>So both recursive queries see the whole family.\<close>

lemma set_descendants: "set (descendants n t xs) = {y. \<exists>k<n. \<exists>x\<in>set xs. (x, y) \<in> rotated t ^^ k}"
proof (induction n arbitrary: xs)
  case (Suc n)
  let ?next = "map rt_ID (filter (\<lambda>r. rt_ParentID r \<in> Some ` set xs) t)"
  have step: "(\<exists>z. (x, z) \<in> rotated t \<and> (z, y) \<in> rotated t ^^ k) = ((x, y) \<in> rotated t ^^ Suc k)" for x y k
    unfolding relpow.simps(2) relpow_commute[symmetric] by auto
  have nx: "z \<in> set ?next \<longleftrightarrow> (\<exists>x\<in>set xs. (x, z) \<in> rotated t)" for z by (auto simp: rotated_def)
  have "y \<in> set (descendants n t ?next) \<longleftrightarrow> (\<exists>k<n. \<exists>x\<in>set xs. (x, y) \<in> rotated t ^^ Suc k)" for y
    unfolding Suc.IH mem_Collect_eq Bex_def nx step[symmetric] by blast
  then show ?case
    unfolding descendants.simps set_append Ex_less_Suc2 by (auto simp del: relpow.simps(2))
qed simp

lemma ancestor_walk: "tokens_ok t \<Longrightarrow> ancestor n t y = Some r \<Longrightarrow>
    (r, y) \<in> (rotated t)\<^sup>* \<and> (\<exists>q\<in>set t. rt_ID q = r \<and> rt_ParentID q = None)"
proof (induction n t y rule: ancestor.induct)
  case (2 n t y)
  then obtain q where q: "find (\<lambda>r. rt_ID r = y) t = Some q" by (auto split: option.splits)
  then have in_t: "q \<in> set t" "rt_ID q = y" by (auto simp: find_Some_iff)
  show ?case
  proof (cases "rt_ParentID q")
    case None
    with 2 q in_t show ?thesis by auto
  next
    case (Some p)
    with 2 q have "(r, p) \<in> (rotated t)\<^sup>*" "\<exists>q\<in>set t. rt_ID q = r \<and> rt_ParentID q = None" by auto
    moreover have "(p, y) \<in> rotated t" using in_t Some by (auto simp: rotated_def)
    ultimately show ?thesis by auto
  qed
qed simp

lemma ancestor_ends: "tokens_ok t \<Longrightarrow> y \<in> rt_ID ` set t \<Longrightarrow> (\<forall>k x. (x, y) \<in> rotated t ^^ k \<longrightarrow> k < n) \<Longrightarrow> \<exists>r. ancestor n t y = Some r"
proof (induction n arbitrary: y)
  case 0
  from 0(3) have "(y, y) \<in> rotated t ^^ 0 \<longrightarrow> 0 < (0::nat)" by blast
  then show ?case by simp
next
  case (Suc n)
  then obtain q where q: "q \<in> set t" "rt_ID q = y" by auto
  then have f: "find (\<lambda>r. rt_ID r = y) t = Some q" using find_id[OF Suc.prems(1)] by auto
  show ?case
  proof (cases "rt_ParentID q")
    case (Some p)
    with q have e: "(p, y) \<in> rotated t" by (auto simp: rotated_def)
    then have "p \<in> rt_ID ` set t" using rotated_dom[of "rev t" p y] Suc.prems(1) by simp
    moreover have "\<forall>k x. (x, p) \<in> rotated t ^^ k \<longrightarrow> k < n"
    proof (intro allI impI)
      fix k x assume "(x, p) \<in> rotated t ^^ k"
      with e have "(x, y) \<in> rotated t ^^ Suc k" by auto
      with Suc.prems(3) have "Suc k < Suc n" by blast
      then show "k < n" by simp
    qed
    ultimately show ?thesis using Suc.IH Suc.prems(1) f Some by simp
  qed (use f in simp)
qed

lemma root_exists: "tokens_ok t \<Longrightarrow> y \<in> rt_ID ` set t \<Longrightarrow> \<exists>r. FindRefreshTokenRootID t y = Some r"
  unfolding FindRefreshTokenRootID_def
proof (rule ancestor_ends, assumption, assumption, intro allI impI)
  fix k x assume "tokens_ok t" "y \<in> rt_ID ` set t" "(x, y) \<in> rotated t ^^ k"
  then show "k < length t" using walk_short[of "rev t" x y k] by simp
qed

subsection \<open>What every operation keeps\<close>

text \<open>A row that was rotated is revoked, and was rotated into one row only.\<close>

definition chain_ok :: "tokens \<Rightarrow> bool" where
  "chain_ok t \<longleftrightarrow> tokens_ok t \<and>
     (\<forall>r\<in>set t. \<forall>c\<in>set t. rt_ParentID c = Some (rt_ID r) \<longrightarrow> rt_RevokedAt r \<noteq> None) \<and>
     (\<forall>c\<in>set t. \<forall>d\<in>set t. rt_ParentID c = rt_ParentID d \<and> rt_ParentID c \<noteq> None \<longrightarrow> c = d)"

text \<open>The steps: a sign-in or registration, a refresh, and the two revocations.\<close>

inductive token_step :: "(string \<Rightarrow> hash) \<Rightarrow> tokens \<Rightarrow> tokens \<Rightarrow> bool" for sha where
  signed_in: "issueTokenPair sha sign now fresh i u t = (res, t') \<Longrightarrow> token_step sha t t'"
| refreshed: "Refresh sha sign now fresh i presented t = (res, t') \<Longrightarrow> token_step sha t t'"
| signed_out: "RevokeLogin_tokens sha now presented t = (e, t') \<Longrightarrow> token_step sha t t'"
| signed_out_everywhere: "token_step sha t (RevokeAllForUser now u t)"

definition revoked_at :: "int \<Rightarrow> (StoredToken \<Rightarrow> bool) \<Rightarrow> StoredToken \<Rightarrow> StoredToken" where
  "revoked_at now P r = (if P r \<and> rt_RevokedAt r = None then r\<lparr>rt_RevokedAt := Some now\<rparr> else r)"

lemma revoke_where_map: "revoke_where now P t = map (revoked_at now P) t"
  by (simp add: revoke_where_def revoked_at_def)

lemma revoked_at_simps [simp]: "rt_ID (revoked_at now P r) = rt_ID r" "rt_TokenHash (revoked_at now P r) = rt_TokenHash r"
  "rt_ParentID (revoked_at now P r) = rt_ParentID r" "rt_UserID (revoked_at now P r) = rt_UserID r"
  "rt_ExpiresAt (revoked_at now P r) = rt_ExpiresAt r"
  "rt_RevokedAt (revoked_at now P r) = None \<longleftrightarrow> rt_RevokedAt r = None \<and> \<not> P r"
  by (auto simp add: revoked_at_def)

lemma revoke_where_ids: "rt_ID ` set (revoke_where now P t) = rt_ID ` set t" "length (revoke_where now P t) = length t"
  by (simp_all add: revoke_where_map image_image)

lemma table_ok_revoked: "table_ok (map (revoked_at now P) rs) = table_ok rs"
  by (induction rs) (auto simp: image_image split: option.splits)

lemma tokens_ok_revoke [simp]: "tokens_ok (revoke_where now P t) = tokens_ok t"
  by (simp add: revoke_where_map rev_map table_ok_revoked)

lemma rotated_iff: "(p, c) \<in> rotated t \<longleftrightarrow> (\<exists>r\<in>set t. rt_ID r = c \<and> rt_ParentID r = Some p)"
  by (auto simp: rotated_def)

lemma rotated_revoke [simp]: "rotated (revoke_where now P t) = rotated t"
  by (auto simp: rotated_iff revoke_where_map)

lemma find_revoke: "find (\<lambda>r. rt_ID r = x) (revoke_where now P t) = map_option (revoked_at now P) (find (\<lambda>r. rt_ID r = x) t)"
  by (induction t) (auto simp: revoke_where_map)

lemma ancestor_revoke: "ancestor n (revoke_where now P t) x = ancestor n t x"
  by (induction n t x rule: ancestor.induct) (auto simp: find_revoke split: option.splits)

lemma root_revoke [simp]: "FindRefreshTokenRootID (revoke_where now P t) x = FindRefreshTokenRootID t x"
  by (simp add: FindRefreshTokenRootID_def ancestor_revoke revoke_where_ids)

lemma chain_ok_revoke:
  assumes "chain_ok t"
  shows "chain_ok (revoke_where now P t)"
proof -
  have ok: "tokens_ok (revoke_where now P t)" using assms by (simp add: chain_ok_def)
  show ?thesis unfolding chain_ok_def
  proof (intro conjI ok ballI impI)
    fix r c assume "r \<in> set (revoke_where now P t)" "c \<in> set (revoke_where now P t)" "rt_ParentID c = Some (rt_ID r)"
    then obtain r0 c0 where "r0 \<in> set t" "c0 \<in> set t" "rt_ParentID c0 = Some (rt_ID r0)" and r: "r = revoked_at now P r0"
      by (auto simp: revoke_where_map)
    then have "rt_RevokedAt r0 \<noteq> None" using assms unfolding chain_ok_def by blast
    then show "rt_RevokedAt r \<noteq> None" unfolding r revoked_at_simps by blast
  next
    fix c d assume "c \<in> set (revoke_where now P t)" "d \<in> set (revoke_where now P t)" and p: "rt_ParentID c = rt_ParentID d \<and> rt_ParentID c \<noteq> None"
    then obtain c0 d0 where "c0 \<in> set t" "d0 \<in> set t" and cd: "c = revoked_at now P c0" "d = revoked_at now P d0"
      by (auto simp: revoke_where_map)
    moreover have "rt_ParentID c0 = rt_ParentID d0" "rt_ParentID c0 \<noteq> None" using p unfolding cd revoked_at_simps by blast+
    ultimately have "c0 = d0" using assms unfolding chain_ok_def by blast
    then show "c = d" using cd by simp
  qed
qed

lemma InsertToken_Some: "InsertToken now i u h parent expires t = Some t' \<Longrightarrow>
   t' = t @ [\<lparr>rt_ID = i, rt_UserID = u, rt_TokenHash = h, rt_ParentID = parent, rt_ExpiresAt = expires, rt_RevokedAt = None, rt_CreatedAt = now\<rparr>] \<and>
   i \<notin> rt_ID ` set t \<and> h \<notin> rt_TokenHash ` set t \<and> (\<forall>p. parent = Some p \<longrightarrow> p \<in> rt_ID ` set t)"
  by (auto simp: InsertToken_def split: if_splits option.splits)

text \<open>A new row: a root, or the only successor of a revoked row of the same user.\<close>

lemma chain_ok_insert:
  assumes t: "chain_ok t" and i: "InsertToken now i u h parent e t = Some t'"
    and parent: "\<And>p. parent = Some p \<Longrightarrow> \<exists>r\<in>set t. rt_ID r = p \<and> rt_UserID r = u \<and> rt_RevokedAt r \<noteq> None \<and> (\<forall>c\<in>set t. rt_ParentID c \<noteq> Some p)"
  shows "chain_ok t'"
proof -
  let ?r = "\<lparr>rt_ID = i, rt_UserID = u, rt_TokenHash = h, rt_ParentID = parent, rt_ExpiresAt = e, rt_RevokedAt = None, rt_CreatedAt = now\<rparr>"
  from InsertToken_Some[OF i] have t': "t' = t @ [?r]" and new: "i \<notin> rt_ID ` set t" "h \<notin> rt_TokenHash ` set t" by auto
  have ok: "tokens_ok t" using t by (simp add: chain_ok_def)
  have no_child: "rt_ParentID c \<noteq> Some i" if "c \<in> set t" for c
    using table_ok_parent[of "rev t" c i] ok that new(1) by auto
  have "tokens_ok t'" unfolding t' using ok new parent by (auto split: option.splits)
  moreover have "rt_RevokedAt r \<noteq> None" if rt: "r \<in> set t'" and ct: "c \<in> set t'" and pc: "rt_ParentID c = Some (rt_ID r)" for r c
  proof (cases "c \<in> set t")
    case True
    then have "r \<in> set t" using rt pc no_child unfolding t' by auto
    with True pc t show ?thesis by (auto simp: chain_ok_def)
  next
    case False
    then have c: "c = ?r" using ct unfolding t' by auto
    then obtain q where q: "q \<in> set t" "rt_ID q = rt_ID r" "rt_RevokedAt q \<noteq> None" using parent[of "rt_ID r"] pc by auto
    have "r \<in> set t" using rt q(1,2) new(1) unfolding t' by force
    with q id_unique[OF ok] show ?thesis by metis
  qed
  moreover have "c = d" if "c \<in> set t'" "d \<in> set t'" and same: "rt_ParentID c = rt_ParentID d" "rt_ParentID c \<noteq> None" for c d
  proof -
    have old: "rt_ParentID x \<noteq> parent" if "x \<in> set t" "rt_ParentID x \<noteq> None" for x using parent that by force
    have "c \<in> set t \<and> d \<in> set t \<or> c = ?r \<and> d = ?r \<or> c \<in> set t \<and> d = ?r \<or> c = ?r \<and> d \<in> set t"
      using \<open>c \<in> set t'\<close> \<open>d \<in> set t'\<close> unfolding t' by auto
    then show ?thesis
    proof (elim disjE conjE)
      assume "c \<in> set t" "d \<in> set t"
      with same t show ?thesis unfolding chain_ok_def by blast
    qed (use old same in auto)
  qed
  ultimately show ?thesis unfolding chain_ok_def by blast
qed

lemma FindByHash_Some: "FindByHash t h = Some row \<Longrightarrow> row \<in> set t \<and> rt_TokenHash row = h"
  by (auto simp: FindByHash_def find_Some_iff)

lemma RevokeChain_Some: "RevokeChain now i t = Some (t', n) \<Longrightarrow> \<exists>P. t' = revoke_where now P t"
  by (auto simp: RevokeChain_def RevokeRefreshTokenChain_def Let_def split: option.splits)

lemma Rotate_cases:
  assumes "Rotate sha now fresh i presented t = (res, t')"
  obtains (unchanged) "t' = t" "\<And>x. res \<noteq> Inr x"
    | (revoked) P u n where "t' = revoke_where now P t" "res = Inl (ReuseDetected u n)"
    | (half) "res = Inl DatabaseError"
    | (success) row where "row \<in> set t" "rt_TokenHash row = sha presented" "rt_RevokedAt row = None"
        "InsertToken now i (rt_UserID row) (sha fresh) (Some (rt_ID row)) (now + RefreshTokenLifetime) (Revoke_row now (rt_ID row) t) = Some t'"
        "res = Inr (fresh, rt_UserID row)"
proof (cases "FindByHash t (sha presented)")
  case None
  with assms show ?thesis by (intro unchanged) (auto simp: Rotate_def rotate_row_def)
next
  case (Some row)
  note row = FindByHash_Some[OF Some]
  show ?thesis
  proof (cases "rt_RevokedAt row = None")
    case False
    with assms Some show ?thesis
      by (auto simp: Rotate_def rotate_row_def split: option.splits dest: RevokeChain_Some intro: unchanged revoked)
  next
    case True
    show ?thesis
    proof (cases "now > rt_ExpiresAt row")
      case expired: True
      with assms Some True show ?thesis by (intro unchanged) (auto simp: Rotate_def rotate_row_def)
    next
      case False
      with assms Some True row show ?thesis
        by (auto simp: Rotate_def rotate_row_def Let_def split: option.splits intro: half success)
    qed
  qed
qed

text \<open>Every step is some revocations, perhaps followed by one new row: a root, or the successor of a row that
  these revocations include.\<close>

lemma token_step_cases:
  assumes "token_step sha t t'" "chain_ok t"
  obtains (revoked) now P where "t' = revoke_where now P t"
    | (root) now i u h e where "InsertToken now i u h None e t = Some t'"
    | (rotated) now i row h e where "row \<in> set t" "rt_RevokedAt row = None"
        "InsertToken now i (rt_UserID row) h (Some (rt_ID row)) e (Revoke_row now (rt_ID row) t) = Some t'"
proof -
  have same: "t = revoke_where 0 (\<lambda>r. False) t" by (simp add: revoke_where_def)
  from assms(1) show ?thesis
  proof cases
    case (signed_in sign now fresh i u res)
    then show ?thesis using same by (auto simp: issueTokenPair_def split: option.splits intro: root revoked)
  next
    case (refreshed sign now fresh i presented res)
    obtain rr tr where rr: "Rotate sha now fresh i presented t = (rr, tr)" by fastforce
    with refreshed have f: "finish_refresh sign t (rr, tr) = (res, t')" by (simp add: Refresh_def)
    from rr show ?thesis
    proof (cases rule: Rotate_cases)
      case unchanged
      with f same show ?thesis by (auto simp: finish_refresh_def split: sum.splits rotate_error.splits intro: revoked)
    next
      case (revoked P u n)
      with f show ?thesis by (auto simp: finish_refresh_def intro: that(1))
    next
      case half
      with f same show ?thesis by (auto simp: finish_refresh_def intro: revoked)
    next
      case (success row)
      with f same show ?thesis by (auto simp: finish_refresh_def split: option.splits intro: revoked rotated)
    qed
  next
    case (signed_out now presented e)
    then show ?thesis using same
      by (auto simp: RevokeLogin_tokens_def split: option.splits dest: RevokeChain_Some intro: revoked)
  next
    case (signed_out_everywhere now u)
    then show ?thesis by (auto simp: RevokeAllForUser_def intro: revoked)
  qed
qed

lemma Revoke_row_row: "row \<in> set t \<Longrightarrow> rt_RevokedAt row = None \<Longrightarrow>
    \<exists>r\<in>set (Revoke_row now (rt_ID row) t). rt_ID r = rt_ID row \<and> rt_UserID r = rt_UserID row \<and> rt_RevokedAt r \<noteq> None"
  unfolding Revoke_row_def revoke_where_map set_map
  by (rule bexI[of _ "revoked_at now (\<lambda>r. rt_ID r = rt_ID row) row"]) (auto simp: revoked_at_def)

lemma token_step_ok:
  assumes "token_step sha t t'" "chain_ok t"
  shows "chain_ok t'"
  using assms
proof (cases rule: token_step_cases)
  case (revoked now P)
  then show ?thesis using chain_ok_revoke assms(2) by simp
next
  case (root now i u h e)
  then show ?thesis using chain_ok_insert assms(2) by blast
next
  case (rotated now i row h e)
  have "\<forall>c\<in>set t. rt_ParentID c \<noteq> Some (rt_ID row)" using rotated assms(2) unfolding chain_ok_def by blast
  then have none: "\<forall>c\<in>set (Revoke_row now (rt_ID row) t). rt_ParentID c \<noteq> Some (rt_ID row)"
    by (simp add: Revoke_row_def revoke_where_map)
  have "chain_ok (Revoke_row now (rt_ID row) t)" unfolding Revoke_row_def by (rule chain_ok_revoke[OF assms(2)])
  from chain_ok_insert[OF this rotated(3)] Revoke_row_row[OF rotated(1,2)] none show ?thesis by fastforce
qed

inductive token_reach :: "(string \<Rightarrow> hash) \<Rightarrow> tokens \<Rightarrow> bool" for sha where
  empty: "token_reach sha []"
| step: "token_reach sha t \<Longrightarrow> token_step sha t t' \<Longrightarrow> token_reach sha t'"

lemma token_reach_ok: "token_reach sha t \<Longrightarrow> chain_ok t"
proof (induction rule: token_reach.induct)
  case empty
  then show ?case by (simp add: chain_ok_def)
qed (rule token_step_ok)

lemma same_root_related:
  assumes "chain_ok t" "FindRefreshTokenRootID t x = Some r" "FindRefreshTokenRootID t y = Some r"
  shows "(x, y) \<in> (rotated t)\<^sup>* \<or> (y, x) \<in> (rotated t)\<^sup>*"
proof -
  have "single_valued (rotated t)" using assms(1) unfolding chain_ok_def single_valued_def rotated_def by fastforce
  moreover have "(r, x) \<in> (rotated t)\<^sup>*" "(r, y) \<in> (rotated t)\<^sup>*"
    using assms ancestor_walk[of t "length t"] by (auto simp: chain_ok_def FindRefreshTokenRootID_def)
  ultimately show ?thesis by (rule single_valued_confluent)
qed

lemma rotated_is_revoked:
  assumes "chain_ok t" "r \<in> set t" "(rt_ID r, y) \<in> (rotated t)\<^sup>+"
  shows "rt_RevokedAt r \<noteq> None"
proof -
  from assms(3) obtain c where "(rt_ID r, c) \<in> rotated t" by (meson tranclD)
  with assms(1,2) show ?thesis unfolding chain_ok_def rotated_def by fastforce
qed

lemma one_active:
  assumes ok: "chain_ok t" and a: "a \<in> set t" "rt_RevokedAt a = None" and b: "b \<in> set t" "rt_RevokedAt b = None"
    and root: "FindRefreshTokenRootID t (rt_ID a) = FindRefreshTokenRootID t (rt_ID b)"
  shows "a = b"
proof -
  have t: "tokens_ok t" using ok by (simp add: chain_ok_def)
  obtain r where r: "FindRefreshTokenRootID t (rt_ID a) = Some r" using root_exists[OF t] a by blast
  have "rt_ID a = rt_ID b"
  proof (rule ccontr)
    assume "rt_ID a \<noteq> rt_ID b"
    then have "(rt_ID a, rt_ID b) \<in> (rotated t)\<^sup>+ \<or> (rt_ID b, rt_ID a) \<in> (rotated t)\<^sup>+"
      using same_root_related[OF ok r] r root by (metis rtranclD)
    with rotated_is_revoked[OF ok] a b show False by blast
  qed
  with id_unique[OF t] a b show ?thesis by blast
qed

text \<open>Roots do not move.\<close>

lemma ancestor_append: "ancestor n t x = Some r \<Longrightarrow> ancestor n (t @ [q]) x = Some r"
proof (induction n t x rule: ancestor.induct)
  case (2 n t x)
  have "find P (xs @ ys) = (case find P xs of None \<Rightarrow> find P ys | Some y \<Rightarrow> Some y)" for P and xs ys :: tokens
    by (induction xs) auto
  with 2 show ?case by (auto split: option.splits)
qed simp

lemma ancestor_more: "ancestor n t x = Some r \<Longrightarrow> ancestor (Suc n) t x = Some r"
proof (induction n t x rule: ancestor.induct)
  case (2 n t x)
  then obtain q where q: "find (\<lambda>r. rt_ID r = x) t = Some q" by (auto split: option.splits)
  show ?case
  proof (cases "rt_ParentID q")
    case (Some p)
    with 2 q have "ancestor (Suc n) t p = Some r" by (auto simp del: ancestor.simps(2) simp: ancestor.simps(2)[of n t x])
    with q Some show ?thesis by (subst ancestor.simps(2)) (simp del: ancestor.simps)
  qed (use 2 q in simp)
qed simp

lemma root_append: "FindRefreshTokenRootID t x = Some r \<Longrightarrow> FindRefreshTokenRootID (t @ [q]) x = Some r"
  unfolding FindRefreshTokenRootID_def using ancestor_more[OF ancestor_append] by simp

lemma root_new:
  assumes "rt_ID q \<notin> rt_ID ` set t"
  shows "FindRefreshTokenRootID (t @ [q]) (rt_ID q) =
    (case rt_ParentID q of None \<Rightarrow> Some (rt_ID q) | Some p \<Rightarrow> ancestor (length t) (t @ [q]) p)"
proof -
  have "find (\<lambda>r. rt_ID r = rt_ID q) (t @ [q]) = Some q" using assms by (induction t) auto
  then show ?thesis by (simp add: FindRefreshTokenRootID_def)
qed

lemma step_root:
  assumes "token_step sha t t'" "chain_ok t" "FindRefreshTokenRootID t x = Some r"
  shows "FindRefreshTokenRootID t' x = Some r"
  using assms(1,2)
proof (cases rule: token_step_cases)
  case (root now i u h e)
  with assms(3) show ?thesis by (auto dest!: InsertToken_Some intro: root_append)
next
  case (rotated now i row h e)
  with assms(3) show ?thesis by (auto dest!: InsertToken_Some intro!: root_append simp: Revoke_row_def)
qed (use assms(3) in simp)

text \<open>A family with no active row stays so.\<close>

definition ended :: "tokens \<Rightarrow> uuid \<Rightarrow> bool" where
  "ended t r \<longleftrightarrow> r \<in> rt_ID ` set t \<and> (\<forall>a\<in>set t. FindRefreshTokenRootID t (rt_ID a) = Some r \<longrightarrow> rt_RevokedAt a \<noteq> None)"

lemma ended_revoke_iff: "ended (revoke_where now P t) r \<longleftrightarrow> r \<in> rt_ID ` set t \<and>
    (\<forall>a\<in>set t. FindRefreshTokenRootID t (rt_ID a) = Some r \<longrightarrow> rt_RevokedAt a \<noteq> None \<or> P a)"
proof -
  have "set (revoke_where now P t) = revoked_at now P ` set t" by (simp add: revoke_where_map)
  then show ?thesis unfolding ended_def by (simp add: image_image del: not_None_eq)
qed

lemma ended_revoke: "ended t r \<Longrightarrow> ended (revoke_where now P t) r"
  unfolding ended_revoke_iff unfolding ended_def by blast

lemma ended_insert:
  assumes "ended t r" "chain_ok t" "InsertToken now i u h parent e t = Some t'"
    and "\<And>p. parent = Some p \<Longrightarrow> FindRefreshTokenRootID t p \<noteq> Some r"
  shows "ended t' r"
proof -
  let ?r = "\<lparr>rt_ID = i, rt_UserID = u, rt_TokenHash = h, rt_ParentID = parent, rt_ExpiresAt = e, rt_RevokedAt = None, rt_CreatedAt = now\<rparr>"
  from InsertToken_Some[OF assms(3)] have t': "t' = t @ [?r]" and new: "i \<notin> rt_ID ` set t" "\<And>p. parent = Some p \<Longrightarrow> p \<in> rt_ID ` set t" by auto
  have ok: "tokens_ok t" using assms(2) by (simp add: chain_ok_def)
  have not_new: "FindRefreshTokenRootID t' i \<noteq> Some r"
  proof (cases parent)
    case None
    then have "FindRefreshTokenRootID t' i = Some i" using root_new[of ?r t] new(1) unfolding t' by simp
    then show ?thesis using assms(1) new(1) by (auto simp: ended_def)
  next
    case (Some p)
    obtain s where s: "FindRefreshTokenRootID t p = Some s" using root_exists[OF ok new(2)[OF Some]] by blast
    then have "ancestor (length t) t' p = Some s" unfolding t' FindRefreshTokenRootID_def by (rule ancestor_append)
    then have "FindRefreshTokenRootID t' i = Some s" using root_new[of ?r t] new(1) Some unfolding t' by simp
    then show ?thesis using assms(4)[OF Some] s by simp
  qed
  have old: "rt_RevokedAt a \<noteq> None" if a: "a \<in> set t" "FindRefreshTokenRootID t' (rt_ID a) = Some r" for a
  proof -
    obtain s where s: "FindRefreshTokenRootID t (rt_ID a) = Some s" using root_exists[OF ok, of "rt_ID a"] a(1) by blast
    then have "FindRefreshTokenRootID t' (rt_ID a) = Some s" unfolding t' by (rule root_append)
    with a s assms(1) show ?thesis unfolding ended_def by auto
  qed
  show ?thesis unfolding ended_def
  proof (intro conjI ballI impI)
    show "r \<in> rt_ID ` set t'" using assms(1) unfolding t' ended_def by auto
    fix a assume a: "a \<in> set t'" "FindRefreshTokenRootID t' (rt_ID a) = Some r"
    show "rt_RevokedAt a \<noteq> None"
    proof (cases "a \<in> set t")
      case False
      then have "rt_ID a = i" using a(1) unfolding t' by auto
      then show ?thesis using a(2) not_new by simp
    qed (rule old[OF _ a(2)])
  qed
qed

lemma ended_step:
  assumes "token_step sha t t'" "chain_ok t" "ended t r"
  shows "ended t' r"
  using assms(1,2)
proof (cases rule: token_step_cases)
  case (revoked now P)
  with ended_revoke assms(3) show ?thesis by simp
next
  case (root now i u h e)
  then show ?thesis using ended_insert[OF assms(3,2)] by blast
next
  case (rotated now i row h e)
  have "FindRefreshTokenRootID t (rt_ID row) \<noteq> Some r" using assms(3) rotated(1,2) by (auto simp: ended_def)
  then show ?thesis
    using ended_insert[OF ended_revoke[OF assms(3)] chain_ok_revoke[OF assms(2)] rotated(3)[unfolded Revoke_row_def]] by simp
qed

lemma ended_steps: "(token_step sha)\<^sup>*\<^sup>* t t' \<Longrightarrow> chain_ok t \<Longrightarrow> ended t r \<Longrightarrow> chain_ok t' \<and> ended t' r"
  by (induction rule: rtranclp_induct) (auto intro: token_step_ok ended_step)

lemma RevokeChain_ends:
  assumes "chain_ok t" "row \<in> set t"
  obtains r t' n where "RevokeChain now (rt_ID row) t = Some (t', n)" "FindRefreshTokenRootID t (rt_ID row) = Some r" "ended t' r"
proof -
  have t: "tokens_ok t" using assms(1) by (simp add: chain_ok_def)
  obtain r where r: "FindRefreshTokenRootID t (rt_ID row) = Some r" using root_exists[OF t] assms(2) by blast
  let ?P = "\<lambda>q. rt_ID q \<in> set (descendants (length t) t [x. x \<leftarrow> map rt_ID t, x = r])"
  have in_t: "r \<in> rt_ID ` set t" using ancestor_walk[OF t] r by (force simp: FindRefreshTokenRootID_def)
  have "?P a" if "a \<in> set t" "FindRefreshTokenRootID t (rt_ID a) = Some r" for a
  proof -
    have "(r, rt_ID a) \<in> (rotated t)\<^sup>*" using ancestor_walk[OF t] that(2) by (auto simp: FindRefreshTokenRootID_def)
    then obtain k where k: "(r, rt_ID a) \<in> rotated t ^^ k" by (auto dest: rtrancl_imp_relpow)
    then have "k < length t" using walk_short[of "rev t" r "rt_ID a" k] t that(1) by simp
    with k in_t show ?thesis unfolding set_descendants by auto
  qed
  then have "ended (revoke_where now ?P t) r" using in_t unfolding ended_revoke_iff by blast
  then show ?thesis using that r by (auto simp: RevokeChain_def RevokeRefreshTokenChain_def Let_def)
qed

subsection \<open>What the rotation promises\<close>

text \<open>C12: whatever sign-ins, refreshes and revocations came before, one transaction after another, two active refresh tokens of
  one login, that is with the same root, are the same token. Overlapping refreshes are the exception.\<close>

theorem one_active_token_per_login:
  assumes "token_reach sha t" "a \<in> set t" "b \<in> set t" "rt_RevokedAt a = None" "rt_RevokedAt b = None"
    "FindRefreshTokenRootID t (rt_ID a) = FindRefreshTokenRootID t (rt_ID b)"
  shows "a = b"
  using one_active[OF token_reach_ok[OF assms(1)] assms(2,4,3,5,6)] .

lemma ended_refused:
  assumes "chain_ok t" "ended t r" "FindByHash t (sha q) = Some row" "FindRefreshTokenRootID t (rt_ID row) = Some r"
  shows "fst (Refresh sha sign now fresh i q t) = Inl ErrSessionExpired"
proof -
  have row: "row \<in> set t" using FindByHash_Some[OF assms(3)] by simp
  then have "rt_RevokedAt row \<noteq> None" using assms(2,4) unfolding ended_def by blast
  moreover obtain t' n where "RevokeChain now (rt_ID row) t = Some (t', n)" using RevokeChain_ends[OF assms(1) row] by metis
  ultimately show ?thesis using assms(3) by (auto simp: Refresh_def Rotate_def rotate_row_def finish_refresh_def)
qed


text \<open>Two refreshes with the same token that overlap, so that both read it before either commits, both
  succeed, and leave two active tokens of one login: the query that reads the token takes no lock, and nobody looks
  at how many rows the revocation changed.\<close>

theorem overlapping_refreshes_split:
  assumes "token_reach sha t" "FindByHash t (sha presented) = Some row" "rt_RevokedAt row = None" "now \<le> rt_ExpiresAt row"
    "{i, j} \<inter> rt_ID ` set t = {}" "i \<noteq> j" "{sha a, sha b} \<inter> rt_TokenHash ` set t = {}" "sha a \<noteq> sha b"
    "rotate_row sha now a i (FindByHash t (sha presented)) t = (r1, t1)"
    "rotate_row sha now b j (FindByHash t (sha presented)) t1 = (r2, t2)"
  shows "r1 = Inr (a, rt_UserID row) \<and> r2 = Inr (b, rt_UserID row) \<and>
    (\<exists>x y. {x, y} \<subseteq> set t2 \<and> x \<noteq> y \<and> rt_RevokedAt x = None \<and> rt_RevokedAt y = None \<and>
       rt_ParentID x = Some (rt_ID row) \<and> rt_ParentID y = Some (rt_ID row))"
proof -
  let ?x = "\<lparr>rt_ID = i, rt_UserID = rt_UserID row, rt_TokenHash = sha a, rt_ParentID = Some (rt_ID row),
    rt_ExpiresAt = now + RefreshTokenLifetime, rt_RevokedAt = None, rt_CreatedAt = now\<rparr>"
  let ?y = "\<lparr>rt_ID = j, rt_UserID = rt_UserID row, rt_TokenHash = sha b, rt_ParentID = Some (rt_ID row),
    rt_ExpiresAt = now + RefreshTokenLifetime, rt_RevokedAt = None, rt_CreatedAt = now\<rparr>"
  have row: "rt_ID row \<in> rt_ID ` set t" using FindByHash_Some[OF assms(2)] by blast
  have ids: "rt_ID ` set (Revoke_row now k u) = rt_ID ` set u" "rt_TokenHash ` set (Revoke_row now k u) = rt_TokenHash ` set u" for k u
    by (simp_all add: Revoke_row_def revoke_where_map image_image)
  have 1: "r1 = Inr (a, rt_UserID row)" "t1 = Revoke_row now (rt_ID row) t @ [?x]"
    using assms(2-9) row by (auto simp: rotate_row_def Let_def InsertToken_def ids)
  have i: "i \<noteq> rt_ID row" using row assms(5) by auto
  have "rt_ID ` set t1 = insert i (rt_ID ` set t)" "rt_TokenHash ` set t1 = insert (sha a) (rt_TokenHash ` set t)"
    unfolding 1(2) by (simp_all add: ids)
  then have "InsertToken now j (rt_UserID row) (sha b) (Some (rt_ID row)) (now + RefreshTokenLifetime) (Revoke_row now (rt_ID row) t1)
      = Some (Revoke_row now (rt_ID row) t1 @ [?y])"
    using assms(5-8) row by (auto simp: InsertToken_def ids)
  then have 2: "r2 = Inr (b, rt_UserID row)" "t2 = Revoke_row now (rt_ID row) t1 @ [?y]"
    using assms(2-4,10) by (auto simp: rotate_row_def Let_def)
  have "?x \<in> set (Revoke_row now (rt_ID row) t1)" unfolding 1(2) Revoke_row_def revoke_where_def using i by simp
  with 1 2 assms(6) show ?thesis by (intro conjI exI[of _ ?x] exI[of _ ?y]) auto
qed

subsection \<open>Instances\<close>

definition sample_hash :: "string \<Rightarrow> hash" where
  "sample_hash s = of_nat (length s)"

definition signed :: "uuid \<Rightarrow> string option" where
  "signed u = Some ''jwt''"

text \<open>A sign-in with the token "a", refreshed with "bb" and then "ccc".\<close>

definition sample_login :: tokens where
  "sample_login = snd (issueTokenPair sample_hash signed 0 ''a'' 1 42 [])"

definition sample_tokens :: tokens where
  "sample_tokens = snd (Refresh sample_hash signed 7 ''ccc'' 3 ''bb'' (snd (Refresh sample_hash signed 5 ''bb'' 2 ''a'' sample_login)))"

lemma reach_refresh: "token_reach sha t \<Longrightarrow> token_reach sha (snd (Refresh sha sign now fresh i presented t))"
  using token_reach.step token_step.refreshed by (metis prod.collapse)

lemma sample_login_reach: "token_reach sample_hash sample_login"
  unfolding sample_login_def using token_reach.step[OF token_reach.empty] token_step.signed_in by (metis prod.collapse)

lemma sample_reach: "token_reach sample_hash sample_tokens"
  unfolding sample_tokens_def by (intro reach_refresh sample_login_reach)

theorem one_active_token_per_login_witness:
  "{r. r \<in> set sample_tokens \<and> rt_RevokedAt r = None \<and> FindRefreshTokenRootID sample_tokens (rt_ID r) = Some 1} = {last sample_tokens}"
proof -
  have "last sample_tokens \<in> set sample_tokens" "rt_RevokedAt (last sample_tokens) = None"
    "FindRefreshTokenRootID sample_tokens (rt_ID (last sample_tokens)) = Some 1" by code_simp+
  with one_active_token_per_login[OF sample_reach _ this(1) _ this(2)] show ?thesis by fastforce
qed


theorem overlapping_refreshes_split_witness:
  "(case rotate_row sample_hash 5 ''bb'' 2 (FindByHash sample_login (sample_hash ''a'')) sample_login of (r1, t1) \<Rightarrow>
    case rotate_row sample_hash 5 ''ccc'' 3 (FindByHash sample_login (sample_hash ''a'')) t1 of (r2, t2) \<Rightarrow>
      r1 = Inr (''bb'', 42) \<and> r2 = Inr (''ccc'', 42))"
proof -
  have f: "FindByHash sample_login (sample_hash ''a'') = Some (hd sample_login)" "rt_RevokedAt (hd sample_login) = None"
    "5 \<le> rt_ExpiresAt (hd sample_login)" "{2, 3} \<inter> rt_ID ` set sample_login = {}" "(2::uuid) \<noteq> 3"
    "{sample_hash ''bb'', sample_hash ''ccc''} \<inter> rt_TokenHash ` set sample_login = {}" "sample_hash ''bb'' \<noteq> sample_hash ''ccc''"
    "rt_UserID (hd sample_login) = 42" by code_simp+
  obtain r1 t1 where 1: "rotate_row sample_hash 5 ''bb'' 2 (FindByHash sample_login (sample_hash ''a'')) sample_login = (r1, t1)" by fastforce
  obtain r2 t2 where 2: "rotate_row sample_hash 5 ''ccc'' 3 (FindByHash sample_login (sample_hash ''a'')) t1 = (r2, t2)" by fastforce
  from overlapping_refreshes_split[OF sample_login_reach f(1-7) 1 2] f(8) show ?thesis unfolding 1 2 prod.case by simp
qed

end
