(* ===== verification/Login.thy ===== *)
theory Login
  imports RefreshTokens
begin

text \<open>
  Signing in: internal/lockout over Redis keys that run out, internal/users and \<open>Service.Authenticate\<close> of
  internal/authservice. Verifying a password against a stored hash is an argument (\<open>None\<close>: a malformed hash).
  Times are seconds.
\<close>

subsection \<open>Redis keys\<close>

text \<open>A value and when it runs out; \<open>None\<close>: never.\<close>

type_synonym 'a redis_key = "('a \<times> int option) option"

definition live_key :: "int \<Rightarrow> 'a redis_key \<Rightarrow> 'a redis_key" where
  "live_key now k = (case k of Some (v, Some e) \<Rightarrow> if now < e then k else None | _ \<Rightarrow> k)"

text \<open>INCR keeps the expiry, EXPIRE sets it on a live key, SET replaces both.\<close>

definition redis_incr :: "int \<Rightarrow> nat redis_key \<Rightarrow> nat \<times> nat redis_key" where
  "redis_incr now k = (case live_key now k of None \<Rightarrow> (1, Some (1, None)) | Some (n, e) \<Rightarrow> (n + 1, Some (n + 1, e)))"

definition redis_expire :: "int \<Rightarrow> int \<Rightarrow> 'a redis_key \<Rightarrow> 'a redis_key" where
  "redis_expire now ttl k = map_option (\<lambda>(v, e). (v, Some (now + ttl))) (live_key now k)"

definition redis_exists :: "int \<Rightarrow> 'a redis_key \<Rightarrow> bool" where
  "redis_exists now k \<longleftrightarrow> live_key now k \<noteq> None"

subsection \<open>Lockout\<close>

definition FailuresBeforeLock :: nat where "FailuresBeforeLock = 5"
definition attemptWindow :: int where "attemptWindow = 3600"

record lockout =
  attempts :: "uuid \<Rightarrow> nat redis_key"
  locked :: "uuid \<Rightarrow> unit redis_key"

definition backoff :: "nat \<Rightarrow> int" where
  "backoff n = (if n < FailuresBeforeLock + 5 then 60
     else if n < FailuresBeforeLock + 10 then 5 * 60
     else if n < FailuresBeforeLock + 15 then 15 * 60
     else 30 * 60)"

definition RecordFailure :: "int \<Rightarrow> uuid \<Rightarrow> lockout \<Rightarrow> lockout" where
  "RecordFailure now u s =
     (let (n, k) = redis_incr now (attempts s u);
          k = (if n = 1 then redis_expire now attemptWindow k else k);
          s = s\<lparr>attempts := (attempts s)(u := k)\<rparr>
      in if n < FailuresBeforeLock then s
         else s\<lparr>locked := (locked s)(u := Some ((), Some (now + backoff n)))\<rparr>)"

definition IsLocked :: "int \<Rightarrow> uuid \<Rightarrow> lockout \<Rightarrow> bool" where
  "IsLocked now u s = redis_exists now (locked s u)"

definition ClearFailures :: "uuid \<Rightarrow> lockout \<Rightarrow> lockout" where
  "ClearFailures u s = s\<lparr>attempts := (attempts s)(u := None), locked := (locked s)(u := None)\<rparr>"

subsection \<open>Signing in\<close>

record User =
  us_ID :: uuid
  us_Email :: string
  us_PasswordHash :: string

definition FindByEmail :: "User list \<Rightarrow> string \<Rightarrow> User option" where
  "FindByEmail us email = find (\<lambda>r. us_Email r = email) us"

datatype login_error = ErrInvalidCredentials | ErrLoginInternal

text \<open>\<open>Authenticate\<close> reads the lock first and decides after the password has been verified; the second part is a definition
  of its own because sign-ins overlap. The time to verify is the gap between \<open>now\<close> of the two.\<close>

definition decide :: "(string \<Rightarrow> hash) \<Rightarrow> (uuid \<Rightarrow> string option) \<Rightarrow> (string \<Rightarrow> string \<Rightarrow> bool option) \<Rightarrow> int \<Rightarrow> string \<Rightarrow> uuid
    \<Rightarrow> User \<Rightarrow> string \<Rightarrow> bool \<Rightarrow> lockout \<times> tokens \<Rightarrow> (login_error + User \<times> TokenPair) \<times> lockout \<times> tokens" where
  "decide sha sign verify now fresh newID user password was_locked s =
     (case verify (us_PasswordHash user) password of
        None \<Rightarrow> (Inl ErrLoginInternal, s)
      | Some False \<Rightarrow> (Inl ErrInvalidCredentials, RecordFailure now (us_ID user) (fst s), snd s)
      | Some True \<Rightarrow>
          if was_locked then (Inl ErrInvalidCredentials, s)
          else (case issueTokenPair sha sign now fresh newID (us_ID user) (snd s) of
                  (Inl e, t) \<Rightarrow> (Inl ErrLoginInternal, ClearFailures (us_ID user) (fst s), t)
                | (Inr pair, t) \<Rightarrow> (Inr (user, pair), ClearFailures (us_ID user) (fst s), t)))"

definition Authenticate :: "(string \<Rightarrow> hash) \<Rightarrow> (uuid \<Rightarrow> string option) \<Rightarrow> (string \<Rightarrow> string \<Rightarrow> bool option) \<Rightarrow> int \<Rightarrow> string \<Rightarrow> uuid
    \<Rightarrow> User list \<Rightarrow> string \<Rightarrow> string \<Rightarrow> lockout \<times> tokens \<Rightarrow> (login_error + User \<times> TokenPair) \<times> lockout \<times> tokens" where
  "Authenticate sha sign verify now fresh newID us email password s =
     (case FindByEmail us email of
        None \<Rightarrow> (Inl ErrInvalidCredentials, s)
      | Some user \<Rightarrow> decide sha sign verify now fresh newID user password (IsLocked now (us_ID user) (fst s)) s)"

subsection \<open>The lock holds\<close>

text \<open>A sign-in as it arrives: when, for whom, with which password, and the random values it would use.\<close>

record attempt =
  at_now :: int
  at_email :: string
  at_password :: string
  at_fresh :: string
  at_id :: uuid

definition sign_in :: "(string \<Rightarrow> hash) \<Rightarrow> (uuid \<Rightarrow> string option) \<Rightarrow> (string \<Rightarrow> string \<Rightarrow> bool option) \<Rightarrow> User list \<Rightarrow> attempt
    \<Rightarrow> lockout \<times> tokens \<Rightarrow> (login_error + User \<times> TokenPair) \<times> lockout \<times> tokens" where
  "sign_in sha sign verify us a s = Authenticate sha sign verify (at_now a) (at_fresh a) (at_id a) us (at_email a) (at_password a) s"

definition sign_ins :: "(string \<Rightarrow> hash) \<Rightarrow> (uuid \<Rightarrow> string option) \<Rightarrow> (string \<Rightarrow> string \<Rightarrow> bool option) \<Rightarrow> User list \<Rightarrow> attempt list
    \<Rightarrow> lockout \<times> tokens \<Rightarrow> lockout \<times> tokens" where
  "sign_ins sha sign verify us as s = fold (\<lambda>a s. snd (sign_in sha sign verify us a s)) as s"

definition locked_until :: "int \<Rightarrow> uuid \<Rightarrow> lockout \<Rightarrow> bool" where
  "locked_until e u s \<longleftrightarrow> (\<exists>e'\<ge>e. locked s u = Some ((), Some e'))"

lemma backoff_minute: "60 \<le> backoff n"
  by (simp add: backoff_def)

lemma locked_until_locked: "locked_until e u s \<Longrightarrow> now < e \<Longrightarrow> IsLocked now u s"
  by (auto simp: locked_until_def IsLocked_def redis_exists_def live_key_def)

lemma RecordFailure_other: "v \<noteq> u \<Longrightarrow> locked (RecordFailure now v s) u = locked s u \<and> attempts (RecordFailure now v s) u = attempts s u"
  by (auto simp: RecordFailure_def Let_def split: prod.splits)

lemma RecordFailure_locked: "locked_until e u s \<Longrightarrow> e \<le> now + 60 \<Longrightarrow> locked_until e u (RecordFailure now v s)"
proof (cases "v = u")
  case True
  assume a: "locked_until e u s" "e \<le> now + 60"
  have "e \<le> now + backoff n" for n using a(2) backoff_minute[of n] by simp
  with a True show ?thesis by (auto simp: RecordFailure_def locked_until_def Let_def split: prod.splits)
qed (simp add: locked_until_def RecordFailure_other)

lemma sign_in_locked:
  assumes "locked_until e u (fst s)" "at_now a < e" "e \<le> at_now a + 60"
  shows "locked_until e u (fst (snd (sign_in sha sign verify us a s)))"
proof (cases "FindByEmail us (at_email a)")
  case (Some user)
  show ?thesis
  proof (cases "us_ID user = u")
    case True
    with Some assms locked_until_locked[OF assms(1,2)] RecordFailure_locked[OF assms(1,3)] show ?thesis
      by (auto simp: sign_in_def Authenticate_def decide_def split: option.splits bool.splits)
  next
    case False
    have "locked (ClearFailures (us_ID user) l) u = locked l u" for l using False by (simp add: ClearFailures_def)
    with Some False assms(1) RecordFailure_locked[OF assms(1,3)] show ?thesis
      by (auto simp: sign_in_def Authenticate_def decide_def locked_until_def split: option.splits bool.splits sum.splits prod.splits)
  qed
qed (use assms(1) in \<open>simp add: sign_in_def Authenticate_def\<close>)

lemma sign_ins_locked:
  assumes "locked_until e u (fst s)" "list_all (\<lambda>a. e - 60 \<le> at_now a \<and> at_now a < e) as"
  shows "locked_until e u (fst (sign_ins sha sign verify us as s))"
  using assms
proof (induction as arbitrary: s)
  case (Cons a as)
  then have "locked_until e u (fst (snd (sign_in sha sign verify us a s)))" using sign_in_locked[of e u s a] by simp
  with Cons show ?case by (simp add: sign_ins_def)
qed (simp add: sign_ins_def)

lemma locked_refuses:
  assumes "locked_until e (us_ID user) (fst s)" "FindByEmail us (at_email a) = Some user" "at_now a < e"
    "verify (us_PasswordHash user) (at_password a) \<noteq> None"
  shows "fst (sign_in sha sign verify us a s) = Inl ErrInvalidCredentials"
  using assms locked_until_locked[OF assms(1,3)]
  by (auto simp: sign_in_def Authenticate_def decide_def split: bool.splits)

text \<open>A wrong password for one account.\<close>

definition wrong :: "(string \<Rightarrow> string \<Rightarrow> bool option) \<Rightarrow> User list \<Rightarrow> User \<Rightarrow> attempt \<Rightarrow> bool" where
  "wrong verify us user a \<longleftrightarrow> FindByEmail us (at_email a) = Some user \<and> verify (us_PasswordHash user) (at_password a) = Some False"

lemma sign_in_wrong: "wrong verify us user a \<Longrightarrow>
    snd (sign_in sha sign verify us a s) = (RecordFailure (at_now a) (us_ID user) (fst s), snd s)"
  by (simp add: wrong_def sign_in_def Authenticate_def decide_def)

text \<open>Counting the failures of one window, which opened at \<open>t0\<close>.\<close>

lemma RecordFailure_counts:
  assumes "attempts l u = Some (n, Some (t0 + attemptWindow))" "now < t0 + attemptWindow" "0 < n"
  shows "attempts (RecordFailure now u l) u = Some (n + 1, Some (t0 + attemptWindow)) \<and>
    (4 \<le> n \<longrightarrow> locked_until (now + 60) u (RecordFailure now u l))"
  using assms backoff_minute[of "n + 1"]
  by (auto simp: RecordFailure_def redis_incr_def live_key_def Let_def locked_until_def FailuresBeforeLock_def)

lemma RecordFailure_first:
  assumes "live_key now (attempts l u) = None"
  shows "attempts (RecordFailure now u l) u = Some (1, Some (now + attemptWindow))"
  using assms by (simp add: RecordFailure_def redis_incr_def redis_expire_def Let_def FailuresBeforeLock_def live_key_def)

lemma more_failures:
  assumes "attempts (fst s) (us_ID user) = Some (n, Some (t0 + attemptWindow))" "0 < n"
    "list_all (wrong verify us user) as" "list_all (\<lambda>a. at_now a < t0 + attemptWindow) as"
  shows "attempts (fst (sign_ins sha sign verify us as s)) (us_ID user) = Some (n + length as, Some (t0 + attemptWindow)) \<and>
    (as \<noteq> [] \<and> 5 \<le> n + length as \<longrightarrow> locked_until (at_now (last as) + 60) (us_ID user) (fst (sign_ins sha sign verify us as s)))"
  using assms
proof (induction as arbitrary: n s)
  case (Cons a as)
  let ?s = "(RecordFailure (at_now a) (us_ID user) (fst s), snd s)"
  have s: "sign_ins sha sign verify us (a # as) s = sign_ins sha sign verify us as ?s"
    using sign_in_wrong[of verify us user a sha sign s] Cons.prems(3) by (simp add: sign_ins_def)
  note c = RecordFailure_counts[OF Cons.prems(1) _ Cons.prems(2), of "at_now a"]
  show ?case
  proof (cases "as = []")
    case True
    with c Cons.prems show ?thesis unfolding s by (simp add: sign_ins_def)
  next
    case False
    with c Cons.prems Cons.IH[of ?s "n + 1"] show ?thesis unfolding s by simp
  qed
qed (simp add: sign_ins_def)

text \<open>C25: five or more wrong passwords for an account within an hour of the first, one after another, with no failures counted before,
  lock it: for the minute after the last of them every sign-in to it is refused, with the right password too,
  whatever sign-ins to this and to other accounts happen in between.\<close>

theorem failures_lock_account:
  assumes "live_key (at_now (hd as)) (attempts (fst s) (us_ID user)) = None" "5 \<le> length as" "list_all (wrong verify us user) as"
    "list_all (\<lambda>a. at_now a < at_now (hd as) + attemptWindow) as"
    "list_all (\<lambda>b. at_now (last as) \<le> at_now b \<and> at_now b < at_now (last as) + 60) (bs @ [b])"
    "FindByEmail us (at_email b) = Some user" "verify (us_PasswordHash user) (at_password b) \<noteq> None"
  shows "fst (sign_in sha sign verify us b (sign_ins sha sign verify us (as @ bs) s)) = Inl ErrInvalidCredentials"
proof -
  obtain a rest where as: "as = a # rest" using assms(2) by (cases as) auto
  with assms(2) have rest: "rest \<noteq> []" by auto
  let ?s = "(RecordFailure (at_now a) (us_ID user) (fst s), snd s)" and ?l = "sign_ins sha sign verify us as s"
  have "?l = sign_ins sha sign verify us rest ?s" using sign_in_wrong[of verify us user a sha sign s] assms(3) by (simp add: sign_ins_def as)
  moreover have "attempts (fst ?s) (us_ID user) = Some (1, Some (at_now a + attemptWindow))"
    using RecordFailure_first assms(1) by (simp add: as)
  ultimately have "locked_until (at_now (last as) + 60) (us_ID user) (fst ?l)"
    using more_failures[of ?s user 1 "at_now a" verify us rest sha sign] assms(2-4) as rest by simp
  then have "locked_until (at_now (last as) + 60) (us_ID user) (fst (sign_ins sha sign verify us bs ?l))"
    by (rule sign_ins_locked) (use assms(5) in simp)
  with locked_refuses[of "at_now (last as) + 60" user "sign_ins sha sign verify us bs ?l" us b verify sha sign] assms(5-7)
  show ?thesis by (simp add: sign_ins_def)
qed

subsection \<open>Sign-ins that overlap\<close>

text \<open>Sign-ins that read the lock before the others' failures were recorded are not stopped by it: after any number of
  wrong guesses in flight, five of which have locked the account, the right one still signs in and lifts the lock.\<close>

theorem guesses_in_flight_pass_lock:
  assumes "list_all (\<lambda>a. verify (us_PasswordHash user) (at_password a) = Some False \<and> at_now a = now) (as :: attempt list)" "5 \<le> length as"
    "live_key now (attempts (fst s) (us_ID user)) = None" "verify (us_PasswordHash user) password = Some True"
    "s1 = fold (\<lambda>a s. snd (decide sha sign verify (at_now a) (at_fresh a) (at_id a) user (at_password a) False s)) as s"
    "decide sha sign verify now fresh i user password False s1 = (res, s2)"
    "fst (issueTokenPair sha sign now fresh i (us_ID user) (snd s)) = Inr pair"
  shows "IsLocked now (us_ID user) (fst s1) \<and> res = Inr (user, pair) \<and> \<not> IsLocked now (us_ID user) (fst s2)"
proof -
  let ?f = "\<lambda>a s. (RecordFailure now (us_ID user) (fst s), snd s)"
  have run: "fold (\<lambda>a s. snd (decide sha sign verify (at_now a) (at_fresh a) (at_id a) user (at_password a) False s)) as s = fold ?f as s"
    if "list_all (\<lambda>a. verify (us_PasswordHash user) (at_password a) = Some False \<and> at_now a = now) as" for as :: "attempt list" and s
    using that by (induction as arbitrary: s) (auto simp: decide_def)
  have count: "attempts (fst (fold ?f as s)) (us_ID user) = Some (n + length as, Some (now + attemptWindow)) \<and>
      (as \<noteq> [] \<and> 5 \<le> n + length as \<longrightarrow> locked_until (now + 60) (us_ID user) (fst (fold ?f as s))) \<and> snd (fold ?f as s) = snd s"
    if "attempts (fst s) (us_ID user) = Some (n, Some (now + attemptWindow))" "0 < n" for as :: "attempt list" and n and s :: "lockout \<times> tokens"
    using that
  proof (induction as arbitrary: n s)
    case (Cons a as)
    note c = RecordFailure_counts[OF Cons.prems(1) _ Cons.prems(2), of now]
    show ?case using c Cons.IH[of "?f a s" "n + 1"] Cons.prems by (cases "as = []") (simp_all add: attemptWindow_def)
  qed simp
  obtain a rest where as: "as = a # rest" using assms(2) by (cases as) auto
  have "attempts (fst (?f a s)) (us_ID user) = Some (1, Some (now + attemptWindow))" using RecordFailure_first assms(3) by simp
  from count[OF this, of rest] assms(2) as run[OF assms(1)] assms(5)
  have "locked_until (now + 60) (us_ID user) (fst s1)" "snd s1 = snd s" by auto
  with locked_until_locked[of "now + 60" "us_ID user" "fst s1" now] assms(4,6,7) show ?thesis
    by (auto simp: decide_def IsLocked_def redis_exists_def live_key_def ClearFailures_def split: prod.splits sum.splits)
qed

subsection \<open>Instances\<close>

definition plain :: "string \<Rightarrow> string \<Rightarrow> bool option" where
  "plain stored password = Some (stored = password)"

definition sample_user :: User where
  "sample_user = \<lparr>us_ID = 42, us_Email = ''a@b.c'', us_PasswordHash = ''secret''\<rparr>"

definition no_lock :: "lockout \<times> tokens" where
  "no_lock = (\<lparr>attempts = (\<lambda>u. None), locked = (\<lambda>u. None)\<rparr>, [])"

definition guess :: "int \<Rightarrow> string \<Rightarrow> attempt" where
  "guess now password = \<lparr>at_now = now, at_email = ''a@b.c'', at_password = password, at_fresh = ''t'', at_id = 7\<rparr>"

theorem failures_lock_account_witness:
  "fst (sign_in sample_hash signed plain [sample_user] (guess 50 ''secret'')
     (sign_ins sample_hash signed plain [sample_user] ([guess 0 ''a'', guess 1 ''b'', guess 2 ''c'', guess 3 ''d'', guess 9 ''e''] @ [guess 20 ''secret'']) no_lock))
   = Inl ErrInvalidCredentials"
proof (rule failures_lock_account[where user = sample_user])
  show "live_key (at_now (hd [guess 0 ''a'', guess 1 ''b'', guess 2 ''c'', guess 3 ''d'', guess 9 ''e''])) (attempts (fst no_lock) (us_ID sample_user)) = None"
    by (simp add: no_lock_def live_key_def)
qed (simp_all add: wrong_def guess_def FindByEmail_def sample_user_def plain_def attemptWindow_def)

theorem guesses_in_flight_pass_lock_witness:
  "fst (decide sample_hash signed plain 0 ''t'' 7 sample_user ''secret'' False
     (fold (\<lambda>a s. snd (decide sample_hash signed plain (at_now a) (at_fresh a) (at_id a) sample_user (at_password a) False s))
       (replicate 5 (guess 0 ''x'')) no_lock)) =
   Inr (sample_user, \<lparr>AccessToken = ''jwt'', RefreshToken = ''t'', ExpiresIn = 900\<rparr>)"
proof -
  let ?s1 = "fold (\<lambda>a s. snd (decide sample_hash signed plain (at_now a) (at_fresh a) (at_id a) sample_user (at_password a) False s))
       (replicate 5 (guess 0 ''x'')) no_lock"
  obtain res s2 where d: "decide sample_hash signed plain 0 ''t'' 7 sample_user ''secret'' False ?s1 = (res, s2)" by (rule prod.exhaust)
  have "fst (issueTokenPair sample_hash signed 0 ''t'' 7 (us_ID sample_user) (snd no_lock)) =
      Inr \<lparr>AccessToken = ''jwt'', RefreshToken = ''t'', ExpiresIn = 900\<rparr>"
    by (simp add: issueTokenPair_def signed_def no_lock_def InsertToken_def AccessTokenLifetime_def)
  from guesses_in_flight_pass_lock[OF _ _ _ _ refl d this] have "res = Inr (sample_user, \<lparr>AccessToken = ''jwt'', RefreshToken = ''t'', ExpiresIn = 900\<rparr>)"
    by (simp add: plain_def sample_user_def guess_def no_lock_def live_key_def list_all_iff)
  with d show ?thesis by simp
qed

end
