(* ===== verification/Roles.thy ===== *)
theory Roles
  imports PageServer
begin

text \<open>
  Who may apply operations to a live page: internal/roles of collaboration-service (roles.go, resolver.go) and the
  part of wsapi.go that admits a connection. The resolver asks document-service for the page and
  auth-service for the actor's spaces, so it is composed of their models. Times are Go's nanoseconds.
\<close>

subsection \<open>The directory\<close>

type_synonym LiveRole = string

definition CanWrite :: "LiveRole \<Rightarrow> bool" where
  "CanWrite r \<longleftrightarrow> r = ''editor'' \<or> r = ''admin''"

text \<open>Five minutes.\<close>

definition DefaultTTL :: int where
  "DefaultTTL = 5 * 60 * 1000000000"

record entry =
  en_role :: LiveRole
  en_resolved :: int
  en_conns :: int

record Directory =
  by_key :: "uuid \<times> uuid \<rightharpoonup> entry"
  dir_ttl :: int

definition Dir_New :: "int \<Rightarrow> Directory" where
  "Dir_New ttl = \<lparr>by_key = Map.empty, dir_ttl = ttl\<rparr>"

definition Dir_Set :: "int \<Rightarrow> uuid \<Rightarrow> uuid \<Rightarrow> LiveRole \<Rightarrow> Directory \<Rightarrow> Directory" where
  "Dir_Set now page actor role d =
     (let conns = (case by_key d (page, actor) of None \<Rightarrow> 0 | Some e \<Rightarrow> en_conns e)
      in d\<lparr>by_key := (by_key d)((page, actor) \<mapsto> \<lparr>en_role = role, en_resolved = now, en_conns = conns + 1\<rparr>)\<rparr>)"

definition Dir_Clear :: "uuid \<Rightarrow> uuid \<Rightarrow> Directory \<Rightarrow> Directory" where
  "Dir_Clear page actor d = (case by_key d (page, actor) of
      None \<Rightarrow> d
    | Some e \<Rightarrow>
        if en_conns e \<le> 1 then d\<lparr>by_key := (by_key d)((page, actor) := None)\<rparr>
        else d\<lparr>by_key := (by_key d)((page, actor) \<mapsto> e\<lparr>en_conns := en_conns e - 1\<rparr>)\<rparr>)"

text \<open>Without the number of entries it returns.\<close>

definition Dir_Revoke :: "uuid \<Rightarrow> Directory \<Rightarrow> Directory" where
  "Dir_Revoke actor d = d\<lparr>by_key := (\<lambda>k. if snd k = actor then None else by_key d k)\<rparr>"

definition Role_of :: "int \<Rightarrow> uuid \<Rightarrow> uuid \<Rightarrow> Directory \<Rightarrow> LiveRole option" where
  "Role_of now page actor d = (case by_key d (page, actor) of
      None \<Rightarrow> None
    | Some e \<Rightarrow> if now - en_resolved e > dir_ttl d then None else Some (en_role e))"

definition CanApply :: "int \<Rightarrow> uuid \<Rightarrow> uuid \<Rightarrow> Directory \<Rightarrow> bool" where
  "CanApply now page actor d = (case Role_of now page actor d of None \<Rightarrow> False | Some role \<Rightarrow> CanWrite role)"

subsection \<open>Joining\<close>

datatype resolve_error = PageUnreadable status | NoSpace

text \<open>\<open>Resolve\<close>: GetPage and ListSpaces are called as the actor.\<close>

definition Resolve :: "member_table \<Rightarrow> page_table \<Rightarrow> auth_db \<Rightarrow> uuid \<Rightarrow> uuid \<Rightarrow> resolve_error + LiveRole" where
  "Resolve mem t db page actor = (case visible mem t actor page of
      Some e \<Rightarrow> Inl (PageUnreadable (toStatus e))
    | None \<Rightarrow> (case GetPage t page of
          None \<Rightarrow> Inl (PageUnreadable (toStatus (RepoError ErrNotFound)))
        | Some p \<Rightarrow> Inr (RoleInSpace db actor (SpaceID p))))"

datatype join_answer = ServiceUnavailable | PageNotFound | Joined LiveRole

definition join :: "int \<Rightarrow> member_table \<Rightarrow> page_table \<Rightarrow> auth_db \<Rightarrow> uuid \<Rightarrow> uuid \<Rightarrow> Directory \<Rightarrow> join_answer \<times> Directory" where
  "join now mem t db page actor d = (case Resolve mem t db page actor of
      Inl e \<Rightarrow> (ServiceUnavailable, d)
    | Inr role \<Rightarrow> if role = [] then (PageNotFound, d) else (Joined role, Dir_Set now page actor role d))"

subsection \<open>Histories of the directory\<close>

datatype dir_event = Opened int uuid uuid LiveRole | Closed uuid uuid | Revoked uuid

fun dir_step :: "dir_event \<Rightarrow> Directory \<Rightarrow> Directory" where
  "dir_step (Opened t p a r) d = Dir_Set t p a r d"
| "dir_step (Closed p a) d = Dir_Clear p a d"
| "dir_step (Revoked a) d = Dir_Revoke a d"

abbreviation after :: "int \<Rightarrow> dir_event list \<Rightarrow> Directory" where
  "after ttl es \<equiv> fold dir_step es (Dir_New ttl)"

text \<open>The role the last connection of a person to a page was admitted with and when, unless it was revoked since.\<close>

definition granted :: "uuid \<Rightarrow> uuid \<Rightarrow> dir_event list \<Rightarrow> (int \<times> LiveRole) option" where
  "granted p a es = fold (\<lambda>e g. case e of
      Opened t q b r \<Rightarrow> if (q, b) = (p, a) then Some (t, r) else g
    | Closed q b \<Rightarrow> g
    | Revoked b \<Rightarrow> if b = a then None else g) es None"

text \<open>How many connections are open.\<close>

definition conns :: "uuid \<Rightarrow> uuid \<Rightarrow> dir_event list \<Rightarrow> int" where
  "conns p a es = (\<Sum>e\<leftarrow>es. case e of
      Opened t q b r \<Rightarrow> if (q, b) = (p, a) then 1 else 0
    | Closed q b \<Rightarrow> if (q, b) = (p, a) then -1 else 0
    | Revoked b \<Rightarrow> 0)"

lemma granted_snoc: "granted p a (es @ [e]) = (case e of
      Opened t q b r \<Rightarrow> if (q, b) = (p, a) then Some (t, r) else granted p a es
    | Closed q b \<Rightarrow> granted p a es
    | Revoked b \<Rightarrow> if b = a then None else granted p a es)"
  by (cases e) (simp_all add: granted_def)

lemma conns_snoc: "conns p a (es @ [e]) = conns p a es + (case e of
      Opened t q b r \<Rightarrow> if (q, b) = (p, a) then 1 else 0
    | Closed q b \<Rightarrow> if (q, b) = (p, a) then -1 else 0
    | Revoked b \<Rightarrow> 0)"
  by (simp add: conns_def)

lemma step_ttl [simp]: "dir_ttl (dir_step e d) = dir_ttl d"
  by (cases e) (auto simp: Dir_Set_def Dir_Clear_def Dir_Revoke_def Let_def split: option.splits)

lemma after_ttl [simp]: "dir_ttl (after ttl es) = ttl"
  by (induction es rule: rev_induct) (simp_all add: Dir_New_def)

lemma entry_granted:
  "by_key (after ttl es) (p, a) = Some e \<Longrightarrow> granted p a es = Some (en_resolved e, en_role e)"
proof (induction es arbitrary: e rule: rev_induct)
  case Nil
  then show ?case by (simp add: Dir_New_def)
next
  case (snoc x es)
  then show ?case
    by (cases x) (auto simp: granted_snoc Dir_Set_def Dir_Clear_def Dir_Revoke_def Let_def split: option.splits if_splits)
qed

text \<open>Without revocations, and when no connection closes before it was opened, the entry counts the connections.\<close>

lemma entry_exact:
  assumes "\<forall>n. 0 \<le> conns p a (take n es)" "\<forall>b. Revoked b \<in> set es \<longrightarrow> b \<noteq> a"
  shows "(case by_key (after ttl es) (p, a) of None \<Rightarrow> conns p a es = 0 | Some e \<Rightarrow> 0 < conns p a es \<and> en_conns e = conns p a es)"
  using assms
proof (induction es rule: rev_induct)
  case Nil
  then show ?case by (simp add: Dir_New_def conns_def)
next
  case (snoc x es)
  have "\<forall>n. 0 \<le> conns p a (take n es)"
  proof
    fix n
    have "take (min n (length es)) (es @ [x]) = take n es" by (simp add: min_def)
    then show "0 \<le> conns p a (take n es)" using snoc.prems(1) by metis
  qed
  then have ih: "case by_key (after ttl es) (p, a) of None \<Rightarrow> conns p a es = 0 | Some e \<Rightarrow> 0 < conns p a es \<and> en_conns e = conns p a es"
    using snoc by simp
  have now: "0 \<le> conns p a (es @ [x])" using snoc.prems(1)[rule_format, of "Suc (length es)"] by simp
  show ?case
  proof (cases x)
    case (Revoked b)
    with snoc.prems(2) have "b \<noteq> a" by simp
    with Revoked ih show ?thesis by (auto simp: conns_snoc Dir_Revoke_def split: option.splits)
  qed (use ih now in \<open>auto simp: conns_snoc Dir_Set_def Dir_Clear_def Let_def split: option.splits if_splits\<close>)
qed

lemma CanApply_entry: "CanApply now p a d \<Longrightarrow> \<exists>e. by_key d (p, a) = Some e \<and> now - en_resolved e \<le> dir_ttl d"
  by (auto simp: CanApply_def Role_of_def split: option.splits if_splits)

text \<open>In every history of connections opened and closed, in which none closes before it was opened and the
  actor is not revoked, an operation is let through exactly when a connection of that actor to that page is open and the
  last one to open was admitted with a role that writes, no longer ago than the time to live.\<close>

theorem CanApply_exact:
  assumes "\<forall>n. 0 \<le> conns p a (take n es)" "Revoked a \<notin> set es"
  shows "CanApply now p a (after ttl es) \<longleftrightarrow> 0 < conns p a es \<and>
    (case granted p a es of None \<Rightarrow> False | Some (t, r) \<Rightarrow> now - t \<le> ttl \<and> CanWrite r)"
proof -
  have "\<forall>b. Revoked b \<in> set es \<longrightarrow> b \<noteq> a" using assms(2) by auto
  note exact = entry_exact[OF assms(1) this, of ttl]
  show ?thesis
  proof (cases "by_key (after ttl es) (p, a)")
    case None
    then show ?thesis using exact by (auto simp: CanApply_def Role_of_def)
  next
    case (Some e)
    then show ?thesis using exact entry_granted[OF Some] by (auto simp: CanApply_def Role_of_def)
  qed
qed

text \<open>From the moment a person was admitted, no operation of theirs on that page passes later than the time to live, not
  even while the connection is open and whatever other connections come and go, unless they join the page again;
  and none passes after a revocation.\<close>

theorem grants_run_out:
  assumes "\<forall>t r. Opened t p a r \<notin> set es'" "now > joined + ttl \<or> Revoked a \<in> set es'"
  shows "\<not> CanApply now p a (after ttl (es @ Opened joined p a role # es'))"
proof
  assume "CanApply now p a (after ttl (es @ Opened joined p a role # es'))"
  from CanApply_entry[OF this] obtain e where e: "by_key (after ttl (es @ Opened joined p a role # es')) (p, a) = Some e" "now - en_resolved e \<le> ttl"
    unfolding after_ttl by blast
  have "granted p a (es @ Opened joined p a role # es') = (if Revoked a \<in> set es' then None else Some (joined, role))"
    using assms(1)
  proof (induction es' rule: rev_induct)
    case Nil
    show ?case by (simp add: granted_def)
  next
    case (snoc x es')
    then show ?case using granted_snoc[of p a "es @ Opened joined p a role # es'" x] by (cases x) (auto split: if_splits)
  qed
  with entry_granted[OF e(1)] e(2) assms(2) show False by (auto split: if_splits)
qed

text \<open>A connection is admitted only to a page that exists, with the role auth-service holds for the page's space and only if
  document-service's projection has the actor in that space; then it can write exactly with a writing role. Everybody
  else, on a page that exists or not, is answered alike, and nothing is recorded for them.\<close>

theorem join_admits_members:
  "(case join now mem t db page actor d of
      (Joined role, d') \<Rightarrow>
        (case GetPage t page of None \<Rightarrow> False
         | Some p \<Rightarrow> SpaceID p \<in> set (SpacesFor mem actor) \<and> role = RoleInSpace db actor (SpaceID p) \<and> role \<noteq> [] \<and>
             CanApply now page actor d' = (CanWrite role \<and> 0 \<le> dir_ttl d))
    | (PageNotFound, d') \<Rightarrow> d' = d \<and>
        (case GetPage t page of None \<Rightarrow> False
         | Some p \<Rightarrow> SpaceID p \<in> set (SpacesFor mem actor) \<and> RoleInSpace db actor (SpaceID p) = [])
    | (ServiceUnavailable, d') \<Rightarrow> d' = d \<and>
        (case GetPage t page of None \<Rightarrow> True | Some p \<Rightarrow> SpaceID p \<notin> set (SpacesFor mem actor)))"
  by (auto simp: join_def Resolve_def visible_def list_ex_iff CanApply_def Role_of_def Dir_Set_def Let_def
      split: option.splits if_splits)

subsection \<open>Instances\<close>

definition two_tabs :: "dir_event list" where
  "two_tabs = [Opened 0 7 42 ''editor'', Opened 3 7 42 ''editor'', Closed 7 42]"

lemma two_tabs_ok: "\<forall>n. 0 \<le> conns 7 42 (take n two_tabs)"
proof
  fix n :: nat
  have "n = 0 \<or> n = 1 \<or> n = 2 \<or> 3 \<le> n" by arith
  then show "0 \<le> conns 7 42 (take n two_tabs)" by (auto simp: two_tabs_def conns_def numeral_2_eq_2)
qed

theorem CanApply_exact_witness: "CanApply 9 7 42 (after 10 two_tabs)"
proof -
  have "Revoked 42 \<notin> set two_tabs" by (simp add: two_tabs_def)
  from CanApply_exact[OF two_tabs_ok this, of 9 10] show ?thesis
    by (simp add: two_tabs_def conns_def granted_def CanWrite_def)
qed

theorem grants_run_out_witness: "\<not> CanApply 300000000001 7 42 (after DefaultTTL ([] @ Opened 0 7 42 ''editor'' # [Opened 5 7 43 ''viewer'']))"
  by (rule grants_run_out) (simp_all add: DefaultTTL_def)

end
