(* ===== verification/MdLex.thy ===== *)
theory MdLex
  imports Prelude "HOL-Library.Sublist"
begin

text \<open>
  Module mdc, file lex.go: the lexer of the paste compiler. It reads markdown-like text line by
  line and gives every line one token with its span of bytes. With it the functions of Go's
  package \<open>strings\<close> the compiler uses. A space is a rune with the property White_Space, given by
  its UTF-8 bytes: these sequences are whole runes, so one stands at the front (or end) of a text
  exactly if it is the first (last) rune there.
\<close>

subsection \<open>Package strings\<close>

definition space_runes :: "string list" where
  "space_runes = map (\<lambda>c. [c]) [CHR 0x20, CHR 0x09, CHR 0x0A, CHR 0x0B, CHR 0x0C, CHR 0x0D] @
     [[CHR 0xC2, CHR 0x85], [CHR 0xC2, CHR 0xA0], [CHR 0xE1, CHR 0x9A, CHR 0x80]] @
     map (\<lambda>c. [CHR 0xE2, CHR 0x80, c])
       [CHR 0x80, CHR 0x81, CHR 0x82, CHR 0x83, CHR 0x84, CHR 0x85, CHR 0x86, CHR 0x87, CHR 0x88, CHR 0x89,
        CHR 0x8A, CHR 0xA8, CHR 0xA9, CHR 0xAF] @
     [[CHR 0xE2, CHR 0x81, CHR 0x9F], [CHR 0xE3, CHR 0x80, CHR 0x80]]"

fun strip_first :: "string list \<Rightarrow> string \<Rightarrow> string option" where
  "strip_first [] s = None"
| "strip_first (e # es) s = (if e \<noteq> [] \<and> prefix e s then Some (drop (length e) s) else strip_first es s)"

lemma strip_first_shorter: "strip_first es s = Some r \<Longrightarrow> length r < length s"
  by (induction es) (auto split: if_splits simp: prefix_def)

function strip :: "string list \<Rightarrow> string \<Rightarrow> string" where
  "strip es s = (case strip_first es s of None \<Rightarrow> s | Some r \<Rightarrow> strip es r)"
  by pat_completeness auto
termination
  by (relation "measure (\<lambda>(es, s). length s)") (auto dest: strip_first_shorter)

declare strip.simps [simp del]

definition TrimSpace :: "string \<Rightarrow> string" where
  "TrimSpace s = rev (strip (map rev space_runes) (rev (strip space_runes s)))"

definition TrimRight :: "string \<Rightarrow> string \<Rightarrow> string" where
  "TrimRight s cutset = rev (dropWhile (\<lambda>c. c \<in> set cutset) (rev s))"

definition TrimLeft :: "string \<Rightarrow> string \<Rightarrow> string" where
  "TrimLeft s cutset = dropWhile (\<lambda>c. c \<in> set cutset) s"

definition TrimPrefix :: "string \<Rightarrow> string \<Rightarrow> string" where
  "TrimPrefix s p = (if prefix p s then drop (length p) s else s)"

fun str_index :: "string \<Rightarrow> string \<Rightarrow> nat option" where
  "str_index [] sub = (if sub = [] then Some 0 else None)"
| "str_index (c # cs) sub = (if prefix sub (c # cs) then Some 0 else map_option Suc (str_index cs sub))"

fun str_join :: "string list \<Rightarrow> string \<Rightarrow> string" where
  "str_join [] sep = []"
| "str_join [s] sep = s"
| "str_join (s # ss) sep = s @ sep @ str_join ss sep"

subsection \<open>Tokens\<close>

datatype TokenKind = TokATXHeading | TokParagraph | TokQuote | TokBullet | TokOrdered | TokTodo
  | TokFenceOpen | TokCodeText | TokFenceClose | TokDivider | TokBlank

record Token =
  tk_Kind :: TokenKind
  tk_Start :: nat
  tk_End :: nat
  tk_Text :: string
  tk_Level :: nat
  tk_Indent :: nat
  tk_Lang :: string
  tk_Checked :: bool

definition token :: "TokenKind \<Rightarrow> nat \<Rightarrow> nat \<Rightarrow> Token" where
  "token k a b = \<lparr>tk_Kind = k, tk_Start = a, tk_End = b, tk_Text = [], tk_Level = 0, tk_Indent = 0, tk_Lang = [],
     tk_Checked = False\<rparr>"

definition MaxHeadingLevel :: nat where "MaxHeadingLevel = 3"
definition IndentWidth :: nat where "IndentWidth = 2"

subsection \<open>Lines\<close>

abbreviation newline :: char where "newline \<equiv> CHR 0x0A"

fun split_lines :: "string \<Rightarrow> string \<Rightarrow> string list" where
  "split_lines cur [] = (if cur = [] then [] else [cur])"
| "split_lines cur (c # cs) = (if c = newline then (cur @ [c]) # split_lines [] cs else split_lines (cur @ [c]) cs)"

definition splitLinesKeepingEnds :: "string \<Rightarrow> string list" where
  "splitLinesKeepingEnds src = split_lines [] src"

definition isFence :: "string \<Rightarrow> bool" where
  "isFence s \<longleftrightarrow> prefix ''```'' s \<or> prefix ''~~~'' s"

definition isDivider :: "string \<Rightarrow> bool" where
  "isDivider s \<longleftrightarrow> length s \<ge> 3 \<and> hd s \<in> set ''-*_'' \<and> list_all (\<lambda>c. c = hd s) s"

definition atxHeading :: "string \<Rightarrow> (nat \<times> string) option" where
  "atxHeading s =
     (let n = length (takeWhile (\<lambda>c. c = CHR ''#'') s) in
      if n = 0 \<or> n > MaxHeadingLevel \<or> n \<ge> length s \<or> s ! n \<noteq> CHR '' '' then None
      else Some (n, TrimSpace (drop (n + 1) s)))"

definition bulletItem :: "string \<Rightarrow> string option" where
  "bulletItem s = (if length s > 1 \<and> s ! 0 \<in> set ''-*+'' \<and> s ! 1 = CHR '' '' then Some (TrimSpace (drop 2 s)) else None)"

definition orderedItem :: "string \<Rightarrow> string option" where
  "orderedItem s =
     (let i = length (takeWhile (\<lambda>c. c \<in> set ''0123456789'') s) in
      if i = 0 \<or> i + 1 \<ge> length s then None
      else if s ! i \<in> set ''.)'' \<and> s ! (i + 1) = CHR '' '' then Some (TrimSpace (drop (i + 2) s))
      else None)"

definition todoItem :: "string \<Rightarrow> (bool \<times> string) option" where
  "todoItem s = (case bulletItem s of None \<Rightarrow> None
     | Some rest \<Rightarrow> if prefix ''[ ] '' rest then Some (False, TrimSpace (drop 4 rest))
         else if prefix ''[x] '' rest \<or> prefix ''[X] '' rest then Some (True, TrimSpace (drop 4 rest))
         else None)"

fun indent_loop :: "nat \<Rightarrow> string \<Rightarrow> nat" where
  "indent_loop spaces [] = spaces div IndentWidth"
| "indent_loop spaces (c # cs) =
     (if c = CHR '' '' then indent_loop (spaces + 1) cs
      else if c = CHR 0x09 then indent_loop (spaces + IndentWidth) cs
      else spaces div IndentWidth)"

definition leadingIndent :: "string \<Rightarrow> nat" where
  "leadingIndent line = indent_loop 0 line"

subsection \<open>The lexer\<close>

text \<open>A line outside a fence that opens none.\<close>

definition plain_line :: "nat \<Rightarrow> nat \<Rightarrow> string \<Rightarrow> string \<Rightarrow> Token" where
  "plain_line a b body trimmed =
     (if trimmed = [] then token TokBlank a b
      else if isDivider trimmed then token TokDivider a b
      else case atxHeading trimmed of Some (level, text) \<Rightarrow> (token TokATXHeading a b)\<lparr>tk_Level := level, tk_Text := text\<rparr>
      | None \<Rightarrow>
        if prefix ''> '' trimmed \<or> trimmed = ''>''
        then (token TokQuote a b)\<lparr>tk_Text := TrimPrefix (TrimPrefix trimmed ''>'') '' ''\<rparr>
        else let indent = leadingIndent body in
          case todoItem trimmed of
            Some (checked, text) \<Rightarrow> (token TokTodo a b)\<lparr>tk_Indent := indent, tk_Checked := checked, tk_Text := text\<rparr>
          | None \<Rightarrow> (case bulletItem trimmed of Some text \<Rightarrow> (token TokBullet a b)\<lparr>tk_Indent := indent, tk_Text := text\<rparr>
          | None \<Rightarrow> (case orderedItem trimmed of Some text \<Rightarrow> (token TokOrdered a b)\<lparr>tk_Indent := indent, tk_Text := text\<rparr>
          | None \<Rightarrow> (token TokParagraph a b)\<lparr>tk_Text := trimmed\<rparr>)))"

fun lex_lines :: "nat \<Rightarrow> bool \<Rightarrow> string list \<Rightarrow> Token list" where
  "lex_lines offset inFence [] = []"
| "lex_lines offset inFence (line # ls) =
     (let stop = offset + length line; body = TrimRight line [CHR 0x0D, newline]; trimmed = TrimSpace body in
      if inFence then
        if isFence trimmed then token TokFenceClose offset stop # lex_lines stop False ls
        else (token TokCodeText offset stop)\<lparr>tk_Text := body\<rparr> # lex_lines stop True ls
      else if isFence trimmed then
        (token TokFenceOpen offset stop)\<lparr>tk_Lang := TrimSpace (TrimLeft trimmed ''`~'')\<rparr> # lex_lines stop True ls
      else plain_line offset stop body trimmed # lex_lines stop False ls)"

definition Lex :: "string \<Rightarrow> Token list" where
  "Lex src = lex_lines 0 False (splitLinesKeepingEnds src)"

subsection \<open>The tokens tile the source\<close>

fun tiles :: "nat \<Rightarrow> Token list \<Rightarrow> nat \<Rightarrow> bool" where
  "tiles a [] b = (a = b)"
| "tiles a (t # ts) b = (tk_Start t = a \<and> a < tk_End t \<and> tiles (tk_End t) ts b)"

definition span :: "string \<Rightarrow> Token \<Rightarrow> string" where
  "span src t = take (tk_End t - tk_Start t) (drop (tk_Start t) src)"

lemma split_lines_concat: "concat (split_lines cur s) = cur @ s"
  by (induction cur s rule: split_lines.induct) auto

lemma split_lines_nonempty: "[] \<notin> set (split_lines cur s)"
  by (induction cur s rule: split_lines.induct) auto

lemma token_span [simp]: "tk_Start (token k a b) = a" "tk_End (token k a b) = b" "tk_Kind (token k a b) = k"
  by (simp_all add: token_def)

lemma plain_line_span [simp]:
  "tk_Start (plain_line a b body trimmed) = a" "tk_End (plain_line a b body trimmed) = b"
  by (auto simp: plain_line_def Let_def split: option.split)

lemma lex_lines_tiles:
  "[] \<notin> set ls \<Longrightarrow> tiles a (lex_lines a f ls) (a + length (concat ls))"
  by (induction a f ls rule: lex_lines.induct) (auto simp: Let_def add.assoc)

lemma lex_lines_spans:
  "drop a src = concat ls \<Longrightarrow> map (span src) (lex_lines a f ls) = ls"
proof (induction a f ls rule: lex_lines.induct)
  case (2 a f line ls)
  have l: "span src t = line" if "tk_Start t = a" "tk_End t = a + length line" for t
    using that 2(5) by (simp add: span_def)
  have "drop (a + length line) src = drop (length line) (drop a src)" by (simp add: add.commute)
  then have d: "drop (a + length line) src = concat ls" using 2(5) by simp
  show ?case using 2(1-4) d l by (auto simp: Let_def)
qed simp

text \<open>Code and closing fences come only after an opening one.\<close>

fun fenced :: "bool \<Rightarrow> Token list \<Rightarrow> bool" where
  "fenced f [] = True"
| "fenced f (t # ts) =
     (if f then tk_Kind t = TokCodeText \<and> fenced True ts \<or> tk_Kind t = TokFenceClose \<and> fenced False ts
      else tk_Kind t \<noteq> TokCodeText \<and> tk_Kind t \<noteq> TokFenceClose \<and> fenced (tk_Kind t = TokFenceOpen) ts)"

lemma plain_line_kind:
  "tk_Kind (plain_line a b body trimmed) \<notin> {TokCodeText, TokFenceClose, TokFenceOpen}"
  by (auto simp: plain_line_def Let_def split: option.split)

lemma lex_fenced: "fenced f (lex_lines a f ls)"
  using plain_line_kind by (induction a f ls rule: lex_lines.induct) (auto simp: Let_def)

lemma heading_level: "atxHeading s = Some (n, t) \<Longrightarrow> 1 \<le> n \<and> n \<le> 3"
  by (auto simp: atxHeading_def Let_def MaxHeadingLevel_def Suc_le_eq split: if_splits)

definition levels_ok :: "Token list \<Rightarrow> bool" where
  "levels_ok ts \<longleftrightarrow> list_all (\<lambda>t. tk_Kind t = TokATXHeading \<longrightarrow> 1 \<le> tk_Level t \<and> tk_Level t \<le> 3) ts"

lemma plain_line_level:
  "tk_Kind (plain_line a b body trimmed) = TokATXHeading \<Longrightarrow>
   1 \<le> tk_Level (plain_line a b body trimmed) \<and> tk_Level (plain_line a b body trimmed) \<le> 3"
  using heading_level[of trimmed] by (auto simp: plain_line_def Let_def split: option.splits if_splits)

lemma lex_levels: "levels_ok (lex_lines a f ls)"
  using plain_line_level
  by (induction a f ls rule: lex_lines.induct) (simp_all add: levels_ok_def Let_def)

text \<open>The tokens tile the source. For every text the spans of the tokens follow each other from 0 to
  its length without gap or overlap, none is empty, and put together they are the text; and
  the lexer knows where fences are: code and closing fences come only after an opening one.\<close>

theorem Lex_tiles:
  "tiles 0 (Lex src) (length src) \<and> concat (map (span src) (Lex src)) = src \<and> fenced False (Lex src)"
proof (intro conjI)
  have c: "concat (splitLinesKeepingEnds src) = src"
    by (simp add: splitLinesKeepingEnds_def split_lines_concat)
  then show "tiles 0 (Lex src) (length src)"
    using lex_lines_tiles[of "splitLinesKeepingEnds src" 0 False] split_lines_nonempty[of "[]" src]
    by (simp add: Lex_def splitLinesKeepingEnds_def)
  show "concat (map (span src) (Lex src)) = src"
    using lex_lines_spans[of 0 src "splitLinesKeepingEnds src" False] c by (simp add: Lex_def)
  show "fenced False (Lex src)" by (simp add: Lex_def lex_fenced)
qed

end
