(* ===== verification/MdInline.thy ===== *)
theory MdInline
  imports MdLex Utf8
begin

text \<open>
  Module mdc, file inline.go: marks in one line of text. The parser goes through the line once; at
  every place it tries a page link, a link and the paired delimiters, longest first, and takes
  one byte as it is when none of them applies. Offsets count bytes.
\<close>

datatype MarkTag = Bold | Italic | Strike | Code | Link | PageLink

record MarkKind =
  ik_Tag :: MarkTag
  ik_URL :: string
  ik_Page :: string

record Mark =
  im_Kind :: MarkKind
  im_Start :: nat
  im_End :: nat

record MdContent =
  mc_Text :: string
  mc_Marks :: "Mark list"

definition inlineDelims :: "(string \<times> MarkTag) list" where
  "inlineDelims = [(''**'', Bold), (''~~'', Strike), (''`'', Code), (''*'', Italic), (''_'', Italic)]"

definition pageLinkAt :: "string \<Rightarrow> (string \<times> nat) option" where
  "pageLinkAt s =
     (if prefix ''[['' s then
        case str_index (drop 2 s) '']]'' of None \<Rightarrow> None | Some stop \<Rightarrow> Some (take stop (drop 2 s), 2 + stop + 2)
      else None)"

definition linkAt :: "string \<Rightarrow> (string \<times> string \<times> nat) option" where
  "linkAt s = (case str_index s '']'' of None \<Rightarrow> None
     | Some closeText \<Rightarrow>
         if closeText + 1 \<ge> length s \<or> s ! (closeText + 1) \<noteq> CHR ''('' then None
         else case str_index (drop (closeText + 2) s) '')'' of None \<Rightarrow> None
           | Some closeURL \<Rightarrow> Some (take (closeText - 1) (drop 1 s), take closeURL (drop (closeText + 2) s),
               closeText + 2 + closeURL + 1))"

fun delimAt :: "(string \<times> MarkTag) list \<Rightarrow> string \<Rightarrow> (string \<times> MarkTag \<times> nat) option" where
  "delimAt [] s = None"
| "delimAt ((opener, tag) # ds) s =
     (if \<not> prefix opener s then delimAt ds s
      else case str_index (drop (length opener) s) opener of None \<Rightarrow> delimAt ds s
        | Some stop \<Rightarrow> if stop = 0 then delimAt ds s
            else Some (take stop (drop (length opener) s), tag, length opener + stop + length opener))"

text \<open>What the parser takes at the front of a text: the characters it writes, the mark they get, and
  how many bytes it read.\<close>

definition inline_step :: "string \<Rightarrow> string \<times> MarkKind option \<times> nat" where
  "inline_step s = (case pageLinkAt s of
     Some (title, n) \<Rightarrow> (title, Some \<lparr>ik_Tag = PageLink, ik_URL = [], ik_Page = TrimSpace title\<rparr>, n)
   | None \<Rightarrow> (case if hd s = CHR ''['' then linkAt s else None of
     Some (text, url, n) \<Rightarrow> (text, Some \<lparr>ik_Tag = Link, ik_URL = url, ik_Page = []\<rparr>, n)
   | None \<Rightarrow> (case delimAt inlineDelims s of
     Some (inner, tag, n) \<Rightarrow> (inner, Some \<lparr>ik_Tag = tag, ik_URL = [], ik_Page = []\<rparr>, n)
   | None \<Rightarrow> (take 1 s, None, 1))))"

lemma delimAt_pos: "delimAt ds s = Some (x, t, n) \<Longrightarrow> 1 \<le> n"
  by (induction ds) (auto split: if_splits option.splits)

lemma inline_step_pos: "inline_step s = (x, k, n) \<Longrightarrow> 1 \<le> n"
  by (auto simp: inline_step_def pageLinkAt_def linkAt_def dest: delimAt_pos split: option.splits if_splits)

function inline_loop :: "string \<Rightarrow> string \<Rightarrow> Mark list \<Rightarrow> MdContent" where
  "inline_loop s b marks =
     (if s = [] then \<lparr>mc_Text = b, mc_Marks = marks\<rparr>
      else case inline_step s of (text, kind, n) \<Rightarrow>
        inline_loop (drop n s) (b @ text)
          (marks @ (case kind of None \<Rightarrow> [] | Some k \<Rightarrow> [\<lparr>im_Kind = k, im_Start = length b, im_End = length (b @ text)\<rparr>])))"
  by pat_completeness auto
termination
  by (relation "measure (\<lambda>(s, b, marks). length s)") (auto dest!: inline_step_pos[OF sym])

declare inline_loop.simps [simp del]

definition ParseInline :: "string \<Rightarrow> MdContent" where
  "ParseInline src = inline_loop src [] []"

definition PlainContent_md :: "string \<Rightarrow> MdContent" where
  "PlainContent_md text = \<lparr>mc_Text = text, mc_Marks = []\<rparr>"

subsection \<open>What is read\<close>

lemma str_index_split:
  "str_index s sub = Some n \<Longrightarrow> s = take n s @ sub @ drop (n + length sub) s \<and> n + length sub \<le> length s"
proof (induction s arbitrary: n)
  case (Cons c cs)
  show ?case
  proof (cases "prefix sub (c # cs)")
    case True
    then show ?thesis using Cons.prems prefix_length_le[OF True] by (auto simp: prefix_def)
  next
    case False
    then obtain m where "str_index cs sub = Some m" "n = Suc m" using Cons.prems by auto
    then show ?thesis using Cons.IH by simp
  qed
qed (auto split: if_splits)

abbreviation ascii :: "char \<Rightarrow> bool" where
  "ascii c \<equiv> byte_of c < 128"

text \<open>A step that makes a mark reads its text between two parts that begin and end with ASCII
  characters.\<close>

definition wraps :: "string \<Rightarrow> string \<Rightarrow> nat \<Rightarrow> bool" where
  "wraps s w n \<longleftrightarrow> (\<exists>a b. s = a @ w @ b @ drop n s \<and> n = length (a @ w @ b) \<and> a \<noteq> [] \<and> list_all ascii a \<and>
     b \<noteq> [] \<and> ascii (hd b) \<and> ascii (last b))"

lemma wrapsI:
  "s = a @ w @ b @ r \<Longrightarrow> n = length (a @ w @ b) \<Longrightarrow> a \<noteq> [] \<Longrightarrow> list_all ascii a \<Longrightarrow> b \<noteq> [] \<Longrightarrow> ascii (hd b) \<Longrightarrow> ascii (last b) \<Longrightarrow>
   wraps s w n"
  unfolding wraps_def by (intro exI[of _ a] exI[of _ b]) simp

lemma pageLink_wraps: "pageLinkAt s = Some (w, n) \<Longrightarrow> wraps s w n"
proof -
  assume a: "pageLinkAt s = Some (w, n)"
  then obtain stop where p: "prefix ''[['' s" "str_index (drop 2 s) '']]'' = Some stop" "w = take stop (drop 2 s)" "n = 2 + stop + 2"
    by (auto simp: pageLinkAt_def split: if_splits option.splits)
  note i = str_index_split[OF p(2)]
  have s: "s = ''[['' @ drop 2 s" using p(1) by (auto simp: prefix_def)
  have "s = ''[['' @ w @ '']]'' @ drop (stop + 2) (drop 2 s)"
    using s i p(3) by (metis One_nat_def Suc_1 length_Cons list.size(3))
  moreover have "length w = stop" using i p(3) by simp
  ultimately show ?thesis using p(4) by (intro wrapsI[of _ "''[[''" _ "'']]''"]) simp_all
qed

lemma link_wraps: "hd s = CHR ''['' \<Longrightarrow> linkAt s = Some (w, url, n) \<Longrightarrow> wraps s w n"
proof -
  assume h: "hd s = CHR ''[''" and a: "linkAt s = Some (w, url, n)"
  obtain c1 c2 where p: "str_index s '']'' = Some c1" "c1 + 1 < length s" "s ! (c1 + 1) = CHR ''(''"
    "str_index (drop (c1 + 2) s) '')'' = Some c2" "w = take (c1 - 1) (drop 1 s)" "url = take c2 (drop (c1 + 2) s)" "n = c1 + 2 + c2 + 1"
    using a by (auto simp: linkAt_def split: option.splits if_splits)
  note i = str_index_split[OF p(1)] str_index_split[OF p(4)]
  have c1: "0 < c1"
  proof (rule ccontr)
    assume "\<not> 0 < c1"
    then have "s = CHR '']'' # drop 1 s" using i(1) by simp
    then have "hd s = CHR '']''" by (metis list.sel(1))
    then show False using h by simp
  qed
  have lw: "length w = c1 - 1" using p(2,5) by (simp add: min_def)
  have t: "take c1 s = CHR ''['' # w"
  proof -
    have "s \<noteq> []" using p(2) by auto
    then obtain s1 where "s = CHR ''['' # s1" using h by (cases s) simp_all
    then show ?thesis using p(5) c1 by (cases c1) simp_all
  qed
  have "drop (c1 + 1) s = CHR ''('' # drop (c1 + 2) s"
    using p(2,3) by (metis Cons_nth_drop_Suc Suc_1 Suc_eq_plus1 add_Suc_right)
  also have "drop (c1 + 2) s = url @ '')'' @ drop n s"
    using i(2) p(6,7) by (simp add: add.commute add.left_commute)
  finally have d: "drop (c1 + 1) s = CHR ''('' # url @ '')'' @ drop n s" .
  have "s = take c1 s @ '']'' @ drop (c1 + 1) s" using i(1) by simp
  then have s: "s = ''['' @ w @ (''](''@ url @ '')'') @ drop n s" unfolding d t by simp
  have "length url = c2" using i(2) p(6) by simp
  then show ?thesis using c1 lw p(7) by (intro wrapsI[OF s]) simp_all
qed

lemma delim_wraps:
  "delimAt ds s = Some (w, t, n) \<Longrightarrow> list_all (\<lambda>d. fst d \<noteq> [] \<and> list_all ascii (fst d)) ds \<Longrightarrow> wraps s w n \<and> w \<noteq> []"
proof (induction ds)
  case (Cons d ds)
  obtain opn tag where d: "d = (opn, tag)" by (cases d)
  have ok: "opn \<noteq> []" "list_all ascii opn" using Cons.prems(2) d by simp_all
  consider "delimAt ds s = Some (w, t, n)"
    | stop where "prefix opn s" "str_index (drop (length opn) s) opn = Some stop" "stop \<noteq> 0"
        "w = take stop (drop (length opn) s)" "n = length opn + stop + length opn"
    using Cons.prems(1) d by (auto split: if_splits option.splits)
  then show ?case
  proof cases
    case 2
    note i = str_index_split[OF 2(2)]
    have "s = opn @ drop (length opn) s" using 2(1) by (auto simp: prefix_def)
    also have "drop (length opn) s = w @ opn @ drop (stop + length opn) (drop (length opn) s)" using i 2(4) by simp
    finally have s: "s = opn @ w @ opn @ drop (stop + length opn) (drop (length opn) s)" .
    have lw: "length w = stop" using i 2(4) by simp
    have "ascii (hd opn)" "ascii (last opn)" using ok by (simp_all add: list_all_iff)
    then have "wraps s w n" using ok lw 2(5) by (intro wrapsI[OF s]) simp_all
    then show ?thesis using lw 2(3) by auto
  qed (use Cons in simp)
qed simp

lemma step_cases:
  assumes "inline_step s = (w, k, n)" and "s \<noteq> []"
  obtains (mark) kind where "k = Some kind" "wraps s w n" "ik_Tag kind \<in> {Link, PageLink} \<or> w \<noteq> []"
  | (literal) "k = None" "w = [hd s]" "n = 1"
proof (cases "pageLinkAt s")
  case (Some p)
  then show thesis using assms mark pageLink_wraps[of s w n] by (cases p) (auto simp: inline_step_def)
next
  case p: None
  show thesis
  proof (cases "if hd s = CHR ''['' then linkAt s else None")
    case (Some q)
    obtain w' url m where q: "q = (w', url, m)" by (cases q)
    have "hd s = CHR ''['' \<and> linkAt s = Some (w', url, m)" using Some q by (auto split: if_splits)
    moreover have "w = w' \<and> n = m \<and> k = Some \<lparr>ik_Tag = Link, ik_URL = url, ik_Page = []\<rparr>"
      using assms(1) p Some q by (auto simp: inline_step_def)
    ultimately show thesis using link_wraps mark by auto
  next
    case l: None
    show thesis
    proof (cases "delimAt inlineDelims s")
      case (Some q)
      then obtain t where q: "q = (w, t, n)" "k = Some \<lparr>ik_Tag = t, ik_URL = [], ik_Page = []\<rparr>"
        using assms(1) p l by (cases q) (auto simp: inline_step_def)
      then show thesis using delim_wraps[of inlineDelims s w t n] Some mark by (simp add: inlineDelims_def)
    next
      case None
      then show thesis using assms p l literal by (cases s) (auto simp: inline_step_def)
    qed
  qed
qed

subsection \<open>Properties\<close>

lemma inline_loop_step:
  "s \<noteq> [] \<Longrightarrow> inline_step s = (w, k, n) \<Longrightarrow> inline_loop s b marks =
     inline_loop (drop n s) (b @ w)
       (marks @ (case k of None \<Rightarrow> [] | Some k \<Rightarrow> [\<lparr>im_Kind = k, im_Start = length b, im_End = length (b @ w)\<rparr>]))"
  by (subst inline_loop.simps) simp

lemma inline_loop_Nil [simp]: "inline_loop [] b marks = \<lparr>mc_Text = b, mc_Marks = marks\<rparr>"
  by (subst inline_loop.simps) simp

lemma step_subseq:
  assumes "inline_step s = (w, k, n)" and "s \<noteq> []" and "subseq t (drop n s)"
  shows "subseq (w @ t) s"
  using assms(1,2)
proof (cases rule: step_cases)
  case (mark kind)
  obtain a b where s: "s = a @ w @ b @ drop n s" using mark(2) by (auto simp: wraps_def)
  have "subseq (w @ t) (w @ b @ drop n s)" using list_emb_append2[OF assms(3)] by (intro list_emb_append_mono) simp_all
  then have "subseq (w @ t) (a @ w @ b @ drop n s)" by (rule list_emb_append2)
  then show ?thesis using s by simp
next
  case literal
  then show ?thesis using assms(2,3) by (cases s) simp_all
qed

lemma inline_text:
  "\<exists>t. mc_Text (inline_loop s b marks) = b @ t \<and> subseq t s"
proof (induction s b marks rule: inline_loop.induct)
  case (1 s b marks)
  show ?case
  proof (cases "s = []")
    case False
    obtain w k n where st: "inline_step s = (w, k, n)" by (cases "inline_step s")
    from 1[OF False st[symmetric] refl] obtain t where
      "mc_Text (inline_loop s b marks) = (b @ w) @ t" "subseq t (drop n s)"
      using inline_loop_step[OF False st, of b marks] by auto
    then show ?thesis using step_subseq[OF st False] by (intro exI[of _ "w @ t"]) simp
  qed simp
qed

text \<open>The marks made so far, over the text written so far.\<close>

definition marks_in :: "string \<Rightarrow> Mark list \<Rightarrow> bool" where
  "marks_in b marks \<longleftrightarrow> sorted_wrt (\<lambda>m m'. im_End m \<le> im_Start m') marks \<and>
     list_all (\<lambda>m. im_Start m \<le> im_End m \<and> im_End m \<le> length b \<and>
       (ik_Tag (im_Kind m) \<in> {Link, PageLink} \<or> im_Start m < im_End m)) marks"

lemma marks_in_snoc:
  "marks_in b marks \<Longrightarrow> ik_Tag k \<in> {Link, PageLink} \<or> w \<noteq> [] \<Longrightarrow>
   marks_in (b @ w) (marks @ [\<lparr>im_Kind = k, im_Start = length b, im_End = length (b @ w)\<rparr>])"
  by (auto simp: marks_in_def sorted_wrt_append list_all_iff)

lemma marks_in_append: "marks_in b marks \<Longrightarrow> marks_in (b @ w) marks"
  by (auto simp: marks_in_def list_all_iff)

lemma inline_marks:
  "marks_in b marks \<Longrightarrow> marks_in (mc_Text (inline_loop s b marks)) (mc_Marks (inline_loop s b marks))"
proof (induction s b marks rule: inline_loop.induct)
  case (1 s b marks)
  show ?case
  proof (cases "s = []")
    case False
    obtain w k n where st: "inline_step s = (w, k, n)" by (cases "inline_step s")
    let ?m = "marks @ (case k of None \<Rightarrow> [] | Some k \<Rightarrow> [\<lparr>im_Kind = k, im_Start = length b, im_End = length (b @ w)\<rparr>])"
    have "marks_in (b @ w) ?m"
      using st False by (cases rule: step_cases) (use 1(2) marks_in_snoc marks_in_append in auto)
    from 1(1)[OF False st[symmetric] refl this] show ?thesis using inline_loop_step[OF False st] by simp
  qed (use 1 in simp)
qed

lemma valid_at_ascii:
  assumes "valid_utf8 (x @ c # y)" and "ascii c"
  shows "valid_utf8 x \<and> valid_utf8 y"
proof -
  have "starts_rune (drop (length x) (x @ c # y))" using assms(2) by (simp add: starts_rune_def rune_start_def)
  then have v: "valid_utf8 (take (length x) (x @ c # y))" "valid_utf8 (drop (length x) (x @ c # y))"
    using valid_split[OF assms(1), of "length x"] by simp_all
  have "rune_size (c # y) = 1" using assms(2) by (simp add: rune_size_def decode_rune_def)
  then show ?thesis using v by (simp add: valid_utf8_Cons)
qed

definition on_boundaries :: "string \<Rightarrow> Mark list \<Rightarrow> bool" where
  "on_boundaries b marks \<longleftrightarrow>
     list_all (\<lambda>m. valid_utf8 (take (im_Start m) b) \<and> valid_utf8 (take (im_End m) b)) marks"

lemma inline_boundaries:
  "valid_utf8 (b @ s) \<Longrightarrow> marks_in b marks \<Longrightarrow> on_boundaries b marks \<Longrightarrow>
   valid_utf8 (mc_Text (inline_loop s b marks)) \<and>
   on_boundaries (mc_Text (inline_loop s b marks)) (mc_Marks (inline_loop s b marks))"
proof (induction s b marks rule: inline_loop.induct)
  case (1 s b marks)
  show ?case
  proof (cases "s = []")
    case False
    obtain w k n where st: "inline_step s = (w, k, n)" by (cases "inline_step s")
    let ?m = "marks @ (case k of None \<Rightarrow> [] | Some k \<Rightarrow> [\<lparr>im_Kind = k, im_Start = length b, im_End = length (b @ w)\<rparr>])"
    have keep: "on_boundaries (b @ w) marks"
      using 1(3,4) by (auto simp: on_boundaries_def marks_in_def list_all_iff)
    have "valid_utf8 ((b @ w) @ drop n s) \<and> marks_in (b @ w) ?m \<and> on_boundaries (b @ w) ?m"
      using st False
    proof (cases rule: step_cases)
      case (mark kind)
      obtain a c where s: "s = a @ w @ c @ drop n s" "a \<noteq> []" "list_all ascii a" "c \<noteq> []" "ascii (hd c)" "ascii (last c)"
        using mark(2) by (auto simp: wraps_def)
      obtain a1 x where a: "a = a1 @ [x]" "ascii x" using s(2,3) by (cases a rule: rev_cases) auto
      obtain y c1 where c: "c = y # c1" "ascii y" using s(4,5) by (cases c) auto
      obtain c2 z where z: "c = c2 @ [z]" "ascii z" using s(4,6) by (cases c rule: rev_cases) auto
      have e: "b @ s = b @ a @ w @ c @ drop n s" using s(1) by simp
      have vb: "valid_utf8 b"
      proof -
        obtain x0 a0 where "a = x0 # a0" "ascii x0" using s(2,3) by (cases a) auto
        then show ?thesis using valid_at_ascii[of b x0 "a0 @ w @ c @ drop n s"] 1(2) e by simp
      qed
      have wc: "valid_utf8 (w @ c @ drop n s)"
        using valid_at_ascii[of "b @ a1" x "w @ c @ drop n s"] 1(2) e a by simp
      have m1: "valid_utf8 (w @ y # c1 @ drop n s)" using wc c(1) by simp
      have m2: "valid_utf8 ((w @ c2) @ z # drop n s)" using wc z(1) by simp
      have "valid_utf8 w" "valid_utf8 (drop n s)"
        using valid_at_ascii[OF m1 c(2)] valid_at_ascii[OF m2 z(2)] by simp_all
      with vb have "valid_utf8 b" "valid_utf8 (b @ w)" "valid_utf8 ((b @ w) @ drop n s)"
        by (simp_all add: valid_utf8_append)
      then show ?thesis
        using keep marks_in_snoc[OF 1(3) mark(3)] mark(1) by (simp add: on_boundaries_def)
    next
      case literal
      then have "(b @ w) @ drop n s = b @ s" using False by (cases s) simp_all
      then show ?thesis using 1(2) keep marks_in_append[OF 1(3)] literal(1) by simp
    qed
    with 1(1)[OF False st[symmetric] refl] show ?thesis using inline_loop_step[OF False st] by simp
  qed (use 1 in simp)
qed

text \<open>The text a line gives is the line with characters left out, never added or moved; the marks lie
  in it one after the other without overlap, and none but a link is empty; on valid UTF-8 the
  text is valid and every mark begins and ends between two characters.\<close>

theorem ParseInline_sound:
  assumes "valid_utf8 src"
  shows "subseq (mc_Text (ParseInline src)) src \<and>
    marks_in (mc_Text (ParseInline src)) (mc_Marks (ParseInline src)) \<and>
    valid_utf8 (mc_Text (ParseInline src)) \<and> on_boundaries (mc_Text (ParseInline src)) (mc_Marks (ParseInline src))"
  using inline_text[of src "[]" "[]"] inline_marks[of "[]" "[]" src] inline_boundaries[of "[]" src "[]"] assms
  by (auto simp: ParseInline_def marks_in_def on_boundaries_def)

theorem ParseInline_sound_witness:
  "subseq (mc_Text (ParseInline ''a **b** [c](d)'')) ''a **b** [c](d)''"
proof -
  have "valid_utf8 ''a **b** [c](d)''" by code_simp
  from ParseInline_sound[OF this] show ?thesis by blast
qed

text \<open>An empty mark is representable: a link or a page link with nothing between its brackets makes a
  mark of no width, and a line with them alone becomes an empty block that carries one.\<close>

theorem empty_links_marked:
  "ParseInline ''[](u)'' = \<lparr>mc_Text = [], mc_Marks = [\<lparr>im_Kind = \<lparr>ik_Tag = Link, ik_URL = ''u'', ik_Page = []\<rparr>, im_Start = 0, im_End = 0\<rparr>]\<rparr> \<and>
   ParseInline ''[[]]'' = \<lparr>mc_Text = [], mc_Marks = [\<lparr>im_Kind = \<lparr>ik_Tag = PageLink, ik_URL = [], ik_Page = []\<rparr>, im_Start = 0, im_End = 0\<rparr>]\<rparr>"
proof (intro conjI)
  show "ParseInline ''[](u)'' = \<lparr>mc_Text = [], mc_Marks = [\<lparr>im_Kind = \<lparr>ik_Tag = Link, ik_URL = ''u'', ik_Page = []\<rparr>, im_Start = 0, im_End = 0\<rparr>]\<rparr>"
    by code_simp
  show "ParseInline ''[[]]'' = \<lparr>mc_Text = [], mc_Marks = [\<lparr>im_Kind = \<lparr>ik_Tag = PageLink, ik_URL = [], ik_Page = []\<rparr>, im_Start = 0, im_End = 0\<rparr>]\<rparr>"
    by code_simp
qed

end
