(* ===== verification/MdTree.thy ===== *)
theory MdTree
  imports MdInline Decimal
begin

text \<open>
  Module mdc, file tree.go and \<open>Emit\<close> of compile.go: the tree of blocks as a flat list, the operations
  that build it and their replay on an empty page. In a block the empty parent stands for none.
  The walk up the parents in \<open>descends\<close> has no bound, so it is a partial function.
\<close>

record MdKind =
  mk_Tag :: string
  mk_Level :: nat
  mk_Language :: string
  mk_ListKind :: string
  mk_Checked :: bool

definition kind_tag :: "string \<Rightarrow> MdKind" where
  "kind_tag t = \<lparr>mk_Tag = t, mk_Level = 0, mk_Language = [], mk_ListKind = [], mk_Checked = False\<rparr>"

record MdBlock =
  mb_ID :: string
  mb_Parent :: string
  mb_Kind :: MdKind
  mb_Content :: MdContent

record MdOp =
  mo_Scope :: string
  mo_Type :: string
  mo_ID :: string
  mo_Parent :: "string option"
  mo_After :: "string option"
  mo_Kind :: MdKind
  mo_Content :: MdContent

definition zero_md :: MdBlock where
  "zero_md = \<lparr>mb_ID = [], mb_Parent = [], mb_Kind = kind_tag [], mb_Content = PlainContent_md []\<rparr>"

subsection \<open>Emission\<close>

fun emit_loop :: "(string \<rightharpoonup> string) \<Rightarrow> MdBlock list \<Rightarrow> MdOp list" where
  "emit_loop lastSibling [] = []"
| "emit_loop lastSibling (b # bs) =
     \<lparr>mo_Scope = ''block'', mo_Type = ''InsertBlock'', mo_ID = mb_ID b,
      mo_Parent = (if mb_Parent b \<noteq> [] then Some (mb_Parent b) else None), mo_After = lastSibling (mb_Parent b),
      mo_Kind = mb_Kind b, mo_Content = mb_Content b\<rparr> # emit_loop (lastSibling(mb_Parent b \<mapsto> mb_ID b)) bs"

definition Emit :: "MdBlock list \<Rightarrow> MdOp list" where
  "Emit tree = emit_loop Map.empty tree"

subsection \<open>Replay\<close>

datatype replay_error =
    UnsupportedType nat string
  | DuplicateBlock nat string
  | MissingParent nat string
  | MissingAfter nat string

text \<open>A lookup of a missing key gives the zero block.\<close>

definition block_at :: "(string \<rightharpoonup> MdBlock) \<Rightarrow> string \<Rightarrow> MdBlock" where
  "block_at byID i = (case byID i of None \<Rightarrow> zero_md | Some b \<Rightarrow> b)"

partial_function (option) climb :: "(string \<rightharpoonup> MdBlock) \<Rightarrow> string \<Rightarrow> string \<Rightarrow> bool option" where
  "climb byID cur ancestor =
     (if cur = [] then Some False
      else if cur = ancestor then Some True
      else climb byID (mb_Parent (block_at byID cur)) ancestor)"

declare climb.simps [code]

definition descends :: "(string \<rightharpoonup> MdBlock) \<Rightarrow> string \<Rightarrow> string \<Rightarrow> bool option" where
  "descends byID i ancestor = climb byID (mb_Parent (block_at byID i)) ancestor"

text \<open>The end of the run of descendants at the front of a list.\<close>

fun skip_subtree :: "(string \<rightharpoonup> MdBlock) \<Rightarrow> string \<Rightarrow> string list \<Rightarrow> nat option" where
  "skip_subtree byID a [] = Some 0"
| "skip_subtree byID a (i # ids) = (case descends byID i a of None \<Rightarrow> None
     | Some True \<Rightarrow> map_option Suc (skip_subtree byID a ids)
     | Some False \<Rightarrow> Some 0)"

definition place :: "nat \<Rightarrow> (string \<rightharpoonup> MdBlock) \<Rightarrow> string list \<Rightarrow> MdOp \<Rightarrow> (replay_error + nat) option" where
  "place i byID order op = (case mo_After op of
     Some a \<Rightarrow> (case find_index (\<lambda>x. x = a) order of None \<Rightarrow> Some (Inl (MissingAfter i a))
        | Some found \<Rightarrow> map_option (\<lambda>n. Inr (found + 1 + n)) (skip_subtree byID a (drop (found + 1) order)))
   | None \<Rightarrow> (case mo_Parent op of None \<Rightarrow> Some (Inr (length order))
        | Some p \<Rightarrow> if p = [] then Some (Inr (length order))
            else (case find_index (\<lambda>x. x = p) order of None \<Rightarrow> Some (Inr (length order)) | Some j \<Rightarrow> Some (Inr (j + 1)))))"

definition replay_check :: "nat \<Rightarrow> (string \<rightharpoonup> MdBlock) \<Rightarrow> MdOp \<Rightarrow> replay_error option" where
  "replay_check i byID op =
     (if mo_Type op \<noteq> ''InsertBlock'' then Some (UnsupportedType i (mo_Type op))
      else if byID (mo_ID op) \<noteq> None then Some (DuplicateBlock i (mo_ID op))
      else case mo_Parent op of None \<Rightarrow> None
        | Some p \<Rightarrow> if byID p = None then Some (MissingParent i p) else None)"

fun replay_loop :: "nat \<Rightarrow> (string \<rightharpoonup> MdBlock) \<Rightarrow> string list \<Rightarrow> MdOp list \<Rightarrow> (replay_error + MdBlock list) option" where
  "replay_loop i byID order [] = Some (Inr (map (block_at byID) order))"
| "replay_loop i byID order (op # ops) = (case replay_check i byID op of Some e \<Rightarrow> Some (Inl e)
     | None \<Rightarrow> (case place i byID order op of
          None \<Rightarrow> None
        | Some (Inl e) \<Rightarrow> Some (Inl e)
        | Some (Inr at) \<Rightarrow> replay_loop (Suc i)
            (byID(mo_ID op \<mapsto> \<lparr>mb_ID = mo_ID op, mb_Parent = (case mo_Parent op of None \<Rightarrow> [] | Some p \<Rightarrow> p),
               mb_Kind = mo_Kind op, mb_Content = mo_Content op\<rparr>))
            (slice_insert order at [mo_ID op]) ops))"

definition Replay_ops :: "MdOp list \<Rightarrow> (replay_error + MdBlock list) option" where
  "Replay_ops ops = replay_loop 0 Map.empty [] ops"

subsection \<open>Comparison\<close>

datatype mismatch =
    CountDiffers nat nat
  | IDDiffers nat
  | ParentDiffers nat
  | KindDiffers nat
  | TextDiffers nat
  | MarkCountDiffers nat
  | MarkDiffers nat nat

fun marks_mismatch :: "nat \<Rightarrow> nat \<Rightarrow> Mark list \<Rightarrow> Mark list \<Rightarrow> mismatch option" where
  "marks_mismatch i m (a # as) (b # bs) = (if a \<noteq> b then Some (MarkDiffers i m) else marks_mismatch i (Suc m) as bs)"
| "marks_mismatch i m _ _ = None"

definition block_mismatch :: "nat \<Rightarrow> MdBlock \<Rightarrow> MdBlock \<Rightarrow> mismatch option" where
  "block_mismatch i a b =
     (if mb_ID a \<noteq> mb_ID b then Some (IDDiffers i)
      else if mb_Parent a \<noteq> mb_Parent b then Some (ParentDiffers i)
      else if mb_Kind a \<noteq> mb_Kind b then Some (KindDiffers i)
      else if mc_Text (mb_Content a) \<noteq> mc_Text (mb_Content b) then Some (TextDiffers i)
      else if length (mc_Marks (mb_Content a)) \<noteq> length (mc_Marks (mb_Content b)) then Some (MarkCountDiffers i)
      else marks_mismatch i 0 (mc_Marks (mb_Content a)) (mc_Marks (mb_Content b)))"

fun blocks_mismatch :: "nat \<Rightarrow> MdBlock list \<Rightarrow> MdBlock list \<Rightarrow> mismatch option" where
  "blocks_mismatch i (a # as) (b # bs) = (case block_mismatch i a b of Some m \<Rightarrow> Some m | None \<Rightarrow> blocks_mismatch (Suc i) as bs)"
| "blocks_mismatch i _ _ = None"

text \<open>\<open>Tree.Equal\<close>: \<open>None\<close> is \<open>(true, "")\<close>.\<close>

definition Tree_Equal :: "MdBlock list \<Rightarrow> MdBlock list \<Rightarrow> mismatch option" where
  "Tree_Equal t other = (if length t \<noteq> length other then Some (CountDiffers (length t) (length other)) else blocks_mismatch 0 t other)"

lemma marks_mismatch_None: "length as = length bs \<Longrightarrow> marks_mismatch i m as bs = None \<longleftrightarrow> as = bs"
  by (induction i m as bs rule: marks_mismatch.induct) auto

lemma block_mismatch_None: "block_mismatch i a b = None \<longleftrightarrow> a = b"
proof -
  have "a = b \<longleftrightarrow> mb_ID a = mb_ID b \<and> mb_Parent a = mb_Parent b \<and> mb_Kind a = mb_Kind b \<and>
    mc_Text (mb_Content a) = mc_Text (mb_Content b) \<and> mc_Marks (mb_Content a) = mc_Marks (mb_Content b)"
    by (cases a; cases b) (auto intro: MdContent.equality)
  then show ?thesis using marks_mismatch_None[of "mc_Marks (mb_Content a)" "mc_Marks (mb_Content b)" i 0]
    by (auto simp: block_mismatch_def)
qed

lemma block_mismatch_self [simp]: "block_mismatch i a a = None"
  by (simp add: block_mismatch_None)

lemma blocks_mismatch_None: "length as = length bs \<Longrightarrow> blocks_mismatch i as bs = None \<longleftrightarrow> as = bs"
  by (induction i as bs rule: blocks_mismatch.induct) (auto simp: block_mismatch_None split: option.split)

lemma Tree_Equal_None: "Tree_Equal t other = None \<longleftrightarrow> t = other"
  by (auto simp: Tree_Equal_def blocks_mismatch_None)

subsection \<open>Trees in depth-first order\<close>

text \<open>The identities from the last block up to its root, after a list of blocks.\<close>

fun tree_stack :: "string list \<Rightarrow> MdBlock list \<Rightarrow> string list option" where
  "tree_stack stk [] = Some stk"
| "tree_stack stk (b # bs) =
     (if mb_Parent b = [] then tree_stack [mb_ID b] bs
      else if mb_Parent b \<in> set stk then tree_stack (mb_ID b # dropWhile (\<lambda>x. x \<noteq> mb_Parent b) stk) bs
      else None)"

definition grown :: "MdBlock list \<Rightarrow> bool" where
  "grown t \<longleftrightarrow> distinct (map mb_ID t) \<and> [] \<notin> mb_ID ` set t \<and> tree_stack [] t \<noteq> None"

lemma tree_stack_append:
  "tree_stack stk (xs @ ys) = (case tree_stack stk xs of None \<Rightarrow> None | Some s \<Rightarrow> tree_stack s ys)"
  by (induction stk xs rule: tree_stack.induct) (auto split: option.split)

lemma tree_stack_set: "tree_stack stk xs = Some s \<Longrightarrow> set s \<subseteq> set stk \<union> mb_ID ` set xs"
proof (induction stk xs rule: tree_stack.induct)
  case (2 stk b bs)
  show ?case
  proof (cases "mb_Parent b = []")
    case True
    then show ?thesis using 2(1)[OF True] 2(3) by auto
  next
    case False
    then have p: "mb_Parent b \<in> set stk" "tree_stack (mb_ID b # dropWhile (\<lambda>x. x \<noteq> mb_Parent b) stk) bs = Some s"
      using 2(3) by (auto split: if_splits)
    have "set (dropWhile (\<lambda>x. x \<noteq> mb_Parent b) stk) \<subseteq> set stk" by (auto dest: set_dropWhileD)
    then show ?thesis using 2(2)[OF False p] by auto
  qed
qed simp

lemma tree_stack_distinct:
  "tree_stack stk xs = Some s \<Longrightarrow> distinct stk \<Longrightarrow> distinct (map mb_ID xs) \<Longrightarrow> set stk \<inter> mb_ID ` set xs = {} \<Longrightarrow> distinct s"
proof (induction stk xs rule: tree_stack.induct)
  case (2 stk b bs)
  show ?case
  proof (cases "mb_Parent b = []")
    case True
    then show ?thesis using 2(1)[OF True] 2(3-6) by auto
  next
    case False
    then have p: "mb_Parent b \<in> set stk" "tree_stack (mb_ID b # dropWhile (\<lambda>x. x \<noteq> mb_Parent b) stk) bs = Some s"
      using 2(3) by (auto split: if_splits)
    have d: "set (dropWhile (\<lambda>x. x \<noteq> mb_Parent b) stk) \<subseteq> set stk" by (auto dest: set_dropWhileD)
    have "mb_ID b \<notin> set stk" using 2(6) by auto
    then show ?thesis using 2(2)[OF False p] 2(4-6) d by auto
  qed
qed simp

lemma hd_stack: "tree_stack stk (xs @ [b]) = Some s \<Longrightarrow> hd s = mb_ID b \<and> s \<noteq> []"
  by (auto simp: tree_stack_append split: option.splits if_splits)

lemma dropWhile_upto: "x \<in> set ws \<or> x = a \<Longrightarrow> dropWhile (\<lambda>y. y \<noteq> x) (ws @ a # q) = dropWhile (\<lambda>y. y \<noteq> x) ws @ a # q"
  by (induction ws) auto

text \<open>While a block stays on the stack, what follows its child descends from that child.\<close>

lemma after_child:
  assumes "tree_stack (ws @ a # q) vs = Some s" "p = [] \<Longrightarrow> q = []" "p \<noteq> [] \<Longrightarrow> q \<noteq> [] \<and> hd q = p \<and> p \<in> set s"
    "\<forall>v \<in> set vs. mb_Parent v \<noteq> p" "distinct (ws @ a # q @ map mb_ID vs)" "a \<noteq> []" "[] \<notin> mb_ID ` set vs"
    "\<forall>w \<in> set ws. climb m w a = Some True" "\<forall>v \<in> set vs. block_at m (mb_ID v) = v"
  shows "\<forall>v \<in> set vs. climb m (mb_Parent v) a = Some True"
  using assms
proof (induction vs arbitrary: ws)
  case (Cons b bs)
  have gone: False if "tree_stack (mb_ID b # r) bs = Some s" "p \<noteq> []" "p \<notin> set r" for r
  proof -
    have "p \<in> set q" using Cons.prems(3) that(2) by (metis hd_in_set)
    then have "p \<notin> mb_ID ` set (b # bs)" using Cons.prems(5) by auto
    moreover have "p \<in> set (mb_ID b # r) \<union> mb_ID ` set bs" using tree_stack_set[OF that(1)] Cons.prems(3) that(2) by auto
    ultimately show False using that(3) by auto
  qed
  have p: "mb_Parent b \<noteq> []"
  proof
    assume e: "mb_Parent b = []"
    then have "p \<noteq> []" "tree_stack [mb_ID b] bs = Some s" using Cons.prems(1,4) by auto
    then show False using gone[of "[]"] by simp
  qed
  then have on: "mb_Parent b \<in> set (ws @ a # q)"
    and st: "tree_stack (mb_ID b # dropWhile (\<lambda>y. y \<noteq> mb_Parent b) (ws @ a # q)) bs = Some s"
    using Cons.prems(1) by (auto split: if_splits)
  have up: "mb_Parent b \<in> set ws \<or> mb_Parent b = a"
  proof (rule ccontr)
    assume n: "\<not> ?thesis"
    then have "mb_Parent b \<in> set q" using on by auto
    then have pq: "p \<noteq> []" "q = p # tl q" using Cons.prems(2,3) by (cases q; auto)+
    have "dropWhile (\<lambda>y. y \<noteq> mb_Parent b) (ws @ a # q) = dropWhile (\<lambda>y. y \<noteq> mb_Parent b) (a # q)"
      using n by (intro dropWhile_append2) auto
    also have "\<dots> = dropWhile (\<lambda>y. y \<noteq> mb_Parent b) (p # tl q)" using n pq(2) by auto
    also have "\<dots> = dropWhile (\<lambda>y. y \<noteq> mb_Parent b) (tl q)" using Cons.prems(4) by auto
    finally have "tree_stack (mb_ID b # dropWhile (\<lambda>y. y \<noteq> mb_Parent b) (tl q)) bs = Some s" using st by simp
    moreover have "distinct q" using Cons.prems(5) by simp
    then have "p \<notin> set (tl q)" using pq(2) by (metis distinct.simps(2))
    then have "p \<notin> set (dropWhile (\<lambda>y. y \<noteq> mb_Parent b) (tl q))" by (auto dest: set_dropWhileD)
    ultimately show False using gone pq(1) by blast
  qed
  have a: "climb m a a = Some True" using Cons.prems(6) by (simp add: climb.simps)
  have cp: "climb m (mb_Parent b) a = Some True" using up a Cons.prems(8) by auto
  have "block_at m (mb_ID b) = b" "mb_ID b \<noteq> []" using Cons.prems(7,9) by auto
  then have cb: "climb m (mb_ID b) a = Some True" using cp by (subst climb.simps) simp
  have "\<forall>v \<in> set bs. climb m (mb_Parent v) a = Some True"
  proof (rule Cons.IH)
    let ?ws = "mb_ID b # dropWhile (\<lambda>y. y \<noteq> mb_Parent b) ws"
    show "tree_stack (?ws @ a # q) bs = Some s" using st dropWhile_upto[OF up] by simp
    have "set (dropWhile (\<lambda>y. y \<noteq> mb_Parent b) ws) \<subseteq> set ws" by (auto dest: set_dropWhileD)
    then show "distinct (?ws @ a # q @ map mb_ID bs)" "\<forall>w \<in> set ?ws. climb m w a = Some True"
      using Cons.prems(5,8) cb by auto
  qed (use Cons.prems in auto)
  then show ?case using cp by simp
qed simp

lemma last_child_last:
  assumes s: "tree_stack [] (us @ pb # vs) = Some s" and p: "mb_ID pb \<in> set s"
    and n: "\<forall>v \<in> set vs. mb_Parent v \<noteq> mb_ID pb" and d: "distinct (map mb_ID (us @ pb # vs))"
  shows "vs = []"
proof (cases vs)
  case (Cons v ws)
  obtain s1 where s1: "tree_stack [] (us @ [pb]) = Some s1" "tree_stack s1 vs = Some s"
    using s by (auto simp: tree_stack_append split: option.splits if_splits)
  then obtain q where q: "s1 = mb_ID pb # q" using hd_stack[OF s1(1)] by (cases s1) auto
  have "distinct s1" using tree_stack_distinct[OF s1(1)] d by auto
  then have nq: "mb_ID pb \<notin> set q" using q by simp
  obtain r where r: "tree_stack (mb_ID v # r) ws = Some s" "set r \<subseteq> set q"
  proof (cases "mb_Parent v = []")
    case True
    then show ?thesis using that[of "[]"] s1(2) Cons by simp
  next
    case False
    have "mb_Parent v \<noteq> mb_ID pb" using n Cons by simp
    then show ?thesis using that[of "dropWhile (\<lambda>y. y \<noteq> mb_Parent v) q"] False s1(2) q Cons
      by (auto split: if_splits dest: set_dropWhileD)
  qed
  have "mb_ID pb \<in> set r" using tree_stack_set[OF r(1)] p d Cons by auto
  then show ?thesis using r(2) nq by auto
qed simp

subsection \<open>Replaying what was emitted\<close>

definition known :: "MdBlock list \<Rightarrow> string \<rightharpoonup> MdBlock" where
  "known xs = fold (\<lambda>b m. m(mb_ID b \<mapsto> b)) xs Map.empty"

definition last_child :: "MdBlock list \<Rightarrow> string \<rightharpoonup> string" where
  "last_child xs = fold (\<lambda>b m. m(mb_Parent b \<mapsto> mb_ID b)) xs Map.empty"

lemma known_empty [simp]: "known [] = Map.empty" by (simp add: known_def)
lemma known_snoc: "known (xs @ [b]) = (known xs)(mb_ID b \<mapsto> b)" by (simp add: known_def)
lemma last_child_empty [simp]: "last_child [] = Map.empty" by (simp add: last_child_def)
lemma last_child_snoc: "last_child (xs @ [b]) = (last_child xs)(mb_Parent b \<mapsto> mb_ID b)" by (simp add: last_child_def)

lemma dom_known: "dom (known xs) = mb_ID ` set xs"
  by (induction xs rule: rev_induct) (simp_all add: known_snoc del: fun_upd_apply)

lemma known_at: "distinct (map mb_ID xs) \<Longrightarrow> v \<in> set xs \<Longrightarrow> known xs (mb_ID v) = Some v"
proof (induction xs rule: rev_induct)
  case (snoc x xs)
  then show ?case by (cases "v = x") (auto simp: known_snoc dest!: imageI[of v "set xs" mb_ID])
qed simp

lemma last_child_None: "last_child xs p = None \<longleftrightarrow> (\<forall>v \<in> set xs. mb_Parent v \<noteq> p)"
  by (induction xs rule: rev_induct) (auto simp: last_child_snoc)

lemma last_child_split:
  "last_child xs p = Some a \<Longrightarrow> \<exists>us sb vs. xs = us @ sb # vs \<and> mb_ID sb = a \<and> mb_Parent sb = p \<and> (\<forall>v \<in> set vs. mb_Parent v \<noteq> p)"
proof (induction xs rule: rev_induct)
  case (snoc b xs)
  show ?case
  proof (cases "mb_Parent b = p")
    case True
    then show ?thesis using snoc.prems by (intro exI[of _ xs] exI[of _ b] exI[of _ "[]"]) (simp add: last_child_snoc)
  next
    case False
    then obtain us sb vs where "xs = us @ sb # vs \<and> mb_ID sb = a \<and> mb_Parent sb = p \<and> (\<forall>v \<in> set vs. mb_Parent v \<noteq> p)"
      using snoc by (auto simp: last_child_snoc)
    then show ?thesis using False by (intro exI[of _ us] exI[of _ sb] exI[of _ "vs @ [b]"]) auto
  qed
qed simp

lemma find_block_id: "x \<notin> set us \<Longrightarrow> find_index (\<lambda>y. y = x) (us @ x # vs) = Some (length us)"
  by (induction us) auto

lemma skip_all: "\<forall>i \<in> set ids. descends m i a = Some True \<Longrightarrow> skip_subtree m a ids = Some (length ids)"
  by (induction ids) auto

lemma placed_after_sibling:
  assumes s: "tree_stack [] (us @ sb # vs) = Some s" and p: "mb_Parent sb \<noteq> [] \<Longrightarrow> mb_Parent sb \<in> set s"
    and n: "\<forall>v \<in> set vs. mb_Parent v \<noteq> mb_Parent sb"
    and d: "distinct (map mb_ID (us @ sb # vs))" "[] \<notin> mb_ID ` set (us @ sb # vs)"
  shows "skip_subtree (known (us @ sb # vs)) (mb_ID sb) (map mb_ID vs) = Some (length vs)"
proof -
  let ?m = "known (us @ sb # vs)" let ?p = "mb_Parent sb"
  obtain s0 where s0: "tree_stack [] us = Some s0" "tree_stack s0 (sb # vs) = Some s"
    using s by (auto simp: tree_stack_append split: option.splits)
  define q where "q = (if ?p = [] then [] else dropWhile (\<lambda>x. x \<noteq> ?p) s0)"
  have st: "tree_stack ([] @ mb_ID sb # q) vs = Some s" and in0: "?p \<noteq> [] \<Longrightarrow> ?p \<in> set s0"
    using s0(2) by (auto simp: q_def split: if_splits)
  have q: "q \<noteq> [] \<and> hd q = ?p \<and> ?p \<in> set s" if k: "?p \<noteq> []"
    using in0[OF k] p[OF k] hd_dropWhile[of "\<lambda>x. x \<noteq> ?p" s0] k by (auto simp: q_def)
  have "distinct s0" using tree_stack_distinct[OF s0(1)] d(1) by simp
  then have "distinct q" by (simp add: q_def)
  moreover have "set q \<subseteq> mb_ID ` set us" using tree_stack_set[OF s0(1)] by (auto simp: q_def dest: set_dropWhileD split: if_splits)
  ultimately have dq: "distinct ([] @ mb_ID sb # q @ map mb_ID vs)" using d(1) by auto
  have at: "block_at ?m (mb_ID v) = v" if k: "v \<in> set vs" for v
    using known_at[OF d(1), of v] k by (simp add: block_at_def)
  have "\<forall>v \<in> set vs. climb ?m (mb_Parent v) (mb_ID sb) = Some True"
    by (rule after_child[where p = ?p, OF st _ q n dq]) (use d(2) at in \<open>auto simp: q_def\<close>)
  then show ?thesis using skip_all[of "map mb_ID vs" ?m "mb_ID sb"] at by (auto simp: descends_def)
qed

lemma emitted_at_end:
  assumes s: "tree_stack [] xs = Some s" and p: "mb_Parent b \<noteq> [] \<Longrightarrow> mb_Parent b \<in> set s"
    and d: "distinct (map mb_ID xs)" "[] \<notin> mb_ID ` set xs"
    and o: "mo_Parent op = (if mb_Parent b \<noteq> [] then Some (mb_Parent b) else None)" "mo_After op = last_child xs (mb_Parent b)"
  shows "place i (known xs) (map mb_ID xs) op = Some (Inr (length xs))"
proof (cases "last_child xs (mb_Parent b)")
  case None
  then have nc: "\<forall>v \<in> set xs. mb_Parent v \<noteq> mb_Parent b" using last_child_None by blast
  show ?thesis
  proof (cases "mb_Parent b = []")
    case True
    then show ?thesis using o None by (simp add: place_def)
  next
    case False
    then have "mb_Parent b \<in> mb_ID ` set xs" using p tree_stack_set[OF s] by auto
    then obtain us pb vs where x: "xs = us @ pb # vs" "mb_ID pb = mb_Parent b" by (metis image_iff split_list)
    have "vs = []" using last_child_last[of us pb vs s] s p[OF False] nc d(1) x by auto
    moreover have "find_index (\<lambda>y. y = mb_Parent b) (map mb_ID xs) = Some (length us)"
      using find_block_id[of "mb_Parent b" "map mb_ID us" "map mb_ID vs"] x d(1) by auto
    ultimately show ?thesis using o None False x(1) by (simp add: place_def)
  qed
next
  case (Some a)
  then obtain us sb vs where x: "xs = us @ sb # vs" "mb_ID sb = a" "mb_Parent sb = mb_Parent b" "\<forall>v \<in> set vs. mb_Parent v \<noteq> mb_Parent b"
    using last_child_split by blast
  have "skip_subtree (known xs) a (map mb_ID vs) = Some (length vs)"
    using placed_after_sibling[of us sb vs s] s p d x by simp
  moreover have "find_index (\<lambda>y. y = a) (map mb_ID xs) = Some (length us)"
    using find_block_id[of a "map mb_ID us" "map mb_ID vs"] x(1,2) d(1) by auto
  ultimately show ?thesis using o Some x(1) by (simp add: place_def)
qed

lemma replay_emitted:
  "grown (xs @ ys) \<Longrightarrow> replay_loop i (known xs) (map mb_ID xs) (emit_loop (last_child xs) ys) = Some (Inr (xs @ ys))"
proof (induction ys arbitrary: i xs)
  case Nil
  then have "map (block_at (known xs)) (map mb_ID xs) = xs"
    using known_at[of xs] by (auto simp: grown_def block_at_def intro!: map_idI)
  then show ?case by simp
next
  case (Cons b ys)
  have d: "distinct (map mb_ID xs)" "[] \<notin> mb_ID ` set xs" "mb_ID b \<notin> mb_ID ` set xs" using Cons.prems by (auto simp: grown_def)
  obtain s where s: "tree_stack [] xs = Some s" and p: "mb_Parent b \<noteq> [] \<Longrightarrow> mb_Parent b \<in> set s"
    using Cons.prems by (auto simp: grown_def tree_stack_append split: option.splits if_splits)
  let ?op = "hd (emit_loop (last_child xs) (b # ys))"
  have "known xs (mb_Parent b) \<noteq> None" if k: "mb_Parent b \<noteq> []"
  proof -
    have "mb_Parent b \<in> dom (known xs)" using p[OF k] tree_stack_set[OF s] dom_known[of xs] by auto
    then show ?thesis by blast
  qed
  moreover have "known xs (mb_ID b) = None" using d(3) dom_known[of xs] by blast
  ultimately have c: "replay_check i (known xs) ?op = None" by (cases "mb_Parent b = []") (simp_all add: replay_check_def)
  have pl: "place i (known xs) (map mb_ID xs) ?op = Some (Inr (length xs))"
    by (rule emitted_at_end[OF s p d(1,2)]) simp_all
  have bl: "\<lparr>mb_ID = mb_ID b, mb_Parent = q, mb_Kind = mb_Kind b, mb_Content = mb_Content b\<rparr> = b" if "mb_Parent b = q" for q
    using that by (cases b) simp
  have ins: "slice_insert (map mb_ID xs) (length xs) [mb_ID b] = map mb_ID (xs @ [b])" by (simp add: slice_insert_def)
  have "replay_loop (Suc i) ((known xs)(mb_ID b \<mapsto> b)) (map mb_ID (xs @ [b])) (emit_loop ((last_child xs)(mb_Parent b \<mapsto> mb_ID b)) ys) =
    Some (Inr (xs @ b # ys))"
    using Cons.IH[of "xs @ [b]" "Suc i"] Cons.prems by (simp add: known_snoc last_child_snoc del: fun_upd_apply)
  then show ?case using c pl ins by (cases "mb_Parent b = []") (simp_all add: bl del: fun_upd_apply)
qed

lemma Replay_Emit: "grown t \<Longrightarrow> Replay_ops (Emit t) = Some (Inr t)"
  using replay_emitted[of "[]" t 0] by (simp add: Replay_ops_def Emit_def)

end
