(* ===== verification/RuneText.thy ===== *)
theory RuneText
  imports Utf8
begin

text \<open>
  The conversion \<open>string(rs)\<close> of runes to a string, and that \<open>[]rune\<close> reads them back.
\<close>

definition encode_bytes :: "nat \<Rightarrow> nat list" where
  "encode_bytes r =
     (if r < 0x80 then [r]
      else if r < 0x800 then [0xC0 + r div 64, 0x80 + r mod 64]
      else if r < 0x10000 then [0xE0 + r div 4096, 0x80 + r div 64 mod 64, 0x80 + r mod 64]
      else [0xF0 + r div 262144, 0x80 + r div 4096 mod 64, 0x80 + r div 64 mod 64, 0x80 + r mod 64])"

definition valid_rune :: "nat \<Rightarrow> bool" where
  "valid_rune r \<longleftrightarrow> r < 0xD800 \<or> 0xDFFF < r \<and> r < 0x110000"

definition encode_rune :: "nat \<Rightarrow> string" where
  "encode_rune r = map char_of (encode_bytes (if valid_rune r then r else rune_error))"

definition string_of_runes :: "nat list \<Rightarrow> string" where
  "string_of_runes rs = concat (map encode_rune rs)"

lemma byte_char [simp]: "n < 256 \<Longrightarrow> byte_of (char_of n :: char) = n"
  by simp

lemma mod_past: "a < m \<Longrightarrow> (k * m + a) mod m = (a :: nat)"
  by simp

lemma div_past: "a < m \<Longrightarrow> (k * m + a) div m = (k :: nat)"
  by simp

lemma digits64: "(r :: nat) div 4096 * 4096 + r div 64 mod 64 * 64 + r mod 64 = r"
proof -
  have "r div 64 div 64 = r div 4096" by (simp flip: div_mult2_eq)
  moreover have "r div 64 * 64 + r mod 64 = r" "r div 64 div 64 * 64 + r div 64 mod 64 = r div 64" by simp_all
  ultimately show ?thesis by linarith
qed

lemma digits4096: "(r :: nat) div 262144 * 262144 + r div 4096 mod 64 * 4096 + r div 64 mod 64 * 64 + r mod 64 = r"
proof -
  have "r div 4096 div 64 = r div 262144" by (simp flip: div_mult2_eq)
  moreover have "r div 4096 div 64 * 64 + r div 4096 mod 64 = r div 4096" by simp
  ultimately show ?thesis using digits64[of r] by linarith
qed

lemma decode2: "2 \<le> a \<Longrightarrow> a < 32 \<Longrightarrow> b < 64 \<Longrightarrow> decode_rune (char_of (0xC0 + a) # char_of (0x80 + b) # s) = (a * 64 + b, 2)"
proof -
  assume "2 \<le> a" "a < 32" "b < 64"
  moreover from this have "(192 + a) mod 32 = a" "(128 + b) mod 64 = b" using mod_past[of a 32 6] mod_past[of b 64 2] by simp_all
  ultimately show ?thesis by (simp add: decode_rune_def Let_def rune_width_def second_lo_def second_hi_def)
qed

lemma decode3:
  assumes "a < 16" "b < 64" "c < 64" "a = 0 \<Longrightarrow> 32 \<le> b" "a = 13 \<Longrightarrow> b < 32"
  shows "decode_rune (char_of (0xE0 + a) # char_of (0x80 + b) # char_of (0x80 + c) # s) = (a * 4096 + b * 64 + c, 3)"
proof -
  have "(224 + a) mod 16 = a" "(128 + b) mod 64 = b" "(128 + c) mod 64 = c"
    using assms(1-3) mod_past[of a 16 14] mod_past[of b 64 2] mod_past[of c 64 2] by simp_all
  then show ?thesis using assms by (auto simp: decode_rune_def Let_def rune_width_def second_lo_def second_hi_def not_less)
qed

lemma decode4:
  assumes "a < 5" "b < 64" "c < 64" "d < 64" "a = 0 \<Longrightarrow> 16 \<le> b" "a = 4 \<Longrightarrow> b < 16"
  shows "decode_rune (char_of (0xF0 + a) # char_of (0x80 + b) # char_of (0x80 + c) # char_of (0x80 + d) # s) =
    (a * 262144 + b * 4096 + c * 64 + d, 4)"
proof -
  have "(240 + a) mod 8 = a" "(128 + b) mod 64 = b" "(128 + c) mod 64 = c" "(128 + d) mod 64 = d"
    using assms(1-4) mod_past[of a 8 30] mod_past[of b 64 2] mod_past[of c 64 2] mod_past[of d 64 2] by simp_all
  then show ?thesis using assms by (auto simp: decode_rune_def Let_def rune_width_def second_lo_def second_hi_def not_less)
qed

lemma decode_encode:
  assumes "valid_rune r"
  shows "decode_rune (encode_rune r @ s) = (r, length (encode_rune r))"
proof -
  have e: "encode_rune r = map char_of (encode_bytes r)" using assms by (simp add: encode_rune_def)
  consider "r < 0x80" | "0x80 \<le> r" "r < 0x800" | "0x800 \<le> r" "r < 0x10000" | "0x10000 \<le> r" "r < 0x110000"
    using assms by (force simp: valid_rune_def)
  then show ?thesis
  proof cases
    case 1
    then show ?thesis by (simp add: e encode_bytes_def decode_rune_def)
  next
    case 2
    have r: "r div 64 * 64 + r mod 64 = r" by simp
    have "2 \<le> r div 64" "r div 64 < 32" using 2 by auto
    moreover have "encode_bytes r = [0xC0 + r div 64, 0x80 + r mod 64]" using 2 by (simp add: encode_bytes_def)
    ultimately show ?thesis using decode2[of "r div 64" "r mod 64" s] r by (simp add: e)
  next
    case 3
    let ?a = "r div 4096" and ?b = "r div 64 mod 64" and ?c = "r mod 64"
    have r: "?a * 4096 + ?b * 64 + ?c = r" and m: "?b < 64" "?c < 64" using digits64[of r] by simp_all
    have "?a < 16" "?a = 0 \<Longrightarrow> 32 \<le> ?b" using 3 r m by linarith+
    moreover have "?a = 13 \<Longrightarrow> ?b < 32" using assms r m unfolding valid_rune_def by linarith
    moreover have "encode_bytes r = [0xE0 + ?a, 0x80 + ?b, 0x80 + ?c]" using 3 by (simp add: encode_bytes_def)
    ultimately show ?thesis using decode3[of ?a ?b ?c s] m r by (simp add: e)
  next
    case 4
    let ?a = "r div 262144" and ?b = "r div 4096 mod 64" and ?c = "r div 64 mod 64" and ?d = "r mod 64"
    have r: "?a * 262144 + ?b * 4096 + ?c * 64 + ?d = r" and m: "?b < 64" "?c < 64" "?d < 64" using digits4096[of r] by simp_all
    have "?a < 5" "?a = 0 \<Longrightarrow> 16 \<le> ?b" "?a = 4 \<Longrightarrow> ?b < 16" using 4 r m by linarith+
    moreover have "encode_bytes r = [0xF0 + ?a, 0x80 + ?b, 0x80 + ?c, 0x80 + ?d]" using 4 by (simp add: encode_bytes_def)
    ultimately show ?thesis using decode4[of ?a ?b ?c ?d s] m r by (simp add: e)
  qed
qed

lemma encode_rune_nonempty [simp]: "encode_rune r \<noteq> []"
  by (simp add: encode_rune_def encode_bytes_def)

lemma runes_encode: "valid_rune r \<Longrightarrow> runes (encode_rune r @ s) = r # runes s"
  using decode_encode[of r s] by (subst runes_unfold) (simp_all add: rune_size_def)

lemma runes_string_of_runes: "list_all valid_rune rs \<Longrightarrow> runes (string_of_runes rs) = rs"
  by (induction rs) (simp_all add: string_of_runes_def runes_encode)

lemma valid3: "p < 240 \<Longrightarrow> 224 \<le> p \<Longrightarrow> (p = 237 \<Longrightarrow> x < 160) \<Longrightarrow> 128 \<le> x \<Longrightarrow> x < 192 \<Longrightarrow> valid_rune (p mod 16 * 4096 + x mod 64 * 64 + y mod 64)"
proof -
  assume a: "p < 240" "224 \<le> p" "p = 237 \<Longrightarrow> x < 160" "128 \<le> x" "x < 192"
  have m: "p mod 16 = p - 224" "x mod 64 = x - 128" "y mod 64 < 64" using a mod_past[of "p - 224" 16 14] mod_past[of "x - 128" 64 2] by simp_all
  consider "p < 237" | "p = 237" | "237 < p" by linarith
  then show ?thesis
  proof cases
    case 2
    then have "x - 128 < 32" using a by simp
    then show ?thesis unfolding valid_rune_def m(1,2) using m(3) 2 by linarith
  qed (use a m(3) in \<open>unfold valid_rune_def m(1,2); linarith\<close>)+
qed

lemma valid4: "p < 245 \<Longrightarrow> 240 \<le> p \<Longrightarrow> (p = 240 \<Longrightarrow> 144 \<le> x) \<Longrightarrow> (p = 244 \<Longrightarrow> x < 144) \<Longrightarrow> 128 \<le> x \<Longrightarrow> x < 192 \<Longrightarrow>
  valid_rune (p mod 8 * 262144 + x mod 64 * 4096 + y mod 64 * 64 + z mod 64)"
proof -
  assume a: "p < 245" "240 \<le> p" "p = 240 \<Longrightarrow> 144 \<le> x" "p = 244 \<Longrightarrow> x < 144" "128 \<le> x" "x < 192"
  have m: "p mod 8 = p - 240" "x mod 64 = x - 128" "y mod 64 < 64" "z mod 64 < 64"
    using a mod_past[of "p - 240" 8 30] mod_past[of "x - 128" 64 2] by simp_all
  consider "p = 240" | "p = 244" | "240 < p" "p < 244" using a by linarith
  then show ?thesis
  proof cases
    case 1
    then have "16 \<le> x - 128" using a by simp
    then show ?thesis unfolding valid_rune_def m(1,2) using a m(3,4) 1 by linarith
  next
    case 2
    then have "x - 128 < 16" using a by simp
    then show ?thesis unfolding valid_rune_def m(1,2) using a m(3,4) 2 by linarith
  qed (use a m(3,4) in \<open>unfold valid_rune_def m(1,2); linarith\<close>)
qed

lemma decoded_valid: "valid_rune (fst (decode_rune s))"
proof (cases s)
  case (Cons c cs)
  have e: "valid_rune rune_error" by (simp add: valid_rune_def)
  have a: "p < 128 \<Longrightarrow> valid_rune p" for p by (simp add: valid_rune_def)
  have w: "valid_rune (p mod 32 * 64 + x mod 64)" for p x :: nat
  proof -
    have "p mod 32 < 32" "x mod 64 < 64" by simp_all
    then show ?thesis unfolding valid_rune_def by linarith
  qed
  let ?p = "byte_of c" and ?r = "decode_rune (c # cs)"
  let ?x = "byte_of ((c # cs) ! 1)" and ?y = "byte_of ((c # cs) ! 2)" and ?z = "byte_of ((c # cs) ! 3)"
  let ?bad = "?p < 194 \<or> 245 \<le> ?p \<or> length (c # cs) < rune_width ?p \<or> ?x < second_lo ?p \<or> second_hi ?p < ?x"
  consider "?p < 128" | "128 \<le> ?p" ?bad | "\<not> ?bad" "rune_width ?p = 2" | "\<not> ?bad" "rune_width ?p = 3" | "\<not> ?bad" "rune_width ?p = 4"
    unfolding rune_width_def by (metis not_less)
  then have "valid_rune (fst ?r)"
  proof cases
    case 4
    then have "?p < 240" "224 \<le> ?p" by (simp_all add: rune_width_def split: if_splits)
    moreover have "128 \<le> ?x" "?x < 192" "?p = 237 \<Longrightarrow> ?x < 160" using 4(1) by (auto simp: second_lo_def second_hi_def not_less split: if_splits)
    ultimately have "valid_rune (?p mod 16 * 4096 + ?x mod 64 * 64 + ?y mod 64)" using valid3 by blast
    then show ?thesis using 4 e by (simp add: decode_rune_def Let_def)
  next
    case 5
    then have "?p < 245" "240 \<le> ?p" by (simp_all add: rune_width_def split: if_splits)
    moreover have "128 \<le> ?x" "?x < 192" "?p = 240 \<Longrightarrow> 144 \<le> ?x" "?p = 244 \<Longrightarrow> ?x < 144"
      using 5(1) by (auto simp: second_lo_def second_hi_def not_less split: if_splits)
    ultimately have "valid_rune (?p mod 8 * 262144 + ?x mod 64 * 4096 + ?y mod 64 * 64 + ?z mod 64)" using valid4 by blast
    then show ?thesis using 5 e by (simp add: decode_rune_def Let_def)
  qed (auto simp: decode_rune_def Let_def e a w)
  then show ?thesis by (simp add: Cons)
qed (simp add: decode_rune_def valid_rune_def)

lemma runes_valid: "list_all valid_rune (runes s)"
  by (induction s rule: runes.induct) (simp_all add: runes_Cons_simp decoded_valid)

lemma encode_decode:
  assumes v: "byte_of c < 128 \<or> 2 \<le> rune_size (c # cs)"
  shows "encode_rune (fst (decode_rune (c # cs))) = take (rune_size (c # cs)) (c # cs)"
proof (cases "byte_of c < 128")
  case True
  then show ?thesis by (simp add: decode_rune_def rune_size_def encode_rune_def encode_bytes_def valid_rune_def)
next
  case False
  let ?s = "c # cs" let ?p = "byte_of c" and ?x = "byte_of (?s ! 1)" and ?y = "byte_of (?s ! 2)" and ?z = "byte_of (?s ! 3)"
  have ok: "194 \<le> ?p" "?p < 245" "rune_width ?p \<le> length ?s" "second_lo ?p \<le> ?x" "?x \<le> second_hi ?p"
    using v False by (auto simp: rune_size_def decode_rune_def Let_def not_less split: if_splits)
  have x: "128 \<le> ?x" "?x < 192" using ok(4,5) by (auto simp: second_lo_def second_hi_def split: if_splits)
  have xm: "?x mod 64 = ?x - 128" using x mod_past[of "?x - 128" 64 2] by simp
  have val: "encode_rune (fst (decode_rune ?s)) = map char_of (encode_bytes (fst (decode_rune ?s)))"
    using decoded_valid by (simp add: encode_rune_def)
  consider "?p < 224" | "224 \<le> ?p" "?p < 240" | "240 \<le> ?p" by linarith
  then show ?thesis
  proof cases
    case 1
    define r where "r = (?p - 192) * 64 + (?x - 128)"
    have m: "?p mod 32 = ?p - 192" using ok(1) 1 mod_past[of "?p - 192" 32 6] by simp
    have d: "decode_rune ?s = (r, 2)" unfolding r_def using 1 ok False xm m by (cases cs) (simp_all add: decode_rune_def Let_def rune_width_def)
    have "?x - 128 < 64" using x by linarith
    then have e: "r div 64 = ?p - 192" "r mod 64 = ?x - 128" unfolding r_def by (rule div_past, rule mod_past)
    have "128 \<le> r" "r < 2048" using ok(1) 1 x unfolding r_def by linarith+
    then have b: "encode_bytes r = [?p, ?x]" using ok(1) x e by (simp add: encode_bytes_def)
    have "length cs \<ge> 1" using ok(3) 1 by (simp add: rune_width_def)
    then obtain x' ys where "cs = x' # ys" by (cases cs) auto
    then show ?thesis using b val d by (simp add: rune_size_def numeral_2_eq_2)
  next
    case 2
    have y: "128 \<le> ?y" "?y < 192" using v 2 False ok by (auto simp: rune_size_def decode_rune_def Let_def rune_width_def split: if_splits)
    have ym: "?y mod 64 = ?y - 128" using y mod_past[of "?y - 128" 64 2] by simp
    define r where "r = (?p - 224) * 4096 + (?x - 128) * 64 + (?y - 128)"
    have m: "?p mod 16 = ?p - 224" using 2 mod_past[of "?p - 224" 16 14] by simp
    have d: "decode_rune ?s = (r, 3)" unfolding r_def using 2 ok False xm ym m y by (simp add: decode_rune_def Let_def rune_width_def)
    have q: "r = ((?p - 224) * 64 + (?x - 128)) * 64 + (?y - 128)" by (simp add: r_def)
    have l: "?x - 128 < 64" "?y - 128 < 64" using x y by linarith+
    have e: "r div 64 = (?p - 224) * 64 + (?x - 128)" "r mod 64 = ?y - 128"
      unfolding q by (rule div_past[OF l(2)], rule mod_past[OF l(2)])
    have "r div 4096 = r div 64 div 64" by (simp flip: div_mult2_eq)
    then have f: "r div 4096 = ?p - 224" "r div 64 mod 64 = ?x - 128" unfolding e by (simp_all only: div_past[OF l(1)] mod_past[OF l(1)])
    have "?p = 224 \<Longrightarrow> 160 \<le> ?x" using ok(4) by (simp add: second_lo_def)
    then have "2048 \<le> r" "r < 65536" using 2 x y unfolding r_def by (cases "?p = 224"; linarith)+
    then have b: "encode_bytes r = [?p, ?x, ?y]" using e(2) f 2 x y by (simp add: encode_bytes_def)
    have "length cs \<ge> 2" using ok(3) 2 by (simp add: rune_width_def)
    then obtain x' y' ys where "cs = x' # y' # ys" by (cases cs; cases "tl cs") auto
    then show ?thesis using b val d by (simp add: rune_size_def numeral_2_eq_2)
  next
    case 3
    have y: "128 \<le> ?y" "?y < 192" "128 \<le> ?z" "?z < 192"
      using v 3 False ok by (auto simp: rune_size_def decode_rune_def Let_def rune_width_def split: if_splits)
    have ym: "?y mod 64 = ?y - 128" "?z mod 64 = ?z - 128" using y mod_past[of "?y - 128" 64 2] mod_past[of "?z - 128" 64 2] by simp_all
    define r where "r = (?p - 240) * 262144 + (?x - 128) * 4096 + (?y - 128) * 64 + (?z - 128)"
    have m: "?p mod 8 = ?p - 240" using 3 ok(2) mod_past[of "?p - 240" 8 30] by simp
    have d: "decode_rune ?s = (r, 4)" unfolding r_def using 3 ok False xm ym m y by (simp add: decode_rune_def Let_def rune_width_def)
    have q: "r = (((?p - 240) * 64 + (?x - 128)) * 64 + (?y - 128)) * 64 + (?z - 128)" by (simp add: r_def)
    have l: "?x - 128 < 64" "?y - 128 < 64" "?z - 128 < 64" using x y by linarith+
    have e: "r div 64 = ((?p - 240) * 64 + (?x - 128)) * 64 + (?y - 128)" "r mod 64 = ?z - 128"
      unfolding q by (rule div_past[OF l(3)], rule mod_past[OF l(3)])
    have "r div 4096 = r div 64 div 64" "r div 262144 = r div 64 div 64 div 64" by (simp_all flip: div_mult2_eq)
    then have f: "r div 4096 = (?p - 240) * 64 + (?x - 128)" "r div 262144 = ?p - 240" "r div 64 mod 64 = ?y - 128"
      unfolding e by (simp_all only: div_past[OF l(2)] div_past[OF l(1)] mod_past[OF l(2)])
    have g: "r div 4096 mod 64 = ?x - 128" unfolding f by (rule mod_past[OF l(1)])
    have "?p = 240 \<Longrightarrow> 144 \<le> ?x" using ok(4) by (simp add: second_lo_def)
    then have "65536 \<le> r" using 3 x unfolding r_def by (cases "?p = 240"; linarith)
    then have b: "encode_bytes r = [?p, ?x, ?y, ?z]" using e(2) f(2,3) g 3 x y by (simp add: encode_bytes_def)
    have "length cs \<ge> 3" using ok(3) 3 by (simp add: rune_width_def)
    then obtain x' y' z' ys where "cs = x' # y' # z' # ys" by (cases cs; cases "tl cs"; cases "tl (tl cs)") auto
    then show ?thesis using b val d by (simp add: rune_size_def numeral_2_eq_2 numeral_3_eq_3)
  qed
qed

lemma string_of_runes_runes: "valid_utf8 s \<Longrightarrow> string_of_runes (runes s) = s"
proof (induction s rule: valid_utf8.induct)
  case (2 c cs)
  then have "encode_rune (fst (decode_rune (c # cs))) = take (rune_size (c # cs)) (c # cs)" using encode_decode by (simp add: valid_utf8_Cons)
  then show ?case using 2 by (simp add: runes_Cons_simp valid_utf8_Cons string_of_runes_def del: take_Suc_Cons drop_Suc_Cons)
qed (simp add: string_of_runes_def)

end
