(* ===== verification/MdCompile.thy ===== *)
theory MdCompile
  imports MdTree RuneText
begin

text \<open>
  Module mdc, files lower.go and compile.go: tokens become blocks, blocks become operations, and every
  call checks that replaying the operations gives the blocks back. The index into the tokens is the list
  of tokens that are left. The loops have no bound of their own, so they are partial functions; the times
  of a run are an argument.
\<close>

record lowerer =
  lw_blocks :: "MdBlock list"
  lw_next :: nat

definition idFor :: "nat \<Rightarrow> string" where
  "idFor n = ''b'' @ digits n"

definition emit :: "string \<Rightarrow> MdKind \<Rightarrow> MdContent \<Rightarrow> lowerer \<Rightarrow> string \<times> lowerer" where
  "emit parent kind content l =
     (idFor (lw_next l),
      \<lparr>lw_blocks = lw_blocks l @ [\<lparr>mb_ID = idFor (lw_next l), mb_Parent = parent, mb_Kind = kind, mb_Content = content\<rparr>],
       lw_next = lw_next l + 1\<rparr>)"

definition listKindOf :: "TokenKind \<Rightarrow> string" where
  "listKindOf k = (case k of TokOrdered \<Rightarrow> ''numbered'' | TokTodo \<Rightarrow> ''todo'' | _ \<Rightarrow> ''bulleted'')"

definition isListToken :: "TokenKind \<Rightarrow> bool" where
  "isListToken k \<longleftrightarrow> k = TokBullet \<or> k = TokOrdered \<or> k = TokTodo"

definition lastChildOf :: "lowerer \<Rightarrow> string \<Rightarrow> string" where
  "lastChildOf l parent = (case find (\<lambda>b. mb_Parent b = parent) (rev (lw_blocks l)) of None \<Rightarrow> [] | Some b \<Rightarrow> mb_ID b)"

subsection \<open>Lists\<close>

definition open_list :: "Token \<Rightarrow> string \<Rightarrow> lowerer \<Rightarrow> string \<times> lowerer" where
  "open_list tok parent l = emit parent ((kind_tag ''list'')\<lparr>mk_ListKind := listKindOf (tk_Kind tok)\<rparr>) (PlainContent_md []) l"

definition list_owner :: "string \<Rightarrow> lowerer \<Rightarrow> string \<times> lowerer" where
  "list_owner listID l = (let owner = lastChildOf l listID in
     if owner = [] then emit listID (kind_tag ''list_item'') (PlainContent_md []) l else (owner, l))"

definition list_item :: "Token \<Rightarrow> string \<Rightarrow> lowerer \<Rightarrow> lowerer" where
  "list_item tok listID l = snd (emit listID ((kind_tag ''list_item'')\<lparr>mk_Checked := tk_Checked tok\<rparr>) (ParseInline (tk_Text tok)) l)"

text \<open>The loop of \<open>lowerListAt\<close>. A deeper item calls it on a new list: the call opens the list and runs its own loop.\<close>

partial_function (option) list_loop :: "nat \<Rightarrow> string \<Rightarrow> string \<Rightarrow> Token list \<Rightarrow> lowerer \<Rightarrow> (Token list \<times> lowerer) option" where
  "list_loop indent kind listID ts l =
     (if ts = [] \<or> \<not> isListToken (tk_Kind (hd ts)) \<or> tk_Indent (hd ts) < indent then Some (ts, l)
      else if tk_Indent (hd ts) > indent then
        Option.bind (list_loop (tk_Indent (hd ts)) (listKindOf (tk_Kind (hd ts)))
            (fst (open_list (hd ts) (fst (list_owner listID l)) (snd (list_owner listID l))))
            ts (snd (open_list (hd ts) (fst (list_owner listID l)) (snd (list_owner listID l)))))
          (\<lambda>(ts', l'). list_loop indent kind listID ts' l')
      else if listKindOf (tk_Kind (hd ts)) \<noteq> kind then Some (ts, l)
      else list_loop indent kind listID (tl ts) (list_item (hd ts) listID l))"

declare list_loop.simps [code]

definition lowerListAt :: "Token list \<Rightarrow> nat \<Rightarrow> string \<Rightarrow> lowerer \<Rightarrow> (Token list \<times> lowerer) option" where
  "lowerListAt ts indent parent l = (let (listID, l') = open_list (hd ts) parent l in
     list_loop indent (listKindOf (tk_Kind (hd ts))) listID ts l')"

definition lowerList :: "Token list \<Rightarrow> lowerer \<Rightarrow> (Token list \<times> lowerer) option" where
  "lowerList ts l = lowerListAt ts (tk_Indent (hd ts)) [] l"

subsection \<open>Blocks\<close>

datatype Diagnostic = UnclosedFence nat

definition of_kind :: "TokenKind \<Rightarrow> Token \<Rightarrow> bool" where
  "of_kind k t \<longleftrightarrow> tk_Kind t = k"

definition lower_fence :: "nat \<Rightarrow> Token list \<Rightarrow> lowerer \<Rightarrow> Token list \<times> lowerer \<times> Diagnostic list" where
  "lower_fence line ts l =
     (let body = map tk_Text (takeWhile (of_kind TokCodeText) (tl ts));
          rest = dropWhile (of_kind TokCodeText) (tl ts);
          closed = rest \<noteq> [] \<and> tk_Kind (hd rest) = TokFenceClose;
          l' = snd (emit [] ((kind_tag ''code_block'')\<lparr>mk_Language := tk_Lang (hd ts)\<rparr>) (PlainContent_md (str_join body [newline])) l)
      in (if closed then tl rest else rest, l', if closed then [] else [UnclosedFence line]))"

definition lower_quote :: "Token list \<Rightarrow> lowerer \<Rightarrow> Token list \<times> lowerer \<times> Diagnostic list" where
  "lower_quote ts l =
     (let texts = map tk_Text (takeWhile (of_kind TokQuote) ts);
          (i, l') = emit [] (kind_tag ''quote'') (PlainContent_md []) l;
          l'' = snd (emit i (kind_tag ''paragraph'') (ParseInline (str_join texts '' '')) l')
      in (dropWhile (of_kind TokQuote) ts, l'', []))"

definition lower_paragraph :: "Token list \<Rightarrow> lowerer \<Rightarrow> Token list \<times> lowerer \<times> Diagnostic list" where
  "lower_paragraph ts l =
     (let texts = map tk_Text (takeWhile (of_kind TokParagraph) ts)
      in (dropWhile (of_kind TokParagraph) ts,
          snd (emit [] (kind_tag ''paragraph'') (ParseInline (str_join texts '' '')) l), []))"

text \<open>One round of the loop of \<open>lower\<close>: what is left, the blocks and the new diagnostics.\<close>

definition lower_step :: "nat \<Rightarrow> Token list \<Rightarrow> lowerer \<Rightarrow> (Token list \<times> lowerer \<times> Diagnostic list) option" where
  "lower_step line ts l = (case tk_Kind (hd ts) of
       TokBlank \<Rightarrow> Some (tl ts, l, [])
     | TokDivider \<Rightarrow> Some (tl ts, snd (emit [] (kind_tag ''divider'') (PlainContent_md []) l), [])
     | TokATXHeading \<Rightarrow> Some (tl ts, snd (emit [] ((kind_tag ''heading'')\<lparr>mk_Level := tk_Level (hd ts)\<rparr>) (ParseInline (tk_Text (hd ts))) l), [])
     | TokFenceOpen \<Rightarrow> Some (lower_fence line ts l)
     | TokQuote \<Rightarrow> Some (lower_quote ts l)
     | TokBullet \<Rightarrow> map_option (\<lambda>(ts', l'). (ts', l', [])) (lowerList ts l)
     | TokOrdered \<Rightarrow> map_option (\<lambda>(ts', l'). (ts', l', [])) (lowerList ts l)
     | TokTodo \<Rightarrow> map_option (\<lambda>(ts', l'). (ts', l', [])) (lowerList ts l)
     | _ \<Rightarrow> Some (lower_paragraph ts l))"

partial_function (option) lower_loop :: "nat \<Rightarrow> Token list \<Rightarrow> lowerer \<Rightarrow> Diagnostic list \<Rightarrow> (MdBlock list \<times> Diagnostic list) option" where
  "lower_loop line ts l diags =
     (if ts = [] then Some (lw_blocks l, diags)
      else Option.bind (lower_step (line + 1) ts l) (\<lambda>(ts', l', ds). lower_loop (line + 1) ts' l' (diags @ ds)))"

declare lower_loop.simps [code]

definition lower :: "Token list \<Rightarrow> (MdBlock list \<times> Diagnostic list) option" where
  "lower tokens = lower_loop 0 tokens \<lparr>lw_blocks = [], lw_next = 0\<rparr> []"

subsection \<open>The pipeline\<close>

fun divergence_loop :: "string set \<Rightarrow> nat \<Rightarrow> nat list \<Rightarrow> string list" where
  "divergence_loop seen n [] = []"
| "divergence_loop seen n (r # rs) =
     (if r < 128 then divergence_loop seen n rs
      else let s = encode_rune r in
        if s \<in> seen then divergence_loop seen n rs
        else if n + 1 = 6 then [s]
        else s # divergence_loop (insert s seen) (n + 1) rs)"

definition divergences :: "string \<Rightarrow> string list" where
  "divergences src = divergence_loop {} 0 (runes src)"

datatype mismatch_text = ReplayFailed replay_error | Differs mismatch

record Stats =
  st_Chars :: nat
  st_Bytes :: nat
  st_Divergences :: "string list"
  st_Tokens :: nat
  st_Blocks :: nat
  st_Ops :: nat
  st_Times :: "int list"

record Result =
  r_Tokens :: "Token list"
  r_Tree :: "MdBlock list"
  r_Ops :: "MdOp list"
  r_Replayed :: "MdBlock list"
  r_Holds :: bool
  r_Mismatch :: "mismatch_text option"
  r_Diagnostics :: "Diagnostic list"
  r_Stats :: Stats

definition Compile :: "int list \<Rightarrow> string \<Rightarrow> Result option" where
  "Compile ns src = (let tokens = Lex src in case lower tokens of None \<Rightarrow> None | Some (tree, diags) \<Rightarrow>
     let ops = Emit tree in case Replay_ops ops of None \<Rightarrow> None | Some replayed \<Rightarrow>
     let mismatch = (case replayed of Inl e \<Rightarrow> Some (ReplayFailed e) | Inr t \<Rightarrow> map_option Differs (Tree_Equal tree t)) in
     Some \<lparr>r_Tokens = tokens, r_Tree = tree, r_Ops = ops,
       r_Replayed = (case replayed of Inl e \<Rightarrow> [] | Inr t \<Rightarrow> t),
       r_Holds = (mismatch = None), r_Mismatch = mismatch, r_Diagnostics = diags,
       r_Stats = \<lparr>st_Chars = rune_count src, st_Bytes = length src, st_Divergences = divergences src,
         st_Tokens = length tokens, st_Blocks = length tree, st_Ops = length ops, st_Times = ns\<rparr>\<rparr>)"

end
