(* ===== verification/MdLaws.thy ===== *)
theory MdLaws
  imports MdCompile
begin

text \<open>
  What the paste compiler makes of any text: blocks that follow the grammar of lists, quotes and headings, in
  depth-first order, which is why the check in \<open>Compile\<close> always holds; and that it returns.
\<close>

subsection \<open>The grammar\<close>

text \<open>What a block may be under its parent, given by the tag of the parent.\<close>

definition block_ok :: "string option \<Rightarrow> MdKind \<Rightarrow> MdContent \<Rightarrow> bool" where
  "block_ok parent k c \<longleftrightarrow>
     mk_Tag k \<in> (case parent of None \<Rightarrow> {''divider'', ''heading'', ''code_block'', ''quote'', ''list'', ''paragraph''}
       | Some t \<Rightarrow> if t = ''list'' then {''list_item''} else if t = ''list_item'' then {''list''}
           else if t = ''quote'' then {''paragraph''} else {}) \<and>
     (if mk_Tag k = ''heading'' then mk_Level k \<in> {1, 2, 3} else mk_Level k = 0) \<and>
     (if mk_Tag k = ''list'' then mk_ListKind k \<in> {''bulleted'', ''numbered'', ''todo''} else mk_ListKind k = []) \<and>
     (mk_Tag k \<noteq> ''list_item'' \<longrightarrow> \<not> mk_Checked k) \<and>
     (mk_Tag k \<noteq> ''code_block'' \<longrightarrow> mk_Language k = []) \<and>
     (mk_Tag k = ''code_block'' \<longrightarrow> mc_Marks c = []) \<and>
     (mk_Tag k \<in> {''quote'', ''list'', ''divider''} \<longrightarrow> c = PlainContent_md [])"

text \<open>Every block is allowed where it is; its parent is an earlier block.\<close>

fun grammatical :: "(string \<rightharpoonup> string) \<Rightarrow> MdBlock list \<Rightarrow> bool" where
  "grammatical tags [] = True"
| "grammatical tags (b # bs) \<longleftrightarrow>
     (mb_Parent b = [] \<or> tags (mb_Parent b) \<noteq> None) \<and>
     block_ok (if mb_Parent b = [] then None else tags (mb_Parent b)) (mb_Kind b) (mb_Content b) \<and>
     grammatical (tags(mb_ID b \<mapsto> mk_Tag (mb_Kind b))) bs"

definition tags_of :: "MdBlock list \<Rightarrow> string \<rightharpoonup> string" where
  "tags_of bs = (\<lambda>i. map_option (\<lambda>b. mk_Tag (mb_Kind b)) (known bs i))"

lemma tags_empty [simp]: "tags_of [] = Map.empty" by (simp add: tags_of_def)

lemma tags_snoc: "tags_of (bs @ [b]) = (tags_of bs)(mb_ID b \<mapsto> mk_Tag (mb_Kind b))"
  by (auto simp: tags_of_def known_snoc)

lemma grammatical_snoc:
  "grammatical Map.empty (bs @ [b]) \<longleftrightarrow> grammatical Map.empty bs \<and>
     (mb_Parent b = [] \<or> tags_of bs (mb_Parent b) \<noteq> None) \<and>
     block_ok (if mb_Parent b = [] then None else tags_of bs (mb_Parent b)) (mb_Kind b) (mb_Content b)"
proof -
  have "grammatical t (bs @ [b]) \<longleftrightarrow> grammatical t bs \<and> (mb_Parent b = [] \<or> (t ++ tags_of bs) (mb_Parent b) \<noteq> None) \<and>
     block_ok (if mb_Parent b = [] then None else (t ++ tags_of bs) (mb_Parent b)) (mb_Kind b) (mb_Content b)" for t
  proof (induction bs arbitrary: t)
    case (Cons c cs)
    have "tags_of (c # cs) = [mb_ID c \<mapsto> mk_Tag (mb_Kind c)] ++ tags_of cs"
      by (induction cs rule: rev_induct) (simp_all add: tags_snoc[of "[]", simplified] tags_snoc[of "_ # _", simplified] tags_snoc
          del: fun_upd_apply)
    then have "t ++ tags_of (c # cs) = t(mb_ID c \<mapsto> mk_Tag (mb_Kind c)) ++ tags_of cs" by simp
    then show ?case using Cons.IH[of "t(mb_ID c \<mapsto> mk_Tag (mb_Kind c))"] by (simp del: fun_upd_apply)
  qed simp
  from this[of Map.empty] show ?thesis by simp
qed

lemma tags_append: "distinct (map mb_ID (xs @ ys)) \<Longrightarrow> tags_of xs i = Some t \<Longrightarrow> tags_of (xs @ ys) i = Some t"
proof (induction ys rule: rev_induct)
  case (snoc y ys)
  have "i \<in> dom (known xs)" using snoc.prems(2) by (auto simp: tags_of_def)
  moreover have "mb_ID y \<notin> mb_ID ` set xs" using snoc.prems(1) by simp
  ultimately have "i \<noteq> mb_ID y" using dom_known[of xs] by metis
  then show ?case using snoc tags_snoc[of "xs @ ys" y] by simp
qed simp

lemma parents_known: "grammatical Map.empty bs \<Longrightarrow> b \<in> set bs \<Longrightarrow> mb_Parent b = [] \<or> mb_Parent b \<in> mb_ID ` set bs"
proof (induction bs rule: rev_induct)
  case (snoc c cs)
  have "tags_of cs (mb_Parent c) \<noteq> None \<Longrightarrow> mb_Parent c \<in> mb_ID ` set cs" using dom_known[of cs] by (auto simp: tags_of_def)
  then show ?case using snoc by (auto simp: grammatical_snoc)
qed simp

subsection \<open>Lowering makes a tree\<close>

definition lw_at :: "lowerer \<Rightarrow> string list \<Rightarrow> bool" where
  "lw_at l s \<longleftrightarrow> map mb_ID (lw_blocks l) = map idFor [0..<lw_next l] \<and> grammatical Map.empty (lw_blocks l) \<and>
     tree_stack [] (lw_blocks l) = Some s"

lemma idFor_inj: "idFor m = idFor n \<longleftrightarrow> m = n" by (simp add: idFor_def)
lemma idFor_nonempty [simp]: "idFor n \<noteq> []" "[] \<noteq> idFor n" by (simp_all add: idFor_def)

lemma lw_ids: "lw_at l s \<Longrightarrow> distinct (map mb_ID (lw_blocks l))"
  by (auto simp: lw_at_def distinct_map idFor_inj inj_on_def simp del: upt_Suc)

lemma lw_in: "lw_at l s \<Longrightarrow> mb_ID ` set (lw_blocks l) = idFor ` {..<lw_next l}"
  unfolding lw_at_def by (metis atLeast_upt list.set_map)

lemma lw_stack: "lw_at l s \<Longrightarrow> distinct s \<and> set s \<subseteq> mb_ID ` set (lw_blocks l) \<and> [] \<notin> set s"
  using tree_stack_distinct[of "[]" "lw_blocks l" s] tree_stack_set[of "[]" "lw_blocks l" s] lw_ids[of l s] lw_in[of l s]
  by (auto simp: lw_at_def)

lemma lw_grown: "lw_at l s \<Longrightarrow> grown (lw_blocks l)"
  using lw_ids[of l s] lw_in[of l s] by (auto simp: grown_def lw_at_def)

lemma emit_at:
  assumes l: "lw_at l s" and p: "p = [] \<or> p \<in> set s" and k: "block_ok (if p = [] then None else tags_of (lw_blocks l) p) k c"
  shows "lw_at (snd (emit p k c l)) (idFor (lw_next l) # (if p = [] then [] else dropWhile (\<lambda>x. x \<noteq> p) s))"
    "tags_of (lw_blocks (snd (emit p k c l))) (idFor (lw_next l)) = Some (mk_Tag k)"
    "idFor (lw_next l) \<notin> mb_ID ` set (lw_blocks l)"
proof -
  show n: "idFor (lw_next l) \<notin> mb_ID ` set (lw_blocks l)" using lw_in[OF l] by (auto simp: idFor_inj)
  have t: "tags_of (lw_blocks l) p \<noteq> None" if "p \<noteq> []"
  proof -
    have "p \<in> dom (known (lw_blocks l))" using p that lw_stack[OF l] dom_known[of "lw_blocks l"] by auto
    then show ?thesis by (auto simp: tags_of_def)
  qed
  show "lw_at (snd (emit p k c l)) (idFor (lw_next l) # (if p = [] then [] else dropWhile (\<lambda>x. x \<noteq> p) s))"
    using l p k t by (auto simp: lw_at_def emit_def grammatical_snoc tree_stack_append)
  show "tags_of (lw_blocks (snd (emit p k c l))) (idFor (lw_next l)) = Some (mk_Tag k)"
    by (simp add: emit_def tags_snoc)
qed

lemma emit_blocks:
  "lw_blocks (snd (emit p k c l)) = lw_blocks l @ [\<lparr>mb_ID = idFor (lw_next l), mb_Parent = p, mb_Kind = k, mb_Content = c\<rparr>]"
  "fst (emit p k c l) = idFor (lw_next l)"
  by (simp_all add: emit_def)

lemma lastChildOf_snoc:
  "lw_blocks l' = lw_blocks l @ [b] \<Longrightarrow> lastChildOf l' p = (if mb_Parent b = p then mb_ID b else lastChildOf l p)"
  by (simp add: lastChildOf_def)

lemma no_child: "lw_at l s \<Longrightarrow> lastChildOf l (idFor (lw_next l)) = []"
proof -
  assume l: "lw_at l s"
  have M: "idFor (lw_next l) \<notin> mb_ID ` set (lw_blocks l)" using lw_in[OF l] by (auto simp: idFor_inj)
  have "mb_Parent b \<noteq> idFor (lw_next l)" if "b \<in> set (lw_blocks l)" for b
  proof -
    have "mb_Parent b = [] \<or> mb_Parent b \<in> mb_ID ` set (lw_blocks l)" using parents_known that l by (simp add: lw_at_def)
    then show ?thesis using M idFor_nonempty by metis
  qed
  then have "find (\<lambda>b. mb_Parent b = idFor (lw_next l)) (rev (lw_blocks l)) = None" by (simp add: find_None_iff)
  then show ?thesis by (simp add: lastChildOf_def)
qed

lemma lastChildOf_append:
  "lw_blocks l' = lw_blocks l @ new \<Longrightarrow> \<forall>b \<in> set new. mb_Parent b \<noteq> p \<Longrightarrow> lastChildOf l' p = lastChildOf l p"
proof -
  assume a: "lw_blocks l' = lw_blocks l @ new" "\<forall>b \<in> set new. mb_Parent b \<noteq> p"
  have "find P (xs @ ys) = find P ys" if "\<forall>x \<in> set xs. \<not> P x" for P and xs ys :: "MdBlock list"
    using that by (induction xs) auto
  then show ?thesis using a by (simp add: lastChildOf_def)
qed

text \<open>The state while a list is being filled: the list is on the stack with the blocks under it, and its last
  item, if it has one, is above it.\<close>

definition filling :: "string \<Rightarrow> string list \<Rightarrow> lowerer \<Rightarrow> bool" where
  "filling L below l \<longleftrightarrow> (\<exists>ws. lw_at l (ws @ L # below) \<and> tags_of (lw_blocks l) L = Some ''list'' \<and>
     (lastChildOf l L = [] \<or> lastChildOf l L \<in> set ws \<and> tags_of (lw_blocks l) (lastChildOf l L) = Some ''list_item''))"

definition grew :: "string list \<Rightarrow> lowerer \<Rightarrow> lowerer \<Rightarrow> bool" where
  "grew below l l' \<longleftrightarrow> (\<exists>new. lw_blocks l' = lw_blocks l @ new \<and> (\<forall>b \<in> set new. mb_Parent b \<notin> set below))"

lemma grew_refl [simp]: "grew below l l" by (simp add: grew_def)

lemma grew_trans: "grew below l l' \<Longrightarrow> grew below l' l'' \<Longrightarrow> grew below l l''"
  by (fastforce simp: grew_def)

lemma grew_mono: "grew (xs @ below) l l' \<Longrightarrow> grew below l l'"
  by (auto simp: grew_def)

lemma fill_item:
  assumes f: "filling L below l" and k: "mk_Tag k = ''list_item''" "mk_Level k = 0" "mk_ListKind k = []" "mk_Language k = []"
  shows "filling L below (snd (emit L k c l))" "grew below l (snd (emit L k c l))" "lastChildOf (snd (emit L k c l)) L = idFor (lw_next l)"
proof -
  obtain ws where w: "lw_at l (ws @ L # below)" "tags_of (lw_blocks l) L = Some ''list''" using f by (auto simp: filling_def)
  have d: "distinct (ws @ L # below)" "L \<noteq> []" using lw_stack[OF w(1)] by auto
  have p: "L = [] \<or> L \<in> set (ws @ L # below)" by simp
  have ok: "block_ok (if L = [] then None else tags_of (lw_blocks l) L) k c" using w(2) k d(2) by (simp add: block_ok_def)
  note e = emit_at[OF w(1) p ok]
  show l: "lastChildOf (snd (emit L k c l)) L = idFor (lw_next l)"
    by (subst lastChildOf_snoc[OF emit_blocks(1)]) simp
  have "dropWhile (\<lambda>x. x \<noteq> L) (ws @ L # below) = L # below" using d(1) by (subst dropWhile_append2) auto
  then have a: "lw_at (snd (emit L k c l)) ([idFor (lw_next l)] @ L # below)" using e(1) d(2) by simp
  have "tags_of (lw_blocks (snd (emit L k c l))) L = Some ''list''"
    using tags_append[OF lw_ids[OF a, unfolded emit_blocks(1)] w(2)] by (simp add: emit_blocks)
  then show "filling L below (snd (emit L k c l))" using a e(2) l k(1) unfolding filling_def by (intro exI[of _ "[idFor (lw_next l)]"]) simp
  show "grew below l (snd (emit L k c l))" using d(1) by (auto simp: grew_def emit_blocks)
qed

lemma grew_tags:
  "lw_at l' s' \<Longrightarrow> grew below l l' \<Longrightarrow> tags_of (lw_blocks l) i = Some t \<Longrightarrow> tags_of (lw_blocks l') i = Some t"
  using lw_ids[of l' s'] tags_append by (auto simp: grew_def)

lemma owner_filling:
  assumes "filling L below l"
  shows "filling L below (snd (list_owner L l))" "grew below l (snd (list_owner L l))"
    "lastChildOf (snd (list_owner L l)) L = fst (list_owner L l)" "fst (list_owner L l) \<noteq> []"
  using assms fill_item[OF assms, of "kind_tag ''list_item''"]
  by (simp_all add: list_owner_def Let_def kind_tag_def emit_blocks)

lemma nested_list:
  assumes f: "filling L below l" and ow: "ow = fst (list_owner L l)" "l1 = snd (list_owner L l)"
    and n: "M = fst (open_list tok ow l1)" "l2 = snd (open_list tok ow l1)"
  shows "\<exists>mid. filling M (mid @ L # below) l2 \<and>
    (\<forall>l3. filling M (mid @ L # below) l3 \<longrightarrow> grew (mid @ L # below) l2 l3 \<longrightarrow> filling L below l3 \<and> grew below l l3)"
proof -
  note own = owner_filling[OF f, folded ow]
  obtain ws where w: "lw_at l1 (ws @ L # below)" "tags_of (lw_blocks l1) L = Some ''list''" "ow \<in> set ws" "tags_of (lw_blocks l1) ow = Some ''list_item''"
    using own(1,3,4) by (auto simp: filling_def)
  let ?mid = "dropWhile (\<lambda>y. y \<noteq> ow) ws" let ?k = "(kind_tag ''list'')\<lparr>mk_ListKind := listKindOf (tk_Kind tok)\<rparr>"
  have d: "distinct (ws @ L # below)" using lw_stack[OF w(1)] by simp
  have oL: "ow \<noteq> L" "ow \<notin> set below" using d w(3) by auto
  have e: "M = fst (emit ow ?k (PlainContent_md []) l1)" "l2 = snd (emit ow ?k (PlainContent_md []) l1)" by (simp_all add: n open_list_def)
  have ok: "block_ok (if ow = [] then None else tags_of (lw_blocks l1) ow) ?k (PlainContent_md [])"
    using own(4) w(4) by (auto simp: block_ok_def kind_tag_def listKindOf_def split: TokenKind.splits)
  have in1: "ow = [] \<or> ow \<in> set (ws @ L # below)" using w(3) by simp
  have drop: "dropWhile (\<lambda>y. y \<noteq> ow) (ws @ L # below) = ?mid @ L # below" by (rule dropWhile_upto) (use w(3) in simp)
  have M: "M = idFor (lw_next l1)" by (simp add: e emit_def)
  have l2: "lw_at l2 (M # ?mid @ L # below)" using emit_at(1)[OF w(1) in1 ok] own(4) drop by (simp add: e M emit_blocks)
  have b2: "lw_blocks l2 = lw_blocks l1 @ [\<lparr>mb_ID = M, mb_Parent = ow, mb_Kind = ?k, mb_Content = PlainContent_md []\<rparr>]"
    by (simp add: e emit_blocks)
  have g2: "grew below l1 l2" using b2 oL(2) by (simp add: grew_def)
  have M1: "M \<notin> mb_ID ` set (lw_blocks l1)" using emit_at(3)[OF w(1) in1 ok] M by simp
  have "lastChildOf l1 M = []" using no_child[OF w(1)] M by simp
  moreover have "ow \<noteq> M" using M1 w(4) dom_known[of "lw_blocks l1"] by (force simp: tags_of_def)
  ultimately have "lastChildOf l2 M = []" using lastChildOf_snoc[OF b2, of M] by simp
  moreover have "tags_of (lw_blocks l2) M = Some ''list''" by (simp add: b2 tags_snoc kind_tag_def)
  ultimately have f2: "filling M (?mid @ L # below) l2" using l2 unfolding filling_def by (intro exI[of _ "[]"]) simp
  have again: "filling L below l3 \<and> grew below l l3" if f3: "filling M (?mid @ L # below) l3" and g3: "grew (?mid @ L # below) l2 l3" for l3
  proof -
    obtain w3 where w3: "lw_at l3 (w3 @ M # ?mid @ L # below)" using f3 by (auto simp: filling_def)
    have g1: "grew below l1 l3" using grew_trans[OF g2] grew_mono[of "?mid @ [L]"] g3 by simp
    have t: "tags_of (lw_blocks l3) L = Some ''list''" "tags_of (lw_blocks l3) ow = Some ''list_item''"
      using grew_tags[OF w3 g1] w(2,4) by blast+
    obtain new where new: "lw_blocks l3 = lw_blocks l2 @ new" "\<forall>b \<in> set new. mb_Parent b \<noteq> L" using g3 by (auto simp: grew_def)
    have "lastChildOf l3 L = lastChildOf l2 L" by (rule lastChildOf_append[OF new])
    also have "\<dots> = ow" using lastChildOf_snoc[OF b2, of L] oL(1) own(3) by simp
    finally have lc: "lastChildOf l3 L = ow" .
    have "ow \<in> set ?mid" using w(3) by (induction ws) auto
    then have "filling L below l3" unfolding filling_def using w3 t lc by (intro exI[of _ "w3 @ M # ?mid"]) auto
    then show ?thesis using grew_trans[OF own(2) g1] by simp
  qed
  show ?thesis using f2 again by blast
qed

subsection \<open>Lists end\<close>

definition item_of :: "nat \<Rightarrow> string \<Rightarrow> Token list \<Rightarrow> bool" where
  "item_of indent kind ts \<longleftrightarrow> ts \<noteq> [] \<and> isListToken (tk_Kind (hd ts)) \<and> tk_Indent (hd ts) = indent \<and> listKindOf (tk_Kind (hd ts)) = kind"

definition list_tokens :: "Token list \<Rightarrow> bool" where
  "list_tokens ts \<longleftrightarrow> list_all (\<lambda>t. isListToken (tk_Kind t)) ts"

definition list_done :: "nat \<Rightarrow> string \<Rightarrow> string \<Rightarrow> string list \<Rightarrow> Token list \<Rightarrow> lowerer \<Rightarrow> bool" where
  "list_done indent kind L below ts l \<longleftrightarrow> (\<exists>pre ts' l'. list_loop indent kind L ts l = Some (ts', l') \<and> ts = pre @ ts' \<and>
     list_tokens pre \<and> (item_of indent kind ts \<longrightarrow> pre \<noteq> []) \<and> filling L below l' \<and> grew below l l')"

lemma item_filling:
  "filling L below l \<Longrightarrow> filling L below (list_item tok L l) \<and> grew below l (list_item tok L l)"
  using fill_item[of L below l "(kind_tag ''list_item'')\<lparr>mk_Checked := tk_Checked tok\<rparr>"]
  by (simp add: list_item_def kind_tag_def)

lemma item_done:
  assumes i: "item_of indent kind ts" and f: "filling L below l" and t: "list_done indent kind L below (tl ts) (list_item (hd ts) L l)"
  shows "list_done indent kind L below ts l"
proof -
  obtain pre ts' l' where p: "list_loop indent kind L (tl ts) (list_item (hd ts) L l) = Some (ts', l')" "tl ts = pre @ ts'" "list_tokens pre"
    "filling L below l'" "grew below (list_item (hd ts) L l) l'" using t by (auto simp: list_done_def)
  have "list_loop indent kind L ts l = Some (ts', l')" using p(1) i by (subst list_loop.simps) (simp add: item_of_def)
  moreover have "ts = (hd ts # pre) @ ts'" using p(2) i by (cases ts) (simp_all add: item_of_def)
  moreover have "list_tokens (hd ts # pre)" using p(3) i by (simp add: list_tokens_def item_of_def)
  ultimately show ?thesis using p(4,5) grew_trans item_filling[OF f] unfolding list_done_def by blast
qed

lemma list_ends: "filling L below l \<Longrightarrow> list_done indent kind L below ts l"
proof (induction "length ts" arbitrary: ts indent kind L below l rule: less_induct)
  case less
  have items: "list_done i k M b ts m" if "item_of i k ts" "filling M b m" for i k M b m
    using item_done[OF that less.hyps[OF _ conjunct1[OF item_filling[OF that(2)]]]] that(1) by (simp add: item_of_def)
  have halt: "list_done indent kind L below ts l" if "list_loop indent kind L ts l = Some (ts, l)" "\<not> item_of indent kind ts"
    using that less.prems by (auto simp: list_done_def list_tokens_def intro!: exI[of _ "[]"])
  consider (stop) "ts = [] \<or> \<not> isListToken (tk_Kind (hd ts)) \<or> tk_Indent (hd ts) < indent \<or>
      tk_Indent (hd ts) = indent \<and> listKindOf (tk_Kind (hd ts)) \<noteq> kind"
    | (item) "item_of indent kind ts"
    | (deeper) "ts \<noteq> []" "isListToken (tk_Kind (hd ts))" "indent < tk_Indent (hd ts)"
    unfolding item_of_def by linarith
  then show ?case
  proof cases
    case stop
    then have "list_loop indent kind L ts l = Some (ts, l)" by (subst list_loop.simps) auto
    then show ?thesis using halt stop by (auto simp: item_of_def)
  next
    case item
    then show ?thesis using items less.prems by blast
  next
    case deeper
    define ow l1 where ow: "ow = fst (list_owner L l)" "l1 = snd (list_owner L l)"
    define M l2 where M: "M = fst (open_list (hd ts) ow l1)" "l2 = snd (open_list (hd ts) ow l1)"
    obtain mid where mid: "filling M (mid @ L # below) l2"
      "\<And>l3. filling M (mid @ L # below) l3 \<Longrightarrow> grew (mid @ L # below) l2 l3 \<Longrightarrow> filling L below l3 \<and> grew below l l3"
      using nested_list[OF less.prems ow M] by blast
    have own: "item_of (tk_Indent (hd ts)) (listKindOf (tk_Kind (hd ts))) ts" using deeper by (simp add: item_of_def)
    obtain pre ts' l3 where n: "list_loop (tk_Indent (hd ts)) (listKindOf (tk_Kind (hd ts))) M ts l2 = Some (ts', l3)" "ts = pre @ ts'"
      "list_tokens pre" "pre \<noteq> []" "filling M (mid @ L # below) l3" "grew (mid @ L # below) l2 l3"
      using items[OF own mid(1)] own unfolding list_done_def by blast
    have l3: "filling L below l3" "grew below l l3" using mid(2) n(5,6) by blast+
    have "length ts' < length ts" using n(2,4) by simp
    then obtain pre2 ts2 l4 where r: "list_loop indent kind L ts' l3 = Some (ts2, l4)" "ts' = pre2 @ ts2" "list_tokens pre2"
      "filling L below l4" "grew below l3 l4" using less.hyps[OF _ l3(1), of ts' indent kind] unfolding list_done_def by blast
    have "list_loop indent kind L ts l = Some (ts2, l4)" using deeper n(1) r(1) M ow by (subst list_loop.simps) simp
    moreover have "ts = (pre @ pre2) @ ts2" "list_tokens (pre @ pre2)" using n(2,3) r(2,3) by (simp_all add: list_tokens_def)
    moreover have "\<not> item_of indent kind ts" using deeper by (simp add: item_of_def)
    ultimately show ?thesis using r(4) grew_trans[OF l3(2) r(5)] unfolding list_done_def by blast
  qed
qed

subsection \<open>Lowering returns\<close>

lemma top_emit:
  assumes "lw_at l s" "block_ok None k c"
  shows "lw_at (snd (emit [] k c l)) [idFor (lw_next l)]"
  using emit_at(1)[OF assms(1), of "[]" k c] assms(2) by simp

lemma lowerList_returns:
  assumes l: "lw_at l s" and t: "ts \<noteq> []" "isListToken (tk_Kind (hd ts))"
  shows "\<exists>pre ts' l' s'. lowerList ts l = Some (ts', l') \<and> ts = pre @ ts' \<and> pre \<noteq> [] \<and> list_tokens pre \<and> lw_at l' s'"
proof -
  let ?k = "(kind_tag ''list'')\<lparr>mk_ListKind := listKindOf (tk_Kind (hd ts))\<rparr>"
  let ?l = "snd (emit [] ?k (PlainContent_md []) l)" and ?M = "idFor (lw_next l)"
  have ok: "block_ok None ?k (PlainContent_md [])" by (auto simp: block_ok_def kind_tag_def listKindOf_def split: TokenKind.splits)
  have "lastChildOf l ?M = []" by (rule no_child[OF l])
  then have "lastChildOf ?l ?M = []" using lastChildOf_snoc[OF emit_blocks(1), of "[]" ?k "PlainContent_md []" l ?M] by simp
  then have f: "filling ?M [] ?l" using top_emit[OF l ok] unfolding filling_def by (intro exI[of _ "[]"]) (simp add: emit_blocks tags_snoc kind_tag_def)
  have i: "item_of (tk_Indent (hd ts)) (listKindOf (tk_Kind (hd ts))) ts" using t by (simp add: item_of_def)
  obtain pre ts' l' where r: "list_loop (tk_Indent (hd ts)) (listKindOf (tk_Kind (hd ts))) ?M ts ?l = Some (ts', l')" "ts = pre @ ts'"
    "list_tokens pre" "pre \<noteq> []" "filling ?M [] l'"
    using list_ends[OF f, of "tk_Indent (hd ts)" "listKindOf (tk_Kind (hd ts))" ts] i unfolding list_done_def by blast
  have "lowerList ts l = Some (ts', l')" using r(1) by (simp add: lowerList_def lowerListAt_def open_list_def emit_def)
  then show ?thesis using r by (auto simp: filling_def)
qed

lemma fenced_drop: "fenced False (pre @ ts) \<Longrightarrow> list_all (\<lambda>t. tk_Kind t \<noteq> TokFenceOpen) pre \<Longrightarrow> fenced False ts"
  by (induction pre) auto

lemma fenced_code: "fenced True ts \<Longrightarrow> dropWhile (of_kind TokCodeText) ts = [] \<or>
    tk_Kind (hd (dropWhile (of_kind TokCodeText) ts)) = TokFenceClose \<and> fenced False (tl (dropWhile (of_kind TokCodeText) ts))"
  by (induction ts) (auto simp: of_kind_def)

lemma levels_append: "levels_ok (xs @ ys) \<longleftrightarrow> levels_ok xs \<and> levels_ok ys" by (simp add: levels_ok_def)

lemma levels_Cons: "levels_ok (t # ts) \<Longrightarrow> levels_ok ts" by (simp add: levels_ok_def)

definition step_done :: "Token list \<Rightarrow> (Token list \<times> lowerer \<times> Diagnostic list) option \<Rightarrow> bool" where
  "step_done ts r \<longleftrightarrow> (\<exists>pre ts' l' ds s'. r = Some (ts', l', ds) \<and> ts = pre @ ts' \<and> pre \<noteq> [] \<and> fenced False ts' \<and> lw_at l' s')"

lemma step_doneI:
  "r = Some (ts', l', ds) \<Longrightarrow> ts = pre @ ts' \<Longrightarrow> pre \<noteq> [] \<Longrightarrow> fenced False ts' \<Longrightarrow> lw_at l' s' \<Longrightarrow> step_done ts r"
  unfolding step_done_def by blast

lemma run_done:
  assumes "fenced False ts" "ts \<noteq> []" "of_kind k (hd ts)" "k \<noteq> TokFenceOpen" "lw_at l' s'"
  shows "step_done ts (Some (dropWhile (of_kind k) ts, l', ds))"
proof -
  have t: "ts = takeWhile (of_kind k) ts @ dropWhile (of_kind k) ts" by simp
  have "list_all (\<lambda>t. tk_Kind t \<noteq> TokFenceOpen) (takeWhile (of_kind k) ts)"
    using assms(4) by (auto simp: list_all_iff of_kind_def dest!: set_takeWhileD)
  then have "fenced False (dropWhile (of_kind k) ts)" using fenced_drop assms(1) t by metis
  moreover have "takeWhile (of_kind k) ts \<noteq> []" using assms(2,3) by (cases ts) auto
  ultimately show ?thesis using assms(5) t unfolding step_done_def by blast
qed

lemma one_done:
  assumes "fenced False ts" "ts \<noteq> []" "tk_Kind (hd ts) \<noteq> TokFenceOpen" "lw_at l' s'"
  shows "step_done ts (Some (tl ts, l', ds))"
  by (rule step_doneI[OF refl, where pre = "[hd ts]" and s' = s']) (use assms in \<open>cases ts; auto\<close>)+

lemma fence_done:
  assumes f: "fenced False ts" "ts \<noteq> []" "tk_Kind (hd ts) = TokFenceOpen" and l: "lw_at l s"
  shows "step_done ts (Some (lower_fence line ts l))"
proof -
  let ?code = "takeWhile (of_kind TokCodeText) (tl ts)" and ?rest = "dropWhile (of_kind TokCodeText) (tl ts)"
  have c: "?rest = [] \<or> tk_Kind (hd ?rest) = TokFenceClose \<and> fenced False (tl ?rest)"
    using f by (intro fenced_code) (cases ts; auto)
  have s: "ts = hd ts # ?code @ ?rest" using f(2) by (cases ts) auto
  have b: "block_ok None ((kind_tag ''code_block'')\<lparr>mk_Language := x\<rparr>) (PlainContent_md y)" for x y
    by (simp add: block_ok_def kind_tag_def PlainContent_md_def)
  show ?thesis
  proof (cases "?rest = []")
    case True
    then show ?thesis
      by (intro step_doneI[where pre = ts and ts' = "[]", OF _ _ _ _ top_emit[OF l b]]) (use f(2) in \<open>auto simp: lower_fence_def Let_def\<close>)
  next
    case False
    then have "ts = (hd ts # ?code @ [hd ?rest]) @ tl ?rest" using s by simp
    then show ?thesis using c False
      by (intro step_doneI[where pre = "hd ts # ?code @ [hd ?rest]" and ts' = "tl ?rest", OF _ _ _ _ top_emit[OF l b]])
        (auto simp: lower_fence_def Let_def)
  qed
qed

lemma quote_done:
  assumes f: "fenced False ts" "ts \<noteq> []" "tk_Kind (hd ts) = TokQuote" and l: "lw_at l s"
  shows "step_done ts (Some (lower_quote ts l))"
proof -
  have b: "block_ok None (kind_tag ''quote'') (PlainContent_md [])" by (simp add: block_ok_def kind_tag_def)
  let ?l = "snd (emit [] (kind_tag ''quote'') (PlainContent_md []) l)" and ?i = "idFor (lw_next l)"
  have l1: "lw_at ?l [?i]" by (rule top_emit[OF l b])
  have t: "tags_of (lw_blocks ?l) ?i = Some ''quote''" by (simp add: emit_blocks tags_snoc kind_tag_def)
  have c: "block_ok (if ?i = [] then None else tags_of (lw_blocks ?l) ?i) (kind_tag ''paragraph'') x" for x
    using t by (simp add: block_ok_def kind_tag_def)
  have i: "?i = [] \<or> ?i \<in> set [?i]" by simp
  have e: "lower_quote ts l = (dropWhile (of_kind TokQuote) ts,
      snd (emit ?i (kind_tag ''paragraph'') (ParseInline (str_join (map tk_Text (takeWhile (of_kind TokQuote) ts)) '' '')) ?l), [])"
    by (simp add: lower_quote_def Let_def case_prod_beta emit_blocks)
  show ?thesis unfolding e by (rule run_done[OF f(1,2) _ _ emit_at(1)[OF l1 i c]]) (use f(3) in \<open>simp_all add: of_kind_def\<close>)
qed

lemma lists_done:
  assumes f: "fenced False ts" "ts \<noteq> []" "isListToken (tk_Kind (hd ts))" and l: "lw_at l s"
  shows "step_done ts (map_option (\<lambda>(ts', l'). (ts', l', [])) (lowerList ts l))"
proof -
  obtain pre ts' l' s' where r: "lowerList ts l = Some (ts', l')" "ts = pre @ ts'" "pre \<noteq> []" "list_tokens pre" "lw_at l' s'"
    using lowerList_returns[OF l f(2,3)] by blast
  have "list_all (\<lambda>t. tk_Kind t \<noteq> TokFenceOpen) pre"
    using r(4) unfolding list_tokens_def by (rule list.pred_mono_strong) (auto simp: isListToken_def)
  then have "fenced False ts'" using fenced_drop f(1) r(2) by blast
  then show ?thesis by (intro step_doneI[OF _ r(2,3) _ r(5)]) (simp_all add: r(1))
qed

lemma lower_step_done:
  assumes f: "fenced False ts" "ts \<noteq> []" and v: "levels_ok ts" and l: "lw_at l s"
  shows "step_done ts (lower_step line ts l)"
proof (cases "tk_Kind (hd ts)")
  case TokATXHeading
  then have "tk_Level (hd ts) \<in> {1, 2, 3}" using v f(2) by (cases ts) (auto simp: levels_ok_def)
  then have "block_ok None ((kind_tag ''heading'')\<lparr>mk_Level := tk_Level (hd ts)\<rparr>) x" for x by (simp add: block_ok_def kind_tag_def)
  from one_done[OF f _ top_emit[OF l this]] show ?thesis using TokATXHeading by (simp add: lower_step_def)
next
  case TokParagraph
  have "block_ok None (kind_tag ''paragraph'') x" for x by (simp add: block_ok_def kind_tag_def)
  from run_done[OF f _ _ top_emit[OF l this], of TokParagraph] show ?thesis
    using TokParagraph by (simp add: lower_step_def lower_paragraph_def of_kind_def)
next
  case TokDivider
  have "block_ok None (kind_tag ''divider'') (PlainContent_md [])" by (simp add: block_ok_def kind_tag_def)
  from one_done[OF f _ top_emit[OF l this]] show ?thesis using TokDivider by (simp add: lower_step_def)
next
  case TokBlank
  then show ?thesis using one_done[OF f _ l] by (simp add: lower_step_def)
next
  case TokQuote
  then show ?thesis using quote_done[OF f _ l] by (simp add: lower_step_def)
next
  case TokFenceOpen
  then show ?thesis using fence_done[OF f _ l] by (simp add: lower_step_def)
next
  case TokBullet
  then show ?thesis using lists_done[OF f _ l] by (simp add: lower_step_def isListToken_def)
next
  case TokOrdered
  then show ?thesis using lists_done[OF f _ l] by (simp add: lower_step_def isListToken_def)
next
  case TokTodo
  then show ?thesis using lists_done[OF f _ l] by (simp add: lower_step_def isListToken_def)
qed (use f in \<open>cases ts; simp\<close>)+

lemma lower_loop_returns:
  "fenced False ts \<Longrightarrow> levels_ok ts \<Longrightarrow> lw_at l s \<Longrightarrow>
   \<exists>l' s' ds. lower_loop line ts l diags = Some (lw_blocks l', ds) \<and> lw_at l' s'"
proof (induction "length ts" arbitrary: ts line l s diags rule: less_induct)
  case less
  show ?case
  proof (cases "ts = []")
    case True
    then show ?thesis using less.prems(3) by (subst lower_loop.simps) auto
  next
    case False
    obtain pre ts' l' ds s' where r: "lower_step (line + 1) ts l = Some (ts', l', ds)" "ts = pre @ ts'" "pre \<noteq> []" "fenced False ts'" "lw_at l' s'"
      using lower_step_done[OF less.prems(1) False less.prems(2,3), of "line + 1"] unfolding step_done_def by blast
    have "levels_ok ts'" using less.prems(2) r(2) by (simp add: levels_append)
    from less.hyps[OF _ r(4) this r(5), of "line + 1" "diags @ ds"] show ?thesis using r(1,2,3) False
      by (subst lower_loop.simps) auto
  qed
qed

lemma lower_returns:
  "\<exists>tree diags. lower (Lex src) = Some (tree, diags) \<and> grown tree \<and> grammatical Map.empty tree"
proof -
  have "lw_at \<lparr>lw_blocks = [], lw_next = 0\<rparr> []" by (simp add: lw_at_def)
  from lower_loop_returns[OF _ _ this, of "Lex src" 0 "[]"]
  obtain l s ds where r: "lower (Lex src) = Some (lw_blocks l, ds)" "lw_at l s"
    using lex_fenced lex_levels by (auto simp: lower_def Lex_def)
  then show ?thesis using lw_grown[OF r(2)] by (auto simp: lw_at_def)
qed

lemma Compile_returns:
  "\<exists>r. Compile ns src = Some r \<and> grown (r_Tree r) \<and> grammatical Map.empty (r_Tree r) \<and>
     r_Ops r = Emit (r_Tree r) \<and> r_Replayed r = r_Tree r \<and> r_Holds r \<and> r_Mismatch r = None"
proof -
  obtain tree diags where t: "lower (Lex src) = Some (tree, diags)" "grown tree" "grammatical Map.empty tree" using lower_returns by blast
  then show ?thesis using Replay_Emit[OF t(2)] Tree_Equal_None[of tree tree] by (simp add: Compile_def Let_def)
qed

text \<open>C0: the paste compiler's round trip holds for every text. \<open>Compile\<close> returns on every input, however
  lists, quotes and fences are nested or broken; the operations it emits can be replayed on an empty page, each in its
  turn, and give back exactly the blocks it built, so that what the screen reports is always HOLDS.\<close>

theorem Compile_holds:
  "\<exists>r. Compile ns src = Some r \<and> r_Holds r \<and> r_Mismatch r = None \<and>
     Replay_ops (r_Ops r) = Some (Inr (r_Tree r)) \<and> length (r_Ops r) = length (r_Tree r)"
proof -
  have e: "length (emit_loop m t) = length t" for m t by (induction t arbitrary: m) simp_all
  obtain r where "Compile ns src = Some r" "grown (r_Tree r)" "r_Ops r = Emit (r_Tree r)" "r_Holds r" "r_Mismatch r = None"
    using Compile_returns by blast
  then show ?thesis using Replay_Emit e by (auto simp: Emit_def)
qed

text \<open>C28: the blocks of a pasted text follow the grammar. For every text the compiled blocks are well typed: a list holds only items, an item only lists,
  a quote only paragraphs and every other block nothing; a parent stands before its children; headings have level 1 to
  3, code has no marks, and quotes, lists and dividers no text of their own.\<close>

theorem Compile_grammatical:
  "\<exists>r. Compile ns src = Some r \<and> grammatical Map.empty (r_Tree r) \<and> grown (r_Tree r)"
  using Compile_returns by blast

lemma lower_stuck:
  assumes "lower_loop line ts l diags = Some r"
  shows "\<not> (ts \<noteq> [] \<and> tk_Kind (hd ts) \<in> {TokCodeText, TokFenceClose})"
proof (rule lower_loop.raw_induct[OF _ assms, where P = "\<lambda>_ ts _ _ _. \<not> (ts \<noteq> [] \<and> tk_Kind (hd ts) \<in> {TokCodeText, TokFenceClose})"], intro notI)
  fix loop :: "nat \<Rightarrow> Token list \<Rightarrow> lowerer \<Rightarrow> Diagnostic list \<Rightarrow> (MdBlock list \<times> Diagnostic list) option" and line ts l diags r
  assume IH: "\<And>line ts l diags r. loop line ts l diags = Some r \<Longrightarrow> \<not> (ts \<noteq> [] \<and> tk_Kind (hd ts) \<in> {TokCodeText, TokFenceClose})"
    and e: "(if ts = [] then Some (lw_blocks l, diags)
      else Option.bind (lower_step (line + 1) ts l) (\<lambda>(ts', l', ds). loop (line + 1) ts' l' (diags @ ds))) = Some r"
    and n: "ts \<noteq> [] \<and> tk_Kind (hd ts) \<in> {TokCodeText, TokFenceClose}"
  then have "\<not> of_kind TokParagraph (hd ts)" by (auto simp: of_kind_def)
  then have "dropWhile (of_kind TokParagraph) ts = ts" using n by (cases ts) auto
  then obtain l' where "lower_step (line + 1) ts l = Some (ts, l', [])" using n by (auto simp: lower_step_def lower_paragraph_def)
  then show False using e n IH[of "line + 1" ts l' diags r] by simp
qed

text \<open>Lowering is not total on tokens. Code text or a closing fence outside a fence is handled by the case for paragraphs,
  which takes no token: the loop does not return, whatever came before and after. (The lexer never emits such tokens.)\<close>

theorem stray_code_hangs:
  "lower (token TokCodeText a b # ts) = None \<and> lower (token TokFenceClose a b # ts) = None"
proof -
  have "lower (t # ts) = None" if "tk_Kind t \<in> {TokCodeText, TokFenceClose}" for t
  proof (cases "lower (t # ts)")
    case (Some r)
    from lower_stuck[OF this[unfolded lower_def]] show ?thesis using that by simp
  qed
  then show ?thesis by simp
qed

definition fence_on_line_3 :: string where
  "fence_on_line_3 = ''a'' @ [newline] @ ''b'' @ [newline] @ ''```''"

text \<open>The line of a diagnostic is the number of rounds, not the line. In a text of three lines whose last one
  opens a fence, the two lines before are one paragraph, and the diagnostic says line 2.\<close>

theorem diagnostic_counts_rounds:
  "length (splitLinesKeepingEnds fence_on_line_3) = 3 \<and>
   map tk_Kind (Lex fence_on_line_3) = [TokParagraph, TokParagraph, TokFenceOpen] \<and>
   map_option r_Diagnostics (Compile ns fence_on_line_3) = Some [UnclosedFence 2]"
proof (intro conjI)
  show "length (splitLinesKeepingEnds fence_on_line_3) = 3" by code_simp
  show "map tk_Kind (Lex fence_on_line_3) = [TokParagraph, TokParagraph, TokFenceOpen]" by code_simp
  have "lower (Lex fence_on_line_3) = Some (fst (the (lower (Lex fence_on_line_3))), [UnclosedFence 2])" by code_simp
  then obtain t where t: "lower (Lex fence_on_line_3) = Some (t, [UnclosedFence 2])" by blast
  then have "grown t" using lower_returns[of fence_on_line_3] by auto
  then show "map_option r_Diagnostics (Compile ns fence_on_line_3) = Some [UnclosedFence 2]"
    using t Replay_Emit[of t] by (simp add: Compile_def Let_def)
qed

end
