(* ===== verification/MdPaste.thy ===== *)
theory MdPaste
  imports MdLaws PageLaws
begin

text \<open>
  A paste, from the text to the page: the operations of the compiler with fresh identities (\<open>insertCompiled\<close> in
  web/src/collab/useCollabPage.ts), their wire form, its decoding by documentcore and the operations
  on a page. The wire form is the JSON object with its fields; the fresh identities are a function from the
  identities of the compiler.
\<close>

subsection \<open>The wire form\<close>

definition kind_json :: "MdKind \<Rightarrow> blockKindJSON" where
  "kind_json k = \<lparr>j_tag = mk_Tag k, j_level = of_nat (mk_Level k), j_language = mk_Language k, j_list_kind = mk_ListKind k,
     j_checked = mk_Checked k, j_file_id = [], j_tone = [], j_icon = [], j_emoji = []\<rparr>"

fun mark_tag_json :: "MdInline.MarkTag \<Rightarrow> string" where
  "mark_tag_json MdInline.Bold = ''bold''"
| "mark_tag_json MdInline.Italic = ''italic''"
| "mark_tag_json MdInline.Strike = ''strike''"
| "mark_tag_json MdInline.Code = ''code''"
| "mark_tag_json MdInline.Link = ''link''"
| "mark_tag_json MdInline.PageLink = ''page_link''"

definition mark_json :: "MdInline.MarkKind \<Rightarrow> markKindJSON" where
  "mark_json k = \<lparr>mj_tag = mark_tag_json (ik_Tag k), mj_url = ik_URL k, mj_page = ik_Page k\<rparr>"

record paste_op =
  po_ID :: uuid
  po_Parent :: "uuid option"
  po_After :: "uuid option"
  po_Kind :: blockKindJSON
  po_Text :: string
  po_Marks :: "(markKindJSON \<times> int \<times> int) list"

text \<open>\<open>previousTop\<close> is the block the next one at the top level follows.\<close>

fun insertCompiled :: "(string \<Rightarrow> uuid) \<Rightarrow> uuid option \<Rightarrow> MdOp list \<Rightarrow> paste_op list" where
  "insertCompiled idOf previousTop [] = []"
| "insertCompiled idOf previousTop (op # ops) =
     (let i = idOf (mo_ID op);
          parent = map_option idOf (mo_Parent op);
          aft = (case mo_After op of Some a \<Rightarrow> Some (idOf a) | None \<Rightarrow> if parent = None then previousTop else None)
      in \<lparr>po_ID = i, po_Parent = parent, po_After = aft, po_Kind = kind_json (mo_Kind op), po_Text = mc_Text (mo_Content op),
           po_Marks = map (\<lambda>m. (mark_json (im_Kind m), int (im_Start m), int (im_End m))) (mc_Marks (mo_Content op))\<rparr>
         # insertCompiled idOf (if parent = None then Some i else previousTop) ops)"

subsection \<open>The page\<close>

datatype paste_error = BadKind kind_error | BadMark mark_kind_error | Refused apply_error

fun decode_marks :: "(string \<Rightarrow> uuid option) \<Rightarrow> (markKindJSON \<times> int \<times> int) list \<Rightarrow> mark_kind_error + Inline.Mark list" where
  "decode_marks uparse [] = Inr []"
| "decode_marks uparse ((k, a, b) # ms) = (case MarkKind_UnmarshalJSON uparse k of Inl e \<Rightarrow> Inl e
     | Inr kind \<Rightarrow> (case decode_marks uparse ms of Inl e \<Rightarrow> Inl e
         | Inr marks \<Rightarrow> Inr (\<lparr>Kind = kind, Start = a, End = b\<rparr> # marks)))"

definition decode_insert :: "(string \<Rightarrow> uuid option) \<Rightarrow> paste_op \<Rightarrow> paste_error + Op" where
  "decode_insert uparse po = (case BlockKind_UnmarshalJSON uparse (po_Kind po) of Inl e \<Rightarrow> Inl (BadKind e)
     | Inr kind \<Rightarrow> (case decode_marks uparse (po_Marks po) of Inl e \<Rightarrow> Inl (BadMark e)
         | Inr marks \<Rightarrow> Inr (InsertBlock (po_ID po) (po_Parent po) (po_After po) kind \<lparr>Text = po_Text po, Marks = marks\<rparr>)))"

text \<open>The operations are sent one by one; one that is refused does not stop the others. The result is the page
  with the errors; the outer \<open>None\<close> is a call that does not return.\<close>

fun receive_paste :: "(string \<Rightarrow> uuid option) \<Rightarrow> Page \<Rightarrow> paste_op list \<Rightarrow> (Page \<times> paste_error list) option" where
  "receive_paste uparse p [] = Some (p, [])"
| "receive_paste uparse p (po # pos) = (case decode_insert uparse po of
       Inl e \<Rightarrow> map_option (\<lambda>(q, es). (q, e # es)) (receive_paste uparse p pos)
     | Inr op \<Rightarrow> (case Apply p op of None \<Rightarrow> None
         | Some (Done q) \<Rightarrow> receive_paste uparse q pos
         | Some (Failed e q) \<Rightarrow> map_option (\<lambda>(r, es). (r, Refused e # es)) (receive_paste uparse q pos)))"

subsection \<open>Decoding what was compiled\<close>

definition doc_kind :: "MdKind \<Rightarrow> BlockKind" where
  "doc_kind k = (case BlockKind_UnmarshalJSON (\<lambda>_. None) (kind_json k) of Inl _ \<Rightarrow> zero_kind | Inr kind \<Rightarrow> kind)"

lemma kind_decodes:
  assumes "block_ok par k c"
  shows "BlockKind_UnmarshalJSON uparse (kind_json k) = Inr (doc_kind k) \<and>
    BlockKind_MarshalJSON ustr (doc_kind k) = kind_json k \<and> BlockTag_String (Tag (doc_kind k)) = mk_Tag k"
proof -
  note defs = block_ok_def doc_kind_def kind_json_def BlockKind_UnmarshalJSON_def BlockKind_MarshalJSON_def Let_def
    New_defs NewHeading_def parseListKind_def
  consider "mk_Tag k = ''paragraph''" | "mk_Tag k = ''quote''" | "mk_Tag k = ''divider''" | "mk_Tag k = ''code_block''"
    | "mk_Tag k = ''list_item''" | "mk_Tag k = ''list''" | "mk_Tag k = ''heading''"
    using assms by (auto simp: block_ok_def split: option.splits if_splits)
  then show ?thesis
  proof cases
    case 6
    then have "mk_ListKind k = ''bulleted'' \<or> mk_ListKind k = ''numbered'' \<or> mk_ListKind k = ''todo''" using assms by (simp add: block_ok_def)
    then show ?thesis using 6 assms by (elim disjE) (simp_all add: defs)
  next
    case 7
    then have "mk_Level k = 1 \<or> mk_Level k = 2 \<or> mk_Level k = 3" using assms by (simp add: block_ok_def)
    then show ?thesis using 7 assms by (elim disjE) (simp_all add: defs)
  qed (use assms in \<open>simp_all add: defs\<close>)
qed

definition doc_mark :: "MdInline.Mark \<Rightarrow> Inline.Mark" where
  "doc_mark m = \<lparr>Kind = (case MarkKind_UnmarshalJSON (\<lambda>_. None) (mark_json (im_Kind m)) of Inl _ \<Rightarrow> zero_mark_kind | Inr kind \<Rightarrow> kind),
     Start = int (im_Start m), End = int (im_End m)\<rparr>"

definition no_page_links :: "MdContent \<Rightarrow> bool" where
  "no_page_links c \<longleftrightarrow> list_all (\<lambda>m. ik_Tag (im_Kind m) \<noteq> MdInline.PageLink) (mc_Marks c)"

definition doc_content :: "MdContent \<Rightarrow> Content" where
  "doc_content c = \<lparr>Text = mc_Text c, Marks = map doc_mark (mc_Marks c)\<rparr>"

lemma mark_decodes:
  "ik_Tag (im_Kind m) \<noteq> MdInline.PageLink \<Longrightarrow>
   MarkKind_UnmarshalJSON uparse (mark_json (im_Kind m)) = Inr (Kind (doc_mark m))"
  by (cases "ik_Tag (im_Kind m)") (simp_all add: doc_mark_def mark_json_def MarkKind_UnmarshalJSON_def Let_def)

lemma doc_mark_eta: "\<lparr>Kind = Kind (doc_mark m), Start = int (im_Start m), End = int (im_End m)\<rparr> = doc_mark m"
  by (simp add: doc_mark_def)

lemma marks_decode:
  "no_page_links c \<Longrightarrow>
   decode_marks uparse (map (\<lambda>m. (mark_json (im_Kind m), int (im_Start m), int (im_End m))) (mc_Marks c)) = Inr (Marks (doc_content c))"
proof -
  have "list_all (\<lambda>m. ik_Tag (im_Kind m) \<noteq> MdInline.PageLink) ms \<Longrightarrow>
    decode_marks uparse (map (\<lambda>m. (mark_json (im_Kind m), int (im_Start m), int (im_End m))) ms) = Inr (map doc_mark ms)" for ms
    by (induction ms) (simp_all add: mark_decodes doc_mark_eta)
  then show "no_page_links c \<Longrightarrow> ?thesis" by (simp add: no_page_links_def doc_content_def)
qed

definition doc_block :: "(string \<Rightarrow> uuid) \<Rightarrow> MdBlock \<Rightarrow> Block" where
  "doc_block idOf b = \<lparr>ID = idOf (mb_ID b), Parent = (if mb_Parent b = [] then None else Some (idOf (mb_Parent b))),
     BKind = doc_kind (mb_Kind b), BContent = doc_content (mb_Content b)\<rparr>"

lemma doc_block_simps [simp]:
  "ID (doc_block idOf b) = idOf (mb_ID b)" "Parent (doc_block idOf b) = (if mb_Parent b = [] then None else Some (idOf (mb_Parent b)))"
  "BKind (doc_block idOf b) = doc_kind (mb_Kind b)" "BContent (doc_block idOf b) = doc_content (mb_Content b)"
  by (simp_all add: doc_block_def)

subsection \<open>Where the blocks land\<close>

text \<open>The place of a paste: after a block at the top level with its subtree.\<close>

definition paste_place :: "Block list \<Rightarrow> Block list \<Rightarrow> bool" where
  "paste_place pre post \<longleftrightarrow> wf_blocks (pre @ post) \<and> (post = [] \<or> Parent (hd post) = None)"

definition fresh_ids :: "(string \<Rightarrow> uuid) \<Rightarrow> MdBlock list \<Rightarrow> Block list \<Rightarrow> bool" where
  "fresh_ids idOf t bs \<longleftrightarrow> inj_on idOf (mb_ID ` set t) \<and> idOf ` mb_ID ` set t \<inter> ID ` set bs = {}"

lemma path_doc:
  "tree_stack s xs = Some r \<Longrightarrow> set s \<subseteq> A \<Longrightarrow> mb_ID ` set xs \<subseteq> A \<Longrightarrow> inj_on idOf A \<Longrightarrow>
   path (map idOf s) (map (doc_block idOf) xs) = Some (map idOf r)"
proof (induction s xs rule: tree_stack.induct)
  case (2 s b bs)
  show ?case
  proof (cases "mb_Parent b = []")
    case True
    then show ?thesis using 2 by (simp add: push_def)
  next
    case False
    then have p: "mb_Parent b \<in> set s" "tree_stack (mb_ID b # dropWhile (\<lambda>x. x \<noteq> mb_Parent b) s) bs = Some r"
      using 2(3) by (auto split: if_splits)
    have eq: "idOf x = idOf (mb_Parent b) \<longleftrightarrow> x = mb_Parent b" if "x \<in> set s" for x
      using that p(1) 2(4,6) by (auto dest: inj_onD)
    have "dropWhile (\<lambda>x. x \<noteq> idOf (mb_Parent b)) (map idOf s) = map idOf (dropWhile (\<lambda>x. x \<noteq> mb_Parent b) s)"
      using eq by (auto simp: dropWhile_map comp_def intro!: arg_cong[where f = "map idOf"] dropWhile_cong)
    moreover have "set (mb_ID b # dropWhile (\<lambda>x. x \<noteq> mb_Parent b) s) \<subseteq> A" using 2(4,5) by (auto dest: set_dropWhileD)
    ultimately show ?thesis using 2(2)[OF False p(1,2)] 2(5,6) False p(1) by (simp add: push_def)
  qed
qed simp

lemma path_snoc_pre:
  assumes "path [] pre = Some s0" "tree_stack [] xs = Some s" "mb_ID ` set xs \<subseteq> A" "inj_on idOf A" "xs \<noteq> []"
  shows "path [] (pre @ map (doc_block idOf) xs) = Some (map idOf s)"
proof -
  obtain b bs where x: "xs = b # bs" using assms(5) by (cases xs) auto
  have "mb_Parent b = []" using assms(2) x by (auto split: if_splits)
  then have "path s0 (map (doc_block idOf) xs) = path [] (map (doc_block idOf) xs)" by (simp add: x push_def)
  also have "\<dots> = Some (map idOf s)" using path_doc[OF assms(2) _ assms(3,4)] by simp
  finally show ?thesis using assms(1) by (simp add: path_append)
qed

lemma sibling_doc:
  assumes "inj_on idOf A" "mb_ID ` set xs \<subseteq> A" "\<forall>x \<in> set xs. mb_Parent x \<noteq> [] \<longrightarrow> mb_Parent x \<in> A" "p \<noteq> [] \<longrightarrow> p \<in> A"
  shows "sibling_before (map (doc_block idOf) xs) (if p = [] then None else Some (idOf p)) = map_option idOf (last_child xs p)"
  using assms(2,3)
proof (induction xs rule: rev_induct)
  case Nil
  then show ?case by (simp add: sibling_before_def)
next
  case (snoc x xs)
  have "(mb_Parent x = p) \<longleftrightarrow> Parent (doc_block idOf x) = (if p = [] then None else Some (idOf p))"
    using snoc.prems(2) assms(1,4) by (auto dest: inj_onD)
  then show ?case using snoc by (auto simp: sibling_before_def last_child_snoc)
qed

lemma sibling_before_append:
  "sibling_before (us @ vs) p = (case sibling_before vs p of None \<Rightarrow> sibling_before us p | Some a \<Rightarrow> Some a)"
proof -
  have "List.find P (xs @ ys) = (case List.find P xs of None \<Rightarrow> List.find P ys | Some a \<Rightarrow> Some a)" for P and xs ys :: "Block list"
    by (induction xs) auto
  then show ?thesis by (auto simp: sibling_before_def split: option.split)
qed

lemma known_block: "known xs i = Some v \<Longrightarrow> v \<in> set xs \<and> mb_ID v = i"
  by (induction xs rule: rev_induct) (auto simp: known_snoc split: if_splits)

lemma grammatical_prefix: "grammatical m (xs @ ys) \<Longrightarrow> grammatical m xs"
  by (induction xs arbitrary: m) (simp_all del: fun_upd_apply)

lemma grammatical_ok: "grammatical m xs \<Longrightarrow> v \<in> set xs \<Longrightarrow> \<exists>par. block_ok par (mb_Kind v) (mb_Content v)"
  by (induction m xs rule: grammatical.induct) (auto simp del: fun_upd_apply)

lemma tree_parents: "tree_stack s xs = Some r \<Longrightarrow> v \<in> set xs \<Longrightarrow> mb_Parent v \<noteq> [] \<Longrightarrow> mb_Parent v \<in> set s \<union> mb_ID ` set xs"
proof (induction s xs rule: tree_stack.induct)
  case (2 s b bs)
  have d: "set (dropWhile (\<lambda>x. x \<noteq> mb_Parent b) s) \<subseteq> set s" by (auto dest: set_dropWhileD)
  show ?case
  proof (cases "v = b")
    case True
    then show ?thesis using 2(3,5) by (auto split: if_splits)
  next
    case False
    then have v: "v \<in> set bs" using 2(4) by simp
    show ?thesis
    proof (cases "mb_Parent b = []")
      case True
      then show ?thesis using 2(1)[OF True _ v 2(5)] 2(3) by auto
    next
      case False
      then have "mb_Parent b \<in> set s" "tree_stack (mb_ID b # dropWhile (\<lambda>x. x \<noteq> mb_Parent b) s) bs = Some r"
        using 2(3) by (auto split: if_splits)
      from 2(2)[OF False this v 2(5)] show ?thesis using d by auto
    qed
  qed
qed simp

text \<open>A paste of the blocks t between the blocks before and after.\<close>

definition pasting :: "(string \<Rightarrow> uuid) \<Rightarrow> MdBlock list \<Rightarrow> Block list \<Rightarrow> Block list \<Rightarrow> bool" where
  "pasting idOf t pre post \<longleftrightarrow> paste_place pre post \<and> fresh_ids idOf t (pre @ post) \<and> grown t \<and> grammatical Map.empty t"

lemma pastingD:
  assumes "pasting idOf t pre post"
  shows "paste_place pre post" "fresh_ids idOf t (pre @ post)" "grown t" "grammatical Map.empty t" "inj_on idOf (mb_ID ` set t)"
  using assms by (simp_all add: pasting_def fresh_ids_def)

lemma stack_of:
  assumes P: "pasting idOf t pre post" and t: "t = xs @ b # ys"
  obtains s where "tree_stack [] xs = Some s" "mb_Parent b = [] \<or> mb_Parent b \<in> set s"
  using pastingD(3)[OF P] t by (auto simp: grown_def tree_stack_append split: option.splits if_splits)

lemma pre_path:
  assumes P: "pasting idOf t pre post"
  obtains s0 where "path [] pre = Some s0" "path s0 post \<noteq> None"
  using pastingD(1)[OF P] by (auto simp: paste_place_def wf_blocks_def depth_first_def path_append split: option.splits)

lemma post_path:
  assumes P: "pasting idOf t pre post" and "path s post \<noteq> None"
  shows "path s' post \<noteq> None"
  using pastingD(1)[OF P] assms(2) by (cases post) (auto simp: paste_place_def push_def)

lemma page_ok:
  assumes P: "pasting idOf t pre post" and t: "t = xs @ ys"
  shows "depth_first (pre @ map (doc_block idOf) xs @ post)" "distinct (map ID (pre @ map (doc_block idOf) xs @ post))"
proof -
  obtain s0 where s0: "path [] pre = Some s0" "path s0 post \<noteq> None" using pre_path[OF P] by blast
  obtain s where s: "tree_stack [] xs = Some s" using pastingD(3)[OF P] t by (auto simp: grown_def tree_stack_append split: option.splits)
  have "path [] (pre @ map (doc_block idOf) xs) \<noteq> None"
    using path_snoc_pre[OF s0(1) s, of "mb_ID ` set t" idOf] pastingD(5)[OF P] t s0(1) by (cases "xs = []") auto
  then show "depth_first (pre @ map (doc_block idOf) xs @ post)"
    using post_path[OF P s0(2)] unfolding depth_first_def append_assoc[symmetric] path_append[of _ "pre @ map (doc_block idOf) xs" post] by (auto split: option.splits)
  have "distinct (map ID (map (doc_block idOf) xs))"
    using pastingD(3,5)[OF P] t by (auto simp: distinct_map grown_def inj_on_def)
  moreover have "ID ` set (map (doc_block idOf) xs) \<subseteq> idOf ` mb_ID ` set t" using t by auto
  then have "ID ` set (map (doc_block idOf) xs) \<inter> ID ` set (pre @ post) = {}" using pastingD(2)[OF P] unfolding fresh_ids_def by blast
  moreover have "distinct (map ID (pre @ post))" using pastingD(1)[OF P] by (simp add: paste_place_def wf_blocks_def)
  ultimately show "distinct (map ID (pre @ map (doc_block idOf) xs @ post))"
    unfolding map_append distinct_append set_append set_map image_Un by blast
qed

lemma slot_of:
  assumes P: "pasting idOf t pre post" and t: "t = xs @ b # ys"
  shows "slot (pre @ map (doc_block idOf) xs) post (Parent (doc_block idOf b))"
proof -
  obtain s0 where s0: "path [] pre = Some s0" using pre_path[OF P] by blast
  obtain s where s: "tree_stack [] xs = Some s" "mb_Parent b = [] \<or> mb_Parent b \<in> set s" using stack_of[OF P t] .
  have r: "rest_ok S post" for S using pastingD(1)[OF P] by (cases post) (auto simp: paste_place_def rest_ok_def)
  show ?thesis
  proof (cases "xs = []")
    case True
    then have "mb_Parent b = []" using s by auto
    then show ?thesis using True s0 r[of "[]"] unfolding slot_def by (auto simp: base_def)
  next
    case False
    have p: "path [] (pre @ map (doc_block idOf) xs) = Some (map idOf s)"
      by (rule path_snoc_pre[OF s0 s(1) _ pastingD(5)[OF P] False]) (use t in auto)
    show ?thesis
    proof (cases "mb_Parent b = []")
      case True
      then show ?thesis using p r[of "[]"] unfolding slot_def by (intro exI[of _ "map idOf s"] exI[of _ "[]"]) (simp add: base_def)
    next
      case False
      let ?S = "dropWhile (\<lambda>x. x \<noteq> mb_Parent b) s"
      have m: "mb_Parent b \<in> set s" using s(2) False by simp
      then have "?S \<noteq> []" "hd ?S = mb_Parent b" using hd_dropWhile[of "\<lambda>x. x \<noteq> mb_Parent b" s] by auto
      then have "base (Parent (doc_block idOf b)) (map idOf ?S)" using False by (simp add: base_def hd_map)
      moreover have "map idOf s = map idOf (takeWhile (\<lambda>x. x \<noteq> mb_Parent b) s) @ map idOf ?S" by (simp flip: map_append)
      ultimately show ?thesis using p r[of "map idOf ?S"] unfolding slot_def by metis
    qed
  qed
qed

lemma sibling_of:
  assumes P: "pasting idOf t pre post" and t: "t = xs @ b # ys"
  shows "sibling_before (pre @ map (doc_block idOf) xs) (Parent (doc_block idOf b)) =
    (case last_child xs (mb_Parent b) of Some a \<Rightarrow> Some (idOf a) | None \<Rightarrow> if mb_Parent b = [] then sibling_before pre None else None)"
proof -
  let ?p = "Parent (doc_block idOf b)"
  obtain s r where s: "tree_stack [] xs = Some s" "tree_stack [] t = Some r"
    using pastingD(3)[OF P] t by (auto simp: grown_def tree_stack_append split: option.splits)
  have par: "v \<in> set t \<Longrightarrow> mb_Parent v \<noteq> [] \<Longrightarrow> mb_Parent v \<in> mb_ID ` set t" for v using tree_parents[OF s(2), of v] by simp
  have "sibling_before (map (doc_block idOf) xs) (if mb_Parent b = [] then None else Some (idOf (mb_Parent b))) = map_option idOf (last_child xs (mb_Parent b))"
    by (rule sibling_doc[OF pastingD(5)[OF P]]) (use t par in auto)
  moreover have "sibling_before pre ?p = None" if k: "mb_Parent b \<noteq> []"
  proof -
    obtain s0 where s0: "path [] pre = Some s0" using pre_path[OF P] by blast
    have "idOf (mb_Parent b) \<in> idOf ` mb_ID ` set t" using par[of b] k t by auto
    then have "idOf (mb_Parent b) \<notin> ID ` set pre" using pastingD(2)[OF P] unfolding fresh_ids_def by auto
    then show ?thesis using path_parents[OF s0] k by (auto simp: sibling_before_None)
  qed
  ultimately show ?thesis by (auto simp: sibling_before_append split: option.split)
qed

lemma tag_image: "BlockTag_String g = BlockTag_String h \<Longrightarrow> g = h"
  by (cases g; cases h) simp_all

lemma parent_of:
  assumes P: "pasting idOf t pre post" and t: "t = xs @ b # ys" and B: "Blocks p = pre @ map (doc_block idOf) xs @ post"
  shows "validateParent (Blocks p) (blockIndex (Blocks p)) (Parent (doc_block idOf b)) (Tag (doc_kind (mb_Kind b))) = None"
proof (cases "mb_Parent b = []")
  case False
  have "grammatical Map.empty (xs @ [b])" using pastingD(4)[OF P] grammatical_prefix[of Map.empty "xs @ [b]" ys] t by simp
  then obtain tg where g: "tags_of xs (mb_Parent b) = Some tg" "block_ok (Some tg) (mb_Kind b) (mb_Content b)" "grammatical Map.empty xs"
    using False by (auto simp: grammatical_snoc)
  then obtain v where "known xs (mb_Parent b) = Some v" "mk_Tag (mb_Kind v) = tg" by (auto simp: tags_of_def)
  then have v: "v \<in> set xs" "mb_ID v = mb_Parent b" "mk_Tag (mb_Kind v) = tg" using known_block by blast+
  obtain par where "block_ok par (mb_Kind v) (mb_Content v)" using grammatical_ok[OF g(3) v(1)] by blast
  then have k: "BlockTag_String (Tag (doc_kind (mb_Kind v))) = tg" "BlockTag_String (Tag (doc_kind (mb_Kind b))) = mk_Tag (mb_Kind b)"
    using kind_decodes g(2) v(3) by metis+
  have "tg = ''list'' \<or> tg = ''quote'' \<or> tg = ''list_item'' \<and> mk_Tag (mb_Kind b) = ''list''"
    using g(2) by (auto simp: block_ok_def split: if_splits)
  then have "container_rule (Tag (doc_kind (mb_Kind v))) (Tag (doc_kind (mb_Kind b))) \<and> list_rule (Tag (doc_kind (mb_Kind v))) (Tag (doc_kind (mb_Kind b)))"
    using k tag_image[of "Tag (doc_kind (mb_Kind v))" ListTag] tag_image[of "Tag (doc_kind (mb_Kind v))" Quote]
      tag_image[of "Tag (doc_kind (mb_Kind v))" ListItem] tag_image[of "Tag (doc_kind (mb_Kind b))" ListTag]
    by (elim disjE conjE) (simp_all add: container_rule_def list_rule_def)
  moreover have "doc_block idOf v \<in> set (Blocks p)" "Parent (doc_block idOf b) = Some (ID (doc_block idOf v))" using v False by (auto simp: B)
  moreover have d: "distinct (map ID (Blocks p))" using page_ok(2)[OF P t] B by simp
  ultimately show ?thesis unfolding validateParent_None[OF d] by (intro allI impI bexI[of _ "doc_block idOf v"]) simp_all
qed (simp add: validateParent_def)

lemma pasted_one:
  assumes P: "pasting idOf t pre post" and t: "t = xs @ b # ys" and B: "Blocks p = pre @ map (doc_block idOf) xs @ post"
  shows "Apply p (InsertBlock (idOf (mb_ID b)) (Parent (doc_block idOf b))
      (sibling_before (pre @ map (doc_block idOf) xs) (Parent (doc_block idOf b))) (doc_kind (mb_Kind b)) (doc_content (mb_Content b))) =
    Some (Done (p\<lparr>Blocks := pre @ map (doc_block idOf) (xs @ [b]) @ post\<rparr>))"
proof -
  have d: "depth_first (Blocks p)" "distinct (map ID (Blocks p))" using page_ok[OF P t] B by simp_all
  have "distinct (map ID (pre @ map (doc_block idOf) (xs @ [b]) @ post))" by (rule page_ok(2)[OF P]) (use t in simp)
  then have n: "idOf (mb_ID b) \<notin> ID ` set (Blocks p)" by (auto simp: B)
  have e: "\<lparr>ID = idOf (mb_ID b), Parent = Parent (doc_block idOf b), BKind = doc_kind (mb_Kind b), BContent = doc_content (mb_Content b)\<rparr> = doc_block idOf b"
    by (simp add: doc_block_def)
  show ?thesis unfolding Apply.simps insert_iff[OF d] e
    using n parent_of[OF P t B] slot_of[OF P t] B
    by (intro conjI exI[of _ "pre @ map (doc_block idOf) xs"] exI[of _ post]) (simp_all del: doc_block_simps)
qed

lemma receive_emitted:
  assumes P: "pasting idOf t pre post" and t: "t = xs @ ys" and B: "Blocks p = pre @ map (doc_block idOf) xs @ post"
    and n: "list_all (\<lambda>b. no_page_links (mb_Content b)) ys"
    and a: "previousTop = (case last_child xs [] of Some a \<Rightarrow> Some (idOf a) | None \<Rightarrow> sibling_before pre None)"
  shows "receive_paste uparse p (insertCompiled idOf previousTop (emit_loop (last_child xs) ys)) =
    Some (p\<lparr>Blocks := pre @ map (doc_block idOf) t @ post\<rparr>, [])"
  using assms(2-)
proof (induction ys arbitrary: xs p previousTop)
  case Nil
  then show ?case by (cases p) simp
next
  case (Cons b ys)
  let ?par = "Parent (doc_block idOf b)" and ?q = "p\<lparr>Blocks := pre @ map (doc_block idOf) (xs @ [b]) @ post\<rparr>"
  let ?top = "if mb_Parent b = [] then Some (idOf (mb_ID b)) else previousTop"
  obtain par where "block_ok par (mb_Kind b) (mb_Content b)" using grammatical_ok[OF pastingD(4)[OF P], of b] Cons.prems(1) by auto
  then have k: "BlockKind_UnmarshalJSON uparse (kind_json (mb_Kind b)) = Inr (doc_kind (mb_Kind b))" using kind_decodes by blast
  have m: "decode_marks uparse (map (\<lambda>m. (mark_json (im_Kind m), int (im_Start m), int (im_End m))) (mc_Marks (mb_Content b))) =
      Inr (Marks (doc_content (mb_Content b)))" using marks_decode Cons.prems(3) by simp
  have c: "\<lparr>Text = mc_Text (mb_Content b), Marks = Marks (doc_content (mb_Content b))\<rparr> = doc_content (mb_Content b)" by (simp add: doc_content_def)
  have rest: "receive_paste uparse ?q (insertCompiled idOf ?top (emit_loop (last_child (xs @ [b])) ys)) =
      Some (?q\<lparr>Blocks := pre @ map (doc_block idOf) t @ post\<rparr>, [])"
    by (rule Cons.IH) (use Cons.prems in \<open>auto simp: last_child_snoc\<close>)
  have aft: "(case last_child xs (mb_Parent b) of Some a \<Rightarrow> Some (idOf a) | None \<Rightarrow> if mb_Parent b = [] then previousTop else None) =
      sibling_before (pre @ map (doc_block idOf) xs) ?par"
    unfolding sibling_of[OF P Cons.prems(1)] Cons.prems(4) by (auto split: option.split)
  have "insertCompiled idOf previousTop (emit_loop (last_child xs) (b # ys)) =
     \<lparr>po_ID = idOf (mb_ID b), po_Parent = ?par, po_After = sibling_before (pre @ map (doc_block idOf) xs) ?par, po_Kind = kind_json (mb_Kind b),
       po_Text = mc_Text (mb_Content b),
       po_Marks = map (\<lambda>m. (mark_json (im_Kind m), int (im_Start m), int (im_End m))) (mc_Marks (mb_Content b))\<rparr>
       # insertCompiled idOf ?top (emit_loop (last_child (xs @ [b])) ys)"
    unfolding aft[symmetric] by (auto simp: Let_def last_child_snoc split: option.split simp del: fun_upd_apply)
  then show ?case using rest pasted_one[OF P Cons.prems(1,2)] by (simp add: decode_insert_def k m c del: doc_block_simps Apply.simps)
qed

definition same_mark :: "MdInline.Mark \<Rightarrow> Inline.Mark \<Rightarrow> bool" where
  "same_mark m M \<longleftrightarrow> MarkTag_String (mTag (Kind M)) = mark_tag_json (ik_Tag (im_Kind m)) \<and>
     (ik_Tag (im_Kind m) = MdInline.Link \<longrightarrow> mURL (Kind M) = ik_URL (im_Kind m)) \<and> Start M = int (im_Start m) \<and> End M = int (im_End m)"

definition same_block :: "(string \<Rightarrow> uuid) \<Rightarrow> (uuid \<Rightarrow> string) \<Rightarrow> MdBlock \<Rightarrow> Block \<Rightarrow> bool" where
  "same_block idOf ustr b B \<longleftrightarrow> ID B = idOf (mb_ID b) \<and>
     Parent B = (if mb_Parent b = [] then None else Some (idOf (mb_Parent b))) \<and>
     BlockKind_MarshalJSON ustr (BKind B) = kind_json (mb_Kind b) \<and> Text (BContent B) = mc_Text (mb_Content b) \<and>
     list_all2 same_mark (mc_Marks (mb_Content b)) (Marks (BContent B))"

lemma doc_mark_same: "ik_Tag (im_Kind m) \<noteq> MdInline.PageLink \<Longrightarrow> same_mark m (doc_mark m)"
  by (cases "ik_Tag (im_Kind m)")
    (simp_all add: same_mark_def doc_mark_def mark_json_def MarkKind_UnmarshalJSON_def Let_def NewMark_defs)

lemma doc_block_same:
  assumes "block_ok par (mb_Kind b) (mb_Content b)" "no_page_links (mb_Content b)"
  shows "same_block idOf ustr b (doc_block idOf b)"
proof -
  have "list_all2 same_mark ms (map doc_mark ms)" if "list_all (\<lambda>m. ik_Tag (im_Kind m) \<noteq> MdInline.PageLink) ms" for ms
    using that by (induction ms) (simp_all add: doc_mark_same)
  then show ?thesis using assms(2) kind_decodes[OF assms(1)] by (simp add: same_block_def no_page_links_def doc_content_def)
qed

text \<open>C26: pasting a text puts its blocks into the page. When the caret is in a block at the top level
  (the last one before the place of the paste), the compiled text has no page links and the new identities are fresh,
  every operation is accepted and the page has the compiled blocks at that place, in order and with their parents,
  kinds, texts and marks; nothing else changes.\<close>

theorem paste_lands:
  assumes "Compile ns src = Some r" and "list_all (\<lambda>b. no_page_links (mb_Content b)) (r_Tree r)"
    and "Blocks p = pre @ post" and "paste_place pre post" and "fresh_ids idOf (r_Tree r) (pre @ post)"
  shows "\<exists>pasted. receive_paste uparse p (insertCompiled idOf (sibling_before pre None) (r_Ops r)) = Some (p\<lparr>Blocks := pre @ pasted @ post\<rparr>, []) \<and>
    list_all2 (same_block idOf ustr) (r_Tree r) pasted"
proof -
  have r: "grown (r_Tree r)" "grammatical Map.empty (r_Tree r)" "r_Ops r = Emit (r_Tree r)"
    using Compile_returns[of ns src] assms(1) by auto
  then have P: "pasting idOf (r_Tree r) pre post" using assms(4,5) by (simp add: pasting_def)
  have "receive_paste uparse p (insertCompiled idOf (sibling_before pre None) (emit_loop (last_child []) (r_Tree r))) =
      Some (p\<lparr>Blocks := pre @ map (doc_block idOf) (r_Tree r) @ post\<rparr>, [])"
    by (rule receive_emitted[OF P]) (use assms(2,3) in simp_all)
  moreover have "list_all2 (same_block idOf ustr) (r_Tree r) (map (doc_block idOf) (r_Tree r))"
    unfolding list_all2_conv_all_nth
    using doc_block_same grammatical_ok[OF r(2)] assms(2) by (metis length_map list_all_length nth_map nth_mem)
  ultimately show ?thesis using r(3) by (auto simp: Emit_def)
qed

lemma Compile_tree: "Compile ns src = Some r \<Longrightarrow> r_Tree r = fst (the (lower (Lex src))) \<and> r_Ops r = Emit (fst (the (lower (Lex src))))"
  by (auto simp: Compile_def Let_def split: option.splits)

subsection \<open>Pastes on concrete pages\<close>

definition two_headings :: string where
  "two_headings = ''# *A*'' @ [newline] @ ''# B''"

definition heading_ids :: "string \<Rightarrow> uuid" where
  "heading_ids i = (if i = ''b0'' then 10 else if i = ''b1'' then 11 else 12)"

definition caret_page :: Page where
  "caret_page = \<lparr>PID = 7, Title = [], Blocks =
     [\<lparr>ID = 1, Parent = None, BKind = NewList Bulleted, BContent = PlainContent []\<rparr>,
      \<lparr>ID = 2, Parent = Some 1, BKind = NewListItem False, BContent = PlainContent []\<rparr>]\<rparr>"

lemma headings_tree:
  "map mb_ID (fst (the (lower (Lex two_headings)))) = [''b0'', ''b1'']"
  "list_all (\<lambda>b. no_page_links (mb_Content b)) (fst (the (lower (Lex two_headings))))"
  by code_simp+

theorem paste_lands_witness:
  "\<exists>r pasted. Compile [] two_headings = Some r \<and>
     receive_paste bin_uparse (caret_page) (insertCompiled heading_ids (Some 1) (r_Ops r)) =
       Some (caret_page\<lparr>Blocks := Blocks (caret_page) @ pasted\<rparr>, []) \<and>
     list_all2 (same_block heading_ids bin_ustr) (r_Tree r) pasted"
proof -
  obtain r where r: "Compile [] two_headings = Some r" using Compile_returns by blast
  note t = Compile_tree[OF r]
  have i: "mb_ID ` set (r_Tree r) = {''b0'', ''b1''}" using t headings_tree(1) by (metis empty_set list.set_map list.simps(15))
  have "list_all (\<lambda>b. no_page_links (mb_Content b)) (r_Tree r)" using t headings_tree(2) by simp
  moreover have "paste_place (Blocks (caret_page)) []"
    by (simp add: paste_place_def wf_blocks_def caret_page_def depth_first_def push_def children_ok_def container_rule_def NewList_def zero_kind_def)
  moreover have "fresh_ids heading_ids (r_Tree r) (Blocks (caret_page) @ [])"
    unfolding fresh_ids_def i by (simp add: heading_ids_def caret_page_def)
  moreover have "sibling_before (Blocks (caret_page)) None = Some 1" by (simp add: caret_page_def sibling_before_def)
  ultimately show ?thesis using paste_lands[OF r, of "caret_page" "Blocks (caret_page)" "[]" heading_ids bin_uparse bin_ustr] r by auto
qed

text \<open>A page link in a pasted text loses the text. The compiler writes the tag of a page link as page_link, which documentcore does not
  know: the block is refused, and with it every block that follows it at the top level, since each names
  the one before.\<close>

theorem page_link_loses_paste:
  "\<exists>r. Compile ns (''[[Home]]'' @ [newline, newline] @ ''more'') = Some r \<and> map (mk_Tag \<circ> mb_Kind) (r_Tree r) = [''paragraph'', ''paragraph''] \<and>
     receive_paste uparse (NewPage pid title) (insertCompiled idOf None (r_Ops r)) =
       Some (NewPage pid title, [BadMark (UnknownMarkTag ''page_link''), Refused (BlockNotFoundError (idOf ''b0''))])"
proof -
  let ?src = "''[[Home]]'' @ [newline, newline] @ ''more''"
  obtain r where r: "Compile ns ?src = Some r" using Compile_returns by blast
  have "map (mk_Tag \<circ> mb_Kind) (fst (the (lower (Lex ?src)))) = [''paragraph'', ''paragraph'']" by code_simp
  moreover have "receive_paste uparse (NewPage pid title) (insertCompiled idOf None (Emit (fst (the (lower (Lex ?src)))))) =
       Some (NewPage pid title, [BadMark (UnknownMarkTag ''page_link''), Refused (BlockNotFoundError (idOf ''b0''))])" by code_simp
  ultimately show ?thesis using r Compile_tree[OF r] by auto
qed

text \<open>With the caret inside a list the whole paste is lost. The first block is sent as a block at the top level after the one
  of the caret, which is not at the top level, and is refused; the others name blocks that were not inserted.\<close>

theorem nested_caret_loses_paste:
  "\<exists>r. Compile ns two_headings = Some r \<and>
     receive_paste uparse (caret_page) (insertCompiled heading_ids (Some 2) (r_Ops r)) =
       Some (caret_page, [Refused (ParentMismatchError 2 None (Some 1)), Refused (BlockNotFoundError 10)])"
proof -
  obtain r where r: "Compile ns two_headings = Some r" using Compile_returns by blast
  have "receive_paste uparse (caret_page) (insertCompiled heading_ids (Some 2) (Emit (fst (the (lower (Lex two_headings)))))) =
       Some (caret_page, [Refused (ParentMismatchError 2 None (Some 1)), Refused (BlockNotFoundError 10)])" by code_simp
  then show ?thesis using r Compile_tree[OF r] by auto
qed

end
