(* ===== verification/ReadingPath.thy ===== *)
theory ReadingPath
  imports Toposort Paths
begin

text \<open>
  Module graphalgo, readingpath.go: what to read before a page, and in what order. The pages that reach the target are ordered by
  the sort and the levels of toposort.go on the graph between them.
\<close>

record PathStep =
  psID :: NodeID
  Depth :: nat
  Destination :: bool

definition reversed :: "Graph \<Rightarrow> Graph" where
  "reversed g = \<lparr>Nodes = Nodes g, Edges = map (\<lambda>e. \<lparr>eFrom = eTo e, eTo = eFrom e\<rparr>) (Edges g)\<rparr>"

definition prereq_graph :: "Graph \<Rightarrow> NodeID \<Rightarrow> Graph" where
  "prereq_graph g target =
     (let prereq = ForwardReachable (reversed g) target;
          ns = sort (remdups (filter (\<lambda>n. prereq n \<noteq> None \<and> n \<noteq> target) (range_keys (reversed g) target)))
      in \<lparr>Nodes = ns, Edges = filter (\<lambda>e. eFrom e \<in> set ns \<and> eTo e \<in> set ns) (Edges g)\<rparr>)"

definition ReadingPath :: "Graph \<Rightarrow> NodeID \<Rightarrow> PathStep list" where
  "ReadingPath g target =
     (let sub = prereq_graph g target;
          order = fst (TopologicalSort sub);
          layers = Layers sub order;
          out = concat (map (\<lambda>(depth, level). map (\<lambda>n. \<lparr>psID = n, Depth = depth, Destination = False\<rparr>) level) (enumerate 0 layers));
          deepest = length layers
      in out @ map (\<lambda>n. \<lparr>psID = n, Depth = deepest, Destination = False\<rparr>) (Unplaced sub order) @
         [\<lparr>psID = target, Depth = deepest + 1, Destination = True\<rparr>])"

subsection \<open>The graph of prerequisites\<close>

lemma links_reversed: "links (reversed g) False = (links g False)\<inverse>"
  by (auto simp: reversed_def links_directed)

lemma prereq_nodes: "set (Nodes (prereq_graph g t)) = {n. (n, t) \<in> (links g False)\<^sup>*} - {t}"
proof -
  let ?r = "reversed g"
  have r: "ForwardReachable ?r t n \<noteq> None \<longleftrightarrow> (n, t) \<in> (links g False)\<^sup>*" for n
    using distance_known[of ?r t n] by (auto simp: links_reversed rtrancl_converse)
  have "n \<in> set (range_keys ?r t)" if "(n, t) \<in> (links g False)\<^sup>*" for n
    using that by (cases rule: converse_rtranclE) (auto simp: range_keys_def reversed_def links_directed intro!: image_eqI)
  then show ?thesis using r by (auto simp: prereq_graph_def Let_def)
qed

lemma prereq_links:
  "links (prereq_graph g t) False = {(p, n) \<in> links g False. p \<in> set (Nodes (prereq_graph g t)) \<and> n \<in> set (Nodes (prereq_graph g t))}"
  by (auto simp: links_directed prereq_graph_def Let_def) blast

lemma prereq_well_formed: "well_formed (prereq_graph g t)"
  by (auto simp: well_formed_def prereq_graph_def Let_def endpoints_def)

subsection \<open>Reading by levels\<close>

lemma by_levels:
  fixes level :: "'a \<Rightarrow> nat"
  defines "L m xs \<equiv> concat (map (\<lambda>k. filter (\<lambda>n. level n = k) xs) [0..<m])"
  shows "set (L m xs) = {n \<in> set xs. level n < m}" and "sorted (map level (L m xs))" and "distinct xs \<Longrightarrow> distinct (L m xs)"
proof -
  show s: "set (L m xs) = {n \<in> set xs. level n < m}" for m by (auto simp: L_def)
  show "sorted (map level (L m xs))"
  proof (induction m)
    case (Suc m)
    have "sorted (map level (filter (\<lambda>n. level n = m) xs))" by (induction xs) auto
    then show ?case using Suc s[of m] by (auto simp: L_def sorted_append)
  qed (simp add: L_def)
  show "distinct (L m xs)" if "distinct xs"
  proof (induction m)
    case (Suc m)
    then show ?case using that s[of m] by (auto simp: L_def)
  qed (simp add: L_def)
qed

lemma sorted_forward:
  assumes "sorted (map level L)" and "\<And>p n. n \<in> set L \<Longrightarrow> (p, n) \<in> R \<Longrightarrow> p \<in> set L \<and> level p < (level n :: nat)"
  shows "forward R L"
  unfolding forward_def
proof (intro allI impI)
  fix i p assume i: "i < length L" and p: "(p, L ! i) \<in> R"
  obtain j where j: "j < length L" "L ! j = p" using assms(2)[OF nth_mem[OF i] p] by (auto simp: in_set_conv_nth)
  have "j < i"
  proof (rule ccontr)
    assume "\<not> j < i"
    then have "level (L ! i) \<le> level (L ! j)" using sorted_nth_mono[OF assms(1), of i j] i j by simp
    then show False using assms(2)[OF nth_mem[OF i] p] j by simp
  qed
  then show "p \<in> set (take i L)" using j i by (auto simp: in_set_conv_nth)
qed

lemma layers_forward:
  assumes "well_formed g" and "TopologicalSort g = (order, ok)"
  shows "set (concat (Layers g order)) = set order" and "distinct (concat (Layers g order))"
    and "forward (links g False) (concat (Layers g order))"
proof -
  obtain level m where l: "Layers g order = map (\<lambda>k. filter (\<lambda>n. level n = k) order) [0..<m]"
    "\<forall>n \<in> set order. longest_chain (links g False) n (level n) \<and> level n < m"
    using Layers_levels[OF assms] by blast
  note o = order_facts(1,3)[OF assms]
  show s: "set (concat (Layers g order)) = set order" using l(2) unfolding l(1) by_levels(1) by auto
  show "distinct (concat (Layers g order))" unfolding l(1) by (rule by_levels(3)) (rule o)
  show "forward (links g False) (concat (Layers g order))"
  proof (rule sorted_forward)
    show "sorted (map level (concat (Layers g order)))" unfolding l(1) by (rule by_levels(2))
    fix p n assume n: "n \<in> set (concat (Layers g order))" and p: "(p, n) \<in> links g False"
    have no: "n \<in> set order" using n unfolding s .
    then have po: "p \<in> set order" using forward_closed[OF o(2) p] by simp
    obtain q where "(q, p) \<in> links g False ^^ level p" using l(2) po by (auto simp: longest_chain_def)
    then have "(q, n) \<in> links g False ^^ Suc (level p)" using p by auto
    then have "Suc (level p) \<le> level n" using l(2) no unfolding longest_chain_def by blast
    then show "p \<in> set (concat (Layers g order)) \<and> level p < level n" unfolding s using po by simp
  qed
qed

lemma step_ids: "map psID (ReadingPath g t) =
    (let sub = prereq_graph g t; order = fst (TopologicalSort sub) in concat (Layers sub order) @ Unplaced sub order @ [t])"
proof -
  have "map psID (concat (map (\<lambda>(depth, level). map (\<lambda>n. \<lparr>psID = n, Depth = depth, Destination = False\<rparr>) level) (enumerate k ls))) = concat ls"
    for k and ls :: "NodeID list list" by (induction ls arbitrary: k) (auto simp: comp_def)
  then show ?thesis by (simp add: ReadingPath_def Let_def comp_def)
qed

text \<open>What to read before a page. The path ends with the page, holds exactly the pages from which links lead to it, each
  once, and every page stands after all the pages that link to it, unless it lies on a cycle of links or downstream of one.\<close>

theorem ReadingPath_reads_up:
  fixes g t
  defines "ids \<equiv> map psID (ReadingPath g t)" and "R \<equiv> links g False"
  shows "distinct ids \<and> last ids = t \<and> set ids = {n. (n, t) \<in> R\<^sup>*} \<and>
    (\<forall>i < length ids. {p. (p, ids ! i) \<in> R} \<subseteq> set (take i ids) \<or> (\<exists>c. (c, c) \<in> R\<^sup>+ \<and> (c, ids ! i) \<in> R\<^sup>*))"
proof -
  define sub where "sub = prereq_graph g t"
  obtain order ok where top: "TopologicalSort sub = (order, ok)" by fastforce
  let ?L = "concat (Layers sub order)" and ?U = "Unplaced sub order" and ?S = "set (Nodes sub)"
  have wf: "well_formed sub" by (simp add: sub_def prereq_well_formed)
  note L = layers_forward[OF wf top] and facts = order_facts[OF wf top]
  have ids: "ids = ?L @ ?U @ [t]" by (simp add: ids_def step_ids Let_def top flip: sub_def)
  have S: "?S = {n. (n, t) \<in> R\<^sup>*} - {t}" by (simp add: sub_def prereq_nodes R_def)
  have sub: "links sub False = {(p, n) \<in> R. p \<in> ?S \<and> n \<in> ?S}" by (simp add: sub_def prereq_links R_def)
  have U: "set ?U = ?S - set order" "distinct ?U" using wf by (auto simp: Unplaced_def well_formed_def)
  have pred: "p \<in> ?S \<or> (\<exists>c. (c, c) \<in> R\<^sup>+ \<and> (c, n) \<in> R\<^sup>*)" if "n \<in> ?S \<union> {t}" "(p, n) \<in> R" for p n
  proof (cases "p = t")
    case True
    have "(n, t) \<in> R\<^sup>*" using that S by auto
    then show ?thesis using that(2) True by (blast intro: rtrancl_into_trancl2)
  next
    case False
    have "(p, t) \<in> R\<^sup>*" using that S by (auto intro: converse_rtrancl_into_rtrancl)
    then show ?thesis using False S by simp
  qed
  have loops: "(\<exists>c. (c, c) \<in> R\<^sup>+ \<and> (c, n) \<in> R\<^sup>*)" if "n \<in> tangled sub" for n
  proof -
    have m: "links sub False \<subseteq> R" using sub by auto
    from that obtain c where "(c, c) \<in> (links sub False)\<^sup>+" "(c, n) \<in> (links sub False)\<^sup>*" by (auto simp: tangled_def)
    then show ?thesis using trancl_mono[OF _ m] rtrancl_mono[OF m] by blast
  qed
  have "{p. (p, ids ! i) \<in> R} \<subseteq> set (take i ids) \<or> (\<exists>c. (c, c) \<in> R\<^sup>+ \<and> (c, ids ! i) \<in> R\<^sup>*)" if i: "i < length ids" for i
  proof -
    consider "i < length ?L" | "ids ! i \<in> set ?U" | "ids ! i = t" "take i ids = ?L @ ?U"
    proof -
      have "i < length ?L \<or> (\<exists>j < length ?U. i = length ?L + j) \<or> i = length ?L + length ?U"
        using i unfolding ids by (auto intro: exI[of _ "i - length ?L"])
      then show ?thesis using that unfolding ids by (auto simp: nth_append)
    qed
    then show ?thesis
    proof cases
      case 1
      then have n: "ids ! i = ?L ! i" "take i ids = take i ?L" by (simp_all add: ids nth_append)
      then have S': "ids ! i \<in> ?S" using nth_mem[OF 1] L(1) facts(2) by auto
      have "p \<in> set (take i ids)" if "(p, ids ! i) \<in> R" "p \<in> ?S" for p
        using L(3) 1 that S' n unfolding forward_def sub by auto
      moreover have "ids ! i \<in> ?S \<union> {t}" using S' by simp
      ultimately show ?thesis using pred by blast
    next
      case 2
      then show ?thesis using loops placed_or_tangled[OF wf top] U(1) by blast
    next
      case 3
      then show ?thesis using pred[of t] L(1) U(1) facts(2) by auto
    qed
  qed
  moreover have "distinct ids" using L(1,2) U facts(2) S by (auto simp: ids)
  moreover have "set ids = {n. (n, t) \<in> R\<^sup>*}" using L(1) U(1) facts(2) S by (auto simp: ids)
  ultimately show ?thesis by (simp add: ids)
qed

theorem ReadingPath_reads_up_witness:
  "map psID (ReadingPath looped ''d'') = [''a'', ''b'', ''c'', ''d''] \<and> (''b'', ''d'') \<in> (links looped False)\<^sup>*"
proof -
  have ids: "map psID (ReadingPath looped ''d'') = [''a'', ''b'', ''c'', ''d'']" by code_simp
  have "set (map psID (ReadingPath looped ''d'')) = {n. (n, ''d'') \<in> (links looped False)\<^sup>*}"
    using ReadingPath_reads_up[of looped "''d''"] by (elim conjE)
  then have "''b'' \<in> {n. (n, ''d'') \<in> (links looped False)\<^sup>*}" unfolding ids by (rule subst) simp
  then show ?thesis using ids by simp
qed

text \<open>The depth of the page itself skips one level, and with no prerequisites it is two.\<close>

theorem destination_depth_skips:
  "map Depth (ReadingPath \<lparr>Nodes = [''p''], Edges = []\<rparr> ''p'') = [2] \<and> map Depth (ReadingPath diamond ''d'') = [0, 1, 1, 3]"
  by code_simp

end
