(* ===== verification/Cycles.thy ===== *)
theory Cycles
  imports Toposort
begin

text \<open>
  Module graphalgo, cycles.go: the first cycle of links, by a depth-first search in three colors. A call of
  \<open>visit\<close> inside the loop is written out; it may be deep, so the search is a partial function.
\<close>

datatype color = White | Gray | Black

definition closedCycleFrom :: "NodeID list \<Rightarrow> NodeID \<Rightarrow> NodeID list" where
  "closedCycleFrom stack target = (case find_index (\<lambda>n. n = target) stack of None \<Rightarrow> [] | Some i \<Rightarrow> drop i stack @ [target])"

text \<open>The loop over the links of the page on top of the stack: the cycle, or the colors afterwards.\<close>

partial_function (option) visit_links :: "Graph \<Rightarrow> NodeID list \<Rightarrow> (NodeID \<Rightarrow> color) \<Rightarrow> NodeID list \<Rightarrow> (NodeID list + (NodeID \<Rightarrow> color)) option" where
  "visit_links g nexts colorOf stack = (case nexts of [] \<Rightarrow> Some (Inr colorOf)
     | next # rest \<Rightarrow>
       if colorOf next = White then
         Option.bind (visit_links g (neighbours g False next) (colorOf(next := Gray)) (stack @ [next]))
           (\<lambda>r. case r of Inl cycle \<Rightarrow> Some (Inl cycle) | Inr colorOf' \<Rightarrow> visit_links g rest (colorOf'(next := Black)) stack)
       else if colorOf next = Gray then Some (Inl (closedCycleFrom stack next))
       else visit_links g rest colorOf stack)"

declare visit_links.simps [code]

definition visit :: "Graph \<Rightarrow> NodeID \<Rightarrow> (NodeID \<Rightarrow> color) \<Rightarrow> (NodeID list + (NodeID \<Rightarrow> color)) option" where
  "visit g n colorOf = Option.bind (visit_links g (neighbours g False n) (colorOf(n := Gray)) [n])
     (\<lambda>r. Some (case r of Inl cycle \<Rightarrow> Inl cycle | Inr colorOf' \<Rightarrow> Inr (colorOf'(n := Black))))"

fun visit_nodes :: "Graph \<Rightarrow> NodeID list \<Rightarrow> (NodeID \<Rightarrow> color) \<Rightarrow> NodeID list option option" where
  "visit_nodes g [] colorOf = Some None"
| "visit_nodes g (n # ns) colorOf =
     (if colorOf n \<noteq> White then visit_nodes g ns colorOf
      else case visit g n colorOf of None \<Rightarrow> None
        | Some (Inl cycle) \<Rightarrow> Some (Some cycle)
        | Some (Inr colorOf') \<Rightarrow> visit_nodes g ns colorOf')"

text \<open>The outer \<open>None\<close> is a search that does not return, the inner one the result \<open>nil\<close>.\<close>

definition DetectCycle :: "Graph \<Rightarrow> NodeID list option option" where
  "DetectCycle g = visit_nodes g (Nodes g) (\<lambda>_. White)"

lemma visit_links_simps:
  "visit_links g [] c stack = Some (Inr c)"
  "c m = White \<Longrightarrow> visit_links g (m # rest) c stack = Option.bind (visit_links g (neighbours g False m) (c(m := Gray)) (stack @ [m]))
     (\<lambda>r. case r of Inl cycle \<Rightarrow> Some (Inl cycle) | Inr c' \<Rightarrow> visit_links g rest (c'(m := Black)) stack)"
  "c m = Gray \<Longrightarrow> visit_links g (m # rest) c stack = Some (Inl (closedCycleFrom stack m))"
  "c m = Black \<Longrightarrow> visit_links g (m # rest) c stack = visit_links g rest c stack"
  by (subst visit_links.simps, simp)+

subsection \<open>The search returns\<close>

definition whites :: "Graph \<Rightarrow> (NodeID \<Rightarrow> color) \<Rightarrow> nat" where
  "whites g c = card {n \<in> endpoints g. c n = White}"

definition no_new_white :: "(NodeID \<Rightarrow> color) \<Rightarrow> (NodeID \<Rightarrow> color) \<Rightarrow> bool" where
  "no_new_white c c' \<longleftrightarrow> (\<forall>n. c' n = White \<longrightarrow> c n = White)"

lemma whites_mono: "no_new_white c c' \<Longrightarrow> whites g c' \<le> whites g c"
  unfolding whites_def no_new_white_def by (rule card_mono) auto

lemma whites_gray: "n \<in> endpoints g \<Longrightarrow> c n = White \<Longrightarrow> whites g (c(n := Gray)) < whites g c"
proof -
  assume n: "n \<in> endpoints g" "c n = White"
  have "{m \<in> endpoints g. (c(n := Gray)) m = White} \<subset> {m \<in> endpoints g. c m = White}" using n by auto
  then show ?thesis unfolding whites_def by (intro psubset_card_mono) simp_all
qed

lemma visit_links_returns:
  "set nexts \<subseteq> endpoints g \<Longrightarrow> \<exists>r. visit_links g nexts c stack = Some r \<and> (\<forall>c'. r = Inr c' \<longrightarrow> no_new_white c c')"
proof (induction "(whites g c, length nexts)" arbitrary: nexts c stack rule: wf_induct_rule[OF wf_lex_prod[OF wf_less wf_less]])
  case 1
  note IH = "1.hyps"[unfolded in_lex_prod, simplified]
  show ?case
  proof (cases nexts)
    case Nil
    then show ?thesis by (simp add: no_new_white_def visit_links_simps)
  next
    case (Cons m rest)
    have m: "m \<in> endpoints g" "set rest \<subseteq> endpoints g" using "1.prems" Cons by auto
    consider "c m = White" | "c m = Gray" | "c m = Black" by (cases "c m")
    then show ?thesis
    proof cases
      case w: 1
      note less = whites_gray[of m g c, OF m(1) w]
      from IH[OF disjI1[OF less] neighbours_endpoints, of False m "stack @ [m]"]
      obtain r where r: "visit_links g (neighbours g False m) (c(m := Gray)) (stack @ [m]) = Some r"
        "\<forall>c'. r = Inr c' \<longrightarrow> no_new_white (c(m := Gray)) c'" by blast
      show ?thesis
      proof (cases r)
        case (Inl cyc)
        then show ?thesis using r(1) w Cons by (simp add: visit_links_simps)
      next
        case (Inr c1)
        then have n1: "no_new_white c (c1(m := Black))" using r(2) by (auto simp: no_new_white_def split: if_splits)
        have "whites g (c1(m := Black)) < whites g c"
        proof -
          have "no_new_white (c(m := Gray)) (c1(m := Black))" using r(2) Inr by (auto simp: no_new_white_def)
          from whites_mono[OF this, of g] less show ?thesis by simp
        qed
        from IH[OF disjI1[OF this] m(2), of stack] obtain r2 where "visit_links g rest (c1(m := Black)) stack = Some r2"
          "\<forall>c'. r2 = Inr c' \<longrightarrow> no_new_white (c1(m := Black)) c'" by blast
        then show ?thesis using r(1) Inr w Cons n1 by (auto simp: no_new_white_def visit_links_simps)
      qed
    next
      case 2
      then show ?thesis using Cons by (simp add: visit_links_simps)
    next
      case 3
      from IH[of c rest stack] m(2) Cons obtain r2 where "visit_links g rest c stack = Some r2"
          "\<forall>c'. r2 = Inr c' \<longrightarrow> no_new_white c c'" by auto
      then show ?thesis using 3 Cons by (simp add: visit_links_simps)
    qed
  qed
qed

subsection \<open>What it finds\<close>

definition link_chain :: "(NodeID \<times> NodeID) set \<Rightarrow> NodeID list \<Rightarrow> bool" where
  "link_chain R xs \<longleftrightarrow> (\<forall>i. Suc i < length xs \<longrightarrow> (xs ! i, xs ! Suc i) \<in> R)"

definition closed_walk :: "(NodeID \<times> NodeID) set \<Rightarrow> NodeID list \<Rightarrow> bool" where
  "closed_walk R c \<longleftrightarrow> 2 \<le> length c \<and> hd c = last c \<and> link_chain R c"

definition dfs_inv :: "Graph \<Rightarrow> (NodeID \<Rightarrow> color) \<Rightarrow> NodeID list \<Rightarrow> bool" where
  "dfs_inv g c stack \<longleftrightarrow> link_chain (links g False) stack \<and> distinct stack \<and> (\<forall>n. c n = Gray \<longleftrightarrow> n \<in> set stack) \<and>
     (\<forall>n m. c n = Black \<longrightarrow> (n, m) \<in> links g False \<longrightarrow> c m = Black) \<and> (\<forall>n. c n = Black \<longrightarrow> (n, n) \<notin> (links g False)\<^sup>+)"

lemma link_chain_snoc: "link_chain R xs \<Longrightarrow> xs = [] \<or> (last xs, n) \<in> R \<Longrightarrow> link_chain R (xs @ [n])"
proof (unfold link_chain_def, intro allI impI)
  fix i assume l: "\<forall>i. Suc i < length xs \<longrightarrow> (xs ! i, xs ! Suc i) \<in> R" and e: "xs = [] \<or> (last xs, n) \<in> R"
    and i: "Suc i < length (xs @ [n])"
  show "((xs @ [n]) ! i, (xs @ [n]) ! Suc i) \<in> R"
  proof (cases "Suc i < length xs")
    case True
    then show ?thesis using l by (simp add: nth_append)
  next
    case False
    then have "Suc i = length xs" using i by simp
    then obtain ys y where xs: "xs = ys @ [y]" "i = length ys" by (cases xs rule: rev_cases) auto
    then show ?thesis using e by (simp add: nth_append)
  qed
qed

lemma link_chain_drop: "link_chain R xs \<Longrightarrow> link_chain R (drop i xs)"
  by (auto simp: link_chain_def)

lemma link_chain_trancl: "link_chain R (x # xs) \<Longrightarrow> xs \<noteq> [] \<Longrightarrow> (x, last xs) \<in> R\<^sup>+"
proof (induction xs arbitrary: x)
  case (Cons y ys)
  have "(x, y) \<in> R" using Cons.prems(1) by (auto simp: link_chain_def dest: spec[of _ 0])
  moreover have "link_chain R (y # ys)" using link_chain_drop[OF Cons.prems(1), of 1] by simp
  ultimately show ?case using Cons.IH[of y] by (cases "ys = []") (auto intro: trancl_into_trancl2)
qed simp

lemma closed_walk_cyclic: "closed_walk R c \<Longrightarrow> \<not> acyclic R"
proof -
  assume c: "closed_walk R c"
  then obtain x xs where x: "c = x # xs" "xs \<noteq> []" by (cases c; cases "tl c") (auto simp: closed_walk_def)
  then have "(x, last xs) \<in> R\<^sup>+" using c link_chain_trancl by (auto simp: closed_walk_def)
  moreover have "last xs = x" using c x by (simp add: closed_walk_def)
  ultimately show ?thesis by (auto simp: acyclic_def)
qed

lemma closed_walk_members: "closed_walk R c \<Longrightarrow> n \<in> set c \<Longrightarrow> (n, n) \<in> R\<^sup>+"
proof -
  assume c: "closed_walk R c" and n: "n \<in> set c"
  have reach: "link_chain R ys \<Longrightarrow> ys \<noteq> [] \<Longrightarrow> (hd ys, last ys) \<in> R\<^sup>*" for ys
    using link_chain_trancl[of R "hd ys" "tl ys"] by (cases ys) (auto intro: trancl_into_rtrancl)
  obtain xs ys where x: "c = xs @ n # ys" using n by (auto simp: in_set_conv_decomp)
  have ch: "link_chain R c" "hd c = last c" "2 \<le> length c" using c by (simp_all add: closed_walk_def)
  have "link_chain R (n # ys)" using link_chain_drop[OF ch(1), of "length xs"] x by simp
  then have up: "(n, last c) \<in> R\<^sup>*" using reach[of "n # ys"] x by simp
  have down: "link_chain R (xs @ [n])" using ch(1) x by (auto simp: link_chain_def nth_append split: if_splits)
  then have dn: "(hd c, n) \<in> R\<^sup>*" using reach[of "xs @ [n]"] x by (cases xs) auto
  show ?thesis
  proof (cases xs)
    case Nil
    then have "ys \<noteq> []" "last ys = n" using x ch(2,3) by (cases ys; simp)+
    then show ?thesis using link_chain_trancl[of R n ys] ch(1) x Nil by simp
  next
    case (Cons y zs)
    then have "(hd c, n) \<in> R\<^sup>+" using link_chain_trancl[of R y "zs @ [n]"] down x by simp
    then show ?thesis using up ch(2) by (metis rtrancl_trancl_trancl)
  qed
qed

lemma closed_from:
  assumes "link_chain R stack" "m \<in> set stack" "(last stack, m) \<in> R"
  shows "closed_walk R (closedCycleFrom stack m)"
proof -
  obtain i where i: "find_index (\<lambda>n. n = m) stack = Some i" using assms(2) find_index_None[of "\<lambda>n. n = m" stack] by auto
  then have "i < length stack" "stack ! i = m" by (auto simp: find_index_Some)
  moreover from this have "last (drop i stack) = last stack" by simp
  ultimately show ?thesis using link_chain_snoc[OF link_chain_drop[OF assms(1), of i], of m] assms(3)
    by (auto simp: closed_walk_def closedCycleFrom_def i hd_append hd_drop_conv_nth)
qed

lemma black_reach: "dfs_inv g c stack \<Longrightarrow> (n, m) \<in> (links g False)\<^sup>* \<Longrightarrow> c n = Black \<Longrightarrow> c m = Black"
  by (rotate_tac 1, induction rule: rtrancl_induct) (auto simp: dfs_inv_def)

lemma enter_inv:
  assumes "dfs_inv g c stack" "c m = White" "stack = [] \<or> (last stack, m) \<in> links g False"
  shows "dfs_inv g (c(m := Gray)) (stack @ [m])"
  unfolding dfs_inv_def
proof (intro conjI allI impI)
  show "link_chain (links g False) (stack @ [m])" using assms(1,3) by (auto simp: dfs_inv_def intro: link_chain_snoc)
  have "m \<notin> set stack" using assms(1,2) by (metis color.distinct(1) dfs_inv_def)
  then show "distinct (stack @ [m])" using assms(1) by (simp add: dfs_inv_def)
  show "(c(m := Gray)) n = Gray \<longleftrightarrow> n \<in> set (stack @ [m])" for n using assms(1) by (auto simp: dfs_inv_def)
  fix n assume b: "(c(m := Gray)) n = Black"
  then have n: "c n = Black" by (auto split: if_splits)
  then show "(n, n) \<notin> (links g False)\<^sup>+" using assms(1) by (simp add: dfs_inv_def)
  show "(c(m := Gray)) k = Black" if "(n, k) \<in> links g False" for k
  proof -
    have "c k = Black" using assms(1) n that by (auto simp: dfs_inv_def)
    then show ?thesis using assms(2) by auto
  qed
qed

lemma leave_inv:
  assumes i: "dfs_inv g c (stack @ [m])" and b: "\<forall>k \<in> set (neighbours g False m). c k = Black"
  shows "dfs_inv g (c(m := Black)) stack"
  unfolding dfs_inv_def
proof (intro conjI allI impI)
  have l: "link_chain (links g False) (stack @ [m])" "distinct (stack @ [m])" "\<forall>n. c n = Gray \<longleftrightarrow> n \<in> set (stack @ [m])"
    using i by (simp_all add: dfs_inv_def)
  show "link_chain (links g False) stack" using l(1) by (auto simp: link_chain_def nth_append split: if_splits)
  show "distinct stack" using l(2) by simp
  show "(c(m := Black)) n = Gray \<longleftrightarrow> n \<in> set stack" for n using l(2,3) by auto
  have m: "c m = Gray" using l(3) by simp
  fix n assume n: "(c(m := Black)) n = Black"
  show "(c(m := Black)) k = Black" if "(n, k) \<in> links g False" for k
    using n that b i by (cases "n = m") (auto simp: links_def dfs_inv_def)
  show "(n, n) \<notin> (links g False)\<^sup>+"
  proof (cases "n = m")
    case True
    show ?thesis
    proof
      assume "(n, n) \<in> (links g False)\<^sup>+"
      then obtain k where "(m, k) \<in> links g False" "(k, m) \<in> (links g False)\<^sup>*" using True by (meson tranclD)
      then have "c m = Black" using black_reach[OF i] b by (auto simp: links_def)
      then show False using m by simp
    qed
  next
    case False
    then show ?thesis using n i by (simp add: dfs_inv_def)
  qed
qed

definition searched :: "Graph \<Rightarrow> NodeID list \<Rightarrow> (NodeID \<Rightarrow> color) \<Rightarrow> NodeID list \<Rightarrow> NodeID list + (NodeID \<Rightarrow> color) \<Rightarrow> bool" where
  "searched g nexts c stack r \<longleftrightarrow> (case r of Inl cycle \<Rightarrow> closed_walk (links g False) cycle
     | Inr c' \<Rightarrow> dfs_inv g c' stack \<and> (\<forall>m \<in> set nexts. c' m = Black) \<and> (\<forall>n. c n = Black \<longrightarrow> c' n = Black))"

lemma visit_links_correct:
  assumes "visit_links g nexts c stack = Some r"
  shows "dfs_inv g c stack \<longrightarrow> stack \<noteq> [] \<longrightarrow> (\<forall>m \<in> set nexts. (last stack, m) \<in> links g False) \<longrightarrow> searched g nexts c stack r"
proof (rule visit_links.raw_induct[OF _ assms, where P = "\<lambda>g nexts c stack r. dfs_inv g c stack \<longrightarrow> stack \<noteq> [] \<longrightarrow>
    (\<forall>m \<in> set nexts. (last stack, m) \<in> links g False) \<longrightarrow> searched g nexts c stack r"], intro impI)
  fix f :: "Graph \<Rightarrow> NodeID list \<Rightarrow> (NodeID \<Rightarrow> color) \<Rightarrow> NodeID list \<Rightarrow> (NodeID list + (NodeID \<Rightarrow> color)) option" and g nexts c stack r
  assume IH: "\<And>g nexts c stack r. f g nexts c stack = Some r \<Longrightarrow> dfs_inv g c stack \<longrightarrow> stack \<noteq> [] \<longrightarrow>
      (\<forall>m \<in> set nexts. (last stack, m) \<in> links g False) \<longrightarrow> searched g nexts c stack r"
    and e: "(case nexts of [] \<Rightarrow> Some (Inr c) | next # rest \<Rightarrow>
       if c next = White then Option.bind (f g (neighbours g False next) (c(next := Gray)) (stack @ [next]))
           (\<lambda>r. case r of Inl cycle \<Rightarrow> Some (Inl cycle) | Inr c' \<Rightarrow> f g rest (c'(next := Black)) stack)
       else if c next = Gray then Some (Inl (closedCycleFrom stack next)) else f g rest c stack) = Some r"
    and inv: "dfs_inv g c stack" "stack \<noteq> []" and nx: "\<forall>m \<in> set nexts. (last stack, m) \<in> links g False"
  show "searched g nexts c stack r"
  proof (cases nexts)
    case Nil
    then show ?thesis using e inv by (auto simp: searched_def)
  next
    case (Cons m rest)
    have m: "(last stack, m) \<in> links g False" and rest: "\<forall>m \<in> set rest. (last stack, m) \<in> links g False" using nx Cons by auto
    consider "c m = White" | "c m = Gray" | "c m = Black" by (cases "c m")
    then show ?thesis
    proof cases
      case w: 1
      then obtain r1 where r1: "f g (neighbours g False m) (c(m := Gray)) (stack @ [m]) = Some r1"
        "(case r1 of Inl cycle \<Rightarrow> Some (Inl cycle) | Inr c' \<Rightarrow> f g rest (c'(m := Black)) stack) = Some r"
        using e Cons by (auto simp: Option.bind_eq_Some_conv)
      have "\<forall>k \<in> set (neighbours g False m). (last (stack @ [m]), k) \<in> links g False" by (simp add: links_def)
      then have s1: "searched g (neighbours g False m) (c(m := Gray)) (stack @ [m]) r1"
        using IH[OF r1(1)] enter_inv[OF inv(1) w] m by simp
      show ?thesis
      proof (cases r1)
        case (Inl cyc)
        then show ?thesis using r1(2) s1 by (auto simp: searched_def)
      next
        case (Inr c1)
        then have c1: "dfs_inv g c1 (stack @ [m])" "\<forall>k \<in> set (neighbours g False m). c1 k = Black" "\<forall>n. (c(m := Gray)) n = Black \<longrightarrow> c1 n = Black"
          using s1 by (simp_all add: searched_def)
        have "f g rest (c1(m := Black)) stack = Some r" using r1(2) Inr by simp
        then have "searched g rest (c1(m := Black)) stack r" using IH leave_inv[OF c1(1,2)] inv(2) rest by blast
        moreover have "(c1(m := Black)) n = Black" if "c n = Black" for n using c1(3) w that by (cases "n = m") auto
        moreover have "(c1(m := Black)) m = Black" by simp
        ultimately show ?thesis using Cons unfolding searched_def by (cases r) (simp_all del: fun_upd_apply)
      qed
    next
      case 2
      then have "m \<in> set stack" using inv(1) by (simp add: dfs_inv_def)
      then show ?thesis using closed_from[OF _ _ m] inv(1) e 2 Cons by (auto simp: searched_def dfs_inv_def)
    next
      case 3
      then have "searched g rest c stack r" using e Cons IH inv rest by simp
      then show ?thesis using 3 Cons by (cases r) (auto simp: searched_def)
    qed
  qed
qed

lemma visit_correct:
  assumes i: "dfs_inv g c []" and w: "c n = White"
  shows "\<exists>r. visit g n c = Some r \<and> (case r of Inl cycle \<Rightarrow> closed_walk (links g False) cycle
     | Inr c' \<Rightarrow> dfs_inv g c' [] \<and> c' n = Black \<and> (\<forall>m. c m = Black \<longrightarrow> c' m = Black))"
proof -
  obtain r where r: "visit_links g (neighbours g False n) (c(n := Gray)) [n] = Some r"
    using visit_links_returns[OF neighbours_endpoints] by blast
  have e: "dfs_inv g (c(n := Gray)) [n]" using enter_inv[OF i w] by simp
  have s: "searched g (neighbours g False n) (c(n := Gray)) [n] r"
    using visit_links_correct[OF r] e by (auto simp: links_def)
  show ?thesis
  proof (cases r)
    case (Inl cyc)
    then show ?thesis using r s by (simp add: visit_def searched_def)
  next
    case (Inr c1)
    then have c1: "dfs_inv g c1 ([] @ [n])" "\<forall>k \<in> set (neighbours g False n). c1 k = Black" "\<forall>m. (c(n := Gray)) m = Black \<longrightarrow> c1 m = Black"
      using s by (simp_all add: searched_def)
    then show ?thesis using r Inr leave_inv[OF c1(1,2)] w by (auto simp: visit_def)
  qed
qed

lemma visit_nodes_correct:
  "dfs_inv g c [] \<Longrightarrow> \<exists>r. visit_nodes g ns c = Some r \<and> (case r of Some cycle \<Rightarrow> closed_walk (links g False) cycle
     | None \<Rightarrow> \<exists>c'. dfs_inv g c' [] \<and> (\<forall>n \<in> set ns. c' n = Black) \<and> (\<forall>m. c m = Black \<longrightarrow> c' m = Black))"
proof (induction ns arbitrary: c)
  case Nil
  then show ?case by auto
next
  case (Cons n ns)
  show ?case
  proof (cases "c n = White")
    case True
    obtain r where r: "visit g n c = Some r" "case r of Inl cycle \<Rightarrow> closed_walk (links g False) cycle
       | Inr c' \<Rightarrow> dfs_inv g c' [] \<and> c' n = Black \<and> (\<forall>m. c m = Black \<longrightarrow> c' m = Black)" using visit_correct[OF Cons.prems True] by blast
    show ?thesis
    proof (cases r)
      case (Inr c1)
      then obtain r2 where "visit_nodes g ns c1 = Some r2" "case r2 of Some cycle \<Rightarrow> closed_walk (links g False) cycle
         | None \<Rightarrow> \<exists>c'. dfs_inv g c' [] \<and> (\<forall>n \<in> set ns. c' n = Black) \<and> (\<forall>m. c1 m = Black \<longrightarrow> c' m = Black)"
        using Cons.IH[of c1] r(2) by auto
      then show ?thesis using r True Inr by (auto split: option.splits)
    qed (use r True in simp)
  next
    case False
    then have "c n = Black" using Cons.prems by (cases "c n") (auto simp: dfs_inv_def)
    from Cons.IH[OF Cons.prems] obtain r where "visit_nodes g ns c = Some r" "case r of Some cycle \<Rightarrow> closed_walk (links g False) cycle
       | None \<Rightarrow> \<exists>c'. dfs_inv g c' [] \<and> (\<forall>n \<in> set ns. c' n = Black) \<and> (\<forall>m. c m = Black \<longrightarrow> c' m = Black)" by blast
    then show ?thesis using False \<open>c n = Black\<close> by (cases r) auto
  qed
qed

lemma DetectCycle_sound:
  assumes "well_formed g"
  shows "\<exists>r. DetectCycle g = Some r \<and> (r = None \<longleftrightarrow> acyclic (links g False)) \<and> pred_option (closed_walk (links g False)) r"
proof -
  have "dfs_inv g (\<lambda>_. White) []" by (simp add: dfs_inv_def link_chain_def)
  from visit_nodes_correct[OF this, of "Nodes g"] obtain r where r0: "DetectCycle g = Some r"
    "case r of Some cycle \<Rightarrow> closed_walk (links g False) cycle
     | None \<Rightarrow> \<exists>c'. dfs_inv g c' [] \<and> (\<forall>n \<in> set (Nodes g). c' n = Black) \<and> (\<forall>m. White = Black \<longrightarrow> c' m = Black)"
    unfolding DetectCycle_def by blast
  then have r: "DetectCycle g = Some r" "case r of Some cycle \<Rightarrow> closed_walk (links g False) cycle
     | None \<Rightarrow> \<exists>c'. dfs_inv g c' [] \<and> (\<forall>n \<in> set (Nodes g). c' n = Black)"
    by (cases r; auto)+
  show ?thesis
  proof (cases r)
    case None
    then obtain c' where c: "dfs_inv g c' []" "\<forall>n \<in> set (Nodes g). c' n = Black" using r(2) by auto
    have "n \<in> set (Nodes g)" if loop: "(n, n) \<in> (links g False)\<^sup>+" for n
    proof -
      obtain k where "(n, k) \<in> links g False" using tranclD[OF loop] by blast
      then have "n \<in> endpoints g" by (auto simp: links_directed endpoints_def)
      then show ?thesis using assms by (auto simp: well_formed_def)
    qed
    then have "\<forall>n. (n, n) \<notin> (links g False)\<^sup>+" using c unfolding dfs_inv_def by blast
    then have "acyclic (links g False)" unfolding acyclic_def .
    then show ?thesis using r None by simp
  next
    case (Some cyc)
    then show ?thesis using r closed_walk_cyclic by auto
  qed
qed

text \<open>C39: the search for a cycle is right. It always returns; it returns nil exactly when the links have no cycle, and otherwise
  a list of pages each of which links to the next, whose last page is its first.\<close>

theorem DetectCycle_exact:
  assumes "well_formed g"
  shows "\<exists>r. DetectCycle g = Some r \<and> (r = None \<longleftrightarrow> acyclic (links g False)) \<and> pred_option (closed_walk (links g False)) r"
  by (rule DetectCycle_sound[OF assms])

theorem DetectCycle_exact_witness: "DetectCycle looped = Some (Some [''b'', ''c'', ''b'']) \<and> \<not> acyclic (links looped False)"
proof -
  have n: "neighbours looped False ''a'' = [''b'']" "neighbours looped False ''b'' = [''c'']"
    "neighbours looped False ''c'' = [''b'', ''d'']" "Nodes looped = [''a'', ''b'', ''c'', ''d'']" by code_simp+
  have "DetectCycle looped = Some (Some [''b'', ''c'', ''b''])"
    by (simp add: DetectCycle_def n visit_def visit_links_simps closedCycleFrom_def)
  then show ?thesis using DetectCycle_exact[OF examples_well_formed(2)] by auto
qed

end
