(* ===== verification/Analyzers.thy ===== *)
theory Analyzers
  imports Cycles Paths Decimal BlockProj
begin

text \<open>
  diagnostics-service's internal/analyzers: nine checks of a page against the titles and the links of all pages.
  \<open>strings.EqualFold\<close> is an argument, an equivalence of titles where a theorem needs one. The pattern of a link in a text is the one
  of blockproj.
\<close>

datatype Severity = HintSev | WarningSev | InfoSev

datatype AnalyzerName = DanglingPageLink | AmbiguousPageLink | HeadingSkip | EmptyCodeBlock | DuplicateTitleName | OrphanPageName
  | BrokenImage | SelfLink | LinkCycleName

record PageDiagnostic =
  Analyzer :: AnalyzerName
  dSeverity :: Severity
  dMessage :: string
  dBlockID :: "uuid option"

text \<open>A page under analysis; its blocks are those of documentcore.\<close>

record AnalyzedPage =
  ap_ID :: string
  ap_Title :: string
  ap_Blocks :: "Block list"

record PageInfo =
  pi_ID :: string
  pi_Title :: string
  IsRoot :: bool

record AnalysisContext =
  ctxPages :: "PageInfo list"
  ctxGraph :: Graph

datatype Resolution = Missing | Unique | Ambiguous

definition Resolve_title :: "(string \<Rightarrow> string \<Rightarrow> bool) \<Rightarrow> AnalysisContext \<Rightarrow> string \<Rightarrow> Resolution \<times> PageInfo list" where
  "Resolve_title EqualFold c title =
     (case filter (\<lambda>p. EqualFold (pi_Title p) title) (ctxPages c) of [] \<Rightarrow> (Missing, []) | [m] \<Rightarrow> (Unique, [m]) | ms \<Rightarrow> (Ambiguous, ms))"

subsection \<open>Checks of a block\<close>

definition pageLinkMentions :: "string \<Rightarrow> string list" where
  "pageLinkMentions text = extractLinkTitles text"

definition link_diagnostics :: "(string \<Rightarrow> string \<Rightarrow> bool) \<Rightarrow> AnalysisContext \<Rightarrow> uuid \<Rightarrow> string \<Rightarrow> PageDiagnostic list" where
  "link_diagnostics EqualFold ctx bid name =
     (case Resolve_title EqualFold ctx name of
        (Missing, _) \<Rightarrow> [\<lparr>Analyzer = DanglingPageLink, dSeverity = HintSev, dMessage = ''[['' @ name @ '']] does not match any page'',
            dBlockID = Some bid\<rparr>]
      | (Ambiguous, matches) \<Rightarrow> [\<lparr>Analyzer = AmbiguousPageLink, dSeverity = WarningSev,
            dMessage = ''[['' @ name @ '']] matches '' @ digits (length matches) @ '' pages'', dBlockID = Some bid\<rparr>]
      | (Unique, _) \<Rightarrow> [])"

definition DanglingAndAmbiguousPageLinks :: "(string \<Rightarrow> string \<Rightarrow> bool) \<Rightarrow> AnalyzedPage \<Rightarrow> AnalysisContext \<Rightarrow> PageDiagnostic list" where
  "DanglingAndAmbiguousPageLinks EqualFold page ctx =
     concat (map (\<lambda>b. concat (map (link_diagnostics EqualFold ctx (ID b)) (pageLinkMentions (Text (BContent b))))) (ap_Blocks page))"

definition SelfLinks :: "(string \<Rightarrow> string \<Rightarrow> bool) \<Rightarrow> AnalyzedPage \<Rightarrow> PageDiagnostic list" where
  "SelfLinks EqualFold page =
     concat (map (\<lambda>b. map (\<lambda>name. \<lparr>Analyzer = SelfLink, dSeverity = InfoSev,
         dMessage = ''This page links to itself: [['' @ name @ '']]'', dBlockID = Some (ID b)\<rparr>)
       (filter (\<lambda>name. EqualFold name (ap_Title page)) (pageLinkMentions (Text (BContent b))))) (ap_Blocks page))"

fun skips_loop :: "8 word \<Rightarrow> Block list \<Rightarrow> PageDiagnostic list" where
  "skips_loop lastLevel [] = []"
| "skips_loop lastLevel (b # bs) =
     (if Tag (BKind b) \<noteq> Heading then skips_loop lastLevel bs
      else let level = Level (BKind b) in
        (if lastLevel > 0 \<and> level > lastLevel + 1 then
           [\<lparr>Analyzer = HeadingSkip, dSeverity = HintSev,
              dMessage = ''Heading level '' @ digits (unat level) @ '' follows level '' @ digits (unat lastLevel) @ '' with none in between'',
              dBlockID = Some (ID b)\<rparr>] else []) @ skips_loop level bs)"

definition HeadingSkips :: "AnalyzedPage \<Rightarrow> PageDiagnostic list" where
  "HeadingSkips page = skips_loop 0 (ap_Blocks page)"

definition EmptyCodeBlocks :: "AnalyzedPage \<Rightarrow> PageDiagnostic list" where
  "EmptyCodeBlocks page =
     map (\<lambda>b. \<lparr>Analyzer = EmptyCodeBlock, dSeverity = HintSev, dMessage = ''Code block has no language set'', dBlockID = Some (ID b)\<rparr>)
       (filter (\<lambda>b. Tag (BKind b) = CodeBlock \<and> Language (BKind b) = []) (ap_Blocks page))"

definition BrokenImages :: "AnalyzedPage \<Rightarrow> PageDiagnostic list" where
  "BrokenImages page =
     map (\<lambda>b. \<lparr>Analyzer = BrokenImage, dSeverity = WarningSev, dMessage = ''Image has no file'', dBlockID = Some (ID b)\<rparr>)
       (filter (\<lambda>b. Tag (BKind b) = Image \<and> FileID (BKind b) = 0) (ap_Blocks page))"

subsection \<open>Checks of a page\<close>

definition formatDuplicateTitleMessage :: "string \<Rightarrow> nat \<Rightarrow> string" where
  "formatDuplicateTitleMessage title n =
     (if n = 2 then ''Another page has this same title'' else ''Several other pages share this title'')"

definition DuplicateTitle :: "(string \<Rightarrow> string \<Rightarrow> bool) \<Rightarrow> AnalyzedPage \<Rightarrow> AnalysisContext \<Rightarrow> PageDiagnostic list" where
  "DuplicateTitle EqualFold page ctx =
     (case Resolve_title EqualFold ctx (ap_Title page) of
        (Ambiguous, matches) \<Rightarrow> [\<lparr>Analyzer = DuplicateTitleName, dSeverity = WarningSev,
           dMessage = formatDuplicateTitleMessage (ap_Title page) (length matches), dBlockID = None\<rparr>]
      | _ \<Rightarrow> [])"

text \<open>The keys of the map of components, in some order; \<open>Orphans\<close> sorts.\<close>

definition component_keys :: "Graph \<Rightarrow> NodeID list" where
  "component_keys g = filter (\<lambda>n. Components g n \<noteq> None) (Nodes g @ map eFrom (Edges g) @ map eTo (Edges g))"

definition OrphanPage :: "AnalyzedPage \<Rightarrow> AnalysisContext \<Rightarrow> PageDiagnostic list" where
  "OrphanPage page ctx =
     (let cmp = Components (ctxGraph ctx); roots = map pi_ID (filter IsRoot (ctxPages ctx));
          orphanComponents = Orphans (component_keys (ctxGraph ctx)) cmp roots in
      case cmp (ap_ID page) of None \<Rightarrow> []
      | Some pageComponent \<Rightarrow>
        if pageComponent \<in> set orphanComponents then
          [\<lparr>Analyzer = OrphanPageName, dSeverity = InfoSev, dMessage = ''Nothing links to this page'', dBlockID = None\<rparr>]
        else [])"

text \<open>\<open>None\<close> would be a search that does not return.\<close>

definition LinkCycle :: "AnalyzedPage \<Rightarrow> AnalysisContext \<Rightarrow> PageDiagnostic list option" where
  "LinkCycle page ctx =
     map_option (\<lambda>r. case r of None \<Rightarrow> []
       | Some cycle \<Rightarrow> if ap_ID page \<in> set cycle then
           [\<lparr>Analyzer = LinkCycleName, dSeverity = InfoSev, dMessage = ''This page is part of a link cycle'', dBlockID = None\<rparr>]
         else []) (DetectCycle (ctxGraph ctx))"

definition AnalyzeAll :: "(string \<Rightarrow> string \<Rightarrow> bool) \<Rightarrow> AnalyzedPage \<Rightarrow> AnalysisContext \<Rightarrow> PageDiagnostic list option" where
  "AnalyzeAll EqualFold page ctx =
     map_option (\<lambda>cycles. DanglingAndAmbiguousPageLinks EqualFold page ctx @ SelfLinks EqualFold page @ HeadingSkips page @
       EmptyCodeBlocks page @ BrokenImages page @ DuplicateTitle EqualFold page ctx @ OrphanPage page ctx @ cycles) (LinkCycle page ctx)"

subsection \<open>What is reported\<close>

definition flags :: "PageDiagnostic list \<Rightarrow> (AnalyzerName \<times> uuid option) set" where
  "flags ds = (\<lambda>d. (Analyzer d, dBlockID d)) ` set ds"

lemma flags_simps [simp]: "flags [] = {}" "flags (d # ds) = insert (Analyzer d, dBlockID d) (flags ds)" "flags (ds @ es) = flags ds \<union> flags es"
  by (auto simp: flags_def)

text \<open>The pages a title names.\<close>

definition named :: "(string \<Rightarrow> string \<Rightarrow> bool) \<Rightarrow> AnalysisContext \<Rightarrow> string \<Rightarrow> nat" where
  "named EqualFold ctx title = length (filter (\<lambda>p. EqualFold (pi_Title p) title) (ctxPages ctx))"

lemma link_flags:
  "flags (link_diagnostics EqualFold ctx bid name) =
    (if named EqualFold ctx name = 0 then {(DanglingPageLink, Some bid)}
     else if 2 \<le> named EqualFold ctx name then {(AmbiguousPageLink, Some bid)} else {})"
  by (auto simp: link_diagnostics_def Resolve_title_def named_def split: list.splits)

lemma duplicate_flags:
  "flags (DuplicateTitle EqualFold page ctx) = (if 2 \<le> named EqualFold ctx (ap_Title page) then {(DuplicateTitleName, None)} else {})"
  by (auto simp: DuplicateTitle_def Resolve_title_def named_def split: list.splits)

text \<open>The heading before a position, and whether a heading skips a level.\<close>

definition level_before :: "Block list \<Rightarrow> 8 word" where
  "level_before bs = (case filter (\<lambda>b. Tag (BKind b) = Heading) bs of [] \<Rightarrow> 0 | hs \<Rightarrow> Level (BKind (last hs)))"

definition skips :: "8 word \<Rightarrow> Block \<Rightarrow> bool" where
  "skips lastLevel b \<longleftrightarrow> Tag (BKind b) = Heading \<and> lastLevel > 0 \<and> Level (BKind b) > lastLevel + 1"

lemma skips_loop_flags:
  "flags (skips_loop l bs) = {(HeadingSkip, Some (ID b)) | b xs ys. bs = xs @ b # ys \<and>
     skips (if filter (\<lambda>b. Tag (BKind b) = Heading) xs = [] then l else level_before xs) b}"
proof (induction bs arbitrary: l)
  case (Cons b bs)
  let ?prev = "\<lambda>l xs. if filter (\<lambda>b. Tag (BKind b) = Heading) xs = [] then l else level_before xs"
  let ?l = "if Tag (BKind b) = Heading then Level (BKind b) else l"
  have prev: "?prev l (b # zs) = ?prev ?l zs" for zs by (auto simp: level_before_def split: list.splits)
  have split: "(b # bs = xs @ c # ys) \<longleftrightarrow> xs = [] \<and> c = b \<and> ys = bs \<or> (\<exists>zs. xs = b # zs \<and> bs = zs @ c # ys)" for xs c ys
    by (cases xs) auto
  have "flags (skips_loop l (b # bs)) = {(HeadingSkip, Some (ID c)) | c. c = b \<and> skips l b} \<union> flags (skips_loop ?l bs)"
    by (auto simp: skips_def Let_def)
  also have "\<dots> = {(HeadingSkip, Some (ID c)) | c. c = b \<and> skips l b} \<union>
      {(HeadingSkip, Some (ID c)) | c zs ys. bs = zs @ c # ys \<and> skips (?prev l (b # zs)) c}"
    unfolding Cons.IH prev ..
  also have "\<dots> = {(HeadingSkip, Some (ID c)) | c xs ys. b # bs = xs @ c # ys \<and> skips (?prev l xs) c}" (is "?A \<union> ?B = ?C")
  proof (intro equalityI subsetI)
    fix x assume "x \<in> ?A \<union> ?B"
    then consider "x = (HeadingSkip, Some (ID b))" "skips l b"
      | c zs ys where "x = (HeadingSkip, Some (ID c))" "bs = zs @ c # ys" "skips (?prev l (b # zs)) c" by blast
    then show "x \<in> ?C"
    proof cases
      case 1
      then have "x = (HeadingSkip, Some (ID b)) \<and> b # bs = [] @ b # bs \<and> skips (?prev l []) b" by simp
      then show ?thesis by blast
    next
      case 2
      then have "x = (HeadingSkip, Some (ID c)) \<and> b # bs = (b # zs) @ c # ys \<and> skips (?prev l (b # zs)) c" by simp
      then show ?thesis by blast
    qed
  next
    fix x assume "x \<in> ?C"
    then obtain c xs ys where x: "x = (HeadingSkip, Some (ID c))" "b # bs = xs @ c # ys" "skips (?prev l xs) c" by blast
    show "x \<in> ?A \<union> ?B"
    proof (cases xs)
      case Nil
      then show ?thesis using x by simp
    next
      case (Cons d zs)
      then have "bs = zs @ c # ys" "d = b" using x(2) by simp_all
      moreover have "skips (?prev l (b # zs)) c" using x(3) unfolding Cons \<open>d = b\<close> .
      ultimately show ?thesis using x(1) by blast
    qed
  qed
  finally show ?case .
qed simp

lemma flags_concat: "flags (concat (map f xs)) = (\<Union>x \<in> set xs. flags (f x))"
  by (auto simp: flags_def)

lemma Orphan_flag:
  assumes "well_formed (ctxGraph ctx)" and "pi_ID ` {p \<in> set (ctxPages ctx). IsRoot p} \<subseteq> set (Nodes (ctxGraph ctx))"
    and "ap_ID page \<in> set (Nodes (ctxGraph ctx))"
  shows "flags (OrphanPage page ctx) = (if \<forall>p \<in> set (ctxPages ctx). IsRoot p \<longrightarrow> (pi_ID p, ap_ID page) \<notin> (links (ctxGraph ctx) True)\<^sup>*
    then {(OrphanPageName, None)} else {})"
proof -
  let ?g = "ctxGraph ctx" let ?roots = "map pi_ID (filter IsRoot (ctxPages ctx))"
  have "dom (Components ?g) \<subseteq> set (Nodes ?g) \<union> endpoints ?g"
    unfolding Components_inv(2) using reach_endpoints[of _ _ ?g True] by blast
  then have keys: "set (component_keys ?g) = dom (Components ?g)"
    by (auto simp: component_keys_def endpoints_def)
  have known: "ap_ID page \<in> dom (Components ?g)" unfolding Components_inv(2) using assms(3) by blast
  then obtain i where i: "Components ?g (ap_ID page) = Some i" by auto
  have roots: "set ?roots \<subseteq> set (Nodes ?g)" using assms(2) by auto
  have "i \<in> set (Orphans (component_keys ?g) (Components ?g) ?roots) \<longleftrightarrow> (\<forall>r \<in> set ?roots. (r, ap_ID page) \<notin> (links ?g True)\<^sup>*)"
    using Orphans_unreachable(2)[OF keys roots, of "ap_ID page"] known i unfolding keys by simp
  then show ?thesis by (auto simp: OrphanPage_def Let_def i)
qed

lemma Cycle_flag:
  assumes "well_formed (ctxGraph ctx)"
  shows "\<exists>ds. LinkCycle page ctx = Some ds \<and> flags ds \<subseteq> {(LinkCycleName, None)} \<and>
    (flags ds \<noteq> {} \<longrightarrow> (ap_ID page, ap_ID page) \<in> (links (ctxGraph ctx) False)\<^sup>+)"
proof -
  obtain r where r: "DetectCycle (ctxGraph ctx) = Some r" "pred_option (closed_walk (links (ctxGraph ctx) False)) r"
    using DetectCycle_sound[OF assms] by blast
  show ?thesis using r by (cases r) (auto simp: LinkCycle_def intro: closed_walk_members)
qed

text \<open>C38: what a page is told. The analysis returns; a link is reported as dangling exactly when no title matches it and as ambiguous exactly
  when several do, a heading exactly when it skips a level, the title exactly when several pages bear it, and the page as an orphan
  exactly when no top-level page is connected to it; a page that is told to lie on a cycle of links does.\<close>

theorem AnalyzeAll_exact:
  assumes "well_formed (ctxGraph ctx)" and "pi_ID ` {p \<in> set (ctxPages ctx). IsRoot p} \<subseteq> set (Nodes (ctxGraph ctx))"
    and "ap_ID page \<in> set (Nodes (ctxGraph ctx))"
  shows "\<exists>ds. AnalyzeAll E page ctx = Some ds \<and>
    ((DanglingPageLink, Some i) \<in> flags ds \<longleftrightarrow>
      (\<exists>b \<in> set (ap_Blocks page). ID b = i \<and> (\<exists>name \<in> set (pageLinkMentions (Text (BContent b))). named E ctx name = 0))) \<and>
    ((AmbiguousPageLink, Some i) \<in> flags ds \<longleftrightarrow>
      (\<exists>b \<in> set (ap_Blocks page). ID b = i \<and> (\<exists>name \<in> set (pageLinkMentions (Text (BContent b))). 2 \<le> named E ctx name))) \<and>
    ((HeadingSkip, Some i) \<in> flags ds \<longleftrightarrow> (\<exists>xs b ys. ap_Blocks page = xs @ b # ys \<and> ID b = i \<and> skips (level_before xs) b)) \<and>
    ((DuplicateTitleName, None) \<in> flags ds \<longleftrightarrow> 2 \<le> named E ctx (ap_Title page)) \<and>
    ((OrphanPageName, None) \<in> flags ds \<longleftrightarrow>
      (\<forall>p \<in> set (ctxPages ctx). IsRoot p \<longrightarrow> (pi_ID p, ap_ID page) \<notin> (links (ctxGraph ctx) True)\<^sup>*)) \<and>
    ((LinkCycleName, None) \<in> flags ds \<longrightarrow> (ap_ID page, ap_ID page) \<in> (links (ctxGraph ctx) False)\<^sup>+)"
proof -
  obtain cs where cs: "LinkCycle page ctx = Some cs" "flags cs \<subseteq> {(LinkCycleName, None)}"
    "flags cs \<noteq> {} \<longrightarrow> (ap_ID page, ap_ID page) \<in> (links (ctxGraph ctx) False)\<^sup>+" using Cycle_flag[OF assms(1)] by blast
  define ls where "ls = DanglingAndAmbiguousPageLinks E page ctx"
  define rest where "rest = SelfLinks E page @ EmptyCodeBlocks page @ BrokenImages page"
  define ds where "ds = ls @ SelfLinks E page @ HeadingSkips page @ EmptyCodeBlocks page @ BrokenImages page @
    DuplicateTitle E page ctx @ OrphanPage page ctx @ cs"
  have all: "AnalyzeAll E page ctx = Some ds" by (simp add: AnalyzeAll_def cs(1) ds_def ls_def)
  have fds: "flags ds = flags ls \<union> flags rest \<union> flags (HeadingSkips page) \<union> flags (DuplicateTitle E page ctx) \<union>
      flags (OrphanPage page ctx) \<union> flags cs" by (auto simp: ds_def rest_def)
  have ls: "flags ls = (\<Union>b \<in> set (ap_Blocks page). \<Union>name \<in> set (pageLinkMentions (Text (BContent b))).
      flags (link_diagnostics E ctx (ID b) name))" by (simp add: ls_def DanglingAndAmbiguousPageLinks_def flags_concat)
  have rest: "fst ` flags rest \<subseteq> {SelfLink, EmptyCodeBlock, BrokenImage}"
    by (auto simp: rest_def SelfLinks_def EmptyCodeBlocks_def BrokenImages_def flags_def)
  have hs: "flags (HeadingSkips page) = {(HeadingSkip, Some (ID b)) | b xs ys. ap_Blocks page = xs @ b # ys \<and> skips (level_before xs) b}"
  proof -
    have "(if filter (\<lambda>b. Tag (BKind b) = Heading) xs = [] then 0 else level_before xs) = level_before xs" for xs
      by (simp add: level_before_def)
    then show ?thesis unfolding HeadingSkips_def skips_loop_flags by simp
  qed
  have none: "(k, x) \<notin> A" if "fst ` A \<subseteq> K" "k \<notin> K" for A K and k :: AnalyzerName and x :: "uuid option"
    using that by force
  have ls': "fst ` flags ls \<subseteq> {DanglingPageLink, AmbiguousPageLink}"
  proof -
    have "fst ` flags (link_diagnostics E ctx bid name) \<subseteq> {DanglingPageLink, AmbiguousPageLink}" for bid name by (simp add: link_flags)
    then show ?thesis unfolding ls image_UN by blast
  qed
  have hs': "fst ` flags (HeadingSkips page) \<subseteq> {HeadingSkip}" unfolding hs by auto
  have dup': "fst ` flags (DuplicateTitle E page ctx) \<subseteq> {DuplicateTitleName}" unfolding duplicate_flags by auto
  have orph': "fst ` flags (OrphanPage page ctx) \<subseteq> {OrphanPageName}" unfolding Orphan_flag[OF assms] by auto
  have cs': "fst ` flags cs \<subseteq> {LinkCycleName}" using cs(2) by auto
  have f: "(DanglingPageLink, Some i) \<in> flags ds \<longleftrightarrow> (DanglingPageLink, Some i) \<in> flags ls"
    "(AmbiguousPageLink, Some i) \<in> flags ds \<longleftrightarrow> (AmbiguousPageLink, Some i) \<in> flags ls"
    "(HeadingSkip, Some i) \<in> flags ds \<longleftrightarrow> (HeadingSkip, Some i) \<in> flags (HeadingSkips page)"
    "(DuplicateTitleName, None) \<in> flags ds \<longleftrightarrow> (DuplicateTitleName, None) \<in> flags (DuplicateTitle E page ctx)"
    "(OrphanPageName, None) \<in> flags ds \<longleftrightarrow> (OrphanPageName, None) \<in> flags (OrphanPage page ctx)"
    "(LinkCycleName, None) \<in> flags ds \<longrightarrow> flags cs \<noteq> {}"
    unfolding fds Un_iff using none[OF ls'] none[OF rest] none[OF hs'] none[OF dup'] none[OF orph'] none[OF cs'] by auto
  show ?thesis
  proof (intro exI[of _ ds] conjI)
    show "AnalyzeAll E page ctx = Some ds" by (rule all)
    show "(DanglingPageLink, Some i) \<in> flags ds \<longleftrightarrow>
      (\<exists>b \<in> set (ap_Blocks page). ID b = i \<and> (\<exists>name \<in> set (pageLinkMentions (Text (BContent b))). named E ctx name = 0))"
      unfolding f(1) ls UN_iff by (intro bex_cong refl) (auto simp: link_flags intro!: bexI)
    show "(AmbiguousPageLink, Some i) \<in> flags ds \<longleftrightarrow>
      (\<exists>b \<in> set (ap_Blocks page). ID b = i \<and> (\<exists>name \<in> set (pageLinkMentions (Text (BContent b))). 2 \<le> named E ctx name))"
      unfolding f(2) ls UN_iff by (intro bex_cong refl) (auto simp: link_flags split: if_splits intro!: bexI)
    show "(HeadingSkip, Some i) \<in> flags ds \<longleftrightarrow> (\<exists>xs b ys. ap_Blocks page = xs @ b # ys \<and> ID b = i \<and> skips (level_before xs) b)"
      unfolding f(3) hs by blast
    show "(DuplicateTitleName, None) \<in> flags ds \<longleftrightarrow> 2 \<le> named E ctx (ap_Title page)"
      unfolding f(4) duplicate_flags by simp
    show "(OrphanPageName, None) \<in> flags ds \<longleftrightarrow>
      (\<forall>p \<in> set (ctxPages ctx). IsRoot p \<longrightarrow> (pi_ID p, ap_ID page) \<notin> (links (ctxGraph ctx) True)\<^sup>*)"
      unfolding f(5) Orphan_flag[OF assms] by simp
    show "(LinkCycleName, None) \<in> flags ds \<longrightarrow> (ap_ID page, ap_ID page) \<in> (links (ctxGraph ctx) False)\<^sup>+"
      using f(6) cs(3) by blast
  qed
qed

subsection \<open>A page on the second cycle\<close>

definition two_loops :: Graph where
  "two_loops = \<lparr>Nodes = [''a'', ''b'', ''c''],
     Edges = [\<lparr>eFrom = ''a'', eTo = ''b''\<rparr>, \<lparr>eFrom = ''b'', eTo = ''a''\<rparr>, \<lparr>eFrom = ''c'', eTo = ''c''\<rparr>]\<rparr>"

definition linked_pages :: AnalysisContext where
  "linked_pages = \<lparr>ctxPages = [\<lparr>pi_ID = ''a'', pi_Title = ''Home'', IsRoot = True\<rparr>,
     \<lparr>pi_ID = ''b'', pi_Title = ''Notes'', IsRoot = False\<rparr>, \<lparr>pi_ID = ''c'', pi_Title = ''notes'', IsRoot = False\<rparr>], ctxGraph = two_loops\<rparr>"

theorem AnalyzeAll_exact_witness:
  "\<exists>ds. AnalyzeAll (=) \<lparr>ap_ID = ''c'', ap_Title = ''notes'', ap_Blocks = []\<rparr> linked_pages = Some ds \<and> (DuplicateTitleName, None) \<notin> flags ds"
proof -
  let ?page = "\<lparr>ap_ID = ''c'', ap_Title = ''notes'', ap_Blocks = []\<rparr>"
  have w: "well_formed (ctxGraph linked_pages)" by (auto simp: well_formed_def endpoints_def linked_pages_def two_loops_def)
  have r: "pi_ID ` {p \<in> set (ctxPages linked_pages). IsRoot p} \<subseteq> set (Nodes (ctxGraph linked_pages))"
    by (auto simp: linked_pages_def two_loops_def)
  have p: "ap_ID ?page \<in> set (Nodes (ctxGraph linked_pages))" by (simp add: linked_pages_def two_loops_def)
  have "named (=) linked_pages (ap_Title ?page) = 1" by code_simp
  then show ?thesis using AnalyzeAll_exact[OF w r p, of "(=)" 0] by auto
qed

text \<open>Only one cycle is found. A page that links to itself lies on a cycle, but it is not told when the search has found another cycle
  first.\<close>

theorem second_loop_unflagged:
  "LinkCycle \<lparr>ap_ID = ''c'', ap_Title = ''notes'', ap_Blocks = bs\<rparr> linked_pages = Some [] \<and>
   (''c'', ''c'') \<in> (links (ctxGraph linked_pages) False)\<^sup>+"
proof
  have d: "DetectCycle two_loops = Some (Some [''a'', ''b'', ''a''])" by code_simp
  show "LinkCycle \<lparr>ap_ID = ''c'', ap_Title = ''notes'', ap_Blocks = bs\<rparr> linked_pages = Some []"
    by (simp add: LinkCycle_def linked_pages_def d)
  show "(''c'', ''c'') \<in> (links (ctxGraph linked_pages) False)\<^sup>+"
    by (rule r_into_trancl) (auto simp: links_directed linked_pages_def two_loops_def)
qed

end
