(* ===== verification/Facts.thy ===== *)
theory Facts
  imports Cycles Paths MdLex
begin

text \<open>
  diagnostics-service's internal/facts: facts that are defined in one block and referred to in others, the graph of what depends on
  what, and the references that a changed fact makes stale. The patterns of package regexp are written out; a Go
  map that is only ranged over is a function from names.
\<close>

subsection \<open>The patterns\<close>

definition letter :: "char \<Rightarrow> bool" where
  "letter c \<longleftrightarrow> CHR ''A'' \<le> c \<and> c \<le> CHR ''Z'' \<or> CHR ''a'' \<le> c \<and> c \<le> CHR ''z''"

definition name_char :: "char \<Rightarrow> bool" where
  "name_char c \<longleftrightarrow> letter c \<or> CHR ''0'' \<le> c \<and> c \<le> CHR ''9'' \<or> c = CHR ''_'' \<or> c = CHR ''-''"

definition pattern_space :: "char \<Rightarrow> bool" where
  "pattern_space c \<longleftrightarrow> c \<in> {CHR 0x09, CHR 0x0A, CHR 0x0C, CHR 0x0D, CHR '' ''}"

text \<open>A name at the front of a text, and what follows it.\<close>

definition name_at :: "string \<Rightarrow> (string \<times> string) option" where
  "name_at s = (if s \<noteq> [] \<and> letter (hd s) then Some (takeWhile name_char s, dropWhile name_char s) else None)"

text \<open>\<open>referencePattern\<close>, at the front of a text and everywhere.\<close>

definition reference_at :: "string \<Rightarrow> (string \<times> string) option" where
  "reference_at s =
     (if prefix ''{{'' s then
        (case name_at (drop 2 s) of None \<Rightarrow> None
         | Some (name, rest) \<Rightarrow> if prefix ''}}'' rest then Some (name, drop 2 rest) else None)
      else None)"

lemma reference_at_shorter: "reference_at s = Some (name, rest) \<Longrightarrow> length rest < length s"
proof -
  assume r: "reference_at s = Some (name, rest)"
  then have "rest = drop 2 (dropWhile name_char (drop 2 s))" "prefix ''{{'' s"
    by (auto simp: reference_at_def name_at_def split: if_splits)
  then show ?thesis using length_dropWhile_le[of name_char "drop 2 s"] by (auto simp: prefix_def)
qed

function mentions :: "string \<Rightarrow> string list" where
  "mentions s = (if s = [] then []
     else case reference_at s of Some (name, rest) \<Rightarrow> name # mentions rest | None \<Rightarrow> mentions (tl s))"
  by pat_completeness auto
termination by (relation "measure length") (auto dest: reference_at_shorter)

declare mentions.simps [simp del]

text \<open>\<open>definePattern\<close>, which wants the whole text.\<close>

definition match_define :: "string \<Rightarrow> (string \<times> string) option" where
  "match_define s =
     (let r = drop 8 s in
      if \<not> prefix ''{{define'' s \<or> r = [] \<or> \<not> pattern_space (hd r) then None
      else case name_at (dropWhile pattern_space r) of None \<Rightarrow> None
        | Some (name, rest) \<Rightarrow>
          (let eq = dropWhile pattern_space rest; v = dropWhile pattern_space (tl eq); value = take (length v - 2) v in
           if prefix ''='' eq \<and> suffix ''}}'' v \<and> CHR 0x0A \<notin> set value then Some (name, value) else None))"

subsection \<open>Building the graph\<close>

record Definition =
  fd_Name :: string
  fd_Value :: string
  fd_PageID :: string
  fd_BlockID :: uuid

record Reference =
  fr_Name :: string
  fr_PageID :: string
  fr_BlockID :: uuid

record PageBlocks =
  pb_PageID :: string
  pb_Blocks :: "(uuid \<times> string) list"

record FactsGraph =
  Definitions :: "string \<rightharpoonup> Definition"
  Duplicates :: "string \<rightharpoonup> Definition list"
  Cycle :: "string list"
  References :: "Reference list"
  depGraph :: Graph

record scan =
  byName :: "string \<Rightarrow> Definition list"
  s_refs :: "Reference list"
  depEdges :: "Edge list"
  factNodes :: "NodeID list"

definition addNode :: "string \<Rightarrow> scan \<Rightarrow> scan" where
  "addNode name st = (if name \<in> set (factNodes st) then st else st\<lparr>factNodes := factNodes st @ [name]\<rparr>)"

definition add_reference :: "string \<Rightarrow> uuid \<Rightarrow> string \<Rightarrow> scan \<Rightarrow> scan" where
  "add_reference page bid name st =
     (let st = addNode name st in st\<lparr>s_refs := s_refs st @ [\<lparr>fr_Name = name, fr_PageID = page, fr_BlockID = bid\<rparr>]\<rparr>)"

definition add_dependency :: "string \<Rightarrow> uuid \<Rightarrow> string \<Rightarrow> string \<Rightarrow> scan \<Rightarrow> scan" where
  "add_dependency page bid name dep st =
     (let st = addNode dep st; st = st\<lparr>depEdges := depEdges st @ [\<lparr>eFrom = dep, eTo = name\<rparr>]\<rparr>
      in st\<lparr>s_refs := s_refs st @ [\<lparr>fr_Name = dep, fr_PageID = page, fr_BlockID = bid\<rparr>]\<rparr>)"

definition scan_block :: "string \<Rightarrow> uuid \<times> string \<Rightarrow> scan \<Rightarrow> scan" where
  "scan_block page b st =
     (case match_define (TrimSpace (snd b)) of
        Some (name, value) \<Rightarrow>
          (let def = \<lparr>fd_Name = name, fd_Value = value, fd_PageID = page, fd_BlockID = fst b\<rparr>;
               st = st\<lparr>byName := (byName st)(name := byName st name @ [def])\<rparr>
           in fold (add_dependency page (fst b) name) (mentions value) (addNode name st))
      | None \<Rightarrow> fold (add_reference page (fst b)) (mentions (snd b)) st)"

definition scan_pages :: "PageBlocks list \<Rightarrow> scan" where
  "scan_pages pages = fold (\<lambda>page. fold (scan_block (pb_PageID page)) (pb_Blocks page)) pages
     \<lparr>byName = (\<lambda>_. []), s_refs = [], depEdges = [], factNodes = []\<rparr>"

text \<open>The outer \<open>None\<close> would be a search for a cycle that does not return.\<close>

definition Build :: "PageBlocks list \<Rightarrow> FactsGraph option" where
  "Build pages =
     (let st = scan_pages pages; g = \<lparr>Nodes = factNodes st, Edges = depEdges st\<rparr> in
      case DetectCycle g of None \<Rightarrow> None
      | Some r \<Rightarrow>
        (let cycle = (case r of None \<Rightarrow> [] | Some c \<Rightarrow> c) in
         Some \<lparr>Definitions = (\<lambda>name. case byName st name of [] \<Rightarrow> None
                 | d # ds \<Rightarrow> if ds \<noteq> [] then None else if name \<in> set cycle then None else Some d),
               Duplicates = (\<lambda>name. if length (byName st name) > 1 then Some (byName st name) else None),
               Cycle = cycle, References = s_refs st, depGraph = g\<rparr>))"

definition StaleReferences :: "FactsGraph \<Rightarrow> string \<Rightarrow> Reference list" where
  "StaleReferences g factName =
     (let downstream = ForwardReachable (depGraph g) factName
      in filter (\<lambda>ref. downstream (fr_Name ref) \<noteq> None) (References g))"

subsection \<open>What the blocks say\<close>

definition block_defs :: "string \<Rightarrow> uuid \<times> string \<Rightarrow> Definition list" where
  "block_defs page b = (case match_define (TrimSpace (snd b)) of None \<Rightarrow> []
     | Some (name, value) \<Rightarrow> [\<lparr>fd_Name = name, fd_Value = value, fd_PageID = page, fd_BlockID = fst b\<rparr>])"

definition block_refs :: "string \<Rightarrow> uuid \<times> string \<Rightarrow> Reference list" where
  "block_refs page b = map (\<lambda>name. \<lparr>fr_Name = name, fr_PageID = page, fr_BlockID = fst b\<rparr>)
     (mentions (case match_define (TrimSpace (snd b)) of None \<Rightarrow> snd b | Some (name, value) \<Rightarrow> value))"

definition over_blocks :: "(string \<Rightarrow> uuid \<times> string \<Rightarrow> 'a list) \<Rightarrow> PageBlocks list \<Rightarrow> 'a list" where
  "over_blocks f pages = concat (map (\<lambda>page. concat (map (f (pb_PageID page)) (pb_Blocks page))) pages)"

definition depends :: "PageBlocks list \<Rightarrow> (string \<times> string) set" where
  "depends pages = {(dep, name). \<exists>d \<in> set (over_blocks block_defs pages). fd_Name d = name \<and> dep \<in> set (mentions (fd_Value d))}"

definition block_edges :: "string \<Rightarrow> uuid \<times> string \<Rightarrow> Edge list" where
  "block_edges page b = concat (map (\<lambda>d. map (\<lambda>dep. \<lparr>eFrom = dep, eTo = fd_Name d\<rparr>) (mentions (fd_Value d))) (block_defs page b))"

definition scanned :: "scan \<Rightarrow> Definition list \<Rightarrow> Reference list \<Rightarrow> Edge list \<Rightarrow> bool" where
  "scanned st ds rs es \<longleftrightarrow> (\<forall>n. byName st n = filter (\<lambda>d. fd_Name d = n) ds) \<and> s_refs st = rs \<and> depEdges st = es \<and>
     distinct (factNodes st) \<and> (\<forall>e \<in> set es. eFrom e \<in> set (factNodes st) \<and> eTo e \<in> set (factNodes st))"

lemma addNode_fields [simp]:
  "byName (addNode n st) = byName st" "s_refs (addNode n st) = s_refs st" "depEdges (addNode n st) = depEdges st"
  "set (factNodes (addNode n st)) = insert n (set (factNodes st))" "distinct (factNodes (addNode n st)) = distinct (factNodes st)"
  by (auto simp: addNode_def)

lemma fold_references:
  "scanned st ds rs es \<Longrightarrow> scanned (fold (add_reference page bid) names st) ds
     (rs @ map (\<lambda>name. \<lparr>fr_Name = name, fr_PageID = page, fr_BlockID = bid\<rparr>) names) es"
proof (induction names arbitrary: st rs)
  case (Cons n names)
  have "scanned (add_reference page bid n st) ds (rs @ [\<lparr>fr_Name = n, fr_PageID = page, fr_BlockID = bid\<rparr>]) es"
    using Cons.prems by (auto simp: scanned_def add_reference_def Let_def)
  from Cons.IH[OF this] show ?case by simp
qed simp

lemma fold_dependencies:
  "scanned st ds rs es \<Longrightarrow> name \<in> set (factNodes st) \<Longrightarrow> scanned (fold (add_dependency page bid name) deps st) ds
     (rs @ map (\<lambda>name. \<lparr>fr_Name = name, fr_PageID = page, fr_BlockID = bid\<rparr>) deps) (es @ map (\<lambda>dep. \<lparr>eFrom = dep, eTo = name\<rparr>) deps)"
proof (induction deps arbitrary: st rs es)
  case (Cons n deps)
  let ?st = "add_dependency page bid name n st"
  have "scanned ?st ds (rs @ [\<lparr>fr_Name = n, fr_PageID = page, fr_BlockID = bid\<rparr>]) (es @ [\<lparr>eFrom = n, eTo = name\<rparr>])"
    using Cons.prems by (auto simp: scanned_def add_dependency_def Let_def)
  moreover have "name \<in> set (factNodes ?st)" using Cons.prems(2) by (simp add: add_dependency_def Let_def)
  ultimately show ?case using Cons.IH by fastforce
qed simp

lemma scan_block_step:
  assumes "scanned st ds rs es"
  shows "scanned (scan_block page b st) (ds @ block_defs page b) (rs @ block_refs page b) (es @ block_edges page b)"
proof (cases "match_define (TrimSpace (snd b))")
  case None
  then show ?thesis using fold_references[OF assms] by (simp add: scan_block_def block_defs_def block_refs_def block_edges_def)
next
  case (Some nv)
  obtain name "value" where nv: "nv = (name, value)" by fastforce
  let ?d = "\<lparr>fd_Name = name, fd_Value = value, fd_PageID = page, fd_BlockID = fst b\<rparr>"
  let ?st = "addNode name (st\<lparr>byName := (byName st)(name := byName st name @ [?d])\<rparr>)"
  have s: "scanned ?st (ds @ [?d]) rs es" using assms by (auto simp: scanned_def)
  have "name \<in> set (factNodes ?st)" by simp
  from fold_dependencies[OF s this] show ?thesis
    using Some nv by (simp add: scan_block_def block_defs_def block_refs_def block_edges_def Let_def)
qed

lemma scan_pages_scanned:
  "scanned (scan_pages pages) (over_blocks block_defs pages) (over_blocks block_refs pages) (over_blocks block_edges pages)"
proof -
  have b: "scanned st ds rs es \<Longrightarrow> scanned (fold (scan_block page) bs st) (ds @ concat (map (block_defs page) bs))
      (rs @ concat (map (block_refs page) bs)) (es @ concat (map (block_edges page) bs))" for page bs st ds rs es
  proof (induction bs arbitrary: st ds rs es)
    case (Cons b bs)
    from Cons.IH[OF scan_block_step[OF Cons.prems]] show ?case by simp
  qed simp
  have "scanned st ds rs es \<Longrightarrow> scanned (fold (\<lambda>page. fold (scan_block (pb_PageID page)) (pb_Blocks page)) ps st)
      (ds @ over_blocks block_defs ps) (rs @ over_blocks block_refs ps) (es @ over_blocks block_edges ps)" for ps st ds rs es
  proof (induction ps arbitrary: st ds rs es)
    case (Cons p ps)
    from Cons.IH[OF b[OF Cons.prems]] show ?case by (simp add: over_blocks_def)
  qed (simp add: over_blocks_def)
  from this[of _ "[]" "[]" "[]"] show ?thesis by (simp add: scan_pages_def scanned_def)
qed

lemma dep_graph:
  fixes pages
  defines "g \<equiv> \<lparr>Nodes = factNodes (scan_pages pages), Edges = depEdges (scan_pages pages)\<rparr>"
  shows "well_formed g" and "links g False = depends pages"
proof -
  note s = scan_pages_scanned[of pages, unfolded scanned_def]
  show "well_formed g" using s by (auto simp: g_def well_formed_def endpoints_def)
  have "Edges g = over_blocks block_edges pages" using s by (simp add: g_def)
  then show "links g False = depends pages"
    by (fastforce simp: links_directed depends_def over_blocks_def block_edges_def)
qed

lemma sole_definition:
  "(case ds of [] \<Rightarrow> None | d # ds \<Rightarrow> if ds \<noteq> [] then None else if P then None else Some d) = Some e \<longleftrightarrow> ds = [e] \<and> \<not> P"
  by (cases ds) auto

lemma Build_sound:
  "\<exists>g. Build pages = Some g \<and>
    (\<forall>n d. Definitions g n = Some d \<longleftrightarrow> filter (\<lambda>d. fd_Name d = n) (over_blocks block_defs pages) = [d] \<and> n \<notin> set (Cycle g)) \<and>
    (\<forall>n ds. Duplicates g n = Some ds \<longleftrightarrow> filter (\<lambda>d. fd_Name d = n) (over_blocks block_defs pages) = ds \<and> 2 \<le> length ds) \<and>
    References g = over_blocks block_refs pages \<and>
    (Cycle g = [] \<and> acyclic (depends pages) \<or> closed_walk (depends pages) (Cycle g))"
proof -
  let ?st = "scan_pages pages" let ?g = "\<lparr>Nodes = factNodes ?st, Edges = depEdges ?st\<rparr>"
  note s = scan_pages_scanned[of pages, unfolded scanned_def]
  obtain r where r: "DetectCycle ?g = Some r" "r = None \<longleftrightarrow> acyclic (depends pages)" "pred_option (closed_walk (depends pages)) r"
    using DetectCycle_sound[OF dep_graph(1)] unfolding dep_graph(2) by blast
  obtain g where g: "Build pages = Some g" "Cycle g = (case r of None \<Rightarrow> [] | Some c \<Rightarrow> c)" "References g = s_refs ?st"
    "Definitions g = (\<lambda>name. case byName ?st name of [] \<Rightarrow> None | d # ds \<Rightarrow> if ds \<noteq> [] then None else if name \<in> set (case r of None \<Rightarrow> [] | Some c \<Rightarrow> c) then None else Some d)"
    "Duplicates g = (\<lambda>name. if length (byName ?st name) > 1 then Some (byName ?st name) else None)"
    by (simp add: Build_def Let_def r(1))
  have b: "byName ?st n = filter (\<lambda>d. fd_Name d = n) (over_blocks block_defs pages)" for n using s by blast
  show ?thesis
  proof (intro exI[of _ g] conjI allI)
    show "Build pages = Some g" by (rule g(1))
    show "Definitions g n = Some d \<longleftrightarrow> filter (\<lambda>d. fd_Name d = n) (over_blocks block_defs pages) = [d] \<and> n \<notin> set (Cycle g)" for n d
      unfolding g(4)[folded g(2)] sole_definition b ..
    show "Duplicates g n = Some ds \<longleftrightarrow> filter (\<lambda>d. fd_Name d = n) (over_blocks block_defs pages) = ds \<and> 2 \<le> length ds" for n ds
      unfolding g(5) b by auto
    show "References g = over_blocks block_refs pages" using g(3) s by simp
    show "Cycle g = [] \<and> acyclic (depends pages) \<or> closed_walk (depends pages) (Cycle g)" using r(2,3) g(2) by (cases r) auto
  qed
qed

text \<open>C37: the graph of facts is what the blocks say. Building it returns for all pages; a name has a definition exactly when one block alone
  defines it and it is not on the reported cycle; the duplicates are the names that several blocks define; the references are all
  mentions in order; a cycle is reported exactly when the facts depend on each other in a circle, and it is one.\<close>

theorem Build_exact:
  "\<exists>g. Build pages = Some g \<and>
    (\<forall>n d. Definitions g n = Some d \<longleftrightarrow> filter (\<lambda>d. fd_Name d = n) (over_blocks block_defs pages) = [d] \<and> n \<notin> set (Cycle g)) \<and>
    (\<forall>n ds. Duplicates g n = Some ds \<longleftrightarrow> filter (\<lambda>d. fd_Name d = n) (over_blocks block_defs pages) = ds \<and> 2 \<le> length ds) \<and>
    References g = over_blocks block_refs pages \<and>
    (Cycle g = [] \<and> acyclic (depends pages) \<or> closed_walk (depends pages) (Cycle g))"
  by (rule Build_sound)

text \<open>What a changed fact makes stale: exactly the references to the fact or to a fact that depends on it through any chain of
  definitions, in the order they stand in the pages.\<close>

theorem StaleReferences_exact:
  "map_option (\<lambda>g. StaleReferences g name) (Build pages) =
    Some (filter (\<lambda>ref. (name, fr_Name ref) \<in> (depends pages)\<^sup>*) (over_blocks block_refs pages))"
proof -
  let ?st = "scan_pages pages" let ?g = "\<lparr>Nodes = factNodes ?st, Edges = depEdges ?st\<rparr>"
  obtain r where "DetectCycle ?g = Some r" using DetectCycle_sound[OF dep_graph(1)] by blast
  then obtain g where g: "Build pages = Some g" "depGraph g = ?g" "References g = s_refs ?st" by (simp add: Build_def Let_def)
  have "ForwardReachable ?g name n \<noteq> None \<longleftrightarrow> (name, n) \<in> (depends pages)\<^sup>*" for n
    using distance_known[of ?g name n] by (simp add: dep_graph(2))
  then show ?thesis using g scan_pages_scanned[of pages] by (simp add: StaleReferences_def scanned_def)
qed

text \<open>Two circles of definitions that have nothing to do with each other.\<close>

definition two_circles :: "PageBlocks list" where
  "two_circles = [\<lparr>pb_PageID = ''p'', pb_Blocks =
     [(1, ''{{define a = {{b}}}}''), (2, ''{{define b = {{a}}}}''), (3, ''{{define c = {{d}}}}''), (4, ''{{define d = {{c}}}}'')]\<rparr>]"

text \<open>Only the first circle is taken out. A fact on another circle stays among the definitions, though it has no value.\<close>

theorem second_circle_kept:
  "map_option (\<lambda>g. (Cycle g, map_option fd_Value (Definitions g ''a''), map_option fd_Value (Definitions g ''c''))) (Build two_circles) =
     Some ([''a'', ''b'', ''a''], None, Some ''{{d}}'') \<and> (''c'', ''c'') \<in> (depends two_circles)\<^sup>+"
proof
  show "map_option (\<lambda>g. (Cycle g, map_option fd_Value (Definitions g ''a''), map_option fd_Value (Definitions g ''c''))) (Build two_circles) =
     Some ([''a'', ''b'', ''a''], None, Some ''{{d}}'')" by code_simp
  have "over_blocks block_defs two_circles = [\<lparr>fd_Name = ''a'', fd_Value = ''{{b}}'', fd_PageID = ''p'', fd_BlockID = 1\<rparr>,
    \<lparr>fd_Name = ''b'', fd_Value = ''{{a}}'', fd_PageID = ''p'', fd_BlockID = 2\<rparr>, \<lparr>fd_Name = ''c'', fd_Value = ''{{d}}'', fd_PageID = ''p'', fd_BlockID = 3\<rparr>,
    \<lparr>fd_Name = ''d'', fd_Value = ''{{c}}'', fd_PageID = ''p'', fd_BlockID = 4\<rparr>]" by code_simp
  moreover have "mentions ''{{d}}'' = [''d'']" "mentions ''{{c}}'' = [''c'']" by code_simp+
  ultimately have "(''d'', ''c'') \<in> depends two_circles" "(''c'', ''d'') \<in> depends two_circles" by (auto simp: depends_def)
  then show "(''c'', ''c'') \<in> (depends two_circles)\<^sup>+" by (rule trancl_into_trancl2[OF _ r_into_trancl, rotated])
qed

end
