(* ===== verification/Diagnostics.thy ===== *)
theory Diagnostics
  imports Analyzers Facts PageServerLaws
begin

text \<open>
  diagnostics-service's internal/service/server.go: the requests to document-service behind an analysis. A reply of
  document-service is a status or its message; the decoders of JSON and of identifiers are arguments. What is listed is answered by
  \<open>Server_ListPages\<close>, the handler of document-service.
\<close>

record WireBlock =
  wb_Id :: string
  wb_ParentId :: "string option"
  wb_KindJson :: string
  wb_ContentJson :: string

record decoders =
  parse_uuid :: "string \<Rightarrow> uuid option"
  kind_of_json :: "string \<Rightarrow> BlockKind option"
  content_of_json :: "string \<Rightarrow> Content option"

datatype diag_error = LoadingLinkGraph | LoadingThePage | LoadingBlocks | ParsingBlockID | ParsingKind | ParsingContent | ParsingParent
  | ListingPages | ListingBlocks string

definition withActor :: "string \<Rightarrow> string list \<Rightarrow> string list" where
  "withActor systemActor v = (if v \<noteq> [] \<and> hd v \<noteq> [] then [hd v] else [systemActor])"

text \<open>The nodes of the link graph as identifier, title and flag of a root, and its edges.\<close>

definition buildLinkContext :: "status + (string \<times> string \<times> bool) list \<times> (string \<times> string) list \<Rightarrow> diag_error + AnalysisContext" where
  "buildLinkContext linkGraph = (case linkGraph of Inl e \<Rightarrow> Inl LoadingLinkGraph
     | Inr (nodes, edges) \<Rightarrow> Inr \<lparr>ctxPages = map (\<lambda>(i, title, root). \<lparr>pi_ID = i, pi_Title = title, IsRoot = root\<rparr>) nodes,
         ctxGraph = \<lparr>Nodes = map fst nodes, Edges = map (\<lambda>(a, b). \<lparr>eFrom = a, eTo = b\<rparr>) edges\<rparr>\<rparr>)"

definition unmarshalBlock :: "decoders \<Rightarrow> WireBlock \<Rightarrow> diag_error + Block" where
  "unmarshalBlock dec b =
     (case parse_uuid dec (wb_Id b) of None \<Rightarrow> Inl ParsingBlockID
      | Some i \<Rightarrow>
     (case kind_of_json dec (wb_KindJson b) of None \<Rightarrow> Inl ParsingKind
      | Some k \<Rightarrow>
     (case content_of_json dec (wb_ContentJson b) of None \<Rightarrow> Inl ParsingContent
      | Some c \<Rightarrow>
     (case wb_ParentId b of None \<Rightarrow> Inr \<lparr>ID = i, Parent = None, BKind = k, BContent = c\<rparr>
      | Some p \<Rightarrow> (case parse_uuid dec p of None \<Rightarrow> Inl ParsingParent
         | Some q \<Rightarrow> Inr \<lparr>ID = i, Parent = Some q, BKind = k, BContent = c\<rparr>)))))"

fun all_or_error :: "('a \<Rightarrow> 'e + 'b) \<Rightarrow> 'a list \<Rightarrow> 'e + 'b list" where
  "all_or_error f [] = Inr []"
| "all_or_error f (x # xs) = (case f x of Inl e \<Rightarrow> Inl e
     | Inr y \<Rightarrow> (case all_or_error f xs of Inl e \<Rightarrow> Inl e | Inr ys \<Rightarrow> Inr (y # ys)))"

definition loadPage_diag :: "decoders \<Rightarrow> string \<Rightarrow> status + string \<Rightarrow> status + WireBlock list \<Rightarrow> diag_error + AnalyzedPage" where
  "loadPage_diag dec pageID page blocksResp =
     (case page of Inl e \<Rightarrow> Inl LoadingThePage
      | Inr title \<Rightarrow>
     (case blocksResp of Inl e \<Rightarrow> Inl LoadingBlocks
      | Inr bs \<Rightarrow>
     (case all_or_error (unmarshalBlock dec) bs of Inl e \<Rightarrow> Inl e
      | Inr blocks \<Rightarrow> Inr \<lparr>ap_ID = pageID, ap_Title = title, ap_Blocks = blocks\<rparr>)))"

definition AnalyzePage :: "(string \<Rightarrow> string \<Rightarrow> bool) \<Rightarrow> decoders \<Rightarrow> status + (string \<times> string \<times> bool) list \<times> (string \<times> string) list \<Rightarrow>
    status + string \<Rightarrow> status + WireBlock list \<Rightarrow> string \<Rightarrow> status + PageDiagnostic list option" where
  "AnalyzePage EqualFold dec linkGraph page blocksResp pageID =
     (case buildLinkContext linkGraph of Inl e \<Rightarrow> Inl Internal
      | Inr ctx \<Rightarrow>
     (case loadPage_diag dec pageID page blocksResp of Inl e \<Rightarrow> Inl Internal
      | Inr p \<Rightarrow> Inr (AnalyzeAll EqualFold p ctx)))"

definition fact_block :: "decoders \<Rightarrow> WireBlock \<Rightarrow> diag_error + uuid \<times> string" where
  "fact_block dec b =
     (case content_of_json dec (wb_ContentJson b) of None \<Rightarrow> Inl ParsingContent
      | Some c \<Rightarrow> (case parse_uuid dec (wb_Id b) of None \<Rightarrow> Inl ParsingBlockID | Some i \<Rightarrow> Inr (i, Inline.Text c)))"

definition fact_page :: "decoders \<Rightarrow> (string \<Rightarrow> status + WireBlock list) \<Rightarrow> string \<Rightarrow> diag_error + PageBlocks" where
  "fact_page dec listBlocks p =
     (case listBlocks p of Inl e \<Rightarrow> Inl (ListingBlocks p)
      | Inr bs \<Rightarrow> (case all_or_error (fact_block dec) bs of Inl e \<Rightarrow> Inl e | Inr blocks \<Rightarrow> Inr \<lparr>pb_PageID = p, pb_Blocks = blocks\<rparr>))"

definition buildFactsGraph :: "decoders \<Rightarrow> status + string list \<Rightarrow> (string \<Rightarrow> status + WireBlock list) \<Rightarrow> diag_error + FactsGraph option" where
  "buildFactsGraph dec pagesResp listBlocks =
     (case pagesResp of Inl e \<Rightarrow> Inl ListingPages
      | Inr ps \<Rightarrow> (case all_or_error (fact_page dec listBlocks) ps of Inl e \<Rightarrow> Inl e | Inr pageBlocks \<Rightarrow> Inr (Build pageBlocks)))"

text \<open>The pages of an empty request: no parent, no cursor, no limit. The identifiers are printed by \<open>ustr\<close>.\<close>

definition listed_pages :: "(uuid \<Rightarrow> string) \<Rightarrow> uuid_parser \<Rightarrow> string list \<Rightarrow> member_table \<Rightarrow> page_table \<Rightarrow> status + string list" where
  "listed_pages ustr parse ids mem t =
     map_sum id (\<lambda>(ps, cursor). map (\<lambda>p. ustr (pg_ID p)) ps) (Server_ListPages parse ids mem t None [] None)"

subsection \<open>Where facts come from\<close>

lemma all_or_error_members: "all_or_error f xs = Inr ys \<Longrightarrow> list_all2 (\<lambda>x y. f x = Inr y) xs ys"
  by (induction xs arbitrary: ys) (auto split: sum.splits)

lemma over_blocks_page:
  assumes "x \<in> set (over_blocks f pages)" and "\<And>page b y. y \<in> set (f page b) \<Longrightarrow> page_of y = page"
  shows "\<exists>p \<in> set pages. page_of x = pb_PageID p"
  using assms by (fastforce simp: over_blocks_def)

lemma refs_page: "r \<in> set (block_refs page b) \<Longrightarrow> fr_PageID r = page"
  by (auto simp: block_refs_def)

lemma defs_page: "d \<in> set (block_defs page b) \<Longrightarrow> fd_PageID d = page"
  by (auto simp: block_defs_def split: option.splits)

lemma listed_are_roots:
  assumes "listed_pages ustr parse ids mem t = Inr ps" and "actorID parse ids = Inr actor"
  shows "length ps \<le> 50" and "q \<in> set ps \<Longrightarrow> \<exists>p \<in> set t. q = ustr (pg_ID p) \<and> live p \<and> ParentID p = None \<and> SpaceID p \<in> set (SpacesFor mem actor)"
proof -
  have ps: "ps = map (\<lambda>p. ustr (pg_ID p)) (ListPages t (SpacesFor mem actor) None None 50)"
    using assms by (auto simp: listed_pages_def Server_ListPages_def parseOptionalPageID_def defaultListLimit_def maxListLimit_def Let_def)
  show "length ps \<le> 50" by (simp add: ps ListPages_def)
  assume "q \<in> set ps"
  then obtain p where "q = ustr (pg_ID p)" "p \<in> set (ListPages t (SpacesFor mem actor) None None 50)" by (auto simp: ps)
  then have "q = ustr (pg_ID p) \<and> live p \<and> ParentID p = None \<and> SpaceID p \<in> set (SpacesFor mem actor)" "p \<in> set t"
    by (auto simp: ListPages_def dest!: in_set_takeD)
  then show "\<exists>p \<in> set t. q = ustr (pg_ID p) \<and> live p \<and> ParentID p = None \<and> SpaceID p \<in> set (SpacesFor mem actor)" by blast
qed

text \<open>C35: the facts of a workspace are read from its top-level pages. Every definition and every reference comes from one of at most fifty
  live pages that have no parent and lie in a space of the person asking.\<close>

theorem facts_from_top_level:
  assumes "actorID parse ids = Inr actor" and "listed_pages ustr parse ids mem t = Inr ps"
    and "buildFactsGraph dec (Inr ps) listBlocks = Inr (Some g)"
  shows "length ps \<le> 50 \<and>
    (\<forall>i \<in> fr_PageID ` set (References g) \<union> fd_PageID ` ran (Definitions g).
      \<exists>p \<in> set t. i = ustr (pg_ID p) \<and> live p \<and> ParentID p = None \<and> SpaceID p \<in> set (SpacesFor mem actor))"
proof -
  obtain pages where pages: "all_or_error (fact_page dec listBlocks) ps = Inr pages" "Build pages = Some g"
    using assms(3) by (auto simp: buildFactsGraph_def split: sum.splits)
  obtain g' where g': "Build pages = Some g'" "References g' = over_blocks block_refs pages"
    "\<forall>n d. Definitions g' n = Some d \<longleftrightarrow> filter (\<lambda>d. fd_Name d = n) (over_blocks block_defs pages) = [d] \<and> n \<notin> set (Cycle g')"
    using Build_sound[of pages] by (elim exE conjE) (rule that)
  then have g: "g' = g" using pages(2) by simp
  have listed: "pb_PageID p \<in> set ps" if p: "p \<in> set pages" for p
  proof -
    have "list_all2 (\<lambda>q p. fact_page dec listBlocks q = Inr p) ps pages" using all_or_error_members[OF pages(1)] .
    then have "\<exists>q \<in> set ps. fact_page dec listBlocks q = Inr p" using p by (induction rule: list_all2_induct) auto
    then obtain q where "q \<in> set ps" "fact_page dec listBlocks q = Inr p" by blast
    then show ?thesis by (auto simp: fact_page_def split: sum.splits)
  qed
  have "fr_PageID r \<in> set ps" if "r \<in> set (References g)" for r
  proof -
    have "r \<in> set (over_blocks block_refs pages)" using g'(2) g that by simp
    then obtain p where "p \<in> set pages" "fr_PageID r = pb_PageID p"
      using over_blocks_page[of r block_refs pages fr_PageID] refs_page by blast
    then show ?thesis using listed by simp
  qed
  moreover have "fd_PageID d \<in> set ps" if ran: "d \<in> ran (Definitions g)" for d
  proof -
    obtain n where "Definitions g n = Some d" using ran by (auto simp: ran_def)
    then have f: "filter (\<lambda>d. fd_Name d = n) (over_blocks block_defs pages) = [d]" using g'(3)[unfolded g] by blast
    have "d \<in> set (filter (\<lambda>d. fd_Name d = n) (over_blocks block_defs pages))" unfolding f by simp
    then have "d \<in> set (over_blocks block_defs pages)" by simp
    then obtain p where "p \<in> set pages" "fd_PageID d = pb_PageID p"
      using over_blocks_page[of d block_defs pages fd_PageID] defs_page by blast
    then show ?thesis using listed by simp
  qed
  ultimately have all: "\<forall>i \<in> fr_PageID ` set (References g) \<union> fd_PageID ` ran (Definitions g). i \<in> set ps" by blast
  show ?thesis
  proof (intro conjI ballI)
    show "length ps \<le> 50" using listed_are_roots(1)[OF assms(2,1)] .
    fix i assume "i \<in> fr_PageID ` set (References g) \<union> fd_PageID ` ran (Definitions g)"
    then have "i \<in> set ps" using all by blast
    then show "\<exists>p \<in> set t. i = ustr (pg_ID p) \<and> live p \<and> ParentID p = None \<and> SpaceID p \<in> set (SpacesFor mem actor)"
      using listed_are_roots(2)[OF assms(2,1)] by blast
  qed
qed

text \<open>Identifiers of one digit, and blocks whose content is its text.\<close>

definition digit_text :: "uuid \<Rightarrow> string" where
  "digit_text i = [char_of (48 + unat i)]"

definition plain_decoders :: decoders where
  "plain_decoders = \<lparr>parse_uuid = digit_parser, kind_of_json = (\<lambda>_. Some NewParagraph), content_of_json = (\<lambda>s. Some (PlainContent s))\<rparr>"

text \<open>The child of the first page defines a fact that the first page refers to.\<close>

definition defining_blocks :: "string \<Rightarrow> status + WireBlock list" where
  "defining_blocks p = Inr (if p = ''1'' then [\<lparr>wb_Id = ''5'', wb_ParentId = None, wb_KindJson = [], wb_ContentJson = ''at most {{limit}}''\<rparr>]
     else if p = ''3'' then [\<lparr>wb_Id = ''6'', wb_ParentId = None, wb_KindJson = [], wb_ContentJson = ''{{define limit = 10}}''\<rparr>] else [])"

definition values_of :: "diag_error + FactsGraph option \<Rightarrow> string \<Rightarrow> string option" where
  "values_of r name = (case r of Inr (Some g) \<Rightarrow> map_option fd_Value (Definitions g name) | _ \<Rightarrow> None)"

theorem facts_from_top_level_witness:
  "listed_pages digit_text digit_parser [''4''] two_editors threePages = Inr [''1''] \<and>
    (\<exists>p \<in> set threePages. ''1'' = digit_text (pg_ID p) \<and> ParentID p = None \<and> SpaceID p \<in> set (SpacesFor two_editors 4))"
proof -
  have a: "actorID digit_parser [''4''] = Inr 4" and l: "listed_pages digit_text digit_parser [''4''] two_editors threePages = Inr [''1'']"
    by code_simp+
  obtain g where g: "buildFactsGraph plain_decoders (Inr [''1'']) defining_blocks = Inr (Some g)" "map fr_PageID (References g) = [''1'']"
  proof -
    have "map_sum id (map_option (\<lambda>g. map fr_PageID (References g))) (buildFactsGraph plain_decoders (Inr [''1'']) defining_blocks) = Inr (Some [''1''])"
      by code_simp
    then show thesis using that by (cases "buildFactsGraph plain_decoders (Inr [''1'']) defining_blocks") auto
  qed
  have "''1'' \<in> fr_PageID ` set (References g)" using g(2) by (metis list.set_intros(1) set_map)
  then have "\<exists>p \<in> set threePages. ''1'' = digit_text (pg_ID p) \<and> live p \<and> ParentID p = None \<and> SpaceID p \<in> set (SpacesFor two_editors 4)"
    using facts_from_top_level[OF a l g(1)] by blast
  then show ?thesis using l by blast
qed

text \<open>Facts of nested pages are lost. The page that defines the fact has a parent, so the analysis of all facts knows no value for it,
  although the reader may see the page and analyzing all pages would give the value.\<close>

theorem nested_facts_lost:
  "values_of (buildFactsGraph plain_decoders (listed_pages digit_text digit_parser [''4''] two_editors threePages) defining_blocks) ''limit'' = None \<and>
   values_of (buildFactsGraph plain_decoders (Inr [''1'', ''3'']) defining_blocks) ''limit'' = Some ''10'' \<and>
   Server_GetPage digit_parser [''4''] two_editors threePages ''3'' = Inr pageC"
  by (intro conjI; code_simp)

end
