(* ===== verification/Sketch.thy ===== *)
theory Sketch
  imports Prelude "HOL-Library.Word"
begin

text \<open>
  Module sketch, files hash.go and countmin.go: counting with a fixed amount of memory. The counters are 32-bit
  words and wrap around; a width is a Go int, so its conversion to 64 bits changes nothing.
\<close>

unbundle bit_operations_syntax

subsection \<open>Hashing\<close>

definition hash_step :: "64 word \<Rightarrow> char \<Rightarrow> 64 word" where
  "hash_step h c = (h XOR of_nat (of_char c)) * 1099511628211"

definition hash64 :: "string \<Rightarrow> 64 word" where
  "hash64 s = foldl hash_step 14695981039346656037 s"

definition mix :: "64 word \<Rightarrow> 64 word" where
  "mix x0 = (let x1 = x0 XOR drop_bit 30 x0; x2 = x1 * 0xbf58476d1ce4e5b9;
     x3 = x2 XOR drop_bit 27 x2; x4 = x3 * 0x94d049bb133111eb in x4 XOR drop_bit 31 x4)"

definition seeded :: "string \<Rightarrow> 64 word \<Rightarrow> 64 word" where
  "seeded s seed = mix (hash64 s XOR (seed * 0x9e3779b97f4a7c15))"

subsection \<open>The table\<close>

record CountMin =
  cm_depth :: nat
  cm_width :: nat
  cm_table :: "32 word list list"
  cm_total :: "64 word"

definition NewCountMin :: "int \<Rightarrow> int \<Rightarrow> CountMin" where
  "NewCountMin depth width =
     (let depth = (if depth < 1 then 1 else nat depth); width = (if width < 1 then 1 else nat width)
      in \<lparr>cm_depth = depth, cm_width = width, cm_table = replicate depth (replicate width 0), cm_total = 0\<rparr>)"

definition cm_index :: "CountMin \<Rightarrow> string \<Rightarrow> nat \<Rightarrow> nat" where
  "cm_index c s row = unat (seeded s (of_nat row + 1)) mod cm_width c"

definition bump :: "CountMin \<Rightarrow> string \<Rightarrow> 32 word \<Rightarrow> nat \<Rightarrow> 32 word list list \<Rightarrow> 32 word list list" where
  "bump c s n row t = t[row := (t ! row)[cm_index c s row := t ! row ! cm_index c s row + n]]"

definition cm_Add :: "string \<Rightarrow> 32 word \<Rightarrow> CountMin \<Rightarrow> CountMin" where
  "cm_Add s n c = c\<lparr>cm_total := cm_total c + ucast n, cm_table := fold (bump c s n) [0..<cm_depth c] (cm_table c)\<rparr>"

definition Estimate :: "CountMin \<Rightarrow> string \<Rightarrow> 32 word" where
  "Estimate c s = fold (\<lambda>row best. let v = cm_table c ! row ! cm_index c s row in if v < best then v else best)
     [0..<cm_depth c] (NOT 0)"

definition cm_Bytes :: "CountMin \<Rightarrow> nat" where
  "cm_Bytes c = cm_depth c * cm_width c * 4"

record Counted =
  ct_Key :: string
  ct_Estimate :: "32 word"
  ct_Exact :: "32 word"

definition str_less :: "string \<Rightarrow> string \<Rightarrow> bool" where
  "str_less a b \<longleftrightarrow> (a, b) \<in> lexord {(x, y). of_char x < (of_char y :: nat)}"

definition heavier :: "Counted \<Rightarrow> Counted \<Rightarrow> bool" where
  "heavier a b \<longleftrightarrow> (if ct_Estimate a \<noteq> ct_Estimate b then ct_Estimate a > ct_Estimate b else str_less (ct_Key a) (ct_Key b))"

text \<open>\<open>sort.Slice\<close> is a parameter: some order of the candidates in which no later one is heavier.\<close>

definition TopK :: "((Counted \<Rightarrow> Counted \<Rightarrow> bool) \<Rightarrow> Counted list \<Rightarrow> Counted list) \<Rightarrow> CountMin \<Rightarrow> string list \<Rightarrow> int \<Rightarrow> Counted list" where
  "TopK sort_slice c candidates k =
     (let out = sort_slice heavier (map (\<lambda>s. \<lparr>ct_Key = s, ct_Estimate = Estimate c s, ct_Exact = 0\<rparr>) candidates)
      in if k > 0 \<and> int (length out) > k then take (nat k) out else out)"

subsection \<open>What a counter holds\<close>

definition added :: "(string \<times> 32 word) list \<Rightarrow> CountMin \<Rightarrow> CountMin" where
  "added xs c = fold (\<lambda>(s, n). cm_Add s n) xs c"

definition exact_count :: "(string \<times> 32 word) list \<Rightarrow> string \<Rightarrow> nat" where
  "exact_count xs s = sum_list (map (unat \<circ> snd) (filter (\<lambda>x. fst x = s) xs))"

definition total_count :: "(string \<times> 32 word) list \<Rightarrow> nat" where
  "total_count xs = sum_list (map (unat \<circ> snd) xs)"

definition cell_count :: "CountMin \<Rightarrow> nat \<Rightarrow> nat \<Rightarrow> (string \<times> 32 word) list \<Rightarrow> nat" where
  "cell_count c row j xs = sum_list (map (unat \<circ> snd) (filter (\<lambda>x. cm_index c (fst x) row = j) xs))"

definition shaped :: "CountMin \<Rightarrow> bool" where
  "shaped c \<longleftrightarrow> 0 < cm_depth c \<and> 0 < cm_width c \<and> length (cm_table c) = cm_depth c \<and> (\<forall>r \<in> set (cm_table c). length r = cm_width c)"

lemma shaped_New: "shaped (NewCountMin d w)"
  by (auto simp: shaped_def NewCountMin_def Let_def)

lemma bump_other: "row \<noteq> r \<Longrightarrow> bump c s n row t ! r = t ! r" by (simp add: bump_def)

lemma bump_self: "row < length t \<Longrightarrow> bump c s n row t ! row = (t ! row)[cm_index c s row := t ! row ! cm_index c s row + n]" by (simp add: bump_def)

lemma bumps:
  assumes "distinct rows" "\<forall>row \<in> set rows. row < length t"
  shows "length (fold (bump c s n) rows t) = length t \<and>
    fold (bump c s n) rows t ! r = (if r \<in> set rows then (t ! r)[cm_index c s r := t ! r ! cm_index c s r + n] else t ! r)"
  using assms
proof (induction rows arbitrary: t)
  case (Cons row rows)
  have l: "length (bump c s n row t) = length t" by (simp add: bump_def)
  have IH: "length (fold (bump c s n) rows (bump c s n row t)) = length t \<and>
    fold (bump c s n) rows (bump c s n row t) ! r = (if r \<in> set rows then (bump c s n row t ! r)[cm_index c s r := bump c s n row t ! r ! cm_index c s r + n]
      else bump c s n row t ! r)"
    using Cons.IH[of "bump c s n row t"] Cons.prems l by simp
  show ?case
  proof (cases "r = row")
    case True
    then have "r \<notin> set rows" "r < length t" using Cons.prems by auto
    then show ?thesis using IH True bump_self[of row t c s n] by simp
  next
    case False
    then show ?thesis using IH bump_other[of row r c s n t] by simp
  qed
qed simp

lemma cell_Add:
  assumes "shaped c" "r < cm_depth c" "j < cm_width c"
  shows "cm_table (cm_Add s n c) ! r ! j = cm_table c ! r ! j + (if cm_index c s r = j then n else 0)"
proof -
  have "length (cm_table c ! r) = cm_width c" using assms(1,2) by (simp add: shaped_def)
  then show ?thesis using bumps[of "[0..<cm_depth c]" "cm_table c" c s n r] assms by (simp add: cm_Add_def shaped_def nth_list_update)
qed

lemma Add_shape: "shaped c \<Longrightarrow> shaped (cm_Add s n c) \<and> cm_depth (cm_Add s n c) = cm_depth c \<and> cm_width (cm_Add s n c) = cm_width c"
proof -
  assume s: "shaped c"
  note b = bumps[of "[0..<cm_depth c]" "cm_table c" c s n]
  have "\<forall>r < cm_depth c. length (cm_table c ! r) = cm_width c" using s by (simp add: shaped_def)
  then have "\<forall>r < cm_depth c. length (fold (bump c s n) [0..<cm_depth c] (cm_table c) ! r) = cm_width c"
    using b s by (simp add: shaped_def)
  then show ?thesis using b s by (auto simp: shaped_def cm_Add_def in_set_conv_nth)
qed

lemma index_cong: "cm_width c = cm_width c' \<Longrightarrow> cm_index c s r = cm_index c' s r" by (simp add: cm_index_def)

lemma added_cells:
  assumes "shaped c"
  shows "shaped (added xs c) \<and> cm_depth (added xs c) = cm_depth c \<and> cm_width (added xs c) = cm_width c \<and>
    (\<forall>r < cm_depth c. \<forall>j < cm_width c. cm_table (added xs c) ! r ! j = cm_table c ! r ! j + of_nat (cell_count c r j xs))"
  using assms
proof (induction xs arbitrary: c)
  case (Cons x xs)
  obtain s n where x: "x = (s, n)" by (cases x)
  note a = Add_shape[OF Cons.prems, of s n]
  have "cell_count (cm_Add s n c) r j xs = cell_count c r j xs" for r j
    using a index_cong[of "cm_Add s n c" c] by (simp add: cell_count_def)
  then show ?case using Cons.IH[of "cm_Add s n c"] a cell_Add[OF Cons.prems, of _ _ s n] x
    by (auto simp: added_def cell_count_def)
qed (simp add: added_def cell_count_def)

lemma filter_sums: "(\<And>x. P x \<Longrightarrow> Q x) \<Longrightarrow> sum_list (map f (filter P xs)) \<le> sum_list (map (f :: 'a \<Rightarrow> nat) (filter Q xs))"
  by (induction xs) (auto intro: le_SucI trans_le_add2)

lemma least_row:
  "fold (\<lambda>row best. let v = f row in if v < best then v else best) rows b = Min (insert (b :: 32 word) (f ` set rows))"
proof (induction rows arbitrary: b)
  case (Cons r rows)
  have "Min (insert (min b (f r)) (f ` set rows)) = min (min b (f r)) (Min (insert b (f ` set rows)))" if "rows \<noteq> []"
    using that by (simp add: min.assoc min.left_commute)
  then show ?case using Cons.IH by (cases "rows = []") (auto simp: Let_def min_def)
qed simp

lemma Estimate_least: "Estimate c s = Min (insert (NOT 0) ((\<lambda>row. cm_table c ! row ! cm_index c s row) ` {..<cm_depth c}))"
  unfolding Estimate_def by (subst least_row) (simp add: atLeast0LessThan)

text \<open>C40: an estimate is never too low. As long as the counts added fit in 32 bits, for every key, every size of the table and
  every stream the estimate lies between the exact count of the key and the count of the whole stream.\<close>

theorem Estimate_bounds:
  assumes "total_count xs < 2 ^ 32"
  shows "exact_count xs s \<le> unat (Estimate (added xs (NewCountMin d w)) s) \<and>
    unat (Estimate (added xs (NewCountMin d w)) s) \<le> total_count xs"
proof -
  let ?n = "NewCountMin d w" let ?c = "added xs ?n" let ?row = "\<lambda>row. cell_count ?n row (cm_index ?c s row) xs"
  note a = added_cells[OF shaped_New, of xs d w]
  have z: "cm_table ?n ! r ! j = 0" if "r < cm_depth ?n" "j < cm_width ?n" for r j
    using that by (auto simp: NewCountMin_def Let_def split: if_splits)
  have t: "?row row \<le> total_count xs" for row
    using filter_sums[of "\<lambda>x. cm_index ?n (fst x) row = cm_index ?c s row" "\<lambda>_. True" "unat \<circ> snd" xs]
    by (simp add: cell_count_def total_count_def)
  have e: "exact_count xs s \<le> ?row row" for row
    unfolding exact_count_def cell_count_def by (rule filter_sums) (use a in \<open>simp add: index_cong[of ?c ?n]\<close>)
  have cell: "unat (cm_table ?c ! row ! cm_index ?c s row) = ?row row" if "row < cm_depth ?c" for row
  proof -
    have "cm_index ?c s row < cm_width ?n" using a shaped_New[of d w] by (simp add: cm_index_def shaped_def)
    then have "cm_table ?c ! row ! cm_index ?c s row = of_nat (?row row)" using a z[of row] that by simp
    then show ?thesis using t[of row] assms by (simp add: unsigned_of_nat take_bit_nat_eq_self)
  qed
  have "0 < cm_depth ?c" using a by (simp add: shaped_def)
  then have ne: "0 \<in> {..<cm_depth ?c}" by simp
  have m: "Estimate ?c s \<in> insert (NOT 0) ((\<lambda>row. cm_table ?c ! row ! cm_index ?c s row) ` {..<cm_depth ?c})"
    unfolding Estimate_least by (rule Min_in) auto
  have "Estimate ?c s \<le> cm_table ?c ! 0 ! cm_index ?c s 0" unfolding Estimate_least using ne by (intro Min_le) auto
  then have up: "unat (Estimate ?c s) \<le> ?row 0" using cell[of 0] ne by (simp add: word_le_nat_alt)
  show ?thesis
  proof
    show "unat (Estimate ?c s) \<le> total_count xs" using up t[of 0] by linarith
    from m consider "Estimate ?c s = NOT 0" | row where "row < cm_depth ?c" "Estimate ?c s = cm_table ?c ! row ! cm_index ?c s row" by auto
    then show "exact_count xs s \<le> unat (Estimate ?c s)"
    proof cases
      case 1
      have "exact_count xs s < 2 ^ 32" using e[of 0] t[of 0] assms by linarith
      then show ?thesis using 1 by (simp add: unsigned_minus_1_eq_mask mask_eq_exp_minus_1)
    next
      case 2
      then show ?thesis using cell e by simp
    qed
  qed
qed

definition sample_stream :: "(string \<times> 32 word) list" where
  "sample_stream = [(''home'', 2), (''notes'', 1), (''home'', 1)]"

theorem Estimate_bounds_witness:
  "exact_count sample_stream ''home'' = 3 \<and> 3 \<le> unat (Estimate (added sample_stream (NewCountMin 1 1)) ''home'')"
proof -
  have t: "total_count sample_stream < 2 ^ 32" and e: "exact_count sample_stream ''home'' = 3"
    by (simp_all add: total_count_def exact_count_def sample_stream_def)
  show ?thesis using Estimate_bounds[OF t, of "''home''" 1 1] e by simp
qed

text \<open>A counter wraps around. Two additions of two to the 31 give an estimate of zero, though the count is two to
  the 32.\<close>

theorem Estimate_wraps:
  "exact_count [(s, 2 ^ 31), (s, 2 ^ 31)] s = 2 ^ 32 \<and> Estimate (added [(s, 2 ^ 31), (s, 2 ^ 31)] (NewCountMin 1 1)) s = 0"
proof -
  let ?xs = "[(s, 2 ^ 31), (s, 2 ^ 31)]"
  have i: "cm_index c s row = 0" if "cm_width c = 1" for c row using that by (simp add: cm_index_def)
  have e: "exact_count ?xs s = 2 ^ 32" by (simp add: exact_count_def)
  have "cm_table (added ?xs (NewCountMin 1 1)) ! 0 ! 0 = of_nat (cell_count (NewCountMin 1 1) 0 0 ?xs)"
    using added_cells[OF shaped_New, of ?xs 1 1] by (auto simp: NewCountMin_def)
  also have "cell_count (NewCountMin 1 1) 0 0 ?xs = 2 ^ 32" using i[of "NewCountMin 1 1"] by (simp add: cell_count_def NewCountMin_def)
  also have "(of_nat (2 ^ 32) :: 32 word) = 0" by simp
  finally have z: "cm_table (added ?xs (NewCountMin 1 1)) ! 0 ! 0 = 0" .
  have w: "cm_width (added ?xs (NewCountMin 1 1)) = 1" "cm_depth (added ?xs (NewCountMin 1 1)) = 1"
    using added_cells[OF shaped_New, of ?xs 1 1] by (auto simp: NewCountMin_def)
  show ?thesis using e z w i[of "added ?xs (NewCountMin 1 1)"] by (simp add: Estimate_def word_gt_0)
qed

end
