(* ===== verification/Trie.thy ===== *)
theory Trie
  imports RuneText "HOL-Library.AList" "HOL-Library.Multiset" "HOL-Library.Sublist"
begin

text \<open>
  document-service's internal/trie/trie.go: the tree of prefixes behind the completion of titles. A node has its
  children by rune and the titles that end there. A Go map is ranged over in any order, here in the order
  of the list.
\<close>

datatype trie_node = Node "(nat \<times> trie_node) list" "string list"

type_synonym trie = "trie_node option"

abbreviation newNode :: trie_node where "newNode \<equiv> Node [] []"

definition low :: "nat \<Rightarrow> nat" where
  "low r = (if 65 \<le> r \<and> r \<le> 90 then r + (97 - 65) else r)"

definition lower_title :: "string \<Rightarrow> string" where
  "lower_title s = string_of_runes (map low (runes s))"

fun insert_at :: "nat list \<Rightarrow> string \<Rightarrow> trie_node \<Rightarrow> trie_node" where
  "insert_at [] title (Node children titles) = Node children (titles @ [title])"
| "insert_at (r # rs) title (Node children titles) =
     Node (AList.update r (insert_at rs title (case map_of children r of None \<Rightarrow> newNode | Some child \<Rightarrow> child)) children) titles"

definition Trie_Insert :: "string \<Rightarrow> trie \<Rightarrow> trie" where
  "Trie_Insert title t = Some (insert_at (runes (lower_title title)) title (case t of None \<Rightarrow> newNode | Some root \<Rightarrow> root))"

fun descend :: "nat list \<Rightarrow> trie_node \<Rightarrow> trie_node option" where
  "descend [] n = Some n"
| "descend (r # rs) (Node children titles) = (case map_of children r of None \<Rightarrow> None | Some child \<Rightarrow> descend rs child)"

fun collect :: "trie_node \<Rightarrow> string list" where
  "collect (Node children titles) = titles @ concat (map (\<lambda>(r, child). collect child) children)"

definition PrefixSearch :: "trie \<Rightarrow> string \<Rightarrow> string list" where
  "PrefixSearch t p = (case t of None \<Rightarrow> [] | Some root \<Rightarrow>
     (case descend (runes (lower_title p)) root of None \<Rightarrow> [] | Some n \<Rightarrow> collect n))"

subsection \<open>What is found\<close>

lemma lower_runes: "runes (lower_title s) = map low (runes s)"
proof -
  have "valid_rune (low r)" if "valid_rune r" for r using that by (auto simp: low_def valid_rune_def)
  then have "list_all valid_rune (map low (runes s))" using runes_valid[of s] by (simp add: list_all_iff)
  then show ?thesis by (simp add: lower_title_def runes_string_of_runes)
qed

lemma update_collect:
  "mset (concat (map (\<lambda>(r, c). collect c) (AList.update r c' cs))) + mset (case map_of cs r of None \<Rightarrow> [] | Some c \<Rightarrow> collect c) =
   mset (concat (map (\<lambda>(r, c). collect c) cs)) + mset (collect c')"
  by (induction cs) auto

definition found :: "nat list \<Rightarrow> trie_node \<Rightarrow> string list" where
  "found p n = (case descend p n of None \<Rightarrow> [] | Some m \<Rightarrow> collect m)"

lemma found_empty: "found p newNode = []"
  by (cases p) (simp_all add: found_def)

lemma collect_insert: "mset (collect (insert_at q title n)) = add_mset title (mset (collect n))"
proof (induction q title n rule: insert_at.induct)
  case (2 r rs title cs ts)
  then show ?case using update_collect[of r "insert_at rs title (case map_of cs r of None \<Rightarrow> newNode | Some c \<Rightarrow> c)" cs]
    by (cases "map_of cs r") auto
qed simp

lemma found_insert:
  "mset (found p (insert_at q title n)) = mset (found p n) + (if prefix p q then {#title#} else {#})"
proof (induction q title n arbitrary: p rule: insert_at.induct)
  case (1 title cs ts)
  then show ?case by (cases p) (auto simp: found_def)
next
  case (2 r rs title cs ts)
  show ?case
  proof (cases p)
    case Nil
    then show ?thesis using collect_insert[of "r # rs" title "Node cs ts"] by (simp add: found_def)
  next
    case (Cons x p')
    let ?child = "case map_of cs r of None \<Rightarrow> newNode | Some c \<Rightarrow> c"
    have "found p (insert_at (r # rs) title (Node cs ts)) =
        (if x = r then found p' (insert_at rs title ?child) else case map_of cs x of None \<Rightarrow> [] | Some c \<Rightarrow> found p' c)"
      by (simp add: found_def Cons update_conv' split: option.split)
    moreover have "found p (Node cs ts) = (case map_of cs x of None \<Rightarrow> [] | Some c \<Rightarrow> found p' c)"
      by (simp add: found_def Cons split: option.split)
    moreover have "found p' ?child = (case map_of cs r of None \<Rightarrow> [] | Some c \<Rightarrow> found p' c)" by (simp add: found_empty split: option.split)
    ultimately show ?thesis using 2[of p'] by (auto simp: Cons)
  qed
qed

definition trie_of :: "string list \<Rightarrow> trie" where
  "trie_of titles = fold Trie_Insert titles None"

text \<open>Completion finds exactly the titles that begin with what was typed, letters of either case being the same, each as often
  as it was inserted.\<close>

theorem PrefixSearch_exact:
  "mset (PrefixSearch (trie_of titles) p) =
   mset (filter (\<lambda>title. prefix (map low (runes p)) (map low (runes title))) titles)"
proof (induction titles rule: rev_induct)
  case Nil
  then show ?case by (simp add: trie_of_def PrefixSearch_def)
next
  case (snoc title titles)
  let ?root = "case trie_of titles of None \<Rightarrow> newNode | Some root \<Rightarrow> root"
  have "PrefixSearch (trie_of (titles @ [title])) p = found (map low (runes p)) (insert_at (map low (runes title)) title ?root)"
    by (simp add: trie_of_def PrefixSearch_def Trie_Insert_def lower_runes found_def)
  moreover have "PrefixSearch (trie_of titles) p = found (map low (runes p)) ?root"
    by (cases "trie_of titles") (simp_all add: PrefixSearch_def lower_runes found_empty flip: found_def)
  ultimately show ?case using found_insert snoc by simp
qed

end
