(* ===== verification/Syntax.thy ===== *)
theory Syntax
  imports RuneText MdLex
begin

text \<open>
  Module syntax: coloring a block of code. The lexer goes through the runes of the source once; what is left of them is
  the state of its loop. Which runes are letters and digits, and the lower case of a name, are arguments (package
  unicode and \<open>strings.ToLower\<close>).
\<close>

datatype Kind = Plain | Keyword | Type | String | Number | Comment | Func | Punct

record SynToken =
  tok_Kind :: Kind
  tok_Text :: string

record Lang =
  Keywords :: "string list"
  Types :: "string list"
  LineComment :: "string list"
  BlockOpen :: string
  BlockClose :: string
  StringQuotes :: string
  RawQuotes :: string

subsection \<open>Languages\<close>

text \<open>\<open>set\<close>: the words of a text, which are separated by one space.\<close>

fun split_words :: "string \<Rightarrow> string \<Rightarrow> string list" where
  "split_words w [] = (if w = [] then [] else [w])"
| "split_words w (c # cs) = (if c = CHR '' '' then (if w = [] then [] else [w]) @ split_words [] cs else split_words (w @ [c]) cs)"

definition word_set :: "string \<Rightarrow> string list" where
  "word_set words = split_words [] words"

definition langs :: "(string \<times> Lang) list" where
  "langs = [
  (''go'', \<lparr>Keywords = word_set (''break case chan const continue default defer else fallthrough for func go goto if import interface map package'' @
      '' range return select struct switch type var''),
      Types = word_set (''bool byte complex64 complex128 error float32 float64 int int8 int16 int32 int64 rune string uint uint8 uint16'' @
      '' uint32 uint64 uintptr any nil true false iota make new len cap append copy delete panic recover''),
      LineComment = [''//''], BlockOpen = ''/*'', BlockClose = ''*/'', StringQuotes = [CHR 0x22] @ [CHR 0x27], RawQuotes = [CHR 0x60]\<rparr>),
  (''rust'', \<lparr>Keywords = word_set (''as async await break const continue crate dyn else enum extern fn for if impl in let loop match mod move mut'' @
      '' pub ref return self Self static struct super trait type unsafe use where while''),
      Types = word_set (''bool char f32 f64 i8 i16 i32 i64 i128 isize u8 u16 u32 u64 u128 usize str String Vec Option Result Box Rc Arc'' @
      '' HashMap BTreeMap Some None Ok Err true false''),
      LineComment = [''//''], BlockOpen = ''/*'', BlockClose = ''*/'', StringQuotes = [CHR 0x22] @ [CHR 0x27], RawQuotes = []\<rparr>),
  (''ts'', \<lparr>Keywords = word_set (''as async await break case catch class const continue default delete do else enum export extends finally for'' @
      '' from function if implements import in instanceof interface let new of return static super switch this throw'' @
      '' try type typeof var void while yield satisfies keyof readonly''),
      Types = word_set (''any boolean never null number object string symbol undefined unknown true false Array Promise Record Partial'' @
      '' Map Set console''),
      LineComment = [''//''], BlockOpen = ''/*'', BlockClose = ''*/'', StringQuotes = [CHR 0x22] @ [CHR 0x27] @ [CHR 0x60], RawQuotes = []\<rparr>),
  (''python'', \<lparr>Keywords = word_set (''and as assert async await break class continue def del elif else except finally for from global if import in is'' @
      '' lambda nonlocal not or pass raise return try while with yield match case''),
      Types = word_set (''bool bytes dict float int list None set str tuple True False self print len range enumerate''),
      LineComment = [''#''], BlockOpen = [], BlockClose = [], StringQuotes = [CHR 0x22] @ [CHR 0x27], RawQuotes = []\<rparr>),
  (''sql'', \<lparr>Keywords = word_set (''select from where group by having order limit offset insert into values update set delete create table index'' @
      '' view alter drop join left right inner outer on as and or not null distinct returning with union all case when'' @
      '' then else end primary key foreign references default constraint check unique generated always stored''),
      Types = word_set (''int integer bigint smallint text varchar char boolean timestamptz timestamp date time uuid jsonb json numeric'' @
      '' decimal real double serial ltree tsvector array''),
      LineComment = [''--''], BlockOpen = ''/*'', BlockClose = ''*/'', StringQuotes = [CHR 0x27] @ [CHR 0x22], RawQuotes = []\<rparr>),
  (''bash'', \<lparr>Keywords = word_set (''if then else elif fi for while do done case esac function return export local set unset echo cd exit source''),
      Types = word_set ([]),
      LineComment = [''#''], BlockOpen = [], BlockClose = [], StringQuotes = [CHR 0x22] @ [CHR 0x27], RawQuotes = []\<rparr>),
  (''json'', \<lparr>Keywords = word_set ([]),
      Types = word_set (''true false null''),
      LineComment = [], BlockOpen = [], BlockClose = [], StringQuotes = [CHR 0x22], RawQuotes = []\<rparr>),
  (''yaml'', \<lparr>Keywords = word_set ([]),
      Types = word_set (''true false null yes no''),
      LineComment = [''#''], BlockOpen = [], BlockClose = [], StringQuotes = [CHR 0x22] @ [CHR 0x27], RawQuotes = []\<rparr>)]"

definition aliases :: "(string \<times> string) list" where
  "aliases =
    [(''golang'', ''go''), (''rs'', ''rust''), (''js'', ''ts''), (''javascript'', ''ts''), (''typescript'', ''ts''),
     (''jsx'', ''ts''), (''tsx'', ''ts''), (''py'', ''python''), (''postgres'', ''sql''), (''postgresql'', ''sql''),
     (''psql'', ''sql''), (''sh'', ''bash''), (''shell'', ''bash''), (''zsh'', ''bash''), (''console'', ''bash''), (''yml'',
     ''yaml''), (''proto'', ''go''), (''protobuf'', ''go'')]"

definition other_lang :: Lang where
  "other_lang = \<lparr>Keywords = [], Types = [], LineComment = [''//'', ''#'', ''--''], BlockOpen = ''/*'', BlockClose = ''*/'',
     StringQuotes = [CHR 0x22, CHR 0x27, CHR 0x60], RawQuotes = []\<rparr>"

definition lang_named :: "string \<Rightarrow> Lang" where
  "lang_named name =
     (let name = (case map_of aliases name of Some a \<Rightarrow> a | None \<Rightarrow> name)
      in case map_of langs name of Some l \<Rightarrow> l | None \<Rightarrow> other_lang)"

subsection \<open>One token\<close>

definition rune_of :: "char \<Rightarrow> nat" where "rune_of c = of_char c"

definition hasPrefixAt :: "nat list \<Rightarrow> string \<Rightarrow> bool" where
  "hasPrefixAt r p \<longleftrightarrow> prefix (runes p) r"

definition matchLineComment :: "nat list \<Rightarrow> string list \<Rightarrow> nat" where
  "matchLineComment r ps = (case find (\<lambda>p. p \<noteq> [] \<and> hasPrefixAt r p) ps of None \<Rightarrow> 0 | Some p \<Rightarrow> length (runes p))"

definition peekNonSpace :: "nat list \<Rightarrow> nat" where
  "peekNonSpace r = (case dropWhile (\<lambda>x. x = rune_of CHR '' '' \<or> x = 9) r of [] \<Rightarrow> 0 | x # _ \<Rightarrow> x)"

text \<open>How many runes come before the closing mark of a comment.\<close>

fun before_close :: "string \<Rightarrow> nat list \<Rightarrow> nat" where
  "before_close close [] = 0"
| "before_close close (x # xs) = (if hasPrefixAt (x # xs) close then 0 else Suc (before_close close xs))"

text \<open>How many runes of a string come before its quote, the end of the line or of the text.\<close>

fun string_body :: "nat \<Rightarrow> nat list \<Rightarrow> nat" where
  "string_body c [] = 0"
| "string_body c [x] = (if x = c \<or> x = 10 then 0 else 1)"
| "string_body c (x # y # xs) =
     (if x = 92 then 2 + string_body c xs
      else if x = c \<or> x = 10 then 0
      else Suc (string_body c (y # xs)))"

definition number_rune :: "(nat \<Rightarrow> bool) \<Rightarrow> nat \<Rightarrow> bool" where
  "number_rune isDigit x \<longleftrightarrow> isDigit x \<or> x \<in> set (map rune_of ''._xXb'') \<or> 97 \<le> x \<and> x \<le> 102 \<or> 65 \<le> x \<and> x \<le> 70"

definition closed_by :: "nat list \<Rightarrow> nat \<Rightarrow> (nat \<Rightarrow> bool) \<Rightarrow> nat" where
  "closed_by r j P = (case drop j r of [] \<Rightarrow> j | x # _ \<Rightarrow> if P x then j + 1 else j)"

definition punctuation :: string where
  "punctuation = ''{}()[];,.:=+-*/<>!&|%^~?''"

text \<open>The kind of the next token and how many runes it takes.\<close>

definition next_token :: "(nat \<Rightarrow> bool) \<Rightarrow> (nat \<Rightarrow> bool) \<Rightarrow> Lang \<Rightarrow> nat list \<Rightarrow> Kind \<times> nat" where
  "next_token isLetter isDigit l r =
     (let c = hd r in
      if matchLineComment r (LineComment l) > 0 then (Comment, length (takeWhile (\<lambda>x. x \<noteq> 10) r))
      else if BlockOpen l \<noteq> [] \<and> hasPrefixAt r (BlockOpen l) then
        (let j = length (runes (BlockOpen l)); j = j + before_close (BlockClose l) (drop j r)
         in (Comment, if j < length r then j + length (runes (BlockClose l)) else j))
      else if c \<in> set (runes (RawQuotes l)) then
        (String, closed_by r (1 + length (takeWhile (\<lambda>x. x \<noteq> c) (tl r))) (\<lambda>_. True))
      else if c \<in> set (runes (StringQuotes l)) then (String, closed_by r (1 + string_body c (tl r)) (\<lambda>x. x = c))
      else if isDigit c then (Number, length (takeWhile (number_rune isDigit) r))
      else if isLetter c \<or> c = rune_of CHR ''_'' then
        (let j = length (takeWhile (\<lambda>x. isLetter x \<or> isDigit x \<or> x = rune_of CHR ''_'') r);
             word = string_of_runes (take j r)
         in (if word \<in> set (Keywords l) then Keyword
             else if word \<in> set (Types l) then Type
             else if peekNonSpace (drop j r) = rune_of CHR ''('' then Func
             else Plain, j))
      else if c \<in> set (map rune_of punctuation) then (Punct, 1)
      else (Plain, 1))"

subsection \<open>The lexer\<close>

definition emit_token :: "Kind \<Rightarrow> string \<Rightarrow> SynToken list \<Rightarrow> SynToken list" where
  "emit_token k s out =
     (if s = [] then out
      else if out \<noteq> [] \<and> tok_Kind (last out) = k then butlast out @ [\<lparr>tok_Kind = k, tok_Text = tok_Text (last out) @ s\<rparr>]
      else out @ [\<lparr>tok_Kind = k, tok_Text = s\<rparr>])"

partial_function (option) highlight_loop :: "(nat \<Rightarrow> bool) \<Rightarrow> (nat \<Rightarrow> bool) \<Rightarrow> Lang \<Rightarrow> nat list \<Rightarrow> SynToken list \<Rightarrow> SynToken list option" where
  "highlight_loop isLetter isDigit l r out =
     (if r = [] then Some out
      else highlight_loop isLetter isDigit l (drop (snd (next_token isLetter isDigit l r)) r)
        (emit_token (fst (next_token isLetter isDigit l r)) (string_of_runes (take (snd (next_token isLetter isDigit l r)) r)) out))"

declare highlight_loop.simps [code]

definition Highlight :: "(nat \<Rightarrow> bool) \<Rightarrow> (nat \<Rightarrow> bool) \<Rightarrow> (string \<Rightarrow> string) \<Rightarrow> string \<Rightarrow> string \<Rightarrow> SynToken list option" where
  "Highlight isLetter isDigit toLower lang src =
     highlight_loop isLetter isDigit (lang_named (toLower (TrimSpace lang))) (runes src) []"

subsection \<open>Every round takes something\<close>

text \<open>In every language a comment to the end of the line begins with a rune that does not end the line, and the marks of
  a comment are not empty together.\<close>

definition lang_ok :: "Lang \<Rightarrow> bool" where
  "lang_ok l \<longleftrightarrow> list_all (\<lambda>p. p \<noteq> [] \<and> hd (runes p) \<noteq> 10) (LineComment l)"

lemma langs_ok: "lang_ok (lang_named name)"
proof -
  have "list_all (\<lambda>(n, l). lang_ok l) langs" "lang_ok other_lang" by code_simp+
  then show ?thesis by (auto simp: lang_named_def Let_def list_all_iff dest!: map_of_SomeD split: option.split)
qed

lemma comment_pos: "lang_ok l \<Longrightarrow> matchLineComment r (LineComment l) > 0 \<Longrightarrow> r \<noteq> [] \<and> hd r \<noteq> 10"
proof -
  assume l: "lang_ok l" and m: "matchLineComment r (LineComment l) > 0"
  then obtain p where "find (\<lambda>p. p \<noteq> [] \<and> hasPrefixAt r p) (LineComment l) = Some p"
    by (auto simp: matchLineComment_def split: option.splits)
  then have "p \<in> set (LineComment l)" "p \<noteq> []" "prefix (runes p) r"
    by (auto simp: find_Some_iff hasPrefixAt_def)
  then show ?thesis using l by (cases "runes p") (auto simp: lang_ok_def list_all_iff prefix_def)
qed

lemma before_close_le: "before_close close r \<le> length r"
  by (induction r) auto

lemma before_close_found: "before_close close r < length r \<Longrightarrow> prefix (runes close) (drop (before_close close r) r)"
  by (induction r) (auto simp: hasPrefixAt_def)

lemma string_body_le: "string_body c r \<le> length r"
  by (induction c r rule: string_body.induct) auto

lemma closed_by_bounds: "j \<le> length r \<Longrightarrow> j \<le> closed_by r j P \<and> closed_by r j P \<le> length r"
proof -
  assume j: "j \<le> length r"
  show ?thesis
  proof (cases "drop j r")
    case (Cons x xs)
    then have "j < length r" using j by (metis drop_all le_neq_implies_less list.distinct(1))
    then show ?thesis by (simp add: closed_by_def Cons)
  qed (use j in \<open>simp add: closed_by_def\<close>)
qed

lemma next_token_bounds:
  assumes l: "lang_ok l" and r: "r \<noteq> []"
  shows "1 \<le> snd (next_token isLetter isDigit l r) \<and> snd (next_token isLetter isDigit l r) \<le> length r"
proof -
  obtain c cs where rc: "r = c # cs" using r by (cases r) auto
  have tw: "length (takeWhile P r) \<le> length r \<and> (P c \<longrightarrow> 1 \<le> length (takeWhile P r))" for P
    by (simp add: rc length_takeWhile_le)
  consider (line) "matchLineComment r (LineComment l) > 0"
    | (block) "\<not> matchLineComment r (LineComment l) > 0" "BlockOpen l \<noteq> [] \<and> hasPrefixAt r (BlockOpen l)"
    | (other) "\<not> matchLineComment r (LineComment l) > 0" "\<not> (BlockOpen l \<noteq> [] \<and> hasPrefixAt r (BlockOpen l))" by blast
  then show ?thesis
  proof cases
    case line
    then show ?thesis using comment_pos[OF l line] tw[of "\<lambda>x. x \<noteq> 10"] by (simp add: next_token_def Let_def rc)
  next
    case block
    let ?o = "length (runes (BlockOpen l))"
    let ?j = "?o + before_close (BlockClose l) (drop ?o r)"
    have o: "1 \<le> ?o" "?o \<le> length r" using block(2) by (auto simp: hasPrefixAt_def Suc_le_eq dest: prefix_length_le)
    have j: "?j \<le> length r" using before_close_le[of "BlockClose l" "drop ?o r"] o(2) by simp
    have "?j + length (runes (BlockClose l)) \<le> length r" if "?j < length r"
    proof -
      have "prefix (runes (BlockClose l)) (drop (before_close (BlockClose l) (drop ?o r)) (drop ?o r))"
        by (rule before_close_found) (use that o in simp)
      from prefix_length_le[OF this] show ?thesis using that by simp
    qed
    then show ?thesis using block o j by (auto simp: next_token_def Let_def)
  next
    case other
    have raw: "1 + length (takeWhile (\<lambda>x. x \<noteq> c) cs) \<le> length r" by (simp add: rc length_takeWhile_le)
    have str: "1 + string_body c cs \<le> length r" using string_body_le[of c cs] by (simp add: rc)
    let ?w = "\<lambda>x. isLetter x \<or> isDigit x \<or> x = rune_of CHR ''_''"
    have nt: "next_token isLetter isDigit l r \<in> {(String, closed_by r (1 + length (takeWhile (\<lambda>x. x \<noteq> c) cs)) (\<lambda>_. True)),
        (String, closed_by r (1 + string_body c cs) (\<lambda>x. x = c)), (Punct, 1), (Plain, 1)} \<or>
      isDigit c \<and> snd (next_token isLetter isDigit l r) = length (takeWhile (number_rune isDigit) r) \<or>
      ?w c \<and> snd (next_token isLetter isDigit l r) = length (takeWhile ?w r)"
      unfolding next_token_def Let_def if_not_P[OF other(1)] if_not_P[OF other(2)] by (simp add: rc)
    have "isDigit c \<Longrightarrow> number_rune isDigit c" by (simp add: number_rune_def)
    then show ?thesis using nt closed_by_bounds[OF raw, of "\<lambda>_. True"] closed_by_bounds[OF str, of "\<lambda>x. x = c"] tw[of "number_rune isDigit"] tw[of ?w] rc
      by (elim disjE insertE) auto
  qed
qed

subsection \<open>The text is kept\<close>

definition texts :: "SynToken list \<Rightarrow> string" where
  "texts ts = concat (map tok_Text ts)"

fun merged :: "SynToken list \<Rightarrow> bool" where
  "merged (a # b # ts) = (tok_Kind a \<noteq> tok_Kind b \<and> merged (b # ts))"
| "merged _ = True"

lemma merged_snoc: "merged (ts @ [t]) \<longleftrightarrow> merged ts \<and> (ts \<noteq> [] \<longrightarrow> tok_Kind (last ts) \<noteq> tok_Kind t)"
  by (induction ts rule: merged.induct) auto

lemma emit_texts: "texts (emit_token k s out) = texts out @ s"
proof (cases "out = []")
  case False
  then have "texts out = texts (butlast out) @ tok_Text (last out)"
    by (metis append_butlast_last_id concat.simps concat_append list.simps(8,9) map_append texts_def append_Nil2)
  then show ?thesis by (simp add: emit_token_def texts_def)
qed (simp add: emit_token_def texts_def)

definition tokens_ok :: "SynToken list \<Rightarrow> bool" where
  "tokens_ok ts \<longleftrightarrow> merged ts \<and> [] \<notin> tok_Text ` set ts"

lemma emit_ok: "tokens_ok out \<Longrightarrow> tokens_ok (emit_token k s out)"
proof (cases "out = []")
  case False
  assume t: "tokens_ok out"
  obtain ts t where o: "out = ts @ [t]" using False by (metis append_butlast_last_id)
  show ?thesis using t merged_snoc[of "ts @ [t]"] unfolding o by (auto simp: tokens_ok_def emit_token_def merged_snoc)
qed (simp add: emit_token_def tokens_ok_def)

lemma highlight_returns:
  "lang_ok l \<Longrightarrow> tokens_ok out \<Longrightarrow>
   \<exists>ts. highlight_loop isLetter isDigit l r out = Some ts \<and> texts ts = texts out @ string_of_runes r \<and> tokens_ok ts"
proof (induction "length r" arbitrary: r out rule: less_induct)
  case less
  show ?case
  proof (cases "r = []")
    case True
    then show ?thesis using less.prems by (subst highlight_loop.simps) (simp add: string_of_runes_def)
  next
    case False
    obtain k n where n: "next_token isLetter isDigit l r = (k, n)" by (cases "next_token isLetter isDigit l r")
    have "length (drop n r) < length r" using next_token_bounds[OF less.prems(1) False, of isLetter isDigit] n False by simp
    from less.hyps[OF this less.prems(1) emit_ok[OF less.prems(2)], of k "string_of_runes (take n r)"]
    obtain ts where ts: "highlight_loop isLetter isDigit l (drop n r) (emit_token k (string_of_runes (take n r)) out) = Some ts"
      "texts ts = texts out @ string_of_runes (take n r) @ string_of_runes (drop n r)" "tokens_ok ts" by (auto simp: emit_texts)
    have "string_of_runes (take n r) @ string_of_runes (drop n r) = string_of_runes r"
      by (simp add: string_of_runes_def flip: concat_append map_append)
    then show ?thesis using ts False n by (subst highlight_loop.simps) simp
  qed
qed

text \<open>Coloring keeps the text. For every language name and every text of valid UTF-8 the lexer returns, its tokens put together are the
  text, none is empty and no two neighbors have the same kind; whatever counts as a letter or a digit.\<close>

theorem Highlight_keeps_text:
  assumes "valid_utf8 src"
  shows "\<exists>ts. Highlight isLetter isDigit toLower lang src = Some ts \<and> concat (map tok_Text ts) = src \<and> tokens_ok ts"
  using highlight_returns[OF langs_ok, of "[]" isLetter isDigit "toLower (TrimSpace lang)" "runes src"] string_of_runes_runes[OF assms]
  by (simp add: Highlight_def texts_def tokens_ok_def)

theorem Highlight_keeps_text_witness:
  "\<exists>ts. Highlight (\<lambda>r. 97 \<le> r \<and> r \<le> 122) (\<lambda>r. 48 \<le> r \<and> r \<le> 57) id ''go'' ''if x'' = Some ts \<and> concat (map tok_Text ts) = ''if x''"
proof -
  have "valid_utf8 ''if x''" by code_simp
  from Highlight_keeps_text[OF this] show ?thesis by blast
qed

text \<open>A byte that is not UTF-8 is not kept: the lexer gives the replacement character in its place, three bytes for one.\<close>

theorem Highlight_replaces_bytes:
  "\<exists>ts. Highlight isLetter isDigit toLower lang [CHR 0xFF] = Some ts \<and> concat (map tok_Text ts) = [CHR 0xEF, CHR 0xBF, CHR 0xBD]"
proof -
  have "runes [CHR 0xFF] = [rune_error]" by (simp add: runes_Cons_simp rune_size_def decode_rune_def)
  moreover have "string_of_runes [rune_error] = [CHR 0xEF, CHR 0xBF, CHR 0xBD]"
    by (simp add: string_of_runes_def encode_rune_def encode_bytes_def valid_rune_def char_of_def bit_Suc_0_iff)
  ultimately have "string_of_runes (runes [CHR 0xFF]) = [CHR 0xEF, CHR 0xBF, CHR 0xBD]" by simp
  then show ?thesis using highlight_returns[OF langs_ok, of "[]" isLetter isDigit "toLower (TrimSpace lang)" "runes [CHR 0xFF]"]
    by (auto simp: Highlight_def texts_def tokens_ok_def)
qed

end
