(* ===== verification/Mentions.thy ===== *)
theory Mentions
  imports Roles RuneText
begin

text \<open>
  Who a comment mentions: collaboration-service's internal/mention and the resolution of handles to members of the page's space
  (wsapi/mentions.go, Members of roles/resolver.go). \<open>strings.ToLower\<close> and the names of people are arguments.
\<close>

subsection \<open>Handles in a text\<close>

definition handleRune :: "nat \<Rightarrow> bool" where
  "handleRune r \<longleftrightarrow> 97 \<le> r \<and> r \<le> 122 \<or> 65 \<le> r \<and> r \<le> 90 \<or> 48 \<le> r \<and> r \<le> 57 \<or> r = 46 \<or> r = 95 \<or> r = 45"

definition Normalize :: "(string \<Rightarrow> string) \<Rightarrow> string \<Rightarrow> string" where
  "Normalize toLower s = toLower (filter (\<lambda>c. c \<noteq> CHR '' '') s)"

text \<open>\<open>strings.TrimRight(h, ".-_")\<close>.\<close>

definition trim_tail :: "string \<Rightarrow> string" where
  "trim_tail h = rev (dropWhile (\<lambda>c. c \<in> set ''.-_'') (rev h))"

text \<open>The rest of the runes, and whether the rune before them may stand in a handle.\<close>

function parse_loop :: "(string \<Rightarrow> string) \<Rightarrow> bool \<Rightarrow> nat list \<Rightarrow> string list \<Rightarrow> string list" where
  "parse_loop toLower glued [] out = out"
| "parse_loop toLower glued (r # rs) out =
     (if r \<noteq> 64 then parse_loop toLower (handleRune r) rs out
      else if glued then parse_loop toLower False rs out
      else let run = takeWhile handleRune rs; h = Normalize toLower (trim_tail (string_of_runes run))
        in parse_loop toLower (run \<noteq> []) (dropWhile handleRune rs) (if h = [] \<or> h \<in> set out then out else out @ [h]))"
  by pat_completeness auto
termination by (relation "measure (\<lambda>(l, g, rs, out). length rs)") (auto simp: le_imp_less_Suc length_dropWhile_le)

definition Parse :: "(string \<Rightarrow> string) \<Rightarrow> string \<Rightarrow> string list" where
  "Parse toLower body = parse_loop toLower False (runes body) []"

text \<open>A run of handle runes right after an @ that does not follow one.\<close>

definition handle_run :: "bool \<Rightarrow> nat list \<Rightarrow> nat list \<Rightarrow> bool" where
  "handle_run glued rs run \<longleftrightarrow> (\<exists>xs ys. rs = xs @ 64 # run @ ys \<and> (if xs = [] then \<not> glued else \<not> handleRune (last xs)) \<and>
     (\<forall>r \<in> set run. handleRune r) \<and> (ys \<noteq> [] \<longrightarrow> \<not> handleRune (hd ys)))"

lemma handle_run_Cons:
  "handle_run glued (r # rs) run \<longleftrightarrow> (r = 64 \<and> \<not> glued \<and> run = takeWhile handleRune rs) \<or> handle_run (handleRune r) rs run"
proof
  assume "handle_run glued (r # rs) run"
  then obtain xs ys where x: "r # rs = xs @ 64 # run @ ys" "if xs = [] then \<not> glued else \<not> handleRune (last xs)"
    "\<forall>r \<in> set run. handleRune r" "ys \<noteq> [] \<longrightarrow> \<not> handleRune (hd ys)" by (auto simp: handle_run_def)
  show "(r = 64 \<and> \<not> glued \<and> run = takeWhile handleRune rs) \<or> handle_run (handleRune r) rs run"
  proof (cases xs)
    case Nil
    then have "rs = run @ ys" using x(1) by simp
    moreover have "takeWhile handleRune (run @ ys) = run" using x(3,4) by (cases ys) (auto simp: takeWhile_append)
    ultimately show ?thesis using Nil x by auto
  next
    case (Cons z zs)
    then have "handle_run (handleRune r) rs run" unfolding handle_run_def using x by (intro exI[of _ zs] exI[of _ ys]) (auto split: if_splits)
    then show ?thesis ..
  qed
next
  assume "(r = 64 \<and> \<not> glued \<and> run = takeWhile handleRune rs) \<or> handle_run (handleRune r) rs run"
  then show "handle_run glued (r # rs) run"
  proof
    assume a: "r = 64 \<and> \<not> glued \<and> run = takeWhile handleRune rs"
    have "dropWhile handleRune rs \<noteq> [] \<longrightarrow> \<not> handleRune (hd (dropWhile handleRune rs))" using hd_dropWhile by blast
    then show ?thesis unfolding handle_run_def using a
      by (intro exI[of _ "[]"] exI[of _ "dropWhile handleRune rs"]) (auto dest: set_takeWhileD)
  next
    assume "handle_run (handleRune r) rs run"
    then obtain xs ys where "rs = xs @ 64 # run @ ys" "if xs = [] then \<not> handleRune r else \<not> handleRune (last xs)"
      "\<forall>r \<in> set run. handleRune r" "ys \<noteq> [] \<longrightarrow> \<not> handleRune (hd ys)" by (auto simp: handle_run_def)
    then show ?thesis unfolding handle_run_def by (intro exI[of _ "r # xs"] exI[of _ ys]) (auto split: if_splits)
  qed
qed

lemma handle_run_skip: "(\<forall>r \<in> set xs. handleRune r) \<Longrightarrow> handle_run glued (xs @ rs) run \<longleftrightarrow> handle_run (if xs = [] then glued else True) rs run"
  by (induction xs arbitrary: glued) (auto simp: handle_run_Cons handleRune_def)

definition handles :: "(string \<Rightarrow> string) \<Rightarrow> bool \<Rightarrow> nat list \<Rightarrow> string set" where
  "handles toLower glued rs = {h. h \<noteq> [] \<and> (\<exists>run. handle_run glued rs run \<and> h = Normalize toLower (trim_tail (string_of_runes run)))}"

lemma parse_loop_handles:
  "set (parse_loop toLower glued rs out) = set out \<union> handles toLower glued rs \<and> (distinct out \<longrightarrow> distinct (parse_loop toLower glued rs out))"
proof (induction toLower glued rs out rule: parse_loop.induct)
  case (1 toLower glued out)
  then show ?case by (simp add: handles_def handle_run_def)
next
  case (2 toLower glued r rs out)
  let ?run = "takeWhile handleRune rs" let ?rest = "dropWhile handleRune rs"
  let ?h = "Normalize toLower (trim_tail (string_of_runes ?run))"
  consider "r \<noteq> 64" | "r = 64" glued | "r = 64" "\<not> glued" by blast
  then show ?case
  proof cases
    case 1
    then show ?thesis using 2(1) by (simp add: handles_def handle_run_Cons)
  next
    case at: 2
    have "\<not> handleRune 64" by (simp add: handleRune_def)
    then show ?thesis using 2(2) at by (simp add: handles_def handle_run_Cons)
  next
    case 3
    let ?out = "if ?h = [] \<or> ?h \<in> set out then out else out @ [?h]"
    have "\<not> handleRune 64" by (simp add: handleRune_def)
    have skip: "handle_run False rs run \<longleftrightarrow> handle_run (?run \<noteq> []) ?rest run" for run
      using handle_run_skip[of ?run False ?rest run] set_takeWhileD by (metis (full_types) takeWhile_dropWhile_id)
    have "handles toLower glued (r # rs) = (if ?h = [] then {} else {?h}) \<union> handles toLower (?run \<noteq> []) ?rest"
      using 3 \<open>\<not> handleRune 64\<close> by (auto simp: handles_def handle_run_Cons skip)
    then show ?thesis using 2(3)[of ?run ?h] 3 by (auto simp: Let_def)
  qed
qed

text \<open>The handles of a comment are found exactly: the runs of handle characters right after an @ that does not follow a word, without the
  punctuation at their end and in lower case, each once.\<close>

theorem Parse_exact:
  "set (Parse toLower body) = handles toLower False (runes body) \<and> distinct (Parse toLower body)"
  using parse_loop_handles[of toLower False "runes body" "[]"] by (simp add: Parse_def)

subsection \<open>Members\<close>

record Mentionable =
  me_UserID :: uuid
  me_DisplayName :: string

text \<open>\<open>None\<close> is an error: the page cannot be read as the actor.\<close>

definition Members :: "(uuid \<Rightarrow> string) \<Rightarrow> member_table \<Rightarrow> page_table \<Rightarrow> auth_db \<Rightarrow> uuid \<Rightarrow> uuid \<Rightarrow> Mentionable list option" where
  "Members displayName mem t db pageID actor =
     (case visible mem t actor pageID of Some e \<Rightarrow> None
      | None \<Rightarrow> (case GetPage t pageID of None \<Rightarrow> None
        | Some page \<Rightarrow> Some (map (\<lambda>m. \<lparr>me_UserID = mb_User m, me_DisplayName = displayName (mb_User m)\<rparr>)
            (filter (\<lambda>m. mb_Space m = SpaceID page) (memberships db)))))"

fun by_handle :: "(string \<Rightarrow> string) \<Rightarrow> Mentionable list \<Rightarrow> (string \<rightharpoonup> uuid) \<Rightarrow> (string \<rightharpoonup> uuid)" where
  "by_handle toLower [] byHandle = byHandle"
| "by_handle toLower (m # ms) byHandle =
     (let h = Normalize toLower (me_DisplayName m)
      in by_handle toLower ms (if h \<noteq> [] \<and> byHandle h = None then byHandle(h \<mapsto> me_UserID m) else byHandle))"

text \<open>The lister gets the page and the author; its error is the result's.\<close>

definition resolveMentions :: "(string \<Rightarrow> string) \<Rightarrow> (uuid \<Rightarrow> uuid \<Rightarrow> Mentionable list option) \<Rightarrow> string \<Rightarrow> uuid \<Rightarrow> uuid \<Rightarrow> uuid list option" where
  "resolveMentions toLower lister body pageID author =
     (let hs = Parse toLower body in
      if hs = [] then Some []
      else case lister pageID author of None \<Rightarrow> None
        | Some members \<Rightarrow> (let byHandle = by_handle toLower members Map.empty
            in Some (filter (\<lambda>i. i \<noteq> author) (List.map_filter byHandle hs))))"

text \<open>The first member who answers to a handle.\<close>

definition answers_to :: "(string \<Rightarrow> string) \<Rightarrow> Mentionable list \<Rightarrow> string \<Rightarrow> uuid option" where
  "answers_to toLower ms h = (if h = [] then None else map_option me_UserID (find (\<lambda>m. Normalize toLower (me_DisplayName m) = h) ms))"

lemma by_handle_first: "by_handle toLower ms byHandle h = (case byHandle h of Some i \<Rightarrow> Some i | None \<Rightarrow> answers_to toLower ms h)"
  by (induction ms arbitrary: byHandle) (auto simp: answers_to_def Let_def split: option.splits)

lemma map_filter_image: "set (List.map_filter f xs) = {y. \<exists>x \<in> set xs. f x = Some y}"
  by (force simp: List.map_filter_def)

lemma answers_member: "answers_to toLower ms h = Some i \<Longrightarrow> \<exists>m \<in> set ms. me_UserID m = i \<and> Normalize toLower (me_DisplayName m) = h"
  by (auto simp: answers_to_def find_Some_iff split: if_splits)

lemma mentioned_people:
  assumes "lister pageID author = Some ms" and "distinct (map me_UserID ms)"
  shows "\<exists>us. resolveMentions toLower lister body pageID author = Some us \<and> distinct us \<and>
    set us = {u. u \<noteq> author \<and> (\<exists>h \<in> handles toLower False (runes body). answers_to toLower ms h = Some u)}"
proof -
  let ?hs = "Parse toLower body" let ?f = "answers_to toLower ms"
  note p = parse_loop_handles[of toLower False "runes body" "[]", folded Parse_def, simplified]
  have f: "by_handle toLower ms Map.empty = ?f" by (rule ext) (simp add: by_handle_first)
  let ?us = "filter (\<lambda>i. i \<noteq> author) (List.map_filter ?f ?hs)"
  have r: "resolveMentions toLower lister body pageID author = Some ?us"
    by (auto simp: resolveMentions_def Let_def assms(1) f List.map_filter_def)
  have inj: "h = k" if two: "?f h = Some u" "?f k = Some u" for h k u
  proof -
    obtain m where m: "m \<in> set ms" "me_UserID m = u" "Normalize toLower (me_DisplayName m) = h" using answers_member[OF two(1)] by blast
    obtain n where n: "n \<in> set ms" "me_UserID n = u" "Normalize toLower (me_DisplayName n) = k" using answers_member[OF two(2)] by blast
    have "m = n" using assms(2) m n by (auto simp: distinct_map dest: inj_onD)
    then show ?thesis using m n by simp
  qed
  have "distinct (List.map_filter ?f hs)" if "distinct hs" for hs
    using that
  proof (induction hs)
    case (Cons h hs)
    then show ?case using inj by (cases "?f h") (auto simp: List.map_filter_simps map_filter_image)
  qed (simp add: List.map_filter_simps)
  then have "distinct ?us" using p by simp
  then show ?thesis using r p by (auto simp: map_filter_image)
qed

text \<open>Whom a comment notifies: the first member of the page's space, other than the author, that answers to one of its handles; nobody
  twice when nobody is a member twice.\<close>

theorem resolveMentions_exact:
  assumes "lister pageID author = Some ms" and "distinct (map me_UserID ms)"
  shows "\<exists>us. resolveMentions toLower lister body pageID author = Some us \<and> distinct us \<and>
    set us = {u. u \<noteq> author \<and> (\<exists>h \<in> handles toLower False (runes body). answers_to toLower ms h = Some u)}"
  using assms by (rule mentioned_people)

subsection \<open>A sample\<close>

lemma ada_runes: "runes ''@ada'' = [64, 97, 100, 97]" "runes ''ada'' = [97, 100, 97]" "valid_utf8 ''ada''"
  by code_simp+

lemma ada_normal: "trim_tail ''ada'' = ''ada''" "Normalize id ''ada'' = ''ada''" "string_of_runes [97, 100, 97] = ''ada''"
  using string_of_runes_runes[OF ada_runes(3)] unfolding ada_runes(2) by (simp_all add: trim_tail_def Normalize_def)

lemma ada_parsed: "Parse id ''@ada'' = [''ada'']"
  by (simp add: Parse_def ada_runes handleRune_def ada_normal)

definition ada_lister :: "uuid \<Rightarrow> uuid \<Rightarrow> Mentionable list option" where
  "ada_lister page author = Some [\<lparr>me_UserID = 2, me_DisplayName = ''ada''\<rparr>]"

lemma ada_resolved: "resolveMentions id ada_lister ''@ada'' page 1 = Some [2]"
  by (simp add: resolveMentions_def ada_parsed ada_lister_def ada_normal List.map_filter_simps)

theorem resolveMentions_exact_witness:
  "2 \<in> {u. u \<noteq> (1 :: uuid) \<and> (\<exists>h \<in> handles id False (runes ''@ada''). answers_to id [\<lparr>me_UserID = 2, me_DisplayName = ''ada''\<rparr>] h = Some u)}"
proof -
  have l: "ada_lister 7 1 = Some [\<lparr>me_UserID = 2, me_DisplayName = ''ada''\<rparr>]" by (simp add: ada_lister_def)
  obtain us where r: "resolveMentions id ada_lister ''@ada'' 7 1 = Some us" and
    s: "set us = {u. u \<noteq> 1 \<and> (\<exists>h \<in> handles id False (runes ''@ada''). answers_to id [\<lparr>me_UserID = 2, me_DisplayName = ''ada''\<rparr>] h = Some u)}"
    using resolveMentions_exact[where toLower = id and body = "''@ada''", of ada_lister 7 1, OF l] by auto
  have "2 \<in> set us" using r by (auto simp: ada_resolved)
  then show ?thesis unfolding s .
qed

end
