(* ===== verification/Notify.thy ===== *)
theory Notify
  imports Blocks MdLex
begin

text \<open>
  notification-service: what becomes a notification (internal/notify/notify.go, subscriber.go), the table of notifications with its
  queries, and the inbox over HTTP (handler.go). A body is what JSON it is: none, or an object of text fields, of which
  \<open>encoding/json\<close> leaves the missing ones zero. Parsing an identifier and verifying a token are arguments; so are the answer of the
  database (\<open>ok\<close>), a drawn identifier, and the order of rows with equal times.
\<close>

datatype body = NotJSON | Object "string \<rightharpoonup> string"

record notification =
  nt_ID :: uuid
  nt_UserID :: uuid
  nt_SourceEventID :: uuid
  nt_Kind :: string
  nt_Message :: string
  nt_ActorID :: "uuid option"
  nt_Pointer :: "body option"
  nt_ReadAt :: "nat option"
  nt_CreatedAt :: nat

type_synonym inbox = "notification list"

subsection \<open>Queries\<close>

text \<open>\<open>Some False\<close> is a known event, on which the statement does nothing; \<open>None\<close> an error.\<close>

definition insert_notification :: "notification \<Rightarrow> inbox \<Rightarrow> bool option \<times> inbox" where
  "insert_notification n t =
     (if nt_SourceEventID n \<in> nt_SourceEventID ` set t then (Some False, t)
      else if nt_ID n \<in> nt_ID ` set t then (None, t)
      else (Some True, t @ [n]))"

definition InsertNotification :: "nat \<Rightarrow> uuid \<Rightarrow> uuid \<Rightarrow> uuid \<Rightarrow> string \<Rightarrow> string \<Rightarrow> inbox \<Rightarrow> bool option \<times> inbox" where
  "InsertNotification now i user source kind message t = insert_notification
     \<lparr>nt_ID = i, nt_UserID = user, nt_SourceEventID = source, nt_Kind = kind, nt_Message = message, nt_ActorID = None,
      nt_Pointer = None, nt_ReadAt = None, nt_CreatedAt = now\<rparr> t"

definition InsertPointerNotification :: "nat \<Rightarrow> uuid \<Rightarrow> uuid \<Rightarrow> uuid \<Rightarrow> string \<Rightarrow> uuid \<Rightarrow> body \<Rightarrow> inbox \<Rightarrow> bool option \<times> inbox" where
  "InsertPointerNotification now i user source kind actor pointer t = insert_notification
     \<lparr>nt_ID = i, nt_UserID = user, nt_SourceEventID = source, nt_Kind = kind, nt_Message = [], nt_ActorID = Some actor,
      nt_Pointer = Some pointer, nt_ReadAt = None, nt_CreatedAt = now\<rparr> t"

definition ListNotificationsForUser :: "(inbox \<Rightarrow> inbox) \<Rightarrow> uuid \<Rightarrow> nat \<Rightarrow> inbox \<Rightarrow> inbox" where
  "ListNotificationsForUser tie user limit t = take limit (rev (sort_key nt_CreatedAt (tie (filter (\<lambda>n. nt_UserID n = user) t))))"

definition update_where :: "(notification \<Rightarrow> bool) \<Rightarrow> nat \<Rightarrow> inbox \<Rightarrow> nat \<times> inbox" where
  "update_where P now t = (length (filter P t), map (\<lambda>n. if P n then n\<lparr>nt_ReadAt := Some now\<rparr> else n) t)"

definition MarkNotificationRead :: "nat \<Rightarrow> uuid \<Rightarrow> uuid \<Rightarrow> inbox \<Rightarrow> nat \<times> inbox" where
  "MarkNotificationRead now i user = update_where (\<lambda>n. nt_ID n = i \<and> nt_UserID n = user \<and> nt_ReadAt n = None) now"

definition MarkAllNotificationsRead :: "nat \<Rightarrow> uuid \<Rightarrow> inbox \<Rightarrow> nat \<times> inbox" where
  "MarkAllNotificationsRead now user = update_where (\<lambda>n. nt_UserID n = user \<and> nt_ReadAt n = None) now"

definition CountUnreadForUser :: "uuid \<Rightarrow> inbox \<Rightarrow> nat" where
  "CountUnreadForUser user t = length (filter (\<lambda>n. nt_UserID n = user \<and> nt_ReadAt n = None) t)"

subsection \<open>Events\<close>

definition KindWelcome :: string where "KindWelcome = ''welcome''"
definition KindMention :: string where "KindMention = ''mention''"
definition KindInvite :: string where "KindInvite = ''invite''"

text \<open>A field of an identifier: zero when it is missing, an error when it does not parse.\<close>

definition uuid_field :: "(string \<Rightarrow> uuid option) \<Rightarrow> (string \<rightharpoonup> string) \<Rightarrow> string \<Rightarrow> uuid option" where
  "uuid_field uparse fs name = (case fs name of None \<Rightarrow> Some 0 | Some s \<Rightarrow> uparse s)"

text \<open>The two fields the handler reads of a \<open>MentionPointer\<close>; the other identifiers must parse too.\<close>

definition decode_MentionPointer :: "(string \<Rightarrow> uuid option) \<Rightarrow> body \<Rightarrow> (uuid \<times> uuid) option" where
  "decode_MentionPointer uparse payload = (case payload of NotJSON \<Rightarrow> None
     | Object fs \<Rightarrow>
       if \<exists>f \<in> {''page_id'', ''block_id'', ''thread_id'', ''comment_id''}. uuid_field uparse fs f = None then None
       else (case (uuid_field uparse fs ''user_id'', uuid_field uparse fs ''actor_id'') of
         (Some user, Some actor) \<Rightarrow> Some (user, actor) | _ \<Rightarrow> None))"

definition decode_InvitePointer :: "(string \<Rightarrow> uuid option) \<Rightarrow> body \<Rightarrow> (uuid \<times> uuid) option" where
  "decode_InvitePointer uparse payload = (case payload of NotJSON \<Rightarrow> None
     | Object fs \<Rightarrow>
       if \<exists>f \<in> {''invitation_id'', ''space_id''}. uuid_field uparse fs f = None then None
       else (case (uuid_field uparse fs ''user_id'', uuid_field uparse fs ''invited_by'') of
         (Some user, Some inviter) \<Rightarrow> Some (user, inviter) | _ \<Rightarrow> None))"

definition decode_UserRegistered :: "(string \<Rightarrow> uuid option) \<Rightarrow> body \<Rightarrow> (uuid \<times> string) option" where
  "decode_UserRegistered uparse payload = (case payload of NotJSON \<Rightarrow> None
     | Object fs \<Rightarrow> map_option (\<lambda>user. (user, case fs ''display_name'' of None \<Rightarrow> [] | Some s \<Rightarrow> s)) (uuid_field uparse fs ''user_id''))"

text \<open>What a call of the repository needs: the time, whether the database answers, and the identifier drawn.\<close>

record call =
  c_now :: nat
  c_ok :: bool
  c_id :: "uuid option"

definition Create_notification :: "call \<Rightarrow> uuid \<Rightarrow> uuid \<Rightarrow> string \<Rightarrow> string \<Rightarrow> inbox \<Rightarrow> bool option \<times> inbox" where
  "Create_notification c user source kind message t = (case c_id c of None \<Rightarrow> (None, t)
     | Some i \<Rightarrow> if c_ok c then InsertNotification (c_now c) i user source kind message t else (None, t))"

definition CreatePointer :: "call \<Rightarrow> uuid \<Rightarrow> uuid \<Rightarrow> uuid \<Rightarrow> string \<Rightarrow> body \<Rightarrow> inbox \<Rightarrow> bool option \<times> inbox" where
  "CreatePointer c user source actor kind pointer t = (case c_id c of None \<Rightarrow> (None, t)
     | Some i \<Rightarrow> if c_ok c then InsertPointerNotification (c_now c) i user source kind actor pointer t else (None, t))"

text \<open>Whether the handler returned without error, and the table.\<close>

definition HandleMention :: "(string \<Rightarrow> uuid option) \<Rightarrow> call \<Rightarrow> uuid \<Rightarrow> body \<Rightarrow> inbox \<Rightarrow> bool \<times> inbox" where
  "HandleMention uparse c eventID payload t = (case decode_MentionPointer uparse payload of None \<Rightarrow> (False, t)
     | Some (user, actor) \<Rightarrow> if user = 0 then (False, t)
       else apfst (\<lambda>r. r \<noteq> None) (CreatePointer c user eventID actor KindMention payload t))"

definition HandleInvite :: "(string \<Rightarrow> uuid option) \<Rightarrow> call \<Rightarrow> uuid \<Rightarrow> body \<Rightarrow> inbox \<Rightarrow> bool \<times> inbox" where
  "HandleInvite uparse c eventID payload t = (case decode_InvitePointer uparse payload of None \<Rightarrow> (False, t)
     | Some (user, inviter) \<Rightarrow> if user = 0 then (False, t)
       else apfst (\<lambda>r. r \<noteq> None) (CreatePointer c user eventID inviter KindInvite payload t))"

definition HandleUserRegistered :: "(string \<Rightarrow> uuid option) \<Rightarrow> call \<Rightarrow> uuid \<Rightarrow> body \<Rightarrow> inbox \<Rightarrow> bool \<times> inbox" where
  "HandleUserRegistered uparse c eventID payload t = (case decode_UserRegistered uparse payload of None \<Rightarrow> (False, t)
     | Some (user, name) \<Rightarrow>
       apfst (\<lambda>r. r \<noteq> None) (Create_notification c user eventID KindWelcome (''Welcome to Marginal, '' @ name @ ''!'') t))"

text \<open>A message of the bus: its subject and its envelope, if it decodes.\<close>

datatype subject = UserRegistered | CommentMentioned | MemberInvited

record notify_event =
  wi_ID :: uuid
  wi_Payload :: body

type_synonym message = "subject \<times> notify_event option"

definition on_message :: "(string \<Rightarrow> uuid option) \<Rightarrow> call \<times> message \<Rightarrow> inbox \<Rightarrow> inbox" where
  "on_message uparse m t = (case m of (c, subj, None) \<Rightarrow> t
     | (c, UserRegistered, Some e) \<Rightarrow> snd (HandleUserRegistered uparse c (wi_ID e) (wi_Payload e) t)
     | (c, CommentMentioned, Some e) \<Rightarrow> snd (HandleMention uparse c (wi_ID e) (wi_Payload e) t)
     | (c, MemberInvited, Some e) \<Rightarrow> snd (HandleInvite uparse c (wi_ID e) (wi_Payload e) t))"

subsection \<open>The inbox\<close>

datatype 'a reply = Unauthorized | BadRequest | InternalError | Answer 'a

definition actorFrom :: "(string \<Rightarrow> string \<Rightarrow> bool) \<Rightarrow> (string \<Rightarrow> uuid option) \<Rightarrow> string \<Rightarrow> uuid option" where
  "actorFrom EqualFold verify h =
     (if length h \<le> 7 \<or> \<not> EqualFold (take 7 h) ''Bearer '' then None else verify (TrimSpace (drop 7 h)))"

text \<open>The list and the number of unread rows are two statements, each on the table it finds.\<close>

definition list_inbox :: "(inbox \<Rightarrow> inbox) \<Rightarrow> uuid option \<Rightarrow> inbox option \<Rightarrow> inbox option \<Rightarrow> (inbox \<times> nat) reply" where
  "list_inbox tie actor t1 t2 = (case actor of None \<Rightarrow> Unauthorized
     | Some user \<Rightarrow> (case t1 of None \<Rightarrow> InternalError
       | Some t1 \<Rightarrow> (case t2 of None \<Rightarrow> InternalError
         | Some t2 \<Rightarrow> Answer (ListNotificationsForUser tie user 50 t1, CountUnreadForUser user t2))))"

definition markRead :: "(string \<Rightarrow> uuid option) \<Rightarrow> bool \<Rightarrow> nat \<Rightarrow> uuid option \<Rightarrow> string \<Rightarrow> inbox \<Rightarrow> nat reply \<times> inbox" where
  "markRead uparse ok now actor idText t = (case actor of None \<Rightarrow> (Unauthorized, t)
     | Some user \<Rightarrow> (case uparse idText of None \<Rightarrow> (BadRequest, t)
       | Some i \<Rightarrow> if ok then (let (n, t') = MarkNotificationRead now i user t in (Answer n, t')) else (InternalError, t)))"

definition markAllRead :: "bool \<Rightarrow> nat \<Rightarrow> uuid option \<Rightarrow> inbox \<Rightarrow> nat reply \<times> inbox" where
  "markAllRead ok now actor t = (case actor of None \<Rightarrow> (Unauthorized, t)
     | Some user \<Rightarrow> if ok then (let (n, t') = MarkAllNotificationsRead now user t in (Answer n, t')) else (InternalError, t))"

subsection \<open>Once for each event\<close>

definition inbox_ok :: "inbox \<Rightarrow> bool" where
  "inbox_ok t \<longleftrightarrow> distinct (map nt_SourceEventID t) \<and> distinct (map nt_ID t)"

lemma insert_inbox_ok: "inbox_ok t \<Longrightarrow> inbox_ok (snd (insert_notification n t))"
  by (auto simp: inbox_ok_def insert_notification_def)

text \<open>The row a message asks for.\<close>

definition row_of :: "(string \<Rightarrow> uuid option) \<Rightarrow> call \<times> message \<Rightarrow> notification option" where
  "row_of uparse m = (case m of (c, subj, e) \<Rightarrow> (case (c_id c, e) of
       (Some i, Some e) \<Rightarrow>
         if \<not> c_ok c then None
         else (case subj of
             UserRegistered \<Rightarrow> map_option (\<lambda>(user, name). \<lparr>nt_ID = i, nt_UserID = user, nt_SourceEventID = wi_ID e, nt_Kind = KindWelcome,
               nt_Message = ''Welcome to Marginal, '' @ name @ ''!'', nt_ActorID = None, nt_Pointer = None, nt_ReadAt = None,
               nt_CreatedAt = c_now c\<rparr>) (decode_UserRegistered uparse (wi_Payload e))
           | CommentMentioned \<Rightarrow> (case decode_MentionPointer uparse (wi_Payload e) of None \<Rightarrow> None
               | Some (user, actor) \<Rightarrow> if user = 0 then None else Some \<lparr>nt_ID = i, nt_UserID = user, nt_SourceEventID = wi_ID e,
                   nt_Kind = KindMention, nt_Message = [], nt_ActorID = Some actor, nt_Pointer = Some (wi_Payload e), nt_ReadAt = None,
                   nt_CreatedAt = c_now c\<rparr>)
           | MemberInvited \<Rightarrow> (case decode_InvitePointer uparse (wi_Payload e) of None \<Rightarrow> None
               | Some (user, actor) \<Rightarrow> if user = 0 then None else Some \<lparr>nt_ID = i, nt_UserID = user, nt_SourceEventID = wi_ID e,
                   nt_Kind = KindInvite, nt_Message = [], nt_ActorID = Some actor, nt_Pointer = Some (wi_Payload e), nt_ReadAt = None,
                   nt_CreatedAt = c_now c\<rparr>))
     | _ \<Rightarrow> None))"

lemma on_message_row: "on_message uparse m t = (case row_of uparse m of None \<Rightarrow> t | Some n \<Rightarrow> snd (insert_notification n t))"
  by (auto simp: on_message_def row_of_def HandleUserRegistered_def HandleMention_def HandleInvite_def Create_notification_def CreatePointer_def
      InsertNotification_def InsertPointerNotification_def apfst_def map_prod_def split: option.splits prod.splits subject.splits)

text \<open>Inserting rows whose identities are new keeps the first of each event.\<close>

lemma insert_rows:
  assumes "distinct (map nt_ID ns)" and "nt_ID ` set ns \<inter> nt_ID ` set t = {}"
  shows "filter (\<lambda>n. nt_SourceEventID n = s) (fold (\<lambda>n t. snd (insert_notification n t)) ns t) =
    (if s \<in> nt_SourceEventID ` set t then filter (\<lambda>n. nt_SourceEventID n = s) t
     else take 1 (filter (\<lambda>n. nt_SourceEventID n = s) ns))"
  using assms
proof (induction ns arbitrary: t)
  case Nil
  then show ?case by (auto simp: filter_empty_conv)
next
  case (Cons n ns)
  let ?t = "snd (insert_notification n t)"
  have t: "?t = (if nt_SourceEventID n \<in> nt_SourceEventID ` set t then t else t @ [n])" using Cons.prems(2) by (auto simp: insert_notification_def)
  have "nt_ID ` set ns \<inter> nt_ID ` set ?t = {}" using Cons.prems unfolding t by auto
  then have ih: "filter (\<lambda>n. nt_SourceEventID n = s) (fold (\<lambda>n t. snd (insert_notification n t)) ns ?t) =
    (if s \<in> nt_SourceEventID ` set ?t then filter (\<lambda>n. nt_SourceEventID n = s) ?t
     else take 1 (filter (\<lambda>n. nt_SourceEventID n = s) ns))" using Cons.IH Cons.prems(1) by simp
  show ?case
  proof (cases "nt_SourceEventID n \<in> nt_SourceEventID ` set t")
    case True
    then have tt: "snd (insert_notification n t) = t" by (simp add: t)
    then show ?thesis using ih True by (auto simp: tt)
  next
    case False
    then have tt: "snd (insert_notification n t) = t @ [n]" by (simp add: t)
    have "filter (\<lambda>n. nt_SourceEventID n = s) t = []" if "s = nt_SourceEventID n" using that False by (metis (mono_tags, lifting) filter_empty_conv image_eqI)
    then show ?thesis using ih False by (auto simp: tt)
  qed
qed

lemma row_of_id: "row_of uparse m = Some n \<Longrightarrow> c_id (fst m) = Some (nt_ID n)"
  by (auto simp: row_of_def split: option.splits prod.splits subject.splits if_splits)

lemma map_filter_Cons: "List.map_filter f (x # xs) = (case f x of None \<Rightarrow> List.map_filter f xs | Some y \<Rightarrow> y # List.map_filter f xs)"
  by (auto simp: List.map_filter_def split: option.split)

lemma map_filter_Nil: "List.map_filter f [] = []"
  by (simp add: List.map_filter_def)

lemma rows_distinct:
  "distinct (List.map_filter (c_id \<circ> fst) ms) \<Longrightarrow> distinct (map nt_ID (List.map_filter (row_of uparse) ms)) \<and>
    nt_ID ` set (List.map_filter (row_of uparse) ms) \<subseteq> set (List.map_filter (c_id \<circ> fst) ms)"
proof (induction ms)
  case (Cons m ms)
  then show ?case using row_of_id[of uparse m] by (auto simp: map_filter_Cons split: option.splits)
qed (simp add: map_filter_Nil)

lemma fold_messages: "fold (on_message uparse) ms t = fold (\<lambda>n t. snd (insert_notification n t)) (List.map_filter (row_of uparse) ms) t"
  by (induction ms arbitrary: t) (simp_all add: map_filter_Nil map_filter_Cons on_message_row split: option.split)

lemma notified_rows:
  assumes "distinct (List.map_filter (c_id \<circ> fst) ms)"
  shows "filter (\<lambda>n. nt_SourceEventID n = s) (fold (on_message uparse) ms []) =
    take 1 (filter (\<lambda>n. nt_SourceEventID n = s) (List.map_filter (row_of uparse) ms))"
  using insert_rows[of "List.map_filter (row_of uparse) ms" "[]" s] rows_distinct[OF assms, of uparse] by (simp add: fold_messages)

text \<open>C32: one notification for each event. Whatever messages arrive, however often and in whatever order, for each event the table holds
  the row of the first message of that event that could be stored, and nothing else.\<close>

theorem notified_once:
  assumes "distinct (List.map_filter (c_id \<circ> fst) ms)"
  shows "filter (\<lambda>n. nt_SourceEventID n = s) (fold (on_message uparse) ms []) =
    take 1 (filter (\<lambda>n. nt_SourceEventID n = s) (List.map_filter (row_of uparse) ms))"
  by (rule notified_rows[OF assms])

text \<open>A registration that arrives twice.\<close>

definition letter_ids :: "string \<Rightarrow> uuid option" where
  "letter_ids s = (case s of [c] \<Rightarrow> Some (of_nat (of_char c)) | _ \<Rightarrow> None)"

definition registered :: "nat \<Rightarrow> uuid \<Rightarrow> call \<times> message" where
  "registered now i = (\<lparr>c_now = now, c_ok = True, c_id = Some i\<rparr>, UserRegistered,
     Some \<lparr>wi_ID = 7, wi_Payload = Object [''user_id'' \<mapsto> ''A'', ''display_name'' \<mapsto> ''Ada'']\<rparr>)"

theorem notified_once_witness: "length (filter (\<lambda>n. nt_SourceEventID n = 7) (fold (on_message letter_ids) [registered 1 1, registered 2 2] [])) = 1"
proof -
  have "distinct (List.map_filter (c_id \<circ> fst) [registered 1 1, registered 2 2])" by code_simp
  from notified_once[OF this, of 7 letter_ids] show ?thesis
    by (simp add: map_filter_Cons map_filter_Nil row_of_def registered_def decode_UserRegistered_def uuid_field_def letter_ids_def)
qed

subsection \<open>Whose inbox it is\<close>

definition own_rows :: "uuid \<Rightarrow> inbox \<Rightarrow> inbox" where
  "own_rows user t = filter (\<lambda>n. nt_UserID n = user) t"

lemma update_where_own:
  assumes "\<And>n. P n \<Longrightarrow> nt_UserID n = user"
  shows "fst (update_where P now (own_rows user t)) = fst (update_where P now t)"
    and "filter (\<lambda>n. nt_UserID n \<noteq> user) (snd (update_where P now t)) = filter (\<lambda>n. nt_UserID n \<noteq> user) t"
proof -
  have "filter P (filter (\<lambda>n. nt_UserID n = user) t) = filter P t" using assms by (induction t) auto
  then show "fst (update_where P now (own_rows user t)) = fst (update_where P now t)" by (simp add: update_where_def own_rows_def)
  show "filter (\<lambda>n. nt_UserID n \<noteq> user) (snd (update_where P now t)) = filter (\<lambda>n. nt_UserID n \<noteq> user) t"
    using assms by (induction t) (auto simp: update_where_def)
qed

text \<open>C34: an inbox is private. What a person is answered depends on that person's rows only, and the two acts change no row of
  anybody else.\<close>

theorem inbox_private:
  "list_inbox tie (Some user) (Some t1) (Some t2) = list_inbox tie (Some user) (Some (own_rows user t1)) (Some (own_rows user t2)) \<and>
   fst (markRead uparse ok now (Some user) idText t) = fst (markRead uparse ok now (Some user) idText (own_rows user t)) \<and>
   fst (markAllRead ok now (Some user) t) = fst (markAllRead ok now (Some user) (own_rows user t)) \<and>
   filter (\<lambda>n. nt_UserID n \<noteq> user) (snd (markRead uparse ok now (Some user) idText t)) = filter (\<lambda>n. nt_UserID n \<noteq> user) t \<and>
   filter (\<lambda>n. nt_UserID n \<noteq> user) (snd (markAllRead ok now (Some user) t)) = filter (\<lambda>n. nt_UserID n \<noteq> user) t"
proof -
  have one: "fst (MarkNotificationRead now i user (own_rows user t)) = fst (MarkNotificationRead now i user t)"
    "filter (\<lambda>n. nt_UserID n \<noteq> user) (snd (MarkNotificationRead now i user t)) = filter (\<lambda>n. nt_UserID n \<noteq> user) t" for i
    unfolding MarkNotificationRead_def by (rule update_where_own; simp)+
  have all: "fst (MarkAllNotificationsRead now user (own_rows user t)) = fst (MarkAllNotificationsRead now user t)"
    "filter (\<lambda>n. nt_UserID n \<noteq> user) (snd (MarkAllNotificationsRead now user t)) = filter (\<lambda>n. nt_UserID n \<noteq> user) t"
    unfolding MarkAllNotificationsRead_def by (rule update_where_own; simp)+
  have "list_inbox tie (Some user) (Some t1) (Some t2) = list_inbox tie (Some user) (Some (own_rows user t1)) (Some (own_rows user t2))"
    by (simp add: list_inbox_def ListNotificationsForUser_def CountUnreadForUser_def own_rows_def conj_ac cong: conj_cong)
  then show ?thesis using one all by (simp add: markRead_def markAllRead_def Let_def case_prod_beta split: option.split)
qed

text \<open>Reading is final. A second click changes nothing and answers zero, and after "mark all" nothing is unread.\<close>

theorem reading_idempotent:
  "MarkNotificationRead now' i user (snd (MarkNotificationRead now i user t)) = (0, snd (MarkNotificationRead now i user t)) \<and>
   CountUnreadForUser user (snd (MarkAllNotificationsRead now user t)) = 0"
proof -
  have again: "update_where P now' (snd (update_where P now t)) = (0, snd (update_where P now t))"
    if "\<And>n. P n \<Longrightarrow> \<not> P (n\<lparr>nt_ReadAt := Some now\<rparr>)" for P
    using that by (auto simp: update_where_def filter_empty_conv)
  have "CountUnreadForUser user (snd (MarkAllNotificationsRead now user t)) = 0"
    by (auto simp: CountUnreadForUser_def MarkAllNotificationsRead_def update_where_def filter_empty_conv)
  then show ?thesis unfolding MarkNotificationRead_def by (intro conjI again) auto
qed

text \<open>The list and the badge can disagree. A notification that arrives between the two statements is counted but not listed.\<close>

theorem badge_ahead_of_list:
  "list_inbox id (Some 65) (Some []) (Some (on_message letter_ids (registered 1 1) [])) = Answer ([], 1)"
  by (simp add: list_inbox_def ListNotificationsForUser_def CountUnreadForUser_def on_message_row row_of_def registered_def
      decode_UserRegistered_def uuid_field_def letter_ids_def insert_notification_def)

end
