(* ===== verification/Comments.thy ===== *)
theory Comments
  imports Mentions Notify OpStore PageServerLaws "HOL-Library.Multiset"
begin

text \<open>
  Threads of comments beside a page: collaboration-service's wsapi/comments.go and wsapi/mentions.go with their queries. A thread
  holds the anchors of its extent as the JSON that was sent; decoding one is an argument. Rows of
  the outbox that announce mentions are kept by themselves here. The handlers get the verified actor of the token.
\<close>

record thread_row =
  th_ID :: uuid
  th_Page :: uuid
  th_Block :: uuid
  th_Start :: string
  th_End :: string
  th_Quoted :: string
  th_ResolvedAt :: "nat option"
  th_ResolvedBy :: "uuid option"
  th_CreatedBy :: uuid
  th_CreatedAt :: nat

record comment_row =
  co_ID :: uuid
  co_Thread :: uuid
  co_Author :: uuid
  co_Body :: string
  co_CreatedAt :: nat

record mention_row =
  mr_ID :: uuid
  mr_Aggregate :: uuid
  mr_Payload :: body

record comments_db =
  threads :: "thread_row list"
  comments :: "comment_row list"
  mention_events :: "mention_row list"

subsection \<open>Queries\<close>

text \<open>\<open>None\<close> is an error: a key that is taken, a column that is null, a thread that is not there.\<close>

definition CreateThread :: "nat \<Rightarrow> uuid \<Rightarrow> uuid \<Rightarrow> uuid \<Rightarrow> string option \<Rightarrow> string option \<Rightarrow> string \<Rightarrow> uuid \<Rightarrow> comments_db \<Rightarrow> comments_db option" where
  "CreateThread now i page block start end quoted author db =
     (case (start, end) of
        (Some a, Some b) \<Rightarrow>
          if i \<in> th_ID ` set (threads db) then None
          else Some (db\<lparr>threads := threads db @ [\<lparr>th_ID = i, th_Page = page, th_Block = block, th_Start = a, th_End = b, th_Quoted = quoted,
            th_ResolvedAt = None, th_ResolvedBy = None, th_CreatedBy = author, th_CreatedAt = now\<rparr>]\<rparr>)
      | _ \<Rightarrow> None)"

definition new_comment :: "nat \<Rightarrow> uuid \<Rightarrow> uuid \<Rightarrow> uuid \<Rightarrow> string \<Rightarrow> comment_row" where
  "new_comment now i thread author body = \<lparr>co_ID = i, co_Thread = thread, co_Author = author, co_Body = body, co_CreatedAt = now\<rparr>"

definition AddComment :: "nat \<Rightarrow> uuid \<Rightarrow> uuid \<Rightarrow> uuid \<Rightarrow> string \<Rightarrow> comments_db \<Rightarrow> comments_db option" where
  "AddComment now i thread author body db =
     (if i \<in> co_ID ` set (comments db) \<or> thread \<notin> th_ID ` set (threads db) then None
      else Some (db\<lparr>comments := comments db @ [new_comment now i thread author body]\<rparr>))"

definition GetThread :: "uuid \<Rightarrow> comments_db \<Rightarrow> thread_row option" where
  "GetThread i db = find (\<lambda>t. th_ID t = i) (threads db)"

definition latest_first :: "(thread_row list \<Rightarrow> thread_row list) \<Rightarrow> thread_row list \<Rightarrow> thread_row list" where
  "latest_first tie ts = rev (sort_key th_CreatedAt (tie ts))"

definition ThreadsForPage :: "(thread_row list \<Rightarrow> thread_row list) \<Rightarrow> uuid \<Rightarrow> comments_db \<Rightarrow> thread_row list" where
  "ThreadsForPage tie page db =
     (let ts = filter (\<lambda>t. th_Page t = page) (threads db)
      in latest_first tie (filter (\<lambda>t. th_ResolvedAt t = None) ts) @ latest_first tie (filter (\<lambda>t. th_ResolvedAt t \<noteq> None) ts))"

definition CommentsForPage :: "(comment_row list \<Rightarrow> comment_row list) \<Rightarrow> uuid \<Rightarrow> comments_db \<Rightarrow> comment_row list" where
  "CommentsForPage tie page db = sort_key co_CreatedAt (tie (filter (\<lambda>c. \<exists>t \<in> set (threads db). th_ID t = co_Thread c \<and> th_Page t = page) (comments db)))"

definition update_threads :: "(thread_row \<Rightarrow> bool) \<Rightarrow> (thread_row \<Rightarrow> thread_row) \<Rightarrow> comments_db \<Rightarrow> comments_db" where
  "update_threads P f db = db\<lparr>threads := map (\<lambda>t. if P t then f t else t) (threads db)\<rparr>"

definition ResolveThread :: "nat \<Rightarrow> uuid \<Rightarrow> uuid \<Rightarrow> comments_db \<Rightarrow> comments_db" where
  "ResolveThread now i actor = update_threads (\<lambda>t. th_ID t = i \<and> th_ResolvedAt t = None)
     (\<lambda>t. t\<lparr>th_ResolvedAt := Some now, th_ResolvedBy := Some actor\<rparr>)"

definition ReopenThread :: "uuid \<Rightarrow> comments_db \<Rightarrow> comments_db" where
  "ReopenThread i = update_threads (\<lambda>t. th_ID t = i \<and> th_ResolvedAt t \<noteq> None) (\<lambda>t. t\<lparr>th_ResolvedAt := None, th_ResolvedBy := None\<rparr>)"

subsection \<open>Mentions\<close>

record mentionPayload =
  mp_PageID :: uuid
  mp_BlockID :: uuid
  mp_ThreadID :: uuid
  mp_CommentID :: uuid
  mp_ActorID :: uuid
  mp_UserID :: uuid

definition payload_json :: "(uuid \<Rightarrow> string) \<Rightarrow> mentionPayload \<Rightarrow> body" where
  "payload_json ustr p = Object [''page_id'' \<mapsto> ustr (mp_PageID p), ''block_id'' \<mapsto> ustr (mp_BlockID p), ''thread_id'' \<mapsto> ustr (mp_ThreadID p),
     ''comment_id'' \<mapsto> ustr (mp_CommentID p), ''actor_id'' \<mapsto> ustr (mp_ActorID p), ''user_id'' \<mapsto> ustr (mp_UserID p)]"

text \<open>The identifiers of the rows are drawn as they are written.\<close>

fun writeMentionEvents :: "(uuid \<Rightarrow> string) \<Rightarrow> uuid list \<Rightarrow> uuid list \<Rightarrow> mentionPayload \<Rightarrow> comments_db \<Rightarrow> comments_db option" where
  "writeMentionEvents ustr ids [] p db = Some db"
| "writeMentionEvents ustr ids (u # us) p db =
     (let i = hd ids in
      if i \<in> mr_ID ` set (mention_events db) then None
      else writeMentionEvents ustr (tl ids) us p
        (db\<lparr>mention_events := mention_events db @ [\<lparr>mr_ID = i, mr_Aggregate = mp_PageID p, mr_Payload = payload_json ustr (p\<lparr>mp_UserID := u\<rparr>)\<rparr>]\<rparr>))"

text \<open>A handler without a lister resolves nobody, and an error is logged only.\<close>

definition mentionsIn :: "(string \<Rightarrow> string) \<Rightarrow> (uuid \<Rightarrow> uuid \<Rightarrow> Mentionable list option) option \<Rightarrow> string \<Rightarrow> uuid \<Rightarrow> uuid \<Rightarrow> uuid list" where
  "mentionsIn toLower members body pageID author = (case members of None \<Rightarrow> []
     | Some lister \<Rightarrow> (case resolveMentions toLower lister body pageID author of None \<Rightarrow> [] | Some us \<Rightarrow> us))"

subsection \<open>Handlers\<close>

text \<open>A status other than success, or success with its answer.\<close>

datatype 'a http = Status nat | OK 'a

record open_body =
  ob_BlockID :: string
  ob_AnchorStart :: "string option"
  ob_AnchorEnd :: "string option"
  ob_Quoted :: string
  ob_Body :: string

text \<open>What a request is given: the time, what becomes of its transaction, the identifiers drawn.\<close>

record request =
  rq_now :: nat
  rq_call :: db_call
  rq_thread :: uuid
  rq_comment :: uuid
  rq_events :: "uuid list"

definition committed :: "db_call \<Rightarrow> 'a \<Rightarrow> comments_db option \<Rightarrow> comments_db \<Rightarrow> 'a http \<times> comments_db" where
  "committed c answer tx db = (case c of Refused k \<Rightarrow> (Status 500, db)
     | Served \<Rightarrow> (case tx of None \<Rightarrow> (Status 500, db) | Some db' \<Rightarrow> (OK answer, db'))
     | ReplyLost \<Rightarrow> (case tx of None \<Rightarrow> (Status 500, db) | Some db' \<Rightarrow> (Status 500, db')))"

record codec =
  cd_parse :: "string \<Rightarrow> uuid option"
  cd_print :: "uuid \<Rightarrow> string"
  cd_lower :: "string \<Rightarrow> string"

definition open_thread :: "codec \<Rightarrow> (uuid \<Rightarrow> uuid \<Rightarrow> Mentionable list option) option \<Rightarrow> request \<Rightarrow> string \<Rightarrow> uuid option \<Rightarrow> open_body option
    \<Rightarrow> comments_db \<Rightarrow> comment_row http \<times> comments_db" where
  "open_thread cd members rq idText actor reqbody db =
     (case cd_parse cd idText of None \<Rightarrow> (Status 400, db)
      | Some page \<Rightarrow>
     (case actor of None \<Rightarrow> (Status 401, db)
      | Some author \<Rightarrow>
     (case reqbody of None \<Rightarrow> (Status 400, db)
      | Some b \<Rightarrow>
     (case cd_parse cd (ob_BlockID b) of None \<Rightarrow> (Status 400, db)
      | Some block \<Rightarrow>
        if ob_Body b = [] then (Status 400, db)
        else
          (let mentioned = mentionsIn (cd_lower cd) members (ob_Body b) page author;
               p = \<lparr>mp_PageID = page, mp_BlockID = block, mp_ThreadID = rq_thread rq, mp_CommentID = rq_comment rq, mp_ActorID = author, mp_UserID = 0\<rparr>
           in committed (rq_call rq) (new_comment (rq_now rq) (rq_comment rq) (rq_thread rq) author (ob_Body b))
             (Option.bind (CreateThread (rq_now rq) (rq_thread rq) page block (ob_AnchorStart b) (ob_AnchorEnd b) (ob_Quoted b) author db)
               (\<lambda>db. Option.bind (AddComment (rq_now rq) (rq_comment rq) (rq_thread rq) author (ob_Body b) db)
                 (writeMentionEvents (cd_print cd) (rq_events rq) mentioned p))) db)))))"

definition reply_thread :: "codec \<Rightarrow> (uuid \<Rightarrow> uuid \<Rightarrow> Mentionable list option) option \<Rightarrow> request \<Rightarrow> string \<Rightarrow> uuid option \<Rightarrow> string option
    \<Rightarrow> comments_db \<Rightarrow> comment_row http \<times> comments_db" where
  "reply_thread cd members rq idText actor reqbody db =
     (case cd_parse cd idText of None \<Rightarrow> (Status 400, db)
      | Some thread \<Rightarrow>
     (case actor of None \<Rightarrow> (Status 401, db)
      | Some author \<Rightarrow>
     (case reqbody of None \<Rightarrow> (Status 400, db)
      | Some b \<Rightarrow>
        if b = [] then (Status 400, db)
        else (case GetThread thread db of None \<Rightarrow> (Status 404, db)
          | Some t \<Rightarrow>
            (let mentioned = mentionsIn (cd_lower cd) members b (th_Page t) author;
                 p = \<lparr>mp_PageID = th_Page t, mp_BlockID = th_Block t, mp_ThreadID = thread, mp_CommentID = rq_comment rq, mp_ActorID = author, mp_UserID = 0\<rparr>
             in committed (rq_call rq) (new_comment (rq_now rq) (rq_comment rq) thread author b)
               (Option.bind (AddComment (rq_now rq) (rq_comment rq) thread author b db)
                 (writeMentionEvents (cd_print cd) (rq_events rq) mentioned p)) db)))))"

definition setResolved :: "codec \<Rightarrow> request \<Rightarrow> string \<Rightarrow> uuid option \<Rightarrow> bool \<Rightarrow> comments_db \<Rightarrow> unit http \<times> comments_db" where
  "setResolved cd rq idText actor resolved db =
     (case cd_parse cd idText of None \<Rightarrow> (Status 400, db)
      | Some thread \<Rightarrow>
     (case actor of None \<Rightarrow> (Status 401, db)
      | Some a \<Rightarrow> committed (rq_call rq) ()
          (Some (if resolved then ResolveThread (rq_now rq) thread a db else ReopenThread thread db)) db))"

record threadJSON =
  tj_Thread :: thread_row
  tj_Range :: "(int \<times> int) option"
  tj_Orphaned :: bool
  tj_Comments :: "comment_row list"

text \<open>The columns a thread is shown with are those of its row. A thread whose anchors do not decode is passed over.\<close>

definition show_thread :: "(string \<Rightarrow> Anchor option) \<Rightarrow> Session \<Rightarrow> comment_row list \<Rightarrow> thread_row \<Rightarrow> threadJSON option" where
  "show_thread decode sess cs t = (case (decode (th_Start t), decode (th_End t)) of
      (Some a, Some b) \<Rightarrow> (case ResolveRange sess (th_Block t) \<lparr>RStart = a, REnd = b\<rparr> of (s, e, ok) \<Rightarrow>
        Some \<lparr>tj_Thread = t, tj_Range = (if ok then Some (s, e) else None), tj_Orphaned = (\<not> ok), tj_Comments = filter (\<lambda>c. co_Thread c = th_ID t) cs\<rparr>)
    | _ \<Rightarrow> None)"

definition list_threads :: "codec \<Rightarrow> (string \<Rightarrow> Anchor option) \<Rightarrow> (thread_row list \<Rightarrow> thread_row list) \<Rightarrow> (comment_row list \<Rightarrow> comment_row list) \<Rightarrow>
    Session option \<Rightarrow> string \<Rightarrow> comments_db option \<Rightarrow> comments_db option \<Rightarrow> threadJSON list http" where
  "list_threads cd decode tie tie' sess idText db1 db2 =
     (case cd_parse cd idText of None \<Rightarrow> Status 400
      | Some page \<Rightarrow>
     (case db1 of None \<Rightarrow> Status 500
      | Some db1 \<Rightarrow>
     (case db2 of None \<Rightarrow> Status 500
      | Some db2 \<Rightarrow>
     (case sess of None \<Rightarrow> Status 500
      | Some s \<Rightarrow> OK (List.map_filter (show_thread decode s (CommentsForPage tie' page db2)) (ThreadsForPage tie page db1))))))"

subsection \<open>A mention reaches its person\<close>

lemma uuid_fields:
  assumes "\<And>u. uparse (ustr u) = Some u"
  shows "decode_MentionPointer uparse (payload_json ustr p) = Some (mp_UserID p, mp_ActorID p)"
  by (simp add: decode_MentionPointer_def payload_json_def uuid_field_def assms)

definition mention_rows :: "(uuid \<Rightarrow> string) \<Rightarrow> mentionPayload \<Rightarrow> (uuid \<times> uuid) list \<Rightarrow> mention_row list" where
  "mention_rows ustr p ps = map (\<lambda>(i, u). \<lparr>mr_ID = i, mr_Aggregate = mp_PageID p, mr_Payload = payload_json ustr (p\<lparr>mp_UserID := u\<rparr>)\<rparr>) ps"

lemma written_rows:
  "writeMentionEvents ustr ids us p db = Some db' \<Longrightarrow> length us \<le> length ids \<Longrightarrow>
    mention_events db' = mention_events db @ mention_rows ustr p (zip ids us) \<and> threads db' = threads db \<and> comments db' = comments db \<and>
    distinct (take (length us) ids) \<and> set (take (length us) ids) \<inter> mr_ID ` set (mention_events db) = {}"
proof (induction ids us arbitrary: db rule: list_induct2')
  case (4 i ids u us)
  then show ?case by (auto simp: mention_rows_def Let_def split: if_splits dest!: "4.IH")
qed (auto simp: mention_rows_def)

text \<open>The message the poller makes of a row. The bus may lose, repeat and reorder messages (core NATS does not deliver again), but it makes up
  no message that bears the identity of a row. A message has arrived when a handler got it while the table answered.\<close>

definition envelope :: "mention_row \<Rightarrow> message" where
  "envelope r = (CommentMentioned, Some \<lparr>wi_ID = mr_ID r, wi_Payload = mr_Payload r\<rparr>)"

definition genuine :: "mention_row set \<Rightarrow> (call \<times> message) list \<Rightarrow> bool" where
  "genuine rows ms \<longleftrightarrow> distinct (List.map_filter (c_id \<circ> fst) ms) \<and>
     (\<forall>(c, m) \<in> set ms. case snd m of None \<Rightarrow> True | Some e \<Rightarrow> wi_ID e \<in> mr_ID ` rows \<longrightarrow> m \<in> envelope ` rows)"

definition arrived :: "(call \<times> message) list \<Rightarrow> mention_row \<Rightarrow> bool" where
  "arrived ms r \<longleftrightarrow> (\<exists>c. (c, envelope r) \<in> set ms \<and> c_ok c \<and> c_id c \<noteq> None)"

lemma map_filter_set: "set (List.map_filter f xs) = {y. \<exists>x \<in> set xs. f x = Some y}"
  by (rule map_filter_image)

lemma row_of_source: "row_of uparse (c, m) = Some n \<Longrightarrow> \<exists>e. snd m = Some e \<and> wi_ID e = nt_SourceEventID n"
  by (cases m) (auto simp: row_of_def split: option.splits subject.splits if_splits)

lemma arrived_one:
  assumes "genuine rows ms" and "r \<in> rows" and "\<forall>q \<in> rows. mr_ID q = mr_ID r \<longrightarrow> q = r"
    and "decode_MentionPointer uparse (mr_Payload r) = Some (user, actor)" and "user \<noteq> 0"
  shows "if arrived ms r then \<exists>n. filter (\<lambda>n. nt_SourceEventID n = mr_ID r) (fold (on_message uparse) ms []) = [n] \<and> nt_UserID n = user
    else filter (\<lambda>n. nt_SourceEventID n = mr_ID r) (fold (on_message uparse) ms []) = []"
proof -
  let ?rows = "filter (\<lambda>n. nt_SourceEventID n = mr_ID r) (List.map_filter (row_of uparse) ms)"
  have users: "nt_UserID n = user \<and> arrived ms r" if mem: "n \<in> set ?rows" for n
  proof -
    obtain c m where m: "(c, m) \<in> set ms" "row_of uparse (c, m) = Some n" "nt_SourceEventID n = mr_ID r"
      using mem by (auto simp: map_filter_set)
    obtain e where e: "snd m = Some e" "wi_ID e = mr_ID r" using row_of_source[OF m(2)] m(3) by auto
    have "case snd m of None \<Rightarrow> True | Some e \<Rightarrow> wi_ID e \<in> mr_ID ` rows \<longrightarrow> m \<in> envelope ` rows"
      using assms(1) m(1) unfolding genuine_def by blast
    then obtain q where q: "q \<in> rows" "m = envelope q" using e assms(2) by auto
    then have "mr_ID q = mr_ID r" using e by (cases e) (auto simp: envelope_def)
    then have r: "m = envelope r" using q assms(3) by blast
    have "c_ok c \<and> c_id c \<noteq> None" using m(2) unfolding r by (auto simp: row_of_def envelope_def split: option.splits if_splits)
    then have "arrived ms r" using m(1) r unfolding arrived_def by blast
    moreover have "nt_UserID n = user" using r m(2) assms(4,5) by (auto simp: row_of_def envelope_def split: option.splits if_splits)
    ultimately show ?thesis by blast
  qed
  have one: "filter (\<lambda>n. nt_SourceEventID n = mr_ID r) (fold (on_message uparse) ms []) = take 1 ?rows"
    using notified_rows assms(1) unfolding genuine_def by blast
  show ?thesis
  proof (cases "arrived ms r")
    case True
    then obtain c where c: "(c, envelope r) \<in> set ms" "c_ok c" "c_id c \<noteq> None" unfolding arrived_def by blast
    then obtain n where n: "row_of uparse (c, envelope r) = Some n" "nt_SourceEventID n = mr_ID r"
      using assms(4,5) by (auto simp: row_of_def envelope_def)
    have "n \<in> set ?rows" using n c(1) by (auto simp: map_filter_set)
    then obtain k ks where k: "?rows = k # ks" by (cases ?rows) auto
    then show ?thesis using one users[of k] True by simp
  next
    case False
    then have "?rows = []" using users by (metis list.set_intros(1) neq_Nil_conv)
    then show ?thesis using one False by simp
  qed
qed

lemma count_by_source:
  assumes "distinct (map fst ps)" and "\<And>i u. (i, u) \<in> set ps \<Longrightarrow>
    if P i then \<exists>n. filter (\<lambda>n. nt_SourceEventID n = i) t = [n] \<and> nt_UserID n = u else filter (\<lambda>n. nt_SourceEventID n = i) t = []"
  shows "length (filter (\<lambda>n. nt_UserID n = u \<and> nt_SourceEventID n \<in> fst ` set ps) t) = length (filter (\<lambda>p. snd p = u \<and> P (fst p)) ps)"
  using assms
proof (induction ps)
  case (Cons p ps)
  obtain i v where p: "p = (i, v)" by fastforce
  have n: "if P i then \<exists>n. filter (\<lambda>n. nt_SourceEventID n = i) t = [n] \<and> nt_UserID n = v else filter (\<lambda>n. nt_SourceEventID n = i) t = []"
    using Cons.prems(2)[of i v] p by simp
  have split: "length (filter (\<lambda>n. nt_UserID n = u \<and> nt_SourceEventID n \<in> insert i S) t) =
      length (filter (\<lambda>n. nt_UserID n = u) (filter (\<lambda>n. nt_SourceEventID n = i) t)) + length (filter (\<lambda>n. nt_UserID n = u \<and> nt_SourceEventID n \<in> S) t)"
    if "i \<notin> S" for S using that by (induction t) auto
  have fresh: "i \<notin> fst ` set ps" using Cons.prems(1) p by simp
  have ih: "length (filter (\<lambda>n. nt_UserID n = u \<and> nt_SourceEventID n \<in> fst ` set ps) t) = length (filter (\<lambda>p. snd p = u \<and> P (fst p)) ps)"
    by (rule Cons.IH) (use Cons.prems(1) in simp, rule Cons.prems(2), simp)
  have "length (filter (\<lambda>n. nt_UserID n = u) (filter (\<lambda>n. nt_SourceEventID n = i) t)) = (if v = u \<and> P i then 1 else 0)"
    using n by (cases "P i") (auto simp del: filter_filter)
  then show ?case using split[OF fresh] ih p by simp
qed simp

text \<open>A comment was taken: it opened a thread on the page or answers one.\<close>

definition commented :: "codec \<Rightarrow> (uuid \<Rightarrow> uuid \<Rightarrow> Mentionable list option) option \<Rightarrow> request \<Rightarrow> uuid \<Rightarrow> uuid \<Rightarrow> string \<Rightarrow> comments_db \<Rightarrow> comments_db \<Rightarrow> bool" where
  "commented cd members rq author page remark_text db db' \<longleftrightarrow>
     (\<exists>idText b c. cd_parse cd idText = Some page \<and> ob_Body b = remark_text \<and>
        open_thread cd members rq idText (Some author) (Some b) db = (OK c, db')) \<or>
     (\<exists>idText i t c. cd_parse cd idText = Some i \<and> GetThread i db = Some t \<and> th_Page t = page \<and>
        reply_thread cd members rq idText (Some author) (Some remark_text) db = (OK c, db'))"

lemma opened_writes:
  assumes "open_thread cd members rq idText (Some author) (Some b) db = (OK c, db')" and "cd_parse cd idText = Some page"
  shows "\<exists>p d. mp_ActorID p = author \<and> mention_events d = mention_events db \<and>
    writeMentionEvents (cd_print cd) (rq_events rq) (mentionsIn (cd_lower cd) members (ob_Body b) page author) p d = Some db'"
proof -
  obtain block where block: "cd_parse cd (ob_BlockID b) = Some block" "ob_Body b \<noteq> []" "rq_call rq = Served"
    using assms by (auto simp: open_thread_def committed_def Let_def split: option.splits if_splits db_call.splits)
  let ?p = "\<lparr>mp_PageID = page, mp_BlockID = block, mp_ThreadID = rq_thread rq, mp_CommentID = rq_comment rq, mp_ActorID = author, mp_UserID = 0\<rparr>"
  let ?us = "mentionsIn (cd_lower cd) members (ob_Body b) page author"
  have "Option.bind (CreateThread (rq_now rq) (rq_thread rq) page block (ob_AnchorStart b) (ob_AnchorEnd b) (ob_Quoted b) author db)
      (\<lambda>db. Option.bind (AddComment (rq_now rq) (rq_comment rq) (rq_thread rq) author (ob_Body b) db)
        (writeMentionEvents (cd_print cd) (rq_events rq) ?us ?p)) = Some db'"
    using assms block by (simp add: open_thread_def committed_def Let_def split: option.splits)
  then obtain d1 d2 where d: "CreateThread (rq_now rq) (rq_thread rq) page block (ob_AnchorStart b) (ob_AnchorEnd b) (ob_Quoted b) author db = Some d1"
    "AddComment (rq_now rq) (rq_comment rq) (rq_thread rq) author (ob_Body b) d1 = Some d2"
    "writeMentionEvents (cd_print cd) (rq_events rq) ?us ?p d2 = Some db'" by (auto simp: Option.bind_eq_Some_conv)
  then have "mention_events d2 = mention_events db"
    by (auto simp: CreateThread_def AddComment_def split: option.splits if_splits)
  then show ?thesis using d(3) by (intro exI[of _ ?p] exI[of _ d2]) simp
qed

lemma replied_writes:
  assumes "reply_thread cd members rq idText (Some author) (Some b) db = (OK c, db')" and "cd_parse cd idText = Some i" and "GetThread i db = Some t"
  shows "\<exists>p d. mp_ActorID p = author \<and> mention_events d = mention_events db \<and>
    writeMentionEvents (cd_print cd) (rq_events rq) (mentionsIn (cd_lower cd) members b (th_Page t) author) p d = Some db'"
proof -
  have b: "b \<noteq> []" "rq_call rq = Served"
    using assms by (auto simp: reply_thread_def committed_def Let_def split: option.splits if_splits db_call.splits)
  let ?p = "\<lparr>mp_PageID = th_Page t, mp_BlockID = th_Block t, mp_ThreadID = i, mp_CommentID = rq_comment rq, mp_ActorID = author, mp_UserID = 0\<rparr>"
  have "Option.bind (AddComment (rq_now rq) (rq_comment rq) i author b db)
      (writeMentionEvents (cd_print cd) (rq_events rq) (mentionsIn (cd_lower cd) members b (th_Page t) author) ?p) = Some db'"
    using assms b by (simp add: reply_thread_def committed_def Let_def split: option.splits)
  then obtain d where d: "AddComment (rq_now rq) (rq_comment rq) i author b db = Some d"
    "writeMentionEvents (cd_print cd) (rq_events rq) (mentionsIn (cd_lower cd) members b (th_Page t) author) ?p d = Some db'"
    by (auto simp: Option.bind_eq_Some_conv)
  then have "mention_events d = mention_events db" by (auto simp: AddComment_def split: if_splits)
  then show ?thesis using d(2) by (intro exI[of _ ?p] exI[of _ d]) simp
qed

lemma commented_writes:
  assumes "commented cd members rq author page remark_text db db'"
  shows "\<exists>p d. mp_ActorID p = author \<and> mention_events d = mention_events db \<and>
    writeMentionEvents (cd_print cd) (rq_events rq) (mentionsIn (cd_lower cd) members remark_text page author) p d = Some db'"
  using assms unfolding commented_def
proof (elim disjE exE conjE)
  fix idText b c
  assume "cd_parse cd idText = Some page" "ob_Body b = remark_text" "open_thread cd members rq idText (Some author) (Some b) db = (OK c, db')"
  then show ?thesis using opened_writes[of cd members rq idText author b db c db' page] by simp
next
  fix idText i t c
  assume "cd_parse cd idText = Some i" "GetThread i db = Some t" "th_Page t = page" "reply_thread cd members rq idText (Some author) (Some remark_text) db = (OK c, db')"
  then show ?thesis using replied_writes[of cd members rq idText author remark_text db c db' i t] by simp
qed

text \<open>The members the lister names: nobody without a lister or when it fails.\<close>

definition listed_members :: "(uuid \<Rightarrow> uuid \<Rightarrow> Mentionable list option) option \<Rightarrow> uuid \<Rightarrow> uuid \<Rightarrow> Mentionable list" where
  "listed_members members page author = (case members of None \<Rightarrow> []
     | Some lister \<Rightarrow> (case lister page author of None \<Rightarrow> [] | Some ms \<Rightarrow> ms))"

text \<open>Whom a text mentions.\<close>

definition mentions_person :: "codec \<Rightarrow> Mentionable list \<Rightarrow> string \<Rightarrow> uuid \<Rightarrow> uuid \<Rightarrow> bool" where
  "mentions_person cd ms remark_text author u \<longleftrightarrow>
     u \<noteq> author \<and> (\<exists>h \<in> handles (cd_lower cd) False (runes remark_text). answers_to (cd_lower cd) ms h = Some u)"

lemma mentionsIn_people:
  assumes "distinct (map me_UserID (listed_members members page author))"
  shows "distinct (mentionsIn (cd_lower cd) members body page author) \<and>
    set (mentionsIn (cd_lower cd) members body page author) = Collect (mentions_person cd (listed_members members page author) body author)"
proof (cases "\<exists>lister ms. members = Some lister \<and> lister page author = Some ms")
  case True
  then obtain lister ms where m: "members = Some lister" "lister page author = Some ms" by blast
  then have l: "listed_members members page author = ms" by (simp add: listed_members_def)
  obtain us where us: "resolveMentions (cd_lower cd) lister body page author = Some us" "distinct us"
    "set us = {u. u \<noteq> author \<and> (\<exists>h \<in> handles (cd_lower cd) False (runes body). answers_to (cd_lower cd) ms h = Some u)}"
    using mentioned_people[of lister page author ms "cd_lower cd" body] m(2) assms l by blast
  then show ?thesis unfolding l mentions_person_def by (simp add: mentionsIn_def m)
next
  case False
  then have l: "listed_members members page author = []" by (auto simp: listed_members_def split: option.split)
  have "mentionsIn (cd_lower cd) members body page author = []"
    using False by (auto simp: mentionsIn_def resolveMentions_def Let_def split: option.split)
  moreover have "\<not> mentions_person cd [] body author u" for u by (simp add: mentions_person_def answers_to_def)
  ultimately show ?thesis by (simp add: l)
qed

lemma distinct_filter_one: "distinct xs \<Longrightarrow> length (filter P xs) = (if \<exists>x \<in> set xs. P x then 1 else 0)"
  if "\<And>x y. x \<in> set xs \<Longrightarrow> y \<in> set xs \<Longrightarrow> P x \<Longrightarrow> P y \<Longrightarrow> x = y"
  using that by (induction xs) (auto simp: filter_empty_conv)

text \<open>C31: a mention reaches the person mentioned, once, if its message does. When a comment was taken, be it a new thread or an answer, the
  outbox has a row for exactly the people its text mentions among the members the lister named (none when it failed). However the
  bus loses, repeats and mixes messages, a person has one notification of the comment when the message of the row for that person
  arrived, and none otherwise. Members are listed once and not with the zero identity, each row drew an identity, and the bus makes
  up no message of a row.\<close>

theorem mention_reaches_person:
  assumes "commented cd members rq author page remark_text db db'" and "ms = listed_members members page author"
    and "\<And>u. cd_parse cd (cd_print cd u) = Some u" and "distinct (map me_UserID ms)" and "0 \<notin> me_UserID ` set ms" and "length ms \<le> length (rq_events rq)"
    and "rows = set (mention_events db') - set (mention_events db)" and "genuine rows messages"
  shows "((\<exists>r \<in> rows. decode_MentionPointer (cd_parse cd) (mr_Payload r) = Some (u, author)) \<longleftrightarrow> mentions_person cd ms remark_text author u) \<and>
    length (filter (\<lambda>n. nt_UserID n = u \<and> nt_SourceEventID n \<in> mr_ID ` rows) (fold (on_message (cd_parse cd)) messages [])) =
      (if \<exists>r \<in> rows. decode_MentionPointer (cd_parse cd) (mr_Payload r) = Some (u, author) \<and> arrived messages r then 1 else 0)"
proof -
  define us where "us = mentionsIn (cd_lower cd) members remark_text page author"
  have us: "distinct us" "set us = Collect (mentions_person cd ms remark_text author)"
    using mentionsIn_people[of members page author cd remark_text] assms(2,4) by (simp_all add: us_def)
  have members: "set us \<subseteq> me_UserID ` set ms" using us(2) answers_member by (fastforce simp: mentions_person_def)
  then have "length us \<le> length ms" using us(1) by (metis card_mono distinct_card finite_imageI List.finite_set card_image_le length_map le_trans card_length)
  then have len: "length us \<le> length (rq_events rq)" using assms(6) by simp
  obtain p d where w: "mp_ActorID p = author" "mention_events d = mention_events db" "writeMentionEvents (cd_print cd) (rq_events rq) us p d = Some db'"
    using commented_writes[OF assms(1)] us_def by blast
  define ps where "ps = zip (rq_events rq) us" let ?rows = "mention_rows (cd_print cd) p ps"
  note wr = written_rows[OF w(3) len, folded ps_def]
  have ids: "map fst ps = take (length us) (rq_events rq)" "map snd ps = us" using len by (simp_all add: ps_def map_fst_zip_take map_snd_zip_take)
  have rid: "mr_ID ` set ?rows = fst ` set ps" by (force simp: mention_rows_def)
  have new: "rows = set ?rows"
  proof -
    have "mr_ID ` set ?rows \<inter> mr_ID ` set (mention_events db) = {}" unfolding rid using wr w(2) ids by (metis list.set_map)
    then have "set ?rows \<inter> set (mention_events db) = {}" by blast
    then show ?thesis using wr w(2) assms(7) by auto
  qed
  define row where "row = (\<lambda>(i, v). \<lparr>mr_ID = i, mr_Aggregate = mp_PageID p, mr_Payload = payload_json (cd_print cd) (p\<lparr>mp_UserID := v\<rparr>)\<rparr>)"
  have rows: "rows = row ` set ps" unfolding new by (auto simp: mention_rows_def row_def)
  have rf: "mr_ID (row q) = fst q" "decode_MentionPointer (cd_parse cd) (mr_Payload (row q)) = Some (snd q, author)" for q
    using uuid_fields[of "cd_parse cd" "cd_print cd"] assms(3) w(1) by (simp_all add: row_def split: prod.split)
  have dist: "distinct (map fst ps)" "distinct (map snd ps)" using wr ids us(1) by simp_all
  have fst_eq: "q = q'" if "q \<in> set ps" "q' \<in> set ps" "fst q = fst q'" for q q' using dist(1) that by (auto simp: distinct_map dest: inj_onD)
  have snd_eq: "q = q'" if "q \<in> set ps" "q' \<in> set ps" "snd q = snd q'" for q q' using dist(2) that by (auto simp: distinct_map dest: inj_onD)
  let ?P = "\<lambda>i. \<exists>q \<in> set ps. fst q = i \<and> arrived messages (row q)"
  have one: "if ?P i then \<exists>n. filter (\<lambda>n. nt_SourceEventID n = i) (fold (on_message (cd_parse cd)) messages []) = [n] \<and> nt_UserID n = v
      else filter (\<lambda>n. nt_SourceEventID n = i) (fold (on_message (cd_parse cd)) messages []) = []" if iv: "(i, v) \<in> set ps" for i v
  proof -
    have p: "?P i \<longleftrightarrow> arrived messages (row (i, v))" using fst_eq[OF _ iv] iv by (metis fst_conv)
    have r: "row (i, v) \<in> rows" using iv unfolding rows by blast
    have u: "\<forall>q \<in> rows. mr_ID q = mr_ID (row (i, v)) \<longrightarrow> q = row (i, v)"
      unfolding rows using fst_eq[OF _ iv] by (auto simp: rf(1))
    have v: "v \<noteq> 0" using iv members assms(5) set_zip_rightD unfolding ps_def by fast
    have d: "decode_MentionPointer (cd_parse cd) (mr_Payload (row (i, v))) = Some (v, author)" and k: "mr_ID (row (i, v)) = i"
      using rf[of "(i, v)"] by simp_all
    show ?thesis using arrived_one[OF assms(8) r u d v] unfolding k p .
  qed
  have person: "(\<exists>r \<in> rows. decode_MentionPointer (cd_parse cd) (mr_Payload r) = Some (u, author) \<and> Q r) \<longleftrightarrow> (\<exists>q \<in> set ps. snd q = u \<and> Q (row q))" for Q
    unfolding rows by (simp add: rf)
  have "length (filter (\<lambda>n. nt_UserID n = u \<and> nt_SourceEventID n \<in> fst ` set ps) (fold (on_message (cd_parse cd)) messages [])) =
      length (filter (\<lambda>q. snd q = u \<and> ?P (fst q)) ps)"
    by (rule count_by_source) (use dist one in simp_all)
  also have "\<dots> = (if \<exists>q \<in> set ps. snd q = u \<and> ?P (fst q) then 1 else 0)"
    by (rule distinct_filter_one) (use dist snd_eq in \<open>auto simp: distinct_map\<close>)
  also have "(\<exists>q \<in> set ps. snd q = u \<and> ?P (fst q)) \<longleftrightarrow> (\<exists>q \<in> set ps. snd q = u \<and> arrived messages (row q))"
    using fst_eq by metis
  finally have count: "length (filter (\<lambda>n. nt_UserID n = u \<and> nt_SourceEventID n \<in> mr_ID ` rows) (fold (on_message (cd_parse cd)) messages [])) =
      (if \<exists>q \<in> set ps. snd q = u \<and> arrived messages (row q) then 1 else 0)" unfolding new rid .
  have "set us = snd ` set ps" unfolding ids(2)[symmetric] by simp
  then have "(\<exists>q \<in> set ps. snd q = u) \<longleftrightarrow> u \<in> set us" by auto
  then have "(\<exists>r \<in> rows. decode_MentionPointer (cd_parse cd) (mr_Payload r) = Some (u, author)) \<longleftrightarrow> mentions_person cd ms remark_text author u"
    using person[of "\<lambda>_. True"] us(2) by simp
  then show ?thesis using count person[of "arrived messages"] by simp
qed

text \<open>Identifiers written in unary, and a comment for the one member of its space.\<close>

definition unary_codec :: codec where
  "unary_codec = \<lparr>cd_parse = (\<lambda>s. Some (of_nat (length s))), cd_print = (\<lambda>u. replicate (unat u) CHR ''i''), cd_lower = id\<rparr>"

definition to_ada :: open_body where
  "to_ada = \<lparr>ob_BlockID = ''i'', ob_AnchorStart = Some ''5'', ob_AnchorEnd = Some ''6'', ob_Quoted = ''this'', ob_Body = ''@ada''\<rparr>"

definition sample_request :: request where
  "sample_request = \<lparr>rq_now = 1, rq_call = Served, rq_thread = 3, rq_comment = 4, rq_events = [5]\<rparr>"

definition sample_mention :: mention_row where
  "sample_mention = \<lparr>mr_ID = 5, mr_Aggregate = 7, mr_Payload = payload_json (cd_print unary_codec)
     \<lparr>mp_PageID = 7, mp_BlockID = 1, mp_ThreadID = 3, mp_CommentID = 4, mp_ActorID = 1, mp_UserID = 2\<rparr>\<rparr>"

definition empty_comments :: comments_db where
  "empty_comments = \<lparr>threads = [], comments = [], mention_events = []\<rparr>"

definition twice_carried :: "(call \<times> message) list" where
  "twice_carried = [(\<lparr>c_now = 2, c_ok = True, c_id = Some 10\<rparr>, envelope sample_mention), (\<lparr>c_now = 3, c_ok = True, c_id = Some 11\<rparr>, envelope sample_mention)]"

lemma unary_parses:
  "cd_parse unary_codec ''i'' = Some 1" "cd_parse unary_codec ''iiiiiii'' = Some 7" "cd_lower unary_codec = id"
  by (simp_all add: unary_codec_def)

lemma sample_opened:
  "\<exists>c db'. open_thread unary_codec (Some ada_lister) sample_request ''iiiiiii'' (Some 1) (Some to_ada) empty_comments = (OK c, db') \<and>
    set (mention_events db') - set (mention_events empty_comments) = {sample_mention}"
proof -
  have m: "mentionsIn (cd_lower unary_codec) (Some ada_lister) (ob_Body to_ada) 7 1 = [2]"
    by (simp add: mentionsIn_def unary_parses to_ada_def ada_resolved)
  let ?p = "\<lparr>mp_PageID = 7, mp_BlockID = 1, mp_ThreadID = 3, mp_CommentID = 4, mp_ActorID = 1, mp_UserID = 0\<rparr>"
  obtain d where c: "CreateThread 1 3 7 1 (Some ''5'') (Some ''6'') ''this'' 1 empty_comments = Some d" "mention_events d = []"
      "comments d = []" "3 \<in> th_ID ` set (threads d)" by (simp add: CreateThread_def empty_comments_def)
  obtain e where a: "AddComment 1 4 3 1 ''@ada'' d = Some e" "mention_events e = []" using c by (simp add: AddComment_def)
  have w: "writeMentionEvents (cd_print unary_codec) [5] [2] ?p e = Some (e\<lparr>mention_events := [sample_mention]\<rparr>)"
    using a(2) by (simp add: sample_mention_def)
  have "open_thread unary_codec (Some ada_lister) sample_request ''iiiiiii'' (Some 1) (Some to_ada) empty_comments =
      (OK (new_comment 1 4 3 1 ''@ada''), e\<lparr>mention_events := [sample_mention]\<rparr>)"
    using m c(1) a(1) w by (simp add: open_thread_def unary_parses committed_def Let_def) (simp add: to_ada_def sample_request_def unary_parses committed_def)
  then show ?thesis by (simp add: empty_comments_def)
qed

theorem mention_reaches_person_witness:
  "length (filter (\<lambda>n. nt_UserID n = 2 \<and> nt_SourceEventID n = 5) (fold (on_message (cd_parse unary_codec)) twice_carried [])) = 1"
proof -
  obtain c db' where o1: "open_thread unary_codec (Some ada_lister) sample_request ''iiiiiii'' (Some 1) (Some to_ada) empty_comments = (OK c, db')"
    and new: "set (mention_events db') - set (mention_events empty_comments) = {sample_mention}" using sample_opened by blast
  let ?ms = "[\<lparr>me_UserID = 2, me_DisplayName = ''ada''\<rparr>]"
  have r: "cd_parse unary_codec (cd_print unary_codec u) = Some u" for u by (simp add: unary_codec_def)
  have t: "commented unary_codec (Some ada_lister) sample_request 1 7 ''@ada'' empty_comments db'"
    unfolding commented_def using o1 unary_parses(2) by (intro disjI1 exI[of _ "''iiiiiii''"] exI[of _ to_ada] exI[of _ c]) (simp add: to_ada_def)
  have l: "?ms = listed_members (Some ada_lister) 7 1" by (simp add: ada_lister_def listed_members_def)
  have g: "genuine {sample_mention} twice_carried"
    by (auto simp: genuine_def twice_carried_def map_filter_Cons map_filter_Nil envelope_def)
  have d: "decode_MentionPointer (cd_parse unary_codec) (mr_Payload sample_mention) = Some (2, 1)"
    using uuid_fields[OF r] by (simp add: sample_mention_def)
  have a: "arrived twice_carried sample_mention"
    unfolding arrived_def by (intro exI[of _ "\<lparr>c_now = 2, c_ok = True, c_id = Some 10\<rparr>"]) (simp add: twice_carried_def)
  from mention_reaches_person[OF t l r _ _ _ new[symmetric] g, of 2] d a
  show ?thesis by (simp add: sample_request_def sample_mention_def)
qed

subsection \<open>Who may comment\<close>

text \<open>C36: nothing asks whether the author of a comment may see the page. A person to whom document-service does not show the page, and who is
  not admitted to it, opens a thread on it, and only the mentions in the text are dropped.\<close>

theorem outsider_comments:
  assumes "visible mem t author page = Some e" and "cd_parse cd idText = Some page" and "cd_parse cd (ob_BlockID b) = Some block"
    and "ob_Body b \<noteq> []" and "ob_AnchorStart b = Some x" and "ob_AnchorEnd b = Some y" and "rq_call rq = Served"
    and "rq_thread rq \<notin> th_ID ` set (threads db)" and "rq_comment rq \<notin> co_ID ` set (comments db)"
  shows "fst (join now mem t adb page author dir) = ServiceUnavailable \<and>
    (\<exists>c db'. open_thread cd (Some (Members names mem t adb)) rq idText (Some author) (Some b) db = (OK c, db') \<and>
      rq_thread rq \<in> th_ID ` set (ThreadsForPage id page db') \<and> mention_events db' = mention_events db)"
proof -
  have "Members names mem t adb page author = None" using assms(1) by (simp add: Members_def)
  then have "mentionsIn (cd_lower cd) (Some (Members names mem t adb)) (ob_Body b) page author = []"
    by (simp add: mentionsIn_def resolveMentions_def Let_def)
  moreover obtain d where c: "CreateThread (rq_now rq) (rq_thread rq) page block (Some x) (Some y) (ob_Quoted b) author db = Some d"
      "mention_events d = mention_events db" "comments d = comments db" "\<exists>r \<in> set (threads d). th_ID r = rq_thread rq \<and> th_Page r = page"
    using assms(8) by (simp add: CreateThread_def)
  moreover obtain e where a: "AddComment (rq_now rq) (rq_comment rq) (rq_thread rq) author (ob_Body b) d = Some e"
      "mention_events e = mention_events db" "threads e = threads d"
  proof -
    have "rq_thread rq \<in> th_ID ` set (threads d)" using c(4) by (metis image_eqI)
    then show thesis using that c assms(9) by (simp add: AddComment_def)
  qed
  ultimately have "open_thread cd (Some (Members names mem t adb)) rq idText (Some author) (Some b) db =
      (OK (new_comment (rq_now rq) (rq_comment rq) (rq_thread rq) author (ob_Body b)), e)"
    using assms(2-7) by (simp add: open_thread_def committed_def Let_def)
  moreover have "rq_thread rq \<in> th_ID ` set (ThreadsForPage id page e)"
  proof -
    obtain r where r: "r \<in> set (threads e)" "th_ID r = rq_thread rq" "th_Page r = page" using c(4) a(3) by auto
    then have "r \<in> set (ThreadsForPage id page e)"
      by (cases "th_ResolvedAt r") (auto simp: ThreadsForPage_def latest_first_def Let_def)
    then show ?thesis using r(2) by (metis image_eqI)
  qed
  ultimately show ?thesis using a(2) assms(1) by (simp add: join_def Resolve_def)
qed

definition empty_auth :: auth_db where
  "empty_auth = \<lparr>users = [], spaces = [], memberships = [], invitations = [], outbox = []\<rparr>"

theorem outsider_comments_witness:
  "\<exists>c db'. open_thread unary_codec (Some (Members (\<lambda>_. ''ada'') two_editors threePages empty_auth)) sample_request ''i'' (Some 5) (Some to_ada)
    empty_comments = (OK c, db') \<and> 3 \<in> th_ID ` set (ThreadsForPage id 1 db')"
proof -
  have v: "visible two_editors threePages 5 1 = Some (RepoError ErrNotFound)" by code_simp
  have "fst (join 0 two_editors threePages empty_auth 1 5 (Dir_New 1)) = ServiceUnavailable \<and>
    (\<exists>c db'. open_thread unary_codec (Some (Members (\<lambda>_. ''ada'') two_editors threePages empty_auth)) sample_request ''i'' (Some 5) (Some to_ada)
      empty_comments = (OK c, db') \<and> rq_thread sample_request \<in> th_ID ` set (ThreadsForPage id 1 db') \<and>
      mention_events db' = mention_events empty_comments)"
    by (rule outsider_comments[OF v unary_parses(1)])
      (simp_all add: to_ada_def unary_parses sample_request_def empty_comments_def)
  then show ?thesis by (auto simp: sample_request_def)
qed

subsection \<open>Remarks are kept\<close>

text \<open>What a thread quotes and is anchored to, and who opened it.\<close>

definition remark :: "thread_row \<Rightarrow> thread_row" where
  "remark t = t\<lparr>th_ResolvedAt := None, th_ResolvedBy := None\<rparr>"

definition all_kept :: "comments_db \<Rightarrow> comments_db \<Rightarrow> bool" where
  "all_kept db db' \<longleftrightarrow> (\<exists>ts. map remark (threads db') = map remark (threads db) @ ts) \<and> (\<exists>cs. comments db' = comments db @ cs)"

definition comments_ok :: "comments_db \<Rightarrow> bool" where
  "comments_ok db \<longleftrightarrow> distinct (map th_ID (threads db)) \<and> distinct (map co_ID (comments db)) \<and>
     co_Thread ` set (comments db) = th_ID ` set (threads db)"

inductive comment_step :: "comments_db \<Rightarrow> comments_db \<Rightarrow> bool" where
  opens: "comment_step db (snd (open_thread cd members rq i actor b db))"
| replies: "comment_step db (snd (reply_thread cd members rq i actor reply db))"
| settles: "comment_step db (snd (setResolved cd rq i actor resolved db))"

lemma kept_refl: "all_kept db db"
  by (simp add: all_kept_def)

lemma kept_trans: "all_kept a b \<Longrightarrow> all_kept b c \<Longrightarrow> all_kept a c"
  by (auto simp: all_kept_def)

lemma written_prefix: "writeMentionEvents ustr ids us p db = Some db' \<Longrightarrow> threads db' = threads db \<and> comments db' = comments db"
  by (induction us arbitrary: ids db) (auto simp: Let_def split: if_splits)

lemma created: "CreateThread now i page block start end quoted author db = Some d \<Longrightarrow>
    comments d = comments db \<and> (\<exists>t. threads d = threads db @ [t] \<and> th_ID t = i) \<and> i \<notin> th_ID ` set (threads db)"
  by (auto simp: CreateThread_def split: option.splits if_splits)

lemma added: "AddComment now i thread author b db = Some d \<Longrightarrow>
    threads d = threads db \<and> comments d = comments db @ [new_comment now i thread author b] \<and> i \<notin> co_ID ` set (comments db) \<and>
    thread \<in> th_ID ` set (threads db)"
  by (auto simp: AddComment_def split: if_splits)

lemma committed_keeps:
  assumes "\<And>db'. tx = Some db' \<Longrightarrow> all_kept db db' \<and> (comments_ok db \<longrightarrow> comments_ok db')"
  shows "all_kept db (snd (committed c answer tx db)) \<and> (comments_ok db \<longrightarrow> comments_ok (snd (committed c answer tx db)))"
  using assms by (auto simp: committed_def kept_refl split: db_call.split option.split)

lemma transaction_keeps:
  assumes "Option.bind (CreateThread n t page block x y q author db) (\<lambda>d. Option.bind (AddComment n c t author body d) (writeMentionEvents u es us p)) = Some db'"
  shows "all_kept db db' \<and> (comments_ok db \<longrightarrow> comments_ok db')"
proof -
  obtain d e where 1: "CreateThread n t page block x y q author db = Some d" and 2: "AddComment n c t author body d = Some e"
    and 3: "writeMentionEvents u es us p e = Some db'" using assms by (auto simp: bind_eq_Some_conv)
  note facts = created[OF 1] added[OF 2] written_prefix[OF 3]
  have "all_kept db db'" using facts by (auto simp: all_kept_def)
  moreover have "comments_ok db'" if "comments_ok db"
    using facts that by (elim conjE exE) (simp add: comments_ok_def new_comment_def)
  ultimately show ?thesis by blast
qed

lemma reply_transaction_keeps:
  assumes "Option.bind (AddComment n c t author body db) (writeMentionEvents u es us p) = Some db'"
  shows "all_kept db db' \<and> (comments_ok db \<longrightarrow> comments_ok db')"
proof -
  obtain e where 2: "AddComment n c t author body db = Some e" and 3: "writeMentionEvents u es us p e = Some db'"
    using assms by (auto simp: bind_eq_Some_conv)
  note facts = added[OF 2] written_prefix[OF 3]
  have "all_kept db db'" using facts by (auto simp: all_kept_def)
  moreover have "comments_ok db'" if "comments_ok db"
    using facts that by (elim conjE exE) (simp add: comments_ok_def new_comment_def insert_absorb)
  ultimately show ?thesis by blast
qed

lemma update_keeps:
  assumes "\<And>r. remark (f r) = remark r" and "\<And>r. th_ID (f r) = th_ID r"
  shows "all_kept db (update_threads P f db) \<and> (comments_ok db \<longrightarrow> comments_ok (update_threads P f db))"
proof -
  have "map remark (threads (update_threads P f db)) = map remark (threads db)" and ids: "map th_ID (threads (update_threads P f db)) = map th_ID (threads db)"
    using assms by (simp_all add: update_threads_def)
  moreover have "th_ID ` set (threads (update_threads P f db)) = th_ID ` set (threads db)" using ids by (metis list.set_map)
  ultimately show ?thesis by (simp add: all_kept_def comments_ok_def) (simp add: update_threads_def)
qed

lemma step_keeps: "comment_step db db' \<Longrightarrow> all_kept db db' \<and> (comments_ok db \<longrightarrow> comments_ok db')"
proof (induction rule: comment_step.induct)
  case (opens db cd members rq i actor b)
  show ?case
  proof (cases "\<exists>page author ob block. cd_parse cd i = Some page \<and> actor = Some author \<and> b = Some ob \<and> cd_parse cd (ob_BlockID ob) = Some block \<and> ob_Body ob \<noteq> []")
    case False
    then have "snd (open_thread cd members rq i actor b db) = db" by (auto simp: open_thread_def split: option.split)
    then show ?thesis by (simp add: kept_refl)
  next
    case True
    then obtain page author ob block where "cd_parse cd i = Some page" "actor = Some author" "b = Some ob" "cd_parse cd (ob_BlockID ob) = Some block" "ob_Body ob \<noteq> []"
      by blast
    then show ?thesis unfolding open_thread_def Let_def
      by (simp only: option.case if_False) (rule committed_keeps, erule transaction_keeps)
  qed
next
  case (replies db cd members rq i actor reply)
  show ?case
  proof (cases "\<exists>t author b r. cd_parse cd i = Some t \<and> actor = Some author \<and> reply = Some b \<and> b \<noteq> [] \<and> GetThread t db = Some r")
    case False
    then have "snd (reply_thread cd members rq i actor reply db) = db" by (auto simp: reply_thread_def split: option.split)
    then show ?thesis by (simp add: kept_refl)
  next
    case True
    then obtain t author b r where "cd_parse cd i = Some t" "actor = Some author" "reply = Some b" "b \<noteq> []" "GetThread t db = Some r" by blast
    then show ?thesis unfolding reply_thread_def Let_def
      by (simp only: option.case if_False) (rule committed_keeps, erule reply_transaction_keeps)
  qed
next
  case (settles db cd rq i actor resolved)
  have "all_kept db (ResolveThread n t a db) \<and> (comments_ok db \<longrightarrow> comments_ok (ResolveThread n t a db))"
    and "all_kept db (ReopenThread t db) \<and> (comments_ok db \<longrightarrow> comments_ok (ReopenThread t db))" for n t a
    unfolding ResolveThread_def ReopenThread_def by (rule update_keeps; simp add: remark_def)+
  then have "all_kept db (if resolved then ResolveThread n t a db else ReopenThread t db) \<and>
      (comments_ok db \<longrightarrow> comments_ok (if resolved then ResolveThread n t a db else ReopenThread t db))" for n t a by simp
  then show ?case unfolding setResolved_def
    by (auto simp: kept_refl committed_def split: option.split db_call.split)
qed

text \<open>C33: remarks are kept. No request takes a thread or a comment away or changes what it quotes, says, or is anchored to, and a thread is
  never without a comment nor a comment without its thread.\<close>

theorem remarks_kept:
  assumes "comment_step\<^sup>*\<^sup>* db db'" and "comments_ok db"
  shows "all_kept db db' \<and> comments_ok db'"
  using assms by (induction rule: rtranclp_induct) (auto simp: kept_refl dest: step_keeps intro: kept_trans)

theorem remarks_kept_witness:
  "\<exists>c db. open_thread unary_codec (Some ada_lister) sample_request ''iiiiiii'' (Some 1) (Some to_ada) empty_comments = (OK c, db) \<and> comments_ok db"
proof -
  obtain c db where o1: "open_thread unary_codec (Some ada_lister) sample_request ''iiiiiii'' (Some 1) (Some to_ada) empty_comments = (OK c, db)"
    using sample_opened by blast
  have "comment_step\<^sup>*\<^sup>* empty_comments db"
    using opens[of empty_comments unary_codec "Some ada_lister" sample_request "''iiiiiii''" "Some 1" "Some to_ada"] o1 by auto
  moreover have "comments_ok empty_comments" by (simp add: comments_ok_def empty_comments_def)
  ultimately show ?thesis using remarks_kept[of empty_comments db] o1 by blast
qed

text \<open>Settling twice is settling once, and the first to resolve a thread keeps the credit.\<close>

theorem resolve_idempotent:
  "ResolveThread now' i other (ResolveThread now i actor db) = ResolveThread now i actor db \<and>
   ReopenThread i (ReopenThread i db) = ReopenThread i db"
  by (simp add: ResolveThread_def ReopenThread_def update_threads_def comp_def if_distrib cong: if_cong)

subsection \<open>What a page shows\<close>

lemma latest_first_mset: "(\<And>xs. mset (tie xs) = mset xs) \<Longrightarrow> mset (latest_first tie ts) = mset ts"
  by (simp add: latest_first_def)

lemma ThreadsForPage_mset:
  assumes "\<And>xs. mset (tie xs) = mset xs"
  shows "mset (ThreadsForPage tie page db) = filter_mset (\<lambda>t. th_Page t = page) (mset (threads db))"
proof -
  let ?ts = "filter (\<lambda>t. th_Page t = page) (threads db)"
  have "mset (filter (\<lambda>t. th_ResolvedAt t = None) ?ts) + mset (filter (\<lambda>t. th_ResolvedAt t \<noteq> None) ?ts) = mset ?ts"
    by (simp only: mset_filter) (rule multiset_partition[symmetric])
  then show ?thesis
    unfolding ThreadsForPage_def Let_def mset_append latest_first_mset[OF assms] by (simp only: mset_filter)
qed

lemma shown:
  assumes "\<And>t. t \<in> set ts \<Longrightarrow> decode (th_Start t) \<noteq> None \<and> decode (th_End t) \<noteq> None"
  shows "map tj_Thread (List.map_filter (show_thread decode s cs) ts) = ts \<and>
    (\<forall>j \<in> set (List.map_filter (show_thread decode s cs) ts). tj_Comments j = filter (\<lambda>c. co_Thread c = th_ID (tj_Thread j)) cs \<and>
      (tj_Orphaned j \<longleftrightarrow> tj_Range j = None))"
  using assms
proof (induction ts)
  case (Cons t ts)
  obtain a b where "decode (th_Start t) = Some a" "decode (th_End t) = Some b" using Cons.prems[of t] by auto
  moreover obtain x y ok where "ResolveRange s (th_Block t) \<lparr>RStart = a, REnd = b\<rparr> = (x, y, ok)" by (metis prod_cases3)
  ultimately show ?case using Cons by (simp add: show_thread_def map_filter_Cons)
qed (simp add: map_filter_Nil)

lemma CommentsForPage_mset:
  assumes "\<And>xs. mset (tie xs) = mset xs" and "distinct (map th_ID (threads db))" and "t \<in> set (threads db)" and "th_Page t = page"
  shows "mset (filter (\<lambda>c. co_Thread c = th_ID t) (CommentsForPage tie page db)) = filter_mset (\<lambda>c. co_Thread c = th_ID t) (mset (comments db))"
proof -
  have sub: "filter_mset P (filter_mset Q M) = filter_mset P M" if "\<And>c. P c \<Longrightarrow> Q c" for P Q and M :: "comment_row multiset"
    using that by (auto simp: filter_filter_mset intro: filter_mset_cong)
  have "\<exists>q \<in> set (threads db). th_ID q = co_Thread c \<and> th_Page q = page" if "co_Thread c = th_ID t" for c
    using assms(3,4) that by auto
  then show ?thesis
    unfolding CommentsForPage_def mset_filter mset_sort assms(1) by (rule sub)
qed

text \<open>The list of a page is complete: when the anchors decode, each of its threads is shown once, open ones first, orphaned exactly when its
  text is gone, with all of its comments in the order they were written, and there is at least one.\<close>

theorem listing_complete:
  assumes "comments_ok db" and "\<And>xs. mset (tie xs) = mset xs" and "\<And>xs. mset (tie' xs) = mset xs" and "cd_parse cd i = Some page"
    and "\<And>t. t \<in> set (threads db) \<Longrightarrow> decode (th_Start t) \<noteq> None \<and> decode (th_End t) \<noteq> None"
  shows "\<exists>out. list_threads cd decode tie tie' (Some s) i (Some db) (Some db) = OK out \<and>
    map tj_Thread out = ThreadsForPage tie page db \<and>
    mset (map tj_Thread out) = filter_mset (\<lambda>t. th_Page t = page) (mset (threads db)) \<and>
    (\<forall>j \<in> set out. (tj_Orphaned j \<longleftrightarrow> tj_Range j = None) \<and> tj_Comments j \<noteq> [] \<and> sorted (map co_CreatedAt (tj_Comments j)) \<and>
      mset (tj_Comments j) = filter_mset (\<lambda>c. co_Thread c = th_ID (tj_Thread j)) (mset (comments db)))"
proof -
  let ?ts = "ThreadsForPage tie page db" let ?cs = "CommentsForPage tie' page db"
  let ?out = "List.map_filter (show_thread decode s ?cs) ?ts"
  have ms: "mset ?ts = filter_mset (\<lambda>t. th_Page t = page) (mset (threads db))" by (rule ThreadsForPage_mset) (rule assms(2))
  then have mem: "t \<in> set ?ts \<longleftrightarrow> t \<in> set (threads db) \<and> th_Page t = page" for t
  proof -
    have "t \<in># mset ?ts \<longleftrightarrow> t \<in> set (threads db) \<and> th_Page t = page" unfolding ms by simp
    then show ?thesis by simp
  qed
  have sh: "map tj_Thread ?out = ?ts" "\<forall>j \<in> set ?out. tj_Comments j = filter (\<lambda>c. co_Thread c = th_ID (tj_Thread j)) ?cs \<and>
      (tj_Orphaned j \<longleftrightarrow> tj_Range j = None)" using shown[of ?ts decode s ?cs] assms(5) mem by auto
  have one: "tj_Comments j \<noteq> [] \<and> sorted (map co_CreatedAt (tj_Comments j)) \<and>
      mset (tj_Comments j) = filter_mset (\<lambda>c. co_Thread c = th_ID (tj_Thread j)) (mset (comments db))" if j: "j \<in> set ?out" for j
  proof -
    let ?t = "tj_Thread j"
    have "?t \<in> set ?ts" using j sh(1) by (metis image_eqI list.set_map)
    then have t: "?t \<in> set (threads db)" "th_Page ?t = page" using mem by auto
    have c: "tj_Comments j = filter (\<lambda>c. co_Thread c = th_ID ?t) ?cs" using sh(2) j by blast
    have m: "mset (tj_Comments j) = filter_mset (\<lambda>c. co_Thread c = th_ID ?t) (mset (comments db))"
      unfolding c using CommentsForPage_mset[of tie' db ?t page] assms(1,3) t by (simp add: comments_ok_def)
    have "th_ID ?t \<in> co_Thread ` set (comments db)" using assms(1) t(1) unfolding comments_ok_def by blast
    then obtain k where "k \<in> set (comments db)" "co_Thread k = th_ID ?t" by auto
    then have "k \<in># mset (tj_Comments j)" unfolding m by simp
    moreover have "sorted (map co_CreatedAt (tj_Comments j))" unfolding c by (simp add: CommentsForPage_def sorted_filter)
    ultimately show ?thesis using m by auto
  qed
  show ?thesis
    by (rule exI[of _ ?out]) (use sh ms one in \<open>simp add: list_threads_def assms(4)\<close>)
qed

text \<open>A thread whose anchor is not one is taken but never shown. The comment says that no thread is left out.\<close>

theorem undecodable_anchor_hides_thread:
  "\<exists>c db'. open_thread unary_codec None sample_request ''iiiiiii'' (Some 1) (Some to_ada) empty_comments = (OK c, db') \<and>
    list_threads unary_codec (\<lambda>_. None) id id (Some s) ''iiiiiii'' (Some db') (Some db') = OK []"
proof -
  obtain d where c: "CreateThread 1 3 7 1 (Some ''5'') (Some ''6'') ''this'' 1 empty_comments = Some d"
      "comments d = []" "3 \<in> th_ID ` set (threads d)" by (simp add: CreateThread_def empty_comments_def)
  obtain e where a: "AddComment 1 4 3 1 ''@ada'' d = Some e" using c by (simp add: AddComment_def)
  have "open_thread unary_codec None sample_request ''iiiiiii'' (Some 1) (Some to_ada) empty_comments = (OK (new_comment 1 4 3 1 ''@ada''), e)"
    using c(1) a by (simp add: open_thread_def unary_parses committed_def Let_def)
      (simp add: to_ada_def sample_request_def unary_parses committed_def mentionsIn_def)
  moreover have "List.map_filter (show_thread (\<lambda>_. None) s cs) ts = []" for cs ts
    by (induction ts) (simp_all add: show_thread_def map_filter_Cons map_filter_Nil)
  ultimately show ?thesis by (simp add: list_threads_def unary_parses)
qed

end
