(* ===== verification/Connections.thy ===== *)
theory Connections
  imports SessionProps Roles MdLex
begin

text \<open>
  Connections to a live page: collaboration-service's wsapi.go and subscriber.go. A connection has the frames its handler has still to
  put into its buffer, the buffer, and what its writer has sent. The handlers and writers of all connections interleave; a call of
  the session holds its mutex, so it is one step, but the writers may send while it runs. Frames are values: JSON is left out,
  and so is the socket, of which the model says only what was sent and that nothing is sent after the connection is cancelled.
\<close>

subsection \<open>Frames\<close>

record cursorPayload =
  cp_BlockID :: "uuid option"
  cp_Start :: int
  cp_End :: int

text \<open>\<open>cm_Op\<close> is what \<open>pageop.Unmarshal\<close> makes of the field.\<close>

record clientMessage =
  cm_Type :: string
  cm_Op :: "page_op option"
  cm_UndoGroup :: "uuid option"
  cm_Cursor :: "cursorPayload option"
  cm_ToStep :: "int option"

datatype client_error = InvalidOpMessage | MissingToStep | MissingCursor | UnknownType string | SafeMessage session_error | InternalMessage

datatype serverMessage =
    SnapshotMsg Snapshot "uuid set" "CursorEvent set" LiveRole
  | AckMsg CommitResult
  | BroadcastMsg CommitResult
  | PresenceMsg PresenceEvent
  | CursorMsg CursorEvent
  | ErrorMsg client_error

text \<open>The errors whose text may be shown; every other is an internal error.\<close>

fun safe_text_error :: "text_error \<Rightarrow> bool" where
  "safe_text_error (RopeError e) = False"
| "safe_text_error e = True"

fun safe_error :: "session_error \<Rightarrow> bool" where
  "safe_error Denied = True"
| "safe_error UnknownBlock = True"
| "safe_error OutOfRange = True"
| "safe_error (SeedFailed e) = safe_text_error e"
| "safe_error (OpsFailed UnknownAnchor) = True"
| "safe_error (OpsFailed (TextFailed e)) = safe_text_error e"
| "safe_error (PageFailed (BlockNotFoundError i)) = True"
| "safe_error (PageFailed (DuplicateBlockIDError i)) = True"
| "safe_error (PageFailed (PositionMismatchError i a b)) = True"
| "safe_error (PageFailed (PreconditionError i f)) = True"
| "safe_error e = False"

definition clientSafeMessage :: "session_error \<Rightarrow> client_error" where
  "clientSafeMessage e = (if safe_error e then SafeMessage e else InternalMessage)"

subsection \<open>The side that sends\<close>

definition outboxBufferSize :: nat where "outboxBufferSize = 64"

text \<open>\<open>cn_since\<close> is kept for the statements only: how long the log was when the connection joined.\<close>

record conn =
  cn_sub :: Subscription
  cn_kind :: string
  cn_pending :: "serverMessage list"
  cn_out :: "serverMessage list"
  cn_cancelled :: bool
  cn_sent :: "serverMessage list"
  cn_since :: nat

definition enqueue :: "serverMessage \<Rightarrow> conn \<Rightarrow> conn" where
  "enqueue m c = (if length (cn_out c) < outboxBufferSize then c\<lparr>cn_out := cn_out c @ [m]\<rparr> else c\<lparr>cn_cancelled := True\<rparr>)"

definition writeLoop :: "nat \<Rightarrow> conn \<Rightarrow> conn" where
  "writeLoop k c = (if cn_cancelled c then c else c\<lparr>cn_sent := cn_sent c @ take k (cn_out c), cn_out := drop k (cn_out c)\<rparr>)"

fun wire_of :: "delivery \<Rightarrow> serverMessage" where
  "wire_of (Deliver r) = BroadcastMsg r"
| "wire_of (DeliverPresence e) = PresenceMsg e"
| "wire_of (DeliverCursor e) = CursorMsg e"

text \<open>The calls a session makes on one subscriber, and how many frames its writer sends before each.\<close>

fun call_subscriber :: "(nat \<Rightarrow> nat) \<Rightarrow> delivery list \<Rightarrow> conn \<Rightarrow> conn" where
  "call_subscriber w [] c = c"
| "call_subscriber w (d # ds) c = call_subscriber (w \<circ> Suc) ds (enqueue (wire_of d) (writeLoop (w 0) c))"

definition box :: "Session \<Rightarrow> 64 word \<Rightarrow> delivery list" where
  "box s i = (case subs s i of None \<Rightarrow> [] | Some ds \<Rightarrow> ds)"

definition spread :: "(64 word \<Rightarrow> nat \<Rightarrow> nat) \<Rightarrow> Session \<Rightarrow> Session \<Rightarrow> (64 word \<rightharpoonup> conn) \<Rightarrow> (64 word \<rightharpoonup> conn)" where
  "spread w s s' cs = (\<lambda>i. map_option (call_subscriber (w i) (drop (length (box s i)) (box s' i))) (cs i))"

subsection \<open>The side that reads\<close>

text \<open>What the code outside gives to one message.\<close>

record message_env =
  me_group :: "uuid option"
  me_envs :: "nat \<Rightarrow> commit_env"
  me_rows :: "LoggedOp list option"

definition enqueueUndoRedoAcks :: "CommitResult list \<times> session_error option \<Rightarrow> serverMessage list" where
  "enqueueUndoRedoAcks r = map AckMsg (fst r) @ (case snd r of None \<Rightarrow> [] | Some e \<Rightarrow> [ErrorMsg (clientSafeMessage e)])"

definition readLoop :: "can_apply \<Rightarrow> message_env \<Rightarrow> Session \<Rightarrow> uuid \<Rightarrow> string \<Rightarrow> 64 word \<Rightarrow> clientMessage \<Rightarrow> (serverMessage list \<times> Session) option" where
  "readLoop can env s a kind i msg =
     (if cm_Type msg = ''op'' then
        (case cm_Op msg of None \<Rightarrow> Some ([ErrorMsg InvalidOpMessage], s)
         | Some op \<Rightarrow> (case ApplyClientOp can (me_envs env 0) s a kind op (cm_UndoGroup msg) i of
               None \<Rightarrow> None
             | Some (Inl e, s') \<Rightarrow> Some ([ErrorMsg (clientSafeMessage e)], s')
             | Some (Inr r, s') \<Rightarrow> Some ([AckMsg r], s')))
      else if cm_Type msg = ''undo'' then map_option (apfst enqueueUndoRedoAcks) (Session_Undo can (me_group env) (me_envs env) s a kind i)
      else if cm_Type msg = ''redo'' then map_option (apfst enqueueUndoRedoAcks) (Session_Redo can (me_group env) (me_envs env) s a kind i)
      else if cm_Type msg = ''restore'' then
        (case cm_ToStep msg of None \<Rightarrow> Some ([ErrorMsg MissingToStep], s)
         | Some n \<Rightarrow> map_option (apfst enqueueUndoRedoAcks) (RestoreTo can (me_group env) (me_envs env) (me_rows env) s a kind n i))
      else if cm_Type msg = ''cursor'' then
        (case cm_Cursor msg of None \<Rightarrow> Some ([ErrorMsg MissingCursor], s)
         | Some c \<Rightarrow> Some ([], SetCursor s a \<lparr>ceActorID = 0, ceBlockID = cp_BlockID c, ceStart = cp_Start c, ceEnd = cp_End c\<rparr> i))
      else Some ([ErrorMsg (UnknownType (cm_Type msg))], s))"

subsection \<open>The handshake\<close>

fun split_commas :: "string \<Rightarrow> string list" where
  "split_commas [] = [[]]"
| "split_commas (c # cs) = (if c = CHR '','' then [] # split_commas cs else (c # hd (split_commas cs)) # tl (split_commas cs))"

definition BearerSubprotocol :: string where "BearerSubprotocol = ''bearer''"

fun bearer_in :: "string list \<Rightarrow> string option" where
  "bearer_in (p # q # ps) = (if TrimSpace p = BearerSubprotocol then Some (TrimSpace q) else bearer_in (q # ps))"
| "bearer_in ps = None"

fun offered :: "string list \<Rightarrow> string option" where
  "offered [] = None"
| "offered (raw # raws) = (case bearer_in (split_commas raw) of Some t \<Rightarrow> Some t | None \<Rightarrow> offered raws)"

text \<open>The values of Sec-WebSocket-Protocol, and the Authorization header; \<open>strings.EqualFold\<close> is an argument.\<close>

definition handshakeToken :: "(string \<Rightarrow> string \<Rightarrow> bool) \<Rightarrow> string list \<Rightarrow> string \<Rightarrow> string" where
  "handshakeToken EqualFold protocols h = (case offered protocols of Some t \<Rightarrow> t
     | None \<Rightarrow> if length h > 7 \<and> EqualFold (take 7 h) ''Bearer '' then TrimSpace (drop 7 h) else [])"

definition actorFromRequest :: "(string \<Rightarrow> string \<Rightarrow> bool) \<Rightarrow> (string \<Rightarrow> uuid option) \<Rightarrow> string list \<Rightarrow> string \<Rightarrow> string \<Rightarrow> string \<Rightarrow> (uuid \<times> string) option" where
  "actorFromRequest EqualFold verify protocols h kindHeader kindQuery =
     (let token = handshakeToken EqualFold protocols h in
      if token = [] then None
      else (case verify token of None \<Rightarrow> None
        | Some a \<Rightarrow> (let raw = (if kindHeader = [] then kindQuery else kindHeader); kind = (if raw = [] then ''user'' else raw)
            in if ActorKind_Valid kind then Some (a, kind) else None)))"

text \<open>The verified subject a handler behind it is called with, or a refusal.\<close>

definition RequireToken :: "(string \<Rightarrow> string \<Rightarrow> bool) \<Rightarrow> (string \<Rightarrow> uuid option) \<Rightarrow> string list \<Rightarrow> string \<Rightarrow> uuid option" where
  "RequireToken EqualFold verify protocols h = verify (handshakeToken EqualFold protocols h)"

lemma split_commas_plain: "CHR '','' \<notin> set t \<Longrightarrow> split_commas t = [t]"
  by (induction t) auto

text \<open>What a browser offers is read back.\<close>

lemma browser_token:
  assumes "CHR '','' \<notin> set t" and "TrimSpace (CHR '' '' # t) = t"
  shows "handshakeToken EqualFold [''bearer, '' @ t] h = t"
proof -
  have "split_commas (''bearer, '' @ t) = [''bearer'', CHR '' '' # t]" using split_commas_plain[OF assms(1)] by simp
  moreover have "TrimSpace ''bearer'' = BearerSubprotocol" by code_simp
  ultimately show ?thesis using assms(2) by (simp add: handshakeToken_def)
qed

subsection \<open>All connections of a page\<close>

record page_server =
  sv_session :: Session
  sv_conns :: "64 word \<rightharpoonup> conn"

text \<open>A handler joins, queues the snapshot, then reads one message after the other; it reads the next one when the answers to the
  last are queued. \<open>breaks\<close> is a failing write or a closed socket.\<close>

definition connect :: "(64 word \<Rightarrow> nat \<Rightarrow> nat) \<Rightarrow> uuid \<Rightarrow> string \<Rightarrow> LiveRole \<Rightarrow> page_server \<Rightarrow> page_server" where
  "connect w a kind role v = (case Subscribe (sv_session v) a of (sub, s') \<Rightarrow>
     \<lparr>sv_session = s', sv_conns = (spread w (sv_session v) s' (sv_conns v))
       (subID sub \<mapsto> \<lparr>cn_sub = sub, cn_kind = kind, cn_pending = [SnapshotMsg (subSnapshot sub) (Present sub) (Cursors sub) role],
         cn_out = [], cn_cancelled = False, cn_sent = [], cn_since = length (wal (sv_session v))\<rparr>)\<rparr>)"

definition queue_next :: "conn \<Rightarrow> conn" where
  "queue_next c = (case cn_pending c of [] \<Rightarrow> c | m # ms \<Rightarrow> (enqueue m c)\<lparr>cn_pending := ms\<rparr>)"

definition update_conn :: "64 word \<Rightarrow> (conn \<Rightarrow> conn) \<Rightarrow> page_server \<Rightarrow> page_server" where
  "update_conn i f v = v\<lparr>sv_conns := (\<lambda>j. if j = i then map_option f (sv_conns v j) else sv_conns v j)\<rparr>"

inductive server_step :: "page_server \<Rightarrow> page_server \<Rightarrow> bool" where
  joins: "subs (sv_session v) (nextSubID (sv_session v)) = None \<Longrightarrow> server_step v (connect w a kind role v)"
| queues: "server_step v (update_conn i queue_next v)"
| sends: "server_step v (update_conn i (writeLoop k) v)"
| breaks: "server_step v (update_conn i (cn_cancelled_update (\<lambda>_. True)) v)"
| handles: "sv_conns v i = Some c \<Longrightarrow> cn_pending c = [] \<Longrightarrow>
    readLoop can env (sv_session v) (subActor (cn_sub c)) (cn_kind c) i msg = Some (frames, s') \<Longrightarrow>
    server_step v (update_conn i (cn_pending_update (\<lambda>_. frames)) \<lparr>sv_session = s', sv_conns = spread w (sv_session v) s' (sv_conns v)\<rparr>)"
| leaves: "sv_conns v i = Some c \<Longrightarrow> cn_pending c = [] \<Longrightarrow> s' = Subscription_Close (cn_sub c) (sv_session v) \<Longrightarrow>
    server_step v \<lparr>sv_session = s', sv_conns = (spread w (sv_session v) s' (sv_conns v))(i := None)\<rparr>"

subsection \<open>What one call delivers\<close>

fun commits :: "delivery list \<Rightarrow> LoggedOp list" where
  "commits [] = []"
| "commits (Deliver r # ds) = crOp r # commits ds"
| "commits (d # ds) = commits ds"

lemma commits_append [simp]: "commits (xs @ ys) = commits xs @ commits ys"
  by (induction xs rule: commits.induct) auto

text \<open>The commits of a call are in the log and with every other subscriber, and the caller gets none of them.\<close>

definition delivers :: "64 word \<Rightarrow> LoggedOp list \<Rightarrow> Session \<Rightarrow> Session \<Rightarrow> bool" where
  "delivers i ls s s' \<longleftrightarrow> wal s' = wal s @ ls \<and> subs s' i = subs s i \<and>
     (\<forall>j. j \<noteq> i \<longrightarrow> (\<exists>ds. subs s' j = map_option (\<lambda>b. b @ ds) (subs s j) \<and> commits ds = ls))"

lemma delivers_refl: "delivers i [] s s"
  unfolding delivers_def by (auto intro!: exI[of _ "[]"] simp: option.map_ident)

lemma delivers_trans: "delivers i xs a b \<Longrightarrow> delivers i ys b c \<Longrightarrow> delivers i (xs @ ys) a c"
  unfolding delivers_def
proof (elim conjE, intro conjI allI impI)
  fix j
  assume "\<forall>j. j \<noteq> i \<longrightarrow> (\<exists>ds. subs b j = map_option (\<lambda>b. b @ ds) (subs a j) \<and> commits ds = xs)"
    and "\<forall>j. j \<noteq> i \<longrightarrow> (\<exists>ds. subs c j = map_option (\<lambda>b. b @ ds) (subs b j) \<and> commits ds = ys)" and "j \<noteq> i"
  then obtain d e where "subs b j = map_option (\<lambda>b. b @ d) (subs a j)" "commits d = xs"
    "subs c j = map_option (\<lambda>b. b @ e) (subs b j)" "commits e = ys" by blast
  then show "\<exists>ds. subs c j = map_option (\<lambda>b. b @ ds) (subs a j) \<and> commits ds = xs @ ys"
    by (intro exI[of _ "d @ e"]) (simp add: option.map_comp comp_def)
qed auto

lemma delivers_same: "wal s' = wal s \<Longrightarrow> subs s' = subs s \<Longrightarrow> delivers i [] s s'"
  using delivers_refl[of i s] by (simp add: delivers_def)

lemma commit_delivers:
  assumes "commitOpLocked env s a kd op g i = Some (Inr (r, p), s')"
  shows "delivers i [crOp r] s s'"
proof -
  obtain q where q: "applyPageOpLocked s op = Some (Inr (crBoundaries r, p), q)"
    "s' = (broadcast (Deliver r) i (q\<lparr>clock := tick (clock s) a, wal := wal s @ [crOp r]\<rparr>))
       \<lparr>flushq := flushq s @ (if enqueueOK env then [crOp r] else [])\<rparr>" using assms by (rule commit_ok)
  then show ?thesis using apply_frame_simps(6)[OF q(1)]
    by (auto simp: delivers_def broadcast_def intro!: exI[of _ "[Deliver r]"])
qed

lemma commit_fails_delivers:
  assumes "commitOpLocked env s a kd op g i = Some (Inl e, s')"
  shows "delivers i [] s s'"
  using commit_error[OF assms] apply_frame_simps(2,6) by (auto intro!: delivers_same)

lemma loop_delivers:
  "commit_loop can envs a kd g i k ops s = Some (rs, ps, rest, e, s') \<Longrightarrow> delivers i (map crOp rs) s s'"
proof (induction ops arbitrary: k s rs ps)
  case (Cons op ops)
  show ?case
  proof (cases "can (sPageID s) op a kd")
    case True
    then obtain x s1 where x: "commitOpLocked (envs k) s a kd op (Some g) i = Some (x, s1)"
      using Cons.prems(1) by (auto split: option.splits)
    show ?thesis
    proof (cases x)
      case (Inl e')
      then show ?thesis using Cons.prems True x commit_fails_delivers by auto
    next
      case (Inr y)
      then obtain r p where y: "x = Inr (r, p)" by (cases y) simp
      then obtain rs' ps' where l: "commit_loop can envs a kd g i (Suc k) ops s1 = Some (rs', ps', rest, e, s')" and "rs = r # rs'"
        using Cons.prems(1) True x by auto
      then show ?thesis using delivers_trans[OF commit_delivers Cons.IH[OF l], of "envs k" s a kd op "Some g" r p] x y by simp
    qed
  qed (use Cons.prems in \<open>simp add: delivers_refl\<close>)
qed (simp add: delivers_refl)

lemma delivers_frame: "delivers i ls s s1 \<Longrightarrow> wal s' = wal s1 \<Longrightarrow> subs s' = subs s1 \<Longrightarrow> delivers i ls s s'"
  by (simp add: delivers_def)

lemma group_delivers:
  "Session_Undo can gid envs s a kd i = Some ((rs, e), s') \<Longrightarrow> delivers i (map crOp rs) s s'"
  "Session_Redo can gid envs s a kd i = Some ((rs, e), s') \<Longrightarrow> delivers i (map crOp rs) s s'"
  "RestoreTo can gid envs rows s a kd n i = Some ((rs, e), s') \<Longrightarrow> delivers i (map crOp rs) s s'"
  unfolding Session_Undo_def Session_Redo_def RestoreTo_def Let_def
  by (auto simp: delivers_refl split: if_splits option.splits sum.splits prod.splits intro: delivers_frame dest: loop_delivers)

lemma cursor_delivers: "delivers i [] s (SetCursor s a e i)"
  unfolding delivers_def
proof (intro conjI allI impI)
  fix j assume "j \<noteq> i"
  then show "\<exists>ds. subs (SetCursor s a e i) j = map_option (\<lambda>b. b @ ds) (subs s j) \<and> commits ds = []"
    by (intro exI[of _ "[DeliverCursor (e\<lparr>ceActorID := a\<rparr>)]"]) (simp add: SetCursor_def broadcast_def Let_def)
qed (simp_all add: SetCursor_def broadcast_def Let_def)

text \<open>The commits a list of frames tells of: those of the client itself and those of others.\<close>

fun acks :: "serverMessage list \<Rightarrow> LoggedOp list" where
  "acks [] = []"
| "acks (AckMsg r # ms) = crOp r # acks ms"
| "acks (m # ms) = acks ms"

fun bcasts :: "serverMessage list \<Rightarrow> LoggedOp list" where
  "bcasts [] = []"
| "bcasts (BroadcastMsg r # ms) = crOp r # bcasts ms"
| "bcasts (m # ms) = bcasts ms"

lemma acks_append [simp]: "acks (xs @ ys) = acks xs @ acks ys"
  by (induction xs rule: acks.induct) auto

lemma bcasts_append [simp]: "bcasts (xs @ ys) = bcasts xs @ bcasts ys"
  by (induction xs rule: bcasts.induct) auto

lemma answers_tell: "acks (enqueueUndoRedoAcks (rs, e)) = map crOp rs \<and> bcasts (enqueueUndoRedoAcks (rs, e)) = []"
proof -
  have "acks (map AckMsg rs) = map crOp rs \<and> bcasts (map AckMsg rs) = []" by (induction rs) auto
  then show ?thesis by (simp add: enqueueUndoRedoAcks_def split: option.split)
qed

lemma delivered_tell: "acks (map wire_of ds) = [] \<and> bcasts (map wire_of ds) = commits ds"
  by (induction ds rule: commits.induct) auto

text \<open>A message that is answered: its commits are acknowledged in the answers, and delivered to the others.\<close>

lemma readLoop_delivers:
  assumes "readLoop can env s a kind i msg = Some (frames, s')"
  shows "delivers i (acks frames) s s' \<and> bcasts frames = []"
proof -
  have op: "delivers i (acks frames) s s' \<and> bcasts frames = []"
    if o1: "(case ApplyClientOp can e s a kind op g i of None \<Rightarrow> None | Some (Inl e, s') \<Rightarrow> Some ([ErrorMsg (clientSafeMessage e)], s')
             | Some (Inr r, s') \<Rightarrow> Some ([AckMsg r], s')) = Some (frames, s')" for e op g
  proof (cases "can (sPageID s) op a kind")
    case True
    then obtain x s1 where x: "commitOpLocked e s a kind op g i = Some (x, s1)"
      using o1 by (auto simp: ApplyClientOp_def split: option.splits)
    show ?thesis
    proof (cases x)
      case (Inl err)
      then show ?thesis using o1 True x commit_fails_delivers by (auto simp: ApplyClientOp_def)
    next
      case (Inr y)
      then obtain r p where y: "x = Inr (r, p)" by (cases y) simp
      have "delivers i [crOp r] s s1" using commit_delivers x y by blast
      then show ?thesis using o1 True x y by (auto simp: ApplyClientOp_def delivers_def)
    qed
  qed (use o1 in \<open>auto simp: ApplyClientOp_def delivers_refl\<close>)
  have group: "delivers i (acks frames) s s' \<and> bcasts frames = []"
    if "map_option (apfst enqueueUndoRedoAcks) x = Some (frames, s')" and "\<And>rs e s1. x = Some ((rs, e), s1) \<Longrightarrow> delivers i (map crOp rs) s s1" for x
    using that answers_tell by (cases x) (auto simp: apfst_def)
  consider "cm_Type msg = ''op''" | "cm_Type msg = ''undo''" | "cm_Type msg = ''redo''" | "cm_Type msg = ''restore''" | "cm_Type msg = ''cursor''"
    | "cm_Type msg \<notin> {''op'', ''undo'', ''redo'', ''restore'', ''cursor''}" by blast
  then show ?thesis
  proof cases
    case 1
    then show ?thesis using assms op by (cases "cm_Op msg") (auto simp: readLoop_def delivers_refl)
  next
    case 2
    then show ?thesis using assms group group_delivers(1) by (simp add: readLoop_def)
  next
    case 3
    then show ?thesis using assms group group_delivers(2) by (simp add: readLoop_def)
  next
    case 4
    then show ?thesis using assms group group_delivers(3) by (cases "cm_ToStep msg") (auto simp: readLoop_def delivers_refl)
  next
    case 5
    then show ?thesis using assms cursor_delivers by (cases "cm_Cursor msg") (auto simp: readLoop_def delivers_refl)
  next
    case 6
    then show ?thesis using assms by (auto simp: readLoop_def delivers_refl)
  qed
qed

lemma join_delivers:
  assumes "Subscribe s a = (sub, s')"
  shows "subID sub = nextSubID s \<and> wal s' = wal s \<and> subs s' (nextSubID s) = Some [] \<and>
    (\<forall>j. j \<noteq> nextSubID s \<longrightarrow> (\<exists>ds. subs s' j = map_option (\<lambda>b. b @ ds) (subs s j) \<and> commits ds = []))"
proof -
  have "\<exists>ds. subs s' j = map_option (\<lambda>b. b @ ds) (subs s j) \<and> commits ds = []" if "j \<noteq> nextSubID s" for j
  proof (cases "count_of (presence s) a = 0")
    case True
    then show ?thesis using assms that
      by (intro exI[of _ "[DeliverPresence \<lparr>peActorID = a, peJoined = True\<rparr>]"]) (auto simp: Subscribe_def broadcast_def Let_def)
  next
    case False
    then show ?thesis using assms that by (intro exI[of _ "[]"]) (auto simp: Subscribe_def Let_def option.map_ident)
  qed
  then show ?thesis using assms by (auto simp: Subscribe_def broadcast_def Let_def)
qed

lemma leave_delivers:
  "wal (Subscription_Close sub s) = wal s \<and> (\<forall>j. j \<noteq> subID sub \<longrightarrow>
     (\<exists>ds. subs (Subscription_Close sub s) j = map_option (\<lambda>b. b @ ds) (subs s j) \<and> commits ds = []))"
proof -
  have "\<exists>ds. subs (Subscription_Close sub s) j = map_option (\<lambda>b. b @ ds) (subs s j) \<and> commits ds = []" if "j \<noteq> subID sub" for j
  proof (cases "count_of (presence s) (subActor sub) - 1 \<le> 0")
    case True
    then show ?thesis using that
      by (intro exI[of _ "[DeliverPresence \<lparr>peActorID = subActor sub, peJoined = False\<rparr>,
          DeliverCursor \<lparr>ceActorID = subActor sub, ceBlockID = None, ceStart = 0, ceEnd = 0\<rparr>]"])
        (simp add: Subscription_Close_def broadcast_def Let_def option.map_comp comp_def)
  next
    case False
    then show ?thesis using that by (intro exI[of _ "[]"]) (simp add: Subscription_Close_def Let_def option.map_ident)
  qed
  then show ?thesis by (simp add: Subscription_Close_def Let_def)
qed

subsection \<open>What a connection is told\<close>

text \<open>All frames of a connection, in the order they reach its client.\<close>

definition stream :: "conn \<Rightarrow> serverMessage list" where
  "stream c = cn_sent c @ cn_out c @ cn_pending c"

lemma shuffle_left: "zs \<in> shuffles xs ys \<Longrightarrow> zs @ ws \<in> shuffles (xs @ ws) ys"
proof (induction xs ys arbitrary: zs rule: shuffles.induct)
  case (1 ys)
  then show ?case by (induction ys arbitrary: zs) (auto simp: Cons_in_shuffles_iff)
next
  case (2 x xs)
  then show ?case by simp
next
  case (3 x xs y ys)
  then show ?case by (auto simp: Cons_in_shuffles_iff)
qed

lemma shuffle_right: "zs \<in> shuffles xs ys \<Longrightarrow> zs @ ws \<in> shuffles xs (ys @ ws)"
  using shuffle_left[of zs ys xs ws] by (simp add: shuffles_commutes)

text \<open>What a connection is told agrees with the log.\<close>

definition told :: "Session \<Rightarrow> 64 word \<Rightarrow> conn \<Rightarrow> bool" where
  "told s i c \<longleftrightarrow> subID (cn_sub c) = i \<and> subs s i \<noteq> None \<and> bcasts (cn_pending c) = [] \<and> cn_since c \<le> length (wal s) \<and>
     length (cn_out c) \<le> outboxBufferSize \<and>
     (cn_cancelled c \<or> drop (cn_since c) (wal s) \<in> shuffles (acks (stream c)) (bcasts (stream c)))"

lemma writeLoop_fields:
  "cn_sub (writeLoop k c) = cn_sub c" "cn_pending (writeLoop k c) = cn_pending c" "cn_since (writeLoop k c) = cn_since c"
  "cn_cancelled (writeLoop k c) = cn_cancelled c" "cn_sent (writeLoop k c) @ cn_out (writeLoop k c) = cn_sent c @ cn_out c"
  "length (cn_out (writeLoop k c)) \<le> length (cn_out c)" "cn_kind (writeLoop k c) = cn_kind c"
  by (simp_all add: writeLoop_def)

lemma enqueue_fields:
  "cn_sub (enqueue m c) = cn_sub c" "cn_pending (enqueue m c) = cn_pending c" "cn_since (enqueue m c) = cn_since c"
  "cn_cancelled c \<Longrightarrow> cn_cancelled (enqueue m c)"
  "\<not> cn_cancelled (enqueue m c) \<Longrightarrow> cn_sent (enqueue m c) @ cn_out (enqueue m c) = cn_sent c @ cn_out c @ [m]"
  "length (cn_out c) \<le> outboxBufferSize \<Longrightarrow> length (cn_out (enqueue m c)) \<le> outboxBufferSize" "cn_kind (enqueue m c) = cn_kind c"
  by (auto simp: enqueue_def split: if_splits)

lemma call_fields:
  "cn_sub (call_subscriber w ds c) = cn_sub c \<and> cn_kind (call_subscriber w ds c) = cn_kind c \<and> cn_pending (call_subscriber w ds c) = cn_pending c \<and> cn_since (call_subscriber w ds c) = cn_since c \<and>
   (length (cn_out c) \<le> outboxBufferSize \<longrightarrow> length (cn_out (call_subscriber w ds c)) \<le> outboxBufferSize) \<and>
   (cn_cancelled c \<longrightarrow> cn_cancelled (call_subscriber w ds c)) \<and>
   (\<not> cn_cancelled (call_subscriber w ds c) \<longrightarrow> cn_sent (call_subscriber w ds c) @ cn_out (call_subscriber w ds c) = cn_sent c @ cn_out c @ map wire_of ds)"
proof (induction w ds c rule: call_subscriber.induct)
  case (2 w d ds c)
  let ?c = "enqueue (wire_of d) (writeLoop (w 0) c)"
  have e: "\<not> cn_cancelled ?c \<Longrightarrow> cn_sent ?c @ cn_out ?c = cn_sent c @ cn_out c @ [wire_of d]"
    using enqueue_fields(5)[of "wire_of d" "writeLoop (w 0) c"] writeLoop_fields(5)[of "w 0" c] by (metis append_assoc)
  have l: "length (cn_out c) \<le> outboxBufferSize \<Longrightarrow> length (cn_out ?c) \<le> outboxBufferSize"
    using enqueue_fields(6)[of "writeLoop (w 0) c" "wire_of d"] writeLoop_fields(6)[of "w 0" c] by linarith
  have k: "cn_cancelled c \<Longrightarrow> cn_cancelled ?c" using enqueue_fields(4) writeLoop_fields(4) by metis
  define D where "D = call_subscriber (w \<circ> Suc) ds ?c"
  have f: "cn_sub ?c = cn_sub c" "cn_kind ?c = cn_kind c" "cn_pending ?c = cn_pending c" "cn_since ?c = cn_since c"
    by (simp_all add: enqueue_fields writeLoop_fields)
  show ?case using 2[folded D_def] e l k unfolding call_subscriber.simps D_def[symmetric] f by auto
qed simp

lemma told_delivered:
  assumes "told s j c" and "subs s' j = map_option (\<lambda>b. b @ ds) (subs s j)" and "wal s' = wal s @ commits ds"
  shows "told s' j (call_subscriber w (drop (length (box s j)) (box s' j)) c)"
proof -
  obtain b where b: "subs s j = Some b" using assms(1) by (auto simp: told_def)
  have ds: "drop (length (box s j)) (box s' j) = ds" using b assms(2) by (simp add: box_def)
  define D where "D = call_subscriber w ds c"
  note f = call_fields[of w ds c, folded D_def]
  have "drop (cn_since D) (wal s') \<in> shuffles (acks (stream D)) (bcasts (stream D))" if live: "\<not> cn_cancelled D"
  proof -
    have z: "drop (cn_since c) (wal s) \<in> shuffles (acks (stream c)) (bcasts (stream c))" using assms(1) f live by (auto simp: told_def)
    have p: "bcasts (cn_pending c) = []" using assms(1) by (simp add: told_def)
    have d: "cn_sent D @ cn_out D = cn_sent c @ cn_out c @ map wire_of ds" using f live by blast
    have "acks (stream D) = acks (stream c) \<and> bcasts (stream D) = bcasts (stream c) @ commits ds"
    proof -
      have st: "stream D = (cn_sent c @ cn_out c @ map wire_of ds) @ cn_pending c" unfolding d[symmetric] using f by (simp add: stream_def)
      show ?thesis unfolding st using delivered_tell[of ds] p by (simp add: stream_def)
    qed
    moreover have "drop (cn_since D) (wal s') = drop (cn_since c) (wal s) @ commits ds" using f assms(1,3) by (simp add: told_def)
    ultimately show ?thesis using shuffle_right[OF z] by simp
  qed
  then show ?thesis using assms f b unfolding ds D_def[symmetric] by (auto simp: told_def)
qed

lemma told_answered:
  assumes "told s i c" and "cn_pending c = []" and "subs s' i = subs s i" and "wal s' = wal s @ acks frames" and "bcasts frames = []"
  shows "told s' i ((call_subscriber w (drop (length (box s i)) (box s' i)) c)\<lparr>cn_pending := frames\<rparr>)"
proof -
  have "drop (length (box s i)) (box s' i) = []" using assms(3) by (simp add: box_def)
  moreover have "stream (c\<lparr>cn_pending := frames\<rparr>) = stream c @ frames" using assms(2) by (simp add: stream_def)
  moreover have "zs @ acks frames \<in> shuffles (xs @ acks frames) ys" if "zs \<in> shuffles xs ys" for xs ys zs :: "LoggedOp list"
    using shuffle_left that by blast
  ultimately show ?thesis using assms by (auto simp: told_def)
qed

lemma told_queued: "told s i c \<Longrightarrow> told s i (queue_next c)"
proof (cases "cn_pending c")
  case (Cons m ms)
  assume t: "told s i c"
  have "bcasts (m # ms) = []" using t Cons by (simp add: told_def)
  then have "bcasts ms = []" by (cases m) auto
  moreover have "stream ((enqueue m c)\<lparr>cn_pending := ms\<rparr>) = stream c" if "\<not> cn_cancelled (enqueue m c)"
  proof -
    have "cn_sent (enqueue m c) @ cn_out (enqueue m c) = cn_sent c @ cn_out c @ [m]" using enqueue_fields(5) that by blast
    then have "(cn_sent (enqueue m c) @ cn_out (enqueue m c)) @ ms = (cn_sent c @ cn_out c @ [m]) @ ms" by (rule arg_cong)
    then show ?thesis using Cons by (simp add: stream_def)
  qed
  moreover have "cn_cancelled c \<Longrightarrow> cn_cancelled (enqueue m c)" by (rule enqueue_fields(4))
  ultimately show ?thesis
    using t Cons by (cases "cn_cancelled (enqueue m c)") (auto simp: queue_next_def told_def enqueue_fields)
qed (simp add: queue_next_def)

lemma told_sent:
  assumes "told s i c"
  shows "told s i (writeLoop k c)"
proof -
  have "(cn_sent (writeLoop k c) @ cn_out (writeLoop k c)) @ cn_pending (writeLoop k c) = (cn_sent c @ cn_out c) @ cn_pending c"
    by (simp only: writeLoop_fields)
  then have "stream (writeLoop k c) = stream c" by (simp add: stream_def)
  moreover have "length (cn_out (writeLoop k c)) \<le> outboxBufferSize"
    using assms writeLoop_fields(6)[of k c] by (auto simp: told_def intro: le_trans)
  ultimately show ?thesis using assms by (auto simp: told_def writeLoop_fields)
qed

definition all_told :: "page_server \<Rightarrow> bool" where
  "all_told v \<longleftrightarrow> (\<forall>i c. sv_conns v i = Some c \<longrightarrow> told (sv_session v) i c)"

lemma all_told_update:
  assumes "all_told v" and "\<And>s c. told s i c \<Longrightarrow> told s i (f c)"
  shows "all_told (update_conn i f v)"
  using assms by (auto simp: all_told_def update_conn_def split: if_splits)

lemma step_told:
  assumes "server_step v v'" and "all_told v"
  shows "all_told v'"
  using assms
proof (induction rule: server_step.induct)
  case (joins v w a kind role)
  obtain sub s' where s: "Subscribe (sv_session v) a = (sub, s')" by fastforce
  note j = join_delivers[OF s]
  show ?case unfolding all_told_def
  proof (intro allI impI)
    fix i c assume c: "sv_conns (connect w a kind role v) i = Some c"
    show "told (sv_session (connect w a kind role v)) i c"
    proof (cases "i = nextSubID (sv_session v)")
      case True
      then show ?thesis using c j s by (auto simp: connect_def told_def stream_def outboxBufferSize_def)
    next
      case False
      then obtain c0 where c0: "sv_conns v i = Some c0" "c = call_subscriber (w i) (drop (length (box (sv_session v) i)) (box s' i)) c0"
        using c j s by (auto simp: connect_def spread_def)
      obtain ds where "subs s' i = map_option (\<lambda>b. b @ ds) (subs (sv_session v) i)" "commits ds = []" using j False by blast
      then show ?thesis using told_delivered[of "sv_session v" i c0 s' ds "w i"] c0 joins(2) j s by (simp add: all_told_def connect_def)
    qed
  qed
next
  case (queues v i)
  then show ?case using all_told_update told_queued by blast
next
  case (sends v i k)
  then show ?case using all_told_update told_sent by blast
next
  case (breaks v i)
  then show ?case by (rule all_told_update) (simp add: told_def stream_def)
next
  case (handles v i c can env msg frames s' w)
  note d = readLoop_delivers[OF handles(3)]
  show ?case unfolding all_told_def
  proof (intro allI impI)
    fix j e assume e: "sv_conns (update_conn i (cn_pending_update (\<lambda>_. frames)) \<lparr>sv_session = s', sv_conns = spread w (sv_session v) s' (sv_conns v)\<rparr>) j = Some e"
    have "told s' j e"
    proof (cases "j = i")
      case True
      then have "e = (call_subscriber (w i) (drop (length (box (sv_session v) i)) (box s' i)) c)\<lparr>cn_pending := frames\<rparr>"
        using e handles(1) by (simp add: update_conn_def spread_def)
      moreover have "told (sv_session v) i c" using handles(1,4) by (simp add: all_told_def)
      ultimately show ?thesis using told_answered[of "sv_session v" i c s' frames] handles(2) d True by (simp add: delivers_def)
    next
      case False
      then obtain c0 where c0: "sv_conns v j = Some c0" "e = call_subscriber (w j) (drop (length (box (sv_session v) j)) (box s' j)) c0"
        using e by (auto simp: update_conn_def spread_def)
      obtain ds where "subs s' j = map_option (\<lambda>b. b @ ds) (subs (sv_session v) j)" "commits ds = acks frames" using d False by (auto simp: delivers_def)
      then show ?thesis using told_delivered[of "sv_session v" j c0 s' ds "w j"] c0 handles(4) d by (simp add: all_told_def delivers_def)
    qed
    then show "told (sv_session (update_conn i (cn_pending_update (\<lambda>_. frames)) \<lparr>sv_session = s', sv_conns = spread w (sv_session v) s' (sv_conns v)\<rparr>)) j e"
      by (simp add: update_conn_def)
  qed
next
  case (leaves v i c s' w)
  have i: "subID (cn_sub c) = i" using leaves(1,4) by (simp add: all_told_def told_def)
  show ?case unfolding all_told_def
  proof (intro allI impI)
    fix j e assume e: "sv_conns \<lparr>sv_session = s', sv_conns = (spread w (sv_session v) s' (sv_conns v))(i := None)\<rparr> j = Some e"
    then obtain c0 where c0: "j \<noteq> i" "sv_conns v j = Some c0" "e = call_subscriber (w j) (drop (length (box (sv_session v) j)) (box s' j)) c0"
      by (auto simp: spread_def split: if_splits)
    then obtain ds where "subs s' j = map_option (\<lambda>b. b @ ds) (subs (sv_session v) j)" "commits ds = []"
      using leave_delivers[of "cn_sub c" "sv_session v"] leaves(3) i by blast
    then show "told (sv_session \<lparr>sv_session = s', sv_conns = (spread w (sv_session v) s' (sv_conns v))(i := None)\<rparr>) j e"
      using told_delivered[of "sv_session v" j c0 s' ds "w j"] c0 leaves(3,4) leave_delivers[of "cn_sub c" "sv_session v"]
      by (simp add: all_told_def)
  qed
qed


subsection \<open>Overtaking\<close>

definition op_message :: "page_op \<Rightarrow> uuid option \<Rightarrow> clientMessage" where
  "op_message op g = \<lparr>cm_Type = ''op'', cm_Op = Some op, cm_UndoGroup = g, cm_Cursor = None, cm_ToStep = None\<rparr>"

definition env_message :: "commit_env \<Rightarrow> message_env" where
  "env_message env = \<lparr>me_group = None, me_envs = (\<lambda>_. env), me_rows = None\<rparr>"

lemma op_read:
  "ApplyClientOp can env s a kind op g i = Some (Inr r, s') \<Longrightarrow> readLoop can (env_message env) s a kind i (op_message op g) = Some ([AckMsg r], s')"
  by (simp add: readLoop_def op_message_def env_message_def)

text \<open>The writers send nothing meanwhile.\<close>

definition idle :: "64 word \<Rightarrow> nat \<Rightarrow> nat" where "idle i k = 0"

lemma call_idle_one:
  "length (cn_out c) < 64 \<Longrightarrow> call_subscriber (idle i) [d] c = c\<lparr>cn_out := cn_out c @ [wire_of d]\<rparr>"
  by (simp add: idle_def writeLoop_def enqueue_def outboxBufferSize_def)

lemma connected_one:
  assumes "subs s i = Some b" and "subs s' i = Some (b @ [d])" and "cs i = Some c" and "length (cn_out c) < 64"
  shows "spread idle s s' cs i = Some (c\<lparr>cn_out := cn_out c @ [wire_of d]\<rparr>)"
  using assms call_idle_one by (simp add: spread_def box_def)

text \<open>A snapshot can arrive late. Between subscribing a connection and queueing its snapshot the handler holds no lock: an operation
  that is committed then is broadcast to the new connection before the snapshot, which does not contain it.\<close>

theorem snapshot_overtaken:
  assumes c: "sv_conns v i = Some c" "cn_pending c = []" and new: "subs (sv_session v) (nextSubID (sv_session v)) = None"
    and old: "i \<noteq> nextSubID (sv_session v)" and sub: "Subscribe (sv_session v) a = (sub, s1)"
    and op: "ApplyClientOp can env s1 (subActor (cn_sub c)) (cn_kind c) op g i = Some (Inr r, s2)"
  shows "\<exists>v' c'. server_step\<^sup>*\<^sup>* v v' \<and> sv_session v' = s2 \<and> wal s2 = wal (sv_session v) @ [crOp r] \<and> sv_conns v' (subID sub) = Some c' \<and> \<not> cn_cancelled c' \<and>
    stream c' = [BroadcastMsg r, SnapshotMsg (buildSnapshot (dPage (sDoc (sv_session v))) (dBlocks (sDoc (sv_session v)))) (Present sub) (Cursors sub) role]"
proof -
  let ?s = "sv_session v" let ?j = "nextSubID ?s" let ?snap = "SnapshotMsg (subSnapshot sub) (Present sub) (Cursors sub) role"
  note j = join_delivers[OF sub]
  let ?new = "\<lparr>cn_sub = sub, cn_kind = kind, cn_pending = [?snap], cn_out = [], cn_cancelled = False, cn_sent = [], cn_since = length (wal ?s)\<rparr>"
  define v1 where "v1 = connect idle a kind role v"
  have v1: "sv_session v1 = s1" "sv_conns v1 ?j = Some ?new" using sub j by (simp_all add: v1_def connect_def)
  obtain c1 where c1: "sv_conns v1 i = Some c1" "cn_pending c1 = []" "cn_sub c1 = cn_sub c" "cn_kind c1 = cn_kind c"
    using c old sub j call_fields by (auto simp: v1_def connect_def spread_def)
  define v2 where "v2 = update_conn i (cn_pending_update (\<lambda>_. [AckMsg r])) \<lparr>sv_session = s2, sv_conns = spread idle s1 s2 (sv_conns v1)\<rparr>"
  have s2: "subs s2 ?j = Some [Deliver r]" "wal s2 = wal ?s @ [crOp r]"
    using commit_delivered_once[OF op] j old by auto
  have "spread idle s1 s2 (sv_conns v1) ?j = Some (?new\<lparr>cn_out := [BroadcastMsg r]\<rparr>)"
    using connected_one[of s1 ?j "[]" s2 "Deliver r" "sv_conns v1" ?new] j s2(1) v1(2) by simp
  then have v2: "sv_session v2 = s2" "sv_conns v2 ?j = Some (?new\<lparr>cn_out := [BroadcastMsg r]\<rparr>)"
    using old by (simp_all add: v2_def update_conn_def)
  define v3 where "v3 = update_conn ?j queue_next v2"
  have v3: "sv_conns v3 (subID sub) = Some (?new\<lparr>cn_out := [BroadcastMsg r, ?snap], cn_pending := []\<rparr>)"
    using j v2(2) by (simp add: v3_def update_conn_def queue_next_def enqueue_def outboxBufferSize_def)
  have "server_step v v1" unfolding v1_def using new by (rule joins)
  moreover have "server_step v1 v2" unfolding v2_def
    using handles[OF c1(1,2), of can "env_message env" "op_message op g" "[AckMsg r]" s2 idle] op_read[OF op] c1(3,4) v1(1) by simp
  moreover have "server_step v2 v3" unfolding v3_def by (rule queues)
  ultimately have "server_step\<^sup>*\<^sup>* v v3" by (meson converse_rtranclp_into_rtranclp rtranclp.rtrancl_refl)
  moreover have "sv_session v3 = s2" using v2(1) by (simp add: v3_def update_conn_def)
  moreover have "subSnapshot sub = buildSnapshot (dPage (sDoc ?s)) (dBlocks (sDoc ?s))"
    using sub by (auto simp: Subscribe_def Let_def)
  ultimately show ?thesis using s2(2) v3
    by (intro exI[of _ v3] exI[of _ "?new\<lparr>cn_out := [BroadcastMsg r, ?snap], cn_pending := []\<rparr>"]) (simp add: stream_def)
qed

text \<open>An acknowledgement can arrive late. The session releases its lock before the handler queues the acknowledgement, so the
  operation another client sends next is broadcast before it: the client is told of the two in the wrong order.\<close>

theorem ack_overtaken:
  assumes i: "sv_conns v i = Some c" "cn_pending c = []" "\<not> cn_cancelled c" "length (cn_out c) < 63" "subs (sv_session v) i = Some b"
    and k: "sv_conns v k = Some d" "cn_pending d = []" "i \<noteq> k"
    and one: "ApplyClientOp can env (sv_session v) (subActor (cn_sub c)) (cn_kind c) op g i = Some (Inr r, s1)"
    and two: "ApplyClientOp can env' s1 (subActor (cn_sub d)) (cn_kind d) op' g' k = Some (Inr r', s2)"
  shows "\<exists>v' c'. server_step\<^sup>*\<^sup>* v v' \<and> sv_conns v' i = Some c' \<and> stream c' = stream c @ [BroadcastMsg r', AckMsg r] \<and>
    wal (sv_session v') = wal (sv_session v) @ [crOp r, crOp r']"
proof -
  let ?s = "sv_session v"
  define v1 where "v1 = update_conn i (cn_pending_update (\<lambda>_. [AckMsg r])) \<lparr>sv_session = s1, sv_conns = spread idle ?s s1 (sv_conns v)\<rparr>"
  have s1: "subs s1 i = Some b" "wal s1 = wal ?s @ [crOp r]" using commit_delivered_once[OF one] i(5) by auto
  have "spread idle ?s s1 (sv_conns v) i = Some c" using i s1 by (simp add: spread_def box_def)
  then have c1: "sv_conns v1 i = Some (c\<lparr>cn_pending := [AckMsg r]\<rparr>)" "sv_session v1 = s1" by (simp_all add: v1_def update_conn_def)
  obtain d1 where d1: "sv_conns v1 k = Some d1" "cn_pending d1 = []" "cn_sub d1 = cn_sub d" "cn_kind d1 = cn_kind d"
    using k call_fields by (auto simp: v1_def update_conn_def spread_def)
  define v2 where "v2 = update_conn k (cn_pending_update (\<lambda>_. [AckMsg r'])) \<lparr>sv_session = s2, sv_conns = spread idle s1 s2 (sv_conns v1)\<rparr>"
  have s2: "subs s2 i = Some (b @ [Deliver r'])" "wal s2 = wal s1 @ [crOp r']" using commit_delivered_once[OF two] s1 k(3) by auto
  have "spread idle s1 s2 (sv_conns v1) i = Some (c\<lparr>cn_pending := [AckMsg r], cn_out := cn_out c @ [BroadcastMsg r']\<rparr>)"
    using connected_one[of s1 i b s2 "Deliver r'" "sv_conns v1" "c\<lparr>cn_pending := [AckMsg r]\<rparr>"] s1(1) s2(1) c1(1) i(4) by simp
  then have c2: "sv_conns v2 i = Some (c\<lparr>cn_pending := [AckMsg r], cn_out := cn_out c @ [BroadcastMsg r']\<rparr>)" "sv_session v2 = s2"
    using k(3) by (simp_all add: v2_def update_conn_def)
  define v3 where "v3 = update_conn i queue_next v2"
  have c3: "sv_conns v3 i = Some (c\<lparr>cn_pending := [], cn_out := cn_out c @ [BroadcastMsg r', AckMsg r]\<rparr>)" "sv_session v3 = s2"
    using c2 i(4) by (simp_all add: v3_def update_conn_def queue_next_def enqueue_def outboxBufferSize_def)
  have "server_step v v1" unfolding v1_def by (rule handles[OF i(1,2) op_read[OF one]])
  moreover have "server_step v1 v2" unfolding v2_def
    using handles[OF d1(1,2), of can "env_message env'" "op_message op' g'" "[AckMsg r']" s2 idle] op_read[OF two] d1(3,4) c1(2) by simp
  moreover have "server_step v2 v3" unfolding v3_def by (rule queues)
  ultimately have "server_step\<^sup>*\<^sup>* v v3" by (meson converse_rtranclp_into_rtranclp rtranclp.rtrancl_refl)
  then show ?thesis using c3 s1(2) s2(2) i(2) by (intro exI[of _ v3]) (auto simp: stream_def)
qed

subsection \<open>Who may change the page\<close>

lemma same_group: "gs \<noteq> [] \<Longrightarrow> butlast gs @ [\<lparr>groupID = groupID (last gs), inverses = inverses (last gs)\<rparr>] = gs"
  by (cases "last gs") (metis append_butlast_last_id undoGroup.select_convs)

lemma undo_denied:
  assumes "\<And>op. \<not> can (sPageID s) op a kind" and "stacks_ok s"
  shows "\<exists>e. Session_Undo can gid envs s a kind i = Some (([], e), s)" and "\<exists>e. Session_Redo can gid envs s a kind i = Some (([], e), s)"
proof -
  have loop: "ops \<noteq> [] \<Longrightarrow> commit_loop can envs a kind g i k ops s = Some ([], [], ops, Some Denied, s)" for ops g k
    using assms(1) by (cases ops) simp_all
  have u: "inverses (last (undo s a)) \<noteq> []" if "undo s a \<noteq> []"
    using assms(2) that last_in_set by (auto simp: stacks_ok_def stack_ok_def)
  have r: "inverses (last (redo s a)) \<noteq> []" if "redo s a \<noteq> []"
    using assms(2) that last_in_set by (auto simp: stacks_ok_def stack_ok_def)
  show "\<exists>e. Session_Undo can gid envs s a kind i = Some (([], e), s)"
  proof (cases "undo s a = [] \<or> gid = None")
    case True
    then show ?thesis by (auto simp: Session_Undo_def Let_def)
  next
    case False
    then show ?thesis using loop[of "rev (inverses (last (undo s a)))"] u by (auto simp: Session_Undo_def Let_def same_group)
  qed
  show "\<exists>e. Session_Redo can gid envs s a kind i = Some (([], e), s)"
  proof (cases "redo s a = [] \<or> gid = None")
    case True
    then show ?thesis by (auto simp: Session_Redo_def Let_def)
  next
    case False
    then show ?thesis using loop[of "inverses (last (redo s a))"] r by (auto simp: Session_Redo_def Let_def same_group append_all_def)
  qed
qed

lemma restore_denied:
  assumes "\<And>op. \<not> can (sPageID s) op a kind" and "RestoreTo can gid envs rows s a kind n i = Some (r, s')"
  shows "\<exists>e. r = ([], e) \<and> s' = s"
proof -
  have loop: "ops \<noteq> [] \<Longrightarrow> commit_loop can envs a kind g i k ops s = Some ([], [], ops, Some Denied, s)" for ops g k
    using assms(1) by (cases ops) simp_all
  show ?thesis
  proof (cases "\<exists>confirmed steps g. rows = Some confirmed \<and> Trace (serverActor s) (sPageID s) (map lOp confirmed) = Some (Inr steps) \<and>
      0 \<le> n \<and> n < int (length steps) - 1 \<and> gid = Some g")
    case True
    then obtain confirmed steps g where t: "rows = Some confirmed" "Trace (serverActor s) (sPageID s) (map lOp confirmed) = Some (Inr steps)"
      "0 \<le> n" "n < int (length steps) - 1" "gid = Some g" by blast
    then have "rev (map tsInverse (drop (nat n + 1) steps)) \<noteq> []" by auto
    from loop[OF this] show ?thesis using assms(2) t by (auto simp: RestoreTo_def)
  next
    case False
    then show ?thesis using assms(2) by (auto simp: RestoreTo_def split: option.splits sum.splits if_splits)
  qed
qed

text \<open>Who may not apply changes nothing: whatever such a client sends, the page, its live texts, the log, the queue to the database and all
  undo stacks stay as they are; at most its cursor moves.\<close>

theorem reader_changes_nothing:
  assumes "\<And>op. \<not> can (sPageID s) op a kind" and "stacks_ok s" and "readLoop can env s a kind i msg = Some (frames, s')"
  shows "acks frames = [] \<and> s'\<lparr>subs := subs s, cursors := cursors s\<rparr> = s"
proof -
  have same: "s\<lparr>subs := subs s, cursors := cursors s\<rparr> = s" by simp
  have tell: "acks (enqueueUndoRedoAcks ([], e)) = []" for e using answers_tell[of "[]" e] by simp
  have u: "\<exists>e. Session_Undo can (me_group env) (me_envs env) s a kind i = Some (([], e), s)"
      "\<exists>e. Session_Redo can (me_group env) (me_envs env) s a kind i = Some (([], e), s)"
    using undo_denied[where can = can and a = a and kind = kind] assms(1,2) by blast+
  consider "cm_Type msg = ''op''" | "cm_Type msg = ''undo''" | "cm_Type msg = ''redo''" | "cm_Type msg = ''restore''" | "cm_Type msg = ''cursor''"
    | "cm_Type msg \<notin> {''op'', ''undo'', ''redo'', ''restore'', ''cursor''}" by blast
  then show ?thesis
  proof cases
    case 1
    then show ?thesis using assms(1,3) same by (cases "cm_Op msg") (auto simp: readLoop_def ApplyClientOp_def)
  next
    case 2
    then show ?thesis using assms(3) u(1) same tell by (auto simp: readLoop_def)
  next
    case 3
    then show ?thesis using assms(3) u(2) same tell by (auto simp: readLoop_def)
  next
    case 4
    have d: "RestoreTo can (me_group env) (me_envs env) (me_rows env) s a kind n i = Some (r, s1) \<Longrightarrow> \<exists>e. r = ([], e) \<and> s1 = s" for n r s1
      using restore_denied[where can = can and a = a and kind = kind] assms(1) by blast
    show ?thesis using assms(3) same tell 4 by (cases "cm_ToStep msg") (auto simp: readLoop_def apfst_def map_prod_def split: prod.splits dest!: d)
  next
    case 5
    then show ?thesis using assms(3) same by (cases "cm_Cursor msg") (auto simp: readLoop_def SetCursor_def broadcast_def Let_def)
  next
    case 6
    then show ?thesis using assms(3) same by (auto simp: readLoop_def)
  qed
qed

text \<open>The predicate the service is started with: the directory of roles, asked at the time of the operation.\<close>

definition directory_can :: "int \<Rightarrow> Directory \<Rightarrow> can_apply" where
  "directory_can now dir = (\<lambda>page op actor kind. CanApply now page actor dir)"

theorem viewer_changes_nothing:
  assumes "Role_of now (sPageID s) a dir \<notin> {Some ''editor'', Some ''admin''}" and "stacks_ok s"
    and "readLoop (directory_can now dir) env s a kind i msg = Some (frames, s')"
  shows "acks frames = [] \<and> s'\<lparr>subs := subs s, cursors := cursors s\<rparr> = s"
proof -
  have "\<not> directory_can now dir (sPageID s) op a kind" for op
    using assms(1) by (auto simp: directory_can_def CanApply_def CanWrite_def split: option.split)
  then show ?thesis using reader_changes_nothing[where can = "directory_can now dir" and a = a and kind = kind] assms(2,3) by blast
qed

subsection \<open>A sample\<close>

lemma Subscribe_document:
  assumes "Subscribe s a = (sub, s')"
  shows "sDoc s' = sDoc s" "serverActor s' = serverActor s" "sPageID s' = sPageID s" "nextSubID s' = nextSubID s + 1" "sBlockIndex s' = sBlockIndex s" "subActor sub = a"
  using assms by (auto simp: Subscribe_def Let_def)

lemma sample_commit:
  assumes "index_ok s" and "sDoc s = new_doc 7" and "serverActor s = ''srv''"
  obtains r s' where "ApplyClientOp allow_all (env_of 50) s 3 ''user'' sample_insert None 0 = Some (Inr r, s')"
proof -
  obtain u d where "applyReplayedOp ''srv'' (new_doc 7) sample_insert = Some (Inr u, d)"
    using sample_log_clean by (auto split: option.splits prod.splits sum.splits)
  then have u: "applyReplayedOp (serverActor s) (sDoc s) sample_insert = Some (Inr u, d)" using assms by simp
  obtain r s' where "commitOpLocked (env_of 50) s 3 ''user'' sample_insert None 0 = Some (Inr (r, u), s')"
    by (rule commit_is_replay[OF assms(1) u env_of_ok])
  then show ?thesis using that by (simp add: ApplyClientOp_def allow_all_def)
qed


end
