(* ===== verification/Spec2Isabelle.thy ===== *)
theory Spec2Isabelle
  imports Histories SessionProps Wal Flush BlockProjLaws Paths Toposort PageSaga PageServerLaws
    BkTree TextDiff NetSim Login Roles MdPaste
    ReadingPath Diagnostics Sketch Trie Syntax Comments Connections
begin

text \<open>
  A verification development of marginal, a notebook whose pages are edited together, written in
  Go as a set of services. This file imports every theory and says what they hold.

  \<^bold>\<open>The program.\<close> A page is a list of blocks with inline marks (services/documentcore). While people
  edit it, collaboration-service keeps it in a live session: a rope and a log of character
  identities for each block, an undo stack for each person, a local log on disk and a flush loop
  to the database. document-service keeps the tree of pages in a table, deletes pages with a saga,
  and answers who may read or write a page from its own copy of the memberships that auth-service
  owns. services/graphalgo works on the graph of links between pages. The parts interact: the session calls
  documentcore and the ropes for every operation; the page service asks the projection of
  memberships before it calls the repository; the projection applies the events auth-service writes.

  \<^bold>\<open>The document core\<close> (documentcore).
  \<^item> Prelude: slices with Go's out-of-range cases, results of operations that fail. Utf8: decoding.
  \<^item> Blocks: block.go, ids.go. Kinds, their constructors, decoding and encoding.
  \<^item> Inline: inline.go. Marks on ranges; adding and removing are union and difference of
    ranges and keep a canonical form.
  \<^item> Pages: page.go, operation.go. The page as a list of blocks, the operations with their checks in order,
    what a failing operation leaves behind, inverses.
  \<^item> PageTree, PageSlots, PageLaws: the tree a list of blocks spells, where an operation puts its blocks;
    every operation keeps pages well formed, and its inverse restores the page.
  \<^item> Invertible, Histories: a locale of invertible operations, and history.go, whose undo and redo stacks
    rest on it through the interpretation on pages.

  \<^bold>\<open>Live text\<close> (collaboration-service: rope, anchor, doctext, ops).
  \<^item> ByteText: a locale of editable byte text; Rope, RopeLaws: rope.go with its cached weights and
    rebuilding, an interpretation of that locale: ropes are refined by flat strings.
  \<^item> Anchors, AnchorLog: identities, the log with its index, resolving anchors, again through a locale.
  \<^item> DocText, TextOps: doctext.go and ops.go; a text is a list of characters with identities, and the inverse of
    a character operation restores it.

  \<^bold>\<open>The session\<close> (collaboration-service: session, pageop, oplog, wal, flush).
  \<^item> LiveDoc: the page and its live texts, replay and the trace view. Session: session.go, commits,
    undo, redo, restoring, presence, cursors, opening from the log. SessionLaws, SessionProps: the
    page and the live texts stay in step, undo gives back the page, reopening from any
    confirmed prefix and the local log gives back the live document, presence counts connections.
  \<^item> Wal: wal.go over a file of bytes; a crash in the middle of a write loses no acknowledged record.
  \<^item> Flush: flush.go as a step relation; accepted operations reach the store in order.
  \<^item> OpStore: opstore, outbox and outboxpoll; the tables of operations and of events, appending in batches, and polls
    that publish the events. Each operation is stored once and published in the end.
  \<^item> BlockProj, BlockProjLaws: document-service's blockproj, which follows the published operations and keeps the tables of
    blocks and of links; where it agrees with the live page and where not.

  \<^bold>\<open>Pages and spaces\<close> (document-service, auth-service).
  \<^item> SortKey: sortkey.go; keys between keys. PagePaths, PageTable: rows, queries and path operators of
    the database. PageRepo, PageRepoLaws, PageRepoProps: pages/repo.go; paths follow the parents under all
    operations, a delete marks exactly a subtree, and what overlapping moves do.
  \<^item> PageSaga: pagesaga, with the row locks a sweep holds.
  \<^item> Spaces: auth-service's spaces, roles and invitations as transactions over tables; every space keeps
    an admin, with the exceptions the code has. SpaceProj: the projection of memberships follows the events.
  \<^item> PageServer, PageServerLaws: pages/api.go; who may read and write, listing page by page.

  \<^bold>\<open>Who is who\<close> (auth-service, collaboration-service).
  \<^item> RefreshTokens: the refresh tokens and their rotation. One login has at most one active token, and once one of
    its tokens is used twice the login is over; overlapping refreshes are the exception.
  \<^item> Login: signing in and the lock after failures. Roles: the roles of open connections, resolved through
    document-service and auth-service when a connection joins. Connections: wsapi.go and subscriber.go; the handlers, bounded buffers and
    writers of all connections of a page interleaved. Each connection is told every later operation once; what may overtake what.

  \<^bold>\<open>Comments and notifications\<close> (collaboration-service, notification-service). Mentions: mention.go, wsapi/mentions.go and
  Members of roles/resolver.go; whom a comment mentions. Notify: notify.go, subscriber.go, handler.go of internal/notify; one
  notification for each event, and an inbox that shows and clears only its owner's rows. Comments: wsapi/comments.go; remarks are
  kept, the list of a page is complete, and a mention reaches its person through the outbox and the events when its message does.

  \<^bold>\<open>Links\<close> (graphalgo). Graphs, Paths: graph.go, paths.go, components.go. Toposort: toposort.go.
  Cycles: cycles.go; the search for a cycle returns on every graph and is exact. ReadingPath: readingpath.go; what to read before
  a page, in an order that follows the links.

  \<^bold>\<open>Diagnostics\<close> (diagnostics-service). Analyzers: internal/analyzers, the checks of a page against all titles and links. Facts:
  internal/facts, definitions and references and what a change makes stale. Diagnostics: internal/service/server.go, composed with the
  handler of document-service that lists pages; facts are read from top-level pages only.

  \<^bold>\<open>Searching and comparing texts.\<close> BkTree: bktree.go, the fuzzy search over titles, through a locale of
  distances that the edit distance is an interpretation of. Trie: trie.go, completion of titles. TextDiff: textdiff.go.

  \<^bold>\<open>Coloring and counting.\<close> RuneText: runes to text and back. Syntax: syntax.go; the tokens together are the text. Sketch: the
  counting part of module sketch; between which bounds an estimate lies.

  \<^bold>\<open>Pasting Markdown\<close> (mdc). MdLex: lex.go; the tokens tile the source. MdInline: inline.go; marks in a line.
  MdTree: tree.go and Emit; replaying what was emitted gives the tree back. MdCompile: lower.go and compile.go;
  MdLaws: compiling returns for every text, its blocks follow the grammar and the check of the round trip holds.
  MdPaste: the compiled operations on a page of documentcore, and the pastes that are lost. Decimal: numbers as text.

  \<^bold>\<open>The network simulation\<close> (netsim). Ot: ot.go; concurrent operations converge. NetSim: sim.go, the whole run on a
  seeded wire; the server's text is the replay of its log, and what the rollback of the clients loses.

  \<^bold>\<open>Conventions.\<close> Text is a list of bytes (type string), as in Go. Identifiers are 128-bit words.
  Time is a number an operation is given. A Go error is a value of a sum or option type; a panic is
  a value too (the outer None, or a constructor Panic). A table is a list of rows and a transaction
  a function from the tables to an error or new tables; where overlapping transactions matter, what is read
  and what is written are separate definitions. Code outside the repository (random identifiers,
  parsing of identifiers, the network, clocks, authorization callbacks) is an argument of the
  definitions that use it. Loops are recursive functions with a termination proof; where a loop might not end, it is a
  partial function into option, and a theorem says that it returns.

  \<^bold>\<open>Not modelled.\<close> JSON and protobuf encodings as text, HTTP and gRPC handlers, SQL as text, logging,
  configuration and start-up; generated clients; cryptographic calls; the screens that only read (audit, statistics, discovery); floating-point code (embeddings, HyperLogLog and t-digest, layout, centrality); and the
  demonstrations beside the product. The manifest lists every part with its state.
\<close>

end
